(* ===== verification/Prelude.thy ===== *)
theory Prelude
  imports Main "HOL-Library.Word"
begin

text \<open>
  Shared vocabulary of the development: the machine types of the C sources, byte strings
  and their big- and little-endian values, results of C functions, and the list and word
  lemmas that the components use.  \<open>size_t\<close> is the 64-bit word of the arm64 build; a list
  of bytes stands for a pointer together with the number of bytes that may be read from it.
\<close>

unbundle bit_operations_syntax

named_theorems wire_simps "unfolding rules of the readers and writers"
named_theorems byte_simps "facts about single bytes and their bit fields"

type_synonym byte = "8 word"
type_synonym bytes = "8 word list"
type_synonym u16 = "16 word"
type_synonym u32 = "32 word"
type_synonym u64 = "64 word"

section \<open>Word arithmetic\<close>

lemma unat_ucast_le:
  fixes x :: "'a::len word"
  assumes "LENGTH('a) \<le> LENGTH('b::len)"
  shows "unat (ucast x :: 'b word) = unat x"
proof -
  have "unat x < 2 ^ LENGTH('b)"
    using assms by (meson less_le_trans one_le_numeral power_increasing unsigned_less)
  then show ?thesis
    by (simp add: unsigned_ucast_eq take_bit_nat_eq_self_iff)
qed

lemma unat_ucast_byte [simp]:
  "unat (ucast (b :: byte) :: u64) = unat b"
  "unat (ucast (b :: byte) :: u32) = unat b"
  "unat (ucast (b :: byte) :: u16) = unat b"
  by (simp_all add: unat_ucast_le)

lemma unat_ucast_wide [simp]:
  "unat (ucast (x :: u32) :: u64) = unat x"
  "unat (ucast (y :: u16) :: u64) = unat y"
  "unat (ucast (y :: u16) :: u32) = unat y"
  by (simp_all add: unat_ucast_le)

lemma unat_ucast_narrow:
  fixes x :: "'a::len word"
  shows "unat (ucast x :: 'b::len word) = unat x mod 2 ^ LENGTH('b)"
  by (simp add: unsigned_ucast_eq take_bit_eq_mod)

lemma unat_byte_less [simp]: "unat (b :: byte) < 256"
  using unsigned_less [of b] by simp

lemma unat_byte_le [simp]: "unat (b :: byte) \<le> 255"
  using unat_byte_less [of b] by linarith

lemma push_bit_or_eq_plus:
  fixes r x :: "'a::len word"
  assumes "unat x < 2 ^ n"
  shows "push_bit n r OR x = push_bit n r + x"
proof -
  have "\<not> bit (push_bit n r) k \<or> \<not> bit x k" for k
  proof (cases "k < n")
    case True
    then show ?thesis by (simp add: bit_push_bit_iff)
  next
    case False
    then have "unat x < 2 ^ k"
      using assms by (meson less_le_trans linorder_not_less one_le_numeral power_increasing)
    then have "take_bit k (unat x) = unat x" by (rule take_bit_nat_eq_self)
    then have "\<not> bit (unat x) k"
      using bit_take_bit_iff [of k "unat x" k] by simp
    then have "\<not> bit x k" by (simp add: bit_unsigned_iff)
    then show ?thesis by simp
  qed
  then show ?thesis by (metis disjunctive_add)
qed

lemma unat_push_bit_or:
  fixes r x :: "'a::len word"
  assumes "unat x < 2 ^ n" and "2 ^ n * unat r + unat x < 2 ^ LENGTH('a)"
  shows "unat (push_bit n r OR x) = 2 ^ n * unat r + unat x"
proof -
  have "unat (push_bit n r) = take_bit LENGTH('a) (push_bit n (unat r))"
    by (simp add: unsigned_push_bit_eq)
  also have "\<dots> = 2 ^ n * unat r"
    using assms(2) by (simp add: push_bit_eq_mult mult.commute take_bit_nat_eq_self)
  finally have p: "unat (push_bit n r) = 2 ^ n * unat r" .
  then show ?thesis
    using assms by (simp add: push_bit_or_eq_plus unat_word_ariths)
qed

lemma word_nat_lift:
  fixes x y :: "'a::len word"
  shows "x = y \<longleftrightarrow> unat x = unat y"
  by (simp add: word_unat_eq_iff)

lemma unat_drop_bit: "unat (drop_bit n (w :: 'a::len word)) = unat w div 2 ^ n"
  by (simp only: unat_drop_bit_eq drop_bit_eq_div [where 'a = nat])

lemma mult8_div8: "8 * w div 8 = (w :: u64) \<Longrightarrow> unat w < 2 ^ 61"
proof -
  assume w: "8 * w div 8 = w"
  have "unat w = unat (8 * w div 8)" by (simp only: w)
  also have "\<dots> = unat (8 * w) div 8" by (simp only: unat_div) simp
  also have "\<dots> < 2 ^ 61" using unsigned_less [of "8 * w", where 'a = nat] by (simp add: less_mult_imp_div_less)
  finally show ?thesis .
qed

lemma no_wrap_add:
  fixes x y :: u64
  assumes "\<not> x + y < x"
  shows "unat (x + y) = unat x + unat y" "unat x + unat y < 2 ^ 64"
proof -
  show lt: "unat x + unat y < 2 ^ 64"
  proof (rule ccontr)
    assume ge: "\<not> unat x + unat y < 2 ^ 64"
    have "unat x < 2 ^ 64" "unat y < 2 ^ 64" using unsigned_less [of x] unsigned_less [of y] by simp_all
    with ge have "(unat x + unat y) mod 2 ^ 64 = unat x + unat y - 2 ^ 64"
      by (subst le_mod_geq) simp_all
    with ge \<open>unat y < 2 ^ 64\<close> assms show False by (simp add: word_less_nat_alt unat_word_ariths)
  qed
  then show "unat (x + y) = unat x + unat y" by (simp add: unat_word_ariths)
qed

lemma drop_bit_eq_0_iff_unat:
  fixes v :: "'a::len word"
  shows "drop_bit n v = 0 \<longleftrightarrow> unat v < 2 ^ n"
proof -
  have "drop_bit n v = 0 \<longleftrightarrow> unat (drop_bit n v) = 0" by (simp only: unat_0_iff)
  also have "\<dots> \<longleftrightarrow> unat v div 2 ^ n = 0"
    by (simp only: unat_drop_bit_eq drop_bit_eq_div [where 'a = nat])
  finally have "drop_bit n v = 0 \<longleftrightarrow> unat v div 2 ^ n = 0" .
  then show ?thesis by (simp add: div_eq_0_iff)
qed

section \<open>Byte strings and the numbers they encode\<close>

definition be_val :: "bytes \<Rightarrow> nat" where
  "be_val bs = foldl (\<lambda>a b. 256 * a + unat b) 0 bs"

fun le_val :: "bytes \<Rightarrow> nat" where
  "le_val [] = 0"
| "le_val (b # bs) = unat b + 256 * le_val bs"

lemma be_val_Nil [simp]: "be_val [] = 0"
  by (simp add: be_val_def)

lemma be_val_snoc [simp]: "be_val (bs @ [b]) = 256 * be_val bs + unat b"
  by (simp add: be_val_def)

lemma be_val_Cons: "be_val (b # bs) = 256 ^ length bs * unat b + be_val bs"
  by (induction bs rule: rev_induct)
    (simp_all add: be_val_def algebra_simps)

lemma be_val_append: "be_val (xs @ ys) = 256 ^ length ys * be_val xs + be_val ys"
  by (induction ys rule: rev_induct) (simp_all add: append_assoc [symmetric] algebra_simps
      del: append_assoc)

lemma be_val_less: "be_val bs < 256 ^ length bs"
proof (induction bs rule: rev_induct)
  case Nil
  show ?case by simp
next
  case (snoc b bs)
  have "256 * be_val bs + unat b < 256 * Suc (be_val bs)" by simp
  also have "\<dots> \<le> 256 * 256 ^ length bs"
    using snoc by (intro mult_le_mono2) simp
  finally show ?case by simp
qed

lemma be_val_rev: "be_val (rev bs) = le_val bs"
  by (induction bs) simp_all

lemma le_val_rev: "le_val (rev bs) = be_val bs"
  using be_val_rev [of "rev bs"] by simp

lemma le_val_less: "le_val bs < 256 ^ length bs"
  using be_val_less [of "rev bs"] by (simp add: be_val_rev)

lemma base256_cong:
  fixes a b x y :: nat
  assumes "256 * a + x = 256 * b + y" "x < 256" "y < 256"
  shows "a = b \<and> x = y"
proof -
  have "(256 * a + x) div 256 = a" "(256 * b + y) div 256 = b" using assms(2,3) by simp_all
  with assms(1) show ?thesis by simp
qed

lemma be_val_inj: "length xs = length ys \<Longrightarrow> be_val xs = be_val ys \<Longrightarrow> xs = ys"
proof (induction xs arbitrary: ys rule: rev_induct)
  case Nil
  then show ?case by simp
next
  case (snoc x xs)
  then obtain y ys' where ys: "ys = ys' @ [y]" and len: "length xs = length ys'"
    by (cases ys rule: rev_cases) auto
  with snoc.prems have eq: "256 * be_val xs + unat x = 256 * be_val ys' + unat y"
    by simp
  have "unat x < 256" "unat y < 256" by simp_all
  with eq have "unat x = unat y" "be_val xs = be_val ys'" using base256_cong by blast+
  with snoc.IH [OF len] ys show ?case by (simp add: word_nat_lift)
qed

text \<open>Accumulating bytes most significant first, as the readers of 64-bit values do.\<close>

definition be_word :: "bytes \<Rightarrow> u64" where
  "be_word bs = foldl (\<lambda>r b. push_bit 8 r OR ucast b) 0 bs"

lemma be_word_snoc: "be_word (bs @ [b]) = push_bit 8 (be_word bs) OR ucast b"
  by (simp add: be_word_def)

lemma unat_be_word: "length bs \<le> 8 \<Longrightarrow> unat (be_word bs) = be_val bs"
proof (induction bs rule: rev_induct)
  case Nil
  show ?case by (simp add: be_word_def)
next
  case (snoc b bs)
  then have IH: "unat (be_word bs) = be_val bs" by simp
  have "be_val (bs @ [b]) < 256 ^ length (bs @ [b])" by (rule be_val_less)
  also have "\<dots> \<le> 256 ^ 8" using snoc.prems by (intro power_increasing) simp_all
  finally have "2 ^ 8 * unat (be_word bs) + unat b < 2 ^ 64" using IH by simp
  then show ?case
    using unat_push_bit_or [of "ucast b :: u64" 8 "be_word bs"] IH
    by (simp add: be_word_snoc)
qed

text \<open>The loop that stores a value from the last byte to the first: the bytes written in
  front of \<open>acc\<close> and what is left of the value.\<close>

fun put_be :: "nat \<Rightarrow> u64 \<Rightarrow> bytes \<Rightarrow> bytes \<times> u64" where
  "put_be 0 v acc = (acc, v)"
| "put_be (Suc n) v acc = put_be n (drop_bit 8 v) (ucast v # acc)"

definition be_bytes :: "nat \<Rightarrow> nat \<Rightarrow> bytes" where
  "be_bytes n v = rev (map (\<lambda>i. word_of_nat (v div 256 ^ i)) [0..<n])"

lemma length_be_bytes [simp]: "length (be_bytes n v) = n"
  by (simp add: be_bytes_def)

lemma be_bytes_0 [simp]: "be_bytes 0 v = []"
  by (simp add: be_bytes_def)

lemma be_bytes_Suc: "be_bytes (Suc n) v = be_bytes n (v div 256) @ [word_of_nat v]"
proof -
  have "map (\<lambda>i. word_of_nat (v div 256 ^ i) :: byte) [0..<Suc n]
    = word_of_nat v # map (\<lambda>i. word_of_nat (v div 256 div 256 ^ i)) [0..<n]"
    by (simp add: upt_conv_Cons map_Suc_upt [symmetric] div_mult2_eq del: upt_Suc)
  then show ?thesis by (simp add: be_bytes_def del: upt_Suc)
qed

lemma put_be_eq:
  "put_be n v acc = (be_bytes n (unat v) @ acc, drop_bit (8 * n) v)"
proof (induction n arbitrary: v acc)
  case 0
  then show ?case by simp
next
  case (Suc n)
  have "unat (drop_bit 8 v) = unat v div 256"
    using unat_drop_bit_eq [of 8 v] by (simp only: drop_bit_eq_div) simp
  moreover have "drop_bit (8 * n) (drop_bit 8 v) = drop_bit (8 * Suc n) v"
    by (simp add: add.commute)
  ultimately show ?case
    by (simp only: put_be.simps Suc be_bytes_Suc) simp
qed

lemma be_val_be_bytes: "be_val (be_bytes n v) = v mod 256 ^ n"
proof (induction n arbitrary: v)
  case 0
  then show ?case by simp
next
  case (Suc n)
  have "unat (word_of_nat v :: byte) = v mod 256"
    by (simp add: unat_of_nat)
  then show ?case
    by (simp add: be_bytes_Suc Suc mod_mult2_eq)
qed

lemma be_bytes_be_val: "be_bytes (length bs) (be_val bs) = bs"
  by (rule be_val_inj) (simp_all add: be_val_be_bytes be_val_less)

section \<open>Memory blocks\<close>

text \<open>Storing \<open>bs\<close> at offset \<open>off\<close> of a block that is long enough.\<close>

definition write_at :: "nat \<Rightarrow> 'a list \<Rightarrow> 'a list \<Rightarrow> 'a list" where
  "write_at off bs xs = take off xs @ bs @ drop (off + length bs) xs"

lemma length_write_at [simp]:
  "off + length bs \<le> length xs \<Longrightarrow> length (write_at off bs xs) = length xs"
  by (simp add: write_at_def)

lemma write_at_prefix:
  "write_at (length xs) bs (xs @ ys @ zs) = xs @ bs @ zs" if "length bs = length ys"
  using that by (simp add: write_at_def)

section \<open>Bit fields of bytes\<close>

lemma word_and_mask_unat:
  fixes x :: "'a::len word"
  shows "unat (x AND mask n) = unat x mod 2 ^ n"
proof -
  have "x AND mask n = take_bit n x" by (simp add: take_bit_eq_mask)
  then have "unat (x AND mask n) = take_bit n (unat x)" by (simp only: unsigned_take_bit_eq)
  then show ?thesis by (simp only: take_bit_eq_mod)
qed

lemma byte_and_low [byte_simps]:
  fixes b :: byte
  shows "unat (b AND 0x3f) = unat b mod 64"
    and "unat (b AND 0x7f) = unat b mod 128"
    and "unat (b AND 0x1f) = unat b mod 32"
    and "unat (b AND 0x0f) = unat b mod 16"
    and "unat (b AND 7) = unat b mod 8"
  using word_and_mask_unat [of b 6] word_and_mask_unat [of b 7] word_and_mask_unat [of b 5]
    word_and_mask_unat [of b 4] word_and_mask_unat [of b 3]
  by (simp_all add: mask_eq_exp_minus_1)

lemma byte_msb [byte_simps]: "(b :: byte) AND 0x80 = 0 \<longleftrightarrow> unat b < 128"
proof -
  have "b AND 0x80 = 0 \<longleftrightarrow> \<not> bit b 7"
    using bit_iff_and_push_bit_not_eq_0 [of b 7] by simp
  also have "\<dots> \<longleftrightarrow> even (unat b div 128)"
  proof -
    have "bit (unat b) 7 \<longleftrightarrow> bit b 7" by (simp add: bit_unsigned_iff)
    moreover have "bit (unat b) 7 \<longleftrightarrow> odd (unat b div 128)" by (simp add: bit_iff_odd)
    ultimately show ?thesis by blast
  qed
  also have "\<dots> \<longleftrightarrow> unat b < 128"
  proof -
    have "unat b div 128 < 2" by (simp add: less_mult_imp_div_less)
    then have "unat b div 128 = 0 \<or> unat b div 128 = 1" by linarith
    then show ?thesis by (auto simp: div_eq_0_iff)
  qed
  finally show ?thesis .
qed

lemma byte_split_bit7: "unat (b :: byte) = (if unat b < 128 then 0 else 128) + unat b mod 128"
proof -
  have "unat b div 128 < 2" by (simp add: less_mult_imp_div_less)
  then have "unat b div 128 = 0 \<or> unat b div 128 = 1" by linarith
  then show ?thesis
  proof
    assume "unat b div 128 = 0"
    then show ?thesis by (simp add: div_eq_0_iff)
  next
    assume 1: "unat b div 128 = 1"
    then have eq: "unat b = 128 + unat b mod 128" using mult_div_mod_eq [of 128 "unat b"] by simp
    then have "\<not> unat b < 128" by linarith
    with eq show ?thesis by (simp only: if_False)
  qed
qed

section \<open>Codes on byte strings\<close>

text \<open>
  The interface between a writer and the reader of its output: the reader, applied to the
  writer's bytes followed by anything, returns the value and leaves what follows.  A code is
  canonical when the reader accepts nothing but the writer's output.
\<close>

locale wire_code =
  fixes enc :: "'a \<Rightarrow> bytes"
    and dec :: "bytes \<Rightarrow> 'a option \<times> bytes"
    and valid :: "'a \<Rightarrow> bool"
  assumes dec_enc: "valid v \<Longrightarrow> dec (enc v @ r) = (Some v, r)"
begin

lemma enc_unique: "valid v \<Longrightarrow> valid w \<Longrightarrow> enc v @ r = enc w @ s \<Longrightarrow> v = w \<and> r = s"
  by (metis Pair_inject dec_enc option.inject)

lemma enc_inj: "valid v \<Longrightarrow> valid w \<Longrightarrow> enc v = enc w \<Longrightarrow> v = w"
  by (rule enc_unique [THEN conjunct1, of v w "[]" "[]"]) simp_all

end

locale canonical_code = wire_code +
  assumes dec_only: "dec bs = (Some v, r) \<Longrightarrow> valid v \<and> bs = enc v @ r"
begin

lemma dec_iff: "dec bs = (Some v, r) \<longleftrightarrow> valid v \<and> bs = enc v @ r"
  using dec_only dec_enc by blast

end

text \<open>Reading \<open>n\<close> values in a row, stopping at the first failure.\<close>

fun read_many :: "(bytes \<Rightarrow> 'a option \<times> bytes) \<Rightarrow> nat \<Rightarrow> bytes \<Rightarrow> 'a list option \<times> bytes" where
  "read_many dec 0 bs = (Some [], bs)"
| "read_many dec (Suc n) bs =
     (case dec bs of
        (None, r) \<Rightarrow> (None, r)
      | (Some v, r) \<Rightarrow>
          (case read_many dec n r of
             (None, r') \<Rightarrow> (None, r')
           | (Some vs, r') \<Rightarrow> (Some (v # vs), r')))"

context wire_code
begin

lemma read_many_concat:
  "(\<And>v. v \<in> set vs \<Longrightarrow> valid v) \<Longrightarrow>
    read_many dec (length vs) (concat (map enc vs) @ r) = (Some vs, r)"
  by (induction vs) (simp_all add: dec_enc)

end

text \<open>
  The interface of a byte-at-a-time writer: adding a byte either fails or appends exactly
  that byte to what has been written, and keeps the writer usable.
\<close>

locale byte_sink =
  fixes put :: "byte \<Rightarrow> 's \<Rightarrow> bool \<times> 's"
    and out :: "'s \<Rightarrow> bytes"
    and ready :: "'s \<Rightarrow> bool"
  assumes put_out: "ready s \<Longrightarrow> put b s = (True, s') \<Longrightarrow> out s' = out s @ [b]"
    and put_ready: "ready s \<Longrightarrow> put b s = (True, s') \<Longrightarrow> ready s'"

text \<open>Running operations in order, stopping at the first failure: the shape of the C sequences
  \<open>f(s) && g(s) && \<dots>\<close> and of early returns.\<close>

fun all_ok :: "('s \<Rightarrow> bool \<times> 's) list \<Rightarrow> 's \<Rightarrow> bool \<times> 's" where
  "all_ok [] s = (True, s)"
| "all_ok (f # fs) s = (case f s of (False, s') \<Rightarrow> (False, s') | (True, s') \<Rightarrow> all_ok fs s')"

lemma all_ok_Cons_True:
  "all_ok (f # fs) s = (True, s') \<longleftrightarrow> (\<exists>t. f s = (True, t) \<and> all_ok fs t = (True, s'))"
  by (auto split: prod.splits bool.splits)

lemma all_ok_append:
  "all_ok (fs @ gs) s = (case all_ok fs s of (False, s') \<Rightarrow> (False, s') | (True, s') \<Rightarrow> all_ok gs s')"
  by (induction fs arbitrary: s) (auto split: prod.splits bool.splits)

lemma all_ok_single: "all_ok [f] s = f s"
  by (simp split: prod.splits bool.splits)

definition put_all :: "(byte \<Rightarrow> 's \<Rightarrow> bool \<times> 's) \<Rightarrow> bytes \<Rightarrow> 's \<Rightarrow> bool \<times> 's" where
  "put_all put bs = all_ok (map put bs)"

lemma put_all_simps [simp]:
  "put_all put [] s = (True, s)"
  "put_all put (b # bs) s =
     (case put b s of (False, s') \<Rightarrow> (False, s') | (True, s') \<Rightarrow> put_all put bs s')"
  by (simp_all add: put_all_def split: prod.splits bool.splits)

lemma put_all_Cons_True:
  "put_all put (b # bs) s = (True, s') \<longleftrightarrow> (\<exists>t. put b s = (True, t) \<and> put_all put bs t = (True, s'))"
  by (simp only: put_all_def list.map all_ok_Cons_True)

context byte_sink
begin

lemma put_all_out:
  "ready s \<Longrightarrow> put_all put bs s = (True, s') \<Longrightarrow> out s' = out s @ bs \<and> ready s'"
proof (induction bs arbitrary: s)
  case Nil
  then show ?case by simp
next
  case (Cons b bs)
  from Cons.prems(2) obtain t where t: "put b s = (True, t)" "put_all put bs t = (True, s')"
    unfolding put_all_Cons_True by blast
  from Cons.prems(1) t(1) have "ready t" "out t = out s @ [b]"
    by (rule put_ready, rule put_out)
  with Cons.IH [OF _ t(2)] show ?case by simp
qed

end

section \<open>Loops that need not end\<close>

text \<open>A recursive call in the scrutinee of a \<open>case\<close>.\<close>

lemma case_option_mono [partial_function_mono]:
  assumes "mono_option B" "\<And>y. mono_option (\<lambda>f. C y f)"
  shows "mono_option (\<lambda>f. case B f of None \<Rightarrow> None | Some y \<Rightarrow> C y f)"
proof -
  have "(\<lambda>f. case B f of None \<Rightarrow> None | Some y \<Rightarrow> C y f) = (\<lambda>f. Option.bind (B f) (\<lambda>y. C y f))"
    by (rule ext) (simp add: bind_split split: option.split)
  with bind_mono [OF assms] show ?thesis by simp
qed

end
