(* ===== verification/Cbs.thy ===== *)
theory Cbs
  imports Prelude "HOL-Library.Sublist"
begin

text \<open>
  \<open>crypto/bytestring/cbs.c\<close>: parsing of byte strings.  A \<open>CBS\<close> is a pointer and a length;
  the model keeps the bytes it spans.  A function that advances a \<open>CBS\<close> takes it and returns
  what it delivers (\<open>None\<close> for the C result 0) together with the \<open>CBS\<close> as the call leaves it,
  also when the call fails.  Output parameters are delivered only on success; what a failing
  call leaves in them is not part of the model.
\<close>

type_synonym cbs = bytes
type_synonym 'a parser = "cbs \<Rightarrow> 'a option \<times> cbs"

section \<open>Raw access\<close>

definition CBS_init :: "bytes \<Rightarrow> nat \<Rightarrow> cbs" where
  "CBS_init data len = take len data"

definition cbs_get :: "nat \<Rightarrow> bytes parser" where
  "cbs_get n cbs =
     (if length cbs < n then (None, cbs)
      else (Some (take n cbs), drop n cbs))"

definition CBS_skip :: "nat \<Rightarrow> unit parser" where
  "CBS_skip len cbs =
     (case cbs_get len cbs of
        (None, cbs) \<Rightarrow> (None, cbs)
      | (Some _, cbs) \<Rightarrow> (Some (), cbs))"

definition CBS_data :: "cbs \<Rightarrow> bytes" where
  "CBS_data cbs = cbs"

definition CBS_len :: "cbs \<Rightarrow> nat" where
  "CBS_len cbs = length cbs"

text \<open>\<open>malloc_ok n\<close> says whether the allocator serves a request for \<open>n\<close> bytes.\<close>

definition CBS_stow :: "(nat \<Rightarrow> bool) \<Rightarrow> cbs \<Rightarrow> bytes option" where
  "CBS_stow malloc_ok cbs =
     (if CBS_len cbs = 0 then Some []
      else if \<not> malloc_ok (CBS_len cbs) then None
      else Some (CBS_data cbs))"

definition CBS_contains_zero_byte :: "cbs \<Rightarrow> bool" where
  "CBS_contains_zero_byte cbs \<longleftrightarrow> List.member (CBS_data cbs) 0"

definition CRYPTO_memcmp :: "bytes \<Rightarrow> bytes \<Rightarrow> nat \<Rightarrow> byte" where
  "CRYPTO_memcmp a b len = foldl (\<lambda>x i. x OR (a ! i XOR b ! i)) 0 [0..<len]"

definition CBS_mem_equal :: "cbs \<Rightarrow> bytes \<Rightarrow> nat \<Rightarrow> bool" where
  "CBS_mem_equal cbs data len =
     (if len \<noteq> CBS_len cbs then False
      else CRYPTO_memcmp (CBS_data cbs) data len = 0)"

section \<open>Fixed-width integers\<close>

definition cbs_get_u :: "nat \<Rightarrow> u64 parser" where
  "cbs_get_u len cbs =
     (case cbs_get len cbs of
        (None, cbs) \<Rightarrow> (None, cbs)
      | (Some data, cbs) \<Rightarrow>
          (Some (foldl (\<lambda>result d. push_bit 8 result OR ucast d) 0 data), cbs))"

definition CBS_get_u8 :: "byte parser" where
  "CBS_get_u8 cbs =
     (case cbs_get 1 cbs of
        (None, cbs) \<Rightarrow> (None, cbs)
      | (Some v, cbs) \<Rightarrow> (Some (v ! 0), cbs))"

definition CBS_get_u16 :: "u16 parser" where
  "CBS_get_u16 cbs =
     (case cbs_get_u 2 cbs of
        (None, cbs) \<Rightarrow> (None, cbs)
      | (Some v, cbs) \<Rightarrow> (Some (ucast v), cbs))"

definition CRYPTO_bswap2 :: "u16 \<Rightarrow> u16" where
  "CRYPTO_bswap2 x = drop_bit 8 x OR push_bit 8 x"

definition CRYPTO_bswap4 :: "u32 \<Rightarrow> u32" where
  "CRYPTO_bswap4 x =
     (let x = drop_bit 16 x OR push_bit 16 x
      in drop_bit 8 (x AND 0xff00ff00) OR push_bit 8 (x AND 0x00ff00ff))"

definition CRYPTO_bswap8 :: "u64 \<Rightarrow> u64" where
  "CRYPTO_bswap8 x =
     ucast (CRYPTO_bswap4 (ucast (drop_bit 32 x)))
       OR push_bit 32 (ucast (CRYPTO_bswap4 (ucast x)))"

definition CBS_get_u16le :: "u16 parser" where
  "CBS_get_u16le cbs =
     (case CBS_get_u16 cbs of
        (None, cbs) \<Rightarrow> (None, cbs)
      | (Some out, cbs) \<Rightarrow> (Some (CRYPTO_bswap2 out), cbs))"

definition CBS_get_u24 :: "u32 parser" where
  "CBS_get_u24 cbs =
     (case cbs_get_u 3 cbs of
        (None, cbs) \<Rightarrow> (None, cbs)
      | (Some v, cbs) \<Rightarrow> (Some (ucast v), cbs))"

definition CBS_get_u32 :: "u32 parser" where
  "CBS_get_u32 cbs =
     (case cbs_get_u 4 cbs of
        (None, cbs) \<Rightarrow> (None, cbs)
      | (Some v, cbs) \<Rightarrow> (Some (ucast v), cbs))"

definition CBS_get_u32le :: "u32 parser" where
  "CBS_get_u32le cbs =
     (case CBS_get_u32 cbs of
        (None, cbs) \<Rightarrow> (None, cbs)
      | (Some out, cbs) \<Rightarrow> (Some (CRYPTO_bswap4 out), cbs))"

definition CBS_get_u64 :: "u64 parser" where
  "CBS_get_u64 cbs = cbs_get_u 8 cbs"

definition CBS_get_u64le :: "u64 parser" where
  "CBS_get_u64le cbs =
     (case cbs_get_u 8 cbs of
        (None, cbs) \<Rightarrow> (None, cbs)
      | (Some out, cbs) \<Rightarrow> (Some (CRYPTO_bswap8 out), cbs))"

definition CBS_get_last_u8 :: "byte parser" where
  "CBS_get_last_u8 cbs =
     (if CBS_len cbs = 0 then (None, cbs)
      else (Some (cbs ! (CBS_len cbs - 1)), take (CBS_len cbs - 1) cbs))"

section \<open>Sub-strings\<close>

definition CBS_get_bytes :: "nat \<Rightarrow> cbs parser" where
  "CBS_get_bytes len cbs =
     (case cbs_get len cbs of
        (None, cbs) \<Rightarrow> (None, cbs)
      | (Some v, cbs) \<Rightarrow> (Some (CBS_init v len), cbs))"

definition CBS_copy_bytes :: "nat \<Rightarrow> bytes parser" where
  "CBS_copy_bytes len cbs =
     (case cbs_get len cbs of
        (None, cbs) \<Rightarrow> (None, cbs)
      | (Some v, cbs) \<Rightarrow> (Some v, cbs))"

definition cbs_get_length_prefixed :: "nat \<Rightarrow> cbs parser" where
  "cbs_get_length_prefixed len_len cbs =
     (case cbs_get_u len_len cbs of
        (None, cbs) \<Rightarrow> (None, cbs)
      | (Some len, cbs) \<Rightarrow> CBS_get_bytes (unat len) cbs)"

definition CBS_get_u8_length_prefixed :: "cbs parser" where
  "CBS_get_u8_length_prefixed cbs = cbs_get_length_prefixed 1 cbs"

definition CBS_get_u16_length_prefixed :: "cbs parser" where
  "CBS_get_u16_length_prefixed cbs = cbs_get_length_prefixed 2 cbs"

definition CBS_get_u24_length_prefixed :: "cbs parser" where
  "CBS_get_u24_length_prefixed cbs = cbs_get_length_prefixed 3 cbs"

section \<open>ASN.1 tags\<close>

definition CBS_ASN1_CONSTRUCTED :: u32 where
  "CBS_ASN1_CONSTRUCTED = push_bit 24 0x20"

definition CBS_ASN1_TAG_NUMBER_MASK :: u32 where
  "CBS_ASN1_TAG_NUMBER_MASK = push_bit (5 + 24) 1 - 1"

definition CBS_ASN1_BOOLEAN :: u32 where "CBS_ASN1_BOOLEAN = 0x1"
definition CBS_ASN1_INTEGER :: u32 where "CBS_ASN1_INTEGER = 0x2"
definition CBS_ASN1_OCTETSTRING :: u32 where "CBS_ASN1_OCTETSTRING = 0x4"

text \<open>The loop of \<open>parse_base128_integer\<close>: one byte per round, \<open>v\<close> the value so far.\<close>

fun base128_loop :: "u64 \<Rightarrow> u64 parser" where
  "base128_loop v [] = (None, [])"
| "base128_loop v (b # cbs) =
     (if drop_bit (64 - 7) v \<noteq> 0 then (None, cbs)
      else if v = 0 \<and> b = 0x80 then (None, cbs)
      else let v = push_bit 7 v OR ucast (b AND 0x7f)
           in if b AND 0x80 \<noteq> 0 then base128_loop v cbs else (Some v, cbs))"

definition parse_base128_integer :: "u64 parser" where
  "parse_base128_integer cbs = base128_loop 0 cbs"

definition parse_asn1_tag :: "u32 parser" where
  "parse_asn1_tag cbs =
     (case CBS_get_u8 cbs of
        (None, cbs) \<Rightarrow> (None, cbs)
      | (Some tag_byte, cbs) \<Rightarrow>
          let tag = push_bit 24 (ucast tag_byte AND 0xe0);
              tag_number = (ucast tag_byte AND 0x1f :: u32)
          in if tag_number = 0x1f then
               (case parse_base128_integer cbs of
                  (None, cbs) \<Rightarrow> (None, cbs)
                | (Some v, cbs) \<Rightarrow>
                    if v > ucast CBS_ASN1_TAG_NUMBER_MASK \<or> v < 0x1f then (None, cbs)
                    else (Some (tag OR ucast v), cbs))
             else (Some (tag OR tag_number), cbs))"

section \<open>ASN.1 elements\<close>

text \<open>Delivers the element with its header, its tag and the length of the header.  The header
  is parsed on a copy, so a failing call leaves the \<open>CBS\<close> where it was.\<close>

definition cbs_get_any_asn1_element :: "bool \<Rightarrow> (cbs \<times> u32 \<times> nat) parser" where
  "cbs_get_any_asn1_element ber_ok cbs =
     (let get = (\<lambda>len tag header_len.
            case CBS_get_bytes len cbs of
              (None, cbs) \<Rightarrow> (None, cbs)
            | (Some out, cbs) \<Rightarrow> (Some (out, tag, header_len), cbs))
      in case parse_asn1_tag cbs of
        (None, _) \<Rightarrow> (None, cbs)
      | (Some tag, header) \<Rightarrow>
         (case CBS_get_u8 header of
            (None, _) \<Rightarrow> (None, cbs)
          | (Some length_byte, header) \<Rightarrow>
              let header_len = CBS_len cbs - CBS_len header
              in if length_byte AND 0x80 = 0 then
                   get (unat length_byte + header_len) tag header_len
                 else
                   let num_bytes = unat (length_byte AND 0x7f)
                   in if ber_ok \<and> tag AND CBS_ASN1_CONSTRUCTED \<noteq> 0 \<and> num_bytes = 0 then
                        get header_len tag header_len
                      else if num_bytes = 0 \<or> num_bytes > 4 then (None, cbs)
                      else
                        (case cbs_get_u num_bytes header of
                           (None, _) \<Rightarrow> (None, cbs)
                         | (Some len64, _) \<Rightarrow>
                             if len64 < 128 then (None, cbs)
                             else if drop_bit ((num_bytes - 1) * 8) len64 = 0 then (None, cbs)
                             else if len64 + of_nat header_len + of_nat num_bytes < len64
                             then (None, cbs)
                             else get (unat (len64 + of_nat header_len + of_nat num_bytes))
                                    tag (header_len + num_bytes))))"

definition CBS_get_any_asn1_element :: "(cbs \<times> u32 \<times> nat) parser" where
  "CBS_get_any_asn1_element cbs = cbs_get_any_asn1_element False cbs"

definition CBS_get_any_ber_asn1_element :: "(cbs \<times> u32 \<times> nat) parser" where
  "CBS_get_any_ber_asn1_element cbs = cbs_get_any_asn1_element True cbs"

definition CBS_get_any_asn1 :: "(cbs \<times> u32) parser" where
  "CBS_get_any_asn1 cbs =
     (case CBS_get_any_asn1_element cbs of
        (None, cbs) \<Rightarrow> (None, cbs)
      | (Some (out, out_tag, header_len), cbs) \<Rightarrow>
          (case CBS_skip header_len out of
             (None, _) \<Rightarrow> (None, cbs)
           | (Some _, out) \<Rightarrow> (Some (out, out_tag), cbs)))"

definition cbs_get_asn1 :: "u32 \<Rightarrow> bool \<Rightarrow> cbs parser" where
  "cbs_get_asn1 tag_value skip_header cbs =
     (case CBS_get_any_asn1_element cbs of
        (None, cbs) \<Rightarrow> (None, cbs)
      | (Some (out, tag, header_len), cbs) \<Rightarrow>
          if tag \<noteq> tag_value then (None, cbs)
          else if skip_header then
            (case CBS_skip header_len out of
               (None, _) \<Rightarrow> (None, cbs)
             | (Some _, out) \<Rightarrow> (Some out, cbs))
          else (Some out, cbs))"

definition CBS_get_asn1 :: "u32 \<Rightarrow> cbs parser" where
  "CBS_get_asn1 tag_value cbs = cbs_get_asn1 tag_value True cbs"

definition CBS_get_asn1_element :: "u32 \<Rightarrow> cbs parser" where
  "CBS_get_asn1_element tag_value cbs = cbs_get_asn1 tag_value False cbs"

definition CBS_peek_asn1_tag :: "cbs \<Rightarrow> u32 \<Rightarrow> bool" where
  "CBS_peek_asn1_tag cbs tag_value =
     (if CBS_len cbs < 1 then False
      else case parse_asn1_tag cbs of
             (None, _) \<Rightarrow> False
           | (Some actual_tag, _) \<Rightarrow> tag_value = actual_tag)"

section \<open>ASN.1 values\<close>

fun asn1_uint64_loop :: "u64 \<Rightarrow> bytes \<Rightarrow> u64 option" where
  "asn1_uint64_loop out [] = Some out"
| "asn1_uint64_loop out (d # data) =
     (if drop_bit 56 out \<noteq> 0 then None
      else asn1_uint64_loop (push_bit 8 out OR ucast d) data)"

definition CBS_get_asn1_uint64 :: "u64 parser" where
  "CBS_get_asn1_uint64 cbs =
     (case CBS_get_asn1 CBS_ASN1_INTEGER cbs of
        (None, cbs) \<Rightarrow> (None, cbs)
      | (Some bytes, cbs) \<Rightarrow>
          let data = CBS_data bytes; len = CBS_len bytes
          in if len = 0 then (None, cbs)
             else if data ! 0 AND 0x80 \<noteq> 0 then (None, cbs)
             else if data ! 0 = 0 \<and> len > 1 \<and> data ! 1 AND 0x80 = 0 then (None, cbs)
             else (asn1_uint64_loop 0 data, cbs))"

text \<open>An \<open>int64_t\<close> is its two's complement word; the union of the source is read on a
  little-endian machine.\<close>

definition CBS_get_asn1_int64 :: "u64 parser" where
  "CBS_get_asn1_int64 cbs =
     (case CBS_get_asn1 CBS_ASN1_INTEGER cbs of
        (None, cbs) \<Rightarrow> (None, cbs)
      | (Some bytes, cbs) \<Rightarrow>
          let data = CBS_data bytes; len = CBS_len bytes
          in if len = 0 \<or> len > 8 then (None, cbs)
             else if len > 1 \<and> data ! 0 = 0 \<and> data ! 1 AND 0x80 = 0 then (None, cbs)
             else if len > 1 \<and> data ! 0 = 0xff \<and> data ! 1 AND 0x80 \<noteq> 0 then (None, cbs)
             else let is_negative = (data ! 0 AND 0x80 \<noteq> 0);
                      u_bytes = map (\<lambda>i. if i < len then data ! (len - i - 1)
                                         else if is_negative then 0xff else 0) [0..<8]
                  in (Some (of_nat (le_val u_bytes)), cbs))"

definition CBS_get_asn1_bool :: "bool parser" where
  "CBS_get_asn1_bool cbs =
     (case CBS_get_asn1 CBS_ASN1_BOOLEAN cbs of
        (None, cbs) \<Rightarrow> (None, cbs)
      | (Some bytes, cbs) \<Rightarrow>
          if CBS_len bytes \<noteq> 1 then (None, cbs)
          else let value = CBS_data bytes ! 0
               in if value \<noteq> 0 \<and> value \<noteq> 0xff then (None, cbs)
                  else (Some (value \<noteq> 0), cbs))"

section \<open>Optional elements\<close>

text \<open>Delivers the contents when the element is present, \<open>None\<close> inside \<open>Some\<close> when not.\<close>

definition CBS_get_optional_asn1 :: "u32 \<Rightarrow> cbs option parser" where
  "CBS_get_optional_asn1 tag cbs =
     (if CBS_peek_asn1_tag cbs tag then
        (case CBS_get_asn1 tag cbs of
           (None, cbs) \<Rightarrow> (None, cbs)
         | (Some out, cbs) \<Rightarrow> (Some (Some out), cbs))
      else (Some None, cbs))"

definition CBS_get_optional_asn1_octet_string :: "u32 \<Rightarrow> (cbs \<times> bool) parser" where
  "CBS_get_optional_asn1_octet_string tag cbs =
     (case CBS_get_optional_asn1 tag cbs of
        (None, cbs) \<Rightarrow> (None, cbs)
      | (Some (Some child), cbs) \<Rightarrow>
          (case CBS_get_asn1 CBS_ASN1_OCTETSTRING child of
             (None, _) \<Rightarrow> (None, cbs)
           | (Some out, child) \<Rightarrow>
               if CBS_len child \<noteq> 0 then (None, cbs) else (Some (out, True), cbs))
      | (Some None, cbs) \<Rightarrow> (Some (CBS_init [] 0, False), cbs))"

definition CBS_get_optional_asn1_uint64 :: "u32 \<Rightarrow> u64 \<Rightarrow> u64 parser" where
  "CBS_get_optional_asn1_uint64 tag default_value cbs =
     (case CBS_get_optional_asn1 tag cbs of
        (None, cbs) \<Rightarrow> (None, cbs)
      | (Some (Some child), cbs) \<Rightarrow>
          (case CBS_get_asn1_uint64 child of
             (None, _) \<Rightarrow> (None, cbs)
           | (Some out, child) \<Rightarrow>
               if CBS_len child \<noteq> 0 then (None, cbs) else (Some out, cbs))
      | (Some None, cbs) \<Rightarrow> (Some default_value, cbs))"

definition CBS_get_optional_asn1_bool :: "u32 \<Rightarrow> bool \<Rightarrow> bool parser" where
  "CBS_get_optional_asn1_bool tag default_value cbs =
     (case CBS_get_optional_asn1 tag cbs of
        (None, cbs) \<Rightarrow> (None, cbs)
      | (Some (Some child), cbs) \<Rightarrow>
          (case CBS_get_asn1 CBS_ASN1_BOOLEAN child of
             (None, _) \<Rightarrow> (None, cbs)
           | (Some child2, child) \<Rightarrow>
               if CBS_len child2 \<noteq> 1 \<or> CBS_len child \<noteq> 0 then (None, cbs)
               else let boolean = CBS_data child2 ! 0
                    in if boolean = 0 then (Some False, cbs)
                       else if boolean = 0xff then (Some True, cbs)
                       else (None, cbs))
      | (Some None, cbs) \<Rightarrow> (Some default_value, cbs))"

section \<open>Bit strings\<close>

definition CBS_is_valid_asn1_bitstring :: "cbs \<Rightarrow> bool" where
  "CBS_is_valid_asn1_bitstring cbs =
     (case CBS_get_u8 cbs of
        (None, _) \<Rightarrow> False
      | (Some num_unused_bits, in_) \<Rightarrow>
          if num_unused_bits > 7 then False
          else if num_unused_bits = 0 then True
          else (case CBS_get_last_u8 in_ of
                  (None, _) \<Rightarrow> False
                | (Some last_byte, _) \<Rightarrow>
                    last_byte AND (push_bit (unat num_unused_bits) 1 - 1) = 0))"

definition CBS_asn1_bitstring_has_bit :: "cbs \<Rightarrow> u32 \<Rightarrow> bool" where
  "CBS_asn1_bitstring_has_bit cbs n =
     (if \<not> CBS_is_valid_asn1_bitstring cbs then False
      else let byte_num = unat (drop_bit 3 n + 1); bit_num = 7 - unat (n AND 7)
           in byte_num < CBS_len cbs \<and> CBS_data cbs ! byte_num AND push_bit bit_num 1 \<noteq> 0)"

section \<open>Every reader leaves a suffix of its input\<close>

definition advances :: "'a parser \<Rightarrow> bool" where
  "advances p \<longleftrightarrow> (\<forall>cbs. suffix (snd (p cbs)) cbs)"

lemma advancesD: "advances p \<Longrightarrow> p cbs = (x, r) \<Longrightarrow> suffix r cbs"
  by (metis advances_def snd_conv)

lemma advances_cbs_get [intro]: "advances (cbs_get n)"
  by (simp add: advances_def cbs_get_def suffix_drop)

lemma advances_map:
  "advances p \<Longrightarrow>
    advances (\<lambda>cbs. case p cbs of (None, c) \<Rightarrow> (None, c) | (Some x, c) \<Rightarrow> (Some (f x), c))"
  unfolding advances_def
proof (intro allI)
  fix cbs
  assume "\<forall>cbs. suffix (snd (p cbs)) cbs"
  then have "suffix (snd (p cbs)) cbs" by blast
  then show "suffix (snd (case p cbs of (None, c) \<Rightarrow> (None, c) | (Some x, c) \<Rightarrow> (Some (f x), c))) cbs"
    by (cases "p cbs"; cases "fst (p cbs)") simp_all
qed

lemma cbs_get_iff: "cbs_get n cbs = (Some v, r) \<longleftrightarrow> cbs = v @ r \<and> length v = n"
  by (auto simp: cbs_get_def)

lemma cbs_get_None: "cbs_get n cbs = (None, r) \<longleftrightarrow> length cbs < n \<and> r = cbs"
  by (auto simp: cbs_get_def)

lemma cbs_get_u_eq: "cbs_get_u n cbs =
    (if length cbs < n then (None, cbs) else (Some (be_word (take n cbs)), drop n cbs))"
  by (simp add: cbs_get_u_def cbs_get_def be_word_def)

lemma CBS_get_u8_simps [simp]:
  "CBS_get_u8 [] = (None, [])"
  "CBS_get_u8 (b # cbs) = (Some b, cbs)"
  by (simp_all add: CBS_get_u8_def cbs_get_def)

lemma CBS_get_bytes_eq: "CBS_get_bytes n cbs =
    (if length cbs < n then (None, cbs) else (Some (take n cbs), drop n cbs))"
  by (simp add: CBS_get_bytes_def cbs_get_def CBS_init_def)

lemma CBS_skip_eq: "CBS_skip n cbs =
    (if length cbs < n then (None, cbs) else (Some (), drop n cbs))"
  by (simp add: CBS_skip_def cbs_get_def)

section \<open>Base-128 integers\<close>

fun base128_cont :: "nat \<Rightarrow> bytes" where
  "base128_cont n =
     (if n = 0 then [] else base128_cont (n div 128) @ [word_of_nat (128 + n mod 128)])"

definition base128 :: "nat \<Rightarrow> bytes" where
  "base128 n = base128_cont (n div 128) @ [word_of_nat (n mod 128)]"

declare base128_cont.simps [simp del]

definition val128 :: "nat \<Rightarrow> bytes \<Rightarrow> nat" where
  "val128 v bs = foldl (\<lambda>a b. 128 * a + unat b mod 128) v bs"

lemma val128_simps [simp]:
  "val128 v [] = v"
  "val128 v (b # bs) = val128 (128 * v + unat b mod 128) bs"
  "val128 v (bs @ [b]) = 128 * val128 v bs + unat b mod 128"
  by (simp_all add: val128_def)

lemma val128_ge: "v * 128 ^ length bs \<le> val128 v bs"
proof (induction bs rule: rev_induct)
  case Nil
  then show ?case by simp
next
  case (snoc b bs)
  then show ?case by simp
qed

lemma unat_base128_step:
  fixes b :: byte
  assumes "drop_bit 57 v = 0"
  shows "unat (push_bit 7 v OR ucast (b AND 0x7f) :: u64) = 128 * unat v + unat b mod 128"
proof -
  have v: "unat v < 2 ^ 57" using assms by (simp add: drop_bit_eq_0_iff_unat)
  have b: "unat (ucast (b AND 0x7f) :: u64) = unat b mod 128"
    by (simp only: unat_ucast_byte byte_simps)
  have "unat b mod 128 < 128" by simp
  with v have "2 ^ 7 * unat v + unat b mod 128 < 2 ^ 64" by simp
  with b show ?thesis
    using unat_push_bit_or [of "ucast (b AND 0x7f) :: u64" 7 v] by simp
qed

lemma byte_eq_80: "(b :: byte) = 0x80 \<longleftrightarrow> unat b = 128"
  by (simp add: word_nat_lift)

text \<open>What a successful run of the loop has read: continuation bytes \<open>ds\<close>, then a last byte.\<close>

lemma base128_loop_Some:
  "base128_loop v cbs = (Some w, r) \<Longrightarrow>
    \<exists>ds b. cbs = ds @ b # r \<and> (\<forall>d \<in> set ds. 128 \<le> unat d) \<and> unat b < 128 \<and>
      unat w = val128 (unat v) (ds @ [b]) \<and> (v = 0 \<longrightarrow> ds = [] \<or> unat (hd ds) \<noteq> 128)"
proof (induction v cbs rule: base128_loop.induct)
  case (1 v)
  then show ?case by simp
next
  case (2 v b cbs)
  let ?v = "push_bit 7 v OR ucast (b AND 0x7f) :: u64"
  from "2.prems" have ok: "drop_bit 57 v = 0" "\<not> (v = 0 \<and> b = 0x80)"
    by (auto simp: Let_def split: if_splits)
  note step = unat_base128_step [OF ok(1), of b]
  show ?case
  proof (cases "b AND 0x80 = 0")
    case True
    with "2.prems" ok have "w = ?v" "r = cbs" by (auto simp: Let_def)
    with step True show ?thesis by (intro exI [of _ "[]"] exI [of _ b]) (simp add: byte_simps)
  next
    case False
    with "2.prems" ok have "base128_loop ?v cbs = (Some w, r)" by (auto simp: Let_def)
    with "2.IH" [OF _ _ refl False] ok obtain ds c where
      d: "cbs = ds @ c # r" "\<forall>d \<in> set ds. 128 \<le> unat d" "unat c < 128"
        "unat w = val128 (unat ?v) (ds @ [c])"
      by auto
    with step False ok(2) show ?thesis
      by (intro exI [of _ "b # ds"] exI [of _ c]) (auto simp: byte_simps byte_eq_80)
  qed
qed

lemma base128_loop_run:
  "\<forall>d \<in> set ds. 128 \<le> unat d \<Longrightarrow> unat b < 128 \<Longrightarrow>
    val128 (unat v) (ds @ [b]) < 2 ^ 64 \<Longrightarrow> (v = 0 \<longrightarrow> ds = [] \<or> unat (hd ds) \<noteq> 128) \<Longrightarrow>
    base128_loop v (ds @ b # r) = (Some (of_nat (val128 (unat v) (ds @ [b]))), r)"
proof (induction ds arbitrary: v)
  case Nil
  then have "drop_bit 57 v = 0" by (simp add: drop_bit_eq_0_iff_unat)
  note step = unat_base128_step [OF this, of b]
  moreover have "b AND 0x80 = 0" "b \<noteq> 0x80"
    using Nil.prems(2) by (simp_all only: byte_msb) (auto simp: byte_eq_80)
  moreover have "push_bit 7 v OR ucast (b AND 0x7f) = (word_of_nat (val128 (unat v) [b]) :: u64)"
    using step Nil.prems(3) by (simp only: word_nat_lift unat_of_nat) simp
  ultimately show ?case
    using \<open>drop_bit 57 v = 0\<close> by (simp add: Let_def)
next
  case (Cons d ds)
  have "(128 * unat v + unat d mod 128) * 128 ^ length (ds @ [b])
      \<le> val128 (unat v) ((d # ds) @ [b])"
    using val128_ge [of "128 * unat v + unat d mod 128" "ds @ [b]"] by simp
  with Cons.prems(3) have lt: "(128 * unat v + unat d mod 128) * 128 ^ length (ds @ [b]) < 2 ^ 64"
    by linarith
  have "128 * unat v * 128 \<le> (128 * unat v + unat d mod 128) * 128 ^ length (ds @ [b])"
    by (intro mult_le_mono) simp_all
  with lt have "128 * unat v * 128 < 2 ^ 64" by (rule le_less_trans [rotated])
  then have "unat v < 2 ^ 57" by simp
  then have ok: "drop_bit 57 v = 0" by (simp add: drop_bit_eq_0_iff_unat)
  let ?v = "push_bit 7 v OR ucast (d AND 0x7f) :: u64"
  note step = unat_base128_step [OF ok, of d]
  have nz: "?v \<noteq> 0"
  proof
    assume "?v = 0"
    with step have "unat v = 0" "unat d mod 128 = 0" by simp_all
    with Cons.prems(1,4) show False
      using byte_split_bit7 [of d] by (auto simp: unat_eq_0)
  qed
  have "base128_loop ?v (ds @ b # r) = (Some (of_nat (val128 (unat ?v) (ds @ [b]))), r)"
    by (rule Cons.IH) (use Cons.prems step nz in simp_all)
  with ok step Cons.prems(1,4) show ?case
    by (auto simp: Let_def byte_simps byte_eq_80)
qed

lemma base128_cont_pos: "n \<noteq> 0 \<Longrightarrow>
    base128_cont n = base128_cont (n div 128) @ [word_of_nat (128 + n mod 128)]"
  by (simp add: base128_cont.simps [of n])

lemma base128_cont_0 [simp]: "base128_cont 0 = []"
  by (simp add: base128_cont.simps)

lemma unat_byte_of_nat_128: "unat (word_of_nat (128 + n mod 128) :: byte) = 128 + n mod 128"
proof -
  have "128 + n mod 128 < 256" using mod_less_divisor [of 128 n] by linarith
  then show ?thesis by (simp only: unat_of_nat) simp
qed

lemma byte_of_nat_eqI: "unat (b :: byte) = n \<Longrightarrow> word_of_nat n = b"
  by auto

lemma base128_cont_props:
  "(\<forall>d \<in> set (base128_cont n). 128 \<le> unat d) \<and> val128 0 (base128_cont n) = n
    \<and> (base128_cont n = [] \<or> unat (hd (base128_cont n)) \<noteq> 128)"
proof (induction n rule: base128_cont.induct)
  case (1 n)
  show ?case
  proof (cases "n = 0")
    case True
    then show ?thesis by simp
  next
    case False
    note u = unat_byte_of_nat_128 [of n]
    have m: "(128 + n mod 128) mod 128 = n mod 128" by simp
    show ?thesis
    proof (cases "n div 128 = 0")
      case True
      then have n: "n mod 128 = n" by (simp add: div_eq_0_iff)
      then have "base128_cont n = [word_of_nat (128 + n mod 128)]"
        using base128_cont_pos [OF False] True by (simp only: base128_cont_0 append_Nil)
      with False u n show ?thesis by (simp del: of_nat_add)
    next
      case nz: False
      then have "base128_cont (n div 128) \<noteq> []" by (simp add: base128_cont_pos)
      with "1.IH" [OF False] False show ?thesis
        by (simp add: base128_cont_pos [OF False] u del: of_nat_add)
    qed
  qed
qed

lemma base128_cont_val128:
  "\<forall>d \<in> set ds. 128 \<le> unat d \<Longrightarrow> ds = [] \<or> unat (hd ds) \<noteq> 128 \<Longrightarrow>
    base128_cont (val128 0 ds) = ds \<and> (ds \<noteq> [] \<longrightarrow> val128 0 ds \<noteq> 0)"
proof (induction ds rule: rev_induct)
  case Nil
  then show ?case by simp
next
  case (snoc d ds)
  let ?n = "128 * val128 0 ds + unat d mod 128"
  have d: "unat d = 128 + unat d mod 128"
    using snoc.prems(1) byte_split_bit7 [of d] by simp
  have "?n mod 128 = unat d mod 128" by simp
  with d have wd: "word_of_nat (128 + ?n mod 128) = d"
    by (intro byte_of_nat_eqI) (simp only:)
  have n: "?n \<noteq> 0"
  proof (cases "ds = []")
    case True
    with snoc.prems(2) d show ?thesis by auto
  next
    case False
    with snoc show ?thesis by auto
  qed
  have "base128_cont (val128 0 ds) = ds" using snoc by (cases "ds = []") auto
  with n wd show ?case by (simp add: base128_cont_pos [OF n] del: of_nat_add)
qed

lemma parse_base128_integer_iff:
  "parse_base128_integer cbs = (Some v, r) \<longleftrightarrow> cbs = base128 (unat v) @ r"
proof
  assume "parse_base128_integer cbs = (Some v, r)"
  then obtain ds b where d: "cbs = ds @ b # r" "\<forall>d \<in> set ds. 128 \<le> unat d" "unat b < 128"
      "unat v = val128 0 (ds @ [b])" "ds = [] \<or> unat (hd ds) \<noteq> 128"
    unfolding parse_base128_integer_def by (auto dest!: base128_loop_Some)
  then have "base128_cont (unat v div 128) = ds" "unat v mod 128 = unat b"
    using base128_cont_val128 [of ds] by simp_all
  with d show "cbs = base128 (unat v) @ r" by (simp add: base128_def)
next
  assume cbs: "cbs = base128 (unat v) @ r"
  let ?ds = "base128_cont (unat v div 128)" and ?b = "word_of_nat (unat v mod 128) :: byte"
  have b: "unat ?b = unat v mod 128" by (simp add: unat_of_nat)
  note p = base128_cont_props [of "unat v div 128"]
  have val: "val128 0 (?ds @ [?b]) = unat v" using p by (simp add: b)
  have "base128_loop 0 (?ds @ ?b # r) = (Some (of_nat (val128 (unat (0 :: u64)) (?ds @ [?b]))), r)"
    by (rule base128_loop_run) (use p b val unsigned_less [of v] in simp_all)
  with cbs val show "parse_base128_integer cbs = (Some v, r)"
    by (simp add: parse_base128_integer_def base128_def)
qed

interpretation base128_code: canonical_code "\<lambda>v. base128 (unat v)" parse_base128_integer "\<lambda>_. True"
  by unfold_locales (simp_all add: parse_base128_integer_iff)

end
