(* ===== verification/Der.thy ===== *)
theory Der
  imports Cbs
begin

text \<open>
  What the ASN.1 functions of \<open>cbs.c\<close> accept.  \<open>der_tag\<close>, \<open>der_len\<close>, \<open>der_element\<close> and
  \<open>int_octets\<close> are the DER encoders of X.690 as specifications: tags in identifier octets,
  minimal lengths, elements, minimal two's complement integers.  The lemmas show that each reader
  accepts an input exactly when it starts with the DER encoding of what the reader delivers, so
  that non-minimal and over-long forms are refused, and that it leaves what follows.
\<close>

section \<open>Tags\<close>

definition der_tag :: "u32 \<Rightarrow> bytes" where
  "der_tag t =
     (let n = unat t mod 2 ^ 29; cls = unat t div 2 ^ 29
      in if 31 \<le> n then word_of_nat (32 * cls + 31) # base128 n
         else [word_of_nat (32 * cls + n)])"

lemma tag_high_bits: "push_bit 24 (ucast (b :: byte) AND 0xe0) = (push_bit 29 (drop_bit 5 (ucast b)) :: u32)"
proof -
  have e: "(0xe0 :: u32) = push_bit 5 (mask 3)" by (simp add: mask_eq_exp_minus_1)
  have "ucast b AND 0xe0 = (push_bit 5 (drop_bit 5 (ucast b)) :: u32)"
    unfolding e by (rule bit_eqI) (auto simp: bit_simps dest: bit_imp_le_length)
  then show ?thesis by (simp only: push_bit_push_bit) simp
qed

lemma unat_tag_or:
  fixes b :: byte and x :: u32
  assumes "unat x < 2 ^ 29"
  shows "unat (push_bit 24 (ucast b AND 0xe0) OR x) = 2 ^ 29 * (unat b div 32) + unat x"
proof -
  have r: "unat (drop_bit 5 (ucast b) :: u32) = unat b div 32"
    by (simp only: unat_drop_bit unat_ucast_byte) simp
  have "unat b div 32 < 8" by (rule less_mult_imp_div_less) simp
  with assms have "2 ^ 29 * (unat b div 32) + unat x < 2 ^ 32" by simp
  then show ?thesis
    using unat_push_bit_or [OF assms, of "drop_bit 5 (ucast b)"] by (simp only: tag_high_bits r) simp
qed

lemma unat_tag_number: "unat (ucast (b :: byte) AND 0x1f :: u32) = unat b mod 32"
  using word_and_mask_unat [of "ucast b :: u32" 5] by (simp add: mask_eq_exp_minus_1)

lemma der_tag_div_mod:
  assumes "unat t = 2 ^ 29 * cls + n" "n < 2 ^ 29"
  shows "der_tag t = (if 31 \<le> n then word_of_nat (32 * cls + 31) # base128 n
                      else [word_of_nat (32 * cls + n)])"
proof -
  have "unat t mod 2 ^ 29 = n" "unat t div 2 ^ 29 = cls" using assms by simp_all
  then show ?thesis by (simp only: der_tag_def Let_def)
qed

lemma byte_of_div_mod: "word_of_nat (32 * (unat b div 32) + unat b mod 32) = (b :: byte)"
  by (rule byte_of_nat_eqI) simp

lemma TAG_NUMBER_MASK_unat: "unat (ucast CBS_ASN1_TAG_NUMBER_MASK :: u64) = 2 ^ 29 - 1"
  by (simp add: CBS_ASN1_TAG_NUMBER_MASK_def)

lemma parse_asn1_tag_sound:
  assumes "parse_asn1_tag cbs = (Some t, r)"
  shows "cbs = der_tag t @ r"
proof (cases cbs)
  case Nil
  with assms show ?thesis by (simp add: parse_asn1_tag_def)
next
  case (Cons b cs)
  show ?thesis
  proof (cases "(ucast b AND 0x1f :: u32) = 0x1f")
    case True
    then have b: "unat b mod 32 = 31" using unat_tag_number [of b] by simp
    from assms Cons True obtain v where v: "parse_base128_integer cs = (Some v, r)"
      "\<not> v > ucast CBS_ASN1_TAG_NUMBER_MASK" "\<not> v < 0x1f"
      "t = push_bit 24 (ucast b AND 0xe0) OR ucast v"
      by (auto simp: parse_asn1_tag_def Let_def split: prod.splits option.splits if_splits)
    then have n: "unat v < 2 ^ 29" "31 \<le> unat v"
      using TAG_NUMBER_MASK_unat by (simp_all only: word_less_nat_alt) simp_all
    then have u: "unat (ucast v :: u32) = unat v" by (simp add: unat_ucast_narrow)
    with v(4) n have "unat t = 2 ^ 29 * (unat b div 32) + unat v"
      using unat_tag_or [of "ucast v" b] by simp
    from der_tag_div_mod [OF this n(1)] n(2) b byte_of_div_mod [of b]
    have "der_tag t = b # base128 (unat v)" by simp
    with v(1) Cons show ?thesis by (simp add: parse_base128_integer_iff)
  next
    case False
    then have b: "unat b mod 32 < 31"
      using unat_tag_number [of b] by (auto simp: word_nat_lift)
    from assms Cons False have t: "t = push_bit 24 (ucast b AND 0xe0) OR (ucast b AND 0x1f)" "r = cs"
      by (auto simp: parse_asn1_tag_def Let_def)
    have "unat (ucast b AND 0x1f :: u32) < 2 ^ 29" by (simp only: unat_tag_number) simp
    from unat_tag_or [OF this, of b] t(1)
    have "unat t = 2 ^ 29 * (unat b div 32) + unat b mod 32" by (simp only: unat_tag_number)
    from der_tag_div_mod [OF this] b byte_of_div_mod [of b]
    have "der_tag t = [b]" by simp
    with Cons t(2) show ?thesis by simp
  qed
qed

lemma parse_asn1_tag_complete: "parse_asn1_tag (der_tag t @ r) = (Some t, r)"
proof -
  let ?n = "unat t mod 2 ^ 29" and ?cls = "unat t div 2 ^ 29"
  have n: "?n < 2 ^ 29" by simp
  have cls: "?cls < 8" by (rule less_mult_imp_div_less) (use unsigned_less [of t] in simp)
  have t: "unat t = 2 ^ 29 * ?cls + ?n" by simp
  show ?thesis
  proof (cases "31 \<le> ?n")
    case True
    let ?b = "word_of_nat (32 * ?cls + 31) :: byte" and ?v = "word_of_nat ?n :: u64"
    have b: "unat ?b = 32 * ?cls + 31" using cls by (simp only: unat_of_nat) simp
    have tn: "(ucast ?b AND 0x1f :: u32) = 0x1f"
      by (simp only: word_nat_lift unat_tag_number b) simp
    have v: "unat ?v = ?n" using n by (simp only: unat_of_nat) simp
    have lim: "\<not> ?v > ucast CBS_ASN1_TAG_NUMBER_MASK" "\<not> ?v < 0x1f"
      using True n by (simp_all only: word_less_nat_alt TAG_NUMBER_MASK_unat v) simp_all
    have "unat (ucast ?v :: u32) = ?n" using n v by (simp add: unat_ucast_narrow)
    then have "unat (push_bit 24 (ucast ?b AND 0xe0) OR ucast ?v :: u32) = 2 ^ 29 * (unat ?b div 32) + ?n"
      using unat_tag_or [of "ucast ?v" ?b] n by simp
    also have "\<dots> = unat t" by (simp only: b) simp
    finally have res: "push_bit 24 (ucast ?b AND 0xe0) OR ucast ?v = t" by (simp only: word_nat_lift)
    have "parse_base128_integer (base128 ?n @ r) = (Some ?v, r)"
      using v by (simp only: parse_base128_integer_iff)
    then show ?thesis
      using tn lim res True
      by (simp only: der_tag_def Let_def if_True append_Cons parse_asn1_tag_def CBS_get_u8_simps
          prod.case option.case) simp
  next
    case False
    let ?b = "word_of_nat (32 * ?cls + ?n) :: byte"
    have b: "unat ?b = 32 * ?cls + ?n" using cls False by (simp only: unat_of_nat) simp
    have un: "unat (ucast ?b AND 0x1f :: u32) = ?n"
      using False by (simp only: unat_tag_number b) simp
    then have tn: "(ucast ?b AND 0x1f :: u32) \<noteq> 0x1f" using False by (auto simp: word_nat_lift)
    have "unat (push_bit 24 (ucast ?b AND 0xe0) OR (ucast ?b AND 0x1f) :: u32) = 2 ^ 29 * (unat ?b div 32) + ?n"
      using unat_tag_or [of "ucast ?b AND 0x1f" ?b] n un by (simp only:)
    also have "\<dots> = unat t" using False by (simp only: b) simp
    finally have res: "push_bit 24 (ucast ?b AND 0xe0) OR (ucast ?b AND 0x1f) = t" by (simp only: word_nat_lift)
    show ?thesis
      using tn res False
      by (simp only: der_tag_def Let_def if_False append_Cons append_Nil parse_asn1_tag_def
          CBS_get_u8_simps prod.case option.case)
  qed
qed

interpretation tag_code: canonical_code der_tag parse_asn1_tag "\<lambda>_. True"
  by unfold_locales (simp_all add: parse_asn1_tag_complete parse_asn1_tag_sound)

lemma length_base128_cont: "n < 128 ^ k \<Longrightarrow> length (base128_cont n) \<le> k"
proof (induction k arbitrary: n)
  case 0
  then show ?case by simp
next
  case (Suc k)
  show ?case
  proof (cases "n = 0")
    case False
    have "n div 128 < 128 ^ k" using Suc.prems by (simp add: div_less_iff_less_mult mult.commute)
    then show ?thesis using Suc.IH by (simp add: base128_cont_pos [OF False])
  qed simp
qed

lemma length_der_tag: "length (der_tag t) \<le> 6"
proof -
  have "unat t mod 2 ^ 29 div 128 < 128 ^ 4" by (rule less_mult_imp_div_less) simp
  then have "length (base128 (unat t mod 2 ^ 29)) \<le> 5"
    using length_base128_cont [of _ 4] by (simp add: base128_def)
  then show ?thesis by (simp add: der_tag_def Let_def)
qed

section \<open>Lengths and elements\<close>

fun octets :: "nat \<Rightarrow> nat" where
  "octets n = (if n = 0 then 0 else Suc (octets (n div 256)))"

declare octets.simps [simp del]

lemma octets_0 [simp]: "octets 0 = 0"
  by (simp add: octets.simps)

lemma octets_unique: "256 ^ k \<le> n \<Longrightarrow> n < 256 ^ Suc k \<Longrightarrow> octets n = Suc k"
proof (induction k arbitrary: n)
  case 0
  then show ?case by (simp add: octets.simps [of n] div_eq_0_iff)
next
  case (Suc k)
  have "256 ^ k \<le> n div 256" "n div 256 < 256 ^ Suc k"
    using Suc.prems by (simp_all add: less_eq_div_iff_mult_less_eq div_less_iff_less_mult mult.commute)
  moreover have "n \<noteq> 0" using Suc.prems(1) by (metis le_zero_eq power_not_zero zero_neq_numeral)
  ultimately show ?case using Suc.IH by (simp add: octets.simps [of n])
qed

lemma octets_bounds: "n \<noteq> 0 \<Longrightarrow> \<exists>k. octets n = Suc k \<and> 256 ^ k \<le> n \<and> n < 256 ^ Suc k"
proof (induction n rule: octets.induct)
  case (1 n)
  show ?case
  proof (cases "n div 256 = 0")
    case True
    with 1 show ?thesis by (auto simp: octets.simps [of n] div_eq_0_iff)
  next
    case False
    with 1 obtain k where k: "octets (n div 256) = Suc k" "256 ^ k \<le> n div 256" "n div 256 < 256 ^ Suc k"
      by auto
    with 1 show ?thesis
      by (intro exI [of _ "Suc k"])
        (simp add: octets.simps [of n] less_eq_div_iff_mult_less_eq div_less_iff_less_mult mult.commute)
  qed
qed

definition der_len :: "nat \<Rightarrow> bytes" where
  "der_len n = (if n < 128 then [word_of_nat n]
                else word_of_nat (128 + octets n) # be_bytes (octets n) n)"

definition der_element :: "u32 \<Rightarrow> bytes \<Rightarrow> bytes" where
  "der_element tag c = der_tag tag @ der_len (length c) @ c"

text \<open>The long form of a length as the reader checks it.\<close>

lemma der_len_long:
  assumes "1 \<le> nb" "nb \<le> 4" "length ds = nb" "128 \<le> be_val ds" "256 ^ (nb - 1) \<le> be_val ds"
  shows "der_len (be_val ds) = word_of_nat (128 + nb) # ds"
proof -
  have "octets (be_val ds) = nb"
    using octets_unique [of "nb - 1" "be_val ds"] be_val_less [of ds] assms by simp
  with assms be_bytes_be_val [of ds] show ?thesis by (simp add: der_len_def)
qed

lemma byte_high_form: "b AND 0x80 \<noteq> 0 \<Longrightarrow> unat (b :: byte) = 128 + unat (b AND 0x7f)"
  using byte_split_bit7 [of b] by (simp only: byte_msb byte_and_low) simp

lemma unat_byte_small: "n < 256 \<Longrightarrow> unat (word_of_nat n :: byte) = n"
  by (simp only: unat_of_nat) simp

lemma der_len_long_form:
  assumes "128 \<le> n" "n < 2 ^ 32"
  obtains nb where "octets n = nb" "1 \<le> nb" "nb \<le> 4" "256 ^ (nb - 1) \<le> n" "n < 256 ^ nb"
    "unat (word_of_nat (128 + nb) :: byte) = 128 + nb"
proof -
  have n: "n \<noteq> 0" using assms by simp
  from octets_bounds [OF n] obtain k where k: "octets n = Suc k" "256 ^ k \<le> n" "n < 256 ^ Suc k"
    by auto
  have "(256 :: nat) ^ k < 256 ^ 4" using k(2) assms(2) by simp
  then have "k < 4" by (rule power_less_imp_less_exp [rotated]) simp
  with k show ?thesis by (intro that [of "Suc k"]) (simp_all add: unat_byte_small del: of_nat_add)
qed

lemma unat_add3:
  fixes x :: u64
  assumes "unat x < 2 ^ 32" "h \<le> 10" "k \<le> 4"
  shows "unat (x + of_nat h + of_nat k) = unat x + h + k" "\<not> x + of_nat h + of_nat k < x"
proof -
  have "unat (of_nat h :: u64) = h" "unat (of_nat k :: u64) = k"
    using assms by (simp_all add: unat_of_nat)
  then show u: "unat (x + of_nat h + of_nat k) = unat x + h + k"
    using assms by (simp add: unat_word_ariths)
  show "\<not> x + of_nat h + of_nat k < x" using u by (simp add: word_less_nat_alt)
qed

lemma get_header_len:
  assumes "cbs = der_tag t @ b # h"
  shows "CBS_len cbs - CBS_len h = length (der_tag t) + 1" "length (der_tag t) + 1 \<le> 10"
  using assms length_der_tag [of t] by (simp_all add: CBS_len_def)

definition any_element_body :: "cbs \<Rightarrow> u32 \<Rightarrow> byte \<Rightarrow> cbs \<Rightarrow> (cbs \<times> u32 \<times> nat) option \<times> cbs" where
  "any_element_body cbs tag b h =
     (let get = (\<lambda>len header_len.
            case CBS_get_bytes len cbs of
              (None, cbs) \<Rightarrow> (None, cbs)
            | (Some out, cbs) \<Rightarrow> (Some (out, tag, header_len), cbs));
          hl = CBS_len cbs - CBS_len h; nb = unat (b AND 0x7f)
      in if b AND 0x80 = 0 then get (unat b + hl) hl
         else if nb = 0 \<or> nb > 4 then (None, cbs)
         else if length h < nb then (None, cbs)
         else let len = be_word (take nb h)
              in if len < 128 \<or> drop_bit ((nb - 1) * 8) len = 0 \<or> len + of_nat hl + of_nat nb < len
                 then (None, cbs)
                 else get (unat (len + of_nat hl + of_nat nb)) (hl + nb))"

lemma any_element_unfold:
  "parse_asn1_tag cbs = (Some t, b # h) \<Longrightarrow> cbs_get_any_asn1_element False cbs = any_element_body cbs t b h"
  by (simp add: cbs_get_any_asn1_element_def any_element_body_def Let_def cbs_get_u_eq)

lemma any_element_short:
  assumes "b AND 0x80 = 0"
  shows "any_element_body cbs t b h = (Some (out, tag, hl), r) \<longleftrightarrow>
    t = tag \<and> hl = CBS_len cbs - CBS_len h \<and> unat b + hl \<le> length cbs \<and>
    out = take (unat b + hl) cbs \<and> r = drop (unat b + hl) cbs"
  using assms by (auto simp: any_element_body_def Let_def CBS_get_bytes_eq)

lemma any_element_long:
  fixes b :: byte and h cbs :: cbs
  assumes "b AND 0x80 \<noteq> 0"
  defines "nb \<equiv> unat (b AND 0x7f)"
  defines "len \<equiv> be_word (take nb h)" and "hd_len \<equiv> CBS_len cbs - CBS_len h"
  defines "tot \<equiv> unat (len + of_nat hd_len + of_nat nb)"
  shows "any_element_body cbs t b h = (Some (out, tag, hl), r) \<longleftrightarrow>
    t = tag \<and> 1 \<le> nb \<and> nb \<le> 4 \<and> nb \<le> length h \<and> \<not> len < 128 \<and>
    drop_bit ((nb - 1) * 8) len \<noteq> 0 \<and> \<not> len + of_nat hd_len + of_nat nb < len \<and>
    hl = hd_len + nb \<and> tot \<le> length cbs \<and> out = take tot cbs \<and> r = drop tot cbs"
proof -
  have body: "any_element_body cbs t b h =
    (if nb = 0 \<or> nb > 4 then (None, cbs)
     else if length h < nb then (None, cbs)
     else if len < 128 \<or> drop_bit ((nb - 1) * 8) len = 0 \<or> len + of_nat hd_len + of_nat nb < len
     then (None, cbs)
     else if length cbs < tot then (None, cbs)
     else (Some (take tot cbs, t, hd_len + nb), drop tot cbs))"
    using assms(1) unfolding any_element_body_def Let_def CBS_get_bytes_eq assms(2-)
    by simp
  show ?thesis unfolding body by (auto simp: Suc_le_eq linorder_not_less)
qed

lemma any_element_no_header:
  "parse_asn1_tag cbs = (None, x) \<Longrightarrow> cbs_get_any_asn1_element ber_ok cbs = (None, cbs)"
  "parse_asn1_tag cbs = (Some t, []) \<Longrightarrow> cbs_get_any_asn1_element ber_ok cbs = (None, cbs)"
  by (simp_all add: cbs_get_any_asn1_element_def Let_def)

lemma cbs_get_any_der_sound:
  assumes get: "cbs_get_any_asn1_element False cbs = (Some (out, tag, hl), r)"
  shows "\<exists>c. cbs = out @ r \<and> out = der_element tag c \<and> length c < 2 ^ 32 \<and>
    hl = length (der_tag tag @ der_len (length c))"
proof -
  obtain tg rest where p0: "parse_asn1_tag cbs = (tg, rest)" by fastforce
  then obtain t where p1: "parse_asn1_tag cbs = (Some t, rest)"
    using get by (cases tg) (simp_all add: any_element_no_header)
  have "rest \<noteq> []" using get p1 by (auto simp: any_element_no_header)
  then obtain b h where rest: "rest = b # h" by (cases rest) auto
  have body: "cbs_get_any_asn1_element False cbs = any_element_body cbs t b h"
    using p1 rest by (intro any_element_unfold) simp
  have "t = tag" using get body any_element_short any_element_long by (metis (no_types, lifting))
  with p1 rest body get have p: "parse_asn1_tag cbs = (Some tag, b # h)"
    and get': "any_element_body cbs tag b h = (Some (out, tag, hl), r)" by simp_all
  have cbs: "cbs = der_tag tag @ b # h" using p by (rule parse_asn1_tag_sound)
  let ?hl = "length (der_tag tag) + 1"
  note hl = get_header_len [OF cbs]
  show ?thesis
  proof (cases "b AND 0x80 = 0")
    case True
    from get' [unfolded any_element_short [OF True]] hl have g: "unat b + ?hl \<le> length cbs" "out = take (unat b + ?hl) cbs"
        "hl = ?hl" "r = drop (unat b + ?hl) cbs"
      by simp_all
    let ?c = "take (unat b) h"
    have len: "unat b < 128" using True by (simp only: byte_msb)
    have "length ?c = unat b" using g(1) cbs by simp
    with len have "der_len (length ?c) = [b]" by (simp add: der_len_def)
    with g cbs \<open>length ?c = unat b\<close> len show ?thesis
      by (intro exI [of _ ?c]) (simp add: der_element_def)
  next
    case False
    let ?nb = "unat (b AND 0x7f)"
    let ?ds = "take ?nb h"
    let ?len = "be_word ?ds"
    from get' [unfolded any_element_long [OF False]] hl(1) have nb: "1 \<le> ?nb" "?nb \<le> 4" "?nb \<le> length h"
        "\<not> ?len < 128" "drop_bit ((?nb - 1) * 8) ?len \<noteq> 0"
      and g: "unat (?len + of_nat ?hl + of_nat ?nb) \<le> length cbs"
        "out = take (unat (?len + of_nat ?hl + of_nat ?nb)) cbs"
        "r = drop (unat (?len + of_nat ?hl + of_nat ?nb)) cbs" "hl = ?hl + ?nb"
      by simp_all
    have lds: "length ?ds = ?nb" using nb(3) by simp
    with nb(2) have len: "unat ?len = be_val ?ds" by (intro unat_be_word) simp
    have lt: "be_val ?ds < 2 ^ 32"
    proof -
      have "be_val ?ds < 256 ^ ?nb" using be_val_less [of ?ds] lds by simp
      also have "\<dots> \<le> 256 ^ 4" using nb(2) by (intro power_increasing) simp_all
      finally show ?thesis by simp
    qed
    have dl: "der_len (be_val ?ds) = b # ?ds"
    proof -
      have "128 \<le> be_val ?ds" using nb(4) len by (simp add: word_less_nat_alt)
      moreover have "256 ^ (?nb - 1) \<le> be_val ?ds"
        using nb(5) len by (simp add: drop_bit_eq_0_iff_unat power_mult mult.commute [of _ 8])
      ultimately have "der_len (be_val ?ds) = word_of_nat (128 + ?nb) # ?ds"
        using nb(1,2) lds by (intro der_len_long) simp_all
      moreover have "word_of_nat (128 + ?nb) = b"
        by (rule byte_of_nat_eqI) (rule byte_high_form [OF False])
      ultimately show ?thesis by simp
    qed
    have "unat (?len + of_nat ?hl + of_nat ?nb) = be_val ?ds + ?hl + ?nb"
      using unat_add3(1) [of ?len ?hl ?nb] lt len hl(2) nb(2) by simp
    with g(1-3) have g': "be_val ?ds + ?hl + ?nb \<le> length cbs" "out = take (be_val ?ds + ?hl + ?nb) cbs"
        "r = drop (be_val ?ds + ?hl + ?nb) cbs"
      by (simp_all only:)
    let ?c = "take (be_val ?ds) (drop ?nb h)"
    have c: "length ?c = be_val ?ds" using g'(1) cbs by simp
    have "take (be_val ?ds + ?hl + ?nb) cbs = der_tag tag @ b # take (be_val ?ds + ?nb) h"
      using cbs by simp
    also have "\<dots> = der_element tag ?c"
      unfolding der_element_def c dl by (simp only: add.commute [of "be_val ?ds"] take_add) simp
    finally have "out = der_element tag ?c" using g' by simp
    moreover have "cbs = out @ r" using g' by simp
    moreover have "hl = length (der_tag tag @ der_len (length ?c))"
      unfolding c dl using g(4) lds by simp
    ultimately show ?thesis using lt c by (intro exI [of _ ?c]) simp
  qed
qed

lemma cbs_get_any_der_complete:
  assumes "length c < 2 ^ 32"
  shows "cbs_get_any_asn1_element False (der_element tag c @ r) =
    (Some (der_element tag c, tag, length (der_tag tag @ der_len (length c))), r)"
proof -
  let ?cbs = "der_element tag c @ r"
  show ?thesis
  proof (cases "length c < 128")
    case True
    let ?b = "word_of_nat (length c) :: byte" and ?h = "c @ r"
    have b: "unat ?b = length c" using True by (intro unat_byte_small) simp
    have cbs: "?cbs = der_tag tag @ ?b # ?h" using True by (simp add: der_element_def der_len_def)
    have p: "parse_asn1_tag ?cbs = (Some tag, ?b # ?h)"
      unfolding cbs by (rule parse_asn1_tag_complete)
    have s: "?b AND 0x80 = 0" using True b by (simp only: byte_msb)
    show ?thesis
      unfolding any_element_unfold [OF p] any_element_short [OF s]
      unfolding get_header_len(1) [OF cbs] b using True
      by (simp add: der_element_def der_len_def)
  next
    case False
    let ?n = "length c"
    from False assms obtain nb where nb: "octets ?n = nb" "1 \<le> nb" "nb \<le> 4" "256 ^ (nb - 1) \<le> ?n"
      "?n < 256 ^ nb" "unat (word_of_nat (128 + nb) :: byte) = 128 + nb"
      by (auto intro: der_len_long_form [of ?n])
    let ?b = "word_of_nat (128 + nb) :: byte" and ?h = "be_bytes nb ?n @ c @ r"
    have cbs: "?cbs = der_tag tag @ ?b # ?h"
      using False nb(1) by (simp add: der_element_def der_len_def)
    have p: "parse_asn1_tag ?cbs = (Some tag, ?b # ?h)"
      unfolding cbs by (rule parse_asn1_tag_complete)
    have l: "?b AND 0x80 \<noteq> 0" using nb(6) by (simp only: byte_msb)
    have k: "unat (?b AND 0x7f) = nb" using nb(3,6) by (simp only: byte_and_low) simp
    have len: "unat (be_word (be_bytes nb ?n)) = ?n"
      using nb(3,5) by (simp add: unat_be_word be_val_be_bytes)
    have d: "drop_bit ((nb - 1) * 8) (be_word (be_bytes nb ?n)) \<noteq> 0"
      using nb(4) by (simp add: drop_bit_eq_0_iff_unat len power_mult mult.commute [of _ 8])
    note hl = get_header_len [OF cbs]
    have a: "unat (be_word (be_bytes nb ?n) + of_nat (length (der_tag tag) + 1) + of_nat nb) =
        ?n + (length (der_tag tag) + 1) + nb"
      "\<not> be_word (be_bytes nb ?n) + of_nat (length (der_tag tag) + 1) + of_nat nb < be_word (be_bytes nb ?n)"
      using unat_add3 [of "be_word (be_bytes nb ?n)" "length (der_tag tag) + 1" nb] assms hl(2) nb(3) len
      by simp_all
    have ge: "\<not> be_word (be_bytes nb ?n) < 128" using False len by (simp add: word_less_nat_alt)
    have tk: "take nb ?h = be_bytes nb ?n" by simp
    show ?thesis
      unfolding any_element_unfold [OF p] any_element_long [OF l]
      unfolding k hl(1) tk
      using nb(1-3) a ge d False
      by (simp add: der_element_def der_len_def)
  qed
qed

lemma CBS_get_any_asn1_element_iff:
  "CBS_get_any_asn1_element cbs = (Some (out, tag, hl), r) \<longleftrightarrow>
    (\<exists>c. cbs = out @ r \<and> out = der_element tag c \<and> length c < 2 ^ 32 \<and>
      hl = length (der_tag tag @ der_len (length c)))"
  unfolding CBS_get_any_asn1_element_def
  using cbs_get_any_der_sound cbs_get_any_der_complete by blast

lemma drop_der_header [simp]:
  "drop (length (der_tag tag) + length (der_len (length c))) (der_element tag c) = c"
  by (simp add: der_element_def)

lemma length_der_element [simp]:
  "length (der_element tag c) = length (der_tag tag) + length (der_len (length c)) + length c"
  by (simp add: der_element_def)

lemma CBS_get_any_asn1_sound:
  assumes "CBS_get_any_asn1 cbs = (Some (c, tag), r)"
  shows "cbs = der_element tag c @ r \<and> length c < 2 ^ 32"
proof -
  from assms obtain out hl where e: "CBS_get_any_asn1_element cbs = (Some (out, tag, hl), r)"
    "c = drop hl out"
    by (auto simp: CBS_get_any_asn1_def CBS_skip_eq split: prod.splits option.splits if_splits)
  then show ?thesis by (auto simp: CBS_get_any_asn1_element_iff)
qed

lemma CBS_get_any_asn1_iff_gen:
  "CBS_get_any_asn1 cbs = (Some (c, tag), r) \<longleftrightarrow> cbs = der_element tag c @ r \<and> length c < 2 ^ 32"
proof
  assume "cbs = der_element tag c @ r \<and> length c < 2 ^ 32"
  then have "CBS_get_any_asn1_element cbs =
      (Some (der_element tag c, tag, length (der_tag tag @ der_len (length c))), r)"
    by (auto simp: CBS_get_any_asn1_element_iff)
  then show "CBS_get_any_asn1 cbs = (Some (c, tag), r)"
    by (simp add: CBS_get_any_asn1_def CBS_skip_eq)
qed (rule CBS_get_any_asn1_sound)

lemma CBS_get_asn1_iff:
  "CBS_get_asn1 tag cbs = (Some c, r) \<longleftrightarrow> cbs = der_element tag c @ r \<and> length c < 2 ^ 32"
proof
  assume "CBS_get_asn1 tag cbs = (Some c, r)"
  then obtain out hl where e: "CBS_get_any_asn1_element cbs = (Some (out, tag, hl), r)"
    "c = drop hl out"
    by (auto simp: CBS_get_asn1_def cbs_get_asn1_def CBS_skip_eq
        split: prod.splits option.splits if_splits)
  then show "cbs = der_element tag c @ r \<and> length c < 2 ^ 32"
    by (auto simp: CBS_get_any_asn1_element_iff)
next
  assume "cbs = der_element tag c @ r \<and> length c < 2 ^ 32"
  then have "CBS_get_any_asn1_element cbs =
      (Some (der_element tag c, tag, length (der_tag tag @ der_len (length c))), r)"
    by (auto simp: CBS_get_any_asn1_element_iff)
  then show "CBS_get_asn1 tag cbs = (Some c, r)"
    by (simp add: CBS_get_asn1_def cbs_get_asn1_def CBS_skip_eq)
qed

lemma CBS_get_asn1_element_iff:
  "CBS_get_asn1_element tag cbs = (Some e, r) \<longleftrightarrow>
    (\<exists>c. e = der_element tag c \<and> cbs = e @ r \<and> length c < 2 ^ 32)"
proof
  assume "CBS_get_asn1_element tag cbs = (Some e, r)"
  then obtain hl where "CBS_get_any_asn1_element cbs = (Some (e, tag, hl), r)"
    by (auto simp: CBS_get_asn1_element_def cbs_get_asn1_def split: prod.splits option.splits if_splits)
  then show "\<exists>c. e = der_element tag c \<and> cbs = e @ r \<and> length c < 2 ^ 32"
    by (auto simp: CBS_get_any_asn1_element_iff)
next
  assume "\<exists>c. e = der_element tag c \<and> cbs = e @ r \<and> length c < 2 ^ 32"
  then obtain hl where "CBS_get_any_asn1_element cbs = (Some (e, tag, hl), r)"
    by (auto simp: CBS_get_any_asn1_element_iff)
  then show "CBS_get_asn1_element tag cbs = (Some e, r)"
    by (simp add: CBS_get_asn1_element_def cbs_get_asn1_def)
qed

interpretation der_code: canonical_code "\<lambda>(c, tag). der_element tag c" CBS_get_any_asn1
  "\<lambda>(c, tag). length c < 2 ^ 32"
  by unfold_locales (auto simp: CBS_get_any_asn1_iff_gen)

lemma CBS_peek_asn1_tag_der [simp]:
  "CBS_peek_asn1_tag (der_element tag c @ r) t \<longleftrightarrow> t = tag"
proof -
  have "CBS_len (der_element tag c @ r) \<ge> 1"
    by (simp add: CBS_len_def der_element_def der_tag_def Let_def)
  then show ?thesis
    using parse_asn1_tag_complete [of tag "der_len (length c) @ c @ r"]
    by (simp add: CBS_peek_asn1_tag_def der_element_def)
qed

section \<open>Integers\<close>

function int_octets :: "int \<Rightarrow> bytes" where
  "int_octets i = (if - 128 \<le> i \<and> i < 128 then [word_of_int i]
                   else int_octets (i div 256) @ [word_of_int i])"
  by pat_completeness auto
termination by (relation "measure (\<lambda>i. nat \<bar>i\<bar>)") auto

declare int_octets.simps [simp del]

definition minimal_int :: "bytes \<Rightarrow> bool" where
  "minimal_int ds \<longleftrightarrow> ds \<noteq> [] \<and>
     \<not> (length ds > 1 \<and> ds ! 0 = 0 \<and> ds ! 1 AND 0x80 = 0) \<and>
     \<not> (length ds > 1 \<and> ds ! 0 = 0xff \<and> ds ! 1 AND 0x80 \<noteq> 0)"

text \<open>The two's complement value of a byte string.\<close>

definition tc_val :: "bytes \<Rightarrow> int" where
  "tc_val ds = int (be_val ds) - (if ds ! 0 AND 0x80 \<noteq> 0 then 256 ^ length ds else 0)"

lemma uint_byte [simp]: "uint (b :: byte) < 256" "0 \<le> uint b" "uint b mod 256 = uint b"
  using unsigned_less [of b, where 'a = int] by simp_all

lemma uint_byte_less_128: "unat (b :: byte) < 128 \<longleftrightarrow> uint b < 128"
proof -
  have "unat b < 128 \<longleftrightarrow> int (unat b) < int 128" by (simp only: of_nat_less_iff)
  then show ?thesis by simp
qed

lemma tc_val_single: "tc_val [b] = (if unat b < 128 then int (unat b) else int (unat b) - 256)"
  using be_val_snoc [of "[]" b] by (simp add: tc_val_def byte_msb)

lemma tc_val_snoc: "ds \<noteq> [] \<Longrightarrow> tc_val (ds @ [b]) = 256 * tc_val ds + int (unat b)"
  by (simp add: tc_val_def nth_append)

lemma tc_val_range_1: "- 128 \<le> tc_val [b] \<and> tc_val [b] < 128"
proof -
  have "0 \<le> uint b" "uint b < 256" by (rule uint_byte)+
  then show ?thesis by (simp only: tc_val_single uint_byte_less_128 uint_nat [symmetric] split: if_split)
      linarith
qed

lemma byte_eq_consts: "(b :: byte) = 0 \<longleftrightarrow> unat b = 0" "b = 0xff \<longleftrightarrow> unat b = 255"
  by (simp_all add: word_nat_lift)

lemma byte_of_int_tc: "word_of_int (256 * i + int (unat b)) = (b :: byte)"
proof -
  have "(256 * i + int (unat b)) mod 256 = int (unat b)" by simp
  then have "uint (word_of_int (256 * i + int (unat b)) :: byte) = uint b"
    by (simp only: uint_word_of_int) simp
  then show ?thesis by (simp only: word_uint_eq_iff)
qed

lemma word_of_int_tc_single: "word_of_int (tc_val [b]) = b"
  using byte_of_int_tc [of 0 b] byte_of_int_tc [of "-1" b] by (simp add: tc_val_single)

lemma two_byte_int:
  fixes d b :: nat
  assumes "d < 256" "b < 256" "\<not> (d = 0 \<and> b < 128)" "\<not> (d = 255 \<and> \<not> b < 128)"
  shows "\<not> (- 128 \<le> 256 * (if d < 128 then int d else int d - 256) + int b \<and>
    256 * (if d < 128 then int d else int d - 256) + int b < 128)"
  using assms by auto

lemma tc_val_minimal:
  "minimal_int ds \<Longrightarrow> int_octets (tc_val ds) = ds \<and>
     (length ds > 1 \<longrightarrow> \<not> (- 128 \<le> tc_val ds \<and> tc_val ds < 128))"
proof (induction ds rule: rev_induct)
  case Nil
  then show ?case by (simp add: minimal_int_def)
next
  case (snoc b ds)
  show ?case
  proof (cases "ds = []")
    case True
    then show ?thesis
      using tc_val_range_1 [of b] word_of_int_tc_single [of b] by (simp add: int_octets.simps)
  next
    case ne: False
    have b: "0 \<le> int (unat b)" "int (unat b) < 256" using unat_byte_less [of b] by simp_all
    have min: "minimal_int ds"
      using snoc.prems ne by (cases ds; cases "tl ds") (auto simp: minimal_int_def)
    note IH = snoc.IH [OF min]
    have out: "\<not> (- 128 \<le> tc_val (ds @ [b]) \<and> tc_val (ds @ [b]) < 128)"
    proof (cases "length ds > 1")
      case True
      with IH have "tc_val ds < - 128 \<or> 128 \<le> tc_val ds" by auto
      with b show ?thesis unfolding tc_val_snoc [OF ne] by linarith
    next
      case False
      with ne obtain d where d: "ds = [d]" by (cases ds) auto
      have min1: "\<not> (d = 0 \<and> b AND 0x80 = 0)" "\<not> (d = 0xff \<and> b AND 0x80 \<noteq> 0)"
        using snoc.prems d by (auto simp: minimal_int_def)
      have "\<not> (unat d = 0 \<and> unat b < 128)" "\<not> (unat d = 255 \<and> \<not> unat b < 128)"
        using min1 unfolding byte_msb byte_eq_consts [of d] by auto
      note two = two_byte_int [OF unat_byte_less unat_byte_less this]
      have s: "tc_val (ds @ [b]) = 256 * tc_val [d] + int (unat b)"
        using tc_val_snoc [OF ne, of b] d by (simp only:)
      show ?thesis unfolding s tc_val_single by (rule two)
    qed
    have "tc_val (ds @ [b]) div 256 = tc_val ds" using b by (simp add: tc_val_snoc [OF ne])
    moreover have "word_of_int (tc_val (ds @ [b])) = b"
      unfolding tc_val_snoc [OF ne] by (rule byte_of_int_tc)
    ultimately show ?thesis using out IH
      by (simp only: int_octets.simps [of "tc_val (ds @ [b])"] if_False) auto
  qed
qed

lemma int_octets_nonempty [simp]: "int_octets i \<noteq> []"
  by (simp add: int_octets.simps [of i])

lemma unat_word_of_int_byte: "int (unat (word_of_int i :: byte)) = i mod 256"
  by (simp add: uint_word_of_int)

lemma tc_val_int_octets: "tc_val (int_octets i) = i"
proof (induction i rule: int_octets.induct)
  case (1 i)
  have u: "int (unat (word_of_int i :: byte)) = i mod 256" by (rule unat_word_of_int_byte)
  show ?case
  proof (cases "- 128 \<le> i \<and> i < 128")
    case True
    have "tc_val [word_of_int i] = i"
    proof (cases "0 \<le> i")
      case True
      with \<open>- 128 \<le> i \<and> i < 128\<close> have "i mod 256 = i" by simp
      with u have "int (unat (word_of_int i :: byte)) = i" by (simp only:)
      moreover from this \<open>- 128 \<le> i \<and> i < 128\<close> have "unat (word_of_int i :: byte) < 128" by linarith
      ultimately show ?thesis by (simp only: tc_val_single if_True)
    next
      case False
      with \<open>- 128 \<le> i \<and> i < 128\<close> have "(i + 256) mod 256 = i + 256" by (intro mod_pos_pos_trivial) auto
      then have "i mod 256 = i + 256" by simp
      with u have w: "int (unat (word_of_int i :: byte)) = i + 256" by (simp only:)
      with \<open>- 128 \<le> i \<and> i < 128\<close> have "\<not> unat (word_of_int i :: byte) < 128" by linarith
      with w show ?thesis by (simp only: tc_val_single) simp
    qed
    with True show ?thesis by (simp add: int_octets.simps [of i])
  next
    case False
    then have e: "int_octets i = int_octets (i div 256) @ [word_of_int i]"
      by (simp only: int_octets.simps [of i] if_False)
    show ?thesis
      unfolding e tc_val_snoc [OF int_octets_nonempty] u using 1 False by simp
  qed
qed

lemma minimal_int_snoc:
  assumes "minimal_int ds" "length ds = 1 \<Longrightarrow> \<not> (ds ! 0 = 0 \<and> b AND 0x80 = 0) \<and> \<not> (ds ! 0 = 0xff \<and> b AND 0x80 \<noteq> 0)"
  shows "minimal_int (ds @ [b])"
  using assms by (cases ds; cases "tl ds") (auto simp: minimal_int_def)

lemma two_byte_int_back:
  fixes d n :: nat and i :: int
  assumes "i = 256 * (if d < 128 then int d else int d - 256) + int n"
    "\<not> (- 128 \<le> i \<and> i < 128)" "n < 256"
  shows "\<not> (d = 0 \<and> n < 128) \<and> \<not> (d = 255 \<and> \<not> n < 128)"
  using assms by auto

lemma minimal_int_octets: "minimal_int (int_octets i)"
proof (induction i rule: int_octets.induct)
  case (1 i)
  show ?case
  proof (cases "- 128 \<le> i \<and> i < 128")
    case True
    then show ?thesis by (simp add: int_octets.simps [of i] minimal_int_def)
  next
    case False
    then have e: "int_octets i = int_octets (i div 256) @ [word_of_int i]"
      by (simp only: int_octets.simps [of i] if_False)
    let ?b = "word_of_int i :: byte"
    have "\<not> (d = 0 \<and> ?b AND 0x80 = 0) \<and> \<not> (d = 0xff \<and> ?b AND 0x80 \<noteq> 0)"
      if "int_octets (i div 256) = [d]" for d
    proof -
      have "i div 256 = tc_val [d]" using tc_val_int_octets [of "i div 256"] that by simp
      then have i: "i = 256 * tc_val [d] + int (unat ?b)"
        unfolding unat_word_of_int_byte by (metis mult_div_mod_eq)
      show ?thesis
        unfolding byte_msb byte_eq_consts [of d]
        by (rule two_byte_int_back [OF i [unfolded tc_val_single] False unat_byte_less])
    qed
    then show ?thesis
      unfolding e by (intro minimal_int_snoc 1 [OF False]) (auto simp: length_Suc_conv)
  qed
qed

lemma length_int_octets: "- (2 ^ (8 * k + 7)) \<le> i \<Longrightarrow> i < 2 ^ (8 * k + 7) \<Longrightarrow> length (int_octets i) \<le> Suc k"
proof (induction k arbitrary: i)
  case 0
  then show ?case by (simp add: int_octets.simps [of i])
next
  case (Suc k)
  have "- (2 ^ (8 * k + 7)) \<le> i div 256" "i div 256 < 2 ^ (8 * k + 7)"
    using Suc.prems by (auto simp: power_add)
  with Suc.IH show ?case by (simp add: int_octets.simps [of i])
qed

lemma tc_val_range: "ds \<noteq> [] \<Longrightarrow> - (2 ^ (8 * length ds - 1)) \<le> tc_val ds \<and> tc_val ds < 2 ^ (8 * length ds - 1)"
proof (induction ds rule: rev_induct)
  case Nil
  then show ?case by simp
next
  case (snoc b ds)
  show ?case
  proof (cases "ds = []")
    case True
    then show ?thesis using tc_val_range_1 [of b] by simp
  next
    case False
    then have p: "(2 :: int) ^ (8 * length (ds @ [b]) - 1) = 256 * 2 ^ (8 * length ds - 1)"
      by (cases ds) (simp_all add: power_add)
    have "0 \<le> int (unat b)" "int (unat b) < 256" by simp_all
    with snoc False show ?thesis unfolding tc_val_snoc [OF False] p by linarith
  qed
qed


section \<open>The readers of ASN.1 values\<close>

lemma asn1_uint64_loop_eq:
  "asn1_uint64_loop v ds =
    (if 256 ^ length ds * unat v + be_val ds < 2 ^ 64
     then Some (of_nat (256 ^ length ds * unat v + be_val ds)) else None)"
proof (induction ds arbitrary: v)
  case Nil
  then show ?case using unsigned_less [of v] by simp
next
  case (Cons d ds)
  show ?case
  proof (cases "drop_bit 56 v = 0")
    case True
    then have "unat v < 2 ^ 56" by (simp add: drop_bit_eq_0_iff_unat)
    then have "256 * (unat v + 1) \<le> 2 ^ 64" by simp
    moreover have "256 * unat v + unat d < 256 * (unat v + 1)" by simp
    ultimately have "256 * unat v + unat d < 2 ^ 64" by (rule less_le_trans [rotated])
    then have u: "unat (push_bit 8 v OR ucast d :: u64) = 256 * unat v + unat d"
      using unat_push_bit_or [of "ucast d :: u64" 8 v] by simp
    show ?thesis
      using True by (simp add: Cons u be_val_Cons algebra_simps)
  next
    case False
    then have "2 ^ 56 \<le> unat v" by (simp add: drop_bit_eq_0_iff_unat)
    then have "256 * (2 ^ 56) \<le> 256 ^ length (d # ds) * unat v"
      by (intro mult_le_mono) simp_all
    then have "256 * 2 ^ 56 \<le> 256 ^ length (d # ds) * unat v + be_val (d # ds)"
      by (rule trans_le_add1)
    moreover have "(2 :: nat) ^ 64 = 256 * 2 ^ 56" by simp
    ultimately have "\<not> 256 ^ length (d # ds) * unat v + be_val (d # ds) < 2 ^ 64"
      by (simp only: not_less)
    with False show ?thesis by (simp only: asn1_uint64_loop.simps not_False_eq_True if_True if_False)
  qed
qed

lemma minimal_int_be_val:
  assumes "minimal_int ds" "ds ! 0 AND 0x80 = 0"
  shows "ds = int_octets (int (be_val ds))"
proof -
  have "tc_val ds = int (be_val ds)" using assms(2) by (simp add: tc_val_def)
  with tc_val_minimal [OF assms(1)] show ?thesis by simp
qed

lemma int_octets_nonneg:
  assumes "0 \<le> i"
  shows "int_octets i ! 0 AND 0x80 = 0" "int (be_val (int_octets i)) = i"
proof -
  let ?ds = "int_octets i"
  have "int (be_val ?ds) < 256 ^ length ?ds"
    using be_val_less [of ?ds] by (metis of_nat_less_iff of_nat_numeral of_nat_power)
  then have lt: "int (be_val ?ds) - 256 ^ length ?ds < 0" by linarith
  show "?ds ! 0 AND 0x80 = 0"
  proof (rule ccontr)
    assume "?ds ! 0 AND 0x80 \<noteq> 0"
    then have "i = int (be_val ?ds) - 256 ^ length ?ds"
      using tc_val_int_octets [of i] by (simp add: tc_val_def)
    with lt assms show False by linarith
  qed
  then show "int (be_val ?ds) = i" using tc_val_int_octets [of i] by (simp add: tc_val_def)
qed

lemma CBS_get_asn1_uint64_iff_gen:
  "CBS_get_asn1_uint64 cbs = (Some v, r) \<longleftrightarrow>
    cbs = der_element CBS_ASN1_INTEGER (int_octets (int (unat v))) @ r"
proof
  assume "CBS_get_asn1_uint64 cbs = (Some v, r)"
  then obtain ds where d: "CBS_get_asn1 CBS_ASN1_INTEGER cbs = (Some ds, r)" "ds \<noteq> []"
      "ds ! 0 AND 0x80 = 0" "\<not> (ds ! 0 = 0 \<and> length ds > 1 \<and> ds ! 1 AND 0x80 = 0)"
      "asn1_uint64_loop 0 ds = Some v"
    by (auto simp: CBS_get_asn1_uint64_def CBS_data_def CBS_len_def Let_def
        split: prod.splits option.splits if_splits)
  then have m: "minimal_int ds" by (auto simp: minimal_int_def)
  have "unat v = be_val ds"
    using d(5) by (auto simp: asn1_uint64_loop_eq unat_of_nat split: if_splits)
  with minimal_int_be_val [OF m d(3)] d(1)
  show "cbs = der_element CBS_ASN1_INTEGER (int_octets (int (unat v))) @ r"
    by (simp add: CBS_get_asn1_iff)
next
  let ?ds = "int_octets (int (unat v))"
  assume cbs: "cbs = der_element CBS_ASN1_INTEGER ?ds @ r"
  have v: "unat v < 2 ^ 64" using unsigned_less [of v] by simp
  then have "int (unat v) < int (2 ^ 64)" by (simp only: of_nat_less_iff)
  then have "int (unat v) < 2 ^ (8 * 8 + 7)" by simp
  moreover have "- (2 ^ (8 * 8 + 7)) \<le> int (unat v)"
    by (rule order_trans [OF _ of_nat_0_le_iff]) simp
  ultimately have "length ?ds \<le> Suc 8" by (intro length_int_octets)
  with cbs have g: "CBS_get_asn1 CBS_ASN1_INTEGER cbs = (Some ?ds, r)"
    by (simp add: CBS_get_asn1_iff)
  note nn = int_octets_nonneg [of "int (unat v)"]
  have "int (be_val ?ds) = int (unat v)" using nn(2) by simp
  then have "be_val ?ds = unat v" by (simp only: of_nat_eq_iff)
  with v have l: "asn1_uint64_loop 0 ?ds = Some v" by (simp add: asn1_uint64_loop_eq)
  show "CBS_get_asn1_uint64 cbs = (Some v, r)"
    using minimal_int_octets [of "int (unat v)"] nn(1) g l
    by (simp add: CBS_get_asn1_uint64_def CBS_data_def CBS_len_def Let_def minimal_int_def)
qed

lemma map_rev_pad:
  "length ds \<le> n \<Longrightarrow> map (\<lambda>i. if i < length ds then ds ! (length ds - i - 1) else p) [0..<n]
    = rev ds @ replicate (n - length ds) p"
  by (rule nth_equalityI) (auto simp: nth_append rev_nth)

lemma be_val_replicate:
  "be_val (replicate k 0) = 0" "int (be_val (replicate k 0xff)) = 256 ^ k - 1"
proof -
  show "be_val (replicate k 0) = 0"
    by (induction k) (simp_all add: be_val_Cons)
  show "int (be_val (replicate k 0xff)) = 256 ^ k - 1"
    by (induction k) (simp_all add: be_val_Cons)
qed

text \<open>Sign extension to eight bytes represents the two's complement value.\<close>

lemma sign_extend_bytes:
  assumes "ds \<noteq> []" "length ds \<le> 8"
  defines "p \<equiv> (if ds ! 0 AND 0x80 \<noteq> 0 then 0xff else 0)"
  shows "sint (of_nat (le_val (rev ds @ replicate (8 - length ds) p)) :: u64) = tc_val ds"
proof -
  let ?n = "be_val (replicate (8 - length ds) p @ ds)"
  have le: "le_val (rev ds @ replicate (8 - length ds) p) = ?n"
    using le_val_rev [of "replicate (8 - length ds) p @ ds"] by simp
  have "int ?n = tc_val ds + (if ds ! 0 AND 0x80 \<noteq> 0 then 2 ^ 64 else 0)"
  proof (cases "ds ! 0 AND 0x80 = 0")
    case True
    then show ?thesis by (simp add: be_val_append p_def be_val_replicate tc_val_def)
  next
    case False
    have "(256 :: int) ^ length ds * 256 ^ (8 - length ds) = 256 ^ 8"
      using assms(2) by (simp flip: power_add)
    with False show ?thesis
      by (simp add: be_val_append p_def be_val_replicate tc_val_def algebra_simps)
  qed
  moreover have "word_of_int (int ?n) = (of_nat ?n :: u64)" by (simp only: of_int_of_nat_eq)
  moreover have "word_of_int (tc_val ds + 2 ^ 64) = (word_of_int (tc_val ds) :: u64)" by simp
  ultimately have "(of_nat ?n :: u64) = word_of_int (tc_val ds)"
    by (cases "ds ! 0 AND 0x80 = 0") simp_all
  moreover have "sint (word_of_int (tc_val ds) :: u64) = tc_val ds"
  proof -
    have "(2 :: int) ^ (8 * length ds - 1) \<le> 2 ^ 63"
      using assms(2) by (intro power_increasing) simp_all
    with tc_val_range [OF assms(1)] have "- (2 ^ 63) \<le> tc_val ds" "tc_val ds < 2 ^ 63" by linarith+
    then have "(tc_val ds + 2 ^ 63) mod 2 ^ 64 = tc_val ds + 2 ^ 63"
      by (intro mod_pos_pos_trivial) simp_all
    then show ?thesis by (simp add: int_word_sint)
  qed
  ultimately show ?thesis by (simp only: le)
qed


lemma sign_extend_bytes_eq:
  assumes "ds \<noteq> []" "length ds \<le> 8"
  shows "sint (of_nat (le_val (map (\<lambda>i. if i < length ds then ds ! (length ds - i - 1)
      else if ds ! 0 AND 0x80 \<noteq> 0 then 0xff else 0) [0..<8])) :: u64) = tc_val ds"
  using sign_extend_bytes [OF assms] by (simp only: map_rev_pad [OF assms(2)])

lemma CBS_get_asn1_int64_iff_gen:
  "CBS_get_asn1_int64 cbs = (Some v, r) \<longleftrightarrow>
    cbs = der_element CBS_ASN1_INTEGER (int_octets (sint v)) @ r"
proof
  assume "CBS_get_asn1_int64 cbs = (Some v, r)"
  then obtain ds where d: "CBS_get_asn1 CBS_ASN1_INTEGER cbs = (Some ds, r)" "ds \<noteq> []" "length ds \<le> 8"
      "minimal_int ds"
      "v = of_nat (le_val (map (\<lambda>i. if i < length ds then ds ! (length ds - i - 1)
      else if ds ! 0 AND 0x80 \<noteq> 0 then 0xff else 0) [0..<8]))"
    by (auto simp: CBS_get_asn1_int64_def CBS_data_def CBS_len_def Let_def minimal_int_def
        split: prod.splits option.splits if_splits simp del: upt_Suc)
  then have "sint v = tc_val ds" using sign_extend_bytes_eq [of ds] by simp
  with tc_val_minimal [OF d(4)] d(1)
  show "cbs = der_element CBS_ASN1_INTEGER (int_octets (sint v)) @ r"
    by (simp add: CBS_get_asn1_iff)
next
  let ?ds = "int_octets (sint v)"
  assume cbs: "cbs = der_element CBS_ASN1_INTEGER ?ds @ r"
  have "length ?ds \<le> Suc 7"
    using sint_greater_eq [of v] sint_less [of v] by (intro length_int_octets) simp_all
  then have l: "length ?ds \<le> 8" by simp
  with cbs have g: "CBS_get_asn1 CBS_ASN1_INTEGER cbs = (Some ?ds, r)"
    by (simp add: CBS_get_asn1_iff)
  let ?w = "of_nat (le_val (map (\<lambda>i. if i < length ?ds then ?ds ! (length ?ds - i - 1)
      else if ?ds ! 0 AND 0x80 \<noteq> 0 then 0xff else 0) [0..<8])) :: u64"
  have "sint ?w = sint v"
    using sign_extend_bytes_eq [OF int_octets_nonempty l] tc_val_int_octets [of "sint v"] by simp
  then have w: "?w = v" by (simp only: signed_word_eqI)
  show "CBS_get_asn1_int64 cbs = (Some v, r)"
    using minimal_int_octets [of "sint v"] g l w
    by (simp add: CBS_get_asn1_int64_def CBS_data_def CBS_len_def Let_def minimal_int_def
        del: upt_Suc)
qed

lemma CBS_get_asn1_bool_iff_gen:
  "CBS_get_asn1_bool cbs = (Some b, r) \<longleftrightarrow>
    cbs = der_element CBS_ASN1_BOOLEAN [if b then 0xff else 0] @ r"
proof -
  have "CBS_get_asn1_bool cbs = (Some b, r) \<longleftrightarrow>
    CBS_get_asn1 CBS_ASN1_BOOLEAN cbs = (Some [if b then 0xff else 0], r)"
    by (auto simp: CBS_get_asn1_bool_def CBS_data_def CBS_len_def Let_def length_Suc_conv
        split: prod.splits option.splits if_splits)
  then show ?thesis by (simp add: CBS_get_asn1_iff)
qed

section \<open>Bit strings\<close>

lemma byte_bit_less: "bit (b :: byte) k \<Longrightarrow> k < 8"
  using bit_imp_le_length [of b k] by simp

lemma byte_low_bits_zero: "(b :: byte) AND (2 ^ u - 1) = 0 \<longleftrightarrow> (\<forall>k < u. \<not> bit b k)"
proof -
  have "b AND (2 ^ u - 1) = take_bit u b" by (simp only: take_bit_eq_mask mask_eq_exp_minus_1)
  then show ?thesis
    by (auto simp: bit_eq_iff bit_take_bit_iff dest: byte_bit_less)
qed

lemma CBS_is_valid_asn1_bitstring_iff_gen:
  "CBS_is_valid_asn1_bitstring cbs \<longleftrightarrow>
    (\<exists>u bits. cbs = u # bits \<and> unat u \<le> 7 \<and>
      (u \<noteq> 0 \<longrightarrow> bits \<noteq> [] \<and> (\<forall>k < unat u. \<not> bit (last bits) k)))"
  by (cases cbs)
    (auto simp: CBS_is_valid_asn1_bitstring_def CBS_get_last_u8_def CBS_len_def last_conv_nth
      byte_low_bits_zero word_less_nat_alt)

lemma bit_and_push_bit: "(b :: byte) AND push_bit k 1 \<noteq> 0 \<longleftrightarrow> bit b k"
  using bit_iff_and_push_bit_not_eq_0 [of b k] by simp

lemma has_bit_position:
  assumes "CBS_asn1_bitstring_has_bit cbs n"
  shows "\<exists>u bits. cbs = u # bits \<and> unat u \<le> 7 \<and> unat n div 8 < length bits \<and>
    (u \<noteq> 0 \<longrightarrow> (\<forall>k < unat u. \<not> bit (last bits) k)) \<and> bit (bits ! (unat n div 8)) (7 - unat n mod 8)"
proof -
  from assms have v: "CBS_is_valid_asn1_bitstring cbs" by (simp add: CBS_asn1_bitstring_has_bit_def split: if_splits)
  then obtain u bits where u: "cbs = u # bits" "unat u \<le> 7"
      "u \<noteq> 0 \<longrightarrow> (\<forall>k < unat u. \<not> bit (last bits) k)"
    unfolding CBS_is_valid_asn1_bitstring_iff_gen by blast
  have b: "unat (drop_bit 3 n + 1) = unat n div 8 + 1"
  proof -
    have "unat n div 8 < 2 ^ 29" by (rule less_mult_imp_div_less) (use unsigned_less [of n, where 'a = nat] in simp)
    then show ?thesis by (simp add: unat_word_ariths unat_drop_bit)
  qed
  have m: "unat (n AND 7) = unat n mod 8"
    using word_and_mask_unat [of n 3] by (simp add: mask_eq_exp_minus_1)
  from assms v u(1) have "unat n div 8 + 1 < Suc (length bits)"
    "(u # bits) ! (unat n div 8 + 1) AND push_bit (7 - unat n mod 8) 1 \<noteq> 0"
    unfolding CBS_asn1_bitstring_has_bit_def Let_def b m CBS_len_def CBS_data_def
    by (simp_all del: push_bit_of_1)
  then have "unat n div 8 < length bits" "bit (bits ! (unat n div 8)) (7 - unat n mod 8)"
    unfolding bit_and_push_bit by simp_all
  with u show ?thesis by blast
qed

section \<open>Properties\<close>

text \<open>C1: the DER reader is canonical.  \<open>CBS_get_any_asn1\<close> delivers the contents \<open>c\<close> and the tag
  and leaves \<open>r\<close> exactly when the input is the DER encoding of that element followed by \<open>r\<close>, for
  contents of less than 4 GiB: every element is read back, and nothing that is not in minimal
  form is accepted.\<close>

theorem CBS_get_any_asn1_canonical:
  "CBS_get_any_asn1 cbs = (Some (c, tag), r) \<longleftrightarrow> cbs = der_element tag c @ r \<and> length c < 2 ^ 32"
  by (rule CBS_get_any_asn1_iff_gen)

text \<open>C14: \<open>CBS_get_asn1_uint64\<close> accepts exactly the INTEGER elements whose contents are the
  minimal two's complement octets of a number below 2^64, and delivers that number.\<close>

theorem CBS_get_asn1_uint64_canonical:
  "CBS_get_asn1_uint64 cbs = (Some v, r) \<longleftrightarrow>
    cbs = der_element CBS_ASN1_INTEGER (int_octets (uint v)) @ r"
  using CBS_get_asn1_uint64_iff_gen [of cbs v r] by simp

text \<open>\<open>CBS_get_asn1_int64\<close> accepts exactly the INTEGER elements whose contents are the minimal
  two's complement octets of a signed 64-bit number, and delivers that number.\<close>

theorem CBS_get_asn1_int64_canonical:
  "CBS_get_asn1_int64 cbs = (Some v, r) \<longleftrightarrow>
    cbs = der_element CBS_ASN1_INTEGER (int_octets (sint v)) @ r"
  by (rule CBS_get_asn1_int64_iff_gen)

text \<open>A bit that a BIT STRING has lies within the bits that the string announces: its padding
  bits never count.\<close>

theorem CBS_asn1_bitstring_has_bit_within:
  assumes "CBS_asn1_bitstring_has_bit cbs n"
  shows "\<exists>u bits. cbs = u # bits \<and> unat u \<le> 7 \<and> unat n + unat u < 8 * length bits \<and>
    bit (bits ! (unat n div 8)) (7 - unat n mod 8)"
proof -
  from has_bit_position [OF assms] obtain u bits where u: "cbs = u # bits" "unat u \<le> 7"
    "unat n div 8 < length bits" "u \<noteq> 0 \<longrightarrow> (\<forall>k < unat u. \<not> bit (last bits) k)"
    "bit (bits ! (unat n div 8)) (7 - unat n mod 8)" by blast
  have "unat n + unat u < 8 * length bits"
  proof (cases "unat n div 8 = length bits - 1")
    case False
    then have "unat n div 8 + 2 \<le> length bits" using u(3) by linarith
    moreover have "unat n = 8 * (unat n div 8) + unat n mod 8" "unat n mod 8 < 8" by simp_all
    ultimately show ?thesis using u(2) by linarith
  next
    case True
    then have l: "bits ! (unat n div 8) = last bits" using u(3) by (cases bits) (auto simp: last_conv_nth)
    have "\<not> 7 - unat n mod 8 < unat u"
    proof
      assume *: "7 - unat n mod 8 < unat u"
      then have "u \<noteq> 0" by auto
      with u(4,5) l * show False by auto
    qed
    moreover have "unat n = 8 * (unat n div 8) + unat n mod 8" "unat n mod 8 < 8" by simp_all
    ultimately show ?thesis using True u(3) by linarith
  qed
  with u show ?thesis by blast
qed

theorem CBS_asn1_bitstring_has_bit_within_witness:
  "\<exists>u bits. [4, 0xa0] = (u :: byte) # bits \<and> unat u \<le> 7 \<and> unat (2 :: u32) + unat u < 8 * length bits \<and>
    bit (bits ! (unat (2 :: u32) div 8)) (7 - unat (2 :: u32) mod 8)"
  by (rule CBS_asn1_bitstring_has_bit_within) code_simp

end
