(* ===== verification/Cbb.thy ===== *)
theory Cbb
  imports Der "HOL-Library.Multiset"
begin

text \<open>
  \<open>crypto/bytestring/cbb.c\<close>: building byte strings with nested length prefixes, and the printing
  and parsing of object identifiers.  A top-level \<open>CBB\<close> and its open children share one
  \<open>cbb_buffer_st\<close>; the model keeps that buffer once, together with the chain of open children
  from the outermost to the innermost.  A handle is a depth: 0 is the top-level \<open>CBB\<close>, \<open>d + 1\<close>
  the child whose prefix is \<open>chain ! d\<close>; \<open>cbb->child\<close> of handle \<open>d\<close> is \<open>chain ! d\<close> when there
  is one.  A handle deeper than the chain is a child that was flushed, whose \<open>base\<close> is NULL.
  \<open>mem_ok n\<close> says whether the allocator serves a block of \<open>n\<close> bytes.
\<close>

section \<open>The growing buffer\<close>

text \<open>\<open>buf\<close> holds the valid bytes (the \<open>len\<close> first bytes of the block of \<open>cap\<close> bytes).\<close>

record cbb_buffer =
  buf :: bytes
  cap :: u64
  can_resize :: bool
  error :: bool

record child =
  offset :: u64
  pending_len_len :: byte
  pending_is_asn1 :: bool

record cbb =
  base :: "cbb_buffer option"
  chain :: "child list"

definition base_len :: "cbb_buffer \<Rightarrow> u64" where
  "base_len b = of_nat (length (buf b))"

definition CBB_zero :: cbb where
  "CBB_zero = \<lparr>base = None, chain = []\<rparr>"

definition cbb_init :: "(u64 \<Rightarrow> bool) \<Rightarrow> u64 \<Rightarrow> cbb \<Rightarrow> bool \<times> cbb" where
  "cbb_init mem_ok len cbb =
     (if \<not> mem_ok 32 then (False, cbb)
      else (True, \<lparr>base = Some \<lparr>buf = [], cap = len, can_resize = True, error = False\<rparr>, chain = []\<rparr>))"

definition CBB_init :: "(u64 \<Rightarrow> bool) \<Rightarrow> u64 \<Rightarrow> bool \<times> cbb" where
  "CBB_init mem_ok initial_capacity =
     (if initial_capacity > 0 \<and> \<not> mem_ok initial_capacity then (False, CBB_zero)
      else cbb_init mem_ok initial_capacity CBB_zero)"

definition CBB_init_fixed :: "(u64 \<Rightarrow> bool) \<Rightarrow> u64 \<Rightarrow> bool \<times> cbb" where
  "CBB_init_fixed mem_ok len =
     (case cbb_init mem_ok len CBB_zero of
        (False, cbb) \<Rightarrow> (False, cbb)
      | (True, cbb) \<Rightarrow> (True, cbb\<lparr>base := map_option (\<lambda>b. b\<lparr>can_resize := False\<rparr>) (base cbb)\<rparr>))"

definition CBB_cleanup :: "nat \<Rightarrow> cbb \<Rightarrow> cbb" where
  "CBB_cleanup d cbb = (if d > 0 then cbb else cbb\<lparr>base := None, chain := []\<rparr>)"

definition cbb_buffer_reserve :: "(u64 \<Rightarrow> bool) \<Rightarrow> u64 \<Rightarrow> cbb_buffer \<Rightarrow> bool \<times> cbb_buffer" where
  "cbb_buffer_reserve mem_ok len b =
     (let newlen = base_len b + len in
      if newlen < base_len b then (False, b\<lparr>error := True\<rparr>)
      else if newlen > cap b then
        (if \<not> can_resize b then (False, b\<lparr>error := True\<rparr>)
         else let newcap = cap b * 2;
                  newcap = (if newcap < cap b \<or> newcap < newlen then newlen else newcap)
              in if \<not> mem_ok newcap then (False, b\<lparr>error := True\<rparr>)
                 else (True, b\<lparr>cap := newcap\<rparr>))
      else (True, b))"

text \<open>The added bytes are uninitialised memory in C and are always overwritten by the caller;
  the model lets them be zero.\<close>

definition cbb_buffer_add :: "(u64 \<Rightarrow> bool) \<Rightarrow> u64 \<Rightarrow> cbb_buffer \<Rightarrow> bool \<times> cbb_buffer" where
  "cbb_buffer_add mem_ok len b =
     (case cbb_buffer_reserve mem_ok len b of
        (False, b) \<Rightarrow> (False, b)
      | (True, b) \<Rightarrow> (True, b\<lparr>buf := buf b @ replicate (unat len) 0\<rparr>))"

definition cbb_buffer_add_u :: "(u64 \<Rightarrow> bool) \<Rightarrow> u64 \<Rightarrow> nat \<Rightarrow> cbb_buffer \<Rightarrow> bool \<times> cbb_buffer" where
  "cbb_buffer_add_u mem_ok v len_len b =
     (if len_len = 0 then (True, b)
      else let at = length (buf b) in
       (case cbb_buffer_add mem_ok (of_nat len_len) b of
          (False, b) \<Rightarrow> (False, b)
        | (True, b) \<Rightarrow>
            let (bs, v) = put_be len_len v [];
                b = b\<lparr>buf := write_at at bs (buf b)\<rparr>
            in if v \<noteq> 0 then (False, b\<lparr>error := True\<rparr>) else (True, b)))"

section \<open>Flushing pending length prefixes\<close>

text \<open>The number of bytes of the prefix, its first byte, and what is left of the length for the
  bytes that follow.\<close>

definition asn1_len_form :: "u64 \<Rightarrow> byte \<times> byte \<times> u64" where
  "asn1_len_form len =
     (if len > 0xffffff then (5, 0x80 OR 4, len)
      else if len > 0xffff then (4, 0x80 OR 3, len)
      else if len > 0xff then (3, 0x80 OR 2, len)
      else if len > 0x7f then (2, 0x80 OR 1, len)
      else (1, ucast len, 0))"

definition flush_child :: "(u64 \<Rightarrow> bool) \<Rightarrow> child \<Rightarrow> cbb_buffer \<Rightarrow> bool \<times> cbb_buffer" where
  "flush_child mem_ok c b =
     (let child_start = offset c + ucast (pending_len_len c) in
      if child_start < offset c \<or> base_len b < child_start then (False, b\<lparr>error := True\<rparr>)
      else
        let len = base_len b - child_start;
            write_prefix = (\<lambda>at n len b.
              let (bs, len) = put_be n len [];
                  b = b\<lparr>buf := write_at at bs (buf b)\<rparr>
              in if len \<noteq> 0 then (False, b\<lparr>error := True\<rparr>) else (True, b))
        in if \<not> pending_is_asn1 c then
             write_prefix (unat (offset c)) (unat (pending_len_len c)) len b
           else if len > 0xfffffffe then (False, b\<lparr>error := True\<rparr>)
           else
             let (len_len, initial_length_byte, len) = asn1_len_form len;
                 moved = (if len_len \<noteq> 1 then
                   let extra_bytes = ucast (len_len - 1) in
                   (case cbb_buffer_add mem_ok extra_bytes b of
                      (False, b) \<Rightarrow> (False, b\<lparr>error := True\<rparr>)
                    | (True, b) \<Rightarrow>
                        (True, b\<lparr>buf := write_at (unat (child_start + extra_bytes))
                           (take (unat len) (drop (unat child_start) (buf b))) (buf b)\<rparr>))
                  else (True, b))
             in (case moved of
                   (False, b) \<Rightarrow> (False, b)
                 | (True, b) \<Rightarrow>
                     write_prefix (unat (offset c + 1)) (unat (len_len - 1)) len
                       (b\<lparr>buf := (buf b)[unat (offset c) := initial_length_byte]\<rparr>)))"

fun flush_chain :: "(u64 \<Rightarrow> bool) \<Rightarrow> child list \<Rightarrow> cbb_buffer \<Rightarrow> bool \<times> cbb_buffer \<times> child list" where
  "flush_chain mem_ok [] b = (\<not> error b, b, [])"
| "flush_chain mem_ok (c # cs) b =
     (if error b then (False, b, c # cs)
      else if pending_len_len c = 0 then (True, b, c # cs)
      else (case flush_chain mem_ok cs b of
              (False, b, cs) \<Rightarrow> (False, b\<lparr>error := True\<rparr>, c # cs)
            | (True, b, cs) \<Rightarrow>
                (case flush_child mem_ok c b of
                   (False, b) \<Rightarrow> (False, b, c # cs)
                 | (True, b) \<Rightarrow> (True, b, []))))"

definition CBB_flush :: "(u64 \<Rightarrow> bool) \<Rightarrow> nat \<Rightarrow> cbb \<Rightarrow> bool \<times> cbb" where
  "CBB_flush mem_ok d cbb =
     (case base cbb of
        None \<Rightarrow> (False, cbb)
      | Some b \<Rightarrow>
          if length (chain cbb) < d then (False, cbb)
          else (case flush_chain mem_ok (drop d (chain cbb)) b of
                  (ok, b, cs) \<Rightarrow> (ok, cbb\<lparr>base := Some b, chain := take d (chain cbb) @ cs\<rparr>)))"

text \<open>An operation on the buffer after flushing the children of the handle.\<close>

definition on_base :: "(cbb_buffer \<Rightarrow> bool \<times> cbb_buffer) \<Rightarrow> cbb \<Rightarrow> bool \<times> cbb" where
  "on_base f cbb =
     (case base cbb of
        None \<Rightarrow> (False, cbb)
      | Some b \<Rightarrow> (case f b of (ok, b) \<Rightarrow> (ok, cbb\<lparr>base := Some b\<rparr>)))"

text \<open>\<open>has_data\<close> and \<open>has_len\<close>: whether the caller passes a place for the data and the length.\<close>

definition CBB_finish :: "(u64 \<Rightarrow> bool) \<Rightarrow> nat \<Rightarrow> bool \<Rightarrow> bool \<Rightarrow> cbb \<Rightarrow>
    (bytes option \<times> u64 option) option \<times> cbb" where
  "CBB_finish mem_ok d has_data has_len cbb =
     (if d > 0 then (None, cbb)
      else (case CBB_flush mem_ok d cbb of
              (False, cbb) \<Rightarrow> (None, cbb)
            | (True, cbb) \<Rightarrow>
                (case base cbb of
                   None \<Rightarrow> (None, cbb)
                 | Some b \<Rightarrow>
                     if can_resize b \<and> (\<not> has_data \<or> \<not> has_len) then (None, cbb)
                     else (Some (if has_data then Some (buf b) else None,
                                 if has_len then Some (base_len b) else None),
                           CBB_cleanup d cbb))))"

section \<open>The contents of a handle\<close>

definition start_of :: "nat \<Rightarrow> cbb \<Rightarrow> u64" where
  "start_of d cbb =
     (case d of 0 \<Rightarrow> 0
      | Suc e \<Rightarrow> offset (chain cbb ! e) + ucast (pending_len_len (chain cbb ! e)))"

definition CBB_data :: "nat \<Rightarrow> cbb \<Rightarrow> bytes" where
  "CBB_data d cbb =
     (case base cbb of None \<Rightarrow> [] | Some b \<Rightarrow> drop (unat (start_of d cbb)) (buf b))"

definition CBB_len :: "nat \<Rightarrow> cbb \<Rightarrow> u64" where
  "CBB_len d cbb = (case base cbb of None \<Rightarrow> 0 | Some b \<Rightarrow> base_len b - start_of d cbb)"

section \<open>Adding integers and bytes\<close>

definition CBB_add_u8 :: "(u64 \<Rightarrow> bool) \<Rightarrow> nat \<Rightarrow> byte \<Rightarrow> cbb \<Rightarrow> bool \<times> cbb" where
  "CBB_add_u8 mem_ok d value =
     all_ok [CBB_flush mem_ok d, on_base (cbb_buffer_add_u mem_ok (ucast value) 1)]"

definition CBB_add_u16 :: "(u64 \<Rightarrow> bool) \<Rightarrow> nat \<Rightarrow> u16 \<Rightarrow> cbb \<Rightarrow> bool \<times> cbb" where
  "CBB_add_u16 mem_ok d value =
     all_ok [CBB_flush mem_ok d, on_base (cbb_buffer_add_u mem_ok (ucast value) 2)]"

definition CBB_add_u16le :: "(u64 \<Rightarrow> bool) \<Rightarrow> nat \<Rightarrow> u16 \<Rightarrow> cbb \<Rightarrow> bool \<times> cbb" where
  "CBB_add_u16le mem_ok d value = CBB_add_u16 mem_ok d (CRYPTO_bswap2 value)"

definition CBB_add_u24 :: "(u64 \<Rightarrow> bool) \<Rightarrow> nat \<Rightarrow> u32 \<Rightarrow> cbb \<Rightarrow> bool \<times> cbb" where
  "CBB_add_u24 mem_ok d value =
     all_ok [CBB_flush mem_ok d, on_base (cbb_buffer_add_u mem_ok (ucast value) 3)]"

definition CBB_add_u32 :: "(u64 \<Rightarrow> bool) \<Rightarrow> nat \<Rightarrow> u32 \<Rightarrow> cbb \<Rightarrow> bool \<times> cbb" where
  "CBB_add_u32 mem_ok d value =
     all_ok [CBB_flush mem_ok d, on_base (cbb_buffer_add_u mem_ok (ucast value) 4)]"

definition CBB_add_u32le :: "(u64 \<Rightarrow> bool) \<Rightarrow> nat \<Rightarrow> u32 \<Rightarrow> cbb \<Rightarrow> bool \<times> cbb" where
  "CBB_add_u32le mem_ok d value = CBB_add_u32 mem_ok d (CRYPTO_bswap4 value)"

definition CBB_add_u64 :: "(u64 \<Rightarrow> bool) \<Rightarrow> nat \<Rightarrow> u64 \<Rightarrow> cbb \<Rightarrow> bool \<times> cbb" where
  "CBB_add_u64 mem_ok d value =
     all_ok [CBB_flush mem_ok d, on_base (cbb_buffer_add_u mem_ok value 8)]"

definition CBB_add_u64le :: "(u64 \<Rightarrow> bool) \<Rightarrow> nat \<Rightarrow> u64 \<Rightarrow> cbb \<Rightarrow> bool \<times> cbb" where
  "CBB_add_u64le mem_ok d value = CBB_add_u64 mem_ok d (CRYPTO_bswap8 value)"

text \<open>\<open>data\<close> is the memory the caller points at, \<open>len\<close> of its bytes are copied.\<close>

definition CBB_add_bytes :: "(u64 \<Rightarrow> bool) \<Rightarrow> nat \<Rightarrow> bytes \<Rightarrow> u64 \<Rightarrow> cbb \<Rightarrow> bool \<times> cbb" where
  "CBB_add_bytes mem_ok d data len =
     all_ok [CBB_flush mem_ok d,
       on_base (\<lambda>b. case cbb_buffer_add mem_ok len b of
                      (False, b') \<Rightarrow> (False, b')
                    | (True, b') \<Rightarrow>
                        (True, b'\<lparr>buf := write_at (length (buf b)) (take (unat len) data) (buf b')\<rparr>))]"

text \<open>\<open>CBB_add_space\<close> hands out the place of the new bytes; \<open>fill\<close> is what the caller stores there.\<close>

definition CBB_add_space :: "(u64 \<Rightarrow> bool) \<Rightarrow> nat \<Rightarrow> bytes \<Rightarrow> u64 \<Rightarrow> cbb \<Rightarrow> bool \<times> cbb" where
  "CBB_add_space mem_ok d fill len =
     all_ok [CBB_flush mem_ok d,
       on_base (\<lambda>b. case cbb_buffer_add mem_ok len b of
                      (False, b') \<Rightarrow> (False, b')
                    | (True, b') \<Rightarrow>
                        (True, b'\<lparr>buf := write_at (length (buf b)) (take (unat len) fill) (buf b')\<rparr>))]"

definition CBB_reserve :: "(u64 \<Rightarrow> bool) \<Rightarrow> nat \<Rightarrow> u64 \<Rightarrow> cbb \<Rightarrow> bool \<times> cbb" where
  "CBB_reserve mem_ok d len = all_ok [CBB_flush mem_ok d, on_base (cbb_buffer_reserve mem_ok len)]"

text \<open>\<open>written\<close> is what the caller stored in the reserved bytes.\<close>

definition CBB_did_write :: "nat \<Rightarrow> bytes \<Rightarrow> u64 \<Rightarrow> cbb \<Rightarrow> bool \<times> cbb" where
  "CBB_did_write d written len cbb =
     on_base (\<lambda>b. let newlen = base_len b + len in
                  if d < length (chain cbb) \<or> newlen < base_len b \<or> newlen > cap b then (False, b)
                  else (True, b\<lparr>buf := buf b @ take (unat len) written\<rparr>)) cbb"

definition CBB_discard_child :: "nat \<Rightarrow> cbb \<Rightarrow> cbb" where
  "CBB_discard_child d cbb =
     (if length (chain cbb) \<le> d then cbb
      else cbb\<lparr>base := map_option (\<lambda>b. b\<lparr>buf := take (unat (offset (chain cbb ! d))) (buf b)\<rparr>) (base cbb),
               chain := take d (chain cbb)\<rparr>)"

section \<open>Opening children\<close>

text \<open>Makes \<open>out_contents\<close>, with \<open>len_len\<close> pending prefix bytes at \<open>offset\<close>, the child of handle \<open>d\<close>.\<close>

definition open_child :: "nat \<Rightarrow> child \<Rightarrow> cbb \<Rightarrow> bool \<times> cbb" where
  "open_child d c cbb = (True, cbb\<lparr>chain := take d (chain cbb) @ [c]\<rparr>)"

definition cbb_add_length_prefixed :: "(u64 \<Rightarrow> bool) \<Rightarrow> nat \<Rightarrow> byte \<Rightarrow> cbb \<Rightarrow> bool \<times> cbb" where
  "cbb_add_length_prefixed mem_ok d len_len cbb =
     (case CBB_flush mem_ok d cbb of
        (False, cbb) \<Rightarrow> (False, cbb)
      | (True, cbb) \<Rightarrow>
          (case base cbb of
             None \<Rightarrow> (False, cbb)
           | Some b \<Rightarrow>
               (case on_base (cbb_buffer_add mem_ok (ucast len_len)) cbb of
                  (False, cbb) \<Rightarrow> (False, cbb)
                | (True, cbb) \<Rightarrow>
                    open_child d \<lparr>offset = base_len b, pending_len_len = len_len,
                                  pending_is_asn1 = False\<rparr> cbb)))"

definition CBB_add_u8_length_prefixed :: "(u64 \<Rightarrow> bool) \<Rightarrow> nat \<Rightarrow> cbb \<Rightarrow> bool \<times> cbb" where
  "CBB_add_u8_length_prefixed mem_ok d = cbb_add_length_prefixed mem_ok d 1"

definition CBB_add_u16_length_prefixed :: "(u64 \<Rightarrow> bool) \<Rightarrow> nat \<Rightarrow> cbb \<Rightarrow> bool \<times> cbb" where
  "CBB_add_u16_length_prefixed mem_ok d = cbb_add_length_prefixed mem_ok d 2"

definition CBB_add_u24_length_prefixed :: "(u64 \<Rightarrow> bool) \<Rightarrow> nat \<Rightarrow> cbb \<Rightarrow> bool \<times> cbb" where
  "CBB_add_u24_length_prefixed mem_ok d = cbb_add_length_prefixed mem_ok d 3"

function base128_len :: "u64 \<Rightarrow> nat" where
  "base128_len copy = (if copy > 0 then Suc (base128_len (drop_bit 7 copy)) else 0)"
  by pat_completeness auto
termination
  by (relation "measure unat") (auto simp: unat_drop_bit word_less_nat_alt)

declare base128_len.simps [simp del]

text \<open>The loop that writes the 7-bit groups, \<open>i\<close> of them left.\<close>

fun base128_groups :: "(u64 \<Rightarrow> bool) \<Rightarrow> nat \<Rightarrow> u64 \<Rightarrow> nat \<Rightarrow> cbb \<Rightarrow> bool \<times> cbb" where
  "base128_groups mem_ok d v 0 cbb = (True, cbb)"
| "base128_groups mem_ok d v (Suc i) cbb =
     (let byte = ucast (drop_bit (7 * i) v) AND 0x7f;
          byte = (if i \<noteq> 0 then byte OR 0x80 else byte)
      in case CBB_add_u8 mem_ok d byte cbb of
           (False, cbb) \<Rightarrow> (False, cbb)
         | (True, cbb) \<Rightarrow> base128_groups mem_ok d v i cbb)"

definition add_base128_integer :: "(u64 \<Rightarrow> bool) \<Rightarrow> nat \<Rightarrow> u64 \<Rightarrow> cbb \<Rightarrow> bool \<times> cbb" where
  "add_base128_integer mem_ok d v cbb =
     (let len_len = base128_len v;
          len_len = (if len_len = 0 then 1 else len_len)
      in base128_groups mem_ok d v len_len cbb)"

definition CBB_add_asn1 :: "(u64 \<Rightarrow> bool) \<Rightarrow> nat \<Rightarrow> u32 \<Rightarrow> cbb \<Rightarrow> bool \<times> cbb" where
  "CBB_add_asn1 mem_ok d tag cbb =
     (let tag_bits = ucast (drop_bit 24 tag) AND 0xe0 :: byte;
          tag_number = tag AND CBS_ASN1_TAG_NUMBER_MASK;
          add_tag = (if tag_number \<ge> 0x1f then
              all_ok [CBB_add_u8 mem_ok d (tag_bits OR 0x1f),
                      add_base128_integer mem_ok d (ucast tag_number)]
            else CBB_add_u8 mem_ok d (tag_bits OR ucast tag_number))
      in case all_ok [CBB_flush mem_ok d, add_tag] cbb of
           (False, cbb) \<Rightarrow> (False, cbb)
         | (True, cbb) \<Rightarrow>
             (case base cbb of
                None \<Rightarrow> (False, cbb)
              | Some b \<Rightarrow>
                  (case CBB_add_u8 mem_ok d 0 cbb of
                     (False, cbb) \<Rightarrow> (False, cbb)
                   | (True, cbb) \<Rightarrow>
                       open_child d \<lparr>offset = base_len b, pending_len_len = 1,
                                     pending_is_asn1 = True\<rparr> cbb)))"

section \<open>ASN.1 values\<close>

text \<open>The loop over the bytes of the value, most significant first: \<open>i\<close> bytes are left.\<close>

fun uint64_octets :: "(u64 \<Rightarrow> bool) \<Rightarrow> nat \<Rightarrow> u64 \<Rightarrow> bool \<Rightarrow> nat \<Rightarrow> cbb \<Rightarrow> (bool \<times> bool) \<times> cbb" where
  "uint64_octets mem_ok d value started 0 cbb = ((True, started), cbb)"
| "uint64_octets mem_ok d value started (Suc i) cbb =
     (let byte = ucast (drop_bit (8 * i) value) :: byte
      in if \<not> started \<and> byte = 0 then uint64_octets mem_ok d value started i cbb
         else
           (case (if \<not> started \<and> byte AND 0x80 \<noteq> 0 then CBB_add_u8 mem_ok d 0 cbb else (True, cbb)) of
              (False, cbb) \<Rightarrow> ((False, started), cbb)
            | (True, cbb) \<Rightarrow>
                (case CBB_add_u8 mem_ok d byte cbb of
                   (False, cbb) \<Rightarrow> ((False, True), cbb)
                 | (True, cbb) \<Rightarrow> uint64_octets mem_ok d value True i cbb)))"

definition CBB_add_asn1_uint64 :: "(u64 \<Rightarrow> bool) \<Rightarrow> nat \<Rightarrow> u64 \<Rightarrow> cbb \<Rightarrow> bool \<times> cbb" where
  "CBB_add_asn1_uint64 mem_ok d value cbb =
     (case CBB_add_asn1 mem_ok d CBS_ASN1_INTEGER cbb of
        (False, cbb) \<Rightarrow> (False, cbb)
      | (True, cbb) \<Rightarrow>
          (case uint64_octets mem_ok (Suc d) value False 8 cbb of
             ((False, _), cbb) \<Rightarrow> (False, cbb)
           | ((True, started), cbb) \<Rightarrow>
               all_ok [\<lambda>cbb. if \<not> started then CBB_add_u8 mem_ok (Suc d) 0 cbb else (True, cbb),
                       CBB_flush mem_ok d] cbb))"

text \<open>Skips the leading sign-extension bytes of the little-endian bytes \<open>u_bytes\<close>.\<close>

fun int64_start :: "bytes \<Rightarrow> nat \<Rightarrow> nat" where
  "int64_start u_bytes 0 = 0"
| "int64_start u_bytes (Suc start) =
     (if u_bytes ! Suc start = 0xff \<and> u_bytes ! start AND 0x80 \<noteq> 0
      then int64_start u_bytes start else Suc start)"

definition CBB_add_asn1_int64 :: "(u64 \<Rightarrow> bool) \<Rightarrow> nat \<Rightarrow> u64 \<Rightarrow> cbb \<Rightarrow> bool \<times> cbb" where
  "CBB_add_asn1_int64 mem_ok d value cbb =
     (if 0 \<le>s value then CBB_add_asn1_uint64 mem_ok d value cbb
      else
        let u_bytes = map (\<lambda>i. ucast (drop_bit (8 * i) value)) [0..<8];
            start = int64_start u_bytes 7
        in all_ok ([CBB_add_asn1 mem_ok d CBS_ASN1_INTEGER]
             @ map (\<lambda>i. CBB_add_u8 mem_ok (Suc d) (u_bytes ! i)) (rev [0..<Suc start])
             @ [CBB_flush mem_ok d]) cbb)"

definition CBB_add_asn1_octet_string :: "(u64 \<Rightarrow> bool) \<Rightarrow> nat \<Rightarrow> bytes \<Rightarrow> u64 \<Rightarrow> cbb \<Rightarrow> bool \<times> cbb" where
  "CBB_add_asn1_octet_string mem_ok d data data_len =
     all_ok [CBB_add_asn1 mem_ok d CBS_ASN1_OCTETSTRING,
             CBB_add_bytes mem_ok (Suc d) data data_len,
             CBB_flush mem_ok d]"

definition CBB_add_asn1_bool :: "(u64 \<Rightarrow> bool) \<Rightarrow> nat \<Rightarrow> bool \<Rightarrow> cbb \<Rightarrow> bool \<times> cbb" where
  "CBB_add_asn1_bool mem_ok d value =
     all_ok [CBB_add_asn1 mem_ok d CBS_ASN1_BOOLEAN,
             CBB_add_u8 mem_ok (Suc d) (if value then 0xff else 0),
             CBB_flush mem_ok d]"

section \<open>Object identifiers\<close>

text \<open>\<open>dotted_loop out seen_digit cbs\<close>: the rest of \<open>parse_dotted_decimal\<close>.\<close>

fun dotted_loop :: "u64 \<Rightarrow> bool \<Rightarrow> u64 parser" where
  "dotted_loop out seen_digit [] = (if seen_digit then Some out else None, [])"
| "dotted_loop out seen_digit (u # cbs) =
     (if u = 0x2e \<and> CBS_len cbs > 0 then (if seen_digit then Some out else None, cbs)
      else if u < 0x30 \<or> u > 0x39 \<or> (seen_digit \<and> out = 0)
           \<or> out > 0xffffffffffffffff div 10
           \<or> out * 10 > 0xffffffffffffffff - (ucast u - 0x30)
      then (None, cbs)
      else dotted_loop (out * 10 + (ucast u - 0x30)) True cbs)"

definition parse_dotted_decimal :: "u64 parser" where
  "parse_dotted_decimal cbs = dotted_loop 0 False cbs"

lemma dotted_loop_shorter: "length (snd (dotted_loop out seen_digit cbs)) \<le> length cbs"
  by (induction out seen_digit cbs rule: dotted_loop.induct) auto

lemma parse_dotted_decimal_shorter:
  "cbs \<noteq> [] \<Longrightarrow> parse_dotted_decimal cbs = (Some a, r) \<Longrightarrow> length r < length cbs"
proof -
  assume "cbs \<noteq> []" "parse_dotted_decimal cbs = (Some a, r)"
  then obtain u cs where "cbs = u # cs" "dotted_loop 0 False (u # cs) = (Some a, r)"
    by (cases cbs) (auto simp: parse_dotted_decimal_def)
  then show "length r < length cbs"
    using dotted_loop_shorter [of "0 * 10 + (ucast u - 0x30)" True cs]
    by (auto split: if_splits)
qed

function oid_components :: "(u64 \<Rightarrow> bool) \<Rightarrow> nat \<Rightarrow> cbs \<Rightarrow> cbb \<Rightarrow> bool \<times> cbb" where
  "oid_components mem_ok d cbs cbb =
     (if CBS_len cbs > 0 then
        (case parse_dotted_decimal cbs of
           (None, _) \<Rightarrow> (False, cbb)
         | (Some a, cbs) \<Rightarrow>
             (case add_base128_integer mem_ok d a cbb of
                (False, cbb) \<Rightarrow> (False, cbb)
              | (True, cbb) \<Rightarrow> oid_components mem_ok d cbs cbb))
      else (True, cbb))"
  by pat_completeness auto

termination
  by (relation "measure (\<lambda>(_, _, cbs, _). length cbs)")
    (auto simp: CBS_len_def dest: parse_dotted_decimal_shorter [OF _ sym])

declare oid_components.simps [simp del]

definition CBB_add_asn1_oid_from_text :: "(u64 \<Rightarrow> bool) \<Rightarrow> nat \<Rightarrow> bytes \<Rightarrow> nat \<Rightarrow> cbb \<Rightarrow> bool \<times> cbb" where
  "CBB_add_asn1_oid_from_text mem_ok d text len cbb =
     (case CBB_flush mem_ok d cbb of
        (False, cbb) \<Rightarrow> (False, cbb)
      | (True, cbb) \<Rightarrow>
          (case parse_dotted_decimal (CBS_init text len) of
             (None, _) \<Rightarrow> (False, cbb)
           | (Some a, cbs) \<Rightarrow>
               (case parse_dotted_decimal cbs of
                  (None, _) \<Rightarrow> (False, cbb)
                | (Some b, cbs) \<Rightarrow>
                    if a > 2 \<or> (a < 2 \<and> b > 39) \<or> b > 0xffffffffffffffff - 80 then (False, cbb)
                    else all_ok [add_base128_integer mem_ok d (40 * a + b),
                                 oid_components mem_ok d cbs] cbb)))"

text \<open>The decimal digits that \<open>snprintf\<close> prints for \<open>%u\<close>.\<close>

function decimal :: "nat \<Rightarrow> bytes" where
  "decimal n = (if n < 10 then [word_of_nat (0x30 + n)]
                else decimal (n div 10) @ [word_of_nat (0x30 + n mod 10)])"
  by pat_completeness auto
termination by (relation "measure id") auto

declare decimal.simps [simp del]

definition add_decimal :: "(u64 \<Rightarrow> bool) \<Rightarrow> u64 \<Rightarrow> cbb \<Rightarrow> bool \<times> cbb" where
  "add_decimal mem_ok v =
     (let txt = decimal (unat v) in CBB_add_bytes mem_ok 0 txt (of_nat (length txt)))"

lemma parse_base128_shorter:
  "parse_base128_integer cbs = (Some v, r) \<Longrightarrow> length r < length cbs"
  by (auto simp: parse_base128_integer_iff base128_def)

function oid_text_components :: "(u64 \<Rightarrow> bool) \<Rightarrow> cbs \<Rightarrow> cbb \<Rightarrow> bool \<times> cbb" where
  "oid_text_components mem_ok copy cbb =
     (if CBS_len copy \<noteq> 0 then
        (case parse_base128_integer copy of
           (None, _) \<Rightarrow> (False, cbb)
         | (Some v, copy) \<Rightarrow>
             (case all_ok [CBB_add_u8 mem_ok 0 0x2e, add_decimal mem_ok v] cbb of
                (False, cbb) \<Rightarrow> (False, cbb)
              | (True, cbb) \<Rightarrow> oid_text_components mem_ok copy cbb))
      else (True, cbb))"
  by pat_completeness auto

termination
  by (relation "measure (\<lambda>(_, copy, _). length copy)")
    (auto dest: parse_base128_shorter [OF sym])

declare oid_text_components.simps [simp del]

definition CBS_asn1_oid_to_text :: "(u64 \<Rightarrow> bool) \<Rightarrow> cbs \<Rightarrow> bytes option" where
  "CBS_asn1_oid_to_text mem_ok cbs =
     (case CBB_init mem_ok 32 of
        (False, _) \<Rightarrow> None
      | (True, cbb) \<Rightarrow>
          (case parse_base128_integer cbs of
             (None, _) \<Rightarrow> None
           | (Some v, copy) \<Rightarrow>
               let first = (if v \<ge> 80 then
                     all_ok [CBB_add_bytes mem_ok 0 [0x32, 0x2e] 2, add_decimal mem_ok (v - 80)]
                   else
                     all_ok [add_decimal mem_ok (v div 40), CBB_add_u8 mem_ok 0 0x2e,
                             add_decimal mem_ok (v mod 40)])
               in (case all_ok [first, oid_text_components mem_ok copy, CBB_add_u8 mem_ok 0 0] cbb of
                     (False, _) \<Rightarrow> None
                   | (True, cbb) \<Rightarrow>
                       (case CBB_finish mem_ok 0 True True cbb of
                          (Some (Some txt, _), _) \<Rightarrow> Some txt
                        | _ \<Rightarrow> None))))"

section \<open>SET OF\<close>

text \<open>The sign of \<open>memcmp\<close>.\<close>

fun memcmp_sign :: "bytes \<Rightarrow> bytes \<Rightarrow> nat \<Rightarrow> int" where
  "memcmp_sign (a # as) (b # bs) (Suc n) =
     (if a < b then -1 else if b < a then 1 else memcmp_sign as bs n)"
| "memcmp_sign _ _ _ = 0"

definition compare_set_of_element :: "cbs \<Rightarrow> cbs \<Rightarrow> int" where
  "compare_set_of_element a b =
     (let a_len = CBS_len a; b_len = CBS_len b;
          min_len = (if a_len < b_len then a_len else b_len);
          ret = memcmp_sign (CBS_data a) (CBS_data b) min_len
      in if ret \<noteq> 0 then ret
         else if a_len = b_len then 0
         else if a_len < b_len then -1 else 1)"

lemma der_element_nonempty: "der_element tag c \<noteq> []"
  by (simp add: der_element_def der_tag_def Let_def)

lemma any_element_shorter:
  "CBS_get_any_asn1_element cbs = (Some (out, tag, hl), r) \<Longrightarrow> length r < length cbs"
  using der_element_nonempty by (auto simp: CBS_get_any_asn1_element_iff)

function count_elements :: "cbs \<Rightarrow> nat option" where
  "count_elements cbs =
     (if CBS_len cbs \<noteq> 0 then
        (case CBS_get_any_asn1_element cbs of
           (None, _) \<Rightarrow> None
         | (Some _, cbs) \<Rightarrow> map_option Suc (count_elements cbs))
      else Some 0)"
  by pat_completeness auto
termination
  by (relation "measure length") (auto dest: any_element_shorter [OF sym])

declare count_elements.simps [simp del]

fun get_elements :: "nat \<Rightarrow> cbs \<Rightarrow> cbs list option" where
  "get_elements 0 cbs = Some []"
| "get_elements (Suc n) cbs =
     (case CBS_get_any_asn1_element cbs of
        (None, _) \<Rightarrow> None
      | (Some (out, _, _), cbs) \<Rightarrow> map_option ((#) out) (get_elements n cbs))"

definition CBB_flush_asn1_set_of ::
    "((cbs \<Rightarrow> cbs \<Rightarrow> int) \<Rightarrow> cbs list \<Rightarrow> cbs list) \<Rightarrow> (u64 \<Rightarrow> bool) \<Rightarrow> nat \<Rightarrow> cbb \<Rightarrow> bool \<times> cbb" where
  "CBB_flush_asn1_set_of qsort mem_ok d cbb =
     (case CBB_flush mem_ok d cbb of
        (False, cbb) \<Rightarrow> (False, cbb)
      | (True, cbb) \<Rightarrow>
          (case count_elements (CBB_data d cbb) of
             None \<Rightarrow> (False, cbb)
           | Some num_children \<Rightarrow>
               if num_children < 2 then (True, cbb)
               else if num_children > 0xffffffffffffffff div 16 then (False, cbb)
               else if \<not> mem_ok (CBB_len d cbb) \<or> \<not> mem_ok (of_nat num_children * 16) then (False, cbb)
               else
                 (case get_elements num_children (CBB_data d cbb) of
                    None \<Rightarrow> (False, cbb)
                  | Some children \<Rightarrow>
                      let sorted = qsort compare_set_of_element children;
                          cbb = cbb\<lparr>base := map_option
                            (\<lambda>b. b\<lparr>buf := take (unat (start_of d cbb)) (buf b)\<rparr>) (base cbb)\<rparr>
                      in all_ok (map (\<lambda>c. CBB_add_bytes mem_ok d (CBS_data c) (of_nat (CBS_len c))) sorted)
                           cbb)))"

end
