(* ===== verification/Cbb_Spec.thy ===== *)
theory Cbb_Spec
  imports Cbb
begin

text \<open>
  What the builder of \<open>cbb.c\<close> promises.  \<open>spec_close\<close> is the abstract effect of closing a chain
  of pending length prefixes; \<open>CBB_flush_ok\<close> shows that flushing implements it, and the lemmas on
  \<open>ready\<close> handles show that each operation appends its encoding: the builder is a
  \<open>byte_sink\<close>, an ASN.1 child becomes the DER element of its contents, a length-prefixed child
  its contents behind a big-endian length.
\<close>

section \<open>What closing a prefix promises\<close>

definition close_prefix :: "child \<Rightarrow> nat \<Rightarrow> bytes" where
  "close_prefix c n =
     (if pending_is_asn1 c then der_len n else be_bytes (unat (pending_len_len c)) n)"

fun spec_close :: "bytes \<Rightarrow> child list \<Rightarrow> bytes" where
  "spec_close xs [] = xs"
| "spec_close xs (c # cs) =
     (let ys = spec_close xs cs;
          start = unat (offset c) + unat (pending_len_len c)
      in take (unat (offset c)) ys @ close_prefix c (length ys - start) @ drop start ys)"

definition buf_ok :: "cbb_buffer \<Rightarrow> bool" where
  "buf_ok b \<longleftrightarrow> length (buf b) \<le> unat (cap b)"

text \<open>The pending prefixes lie one after the other between \<open>lo\<close> and \<open>hi\<close>.\<close>

fun chain_ok :: "nat \<Rightarrow> child list \<Rightarrow> nat \<Rightarrow> bool" where
  "chain_ok lo [] hi \<longleftrightarrow> lo \<le> hi"
| "chain_ok lo (c # cs) hi \<longleftrightarrow>
     lo \<le> unat (offset c) \<and> 0 < unat (pending_len_len c) \<and> unat (pending_len_len c) \<le> 8 \<and>
     (pending_is_asn1 c \<longrightarrow> pending_len_len c = 1) \<and>
     chain_ok (unat (offset c) + unat (pending_len_len c)) cs hi"

lemma chain_ok_le: "chain_ok lo cs hi \<Longrightarrow> lo \<le> hi"
  by (induction cs arbitrary: lo) fastforce+

lemma chain_ok_mono: "chain_ok lo cs hi \<Longrightarrow> hi \<le> hi' \<Longrightarrow> chain_ok lo cs hi'"
  by (induction cs arbitrary: lo) auto

lemma chain_ok_append: "chain_ok lo (xs @ ys) hi \<longleftrightarrow> (\<exists>m. chain_ok lo xs m \<and> chain_ok m ys hi)"
proof (induction xs arbitrary: lo)
  case Nil
  then show ?case
    by (cases ys) (auto intro: le_trans)
next
  case (Cons c xs)
  then show ?case by auto
qed

lemma buf_ok_len: "buf_ok b \<Longrightarrow> unat (base_len b) = length (buf b) \<and> length (buf b) < 2 ^ 64"
proof -
  assume "buf_ok b"
  then have "length (buf b) < 2 ^ 64" 
    using unsigned_less [of "cap b", where 'a = nat] by (simp add: buf_ok_def)
  then show ?thesis by (simp add: base_len_def unat_of_nat)
qed

lemma reserve_ok:
  assumes "cbb_buffer_reserve mem_ok n b = (True, b')" "buf_ok b"
  shows "buf b' = buf b" "error b' = error b" "can_resize b' = can_resize b"
    "length (buf b) + unat n \<le> unat (cap b')" "cap b \<le> cap b'" "\<not> can_resize b \<Longrightarrow> cap b' = cap b"
proof -
  note len = buf_ok_len [OF assms(2)]
  have nw: "\<not> base_len b + n < base_len b"
    using assms(1) by (auto simp: cbb_buffer_reserve_def Let_def)
  note nl = no_wrap_add [OF nw]
  show "buf b' = buf b" "error b' = error b" "can_resize b' = can_resize b"
    "cap b \<le> cap b'" "\<not> can_resize b \<Longrightarrow> cap b' = cap b"
    using assms(1) nw by (auto simp: cbb_buffer_reserve_def Let_def split: if_splits)
  have "base_len b + n \<le> cap b'"
    using assms(1) nw by (auto simp: cbb_buffer_reserve_def Let_def split: if_splits)
  then show "length (buf b) + unat n \<le> unat (cap b')"
    using nl len by (simp add: word_le_nat_alt)
qed

lemma add_ok:
  assumes "cbb_buffer_add mem_ok n b = (True, b')" "buf_ok b"
  shows "buf b' = buf b @ replicate (unat n) 0" "error b' = error b" "buf_ok b'"
    "can_resize b' = can_resize b"
proof -
  from assms(1) obtain b1 where r: "cbb_buffer_reserve mem_ok n b = (True, b1)"
    and b': "b' = b1\<lparr>buf := buf b1 @ replicate (unat n) 0\<rparr>"
    by (auto simp: cbb_buffer_add_def split: prod.splits bool.splits)
  note ro = reserve_ok [OF r assms(2)]
  show "buf b' = buf b @ replicate (unat n) 0" "error b' = error b" "buf_ok b'"
    "can_resize b' = can_resize b"
    using ro b' by (simp_all add: buf_ok_def)
qed

lemma write_at_end [simp]: "length zs = length bs \<Longrightarrow> write_at (length xs) bs (xs @ zs) = xs @ bs"
  by (simp add: write_at_def)

lemma add_u_ok:
  assumes "cbb_buffer_add_u mem_ok v n b = (True, b')" "buf_ok b" "n \<le> 8"
  shows "buf b' = buf b @ be_bytes n (unat v) \<and> error b' = error b \<and> buf_ok b' \<and>
    can_resize b' = can_resize b \<and> (n = 0 \<or> unat v < 256 ^ n)"
proof (cases "n = 0")
  case True
  with assms show ?thesis by (simp add: cbb_buffer_add_u_def)
next
  case False
  with assms(1) obtain b1 where a: "cbb_buffer_add mem_ok (of_nat n) b = (True, b1)"
    and z: "drop_bit (8 * n) v = 0"
    and b': "b' = b1\<lparr>buf := write_at (length (buf b)) (be_bytes n (unat v)) (buf b1)\<rparr>"
    by (auto simp: cbb_buffer_add_u_def put_be_eq Let_def split: prod.splits bool.splits if_splits)
  have u: "unat (of_nat n :: u64) = n" using assms(3) by (simp add: unat_of_nat)
  note ao = add_ok [OF a assms(2), unfolded u]
  have "unat v < 256 ^ n" using z by (simp add: drop_bit_eq_0_iff_unat power_mult)
  then show ?thesis
    using ao b' by (simp add: buf_ok_def)
qed

text \<open>The forms of an ASN.1 length.\<close>

lemma asn1_len_form_ok:
  assumes "unat len \<le> 0xfffffffe" "asn1_len_form len = (n, ib, rest)"
  shows "1 \<le> unat n \<and> unat n \<le> 5 \<and>
    der_len (unat len) = ib # be_bytes (unat n - 1) (unat rest) \<and>
    (n = 1 \<or> rest = len) \<and> (n = 1 \<longrightarrow> rest = 0) \<and> drop_bit (8 * (unat n - 1)) rest = 0"
proof -
  let ?L = "unat len"
  have long: "?thesis" if "n = word_of_nat (Suc k)" "ib = word_of_nat (128 + k)" "rest = len"
    "1 \<le> k" "k \<le> 4" "256 ^ (k - 1) \<le> ?L" "?L < 256 ^ k" "128 \<le> ?L" for k
  proof -
    have "octets ?L = k" using octets_unique [of "k - 1" ?L] that by simp
    moreover have "unat n = Suc k" using that(1,5) by (simp only: unat_of_nat) simp
    moreover from this that(4) have "n \<noteq> 1" by auto
    moreover have "?L < 2 ^ (8 * k)" using that(7) by (simp add: power_mult)
    ultimately show ?thesis
      using that by (simp add: der_len_def drop_bit_eq_0_iff_unat del: of_nat_add of_nat_Suc)
  qed
  consider "?L > 0xffffff" | "?L \<le> 0xffffff" "?L > 0xffff" | "?L \<le> 0xffff" "?L > 0xff"
    | "?L \<le> 0xff" "?L > 0x7f" | "?L \<le> 0x7f" by linarith
  then show ?thesis
  proof cases
    case 1
    then show ?thesis
      using assms by (intro long [of 4]) (simp_all add: asn1_len_form_def word_less_nat_alt)
  next
    case 2
    then show ?thesis
      using assms by (intro long [of 3]) (simp_all add: asn1_len_form_def word_less_nat_alt)
  next
    case 3
    then show ?thesis
      using assms by (intro long [of 2]) (simp_all add: asn1_len_form_def word_less_nat_alt)
  next
    case 4
    then show ?thesis
      using assms by (intro long [of 1]) (simp_all add: asn1_len_form_def word_less_nat_alt)
  next
    case 5
    then have "n = 1" "ib = ucast len" "rest = 0"
      using assms by (simp_all add: asn1_len_form_def word_less_nat_alt)
    moreover have "word_of_nat ?L = (ucast len :: byte)"
      using 5 by (simp add: word_nat_lift unat_ucast_narrow)
    ultimately show ?thesis using 5 by (simp add: der_len_def)
  qed
qed


section \<open>Flushing does what it promises\<close>

definition child_ok :: "child \<Rightarrow> nat \<Rightarrow> bool" where
  "child_ok c n \<longleftrightarrow> 0 < unat (pending_len_len c) \<and> unat (pending_len_len c) \<le> 8 \<and>
     (pending_is_asn1 c \<longrightarrow> pending_len_len c = 1) \<and>
     unat (offset c) + unat (pending_len_len c) \<le> n"

text \<open>The largest contents a prefix can describe.\<close>

definition fits_prefix :: "child \<Rightarrow> nat \<Rightarrow> bool" where
  "fits_prefix c n \<longleftrightarrow>
     (if pending_is_asn1 c then n \<le> 0xfffffffe else n < 256 ^ unat (pending_len_len c))"

lemma write_prefix_ok:
  assumes "(let (bs, l) = put_be n len []; b = b\<lparr>buf := write_at at bs (buf b)\<rparr>
            in if l \<noteq> 0 then (False, b\<lparr>error := True\<rparr>) else (True, b)) = (True, b')"
  shows "b' = b\<lparr>buf := write_at at (be_bytes n (unat len)) (buf b)\<rparr> \<and> unat len < 256 ^ n"
  using assms
  by (auto simp: put_be_eq Let_def drop_bit_eq_0_iff_unat power_mult split: if_splits)

lemma flush_child_plain:
  assumes "flush_child mem_ok c b = (True, b')" "\<not> pending_is_asn1 c"
    "buf_ok b" "child_ok c (length (buf b))"
  defines "start \<equiv> unat (offset c) + unat (pending_len_len c)"
  shows "buf b' = take (unat (offset c)) (buf b) @ close_prefix c (length (buf b) - start) @ drop start (buf b)
    \<and> error b' = error b \<and> buf_ok b' \<and> can_resize b' = can_resize b
    \<and> fits_prefix c (length (buf b) - start)"
proof -
  let ?start = "offset c + ucast (pending_len_len c) :: u64" and ?n = "unat (pending_len_len c)"
  have nw: "\<not> ?start < offset c" "\<not> base_len b < ?start"
    using assms(1) by (auto simp: flush_child_def Let_def split: if_splits)
  have st: "unat ?start = start" using no_wrap_add(1) [OF nw(1)] by (simp add: start_def)
  note bl = buf_ok_len [OF assms(3)]
  have len: "unat (base_len b - ?start) = length (buf b) - start"
    using nw(2) st bl by (simp add: unat_sub linorder_not_less)
  from assms(1,2) nw have w: "(let (bs, l) = put_be ?n (base_len b - ?start) [];
            b = b\<lparr>buf := write_at (unat (offset c)) bs (buf b)\<rparr>
            in if l \<noteq> 0 then (False, b\<lparr>error := True\<rparr>) else (True, b)) = (True, b')"
    by (simp add: flush_child_def Let_def)
  from write_prefix_ok [OF w] have b': "b' = b\<lparr>buf := write_at (unat (offset c))
      (be_bytes ?n (length (buf b) - start)) (buf b)\<rparr>" "length (buf b) - start < 256 ^ ?n"
    by (simp_all only: len)
  then show ?thesis
    using assms(2-4) by (simp add: write_at_def close_prefix_def fits_prefix_def buf_ok_def
        child_ok_def start_def)
qed

lemma memmove_up:
  assumes "start \<le> length xs"
  shows "write_at (start + k) (drop start xs) (xs @ replicate k z)
    = take start xs @ take k (drop start (xs @ replicate k z)) @ drop start xs"
proof -
  have "take (start + k) (xs @ replicate k z)
      = take start xs @ take k (drop start (xs @ replicate k z))"
    using assms by (simp add: take_add del: drop_append take_append) simp
  then show ?thesis using assms by (simp add: write_at_def)
qed


text \<open>Making room for the extra bytes of a long length.\<close>

definition make_room :: "(u64 \<Rightarrow> bool) \<Rightarrow> u64 \<Rightarrow> byte \<Rightarrow> u64 \<Rightarrow> cbb_buffer \<Rightarrow> bool \<times> cbb_buffer" where
  "make_room mem_ok child_start n len b =
     (if n \<noteq> 1 then
        let extra_bytes = ucast (n - 1) in
        (case cbb_buffer_add mem_ok extra_bytes b of
           (False, b) \<Rightarrow> (False, b\<lparr>error := True\<rparr>)
         | (True, b) \<Rightarrow>
             (True, b\<lparr>buf := write_at (unat (child_start + extra_bytes))
                (take (unat len) (drop (unat child_start) (buf b))) (buf b)\<rparr>))
      else (True, b))"

lemma make_room_ok:
  assumes "make_room mem_ok st n len b = (True, b')" "buf_ok b"
    "1 \<le> unat n" "unat n \<le> 5" "n \<noteq> 1 \<longrightarrow> unat len = length (buf b) - unat st" "unat st \<le> length (buf b)"
  shows "\<exists>xs. length xs = unat n - 1 \<and> buf b' = take (unat st) (buf b) @ xs @ drop (unat st) (buf b)
    \<and> error b' = error b \<and> buf_ok b' \<and> can_resize b' = can_resize b"
proof (cases "n = 1")
  case True
  with assms show ?thesis by (simp add: make_room_def)
next
  case False
  let ?k = "unat n - 1"
  have k': "unat (n - 1) = ?k" using assms(3) by (simp add: unat_sub word_le_nat_alt)
  then have k: "unat (ucast (n - 1) :: u64) = ?k" by simp
  from assms(1) False obtain b1 where a: "cbb_buffer_add mem_ok (ucast (n - 1)) b = (True, b1)"
    and b': "b' = b1\<lparr>buf := write_at (unat (st + ucast (n - 1)))
                (take (unat len) (drop (unat st) (buf b1))) (buf b1)\<rparr>"
    by (auto simp: make_room_def Let_def split: prod.splits bool.splits)
  note ao = add_ok [OF a assms(2), unfolded k]
  note bl = buf_ok_len [OF ao(3)]
  have "unat st + ?k < 2 ^ 64" using bl ao(1) assms(6) by simp
  then have u: "unat (st + ucast (n - 1)) = unat st + ?k" by (simp add: unat_word_ariths k')
  have c: "take (unat len) (drop (unat st) (buf b1)) = drop (unat st) (buf b)"
    using ao(1) assms(5,6) False by simp
  have bb: "buf b' = write_at (unat (st + ucast (n - 1)))
      (take (unat len) (drop (unat st) (buf b1))) (buf b1)"
    using b' by simp
  let ?xs = "take ?k (drop (unat st) (buf b @ replicate ?k 0))"
  have "length ?xs = ?k" using assms(6) by simp
  moreover have "write_at (unat st + ?k) (drop (unat st) (buf b)) (buf b @ replicate ?k 0)
      = take (unat st) (buf b) @ ?xs @ drop (unat st) (buf b)"
    using assms(6) by (rule memmove_up)
  then have "buf b' = take (unat st) (buf b) @ ?xs @ drop (unat st) (buf b)"
    using bb [unfolded u c, unfolded ao(1)] by (simp only:)
  moreover from this ao(1) assms(6) have "length (buf b') = length (buf b1)" by simp
  moreover have "cap b' = cap b1" "error b' = error b1" "can_resize b' = can_resize b1"
    using b' by simp_all
  ultimately show ?thesis using ao by (intro exI [of _ ?xs] conjI) (simp_all only: buf_ok_def)
qed

lemma flush_child_asn1:
  assumes "flush_child mem_ok c b = (True, b')" "pending_is_asn1 c"
    "buf_ok b" "child_ok c (length (buf b))"
  defines "start \<equiv> unat (offset c) + unat (pending_len_len c)"
  shows "buf b' = take (unat (offset c)) (buf b) @ close_prefix c (length (buf b) - start) @ drop start (buf b)
    \<and> error b' = error b \<and> buf_ok b' \<and> can_resize b' = can_resize b
    \<and> fits_prefix c (length (buf b) - start)"
proof -
  let ?start = "offset c + ucast (pending_len_len c) :: u64"
  let ?off = "unat (offset c)"
  have nw: "\<not> ?start < offset c" "\<not> base_len b < ?start"
    using assms(1) by (auto simp: flush_child_def Let_def split: if_splits)
  have st: "unat ?start = start" using no_wrap_add(1) [OF nw(1)] by (simp add: start_def)
  have pll: "unat (pending_len_len c) = 1" using assms(2,4) by (simp add: child_ok_def)
  note bl = buf_ok_len [OF assms(3)]
  let ?len = "base_len b - ?start"
  have len: "unat ?len = length (buf b) - start"
    using nw(2) st bl by (simp add: unat_sub linorder_not_less)
  obtain n ib rest where f: "asn1_len_form ?len = (n, ib, rest)" by (cases "asn1_len_form ?len")
  have big: "\<not> ?len > 0xfffffffe"
    using assms(1,2) nw by (auto simp: flush_child_def Let_def split: if_splits)
  then have "unat ?len \<le> 0xfffffffe" by (simp add: word_less_nat_alt)
  note lf = asn1_len_form_ok [OF this f]
  from assms(1,2) nw big f obtain b1 where m: "make_room mem_ok ?start n rest b = (True, b1)"
    and w: "(let (bs, l) = put_be (unat (n - 1)) rest [];
            b = b1\<lparr>buf := write_at (unat (offset c + 1)) bs ((buf b1)[?off := ib])\<rparr>
            in if l \<noteq> 0 then (False, b\<lparr>error := True\<rparr>) else (True, b)) = (True, b')"
    by (auto simp: flush_child_def make_room_def Let_def split: prod.splits bool.splits if_splits)
  have stl: "start \<le> length (buf b)" using assms(4) by (simp add: child_ok_def start_def)
  with st have stl': "unat ?start \<le> length (buf b)" by simp
  have n1: "unat (n - 1) = unat n - 1" using lf by (simp add: unat_sub word_le_nat_alt)
  from make_room_ok [OF m assms(3) _ _ _ stl'] lf len st obtain xs where
    xs: "length xs = unat n - 1" "buf b1 = take start (buf b) @ xs @ drop start (buf b)"
    "error b1 = error b" "buf_ok b1" "can_resize b1 = can_resize b"
    by auto
  have o1: "unat (offset c + 1) = ?off + 1"
    using stl bl pll by (simp add: start_def unat_word_ariths)
  have tk: "take start (buf b) = take ?off (buf b) @ [buf b ! ?off]"
    using stl pll by (simp add: start_def take_Suc_conv_app_nth)
  have up: "(buf b1)[?off := ib] = (take ?off (buf b) @ [ib]) @ xs @ drop start (buf b)"
    using stl pll unfolding xs(2) tk by (simp add: start_def list_update_append)
  have wr: "write_at (?off + 1) (be_bytes (unat n - 1) (unat rest)) ((buf b1)[?off := ib])
      = (take ?off (buf b) @ [ib]) @ be_bytes (unat n - 1) (unat rest) @ drop start (buf b)"
    unfolding up using write_at_prefix [of "be_bytes (unat n - 1) (unat rest)" xs "take ?off (buf b) @ [ib]"]
      xs(1) stl pll by (simp add: start_def)
  have b': "b' = b1\<lparr>buf := write_at (?off + 1) (be_bytes (unat n - 1) (unat rest)) ((buf b1)[?off := ib])\<rparr>"
    using w by (auto simp: put_be_eq Let_def o1 n1 split: if_splits)
  have "close_prefix c (length (buf b) - start) = [ib] @ be_bytes (unat n - 1) (unat rest)"
    using lf assms(2) len by (simp add: close_prefix_def)
  moreover have "length (buf b') = length (buf b1)"
    unfolding b' using wr xs stl pll by (simp add: start_def)
  ultimately show ?thesis
    using b' wr xs assms(2) \<open>unat ?len \<le> 0xfffffffe\<close> len stl pll
    by (simp add: buf_ok_def fits_prefix_def start_def)
qed


lemmas flush_child_ok = flush_child_plain flush_child_asn1

lemma take_spec_close: "chain_ok lo cs (length xs) \<Longrightarrow> take lo (spec_close xs cs) = take lo xs"
proof (induction cs arbitrary: lo)
  case Nil
  then show ?case by simp
next
  case (Cons c cs)
  let ?start = "unat (offset c) + unat (pending_len_len c)"
  let ?ys = "spec_close xs cs"
  from Cons.prems have lo: "lo \<le> unat (offset c)" and ok: "chain_ok ?start cs (length xs)" by simp_all
  from Cons.IH [OF ok] have ys: "take ?start ?ys = take ?start xs" .
  have len: "?start \<le> length xs" using ok by (rule chain_ok_le)
  from arg_cong [OF ys, of length] len have "?start \<le> length ?ys" by simp
  then have "take lo (spec_close xs (c # cs)) = take lo ?ys"
    using lo by (simp add: Let_def)
  also have "\<dots> = take lo (take ?start ?ys)" using lo by simp
  also have "\<dots> = take lo xs" unfolding ys using lo by simp
  finally show ?case .
qed

lemma length_spec_close: "chain_ok lo cs (length xs) \<Longrightarrow> lo \<le> length (spec_close xs cs)"
  using arg_cong [OF take_spec_close, of lo cs xs length] chain_ok_le [of lo cs "length xs"] by simp

text \<open>The prefixes of a chain can describe what they enclose.\<close>

fun chain_fits :: "bytes \<Rightarrow> child list \<Rightarrow> bool" where
  "chain_fits xs [] = True"
| "chain_fits xs (c # cs) \<longleftrightarrow> chain_fits xs cs \<and>
     fits_prefix c (length (spec_close xs cs) - (unat (offset c) + unat (pending_len_len c)))"

lemma flush_chain_ok:
  assumes "flush_chain mem_ok cs b = (True, b', cs')" "buf_ok b" "chain_ok lo cs (length (buf b))"
  shows "buf b' = spec_close (buf b) cs \<and> cs' = [] \<and> \<not> error b \<and> \<not> error b' \<and> buf_ok b' \<and>
    can_resize b' = can_resize b \<and> chain_fits (buf b) cs"
  using assms
proof (induction cs arbitrary: lo b' cs')
  case Nil
  then show ?case by auto
next
  case (Cons c cs)
  let ?start = "unat (offset c) + unat (pending_len_len c)"
  from Cons.prems(3) have ok: "chain_ok ?start cs (length (buf b))" and nz: "pending_len_len c \<noteq> 0"
    by auto
  from Cons.prems(1) nz obtain b1 cs1 where f: "flush_chain mem_ok cs b = (True, b1, cs1)"
    and g: "flush_child mem_ok c b1 = (True, b')" "cs' = []" and e: "\<not> error b"
    by (auto split: prod.splits bool.splits if_splits)
  note IH = Cons.IH [OF f Cons.prems(2) ok]
  have "child_ok c (length (buf b1))"
    using Cons.prems(3) IH length_spec_close [OF ok] by (auto simp: child_ok_def)
  with flush_child_ok [OF g(1)] IH have
    "buf b' = take (unat (offset c)) (buf b1) @ close_prefix c (length (buf b1) - ?start) @ drop ?start (buf b1)
      \<and> error b' = error b1 \<and> buf_ok b' \<and> can_resize b' = can_resize b1
      \<and> fits_prefix c (length (buf b1) - ?start)"
    by blast
  with IH e g(2) show ?case by (simp add: Let_def)
qed

section \<open>Handles\<close>

definition cbb_ok :: "cbb \<Rightarrow> bool" where
  "cbb_ok s \<longleftrightarrow> (case base s of None \<Rightarrow> True | Some b \<Rightarrow> buf_ok b \<and>
     (error b \<or> chain_ok 0 (chain s) (length (buf b))))"

definition cbb_out :: "cbb \<Rightarrow> bytes" where
  "cbb_out s = (case base s of None \<Rightarrow> [] | Some b \<Rightarrow> buf b)"

text \<open>The innermost open handle of a \<open>CBB\<close> in use.\<close>

definition ready :: "nat \<Rightarrow> cbb \<Rightarrow> bool" where
  "ready d s \<longleftrightarrow> cbb_ok s \<and> length (chain s) = d \<and>
     (case base s of None \<Rightarrow> False | Some b \<Rightarrow> \<not> error b)"

lemma ready_iff:
  "ready d s \<longleftrightarrow> cbb_ok s \<and> length (chain s) = d \<and> (\<exists>b. base s = Some b \<and> \<not> error b)"
  by (auto simp: ready_def split: option.splits)

lemma CBB_flush_ok:
  assumes "CBB_flush mem_ok d s = (True, s')" "cbb_ok s"
  shows "ready d s' \<and> cbb_out s' = spec_close (cbb_out s) (drop d (chain s)) \<and>
    chain s' = take d (chain s) \<and> chain_fits (cbb_out s) (drop d (chain s))"
proof -
  from assms(1) obtain b b' cs' where b: "base s = Some b" "d \<le> length (chain s)"
    "flush_chain mem_ok (drop d (chain s)) b = (True, b', cs')"
    "s' = s\<lparr>base := Some b', chain := take d (chain s) @ cs'\<rparr>"
    by (auto simp: CBB_flush_def split: option.splits if_splits prod.splits)
  have e: "\<not> error b" using b(3) by (cases "drop d (chain s)") (auto split: if_splits)
  with assms(2) b(1) have ok: "buf_ok b" "chain_ok 0 (take d (chain s) @ drop d (chain s)) (length (buf b))"
    by (simp_all add: cbb_ok_def)
  then obtain m where m: "chain_ok 0 (take d (chain s)) m" "chain_ok m (drop d (chain s)) (length (buf b))"
    by (auto simp only: chain_ok_append)
  note f = flush_chain_ok [OF b(3) ok(1) m(2)]
  have "chain_ok 0 (take d (chain s)) (length (buf b'))"
    using m(1) by (rule chain_ok_mono) (use f length_spec_close [OF m(2)] in simp)
  with f b show ?thesis
    by (simp add: ready_iff cbb_ok_def cbb_out_def)
qed

lemma CBB_flush_ready [simp]: "ready d s \<Longrightarrow> CBB_flush mem_ok d s = (True, s)"
  by (auto simp: ready_iff CBB_flush_def)

lemma all_ok_pair: "all_ok [f, g] s = (True, s') \<longleftrightarrow> (\<exists>t. f s = (True, t) \<and> g t = (True, s'))"
  by (simp only: all_ok_Cons_True) simp

lemma case_ok_True:
  "(case p of (False, x) \<Rightarrow> (False, x) | (True, x) \<Rightarrow> (True, f x)) = (True, y) \<longleftrightarrow>
    (\<exists>x. p = (True, x) \<and> y = f x)"
  by (auto split: prod.splits bool.splits)

lemma on_base_True:
  "on_base f s = (True, s') \<longleftrightarrow> (\<exists>b b'. base s = Some b \<and> f b = (True, b') \<and> s' = s\<lparr>base := Some b'\<rparr>)"
  by (auto simp: on_base_def split: option.splits prod.splits)

text \<open>Appending to the buffer of an innermost handle.\<close>

lemma ready_append:
  assumes "ready d s" "base s = Some b" "buf b' = buf b @ xs" "error b' = error b" "buf_ok b'"
  shows "ready d (s\<lparr>base := Some b'\<rparr>) \<and> cbb_out (s\<lparr>base := Some b'\<rparr>) = cbb_out s @ xs"
  using assms chain_ok_mono [of 0 "chain s" "length (buf b)" "length (buf b @ xs)"]
  by (auto simp: ready_iff cbb_ok_def cbb_out_def)

lemma ready_buf_ok: "ready d s \<Longrightarrow> base s = Some b \<Longrightarrow> buf_ok b \<and> \<not> error b"
  by (auto simp: ready_iff cbb_ok_def)

lemma add_int_ok:
  assumes "all_ok [CBB_flush mem_ok d, on_base (cbb_buffer_add_u mem_ok v n)] s = (True, s')"
    "cbb_ok s" "n \<le> 8"
  shows "ready d s' \<and> chain s' = take d (chain s) \<and> (n = 0 \<or> unat v < 256 ^ n) \<and>
    cbb_out s' = spec_close (cbb_out s) (drop d (chain s)) @ be_bytes n (unat v)"
proof -
  from assms(1) obtain t b b' where t: "CBB_flush mem_ok d s = (True, t)" "base t = Some b"
    "cbb_buffer_add_u mem_ok v n b = (True, b')" "s' = t\<lparr>base := Some b'\<rparr>"
    by (auto simp only: all_ok_pair on_base_True)
  note fl = CBB_flush_ok [OF t(1) assms(2)]
  then have b: "buf_ok b" using ready_buf_ok t(2) by blast
  note au = add_u_ok [OF t(3) b assms(3)]
  have "ready d s' \<and> cbb_out s' = cbb_out t @ be_bytes n (unat v)"
    unfolding t(4) by (rule ready_append [OF _ t(2)]) (use fl au in simp_all)
  with fl au t(4) show ?thesis by simp
qed

lemma be_bytes_1: "be_bytes (Suc 0) (unat (b :: byte)) = [b]"
  by (simp add: be_bytes_def)

lemma CBB_add_u8_ok:
  assumes "CBB_add_u8 mem_ok d v s = (True, s')" "cbb_ok s"
  shows "ready d s' \<and> chain s' = take d (chain s) \<and>
    cbb_out s' = spec_close (cbb_out s) (drop d (chain s)) @ [v]"
  using add_int_ok [of mem_ok d "ucast v" 1 s s'] assms
  by (simp add: CBB_add_u8_def be_bytes_1 del: all_ok.simps)

lemma ready_cbb_ok: "ready d s \<Longrightarrow> cbb_ok s \<and> length (chain s) = d"
  by (simp add: ready_iff)

interpretation cbb_sink: byte_sink "CBB_add_u8 mem_ok d" cbb_out "ready d" for mem_ok d
proof
  fix s b s'
  assume "ready d s" "CBB_add_u8 mem_ok d b s = (True, s')"
  with CBB_add_u8_ok [of mem_ok d b s s'] ready_cbb_ok [of d s]
  show "cbb_out s' = cbb_out s @ [b]" "ready d s'" by simp_all
qed

lemma CBB_add_u8_chain: "ready d s \<Longrightarrow> CBB_add_u8 mem_ok d b s = (True, s') \<Longrightarrow> chain s' = chain s"
  using CBB_add_u8_ok [of mem_ok d b s s'] ready_cbb_ok [of d s] by simp

lemma put_all_u8:
  "ready d s \<Longrightarrow> put_all (CBB_add_u8 mem_ok d) bs s = (True, s') \<Longrightarrow>
    ready d s' \<and> cbb_out s' = cbb_out s @ bs \<and> chain s' = chain s"
proof (induction bs arbitrary: s)
  case Nil
  then show ?case by simp
next
  case (Cons b bs)
  from Cons.prems(2) obtain t where t: "CBB_add_u8 mem_ok d b s = (True, t)"
      "put_all (CBB_add_u8 mem_ok d) bs t = (True, s')"
    unfolding put_all_Cons_True by blast
  with Cons cbb_sink.put_out [OF Cons.prems(1) t(1)] cbb_sink.put_ready [OF Cons.prems(1) t(1)]
    CBB_add_u8_chain [OF Cons.prems(1) t(1)]
  show ?case by simp
qed

lemma add_raw_ok:
  assumes "all_ok [CBB_flush mem_ok d,
       on_base (\<lambda>b. case cbb_buffer_add mem_ok len b of
                      (False, b') \<Rightarrow> (False, b')
                    | (True, b') \<Rightarrow>
                        (True, b'\<lparr>buf := write_at (length (buf b)) (take (unat len) data) (buf b')\<rparr>))] s
      = (True, s')" "cbb_ok s" "unat len \<le> length data"
  shows "ready d s' \<and> chain s' = take d (chain s) \<and>
    cbb_out s' = spec_close (cbb_out s) (drop d (chain s)) @ take (unat len) data"
proof -
  from assms(1) obtain t b b1 where t: "CBB_flush mem_ok d s = (True, t)" "base t = Some b"
    "cbb_buffer_add mem_ok len b = (True, b1)"
    "s' = t\<lparr>base := Some (b1\<lparr>buf := write_at (length (buf b)) (take (unat len) data) (buf b1)\<rparr>)\<rparr>"
    unfolding all_ok_pair on_base_True case_ok_True by blast
  note fl = CBB_flush_ok [OF t(1) assms(2)]
  then have b: "buf_ok b" using ready_buf_ok t(2) by blast
  note ao = add_ok [OF t(3) b]
  have "ready d s' \<and> cbb_out s' = cbb_out t @ take (unat len) data"
    unfolding t(4) by (rule ready_append [OF _ t(2)]) (use fl ao assms(3) in \<open>simp_all add: buf_ok_def\<close>)
  with fl t(4) show ?thesis by simp
qed

lemma CBB_add_bytes_ok:
  assumes "CBB_add_bytes mem_ok d data len s = (True, s')" "cbb_ok s" "unat len \<le> length data"
  shows "ready d s' \<and> chain s' = take d (chain s) \<and>
    cbb_out s' = spec_close (cbb_out s) (drop d (chain s)) @ take (unat len) data"
  using assms unfolding CBB_add_bytes_def by (rule add_raw_ok)

section \<open>Base-128 integers\<close>

lemma base128_len_eq: "base128_len v = length (base128_cont (unat v))"
proof (induction v rule: base128_len.induct)
  case (1 v)
  show ?case
  proof (cases "v > 0")
    case True
    then have "unat v \<noteq> 0" by (simp add: word_greater_zero_iff unat_eq_0)
    moreover have "unat (drop_bit 7 v) = unat v div 128" by (simp add: unat_drop_bit)
    ultimately show ?thesis using 1 True
      by (simp add: base128_len.simps [of v] base128_cont_pos)
  next
    case False
    then have "v = 0" by (simp add: word_greater_zero_iff)
    then show ?thesis by (simp add: base128_len.simps)
  qed
qed

text \<open>The groups of \<open>v\<close> from the \<open>k\<close>-th down to the first.\<close>

definition groups :: "nat \<Rightarrow> nat \<Rightarrow> bytes" where
  "groups k n = map (\<lambda>i. word_of_nat ((if i \<noteq> 0 then 128 else 0) + n div 128 ^ i mod 128)) (rev [0..<k])"

lemma group_byte:
  "(if i \<noteq> 0 then (ucast (drop_bit (7 * i) (v :: u64)) AND 0x7f) OR 0x80 else ucast (drop_bit (7 * i) v) AND 0x7f)
    = (word_of_nat ((if i \<noteq> 0 then 128 else 0) + unat v div 128 ^ i mod 128) :: byte)"
proof -
  let ?x = "ucast (drop_bit (7 * i) v) AND 0x7f :: byte"
  have "(unat v div 128 ^ i) mod 256 mod 128 = unat v div 128 ^ i mod 128"
    by (simp add: mod_mod_cancel)
  then have x: "unat ?x = unat v div 128 ^ i mod 128"
    by (simp only: byte_simps unat_ucast_narrow unat_drop_bit power_mult) simp
  have "unat (push_bit 7 (1 :: byte) OR ?x) = 2 ^ 7 * unat (1 :: byte) + unat ?x"
    by (rule unat_push_bit_or) (simp_all add: x add_strict_mono del: power_numeral, use x in simp_all)
  then have "unat (?x OR 0x80) = 128 + unat v div 128 ^ i mod 128"
    by (simp add: or.commute x)
  then show ?thesis
    using x byte_of_nat_eqI [of ?x] byte_of_nat_eqI [of "?x OR 0x80"]
    by (cases "i = 0") (simp_all del: of_nat_add)
qed

lemma base128_groups_eq:
  "base128_groups mem_ok d v k s = put_all (CBB_add_u8 mem_ok d) (groups k (unat v)) s"
proof (induction k arbitrary: s)
  case 0
  then show ?case by (simp add: groups_def)
next
  case (Suc k)
  have "groups (Suc k) (unat v) =
      word_of_nat ((if k \<noteq> 0 then 128 else 0) + unat v div 128 ^ k mod 128) # groups k (unat v)"
    by (simp add: groups_def)
  moreover have "base128_groups mem_ok d v k = put_all (CBB_add_u8 mem_ok d) (groups k (unat v))"
    by (rule ext) (rule Suc)
  ultimately show ?case
    by (simp only: base128_groups.simps Let_def group_byte put_all_simps)
qed

lemma base128_cont_groups:
  "base128_cont m = map (\<lambda>i. word_of_nat (128 + m div 128 ^ i mod 128)) (rev [0..<length (base128_cont m)])"
proof (induction m rule: base128_cont.induct)
  case (1 m)
  show ?case
  proof (cases "m = 0")
    case False
    let ?k = "length (base128_cont (m div 128))"
    have len: "length (base128_cont m) = Suc ?k" by (simp add: base128_cont_pos [OF False])
    have "rev [0..<Suc ?k] = map Suc (rev [0..<?k]) @ [0]"
      by (simp add: upt_conv_Cons map_Suc_upt [symmetric] rev_map del: upt_Suc)
    then have "map (\<lambda>i. word_of_nat (128 + m div 128 ^ i mod 128) :: byte) (rev [0..<Suc ?k])
      = map (\<lambda>i. word_of_nat (128 + m div 128 div 128 ^ i mod 128)) (rev [0..<?k]) @ [word_of_nat (128 + m mod 128)]"
      by (simp add: o_def div_mult2_eq del: of_nat_add upt_Suc)
    also have "\<dots> = base128_cont m"
      using 1 [OF False] by (simp only: base128_cont_pos [OF False])
    finally show ?thesis by (simp only: len)
  qed simp
qed

lemma groups_base128: "groups (Suc (length (base128_cont (n div 128)))) n = base128 n"
proof -
  let ?k = "length (base128_cont (n div 128))"
  have "rev [0..<Suc ?k] = map Suc (rev [0..<?k]) @ [0]"
    by (simp add: upt_conv_Cons map_Suc_upt [symmetric] rev_map del: upt_Suc)
  then have "groups (Suc ?k) n = map (\<lambda>i. word_of_nat (128 + n div 128 div 128 ^ i mod 128)) (rev [0..<?k])
      @ [word_of_nat (n mod 128)]"
    by (simp add: groups_def o_def div_mult2_eq del: of_nat_add upt_Suc)
  also have "\<dots> = base128 n"
    using base128_cont_groups [of "n div 128"] by (simp only: base128_def)
  finally show ?thesis .
qed

lemma add_base128_integer_eq:
  "add_base128_integer mem_ok d v s = put_all (CBB_add_u8 mem_ok d) (base128 (unat v)) s"
proof -
  have "(if base128_len v = 0 then 1 else base128_len v) = Suc (length (base128_cont (unat v div 128)))"
    by (cases "unat v = 0") (simp_all add: base128_len_eq base128_cont_pos)
  then show ?thesis
    unfolding add_base128_integer_def Let_def base128_groups_eq by (simp only: groups_base128)
qed


section \<open>ASN.1 elements\<close>

lemma tag_byte_bits:
  fixes tag :: u32
  shows "unat (ucast (drop_bit 24 tag) AND 0xe0 :: byte) = 32 * (unat tag div 2 ^ 29)"
proof -
  have e: "(0xe0 :: byte) = push_bit 5 (mask 3)" by (simp add: mask_eq_exp_minus_1)
  have "ucast (drop_bit 24 tag) AND 0xe0 = (push_bit 5 (ucast (drop_bit 29 tag)) :: byte)"
    unfolding e by (rule bit_eqI) (auto simp: bit_simps dest: bit_imp_le_length)
  also have "unat \<dots> = take_bit 8 (push_bit 5 (unat (ucast (drop_bit 29 tag) :: byte)))"
    by (simp add: unsigned_push_bit_eq)
  also have "unat (ucast (drop_bit 29 tag) :: byte) = unat tag div 2 ^ 29"
  proof -
    have "unat tag div 2 ^ 29 < 8" by (rule less_mult_imp_div_less) (use unsigned_less [of tag] in simp)
    then show ?thesis by (simp only: unat_ucast_narrow unat_drop_bit) simp
  qed
  also have "take_bit 8 (push_bit 5 (unat tag div 2 ^ 29)) = 32 * (unat tag div 2 ^ 29)"
  proof -
    have "unat tag div 2 ^ 29 < 8" by (rule less_mult_imp_div_less) (use unsigned_less [of tag] in simp)
    then show ?thesis by (simp add: push_bit_eq_mult take_bit_eq_mod)
  qed
  finally show ?thesis .
qed

lemma tag_number_unat: "unat (tag AND CBS_ASN1_TAG_NUMBER_MASK) = unat tag mod 2 ^ 29"
  using word_and_mask_unat [of tag 29]
  by (simp add: CBS_ASN1_TAG_NUMBER_MASK_def mask_eq_exp_minus_1 push_bit_eq_mult)

lemma or_low_bits:
  assumes "unat (hi :: byte) = 32 * k" "unat lo < 32" "k < 8"
  shows "hi OR lo = word_of_nat (32 * k + unat lo)"
proof -
  have k: "unat (word_of_nat k :: byte) = k" using assms(3) by (simp add: unat_byte_small)
  have "unat (push_bit 5 (word_of_nat k :: byte)) = 32 * k"
    using assms(3) by (simp only: unsigned_push_bit_eq k) (simp add: push_bit_eq_mult take_bit_eq_mod)
  then have hi: "hi = push_bit 5 (word_of_nat k)" using assms(1) by (simp only: word_nat_lift)
  have "unat (push_bit 5 (word_of_nat k) OR lo) = 2 ^ 5 * unat (word_of_nat k :: byte) + unat lo"
    by (rule unat_push_bit_or) (use assms(2,3) in \<open>simp_all add: k\<close>)
  then show ?thesis by (intro byte_of_nat_eqI [symmetric]) (simp add: hi k)
qed

lemma add_tag_eq:
  fixes tag :: u32
  defines "tag_bits \<equiv> ucast (drop_bit 24 tag) AND 0xe0 :: byte" and "tag_number \<equiv> tag AND CBS_ASN1_TAG_NUMBER_MASK"
  shows "(if tag_number \<ge> 0x1f then
              all_ok [CBB_add_u8 mem_ok d (tag_bits OR 0x1f),
                      add_base128_integer mem_ok d (ucast tag_number)]
            else CBB_add_u8 mem_ok d (tag_bits OR ucast tag_number))
    = put_all (CBB_add_u8 mem_ok d) (der_tag tag)"
proof -
  let ?n = "unat tag mod 2 ^ 29" and ?k = "unat tag div 2 ^ 29"
  have k: "?k < 8" by (rule less_mult_imp_div_less) (use unsigned_less [of tag] in simp)
  have tb: "unat tag_bits = 32 * ?k" unfolding tag_bits_def by (rule tag_byte_bits)
  have tn: "unat tag_number = ?n" unfolding tag_number_def by (rule tag_number_unat)
  show ?thesis
  proof (cases "31 \<le> ?n")
    case True
    have b: "tag_bits OR 0x1f = word_of_nat (32 * ?k + 31)"
      using or_low_bits [OF tb, of "0x1f"] k by simp
    have "unat (ucast tag_number :: u64) = ?n" using tn by simp
    then have i: "add_base128_integer mem_ok d (ucast tag_number) = put_all (CBB_add_u8 mem_ok d) (base128 ?n)"
      by (intro ext) (simp only: add_base128_integer_eq)
    have c: "0x1f \<le> tag_number" using True tn by (simp add: word_le_nat_alt)
    show ?thesis
      using True unfolding if_P [OF c] b i der_tag_def Let_def
      by (intro ext) (simp del: of_nat_add split: prod.splits bool.splits)
  next
    case False
    have c: "\<not> 0x1f \<le> tag_number" using False tn by (simp add: word_le_nat_alt)
    have l: "unat (ucast tag_number :: byte) = ?n" using False tn by (simp add: unat_ucast_narrow)
    have b: "tag_bits OR ucast tag_number = word_of_nat (32 * ?k + ?n)"
      using or_low_bits [OF tb, of "ucast tag_number"] k l False by simp
    show ?thesis
      using False unfolding if_not_P [OF c] b der_tag_def Let_def
      by (intro ext) (simp del: of_nat_add split: prod.splits bool.splits)
  qed
qed

lemma spec_close_innermost:
  "pending_is_asn1 c \<Longrightarrow> pending_len_len c = 1 \<Longrightarrow> unat (offset c) = length xs \<Longrightarrow>
    spec_close (xs @ [z] @ ys) [c] = xs @ der_len (length ys) @ ys"
  "\<not> pending_is_asn1 c \<Longrightarrow> unat (pending_len_len c) = length zs \<Longrightarrow> unat (offset c) = length xs \<Longrightarrow>
    spec_close (xs @ zs @ ys) [c] = xs @ be_bytes (length zs) (length ys) @ ys"
  by (simp_all add: Let_def close_prefix_def)

lemma CBB_add_asn1_ok:
  assumes "CBB_add_asn1 mem_ok d tag s = (True, s')" "cbb_ok s"
  shows "\<exists>c. ready (Suc d) s' \<and> chain s' = take d (chain s) @ [c] \<and>
    pending_is_asn1 c \<and> pending_len_len c = 1 \<and>
    unat (offset c) = length (spec_close (cbb_out s) (drop d (chain s)) @ der_tag tag) \<and>
    cbb_out s' = spec_close (cbb_out s) (drop d (chain s)) @ der_tag tag @ [0]"
proof -
  from assms(1) obtain t u b v where
    t: "CBB_flush mem_ok d s = (True, t)" "put_all (CBB_add_u8 mem_ok d) (der_tag tag) t = (True, u)"
      "base u = Some b" "CBB_add_u8 mem_ok d 0 u = (True, v)"
      "s' = v\<lparr>chain := take d (chain v) @
         [\<lparr>offset = base_len b, pending_len_len = 1, pending_is_asn1 = True\<rparr>]\<rparr>"
    unfolding CBB_add_asn1_def Let_def add_tag_eq
    by (auto simp: open_child_def all_ok_pair split: prod.splits bool.splits option.splits simp del: all_ok.simps)
  note f = CBB_flush_ok [OF t(1) assms(2)]
  note p = put_all_u8 [OF _ t(2)]
  have u: "ready d u" "cbb_out u = cbb_out t @ der_tag tag" "chain u = chain t" using p f by simp_all
  note bl = buf_ok_len [of b]
  have b: "buf_ok b" using ready_buf_ok [OF u(1) t(3)] by simp
  have off: "unat (base_len b) = length (cbb_out u)" using bl [OF b] t(3) by (simp add: cbb_out_def)
  note a = CBB_add_u8_ok [OF t(4)]
  have v: "ready d v" "cbb_out v = cbb_out u @ [0]" "chain v = chain u"
    using a u(1) ready_cbb_ok [OF u(1)] by simp_all
  let ?c = "\<lparr>offset = base_len b, pending_len_len = 1, pending_is_asn1 = True\<rparr>"
  have ch: "chain v @ [?c] = take d (chain s) @ [?c]" "length (chain v) = d"
    using v(1,3) u(3) f ready_cbb_ok [OF v(1)] by simp_all
  have "ready (Suc d) s'"
  proof -
    from v(1) obtain b2 where b2: "base v = Some b2" "\<not> error b2" "buf_ok b2" "chain_ok 0 (chain v) (length (buf b2))"
      by (auto simp: ready_iff cbb_ok_def)
    have lb: "length (buf b2) = length (cbb_out u) + 1" using v(2) b2(1) by (simp add: cbb_out_def)
    from u(1) t(3) have "chain_ok 0 (chain u) (length (buf b))" by (auto simp: ready_iff cbb_ok_def)
    then have "chain_ok 0 (chain v) (length (cbb_out u))" using v(3) t(3) by (simp add: cbb_out_def)
    moreover have "chain_ok (length (cbb_out u)) [?c] (length (buf b2))" using off lb by simp
    ultimately have "chain_ok 0 (chain v @ [?c]) (length (buf b2))" by (auto simp only: chain_ok_append)
    with b2 ch(2) show ?thesis by (simp add: t(5) ready_iff cbb_ok_def)
  qed
  with v u f ch off t(5) show ?thesis
    by (intro exI [of _ ?c]) (simp add: cbb_out_def)
qed

text \<open>What a step on handle \<open>d\<close> appends when it succeeds.\<close>

definition appends :: "nat \<Rightarrow> (cbb \<Rightarrow> bool \<times> cbb) \<Rightarrow> bytes \<Rightarrow> bool" where
  "appends d f xs \<longleftrightarrow> (\<forall>s s'. ready d s \<longrightarrow> f s = (True, s') \<longrightarrow>
     ready d s' \<and> cbb_out s' = cbb_out s @ xs \<and> chain s' = chain s)"

lemma appendsD:
  "appends d f xs \<Longrightarrow> ready d s \<Longrightarrow> f s = (True, s') \<Longrightarrow>
     ready d s' \<and> cbb_out s' = cbb_out s @ xs \<and> chain s' = chain s"
  unfolding appends_def by blast

lemma appends_put_all: "appends d (put_all (CBB_add_u8 mem_ok d) bs) bs"
  unfolding appends_def using put_all_u8 by blast

lemma appends_u8: "appends d (CBB_add_u8 mem_ok d b) [b]"
  unfolding appends_def
  using cbb_sink.put_out cbb_sink.put_ready CBB_add_u8_chain by blast

lemma appends_id: "appends d (\<lambda>s. (True, s)) []"
  by (simp add: appends_def)

lemma appends_all_ok:
  "list_all2 (appends d) fs xss \<Longrightarrow> appends d (all_ok fs) (concat xss)"
proof (induction fs xss rule: list_all2_induct)
  case Nil
  then show ?case by (simp add: appends_def)
next
  case (Cons f fs xs xss)
  show ?case
    unfolding appends_def
  proof (intro allI impI)
    fix s s' assume s: "ready d s" "all_ok (f # fs) s = (True, s')"
    then obtain t where t: "f s = (True, t)" "all_ok fs t = (True, s')"
      unfolding all_ok_Cons_True by blast
    from appendsD [OF Cons(1) s(1) t(1)] appendsD [OF Cons(3) _ t(2)]
    show "ready d s' \<and> cbb_out s' = cbb_out s @ concat (xs # xss) \<and> chain s' = chain s" by simp
  qed
qed

lemma appends_bytes:
  "unat len \<le> length data \<Longrightarrow> appends d (CBB_add_bytes mem_ok d data len) (take (unat len) data)"
  unfolding appends_def
proof (intro allI impI)
  fix s s'
  assume "unat len \<le> length data" "ready d s" "CBB_add_bytes mem_ok d data len s = (True, s')"
  with CBB_add_bytes_ok [of mem_ok d data len s s'] ready_cbb_ok [of d s]
  show "ready d s' \<and> cbb_out s' = cbb_out s @ take (unat len) data \<and> chain s' = chain s" by simp
qed

text \<open>An element: open it, write its contents through the child, flush the parent.\<close>

lemma asn1_element_written:
  assumes "cbb_ok s" "CBB_add_asn1 mem_ok d tag s = (True, t)" "f t = (True, u)" "appends (Suc d) f c"
    "CBB_flush mem_ok d u = (True, s')"
  shows "ready d s' \<and> chain s' = take d (chain s) \<and> length c \<le> 0xfffffffe \<and>
    cbb_out s' = spec_close (cbb_out s) (drop d (chain s)) @ der_element tag c"
proof -
  let ?pre = "spec_close (cbb_out s) (drop d (chain s)) @ der_tag tag"
  from CBB_add_asn1_ok [OF assms(2,1)] obtain ch where
    t: "ready (Suc d) t" "chain t = take d (chain s) @ [ch]" "pending_is_asn1 ch" "pending_len_len ch = 1"
      "unat (offset ch) = length ?pre" "cbb_out t = ?pre @ [0]"
    by auto
  from appendsD [OF assms(4) t(1) assms(3)] have
    u: "ready (Suc d) u" "cbb_out u = ?pre @ [0] @ c" "chain u = chain t" using t(6) by simp_all
  note f = CBB_flush_ok [OF assms(5)]
  have d: "length (take d (chain s)) = d" using t(1,2) by (simp add: ready_iff)
  then have dr: "drop d (chain u) = [ch]" "take d (chain u) = take d (chain s)"
    using u(3) t(2) by simp_all
  from f u(1) dr have s': "ready d s'" "chain s' = take d (chain s)"
    "cbb_out s' = spec_close (?pre @ [0] @ c) [ch]" "chain_fits (?pre @ [0] @ c) [ch]"
    by (simp_all add: ready_cbb_ok u(2) del: spec_close.simps chain_fits.simps)
  have "length c \<le> 0xfffffffe"
    using s'(4) t(3,4,5) by (simp add: fits_prefix_def)
  with s' show ?thesis
    using spec_close_innermost(1) [OF t(3,4,5)] by (simp add: der_element_def)
qed

lemma CBB_add_asn1_bool_ok:
  assumes "CBB_add_asn1_bool mem_ok d v s = (True, s')" "cbb_ok s"
  shows "ready d s' \<and> chain s' = take d (chain s) \<and>
    cbb_out s' = spec_close (cbb_out s) (drop d (chain s)) @ der_element CBS_ASN1_BOOLEAN [if v then 0xff else 0]"
proof -
  from assms(1) obtain t u where "CBB_add_asn1 mem_ok d CBS_ASN1_BOOLEAN s = (True, t)"
    "CBB_add_u8 mem_ok (Suc d) (if v then 0xff else 0) t = (True, u)" "CBB_flush mem_ok d u = (True, s')"
    unfolding CBB_add_asn1_bool_def all_ok_Cons_True by auto
  from asn1_element_written [OF assms(2) this(1,2) appends_u8 this(3)] show ?thesis by simp
qed

lemma CBB_add_asn1_octet_string_ok:
  assumes "CBB_add_asn1_octet_string mem_ok d data len s = (True, s')" "cbb_ok s" "unat len \<le> length data"
  shows "ready d s' \<and> chain s' = take d (chain s) \<and> length (take (unat len) data) \<le> 0xfffffffe \<and>
    cbb_out s' = spec_close (cbb_out s) (drop d (chain s)) @ der_element CBS_ASN1_OCTETSTRING (take (unat len) data)"
proof -
  from assms(1) obtain t u where "CBB_add_asn1 mem_ok d CBS_ASN1_OCTETSTRING s = (True, t)"
    "CBB_add_bytes mem_ok (Suc d) data len t = (True, u)" "CBB_flush mem_ok d u = (True, s')"
    unfolding CBB_add_asn1_octet_string_def all_ok_Cons_True by auto
  from asn1_element_written [OF assms(2) this(1,2) appends_bytes [OF assms(3)] this(3)] show ?thesis .
qed

section \<open>ASN.1 integers\<close>

fun strip_zeros :: "bytes \<Rightarrow> bytes" where
  "strip_zeros [] = []"
| "strip_zeros (b # bs) = (if b = 0 then strip_zeros bs else b # bs)"

text \<open>The octets of a non-negative integer: no leading zeros, one if the top bit is set.\<close>

definition uint_octets :: "bytes \<Rightarrow> bytes" where
  "uint_octets bs = (case strip_zeros bs of [] \<Rightarrow> []
     | b # ds \<Rightarrow> (if b AND 0x80 \<noteq> 0 then 0 # b # ds else b # ds))"

lemma uint_octets_simps [simp]:
  "uint_octets [] = []"
  "uint_octets (b # bs) = (if b = 0 then uint_octets bs else if b AND 0x80 \<noteq> 0 then 0 # b # bs else b # bs)"
  by (simp_all add: uint_octets_def)

lemma uint_octets_int_octets:
  "(if uint_octets bs = [] then [0] else uint_octets bs) = int_octets (int (be_val bs))"
proof (induction bs)
  case Nil
  then show ?case by (simp add: int_octets.simps)
next
  case (Cons b bs)
  show ?case
  proof (cases "b = 0")
    case True
    then show ?thesis using Cons by (simp add: be_val_Cons split: if_splits)
  next
    case nz: False
    let ?ds = "if b AND 0x80 \<noteq> 0 then 0 # b # bs else b # bs"
    have "minimal_int ?ds" using nz by (auto simp: minimal_int_def)
    moreover have "?ds ! 0 AND 0x80 = 0" by simp
    moreover have "be_val ?ds = be_val (b # bs)" by (simp add: be_val_Cons)
    ultimately have "?ds = int_octets (int (be_val (b # bs)))"
      using minimal_int_be_val [of ?ds] by simp
    with nz show ?thesis by simp
  qed
qed

lemma be_bytes_Cons: "be_bytes (Suc i) n = word_of_nat (n div 256 ^ i) # be_bytes i n"
  by (simp add: be_bytes_def)

lemma octet_of_value: "(ucast (drop_bit (8 * i) (v :: u64)) :: byte) = word_of_nat (unat v div 256 ^ i)"
proof -
  have "unat (drop_bit (8 * i) v) = unat v div 256 ^ i" by (simp only: unat_drop_bit power_mult) simp
  then show ?thesis by (simp only: word_nat_lift unat_ucast_narrow unat_of_nat)
qed

lemma uint64_octets_started:
  "uint64_octets mem_ok d v True i s =
    (case put_all (CBB_add_u8 mem_ok d) (be_bytes i (unat v)) s of (ok, s') \<Rightarrow> ((ok, True), s'))"
  by (induction i arbitrary: s)
    (simp_all add: Let_def octet_of_value be_bytes_Cons split: prod.splits bool.splits)

lemma uint64_octets_eq:
  "uint64_octets mem_ok d v False i s = ((True, st), s') \<Longrightarrow>
    put_all (CBB_add_u8 mem_ok d) (uint_octets (be_bytes i (unat v))) s = (True, s') \<and>
    (st \<longleftrightarrow> uint_octets (be_bytes i (unat v)) \<noteq> [])"
proof (induction i arbitrary: s)
  case 0
  then show ?case by simp
next
  case (Suc i)
  then show ?case
    by (auto simp: Let_def octet_of_value be_bytes_Cons uint64_octets_started
        split: prod.splits bool.splits if_splits)
qed

lemma CBB_add_asn1_uint64_ok:
  assumes "CBB_add_asn1_uint64 mem_ok d v s = (True, s')" "cbb_ok s"
  shows "ready d s' \<and> chain s' = take d (chain s) \<and>
    cbb_out s' = spec_close (cbb_out s) (drop d (chain s))
      @ der_element CBS_ASN1_INTEGER (int_octets (int (unat v)))"
proof -
  let ?bs = "uint_octets (be_bytes 8 (unat v))"
  from assms(1) obtain t st u w where t: "CBB_add_asn1 mem_ok d CBS_ASN1_INTEGER s = (True, t)"
    "uint64_octets mem_ok (Suc d) v False 8 t = ((True, st), u)"
    "(if \<not> st then CBB_add_u8 mem_ok (Suc d) 0 u else (True, u)) = (True, w)"
    "CBB_flush mem_ok d w = (True, s')"
    unfolding CBB_add_asn1_uint64_def
    by (auto split: prod.splits bool.splits if_splits)
  note o = uint64_octets_eq [OF t(2)]
  have w: "put_all (CBB_add_u8 mem_ok (Suc d)) (if ?bs = [] then [0] else ?bs) t = (True, w)"
    using o t(3) by (cases "?bs = []") auto
  have "be_val (be_bytes 8 (unat v)) = unat v"
    using unsigned_less [of v, where 'a = nat] by (simp add: be_val_be_bytes)
  then have c: "(if ?bs = [] then [0] else ?bs) = int_octets (int (unat v))"
    using uint_octets_int_octets [of "be_bytes 8 (unat v)"] by simp
  from asn1_element_written [OF assms(2) t(1) w appends_put_all t(4)] show ?thesis
    unfolding c by blast
qed


text \<open>Negative values: the bytes from the first one that is not mere sign extension.\<close>

lemma tc_val_drop_ff:
  assumes "ds ! 0 AND 0x80 \<noteq> 0" "ds \<noteq> []"
  shows "tc_val (0xff # ds) = tc_val ds"
  using assms by (simp add: tc_val_def be_val_Cons)

lemma int64_start_le: "int64_start u k \<le> k"
  by (induction k) auto

lemma int64_start_minimal:
  "k < length u \<Longrightarrow> u ! k AND 0x80 \<noteq> 0 \<Longrightarrow>
    minimal_int (rev (take (Suc (int64_start u k)) u)) \<and>
    tc_val (rev (take (Suc (int64_start u k)) u)) = tc_val (rev (take (Suc k) u))"
proof (induction k)
  case 0
  then show ?case by (simp add: minimal_int_def)
next
  case (Suc k)
  have r: "rev (take (Suc (Suc k)) u) = u ! Suc k # u ! k # rev (take k u)"
    "rev (take (Suc k) u) = u ! k # rev (take k u)"
    using Suc.prems(1) by (simp_all add: take_Suc_conv_app_nth)
  show ?case
  proof (cases "u ! Suc k = 0xff \<and> u ! k AND 0x80 \<noteq> 0")
    case True
    with Suc.IH Suc.prems(1) tc_val_drop_ff [of "u ! k # rev (take k u)"] show ?thesis
      by (simp add: r)
  next
    case False
    then have s: "int64_start u (Suc k) = Suc k" by (simp only: int64_start.simps if_False)
    show ?thesis
      unfolding s r using False Suc.prems(2) by (auto simp: minimal_int_def)
  qed
qed

lemma rev_octets: "rev (map (\<lambda>i. ucast (drop_bit (8 * i) (v :: u64))) [0..<n]) = be_bytes n (unat v)"
  by (simp only: octet_of_value be_bytes_def)

lemma tc_val_be_bytes_sint: "tc_val (be_bytes 8 (unat (v :: u64))) = sint v"
proof -
  let ?ds = "be_bytes 8 (unat v)"
  have "sint (of_nat (le_val (rev ?ds @ replicate (8 - length ?ds) (if ?ds ! 0 AND 0x80 \<noteq> 0 then 0xff else 0))) :: u64)
      = tc_val ?ds"
    by (rule sign_extend_bytes) (simp_all add: be_bytes_def)
  moreover have "le_val (rev ?ds) = unat v"
    using le_val_rev [of ?ds] unsigned_less [of v, where 'a = nat] by (simp add: be_val_be_bytes)
  ultimately show ?thesis by simp
qed

lemma sint_nonneg_unat:
  assumes "0 \<le> sint (v :: u64)"
  shows "sint v = int (unat v)"
proof -
  let ?ds = "be_bytes 8 (unat v)"
  have bv: "be_val ?ds = unat v"
    using unsigned_less [of v, where 'a = nat] by (simp add: be_val_be_bytes)
  have "int (unat v) < 256 ^ 8"
    using unsigned_less [of v, where 'a = int] by simp
  then show ?thesis
    using assms tc_val_be_bytes_sint [of v]
    by (cases "?ds ! 0 AND 0x80 = 0") (simp_all add: tc_val_def bv)
qed

lemma negative_top_octet:
  "\<not> 0 \<le>s v \<Longrightarrow> (ucast (drop_bit 56 (v :: u64)) :: byte) AND 0x80 \<noteq> 0"
proof -
  assume "\<not> 0 \<le>s v"
  then have "bit v 63" using bit_last_iff [of v] by (simp add: word_sle_eq)
  then have "bit (ucast (drop_bit 56 v) :: byte) 7" by (simp add: bit_simps)
  then show ?thesis using bit_iff_and_push_bit_not_eq_0 [of "ucast (drop_bit 56 v) :: byte" 7] by simp
qed

lemma CBB_add_asn1_int64_ok:
  assumes "CBB_add_asn1_int64 mem_ok d v s = (True, s')" "cbb_ok s"
  shows "ready d s' \<and> chain s' = take d (chain s) \<and>
    cbb_out s' = spec_close (cbb_out s) (drop d (chain s))
      @ der_element CBS_ASN1_INTEGER (int_octets (sint v))"
proof (cases "0 \<le>s v")
  case True
  then have "0 \<le> sint v" by (simp add: word_sle_eq)
  then have "sint v = int (unat v)" by (rule sint_nonneg_unat)
  with True assms CBB_add_asn1_uint64_ok show ?thesis by (simp add: CBB_add_asn1_int64_def)
next
  case False
  let ?u = "map (\<lambda>i. ucast (drop_bit (8 * i) v) :: byte) [0..<8]"
  let ?k = "int64_start ?u 7"
  let ?c = "rev (take (Suc ?k) ?u)"
  have len: "length ?u = 8" by simp
  have k: "?k < 8" using int64_start_le [of ?u 7] by simp
  have seq: "map (\<lambda>i. CBB_add_u8 mem_ok (Suc d) (?u ! i)) (rev [0..<Suc ?k]) = map (CBB_add_u8 mem_ok (Suc d)) ?c"
  proof -
    have "?c = map ((!) ?u) (rev [0..<Suc ?k])"
      using k len by (simp only: rev_map [symmetric] rev_is_rev_conv)
        (rule nth_equalityI, simp_all del: upt_Suc)
    then show ?thesis by (simp only: map_map o_def)
  qed
  from assms(1) False obtain t u where t: "CBB_add_asn1 mem_ok d CBS_ASN1_INTEGER s = (True, t)"
    "put_all (CBB_add_u8 mem_ok (Suc d)) ?c t = (True, u)" "CBB_flush mem_ok d u = (True, s')"
    unfolding CBB_add_asn1_int64_def Let_def seq put_all_def
    by (auto simp: all_ok_append simp del: upt_Suc split: prod.splits bool.splits)
  have "?u ! 7 AND 0x80 \<noteq> 0" using negative_top_octet [OF False] by simp
  note m = int64_start_minimal [of 7 ?u, OF _ this]
  have "tc_val ?c = tc_val (rev ?u)" using m len by simp
  also have "\<dots> = sint v" by (simp only: rev_octets tc_val_be_bytes_sint)
  finally have "?c = int_octets (sint v)" using tc_val_minimal [of ?c] m len by simp
  with asn1_element_written [OF assms(2) t(1,2) appends_put_all t(3)] show ?thesis by simp
qed

section \<open>Length-prefixed contents\<close>

lemma ready_open_child:
  assumes "ready d u" "ready d v" "chain v = chain u" "cbb_out v = cbb_out u @ zs"
    "unat (offset c) = length (cbb_out u)" "length zs = unat (pending_len_len c)"
    "0 < unat (pending_len_len c)" "unat (pending_len_len c) \<le> 8" "pending_is_asn1 c \<longrightarrow> pending_len_len c = 1"
  shows "ready (Suc d) (v\<lparr>chain := chain v @ [c]\<rparr>)"
proof -
  from assms(1) have u: "chain_ok 0 (chain u) (length (cbb_out u))"
    by (auto simp: ready_iff cbb_ok_def cbb_out_def)
  from assms(2) obtain b where b: "base v = Some b" "\<not> error b" "buf_ok b" "length (chain v) = d"
    by (auto simp: ready_iff cbb_ok_def)
  have lb: "length (buf b) = length (cbb_out u) + unat (pending_len_len c)"
    using assms(4,6) b(1) by (simp add: cbb_out_def)
  have "chain_ok (length (cbb_out u)) [c] (length (buf b))" using assms(5,7-9) lb by simp
  with u have "chain_ok 0 (chain v @ [c]) (length (buf b))"
    unfolding assms(3) by (auto simp only: chain_ok_append)
  with b show ?thesis by (simp add: ready_iff cbb_ok_def)
qed

lemma cbb_add_length_prefixed_ok:
  assumes "cbb_add_length_prefixed mem_ok d n s = (True, s')" "cbb_ok s" "0 < unat n" "unat n \<le> 8"
  shows "\<exists>c. ready (Suc d) s' \<and> chain s' = take d (chain s) @ [c] \<and>
    \<not> pending_is_asn1 c \<and> pending_len_len c = n \<and>
    unat (offset c) = length (spec_close (cbb_out s) (drop d (chain s))) \<and>
    cbb_out s' = spec_close (cbb_out s) (drop d (chain s)) @ replicate (unat n) 0"
proof -
  from assms(1) obtain t b b' where
    t: "CBB_flush mem_ok d s = (True, t)" "base t = Some b" "cbb_buffer_add mem_ok (ucast n) b = (True, b')"
      "s' = (t\<lparr>base := Some b'\<rparr>)\<lparr>chain := take d (chain t) @
         [\<lparr>offset = base_len b, pending_len_len = n, pending_is_asn1 = False\<rparr>]\<rparr>"
    by (auto simp: cbb_add_length_prefixed_def open_child_def on_base_def
        split: prod.splits bool.splits option.splits)
  note f = CBB_flush_ok [OF t(1) assms(2)]
  then have rt: "ready d t" and b: "buf_ok b" using ready_buf_ok t(2) by blast+
  note ao = add_ok [OF t(3) b]
  let ?v = "t\<lparr>base := Some b'\<rparr>"
  let ?c = "\<lparr>offset = base_len b, pending_len_len = n, pending_is_asn1 = False\<rparr>"
  have v: "ready d ?v \<and> cbb_out ?v = cbb_out t @ replicate (unat n) 0"
    by (rule ready_append [OF rt t(2)]) (use ao in simp_all)
  have off: "unat (base_len b) = length (cbb_out t)"
    using buf_ok_len [OF b] t(2) by (simp add: cbb_out_def)
  have "ready (Suc d) (?v\<lparr>chain := chain ?v @ [?c]\<rparr>)"
    by (rule ready_open_child [OF rt _ _ _ _ _ _ _, of ?v "replicate (unat n) 0"])
      (use v off assms(3,4) in simp_all)
  moreover have "take d (chain t) = chain t" using ready_cbb_ok [OF rt] by simp
  ultimately have "ready (Suc d) s'" by (simp add: t(4))
  with f v off t(4) \<open>take d (chain t) = chain t\<close> show ?thesis
    by (intro exI [of _ ?c]) (simp add: cbb_out_def)
qed

lemma prefixed_written:
  assumes "cbb_ok s" "cbb_add_length_prefixed mem_ok d n s = (True, t)" "f t = (True, u)"
    "appends (Suc d) f c" "CBB_flush mem_ok d u = (True, s')" "0 < unat n" "unat n \<le> 8"
  shows "ready d s' \<and> chain s' = take d (chain s) \<and> length c < 256 ^ unat n \<and>
    cbb_out s' = spec_close (cbb_out s) (drop d (chain s)) @ be_bytes (unat n) (length c) @ c"
proof -
  let ?pre = "spec_close (cbb_out s) (drop d (chain s))" and ?zs = "replicate (unat n) (0 :: byte)"
  from cbb_add_length_prefixed_ok [OF assms(2,1,6,7)] obtain ch where
    t: "ready (Suc d) t" "chain t = take d (chain s) @ [ch]" "\<not> pending_is_asn1 ch" "pending_len_len ch = n"
      "unat (offset ch) = length ?pre" "cbb_out t = ?pre @ ?zs"
    by auto
  from appendsD [OF assms(4) t(1) assms(3)] have
    u: "ready (Suc d) u" "cbb_out u = ?pre @ ?zs @ c" "chain u = chain t" using t(6) by simp_all
  note f = CBB_flush_ok [OF assms(5)]
  have d: "length (take d (chain s)) = d" using t(1,2) by (simp add: ready_iff)
  then have dr: "drop d (chain u) = [ch]" "take d (chain u) = take d (chain s)"
    using u(3) t(2) by simp_all
  from f u(1) dr have s': "ready d s'" "chain s' = take d (chain s)"
    "cbb_out s' = spec_close (?pre @ ?zs @ c) [ch]" "chain_fits (?pre @ ?zs @ c) [ch]"
    by (simp_all add: ready_cbb_ok u(2) del: spec_close.simps chain_fits.simps)
  have "length c < 256 ^ unat n"
    using s'(4) t(3,4,5) by (simp add: fits_prefix_def)
  with s' show ?thesis
    using spec_close_innermost(2) [OF t(3) _ t(5), of ?zs c] t(4) by simp
qed

section \<open>Reading back what was written\<close>

lemma cbs_get_length_prefixed_be:
  assumes "n \<le> 8" "length c < 256 ^ n"
  shows "cbs_get_length_prefixed n (be_bytes n (length c) @ c @ r) = (Some c, r)"
proof -
  have "unat (be_word (be_bytes n (length c))) = length c"
    using assms by (simp add: unat_be_word be_val_be_bytes)
  then show ?thesis by (simp add: cbs_get_length_prefixed_def cbs_get_u_eq CBS_get_bytes_eq)
qed

lemma cbs_get_length_prefixed_sound:
  assumes "cbs_get_length_prefixed n cbs = (Some c, r)" "n \<le> 8"
  shows "cbs = be_bytes n (length c) @ c @ r \<and> length c < 256 ^ n"
proof -
  let ?p = "take n cbs"
  from assms(1) have g: "n \<le> length cbs" "CBS_get_bytes (unat (be_word ?p)) (drop n cbs) = (Some c, r)"
    by (auto simp: cbs_get_length_prefixed_def cbs_get_u_eq split: if_splits)
  have u: "unat (be_word ?p) = be_val ?p" using assms(2) by (intro unat_be_word) simp
  from g(2) have c: "c = take (be_val ?p) (drop n cbs)" "r = drop (be_val ?p) (drop n cbs)"
      "be_val ?p \<le> length (drop n cbs)"
    by (auto simp: CBS_get_bytes_eq u split: if_splits)
  then have l: "length c = be_val ?p" by simp
  have "be_bytes n (length c) = ?p"
    using be_bytes_be_val [of ?p] g(1) l by simp
  moreover have "length c < 256 ^ n" using be_val_less [of ?p] g(1) l by simp
  ultimately show ?thesis using c by (metis append_take_drop_id)
qed

section \<open>Properties\<close>

text \<open>A fresh builder, for the examples.\<close>

definition fresh_cbb :: cbb where
  "fresh_cbb = snd (CBB_init (\<lambda>_. True) 4)"

lemma ready_fresh_cbb: "ready 0 fresh_cbb"
  by code_simp

text \<open>C8: flushing a handle implements the abstract specification: it replaces every pending prefix
  below the handle by the length of what it encloses, innermost first, moving the contents when an
  ASN.1 length needs more than the one byte reserved for it, closes those children and keeps the
  builder well formed.\<close>

theorem CBB_flush_refines:
  assumes "CBB_flush mem_ok d s = (True, s')" "cbb_ok s"
  shows "ready d s' \<and> cbb_out s' = spec_close (cbb_out s) (drop d (chain s)) \<and>
    chain s' = take d (chain s) \<and> chain_fits (cbb_out s) (drop d (chain s))"
  by (rule CBB_flush_ok [OF assms])

theorem CBB_flush_refines_witness:
  "let u = snd (all_ok [CBB_add_asn1 (\<lambda>_. True) 0 0x20000010, CBB_add_asn1_bool (\<lambda>_. True) 1 True] fresh_cbb);
       s' = snd (CBB_flush (\<lambda>_. True) 0 u)
   in ready 0 s' \<and> cbb_out s' = spec_close (cbb_out u) (drop 0 (chain u)) \<and>
     chain s' = take 0 (chain u) \<and> chain_fits (cbb_out u) (drop 0 (chain u))"
  unfolding Let_def by (rule CBB_flush_refines [where mem_ok = "\<lambda>_. True"]) code_simp+

text \<open>An unsigned integer written with \<open>CBB_add_asn1_uint64\<close> appends one element that
  \<open>CBS_get_asn1_uint64\<close> reads back, whatever follows it.\<close>

theorem CBB_asn1_uint64_roundtrip:
  assumes "ready d s" "CBB_add_asn1_uint64 mem_ok d v s = (True, s')"
  shows "ready d s' \<and> (\<exists>e. cbb_out s' = cbb_out s @ e \<and> CBS_get_asn1_uint64 (e @ r) = (Some v, r))"
proof -
  let ?e = "der_element CBS_ASN1_INTEGER (int_octets (int (unat v)))"
  have "ready d s' \<and> cbb_out s' = cbb_out s @ ?e"
    using CBB_add_asn1_uint64_ok [OF assms(2)] ready_cbb_ok [OF assms(1)] by simp
  moreover have "CBS_get_asn1_uint64 (?e @ r) = (Some v, r)" by (simp only: CBS_get_asn1_uint64_iff_gen)
  ultimately show ?thesis by blast
qed

theorem CBB_asn1_uint64_roundtrip_witness:
  "let s' = snd (CBB_add_asn1_uint64 (\<lambda>_. True) 0 300 fresh_cbb)
   in ready 0 s' \<and> (\<exists>e. cbb_out s' = cbb_out fresh_cbb @ e \<and> CBS_get_asn1_uint64 (e @ [7]) = (Some 300, [7]))"
  unfolding Let_def
  by (rule CBB_asn1_uint64_roundtrip [where mem_ok = "\<lambda>_. True"]) code_simp+

text \<open>A signed integer written with \<open>CBB_add_asn1_int64\<close> appends one element that
  \<open>CBS_get_asn1_int64\<close> reads back, negative values included.\<close>

theorem CBB_asn1_int64_roundtrip:
  assumes "ready d s" "CBB_add_asn1_int64 mem_ok d v s = (True, s')"
  shows "ready d s' \<and> (\<exists>e. cbb_out s' = cbb_out s @ e \<and> CBS_get_asn1_int64 (e @ r) = (Some v, r))"
proof -
  let ?e = "der_element CBS_ASN1_INTEGER (int_octets (sint v))"
  have "ready d s' \<and> cbb_out s' = cbb_out s @ ?e"
    using CBB_add_asn1_int64_ok [OF assms(2)] ready_cbb_ok [OF assms(1)] by simp
  moreover have "CBS_get_asn1_int64 (?e @ r) = (Some v, r)" by (simp only: CBS_get_asn1_int64_iff_gen)
  ultimately show ?thesis by blast
qed

theorem CBB_asn1_int64_roundtrip_witness:
  "let s' = snd (CBB_add_asn1_int64 (\<lambda>_. True) 0 (- 300) fresh_cbb)
   in ready 0 s' \<and> (\<exists>e. cbb_out s' = cbb_out fresh_cbb @ e \<and> CBS_get_asn1_int64 (e @ [7]) = (Some (- 300), [7]))"
  unfolding Let_def
  by (rule CBB_asn1_int64_roundtrip [where mem_ok = "\<lambda>_. True"]) code_simp+

text \<open>Contents written through a child with an \<open>n\<close>-byte length prefix and then flushed are
  read back by the length-prefixed reader, and flushing succeeds only when the prefix can hold
  their length.\<close>

theorem CBB_length_prefixed_roundtrip:
  assumes "ready d s" "cbb_add_length_prefixed mem_ok d n s = (True, t)" "0 < unat n" "unat n \<le> 8"
    "CBB_add_bytes mem_ok (Suc d) c (of_nat (length c)) t = (True, u)" "length c < 2 ^ 64"
    "CBB_flush mem_ok d u = (True, s')"
  shows "length c < 256 ^ unat n \<and> ready d s' \<and>
    (\<exists>e. cbb_out s' = cbb_out s @ e \<and> cbs_get_length_prefixed (unat n) (e @ r) = (Some c, r))"
proof -
  have len: "unat (of_nat (length c) :: u64) = length c" using assms(6) by (simp add: unat_of_nat)
  have a: "appends (Suc d) (CBB_add_bytes mem_ok (Suc d) c (of_nat (length c))) c"
    using appends_bytes [of "of_nat (length c)" c] by (simp add: len)
  note w = prefixed_written [OF _ assms(2,5) a assms(7,3,4)]
  then have "ready d s'" "length c < 256 ^ unat n"
      "cbb_out s' = cbb_out s @ be_bytes (unat n) (length c) @ c"
    using ready_cbb_ok [OF assms(1)] by simp_all
  with cbs_get_length_prefixed_be [OF assms(4), of c r] show ?thesis
    by (intro conjI exI [of _ "be_bytes (unat n) (length c) @ c"]) simp_all
qed

theorem CBB_length_prefixed_roundtrip_witness:
  "let t = snd (cbb_add_length_prefixed (\<lambda>_. True) 0 2 fresh_cbb);
       u = snd (CBB_add_bytes (\<lambda>_. True) 1 [9, 8, 7] 3 t);
       s' = snd (CBB_flush (\<lambda>_. True) 0 u)
   in length [9, 8, 7 :: byte] < 256 ^ unat (2 :: byte) \<and> ready 0 s' \<and>
     (\<exists>e. cbb_out s' = cbb_out fresh_cbb @ e \<and> cbs_get_length_prefixed (unat (2 :: byte)) (e @ [1]) = (Some [9, 8, 7], [1]))"
  unfolding Let_def
  by (rule CBB_length_prefixed_roundtrip [where mem_ok = "\<lambda>_. True" and d = 0
        and t = "snd (cbb_add_length_prefixed (\<lambda>_. True) 0 2 fresh_cbb)"
        and u = "snd (CBB_add_bytes (\<lambda>_. True) 1 [9, 8, 7] 3
          (snd (cbb_add_length_prefixed (\<lambda>_. True) 0 2 fresh_cbb)))"])
    (code_simp, code_simp, simp, simp, code_simp, simp, code_simp)

end
