(* ===== verification/Ber.thy ===== *)
theory Ber
  imports Cbb_Spec
begin

text \<open>
  \<open>crypto/bytestring/ber.c\<close>: conversion of BER, with indefinite lengths and strings in pieces, to DER.
\<close>

section \<open>Elements in BER\<close>

definition CBS_ASN1_BITSTRING :: u32 where "CBS_ASN1_BITSTRING = 0x3"
definition CBS_ASN1_UTF8STRING :: u32 where "CBS_ASN1_UTF8STRING = 0xc"
definition CBS_ASN1_NUMERICSTRING :: u32 where "CBS_ASN1_NUMERICSTRING = 0x12"
definition CBS_ASN1_PRINTABLESTRING :: u32 where "CBS_ASN1_PRINTABLESTRING = 0x13"
definition CBS_ASN1_T61STRING :: u32 where "CBS_ASN1_T61STRING = 0x14"
definition CBS_ASN1_VIDEOTEXSTRING :: u32 where "CBS_ASN1_VIDEOTEXSTRING = 0x15"
definition CBS_ASN1_IA5STRING :: u32 where "CBS_ASN1_IA5STRING = 0x16"
definition CBS_ASN1_GRAPHICSTRING :: u32 where "CBS_ASN1_GRAPHICSTRING = 0x19"
definition CBS_ASN1_VISIBLESTRING :: u32 where "CBS_ASN1_VISIBLESTRING = 0x1a"
definition CBS_ASN1_GENERALSTRING :: u32 where "CBS_ASN1_GENERALSTRING = 0x1b"
definition CBS_ASN1_UNIVERSALSTRING :: u32 where "CBS_ASN1_UNIVERSALSTRING = 0x1c"
definition CBS_ASN1_BMPSTRING :: u32 where "CBS_ASN1_BMPSTRING = 0x1e"

definition string_tags :: "u32 list" where
  "string_tags = [CBS_ASN1_BITSTRING, CBS_ASN1_OCTETSTRING, CBS_ASN1_UTF8STRING,
     CBS_ASN1_NUMERICSTRING, CBS_ASN1_PRINTABLESTRING, CBS_ASN1_T61STRING, CBS_ASN1_VIDEOTEXSTRING,
     CBS_ASN1_IA5STRING, CBS_ASN1_GRAPHICSTRING, CBS_ASN1_VISIBLESTRING, CBS_ASN1_GENERALSTRING,
     CBS_ASN1_UNIVERSALSTRING, CBS_ASN1_BMPSTRING]"

definition is_string_type :: "u32 \<Rightarrow> bool" where
  "is_string_type tag \<longleftrightarrow> List.member string_tags (tag AND NOT CBS_ASN1_CONSTRUCTED)"

lemmas string_tag_values = string_tags_def CBS_ASN1_BITSTRING_def CBS_ASN1_OCTETSTRING_def
  CBS_ASN1_UTF8STRING_def CBS_ASN1_NUMERICSTRING_def CBS_ASN1_PRINTABLESTRING_def CBS_ASN1_T61STRING_def
  CBS_ASN1_VIDEOTEXSTRING_def CBS_ASN1_IA5STRING_def CBS_ASN1_GRAPHICSTRING_def
  CBS_ASN1_VISIBLESTRING_def CBS_ASN1_GENERALSTRING_def CBS_ASN1_UNIVERSALSTRING_def CBS_ASN1_BMPSTRING_def

lemma string_type_nonzero: "is_string_type tag \<Longrightarrow> tag AND NOT CBS_ASN1_CONSTRUCTED \<noteq> 0"
  by (auto simp: is_string_type_def string_tag_values)

definition kMaxDepth :: u32 where
  "kMaxDepth = 2048"

text \<open>The test for an indefinite length, which both walks make.\<close>

definition is_indefinite :: "nat \<Rightarrow> cbs \<Rightarrow> bool" where
  "is_indefinite header_len contents \<longleftrightarrow>
     CBS_len contents = header_len \<and> header_len > 0 \<and> CBS_data contents ! (header_len - 1) = 0x80"

definition is_eoc :: "nat \<Rightarrow> cbs \<Rightarrow> bool" where
  "is_eoc header_len contents \<longleftrightarrow>
     header_len = 2 \<and> CBS_len contents = 2 \<and> CBS_data contents = [0, 0]"

lemma ber_element_indefinite:
  assumes "tag AND CBS_ASN1_CONSTRUCTED \<noteq> 0"
  shows "CBS_get_any_ber_asn1_element (der_tag tag @ 0x80 # r) =
    (Some (der_tag tag @ [0x80], tag, length (der_tag tag) + 1), r)"
  using assms parse_asn1_tag_complete [of tag "0x80 # r"]
  by (simp add: CBS_get_any_ber_asn1_element_def cbs_get_any_asn1_element_def
      cbs_get_u_eq Let_def CBS_get_bytes_eq CBS_len_def)

lemma ber_element_definite:
  assumes "parse_asn1_tag cbs = (Some t, b # h)" "b \<noteq> 0x80 \<or> t AND CBS_ASN1_CONSTRUCTED = 0"
  shows "cbs_get_any_asn1_element True cbs = cbs_get_any_asn1_element False cbs"
proof (cases "b AND 0x80 = 0")
  case True
  with assms(1) show ?thesis by (simp add: cbs_get_any_asn1_element_def Let_def)
next
  case False
  have "unat (b AND 0x7f) = 0 \<longleftrightarrow> b = 0x80"
    using byte_high_form [OF False] unat_of_nat [of 128, where 'a = 8] by (auto simp: word_unat_eq_iff)
  with assms False show ?thesis by (auto simp: cbs_get_any_asn1_element_def Let_def)
qed


text \<open>What the reader delivers: an element in DER, or the header of an indefinite-length element.\<close>

lemma ber_element_cases:
  assumes "CBS_get_any_ber_asn1_element cbs = (Some (out, tag, hl), r)"
  obtains (definite) c where "cbs = der_element tag c @ r" "out = der_element tag c"
      "hl = length (der_tag tag @ der_len (length c))" "length c < 2 ^ 32"
  | (indefinite) "cbs = der_tag tag @ 0x80 # r" "out = der_tag tag @ [0x80]" "hl = length (der_tag tag) + 1"
      "tag AND CBS_ASN1_CONSTRUCTED \<noteq> 0"
proof (cases "\<exists>t h. parse_asn1_tag cbs = (Some t, 0x80 # h) \<and> t AND CBS_ASN1_CONSTRUCTED \<noteq> 0")
  case True
  then obtain t h where p: "parse_asn1_tag cbs = (Some t, 0x80 # h)" "t AND CBS_ASN1_CONSTRUCTED \<noteq> 0"
    by blast
  from parse_asn1_tag_sound [OF p(1)] have cbs: "cbs = der_tag t @ 0x80 # h" .
  with assms ber_element_indefinite [OF p(2), of h] p(2) indefinite show ?thesis by auto
next
  case False
  obtain x y where p: "parse_asn1_tag cbs = (x, y)" by fastforce
  have "cbs_get_any_asn1_element True cbs = cbs_get_any_asn1_element False cbs"
  proof (cases x)
    case None
    with p show ?thesis by (simp add: any_element_no_header)
  next
    case (Some t)
    show ?thesis
    proof (cases y)
      case Nil
      with p Some show ?thesis by (simp add: any_element_no_header)
    next
      case (Cons b h)
      with p Some False show ?thesis by (intro ber_element_definite [of cbs t b h]) auto
    qed
  qed
  with assms have "CBS_get_any_asn1_element cbs = (Some (out, tag, hl), r)"
    by (simp add: CBS_get_any_ber_asn1_element_def CBS_get_any_asn1_element_def)
  then show ?thesis using definite by (auto simp: CBS_get_any_asn1_element_iff)
qed

lemma ber_element_fails: "CBS_get_any_ber_asn1_element cbs = (None, r) \<Longrightarrow> r = cbs"
  by (auto simp: CBS_get_any_ber_asn1_element_def cbs_get_any_asn1_element_def Let_def CBS_get_bytes_eq
      split: prod.splits option.splits if_splits)

lemma ber_element_shrinks:
  "CBS_get_any_ber_asn1_element cbs = (Some (out, tag, hl), r) \<Longrightarrow>
    cbs = out @ r \<and> 0 < hl \<and> hl \<le> length out"
  by (erule ber_element_cases) (auto simp: der_len_def)

section \<open>The search for BER\<close>

text \<open>\<open>found\<close> is what the last call inside has stored; a call starts with storing \<open>False\<close>.\<close>

function find_ber_loop :: "u32 \<Rightarrow> bool \<Rightarrow> cbs \<Rightarrow> bool option" where
  "find_ber_loop depth found cbs =
     (if CBS_len cbs = 0 then Some found
      else
        (case CBS_get_any_ber_asn1_element cbs of
           (None, cbs) \<Rightarrow> None
         | (Some (contents, tag, header_len), rest) \<Rightarrow>
             if is_indefinite header_len contents then Some True
             else if tag AND CBS_ASN1_CONSTRUCTED \<noteq> 0 then
               if is_string_type tag then Some True
               else
                 (case CBS_skip header_len contents of
                    (None, _) \<Rightarrow> None
                  | (Some _, contents) \<Rightarrow>
                      (case (if depth + 1 > kMaxDepth then None
                             else find_ber_loop (depth + 1) False contents) of
                         None \<Rightarrow> None
                       | Some found \<Rightarrow> find_ber_loop depth found rest))
             else find_ber_loop depth found rest))"
  by pat_completeness auto
termination
  by (relation "measure (\<lambda>(depth, found, cbs). length cbs)")
    (auto simp: CBS_skip_eq CBS_len_def split: if_splits dest!: sym [of "(Some _, _)"] ber_element_shrinks)

declare find_ber_loop.simps [simp del]

definition cbs_find_ber :: "cbs \<Rightarrow> u32 \<Rightarrow> bool option" where
  "cbs_find_ber cbs depth = (if depth > kMaxDepth then None else find_ber_loop depth False cbs)"

section \<open>The conversion\<close>

text \<open>
  Where the contents of an element go: the handle \<open>out_contents\<close> and \<open>child_string_tag\<close>.  \<open>d\<close> is the
  handle \<open>out\<close>.
\<close>

definition open_output ::
    "(u64 \<Rightarrow> bool) \<Rightarrow> nat \<Rightarrow> u32 \<Rightarrow> u32 \<Rightarrow> cbb \<Rightarrow> (nat \<times> u32) option \<times> cbb" where
  "open_output mem_ok d string_tag tag cbb =
     (if string_tag \<noteq> 0 then
        if tag AND NOT CBS_ASN1_CONSTRUCTED \<noteq> string_tag then (None, cbb)
        else (Some (d, string_tag), cbb)
      else
        let constructed_string = (tag AND CBS_ASN1_CONSTRUCTED \<noteq> 0 \<and> is_string_type tag);
            out_tag = (if constructed_string then tag AND NOT CBS_ASN1_CONSTRUCTED else tag);
            child_string_tag = (if constructed_string then out_tag else string_tag)
        in case CBB_add_asn1 mem_ok d out_tag cbb of
             (False, cbb) \<Rightarrow> (None, cbb)
           | (True, cbb) \<Rightarrow> (Some (Suc d, child_string_tag), cbb))"

type_synonym conversion = "(bool \<times> cbs \<times> cbb) option"

text \<open>
  The contents of an element: \<open>convert cbs eoc\<close> is the call of \<open>cbs_convert_ber\<close> for \<open>out_contents\<close>, and
  \<open>rest\<close> the input behind the element (behind its header, when its length is indefinite).
\<close>

definition convert_contents ::
  "(cbs \<Rightarrow> bool \<Rightarrow> conversion) \<Rightarrow> (u64 \<Rightarrow> bool) \<Rightarrow> nat \<Rightarrow> cbs \<Rightarrow> u32 \<Rightarrow> nat \<Rightarrow> cbs \<Rightarrow> cbb \<Rightarrow> conversion" where
  "convert_contents convert mem_ok out_contents contents tag header_len rest cbb =
     (if is_indefinite header_len contents then convert rest True
      else
        (case CBS_skip header_len contents of
           (None, _) \<Rightarrow> Some (False, rest, cbb)
         | (Some _, body) \<Rightarrow>
             if tag AND CBS_ASN1_CONSTRUCTED \<noteq> 0 then
               (case convert body False of
                  None \<Rightarrow> None
                | Some (ok, _, cbb) \<Rightarrow> Some (ok, rest, cbb))
             else
               (case CBB_add_bytes mem_ok out_contents (CBS_data body) (of_nat (CBS_len body)) cbb of
                  (ok, cbb) \<Rightarrow> Some (ok, rest, cbb))))"

lemma convert_contents_mono [partial_function_mono]:
  assumes "\<And>c e. mono_option (\<lambda>f. B f c e)"
  shows "mono_option (\<lambda>f. convert_contents (B f) mem_ok oc contents tag hl rest cbb)"
proof (cases "is_indefinite hl contents")
  case True
  with assms show ?thesis by (simp add: convert_contents_def)
next
  case False
  obtain x body where s: "CBS_skip hl contents = (x, body)" by fastforce
  have c: "mono_option (\<lambda>f. case B f body False of None \<Rightarrow> None | Some (ok, _, cbb) \<Rightarrow> Some (ok, rest, cbb))"
    by (rule case_option_mono [OF assms option.const_mono])
  show ?thesis
  proof (cases "x \<noteq> None \<and> tag AND CBS_ASN1_CONSTRUCTED \<noteq> 0")
    case True
    then obtain u where "x = Some u" "tag AND CBS_ASN1_CONSTRUCTED \<noteq> 0" by blast
    with c show ?thesis by (simp add: convert_contents_def False s)
  next
    case no: False
    then have "(\<lambda>f. convert_contents (B f) mem_ok oc contents tag hl rest cbb) =
        (\<lambda>f. convert_contents (\<lambda>_ _. None) mem_ok oc contents tag hl rest cbb)"
      by (intro ext) (cases x, simp_all add: convert_contents_def False s)
    then show ?thesis by (simp only: option.const_mono)
  qed
qed

text \<open>
  The loop is the recursion on the rest of the input; the bound on the depth holds in every round when
  it holds in the first.
\<close>

partial_function (option) cbs_convert_ber ::
  "(u64 \<Rightarrow> bool) \<Rightarrow> cbs \<Rightarrow> nat \<Rightarrow> u32 \<Rightarrow> bool \<Rightarrow> u32 \<Rightarrow> cbb \<Rightarrow> conversion" where
  [code]: "cbs_convert_ber mem_ok cbs d string_tag looking_for_eoc depth cbb =
     (if depth > kMaxDepth then Some (False, cbs, cbb)
      else if CBS_len cbs = 0 then Some (\<not> looking_for_eoc, cbs, cbb)
      else
        (case CBS_get_any_ber_asn1_element cbs of
           (None, rest) \<Rightarrow> Some (False, rest, cbb)
         | (Some (contents, tag, header_len), rest) \<Rightarrow>
             if is_eoc header_len contents then Some (looking_for_eoc, rest, cbb)
             else
               (case open_output mem_ok d string_tag tag cbb of
                  (None, opened) \<Rightarrow> Some (False, rest, opened)
                | (Some (out_contents, child_string_tag), opened) \<Rightarrow>
                    (case convert_contents
                            (\<lambda>cbs eoc. cbs_convert_ber mem_ok cbs out_contents child_string_tag eoc (depth + 1) opened)
                            mem_ok out_contents contents tag header_len rest opened of
                       None \<Rightarrow> None
                     | Some (ok, rest, filled) \<Rightarrow>
                         (case (if ok then CBB_flush mem_ok d filled else (False, filled)) of
                            (ok, closed) \<Rightarrow>
                              if \<not> ok then Some (False, rest, closed)
                              else cbs_convert_ber mem_ok rest d string_tag looking_for_eoc depth closed)))))"

text \<open>The result is \<open>out\<close> with \<open>out_storage\<close>, \<open>None\<close> for \<open>NULL\<close>.\<close>

definition CBS_asn1_ber_to_der ::
    "(u64 \<Rightarrow> bool) \<Rightarrow> cbs \<Rightarrow> ((cbs \<times> bytes option) option \<times> cbs) option" where
  "CBS_asn1_ber_to_der mem_ok cbs =
     (case cbs_find_ber cbs 0 of
        None \<Rightarrow> Some (None, cbs)
      | Some conversion_needed \<Rightarrow>
          if \<not> conversion_needed then
            (case CBS_get_any_asn1_element cbs of
               (None, cbs) \<Rightarrow> Some (None, cbs)
             | (Some (out, _, _), cbs) \<Rightarrow> Some (Some (out, None), cbs))
          else
            (case CBB_init mem_ok (of_nat (CBS_len cbs)) of
               (False, _) \<Rightarrow> Some (None, cbs)
             | (True, cbb) \<Rightarrow>
                 (case cbs_convert_ber mem_ok cbs 0 0 False 0 cbb of
                    None \<Rightarrow> None
                  | Some (False, cbs, _) \<Rightarrow> Some (None, cbs)
                  | Some (True, cbs, cbb) \<Rightarrow>
                      (case CBB_finish mem_ok 0 True True cbb of
                         (Some (Some out_storage, Some len), _) \<Rightarrow>
                           Some (Some (take (unat len) out_storage, Some out_storage), cbs)
                       | (_, _) \<Rightarrow> Some (None, cbs)))))"

lemma CBS_get_asn1_shrinks: "CBS_get_asn1 tag cbs = (Some c, r) \<Longrightarrow> length r < length cbs"
  by (auto simp: CBS_get_asn1_iff der_len_def)

function chunks_loop :: "(u64 \<Rightarrow> bool) \<Rightarrow> u32 \<Rightarrow> cbs \<Rightarrow> cbb \<Rightarrow> bool \<times> cbb" where
  "chunks_loop mem_ok inner_tag child cbb =
     (if CBS_len child = 0 then (True, cbb)
      else
        (case CBS_get_asn1 inner_tag child of
           (None, _) \<Rightarrow> (False, cbb)
         | (Some chunk, child) \<Rightarrow>
             (case CBB_add_bytes mem_ok 0 (CBS_data chunk) (of_nat (CBS_len chunk)) cbb of
                (False, cbb) \<Rightarrow> (False, cbb)
              | (True, cbb) \<Rightarrow> chunks_loop mem_ok inner_tag child cbb)))"
  by pat_completeness auto
termination
  by (relation "measure (\<lambda>(mem_ok, tag, child, cbb). length child)")
    (auto dest!: sym [of "(Some _, _)"] CBS_get_asn1_shrinks)

declare chunks_loop.simps [simp del]

definition CBS_get_asn1_implicit_string ::
    "(u64 \<Rightarrow> bool) \<Rightarrow> u32 \<Rightarrow> u32 \<Rightarrow> (cbs \<times> bytes option) parser" where
  "CBS_get_asn1_implicit_string mem_ok outer_tag inner_tag cbs =
     (if CBS_peek_asn1_tag cbs outer_tag then
        (case CBS_get_asn1 outer_tag cbs of
           (None, cbs) \<Rightarrow> (None, cbs)
         | (Some out, cbs) \<Rightarrow> (Some (out, None), cbs))
      else
        (case CBB_init mem_ok (of_nat (CBS_len cbs)) of
           (False, _) \<Rightarrow> (None, cbs)
         | (True, result) \<Rightarrow>
             (case CBS_get_asn1 (outer_tag OR CBS_ASN1_CONSTRUCTED) cbs of
                (None, cbs) \<Rightarrow> (None, cbs)
              | (Some child, cbs) \<Rightarrow>
                  (case chunks_loop mem_ok inner_tag child result of
                     (False, _) \<Rightarrow> (None, cbs)
                   | (True, result) \<Rightarrow>
                       (case CBB_finish mem_ok 0 True True result of
                          (Some (Some out_storage, Some len), _) \<Rightarrow>
                            (Some (take (unat len) out_storage, Some out_storage), cbs)
                        | (_, _) \<Rightarrow> (None, cbs))))))"

lemma der_tag_nonempty [simp]: "der_tag tag \<noteq> []"
  by (simp add: der_tag_def Let_def)

section \<open>What BER stands for\<close>

text \<open>An element: its contents, or whether its length is indefinite and the elements inside.\<close>

datatype ber = Primitive u32 bytes | Constructed u32 bool "ber list"

fun ber_tag :: "ber \<Rightarrow> u32" where
  "ber_tag (Primitive tag c) = tag"
| "ber_tag (Constructed tag indefinite ts) = tag"

fun ber_bytes :: "ber \<Rightarrow> bytes" where
  "ber_bytes (Primitive tag c) = der_element tag c"
| "ber_bytes (Constructed tag indefinite ts) =
     (let c = concat (map ber_bytes ts)
      in if indefinite then der_tag tag @ 0x80 # c @ [0, 0] else der_element tag c)"

fun string_body :: "ber \<Rightarrow> bytes" where
  "string_body (Primitive tag c) = c"
| "string_body (Constructed tag indefinite ts) = concat (map string_body ts)"

text \<open>The element in DER: definite lengths, and strings in one piece.\<close>

fun der_tree :: "ber \<Rightarrow> ber" where
  "der_tree (Primitive tag c) = Primitive tag c"
| "der_tree (Constructed tag indefinite ts) =
     (if is_string_type tag
      then Primitive (tag AND NOT CBS_ASN1_CONSTRUCTED) (concat (map string_body ts))
      else Constructed tag False (map der_tree ts))"

definition der_bytes :: "ber \<Rightarrow> bytes" where
  "der_bytes t = ber_bytes (der_tree t)"

fun in_der :: "ber \<Rightarrow> bool" where
  "in_der (Primitive tag c) = True"
| "in_der (Constructed tag indefinite ts) \<longleftrightarrow>
     \<not> indefinite \<and> \<not> is_string_type tag \<and> list_all in_der ts"

text \<open>A piece of a string of type \<open>s\<close>, and an element that the readers take.\<close>

fun piece :: "u32 \<Rightarrow> ber \<Rightarrow> bool" where
  "piece s (Primitive tag c) \<longleftrightarrow> tag AND NOT CBS_ASN1_CONSTRUCTED = s"
| "piece s (Constructed tag indefinite ts) \<longleftrightarrow>
     tag AND NOT CBS_ASN1_CONSTRUCTED = s \<and> list_all (piece s) ts"

fun ber_ok :: "ber \<Rightarrow> bool" where
  "ber_ok (Primitive tag c) \<longleftrightarrow>
     tag AND CBS_ASN1_CONSTRUCTED = 0 \<and> length c < 2 ^ 32 \<and> \<not> (tag = 0 \<and> c = [])"
| "ber_ok (Constructed tag indefinite ts) \<longleftrightarrow>
     tag AND CBS_ASN1_CONSTRUCTED \<noteq> 0 \<and> list_all ber_ok ts \<and>
     (indefinite \<or> length (concat (map ber_bytes ts)) < 2 ^ 32) \<and>
     (is_string_type tag \<longrightarrow> list_all (piece (tag AND NOT CBS_ASN1_CONSTRUCTED)) ts)"

lemma in_der_der_tree: "in_der (der_tree t)"
  by (induction t) (simp_all add: list.pred_map o_def list_all_iff)

lemma is_indefinite_element:
  assumes "CBS_get_any_ber_asn1_element cbs = (Some (out, tag, hl), r)"
  shows "is_indefinite hl out \<longleftrightarrow> cbs = der_tag tag @ 0x80 # r \<and> out = der_tag tag @ [0x80] \<and>
    tag AND CBS_ASN1_CONSTRUCTED \<noteq> 0"
  using assms
proof (cases rule: ber_element_cases)
  case (definite c)
  then show ?thesis
    by (auto simp: is_indefinite_def CBS_len_def CBS_data_def der_element_def der_len_def nth_append)
next
  case indefinite
  then show ?thesis by (simp add: is_indefinite_def CBS_len_def CBS_data_def nth_append)
qed

lemma definite_element:
  assumes "CBS_get_any_ber_asn1_element cbs = (Some (out, tag, hl), r)" "\<not> is_indefinite hl out"
  obtains c where "cbs = der_element tag c @ r" "out = der_element tag c" "length c < 2 ^ 32"
    "CBS_skip hl out = (Some (), c)"
  using assms(1)
proof (cases rule: ber_element_cases)
  case (definite c)
  with that show ?thesis by (auto simp: CBS_skip_eq)
next
  case indefinite
  with assms show ?thesis by (simp add: is_indefinite_element)
qed

lemma is_eoc_element:
  assumes "CBS_get_any_ber_asn1_element cbs = (Some (out, tag, hl), r)"
  shows "is_eoc hl out \<longleftrightarrow> cbs = der_element 0 [] @ r \<and> tag = 0 \<and> out = der_element 0 []"
  using assms
proof (cases rule: ber_element_cases)
  case (definite c)
  have z: "der_element 0 [] = [0, 0]" by (simp add: der_element_def der_tag_def der_len_def)
  show ?thesis
  proof
    assume "is_eoc hl out"
    then have e: "der_element tag c = [0, 0]" "length (der_tag tag @ der_len (length c)) = 2"
      using definite by (simp_all add: is_eoc_def CBS_data_def)
    from e(1) have "length (der_element tag c) = 2" by simp
    with e(2) have c: "c = []" by simp
    with e(1) have "der_tag tag @ [0] = der_tag 0 @ [0]"
      by (simp add: der_element_def der_len_def der_tag_def)
    with parse_asn1_tag_complete [of tag "[0]"] parse_asn1_tag_complete [of 0 "[0]"] have "tag = 0" by simp
    with c definite show "cbs = der_element 0 [] @ r \<and> tag = 0 \<and> out = der_element 0 []" by simp
  next
    assume "cbs = der_element 0 [] @ r \<and> tag = 0 \<and> out = der_element 0 []"
    moreover from this definite have "hl = 2"
      using length_der_element [of 0 c] length_der_element [of 0 "[]"]
      by (auto simp: der_len_def z der_tag_def der_element_def split: if_splits)
    ultimately show "is_eoc hl out" by (simp add: is_eoc_def CBS_len_def CBS_data_def z)
  qed
next
  case indefinite
  then show ?thesis by (auto simp: is_eoc_def CBS_len_def CBS_data_def der_element_def der_len_def)
qed

section \<open>The conversion is correct\<close>

text \<open>What the contents of an element are converted to, as pieces of a string when \<open>s\<close> is its type.\<close>

definition converted :: "u32 \<Rightarrow> ber list \<Rightarrow> bytes" where
  "converted s ts = concat (map (if s = 0 then der_bytes else string_body) ts)"

fun ber_body :: "u32 \<Rightarrow> ber \<Rightarrow> bytes" where
  "ber_body s (Primitive tag c) = c"
| "ber_body s (Constructed tag indefinite ts) = converted s ts"

text \<open>\<open>converts\<close>: from \<open>cbs\<close> and \<open>cbb\<close> to \<open>rest\<close> and \<open>cbb'\<close>, elements have been read and written.\<close>

definition converts :: "nat \<Rightarrow> u32 \<Rightarrow> bool \<Rightarrow> cbs \<Rightarrow> cbb \<Rightarrow> cbs \<Rightarrow> cbb \<Rightarrow> ber list \<Rightarrow> bool" where
  "converts d s eoc cbs cbb rest cbb' ts \<longleftrightarrow>
     list_all ber_ok ts \<and> (s \<noteq> 0 \<longrightarrow> list_all (piece s) ts) \<and>
     cbs = concat (map ber_bytes ts) @ (if eoc then [0, 0] else []) @ rest \<and> (eoc \<or> rest = []) \<and>
     ready d cbb' \<and> chain cbb' = chain cbb \<and> cbb_out cbb' = cbb_out cbb @ converted s ts"

lemma converted_simps [simp]:
  "converted s [] = []"
  "converted s (t # ts) = (if s = 0 then der_bytes t else string_body t) @ converted s ts"
  by (simp_all add: converted_def)

lemma CBB_add_all_bytes:
  assumes "ready d s" "CBB_add_bytes mem_ok d c (of_nat (length c)) s = (True, s')" "length c < 2 ^ 32"
  shows "ready d s' \<and> cbb_out s' = cbb_out s @ c \<and> chain s' = chain s"
proof -
  have "unat (of_nat (length c) :: u64) = length c" using assms(3) by (simp add: unat_of_nat)
  with appendsD [OF appends_bytes assms(1,2)] show ?thesis by simp
qed

lemma convert_contents_sound:
  assumes get: "CBS_get_any_ber_asn1_element cbs = (Some (contents, tag, hl), rest)" "\<not> is_eoc hl contents"
    and conv: "\<And>c e r f. convert c e = Some (True, r, f) \<Longrightarrow> \<exists>ts. converts oc s e c opened r f ts"
    and ok: "convert_contents convert mem_ok oc contents tag hl rest opened = Some (True, rest', filled)"
      "ready oc opened" "tag AND CBS_ASN1_CONSTRUCTED \<noteq> 0 \<Longrightarrow> is_string_type tag \<Longrightarrow> s = tag AND NOT CBS_ASN1_CONSTRUCTED"
  shows "\<exists>t. ber_tag t = tag \<and> ber_ok t \<and> cbs = ber_bytes t @ rest' \<and> ready oc filled \<and>
    chain filled = chain opened \<and> cbb_out filled = cbb_out opened @ ber_body s t \<and>
    (s \<noteq> 0 \<longrightarrow> tag AND NOT CBS_ASN1_CONSTRUCTED = s \<longrightarrow> piece s t)"
proof (cases "is_indefinite hl contents")
  case True
  with get have e: "cbs = der_tag tag @ 0x80 # rest" "tag AND CBS_ASN1_CONSTRUCTED \<noteq> 0"
    by (simp_all add: is_indefinite_element)
  from ok(1) True have "convert rest True = Some (True, rest', filled)" by (simp add: convert_contents_def)
  from conv [OF this] obtain ts where "converts oc s True rest opened rest' filled ts" by blast
  with e ok show ?thesis
    by (intro exI [of _ "Constructed tag True ts"])
      (auto simp: converts_def dest: string_type_nonzero)
next
  case no: False
  from definite_element [OF get(1) no] obtain c where e: "cbs = der_element tag c @ rest"
    "contents = der_element tag c" "length c < 2 ^ 32" "CBS_skip hl contents = (Some (), c)" .
  show ?thesis
  proof (cases "tag AND CBS_ASN1_CONSTRUCTED = 0")
    case True
    with ok no e have "CBB_add_bytes mem_ok oc c (of_nat (length c)) opened = (True, filled)" "rest' = rest"
      by (auto simp: convert_contents_def CBS_data_def CBS_len_def split: prod.splits)
    with CBB_add_all_bytes [OF ok(2) this(1) e(3)] e True get no show ?thesis
      by (intro exI [of _ "Primitive tag c"]) (auto simp: is_eoc_element)
  next
    case con: False
    with ok no e obtain r where "convert c False = Some (True, r, filled)" "rest' = rest"
      by (auto simp: convert_contents_def split: option.splits)
    with conv obtain ts where "converts oc s False c opened r filled ts" by blast
    with con e ok \<open>rest' = rest\<close> show ?thesis
      by (intro exI [of _ "Constructed tag False ts"])
        (auto simp: converts_def dest: string_type_nonzero)
  qed
qed

lemma appends_once:
  assumes "f t = (True, u)" "ready d t" "ready d u" "chain u = chain t" "cbb_out u = cbb_out t @ c"
  shows "appends d (\<lambda>s. if s = t then (True, u) else (False, s)) c"
  using assms by (simp add: appends_def)

text \<open>One element, from opening the place of its contents to the flush behind it.\<close>

lemma element_sound:
  assumes get: "CBS_get_any_ber_asn1_element cbs = (Some (contents, tag, hl), rest)" "\<not> is_eoc hl contents"
    and d: "ready d cbb" "open_output mem_ok d s tag cbb = (Some (oc, cs), opened)"
    and conv: "\<And>c e r f. convert c e = Some (True, r, f) \<Longrightarrow> ready oc opened \<Longrightarrow>
      \<exists>ts. converts oc cs e c opened r f ts"
    and ok: "convert_contents convert mem_ok oc contents tag hl rest opened = Some (True, rest', filled)"
      "CBB_flush mem_ok d filled = (True, closed)"
  shows "\<exists>t. ber_ok t \<and> (s \<noteq> 0 \<longrightarrow> piece s t) \<and> cbs = ber_bytes t @ rest' \<and> ready d closed \<and>
    chain closed = chain cbb \<and> cbb_out closed = cbb_out cbb @ (if s = 0 then der_bytes t else string_body t)"
proof (cases "s = 0")
  case False
  with d have o: "oc = d" "cs = s" "opened = cbb" "tag AND NOT CBS_ASN1_CONSTRUCTED = s"
    by (auto simp: open_output_def split: if_splits)
  from convert_contents_sound [OF get conv ok(1)] d(1) o obtain t where
    "ber_tag t = tag" "ber_ok t" "cbs = ber_bytes t @ rest'" "ready d filled" "chain filled = chain cbb"
    "cbb_out filled = cbb_out cbb @ ber_body s t" "piece s t"
    using False by auto
  moreover from this ok(2) have "closed = filled" by simp
  moreover have "ber_body s t = string_body t" using False by (cases t) (simp_all add: converted_def)
  ultimately show ?thesis using False by auto
next
  case True
  define str where "str \<longleftrightarrow> tag AND CBS_ASN1_CONSTRUCTED \<noteq> 0 \<and> is_string_type tag"
  define out_tag where "out_tag = (if str then tag AND NOT CBS_ASN1_CONSTRUCTED else tag)"
  from True d have o: "oc = Suc d" "cs = (if str then out_tag else 0)"
    and add: "CBB_add_asn1 mem_ok d out_tag cbb = (True, opened)"
    by (auto simp: open_output_def str_def out_tag_def Let_def split: prod.splits bool.splits)
  from CBB_add_asn1_ok [OF add] d(1) have r: "ready (Suc d) opened" by (auto simp: ready_cbb_ok)
  from convert_contents_sound [OF get _ ok(1), of cs] conv [OF _ r [folded o(1)]] o r obtain t where
    t: "ber_tag t = tag" "ber_ok t" "cbs = ber_bytes t @ rest'" "ready (Suc d) filled"
      "chain filled = chain opened" "cbb_out filled = cbb_out opened @ ber_body cs t"
    by (auto simp: str_def out_tag_def)
  have last: "drop d (chain cbb) = []" "take d (chain cbb) = chain cbb"
    using ready_cbb_ok [OF d(1)] by simp_all
  let ?f = "\<lambda>s. if s = opened then (True, filled) else (False, s)"
  have "appends (Suc d) ?f (ber_body cs t)"
    using r t(4-6) by (intro appends_once) simp_all
  from asn1_element_written [OF _ add _ this ok(2)] ready_cbb_ok [OF d(1)] last
  have c: "ready d closed" "chain closed = chain cbb"
    "cbb_out closed = cbb_out cbb @ der_element out_tag (ber_body cs t)"
    by simp_all
  have f: "der_bytes = (\<lambda>x. ber_bytes (der_tree x))" by (rule ext) (rule der_bytes_def)
  have "der_bytes t = der_element out_tag (ber_body cs t)"
    using t(1,2) o(2) by (cases t)
      (auto simp: f str_def out_tag_def converted_def o_def dest: string_type_nonzero)
  with c t True show ?thesis by (intro exI [of _ t]) simp
qed

lemma convert_ber_sound:
  assumes "cbs_convert_ber mem_ok cbs d s eoc depth cbb = Some (True, rest, cbb')" "ready d cbb"
  shows "\<exists>ts. converts d s eoc cbs cbb rest cbb' ts"
proof -
  have "fst r \<longrightarrow> ready d cbb \<longrightarrow> (\<exists>ts. converts d s eoc cbs cbb (fst (snd r)) (snd (snd r)) ts)"
    if "cbs_convert_ber mem_ok cbs d s eoc depth cbb = Some r" for r
    using that
  proof (induction rule: cbs_convert_ber.raw_induct [rotated, consumes 1])
    case (1 conv mem_ok cbs d s eoc depth cbb r)
    show ?case
    proof (intro impI)
      assume ok: "fst r" and d: "ready d cbb"
      show "\<exists>ts. converts d s eoc cbs cbb (fst (snd r)) (snd (snd r)) ts"
      proof (cases "CBS_len cbs = 0")
        case True
        with 1(2) ok d show ?thesis
          by (intro exI [of _ "[]"]) (auto simp: converts_def CBS_len_def split: if_splits)
      next
        case False
        with 1(2) ok obtain contents tag hl rest where
          get: "CBS_get_any_ber_asn1_element cbs = (Some (contents, tag, hl), rest)"
          by (auto split: if_splits prod.splits option.splits)
        show ?thesis
        proof (cases "is_eoc hl contents")
          case True
          with get have "cbs = [0, 0] @ rest" by (simp add: is_eoc_element der_element_def der_tag_def der_len_def)
          with True get 1(2) ok d False show ?thesis
            by (intro exI [of _ "[]"]) (auto simp: converts_def split: if_splits)
        next
          case no: False
          with 1(2) ok False get obtain oc cs opened rest' filled closed where
            opn: "open_output mem_ok d s tag cbb = (Some (oc, cs), opened)" and
            fill: "convert_contents (\<lambda>cbs eoc. conv mem_ok cbs oc cs eoc (depth + 1) opened)
                mem_ok oc contents tag hl rest opened = Some (True, rest', filled)" and
            close: "CBB_flush mem_ok d filled = (True, closed)" and
            loop: "conv mem_ok rest' d s eoc depth closed = Some r"
            by (auto split: if_splits prod.splits option.splits)
          have IH: "\<exists>ts. converts oc cs e c opened r f ts"
            if "conv mem_ok c oc cs e (depth + 1) opened = Some (True, r, f)" "ready oc opened" for c e r f
            using 1(1) [OF that(1)] that(2) by simp
          from element_sound [OF get no d opn IH fill close] obtain t where
            "ber_ok t" "s \<noteq> 0 \<longrightarrow> piece s t" "cbs = ber_bytes t @ rest'" "ready d closed"
            "chain closed = chain cbb" "cbb_out closed = cbb_out cbb @ (if s = 0 then der_bytes t else string_body t)"
            by blast
          moreover from 1(1) [OF loop] ok \<open>ready d closed\<close> obtain ts where
            "converts d s eoc rest' closed (fst (snd r)) (snd (snd r)) ts" by blast
          ultimately show ?thesis by (intro exI [of _ "t # ts"]) (auto simp: converts_def)
        qed
      qed
    qed
  qed
  from this [OF assms(1)] assms(2) show ?thesis by simp
qed

text \<open>The conversion ends on every input.\<close>

lemma cbs_convert_ber_returns:
  "\<exists>ok rest cbb'. cbs_convert_ber mem_ok cbs d s eoc depth cbb = Some (ok, rest, cbb') \<and>
    length rest \<le> length cbs"
proof (induction "length cbs" arbitrary: cbs d s eoc depth cbb rule: less_induct)
  case less
  show ?case
  proof (cases "depth > kMaxDepth \<or> CBS_len cbs = 0")
    case True
    then show ?thesis by (auto simp: cbs_convert_ber.simps)
  next
    case False
    obtain x rest where get: "CBS_get_any_ber_asn1_element cbs = (x, rest)" by fastforce
    show ?thesis
    proof (cases x)
      case None
      with get False show ?thesis by (auto simp: cbs_convert_ber.simps dest: ber_element_fails)
    next
      case (Some y)
      obtain contents tag hl where y: "y = (contents, tag, hl)" by (cases y)
      note get = get [unfolded Some y]
      have small: "length rest < length cbs" "length (drop hl contents) < length cbs"
        using ber_element_shrinks [OF get] by auto
      obtain place opened where opn: "open_output mem_ok d s tag cbb = (place, opened)" by fastforce
      show ?thesis
      proof (cases "is_eoc hl contents \<or> place = None")
        case True
        with False get opn small show ?thesis by (auto simp: cbs_convert_ber.simps)
      next
        case no: False
        then obtain oc cs where place: "place = Some (oc, cs)" by auto
        let ?conv = "\<lambda>cbs eoc. cbs_convert_ber mem_ok cbs oc cs eoc (depth + 1) opened"
        have "\<exists>ok rest' filled. convert_contents ?conv mem_ok oc contents tag hl rest opened
            = Some (ok, rest', filled) \<and> length rest' \<le> length rest"
          using less [OF small(1), of oc cs True "depth + 1" opened]
            less [OF small(2), of oc cs False "depth + 1" opened]
          by (auto simp: convert_contents_def CBS_skip_eq split: prod.split)
        then obtain ok rest' filled where fill: "convert_contents ?conv mem_ok oc contents tag hl rest opened
            = Some (ok, rest', filled)" "length rest' \<le> length rest" by blast
        obtain ok' closed where close: "(if ok then CBB_flush mem_ok d filled else (False, filled)) = (ok', closed)"
          by fastforce
        have step: "cbs_convert_ber mem_ok cbs d s eoc depth cbb =
            (if \<not> ok' then Some (False, rest', closed)
             else cbs_convert_ber mem_ok rest' d s eoc depth closed)"
          using False get no opn place fill close
          by (subst cbs_convert_ber.simps) simp
        from fill(2) small(1) have "length rest' < length cbs" by simp
        from less [OF this, of d s eoc depth closed] this show ?thesis unfolding step by auto
      qed
    qed
  qed
qed

text \<open>The pieces of an implicitly tagged string.\<close>

lemma chunks_loop_sound:
  assumes "chunks_loop mem_ok tag child cbb = (True, cbb')" "ready 0 cbb"
  shows "\<exists>cs. child = concat (map (der_element tag) cs) \<and> ready 0 cbb' \<and> cbb_out cbb' = cbb_out cbb @ concat cs"
  using assms
proof (induction mem_ok tag child cbb rule: chunks_loop.induct)
  case (1 mem_ok tag child cbb)
  show ?case
  proof (cases "CBS_len child = 0")
    case True
    with 1(2,3) show ?thesis by (intro exI [of _ "[]"]) (simp add: chunks_loop.simps CBS_len_def)
  next
    case False
    with 1(2) obtain c rest cbb1 where g: "CBS_get_asn1 tag child = (Some c, rest)"
      and b: "CBB_add_bytes mem_ok 0 c (of_nat (length c)) cbb = (True, cbb1)"
      and l: "chunks_loop mem_ok tag rest cbb1 = (True, cbb')"
      by (subst (asm) chunks_loop.simps)
        (auto simp: CBS_data_def CBS_len_def split: prod.splits option.splits bool.splits)
    from g have e: "child = der_element tag c @ rest" "length c < 2 ^ 32" by (auto simp: CBS_get_asn1_iff)
    from CBB_add_all_bytes [OF 1(3) b e(2)] have r: "ready 0 cbb1" "cbb_out cbb1 = cbb_out cbb @ c" by simp_all
    have "\<exists>cs. rest = concat (map (der_element tag) cs) \<and> ready 0 cbb' \<and> cbb_out cbb' = cbb_out cbb1 @ concat cs"
      using 1(1) [OF False g [symmetric] refl _ refl l r(1)] b by (simp add: CBS_data_def CBS_len_def)
    then obtain cs where "rest = concat (map (der_element tag) cs)" "ready 0 cbb'"
      "cbb_out cbb' = cbb_out cbb1 @ concat cs" by blast
    with e r show ?thesis by (intro exI [of _ "c # cs"]) simp
  qed
qed

lemma CBB_init_ready: "CBB_init mem_ok n = (True, cbb) \<Longrightarrow> ready 0 cbb \<and> cbb_out cbb = []"
  by (auto simp: CBB_init_def cbb_init_def ready_iff cbb_ok_def cbb_out_def buf_ok_def split: if_splits)

lemma CBB_finish_ready:
  assumes "fst (CBB_finish mem_ok 0 True True cbb) = Some (Some storage, Some len)" "ready 0 cbb"
  shows "storage = cbb_out cbb \<and> take (unat len) storage = storage"
  using assms
  by (auto simp: CBB_finish_def cbb_out_def ready_iff cbb_ok_def dest: buf_ok_len split: if_splits option.splits)

theorem CBS_get_asn1_implicit_string_sound:
  assumes "CBS_get_asn1_implicit_string mem_ok outer inner cbs = (Some (out, storage), rest)"
  shows "(storage = None \<and> cbs = der_element outer out @ rest) \<or>
    (\<exists>cs. storage = Some out \<and> out = concat cs \<and>
      cbs = der_element (outer OR CBS_ASN1_CONSTRUCTED) (concat (map (der_element inner) cs)) @ rest)"
proof (cases "CBS_peek_asn1_tag cbs outer")
  case True
  with assms show ?thesis
    by (auto simp: CBS_get_asn1_implicit_string_def CBS_get_asn1_iff split: prod.splits option.splits)
next
  case False
  with assms obtain cbb cbb' child len st where i: "CBB_init mem_ok (of_nat (CBS_len cbs)) = (True, cbb)"
    and g: "CBS_get_asn1 (outer OR CBS_ASN1_CONSTRUCTED) cbs = (Some child, rest)"
    and l: "chunks_loop mem_ok inner child cbb = (True, cbb')"
    and f: "fst (CBB_finish mem_ok 0 True True cbb') = Some (Some st, Some len)"
      "out = take (unat len) st" "storage = Some st"
    by (auto simp: CBS_get_asn1_implicit_string_def split: prod.splits option.splits bool.splits)
  from CBB_init_ready [OF i] chunks_loop_sound [OF l] obtain cs where
    cs: "child = concat (map (der_element inner) cs)" "ready 0 cbb'" "cbb_out cbb' = concat cs"
    by auto
  with CBB_finish_ready [OF f(1)] f g show ?thesis by (auto simp: CBS_get_asn1_iff)
qed

section \<open>Properties\<close>

text \<open>C7: what \<open>CBS_asn1_ber_to_der\<close> converts is BER, and what it hands out is the same value in DER: the
  input is a sequence of elements, each of which has been replaced by its form with definite lengths
  and with every string in one piece.\<close>

theorem CBS_asn1_ber_to_der_converts:
  assumes "CBS_asn1_ber_to_der mem_ok cbs = Some (Some (out, Some storage), rest)"
  shows "\<exists>ts. list_all ber_ok ts \<and> cbs = concat (map ber_bytes ts) \<and> rest = [] \<and> storage = out \<and>
    out = concat (map ber_bytes (map der_tree ts)) \<and> list_all in_der (map der_tree ts)"
proof -
  from assms obtain cbb cbb' len where c: "CBB_init mem_ok (of_nat (CBS_len cbs)) = (True, cbb)"
    "cbs_convert_ber mem_ok cbs 0 0 False 0 cbb = Some (True, rest, cbb')"
    and fin: "fst (CBB_finish mem_ok 0 True True cbb') = Some (Some storage, Some len)"
    "out = take (unat len) storage"
    by (auto simp: CBS_asn1_ber_to_der_def split: option.splits prod.splits if_splits bool.splits)
  from CBB_init_ready [OF c(1)] have i: "ready 0 cbb" "cbb_out cbb = []" by simp_all
  with convert_ber_sound [OF c(2)] obtain ts where
    ts: "converts 0 0 False cbs cbb rest cbb' ts" by blast
  then have "ready 0 cbb'" by (simp add: converts_def)
  from CBB_finish_ready [OF fin(1) this] fin(2) have "storage = cbb_out cbb'" "out = storage" by auto
  with ts i(2) show ?thesis
    by (intro exI [of _ ts]) (auto simp: converts_def converted_def der_bytes_def [abs_def] o_def list.pred_map list_all_iff in_der_der_tree)
qed

theorem CBS_asn1_ber_to_der_converts_witness:
  "CBS_asn1_ber_to_der (\<lambda>_. True) [0x30, 0x80, 0x24, 6, 4, 1, 7, 4, 1, 8, 0, 0] =
      Some (Some ([0x30, 4, 4, 2, 7, 8], Some [0x30, 4, 4, 2, 7, 8]), []) \<and>
   (\<exists>ts. [0x30, 0x80, 0x24, 6, 4, 1, 7, 4, 1, 8, 0, 0] = concat (map ber_bytes ts) \<and>
      [0x30, 4, 4, 2, 7, 8] = concat (map ber_bytes (map der_tree ts)) \<and> list_all in_der (map der_tree ts))"
proof -
  have r: "CBS_asn1_ber_to_der (\<lambda>_. True) [0x30, 0x80, 0x24, 6, 4, 1, 7, 4, 1, 8, 0, 0] =
      Some (Some ([0x30, 4, 4, 2, 7, 8], Some [0x30, 4, 4, 2, 7, 8]), [])"
    by code_simp
  from r CBS_asn1_ber_to_der_converts [OF r] show ?thesis by blast
qed

text \<open>The search on DER.\<close>

fun nesting :: "ber \<Rightarrow> nat" where
  "nesting (Primitive tag c) = 0"
| "nesting (Constructed tag indefinite ts) = Suc (fold max (map nesting ts) 0)"

lemma fold_max_le [simp]: "fold max (xs :: nat list) a \<le> n \<longleftrightarrow> a \<le> n \<and> (\<forall>x \<in> set xs. x \<le> n)"
  by (induction xs arbitrary: a) auto

lemma nesting_le: "v \<in> set vs \<Longrightarrow> nesting v \<le> fold max (map nesting vs) 0"
  using fold_max_le [of "map nesting vs" 0 "fold max (map nesting vs) 0"] by auto

lemma ber_element_complete:
  assumes "length c < 2 ^ 32"
  shows "CBS_get_any_ber_asn1_element (der_element tag c @ r) =
    (Some (der_element tag c, tag, length (der_tag tag @ der_len (length c))), r)"
proof -
  have p: "parse_asn1_tag (der_element tag c @ r) = (Some tag, der_len (length c) @ c @ r)"
    using parse_asn1_tag_complete [of tag "der_len (length c) @ c @ r"] by (simp add: der_element_def)
  obtain b h where b: "der_len (length c) = b # h" "b \<noteq> 0x80"
  proof (cases "length c < 128")
    case True
    then have "unat (word_of_nat (length c) :: byte) = length c" by (intro unat_byte_small) simp
    with True have "(word_of_nat (length c) :: byte) \<noteq> 0x80" by auto
    with True show ?thesis by (intro that [of "word_of_nat (length c)" "[]"]) (simp add: der_len_def)
  next
    case False
    with assms obtain nb where nb: "octets (length c) = nb" "1 \<le> nb" "nb \<le> 4"
      "unat (word_of_nat (128 + nb) :: byte) = 128 + nb"
      by (auto intro: der_len_long_form [of "length c"])
    then have "(word_of_nat (128 + nb) :: byte) \<noteq> 0x80" by auto
    with False nb(1) show ?thesis
      by (intro that [of "word_of_nat (128 + nb)" "be_bytes nb (length c)"]) (simp_all add: der_len_def)
  qed
  then have "cbs_get_any_asn1_element True (der_element tag c @ r) =
      cbs_get_any_asn1_element False (der_element tag c @ r)"
    using p by (intro ber_element_definite [of _ tag b "h @ c @ r"]) simp_all
  with cbs_get_any_der_complete [OF assms, of tag r] show ?thesis
    by (simp add: CBS_get_any_ber_asn1_element_def)
qed

lemma der_not_indefinite: "\<not> is_indefinite (length (der_tag tag @ der_len (length c))) (der_element tag c)"
  by (auto simp: is_indefinite_def CBS_len_def CBS_data_def der_element_def der_len_def nth_append)

lemma find_ber_loop_element:
  assumes "length c < 2 ^ 32"
  shows "find_ber_loop depth found (der_element tag c @ r) =
    (if tag AND CBS_ASN1_CONSTRUCTED \<noteq> 0 then
       if is_string_type tag then Some True
       else (case (if depth + 1 > kMaxDepth then None else find_ber_loop (depth + 1) False c) of
               None \<Rightarrow> None
             | Some found \<Rightarrow> find_ber_loop depth found r)
     else find_ber_loop depth found r)"
proof -
  have "CBS_len (der_element tag c @ r) \<noteq> 0" by (simp add: CBS_len_def)
  then show ?thesis
    by (subst find_ber_loop.simps)
      (simp add: ber_element_complete [OF assms] der_not_indefinite [simplified] CBS_skip_eq cong: if_cong)
qed

lemma find_ber_loop_der:
  assumes "list_all ber_ok ts" "list_all in_der ts" "\<forall>t \<in> set ts. unat depth + nesting t \<le> 2048"
  shows "find_ber_loop depth False (concat (map ber_bytes ts)) = Some False"
  using assms
proof (induction "length (concat (map ber_bytes ts))" arbitrary: ts depth rule: less_induct)
  case less
  show ?case
  proof (cases ts)
    case Nil
    then show ?thesis by (simp add: find_ber_loop.simps CBS_len_def)
  next
    case (Cons t us)
    have IH: "find_ber_loop depth False (concat (map ber_bytes us)) = Some False"
      using less.prems Cons by (intro less.hyps) (cases t; auto simp: Let_def)+
    show ?thesis
    proof (cases t)
      case (Primitive tag c)
      with less.prems Cons IH show ?thesis by (simp add: find_ber_loop_element)
    next
      case (Constructed tag i vs)
      with less.prems Cons have v: "tag AND CBS_ASN1_CONSTRUCTED \<noteq> 0" "\<not> is_string_type tag" "\<not> i"
        "length (concat (map ber_bytes vs)) < 2 ^ 32" "list_all ber_ok vs" "list_all in_der vs"
        and d: "\<forall>v \<in> set vs. unat depth + 1 + nesting v \<le> 2048" "unat depth + 1 \<le> 2048"
        by (auto simp: Let_def dest: nesting_le)
      have u: "unat (depth + 1) = unat depth + 1" using d(2) by (simp add: unat_word_ariths)
      have "\<not> depth + 1 > kMaxDepth" using d(2) u by (simp add: kMaxDepth_def word_less_nat_alt)
      moreover have "find_ber_loop (depth + 1) False (concat (map ber_bytes vs)) = Some False"
        using v d Cons Constructed by (intro less.hyps) (simp_all add: u)
      ultimately show ?thesis
        using find_ber_loop_element [OF v(4), of depth False tag "concat (map ber_bytes us)"] v IH Cons Constructed
        by simp
    qed
  qed
qed

text \<open>An element in DER whose nesting stays within the limit is handed out as it is.\<close>

theorem CBS_asn1_ber_to_der_keeps_der:
  assumes "list_all ber_ok ts" "list_all in_der ts" "ts \<noteq> []" "\<forall>t \<in> set ts. nesting t \<le> 2048"
  shows "CBS_asn1_ber_to_der mem_ok (concat (map ber_bytes ts)) =
    Some (Some (ber_bytes (hd ts), None), concat (map ber_bytes (tl ts)))"
proof -
  obtain t us where ts: "ts = t # us" using assms(3) by (cases ts) auto
  have "cbs_find_ber (concat (map ber_bytes ts)) 0 = Some False"
    using find_ber_loop_der [OF assms(1,2)] assms(4) by (simp add: cbs_find_ber_def)
  moreover obtain tag c where "ber_bytes t = der_element tag c" "length c < 2 ^ 32"
    using assms(1,2) ts by (cases t) (auto simp: Let_def)
  ultimately show ?thesis
    by (simp add: CBS_asn1_ber_to_der_def ts CBS_get_any_asn1_element_def cbs_get_any_der_complete)
qed

theorem CBS_asn1_ber_to_der_keeps_der_witness:
  "CBS_asn1_ber_to_der (\<lambda>_. False) (concat (map ber_bytes [Constructed 0x20000010 False [Primitive 4 [7]]])) =
    Some (Some (ber_bytes (Constructed 0x20000010 False [Primitive 4 [7]]), None), [])"
  using CBS_asn1_ber_to_der_keeps_der [of "[Constructed 0x20000010 False [Primitive 4 [7]]]" "\<lambda>_. False"]
  by (simp add: CBS_ASN1_CONSTRUCTED_def is_string_type_def string_tag_values der_tag_def der_len_def)

lemma find_ber_loop_indefinite:
  assumes "tag AND CBS_ASN1_CONSTRUCTED \<noteq> 0"
  shows "find_ber_loop depth found (der_tag tag @ 0x80 # r) = Some True"
proof -
  have "is_indefinite (length (der_tag tag) + 1) (der_tag tag @ [0x80])"
    by (simp add: is_indefinite_def CBS_len_def CBS_data_def nth_append)
  moreover have "CBS_len (der_tag tag @ 0x80 # r) \<noteq> 0" by (simp add: CBS_len_def)
  ultimately show ?thesis
    by (subst find_ber_loop.simps) (simp add: ber_element_indefinite [OF assms])
qed

lemma find_ber_loop_der_prefix:
  assumes "list_all ber_ok ts" "list_all in_der ts" "\<forall>t \<in> set ts. unat depth + nesting t \<le> 2048"
  shows "find_ber_loop depth False (concat (map ber_bytes ts) @ r) = find_ber_loop depth False r"
  using assms
proof (induction ts)
  case (Cons t us)
  show ?case
  proof (cases t)
    case (Primitive tag c)
    with Cons show ?thesis by (simp add: find_ber_loop_element)
  next
    case (Constructed tag i vs)
    with Cons.prems have v: "tag AND CBS_ASN1_CONSTRUCTED \<noteq> 0" "\<not> is_string_type tag" "\<not> i"
      "length (concat (map ber_bytes vs)) < 2 ^ 32" "list_all ber_ok vs" "list_all in_der vs"
      and d: "\<forall>v \<in> set vs. unat depth + 1 + nesting v \<le> 2048" "unat depth + 1 \<le> 2048"
      by (auto simp: Let_def dest: nesting_le)
    have u: "unat (depth + 1) = unat depth + 1" using d(2) by (simp add: unat_word_ariths)
    have "\<not> depth + 1 > kMaxDepth" using d(2) u by (simp add: kMaxDepth_def word_less_nat_alt)
    moreover have "find_ber_loop (depth + 1) False (concat (map ber_bytes vs)) = Some False"
      using v d by (intro find_ber_loop_der) (simp_all add: u)
    ultimately show ?thesis
      using find_ber_loop_element [OF v(4), of depth False tag] v Cons Constructed by simp
  qed
qed simp

lemma find_ber_loop_constructed:
  assumes "tag AND CBS_ASN1_CONSTRUCTED \<noteq> 0" "\<not> is_string_type tag" "length c < 2 ^ 32"
    "unat depth < 2048" "find_ber_loop (depth + 1) False c = Some b"
  shows "find_ber_loop depth found (der_element tag c @ r) = find_ber_loop depth b r"
proof -
  have "unat (depth + 1) = unat depth + 1" using assms(4) by (simp add: unat_word_ariths)
  then have "\<not> depth + 1 > kMaxDepth" using assms(4) by (simp add: kMaxDepth_def word_less_nat_alt)
  then show ?thesis using find_ber_loop_element [OF assms(3)] assms(1,2,5) by simp
qed



end
