(* ===== verification/Bn_Words.thy ===== *)
theory Bn_Words
  imports Prelude
begin

text \<open>
  Arrays of words as numbers: the loops of \<open>crypto/fipsmodule/bn/generic.c\<close> in the variant with a
  two-word integer (\<open>BN_ULLONG\<close>), which the arm64 build compiles.  The loops that the code unrolls
  four times take the same steps one by one here.  A result array is returned, so that it may be an
  input of the call, as the code allows: entry \<open>i\<close> is written after the entries \<open>i\<close> have been read.
\<close>

type_synonym u128 = "128 word"
type_synonym "words" = "u64 list"

section \<open>The number in an array\<close>

fun words_val :: "words \<Rightarrow> nat" where
  "words_val [] = 0"
| "words_val (w # ws) = unat w + 2 ^ 64 * words_val ws"

definition Lw :: "u128 \<Rightarrow> u64" where "Lw t = ucast t"
definition Hw :: "u128 \<Rightarrow> u64" where "Hw t = ucast (drop_bit 64 t)"

section \<open>The loops\<close>

fun add_words_loop :: "u128 \<Rightarrow> words \<Rightarrow> words \<Rightarrow> words \<times> u64" where
  "add_words_loop ll (x # a) (y # b) =
     (let ll = ll + (ucast x + ucast y); (r, c) = add_words_loop (drop_bit 64 ll) a b
      in (ucast ll # r, c))"
| "add_words_loop ll _ _ = ([], ucast ll)"

definition bn_add_words :: "words \<Rightarrow> words \<Rightarrow> nat \<Rightarrow> words \<times> u64" where
  "bn_add_words a b n = add_words_loop 0 (take n a) (take n b)"

fun sub_words_loop :: "u64 \<Rightarrow> words \<Rightarrow> words \<Rightarrow> words \<times> u64" where
  "sub_words_loop c (t1 # a) (t2 # b) =
     (let (r, c') = sub_words_loop (if t1 \<noteq> t2 then (if t1 < t2 then 1 else 0) else c) a b
      in ((t1 - t2 - c) # r, c'))"
| "sub_words_loop c _ _ = ([], c)"

definition bn_sub_words :: "words \<Rightarrow> words \<Rightarrow> nat \<Rightarrow> words \<times> u64" where
  "bn_sub_words a b n = sub_words_loop 0 (take n a) (take n b)"

fun mul_add_words_loop :: "u64 \<Rightarrow> words \<Rightarrow> words \<Rightarrow> u64 \<Rightarrow> words \<times> u64" where
  "mul_add_words_loop c1 (r # rp) (a # ap) w =
     (let t = ucast w * ucast a + ucast r + ucast c1; (rp, c) = mul_add_words_loop (Hw t) rp ap w
      in (Lw t # rp, c))"
| "mul_add_words_loop c1 _ _ w = ([], c1)"

definition bn_mul_add_words :: "words \<Rightarrow> words \<Rightarrow> nat \<Rightarrow> u64 \<Rightarrow> words \<times> u64" where
  "bn_mul_add_words rp ap num w = mul_add_words_loop 0 (take num rp) (take num ap) w"

fun mul_words_loop :: "u64 \<Rightarrow> words \<Rightarrow> u64 \<Rightarrow> words \<times> u64" where
  "mul_words_loop c1 (a # ap) w =
     (let t = ucast w * ucast a + ucast c1; (rp, c) = mul_words_loop (Hw t) ap w
      in (Lw t # rp, c))"
| "mul_words_loop c1 [] w = ([], c1)"

definition bn_mul_words :: "words \<Rightarrow> nat \<Rightarrow> u64 \<Rightarrow> words \<times> u64" where
  "bn_mul_words ap num w = mul_words_loop 0 (take num ap) w"

fun sqr_words_loop :: "words \<Rightarrow> words" where
  "sqr_words_loop (a # ap) = (let t = ucast a * ucast a in Lw t # Hw t # sqr_words_loop ap)"
| "sqr_words_loop [] = []"

definition bn_sqr_words :: "words \<Rightarrow> nat \<Rightarrow> words" where
  "bn_sqr_words a n = sqr_words_loop (take n a)"

section \<open>What they compute\<close>

lemma words_val_append: "words_val (a @ b) = words_val a + 2 ^ (64 * length a) * words_val b"
  by (induction a) (simp_all add: power_add algebra_simps)

lemma words_val_less: "words_val a < 2 ^ (64 * length a)"
proof (induction a)
  case Nil
  show ?case by simp
next
  case (Cons w a)
  have "unat w < 2 ^ 64" using unsigned_less [of w] by simp
  then have "unat w + 2 ^ 64 * words_val a < 2 ^ 64 * Suc (words_val a)" by simp
  also have "\<dots> \<le> 2 ^ 64 * 2 ^ (64 * length a)" using Cons by (intro mult_left_mono) simp_all
  finally show ?case by (simp add: power_add)
qed

lemma words_val_replicate_0 [simp]: "words_val (replicate n 0) = 0"
  by (induction n) simp_all

lemma words_val_eq_0: "words_val a = 0 \<longleftrightarrow> (\<forall>w \<in> set a. w = 0)"
  by (induction a) (auto simp: unat_eq_zero)

lemma unat_u64_less: "unat (w :: u64) < 18446744073709551616"
  using unsigned_less [of w] by simp

lemma unat_low: "unat (ucast (t :: u128) :: u64) = unat t mod 2 ^ 64"
  by (simp add: unsigned_ucast_eq take_bit_eq_mod)

lemma unat_wide [simp]: "unat (ucast (t :: u64) :: u128) = unat t"
  using unat_u64_less [of t] by (simp add: unat_ucast_narrow)

lemma unat_Lw: "unat (Lw t) = unat t mod 2 ^ 64"
  by (simp add: Lw_def unat_low)

lemma unat_Hw: "unat (Hw t) = unat t div 2 ^ 64"
proof -
  have "unat t < 2 ^ 128" using unsigned_less [of t] by simp
  then have "unat t div 2 ^ 64 < 2 ^ 64" by (simp add: less_mult_imp_div_less)
  then show ?thesis by (simp add: Hw_def unat_low unat_drop_bit)
qed

lemma Lw_Hw: "unat (Lw t) + 2 ^ 64 * unat (Hw t) = unat t"
  by (simp add: unat_Lw unat_Hw)

lemma unat_mul_add: "unat (ucast (w :: u64) * ucast (a :: u64) + ucast r + ucast c :: u128) = unat w * unat a + unat (r :: u64) + unat (c :: u64)"
proof -
  have "unat w * unat a \<le> (2 ^ 64 - 1) * (2 ^ 64 - 1)"
    using unat_u64_less [of w] unat_u64_less [of a] by (intro mult_le_mono) simp_all
  moreover have "unat r \<le> 2 ^ 64 - 1" "unat c \<le> 2 ^ 64 - 1"
    using unat_u64_less [of r] unat_u64_less [of c] by simp_all
  ultimately have "unat w * unat a + unat r + unat c < 2 ^ 128" by simp
  then show ?thesis by (simp add: unat_word_ariths)
qed

lemma add_words_loop_val:
  assumes "add_words_loop ll a b = (r, c)" "unat ll \<le> 1" "length a = length b"
  shows "words_val r + 2 ^ (64 * length a) * unat c = words_val a + words_val b + unat ll \<and>
    length r = length a \<and> unat c \<le> 1"
  using assms
proof (induction ll a b arbitrary: r c rule: add_words_loop.induct)
  case (1 ll x a y b)
  let ?s = "ll + (ucast x + ucast y)"
  have x: "unat x < 2 ^ 64" "unat y < 2 ^ 64" using unat_u64_less [of x] unat_u64_less [of y] by simp_all
  have s: "unat ?s = unat ll + unat x + unat y"
    using x 1(3) by (simp add: unat_word_ariths)
  obtain r' c' where l: "add_words_loop (drop_bit 64 ?s) a b = (r', c')" by fastforce
  have d: "unat (drop_bit 64 ?s) = unat ?s div 2 ^ 64" by (simp add: unat_drop_bit)
  then have "unat (drop_bit 64 ?s) \<le> 1" unfolding s using x 1(3) by simp
  from 1(1) [OF refl l this] 1(4) have IH:
    "words_val r' + 2 ^ (64 * length a) * unat c' = words_val a + words_val b + unat ?s div 2 ^ 64"
    "length r' = length a" "unat c' \<le> 1" by (simp_all add: d)
  from 1(2) l have rc: "r = ucast ?s # r'" "c = c'" by (simp_all add: Let_def)
  have "unat (ucast ?s :: u64) + 2 ^ 64 * (unat ?s div 2 ^ 64) = unat ?s" by (simp add: unat_low)
  with IH s rc show ?case by (simp add: power_add algebra_simps)
qed (auto simp: unat_low)

lemma bn_add_words_val:
  assumes "bn_add_words a b n = (r, c)" "length a = n" "length b = n"
  shows "words_val r + 2 ^ (64 * n) * unat c = words_val a + words_val b" "length r = n" "unat c \<le> 1"
  using add_words_loop_val [of 0 "take n a" "take n b" r c] assms by (simp_all add: bn_add_words_def)

lemma unat_minus_wrap: "unat (x - y) + unat y = unat x + 2 ^ 64 * (if x < y then 1 else 0)" for x y :: u64
  using unat_sub_if' [of x y] unat_u64_less [of y] by (auto simp: word_less_nat_alt word_le_nat_alt)

lemma unat_sub_borrow:
  assumes "unat c \<le> 1"
  shows "unat (t1 - t2 - (c :: u64)) + unat t2 + unat c =
    unat t1 + 2 ^ 64 * (if unat t1 < unat t2 + unat c then 1 else 0)"
proof -
  have "unat t1 < 2 ^ 64" "unat t2 < 2 ^ 64" "unat (t1 - t2 - c) < 2 ^ 64" "unat (t1 - t2) < 2 ^ 64"
    using unat_u64_less [of t1] unat_u64_less [of t2] unat_u64_less [of "t1 - t2 - c"]
      unat_u64_less [of "t1 - t2"] by simp_all
  with assms unat_minus_wrap [of t1 t2] unat_minus_wrap [of "t1 - t2" c] show ?thesis
    by (auto simp: word_less_nat_alt split: if_splits)
qed

lemma sub_words_loop_val:
  assumes "sub_words_loop c a b = (r, c')" "unat c \<le> 1" "length a = length b"
  shows "words_val r + words_val b + unat c = words_val a + 2 ^ (64 * length a) * unat c' \<and>
    length r = length a \<and> unat c' \<le> 1"
  using assms
proof (induction c a b arbitrary: r c' rule: sub_words_loop.induct)
  case (1 c t1 a t2 b)
  let ?c = "if t1 \<noteq> t2 then (if t1 < t2 then 1 else 0) else c"
  obtain r' d where l: "sub_words_loop ?c a b = (r', d)" by fastforce
  have c: "unat ?c = (if unat t1 < unat t2 + unat c then 1 else 0)"
    using 1(3) by (auto simp: word_less_nat_alt word_unat_eq_iff)
  then have "unat ?c \<le> 1" by simp
  from 1(1) [OF l this] 1(4) have IH:
    "words_val r' + words_val b + unat ?c = words_val a + 2 ^ (64 * length a) * unat d"
    "length r' = length a" "unat d \<le> 1" by simp_all
  from 1(2) l have rc: "r = (t1 - t2 - c) # r'" "c' = d" by (simp_all add: Let_def)
  have "2 ^ 64 * (words_val r' + words_val b + unat ?c) = 2 ^ 64 * (words_val a + 2 ^ (64 * length a) * unat d)"
    unfolding IH(1) ..
  with unat_sub_borrow [OF 1(3), of t1 t2] IH(2,3) rc show ?case
    unfolding c by (simp add: power_add algebra_simps)
qed auto

lemma bn_sub_words_val:
  assumes "bn_sub_words a b n = (r, c)" "length a = n" "length b = n"
  shows "words_val r + words_val b = words_val a + 2 ^ (64 * n) * unat c" "length r = n" "unat c \<le> 1"
  using sub_words_loop_val [of 0 "take n a" "take n b" r c] assms by (simp_all add: bn_sub_words_def)

lemma mul_add_words_loop_val:
  assumes "mul_add_words_loop c1 rp ap w = (r, c)" "length rp = length ap"
  shows "words_val r + 2 ^ (64 * length ap) * unat c = words_val rp + unat w * words_val ap + unat c1 \<and>
    length r = length ap"
  using assms
proof (induction c1 rp ap w arbitrary: r c rule: mul_add_words_loop.induct)
  case (1 c1 x rp a ap w)
  let ?t = "ucast w * ucast a + ucast x + ucast c1 :: u128"
  obtain r' c' where l: "mul_add_words_loop (Hw ?t) rp ap w = (r', c')" by fastforce
  from 1(1) [OF refl l] 1(3) have IH:
    "words_val r' + 2 ^ (64 * length ap) * unat c' = words_val rp + unat w * words_val ap + unat (Hw ?t)"
    "length r' = length ap" by simp_all
  from 1(2) l have rc: "r = Lw ?t # r'" "c = c'" by (simp_all add: Let_def)
  have "2 ^ 64 * (words_val r' + 2 ^ (64 * length ap) * unat c') =
      2 ^ 64 * (words_val rp + unat w * words_val ap + unat (Hw ?t))"
    unfolding IH(1) ..
  with Lw_Hw [of ?t] unat_mul_add [of w a x c1] rc IH(2) show ?case
    by (simp add: power_add algebra_simps)
qed auto

lemma bn_mul_add_words_val:
  assumes "bn_mul_add_words rp ap n w = (r, c)" "length rp = n" "length ap = n"
  shows "words_val r + 2 ^ (64 * n) * unat c = words_val rp + unat w * words_val ap" "length r = n"
  using mul_add_words_loop_val [of 0 "take n rp" "take n ap" w r c] assms by (simp_all add: bn_mul_add_words_def)

lemma mul_words_loop_add: "mul_words_loop c ap w = mul_add_words_loop c (replicate (length ap) 0) ap w"
  by (induction c ap w rule: mul_words_loop.induct) simp_all

lemma bn_mul_words_val:
  assumes "bn_mul_words ap n w = (r, c)" "length ap = n"
  shows "words_val r + 2 ^ (64 * n) * unat c = unat w * words_val ap" "length r = n"
  using mul_add_words_loop_val [of 0 "replicate n 0" "take n ap" w r c] assms
  by (simp_all add: bn_mul_words_def mul_words_loop_add)

lemma unat_sqr: "unat (ucast (a :: u64) * ucast a :: u128) = unat a * unat a"
  using unat_mul_add [of a a 0 0] by simp

fun squares_val :: "words \<Rightarrow> nat" where
  "squares_val [] = 0"
| "squares_val (w # ws) = unat w * unat w + 2 ^ 128 * squares_val ws"

lemma bn_sqr_words_val:
  "length a = n \<Longrightarrow> words_val (bn_sqr_words a n) = squares_val a \<and> length (bn_sqr_words a n) = 2 * n"
proof -
  have "words_val (sqr_words_loop a) = squares_val a \<and> length (sqr_words_loop a) = 2 * length a" for a
  proof (induction a)
    case (Cons w a)
    have "unat (Lw (ucast w * ucast w)) + 2 ^ 64 * unat (Hw (ucast w * ucast w)) = unat w * unat w"
      using Lw_Hw [of "ucast w * ucast w"] unat_sqr [of w] by simp
    with Cons show ?case by (simp add: Let_def)
  qed simp
  then show "length a = n \<Longrightarrow> ?thesis" by (simp add: bn_sqr_words_def)
qed

end
