(* ===== verification/Base64.thy ===== *)
theory Base64
  imports Prelude
begin

text \<open>
  The constant-time helpers of \<open>crypto/internal.h\<close> and \<open>crypto/base64/base64.c\<close>: block and
  streaming encoding and decoding of base64.  \<open>crypto_word_t\<close> has 64 bits.
\<close>

section \<open>Constant-time helpers\<close>

definition value_barrier_w :: "u64 \<Rightarrow> u64" where
  "value_barrier_w a = a"

definition constant_time_msb_w :: "u64 \<Rightarrow> u64" where
  "constant_time_msb_w a = 0 - drop_bit 63 a"

definition constant_time_lt_w :: "u64 \<Rightarrow> u64 \<Rightarrow> u64" where
  "constant_time_lt_w a b = constant_time_msb_w (a XOR ((a XOR b) OR ((a - b) XOR a)))"

definition constant_time_lt_8 :: "u64 \<Rightarrow> u64 \<Rightarrow> byte" where
  "constant_time_lt_8 a b = ucast (constant_time_lt_w a b)"

definition constant_time_ge_w :: "u64 \<Rightarrow> u64 \<Rightarrow> u64" where
  "constant_time_ge_w a b = NOT (constant_time_lt_w a b)"

definition constant_time_ge_8 :: "u64 \<Rightarrow> u64 \<Rightarrow> byte" where
  "constant_time_ge_8 a b = ucast (constant_time_ge_w a b)"

definition constant_time_is_zero_w :: "u64 \<Rightarrow> u64" where
  "constant_time_is_zero_w a = constant_time_msb_w (NOT a AND (a - 1))"

definition constant_time_is_zero_8 :: "u64 \<Rightarrow> byte" where
  "constant_time_is_zero_8 a = ucast (constant_time_is_zero_w a)"

definition constant_time_eq_w :: "u64 \<Rightarrow> u64 \<Rightarrow> u64" where
  "constant_time_eq_w a b = constant_time_is_zero_w (a XOR b)"

definition constant_time_eq_8 :: "u64 \<Rightarrow> u64 \<Rightarrow> byte" where
  "constant_time_eq_8 a b = ucast (constant_time_eq_w a b)"

text \<open>An \<open>int\<close> is its 32-bit word; the conversion to \<open>crypto_word_t\<close> extends the sign.\<close>

definition constant_time_eq_int :: "u32 \<Rightarrow> u32 \<Rightarrow> u64" where
  "constant_time_eq_int a b = constant_time_eq_w (scast a) (scast b)"

definition constant_time_eq_int_8 :: "u32 \<Rightarrow> u32 \<Rightarrow> byte" where
  "constant_time_eq_int_8 a b = constant_time_eq_8 (scast a) (scast b)"

definition constant_time_select_w :: "u64 \<Rightarrow> u64 \<Rightarrow> u64 \<Rightarrow> u64" where
  "constant_time_select_w msk a b = (value_barrier_w msk AND a) OR (value_barrier_w (NOT msk) AND b)"

definition constant_time_select_8 :: "byte \<Rightarrow> byte \<Rightarrow> byte \<Rightarrow> byte" where
  "constant_time_select_8 msk a b = ucast (constant_time_select_w (ucast msk) (ucast a) (ucast b))"

definition constant_time_select_int :: "u64 \<Rightarrow> u32 \<Rightarrow> u32 \<Rightarrow> u32" where
  "constant_time_select_int msk a b = ucast (constant_time_select_w msk (scast a) (scast b))"

definition constant_time_lt_args_8 :: "byte \<Rightarrow> byte \<Rightarrow> byte" where
  "constant_time_lt_args_8 a b = ucast (constant_time_msb_w (ucast a - ucast b))"

definition constant_time_in_range_8 :: "byte \<Rightarrow> byte \<Rightarrow> byte \<Rightarrow> byte" where
  "constant_time_in_range_8 a mn mx = constant_time_lt_args_8 (a - mn) (mx - mn + 1)"

section \<open>Encoding\<close>

definition conv_bin2ascii :: "byte \<Rightarrow> byte" where
  "conv_bin2ascii a =
     (let a = a AND 0x3f;
          ret = constant_time_select_8 (constant_time_eq_8 (ucast a) 62) 0x2b 0x2f;
          ret = constant_time_select_8 (constant_time_lt_args_8 a 62) (a - 52 + 0x30) ret;
          ret = constant_time_select_8 (constant_time_lt_args_8 a 52) (a - 26 + 0x61) ret;
          ret = constant_time_select_8 (constant_time_lt_args_8 a 26) (a + 0x41) ret
      in ret)"

definition EVP_EncodedLength :: "u64 \<Rightarrow> u64 option" where
  "EVP_EncodedLength len =
     (if len + 2 < len then None
      else let len = (len + 2) div 3 in
        if drop_bit 2 (push_bit 2 len) \<noteq> len then None
        else let len = push_bit 2 len in
          if len + 1 < len then None else Some (len + 1))"

text \<open>\<open>data\<close> holds the \<open>data_used\<close> valid bytes of the block.\<close>

record encode_ctx =
  data :: bytes
  eof_seen :: bool
  error_encountered :: bool

definition EVP_EncodeInit :: encode_ctx where
  "EVP_EncodeInit = \<lparr>data = [], eof_seen = False, error_encountered = False\<rparr>"

text \<open>The characters that \<open>EVP_EncodeBlock\<close> stores before the terminating NUL.\<close>

fun encode_quads :: "bytes \<Rightarrow> bytes" where
  "encode_quads [] = []"
| "encode_quads [a] =
     (let l = push_bit 16 (ucast a :: u32)
      in [conv_bin2ascii (ucast (drop_bit 18 l)), conv_bin2ascii (ucast (drop_bit 12 l)), 0x3d, 0x3d])"
| "encode_quads [a, b] =
     (let l = push_bit 16 (ucast a :: u32) OR push_bit 8 (ucast b)
      in [conv_bin2ascii (ucast (drop_bit 18 l)), conv_bin2ascii (ucast (drop_bit 12 l)),
          conv_bin2ascii (ucast (drop_bit 6 l)), 0x3d])"
| "encode_quads (a # b # c # src) =
     (let l = push_bit 16 (ucast a :: u32) OR push_bit 8 (ucast b) OR ucast c
      in [conv_bin2ascii (ucast (drop_bit 18 l)), conv_bin2ascii (ucast (drop_bit 12 l)),
          conv_bin2ascii (ucast (drop_bit 6 l)), conv_bin2ascii (ucast l)] @ encode_quads src)"

text \<open>The bytes stored at \<open>dst\<close> and the returned length.\<close>

definition EVP_EncodeBlock :: "bytes \<Rightarrow> bytes \<times> u64" where
  "EVP_EncodeBlock src = (encode_quads src @ [0], of_nat (length (encode_quads src)))"

text \<open>The loop over full lines: the characters written so far, their count as the code keeps it,
  and the input left; \<open>None\<close> for the early return on overflow of the count.\<close>

function encode_lines :: "bytes \<Rightarrow> u64 \<Rightarrow> bytes \<Rightarrow> bytes \<times> (u64 \<times> bytes) option" where
  "encode_lines out tot inp =
     (if length inp \<ge> 48 then
        let (enc, encoded) = EVP_EncodeBlock (take 48 inp);
            out = out @ take (unat encoded) enc @ [0x0a]
        in if tot + encoded + 1 < tot then (out, None)
           else encode_lines out (tot + encoded + 1) (drop 48 inp)
      else (out, Some (tot, inp)))"
  by pat_completeness auto
termination by (relation "measure (\<lambda>(_, _, inp). length inp)") auto

declare encode_lines.simps [simp del]

text \<open>The characters stored at \<open>out\<close> (each line is followed by a NUL that the next one
  overwrites, the last NUL stays), \<open>*out_len\<close>, and the context.\<close>

definition EVP_EncodeUpdate :: "encode_ctx \<Rightarrow> bytes \<Rightarrow> bytes \<times> u32 \<times> encode_ctx" where
  "EVP_EncodeUpdate ctx inp =
     (if inp = [] then ([], 0, ctx)
      else if 48 - length (data ctx) > length inp then ([], 0, ctx\<lparr>data := data ctx @ inp\<rparr>)
      else
        let (out, tot, inp) =
              (if data ctx \<noteq> [] then
                 let todo = 48 - length (data ctx);
                     (enc, encoded) = EVP_EncodeBlock (data ctx @ take todo inp)
                 in (take (unat encoded) enc @ [0x0a], encoded + 1, drop todo inp)
               else ([], 0, inp))
        in (case encode_lines out tot inp of
              (out, None) \<Rightarrow> (out @ [0], 0, ctx\<lparr>data := []\<rparr>)
            | (out, Some (tot, inp)) \<Rightarrow>
                (out @ [0], if tot > 0x7fffffff then 0 else ucast tot, ctx\<lparr>data := inp\<rparr>)))"

definition EVP_EncodeFinal :: "encode_ctx \<Rightarrow> bytes \<times> u32 \<times> encode_ctx" where
  "EVP_EncodeFinal ctx =
     (if data ctx = [] then ([], 0, ctx)
      else let (enc, encoded) = EVP_EncodeBlock (data ctx)
           in (take (unat encoded) enc @ [0x0a, 0], ucast (encoded + 1), ctx\<lparr>data := []\<rparr>))"

section \<open>Decoding\<close>

definition EVP_DecodedLength :: "u64 \<Rightarrow> u64 option" where
  "EVP_DecodedLength len = (if len mod 4 \<noteq> 0 then None else Some (len div 4 * 3))"

definition EVP_DecodeInit :: encode_ctx where
  "EVP_DecodeInit = \<lparr>data = [], eof_seen = False, error_encountered = False\<rparr>"

definition base64_ascii_to_bin :: "byte \<Rightarrow> byte" where
  "base64_ascii_to_bin a =
     (let is_upper = constant_time_in_range_8 a 0x41 0x5a;
          is_lower = constant_time_in_range_8 a 0x61 0x7a;
          is_digit = constant_time_in_range_8 a 0x30 0x39;
          is_plus = constant_time_eq_8 (ucast a) 0x2b;
          is_slash = constant_time_eq_8 (ucast a) 0x2f;
          is_equals = constant_time_eq_8 (ucast a) 0x3d;
          ret = 0xff;
          ret = constant_time_select_8 is_upper (a - 0x41) ret;
          ret = constant_time_select_8 is_lower (a - 0x61 + 26) ret;
          ret = constant_time_select_8 is_digit (a - 0x30 + 52) ret;
          ret = constant_time_select_8 is_plus 62 ret;
          ret = constant_time_select_8 is_slash 63 ret;
          ret = constant_time_select_8 is_equals 0 ret
      in ret)"

definition pad_bit :: "byte \<Rightarrow> nat \<Rightarrow> u32" where
  "pad_bit c k = (if c = 0x3d then push_bit k 1 else 0)"

text \<open>The bytes of a quad \<open>in0 in1 in2 in3\<close>, \<open>None\<close> for an invalid one.\<close>

definition base64_decode_quad :: "byte \<Rightarrow> byte \<Rightarrow> byte \<Rightarrow> byte \<Rightarrow> bytes option" where
  "base64_decode_quad in0 in1 in2 in3 =
     (let a = base64_ascii_to_bin in0; b = base64_ascii_to_bin in1;
          c = base64_ascii_to_bin in2; d = base64_ascii_to_bin in3
      in if a = 0xff \<or> b = 0xff \<or> c = 0xff \<or> d = 0xff then None
         else
           let v = push_bit 18 (ucast a :: u32) OR push_bit 12 (ucast b) OR push_bit 6 (ucast c) OR ucast d;
               padding_pattern = pad_bit in0 3 OR pad_bit in1 2 OR pad_bit in2 1 OR pad_bit in3 0
           in if padding_pattern = 0 then Some [ucast (drop_bit 16 v), ucast (drop_bit 8 v), ucast v]
              else if padding_pattern = 1 then Some [ucast (drop_bit 16 v), ucast (drop_bit 8 v)]
              else if padding_pattern = 3 then Some [ucast (drop_bit 16 v)]
              else None)"

definition is_space :: "byte \<Rightarrow> bool" where
  "is_space c \<longleftrightarrow> c = 0x20 \<or> c = 0x09 \<or> c = 0x0d \<or> c = 0x0a"

text \<open>The loop over the input: the bytes written, whether it ran to the end, and the context.\<close>

fun decode_loop :: "encode_ctx \<Rightarrow> bytes \<Rightarrow> bytes \<Rightarrow> bytes \<times> bool \<times> encode_ctx" where
  "decode_loop ctx out [] = (out, True, ctx)"
| "decode_loop ctx out (c # inp) =
     (if is_space c then decode_loop ctx out inp
      else if eof_seen ctx then (out, False, ctx\<lparr>error_encountered := True\<rparr>)
      else
        let ctx = ctx\<lparr>data := data ctx @ [c]\<rparr>
        in if length (data ctx) = 4 then
             (case base64_decode_quad (data ctx ! 0) (data ctx ! 1) (data ctx ! 2) (data ctx ! 3) of
                None \<Rightarrow> (out, False, ctx\<lparr>error_encountered := True\<rparr>)
              | Some bs \<Rightarrow>
                  let ctx = ctx\<lparr>data := []\<rparr>;
                      ctx = (if length bs < 3 then ctx\<lparr>eof_seen := True\<rparr> else ctx)
                  in decode_loop ctx (out @ bs) inp)
           else decode_loop ctx out inp)"

text \<open>The bytes written, \<open>*out_len\<close>, the result, and the context.\<close>

definition EVP_DecodeUpdate :: "encode_ctx \<Rightarrow> bytes \<Rightarrow> bytes \<times> nat \<times> int \<times> encode_ctx" where
  "EVP_DecodeUpdate ctx inp =
     (if error_encountered ctx then ([], 0, -1, ctx)
      else (case decode_loop ctx [] inp of
              (out, False, ctx) \<Rightarrow> (out, 0, -1, ctx)
            | (out, True, ctx) \<Rightarrow>
                if length out > 0x7fffffff then (out, 0, -1, ctx\<lparr>error_encountered := True\<rparr>)
                else (out, length out, if eof_seen ctx then 0 else 1, ctx)))"

definition EVP_DecodeFinal :: "encode_ctx \<Rightarrow> int" where
  "EVP_DecodeFinal ctx = (if error_encountered ctx \<or> data ctx \<noteq> [] then -1 else 1)"

text \<open>The loop over the quads of an input whose length is a multiple of four.\<close>

fun decode_quads :: "bytes \<Rightarrow> bytes option" where
  "decode_quads (a # b # c # d # inp) =
     (case base64_decode_quad a b c d of
        None \<Rightarrow> None
      | Some bs \<Rightarrow>
          if length bs \<noteq> 3 \<and> inp \<noteq> [] then None
          else map_option ((@) bs) (decode_quads inp))"
| "decode_quads _ = Some []"

definition EVP_DecodeBase64 :: "u64 \<Rightarrow> bytes \<Rightarrow> bytes option" where
  "EVP_DecodeBase64 max_out inp =
     (let in_len = of_nat (length inp) :: u64
      in if in_len mod 4 \<noteq> 0 then None
         else (case EVP_DecodedLength in_len of
                 None \<Rightarrow> None
               | Some max_len \<Rightarrow> if max_out < max_len then None else decode_quads inp))"

definition trim_block :: "bytes \<Rightarrow> bytes" where
  "trim_block src =
     rev (dropWhile is_space (rev (dropWhile (\<lambda>c. c = 0x20 \<or> c = 0x09) src)))"

text \<open>The bytes stored at \<open>dst\<close> with the NULs that replace padding; \<open>None\<close> for the result -1.\<close>

definition EVP_DecodeBlock :: "bytes \<Rightarrow> bytes option" where
  "EVP_DecodeBlock src =
     (let src = trim_block src
      in case EVP_DecodedLength (of_nat (length src)) of
           None \<Rightarrow> None
         | Some dst_len \<Rightarrow>
             if dst_len > 0x7fffffff then None
             else (case EVP_DecodeBase64 dst_len src of
                     None \<Rightarrow> None
                   | Some dst \<Rightarrow> Some (dst @ replicate ((3 - length dst mod 3) mod 3) 0)))"

section \<open>The helpers compute what their names say\<close>

lemma msb_w_eq: "constant_time_msb_w a = (if 2 ^ 63 \<le> unat a then - 1 else 0)"
proof -
  have "unat a div 2 ^ 63 < 2" by (rule less_mult_imp_div_less) (use unsigned_less [of a, where 'a = nat] in simp)
  then have d: "unat a div 2 ^ 63 = (if 2 ^ 63 \<le> unat a then 1 else 0)"
    by (cases "2 ^ 63 \<le> unat a") (simp_all add: div_greater_zero_iff not_le div_eq_0_iff)
  have "drop_bit 63 a = (if 2 ^ 63 \<le> unat a then 1 else 0)"
    by (simp only: word_nat_lift unat_drop_bit d) simp
  then show ?thesis by (simp add: constant_time_msb_w_def)
qed

lemma bit_63: "bit (a :: u64) 63 \<longleftrightarrow> 2 ^ 63 \<le> unat a"
proof -
  have "unat a div 2 ^ 63 < 2" by (rule less_mult_imp_div_less) (use unsigned_less [of a, where 'a = nat] in simp)
  moreover have "bit a 63 \<longleftrightarrow> odd (unat a div 2 ^ 63)"
    using bit_unsigned_iff [of a 63, where 'a = nat] by (simp add: bit_iff_odd)
  ultimately show ?thesis
    by (cases "2 ^ 63 \<le> unat a") (auto simp: not_le div_eq_0_iff dest: less_2_cases)
qed

lemma unat_minus_word:
  fixes a b :: "'a::len word"
  shows "unat (a - b) = (if b \<le> a then unat a - unat b else 2 ^ LENGTH('a) + unat a - unat b)"
  by (simp add: unat_sub_if' word_le_nat_alt add.commute)

lemma lt_w_eq: "constant_time_lt_w a b = (if a < b then - 1 else 0)"
proof -
  have a: "unat a < 2 ^ 64" and b: "unat b < 2 ^ 64"
    using unsigned_less [of a, where 'a = nat] unsigned_less [of b, where 'a = nat] by simp_all
  have d: "bit (a - b) 63 \<longleftrightarrow> a < b" if "bit a 63 \<longleftrightarrow> bit b 63"
    using that a b unfolding bit_63 unat_minus_word word_le_nat_alt word_less_nat_alt by auto
  have "bit (a XOR ((a XOR b) OR ((a - b) XOR a))) 63 \<longleftrightarrow> a < b"
  proof (cases "bit a 63 \<longleftrightarrow> bit b 63")
    case True
    then show ?thesis using d by (auto simp: bit_xor_iff bit_or_iff)
  next
    case False
    then have "a < b \<longleftrightarrow> bit b 63" unfolding bit_63 word_less_nat_alt by auto
    with False show ?thesis by (auto simp: bit_xor_iff bit_or_iff)
  qed
  then show ?thesis by (simp add: constant_time_lt_w_def msb_w_eq bit_63)
qed

lemma is_zero_w_eq: "constant_time_is_zero_w a = (if a = 0 then - 1 else 0)"
proof -
  have "bit (NOT a AND (a - 1)) 63 \<longleftrightarrow> a = 0"
  proof (cases "a = 0")
    case False
    then have "1 \<le> a" by (simp add: word_le_nat_alt Suc_le_eq unat_gt_0)
    then have "unat (a - 1) = unat a - 1" by (simp add: unat_minus_word)
    then have "\<not> (\<not> bit a 63 \<and> bit (a - 1) 63)" unfolding bit_63 by linarith
    with False show ?thesis by (simp add: bit_and_iff bit_not_iff)
  qed simp
  then show ?thesis by (simp add: constant_time_is_zero_w_def msb_w_eq bit_63)
qed

lemma eq_w_eq: "constant_time_eq_w a b = (if a = b then - 1 else 0)"
  by (auto simp: constant_time_eq_w_def is_zero_w_eq bit_eq_iff bit_xor_iff)

lemma select_w_eq:
  "constant_time_select_w (- 1) a b = a" "constant_time_select_w 0 a b = b"
  by (simp_all add: constant_time_select_w_def value_barrier_w_def)

lemma ucast_minus_one: "ucast (- 1 :: u64) = (0xff :: byte)"
  by code_simp

lemma ucast_ucast_byte: "ucast (ucast b :: u64) = (b :: byte)"
  by (rule bit_eqI) (auto simp: bit_simps dest: bit_imp_le_length)

lemma select_8_eq:
  "constant_time_select_8 0xff a b = a" "constant_time_select_8 0 a b = b"
proof -
  have m: "(0xff :: u64) = mask 8" by (simp add: mask_eq_exp_minus_1)
  have "ucast ((mask 8 AND ucast a) OR (NOT (mask 8) AND ucast b) :: u64) = a" for a b :: byte
    by (rule bit_eqI) (auto simp: bit_simps dest: bit_imp_le_length)
  then show "constant_time_select_8 0xff a b = a"
    by (simp add: constant_time_select_8_def constant_time_select_w_def value_barrier_w_def m)
  show "constant_time_select_8 0 a b = b"
    by (simp add: constant_time_select_8_def constant_time_select_w_def value_barrier_w_def
        ucast_ucast_byte)
qed

section \<open>Characters and sextets\<close>

lemma wrapped_less:
  fixes a b :: nat
  assumes "a < 256" "b < 256"
  shows "2 ^ 63 \<le> (if b \<le> a then a - b else 2 ^ 64 + a - b) \<longleftrightarrow> a < b"
  using assms by auto

lemma wrapped_range:
  fixes a mn mx :: nat
  assumes "a < 256" "mn \<le> mx" "mx < 256"
  shows "(if mn \<le> a then a - mn else 256 + a - mn) < mx - mn + 1 \<longleftrightarrow> mn \<le> a \<and> a \<le> mx"
  using assms by auto

lemma lt_args_8_eq: "constant_time_lt_args_8 a b = (if a < b then 0xff else 0)"
proof -
  have "unat (ucast a - ucast b :: u64) = (if unat b \<le> unat a then unat a - unat b else 2 ^ 64 + unat a - unat b)"
    by (simp add: unat_minus_word word_le_nat_alt)
  then have "2 ^ 63 \<le> unat (ucast a - ucast b :: u64) \<longleftrightarrow> a < b"
    unfolding word_less_nat_alt by (simp only: wrapped_less [OF unat_byte_less unat_byte_less])
  then show ?thesis by (simp add: constant_time_lt_args_8_def msb_w_eq ucast_minus_one)
qed

lemma eq_8_eq: "constant_time_eq_8 a b = (if a = b then 0xff else 0)"
  by (simp add: constant_time_eq_8_def eq_w_eq ucast_minus_one)

lemma in_range_8_eq:
  assumes "unat mn \<le> unat mx" "unat mx - unat mn < 255"
  shows "constant_time_in_range_8 a mn mx = (if mn \<le> a \<and> a \<le> mx then 0xff else 0)"
proof -
  have "unat (mx - mn) = unat mx - unat mn" using assms(1) by (simp add: unat_minus_word word_le_nat_alt)
  then have w: "unat (mx - mn + 1) = unat mx - unat mn + 1"
    using assms(2) by (simp add: unat_word_ariths)
  have s: "unat (a - mn) = (if unat mn \<le> unat a then unat a - unat mn else 256 + unat a - unat mn)"
    by (simp add: unat_minus_word word_le_nat_alt)
  have "a - mn < mx - mn + 1 \<longleftrightarrow> mn \<le> a \<and> a \<le> mx"
    unfolding word_less_nat_alt word_le_nat_alt s w
    by (rule wrapped_range [OF unat_byte_less assms(1) unat_byte_less])
  then show ?thesis by (simp add: constant_time_in_range_8_def lt_args_8_eq)
qed

definition sextet_char :: "nat \<Rightarrow> nat" where
  "sextet_char k = (if k < 26 then 65 + k else if k < 52 then 71 + k else if k < 62 then k - 4
     else if k = 62 then 43 else 47)"

definition char_value :: "nat \<Rightarrow> nat" where
  "char_value n = (if n = 61 then 0 else if n = 47 then 63 else if n = 43 then 62
     else if 48 \<le> n \<and> n \<le> 57 then n + 4 else if 97 \<le> n \<and> n \<le> 122 then n - 71
     else if 65 \<le> n \<and> n \<le> 90 then n - 65 else 255)"

lemma unat_conv_bin2ascii: "unat (conv_bin2ascii a) = sextet_char (unat a mod 64)"
proof -
  let ?a = "a AND 0x3f"
  have u: "unat ?a = unat a mod 64" by (simp only: byte_simps)
  have eq: "(ucast ?a :: u64) = 62 \<longleftrightarrow> unat a mod 64 = 62"
    by (simp only: word_nat_lift unat_ucast_byte u) simp
  have lt: "?a < 62 \<longleftrightarrow> unat a mod 64 < 62" "?a < 52 \<longleftrightarrow> unat a mod 64 < 52" "?a < 26 \<longleftrightarrow> unat a mod 64 < 26"
    by (simp_all only: word_less_nat_alt u) simp_all
  have v: "unat a mod 64 < 26 \<Longrightarrow> unat (?a + 0x41) = 65 + unat a mod 64"
    "26 \<le> unat a mod 64 \<Longrightarrow> unat a mod 64 < 52 \<Longrightarrow> unat (?a - 26 + 0x61) = 71 + unat a mod 64"
    "52 \<le> unat a mod 64 \<Longrightarrow> unat a mod 64 < 62 \<Longrightarrow> unat (?a - 52 + 0x30) = unat a mod 64 - 4"
    by (simp_all add: unat_word_ariths unat_minus_word word_le_nat_alt u del: unat_byte_less)
  have lt64: "unat a mod 64 < 64" by simp
  show ?thesis
    unfolding conv_bin2ascii_def Let_def lt_args_8_eq eq_8_eq eq lt sextet_char_def
    using v lt64 by (auto simp: select_8_eq)
qed

lemma unat_base64_ascii_to_bin: "unat (base64_ascii_to_bin c) = char_value (unat c)"
proof -
  have eq: "(ucast c :: u64) = 0x2b \<longleftrightarrow> unat c = 43" "(ucast c :: u64) = 0x2f \<longleftrightarrow> unat c = 47"
    "(ucast c :: u64) = 0x3d \<longleftrightarrow> unat c = 61"
    by (simp_all only: word_nat_lift unat_ucast_byte) simp_all
  have r: "constant_time_in_range_8 c 0x41 0x5a = (if 65 \<le> unat c \<and> unat c \<le> 90 then 0xff else 0)"
    "constant_time_in_range_8 c 0x61 0x7a = (if 97 \<le> unat c \<and> unat c \<le> 122 then 0xff else 0)"
    "constant_time_in_range_8 c 0x30 0x39 = (if 48 \<le> unat c \<and> unat c \<le> 57 then 0xff else 0)"
    by (simp_all add: in_range_8_eq word_le_nat_alt)
  have v: "65 \<le> unat c \<Longrightarrow> unat c \<le> 90 \<Longrightarrow> unat (c - 0x41) = unat c - 65"
    "97 \<le> unat c \<Longrightarrow> unat c \<le> 122 \<Longrightarrow> unat (c - 0x61 + 26) = unat c - 71"
    "48 \<le> unat c \<Longrightarrow> unat c \<le> 57 \<Longrightarrow> unat (c - 0x30 + 52) = unat c + 4"
    by (simp_all add: unat_word_ariths unat_minus_word word_le_nat_alt)
  show ?thesis
    unfolding base64_ascii_to_bin_def Let_def eq_8_eq eq r char_value_def
    using v by (auto simp: select_8_eq)
qed

lemma char_value_sextet: "k < 64 \<Longrightarrow> char_value (sextet_char k) = k"
  by (auto simp: char_value_def sextet_char_def)

lemma conv_props:
  "unat (base64_ascii_to_bin (conv_bin2ascii a)) = unat a mod 64"
  "conv_bin2ascii a \<noteq> 0x3d" "\<not> is_space (conv_bin2ascii a)"
proof -
  have k: "unat a mod 64 < 64" by simp
  show "unat (base64_ascii_to_bin (conv_bin2ascii a)) = unat a mod 64"
    by (simp add: unat_base64_ascii_to_bin unat_conv_bin2ascii char_value_sextet)
  have "sextet_char (unat a mod 64) \<notin> {61, 32, 9, 13, 10}"
    using k by (auto simp: sextet_char_def)
  then have "unat (conv_bin2ascii a) \<notin> {61, 32, 9, 13, 10}" by (simp add: unat_conv_bin2ascii)
  then show "conv_bin2ascii a \<noteq> 0x3d" "\<not> is_space (conv_bin2ascii a)"
    by (auto simp: is_space_def)
qed


section \<open>Quads\<close>

lemma nested_or:
  fixes x y z w :: u32
  shows "push_bit 18 x OR push_bit 12 y OR push_bit 6 z OR w = push_bit 6 (push_bit 6 (push_bit 6 x OR y) OR z) OR w"
    "push_bit 16 x OR push_bit 8 y OR z = push_bit 8 (push_bit 8 x OR y) OR z"
  by (simp_all add: or.assoc)

lemma unat_triple:
  fixes a b c :: byte
  shows "unat (push_bit 16 (ucast a :: u32) OR push_bit 8 (ucast b) OR ucast c) = 65536 * unat a + 256 * unat b + unat c"
proof -
  have s: "65536 * a + 256 * b + c < 2 ^ 32" "256 * a + b < 2 ^ 32"
    if "a < 256" "b < 256" "c < 256" for a b c :: nat using that by simp_all
  have i: "unat (push_bit 8 (ucast a) OR ucast b :: u32) = 256 * unat a + unat b"
    using unat_push_bit_or [of "ucast b :: u32" 8 "ucast a"] s(2) [of "unat a" "unat b" "unat c"]
    by simp
  show ?thesis
    unfolding nested_or
    using unat_push_bit_or [of "ucast c :: u32" 8 "push_bit 8 (ucast a) OR ucast b", unfolded i]
      s(1) [of "unat a" "unat b" "unat c"] by simp
qed

lemma unat_sextets:
  fixes x y z w :: byte
  assumes "unat x < 64" "unat y < 64" "unat z < 64" "unat w < 64"
  shows "unat (push_bit 18 (ucast x :: u32) OR push_bit 12 (ucast y) OR push_bit 6 (ucast z) OR ucast w)
    = 262144 * unat x + (4096 * unat y + (64 * unat z + unat w))"
proof -
  have i: "unat (push_bit 6 (ucast x) OR ucast y :: u32) = 64 * unat x + unat y"
    using unat_push_bit_or [of "ucast y :: u32" 6 "ucast x"] assms by simp
  have j: "unat (push_bit 6 (push_bit 6 (ucast x) OR ucast y) OR ucast z :: u32) = 64 * (64 * unat x + unat y) + unat z"
    using unat_push_bit_or [of "ucast z :: u32" 6 "push_bit 6 (ucast x) OR ucast y", unfolded i] assms by simp
  show ?thesis
    unfolding nested_or
    using unat_push_bit_or [of "ucast w :: u32" 6 "push_bit 6 (push_bit 6 (ucast x) OR ucast y) OR ucast z", unfolded j]
      assms by simp
qed

lemma sextet_parts:
  fixes n :: nat
  assumes "n < 2 ^ 24"
  shows "262144 * (n div 262144 mod 64) + (4096 * (n div 4096 mod 64) + (64 * (n div 64 mod 64) + n mod 64)) = n"
proof -
  let ?a = "n div 64" and ?b = "n div 64 div 64" and ?c = "n div 64 div 64 div 64"
  have d: "n div 4096 = ?b" "n div 262144 = ?c" by (simp_all add: div_mult2_eq [symmetric])
  have "n div 262144 < 64" using assms by (simp add: div_less_iff_less_mult)
  then have c: "?c mod 64 = ?c" unfolding d by (rule mod_less)
  have "n = 64 * ?a + n mod 64" "?a = 64 * ?b + ?a mod 64" "?b = 64 * ?c + ?b mod 64"
    by (rule mult_div_mod_eq [symmetric])+
  then show ?thesis unfolding d c by linarith
qed

text \<open>Decoding a quad whose first \<open>n + 1\<close> characters stand for sextets and whose other
  characters are padding.\<close>

lemma decode_quad_sextets:
  defines "s \<equiv> \<lambda>L k. (ucast (drop_bit k (L :: u32)) :: byte)"
  assumes "unat L < 2 ^ 24"
  shows "base64_decode_quad (conv_bin2ascii (s L 18)) (conv_bin2ascii (s L 12)) (conv_bin2ascii (s L 6)) (conv_bin2ascii (s L 0))
      = Some [ucast (drop_bit 16 L), ucast (drop_bit 8 L), ucast L]"
    "unat L mod 64 = 0 \<Longrightarrow>
      base64_decode_quad (conv_bin2ascii (s L 18)) (conv_bin2ascii (s L 12)) (conv_bin2ascii (s L 6)) 0x3d
      = Some [ucast (drop_bit 16 L), ucast (drop_bit 8 L)]"
    "unat L mod 4096 = 0 \<Longrightarrow>
      base64_decode_quad (conv_bin2ascii (s L 18)) (conv_bin2ascii (s L 12)) 0x3d 0x3d = Some [ucast (drop_bit 16 L)]"
proof -
  let ?v = "\<lambda>k. base64_ascii_to_bin (conv_bin2ascii (s L k))"
  have sk: "unat (?v k) = unat L div 2 ^ k mod 64" for k
  proof -
    have "unat L div 2 ^ k mod 256 mod 64 = unat L div 2 ^ k mod 64" by (simp add: mod_mod_cancel)
    then show ?thesis by (simp only: conv_props(1) s_def unat_ucast_narrow unat_drop_bit) simp
  qed
  then have lt: "unat (?v k) < 64" for k by simp
  have nff: "?v k \<noteq> 0xff" for k using lt [of k] by (auto simp: word_nat_lift)
  have eq: "unat (base64_ascii_to_bin 0x3d) = 0" "base64_ascii_to_bin 0x3d \<noteq> 0xff"
    by (simp_all add: unat_base64_ascii_to_bin char_value_def word_nat_lift)
  have pad: "pad_bit (conv_bin2ascii (s L k)) j = 0" for k j by (simp add: pad_bit_def conv_props)
  note sx = unat_sextets [OF lt lt]
  have sks: "unat (?v 18) = unat L div 262144 mod 64" "unat (?v 12) = unat L div 4096 mod 64"
    "unat (?v 6) = unat L div 64 mod 64" "unat (?v 0) = unat L mod 64"
    using sk [of 18] sk [of 12] sk [of 6] sk [of 0] by simp_all
  note parts = sextet_parts [OF assms(2)]
  have v: "push_bit 18 (ucast (?v 18)) OR push_bit 12 (ucast (?v 12)) OR push_bit 6 (ucast (?v 6)) OR ucast (?v 0) = L"
    by (simp only: word_nat_lift sx [OF lt lt] sks parts)
  show "base64_decode_quad (conv_bin2ascii (s L 18)) (conv_bin2ascii (s L 12)) (conv_bin2ascii (s L 6)) (conv_bin2ascii (s L 0))
      = Some [ucast (drop_bit 16 L), ucast (drop_bit 8 L), ucast L]"
    unfolding base64_decode_quad_def Let_def v by (simp add: nff pad)
  have z: "unat (base64_ascii_to_bin 0x3d) < 64" by (simp add: eq(1))
  show "base64_decode_quad (conv_bin2ascii (s L 18)) (conv_bin2ascii (s L 12)) (conv_bin2ascii (s L 6)) 0x3d
      = Some [ucast (drop_bit 16 L), ucast (drop_bit 8 L)]" if m: "unat L mod 64 = 0"
  proof -
    have v: "push_bit 18 (ucast (?v 18)) OR push_bit 12 (ucast (?v 12)) OR push_bit 6 (ucast (?v 6))
        OR ucast (base64_ascii_to_bin 0x3d) = L"
      using parts m by (simp only: word_nat_lift sx [OF lt z] sks eq)
    show ?thesis
      unfolding base64_decode_quad_def Let_def v by (simp add: nff eq pad_bit_def conv_props)
  qed
  show "base64_decode_quad (conv_bin2ascii (s L 18)) (conv_bin2ascii (s L 12)) 0x3d 0x3d = Some [ucast (drop_bit 16 L)]"
    if m: "unat L mod 4096 = 0"
  proof -
    have "unat L mod 64 = 0" "unat L div 64 mod 64 = 0"
      using m mod_mult2_eq [of "unat L" 64 64] by simp_all
    then have v: "push_bit 18 (ucast (?v 18)) OR push_bit 12 (ucast (?v 12)) OR push_bit 6 (ucast (base64_ascii_to_bin 0x3d))
        OR ucast (base64_ascii_to_bin 0x3d) = L"
      using parts by (simp only: word_nat_lift sx [OF z z] sks eq)
    show ?thesis
      unfolding base64_decode_quad_def Let_def v by (simp add: nff eq pad_bit_def conv_props)
  qed
qed


lemma bytes_of_triple:
  fixes a b c :: byte
  defines "L \<equiv> push_bit 16 (ucast a :: u32) OR push_bit 8 (ucast b) OR ucast c"
  shows "(ucast (drop_bit 16 L) :: byte) = a" "(ucast (drop_bit 8 L) :: byte) = b" "(ucast L :: byte) = c"
    "unat L < 2 ^ 24"
proof -
  have u: "unat L = 256 * (256 * unat a + unat b) + unat c" by (simp add: L_def unat_triple)
  have d: "(256 * x + y) div 256 = x" "(256 * x + y) mod 256 = y" if "y < 256" for x y :: nat
    using that by simp_all
  have n: "n div 65536 = n div 256 div 256" for n :: nat by (simp add: div_mult2_eq [symmetric])
  have "unat L div 65536 = unat a" "unat L div 256 = 256 * unat a + unat b" "unat L mod 256 = unat c"
    unfolding u n by (simp_all only: d [OF unat_byte_less])
  then show "(ucast (drop_bit 16 L) :: byte) = a" "(ucast (drop_bit 8 L) :: byte) = b" "(ucast L :: byte) = c"
    by (simp_all add: word_nat_lift unat_ucast_narrow unat_drop_bit)
  have "256 * (256 * a + b) + c < 2 ^ 24" if "a < 256" "b < 256" "c < 256" for a b c :: nat
    using that by simp
  from this [OF unat_byte_less unat_byte_less unat_byte_less] show "unat L < 2 ^ 24" by (simp only: u)
qed

lemma pad_triple:
  fixes a b :: byte
  shows "push_bit 16 (ucast a :: u32) = push_bit 16 (ucast a) OR push_bit 8 (ucast (0 :: byte)) OR ucast (0 :: byte)"
    "push_bit 16 (ucast a :: u32) OR push_bit 8 (ucast b) = push_bit 16 (ucast a) OR push_bit 8 (ucast b) OR ucast (0 :: byte)"
  by simp_all

text \<open>A quad for one, two or three bytes is decoded to these bytes.\<close>

lemma decode_encode_quad:
  fixes a b c :: byte
  shows "\<exists>p q r s. encode_quads [a] = [p, q, r, s] \<and> base64_decode_quad p q r s = Some [a] \<and>
      (\<forall>x \<in> {p, q, r, s}. \<not> is_space x)"
    "\<exists>p q r s. encode_quads [a, b] = [p, q, r, s] \<and> base64_decode_quad p q r s = Some [a, b] \<and>
      (\<forall>x \<in> {p, q, r, s}. \<not> is_space x)"
    "\<exists>p q r s. encode_quads (a # b # c # src) = [p, q, r, s] @ encode_quads src \<and>
      base64_decode_quad p q r s = Some [a, b, c] \<and> (\<forall>x \<in> {p, q, r, s}. \<not> is_space x)"
proof -
  have sp: "\<not> is_space 0x3d" by (simp add: is_space_def)
  let ?L1 = "push_bit 16 (ucast a :: u32)"
  note t1 = bytes_of_triple [of a 0 0, folded pad_triple(1)]
  have "unat ?L1 = 65536 * unat a" using unat_triple [of a 0 0] by simp
  then have m1: "unat ?L1 mod 4096 = 0" by (simp add: mod_mult_left_eq [symmetric])
  from decode_quad_sextets(3) [OF t1(4) m1] t1(1) show
    "\<exists>p q r s. encode_quads [a] = [p, q, r, s] \<and> base64_decode_quad p q r s = Some [a] \<and>
      (\<forall>x \<in> {p, q, r, s}. \<not> is_space x)"
    by (simp add: Let_def conv_props sp)
  let ?L2 = "push_bit 16 (ucast a :: u32) OR push_bit 8 (ucast b)"
  note t2 = bytes_of_triple [of a b 0, folded pad_triple(2)]
  have "unat ?L2 = 65536 * unat a + 256 * unat b" using unat_triple [of a b 0] by simp
  then have "unat ?L2 = 64 * (1024 * unat a + 4 * unat b)" by simp
  then have m2: "unat ?L2 mod 64 = 0" by (metis mod_mult_self1_is_0)
  from decode_quad_sextets(2) [OF t2(4) m2] t2(1,2) show
    "\<exists>p q r s. encode_quads [a, b] = [p, q, r, s] \<and> base64_decode_quad p q r s = Some [a, b] \<and>
      (\<forall>x \<in> {p, q, r, s}. \<not> is_space x)"
    by (simp add: Let_def conv_props sp)
  note t3 = bytes_of_triple [of a b c]
  from decode_quad_sextets(1) [OF t3(4)] t3(1-3) show
    "\<exists>p q r s. encode_quads (a # b # c # src) = [p, q, r, s] @ encode_quads src \<and>
      base64_decode_quad p q r s = Some [a, b, c] \<and> (\<forall>x \<in> {p, q, r, s}. \<not> is_space x)"
    by (simp add: Let_def conv_props)
qed

lemma decode_quads_encode: "decode_quads (encode_quads src) = Some src"
proof (induction src rule: encode_quads.induct)
  case 1
  then show ?case by simp
next
  case (2 a)
  from decode_encode_quad(1) [of a] show ?case by fastforce
next
  case (3 a b)
  from decode_encode_quad(2) [of a b] show ?case by fastforce
next
  case (4 a b c src)
  from decode_encode_quad(3) [of a b c src] obtain p q r s where
    "encode_quads (a # b # c # src) = [p, q, r, s] @ encode_quads src" "base64_decode_quad p q r s = Some [a, b, c]"
    by blast
  with 4 show ?case by simp
qed

lemma length_encode_quads: "length (encode_quads src) = 4 * ((length src + 2) div 3)"
proof (induction src rule: encode_quads.induct)
  case (4 a b c src)
  have "(length (a # b # c # src) + 2) div 3 = Suc ((length src + 2) div 3)"
    using div_add_self2 [of 3 "length src + 2"] by simp
  with 4 show ?case by (simp add: Let_def)
qed (simp_all add: Let_def)

section \<open>Streaming\<close>

text \<open>The full lines of an input and what is left for the next call.\<close>

function lines48 :: "bytes \<Rightarrow> bytes" where
  "lines48 inp = (if length inp \<ge> 48 then encode_quads (take 48 inp) @ [0x0a] @ lines48 (drop 48 inp) else [])"
  by pat_completeness auto
termination by (relation "measure length") auto

function rest48 :: "bytes \<Rightarrow> bytes" where
  "rest48 inp = (if length inp \<ge> 48 then rest48 (drop 48 inp) else inp)"
  by pat_completeness auto
termination by (relation "measure length") auto

declare lines48.simps [simp del] rest48.simps [simp del]

lemma lines48_append:
  "lines48 (xs @ ys) = lines48 xs @ lines48 (rest48 xs @ ys) \<and> rest48 (xs @ ys) = rest48 (rest48 xs @ ys)"
proof (induction xs rule: lines48.induct)
  case (1 xs)
  show ?case
  proof (cases "length xs \<ge> 48")
    case True
    then have t: "take 48 (xs @ ys) = take 48 xs" "drop 48 (xs @ ys) = drop 48 xs @ ys" by simp_all
    show ?thesis
      using 1 True t lines48.simps [of "xs @ ys"] lines48.simps [of xs] rest48.simps [of "xs @ ys"] rest48.simps [of xs]
      by simp
  next
    case False
    then show ?thesis by (simp add: lines48.simps [of xs] rest48.simps [of xs])
  qed
qed

lemma length_rest48_le: "length (rest48 xs) \<le> length xs"
proof (induction xs rule: rest48.induct)
  case (1 xs)
  then show ?case by (cases "length xs \<ge> 48") (simp_all add: rest48.simps [of xs])
qed

lemma length_rest48: "length (rest48 xs) < 48"
  by (induction xs rule: rest48.induct) (simp add: rest48.simps)


lemma unat_64: "unat (64 :: u64) = 64"
  by simp

lemma encode_block_full:
  assumes "length src = 48"
  shows "EVP_EncodeBlock src = (encode_quads src @ [0], 64)" "length (encode_quads src) = 64"
proof -
  show "length (encode_quads src) = 64" using assms by (simp add: length_encode_quads)
  then show "EVP_EncodeBlock src = (encode_quads src @ [0], 64)" by (simp add: EVP_EncodeBlock_def)
qed

lemma length_lines48: "length (lines48 inp) \<le> 2 * length inp"
proof (induction inp rule: lines48.induct)
  case (1 inp)
  show ?case
  proof (cases "length inp \<ge> 48")
    case True
    then have "length (lines48 inp) = 65 + length (lines48 (drop 48 inp))"
      by (simp add: lines48.simps [of inp] encode_block_full)
    with 1 True show ?thesis by simp
  qed (simp add: lines48.simps)
qed

lemma encode_lines_eq:
  "unat tot + length (lines48 inp) < 2 ^ 64 \<Longrightarrow>
    encode_lines out tot inp = (out @ lines48 inp, Some (tot + of_nat (length (lines48 inp)), rest48 inp))"
proof (induction out tot inp rule: encode_lines.induct)
  case (1 out tot inp)
  show ?case
  proof (cases "length inp \<ge> 48")
    case True
    let ?q = "encode_quads (take 48 inp)"
    have b: "EVP_EncodeBlock (take 48 inp) = (?q @ [0], 64)" "length ?q = 64"
      using True by (simp_all add: encode_block_full)
    have l: "lines48 inp = ?q @ [0x0a] @ lines48 (drop 48 inp)" "rest48 inp = rest48 (drop 48 inp)"
      using True by (simp_all add: lines48.simps [of inp] rest48.simps [of inp])
    have u: "unat (tot + 64 + 1) = unat tot + 65"
      using "1.prems" l b by (simp add: unat_word_ariths)
    then have nw: "\<not> tot + 64 + 1 < tot" by (simp add: word_less_nat_alt)
    have "unat (tot + 64 + 1) + length (lines48 (drop 48 inp)) < 2 ^ 64"
      using "1.prems" l b u by simp
    from "1.IH" [OF True refl b(1) [symmetric] refl nw this]
    have IH: "encode_lines (out @ ?q @ [0x0a]) (tot + 64 + 1) (drop 48 inp) =
      (out @ ?q @ [0x0a] @ lines48 (drop 48 inp), Some (tot + 64 + 1 + of_nat (length (lines48 (drop 48 inp))), rest48 (drop 48 inp)))"
      using b(2) by simp
    show ?thesis
      using True b nw IH l by (simp add: encode_lines.simps [of out tot inp] add.assoc)
  next
    case False
    then show ?thesis
      by (simp add: encode_lines.simps [of out tot inp] lines48.simps [of inp] rest48.simps [of inp])
  qed
qed

text \<open>What one call produces: the full lines of the pending bytes and the input.\<close>

lemma EVP_EncodeUpdate_eq:
  assumes "length (data ctx) < 48" "length inp < 2 ^ 29"
  shows "\<exists>out n ctx'. EVP_EncodeUpdate ctx inp = (out, n, ctx') \<and> take (unat n) out = lines48 (data ctx @ inp) \<and>
    unat n \<le> length out \<and> data ctx' = rest48 (data ctx @ inp) \<and> length (data ctx') < 48"
proof -
  let ?all = "data ctx @ inp"
  have len: "length (lines48 ?all) < 2 ^ 31 - 1" using length_lines48 [of ?all] assms by simp
  have short: "lines48 ?all = [] \<and> rest48 ?all = ?all" if "length ?all < 48"
    using that by (simp add: lines48.simps rest48.simps)
  have small: "unat (of_nat (length (lines48 ?all)) :: u64) = length (lines48 ?all)"
    using len by (simp add: unat_of_nat)
  then have fin: "\<not> (of_nat (length (lines48 ?all)) :: u64) > 0x7fffffff"
      "unat (ucast (of_nat (length (lines48 ?all)) :: u64) :: u32) = length (lines48 ?all)"
    using len by (simp_all add: word_less_nat_alt unat_ucast_narrow)
  consider (empty) "inp = []" | (buffered) "inp \<noteq> []" "48 - length (data ctx) > length inp"
    | (fresh) "inp \<noteq> []" "\<not> 48 - length (data ctx) > length inp" "data ctx = []"
    | (pending) "inp \<noteq> []" "\<not> 48 - length (data ctx) > length inp" "data ctx \<noteq> []" by blast
  then show ?thesis
  proof cases
    case empty
    then show ?thesis using assms short by (simp add: EVP_EncodeUpdate_def)
  next
    case buffered
    then have "length ?all < 48" using assms by simp
    with buffered short show ?thesis by (simp add: EVP_EncodeUpdate_def)
  next
    case fresh
    have "encode_lines [] 0 inp = (lines48 inp, Some (of_nat (length (lines48 inp)), rest48 inp))"
      using encode_lines_eq [of 0 inp "[]"] len fresh(3) by simp
    with fresh fin len length_rest48 [of inp] show ?thesis by (simp add: EVP_EncodeUpdate_def)
  next
    case pending
    let ?todo = "48 - length (data ctx)"
    let ?blk = "data ctx @ take ?todo inp"
    have t: "length ?blk = 48" "take 48 ?all = ?blk" "drop 48 ?all = drop ?todo inp" "length ?all \<ge> 48"
      using pending assms by simp_all
    note b = encode_block_full [OF t(1)]
    have l: "lines48 ?all = encode_quads ?blk @ [0x0a] @ lines48 (drop ?todo inp)" "rest48 ?all = rest48 (drop ?todo inp)"
      using t by (simp_all add: lines48.simps [of ?all] rest48.simps [of ?all])
    have "encode_lines (encode_quads ?blk @ [0x0a]) 65 (drop ?todo inp) =
      (lines48 ?all, Some (of_nat (length (lines48 ?all)), rest48 ?all))"
      using encode_lines_eq [of 65 "drop ?todo inp" "encode_quads ?blk @ [0x0a]"] len l b by simp
    then have "EVP_EncodeUpdate ctx inp = (lines48 ?all @ [0],
        if (of_nat (length (lines48 ?all)) :: u64) > 0x7fffffff then 0 else ucast (of_nat (length (lines48 ?all)) :: u64),
        ctx\<lparr>data := rest48 ?all\<rparr>)"
      using pending b by (simp add: EVP_EncodeUpdate_def Let_def)
    with fin length_rest48 [of ?all] show ?thesis by simp
  qed
qed


lemma EVP_EncodeFinal_eq:
  assumes "length (data ctx) < 48"
  shows "\<exists>out n. EVP_EncodeFinal ctx = (out, n, ctx\<lparr>data := []\<rparr>) \<and>
    take (unat n) out = (if data ctx = [] then [] else encode_quads (data ctx) @ [0x0a])"
proof -
  have len: "length (encode_quads (data ctx)) \<le> 64"
    using assms by (simp add: length_encode_quads)
  then have "unat (of_nat (length (encode_quads (data ctx))) :: u64) = length (encode_quads (data ctx))"
    "unat (ucast (of_nat (length (encode_quads (data ctx))) + 1 :: u64) :: u32) = length (encode_quads (data ctx)) + 1"
    by (simp_all add: unat_of_nat unat_ucast_narrow unat_word_ariths)
  then show ?thesis by (simp add: EVP_EncodeFinal_def EVP_EncodeBlock_def Let_def)
qed

text \<open>Encoding a message given in pieces.\<close>

fun encode_stream :: "encode_ctx \<Rightarrow> bytes list \<Rightarrow> bytes" where
  "encode_stream ctx [] = (case EVP_EncodeFinal ctx of (out, n, _) \<Rightarrow> take (unat n) out)"
| "encode_stream ctx (inp # inps) =
     (case EVP_EncodeUpdate ctx inp of (out, n, ctx) \<Rightarrow> take (unat n) out @ encode_stream ctx inps)"

definition base64_lines :: "bytes \<Rightarrow> bytes" where
  "base64_lines msg = lines48 msg @ (if rest48 msg = [] then [] else encode_quads (rest48 msg) @ [0x0a])"

lemma encode_stream_eq:
  "length (data ctx) < 48 \<Longrightarrow> (\<And>inp. inp \<in> set inps \<Longrightarrow> length inp < 2 ^ 29) \<Longrightarrow>
    encode_stream ctx inps = base64_lines (data ctx @ concat inps)"
proof (induction inps arbitrary: ctx)
  case Nil
  have "lines48 (data ctx) = []" "rest48 (data ctx) = data ctx"
    using Nil by (simp_all add: lines48.simps rest48.simps)
  with EVP_EncodeFinal_eq [OF Nil(1)] show ?case by (auto simp: base64_lines_def)
next
  case (Cons inp inps)
  from EVP_EncodeUpdate_eq [OF Cons.prems(1), of inp] Cons.prems(2) obtain out n ctx' where
    u: "EVP_EncodeUpdate ctx inp = (out, n, ctx')" "take (unat n) out = lines48 (data ctx @ inp)"
      "data ctx' = rest48 (data ctx @ inp)" "length (data ctx') < 48" by auto
  from Cons.IH [OF u(4)] Cons.prems(2) have "encode_stream ctx' inps = base64_lines (data ctx' @ concat inps)" by simp
  with u lines48_append [of "data ctx @ inp" "concat inps"] show ?case
    by (simp add: base64_lines_def)
qed

text \<open>Decoding in pieces.\<close>

lemma decode_loop_append:
  "decode_loop ctx out (xs @ ys) =
    (case decode_loop ctx out xs of
       (out, True, ctx) \<Rightarrow> decode_loop ctx out ys
     | (out, False, ctx) \<Rightarrow> (out, False, ctx))"
  by (induction ctx out xs rule: decode_loop.induct)
    (auto simp: Let_def split: option.splits prod.splits bool.splits)

lemma decode_loop_quad:
  assumes "data ctx = []" "\<not> eof_seen ctx" "\<forall>x \<in> {p, q, r, s}. \<not> is_space x"
    "base64_decode_quad p q r s = Some bs"
  shows "decode_loop ctx out ([p, q, r, s] @ inp) =
    decode_loop (ctx\<lparr>eof_seen := length bs < 3\<rparr>) (out @ bs) inp"
  using assms by (cases ctx) (simp add: Let_def)

lemma decode_loop_quads:
  "data ctx = [] \<Longrightarrow> \<not> eof_seen ctx \<Longrightarrow>
    decode_loop ctx out (encode_quads src @ inp) =
      decode_loop (ctx\<lparr>eof_seen := length src mod 3 \<noteq> 0\<rparr>) (out @ src) inp"
proof (induction src arbitrary: ctx out rule: encode_quads.induct)
  case 1
  then show ?case by (cases ctx) simp
next
  case (2 a)
  from decode_encode_quad(1) [of a] obtain p q r s where q: "encode_quads [a] = [p, q, r, s]"
    "base64_decode_quad p q r s = Some [a]" "\<forall>x \<in> {p, q, r, s}. \<not> is_space x" by blast
  from decode_loop_quad [OF 2 q(3,2), of out inp] show ?case by (simp only: q(1)) simp
next
  case (3 a b)
  from decode_encode_quad(2) [of a b] obtain p q r s where q: "encode_quads [a, b] = [p, q, r, s]"
    "base64_decode_quad p q r s = Some [a, b]" "\<forall>x \<in> {p, q, r, s}. \<not> is_space x" by blast
  from decode_loop_quad [OF 3 q(3,2), of out inp] show ?case by (simp only: q(1)) simp
next
  case (4 a b c src)
  from decode_encode_quad(3) [of a b c src] obtain p q r s where
    q: "encode_quads (a # b # c # src) = [p, q, r, s] @ encode_quads src"
    "base64_decode_quad p q r s = Some [a, b, c]" "\<forall>x \<in> {p, q, r, s}. \<not> is_space x" by blast
  have ctx: "ctx\<lparr>eof_seen := False\<rparr> = ctx" using 4(3) by (cases ctx) simp
  have "decode_loop ctx out ([p, q, r, s] @ encode_quads src @ inp) =
      decode_loop ctx (out @ [a, b, c]) (encode_quads src @ inp)"
    using decode_loop_quad [OF 4(2,3) q(3,2), of out "encode_quads src @ inp"] by (simp add: ctx)
  with 4 show ?case by (simp add: q(1) del: decode_loop.simps encode_quads.simps)
qed

lemma decode_loop_newline: "decode_loop ctx out (0x0a # inp) = decode_loop ctx out inp"
  by (simp add: is_space_def)

lemma decode_loop_lines:
  "data ctx = [] \<Longrightarrow> \<not> eof_seen ctx \<Longrightarrow>
    decode_loop ctx out (lines48 msg @ inp) = decode_loop ctx (out @ take (length msg - length (rest48 msg)) msg) inp"
proof (induction msg arbitrary: out rule: lines48.induct)
  case (1 msg)
  show ?case
  proof (cases "length msg \<ge> 48")
    case True
    have ctx: "ctx\<lparr>eof_seen := False\<rparr> = ctx" using "1.prems"(2) by simp
    have "decode_loop ctx out (lines48 msg @ inp) =
        decode_loop ctx (out @ take 48 msg) (lines48 (drop 48 msg) @ inp)"
      using True decode_loop_quads [OF "1.prems", of out "take 48 msg" "0x0a # lines48 (drop 48 msg) @ inp"]
      by (simp add: lines48.simps [of msg] decode_loop_newline ctx min_def del: decode_loop.simps)
    also have "\<dots> = decode_loop ctx (out @ take 48 msg @ take (length msg - 48 - length (rest48 msg)) (drop 48 msg)) inp"
      using "1.IH" [OF True "1.prems"] True by (simp add: rest48.simps [of msg])
    also have "take 48 msg @ take (length msg - 48 - length (rest48 msg)) (drop 48 msg)
        = take (48 + (length msg - 48 - length (rest48 msg))) msg"
      by (simp only: take_add)
    also have "48 + (length msg - 48 - length (rest48 msg)) = length msg - length (rest48 msg)"
      using True length_rest48_le [of "drop 48 msg"] by (simp add: rest48.simps [of msg])
    finally show ?thesis .
  qed (simp add: lines48.simps rest48.simps)
qed


lemma decode_loop_acc:
  "decode_loop ctx (pre @ out) inp =
    (case decode_loop ctx out inp of (o', ok, c) \<Rightarrow> (pre @ o', ok, c))"
  by (induction ctx out inp rule: decode_loop.induct)
    (auto simp: Let_def split: option.splits prod.splits)

lemma decode_loop_no_error:
  "decode_loop ctx out inp = (o', True, ctx') \<Longrightarrow> error_encountered ctx' = error_encountered ctx"
  by (induction ctx out inp rule: decode_loop.induct)
    (auto simp: Let_def split: option.splits if_splits)

text \<open>Decoding a text given in pieces; \<open>None\<close> when a call fails.\<close>

fun decode_stream :: "encode_ctx \<Rightarrow> bytes list \<Rightarrow> bytes option" where
  "decode_stream ctx [] = (if EVP_DecodeFinal ctx < 0 then None else Some [])"
| "decode_stream ctx (inp # inps) =
     (case EVP_DecodeUpdate ctx inp of
        (out, n, ret, ctx) \<Rightarrow>
          if ret < 0 then None else map_option ((@) (take n out)) (decode_stream ctx inps))"

lemma decode_stream_eq:
  "\<not> error_encountered ctx \<Longrightarrow> decode_loop ctx [] (concat inps) = (out, True, ctx') \<Longrightarrow>
    data ctx' = [] \<Longrightarrow> length out \<le> 0x7fffffff \<Longrightarrow> decode_stream ctx inps = Some out"
proof (induction inps arbitrary: ctx out)
  case Nil
  then show ?case by (auto simp: EVP_DecodeFinal_def)
next
  case (Cons inp inps)
  obtain o1 ok c1 where d1: "decode_loop ctx [] inp = (o1, ok, c1)" by (cases "decode_loop ctx [] inp")
  from Cons.prems(2) d1 have ok: "ok" "decode_loop c1 o1 (concat inps) = (out, True, ctx')"
    by (auto simp: decode_loop_append split: bool.splits)
  obtain o2 ok2 c2 where d2: "decode_loop c1 [] (concat inps) = (o2, ok2, c2)"
    by (cases "decode_loop c1 [] (concat inps)")
  with ok(2) decode_loop_acc [of c1 o1 "[]" "concat inps"] have
    o: "out = o1 @ o2" "ok2" "c2 = ctx'" by simp_all
  have e1: "\<not> error_encountered c1" using decode_loop_no_error d1 ok(1) Cons.prems(1) by auto
  have "decode_stream c1 inps = Some o2"
    using Cons.IH [OF e1] d2 o Cons.prems(3,4) by simp
  moreover have "EVP_DecodeUpdate ctx inp = (o1, length o1, if eof_seen c1 then 0 else 1, c1)"
    using Cons.prems(1,4) d1 ok(1) o(1) by (simp add: EVP_DecodeUpdate_def)
  ultimately show ?case using o(1) by simp
qed

lemma rest48_drop: "rest48 msg = drop (length msg - length (rest48 msg)) msg"
proof (induction msg rule: rest48.induct)
  case (1 msg)
  show ?case
  proof (cases "length msg \<ge> 48")
    case True
    let ?r = "rest48 (drop 48 msg)"
    have "length msg - length ?r = (length (drop 48 msg) - length ?r) + 48"
      using True length_rest48_le [of "drop 48 msg"] by simp
    then have "drop (length msg - length ?r) msg = drop (length (drop 48 msg) - length ?r) (drop 48 msg)"
      by (simp only: drop_drop)
    also have "\<dots> = ?r" using 1 [OF True] by (rule sym)
    finally show ?thesis using True by (simp only: rest48.simps [of msg] if_True)
  next
    case False
    then have "rest48 msg = msg" by (simp add: rest48.simps [of msg])
    then show ?thesis by simp
  qed
qed

lemma decode_base64_lines:
  "\<exists>ctx. decode_loop EVP_DecodeInit [] (base64_lines msg) = (msg, True, ctx) \<and> data ctx = []"
proof -
  let ?k = "length msg - length (rest48 msg)"
  let ?c = "EVP_DecodeInit"
  have i: "data ?c = []" "\<not> eof_seen ?c" by (simp_all add: EVP_DecodeInit_def)
  have all: "take ?k msg @ rest48 msg = msg"
    using append_take_drop_id [of ?k msg] by (simp only: rest48_drop [symmetric])
  have lines: "decode_loop ?c [] (lines48 msg @ inp) = decode_loop ?c (take ?k msg) inp" for inp
    using decode_loop_lines [OF i, of "[]" msg inp] by (simp only: append_Nil)
  show ?thesis
  proof (cases "rest48 msg = []")
    case True
    then have "take ?k msg = msg" using all by simp
    moreover have "base64_lines msg = lines48 msg @ []" using True by (simp add: base64_lines_def)
    ultimately have "decode_loop ?c [] (base64_lines msg) = (msg, True, ?c)"
      by (simp only: lines decode_loop.simps(1))
    with i(1) show ?thesis by blast
  next
    case False
    let ?d = "?c\<lparr>eof_seen := length (rest48 msg) mod 3 \<noteq> 0\<rparr>"
    have "base64_lines msg = lines48 msg @ encode_quads (rest48 msg) @ [0x0a]"
      using False by (simp only: base64_lines_def if_False)
    then have "decode_loop ?c [] (base64_lines msg) = (msg, True, ?d)"
      by (simp only: lines decode_loop_quads [OF i] all decode_loop_newline decode_loop.simps(1))
    moreover have "data ?d = []" using i(1) by simp
    ultimately show ?thesis by blast
  qed
qed

section \<open>Properties\<close>

text \<open>The constant-time comparisons return all ones for true and zero for false, on every pair
  of words, and the selection by such a mask returns the operand that it selects.\<close>

theorem constant_time_helpers_correct:
  "constant_time_lt_w a b = (if a < b then - 1 else 0) \<and>
   constant_time_ge_w a b = (if a \<ge> b then - 1 else 0) \<and>
   constant_time_is_zero_w a = (if a = 0 then - 1 else 0) \<and>
   constant_time_eq_w a b = (if a = b then - 1 else 0) \<and>
   constant_time_select_w (constant_time_lt_w a b) x y = (if a < b then x else y)"
  by (auto simp: lt_w_eq constant_time_ge_w_def is_zero_w_eq eq_w_eq select_w_eq)

text \<open>Decoding what \<open>EVP_EncodeBlock\<close> stored before its NUL gives back the bytes, for every
  input that fits the address space, when the output has the room that \<open>EVP_DecodedLength\<close> asks for.\<close>

theorem EVP_base64_roundtrip:
  assumes "length src < 2 ^ 60" "3 * ((length src + 2) div 3) \<le> unat max_out"
  shows "EVP_DecodeBase64 max_out (take (unat (snd (EVP_EncodeBlock src))) (fst (EVP_EncodeBlock src))) = Some src"
proof -
  let ?n = "(length src + 2) div 3"
  have len: "length (encode_quads src) = 4 * ?n" by (rule length_encode_quads)
  have n: "?n < 2 ^ 60" using assms(1) by linarith
  have u: "unat (of_nat (4 * ?n) :: u64) = 4 * ?n" by (simp only: unat_of_nat) (use n in simp)
  have "(of_nat (4 * ?n) :: u64) mod 4 = 0" by (simp only: word_nat_lift unat_mod u) simp
  moreover have "unat ((of_nat (4 * ?n) :: u64) div 4 * 3) = 3 * ?n"
    using n by (simp only: unat_word_ariths unat_div u) simp
  ultimately have "EVP_DecodeBase64 max_out (encode_quads src) = decode_quads (encode_quads src)"
    using assms(2) len unfolding EVP_DecodeBase64_def EVP_DecodedLength_def Let_def len
    by (simp add: word_less_nat_alt del: of_nat_mult)
  moreover have "take (unat (snd (EVP_EncodeBlock src))) (fst (EVP_EncodeBlock src)) = encode_quads src"
    using u unfolding EVP_EncodeBlock_def len by (simp add: len del: of_nat_mult)
  ultimately show ?thesis by (simp only: decode_quads_encode)
qed

theorem EVP_base64_roundtrip_witness:
  "EVP_DecodeBase64 6 (take (unat (snd (EVP_EncodeBlock [1, 2, 3, 255]))) (fst (EVP_EncodeBlock [1, 2, 3, 255])))
    = Some [1, 2, 3, 255]"
  by (rule EVP_base64_roundtrip) simp_all

text \<open>Streaming encoding does not depend on how the message is cut into calls: the characters
  returned by \<open>EVP_EncodeUpdate\<close> and \<open>EVP_EncodeFinal\<close> are the lines of the whole message.\<close>

theorem EVP_encode_stream_chunks:
  assumes "\<forall>inp \<in> set inps. length inp < 2 ^ 29"
  shows "encode_stream EVP_EncodeInit inps = base64_lines (concat inps)"
  using encode_stream_eq [of EVP_EncodeInit inps] assms by (simp add: EVP_EncodeInit_def)

theorem EVP_encode_stream_chunks_witness:
  "encode_stream EVP_EncodeInit [[1, 2], [], [3]] = base64_lines (concat [[1, 2], [], [3]])"
  by (rule EVP_encode_stream_chunks) simp

text \<open>C24: a message encoded in any pieces and decoded in any other pieces comes back unchanged.\<close>

theorem EVP_stream_roundtrip:
  assumes "\<forall>inp \<in> set inps. length inp < 2 ^ 29" "length (concat inps) \<le> 0x7fffffff"
    "concat pieces = encode_stream EVP_EncodeInit inps"
  shows "decode_stream EVP_DecodeInit pieces = Some (concat inps)"
proof -
  have "concat pieces = base64_lines (concat inps)"
    using encode_stream_eq [of EVP_EncodeInit inps] assms(1,3) by (simp add: EVP_EncodeInit_def)
  moreover from decode_base64_lines [of "concat inps"] obtain ctx where
    "decode_loop EVP_DecodeInit [] (base64_lines (concat inps)) = (concat inps, True, ctx)" "data ctx = []"
    by blast
  ultimately show ?thesis
    using assms(2) by (intro decode_stream_eq) (simp_all add: EVP_DecodeInit_def)
qed

theorem EVP_stream_roundtrip_witness:
  "decode_stream EVP_DecodeInit
     [take 3 (encode_stream EVP_EncodeInit [[1, 2], [3]]), drop 3 (encode_stream EVP_EncodeInit [[1, 2], [3]])]
   = Some (concat [[1, 2], [3]])"
  by (rule EVP_stream_roundtrip [of "[[1, 2], [3]]"]) simp_all

end
