(* ===== verification/Bn_Mul.thy ===== *)
theory Bn_Mul
  imports Bn_Words Base64
begin

text \<open>
  Multiplication of short arrays of words (\<open>crypto/fipsmodule/bn/generic.c\<close>): the unrolled
  products and squares of 4 and 8 words, column by column with three registers for the carry.
\<close>

section \<open>Products column by column\<close>

text \<open>The three registers, from the one that is stored next.\<close>

definition mul_add_c :: "u64 \<Rightarrow> u64 \<Rightarrow> u64 \<times> u64 \<times> u64 \<Rightarrow> u64 \<times> u64 \<times> u64" where
  "mul_add_c a b = (\<lambda>(c0, c1, c2).
     let t = ucast a * ucast b; t = t + ucast c0; c0 = Lw t; hi = Hw t; c1 = c1 + hi
     in (c0, c1, if c1 < hi then c2 + 1 else c2))"

definition mul_add_c2 :: "u64 \<Rightarrow> u64 \<Rightarrow> u64 \<times> u64 \<times> u64 \<Rightarrow> u64 \<times> u64 \<times> u64" where
  "mul_add_c2 a b = (\<lambda>(c0, c1, c2).
     let t = ucast a * ucast b; tt = t + ucast c0; c0 = Lw tt; hi = Hw tt; c1 = c1 + hi;
         c2 = (if c1 < hi then c2 + 1 else c2);
         t = t + ucast c0; c0 = Lw t; hi = Hw t; c1 = c1 + hi
     in (c0, c1, if c1 < hi then c2 + 1 else c2))"

definition sqr_add_c :: "words \<Rightarrow> nat \<Rightarrow> u64 \<times> u64 \<times> u64 \<Rightarrow> u64 \<times> u64 \<times> u64" where
  "sqr_add_c a i = (\<lambda>(c0, c1, c2).
     let t = ucast (a ! i) * ucast (a ! i); t = t + ucast c0; c0 = Lw t; hi = Hw t; c1 = c1 + hi
     in (c0, c1, if c1 < hi then c2 + 1 else c2))"

definition sqr_add_c2 :: "words \<Rightarrow> nat \<Rightarrow> nat \<Rightarrow> u64 \<times> u64 \<times> u64 \<Rightarrow> u64 \<times> u64 \<times> u64" where
  "sqr_add_c2 a i j = mul_add_c2 (a ! i) (a ! j)"

text \<open>The columns: the additions for an entry of the result, then the entry is stored, its register is
  cleared and the registers change places.\<close>

fun columns :: "((nat \<times> nat) \<Rightarrow> u64 \<times> u64 \<times> u64 \<Rightarrow> u64 \<times> u64 \<times> u64) \<Rightarrow> (nat \<times> nat) list list \<Rightarrow>
    u64 \<times> u64 \<times> u64 \<Rightarrow> words" where
  "columns add [] c = [fst c]"
| "columns add (col # cols) c =
     (case fold add col c of (c0, c1, c2) \<Rightarrow> c0 # columns add cols (c1, c2, 0))"

definition bn_mul_comba8 :: "words \<Rightarrow> words \<Rightarrow> words" where
  "bn_mul_comba8 a b = columns (\<lambda>(i, j). mul_add_c (a ! i) (b ! j))
    [[(0, 0)], [(0, 1), (1, 0)], [(2, 0), (1, 1), (0, 2)], [(0, 3), (1, 2), (2, 1), (3, 0)],
     [(4, 0), (3, 1), (2, 2), (1, 3), (0, 4)], [(0, 5), (1, 4), (2, 3), (3, 2), (4, 1), (5, 0)],
     [(6, 0), (5, 1), (4, 2), (3, 3), (2, 4), (1, 5), (0, 6)],
     [(0, 7), (1, 6), (2, 5), (3, 4), (4, 3), (5, 2), (6, 1), (7, 0)],
     [(7, 1), (6, 2), (5, 3), (4, 4), (3, 5), (2, 6), (1, 7)],
     [(2, 7), (3, 6), (4, 5), (5, 4), (6, 3), (7, 2)], [(7, 3), (6, 4), (5, 5), (4, 6), (3, 7)],
     [(4, 7), (5, 6), (6, 5), (7, 4)], [(7, 5), (6, 6), (5, 7)], [(6, 7), (7, 6)], [(7, 7)]] (0, 0, 0)"

definition bn_mul_comba4 :: "words \<Rightarrow> words \<Rightarrow> words" where
  "bn_mul_comba4 a b = columns (\<lambda>(i, j). mul_add_c (a ! i) (b ! j))
    [[(0, 0)], [(0, 1), (1, 0)], [(2, 0), (1, 1), (0, 2)], [(0, 3), (1, 2), (2, 1), (3, 0)],
     [(3, 1), (2, 2), (1, 3)], [(2, 3), (3, 2)], [(3, 3)]] (0, 0, 0)"

text \<open>A pair of equal indices is \<open>sqr_add_c\<close>, a pair of different ones \<open>sqr_add_c2\<close>.\<close>

definition sqr_step :: "words \<Rightarrow> nat \<times> nat \<Rightarrow> u64 \<times> u64 \<times> u64 \<Rightarrow> u64 \<times> u64 \<times> u64" where
  "sqr_step a = (\<lambda>(i, j). if i = j then sqr_add_c a i else sqr_add_c2 a i j)"

definition bn_sqr_comba8 :: "words \<Rightarrow> words" where
  "bn_sqr_comba8 a = columns (sqr_step a)
    [[(0, 0)], [(1, 0)], [(1, 1), (2, 0)], [(3, 0), (2, 1)], [(2, 2), (3, 1), (4, 0)],
     [(5, 0), (4, 1), (3, 2)], [(3, 3), (4, 2), (5, 1), (6, 0)], [(7, 0), (6, 1), (5, 2), (4, 3)],
     [(4, 4), (5, 3), (6, 2), (7, 1)], [(7, 2), (6, 3), (5, 4)], [(5, 5), (6, 4), (7, 3)],
     [(7, 4), (6, 5)], [(6, 6), (7, 5)], [(7, 6)], [(7, 7)]] (0, 0, 0)"

definition bn_sqr_comba4 :: "words \<Rightarrow> words" where
  "bn_sqr_comba4 a = columns (sqr_step a)
    [[(0, 0)], [(1, 0)], [(1, 1), (2, 0)], [(3, 0), (2, 1)], [(2, 2), (3, 1)], [(3, 2)], [(3, 3)]] (0, 0, 0)"

definition regs_val :: "u64 \<times> u64 \<times> u64 \<Rightarrow> nat" where
  "regs_val = (\<lambda>(c0, c1, c2). unat c0 + 2 ^ 64 * (unat c1 + 2 ^ 64 * unat c2))"

lemma carry_add: "unat (x + y) + 2 ^ 64 * (if x + y < y then 1 else 0) = unat x + unat y" for x y :: u64
proof -
  have "unat x < 2 ^ 64" "unat y < 2 ^ 64" using unat_u64_less [of x] unat_u64_less [of y] by simp_all
  then show ?thesis by (auto simp: unat_word_ariths word_less_nat_alt mod_if split: if_splits)
qed

text \<open>Adding a two-word number to the registers.\<close>

lemma regs_add:
  assumes "regs_val (c0, c1, c2) + v < 2 ^ 192" "unat (t :: u128) = unat c0 + v"
  shows "regs_val (Lw t, c1 + Hw t, if c1 + Hw t < Hw t then c2 + 1 else c2) = regs_val (c0, c1, c2) + v"
proof -
  have s: "unat (Lw t) + 2 ^ 64 * unat (Hw t) = unat c0 + v" using Lw_Hw [of t] assms(2) by simp
  have h: "unat (c1 + Hw t) + 2 ^ 64 * (if c1 + Hw t < Hw t then 1 else 0) = unat c1 + unat (Hw t)"
    by (rule carry_add)
  show ?thesis
  proof (cases "c1 + Hw t < Hw t")
    case True
    with h have e: "unat c1 + unat (Hw t) = unat (c1 + Hw t) + 2 ^ 64" by simp
    have "2 ^ 128 * (unat c2 + 1) \<le> regs_val (c0, c1, c2) + v"
      using e s by (simp add: regs_val_def)
    with assms(1) have "2 ^ 128 * (unat c2 + 1) < 2 ^ 128 * 2 ^ 64" by simp
    then have "unat c2 + 1 < 2 ^ 64" by (simp only: mult_less_cancel1) 
    then have "unat (c2 + 1) = unat c2 + 1" by (simp add: unat_word_ariths)
    with True e s show ?thesis by (simp add: regs_val_def)
  next
    case False
    with h s show ?thesis by (simp add: regs_val_def)
  qed
qed

lemma mul_add_c_val:
  assumes "regs_val c + unat a * unat b < 2 ^ 192"
  shows "regs_val (mul_add_c a b c) = regs_val c + unat a * unat b"
proof -
  obtain c0 c1 c2 where c: "c = (c0, c1, c2)" by (cases c)
  have "unat (ucast a * ucast b + ucast c0 :: u128) = unat c0 + unat a * unat b"
    using unat_mul_add [of a b c0 0] by simp
  from regs_add [OF _ this] assms show ?thesis by (simp add: c mul_add_c_def Let_def)
qed

lemma mul_add_c2_val:
  assumes "regs_val c + 2 * (unat a * unat b) < 2 ^ 192"
  shows "regs_val (mul_add_c2 a b c) = regs_val c + 2 * (unat a * unat b)"
proof -
  obtain c0 c1 c2 where c: "c = (c0, c1, c2)" by (cases c)
  have "mul_add_c2 a b c = mul_add_c a b (mul_add_c a b c)"
    by (simp add: c mul_add_c2_def mul_add_c_def Let_def)
  with mul_add_c_val [of c a b] mul_add_c_val [of "mul_add_c a b c" a b] assms show ?thesis by simp
qed

lemma sqr_step_val:
  assumes "regs_val c + (if i = j then 1 else 2) * (unat (a ! i) * unat (a ! j)) < 2 ^ 192"
  shows "regs_val (sqr_step a (i, j) c) = regs_val c + (if i = j then 1 else 2) * (unat (a ! i) * unat (a ! j))"
proof (cases "i = j")
  case True
  have "sqr_step a (i, j) c = mul_add_c (a ! i) (a ! i) c"
    using True by (simp add: sqr_step_def sqr_add_c_def mul_add_c_def)
  with True assms mul_add_c_val show ?thesis by simp
next
  case False
  with assms mul_add_c2_val show ?thesis by (simp add: sqr_step_def sqr_add_c2_def)
qed

fun cols_sum :: "(nat \<times> nat \<Rightarrow> nat) \<Rightarrow> (nat \<times> nat) list list \<Rightarrow> nat" where
  "cols_sum f [] = 0"
| "cols_sum f (col # cols) = sum_list (map f col) + 2 ^ 64 * cols_sum f cols"

lemma fold_regs:
  assumes "\<And>p c. regs_val c + f p < 2 ^ 192 \<Longrightarrow> regs_val (add p c) = regs_val c + f p"
    "regs_val c + sum_list (map f col) < 2 ^ 192"
  shows "regs_val (fold add col c) = regs_val c + sum_list (map f col)"
  using assms(2)
proof (induction col arbitrary: c)
  case Nil
  then show ?case by simp
next
  case (Cons p col)
  from Cons.prems have "regs_val (add p c) = regs_val c + f p" by (intro assms(1)) simp
  with Cons.IH [of "add p c"] Cons.prems show ?case by simp
qed

lemma regs_shift:
  "regs_val (c0, c1, c2) mod 2 ^ 64 = unat c0"
  "regs_val (c0, c1, c2) div 2 ^ 64 = regs_val (c1, c2, 0)"
  using unat_u64_less [of c0] by (simp_all add: regs_val_def div_add1_eq [of "unat c0"] mod_add_eq [symmetric] distrib_left [symmetric] del: distrib_left_numeral)

lemma columns_val:
  assumes "\<And>p c. regs_val c + f p < 2 ^ 192 \<Longrightarrow> regs_val (add p c) = regs_val c + f p"
    "\<forall>col \<in> set cols. length col \<le> 8" "\<And>p. f p \<le> 2 ^ 129" "regs_val c < 2 ^ 134"
  shows "words_val (columns add cols c) = (regs_val c + cols_sum f cols) mod 2 ^ (64 * (length cols + 1)) \<and>
    length (columns add cols c) = length cols + 1"
  using assms(2,4)
proof (induction cols arbitrary: c)
  case Nil
  obtain c0 c1 c2 where "c = (c0, c1, c2)" by (cases c)
  then show ?case using regs_shift(1) [of c0 c1 c2] by simp
next
  case (Cons col cols)
  have "sum_list (map f col) \<le> length col * 2 ^ 129"
    using sum_list_mono [of col f "\<lambda>_. 2 ^ 129"] assms(3) by (simp add: sum_list_triv)
  also have "\<dots> \<le> 8 * 2 ^ 129" using Cons.prems(1) by (intro mult_le_mono1) simp
  finally have s: "sum_list (map f col) \<le> 2 ^ 132" by simp
  obtain c0 c1 c2 where c: "fold add col c = (c0, c1, c2)" by (cases "fold add col c")
  let ?x = "regs_val c + sum_list (map f col)"
  have x: "regs_val (c0, c1, c2) = ?x"
    using fold_regs [of f add c col] assms(1) s Cons.prems(2) c by simp
  have c0: "unat c0 = ?x mod 2 ^ 64"
    unfolding x [symmetric] by (rule regs_shift(1) [symmetric])
  have n: "regs_val (c1, c2, 0) = ?x div 2 ^ 64"
    unfolding x [symmetric] by (rule regs_shift(2) [symmetric])
  have "?x div 2 ^ 64 < 2 ^ 134" using s Cons.prems(2) by (simp add: div_less_iff_less_mult)
  with Cons.IH [of "(c1, c2, 0)"] Cons.prems(1) n have IH: "words_val (columns add cols (c1, c2, 0)) =
      (?x div 2 ^ 64 + cols_sum f cols) mod 2 ^ (64 * (length cols + 1))"
    "length (columns add cols (c1, c2, 0)) = length cols + 1" by simp_all
  let ?y = "?x + 2 ^ 64 * cols_sum f cols"
  have "?y mod (2 ^ 64 * 2 ^ (64 * (length cols + 1))) =
      2 ^ 64 * (?y div 2 ^ 64 mod 2 ^ (64 * (length cols + 1))) + ?y mod 2 ^ 64"
    by (rule mod_mult2_eq)
  moreover have "?y div 2 ^ 64 = ?x div 2 ^ 64 + cols_sum f cols" "?y mod 2 ^ 64 = ?x mod 2 ^ 64" by simp_all
  moreover have "2 ^ 64 * 2 ^ (64 * (length cols + 1)) = (2 :: nat) ^ (64 * (length (col # cols) + 1))"
    by (simp add: power_add)
  ultimately show ?case using IH c c0 by (simp add: add.assoc)
qed

lemma unat_product_le: "unat (x :: u64) * unat (y :: u64) \<le> 2 ^ 128"
  using mult_le_mono [OF less_imp_le [OF unat_u64_less] less_imp_le [OF unat_u64_less], of x y] by simp

lemma length_8: "length a = 8 \<longleftrightarrow> (\<exists>a0 a1 a2 a3 a4 a5 a6 a7. a = [a0, a1, a2, a3, a4, a5, a6, a7])"
  by (auto simp: numeral_eq_Suc length_Suc_conv)

lemma length_4: "length a = 4 \<longleftrightarrow> (\<exists>a0 a1 a2 a3. a = [a0, a1, a2, a3])"
  by (auto simp: numeral_eq_Suc length_Suc_conv)

lemma words_val_product_less: "words_val a * words_val b < 2 ^ (64 * (length a + length b))"
  using mult_strict_mono [OF words_val_less words_val_less, of a b] by (simp add: power_add distrib_left)

text \<open>Both kinds of columns, with the sum of their products.\<close>

lemma mul_columns_val:
  assumes "\<forall>col \<in> set cols. length col \<le> 8"
    "cols_sum (\<lambda>(i, j). unat (a ! i) * unat (b ! j)) cols = words_val a * words_val b"
    "length cols + 1 = length a + length b"
  shows "words_val (columns (\<lambda>(i, j). mul_add_c (a ! i) (b ! j)) cols (0, 0, 0)) = words_val a * words_val b \<and>
    length (columns (\<lambda>(i, j). mul_add_c (a ! i) (b ! j)) cols (0, 0, 0)) = length a + length b"
proof -
  let ?f = "\<lambda>(i, j). unat (a ! i) * unat (b ! j)"
  let ?add = "\<lambda>(i, j). mul_add_c (a ! i) (b ! j)"
  have 1: "regs_val (?add p c) = regs_val c + ?f p" if "regs_val c + ?f p < 2 ^ 192" for p c
    using that by (cases p) (simp add: mul_add_c_val)
  have 2: "?f p \<le> 2 ^ 129" for p
    using unat_product_le [of "a ! fst p" "b ! snd p"] by (cases p) simp
  have "words_val a * words_val b < 2 ^ (64 * (length cols + 1))"
    using words_val_product_less [of a b] by (simp only: assms(3))
  then have m: "words_val a * words_val b mod 2 ^ (64 * (length cols + 1)) = words_val a * words_val b"
    by (rule mod_less)
  have z: "regs_val (0, 0, 0) = 0" by (simp add: regs_val_def)
  then have "regs_val (0, 0, 0) < 2 ^ 134" by simp
  note v = columns_val [of ?f ?add cols "(0, 0, 0)", OF 1 assms(1) 2 this, unfolded z assms(2) add_0_left m]
  show ?thesis unfolding assms(3) [symmetric] by (rule v)
qed

lemma sqr_columns_val:
  assumes "\<forall>col \<in> set cols. length col \<le> 8"
    "cols_sum (\<lambda>(i, j). (if i = j then 1 else 2) * (unat (a ! i) * unat (a ! j))) cols = words_val a * words_val a"
    "length cols + 1 = length a + length a"
  shows "words_val (columns (sqr_step a) cols (0, 0, 0)) = words_val a * words_val a \<and>
    length (columns (sqr_step a) cols (0, 0, 0)) = length a + length a"
proof -
  let ?f = "\<lambda>(i, j). (if i = j then 1 else 2) * (unat (a ! i) * unat (a ! j))"
  have 1: "regs_val (sqr_step a p c) = regs_val c + ?f p" if "regs_val c + ?f p < 2 ^ 192" for p c
    using that sqr_step_val [of c "fst p" "snd p" a] by (cases p) simp
  have 2: "?f p \<le> 2 ^ 129" for p
    using unat_product_le [of "a ! fst p" "a ! snd p"] by (cases p) (auto split: if_splits)
  have "words_val a * words_val a < 2 ^ (64 * (length cols + 1))"
    using words_val_product_less [of a a] by (simp only: assms(3))
  then have m: "words_val a * words_val a mod 2 ^ (64 * (length cols + 1)) = words_val a * words_val a"
    by (rule mod_less)
  have z: "regs_val (0, 0, 0) = 0" by (simp add: regs_val_def)
  then have "regs_val (0, 0, 0) < 2 ^ 134" by simp
  note v = columns_val [of ?f "sqr_step a" cols "(0, 0, 0)", OF 1 assms(1) 2 this, unfolded z assms(2) add_0_left m]
  show ?thesis unfolding assms(3) [symmetric] by (rule v)
qed

lemma bn_mul_comba8_val:
  assumes "length a = 8" "length b = 8"
  shows "words_val (bn_mul_comba8 a b) = words_val a * words_val b \<and> length (bn_mul_comba8 a b) = length a + length b"
proof -
  obtain a0 a1 a2 a3 a4 a5 a6 a7 b0 b1 b2 b3 b4 b5 b6 b7 where
    ab: "a = [a0, a1, a2, a3, a4, a5, a6, a7]" "b = [b0, b1, b2, b3, b4, b5, b6, b7]"
    using assms by (auto simp: length_8)
  show ?thesis
    unfolding bn_mul_comba8_def
    by (rule mul_columns_val) (simp_all add: ab del: distrib_left_numeral distrib_right_numeral, simp add: algebra_simps)
qed

lemma bn_mul_comba4_val:
  assumes "length a = 4" "length b = 4"
  shows "words_val (bn_mul_comba4 a b) = words_val a * words_val b \<and> length (bn_mul_comba4 a b) = length a + length b"
proof -
  obtain a0 a1 a2 a3 b0 b1 b2 b3 where
    ab: "a = [a0, a1, a2, a3]" "b = [b0, b1, b2, b3]"
    using assms by (auto simp: length_4)
  show ?thesis
    unfolding bn_mul_comba4_def
    by (rule mul_columns_val) (simp_all add: ab del: distrib_left_numeral distrib_right_numeral, simp add: algebra_simps)
qed

lemma bn_sqr_comba8_val:
  assumes "length a = 8"
  shows "words_val (bn_sqr_comba8 a) = words_val a * words_val a \<and> length (bn_sqr_comba8 a) = length a + length a"
proof -
  obtain a0 a1 a2 a3 a4 a5 a6 a7 where
    ab: "a = [a0, a1, a2, a3, a4, a5, a6, a7]"
    using assms by (auto simp: length_8)
  show ?thesis
    unfolding bn_sqr_comba8_def
    by (rule sqr_columns_val) (simp_all add: ab del: distrib_left_numeral distrib_right_numeral, simp add: algebra_simps)
qed

lemma bn_sqr_comba4_val:
  assumes "length a = 4"
  shows "words_val (bn_sqr_comba4 a) = words_val a * words_val a \<and> length (bn_sqr_comba4 a) = length a + length a"
proof -
  obtain a0 a1 a2 a3 where
    ab: "a = [a0, a1, a2, a3]"
    using assms by (auto simp: length_4)
  show ?thesis
    unfolding bn_sqr_comba4_def
    by (rule sqr_columns_val) (simp_all add: ab del: distrib_left_numeral distrib_right_numeral, simp add: algebra_simps)
qed

end
