(* ===== verification/Bn_Kar.thy ===== *)
theory Bn_Kar
  imports Bn_Mul
begin

text \<open>
  Multiplication of arrays of any size (\<open>crypto/fipsmodule/bn/mul.c\<close>): schoolbook multiplication, the
  differences of arrays of unequal lengths with their signs as masks, and Karatsuba's method for equal
  and for unequal sizes.  \<open>bn_mul_normal_val\<close>, \<open>bn_mul_recursive_val\<close> and \<open>bn_mul_part_recursive_val\<close>
  say that each of them computes the product, the last one for fewer than eight words only when the result's
  memory was zero before; the last carry that the code asserts to be zero is.
\<close>

section \<open>Selection, schoolbook multiplication and differences\<close>

definition bn_select_words :: "u64 \<Rightarrow> words \<Rightarrow> words \<Rightarrow> nat \<Rightarrow> words" where
  "bn_select_words msk a b num = map2 (constant_time_select_w msk) (take num a) (take num b)"

text \<open>\<open>r\<close> are the words written so far; the word of the carry behind them is new.\<close>

fun mul_normal_loop :: "words \<Rightarrow> nat \<Rightarrow> words \<Rightarrow> nat \<Rightarrow> words \<Rightarrow> words" where
  "mul_normal_loop a na [] k r = r"
| "mul_normal_loop a na (y # b) k r =
     (let (rp, c) = bn_mul_add_words (drop k r) a na y
      in mul_normal_loop a na b (k + 1) (take k r @ rp @ [c]))"

definition bn_mul_normal :: "words \<Rightarrow> nat \<Rightarrow> words \<Rightarrow> nat \<Rightarrow> words" where
  "bn_mul_normal a na b nb =
     (let (a, na, b, nb) = (if na < nb then (b, nb, a, na) else (a, na, b, nb)) in
      if nb = 0 then replicate na 0
      else let (r, c) = bn_mul_words a na (b ! 0)
           in mul_normal_loop a na (drop 1 (take nb b)) 1 (r @ [c]))"

definition bn_abs_sub_words :: "words \<Rightarrow> words \<Rightarrow> nat \<Rightarrow> words" where
  "bn_abs_sub_words a b num =
     (let (tmp, borrow) = bn_sub_words a b num; (r, _) = bn_sub_words b a num
      in bn_select_words (0 - borrow) r tmp num)"

text \<open>The words behind the common length: those of \<open>b\<close> alone, and those of \<open>a\<close> alone.\<close>

fun sub_part_b :: "u64 \<Rightarrow> words \<Rightarrow> words \<times> u64" where
  "sub_part_b c [] = ([], c)"
| "sub_part_b c (t # b) =
     (let (r, c') = sub_part_b (if t \<noteq> 0 then 1 else c) b in ((0 - t - c) # r, c'))"

fun sub_part_a :: "u64 \<Rightarrow> words \<Rightarrow> words \<times> u64" where
  "sub_part_a c [] = ([], c)"
| "sub_part_a c (t # a) =
     (if c \<noteq> 0 then let (r, c') = sub_part_a (if t \<noteq> 0 then 0 else c) a in ((t - c) # r, c')
      else (t # a, c))"

definition bn_sub_part_words :: "words \<Rightarrow> words \<Rightarrow> nat \<Rightarrow> int \<Rightarrow> words \<times> u64" where
  "bn_sub_part_words a b cl dl =
     (let (r, c) = bn_sub_words a b cl in
      if dl = 0 then (r, c)
      else if dl < 0 then
        let (r', c) = sub_part_b c (take (nat (- dl)) (drop cl b)) in (r @ r', c)
      else
        let (r', c) = sub_part_a c (take (nat dl) (drop cl a)) in (r @ r', c))"

text \<open>The absolute value of the difference, and a mask that is set when the difference is negative.\<close>

definition bn_abs_sub_part_words :: "words \<Rightarrow> words \<Rightarrow> nat \<Rightarrow> int \<Rightarrow> words \<times> u64" where
  "bn_abs_sub_part_words a b cl dl =
     (let (tmp, borrow) = bn_sub_part_words a b cl dl;
          (r, _) = bn_sub_part_words b a cl (- dl);
          r_len = cl + nat \<bar>dl\<bar>;
          borrow = 0 - borrow
      in (bn_select_words borrow r tmp r_len, borrow))"

lemma select_words_cases:
  "length a = n \<Longrightarrow> length b = n \<Longrightarrow> bn_select_words (- 1) a b n = a"
  "length a = n \<Longrightarrow> length b = n \<Longrightarrow> bn_select_words 0 a b n = b"
  by (auto simp: bn_select_words_def select_w_eq map2_map_map intro!: nth_equalityI)

lemma mul_normal_loop_val:
  assumes "length r = na + k" "length a = na"
  shows "words_val (mul_normal_loop a na b k r) = words_val r + 2 ^ (64 * k) * (words_val a * words_val b) \<and>
    length (mul_normal_loop a na b k r) = na + k + length b"
  using assms(1)
proof (induction b arbitrary: k r)
  case Nil
  then show ?case by simp
next
  case (Cons y b)
  obtain rp c where m: "bn_mul_add_words (drop k r) a na y = (rp, c)" by fastforce
  have v: "words_val rp + 2 ^ (64 * na) * unat c = words_val (drop k r) + unat y * words_val a" "length rp = na"
    using bn_mul_add_words_val [OF m] Cons.prems assms(2) by simp_all
  let ?r = "take k r @ rp @ [c]"
  have l: "length ?r = na + (k + 1)" using v(2) Cons.prems by simp
  have "words_val ?r = words_val (take k r) + 2 ^ (64 * k) * (words_val rp + 2 ^ (64 * na) * unat c)"
    using v(2) Cons.prems by (simp add: words_val_append)
  also have "\<dots> = words_val r + 2 ^ (64 * k) * (unat y * words_val a)"
    unfolding v(1) using words_val_append [of "take k r" "drop k r"] Cons.prems by (simp add: distrib_left)
  finally have "words_val ?r = words_val r + 2 ^ (64 * k) * (unat y * words_val a)" .
  with Cons.IH [OF l] m show ?case by (simp add: power_add algebra_simps)
qed

lemma bn_mul_normal_val:
  assumes "length a = na" "length b = nb"
  shows "words_val (bn_mul_normal a na b nb) = words_val a * words_val b \<and>
    length (bn_mul_normal a na b nb) = na + nb"
proof -
  have *: "words_val (let (r, c) = bn_mul_words a na (b ! 0)
        in mul_normal_loop a na (drop 1 (take nb b)) 1 (r @ [c])) = words_val a * words_val b \<and>
      length (let (r, c) = bn_mul_words a na (b ! 0)
        in mul_normal_loop a na (drop 1 (take nb b)) 1 (r @ [c])) = na + nb"
    if h: "length a = na" "length b = nb" "nb \<noteq> 0" for a b na nb
  proof -
    obtain y b' where b: "b = y # b'" using h(2,3) by (cases b) auto
    obtain r c where m: "bn_mul_words a na y = (r, c)" by fastforce
    from bn_mul_words_val [OF m h(1)]
    have v: "words_val (r @ [c]) = unat y * words_val a" "length (r @ [c]) = na + 1"
      by (simp_all add: words_val_append)
    from mul_normal_loop_val [OF v(2) h(1), of b'] v(1) h b m show ?thesis
      by (simp add: algebra_simps)
  qed
  show ?thesis
  proof (cases "na < nb")
    case True
    with * [of b nb a na] assms show ?thesis by (auto simp: bn_mul_normal_def mult.commute)
  next
    case False
    with * [of a na b nb] assms show ?thesis by (auto simp: bn_mul_normal_def)
  qed
qed

lemma sub_part_b_loop: "sub_part_b c b = sub_words_loop c (replicate (length b) 0) b"
  by (induction c b rule: sub_part_b.induct) (auto simp: Let_def word_gt_0)

lemma sub_part_a_loop:
  "unat c \<le> 1 \<Longrightarrow> sub_part_a c a = sub_words_loop c a (replicate (length a) 0)"
proof (induction c a rule: sub_part_a.induct)
  case (2 c t a)
  have z: "sub_words_loop 0 a (replicate (length a) 0) = (a, 0)" for a
    by (induction a) (simp_all add: Let_def)
  show ?case
  proof (cases "c = 0")
    case True
    with z [of "t # a"] show ?thesis by simp
  next
    case False
    with 2 show ?thesis by (auto simp: Let_def)
  qed
qed simp

lemma sub_words_loop_append:
  assumes "length a = length b" "sub_words_loop c a b = (r, d)" "sub_words_loop d a' b' = (r', e)"
  shows "sub_words_loop c (a @ a') (b @ b') = (r @ r', e)"
  using assms by (induction a b arbitrary: c r rule: list_induct2) (auto simp: Let_def split: prod.splits)

text \<open>A difference of arrays of different lengths is that of the arrays with zeros at the top.\<close>

lemma bn_sub_part_words_val:
  assumes "bn_sub_part_words a b cl dl = (r, c)" "length a = cl + nat dl" "length b = cl + nat (- dl)"
  shows "words_val r + words_val b = words_val a + 2 ^ (64 * length r) * unat c"
    "length r = cl + nat \<bar>dl\<bar>" "unat c \<le> 1"
proof -
  let ?a = "a @ replicate (nat (- dl)) 0" and ?b = "b @ replicate (nat dl) 0"
  obtain r1 c1 where s: "bn_sub_words a b cl = (r1, c1)" by fastforce
  have c1: "unat c1 \<le> 1"
    using bn_sub_words_val(3) [of "take cl a" "take cl b" cl r1 c1] s assms(2,3) by (simp add: bn_sub_words_def)
  have t: "sub_words_loop 0 (take cl a) (take cl b) = (r1, c1)" using s by (simp add: bn_sub_words_def)
  have "sub_words_loop 0 ?a ?b = (r, c)"
  proof -
    consider "dl = 0" | "dl < 0" | "dl > 0" by linarith
    then show ?thesis
    proof cases
      case 1
      with assms s t show ?thesis by (simp add: bn_sub_part_words_def)
    next
      case 2
      have tk: "take (nat (- dl)) (drop cl b) = drop cl b" using assms(2,3) by simp
      obtain r2 c2 where o: "sub_part_b c1 (drop cl b) = (r2, c2)" by fastforce
      with assms(1) s 2 have b: "sub_part_b c1 (drop cl b) = (r2, c)" "r = r1 @ r2"
        by (simp_all add: bn_sub_part_words_def tk)
      have "sub_words_loop 0 (take cl a @ replicate (length (drop cl b)) 0) (take cl b @ drop cl b) = (r, c)"
        unfolding b(2) using b(1) t assms(2,3) by (intro sub_words_loop_append) (simp_all add: sub_part_b_loop)
      with 2 assms(2,3) show ?thesis by simp
    next
      case 3
      have tk: "take (nat (dl)) (drop cl a) = drop cl a" using assms(2,3) by simp
      obtain r2 c2 where o: "sub_part_a c1 (drop cl a) = (r2, c2)" by fastforce
      with assms(1) s 3 have a: "sub_part_a c1 (drop cl a) = (r2, c)" "r = r1 @ r2"
        by (simp_all add: bn_sub_part_words_def tk)
      have "sub_words_loop 0 (take cl a @ drop cl a) (take cl b @ replicate (length (drop cl a)) 0) = (r, c)"
        unfolding a(2) using a(1) t assms(2,3) c1
        by (intro sub_words_loop_append) (simp_all add: sub_part_a_loop)
      with 3 assms(2,3) show ?thesis by simp
    qed
  qed
  from sub_words_loop_val [OF this] assms(2,3)
  have r: "words_val r + words_val ?b = words_val ?a + 2 ^ (64 * length ?a) * unat c"
    "length r = length ?a" "unat c \<le> 1" by simp_all
  have z: "words_val ?a = words_val a" "words_val ?b = words_val b" by (simp_all add: words_val_append)
  show "words_val r + words_val b = words_val a + 2 ^ (64 * length r) * unat c" "unat c \<le> 1"
    using r by (simp_all only: z)
  show "length r = cl + nat \<bar>dl\<bar>" using r(2) assms(2) by simp
qed

lemma carry_cases: "unat (c :: u64) \<le> 1 \<Longrightarrow> c = 0 \<or> c = 1"
  by (cases "unat c = 0") (simp add: unat_eq_zero, simp add: word_unat_eq_iff)

definition absdiff :: "nat \<Rightarrow> nat \<Rightarrow> nat" where
  "absdiff x y = (if x < y then y - x else x - y)"

lemma bn_abs_sub_part_words_val:
  assumes "bn_abs_sub_part_words a b cl dl = (r, m)" "length a = cl + nat dl" "length b = cl + nat (- dl)"
  shows "words_val r = absdiff (words_val a) (words_val b)" "length r = cl + nat \<bar>dl\<bar>"
    "m = (if words_val a < words_val b then - 1 else 0)"
proof -
  obtain tmp c where t: "bn_sub_part_words a b cl dl = (tmp, c)" by fastforce
  obtain r' d where u: "bn_sub_part_words b a cl (- dl) = (r', d)" by fastforce
  from bn_sub_part_words_val [OF t assms(2,3)]
  have tv: "words_val tmp + words_val b = words_val a + 2 ^ (64 * length tmp) * unat c"
    "length tmp = cl + nat \<bar>dl\<bar>" "unat c \<le> 1" .
  from bn_sub_part_words_val [OF u] assms(2,3)
  have uv: "words_val r' + words_val a = words_val b + 2 ^ (64 * length r') * unat d"
    "length r' = cl + nat \<bar>dl\<bar>" "unat d \<le> 1" by simp_all
  have c: "c = 0 \<or> c = 1" "d = 0 \<or> d = 1" using carry_cases [OF tv(3)] carry_cases [OF uv(3)] by blast+
  have cc: "c = 1 \<longleftrightarrow> words_val a < words_val b"
    using tv(1) c(1) words_val_less [of tmp] by auto
  have m: "m = 0 - c" "r = bn_select_words (0 - c) r' tmp (cl + nat \<bar>dl\<bar>)"
    using assms(1) t u by (auto simp: bn_abs_sub_part_words_def Let_def)
  show "m = (if words_val a < words_val b then - 1 else 0)"
    using m cc c(1) by auto
  show "length r = cl + nat \<bar>dl\<bar>" using m(2) tv(2) uv(2) by (simp add: bn_select_words_def)
  have dd: "d = 1 \<longleftrightarrow> words_val b < words_val a" using uv(1) c(2) words_val_less [of r'] by auto
  show "words_val r = absdiff (words_val a) (words_val b)"
    using m(2) tv uv cc dd c by (auto simp: absdiff_def select_words_cases)
qed

section \<open>Karatsuba multiplication\<close>

fun propagate_carry :: "u64 \<Rightarrow> words \<Rightarrow> words" where
  "propagate_carry c [] = []"
| "propagate_carry c (old # r) =
     (let new = old + c in new # propagate_carry (if new < old then 1 else 0) r)"

text \<open>The end of both recursive functions: \<open>t23\<close> is the absolute value of the product of the differences
  and \<open>neg\<close> the mask of its sign; \<open>r01\<close> and \<open>r23\<close> are the products of the halves.\<close>

definition karatsuba_join :: "nat \<Rightarrow> nat \<Rightarrow> u64 \<Rightarrow> words \<Rightarrow> words \<Rightarrow> words \<Rightarrow> words" where
  "karatsuba_join n n2 neg t23 r01 r23 =
     (let (t01, c) = bn_add_words r01 r23 n2;
          (minus, borrow) = bn_sub_words t01 t23 n2; c_neg = c - borrow;
          (plus, carry) = bn_add_words t01 t23 n2; c_pos = c + carry;
          t23 = bn_select_words neg minus plus n2;
          c = constant_time_select_w neg c_neg c_pos;
          r = r01 @ r23;
          (r12, carry) = bn_add_words (take n2 (drop n r)) t23 n2; c = c + carry
      in take n r @ r12 @ propagate_carry c (drop (n + n2) r))"

function bn_mul_recursive :: "words \<Rightarrow> words \<Rightarrow> nat \<Rightarrow> int \<Rightarrow> int \<Rightarrow> words" where
  "bn_mul_recursive a b n2 dna dnb =
     (if n2 = 8 \<and> dna = 0 \<and> dnb = 0 then bn_mul_comba8 a b
      else if n2 < 16 then
        bn_mul_normal a (nat (int n2 + dna)) b (nat (int n2 + dnb)) @
          (if dna + dnb < 0 then replicate (nat (- (dna + dnb))) 0 else [])
      else
        let n = n2 div 2; tna = nat (int n + dna); tnb = nat (int n + dnb);
            (t0, neg) = bn_abs_sub_part_words (take n a) (drop n a) tna (int n - int tna);
            (t1, neg') = bn_abs_sub_part_words (drop n b) (take n b) tnb (int tnb - int n);
            neg = neg XOR neg';
            (t23, r01, r23) =
              (if n = 4 \<and> dna = 0 \<and> dnb = 0
               then (bn_mul_comba4 t0 t1, bn_mul_comba4 (take n a) (take n b), bn_mul_comba4 (drop n a) (drop n b))
               else if n = 8 \<and> dna = 0 \<and> dnb = 0
               then (bn_mul_comba8 t0 t1, bn_mul_comba8 (take n a) (take n b), bn_mul_comba8 (drop n a) (drop n b))
               else (bn_mul_recursive t0 t1 n 0 0, bn_mul_recursive (take n a) (take n b) n 0 0,
                     bn_mul_recursive (drop n a) (drop n b) n dna dnb))
        in karatsuba_join n n2 neg t23 r01 r23)"
  by pat_completeness auto
termination
  by (relation "measure (\<lambda>(a, b, n2, dna, dnb). n2)") auto

declare bn_mul_recursive.simps [simp del]

text \<open>The size of the call for the upper halves, and whether it is for different lengths.\<close>

function half_loop :: "nat \<Rightarrow> nat \<Rightarrow> nat \<Rightarrow> nat \<times> bool" where
  "half_loop i tna tnb =
     (let i = i div 2 in
      if i < tna \<or> i < tnb then (i, True)
      else if i = tna \<or> i = tnb then (i, False)
      else half_loop i tna tnb)"
  by pat_completeness auto
termination
  by (relation "measure (\<lambda>(i, tna, tnb). i)") auto

declare half_loop.simps [simp del]

lemma half_loop_le: "fst (half_loop i tna tnb) \<le> i div 2"
proof (induction i tna tnb rule: half_loop.induct)
  case (1 i tna tnb)
  then show ?case by (subst half_loop.simps) (auto simp: Let_def)
qed

text \<open>The effect of \<open>OPENSSL_memset(ws, 0, k)\<close> on an array of words in little-endian memory: \<open>k\<close> counts
  bytes.\<close>

definition clear_bytes :: "nat \<Rightarrow> words \<Rightarrow> words" where
  "clear_bytes k ws =
     replicate (min (k div 8) (length ws)) 0 @
       (case drop (k div 8) ws of [] \<Rightarrow> [] | w # ws' \<Rightarrow> (w AND NOT (mask (8 * (k mod 8)))) # ws')"

text \<open>\<open>r\<close> is what the result's memory holds before the call.  For \<open>n < 8\<close> the words behind the product are
  not all cleared: \<open>mul.c\<close> clears \<open>n2 - tna - tnb\<close> bytes there, not words.  The recursive call gets memory
  that has been cleared.\<close>

function bn_mul_part_recursive :: "words \<Rightarrow> words \<Rightarrow> words \<Rightarrow> nat \<Rightarrow> nat \<Rightarrow> nat \<Rightarrow> words" where
  "bn_mul_part_recursive r a b n tna tnb =
     (let n2 = n * 2 in
      if n < 8 then
        bn_mul_normal a (n + tna) b (n + tnb) @
          clear_bytes (n2 - tna - tnb) (take (n2 - tna - tnb) (drop (n2 + tna + tnb) r))
      else
        let (t0, neg) = bn_abs_sub_part_words (take n a) (drop n a) tna (int n - int tna);
            (t1, neg') = bn_abs_sub_part_words (drop n b) (take n b) tnb (int tnb - int n);
            neg = neg XOR neg';
            (t23, r01, r23) =
              (if n = 8
               then (bn_mul_comba8 t0 t1, bn_mul_comba8 (take n a) (take n b),
                     bn_mul_normal (drop n a) tna (drop n b) tnb @ replicate (n2 - tna - tnb) 0)
               else
                 (bn_mul_recursive t0 t1 n 0 0, bn_mul_recursive (take n a) (take n b) n 0 0,
                  let r23 =
                    (if tna < 16 \<and> tnb < 16 then bn_mul_normal (drop n a) tna (drop n b) tnb
                     else let i = fst (half_loop n tna tnb) in
                       if snd (half_loop n tna tnb)
                       then bn_mul_part_recursive (replicate n2 0) (drop n a) (drop n b) i (tna - i) (tnb - i)
                       else bn_mul_recursive (drop n a) (drop n b) i (int tna - int i) (int tnb - int i))
                  in r23 @ replicate (n2 - length r23) 0))
        in karatsuba_join n n2 neg t23 r01 r23)"
  by pat_completeness auto
termination
proof (relation "measure (\<lambda>(r, a, b, n, tna, tnb). n)", goal_cases)
  case (2 r a b n tna tnb)
  then show ?case using half_loop_le [of n tna tnb] by simp
qed simp

declare bn_mul_part_recursive.simps [simp del]

lemma propagate_carry_val:
  "words_val (propagate_carry c r) = (words_val r + unat c) mod 2 ^ (64 * length r) \<and>
   length (propagate_carry c r) = length r"
proof (induction c r rule: propagate_carry.induct)
  case (2 c old r)
  let ?new = "old + c" and ?d = "if old + c < old then 1 else 0 :: u64"
  have new: "unat ?new + 2 ^ 64 * unat ?d = unat old + unat c"
    using carry_add [of c old]
    by (auto simp: add.commute [of old c] add.commute [of "unat old"] split: if_splits)
  let ?x = "unat old + 2 ^ 64 * words_val r + unat c"
  have x: "?x = unat ?new + 2 ^ 64 * (words_val r + unat ?d)" using new by (simp add: distrib_left)
  have n: "unat ?new < 2 ^ 64" using unat_u64_less [of ?new] by simp
  have "?x mod (2 ^ 64 * 2 ^ (64 * length r)) = 2 ^ 64 * (?x div 2 ^ 64 mod 2 ^ (64 * length r)) + ?x mod 2 ^ 64"
    by (rule mod_mult2_eq)
  moreover have "?x div 2 ^ 64 = words_val r + unat ?d" "?x mod 2 ^ 64 = unat ?new"
    unfolding x using n by (simp_all del: distrib_left_numeral)
  ultimately show ?case using 2 by (simp add: Let_def power_add)
qed simp

lemma words_val_split: "n \<le> length a \<Longrightarrow> words_val a = words_val (take n a) + 2 ^ (64 * n) * words_val (drop n a)"
  using words_val_append [of "take n a" "drop n a"] by simp

lemma karatsuba_join_val:
  assumes len: "length r01 = n2" "length r23 = n2" "length t23 = n2" "n2 = 2 * n"
    and neg: "neg = - 1 \<and> M + words_val t23 = words_val r01 + words_val r23 \<or>
      neg = 0 \<and> M = words_val r01 + words_val r23 + words_val t23"
    and fits: "words_val r01 + 2 ^ (64 * n) * M + 2 ^ (64 * n2) * words_val r23 < 2 ^ (64 * (n2 + n2))"
  shows "words_val (karatsuba_join n n2 neg t23 r01 r23) =
      words_val r01 + 2 ^ (64 * n) * M + 2 ^ (64 * n2) * words_val r23 \<and>
    length (karatsuba_join n n2 neg t23 r01 r23) = n2 + n2"
proof -
  obtain t01 c where t: "bn_add_words r01 r23 n2 = (t01, c)" by fastforce
  note tv = bn_add_words_val [OF t len(1,2)]
  obtain minus borrow where m: "bn_sub_words t01 t23 n2 = (minus, borrow)" by fastforce
  note mv = bn_sub_words_val [OF m tv(2) len(3)]
  obtain plus carry where p: "bn_add_words t01 t23 n2 = (plus, carry)" by fastforce
  note pv = bn_add_words_val [OF p tv(2) len(3)]
  define X where "X = bn_select_words neg minus plus n2"
  define cs where "cs = constant_time_select_w neg (c - borrow) (c + carry)"
  let ?B = "2 ^ (64 * n2) :: nat"
  have X: "words_val X + ?B * unat cs = M \<and> unat cs \<le> 2 \<and> length X = n2"
    using neg
  proof
    assume n: "neg = - 1 \<and> M + words_val t23 = words_val r01 + words_val r23"
    then have e: "X = minus" "cs = c - borrow"
      using mv(2) pv(2) by (simp_all add: X_def cs_def select_words_cases select_w_eq)
    have s: "words_val minus + ?B * unat c = M + ?B * unat borrow" using mv(1) tv(1) n by linarith
    have "words_val minus < ?B" using words_val_less [of minus] mv(2) by simp
    with s have "unat borrow \<le> unat c" using mv(3) tv(3) by (cases "unat borrow"; cases "unat c") auto
    then have u: "unat cs = unat c - unat borrow" by (simp add: e unat_sub word_le_nat_alt)
    with s \<open>unat borrow \<le> unat c\<close> have "words_val minus + ?B * unat cs = M"
      by (simp add: diff_mult_distrib2)
    with e u tv(3) mv(2) show ?thesis by simp
  next
    assume n: "neg = 0 \<and> M = words_val r01 + words_val r23 + words_val t23"
    then have e: "X = plus" "cs = c + carry"
      using mv(2) pv(2) by (simp_all add: X_def cs_def select_words_cases select_w_eq)
    have u: "unat cs = unat c + unat carry" using tv(3) pv(3) by (simp add: e unat_word_ariths)
    with tv(1,3) pv n e show ?thesis by (simp add: distrib_left)
  qed
  define r where "r = r01 @ r23"
  have lr: "length r = n + (n2 + n)" using len by (simp add: r_def)
  obtain r12 carry2 where a: "bn_add_words (take n2 (drop n r)) X n2 = (r12, carry2)" by fastforce
  have "length (take n2 (drop n r)) = n2" using lr by simp
  note av = bn_add_words_val [OF a this conjunct2 [OF conjunct2 [OF X]]]
  let ?top = "drop (n + n2) r" and ?lo = "take n r" and ?mid = "take n2 (drop n r)"
  have c: "unat (cs + carry2) = unat cs + unat carry2"
    using X av(3) by (simp add: unat_word_ariths)
  have join: "karatsuba_join n n2 neg t23 r01 r23 = ?lo @ r12 @ propagate_carry (cs + carry2) ?top"
    using t m p a by (simp add: karatsuba_join_def X_def [symmetric] cs_def [symmetric] r_def [symmetric])
  let ?N = "2 ^ (64 * n) :: nat"
  have rv: "words_val r = words_val r01 + ?B * words_val r23"
    using len by (simp add: r_def words_val_append)
  have "words_val r = words_val ?lo + ?N * (words_val ?mid + ?B * words_val ?top)"
    using words_val_split [of n r] words_val_split [of n2 "drop n r"] lr by (simp add: drop_drop add.commute)
  with rv have rs: "words_val ?lo + ?N * (words_val ?mid + ?B * words_val ?top) = words_val r01 + ?B * words_val r23"
    by simp
  let ?total = "words_val r01 + ?N * M + ?B * words_val r23"
  have tot: "words_val ?lo + ?N * (words_val r12 + ?B * (words_val ?top + unat (cs + carry2))) = ?total"
  proof -
    have "words_val ?lo + ?N * (words_val r12 + ?B * (words_val ?top + unat (cs + carry2))) =
        words_val ?lo + ?N * ((words_val r12 + ?B * unat carry2) + ?B * words_val ?top + ?B * unat cs)"
      unfolding c by (simp add: algebra_simps)
    also have "\<dots> = words_val ?lo + ?N * (words_val ?mid + ?B * words_val ?top) + ?N * (words_val X + ?B * unat cs)"
      unfolding av(1) by (simp add: algebra_simps)
    finally show ?thesis using X rs by simp
  qed
  have "?N * (?B * (words_val ?top + unat (cs + carry2))) \<le> ?total"
    unfolding tot [symmetric] by (simp add: distrib_left)
  also have "?total < 2 ^ (64 * (n2 + n2))" by (rule fits)
  also have "(2 :: nat) ^ (64 * (n2 + n2)) = ?N * (?B * ?N)" unfolding len(4) by (simp flip: power_add)
  finally have "words_val ?top + unat (cs + carry2) < ?N" by (simp only: mult_less_cancel1)
  moreover have "length ?top = n" using lr by simp
  ultimately have "words_val (propagate_carry (cs + carry2) ?top) = words_val ?top + unat (cs + carry2)"
    "length (propagate_carry (cs + carry2) ?top) = n"
    using propagate_carry_val [of "cs + carry2" ?top] by simp_all
  with join tot lr av(2) len(4) show ?thesis by (simp add: words_val_append)
qed

lemma karatsuba_middle:
  "(a0 < a1) \<noteq> (b1 < b0) \<Longrightarrow> (a0 * b1 + a1 * b0) + absdiff a0 a1 * absdiff b1 b0 = a0 * b0 + a1 * b1"
  "(a0 < a1) = (b1 < b0) \<Longrightarrow> a0 * b1 + a1 * b0 = a0 * b0 + a1 * b1 + absdiff a0 a1 * absdiff b1 b0"
proof -
  have le: "\<exists>d. y = x + d" if "x \<le> y" for x y :: nat using that by (rule le_Suc_ex)
  consider d e where "a1 = a0 + d" "b0 = b1 + e" | d e where "a1 = a0 + d" "b1 = b0 + e"
    | d e where "a0 = a1 + d" "b0 = b1 + e" | d e where "a0 = a1 + d" "b1 = b0 + e"
    by (metis le linear)
  note cs = this
  show "(a0 < a1) \<noteq> (b1 < b0) \<Longrightarrow> (a0 * b1 + a1 * b0) + absdiff a0 a1 * absdiff b1 b0 = a0 * b0 + a1 * b1"
    by (cases rule: cs) (auto simp: absdiff_def algebra_simps)
  show "(a0 < a1) = (b1 < b0) \<Longrightarrow> a0 * b1 + a1 * b0 = a0 * b0 + a1 * b1 + absdiff a0 a1 * absdiff b1 b0"
    by (cases rule: cs) (auto simp: absdiff_def algebra_simps)
qed

text \<open>One level of the recursion, for either function.\<close>

lemma karatsuba_differences:
  assumes "length a = n + la" "la \<le> n" "length b = n + lb" "lb \<le> n"
    "bn_abs_sub_part_words (take n a) (drop n a) la (int n - int la) = (t0, m)"
    "bn_abs_sub_part_words (drop n b) (take n b) lb (int lb - int n) = (t1, m')"
  shows "words_val t0 = absdiff (words_val (take n a)) (words_val (drop n a))" "length t0 = n"
    "m = (if words_val (take n a) < words_val (drop n a) then - 1 else 0)"
    "words_val t1 = absdiff (words_val (drop n b)) (words_val (take n b))" "length t1 = n"
    "m' = (if words_val (drop n b) < words_val (take n b) then - 1 else 0)"
  using bn_abs_sub_part_words_val [OF assms(5)] bn_abs_sub_part_words_val [OF assms(6)] assms(1-4)
  by (simp_all add: nat_diff_distrib)

lemma karatsuba_step:
  assumes ab: "length a = n + la" "la \<le> n" "length b = n + lb" "lb \<le> n"
    and t: "bn_abs_sub_part_words (take n a) (drop n a) la (int n - int la) = (t0, m)"
      "bn_abs_sub_part_words (drop n b) (take n b) lb (int lb - int n) = (t1, m')"
    and t23: "words_val t23 = words_val t0 * words_val t1 \<and> length t23 = n + n"
    and r01: "words_val r01 = words_val (take n a) * words_val (take n b) \<and> length r01 = n + n"
    and r23: "words_val r23 = words_val (drop n a) * words_val (drop n b) \<and> length r23 = n + n"
  shows "words_val (karatsuba_join n (n + n) (m XOR m') t23 r01 r23) = words_val a * words_val b \<and>
    length (karatsuba_join n (n + n) (m XOR m') t23 r01 r23) = 4 * n"
proof -
  note d = karatsuba_differences [OF ab t]
  let ?a0 = "words_val (take n a)" and ?a1 = "words_val (drop n a)"
  let ?b0 = "words_val (take n b)" and ?b1 = "words_val (drop n b)"
  define M where "M = ?a0 * ?b1 + ?a1 * ?b0"
  let ?N = "2 ^ (64 * n) :: nat"
  have "words_val a = ?a0 + ?N * ?a1" "words_val b = ?b0 + ?N * ?b1"
    using words_val_split [of n a] words_val_split [of n b] ab by simp_all
  moreover have B: "2 ^ (64 * (n + n)) = ?N * ?N" by (simp add: power_add [symmetric])
  ultimately have prod: "words_val a * words_val b = words_val r01 + ?N * M + 2 ^ (64 * (n + n)) * words_val r23"
    using r01 r23 by (simp add: M_def algebra_simps)
  have mm: "m XOR m' = - 1 \<and> M + words_val t23 = words_val r01 + words_val r23 \<or>
      m XOR m' = 0 \<and> M = words_val r01 + words_val r23 + words_val t23"
    using karatsuba_middle [of ?a0 ?a1 ?b1 ?b0] t23 r01 r23
    by (auto simp: d M_def)
  have "words_val a * words_val b < 2 ^ (64 * (length a + length b))" by (rule words_val_product_less)
  also have "\<dots> \<le> 2 ^ (64 * ((n + n) + (n + n)))" using ab by (intro power_increasing) simp_all
  finally have fits: "words_val r01 + ?N * M + 2 ^ (64 * (n + n)) * words_val r23 < 2 ^ (64 * ((n + n) + (n + n)))"
    unfolding prod .
  from karatsuba_join_val [OF _ _ _ _ mm fits] t23 r01 r23 prod show ?thesis by simp
qed

lemma bn_mul_recursive_val:
  assumes "n2 = 2 ^ k" "int (length a) = int n2 + dna" "int (length b) = int n2 + dnb"
    "- 8 \<le> dna" "dna \<le> 0" "- 8 \<le> dnb" "dnb \<le> 0"
  shows "words_val (bn_mul_recursive a b n2 dna dnb) = words_val a * words_val b \<and>
    length (bn_mul_recursive a b n2 dna dnb) = n2 + n2"
  using assms
proof (induction n2 arbitrary: a b dna dnb k rule: less_induct)
  case (less n2)
  note la = less.prems(2) and lb = less.prems(3)
  consider (comba) "n2 = 8 \<and> dna = 0 \<and> dnb = 0" | (normal) "\<not> (n2 = 8 \<and> dna = 0 \<and> dnb = 0)" "n2 < 16"
    | (split) "16 \<le> n2" by linarith
  then show ?case
  proof cases
    case comba
    with la lb bn_mul_comba8_val [of a b] show ?thesis by (simp add: bn_mul_recursive.simps)
  next
    case normal
    have l: "nat (int n2 + dna) = length a" "nat (int n2 + dnb) = length b" using la lb by simp_all
    have "bn_mul_recursive a b n2 dna dnb =
        bn_mul_normal a (length a) b (length b) @ (if dna + dnb < 0 then replicate (nat (- (dna + dnb))) 0 else [])"
      using normal l by (subst bn_mul_recursive.simps) auto
    with bn_mul_normal_val [of a "length a" b "length b"] la lb less.prems(5,7) show ?thesis
      by (auto simp: words_val_append)
  next
    case split
    define n where "n = n2 div 2"
    have "k \<noteq> 0" using split less.prems(1) by (cases k) auto
    then obtain k' where "k = Suc k'" by (cases k) auto
    with less.prems(1) have n: "n = 2 ^ k'" "n2 = n + n" "n < n2" "8 \<le> n" using split by (simp_all add: n_def)
    let ?tna = "nat (int n + dna)" and ?tnb = "nat (int n + dnb)"
    have t: "length a = n + ?tna" "?tna \<le> n" "length b = n + ?tnb" "?tnb \<le> n"
      using la lb less.prems(4-7) n(2,4) by arith+
    obtain t0 m where t0: "bn_abs_sub_part_words (take n a) (drop n a) ?tna (int n - int ?tna) = (t0, m)" by fastforce
    obtain t1 m' where t1: "bn_abs_sub_part_words (drop n b) (take n b) ?tnb (int ?tnb - int n) = (t1, m')" by fastforce
    note d = karatsuba_differences [OF t t0 t1]
    let ?mul = "\<lambda>x y e f. if n = 8 \<and> dna = 0 \<and> dnb = 0 then bn_mul_comba8 x y else bn_mul_recursive x y n e f"
    have mul: "words_val (?mul x y e f) = words_val x * words_val y \<and> length (?mul x y e f) = n + n"
      if "int (length x) = int n + e" "int (length y) = int n + f" "e = 0 \<and> f = 0 \<or> e = dna \<and> f = dnb" for x y e f
      using that bn_mul_comba8_val [of x y] less.IH [OF n(3) n(1) that(1,2)] less.prems(4-7) by auto
    have "bn_mul_recursive a b n2 dna dnb = karatsuba_join n (n + n) (m XOR m')
        (?mul t0 t1 0 0) (?mul (take n a) (take n b) 0 0) (?mul (drop n a) (drop n b) dna dnb)"
      using split n(2,4) t0 t1 by (subst bn_mul_recursive.simps) (auto simp: Let_def n_def [symmetric])
    moreover have "length (take n a) = n" "length (take n b) = n" using t by simp_all
    moreover have "n \<le> length a" "n \<le> length b" using t(1,3) by linarith+
    then have "int (length (drop n a)) = int n + dna" "int (length (drop n b)) = int n + dnb"
      using la lb n(2) by (simp_all add: of_nat_diff)
    ultimately show ?thesis
      using karatsuba_step [OF t t0 t1 mul [of t0 0 t1 0] mul [of "take n a" 0 "take n b" 0]
          mul [of "drop n a" dna "drop n b" dnb]] n(2) d(2,5) by simp
  qed
qed

lemma half_loop_val:
  assumes "n = 2 ^ k" "tna < n" "tnb < n" "tna \<le> tnb + 1" "tnb \<le> tna + 1" "16 \<le> tna \<or> 16 \<le> tnb"
    "half_loop n tna tnb = (i, part)"
  shows "(\<exists>k'. i = 2 ^ k') \<and> 2 * i \<le> n \<and>
    (if part then i \<le> tna \<and> i \<le> tnb \<and> tna < 2 * i \<and> tnb < 2 * i
     else tna \<le> i \<and> tnb \<le> i \<and> (i = tna \<or> i = tnb))"
  using assms
proof (induction k arbitrary: n)
  case 0
  then show ?case by simp
next
  case (Suc k)
  let ?h = "2 ^ k :: nat"
  have h: "n div 2 = ?h" "n = 2 * ?h" using Suc.prems(1) by simp_all
  show ?case
  proof (cases "?h \<le> tna \<or> ?h \<le> tnb")
    case True
    have e: "half_loop n tna tnb = (?h, ?h < tna \<or> ?h < tnb)"
      using True h by (subst half_loop.simps) (auto simp: Let_def)
    then have i: "i = ?h" "part \<longleftrightarrow> ?h < tna \<or> ?h < tnb" using Suc.prems(7) by auto
    with True Suc.prems(2-5) h(2) show ?thesis by auto
  next
    case False
    then have "half_loop n tna tnb = half_loop ?h tna tnb"
      using h by (subst half_loop.simps) (auto simp: Let_def)
    with Suc.IH [of ?h] Suc.prems(2-7) False h(2) show ?thesis by auto
  qed
qed

lemma words_val_pad [simp]: "words_val (r @ replicate j 0) = words_val r"
  by (simp add: words_val_append)

lemma clear_bytes_zeros [simp]: "clear_bytes k (replicate m 0) = replicate m 0"
proof (cases "k div 8 < m")
  case True
  then obtain d where "m = k div 8 + Suc d" using less_imp_Suc_add by auto
  then have z: "replicate m (0 :: u64) = replicate (k div 8) 0 @ 0 # replicate d 0"
    by (simp only: replicate_add replicate_Suc)
  show ?thesis unfolding clear_bytes_def z using True by simp
qed (simp add: clear_bytes_def)

lemma length_clear_bytes [simp]: "length (clear_bytes k ws) = length ws"
proof (cases "k div 8 < length ws")
  case True
  then have "drop (k div 8) ws = ws ! (k div 8) # drop (Suc (k div 8)) ws" by (simp add: Cons_nth_drop_Suc)
  with True show ?thesis by (simp add: clear_bytes_def)
qed (simp add: clear_bytes_def)

lemma bn_mul_part_recursive_small:
  assumes "n < 8" "length a = n + tna" "length b = n + tnb" "tna < n" "tnb < n"
  shows "words_val (bn_mul_part_recursive r a b n tna tnb) = words_val a * words_val b +
      2 ^ (64 * (2 * n + tna + tnb)) *
        words_val (clear_bytes (2 * n - tna - tnb) (take (2 * n - tna - tnb) (drop (2 * n + tna + tnb) r)))"
    "4 * n \<le> length r \<Longrightarrow> length (bn_mul_part_recursive r a b n tna tnb) = 4 * n"
  using bn_mul_normal_val [OF assms(2,3)] assms
  by (simp_all add: bn_mul_part_recursive.simps Let_def words_val_append ac_simps)

text \<open>The last word of the result is then the one that was there before.\<close>

lemma bn_mul_part_recursive_stale:
  assumes "n < 8" "length a = n + tna" "length b = n + tnb" "tna < n" "tnb < n" "4 * n \<le> length r"
  shows "bn_mul_part_recursive r a b n tna tnb ! (4 * n - 1) = r ! (4 * n - 1)"
proof -
  define m where "m = 2 * n - tna - tnb"
  define ws where "ws = take m (drop (2 * n + tna + tnb) r)"
  have m: "2 \<le> m" "m < 16" "2 * n + tna + tnb + m = 4 * n" "length ws = m"
    using assms by (simp_all add: m_def ws_def)
  then have k: "m div 8 < m - 1" by linarith
  then have "m div 8 < length ws" using m(4) by simp
  then have "drop (m div 8) ws = ws ! (m div 8) # drop (Suc (m div 8)) ws" by (simp add: Cons_nth_drop_Suc)
  moreover obtain e where e: "m - 1 = m div 8 + Suc e" using k less_imp_Suc_add by auto
  ultimately have "clear_bytes m ws ! (m - 1) = drop (Suc (m div 8)) ws ! e"
    using m(4) k unfolding e by (simp add: clear_bytes_def nth_append)
  moreover have "Suc (m div 8) \<le> length ws" using k m(4) by linarith
  then have "drop (Suc (m div 8)) ws ! e = ws ! (Suc (m div 8) + e)" by (rule nth_drop)
  ultimately have "clear_bytes m ws ! (m - 1) = ws ! (m - 1)" unfolding e by (simp only: add_Suc add_Suc_right)
  moreover have idx: "4 * n - 1 = 2 * n + tna + tnb + (m - 1)" using m(1,3) by linarith
  have "ws ! (m - 1) = r ! (4 * n - 1)" unfolding idx ws_def using m assms(6) by (simp only: nth_take nth_drop)
  moreover have "bn_mul_part_recursive r a b n tna tnb = bn_mul_normal a (n + tna) b (n + tnb) @ clear_bytes m ws"
    using assms(1) by (simp add: bn_mul_part_recursive.simps Let_def m_def ws_def mult.commute)
  moreover have "length (bn_mul_normal a (n + tna) b (n + tnb)) = 2 * n + tna + tnb"
    using bn_mul_normal_val [OF assms(2,3)] by simp
  ultimately show ?thesis
    using nth_append_length_plus [of "bn_mul_normal a (n + tna) b (n + tnb)" "clear_bytes m ws" "m - 1"]
    by (simp only: idx)
qed

lemma bn_mul_part_recursive_val:
  assumes "n = 2 ^ k" "length a = n + tna" "length b = n + tnb" "tna < n" "tnb < n"
    "tna \<le> tnb + 1" "tnb \<le> tna + 1" "8 \<le> n \<or> (\<exists>m. r = replicate m 0 \<and> 4 * n \<le> m)"
  shows "words_val (bn_mul_part_recursive r a b n tna tnb) = words_val a * words_val b \<and>
    length (bn_mul_part_recursive r a b n tna tnb) = 4 * n"
  using assms
proof (induction n arbitrary: r a b tna tnb k rule: less_induct)
  case (less n)
  note la = less.prems(2) and lb = less.prems(3)
  show ?case
  proof (cases "n < 8")
    case True
    with less.prems(8) obtain m where m: "r = replicate m 0" "4 * n \<le> m" by auto
    with bn_mul_part_recursive_small [OF True la lb less.prems(4,5), of r] show ?thesis by simp
  next
    case False
    have t: "length a = n + tna" "tna \<le> n" "length b = n + tnb" "tnb \<le> n" using less.prems by simp_all
    obtain t0 m where t0: "bn_abs_sub_part_words (take n a) (drop n a) tna (int n - int tna) = (t0, m)" by fastforce
    obtain t1 m' where t1: "bn_abs_sub_part_words (drop n b) (take n b) tnb (int tnb - int n) = (t1, m')" by fastforce
    note d = karatsuba_differences [OF t t0 t1]
    have da: "length (drop n a) = tna" "length (drop n b) = tnb" using la lb by simp_all
    note nv = bn_mul_normal_val [OF da]
    let ?mul = "\<lambda>x y. if n = 8 then bn_mul_comba8 x y else bn_mul_recursive x y n 0 0"
    have mul: "words_val (?mul x y) = words_val x * words_val y \<and> length (?mul x y) = n + n"
      if "length x = n" "length y = n" for x y
      using that bn_mul_comba8_val [of x y] bn_mul_recursive_val [of n k x 0 y 0] less.prems(1) by auto
    obtain ws where r: "bn_mul_part_recursive r a b n tna tnb = karatsuba_join n (n + n) (m XOR m')
        (?mul t0 t1) (?mul (take n a) (take n b)) (ws @ replicate (n + n - length ws) 0)"
      and rv: "words_val ws = words_val (drop n a) * words_val (drop n b)" "length ws \<le> n + n"
    proof (cases "tna < 16 \<and> tnb < 16 \<or> n = 8")
      case True
      let ?r = "bn_mul_normal (drop n a) tna (drop n b) tnb"
      have "bn_mul_part_recursive r a b n tna tnb = karatsuba_join n (n + n) (m XOR m')
        (?mul t0 t1) (?mul (take n a) (take n b)) (?r @ replicate (n + n - length ?r) 0)"
        using True False t0 t1 nv less.prems(4,5)
        by (subst bn_mul_part_recursive.simps) (auto simp: Let_def mult_2_right)
      with that [of ?r] nv less.prems(4,5) show ?thesis by simp
    next
      case big: False
      obtain i part where h: "half_loop n tna tnb = (i, part)" by fastforce
      from half_loop_val [OF less.prems(1,4-7) _ h] big obtain k' where i: "i = 2 ^ k'" "2 * i \<le> n"
        "if part then i \<le> tna \<and> i \<le> tnb \<and> tna < 2 * i \<and> tnb < 2 * i
         else tna \<le> i \<and> tnb \<le> i \<and> (i = tna \<or> i = tnb)" by auto
      let ?r = "if part then bn_mul_part_recursive (replicate (n + n) 0) (drop n a) (drop n b) i (tna - i) (tnb - i)
        else bn_mul_recursive (drop n a) (drop n b) i (int tna - int i) (int tnb - int i)"
      have "i < n" using i(2) False by linarith
      have v: "words_val ?r = words_val (drop n a) * words_val (drop n b) \<and> length ?r \<le> n + n"
      proof (cases part)
        case True
        have "words_val (bn_mul_part_recursive (replicate (n + n) 0) (drop n a) (drop n b) i (tna - i) (tnb - i)) =
            words_val (drop n a) * words_val (drop n b) \<and>
          length (bn_mul_part_recursive (replicate (n + n) 0) (drop n a) (drop n b) i (tna - i) (tnb - i)) = 4 * i"
        proof (intro less.IH [OF \<open>i < n\<close> i(1)])
          show "8 \<le> i \<or> (\<exists>m. replicate (n + n) 0 = replicate m (0 :: u64) \<and> 4 * i \<le> m)" using i(2) by auto
        qed (use True i(3) less.prems(6,7) in \<open>simp_all only: da if_True, linarith+\<close>)
        with True i(2) show ?thesis by simp
      next
        case False
        then have l: "tna \<le> i" "tnb \<le> i" "i \<le> tna + 1" "i \<le> tnb + 1"
          using i(3) less.prems(6,7) by auto
        have "words_val (bn_mul_recursive (drop n a) (drop n b) i (int tna - int i) (int tnb - int i)) =
            words_val (drop n a) * words_val (drop n b) \<and>
          length (bn_mul_recursive (drop n a) (drop n b) i (int tna - int i) (int tnb - int i)) = i + i"
          using l by (intro bn_mul_recursive_val [OF i(1)]) (simp only: da; linarith | linarith)+
        with False i(2) show ?thesis by simp
      qed
      have "bn_mul_part_recursive r a b n tna tnb = karatsuba_join n (n + n) (m XOR m')
        (?mul t0 t1) (?mul (take n a) (take n b)) (?r @ replicate (n + n - length ?r) 0)"
        using big False t0 t1 h
        by (subst bn_mul_part_recursive.simps) (auto simp: Let_def mult_2_right)
      with that [of ?r] v show ?thesis by blast
    qed
    have r23: "words_val (ws @ replicate (n + n - length ws) 0) = words_val (drop n a) * words_val (drop n b) \<and>
        length (ws @ replicate (n + n - length ws) 0) = n + n" using rv by simp
    have "length (take n a) = n" "length (take n b) = n" using la lb by simp_all
    from karatsuba_step [OF t t0 t1 mul [OF d(2,5)] mul [OF this] r23] r show ?thesis by simp
  qed
qed

end
