(* ===== verification/Bn_Sqr.thy ===== *)
theory Bn_Sqr
  imports Bn_Kar
begin

text \<open>
  Squares of arrays of any size (\<open>crypto/fipsmodule/bn/mul.c\<close>): the products of different words are added
  up once, doubled, and the squares of the words are added; large arrays whose size is a power of two
  are split by Karatsuba's method with a difference that needs no sign.
\<close>

section \<open>Squaring\<close>

text \<open>The loop over \<open>ap\<close>, whose head is \<open>ap[-1]\<close>: \<open>r\<close> are the words written so far, \<open>off\<close> is where \<open>rp\<close> points.\<close>

fun sqr_cross_loop :: "words \<Rightarrow> nat \<Rightarrow> words \<Rightarrow> words" where
  "sqr_cross_loop [] off r = r"
| "sqr_cross_loop (x # ap) off r =
     (if ap = [] then r
      else let (rp, c) = bn_mul_add_words (drop off r) ap (length ap) x
           in sqr_cross_loop ap (off + 2) (take off r @ rp @ [c]))"

definition bn_sqr_normal :: "words \<Rightarrow> nat \<Rightarrow> words" where
  "bn_sqr_normal a n =
     (if n = 0 then []
      else
        let max = n * 2;
            r = (if n > 1 then let (rp, c) = bn_mul_words (drop 1 (take n a)) (n - 1) (a ! 0) in 0 # rp @ [c] else [0]);
            r = (if n > 2 then sqr_cross_loop (drop 1 (take n a)) 3 r else r) @ [0];
            r = fst (bn_add_words r r max);
            tmp = bn_sqr_words a n
        in fst (bn_add_words r tmp max))"

function bn_sqr_recursive :: "words \<Rightarrow> nat \<Rightarrow> words" where
  "bn_sqr_recursive a n2 =
     (if n2 = 4 then bn_sqr_comba4 a
      else if n2 = 8 then bn_sqr_comba8 a
      else if n2 < 16 then bn_sqr_normal a n2
      else
        let n = n2 div 2;
            t0 = bn_abs_sub_words (take n a) (drop n a) n;
            t23 = bn_sqr_recursive t0 n;
            r01 = bn_sqr_recursive (take n a) n;
            r23 = bn_sqr_recursive (drop n a) n;
            (t01, c) = bn_add_words r01 r23 n2;
            (t23, borrow) = bn_sub_words t01 t23 n2; c = c - borrow;
            r = r01 @ r23;
            (r12, carry) = bn_add_words (take n2 (drop n r)) t23 n2; c = c + carry
        in take n r @ r12 @ propagate_carry c (drop (n + n2) r))"
  by pat_completeness auto
termination
  by (relation "measure (\<lambda>(a, n2). n2)") auto

declare bn_sqr_recursive.simps [simp del]

section \<open>It is the square\<close>

fun cross_val :: "words \<Rightarrow> nat" where
  "cross_val [] = 0"
| "cross_val (x # a) = 2 ^ 64 * unat x * words_val a + 2 ^ 128 * cross_val a"

lemma square_parts: "words_val a * words_val a = squares_val a + 2 * cross_val a"
  by (induction a) (simp_all add: algebra_simps)

lemma sqr_cross_loop_val:
  assumes "length r = off + length ap" "0 < off"
  shows "words_val (sqr_cross_loop (x # ap) off r) = words_val r + 2 ^ (64 * (off - 1)) * cross_val (x # ap) \<and>
    length (sqr_cross_loop (x # ap) off r) = off + 2 * length ap"
  using assms
proof (induction ap arbitrary: x off r)
  case Nil
  then show ?case by simp
next
  case (Cons y ap)
  let ?ap = "y # ap"
  obtain rp c where m: "bn_mul_add_words (drop off r) ?ap (length ?ap) x = (rp, c)" by fastforce
  have l: "length (drop off r) = length ?ap" using Cons.prems(1) by simp
  note v = bn_mul_add_words_val [OF m l refl]
  let ?r = "take off r @ rp @ [c]"
  have lr: "length ?r = off + 2 + length ap" using v(2) Cons.prems(1) by simp
  have "words_val ?r = words_val (take off r) + 2 ^ (64 * off) * (words_val rp + 2 ^ (64 * length ?ap) * unat c)"
    using v(2) Cons.prems(1) by (simp add: words_val_append)
  also have "\<dots> = words_val r + 2 ^ (64 * off) * (unat x * words_val ?ap)"
    unfolding v(1) using words_val_append [of "take off r" "drop off r"] Cons.prems(1)
    by (simp add: distrib_left del: words_val.simps)
  finally have w: "words_val ?r = words_val r + 2 ^ (64 * off) * (unat x * words_val ?ap)" .
  obtain k where k: "off = Suc k" using Cons.prems(2) by (cases off) auto
  have p: "2 ^ (64 * off) = 2 ^ (64 * k) * (2 :: nat) ^ 64" "2 ^ (64 * (off + 2 - 1)) = 2 ^ (64 * k) * (2 :: nat) ^ 128"
    unfolding k by (simp_all add: power_add)
  from Cons.IH [OF lr, of y] m w
  have "words_val (sqr_cross_loop (x # ?ap) off r) =
      words_val r + 2 ^ (64 * off) * (unat x * words_val ?ap) + 2 ^ (64 * (off + 2 - 1)) * cross_val ?ap"
    "length (sqr_cross_loop (x # ?ap) off r) = off + 2 * length ?ap"
    by (simp_all del: words_val.simps cross_val.simps)
  then show ?case
    unfolding p cross_val.simps(2) [of x] using k by (simp add: algebra_simps del: words_val.simps cross_val.simps)
qed

lemma bn_add_words_fits:
  assumes "length a = n" "length b = n" "words_val a + words_val b < 2 ^ (64 * n)"
  shows "words_val (fst (bn_add_words a b n)) = words_val a + words_val b" "length (fst (bn_add_words a b n)) = n"
proof -
  obtain r c where s: "bn_add_words a b n = (r, c)" by fastforce
  note v = bn_add_words_val [OF s assms(1,2)]
  have "2 ^ (64 * n) * unat c < 2 ^ (64 * n) * 1" using v(1) assms(3) by linarith
  then have "unat c = 0" by (simp only: mult_less_cancel1 less_one)
  with v s show "words_val (fst (bn_add_words a b n)) = words_val a + words_val b"
    "length (fst (bn_add_words a b n)) = n" by simp_all
qed

lemma bn_sqr_normal_val:
  assumes "length a = n"
  shows "words_val (bn_sqr_normal a n) = words_val a * words_val a \<and> length (bn_sqr_normal a n) = n + n"
proof (cases a)
  case Nil
  with assms show ?thesis by (simp add: bn_sqr_normal_def)
next
  case (Cons x b)
  then have n: "n = Suc (length b)" using assms by simp
  define r0 where "r0 = (if n > 1 then let (rp, c) = bn_mul_words (drop 1 (take n a)) (n - 1) (a ! 0) in 0 # rp @ [c] else [0])"
  define r1 where "r1 = (if n > 2 then sqr_cross_loop (drop 1 (take n a)) 3 r0 else r0) @ [0]"
  have r0: "words_val r0 = 2 ^ 64 * unat x * words_val b" "length r0 = (if b = [] then 1 else n + 1)"
  proof -
    obtain rp c where m: "bn_mul_words b (length b) x = (rp, c)" by fastforce
    note v = bn_mul_words_val [OF m refl]
    have "words_val (rp @ [c]) = unat x * words_val b" using v by (simp add: words_val_append)
    with v(2) m n Cons show "words_val r0 = 2 ^ 64 * unat x * words_val b" "length r0 = (if b = [] then 1 else n + 1)"
      by (auto simp: r0_def)
  qed
  have r1: "words_val r1 = cross_val a" "length r1 = n + n"
  proof -
    have "words_val r1 = cross_val a \<and> length r1 = n + n"
    proof (cases b)
      case Nil
      with r0 n Cons show ?thesis by (simp add: r1_def words_val_append)
    next
      case b: (Cons y b')
      show ?thesis
      proof (cases b')
        case Nil
        with r0 n Cons b show ?thesis by (simp add: r1_def words_val_append)
      next
        case (Cons z b'')
        have l: "length r0 = 3 + length b'" using r0(2) n b by simp
        from sqr_cross_loop_val [OF l, of y] r0(1) n b \<open>a = x # b\<close> Cons show ?thesis
          by (simp add: r1_def words_val_append)
      qed
    qed
    then show "words_val r1 = cross_val a" "length r1 = n + n" by simp_all
  qed
  have less: "squares_val a + 2 * cross_val a < 2 ^ (64 * (n + n))"
    using words_val_product_less [of a a] assms by (simp add: square_parts)
  have d: "words_val (fst (bn_add_words r1 r1 (n + n))) = 2 * cross_val a" "length (fst (bn_add_words r1 r1 (n + n))) = n + n"
    using bn_add_words_fits [of r1 "n + n" r1] r1 less by simp_all
  have s: "words_val (bn_sqr_words a n) = squares_val a" "length (bn_sqr_words a n) = n + n"
    using bn_sqr_words_val [OF assms] by simp_all
  have "bn_sqr_normal a n = fst (bn_add_words (fst (bn_add_words r1 r1 (n + n))) (bn_sqr_words a n) (n + n))"
  proof -
    have "n \<noteq> 0" using n by simp
    then show ?thesis by (simp add: bn_sqr_normal_def Let_def r0_def r1_def mult_2_right)
  qed
  with bn_add_words_fits [OF d(2) s(2)] d(1) s(1) less show ?thesis by (simp add: square_parts)
qed

lemma bn_abs_sub_words_val:
  assumes "length a = n" "length b = n"
  shows "words_val (bn_abs_sub_words a b n) = absdiff (words_val a) (words_val b)"
    "length (bn_abs_sub_words a b n) = n"
proof -
  have "bn_abs_sub_words a b n = fst (bn_abs_sub_part_words a b n 0)"
    by (simp add: bn_abs_sub_words_def bn_abs_sub_part_words_def bn_sub_part_words_def Let_def split: prod.split)
  with bn_abs_sub_part_words_val [of a b n 0, OF prod.collapse [symmetric]] assms
  show "words_val (bn_abs_sub_words a b n) = absdiff (words_val a) (words_val b)"
    "length (bn_abs_sub_words a b n) = n" by simp_all
qed

lemma absdiff_square: "2 * (x * y) + absdiff x y * absdiff x y = x * x + y * y"
proof (cases "x < y")
  case True
  then obtain d where "y = x + d" using less_imp_le [THEN le_Suc_ex] by blast
  with True show ?thesis by (simp add: absdiff_def algebra_simps)
next
  case False
  then obtain d where "x = y + d" using le_Suc_ex [of y x] by auto
  with False show ?thesis by (simp add: absdiff_def algebra_simps)
qed

lemma bn_sqr_recursive_val:
  assumes "n2 = 2 ^ k" "length a = n2"
  shows "words_val (bn_sqr_recursive a n2) = words_val a * words_val a \<and> length (bn_sqr_recursive a n2) = n2 + n2"
  using assms
proof (induction n2 arbitrary: a k rule: less_induct)
  case (less n2)
  show ?case
  proof (cases "n2 < 16")
    case True
    with less.prems bn_sqr_comba4_val [of a] bn_sqr_comba8_val [of a] bn_sqr_normal_val [of a n2]
    show ?thesis by (auto simp: bn_sqr_recursive.simps)
  next
    case False
    define n where "n = n2 div 2"
    have "k \<noteq> 0" using False less.prems(1) by (cases k) auto
    then obtain k' where "k = Suc k'" by (cases k) auto
    with less.prems(1) have n: "n = 2 ^ k'" "n2 = n + n" "n < n2" using False by (simp_all add: n_def)
    let ?a0 = "take n a" and ?a1 = "drop n a"
    have l: "length ?a0 = n" "length ?a1 = n" using less.prems(2) n(2) by simp_all
    define t0 where "t0 = bn_abs_sub_words ?a0 ?a1 n"
    note t = bn_abs_sub_words_val [OF l, folded t0_def]
    note t23 = less.IH [OF n(3,1) t(2)] and r01 = less.IH [OF n(3,1) l(1)] and r23 = less.IH [OF n(3,1) l(2)]
    let ?N = "2 ^ (64 * n) :: nat" and ?M = "2 * (words_val ?a0 * words_val ?a1)"
    have j: "bn_sqr_recursive a n2 =
        karatsuba_join n n2 (- 1) (bn_sqr_recursive t0 n) (bn_sqr_recursive ?a0 n) (bn_sqr_recursive ?a1 n)"
    proof -
      let ?t23 = "bn_sqr_recursive t0 n" and ?r01 = "bn_sqr_recursive ?a0 n" and ?r23 = "bn_sqr_recursive ?a1 n"
      obtain t01 c where t01: "bn_add_words ?r01 ?r23 n2 = (t01, c)" by fastforce
      have lt: "length t01 = n2" using bn_add_words_val(2) [OF t01] r01 r23 n(2) by simp
      obtain mi borrow where mi: "bn_sub_words t01 ?t23 n2 = (mi, borrow)" by fastforce
      obtain pl carry where pl: "bn_add_words t01 ?t23 n2 = (pl, carry)" by fastforce
      have "length mi = n2" "length pl = n2"
        using bn_sub_words_val(2) [OF mi lt] bn_add_words_val(2) [OF pl lt] t23 n(2) by simp_all
      then have "bn_select_words (- 1) mi pl n2 = mi" by (rule select_words_cases)
      then show ?thesis
        using False t01 mi pl
        by (subst bn_sqr_recursive.simps)
          (simp add: karatsuba_join_def Let_def select_w_eq n_def [symmetric] t0_def [symmetric])
    qed
    have M: "?M + words_val (bn_sqr_recursive t0 n) = words_val (bn_sqr_recursive ?a0 n) + words_val (bn_sqr_recursive ?a1 n)"
      using t23 r01 r23 by (simp add: t(1) absdiff_square)
    have prod: "words_val a * words_val a = words_val (bn_sqr_recursive ?a0 n) + ?N * ?M +
        2 ^ (64 * n2) * words_val (bn_sqr_recursive ?a1 n)"
    proof -
      have "words_val a = words_val ?a0 + ?N * words_val ?a1" using words_val_split [of n a] l by simp
      moreover have "2 ^ (64 * n2) = ?N * ?N" unfolding n(2) by (simp add: power_add [symmetric])
      ultimately show ?thesis using r01 r23 by (simp add: algebra_simps)
    qed
    have fits: "words_val (bn_sqr_recursive ?a0 n) + ?N * ?M + 2 ^ (64 * n2) * words_val (bn_sqr_recursive ?a1 n)
        < 2 ^ (64 * (n2 + n2))"
      unfolding prod [symmetric] using words_val_product_less [of a a] less.prems(2) by simp
    have neg: "(- 1 :: u64) = - 1 \<and> ?M + words_val (bn_sqr_recursive t0 n) =
          words_val (bn_sqr_recursive ?a0 n) + words_val (bn_sqr_recursive ?a1 n) \<or>
        (- 1 :: u64) = 0 \<and> ?M = words_val (bn_sqr_recursive ?a0 n) + words_val (bn_sqr_recursive ?a1 n) +
          words_val (bn_sqr_recursive t0 n)" using M by simp
    from karatsuba_join_val [OF _ _ _ _ neg fits] t23 r01 r23 n(2) show ?thesis
      unfolding j prod by simp
  qed
qed

end
