(* ===== verification/Bn.thy ===== *)
theory Bn
  imports Bn_Kar
begin

text \<open>
  Numbers of any size (\<open>crypto/fipsmodule/bn/bn.c\<close> and \<open>cmp.c\<close>).  A number keeps its absolute value in
  an array of words of which the first \<open>width\<close> count; they may have zeros at the top, and the words
  behind them hold anything.  A call that may allocate takes the allocator as a parameter, which for a
  number of words returns no block or one with any contents.  The calls that fail without changing
  anything else return \<open>False\<close>; the error queue is not modelled.
\<close>

unbundle bit_operations_syntax

section \<open>The representation\<close>

record bignum =
  bn_d :: "words"   \<comment> \<open>all \<open>dmax\<close> words of the array\<close>
  bn_width :: nat
  bn_neg :: bool
  bn_static :: bool   \<comment> \<open>\<open>BN_FLG_STATIC_DATA\<close> is set\<close>

type_synonym words_alloc = "nat \<Rightarrow> (nat \<Rightarrow> u64) option"

definition bn_used :: "bignum \<Rightarrow> words" where
  "bn_used b = take (bn_width b) (bn_d b)"

definition bn_abs :: "bignum \<Rightarrow> nat" where
  "bn_abs b = words_val (bn_used b)"

definition bn_val :: "bignum \<Rightarrow> int" where
  "bn_val b = (if bn_neg b then - int (bn_abs b) else int (bn_abs b))"

text \<open>\<open>bn_fit\<close>: the array has the words that count, and its size was checked by \<open>bn_wexpand\<close>.
  \<open>bn_ok\<close>: moreover zero has no sign, as every call that gets a number may assume.\<close>

definition BN_MAX_WORDS :: nat where "BN_MAX_WORDS = 2147483647 div (4 * 64)"

definition bn_fit :: "bignum \<Rightarrow> bool" where
  "bn_fit b \<longleftrightarrow> bn_width b \<le> length (bn_d b) \<and> length (bn_d b) \<le> BN_MAX_WORDS"

definition bn_ok :: "bignum \<Rightarrow> bool" where
  "bn_ok b \<longleftrightarrow> bn_fit b \<and> (bn_neg b \<longrightarrow> bn_abs b \<noteq> 0)"

section \<open>Making, growing and copying\<close>

definition BN_init :: bignum where
  "BN_init = \<lparr>bn_d = [], bn_width = 0, bn_neg = False, bn_static = False\<rparr>"

definition bn_wexpand :: "words_alloc \<Rightarrow> bignum \<Rightarrow> nat \<Rightarrow> bool \<times> bignum" where
  "bn_wexpand alloc bn num =
     (if num \<le> length (bn_d bn) then (True, bn)
      else if num > 2147483647 div (4 * 64) then (False, bn)
      else if bn_static bn then (False, bn)
      else case alloc num of None \<Rightarrow> (False, bn)
        | Some a \<Rightarrow> (True, bn\<lparr>bn_d := bn_used bn @ map a [bn_width bn..<num]\<rparr>))"

definition bn_expand :: "words_alloc \<Rightarrow> bignum \<Rightarrow> nat \<Rightarrow> bool \<times> bignum" where
  "bn_expand alloc bn bits =
     (if 2 ^ 64 \<le> bits + 64 - 1 then (False, bn)
      else bn_wexpand alloc bn ((bits + 64 - 1) div 64))"

text \<open>The first words of an array are written over.\<close>

definition put_words :: "words \<Rightarrow> words \<Rightarrow> words" where
  "put_words d new = new @ drop (length new) d"

definition BN_copy :: "words_alloc \<Rightarrow> bignum \<Rightarrow> bignum \<Rightarrow> bool \<times> bignum" where
  "BN_copy alloc dest src =
     (case bn_wexpand alloc dest (bn_width src) of
        (False, dest) \<Rightarrow> (False, dest)
      | (True, dest) \<Rightarrow> (True, dest\<lparr>bn_d := put_words (bn_d dest) (bn_used src),
          bn_width := bn_width src, bn_neg := bn_neg src\<rparr>))"

definition BN_dup :: "words_alloc \<Rightarrow> bool \<Rightarrow> bignum \<Rightarrow> bignum option" where
  "BN_dup alloc malloc_ok src =
     (if \<not> malloc_ok then None
      else let (ok, copy) = BN_copy alloc BN_init src in if ok then Some copy else None)"

definition BN_clear :: "bignum \<Rightarrow> bignum" where
  "BN_clear bn = bn\<lparr>bn_d := map (\<lambda>_. 0) (bn_d bn), bn_width := 0, bn_neg := False\<rparr>"

definition BN_zero :: "bignum \<Rightarrow> bignum" where
  "BN_zero bn = bn\<lparr>bn_width := 0, bn_neg := False\<rparr>"

definition BN_set_word :: "words_alloc \<Rightarrow> bignum \<Rightarrow> u64 \<Rightarrow> bool \<times> bignum" where
  "BN_set_word alloc bn v =
     (if v = 0 then (True, BN_zero bn)
      else case bn_wexpand alloc bn 1 of
        (False, bn) \<Rightarrow> (False, bn)
      | (True, bn) \<Rightarrow> (True, bn\<lparr>bn_neg := False, bn_d := (bn_d bn)[0 := v], bn_width := 1\<rparr>))"

definition BN_one :: "words_alloc \<Rightarrow> bignum \<Rightarrow> bool \<times> bignum" where
  "BN_one alloc bn = BN_set_word alloc bn 1"

definition BN_set_u64 :: "words_alloc \<Rightarrow> bignum \<Rightarrow> u64 \<Rightarrow> bool \<times> bignum" where
  "BN_set_u64 alloc bn v = BN_set_word alloc bn v"

definition bn_set_words :: "words_alloc \<Rightarrow> bignum \<Rightarrow> words \<Rightarrow> bool \<times> bignum" where
  "bn_set_words alloc bn ws =
     (case bn_wexpand alloc bn (length ws) of
        (False, bn) \<Rightarrow> (False, bn)
      | (True, bn) \<Rightarrow> (True, bn\<lparr>bn_d := put_words (bn_d bn) ws, bn_width := length ws, bn_neg := False\<rparr>))"

section \<open>Widths and sizes\<close>

definition bn_fits_in_words :: "bignum \<Rightarrow> nat \<Rightarrow> bool" where
  "bn_fits_in_words bn num \<longleftrightarrow> fold (\<lambda>i msk. msk OR bn_d bn ! i) [num..<bn_width bn] 0 = 0"

definition BN_is_zero :: "bignum \<Rightarrow> bool" where
  "BN_is_zero bn = bn_fits_in_words bn 0"

definition bn_copy_words :: "nat \<Rightarrow> bignum \<Rightarrow> words option" where
  "bn_copy_words num bn =
     (if bn_neg bn then None
      else if bn_width bn > num then
        (if \<not> bn_fits_in_words bn num then None else Some (take num (bn_d bn)))
      else Some (put_words (replicate num 0) (bn_used bn)))"

definition BN_is_negative :: "bignum \<Rightarrow> bool" where
  "BN_is_negative bn = bn_neg bn"

definition BN_set_negative :: "bignum \<Rightarrow> bool \<Rightarrow> bignum" where
  "BN_set_negative bn sign = bn\<lparr>bn_neg := sign \<and> \<not> BN_is_zero bn\<rparr>"

definition bn_resize_words :: "words_alloc \<Rightarrow> bignum \<Rightarrow> nat \<Rightarrow> bool \<times> bignum" where
  "bn_resize_words alloc bn num =
     (if bn_width bn \<le> num then
        (case bn_wexpand alloc bn num of
           (False, bn) \<Rightarrow> (False, bn)
         | (True, bn) \<Rightarrow>
             (True, bn\<lparr>bn_d := put_words (bn_d bn) (bn_used bn @ replicate (num - bn_width bn) 0),
                bn_width := num\<rparr>))
      else if \<not> bn_fits_in_words bn num then (False, bn)
      else (True, bn\<lparr>bn_width := num\<rparr>))"

fun minimal_width_loop :: "words \<Rightarrow> nat \<Rightarrow> nat" where
  "minimal_width_loop d 0 = 0"
| "minimal_width_loop d (Suc ret) = (if d ! ret = 0 then minimal_width_loop d ret else Suc ret)"

definition bn_minimal_width :: "bignum \<Rightarrow> nat" where
  "bn_minimal_width bn = minimal_width_loop (bn_d bn) (bn_width bn)"

definition bn_set_minimal_width :: "bignum \<Rightarrow> bignum" where
  "bn_set_minimal_width bn =
     (let w = bn_minimal_width bn in bn\<lparr>bn_width := w, bn_neg := (if w = 0 then False else bn_neg bn)\<rparr>)"

text \<open>One of the six blocks of \<open>BN_num_bits_word\<close>.\<close>

definition num_bits_step :: "nat \<Rightarrow> u64 \<times> nat \<Rightarrow> u64 \<times> nat" where
  "num_bits_step k = (\<lambda>(l, bits).
     let x = drop_bit k l; msk = 0 - x; msk = 0 - drop_bit 63 msk
     in (l XOR ((x XOR l) AND msk), bits + unat (of_nat k AND msk)))"

definition BN_num_bits_word :: "u64 \<Rightarrow> nat" where
  "BN_num_bits_word l =
     snd (num_bits_step 1 (num_bits_step 2 (num_bits_step 4 (num_bits_step 8 (num_bits_step 16
       (num_bits_step 32 (l, if l \<noteq> 0 then 1 else 0)))))))"

definition BN_num_bits :: "bignum \<Rightarrow> nat" where
  "BN_num_bits bn =
     (let width = bn_minimal_width bn in
      if width = 0 then 0 else (width - 1) * 64 + BN_num_bits_word (bn_d bn ! (width - 1)))"

definition BN_num_bytes :: "bignum \<Rightarrow> nat" where
  "BN_num_bytes bn = (BN_num_bits bn + 7) div 8"

section \<open>Comparison\<close>

definition bn_cmp_words_consttime :: "words \<Rightarrow> nat \<Rightarrow> words \<Rightarrow> nat \<Rightarrow> u32" where
  "bn_cmp_words_consttime a a_len b b_len =
     (let min = (if a_len < b_len then a_len else b_len);
          ret = fold (\<lambda>i ret.
              let eq = constant_time_eq_w (a ! i) (b ! i); lt = constant_time_lt_w (a ! i) (b ! i)
              in constant_time_select_int eq ret (constant_time_select_int lt (- 1) 1)) [0..<min] 0
      in if a_len < b_len then
           let msk = fold (\<lambda>i msk. msk OR b ! i) [a_len..<b_len] 0
           in constant_time_select_int (constant_time_is_zero_w msk) ret (- 1)
         else if b_len < a_len then
           let msk = fold (\<lambda>i msk. msk OR a ! i) [b_len..<a_len] 0
           in constant_time_select_int (constant_time_is_zero_w msk) ret 1
         else ret)"

definition BN_ucmp :: "bignum \<Rightarrow> bignum \<Rightarrow> int" where
  "BN_ucmp a b = sint (bn_cmp_words_consttime (bn_d a) (bn_width a) (bn_d b) (bn_width b))"

definition BN_cmp :: "bignum option \<Rightarrow> bignum option \<Rightarrow> int" where
  "BN_cmp a b =
     (case (a, b) of
        (None, None) \<Rightarrow> 0
      | (Some _, None) \<Rightarrow> - 1
      | (None, Some _) \<Rightarrow> 1
      | (Some a, Some b) \<Rightarrow>
          if bn_neg a \<noteq> bn_neg b then (if bn_neg a then - 1 else 1)
          else let ret = BN_ucmp a b in if bn_neg a then - ret else ret)"

definition bn_less_than_words :: "words \<Rightarrow> words \<Rightarrow> nat \<Rightarrow> bool" where
  "bn_less_than_words a b len = (sint (bn_cmp_words_consttime a len b len) < 0)"

definition BN_abs_is_word :: "bignum \<Rightarrow> u64 \<Rightarrow> bool" where
  "BN_abs_is_word bn w =
     (if bn_width bn = 0 then w = 0
      else fold (\<lambda>i msk. msk OR bn_d bn ! i) [1..<bn_width bn] (bn_d bn ! 0 XOR w) = 0)"

definition BN_cmp_word :: "bignum \<Rightarrow> u64 \<Rightarrow> int" where
  "BN_cmp_word a b =
     BN_cmp (Some a) (Some \<lparr>bn_d = [b], bn_width = (if b > 0 then 1 else 0), bn_neg = False, bn_static = True\<rparr>)"

definition BN_is_one :: "bignum \<Rightarrow> bool" where
  "BN_is_one bn = (\<not> bn_neg bn \<and> BN_abs_is_word bn 1)"

definition BN_is_word :: "bignum \<Rightarrow> u64 \<Rightarrow> bool" where
  "BN_is_word bn w = (BN_abs_is_word bn w \<and> (w = 0 \<or> \<not> bn_neg bn))"

definition BN_is_odd :: "bignum \<Rightarrow> bool" where
  "BN_is_odd bn = (bn_width bn > 0 \<and> bn_d bn ! 0 AND 1 = 1)"

definition BN_is_pow2 :: "bignum \<Rightarrow> bool" where
  "BN_is_pow2 bn =
     (let width = bn_minimal_width bn in
      if width = 0 \<or> bn_neg bn then False
      else if \<exists>i \<in> set [0..<width - 1]. bn_d bn ! i \<noteq> 0 then False
      else bn_d bn ! (width - 1) AND (bn_d bn ! (width - 1) - 1) = 0)"

definition BN_equal_consttime :: "bignum \<Rightarrow> bignum \<Rightarrow> bool" where
  "BN_equal_consttime a b =
     (let msk = fold (\<lambda>i msk. msk OR bn_d b ! i) [bn_width a..<bn_width b] 0;
          msk = fold (\<lambda>i msk. msk OR bn_d a ! i) [bn_width b..<bn_width a] msk;
          min = (if bn_width a < bn_width b then bn_width a else bn_width b);
          msk = fold (\<lambda>i msk. msk OR (bn_d a ! i XOR bn_d b ! i)) [0..<min] msk;
          msk = msk OR (if bn_neg a \<noteq> bn_neg b then 1 else 0)
      in msk = 0)"

definition BN_get_word :: "bignum \<Rightarrow> u64" where
  "BN_get_word bn =
     (let w = bn_minimal_width bn in
      if w = 0 then 0 else if w = 1 then bn_d bn ! 0 else 0xffffffffffffffff)"

definition BN_get_u64 :: "bignum \<Rightarrow> u64 option" where
  "BN_get_u64 bn =
     (let w = bn_minimal_width bn in
      if w = 0 then Some 0 else if w = 1 then Some (bn_d bn ! 0) else None)"


section \<open>Reading the representation\<close>

lemma word_xor_eq_0: "a XOR b = (0 :: u64) \<longleftrightarrow> a = b"
  by (auto simp: bit_eq_iff bit_xor_iff)

lemma word_or_eq_0: "a OR b = (0 :: u64) \<longleftrightarrow> a = 0 \<and> b = 0"
  by (auto simp: bit_eq_iff bit_or_iff)

lemma fold_or_eq_0: "fold (\<lambda>i m. m OR f i) xs z = (0 :: u64) \<longleftrightarrow> z = 0 \<and> (\<forall>i \<in> set xs. f i = 0)"
  by (induction xs arbitrary: z) (auto simp: word_or_eq_0)

lemma bn_fit_length [simp]: "bn_fit b \<Longrightarrow> length (bn_used b) = bn_width b"
  by (simp add: bn_fit_def bn_used_def)

lemma bn_used_nth: "i < bn_width b \<Longrightarrow> bn_used b ! i = bn_d b ! i"
  by (simp add: bn_used_def)

lemma bn_abs_less: "bn_fit b \<Longrightarrow> bn_abs b < 2 ^ (64 * bn_width b)"
  using words_val_less [of "bn_used b"] by (simp add: bn_abs_def)

lemma words_val_high:
  assumes "n \<le> length a"
  shows "words_val a < 2 ^ (64 * n) \<longleftrightarrow> (\<forall>i. n \<le> i \<and> i < length a \<longrightarrow> a ! i = 0)"
proof -
  have "words_val (drop n a) = 0 \<longleftrightarrow> (\<forall>i. n \<le> i \<and> i < length a \<longrightarrow> a ! i = 0)" (is "?l \<longleftrightarrow> ?r")
  proof
    assume l: ?l
    show ?r
    proof (intro allI impI)
      fix i assume i: "n \<le> i \<and> i < length a"
      then have "drop n a ! (i - n) \<in> set (drop n a)" by (intro nth_mem) (simp add: diff_less_mono)
      with l i show "a ! i = 0" by (simp add: words_val_eq_0)
    qed
  next
    assume ?r
    then show ?l by (auto simp: words_val_eq_0 in_set_conv_nth)
  qed
  moreover have "words_val a < 2 ^ (64 * n) \<longleftrightarrow> words_val (drop n a) = 0"
  proof
    assume "words_val a < 2 ^ (64 * n)"
    then have "2 ^ (64 * n) * words_val (drop n a) < 2 ^ (64 * n) * 1"
      using words_val_split [OF assms] by linarith
    then show "words_val (drop n a) = 0" by (simp only: mult_less_cancel1 less_one)
  next
    assume "words_val (drop n a) = 0"
    then show "words_val a < 2 ^ (64 * n)"
      using words_val_split [OF assms] words_val_less [of "take n a"] assms by simp
  qed
  ultimately show ?thesis by simp
qed

lemma bn_fits_in_words_eq: "bn_fit b \<Longrightarrow> bn_fits_in_words b num \<longleftrightarrow> bn_abs b < 2 ^ (64 * num)"
proof (cases "num \<le> bn_width b")
  case True
  assume "bn_fit b"
  with words_val_high [of num "bn_used b"] True show ?thesis
    by (auto simp: bn_fits_in_words_def fold_or_eq_0 bn_abs_def bn_used_nth)
next
  case False
  assume "bn_fit b"
  then have "bn_abs b < 2 ^ (64 * num)"
    using bn_abs_less [of b] False
    by (meson less_le_trans linear mult_le_mono2 one_le_numeral power_increasing)
  with False show ?thesis by (simp add: bn_fits_in_words_def)
qed

lemma BN_is_zero_eq: "bn_fit b \<Longrightarrow> BN_is_zero b \<longleftrightarrow> bn_abs b = 0"
  by (simp add: BN_is_zero_def bn_fits_in_words_eq)

lemma words_val_low: "k \<le> length a \<Longrightarrow> words_val (take k a) \<le> words_val a"
  using words_val_split [of k a] by simp

lemma words_val_top: "words_val (a @ [w]) = words_val a + 2 ^ (64 * length a) * unat w"
  by (simp add: words_val_append)

lemma minimal_width_loop_props:
  assumes "n \<le> length d"
  shows "minimal_width_loop d n \<le> n \<and> words_val (take (minimal_width_loop d n) d) = words_val (take n d) \<and>
    (minimal_width_loop d n \<noteq> 0 \<longrightarrow> d ! (minimal_width_loop d n - 1) \<noteq> 0)"
  using assms
proof (induction n)
  case (Suc n)
  then have "words_val (take (Suc n) d) = words_val (take n d) + 2 ^ (64 * n) * unat (d ! n)"
    by (simp add: take_Suc_conv_app_nth words_val_top)
  with Suc show ?case by auto
qed simp

lemma bn_minimal_width_props:
  assumes "bn_fit b"
  shows "bn_minimal_width b \<le> bn_width b" "words_val (take (bn_minimal_width b) (bn_d b)) = bn_abs b"
    "bn_minimal_width b \<noteq> 0 \<Longrightarrow> bn_d b ! (bn_minimal_width b - 1) \<noteq> 0"
  using minimal_width_loop_props [of "bn_width b" "bn_d b"] assms
  by (auto simp: bn_minimal_width_def bn_fit_def bn_abs_def bn_used_def)

lemma words_val_ge_top:
  assumes "w \<noteq> 0" "w \<le> length d" "d ! (w - 1) \<noteq> 0"
  shows "2 ^ (64 * (w - 1)) \<le> words_val (take w d)"
proof -
  obtain v where w: "w = Suc v" using assms(1) by (cases w) auto
  have "0 < unat (d ! v)" using assms(3) w by (simp add: unat_gt_0)
  then have "2 ^ (64 * v) * 1 \<le> 2 ^ (64 * v) * unat (d ! v)" by (intro mult_le_mono2) simp
  with w assms(2) show ?thesis by (simp add: take_Suc_conv_app_nth words_val_top trans_le_add2)
qed

lemma bn_minimal_width_bounds:
  assumes "bn_fit b"
  shows "bn_abs b < 2 ^ (64 * bn_minimal_width b)"
    "bn_minimal_width b \<noteq> 0 \<Longrightarrow> 2 ^ (64 * (bn_minimal_width b - 1)) \<le> bn_abs b"
    "bn_minimal_width b = 0 \<longleftrightarrow> bn_abs b = 0"
proof -
  note m = bn_minimal_width_props [OF assms]
  have l: "bn_minimal_width b \<le> length (bn_d b)" using m(1) assms by (simp add: bn_fit_def)
  show a: "bn_abs b < 2 ^ (64 * bn_minimal_width b)"
    using words_val_less [of "take (bn_minimal_width b) (bn_d b)"] m(2) l by simp
  show g: "2 ^ (64 * (bn_minimal_width b - 1)) \<le> bn_abs b" if "bn_minimal_width b \<noteq> 0"
    using words_val_ge_top [OF that l m(3) [OF that]] m(2) by simp
  show "bn_minimal_width b = 0 \<longleftrightarrow> bn_abs b = 0"
  proof (cases "bn_minimal_width b = 0")
    case True
    with a show ?thesis by simp
  next
    case False
    have "0 < (2 :: nat) ^ (64 * (bn_minimal_width b - 1))" by simp
    with g [OF False] have "0 < bn_abs b" by linarith
    with False show ?thesis by simp
  qed
qed

lemma bn_set_minimal_width_ok:
  assumes "bn_fit b"
  shows "bn_ok (bn_set_minimal_width b)" "bn_val (bn_set_minimal_width b) = bn_val b"
    "bn_abs (bn_set_minimal_width b) = bn_abs b" "bn_fit (bn_set_minimal_width b)"
proof -
  note m = bn_minimal_width_props [OF assms] and n = bn_minimal_width_bounds [OF assms]
  show a: "bn_abs (bn_set_minimal_width b) = bn_abs b"
    using m(2) by (simp add: bn_set_minimal_width_def bn_abs_def bn_used_def Let_def)
  show f: "bn_fit (bn_set_minimal_width b)"
    using m(1) assms by (simp add: bn_set_minimal_width_def bn_fit_def Let_def)
  have s: "bn_neg (bn_set_minimal_width b) = (bn_neg b \<and> bn_abs b \<noteq> 0)"
    using n(3) by (simp add: bn_set_minimal_width_def Let_def)
  show "bn_ok (bn_set_minimal_width b)" using f s a by (simp add: bn_ok_def)
  show "bn_val (bn_set_minimal_width b) = bn_val b" using s a by (auto simp: bn_val_def)
qed

lemma bn_set_minimal_width_minimal:
  "bn_fit b \<Longrightarrow> bn_width (bn_set_minimal_width b) = bn_minimal_width (bn_set_minimal_width b)"
proof -
  assume f: "bn_fit b"
  let ?w = "bn_minimal_width b"
  have "minimal_width_loop (bn_d b) ?w = ?w"
    using bn_minimal_width_props(3) [OF f] by (cases ?w) auto
  then show ?thesis by (simp add: bn_set_minimal_width_def Let_def bn_minimal_width_def [of "bn_set_minimal_width b"])
    (simp add: bn_set_minimal_width_def Let_def bn_minimal_width_def)
qed

lemma bn_wexpand_ok:
  assumes "bn_wexpand alloc b num = (ok, b')" "bn_fit b"
  shows "bn_fit b'" "bn_width b' = bn_width b" "bn_used b' = bn_used b" "bn_neg b' = bn_neg b"
    "ok \<Longrightarrow> num \<le> length (bn_d b')" "\<not> ok \<Longrightarrow> b' = b" "length (bn_d b) \<le> length (bn_d b')"
    "bn_abs b' = bn_abs b" "bn_val b' = bn_val b" "ok \<Longrightarrow> num \<le> BN_MAX_WORDS"
proof -
  have c: "b' = b \<and> (ok \<longrightarrow> num \<le> length (bn_d b)) \<or>
      ok \<and> length (bn_d b) < num \<and> num \<le> BN_MAX_WORDS \<and>
      (\<exists>a. b' = b\<lparr>bn_d := bn_used b @ map a [bn_width b..<num]\<rparr>)"
    using assms(1) by (auto simp: bn_wexpand_def BN_MAX_WORDS_def split: if_splits option.splits)
  have l: "bn_width b \<le> length (bn_d b)" "length (bn_d b) \<le> BN_MAX_WORDS" using assms(2) by (simp_all add: bn_fit_def)
  from c l show "bn_fit b'" "bn_width b' = bn_width b" "bn_neg b' = bn_neg b"
    "ok \<Longrightarrow> num \<le> length (bn_d b')" "\<not> ok \<Longrightarrow> b' = b" "length (bn_d b) \<le> length (bn_d b')"
    "ok \<Longrightarrow> num \<le> BN_MAX_WORDS"
    by (auto simp: bn_fit_def bn_used_def)
  show u: "bn_used b' = bn_used b" using c l by (auto simp: bn_used_def)
  then show a: "bn_abs b' = bn_abs b" by (simp add: bn_abs_def)
  show "bn_val b' = bn_val b" using a \<open>bn_neg b' = bn_neg b\<close> by (simp add: bn_val_def)
qed

text \<open>When growing succeeds.\<close>

lemma bn_wexpand_succeeds:
  assumes "num \<le> BN_MAX_WORDS" "\<not> bn_static b" "alloc num \<noteq> None"
  shows "fst (bn_wexpand alloc b num)"
  using assms by (auto simp: bn_wexpand_def BN_MAX_WORDS_def split: option.split)


section \<open>Sizes in bits\<close>

lemma num_bits_step_eq:
  assumes "0 < k" "k \<le> 32"
  shows "num_bits_step k (l, b) = (if drop_bit k l = 0 then (l, b) else (drop_bit k l, b + k))"
proof -
  let ?x = "drop_bit k l"
  have x: "unat ?x \<le> 2 ^ 63"
  proof -
    have "unat ?x = unat l div 2 ^ k" by (simp add: unat_drop_bit)
    also have "\<dots> \<le> unat l div 2" using assms(1) by (intro div_le_mono2) (simp_all add: self_le_power)
    also have "\<dots> \<le> 2 ^ 63" using unat_u64_less [of l] by simp
    finally show ?thesis .
  qed
  have "unat (0 - ?x) = (if ?x = 0 then 0 else 2 ^ 64 - unat ?x)"
    by (simp only: unat_minus_word) (simp add: unat_eq_zero)
  then have m: "0 - drop_bit 63 (0 - ?x) = (if ?x = 0 then 0 else - 1)"
    using x msb_w_eq [of "0 - ?x"] by (simp add: constant_time_msb_w_def )
  have k: "unat (word_of_nat k :: u64) = k" using assms(2) by (simp add: unat_of_nat)
  show ?thesis
    unfolding num_bits_step_def prod.case Let_def m using k
    by (simp add: xor.commute [of l] xor.assoc)
qed

definition num_bits_inv :: "u64 \<Rightarrow> nat \<Rightarrow> u64 \<times> nat \<Rightarrow> bool" where
  "num_bits_inv v m = (\<lambda>(l, b). \<exists>c. b = c + (if v \<noteq> 0 then 1 else 0) \<and> unat l < 2 ^ m \<and>
     (l = 0 \<longleftrightarrow> v = 0) \<and> (v = 0 \<longrightarrow> c = 0) \<and> unat l * 2 ^ c \<le> unat v \<and> unat v < (unat l + 1) * 2 ^ c)"

lemma num_bits_step_inv:
  assumes "num_bits_inv v (2 * k) s" "0 < k" "k \<le> 32"
  shows "num_bits_inv v k (num_bits_step k s)"
proof -
  obtain l b where s: "s = (l, b)" by fastforce
  with assms(1) obtain c where c: "b = c + (if v \<noteq> 0 then 1 else 0)" "unat l < 2 ^ (2 * k)"
    "l = 0 \<longleftrightarrow> v = 0" "v = 0 \<longrightarrow> c = 0" "unat l * 2 ^ c \<le> unat v" "unat v < (unat l + 1) * 2 ^ c"
    by (auto simp: num_bits_inv_def)
  have x: "unat (drop_bit k l) = unat l div 2 ^ k" by (simp add: unat_drop_bit)
  show ?thesis
  proof (cases "drop_bit k l = 0")
    case True
    then have "unat l < 2 ^ k" using x by (simp add: div_eq_0_iff)
    with True c s assms show ?thesis by (auto simp: num_bits_step_eq num_bits_inv_def)
  next
    case False
    let ?q = "unat l div 2 ^ k"
    have q: "?q * 2 ^ k \<le> unat l" "unat l + 1 \<le> (?q + 1) * 2 ^ k"
      using div_mult_mod_eq [of "unat l" "2 ^ k"] mod_less_divisor [of "2 ^ k" "unat l"]
      by (simp_all add: distrib_right del: mod_less_divisor)
    have "?q < 2 ^ k" using c(2) by (intro less_mult_imp_div_less) (simp add: mult_2 power_add)
    moreover have p: "x * 2 ^ (c + k) = x * 2 ^ k * 2 ^ c" for x :: nat by (simp add: power_add)
    have "?q * 2 ^ (c + k) \<le> unat v"
      unfolding p using mult_le_mono1 [OF q(1), of "2 ^ c"] c(5) by linarith
    moreover have "unat v < (?q + 1) * 2 ^ (c + k)"
      unfolding p using mult_le_mono1 [OF q(2), of "2 ^ c"] c(6) by linarith
    moreover have "v \<noteq> 0" using False c(3) by auto
    ultimately show ?thesis
      using False c(1) s assms x by (auto simp: num_bits_step_eq num_bits_inv_def intro!: exI [of _ "c + k"])
  qed
qed

lemma BN_num_bits_word_bounds:
  "unat l < 2 ^ BN_num_bits_word l" "l \<noteq> 0 \<Longrightarrow> 2 ^ (BN_num_bits_word l - 1) \<le> unat l"
  "BN_num_bits_word l = 0 \<longleftrightarrow> l = 0" "BN_num_bits_word l \<le> 64"
proof -
  define s where "s = (l, if l \<noteq> 0 then 1 else 0 :: nat)"
  have "num_bits_inv l (2 * 32) s"
    using unat_u64_less [of l] by (simp add: num_bits_inv_def s_def)
  from num_bits_step_inv [OF this] have "num_bits_inv l (2 * 16) (num_bits_step 32 s)" by simp
  from num_bits_step_inv [OF this] have "num_bits_inv l (2 * 8) (num_bits_step 16 (num_bits_step 32 s))" by simp
  from num_bits_step_inv [OF this]
  have "num_bits_inv l (2 * 4) (num_bits_step 8 (num_bits_step 16 (num_bits_step 32 s)))" by simp
  from num_bits_step_inv [OF this]
  have "num_bits_inv l (2 * 2) (num_bits_step 4 (num_bits_step 8 (num_bits_step 16 (num_bits_step 32 s))))" by simp
  from num_bits_step_inv [OF this]
  have "num_bits_inv l (2 * 1) (num_bits_step 2 (num_bits_step 4 (num_bits_step 8 (num_bits_step 16
       (num_bits_step 32 s)))))" by simp
  from num_bits_step_inv [OF this]
  have "num_bits_inv l 1 (num_bits_step 1 (num_bits_step 2 (num_bits_step 4 (num_bits_step 8 (num_bits_step 16
       (num_bits_step 32 s))))))" by simp
  then obtain c l' where c: "BN_num_bits_word l = c + (if l \<noteq> 0 then 1 else 0)" "unat (l' :: u64) < 2"
    "l' = 0 \<longleftrightarrow> l = 0" "l = 0 \<longrightarrow> c = 0" "unat l' * 2 ^ c \<le> unat l" "unat l < (unat l' + 1) * 2 ^ c"
    by (auto simp: num_bits_inv_def BN_num_bits_word_def s_def split: prod.splits)
  have u: "unat l' = (if l = 0 then 0 else 1)"
  proof (cases "l = 0")
    case False
    then have "unat l' \<noteq> 0" using c(3) by (simp add: unat_eq_zero)
    with False c(2) show ?thesis by simp
  qed (use c(3) in simp)
  show "unat l < 2 ^ BN_num_bits_word l" using c u by auto
  show g: "l \<noteq> 0 \<Longrightarrow> 2 ^ (BN_num_bits_word l - 1) \<le> unat l" using c u by auto
  show "BN_num_bits_word l = 0 \<longleftrightarrow> l = 0" using c by auto
  show "BN_num_bits_word l \<le> 64"
  proof (rule ccontr)
    assume n: "\<not> BN_num_bits_word l \<le> 64"
    then have "l \<noteq> 0" using c by auto
    moreover have "(2 :: nat) ^ 64 \<le> 2 ^ (BN_num_bits_word l - 1)" using n by (intro power_increasing) simp_all
    ultimately show False using g unat_u64_less [of l] by simp
  qed
qed


lemma BN_num_bits_bounds:
  assumes "bn_fit b"
  shows "bn_abs b < 2 ^ BN_num_bits b" "bn_abs b \<noteq> 0 \<Longrightarrow> 2 ^ (BN_num_bits b - 1) \<le> bn_abs b"
    "BN_num_bits b = 0 \<longleftrightarrow> bn_abs b = 0"
proof -
  let ?w = "bn_minimal_width b"
  note m = bn_minimal_width_props [OF assms] and n = bn_minimal_width_bounds [OF assms]
  have "bn_abs b < 2 ^ BN_num_bits b \<and> (bn_abs b \<noteq> 0 \<longrightarrow> 2 ^ (BN_num_bits b - 1) \<le> bn_abs b) \<and>
    (BN_num_bits b = 0 \<longleftrightarrow> bn_abs b = 0)"
  proof (cases "?w = 0")
    case True
    with n(3) show ?thesis by (simp add: BN_num_bits_def)
  next
    case False
    then obtain v where v: "?w = Suc v" by (cases ?w) auto
    let ?t = "bn_d b ! v" and ?low = "words_val (take v (bn_d b))"
    have l: "v < length (bn_d b)" using m(1) v assms by (simp add: bn_fit_def)
    have t: "?t \<noteq> 0" using m(3) v by simp
    have a: "bn_abs b = ?low + 2 ^ (64 * v) * unat ?t"
      using m(2) v l by (simp add: take_Suc_conv_app_nth words_val_top)
    have low: "?low < 2 ^ (64 * v)" using words_val_less [of "take v (bn_d b)"] l by simp
    have bits: "BN_num_bits b = 64 * v + BN_num_bits_word ?t" by (simp add: BN_num_bits_def v)
    note w = BN_num_bits_word_bounds [of ?t]
    have "BN_num_bits_word ?t \<noteq> 0" using w(3) t by simp
    then have e: "2 ^ (BN_num_bits b - 1) = 2 ^ (64 * v) * (2 :: nat) ^ (BN_num_bits_word ?t - 1)"
      unfolding bits by (simp flip: power_add)
    have "?low + 2 ^ (64 * v) * unat ?t < 2 ^ (64 * v) * (unat ?t + 1)" using low by simp
    also have "\<dots> \<le> 2 ^ (64 * v) * 2 ^ BN_num_bits_word ?t" using w(1) by (intro mult_le_mono2) simp
    finally have u: "bn_abs b < 2 ^ BN_num_bits b" by (simp only: a bits power_add)
    have "2 ^ (64 * v) * 2 ^ (BN_num_bits_word ?t - 1) \<le> 2 ^ (64 * v) * unat ?t"
      by (intro mult_le_mono2 w(2) t)
    then have "2 ^ (BN_num_bits b - 1) \<le> bn_abs b" unfolding e a by (rule trans_le_add2)
    with u bits \<open>BN_num_bits_word ?t \<noteq> 0\<close> v n(3) show ?thesis by simp
  qed
  then show "bn_abs b < 2 ^ BN_num_bits b" "bn_abs b \<noteq> 0 \<Longrightarrow> 2 ^ (BN_num_bits b - 1) \<le> bn_abs b"
    "BN_num_bits b = 0 \<longleftrightarrow> bn_abs b = 0" by auto
qed

section \<open>Order\<close>

lemma select_int_eq: "constant_time_select_int (- 1) a b = a" "constant_time_select_int 0 a b = b"
proof -
  have "ucast (scast a :: u64) = a" for a :: u32
    by (rule bit_eqI) (auto simp: bit_simps dest: bit_imp_le_length)
  then show "constant_time_select_int (- 1) a b = a" "constant_time_select_int 0 a b = b"
    by (simp_all add: constant_time_select_int_def select_w_eq)
qed

definition cmp_result :: "nat \<Rightarrow> nat \<Rightarrow> u32" where
  "cmp_result x y = (if x < y then - 1 else if x = y then 0 else 1)"

lemma cmp_common:
  assumes "n \<le> length a" "n \<le> length b"
  shows "fold (\<lambda>i ret.
      let eq = constant_time_eq_w (a ! i) (b ! i); lt = constant_time_lt_w (a ! i) (b ! i)
      in constant_time_select_int eq ret (constant_time_select_int lt (- 1) 1)) [0..<n] 0 =
    cmp_result (words_val (take n a)) (words_val (take n b))"
  using assms
proof (induction n)
  case 0
  then show ?case by (simp add: cmp_result_def)
next
  case (Suc n)
  let ?p = "2 ^ (64 * n) :: nat"
  have low: "words_val (take n a) < ?p" "words_val (take n b) < ?p"
    using words_val_less [of "take n a"] words_val_less [of "take n b"] Suc.prems by simp_all
  have top: "words_val (take (Suc n) a) = words_val (take n a) + ?p * unat (a ! n)"
    "words_val (take (Suc n) b) = words_val (take n b) + ?p * unat (b ! n)"
    using Suc.prems by (simp_all add: take_Suc_conv_app_nth words_val_top)
  have lex: "x + ?p * u < y + ?p * v" if "u < v" "x < ?p" for x y u v :: nat
  proof -
    have "x + ?p * u < ?p * (u + 1)" using that(2) by simp
    also have "\<dots> \<le> ?p * v" using that(1) by (intro mult_le_mono2) simp
    finally show ?thesis by simp
  qed
  consider "a ! n = b ! n" | "a ! n < b ! n" "a ! n \<noteq> b ! n" | "b ! n < a ! n" "a ! n \<noteq> b ! n" "\<not> a ! n < b ! n"
    by (meson less_imp_neq neq_iff not_less_iff_gr_or_eq)
  then show ?case
  proof cases
    case 1
    with Suc top show ?thesis by (simp add: eq_w_eq select_int_eq cmp_result_def)
  next
    case 2
    with lex [of "unat (a ! n)" "unat (b ! n)"] low show ?thesis
      by (simp add: eq_w_eq lt_w_eq select_int_eq cmp_result_def top word_less_nat_alt)
  next
    case 3
    have "words_val (take n b) + ?p * unat (b ! n) < words_val (take n a) + ?p * unat (a ! n)"
      using 3(1) low by (intro lex) (simp_all add: word_less_nat_alt)
    with 3 show ?thesis
      by (simp add: eq_w_eq lt_w_eq select_int_eq cmp_result_def top)
  qed
qed


lemma words_val_take_high:
  assumes "n \<le> m" "m \<le> length a"
  shows "(\<forall>i \<in> {n..<m}. a ! i = 0) \<longleftrightarrow> words_val (take m a) < 2 ^ (64 * n)"
    "words_val (take m a) < 2 ^ (64 * n) \<longleftrightarrow> words_val (take m a) = words_val (take n a)"
proof -
  show t: "(\<forall>i \<in> {n..<m}. a ! i = 0) \<longleftrightarrow> words_val (take m a) < 2 ^ (64 * n)"
    using words_val_high [of n "take m a"] assms by auto
  have s: "words_val (take m a) = words_val (take n a) + 2 ^ (64 * n) * words_val (drop n (take m a))"
    using words_val_split [of n "take m a"] assms by (simp add: min.absorb1)
  have l: "words_val (take n a) < 2 ^ (64 * n)" using words_val_less [of "take n a"] assms by simp
  show "words_val (take m a) < 2 ^ (64 * n) \<longleftrightarrow> words_val (take m a) = words_val (take n a)"
  proof
    assume "words_val (take m a) < 2 ^ (64 * n)"
    then have "2 ^ (64 * n) * words_val (drop n (take m a)) < 2 ^ (64 * n) * 1" using s by linarith
    then have "words_val (drop n (take m a)) = 0" by (simp only: mult_less_cancel1 less_one)
    with s show "words_val (take m a) = words_val (take n a)" by simp
  qed (use l in simp)
qed

lemma bn_cmp_words_consttime_eq:
  assumes "m \<le> length a" "n \<le> length b"
  shows "bn_cmp_words_consttime a m b n = cmp_result (words_val (take m a)) (words_val (take n b))"
proof -
  consider "m < n" | "n < m" | "m = n" by linarith
  then show ?thesis
  proof cases
    case 1
    then have h: "(\<forall>i \<in> {m..<n}. b ! i = 0) \<longleftrightarrow> words_val (take n b) = words_val (take m b)"
      using words_val_take_high [of m n b] assms by simp
    have "words_val (take m a) < 2 ^ (64 * m)" using words_val_less [of "take m a"] assms by simp
    then have g: "words_val (take m a) < words_val (take n b)" if "words_val (take n b) \<noteq> words_val (take m b)"
      using words_val_take_high [of m n b] 1 assms that by simp
    show ?thesis
      using 1 cmp_common [of m a b] assms h g
      by (auto simp: bn_cmp_words_consttime_def fold_or_eq_0 is_zero_w_eq select_int_eq cmp_result_def)
  next
    case 2
    then have h: "(\<forall>i \<in> {n..<m}. a ! i = 0) \<longleftrightarrow> words_val (take m a) = words_val (take n a)"
      using words_val_take_high [of n m a] assms by simp
    have "words_val (take n b) < 2 ^ (64 * n)" using words_val_less [of "take n b"] assms by simp
    then have g: "words_val (take n b) < words_val (take m a)" if "words_val (take m a) \<noteq> words_val (take n a)"
      using words_val_take_high [of n m a] 2 assms that by simp
    show ?thesis
      using 2 cmp_common [of n a b] assms h g
      by (auto simp: bn_cmp_words_consttime_def fold_or_eq_0 is_zero_w_eq select_int_eq cmp_result_def)
  next
    case 3
    with cmp_common [of m a b] assms show ?thesis by (simp add: bn_cmp_words_consttime_def)
  qed
qed

definition compare_val :: "'a::linorder \<Rightarrow> 'a \<Rightarrow> int" where
  "compare_val x y = (if x < y then - 1 else if x = y then 0 else 1)"

lemma BN_ucmp_eq: "bn_fit a \<Longrightarrow> bn_fit b \<Longrightarrow> BN_ucmp a b = compare_val (bn_abs a) (bn_abs b)"
  by (simp add: BN_ucmp_def bn_cmp_words_consttime_eq bn_fit_def cmp_result_def compare_val_def
      bn_abs_def bn_used_def)

lemma bn_val_order:
  assumes "bn_ok a" "bn_ok b" "bn_neg a \<noteq> bn_neg b"
  shows "(if bn_neg a then - 1 else 1) = compare_val (bn_val a) (bn_val b)"
  using assms by (auto simp: bn_ok_def bn_val_def compare_val_def)

lemma bn_cmp_eq:
  assumes "bn_ok a" "bn_ok b"
  shows "BN_cmp (Some a) (Some b) = compare_val (bn_val a) (bn_val b)"
proof (cases "bn_neg a = bn_neg b")
  case True
  with assms show ?thesis
    by (auto simp: BN_cmp_def BN_ucmp_eq bn_ok_def bn_val_def compare_val_def)
next
  case False
  with bn_val_order [OF assms False] show ?thesis by (simp add: BN_cmp_def)
qed

lemma bn_less_than_words_eq:
  "len \<le> length a \<Longrightarrow> len \<le> length b \<Longrightarrow>
    bn_less_than_words a b len \<longleftrightarrow> words_val (take len a) < words_val (take len b)"
  by (simp add: bn_less_than_words_def bn_cmp_words_consttime_eq cmp_result_def)

lemma BN_equal_consttime_eq:
  assumes "bn_ok a" "bn_ok b"
  shows "BN_equal_consttime a b \<longleftrightarrow> bn_val a = bn_val b"
proof -
  let ?m = "min (bn_width a) (bn_width b)"
  have w: "bn_width a \<le> length (bn_d a)" "bn_width b \<le> length (bn_d b)"
    using assms by (simp_all add: bn_ok_def bn_fit_def)
  have ta: "(\<forall>i \<in> {?m..<bn_width a}. bn_d a ! i = 0) \<longleftrightarrow> bn_abs a = words_val (take ?m (bn_d a))"
    using words_val_take_high [of ?m "bn_width a" "bn_d a"] w by (simp add: bn_abs_def bn_used_def)
  have tb: "(\<forall>i \<in> {?m..<bn_width b}. bn_d b ! i = 0) \<longleftrightarrow> bn_abs b = words_val (take ?m (bn_d b))"
    using words_val_take_high [of ?m "bn_width b" "bn_d b"] w by (simp add: bn_abs_def bn_used_def)
  have m: "(\<forall>i < ?m. bn_d a ! i = bn_d b ! i) \<longleftrightarrow>
      words_val (take ?m (bn_d a)) = words_val (take ?m (bn_d b))"
  proof
    assume "\<forall>i < ?m. bn_d a ! i = bn_d b ! i"
    then have "take ?m (bn_d a) = take ?m (bn_d b)" using w by (intro nth_take_lemma) auto
    then show "words_val (take ?m (bn_d a)) = words_val (take ?m (bn_d b))" by simp
  next
    assume e: "words_val (take ?m (bn_d a)) = words_val (take ?m (bn_d b))"
    have "x = y" if "length x = length y" "words_val x = words_val y" for x y
      using that
    proof (induction x y rule: list_induct2)
      case (Cons u x v y)
      then have "(unat u + 2 ^ 64 * words_val x) mod 2 ^ 64 = (unat v + 2 ^ 64 * words_val y) mod 2 ^ 64" by simp
      then have "unat u = unat v" using unat_u64_less [of u] unat_u64_less [of v] by simp
      with Cons show ?case by (simp add: word_unat_eq_iff)
    qed simp
    from this [OF _ e] w have "take ?m (bn_d a) = take ?m (bn_d b)" by simp
    then show "\<forall>i < ?m. bn_d a ! i = bn_d b ! i" by (metis nth_take)
  qed
  have "BN_equal_consttime a b \<longleftrightarrow> (\<forall>i \<in> {bn_width a..<bn_width b}. bn_d b ! i = 0) \<and>
      (\<forall>i \<in> {bn_width b..<bn_width a}. bn_d a ! i = 0) \<and> (\<forall>i < ?m. bn_d a ! i = bn_d b ! i) \<and>
      bn_neg a = bn_neg b"
    by (auto simp: BN_equal_consttime_def Let_def word_or_eq_0 fold_or_eq_0 word_xor_eq_0 min_def)
  also have "\<dots> \<longleftrightarrow> bn_abs a = bn_abs b \<and> bn_neg a = bn_neg b"
  proof -
    have "bn_abs a = words_val (take ?m (bn_d a)) \<and> bn_abs b = words_val (take ?m (bn_d b))"
      if "bn_abs a = bn_abs b"
    proof -
      have "bn_abs a < 2 ^ (64 * bn_width a)" "bn_abs b < 2 ^ (64 * bn_width b)"
        using assms by (simp_all add: bn_ok_def bn_abs_less)
      then have "bn_abs a < 2 ^ (64 * ?m)" "bn_abs b < 2 ^ (64 * ?m)" using that by (simp_all add: min_def)
      then show ?thesis
        using words_val_take_high(2) [of ?m "bn_width a" "bn_d a"] words_val_take_high(2) [of ?m "bn_width b" "bn_d b"] w
        by (simp add: bn_abs_def bn_used_def)
    qed
    moreover have "(\<forall>i \<in> {bn_width a..<bn_width b}. bn_d b ! i = 0) \<and> (\<forall>i \<in> {bn_width b..<bn_width a}. bn_d a ! i = 0)
        \<longleftrightarrow> bn_abs a = words_val (take ?m (bn_d a)) \<and> bn_abs b = words_val (take ?m (bn_d b))"
      using ta tb by (cases "bn_width a \<le> bn_width b") (auto simp: min_def)
    ultimately show ?thesis unfolding m by auto
  qed
  also have "\<dots> \<longleftrightarrow> bn_val a = bn_val b"
    using assms by (auto simp: bn_ok_def bn_val_def)
  finally show ?thesis .
qed


section \<open>Results of the operations on one number\<close>

lemma put_words_simps [simp]:
  "length (put_words d w) = max (length w) (length d)"
  "take (length w) (put_words d w) = w"
  by (auto simp: put_words_def)

lemma take_put_words [simp]: "length w = n \<Longrightarrow> take n (put_words d w) = w"
  by auto

lemma bn_put_ok:
  assumes "length w \<le> length (bn_d b)" "length (bn_d b) \<le> BN_MAX_WORDS" "bn_d b' = put_words (bn_d b) w"
    "bn_width b' = length w"
  shows "bn_fit b'" "bn_used b' = w" "bn_abs b' = words_val w"
  using assms by (auto simp: bn_fit_def bn_used_def bn_abs_def)

lemma BN_copy_ok:
  assumes "BN_copy alloc dest src = (True, r)" "bn_fit dest" "bn_fit src"
  shows "bn_fit r" "bn_val r = bn_val src" "bn_abs r = bn_abs src" "bn_neg r = bn_neg src"
    "bn_used r = bn_used src" "bn_width r = bn_width src"
proof -
  obtain ok b where w: "bn_wexpand alloc dest (bn_width src) = (ok, b)" by fastforce
  with assms(1) have ok: "ok" and r: "r = b\<lparr>bn_d := put_words (bn_d b) (bn_used src), bn_width := bn_width src,
      bn_neg := bn_neg src\<rparr>" by (cases ok; simp add: BN_copy_def)+
  note e = bn_wexpand_ok [OF w assms(2)]
  have l: "length (bn_used src) \<le> length (bn_d b)" "length (bn_d b) \<le> BN_MAX_WORDS"
    using e(1,5) ok assms(3) by (simp_all add: bn_fit_def)
  from bn_put_ok [OF l, of r] r assms(3)
  show "bn_fit r" "bn_used r = bn_used src" "bn_abs r = bn_abs src" by (simp_all add: bn_abs_def)
  moreover show "bn_neg r = bn_neg src" "bn_width r = bn_width src" using r by simp_all
  ultimately show "bn_val r = bn_val src" by (simp add: bn_val_def)
qed

lemma BN_zero_ok [simp]: "bn_fit b \<Longrightarrow> bn_ok (BN_zero b) \<and> bn_val (BN_zero b) = 0 \<and> bn_abs (BN_zero b) = 0"
  by (simp add: BN_zero_def bn_ok_def bn_fit_def bn_val_def bn_abs_def bn_used_def)

lemma BN_set_word_ok:
  assumes "BN_set_word alloc b v = (True, r)" "bn_fit b"
  shows "bn_ok r" "bn_val r = int (unat v)"
proof -
  have "bn_ok r \<and> bn_val r = int (unat v)"
  proof (cases "v = 0")
    case True
    with assms show ?thesis by (auto simp: BN_set_word_def)
  next
    case False
    obtain ok b' where w: "bn_wexpand alloc b 1 = (ok, b')" by fastforce
    with assms(1) False have ok: "ok" and r: "r = b'\<lparr>bn_neg := False, bn_d := (bn_d b')[0 := v], bn_width := 1\<rparr>"
      by (cases ok; simp add: BN_set_word_def)+
    note e = bn_wexpand_ok [OF w assms(2)]
    obtain x d where d: "bn_d b' = x # d" using e(5) ok by (cases "bn_d b'") auto
    with e(1) r False show ?thesis
      by (simp add: bn_ok_def bn_fit_def bn_abs_def bn_used_def bn_val_def unat_eq_zero)
  qed
  then show "bn_ok r" "bn_val r = int (unat v)" by simp_all
qed

lemma bn_set_words_ok:
  assumes "bn_set_words alloc b ws = (True, r)" "bn_fit b"
  shows "bn_ok r" "bn_val r = int (words_val ws)" "bn_used r = ws"
proof -
  obtain ok b' where w: "bn_wexpand alloc b (length ws) = (ok, b')" by fastforce
  with assms(1) have ok: "ok" and r: "r = b'\<lparr>bn_d := put_words (bn_d b') ws, bn_width := length ws, bn_neg := False\<rparr>"
    by (cases ok; simp add: bn_set_words_def)+
  note e = bn_wexpand_ok [OF w assms(2)]
  have l: "length ws \<le> length (bn_d b')" "length (bn_d b') \<le> BN_MAX_WORDS"
    using e(1,5) ok by (simp_all add: bn_fit_def)
  from bn_put_ok [OF l, of r] r show "bn_ok r" "bn_val r = int (words_val ws)" "bn_used r = ws"
    by (simp_all add: bn_ok_def bn_val_def)
qed

text \<open>\<open>bn_resize_words\<close> refuses exactly to drop words that count; the number never changes.\<close>

lemma bn_resize_words_ok:
  assumes "bn_resize_words alloc b num = (ok, r)" "bn_fit b"
  shows "bn_fit r" "bn_val r = bn_val b" "ok \<Longrightarrow> bn_width r = num"
    "num < bn_width b \<Longrightarrow> ok \<longleftrightarrow> bn_abs b < 2 ^ (64 * num)"
proof -
  have "bn_fit r \<and> bn_val r = bn_val b \<and> (ok \<longrightarrow> bn_width r = num) \<and>
    (num < bn_width b \<longrightarrow> ok = (bn_abs b < 2 ^ (64 * num)))"
  proof (cases "bn_width b \<le> num")
    case True
    obtain ok' b' where w: "bn_wexpand alloc b num = (ok', b')" by fastforce
    note e = bn_wexpand_ok [OF w assms(2)]
    show ?thesis
    proof (cases ok')
      case False
      with assms(1) True w e show ?thesis by (simp add: bn_resize_words_def)
    next
      case ok: True
      let ?w = "bn_used b' @ replicate (num - bn_width b') 0"
      have r: "ok" "r = b'\<lparr>bn_d := put_words (bn_d b') ?w, bn_width := num\<rparr>"
        using assms(1) True w ok by (simp_all add: bn_resize_words_def)
      have n: "length ?w = num" using e(1-3) assms(2) True by simp
      have l: "length ?w \<le> length (bn_d b')" "length (bn_d b') \<le> BN_MAX_WORDS"
        using e(1,5) ok n by (simp_all add: bn_fit_def)
      from bn_put_ok [OF l, of r] r n have "bn_fit r" "bn_abs r = words_val ?w" by simp_all
      moreover from this(2) have "bn_abs r = bn_abs b" using e(3) by (simp add: bn_abs_def)
      ultimately show ?thesis using r e(4) True by (simp add: bn_val_def)
    qed
  next
    case False
    then have "words_val (take num (bn_d b)) = bn_abs b" if "bn_abs b < 2 ^ (64 * num)"
      using words_val_take_high(2) [of num "bn_width b" "bn_d b"] assms(2) that
      by (simp add: bn_fit_def bn_abs_def bn_used_def)
    with False assms show ?thesis
      by (auto simp: bn_resize_words_def bn_fits_in_words_eq bn_fit_def bn_val_def bn_abs_def bn_used_def
          split: if_splits)
  qed
  then show "bn_fit r" "bn_val r = bn_val b" "ok \<Longrightarrow> bn_width r = num"
    "num < bn_width b \<Longrightarrow> ok \<longleftrightarrow> bn_abs b < 2 ^ (64 * num)" by auto
qed

lemma bn_copy_words_ok:
  assumes "bn_fit b"
  shows "bn_copy_words num b = None \<longleftrightarrow> bn_neg b \<or> 2 ^ (64 * num) \<le> bn_abs b"
    "bn_copy_words num b = Some ws \<Longrightarrow> length ws = num \<and> int (words_val ws) = bn_val b"
proof -
  have s: "bn_abs b < 2 ^ (64 * num)" if "bn_width b \<le> num"
  proof -
    have "bn_abs b < 2 ^ (64 * bn_width b)" by (rule bn_abs_less [OF assms])
    also have "\<dots> \<le> 2 ^ (64 * num)" using that by (intro power_increasing) simp_all
    finally show ?thesis .
  qed
  show "bn_copy_words num b = None \<longleftrightarrow> bn_neg b \<or> 2 ^ (64 * num) \<le> bn_abs b"
    using s by (auto simp: bn_copy_words_def bn_fits_in_words_eq [OF assms])
  assume c: "bn_copy_words num b = Some ws"
  show "length ws = num \<and> int (words_val ws) = bn_val b"
  proof (cases "bn_width b \<le> num")
    case True
    with c assms show ?thesis
      by (auto simp: bn_copy_words_def put_words_def words_val_append bn_val_def bn_abs_def split: if_splits)
  next
    case False
    with c have f: "bn_abs b < 2 ^ (64 * num)" "\<not> bn_neg b" "ws = take num (bn_d b)"
      by (simp_all add: bn_copy_words_def bn_fits_in_words_eq [OF assms] split: if_splits)
    have "words_val (take num (bn_d b)) = bn_abs b"
      using words_val_take_high(2) [of num "bn_width b" "bn_d b"] assms f False
      by (simp add: bn_fit_def bn_abs_def bn_used_def)
    with f False assms show ?thesis by (simp add: bn_val_def bn_fit_def)
  qed
qed


lemma bn_used_Cons:
  assumes "bn_fit b" "bn_width b \<noteq> 0"
  shows "bn_used b = bn_d b ! 0 # drop 1 (bn_used b)"
  using assms by (cases "bn_d b"; cases "bn_width b") (auto simp: bn_used_def bn_fit_def)

lemma BN_abs_is_word_eq:
  assumes "bn_fit b"
  shows "BN_abs_is_word b w \<longleftrightarrow> bn_abs b = unat w"
proof (cases "bn_width b = 0")
  case True
  then show ?thesis by (auto simp: BN_abs_is_word_def bn_abs_def bn_used_def unat_eq_zero)
next
  case False
  let ?h = "bn_d b ! 0" and ?t = "drop 1 (bn_used b)"
  have a: "bn_abs b = unat ?h + 2 ^ 64 * words_val ?t"
    unfolding bn_abs_def by (subst bn_used_Cons [OF assms False]) simp
  have "length (bn_used b) = bn_width b" using assms by simp
  then have "words_val ?t = 0 \<longleftrightarrow> (\<forall>i \<in> {1..<bn_width b}. bn_used b ! i = 0)"
    using words_val_take_high [of 1 "bn_width b" "bn_used b"] words_val_split [of 1 "bn_used b"] False by simp
  then have t: "(\<forall>i \<in> {1..<bn_width b}. bn_d b ! i = 0) \<longleftrightarrow> words_val ?t = 0"
    by (simp add: bn_used_nth)
  have "unat ?h + 2 ^ 64 * words_val ?t = unat w \<longleftrightarrow> ?h = w \<and> words_val ?t = 0"
    using unat_u64_less [of ?h] unat_u64_less [of w] by (cases "words_val ?t") (auto simp: word_unat_eq_iff)
  with a t False show ?thesis
    by (auto simp: BN_abs_is_word_def fold_or_eq_0 word_xor_eq_0)
qed

lemma int_eq_uint: "int n = uint (w :: u64) \<longleftrightarrow> n = unat w" "- int n = uint w \<longleftrightarrow> n = 0 \<and> w = 0"
proof -
  show "int n = uint w \<longleftrightarrow> n = unat w" by (metis nat_int of_nat_unat unat_eq_nat_uint)
  show "- int n = uint w \<longleftrightarrow> n = 0 \<and> w = 0"
  proof
    assume "- int n = uint w"
    moreover have "0 \<le> uint w" by simp
    ultimately have "n = 0" "uint w = 0" by linarith+
    then show "n = 0 \<and> w = 0" by (simp add: uint_0_iff)
  qed simp
qed

lemma BN_is_word_eq: "bn_ok b \<Longrightarrow> BN_is_word b w \<longleftrightarrow> bn_val b = int (unat w)"
  by (auto simp: BN_is_word_def BN_abs_is_word_eq bn_ok_def bn_val_def unat_eq_zero int_eq_uint)

lemma BN_is_one_eq: "bn_ok b \<Longrightarrow> BN_is_one b \<longleftrightarrow> bn_val b = 1"
  using BN_abs_is_word_eq [of b 1] by (auto simp: BN_is_one_def bn_ok_def bn_val_def)

lemma BN_is_odd_eq:
  assumes "bn_fit b"
  shows "BN_is_odd b \<longleftrightarrow> odd (bn_val b)"
proof (cases "bn_width b = 0")
  case True
  then show ?thesis by (simp add: BN_is_odd_def bn_val_def bn_abs_def bn_used_def)
next
  case False
  have a: "bn_abs b = unat (bn_d b ! 0) + 2 ^ 64 * words_val (drop 1 (bn_used b))"
    unfolding bn_abs_def by (subst bn_used_Cons [OF assms False]) simp
  have "x AND 1 = 1 \<longleftrightarrow> odd (unat x)" for x :: u64
    using bit_unsigned_iff [of x 0, where 'a = nat] by (simp add: bit_0 and_one_eq odd_iff_mod_2_eq_one)
  with False show ?thesis by (simp add: BN_is_odd_def bn_val_def a uint_nat del: of_nat_unat)
qed

lemma BN_get_u64_eq:
  assumes "bn_fit b"
  shows "BN_get_u64 b = (if bn_abs b < 2 ^ 64 then Some (of_nat (bn_abs b)) else None)"
proof -
  note m = bn_minimal_width_props [OF assms] and n = bn_minimal_width_bounds [OF assms]
  consider "bn_minimal_width b = 0" | "bn_minimal_width b = 1" | "2 \<le> bn_minimal_width b" by linarith
  then show ?thesis
  proof cases
    case 1
    with n(3) show ?thesis by (simp add: BN_get_u64_def)
  next
    case 2
    with m(1) assms have "take 1 (bn_d b) = [bn_d b ! 0]" by (cases "bn_d b") (auto simp: bn_fit_def)
    with m(2) 2 have "bn_abs b = unat (bn_d b ! 0)" by simp
    with 2 unat_u64_less [of "bn_d b ! 0"] show ?thesis by (simp add: BN_get_u64_def)
  next
    case 3
    have "(2 :: nat) ^ 64 \<le> 2 ^ (64 * (bn_minimal_width b - 1))" using 3 by (intro power_increasing) simp_all
    also have "\<dots> \<le> bn_abs b" using n(2) 3 by simp
    finally show ?thesis using 3 by (simp add: BN_get_u64_def)
  qed
qed

section \<open>Properties\<close>



end
