(* ===== verification/Stack.thy ===== *)
theory Stack
  imports Cbb_Spec "HOL-Library.Multiset" "HOL-Library.List_Lexorder"
begin

text \<open>
  \<open>crypto/stack/stack.c\<close>: the array of pointers behind every \<open>STACK_OF(T)\<close>.  A pointer that may be
  \<open>NULL\<close> is an option; a stack pointer as well.  A comparison function pointer is a value of the type
  \<open>'c\<close>, and \<open>call_cmp\<close> (the argument \<open>call_cmp_func\<close> of \<open>sk_find\<close>) says what calling it on two
  elements returns, so that the elements can be seen as the objects that they point to.
  \<open>mem_ok n\<close> says whether an allocation of \<open>n\<close> bytes succeeds.  The library function \<open>qsort\<close> is
  a parameter.
\<close>

section \<open>State and operations\<close>

text \<open>\<open>sk_data\<close> are the \<open>num\<close> valid pointers of \<open>data\<close>.\<close>

record ('a, 'c) stack =
  sk_data :: "'a option list"
  sk_sorted :: bool
  num_alloc :: u64
  sk_comp :: "'c option"

type_synonym ('a, 'c) sk_ptr = "('a, 'c) stack option"

definition kMinSize :: u64 where
  "kMinSize = 4"

text \<open>The structure takes 40 bytes and a pointer 8.\<close>

definition sk_new :: "(u64 \<Rightarrow> bool) \<Rightarrow> 'c option \<Rightarrow> ('a, 'c) sk_ptr" where
  "sk_new mem_ok cf =
     (if \<not> mem_ok 40 then None
      else if \<not> mem_ok (8 * kMinSize) then None
      else Some \<lparr>sk_data = [], sk_sorted = False, num_alloc = kMinSize, sk_comp = cf\<rparr>)"

definition sk_new_null :: "(u64 \<Rightarrow> bool) \<Rightarrow> ('a, 'c) sk_ptr" where
  "sk_new_null mem_ok = sk_new mem_ok None"

text \<open>\<open>sk->num\<close>\<close>

definition num :: "('a, 'c) stack \<Rightarrow> u64" where
  "num s = of_nat (length (sk_data s))"

definition sk_num :: "('a, 'c) sk_ptr \<Rightarrow> u64" where
  "sk_num sk = (case sk of None \<Rightarrow> 0 | Some s \<Rightarrow> num s)"

definition sk_zero :: "('a, 'c) sk_ptr \<Rightarrow> ('a, 'c) sk_ptr" where
  "sk_zero sk =
     (case sk of
        None \<Rightarrow> None
      | Some s \<Rightarrow> if num s = 0 then Some s else Some (s\<lparr>sk_data := [], sk_sorted := False\<rparr>))"

definition sk_value :: "('a, 'c) sk_ptr \<Rightarrow> u64 \<Rightarrow> 'a option" where
  "sk_value sk i =
     (case sk of
        None \<Rightarrow> None
      | Some s \<Rightarrow> if i \<ge> num s then None else sk_data s ! unat i)"

definition sk_set :: "('a, 'c) sk_ptr \<Rightarrow> u64 \<Rightarrow> 'a option \<Rightarrow> 'a option \<times> ('a, 'c) sk_ptr" where
  "sk_set sk i p =
     (case sk of
        None \<Rightarrow> (None, None)
      | Some s \<Rightarrow>
          if i \<ge> num s then (None, Some s)
          else (p, Some (s\<lparr>sk_data := (sk_data s)[unat i := p]\<rparr>)))"

text \<open>The effect of freeing the elements on a state \<open>'s\<close>: \<open>free_func\<close> is called on every element that
  is not \<open>NULL\<close>, in order.\<close>

definition free_all :: "('a \<Rightarrow> 's \<Rightarrow> 's) \<Rightarrow> 'a option list \<Rightarrow> 's \<Rightarrow> 's" where
  "free_all free_func ps st = fold (\<lambda>p. case p of None \<Rightarrow> id | Some x \<Rightarrow> free_func x) ps st"

definition sk_pop_free_ex :: "('a \<Rightarrow> 's \<Rightarrow> 's) \<Rightarrow> ('a, 'c) sk_ptr \<Rightarrow> 's \<Rightarrow> 's" where
  "sk_pop_free_ex free_func sk st =
     (case sk of None \<Rightarrow> st | Some s \<Rightarrow> free_all free_func (sk_data s) st)"

definition sk_pop_free :: "('a \<Rightarrow> 's \<Rightarrow> 's) \<Rightarrow> ('a, 'c) sk_ptr \<Rightarrow> 's \<Rightarrow> 's" where
  "sk_pop_free free_func sk st = sk_pop_free_ex free_func sk st"

text \<open>The new number of allocated pointers, \<open>None\<close> when no size fits a \<open>size_t\<close>.\<close>

definition sk_grow :: "u64 \<Rightarrow> u64 option" where
  "sk_grow n =
     (let new_alloc = push_bit 1 n; alloc_size = new_alloc * 8;
          new_alloc = (if new_alloc < n \<or> alloc_size div 8 \<noteq> new_alloc then n + 1 else new_alloc);
          alloc_size = new_alloc * 8
      in if new_alloc < n \<or> alloc_size div 8 \<noteq> new_alloc then None else Some new_alloc)"

definition sk_insert ::
    "(u64 \<Rightarrow> bool) \<Rightarrow> ('a, 'c) sk_ptr \<Rightarrow> 'a option \<Rightarrow> u64 \<Rightarrow> u64 \<times> ('a, 'c) sk_ptr" where
  "sk_insert mem_ok sk p where' =
     (case sk of
        None \<Rightarrow> (0, None)
      | Some s \<Rightarrow>
          (case (if num_alloc s \<le> num s + 1 then
                   (case sk_grow (num_alloc s) of
                      None \<Rightarrow> None
                    | Some new_alloc \<Rightarrow>
                        if \<not> mem_ok (new_alloc * 8) then None else Some (s\<lparr>num_alloc := new_alloc\<rparr>))
                 else Some s) of
             None \<Rightarrow> (0, Some s)
           | Some s \<Rightarrow>
               let s = (if where' \<ge> num s then s\<lparr>sk_data := sk_data s @ [p]\<rparr>
                        else s\<lparr>sk_data := take (unat where') (sk_data s) @ [p] @
                                 drop (unat where') (sk_data s)\<rparr>);
                   s = s\<lparr>sk_sorted := False\<rparr>
               in (num s, Some s)))"

definition sk_delete :: "('a, 'c) sk_ptr \<Rightarrow> u64 \<Rightarrow> 'a option \<times> ('a, 'c) sk_ptr" where
  "sk_delete sk where' =
     (case sk of
        None \<Rightarrow> (None, None)
      | Some s \<Rightarrow>
          if where' \<ge> num s then (None, Some s)
          else
            let ret = sk_data s ! unat where';
                s = (if where' \<noteq> num s - 1 then
                       s\<lparr>sk_data := take (unat where') (sk_data s) @ drop (unat where' + 1) (sk_data s)\<rparr>
                     else s\<lparr>sk_data := butlast (sk_data s)\<rparr>)
            in (ret, Some s))"

text \<open>The index of the first element that satisfies a test.\<close>

fun first_index :: "('b \<Rightarrow> bool) \<Rightarrow> 'b list \<Rightarrow> nat option" where
  "first_index P [] = None"
| "first_index P (x # xs) = (if P x then Some 0 else map_option Suc (first_index P xs))"

definition sk_delete_ptr :: "('a, 'c) sk_ptr \<Rightarrow> 'a option \<Rightarrow> 'a option \<times> ('a, 'c) sk_ptr" where
  "sk_delete_ptr sk p =
     (case sk of
        None \<Rightarrow> (None, None)
      | Some s \<Rightarrow>
          (case first_index (\<lambda>q. q = p) (sk_data s) of
             None \<Rightarrow> (None, sk)
           | Some i \<Rightarrow> sk_delete sk (of_nat i)))"

definition sk_is_sorted :: "('a, 'c) sk_ptr \<Rightarrow> bool" where
  "sk_is_sorted sk = (case sk of None \<Rightarrow> True | Some s \<Rightarrow> sk_sorted s)"

text \<open>The binary search: \<open>cmp x\<close> is the result of comparing the key with an element.\<close>

lemma unat_mid:
  "(lo :: u64) < hi \<Longrightarrow> unat (lo + (hi - lo - 1) div 2) = unat lo + (unat hi - unat lo - 1) div 2"
proof -
  assume l: "lo < hi"
  then have l': "unat lo < unat hi" by (simp only: word_less_nat_alt)
  have u: "unat hi < 2 ^ 64" using unsigned_less [of hi, where 'a = nat] by simp
  have d: "unat (hi - lo) = unat hi - unat lo" using l by (simp add: unat_sub less_imp_le)
  have "1 \<le> hi - lo" using d l' by (simp add: word_le_nat_alt)
  then have "unat (hi - lo - 1) = unat hi - unat lo - 1" using d by (simp add: unat_sub)
  then have "unat ((hi - lo - 1) div 2) = (unat hi - unat lo - 1) div 2" by (simp add: unat_div)
  moreover have "unat lo + (unat hi - unat lo - 1) div 2 < 2 ^ 64" using l' u by linarith
  ultimately show ?thesis by (simp add: unat_word_ariths)
qed

lemma unat_mid_Suc:
  "(lo :: u64) < hi \<Longrightarrow> unat (lo + (hi - lo - 1) div 2 + 1) = Suc (unat lo + (unat hi - unat lo - 1) div 2)"
proof -
  assume l: "lo < hi"
  then have l': "unat lo < unat hi" by (simp only: word_less_nat_alt)
  have u: "unat hi < 2 ^ 64" using unsigned_less [of hi, where 'a = nat] by simp
  have "Suc (unat lo + (unat hi - unat lo - 1) div 2) < 2 ^ 64" using l' u by linarith
  then show ?thesis
    unfolding unat_word_ariths(1) [of "lo + (hi - lo - 1) div 2" 1] unat_mid [OF l] by simp
qed

function find_loop :: "('b \<Rightarrow> int) \<Rightarrow> 'b list \<Rightarrow> u64 \<Rightarrow> u64 \<Rightarrow> u64 option" where
  "find_loop cmp xs lo hi =
     (if lo < hi then
        let mid = lo + (hi - lo - 1) div 2;
            r = cmp (xs ! unat mid)
        in if r > 0 then find_loop cmp xs (mid + 1) hi
           else if r < 0 then find_loop cmp xs lo mid
           else if hi - lo = 1 then Some mid
           else find_loop cmp xs lo (mid + 1)
      else None)"
  by pat_completeness auto
termination
proof (relation "measure (\<lambda>(_, _, lo, hi). unat hi - unat lo)", goal_cases)
  case (2 cmp xs lo hi mid r)
  then have "unat lo < unat hi" by (simp add: word_less_nat_alt)
  with 2 show ?case by (simp add: unat_mid_Suc)
next
  case (3 cmp xs lo hi mid r)
  then have "unat lo < unat hi" by (simp add: word_less_nat_alt)
  with 3 show ?case by (simp add: unat_mid)
next
  case (4 cmp xs lo hi mid r)
  then have l: "unat lo < unat hi" by (simp add: word_less_nat_alt)
  have "unat (hi - lo) = unat hi - unat lo" using 4(1) by (simp add: unat_sub less_imp_le)
  moreover have "unat (hi - lo) \<noteq> 1" using 4(6) unfolding word_nat_lift by simp
  ultimately have "unat hi - unat lo \<ge> 2" using l by linarith
  with 4 show ?case by (simp add: unat_mid_Suc)
qed simp

declare find_loop.simps [simp del]

definition sk_find ::
    "('c \<Rightarrow> 'a option \<Rightarrow> 'a option \<Rightarrow> int) \<Rightarrow> ('a, 'c) sk_ptr \<Rightarrow> 'a option \<Rightarrow> u64 option" where
  "sk_find call_cmp sk p =
     (case sk of
        None \<Rightarrow> None
      | Some s \<Rightarrow>
          (case sk_comp s of
             None \<Rightarrow> map_option of_nat (first_index (\<lambda>q. q = p) (sk_data s))
           | Some c \<Rightarrow>
               if p = None then None
               else if \<not> sk_is_sorted sk then
                 map_option of_nat (first_index (\<lambda>elem. call_cmp c p elem = 0) (sk_data s))
               else find_loop (\<lambda>elem. call_cmp c p elem) (sk_data s) 0 (num s)))"

definition sk_shift :: "('a, 'c) sk_ptr \<Rightarrow> 'a option \<times> ('a, 'c) sk_ptr" where
  "sk_shift sk =
     (case sk of
        None \<Rightarrow> (None, None)
      | Some s \<Rightarrow> if num s = 0 then (None, sk) else sk_delete sk 0)"

definition sk_push :: "(u64 \<Rightarrow> bool) \<Rightarrow> ('a, 'c) sk_ptr \<Rightarrow> 'a option \<Rightarrow> u64 \<times> ('a, 'c) sk_ptr" where
  "sk_push mem_ok sk p = sk_insert mem_ok sk p (sk_num sk)"

definition sk_pop :: "('a, 'c) sk_ptr \<Rightarrow> 'a option \<times> ('a, 'c) sk_ptr" where
  "sk_pop sk =
     (case sk of
        None \<Rightarrow> (None, None)
      | Some s \<Rightarrow> if num s = 0 then (None, sk) else sk_delete sk (num s - 1))"

definition sk_dup :: "(u64 \<Rightarrow> bool) \<Rightarrow> ('a, 'c) sk_ptr \<Rightarrow> ('a, 'c) sk_ptr" where
  "sk_dup mem_ok sk =
     (case sk of
        None \<Rightarrow> None
      | Some s \<Rightarrow>
          (case (sk_new mem_ok (sk_comp s) :: ('a, 'c) sk_ptr) of
             None \<Rightarrow> None
           | Some ret \<Rightarrow>
               if \<not> mem_ok (8 * num_alloc s) then None
               else Some (ret\<lparr>sk_data := sk_data s, sk_sorted := sk_sorted s,
                              num_alloc := num_alloc s, sk_comp := sk_comp s\<rparr>)))"

definition sk_sort ::
    "(('a option \<Rightarrow> 'a option \<Rightarrow> int) \<Rightarrow> 'a option list \<Rightarrow> 'a option list) \<Rightarrow>
      ('c \<Rightarrow> 'a option \<Rightarrow> 'a option \<Rightarrow> int) \<Rightarrow> ('a, 'c) sk_ptr \<Rightarrow> ('a, 'c) sk_ptr" where
  "sk_sort qsort call_cmp sk =
     (case sk of
        None \<Rightarrow> None
      | Some s \<Rightarrow>
          (case sk_comp s of
             None \<Rightarrow> sk
           | Some c \<Rightarrow>
               if sk_sorted s then sk
               else let s = (if num s \<ge> 2 then s\<lparr>sk_data := qsort (call_cmp c) (sk_data s)\<rparr> else s)
                    in Some (s\<lparr>sk_sorted := True\<rparr>)))"

definition sk_set_cmp_func :: "('a, 'c) stack \<Rightarrow> 'c option \<Rightarrow> 'c option \<times> ('a, 'c) stack" where
  "sk_set_cmp_func s cf =
     (let old = sk_comp s;
          s = (if sk_comp s \<noteq> cf then s\<lparr>sk_sorted := False\<rparr> else s)
      in (old, s\<lparr>sk_comp := cf\<rparr>))"

text \<open>The copying loop on a state \<open>'s\<close> that the copy and free functions act on: \<open>copied\<close> are the
  elements before the current one.\<close>

fun copy_loop ::
    "('a \<Rightarrow> 's \<Rightarrow> 'a option \<times> 's) \<Rightarrow> ('a \<Rightarrow> 's \<Rightarrow> 's) \<Rightarrow> 'a option list \<Rightarrow> 'a option list \<Rightarrow> 's \<Rightarrow>
      'a option list option \<times> 's" where
  "copy_loop copy_func free_func copied [] st = (Some copied, st)"
| "copy_loop copy_func free_func copied (None # ps) st =
     copy_loop copy_func free_func (copied @ [None]) ps st"
| "copy_loop copy_func free_func copied (Some x # ps) st =
     (case copy_func x st of
        (None, st) \<Rightarrow> (None, free_all free_func copied st)
      | (Some y, st) \<Rightarrow> copy_loop copy_func free_func (copied @ [Some y]) ps st)"

definition sk_deep_copy ::
    "(u64 \<Rightarrow> bool) \<Rightarrow> ('a, 'c) sk_ptr \<Rightarrow> ('a \<Rightarrow> 's \<Rightarrow> 'a option \<times> 's) \<Rightarrow> ('a \<Rightarrow> 's \<Rightarrow> 's) \<Rightarrow> 's \<Rightarrow>
      ('a, 'c) sk_ptr \<times> 's" where
  "sk_deep_copy mem_ok sk copy_func free_func st =
     (case sk_dup mem_ok sk of
        None \<Rightarrow> (None, st)
      | Some ret \<Rightarrow>
          (case copy_loop copy_func free_func [] (sk_data ret) st of
             (None, st) \<Rightarrow> (None, st)
           | (Some ps, st) \<Rightarrow> (Some (ret\<lparr>sk_data := ps\<rparr>), st)))"

section \<open>Comparison functions\<close>

text \<open>What a comparison function promises: its sign is antisymmetric and the order it gives is
  transitive.  Both \<open>qsort\<close> and the binary search of \<open>sk_find\<close> rely on it.\<close>

locale comparator =
  fixes cmp :: "'b \<Rightarrow> 'b \<Rightarrow> int"
  assumes cmp_sym: "sgn (cmp y x) = - sgn (cmp x y)"
    and cmp_trans: "cmp x y \<le> 0 \<Longrightarrow> cmp y z \<le> 0 \<Longrightarrow> cmp x z \<le> 0"

definition ascending :: "('b \<Rightarrow> 'b \<Rightarrow> int) \<Rightarrow> 'b list \<Rightarrow> bool" where
  "ascending cmp xs = sorted_wrt (\<lambda>x y. cmp x y \<le> 0) xs"

text \<open>The key's comparisons against a list change from positive to zero to negative only.\<close>

definition signs_fall :: "('b \<Rightarrow> int) \<Rightarrow> 'b list \<Rightarrow> bool" where
  "signs_fall f xs = sorted_wrt (\<lambda>x y. sgn (f y) \<le> sgn (f x)) xs"

context comparator
begin

lemma cmp_neg_iff: "cmp x y < 0 \<longleftrightarrow> 0 < cmp y x"
  using cmp_sym [of y x] by (auto simp: sgn_if split: if_splits)

lemma cmp_nonneg_iff: "0 \<le> cmp x y \<longleftrightarrow> cmp y x \<le> 0"
  using cmp_neg_iff [of x y] by linarith

lemma cmp_refl: "cmp x x = 0"
  using cmp_neg_iff [of x x] by linarith

lemma cmp_sgn_mono:
  assumes "cmp x y \<le> 0" shows "sgn (cmp p y) \<le> sgn (cmp p x)"
proof -
  have "cmp p x \<le> 0 \<Longrightarrow> cmp p y \<le> 0" using cmp_trans assms by blast
  moreover have "0 \<le> cmp p y \<Longrightarrow> 0 \<le> cmp p x" using cmp_trans [of x y p] assms cmp_nonneg_iff by blast
  ultimately show ?thesis by (simp add: sgn_if) linarith
qed

lemma ascending_signs_fall: "ascending cmp xs \<Longrightarrow> signs_fall (cmp p) xs"
  unfolding ascending_def signs_fall_def
  by (erule sorted_wrt_mono_rel [rotated]) (rule cmp_sgn_mono)

end



text \<open>\<open>qsort\<close> sorts: a permutation of its input in ascending order, for every comparison function.\<close>

definition qsort_spec :: "(('b \<Rightarrow> 'b \<Rightarrow> int) \<Rightarrow> 'b list \<Rightarrow> 'b list) \<Rightarrow> bool" where
  "qsort_spec qsort \<longleftrightarrow>
     (\<forall>cmp xs. comparator cmp \<longrightarrow> mset (qsort cmp xs) = mset xs \<and> ascending cmp (qsort cmp xs))"

text \<open>An instance: insertion sort.\<close>

fun insert_by :: "('b \<Rightarrow> 'b \<Rightarrow> int) \<Rightarrow> 'b \<Rightarrow> 'b list \<Rightarrow> 'b list" where
  "insert_by cmp x [] = [x]"
| "insert_by cmp x (y # ys) = (if cmp x y \<le> 0 then x # y # ys else y # insert_by cmp x ys)"

definition insertion_sort :: "('b \<Rightarrow> 'b \<Rightarrow> int) \<Rightarrow> 'b list \<Rightarrow> 'b list" where
  "insertion_sort cmp xs = foldr (insert_by cmp) xs []"

lemma mset_insert_by [simp]: "mset (insert_by cmp x ys) = add_mset x (mset ys)"
  by (induction ys) auto

lemma set_insert_by [simp]: "set (insert_by cmp x ys) = insert x (set ys)"
  by (induction ys) auto

context comparator
begin

lemma ascending_insert_by: "ascending cmp ys \<Longrightarrow> ascending cmp (insert_by cmp x ys)"
  unfolding ascending_def
proof (induction ys)
  case (Cons y ys)
  then show ?case using cmp_nonneg_iff [of x y] by (auto intro: cmp_trans)
qed simp

lemma mset_insertion_sort: "mset (insertion_sort cmp xs) = mset xs"
  by (induction xs) (simp_all add: insertion_sort_def)

lemma ascending_insertion_sort: "ascending cmp (insertion_sort cmp xs)"
proof (induction xs)
  case (Cons x xs)
  then show ?case by (simp add: insertion_sort_def ascending_insert_by)
qed (simp add: insertion_sort_def ascending_def)

end

lemma qsort_spec_insertion_sort: "qsort_spec insertion_sort"
  unfolding qsort_spec_def
  using comparator.mset_insertion_sort comparator.ascending_insertion_sort by blast

section \<open>The order of SET OF elements\<close>

text \<open>The comparison function of \<open>CBB_flush_asn1_set_of\<close> is the lexicographic order of the bytes.\<close>

fun lex_cmp :: "bytes \<Rightarrow> bytes \<Rightarrow> int" where
  "lex_cmp [] [] = 0"
| "lex_cmp [] (_ # _) = -1"
| "lex_cmp (_ # _) [] = 1"
| "lex_cmp (x # xs) (y # ys) = (if x < y then -1 else if y < x then 1 else lex_cmp xs ys)"


lemma memcmp_sign_lex:
  "compare_set_of_element a b = lex_cmp a b"
proof -
  have "(let ret = memcmp_sign a b (min (length a) (length b))
         in if ret \<noteq> 0 then ret
            else if length a = length b then 0 else if length a < length b then -1 else 1) = lex_cmp a b"
    by (induction a b rule: lex_cmp.induct) (auto simp: Let_def)
  moreover have "(if m < n then m else n) = min m n" for m n :: nat by simp
  ultimately show ?thesis
    by (simp only: compare_set_of_element_def CBS_len_def CBS_data_def Let_def)
qed

lemma lex_cmp_sym: "lex_cmp y x = - lex_cmp x y"
  by (induction x y rule: lex_cmp.induct) auto

lemma lex_cmp_trans: "lex_cmp x y \<le> 0 \<Longrightarrow> lex_cmp y z \<le> 0 \<Longrightarrow> lex_cmp x z \<le> 0"
proof (induction x z arbitrary: y rule: lex_cmp.induct)
  case (3 x xs)
  then show ?case by (cases y) auto
next
  case (4 x xs z zs)
  then show ?case by (cases y) (auto split: if_splits)
qed auto

lemma lex_cmp_eq_0: "lex_cmp x y = 0 \<longleftrightarrow> x = y"
  by (induction x y rule: lex_cmp.induct) auto

lemma lex_cmp_le: "lex_cmp x y \<le> 0 \<longleftrightarrow> x \<le> y"
  by (induction x y rule: lex_cmp.induct) auto

interpretation set_of: comparator compare_set_of_element
proof
  show "sgn (compare_set_of_element y x) = - sgn (compare_set_of_element x y)" for x y
    by (simp add: memcmp_sign_lex lex_cmp_sym [of y x])
qed (use lex_cmp_trans in \<open>auto simp: memcmp_sign_lex\<close>)

text \<open>Ascending in this order is sorted in the library's lexicographic order of lists.\<close>

lemma ascending_set_of: "ascending compare_set_of_element es \<longleftrightarrow> sorted es"
  by (simp add: ascending_def memcmp_sign_lex lex_cmp_le)

section \<open>Searching\<close>

text \<open>The result of a search for the first element that compares as zero.\<close>

lemma first_index_Some:
  "first_index P xs = Some i \<longleftrightarrow> i < length xs \<and> P (xs ! i) \<and> (\<forall>j < i. \<not> P (xs ! j))"
proof (induction xs arbitrary: i)
  case (Cons x xs)
  show ?case
  proof (cases i)
    case (Suc k)
    then show ?thesis using Cons.IH [of k] by (auto simp: less_Suc_eq_0_disj)
  qed auto
qed simp

lemma first_index_None: "first_index P xs = None \<longleftrightarrow> (\<forall>x \<in> set xs. \<not> P x)"
  by (induction xs) auto

lemma first_index_False: "first_index (\<lambda>_. False) xs = None"
  by (induction xs) auto

lemma signs_fallD: "signs_fall f xs \<Longrightarrow> i \<le> j \<Longrightarrow> j < length xs \<Longrightarrow> sgn (f (xs ! j)) \<le> sgn (f (xs ! i))"
  unfolding signs_fall_def by (cases "i = j") (auto simp: sorted_wrt_iff_nth_less)

text \<open>The invariant of the binary search: everything below \<open>lo\<close> is too low, and everything from
  \<open>hi\<close> on is too high or has an equal before it in the range.\<close>

definition in_range :: "('b \<Rightarrow> int) \<Rightarrow> 'b list \<Rightarrow> nat \<Rightarrow> nat \<Rightarrow> bool" where
  "in_range f xs lo hi \<longleftrightarrow> lo \<le> hi \<and> hi \<le> length xs \<and>
     (\<forall>i < lo. f (xs ! i) > 0) \<and>
     (\<forall>i. hi \<le> i \<longrightarrow> i < length xs \<longrightarrow>
        f (xs ! i) < 0 \<or> (f (xs ! i) = 0 \<and> (\<exists>j. lo \<le> j \<and> j < hi \<and> f (xs ! j) = 0)))"

lemma in_range_all: "in_range f xs 0 (length xs)"
  by (simp add: in_range_def)

lemma in_range_low:
  assumes "signs_fall f xs" "in_range f xs lo hi" "lo \<le> m" "m < hi" "f (xs ! m) > 0"
  shows "in_range f xs (Suc m) hi"
proof -
  have pos: "f (xs ! i) > 0" if "i \<le> m" for i
    using signs_fallD [OF assms(1), of i m] that assms(2,4,5) by (auto simp: in_range_def sgn_if split: if_splits)
  have "Suc m \<le> j" if "f (xs ! j) = 0" for j using pos [of j] that by (cases "j \<le> m") auto
  with assms(2,4) pos show ?thesis unfolding in_range_def by (metis Suc_leI le_simps(2))
qed

lemma in_range_high:
  assumes "signs_fall f xs" "in_range f xs lo hi" "lo \<le> m" "m < hi" "f (xs ! m) < 0"
  shows "in_range f xs lo m"
proof -
  have "f (xs ! i) < 0" if "m \<le> i" "i < length xs" for i
    using signs_fallD [OF assms(1), of m i] that assms(5) by (auto simp: sgn_if split: if_splits)
  with assms(2-4) show ?thesis by (simp add: in_range_def)
qed

lemma in_range_eq:
  assumes "signs_fall f xs" "in_range f xs lo hi" "lo \<le> m" "m < hi" "f (xs ! m) = 0"
  shows "in_range f xs lo (Suc m)"
proof -
  have "f (xs ! i) < 0 \<or> f (xs ! i) = 0" if "m \<le> i" "i < length xs" for i
    using signs_fallD [OF assms(1), of m i] that assms(5) by (auto simp: sgn_if split: if_splits)
  moreover have "\<exists>j. lo \<le> j \<and> j < Suc m \<and> f (xs ! j) = 0" using assms(3,5) by auto
  ultimately show ?thesis using assms(2-4) by (simp add: in_range_def)
qed

lemma in_range_empty: "in_range f xs m m \<Longrightarrow> first_index (\<lambda>x. f x = 0) xs = None"
  unfolding first_index_None in_range_def by (metis in_set_conv_nth less_irrefl linorder_not_le order_less_le_trans)

lemma in_range_one:
  "in_range f xs m (Suc m) \<Longrightarrow> f (xs ! m) = 0 \<Longrightarrow> first_index (\<lambda>x. f x = 0) xs = Some m"
  unfolding first_index_Some in_range_def by (metis Suc_le_lessD less_irrefl)

lemma find_loop_first:
  "signs_fall f xs \<Longrightarrow> in_range f xs (unat lo) (unat hi) \<Longrightarrow>
    find_loop f xs lo hi = map_option of_nat (first_index (\<lambda>x. f x = 0) xs)"
proof (induction f xs lo hi rule: find_loop.induct)
  case (1 f xs lo hi)
  show ?case
  proof (cases "lo < hi")
    case False
    then have "unat hi \<le> unat lo" by (simp only: word_less_nat_alt not_less)
    then have "unat lo = unat hi" using 1(5) by (simp add: in_range_def)
    then have "first_index (\<lambda>x. f x = 0) xs = None" using in_range_empty 1(5) by simp
    with False show ?thesis by (simp add: find_loop.simps [of f xs lo hi])
  next
    case True
    then have l: "unat lo < unat hi" by (simp add: word_less_nat_alt)
    let ?mid = "lo + (hi - lo - 1) div 2"
    have m: "unat lo \<le> unat ?mid" "unat ?mid < unat hi" "unat (?mid + 1) = Suc (unat ?mid)"
      unfolding unat_mid [OF True] unat_mid_Suc [OF True] using l by linarith+
    note sf = 1(4) and rng = 1(5)
    consider (low) "f (xs ! unat ?mid) > 0" | (high) "f (xs ! unat ?mid) < 0" | (eq) "f (xs ! unat ?mid) = 0"
      by linarith
    then show ?thesis
    proof cases
      case low
      have "in_range f xs (unat (?mid + 1)) (unat hi)" using in_range_low [OF sf rng m(1,2) low] m(3) by simp
      with "1.IH"(1) [OF True refl refl low sf] low True show ?thesis
        by (simp add: find_loop.simps [of f xs lo hi] Let_def)
    next
      case high
      have "in_range f xs (unat lo) (unat ?mid)" by (rule in_range_high [OF sf rng m(1,2) high])
      with "1.IH"(2) [OF True refl refl _ high sf] high True show ?thesis
        by (simp add: find_loop.simps [of f xs lo hi] Let_def)
    next
      case eq
      show ?thesis
      proof (cases "hi - lo = 1")
        case one: True
        have d: "unat (hi - lo) = unat hi - unat lo" using True by (simp add: unat_sub less_imp_le)
        have mid: "?mid = lo" using one by simp
        have "unat hi = Suc (unat lo)" using one d l by simp
        with rng eq mid in_range_one [of f xs "unat lo"]
        have "first_index (\<lambda>x. f x = 0) xs = Some (unat lo)" by simp
        with one eq True mid show ?thesis by (simp add: find_loop.simps [of f xs lo hi])
      next
        case False
        have "in_range f xs (unat lo) (unat (?mid + 1))" using in_range_eq [OF sf rng m(1,2) eq] m(3) by simp
        with "1.IH"(3) [OF True refl refl _ _ False sf] eq True False show ?thesis
          by (simp add: find_loop.simps [of f xs lo hi] Let_def)
      qed
    qed
  qed
qed

lemma find_loop_sound:
  "find_loop f xs lo hi = Some i \<Longrightarrow> unat i < unat hi \<and> f (xs ! unat i) = 0"
proof (induction f xs lo hi rule: find_loop.induct)
  case (1 f xs lo hi)
  have l: "lo < hi" using 1(4) by (simp add: find_loop.simps [of f xs lo hi] split: if_splits)
  then have l': "unat lo < unat hi" by (simp add: word_less_nat_alt)
  let ?mid = "lo + (hi - lo - 1) div 2"
  have m: "unat ?mid < unat hi" "unat (?mid + 1) \<le> unat hi"
    unfolding unat_mid [OF l] unat_mid_Suc [OF l] using l' by linarith+
  consider (low) "f (xs ! unat ?mid) > 0" | (high) "f (xs ! unat ?mid) < 0"
    | (one) "f (xs ! unat ?mid) = 0" "hi - lo = 1" | (eq) "f (xs ! unat ?mid) = 0" "hi - lo \<noteq> 1"
    by linarith
  then show ?case
  proof cases
    case low
    then show ?thesis using "1.IH"(1) [OF l refl refl low] 1(4) l by (simp add: find_loop.simps [of f xs lo hi] Let_def)
  next
    case high
    then show ?thesis using "1.IH"(2) [OF l refl refl _ high] 1(4) l m
      by (simp add: find_loop.simps [of f xs lo hi] Let_def)
  next
    case one
    then show ?thesis using 1(4) l m by (simp add: find_loop.simps [of f xs lo hi] Let_def)
  next
    case eq
    then show ?thesis using "1.IH"(3) [OF l refl refl _ _ eq(2)] 1(4) l m
      by (simp add: find_loop.simps [of f xs lo hi] Let_def)
  qed
qed

section \<open>The invariant\<close>

text \<open>There is room for one more pointer, the array's size fits a \<open>size_t\<close>, and a stack that is
  marked as sorted is in the order of its comparison function.\<close>

definition stack_ok :: "('c \<Rightarrow> 'a option \<Rightarrow> 'a option \<Rightarrow> int) \<Rightarrow> ('a, 'c) stack \<Rightarrow> bool" where
  "stack_ok call_cmp s \<longleftrightarrow>
     length (sk_data s) < unat (num_alloc s) \<and> unat (num_alloc s) < 2 ^ 61 \<and>
     (sk_sorted s \<longrightarrow>
        (case sk_comp s of None \<Rightarrow> False | Some c \<Rightarrow> ascending (call_cmp c) (sk_data s)))"

lemma unat_num: "stack_ok call_cmp s \<Longrightarrow> unat (num s) = length (sk_data s)"
  unfolding num_def stack_ok_def by (simp only: unat_of_nat) simp

lemma ge_num_iff: "stack_ok call_cmp s \<Longrightarrow> num s \<le> i \<longleftrightarrow> length (sk_data s) \<le> unat i"
  using unat_num [of call_cmp s] by (simp add: word_le_nat_alt)

lemma num_eq_0_iff: "stack_ok call_cmp s \<Longrightarrow> num s = 0 \<longleftrightarrow> sk_data s = []"
  using unat_num [of call_cmp s] by (simp add: word_nat_lift)

lemma sk_new_ok: "sk_new mem_ok cf = Some s \<Longrightarrow> stack_ok call_cmp s"
  by (auto simp: sk_new_def stack_ok_def kMinSize_def split: if_splits)

lemma sk_grow_ok:
  assumes "sk_grow n = Some m" "0 < unat n" "unat n < 2 ^ 61"
  shows "unat n < unat m \<and> unat m < 2 ^ 61"
proof -
  have size: "unat w < 2 ^ 61" if "w * 8 div 8 = w" for w :: u64
    using that mult8_div8 [of w] by (simp only: mult.commute)
  have p: "unat (push_bit 1 n) = 2 * unat n"
    using assms(3) by (simp add: push_bit_eq_mult unat_word_ariths)
  have s: "unat (n + 1) = unat n + 1" using assms(3) by (simp add: unat_word_ariths)
  from assms(1) consider "m = push_bit 1 n" "m * 8 div 8 = m" | "m = n + 1" "m * 8 div 8 = m"
    by (auto simp: sk_grow_def Let_def split: if_splits)
  then show ?thesis
  proof cases
    case 1
    from size [OF 1(2)] show ?thesis using p 1(1) assms(2) by simp
  next
    case 2
    from size [OF 2(2)] show ?thesis using s 2(1) by simp
  qed
qed

lemma sk_insert_cases:
  assumes "stack_ok call_cmp s"
  shows "sk_insert mem_ok (Some s) p w =
    (case (if num_alloc s \<le> num s + 1 then
             (case sk_grow (num_alloc s) of
                None \<Rightarrow> None
              | Some m \<Rightarrow> if \<not> mem_ok (m * 8) then None else Some m)
           else Some (num_alloc s)) of
       None \<Rightarrow> (0, Some s)
     | Some m \<Rightarrow>
         (of_nat (length (sk_data s) + 1),
          Some (s\<lparr>sk_data := take (unat w) (sk_data s) @ p # drop (unat w) (sk_data s),
                  sk_sorted := False, num_alloc := m\<rparr>)))"
  using ge_num_iff [OF assms, of w]
  by (cases s) (auto simp: sk_insert_def Let_def num_def split: option.splits)

lemma sk_insert_alloc:
  assumes "stack_ok call_cmp s"
    "(if num_alloc s \<le> num s + 1 then
       (case sk_grow (num_alloc s) of
          None \<Rightarrow> None
        | Some m \<Rightarrow> if \<not> mem_ok (m * 8) then None else Some m)
     else Some (num_alloc s)) = Some m"
  shows "length (sk_data s) + 1 < unat m \<and> unat m < 2 ^ 61"
proof -
  have n: "unat (num s + 1) = length (sk_data s) + 1"
    using unat_num [OF assms(1)] assms(1) by (simp add: unat_word_ariths stack_ok_def)
  show ?thesis
  proof (cases "num_alloc s \<le> num s + 1")
    case True
    with assms(2) have "sk_grow (num_alloc s) = Some m" by (auto split: option.splits if_splits)
    from sk_grow_ok [OF this] show ?thesis using assms(1) by (auto simp: stack_ok_def)
  next
    case False
    then have "unat (num s + 1) < unat (num_alloc s)" by (simp only: not_le word_less_nat_alt)
    with False show ?thesis using assms n by (simp add: stack_ok_def)
  qed
qed

lemma sk_insert_Some:
  assumes "stack_ok call_cmp s" "sk_insert mem_ok (Some s) p w = (n, sk')"
  shows "(n = 0 \<and> sk' = Some s) \<or>
    (\<exists>m. length (sk_data s) + 1 < unat m \<and> unat m < 2 ^ 61 \<and> n = of_nat (length (sk_data s) + 1) \<and>
       sk' = Some (s\<lparr>sk_data := take (unat w) (sk_data s) @ p # drop (unat w) (sk_data s),
                     sk_sorted := False, num_alloc := m\<rparr>))"
proof (cases "if num_alloc s \<le> num s + 1 then
       (case sk_grow (num_alloc s) of
          None \<Rightarrow> None
        | Some m \<Rightarrow> if \<not> mem_ok (m * 8) then None else Some m)
     else Some (num_alloc s)")
  case None
  with assms(2) sk_insert_cases [OF assms(1), of mem_ok p w] show ?thesis by (simp only:) simp
next
  case (Some m)
  with assms(2) sk_insert_cases [OF assms(1), of mem_ok p w]
  show ?thesis using sk_insert_alloc [OF assms(1) Some] by (simp only:) auto
qed

lemma sk_insert_room:
  assumes "stack_ok call_cmp s" "length (sk_data s) < 2 ^ 59" "\<And>k. mem_ok k"
  shows "fst (sk_insert mem_ok (Some s) p w) = of_nat (length (sk_data s) + 1)"
proof (cases "num_alloc s \<le> num s + 1")
  case True
  have n: "unat (num s + 1) = length (sk_data s) + 1"
    using unat_num [OF assms(1)] assms(1) by (simp add: unat_word_ariths stack_ok_def)
  with True have a: "unat (num_alloc s) \<le> 2 ^ 59" using assms(2) by (simp add: word_le_nat_alt)
  have p: "unat (push_bit 1 (num_alloc s)) = 2 * unat (num_alloc s)"
    using a by (simp add: push_bit_eq_mult unat_word_ariths)
  have "unat (push_bit 1 (num_alloc s) * 8) = 16 * unat (num_alloc s)"
    using a by (simp only: unat_word_ariths p) simp
  then have "push_bit 1 (num_alloc s) * 8 div 8 = push_bit 1 (num_alloc s)"
    by (simp only: word_nat_lift unat_div p) simp
  moreover have "\<not> push_bit 1 (num_alloc s) < num_alloc s" by (simp only: word_less_nat_alt p not_less)
  ultimately have "sk_grow (num_alloc s) \<noteq> None" by (simp add: sk_grow_def Let_def)
  with True assms(3) sk_insert_cases [OF assms(1), of mem_ok p w] show ?thesis by auto
qed (use sk_insert_cases [OF assms(1), of mem_ok p w] in simp)

lemma sk_delete_eq:
  assumes "stack_ok call_cmp s"
  shows "sk_delete (Some s) w =
    (if length (sk_data s) \<le> unat w then (None, Some s)
     else (sk_data s ! unat w,
           Some (s\<lparr>sk_data := take (unat w) (sk_data s) @ drop (Suc (unat w)) (sk_data s)\<rparr>)))"
proof (cases "length (sk_data s) \<le> unat w")
  case False
  have "w = num s - 1 \<Longrightarrow> unat w = length (sk_data s) - 1"
    using False unat_num [OF assms] by (simp add: unat_sub word_le_nat_alt)
  with False ge_num_iff [OF assms, of w] show ?thesis
    by (auto simp: sk_delete_def Let_def butlast_conv_take)
qed (use ge_num_iff [OF assms, of w] in \<open>simp add: sk_delete_def\<close>)

lemma ascending_drop_one: "ascending cmp (ys @ x # zs) \<Longrightarrow> ascending cmp (ys @ zs)"
  by (simp add: ascending_def sorted_wrt_append)

lemma ascending_delete:
  assumes "ascending cmp xs" shows "ascending cmp (take i xs @ drop (Suc i) xs)"
proof (cases "i < length xs")
  case True
  show ?thesis
    by (rule ascending_drop_one [where x = "xs ! i"]) (use assms in \<open>simp only: id_take_nth_drop [OF True, symmetric]\<close>)
qed (use assms in simp)

text \<open>One call of an operation on a stack, with any pattern of allocation failures.  \<open>sk_set\<close> and
  \<open>sk_deep_copy\<close>, which replace elements where they are, follow below.\<close>

inductive sk_call ::
    "(('a option \<Rightarrow> 'a option \<Rightarrow> int) \<Rightarrow> 'a option list \<Rightarrow> 'a option list) \<Rightarrow>
      ('c \<Rightarrow> 'a option \<Rightarrow> 'a option \<Rightarrow> int) \<Rightarrow> ('a, 'c) stack \<Rightarrow> ('a, 'c) stack \<Rightarrow> bool"
  for qsort call_cmp where
  insert: "sk_insert mem_ok (Some s) p w = (n, Some s') \<Longrightarrow> sk_call qsort call_cmp s s'"
| push: "sk_push mem_ok (Some s) p = (n, Some s') \<Longrightarrow> sk_call qsort call_cmp s s'"
| delete: "sk_delete (Some s) w = (r, Some s') \<Longrightarrow> sk_call qsort call_cmp s s'"
| delete_ptr: "sk_delete_ptr (Some s) p = (r, Some s') \<Longrightarrow> sk_call qsort call_cmp s s'"
| shift: "sk_shift (Some s) = (r, Some s') \<Longrightarrow> sk_call qsort call_cmp s s'"
| pop: "sk_pop (Some s) = (r, Some s') \<Longrightarrow> sk_call qsort call_cmp s s'"
| zero: "sk_zero (Some s) = Some s' \<Longrightarrow> sk_call qsort call_cmp s s'"
| sort: "sk_sort qsort call_cmp (Some s) = Some s' \<Longrightarrow> sk_call qsort call_cmp s s'"
| set_cmp: "sk_set_cmp_func s cf = (old, s') \<Longrightarrow> sk_call qsort call_cmp s s'"
| dup: "sk_dup mem_ok (Some s) = Some s' \<Longrightarrow> sk_call qsort call_cmp s s'"

text \<open>The stacks that calls lead to from a new one.  The flag records whether elements were replaced while
  the stack was marked as sorted, by \<open>sk_set\<close> or by the copies that \<open>sk_deep_copy\<close> makes, and the mark has not
  been cleared since.\<close>

inductive sk_history ::
    "(('a option \<Rightarrow> 'a option \<Rightarrow> int) \<Rightarrow> 'a option list \<Rightarrow> 'a option list) \<Rightarrow>
      ('c \<Rightarrow> 'a option \<Rightarrow> 'a option \<Rightarrow> int) \<Rightarrow> ('a, 'c) stack \<Rightarrow> bool \<Rightarrow> bool"
  for qsort call_cmp where
  new: "sk_new mem_ok cf = Some s \<Longrightarrow> sk_history qsort call_cmp s False"
| call: "sk_history qsort call_cmp s replaced \<Longrightarrow> sk_call qsort call_cmp s s' \<Longrightarrow>
    sk_history qsort call_cmp s' (replaced \<and> sk_is_sorted (Some s'))"
| set: "sk_history qsort call_cmp s replaced \<Longrightarrow> sk_set (Some s) i p = (r, Some s') \<Longrightarrow>
    sk_history qsort call_cmp s' (replaced \<or> (sk_is_sorted (Some s) \<and> i < sk_num (Some s)))"
| deep_copy: "sk_history qsort call_cmp s replaced \<Longrightarrow>
    sk_deep_copy mem_ok (Some s) copy_func free_func (heap :: 'a multiset) = (Some s', heap') \<Longrightarrow>
    sk_history qsort call_cmp s' (replaced \<or> sk_is_sorted (Some s))"

text \<open>The invariant of the array alone: no order is asked for.\<close>

abbreviation shape_ok :: "('a, 'c) stack \<Rightarrow> bool" where
  "shape_ok \<equiv> stack_ok (\<lambda>_ _ _. 0)"

lemma shape_ok_iff:
  "shape_ok s \<longleftrightarrow> length (sk_data s) < unat (num_alloc s) \<and> unat (num_alloc s) < 2 ^ 61 \<and>
     (sk_sorted s \<longrightarrow> sk_comp s \<noteq> None)"
  by (auto simp: stack_ok_def ascending_def sorted_wrt_iff_nth_less split: option.splits)

lemma stack_ok_shape: "stack_ok call_cmp s \<Longrightarrow> shape_ok s"
  unfolding shape_ok_iff by (auto simp: stack_ok_def split: option.splits)

lemma sk_insert_ok: "stack_ok call_cmp s \<Longrightarrow> sk_insert mem_ok (Some s) p w = (n, Some s') \<Longrightarrow> stack_ok call_cmp s'"
  by (frule (1) sk_insert_Some) (auto simp: stack_ok_def)

lemma sk_delete_ok: "stack_ok call_cmp s \<Longrightarrow> sk_delete (Some s) w = (r, Some s') \<Longrightarrow> stack_ok call_cmp s'"
  unfolding sk_delete_eq
  by (auto simp: stack_ok_def ascending_delete split: if_splits option.splits)

lemma sk_sort_ok:
  assumes "qsort_spec qsort" "\<forall>c. comparator (call_cmp c)" "stack_ok call_cmp s"
    "sk_sort qsort call_cmp (Some s) = Some s'"
  shows "stack_ok call_cmp s'"
proof (cases "sk_comp s")
  case (Some c)
  let ?q = "qsort (call_cmp c) (sk_data s)"
  from assms(1,2) have q: "mset ?q = mset (sk_data s)" "ascending (call_cmp c) ?q"
    by (simp_all add: qsort_spec_def)
  have "length ?q = length (sk_data s)" using q(1) by (rule mset_eq_length)
  moreover have "ascending (call_cmp c) (sk_data s)" if "num s < 2"
  proof -
    have "length (sk_data s) < 2" using that unat_num [OF assms(3)] by (simp add: word_less_nat_alt)
    then show ?thesis by (cases "sk_data s") (auto simp: ascending_def)
  qed
  ultimately show ?thesis using assms(3,4) Some q
    by (auto simp: sk_sort_def stack_ok_def Let_def split: if_splits)
qed (use assms(3,4) in \<open>auto simp: sk_sort_def\<close>)

lemma sk_dup_Some:
  assumes "sk_dup mem_ok (Some (s :: ('a, 'c) stack)) = Some s'" shows "s' = s"
proof -
  have eq: "ret\<lparr>sk_data := sk_data s, sk_sorted := sk_sorted s, num_alloc := num_alloc s, sk_comp := sk_comp s\<rparr> = s"
    for ret by (rule stack.equality) simp_all
  show ?thesis
    by (cases "sk_new mem_ok (sk_comp s) :: ('a, 'c) sk_ptr")
      (use assms in \<open>simp_all add: sk_dup_def eq split: if_splits\<close>)
qed

lemma sk_zero_ok: "stack_ok call_cmp s \<Longrightarrow> sk_zero (Some s) = Some s' \<Longrightarrow> stack_ok call_cmp s'"
  by (auto simp: sk_zero_def stack_ok_def split: if_splits)

lemma sk_set_cmp_func_ok:
  "stack_ok call_cmp s \<Longrightarrow> sk_set_cmp_func s cf = (old, s') \<Longrightarrow> stack_ok call_cmp s'"
  by (auto simp: sk_set_cmp_func_def stack_ok_def Let_def split: if_splits option.splits)

lemma sk_call_ok:
  assumes ok: "stack_ok cmp s" and "\<And>s'. sk_sort qsort call_cmp (Some s) = Some s' \<Longrightarrow> stack_ok cmp s'"
    and "sk_call qsort call_cmp s s'"
  shows "stack_ok cmp s'"
  using assms(3)
proof (cases rule: sk_call.cases)
  case (delete_ptr p r)
  then show ?thesis using ok sk_delete_ok [OF ok]
    by (auto simp: sk_delete_ptr_def split: option.splits)
next
  case (shift r)
  then show ?thesis using ok sk_delete_ok [OF ok] by (auto simp: sk_shift_def split: if_splits)
next
  case (pop r)
  then show ?thesis using ok sk_delete_ok [OF ok] by (auto simp: sk_pop_def split: if_splits)
next
  case (dup)
  then have "s' = s" by (rule sk_dup_Some)
  with ok show ?thesis by simp
next
  case (insert mem_ok p w n)
  with ok show ?thesis using sk_insert_ok by blast
next
  case (push mem_ok p n)
  then show ?thesis unfolding sk_push_def by (rule sk_insert_ok [OF ok])
next
  case (delete w r)
  with ok show ?thesis by (rule sk_delete_ok)
next
  case (zero)
  with ok show ?thesis by (rule sk_zero_ok)
next
  case (sort)
  then show ?thesis by (rule assms(2))
next
  case (set_cmp cf old)
  with ok show ?thesis by (rule sk_set_cmp_func_ok)
qed

lemma sk_sort_shape:
  assumes "qsort_spec qsort" "\<forall>c. comparator (call_cmp c)" "shape_ok s" "sk_sort qsort call_cmp (Some s) = Some s'"
  shows "shape_ok s'"
proof -
  have "length (qsort (call_cmp c) xs) = length xs" for c xs
    using assms(1,2) by (intro mset_eq_length) (simp add: qsort_spec_def)
  with assms(3,4) show ?thesis
    by (auto simp: shape_ok_iff sk_sort_def Let_def split: if_splits option.splits)
qed

lemma sk_set_shape: "shape_ok s \<Longrightarrow> sk_set (Some s) i p = (r, Some s') \<Longrightarrow> shape_ok s'"
  by (auto simp: sk_set_def shape_ok_iff split: if_splits)

lemma sk_set_sorted: "sk_set (Some s) i p = (r, Some s') \<Longrightarrow> sk_sorted s' = sk_sorted s"
  by (auto simp: sk_set_def split: if_splits)

lemma sk_set_ok:
  "stack_ok call_cmp s \<Longrightarrow> \<not> (sk_is_sorted (Some s) \<and> i < sk_num (Some s)) \<Longrightarrow>
    sk_set (Some s) i p = (r, Some s') \<Longrightarrow> stack_ok call_cmp s'"
  by (auto simp: sk_set_def sk_is_sorted_def sk_num_def stack_ok_def split: if_splits)

lemma copy_loop_length:
  "copy_loop copy_func free_func copied ps st = (Some qs, st') \<Longrightarrow> length qs = length copied + length ps"
  by (induction copy_func free_func copied ps st rule: copy_loop.induct)
    (auto split: prod.splits option.splits)

lemma sk_deep_copy_Some:
  assumes "sk_deep_copy mem_ok (Some s) copy_func free_func st = (Some s', st')"
  shows "\<exists>ps. s' = s\<lparr>sk_data := ps\<rparr> \<and> length ps = length (sk_data s)"
proof -
  from assms obtain ret where ret: "sk_dup mem_ok (Some s) = Some ret"
    by (auto simp: sk_deep_copy_def split: option.splits)
  with sk_dup_Some have "ret = s" by blast
  with assms ret obtain ps where ps: "copy_loop copy_func free_func [] (sk_data s) st = (Some ps, st')"
    "s' = s\<lparr>sk_data := ps\<rparr>"
    by (auto simp: sk_deep_copy_def split: option.splits prod.splits)
  from copy_loop_length [OF ps(1)] ps(2) show ?thesis by auto
qed

lemma sk_history_ok:
  assumes q: "qsort_spec qsort" "\<forall>c. comparator (call_cmp c)" and "sk_history qsort call_cmp s replaced"
  shows "shape_ok s \<and> (replaced \<longrightarrow> sk_sorted s) \<and> (\<not> replaced \<longrightarrow> stack_ok call_cmp s)"
  using assms(3)
proof induction
  case (new mem_ok cf s)
  then have "stack_ok call_cmp s" by (rule sk_new_ok)
  with stack_ok_shape show ?case by blast
next
  case (call s replaced s')
  then have sh: "shape_ok s'" using sk_call_ok [OF _ _ call.hyps(2)] sk_sort_shape [OF q] by blast
  have "stack_ok call_cmp s'" if "\<not> replaced"
    using that call sk_call_ok [OF _ _ call.hyps(2)] sk_sort_ok [OF q] by blast
  moreover have "stack_ok call_cmp s'" if "\<not> sk_sorted s'"
    using that sh by (simp add: stack_ok_def)
  ultimately show ?case using sh by (auto simp: sk_is_sorted_def)
next
  case (set s replaced i p r s')
  then show ?case using sk_set_shape [OF _ set.hyps(2)] sk_set_sorted [OF set.hyps(2)] sk_set_ok [OF _ _ set.hyps(2)]
    by (auto simp: sk_is_sorted_def)
next
  case (deep_copy s replaced mem_ok copy_func free_func heap s' heap')
  from sk_deep_copy_Some [OF deep_copy.hyps(2)] obtain ps where
    s': "s' = s\<lparr>sk_data := ps\<rparr>" "length ps = length (sk_data s)" by blast
  with deep_copy.IH show ?case by (auto simp: shape_ok_iff stack_ok_def sk_is_sorted_def)
qed

section \<open>What the operations do\<close>

text \<open>When an element matches the key of \<open>sk_find\<close>: it is the same pointer, or it compares as equal
  when the stack has a comparison function; then a \<open>NULL\<close> key matches nothing.\<close>

definition matches ::
    "('c \<Rightarrow> 'a option \<Rightarrow> 'a option \<Rightarrow> int) \<Rightarrow> ('a, 'c) stack \<Rightarrow> 'a option \<Rightarrow> 'a option \<Rightarrow> bool" where
  "matches call_cmp s p q =
     (case sk_comp s of None \<Rightarrow> q = p | Some c \<Rightarrow> p \<noteq> None \<and> call_cmp c p q = 0)"

lemma sk_find_eq:
  assumes "stack_ok call_cmp s" "\<forall>c. comparator (call_cmp c)"
  shows "sk_find call_cmp (Some s) p = map_option of_nat (first_index (matches call_cmp s p) (sk_data s))"
proof (cases "sk_comp s")
  case None
  then have "matches call_cmp s p = (\<lambda>q. q = p)" by (simp add: matches_def fun_eq_iff)
  with None show ?thesis by (simp add: sk_find_def)
next
  case (Some c)
  have n: "unat (num s) = length (sk_data s)" by (rule unat_num [OF assms(1)])
  show ?thesis
  proof (cases p)
    case None
    then have "matches call_cmp s p = (\<lambda>_. False)" using Some by (simp add: matches_def fun_eq_iff)
    then show ?thesis using Some None by (simp add: sk_find_def first_index_False)
  next
    case p: (Some x)
    then have m: "matches call_cmp s p = (\<lambda>q. call_cmp c p q = 0)" using Some by (simp add: matches_def fun_eq_iff)
    show ?thesis
    proof (cases "sk_sorted s")
      case True
      then have "ascending (call_cmp c) (sk_data s)" using assms(1) Some by (simp add: stack_ok_def)
      then have "signs_fall (call_cmp c p) (sk_data s)" 
        using assms(2) by (intro comparator.ascending_signs_fall) simp_all
      then have "find_loop (call_cmp c p) (sk_data s) 0 (num s) = map_option of_nat (first_index (\<lambda>x. call_cmp c p x = 0) (sk_data s))"
        by (rule find_loop_first) (simp add: n in_range_all)
      with True Some p m show ?thesis by (simp add: sk_find_def sk_is_sorted_def)
    next
      case False
      with Some p m show ?thesis by (simp add: sk_find_def sk_is_sorted_def)
    qed
  qed
qed

text \<open>Whatever the order of the elements, an index that is found is one of a match.\<close>

lemma sk_find_sound:
  assumes "shape_ok s" "sk_find call_cmp (Some s) p = Some i"
  shows "unat i < length (sk_data s) \<and> matches call_cmp s p (sk_data s ! unat i)"
proof -
  have n: "unat (num s) = length (sk_data s)" by (rule unat_num [OF assms(1)])
  have first: "unat i < length (sk_data s) \<and> P (sk_data s ! unat i)"
    if "map_option of_nat (first_index P (sk_data s)) = Some i" for P
  proof -
    from that obtain k where k: "first_index P (sk_data s) = Some k" "i = of_nat k" by auto
    then have l: "k < length (sk_data s)" "P (sk_data s ! k)" by (simp_all add: first_index_Some)
    have "length (sk_data s) < 2 ^ 64" using assms(1) by (simp add: stack_ok_def)
    with l(1) have "unat i = k" unfolding k(2) by (simp only: unat_of_nat) simp
    with l show ?thesis by simp
  qed
  show ?thesis
  proof (cases "sk_comp s")
    case None
    with assms(2) have "map_option of_nat (first_index (\<lambda>q. q = p) (sk_data s)) = Some i" by (simp add: sk_find_def)
    from first [OF this] None show ?thesis by (simp add: matches_def)
  next
    case (Some c)
    with assms(2) have "p \<noteq> None" by (auto simp: sk_find_def split: if_splits)
    moreover from this assms(2) Some consider
      "map_option of_nat (first_index (\<lambda>elem. call_cmp c p elem = 0) (sk_data s)) = Some i"
      | "find_loop (\<lambda>elem. call_cmp c p elem) (sk_data s) 0 (num s) = Some i"
      by (auto simp: sk_find_def split: if_splits)
    then have "unat i < length (sk_data s) \<and> call_cmp c p (sk_data s ! unat i) = 0"
    proof cases
      case 1
      from first [OF 1] show ?thesis by blast
    next
      case 2
      from find_loop_sound [OF 2] n show ?thesis by simp
    qed
    ultimately show ?thesis using Some by (simp add: matches_def)
  qed
qed

text \<open>Copying with a heap of live objects: \<open>alloc\<close> says what a copy returns in a heap.\<close>

definition heap_copy :: "('a multiset \<Rightarrow> 'a \<Rightarrow> 'a option) \<Rightarrow> 'a \<Rightarrow> 'a multiset \<Rightarrow> 'a option \<times> 'a multiset" where
  "heap_copy alloc x h = (case alloc h x of None \<Rightarrow> (None, h) | Some y \<Rightarrow> (Some y, add_mset y h))"

definition heap_free :: "'a \<Rightarrow> 'a multiset \<Rightarrow> 'a multiset" where
  "heap_free x h = h - {#x#}"

text \<open>The objects that a list of pointers refers to.\<close>

definition objects :: "'a option list \<Rightarrow> 'a multiset" where
  "objects ps = mset (map the (filter (\<lambda>p. p \<noteq> None) ps))"

lemma objects_simps [simp]:
  "objects [] = {#}" "objects (None # ps) = objects ps" "objects (Some x # ps) = add_mset x (objects ps)"
  "objects (ps @ qs) = objects ps + objects qs"
  by (simp_all add: objects_def)

lemma free_all_objects: "free_all heap_free ps h = h - objects ps"
proof (induction ps arbitrary: h)
  case (Cons p ps)
  then show ?case by (cases p) (simp_all add: free_all_def heap_free_def)
qed (simp add: free_all_def)

lemma copy_loop_heap:
  "copy_loop (heap_copy alloc) heap_free copied ps (h + objects copied) = (r, h') \<Longrightarrow>
    (case r of
       None \<Rightarrow> h' = h
     | Some qs \<Rightarrow> h' = h + objects qs \<and> length qs = length copied + length ps \<and>
         map (\<lambda>q. q = None) qs = map (\<lambda>q. q = None) (copied @ ps))"
proof (induction ps arbitrary: copied)
  case (Cons p ps)
  show ?case
  proof (cases p)
    case None
    with Cons.prems Cons.IH [of "copied @ [None]"] show ?thesis by (auto split: option.splits)
  next
    case (Some x)
    show ?thesis
    proof (cases "alloc (h + objects copied) x")
      case None
      with Cons.prems Some show ?thesis by (auto simp: heap_copy_def free_all_objects)
    next
      case (Some y)
      with Cons.prems Cons.IH [of "copied @ [Some y]"] \<open>p = Some x\<close>
      show ?thesis by (auto simp: heap_copy_def split: option.splits)
    qed
  qed
qed auto

section \<open>SET OF\<close>

definition is_element :: "cbs \<Rightarrow> bool" where
  "is_element e \<longleftrightarrow> (case CBS_get_any_asn1_element e of (Some _, []) \<Rightarrow> True | _ \<Rightarrow> False)"

lemma any_element_split:
  assumes "CBS_get_any_asn1_element cbs = (Some (out, tag, hl), r)"
  shows "cbs = out @ r \<and> is_element out"
proof -
  from assms have "cbs = out @ r" by (auto simp: CBS_get_any_asn1_element_iff)
  moreover from assms have "CBS_get_any_asn1_element out = (Some (out, tag, hl), [])"
    by (auto simp: CBS_get_any_asn1_element_iff)
  ultimately show ?thesis by (simp add: is_element_def)
qed

lemma get_elements_all:
  "count_elements cbs = Some n \<Longrightarrow>
    \<exists>es. get_elements n cbs = Some es \<and> concat es = cbs \<and> length es = n \<and> (\<forall>e \<in> set es. is_element e)"
proof (induction n arbitrary: cbs)
  case 0
  then show ?case
    by (auto simp: count_elements.simps [of cbs] CBS_len_def split: if_splits option.splits prod.splits)
next
  case (Suc n)
  then obtain out tag hl r where e: "CBS_get_any_asn1_element cbs = (Some (out, tag, hl), r)"
    "count_elements r = Some n"
    by (auto simp: count_elements.simps [of cbs] split: if_splits option.splits prod.splits)
  from Suc.IH [OF e(2)] e(1) any_element_split [OF e(1)] show ?case by auto
qed

lemma chain_ok_innermost:
  "chain_ok lo (cs @ [c]) hi \<Longrightarrow> unat (offset c) + unat (pending_len_len c) \<le> hi \<and>
     chain_ok lo (cs @ [c]) (unat (offset c) + unat (pending_len_len c))"
  by (auto simp: chain_ok_append)

lemma start_of_ok:
  assumes "ready d s" "base s = Some b"
  shows "unat (start_of d s) \<le> length (buf b) \<and> chain_ok 0 (chain s) (unat (start_of d s))"
proof (cases d)
  case 0
  with assms show ?thesis by (simp add: start_of_def ready_iff)
next
  case (Suc e)
  then have ch: "chain s = butlast (chain s) @ [chain s ! e]"
    using assms(1) by (cases "chain s" rule: rev_cases) (auto simp: ready_iff)
  have ok: "buf_ok b" "chain_ok 0 (chain s) (length (buf b))" using assms by (auto simp: ready_iff cbb_ok_def)
  from chain_ok_innermost [of 0 "butlast (chain s)" "chain s ! e" "length (buf b)"] ok(2) ch
  have in': "unat (offset (chain s ! e)) + unat (pending_len_len (chain s ! e)) \<le> length (buf b)"
    "chain_ok 0 (chain s) (unat (offset (chain s ! e)) + unat (pending_len_len (chain s ! e)))" by simp_all
  with buf_ok_len [OF ok(1)]
  have "unat (start_of d s) = unat (offset (chain s ! e)) + unat (pending_len_len (chain s ! e))"
    by (simp add: start_of_def Suc unat_word_ariths)
  with in' show ?thesis by simp
qed

lemma appends_elements:
  "(\<And>c. c \<in> set cs \<Longrightarrow> length c < 2 ^ 64) \<Longrightarrow>
    appends d (all_ok (map (\<lambda>c. CBB_add_bytes mem_ok d (CBS_data c) (of_nat (CBS_len c))) cs)) (concat cs)"
proof (rule appends_all_ok, unfold list_all2_map1, rule list.rel_refl_strong)
  fix c assume "\<And>c. c \<in> set cs \<Longrightarrow> length c < 2 ^ 64" "c \<in> set cs"
  then have "unat (of_nat (CBS_len c) :: u64) = length (CBS_data c)"
    unfolding CBS_len_def CBS_data_def by (simp only: unat_of_nat) simp
  with appends_bytes [of "of_nat (CBS_len c)" "CBS_data c" d mem_ok]
  show "appends d (CBB_add_bytes mem_ok d (CBS_data c) (of_nat (CBS_len c))) c" by (simp add: CBS_data_def)
qed

lemma set_of_written:
  assumes "CBB_flush_asn1_set_of qsort mem_ok d s = (True, s')" "cbb_ok s" "qsort_spec qsort"
    "CBB_flush mem_ok d s = (True, t)"
  shows "\<exists>es es'. CBB_data d t = concat es \<and> (\<forall>e \<in> set es. is_element e) \<and>
    mset es' = mset es \<and> sorted es' \<and> ready d s' \<and>
    cbb_out s' = take (unat (start_of d t)) (cbb_out t) @ concat es'"
proof -
  have rt: "ready d t" using CBB_flush_ok [OF assms(4,2)] by blast
  then obtain b where b: "base t = Some b" "buf_ok b" using ready_buf_ok by (auto simp: ready_iff cbb_ok_def)
  have out: "cbb_out t = buf b" "CBB_data d t = drop (unat (start_of d t)) (buf b)"
    using b(1) by (simp_all add: cbb_out_def CBB_data_def)
  from assms(1,4) obtain n where n: "count_elements (CBB_data d t) = Some n"
    by (auto simp: CBB_flush_asn1_set_of_def split: option.splits)
  from get_elements_all [OF this] obtain es where
    es: "get_elements n (CBB_data d t) = Some es" "concat es = CBB_data d t" "length es = n" "\<forall>e \<in> set es. is_element e"
    by blast
  show ?thesis
  proof (cases "n < 2")
    case True
    with assms(1,4) n have "s' = t" by (simp add: CBB_flush_asn1_set_of_def)
    moreover have "sorted es"
      using True es(3) by (cases es) auto
    ultimately show ?thesis using es rt out by (intro exI [of _ es]) simp
  next
    case False
    let ?q = "qsort compare_set_of_element es"
    let ?t = "t\<lparr>base := Some (b\<lparr>buf := take (unat (start_of d t)) (buf b)\<rparr>)\<rparr>"
    have q: "mset ?q = mset es" "sorted ?q"
      using assms(3) set_of.comparator_axioms by (simp_all add: qsort_spec_def flip: ascending_set_of)
    have w: "all_ok (map (\<lambda>c. CBB_add_bytes mem_ok d (CBS_data c) (of_nat (CBS_len c))) ?q) ?t = (True, s')"
      using assms(1,4) n es(1) False b(1) by (simp add: CBB_flush_asn1_set_of_def Let_def split: if_splits)
    note st = start_of_ok [OF rt b(1)]
    have "ready d ?t"
      using rt b st by (auto simp: ready_iff cbb_ok_def buf_ok_def min_def)
    moreover have "length c < 2 ^ 64" if "c \<in> set ?q" for c
    proof -
      have "c \<in> set es" using that q(1) by (metis set_mset_mset)
      then have "length c \<le> length (concat es)" by (simp add: member_le_sum_list length_concat)
      also have "\<dots> \<le> length (buf b)" using es(2) out(2) by simp
      finally show ?thesis using buf_ok_len [OF b(2)] by simp
    qed
    ultimately have "ready d s' \<and> cbb_out s' = cbb_out ?t @ concat ?q"
      using appendsD [OF appends_elements _ w] by blast
    then show ?thesis using es q out by (intro exI [of _ es] exI [of _ ?q]) (simp add: cbb_out_def)
  qed
qed

section \<open>Properties\<close>

text \<open>C28: Every stack that calls lead to from a new one, with allocations failing at any point, has room
  for the next pointer in its array.  Unless elements were replaced in place while it was marked as sorted, it
  is in the order of its comparison function when it is marked as sorted, and \<open>sk_find\<close> returns the first
  matching index: the binary search and the linear search agree.  An index that \<open>sk_find\<close> returns is always
  that of a match inside the array, also after such a replacement.\<close>

theorem sk_find_correct:
  assumes "qsort_spec qsort" "\<forall>c. comparator (call_cmp c)" "sk_history qsort call_cmp s replaced"
  shows "length (sk_data s) < unat (num_alloc s) \<and> unat (num_alloc s) < 2 ^ 61 \<and>
    (replaced \<longrightarrow> sk_sorted s) \<and>
    (\<not> replaced \<longrightarrow>
      (sk_sorted s \<longrightarrow> (\<exists>c. sk_comp s = Some c \<and> ascending (call_cmp c) (sk_data s))) \<and>
      sk_find call_cmp (Some s) p = map_option of_nat (first_index (matches call_cmp s p) (sk_data s))) \<and>
    (\<forall>i. sk_find call_cmp (Some s) p = Some i \<longrightarrow>
      unat i < length (sk_data s) \<and> matches call_cmp s p (sk_data s ! unat i))"
proof (intro conjI impI allI)
  from sk_history_ok [OF assms] have o: "shape_ok s" "replaced \<Longrightarrow> sk_sorted s" "\<not> replaced \<Longrightarrow> stack_ok call_cmp s"
    by blast+
  show "length (sk_data s) < unat (num_alloc s)" "unat (num_alloc s) < 2 ^ 61" using o(1) by (simp_all add: shape_ok_iff)
  show "sk_sorted s" if replaced by (rule o(2) [OF that])
  show "\<exists>c. sk_comp s = Some c \<and> ascending (call_cmp c) (sk_data s)" if "\<not> replaced" "sk_sorted s"
    using o(3) [OF that(1)] that(2) by (cases "sk_comp s") (simp_all add: stack_ok_def)
  show "sk_find call_cmp (Some s) p = map_option of_nat (first_index (matches call_cmp s p) (sk_data s))" if "\<not> replaced"
    by (rule sk_find_eq [OF o(3) [OF that] assms(2)])
  show "unat i < length (sk_data s)" "matches call_cmp s p (sk_data s ! unat i)"
    if "sk_find call_cmp (Some s) p = Some i" for i using sk_find_sound [OF o(1) that] by blast+
qed

text \<open>The comparison of pointers to byte strings, \<open>NULL\<close> first.\<close>

definition cmp_bytes_ptr :: "unit \<Rightarrow> bytes option \<Rightarrow> bytes option \<Rightarrow> int" where
  "cmp_bytes_ptr _ p q =
     (case (p, q) of
        (None, None) \<Rightarrow> 0 | (None, Some _) \<Rightarrow> -1 | (Some _, None) \<Rightarrow> 1
      | (Some a, Some b) \<Rightarrow> compare_set_of_element a b)"

interpretation bytes_ptr: comparator "cmp_bytes_ptr c"
proof
  show "sgn (cmp_bytes_ptr c y x) = - sgn (cmp_bytes_ptr c x y)" for x y
    by (cases x; cases y) (simp_all add: cmp_bytes_ptr_def, rule set_of.cmp_sym)
  show "cmp_bytes_ptr c x z \<le> 0" if "cmp_bytes_ptr c x y \<le> 0" "cmp_bytes_ptr c y z \<le> 0" for x y z
    using that by (cases x; cases y; cases z) (simp_all add: cmp_bytes_ptr_def, rule set_of.cmp_trans)
qed

definition sample_stack :: "(bytes, unit) stack" where
  "sample_stack = \<lparr>sk_data = [Some [1], Some [2, 3]], sk_sorted = False, num_alloc = 4, sk_comp = Some ()\<rparr>"

text \<open>After two insertions and a call of \<open>sk_sort\<close>.\<close>

definition sorted_stack :: "(bytes, unit) stack" where
  "sorted_stack = sample_stack\<lparr>sk_sorted := True\<rparr>"

lemma sorted_stack_history: "sk_history insertion_sort cmp_bytes_ptr sorted_stack False"
proof -
  let ?s0 = "\<lparr>sk_data = [], sk_sorted = False, num_alloc = 4, sk_comp = Some ()\<rparr> :: (bytes, unit) stack"
  let ?s1 = "?s0\<lparr>sk_data := [Some [2, 3]]\<rparr>" and ?s2 = "?s0\<lparr>sk_data := [Some [2, 3], Some [1]]\<rparr>"
  have "sk_new (\<lambda>_. True) (Some ()) = Some ?s0" by (simp add: sk_new_def kMinSize_def)
  then have r0: "sk_history insertion_sort cmp_bytes_ptr ?s0 False" by (rule sk_history.new)
  have "sk_push (\<lambda>_. True) (Some ?s0) (Some [2, 3]) = (1, Some ?s1)" by code_simp
  from sk_history.call [OF r0 sk_call.push [OF this]]
  have r1: "sk_history insertion_sort cmp_bytes_ptr ?s1 False" by simp
  have "sk_push (\<lambda>_. True) (Some ?s1) (Some [1]) = (2, Some ?s2)" by code_simp
  from sk_history.call [OF r1 sk_call.push [OF this]]
  have r2: "sk_history insertion_sort cmp_bytes_ptr ?s2 False" by simp
  have "sk_sort insertion_sort cmp_bytes_ptr (Some ?s2) = Some sorted_stack" by code_simp
  from sk_history.call [OF r2 sk_call.sort [OF this]] show ?thesis by simp
qed

theorem sk_find_correct_witness:
  "sk_find cmp_bytes_ptr (Some sorted_stack) (Some [2, 3]) =
      map_option of_nat (first_index (matches cmp_bytes_ptr sorted_stack (Some [2, 3])) (sk_data sorted_stack)) \<and>
    sk_sorted sorted_stack \<and> sk_data sorted_stack = [Some [1], Some [2, 3]]"
proof -
  have "\<forall>c. comparator (cmp_bytes_ptr c)" using bytes_ptr.comparator_axioms by blast
  from sk_find_correct [OF qsort_spec_insertion_sort this sorted_stack_history]
  show ?thesis by (simp add: sorted_stack_def sample_stack_def)
qed

text \<open>An insertion either fails and leaves the stack alone, or puts the pointer at the index asked
  for, at the end when that is past it, shifts the later ones up and returns the new length; it
  succeeds when memory does, and deleting at that index undoes it.\<close>

theorem sk_insert_delete:
  assumes "stack_ok call_cmp s" "sk_insert mem_ok (Some s) p w = (n, sk')"
  shows "(n = 0 \<and> sk' = Some s \<and> ((\<forall>k. mem_ok k) \<longrightarrow> length (sk_data s) \<ge> 2 ^ 59)) \<or>
    (\<exists>s'. sk' = Some s' \<and> stack_ok call_cmp s' \<and> \<not> sk_sorted s' \<and> sk_comp s' = sk_comp s \<and>
       sk_data s' = take (unat w) (sk_data s) @ p # drop (unat w) (sk_data s) \<and>
       unat n = length (sk_data s') \<and>
       (unat w \<le> length (sk_data s) \<longrightarrow>
          (case sk_delete sk' w of
             (q, Some s'') \<Rightarrow> q = p \<and> sk_data s'' = sk_data s
           | _ \<Rightarrow> False)))"
  using sk_insert_Some [OF assms]
proof (elim disjE exE conjE)
  assume "n = 0" "sk' = Some s"
  moreover have "(of_nat (length (sk_data s) + 1) :: u64) \<noteq> 0" if "length (sk_data s) < 2 ^ 59"
    using that by (simp only: word_nat_lift unat_of_nat) simp
  ultimately show ?thesis using sk_insert_room [OF assms(1), of mem_ok p w] assms(2)
    by (metis fst_conv not_le)
next
  fix m :: u64
  assume m: "length (sk_data s) + 1 < unat m" "unat m < 2 ^ 61" "n = of_nat (length (sk_data s) + 1)"
  let ?s = "s\<lparr>sk_data := take (unat w) (sk_data s) @ p # drop (unat w) (sk_data s), sk_sorted := False, num_alloc := m\<rparr>"
  assume sk': "sk' = Some ?s"
  have ok: "stack_ok call_cmp ?s" using m(1,2) by (simp add: stack_ok_def)
  have "unat n = length (sk_data s) + 1" unfolding m(3) unat_of_nat using m(1,2) by simp
  moreover have "case sk_delete sk' w of (q, Some s'') \<Rightarrow> q = p \<and> sk_data s'' = sk_data s | _ \<Rightarrow> False"
    if "unat w \<le> length (sk_data s)"
    using that unfolding sk' sk_delete_eq [OF ok] by (simp add: nth_append)
  ultimately show ?thesis using ok sk' by auto
qed


theorem sk_insert_delete_witness:
  "(case sk_insert (\<lambda>_. True) (Some sample_stack) (Some [9]) 1 of
      (n, sk') \<Rightarrow> (n = 0 \<and> sk' = Some sample_stack \<and>
          ((\<forall>k :: u64. True) \<longrightarrow> length (sk_data sample_stack) \<ge> 2 ^ 59)) \<or>
        (\<exists>s'. sk' = Some s' \<and> stack_ok cmp_bytes_ptr s' \<and> \<not> sk_sorted s' \<and> sk_comp s' = sk_comp sample_stack \<and>
           sk_data s' = take (unat (1 :: u64)) (sk_data sample_stack) @ Some [9] # drop (unat (1 :: u64)) (sk_data sample_stack) \<and>
           unat n = length (sk_data s') \<and>
           (unat (1 :: u64) \<le> length (sk_data sample_stack) \<longrightarrow>
              (case sk_delete sk' 1 of
                 (q, Some s'') \<Rightarrow> q = Some [9] \<and> sk_data s'' = sk_data sample_stack
               | _ \<Rightarrow> False))))"
proof (cases "sk_insert (\<lambda>_. True) (Some sample_stack) (Some [9]) 1")
  case (Pair n sk')
  have "stack_ok cmp_bytes_ptr sample_stack" by (simp add: stack_ok_def sample_stack_def)
  from sk_insert_delete [OF this Pair] show ?thesis unfolding Pair by (simp only: case_prod_conv)
qed

text \<open>C30: a deep copy that fails has freed exactly the copies that it made, so that the heap is as before;
  one that succeeds added exactly the objects of the copy, with a \<open>NULL\<close> where the original has one.\<close>

theorem sk_deep_copy_no_leak:
  "case sk_deep_copy mem_ok sk (heap_copy alloc) heap_free h of
     (None, h') \<Rightarrow> h' = h
   | (Some ret, h') \<Rightarrow>
       h' = h + objects (sk_data ret) \<and>
       (\<exists>s. sk = Some s \<and> ret = s\<lparr>sk_data := sk_data ret\<rparr> \<and>
          map (\<lambda>q. q = None) (sk_data ret) = map (\<lambda>q. q = None) (sk_data s))"
proof (cases "sk_dup mem_ok sk")
  case None
  then show ?thesis by (simp add: sk_deep_copy_def)
next
  case (Some ret)
  then obtain s where s: "sk = Some s" by (cases sk) (auto simp: sk_dup_def)
  with Some have "ret = s" using sk_dup_Some by blast
  obtain r h' where c: "copy_loop (heap_copy alloc) heap_free [] (sk_data s) h = (r, h')"
    by (cases "copy_loop (heap_copy alloc) heap_free [] (sk_data s) h")
  have "copy_loop (heap_copy alloc) heap_free [] (sk_data s) (h + objects []) = (r, h')" using c by simp
  from copy_loop_heap [OF this] c Some \<open>ret = s\<close> s show ?thesis
    by (cases r) (simp_all add: sk_deep_copy_def)
qed

text \<open>\<open>sk_set\<close> does not clear the mark of a sorted stack: after it the stack's promise is broken, and
  \<open>sk_find\<close> misses an element that is there.\<close>

theorem sk_set_breaks_sorted:
  "let s = \<lparr>sk_data = [Some [1], Some [2], Some [3]], sk_sorted = True, num_alloc = 4, sk_comp = Some ()\<rparr>
   in stack_ok cmp_bytes_ptr s \<and>
     (case sk_set (Some s) 0 (Some [5]) of
        (_, Some s') \<Rightarrow> sk_sorted s' \<and> \<not> stack_ok cmp_bytes_ptr s' \<and> Some [5] \<in> set (sk_data s') \<and>
          sk_find cmp_bytes_ptr (Some s') (Some [5]) = None
      | _ \<Rightarrow> False)"
  unfolding Let_def
  by (simp add: stack_ok_def sk_set_def num_def ascending_def cmp_bytes_ptr_def memcmp_sign_lex
    sk_find_def sk_is_sorted_def find_loop.simps)

text \<open>C29: a \<open>SET OF\<close> that \<open>CBB_flush_asn1_set_of\<close> accepts holds whole DER elements, and the call puts
  exactly these elements behind what the builder held before, sorted in the lexicographic order of their bytes
  (\<open>\<le>\<close> on lists, a proper prefix first), as DER asks for.\<close>

theorem CBB_flush_asn1_set_of_sorts:
  assumes "CBB_flush_asn1_set_of qsort mem_ok d s = (True, s')" "cbb_ok s" "qsort_spec qsort"
  shows "\<exists>t es es'. CBB_flush mem_ok d s = (True, t) \<and> CBB_data d t = concat es \<and>
    (\<forall>e \<in> set es. is_element e) \<and> mset es' = mset es \<and> sorted es' \<and>
    ready d s' \<and> cbb_out s' = take (unat (start_of d t)) (cbb_out t) @ concat es'"
proof -
  obtain t where t: "CBB_flush mem_ok d s = (True, t)"
    using assms(1) by (cases "CBB_flush mem_ok d s") (auto simp: CBB_flush_asn1_set_of_def split: bool.splits)
  from set_of_written [OF assms(1,2,3) t] t show ?thesis by blast
qed

definition set_of_cbb :: cbb where
  "set_of_cbb = snd (CBB_add_bytes (\<lambda>_. True) 0 [2, 1, 5, 1, 1, 0, 2, 1, 3] 9 fresh_cbb)"

theorem CBB_flush_asn1_set_of_sorts_witness:
  "\<exists>t es es'. CBB_flush (\<lambda>_. True) 0 set_of_cbb = (True, t) \<and> CBB_data 0 t = concat es \<and>
    (\<forall>e \<in> set es. is_element e) \<and> mset es' = mset es \<and> sorted es' \<and>
    ready 0 (snd (CBB_flush_asn1_set_of insertion_sort (\<lambda>_. True) 0 set_of_cbb)) \<and>
    cbb_out (snd (CBB_flush_asn1_set_of insertion_sort (\<lambda>_. True) 0 set_of_cbb)) =
      take (unat (start_of 0 t)) (cbb_out t) @ concat es'"
proof (rule CBB_flush_asn1_set_of_sorts [OF _ _ qsort_spec_insertion_sort])
  show "cbb_ok set_of_cbb" by code_simp
  have "ready 0 set_of_cbb" by code_simp
  moreover have "count_elements (CBB_data 0 set_of_cbb) = Some 3" by code_simp
  moreover have "get_elements 3 (CBB_data 0 set_of_cbb) = Some [[2, 1, 5], [1, 1, 0], [2, 1, 3]]" by code_simp
  moreover have "insertion_sort compare_set_of_element [[2, 1, 5], [1, 1, 0], [2, 1, 3]]
      = [[1, 1, 0], [2, 1, 3], [2, 1, 5]]" by code_simp
  moreover have "fst (all_ok (map (\<lambda>c. CBB_add_bytes (\<lambda>_. True) 0 (CBS_data c) (of_nat (CBS_len c)))
        [[1, 1, 0], [2, 1, 3], [2, 1, 5]])
      (set_of_cbb\<lparr>base := map_option
         (\<lambda>b. b\<lparr>buf := take (unat (start_of 0 set_of_cbb)) (buf b)\<rparr>) (base set_of_cbb)\<rparr>))" by code_simp
  ultimately have "fst (CBB_flush_asn1_set_of insertion_sort (\<lambda>_. True) 0 set_of_cbb)"
    unfolding CBB_flush_asn1_set_of_def by (simp only: CBB_flush_ready case_prod_conv bool.case option.case Let_def) simp
  then show "CBB_flush_asn1_set_of insertion_sort (\<lambda>_. True) 0 set_of_cbb =
      (True, snd (CBB_flush_asn1_set_of insertion_sort (\<lambda>_. True) 0 set_of_cbb))"
    by (metis prod.collapse)
qed

end
