(* ===== verification/Bn_Ctx.thy ===== *)
theory Bn_Ctx
  imports Bn Stack
begin

text \<open>
  Temporary numbers (\<open>crypto/fipsmodule/bn/ctx.c\<close>).  A \<open>BN_CTX\<close> owns a stack of numbers that are handed
  out one after the other; a frame, opened by \<open>BN_CTX_start\<close> and closed by \<open>BN_CTX_end\<close>, gives back what
  was handed out in it.  A pointer to a temporary is its index in the stack.  After the first failure
  every further call is ignored or fails.  \<open>mem_ok n\<close> says whether an allocation of \<open>n\<close> bytes succeeds.
\<close>

section \<open>State and operations\<close>

record bn_stack =
  st_indexes :: "u64 list"   \<comment> \<open>the first \<open>depth\<close> entries\<close>
  st_size :: u64

record bn_ctx =
  ctx_bignums :: "(bignum, unit) sk_ptr"
  ctx_stack :: bn_stack
  ctx_used :: u64
  ctx_error :: bool
  ctx_defer_error :: bool

definition BN_CTX_START_FRAMES :: u64 where "BN_CTX_START_FRAMES = 32"

definition BN_STACK_init :: bn_stack where
  "BN_STACK_init = \<lparr>st_indexes = [], st_size = 0\<rparr>"

definition BN_STACK_push :: "(u64 \<Rightarrow> bool) \<Rightarrow> bn_stack \<Rightarrow> u64 \<Rightarrow> bool \<times> bn_stack" where
  "BN_STACK_push mem_ok st idx =
     (if of_nat (length (st_indexes st)) = st_size st then
        let new_size = (if st_size st \<noteq> 0 then st_size st * 3 div 2 else BN_CTX_START_FRAMES) in
        if new_size \<le> st_size st \<or> new_size > (- 1) div 8 then (False, st)
        else if \<not> mem_ok (new_size * 8) then (False, st)
        else (True, st\<lparr>st_size := new_size, st_indexes := st_indexes st @ [idx]\<rparr>)
      else (True, st\<lparr>st_indexes := st_indexes st @ [idx]\<rparr>))"

definition BN_STACK_pop :: "bn_stack \<Rightarrow> u64 \<times> bn_stack" where
  "BN_STACK_pop st = (last (st_indexes st), st\<lparr>st_indexes := butlast (st_indexes st)\<rparr>)"

definition BN_CTX_new :: bn_ctx where
  "BN_CTX_new = \<lparr>ctx_bignums = None, ctx_stack = BN_STACK_init, ctx_used = 0, ctx_error = False,
     ctx_defer_error = False\<rparr>"

definition BN_CTX_start :: "(u64 \<Rightarrow> bool) \<Rightarrow> bn_ctx \<Rightarrow> bn_ctx" where
  "BN_CTX_start mem_ok ctx =
     (if ctx_error ctx then ctx
      else let (ok, st) = BN_STACK_push mem_ok (ctx_stack ctx) (ctx_used ctx) in
           if \<not> ok then ctx\<lparr>ctx_error := True, ctx_defer_error := True\<rparr>
           else ctx\<lparr>ctx_stack := st\<rparr>)"

text \<open>Writing through a pointer to a temporary.\<close>

definition ctx_put :: "bn_ctx \<Rightarrow> u64 \<Rightarrow> bignum \<Rightarrow> bn_ctx" where
  "ctx_put ctx i b =
     ctx\<lparr>ctx_bignums := map_option (\<lambda>s. s\<lparr>sk_data := (sk_data s)[unat i := Some b]\<rparr>) (ctx_bignums ctx)\<rparr>"

text \<open>A number takes 24 bytes.\<close>

definition BN_CTX_get :: "(u64 \<Rightarrow> bool) \<Rightarrow> bn_ctx \<Rightarrow> u64 option \<times> bn_ctx" where
  "BN_CTX_get mem_ok ctx =
     (if ctx_error ctx then (None, ctx\<lparr>ctx_defer_error := False\<rparr>)
      else
        let (ok, ctx) =
          (if ctx_bignums ctx = None then
             (case sk_new_null mem_ok of
                None \<Rightarrow> (False, ctx\<lparr>ctx_error := True\<rparr>)
              | Some s \<Rightarrow> (True, ctx\<lparr>ctx_bignums := Some s\<rparr>))
           else (True, ctx))
        in if \<not> ok then (None, ctx)
        else
          let (ok, ctx) =
            (if ctx_used ctx = sk_num (ctx_bignums ctx) then
               if \<not> mem_ok 24 then (False, ctx\<lparr>ctx_error := True\<rparr>)
               else let (n, sk) = sk_push mem_ok (ctx_bignums ctx) (Some BN_init) in
                 if n = 0 then (False, ctx\<lparr>ctx_bignums := sk, ctx_error := True\<rparr>)
                 else (True, ctx\<lparr>ctx_bignums := sk\<rparr>)
             else (True, ctx))
          in if \<not> ok then (None, ctx)
          else
            let i = ctx_used ctx;
                ctx = ctx_put ctx i (BN_zero (the (sk_value (ctx_bignums ctx) i)))
            in (Some i, ctx\<lparr>ctx_used := ctx_used ctx + 1\<rparr>))"

definition BN_CTX_end :: "bn_ctx \<Rightarrow> bn_ctx" where
  "BN_CTX_end ctx =
     (if ctx_error ctx then ctx
      else let (u, st) = BN_STACK_pop (ctx_stack ctx) in ctx\<lparr>ctx_stack := st, ctx_used := u\<rparr>)"

text \<open>What a pointer to a temporary points to.\<close>

definition ctx_bn :: "bn_ctx \<Rightarrow> u64 \<Rightarrow> bignum" where
  "ctx_bn ctx i = the (sk_value (ctx_bignums ctx) i)"

section \<open>Frames\<close>

text \<open>The frames that are open, the innermost first, with the indices handed out in each; the last list is
  of what was handed out outside every frame.\<close>

inductive ctx_reachable :: "bn_ctx \<Rightarrow> nat list list \<Rightarrow> bool" where
  new: "ctx_reachable BN_CTX_new [[]]"
| start: "ctx_reachable c ls \<Longrightarrow> ctx_reachable (BN_CTX_start mem_ok c) ([] # ls)"
| get: "ctx_reachable c (l # ls) \<Longrightarrow> BN_CTX_get mem_ok c = (Some i, c') \<Longrightarrow> ctx_reachable c' ((unat i # l) # ls)"
| fail: "ctx_reachable c ls \<Longrightarrow> BN_CTX_get mem_ok c = (None, c') \<Longrightarrow> ctx_reachable c' ls"
| put: "ctx_reachable c ls \<Longrightarrow> bn_fit b \<Longrightarrow> \<not> bn_static b \<Longrightarrow> ctx_reachable (ctx_put c i b) ls"
| close: "ctx_reachable c (l # k # ls) \<Longrightarrow> ctx_reachable (BN_CTX_end c) (k # ls)"

definition own_number :: "bignum option \<Rightarrow> bool" where
  "own_number p \<longleftrightarrow> (\<exists>b. p = Some b \<and> bn_fit b \<and> \<not> bn_static b)"

definition ctx_numbers_ok :: "bn_ctx \<Rightarrow> bool" where
  "ctx_numbers_ok c \<longleftrightarrow> (\<forall>s. ctx_bignums c = Some s \<longrightarrow>
     stack_ok (\<lambda>_ _ _. 0) s \<and> \<not> sk_sorted s \<and> (\<forall>p \<in> set (sk_data s). own_number p))"

definition ctx_count :: "bn_ctx \<Rightarrow> nat" where
  "ctx_count c = (case ctx_bignums c of None \<Rightarrow> 0 | Some s \<Rightarrow> length (sk_data s))"

fun frames_match :: "nat \<Rightarrow> u64 list \<Rightarrow> nat list list \<Rightarrow> bool" where
  "frames_match n ix [l] \<longleftrightarrow> ix = [] \<and> l = rev [0..<n]"
| "frames_match n ix (l # ls) \<longleftrightarrow> ix \<noteq> [] \<and> unat (last ix) \<le> n \<and> l = rev [unat (last ix)..<n] \<and>
     frames_match (unat (last ix)) (butlast ix) ls"
| "frames_match n ix [] \<longleftrightarrow> False"

definition ctx_ok :: "bn_ctx \<Rightarrow> nat list list \<Rightarrow> bool" where
  "ctx_ok c ls \<longleftrightarrow> ctx_numbers_ok c \<and>
     (ctx_error c \<or> unat (ctx_used c) \<le> ctx_count c \<and>
        frames_match (unat (ctx_used c)) (st_indexes (ctx_stack c)) ls)"

lemma frames_match_indices:
  "frames_match n ix ls \<Longrightarrow> concat ls = rev [0..<n] \<and> length ls = length ix + 1"
proof (induction n ix ls rule: frames_match.induct)
  case (2 n ix l k ls)
  then have m: "unat (last ix) \<le> n" "concat (l # k # ls) = rev [unat (last ix)..<n] @ rev [0..<unat (last ix)]"
    "ix \<noteq> []" "length (k # ls) = length (butlast ix) + 1" by auto
  have "rev [unat (last ix)..<n] @ rev [0..<unat (last ix)] = rev [0..<n]"
    unfolding rev_append [symmetric] using upt_add_eq_append [of 0 "unat (last ix)" "n - unat (last ix)"] m(1) by simp
  with m show ?case by simp
qed auto

lemma frames_match_close:
  assumes "frames_match n ix ls" "1 < length ls"
  shows "unat (last ix) = length (concat (tl ls))"
proof -
  from assms(2) obtain l k ks where ls: "ls = l # k # ks" by (cases ls rule: remdups_adj.cases) auto
  with assms(1) have "frames_match (unat (last ix)) (butlast ix) (tl ls)" by simp
  then have "concat (tl ls) = rev [0..<unat (last ix)]" using frames_match_indices by blast
  then show ?thesis by simp
qed


lemma ctx_numbers_put:
  assumes "ctx_numbers_ok c" "bn_fit b" "\<not> bn_static b"
  shows "ctx_numbers_ok (ctx_put c i b)" "ctx_count (ctx_put c i b) = ctx_count c"
proof -
  have "own_number p" if "p \<in> set (xs[unat i := Some b])" "\<forall>p \<in> set xs. own_number p" for p xs
    using that set_update_subset_insert [of xs "unat i" "Some b"] assms(2,3) by (auto simp: own_number_def)
  with assms(1) show "ctx_numbers_ok (ctx_put c i b)"
    by (auto simp: ctx_numbers_ok_def ctx_put_def stack_ok_def)
  show "ctx_count (ctx_put c i b) = ctx_count c"
    by (simp add: ctx_put_def ctx_count_def split: option.split)
qed

lemma sk_value_own:
  assumes "ctx_numbers_ok c" "unat i < ctx_count c"
  shows "\<exists>b. sk_value (ctx_bignums c) i = Some b \<and> bn_fit b \<and> \<not> bn_static b"
proof -
  obtain s where s: "ctx_bignums c = Some s" using assms(2) by (cases "ctx_bignums c") (simp_all add: ctx_count_def)
  with assms have o: "stack_ok (\<lambda>_ _ _. 0) s" "\<forall>p \<in> set (sk_data s). own_number p" "unat i < length (sk_data s)"
    by (simp_all add: ctx_numbers_ok_def ctx_count_def)
  from o(2,3) have "own_number (sk_data s ! unat i)" by simp
  with s ge_num_iff [OF o(1), of i] o(3) show ?thesis by (auto simp: sk_value_def own_number_def)
qed

lemma ctx_bn_own:
  "ctx_numbers_ok c \<Longrightarrow> unat i < ctx_count c \<Longrightarrow> bn_fit (ctx_bn c i) \<and> \<not> bn_static (ctx_bn c i)"
  using sk_value_own [of c i] by (auto simp: ctx_bn_def)

lemma ctx_bn_put:
  assumes "ctx_numbers_ok c" "unat i < ctx_count c"
  shows "ctx_bn (ctx_put c i b) j = (if j = i then b else ctx_bn c j)"
proof -
  obtain s where s: "ctx_bignums c = Some s" using assms(2) by (cases "ctx_bignums c") (simp_all add: ctx_count_def)
  with assms have o: "stack_ok (\<lambda>_ _ _. 0) s" "unat i < length (sk_data s)"
    by (simp_all add: ctx_numbers_ok_def ctx_count_def)
  have n: "num (s\<lparr>sk_data := (sk_data s)[unat i := Some b]\<rparr>) = num s" by (simp add: num_def)
  show ?thesis
  proof (cases "j = i")
    case True
    with s n o ge_num_iff [OF o(1), of i] show ?thesis by (simp add: ctx_bn_def ctx_put_def sk_value_def)
  next
    case False
    then have "unat j \<noteq> unat i" by (simp add: word_unat_eq_iff)
    with False s n show ?thesis by (simp add: ctx_bn_def ctx_put_def sk_value_def)
  qed
qed

text \<open>The two steps of \<open>BN_CTX_get\<close> that may allocate.\<close>

definition ctx_first :: "(u64 \<Rightarrow> bool) \<Rightarrow> bn_ctx \<Rightarrow> bool \<times> bn_ctx" where
  "ctx_first mem_ok ctx =
     (if ctx_bignums ctx = None then
        (case sk_new_null mem_ok of
           None \<Rightarrow> (False, ctx\<lparr>ctx_error := True\<rparr>)
         | Some s \<Rightarrow> (True, ctx\<lparr>ctx_bignums := Some s\<rparr>))
      else (True, ctx))"

definition ctx_more :: "(u64 \<Rightarrow> bool) \<Rightarrow> bn_ctx \<Rightarrow> bool \<times> bn_ctx" where
  "ctx_more mem_ok ctx =
     (if ctx_used ctx = sk_num (ctx_bignums ctx) then
        if \<not> mem_ok 24 then (False, ctx\<lparr>ctx_error := True\<rparr>)
        else let (n, sk) = sk_push mem_ok (ctx_bignums ctx) (Some BN_init) in
          if n = 0 then (False, ctx\<lparr>ctx_bignums := sk, ctx_error := True\<rparr>)
          else (True, ctx\<lparr>ctx_bignums := sk\<rparr>)
      else (True, ctx))"

lemma BN_CTX_get_steps:
  "BN_CTX_get mem_ok ctx =
     (if ctx_error ctx then (None, ctx\<lparr>ctx_defer_error := False\<rparr>)
      else case ctx_first mem_ok ctx of (ok, ctx) \<Rightarrow>
        if \<not> ok then (None, ctx)
        else case ctx_more mem_ok ctx of (ok, ctx) \<Rightarrow>
          if \<not> ok then (None, ctx)
          else (Some (ctx_used ctx),
            (ctx_put ctx (ctx_used ctx) (BN_zero (ctx_bn ctx (ctx_used ctx))))\<lparr>ctx_used := ctx_used ctx + 1\<rparr>))"
  by (simp add: BN_CTX_get_def ctx_first_def ctx_more_def ctx_bn_def Let_def ctx_put_def case_prod_beta cong: if_cong)

lemma ctx_first_ok:
  assumes "ctx_first mem_ok c = (ok, c')" "ctx_numbers_ok c"
  shows "ctx_numbers_ok c'" "ctx_count c' = ctx_count c" "ctx_used c' = ctx_used c" "ctx_stack c' = ctx_stack c"
    "ok \<Longrightarrow> ctx_error c' = ctx_error c \<and> ctx_bignums c' \<noteq> None" "\<not> ok \<Longrightarrow> ctx_error c'"
    "unat j < ctx_count c \<Longrightarrow> ctx_bn c' j = ctx_bn c j"
proof -
  have n: "sk_data s = [] \<and> \<not> sk_sorted s \<and> stack_ok (\<lambda>_ _ _. 0) s"
    if "sk_new_null mem_ok = Some s" for s :: "(bignum, unit) stack"
    using that sk_new_ok [where call_cmp = "\<lambda>_ _ _. 0", of mem_ok None s]
    by (auto simp: sk_new_null_def sk_new_def split: if_splits)
  show "ctx_numbers_ok c'" "ctx_count c' = ctx_count c" "ctx_used c' = ctx_used c" "ctx_stack c' = ctx_stack c"
    "ok \<Longrightarrow> ctx_error c' = ctx_error c \<and> ctx_bignums c' \<noteq> None" "\<not> ok \<Longrightarrow> ctx_error c'"
    "unat j < ctx_count c \<Longrightarrow> ctx_bn c' j = ctx_bn c j"
    using assms n
    by (auto simp: ctx_first_def ctx_numbers_ok_def ctx_count_def ctx_bn_def split: if_splits option.splits)
qed

lemma ctx_more_ok:
  assumes "ctx_more mem_ok c = (ok, c')" "ctx_numbers_ok c" "ctx_bignums c \<noteq> None" "unat (ctx_used c) \<le> ctx_count c"
  shows "ctx_numbers_ok c'" "ctx_used c' = ctx_used c" "ctx_stack c' = ctx_stack c"
    "ok \<Longrightarrow> ctx_error c' = ctx_error c \<and> unat (ctx_used c') < ctx_count c' \<and> ctx_count c' < 2 ^ 61"
    "\<not> ok \<Longrightarrow> ctx_error c'" "unat j < ctx_count c \<Longrightarrow> ctx_bn c' j = ctx_bn c j"
proof -
  obtain s where s: "ctx_bignums c = Some s" using assms(3) by auto
  with assms(2) have o: "stack_ok (\<lambda>_ _ _. 0) s" "\<not> sk_sorted s" "\<forall>p \<in> set (sk_data s). own_number p"
    by (simp_all add: ctx_numbers_ok_def)
  note un = unat_num [OF o(1)]
  have len: "length (sk_data s) < 2 ^ 61" using o(1) by (simp add: stack_ok_def)
  have cc: "ctx_count c = length (sk_data s)" using s by (simp add: ctx_count_def)
  have "ctx_numbers_ok c' \<and> ctx_used c' = ctx_used c \<and> ctx_stack c' = ctx_stack c \<and>
    (ok \<longrightarrow> ctx_error c' = ctx_error c \<and> unat (ctx_used c') < ctx_count c' \<and> ctx_count c' < 2 ^ 61) \<and>
    (\<not> ok \<longrightarrow> ctx_error c') \<and> (unat j < ctx_count c \<longrightarrow> ctx_bn c' j = ctx_bn c j)"
  proof (cases "ctx_used c = num s")
    case False
    then have "unat (ctx_used c) < length (sk_data s)"
      using assms(4) un cc by (simp add: word_unat_eq_iff)
    with False assms(1,2) s cc len show ?thesis by (auto simp: ctx_more_def sk_num_def)
  next
    case used: True
    show ?thesis
    proof (cases "mem_ok 24")
      case False
      with used assms(1,2) s show ?thesis
        by (auto simp: ctx_more_def sk_num_def ctx_numbers_ok_def ctx_bn_def)
    next
      case mem: True
      obtain n sk where p: "sk_push mem_ok (Some s) (Some BN_init) = (n, sk)" by fastforce
      then have ins: "sk_insert mem_ok (Some s) (Some BN_init) (num s) = (n, sk)" by (simp add: sk_push_def sk_num_def)
      have c': "(ok, c') = (if n = 0 then (False, c\<lparr>ctx_bignums := sk, ctx_error := True\<rparr>)
          else (True, c\<lparr>ctx_bignums := sk\<rparr>))"
        using assms(1) used mem s p by (auto simp: ctx_more_def sk_num_def split: if_splits)
      from sk_insert_Some [OF o(1) ins] consider "n = 0" "sk = Some s"
        | m where "length (sk_data s) + 1 < unat m" "unat m < 2 ^ 61" "n = of_nat (length (sk_data s) + 1)"
          "sk = Some (s\<lparr>sk_data := sk_data s @ [Some BN_init], sk_sorted := False, num_alloc := m\<rparr>)"
        by (auto simp: un)
      then show ?thesis
      proof cases
        case 1
        with c' s assms(2) show ?thesis by (auto simp: ctx_numbers_ok_def ctx_bn_def)
      next
        case (2 m)
        let ?s = "s\<lparr>sk_data := sk_data s @ [Some BN_init], sk_sorted := False, num_alloc := m\<rparr>"
        have "unat n = length (sk_data s) + 1" using 2(1,2) by (simp only: 2(3) unat_of_nat) simp
        then have "n \<noteq> 0" by auto
        with c' have r: "ok" "c' = c\<lparr>ctx_bignums := Some ?s\<rparr>" using 2(4) by simp_all
        have so: "stack_ok (\<lambda>_ _ _. 0) ?s" using 2(1,2) by (simp add: stack_ok_def)
        have "own_number (Some BN_init)"
          by (simp add: own_number_def BN_init_def bn_fit_def)
        with so o(3) have "ctx_numbers_ok c'" by (simp add: r ctx_numbers_ok_def)
        moreover have "ctx_bn c' j = ctx_bn c j" if "unat j < length (sk_data s)"
        proof -
          have "num ?s \<le> j \<longleftrightarrow> num s \<le> j" using that ge_num_iff [OF so, of j] ge_num_iff [OF o(1), of j] by simp
          with that s r show ?thesis by (simp add: ctx_bn_def sk_value_def nth_append)
        qed
        ultimately show ?thesis using r used un cc 2(1,2) by (simp add: ctx_count_def)
      qed
    qed
  qed
  then show "ctx_numbers_ok c'" "ctx_used c' = ctx_used c" "ctx_stack c' = ctx_stack c"
    "ok \<Longrightarrow> ctx_error c' = ctx_error c \<and> unat (ctx_used c') < ctx_count c' \<and> ctx_count c' < 2 ^ 61"
    "\<not> ok \<Longrightarrow> ctx_error c'" "unat j < ctx_count c \<Longrightarrow> ctx_bn c' j = ctx_bn c j" by blast+
qed


lemma BN_CTX_get_ok:
  assumes "BN_CTX_get mem_ok c = (p, c')" "ctx_numbers_ok c" "ctx_error c \<or> unat (ctx_used c) \<le> ctx_count c"
  shows "ctx_numbers_ok c'" "p = None \<Longrightarrow> ctx_error c'" "ctx_stack c' = ctx_stack c"
    "p = Some i \<Longrightarrow> \<not> ctx_error c \<and> \<not> ctx_error c' \<and> i = ctx_used c \<and> unat (ctx_used c') = unat (ctx_used c) + 1 \<and>
      unat (ctx_used c') \<le> ctx_count c' \<and> bn_ok (ctx_bn c' i) \<and> \<not> bn_static (ctx_bn c' i) \<and> bn_abs (ctx_bn c' i) = 0 \<and>
      bn_width (ctx_bn c' i) = 0"
    "p = Some i \<Longrightarrow> unat j < unat (ctx_used c) \<Longrightarrow> ctx_bn c' j = ctx_bn c j"
proof -
  have "ctx_numbers_ok c' \<and> (p = None \<longrightarrow> ctx_error c') \<and> ctx_stack c' = ctx_stack c \<and>
    (p = Some i \<longrightarrow> \<not> ctx_error c \<and> \<not> ctx_error c' \<and> i = ctx_used c \<and> unat (ctx_used c') = unat (ctx_used c) + 1 \<and>
      unat (ctx_used c') \<le> ctx_count c' \<and> bn_ok (ctx_bn c' i) \<and> \<not> bn_static (ctx_bn c' i) \<and> bn_abs (ctx_bn c' i) = 0 \<and>
      bn_width (ctx_bn c' i) = 0) \<and>
    (p = Some i \<longrightarrow> unat j < unat (ctx_used c) \<longrightarrow> ctx_bn c' j = ctx_bn c j)"
  proof (cases "ctx_error c")
    case True
    with assms show ?thesis by (auto simp: BN_CTX_get_steps ctx_numbers_ok_def)
  next
    case False
    obtain ok1 c1 where f: "ctx_first mem_ok c = (ok1, c1)" by fastforce
    note fo = ctx_first_ok [OF f assms(2)]
    show ?thesis
    proof (cases ok1)
      case no: False
      with assms(1) False f fo(1,4,6) show ?thesis by (simp add: BN_CTX_get_steps)
    next
      case ok1: True
      obtain ok2 c2 where m: "ctx_more mem_ok c1 = (ok2, c2)" by fastforce
      have u1: "unat (ctx_used c1) \<le> ctx_count c1" using fo(2,3) assms(3) False by simp
      have b1: "ctx_bignums c1 \<noteq> None" using fo(5) ok1 by blast
      note mo = ctx_more_ok [OF m fo(1) b1 u1]
      show ?thesis
      proof (cases ok2)
        case no: False
        with assms(1) False f ok1 m mo(1,3,5) fo(4) show ?thesis by (simp add: BN_CTX_get_steps)
      next
        case ok2: True
        let ?u = "ctx_used c" and ?b = "BN_zero (ctx_bn c2 (ctx_used c))"
        let ?c = "ctx_put c2 ?u ?b"
        have c': "p = Some ?u" "c' = ?c\<lparr>ctx_used := ?u + 1\<rparr>"
          using assms(1) False f ok1 m ok2 mo(2) fo(3) by (simp_all add: BN_CTX_get_steps)
        have u: "unat ?u < ctx_count c2" "ctx_count c2 < 2 ^ 61" using mo(2,4) fo(3) ok2 by auto
        have own: "bn_fit (ctx_bn c2 ?u)" "\<not> bn_static (ctx_bn c2 ?u)" using ctx_bn_own [OF mo(1) u(1)] by simp_all
        then have z: "bn_fit ?b" "\<not> bn_static ?b" "bn_width ?b = 0" "bn_abs ?b = 0" "bn_ok ?b"
          by (simp_all add: BN_zero_def bn_ok_def bn_fit_def bn_abs_def bn_used_def)
        note po = ctx_numbers_put [OF mo(1) z(1,2), of ?u]
        have s: "unat (?u + 1) = unat ?u + 1" using u by (simp add: unat_word_ariths)
        have bn: "ctx_bn c' k = ctx_bn ?c k" for k by (simp add: c'(2) ctx_bn_def)
        have p: "ctx_bn ?c k = (if k = ?u then ?b else ctx_bn c2 k)" for k by (rule ctx_bn_put [OF mo(1) u(1)])
        have o1: "ctx_numbers_ok c'" using po(1) by (simp add: c'(2) ctx_numbers_ok_def)
        have o2: "ctx_count c' = ctx_count c2" using po(2) by (simp add: c'(2) ctx_count_def)
        have o3: "ctx_stack c' = ctx_stack c" "\<not> ctx_error c'"
          using mo(3,4) fo(4,5) ok1 ok2 False by (simp_all add: c'(2) ctx_put_def)
        have o4: "ctx_bn c' j = ctx_bn c j" if "unat j < unat ?u"
        proof -
          have "unat j < ctx_count c" using that assms(3) False by simp
          then have "ctx_bn c2 j = ctx_bn c j" using mo(6) [of j] fo(2,7) by simp
          moreover have "j \<noteq> ?u" using that by auto
          ultimately show ?thesis by (simp add: bn p)
        qed
        have "ctx_used c' = ?u + 1" by (simp add: c'(2))
        with o1 o2 o3 o4 c'(1) s u(1) z bn [of ?u] p [of ?u] False show ?thesis by auto
      qed
    qed
  qed
  then show "ctx_numbers_ok c'" "p = None \<Longrightarrow> ctx_error c'" "ctx_stack c' = ctx_stack c"
    "p = Some i \<Longrightarrow> \<not> ctx_error c \<and> \<not> ctx_error c' \<and> i = ctx_used c \<and> unat (ctx_used c') = unat (ctx_used c) + 1 \<and>
      unat (ctx_used c') \<le> ctx_count c' \<and> bn_ok (ctx_bn c' i) \<and> \<not> bn_static (ctx_bn c' i) \<and> bn_abs (ctx_bn c' i) = 0 \<and>
      bn_width (ctx_bn c' i) = 0"
    "p = Some i \<Longrightarrow> unat j < unat (ctx_used c) \<Longrightarrow> ctx_bn c' j = ctx_bn c j" by blast+
qed

lemma BN_CTX_start_ok:
  "ctx_numbers_ok c \<Longrightarrow> ctx_numbers_ok (BN_CTX_start mem_ok c)"
  "\<not> ctx_error (BN_CTX_start mem_ok c) \<Longrightarrow> \<not> ctx_error c \<and> ctx_used (BN_CTX_start mem_ok c) = ctx_used c \<and>
    st_indexes (ctx_stack (BN_CTX_start mem_ok c)) = st_indexes (ctx_stack c) @ [ctx_used c]"
  "ctx_count (BN_CTX_start mem_ok c) = ctx_count c" "ctx_bn (BN_CTX_start mem_ok c) j = ctx_bn c j"
  by (auto simp: BN_CTX_start_def BN_STACK_push_def Let_def ctx_numbers_ok_def ctx_count_def ctx_bn_def split: if_splits)

lemma frames_match_nonempty: "frames_match n ix ls \<Longrightarrow> ls \<noteq> []"
  by (cases ls) auto

lemma frames_match_push: "frames_match n ix (l # ls) \<Longrightarrow> frames_match (n + 1) ix ((n # l) # ls)"
  by (cases ls) auto

lemma frames_match_open: "frames_match (unat u) ix ls \<Longrightarrow> frames_match (unat u) (ix @ [u]) ([] # ls)"
  using frames_match_nonempty [of "unat u" ix ls] by (cases ls) auto

lemma ctx_reachable_ok: "ctx_reachable c ls \<Longrightarrow> ctx_ok c ls"
proof (induction rule: ctx_reachable.induct)
  case new
  show ?case by (simp add: ctx_ok_def BN_CTX_new_def BN_STACK_init_def ctx_numbers_ok_def)
next
  case (start c ls mem_ok)
  then show ?case using BN_CTX_start_ok [where c = c and mem_ok = mem_ok] by (auto simp: ctx_ok_def frames_match_open)
next
  case (get c l ls mem_ok i c')
  then have "ctx_numbers_ok c" "ctx_error c \<or> unat (ctx_used c) \<le> ctx_count c" by (auto simp: ctx_ok_def)
  from BN_CTX_get_ok [OF get.hyps(2) this] get.IH show ?case
    by (auto simp: ctx_ok_def dest: frames_match_push)
next
  case (fail c ls mem_ok c')
  then have "ctx_numbers_ok c" "ctx_error c \<or> unat (ctx_used c) \<le> ctx_count c" by (auto simp: ctx_ok_def)
  from BN_CTX_get_ok [OF fail.hyps(2) this] show ?case by (auto simp: ctx_ok_def)
next
  case (put c ls b i)
  then show ?case using ctx_numbers_put [of c b i] by (auto simp: ctx_ok_def ctx_put_def)
next
  case (close c l k ls)
  then show ?case
    by (auto simp: ctx_ok_def BN_CTX_end_def BN_STACK_pop_def Let_def ctx_numbers_ok_def ctx_count_def)
qed

section \<open>Properties\<close>

text \<open>C9: The indices that the open frames hold are 0, 1, 2 and so on without a gap, the innermost frame's
  last, and the stack of indices has one entry for every open frame.  \<open>BN_CTX_get\<close> hands out the index that
  follows the ones held, a zero, and those that are held keep their values; \<open>BN_CTX_end\<close> takes back exactly
  what the innermost frame holds, so that these indices are the next to be handed out, and leaves the numbers
  of the frames around it alone.  Once a call has failed none succeeds any more.\<close>

theorem BN_CTX_get_fresh:
  assumes "ctx_reachable c ls"
  shows "(BN_CTX_get mem_ok c = (Some i, c') \<longrightarrow>
      \<not> ctx_error c \<and> unat i = length (concat ls) \<and> unat i \<notin> set (concat ls) \<and>
      bn_ok (ctx_bn c' i) \<and> bn_val (ctx_bn c' i) = 0 \<and>
      (\<forall>j. unat j \<in> set (concat ls) \<longrightarrow> ctx_bn c' j = ctx_bn c j)) \<and>
    (\<not> ctx_error c \<longrightarrow> concat ls = rev [0..<unat (ctx_used c)] \<and>
      length ls = length (st_indexes (ctx_stack c)) + 1) \<and>
    (\<not> ctx_error c \<and> 1 < length ls \<longrightarrow>
      \<not> ctx_error (BN_CTX_end c) \<and> unat (ctx_used (BN_CTX_end c)) = length (concat (tl ls)) \<and>
      st_indexes (ctx_stack (BN_CTX_end c)) = butlast (st_indexes (ctx_stack c)) \<and>
      (\<forall>j. ctx_bn (BN_CTX_end c) j = ctx_bn c j))"
proof (intro conjI impI)
  from ctx_reachable_ok [OF assms] have o: "ctx_numbers_ok c" "ctx_error c \<or> unat (ctx_used c) \<le> ctx_count c"
    "\<not> ctx_error c \<Longrightarrow> frames_match (unat (ctx_used c)) (st_indexes (ctx_stack c)) ls" by (auto simp: ctx_ok_def)
  show "concat ls = rev [0..<unat (ctx_used c)]" "length ls = length (st_indexes (ctx_stack c)) + 1"
    if "\<not> ctx_error c" using frames_match_indices [OF o(3) [OF that]] by blast+
  show "\<not> ctx_error (BN_CTX_end c)" "unat (ctx_used (BN_CTX_end c)) = length (concat (tl ls))"
    "st_indexes (ctx_stack (BN_CTX_end c)) = butlast (st_indexes (ctx_stack c))"
    "\<forall>j. ctx_bn (BN_CTX_end c) j = ctx_bn c j" if "\<not> ctx_error c \<and> 1 < length ls"
    using that frames_match_close [OF o(3)] by (simp_all add: BN_CTX_end_def BN_STACK_pop_def ctx_bn_def)
  assume g: "BN_CTX_get mem_ok c = (Some i, c')"
  note go = BN_CTX_get_ok [OF g o(1,2)]
  from go(4) [of i] have e: "\<not> ctx_error c" "i = ctx_used c" "bn_ok (ctx_bn c' i)" "bn_abs (ctx_bn c' i) = 0"
    by blast+
  have held: "concat ls = rev [0..<unat (ctx_used c)]" using frames_match_indices [OF o(3) [OF e(1)]] by blast
  show "\<not> ctx_error c" by (rule e(1))
  show "unat i = length (concat ls)" unfolding held e(2) by simp
  show "unat i \<notin> set (concat ls)" unfolding held e(2) by simp
  show "\<forall>j. unat j \<in> set (concat ls) \<longrightarrow> ctx_bn c' j = ctx_bn c j" using go(5) [of i] unfolding held by simp
  show "bn_val (ctx_bn c' i) = 0" using e(4) by (simp add: bn_val_def)
  show "bn_ok (ctx_bn c' i)" by (rule e(3))
qed

definition two_frames :: bn_ctx where
  "two_frames = BN_CTX_start (\<lambda>_. True) (snd (BN_CTX_get (\<lambda>_. True) (BN_CTX_start (\<lambda>_. True) BN_CTX_new)))"

lemma two_frames_reachable: "ctx_reachable two_frames [[], [0], []]"
proof -
  have g: "fst (BN_CTX_get (\<lambda>_. True) (BN_CTX_start (\<lambda>_. True) BN_CTX_new)) = Some 0"
    by code_simp
  have "ctx_reachable (BN_CTX_start (\<lambda>_. True) BN_CTX_new) [[], []]"
    by (intro ctx_reachable.start ctx_reachable.new)
  with g have "ctx_reachable (snd (BN_CTX_get (\<lambda>_. True) (BN_CTX_start (\<lambda>_. True) BN_CTX_new))) [[unat (0 :: u64)], []]"
    by (metis prod.collapse ctx_reachable.get)
  then show ?thesis unfolding two_frames_def by (simp add: ctx_reachable.start)
qed

theorem BN_CTX_get_fresh_witness:
  "fst (BN_CTX_get (\<lambda>_. True) two_frames) = Some 1 \<and> unat (ctx_used (BN_CTX_end two_frames)) = 1 \<and>
    length (st_indexes (ctx_stack two_frames)) = 2"
proof -
  have "fst (BN_CTX_get (\<lambda>_. True) two_frames) = Some 1" "\<not> ctx_error two_frames" by code_simp+
  with BN_CTX_get_fresh [OF two_frames_reachable] show ?thesis by (simp add: numeral_2_eq_2)
qed

end
