(* ===== verification/Bn_Add.thy ===== *)
theory Bn_Add
  imports Bn
begin

text \<open>
  Addition and subtraction (\<open>crypto/fipsmodule/bn/add.c\<close>).  The result may be one of the operands: the
  words that count in an operand are read as they were at the call, because growing the array keeps them
  and word \<open>i\<close> of the result is written after the words \<open>i\<close> of the operands have been read.
\<close>

section \<open>The operations\<close>

text \<open>The carry or the borrow goes through the words that only the longer number has.\<close>

fun add_carry_loop :: "u64 \<Rightarrow> words \<Rightarrow> words \<times> u64" where
  "add_carry_loop carry [] = ([], carry)"
| "add_carry_loop carry (x # a) =
     (let tmp = carry + x; (r, c) = add_carry_loop (if tmp < x then 1 else 0) a in (tmp # r, c))"

fun sub_borrow_loop :: "u64 \<Rightarrow> words \<Rightarrow> words \<times> u64" where
  "sub_borrow_loop borrow [] = ([], borrow)"
| "sub_borrow_loop borrow (x # a) =
     (let y = x - borrow; (r, c) = sub_borrow_loop (if x < y then 1 else 0) a in (y # r, c))"

definition bn_uadd_consttime :: "words_alloc \<Rightarrow> bignum \<Rightarrow> bignum \<Rightarrow> bignum \<Rightarrow> bool \<times> bignum" where
  "bn_uadd_consttime alloc r a b =
     (let (a, b) = (if bn_width a < bn_width b then (b, a) else (a, b));
          max = bn_width a; min = bn_width b;
          (ok, r) = bn_wexpand alloc r (max + 1)
      in if \<not> ok then (False, r)
         else let (lo, carry) = bn_add_words (bn_d a) (bn_d b) min;
                  (hi, carry) = add_carry_loop carry (drop min (take max (bn_d a)))
              in (True, r\<lparr>bn_width := max + 1, bn_d := put_words (bn_d r) (lo @ hi @ [carry])\<rparr>))"

definition BN_uadd :: "words_alloc \<Rightarrow> bignum \<Rightarrow> bignum \<Rightarrow> bignum \<Rightarrow> bool \<times> bignum" where
  "BN_uadd alloc r a b =
     (let (ok, r) = bn_uadd_consttime alloc r a b
      in if \<not> ok then (False, r) else (True, bn_set_minimal_width r))"

definition bn_usub_consttime :: "words_alloc \<Rightarrow> bignum \<Rightarrow> bignum \<Rightarrow> bignum \<Rightarrow> bool \<times> bignum" where
  "bn_usub_consttime alloc r a b =
     (if bn_width b > bn_width a \<and> \<not> bn_fits_in_words b (bn_width a) then (False, r)
      else
        let b_width = (if bn_width b > bn_width a then bn_width a else bn_width b);
            (ok, r) = bn_wexpand alloc r (bn_width a)
        in if \<not> ok then (False, r)
           else let (lo, borrow) = bn_sub_words (bn_d a) (bn_d b) b_width;
                    (hi, borrow) = sub_borrow_loop borrow (drop b_width (take (bn_width a) (bn_d a)));
                    r = r\<lparr>bn_d := put_words (bn_d r) (lo @ hi)\<rparr>
                in if borrow \<noteq> 0 then (False, r)
                   else (True, r\<lparr>bn_width := bn_width a, bn_neg := False\<rparr>))"

definition BN_usub :: "words_alloc \<Rightarrow> bignum \<Rightarrow> bignum \<Rightarrow> bignum \<Rightarrow> bool \<times> bignum" where
  "BN_usub alloc r a b =
     (let (ok, r) = bn_usub_consttime alloc r a b
      in if \<not> ok then (False, r) else (True, bn_set_minimal_width r))"

definition BN_add :: "words_alloc \<Rightarrow> bignum \<Rightarrow> bignum \<Rightarrow> bignum \<Rightarrow> bool \<times> bignum" where
  "BN_add alloc r a b =
     (if bn_neg a \<noteq> bn_neg b then
        let (a, b) = (if bn_neg a then (b, a) else (a, b)) in
        if BN_ucmp a b < 0 then
          let (ok, r) = BN_usub alloc r b a in
          if \<not> ok then (False, r) else (True, r\<lparr>bn_neg := True\<rparr>)
        else
          let (ok, r) = BN_usub alloc r a b in
          if \<not> ok then (False, r) else (True, r\<lparr>bn_neg := False\<rparr>)
      else
        let (ret, r) = BN_uadd alloc r a b in (ret, r\<lparr>bn_neg := bn_neg a\<rparr>))"

definition BN_sub :: "words_alloc \<Rightarrow> bignum \<Rightarrow> bignum \<Rightarrow> bignum \<Rightarrow> bool \<times> bignum" where
  "BN_sub alloc r a b =
     (let (add, ng, a, b) =
        (if bn_neg a then
           if bn_neg b then (False, False, b, a) else (True, True, a, b)
         else if bn_neg b then (True, False, a, b) else (False, False, a, b))
      in if add then
           let (ok, r) = BN_uadd alloc r a b in
           if \<not> ok then (False, r) else (True, r\<lparr>bn_neg := ng\<rparr>)
         else if BN_ucmp a b < 0 then
           let (ok, r) = BN_usub alloc r b a in
           if \<not> ok then (False, r) else (True, r\<lparr>bn_neg := True\<rparr>)
         else
           let (ok, r) = BN_usub alloc r a b in
           if \<not> ok then (False, r) else (True, r\<lparr>bn_neg := False\<rparr>))"

text \<open>The loop of \<open>BN_add_word\<close> from word \<open>i\<close> on: the words, the carry and the index behind it.\<close>

fun add_word_loop :: "u64 \<Rightarrow> words \<Rightarrow> words \<times> u64" where
  "add_word_loop w [] = ([], w)"
| "add_word_loop w (x # a) =
     (if w = 0 then (x # a, 0)
      else let l = x + w; (r, c) = add_word_loop (if w > l then 1 else 0) a in (l # r, c))"

text \<open>The loop of \<open>BN_sub_word\<close> from word \<open>i\<close> on: the words and the index at which it stops; \<open>None\<close> when
  it would leave the array.\<close>

fun sub_word_loop :: "u64 \<Rightarrow> words \<Rightarrow> nat \<Rightarrow> (words \<times> nat) option" where
  "sub_word_loop w [] i = None"
| "sub_word_loop w (x # a) i =
     (if x \<ge> w then Some ((x - w) # a, i)
      else map_option (\<lambda>(r, j). ((x - w) # r, j)) (sub_word_loop 1 a (i + 1)))"

function BN_add_word :: "words_alloc \<Rightarrow> bignum \<Rightarrow> u64 \<Rightarrow> (bool \<times> bignum) option"
  and BN_sub_word :: "words_alloc \<Rightarrow> bignum \<Rightarrow> u64 \<Rightarrow> (bool \<times> bignum) option" where
  "BN_add_word alloc a w =
     (if w = 0 then Some (True, a)
      else if BN_is_zero a then Some (BN_set_word alloc a w)
      else if bn_neg a then
        map_option (\<lambda>(i, a). (i, if \<not> BN_is_zero a then a\<lparr>bn_neg := \<not> bn_neg a\<rparr> else a))
          (BN_sub_word alloc (a\<lparr>bn_neg := False\<rparr>) w)
      else
        let (r, w) = add_word_loop w (bn_used a);
            a = a\<lparr>bn_d := put_words (bn_d a) r\<rparr>
        in if w \<noteq> 0 then
             let (ok, a) = bn_wexpand alloc a (bn_width a + 1) in
             if \<not> ok then Some (False, a)
             else Some (True, a\<lparr>bn_width := bn_width a + 1, bn_d := (bn_d a)[bn_width a := w]\<rparr>)
           else Some (True, a))"
| "BN_sub_word alloc a w =
     (if w = 0 then Some (True, a)
      else if BN_is_zero a then
        let (i, a) = BN_set_word alloc a w in Some (i, if i then BN_set_negative a True else a)
      else if bn_neg a then
        map_option (\<lambda>(i, a). (i, a\<lparr>bn_neg := True\<rparr>)) (BN_add_word alloc (a\<lparr>bn_neg := False\<rparr>) w)
      else if bn_minimal_width a = 1 \<and> bn_d a ! 0 < w then
        Some (True, a\<lparr>bn_d := (bn_d a)[0 := w - bn_d a ! 0], bn_neg := True\<rparr>)
      else
        case sub_word_loop w (bn_d a) 0 of
          None \<Rightarrow> None
        | Some (r, i) \<Rightarrow>
            Some (True, a\<lparr>bn_d := r,
              bn_width := (if r ! i = 0 \<and> i = bn_width a - 1 then bn_width a - 1 else bn_width a)\<rparr>))"
  by pat_completeness auto
termination
  by (relation "measure (\<lambda>x. case x of Inl (alloc, a, w) \<Rightarrow> if bn_neg a then 1 else 0
    | Inr (alloc, a, w) \<Rightarrow> if bn_neg a then 1 else 0)") auto

declare BN_add_word.simps [simp del] BN_sub_word.simps [simp del]


section \<open>Sums and differences of absolute values\<close>

lemma add_carry_loop_val:
  "add_carry_loop carry a = (r, c) \<Longrightarrow> unat carry \<le> 1 \<Longrightarrow>
    words_val r + 2 ^ (64 * length a) * unat c = words_val a + unat carry \<and> length r = length a \<and> unat c \<le> 1"
proof (induction carry a arbitrary: r c rule: add_carry_loop.induct)
  case (2 carry x a)
  let ?tmp = "carry + x" and ?d = "if carry + x < x then 1 else 0 :: u64"
  obtain r' c' where t: "add_carry_loop ?d a = (r', c')" by fastforce
  with 2(2) have r: "r = ?tmp # r'" "c = c'" by (simp_all add: Let_def)
  have "unat ?tmp + 2 ^ 64 * unat ?d = unat carry + unat x" using carry_add [of carry x] by (simp split: if_splits)
  moreover have "words_val r' + 2 ^ (64 * length a) * unat c' = words_val a + unat ?d \<and> length r' = length a \<and> unat c' \<le> 1"
    using 2(1) [OF refl t] by simp
  ultimately show ?case by (simp add: r power_add distrib_left)
qed simp

lemma borrow_sub: "unat borrow \<le> 1 \<Longrightarrow>
  unat (x - borrow) + unat borrow = unat x + 2 ^ 64 * (if x < x - borrow then 1 else 0)" for x borrow :: u64
proof -
  assume "unat borrow \<le> 1"
  then consider "borrow = 0" | "borrow = 1" by (rule carry_cases [THEN disjE])
  then show ?thesis
  proof cases
    case 2
    show ?thesis
    proof (cases "x = 0")
      case True
      have "unat (0 - 1 :: u64) = 18446744073709551615"
        by (simp add: unsigned_minus_1_eq_mask mask_eq_exp_minus_1)
      moreover have "(0 :: u64) < 0 - 1" by (simp add: word_gt_0)
      ultimately show ?thesis using True 2 by simp
    next
      case False
      then have g: "1 \<le> unat x" by (simp add: Suc_le_eq unat_gt_0)
      then have "unat (x - 1) = unat x - 1" by (simp only: unat_minus_word word_le_nat_alt unat_1 if_True)
      with g 2 show ?thesis by (simp add: word_less_nat_alt)
    qed
  qed simp
qed

lemma sub_borrow_loop_val:
  "sub_borrow_loop borrow a = (r, c) \<Longrightarrow> unat borrow \<le> 1 \<Longrightarrow>
    words_val r + unat borrow = words_val a + 2 ^ (64 * length a) * unat c \<and> length r = length a \<and> unat c \<le> 1"
proof (induction borrow a arbitrary: r c rule: sub_borrow_loop.induct)
  case (2 borrow x a)
  let ?y = "x - borrow" and ?d = "if x < x - borrow then 1 else 0 :: u64"
  obtain r' c' where t: "sub_borrow_loop ?d a = (r', c')" by fastforce
  with 2(2) have r: "r = ?y # r'" "c = c'" by (simp_all add: Let_def)
  have "unat ?y + unat borrow = unat x + 2 ^ 64 * unat ?d" using borrow_sub [OF 2(3), of x] by (simp split: if_splits)
  moreover have "words_val r' + unat ?d = words_val a + 2 ^ (64 * length a) * unat c' \<and> length r' = length a \<and> unat c' \<le> 1"
    using 2(1) [OF refl t] by simp
  ultimately show ?case by (simp add: r power_add)
qed simp

lemma words_val_parts:
  assumes "n \<le> m" "m \<le> length d"
  shows "words_val (take n d) + 2 ^ (64 * n) * words_val (drop n (take m d)) = words_val (take m d)"
  using words_val_split [of n "take m d"] assms by (simp add: min.absorb1)

lemma add_words_carry:
  assumes "n \<le> m" "m \<le> length a" "n \<le> length b" "bn_add_words a b n = (lo, c)"
    "add_carry_loop c (drop n (take m a)) = (hi, c')"
  shows "words_val (lo @ hi @ [c']) = words_val (take m a) + words_val (take n b)" "length (lo @ hi @ [c']) = m + 1"
proof -
  have "bn_add_words (take n a) (take n b) n = (lo, c)" using assms(4) by (simp add: bn_add_words_def)
  from bn_add_words_val [OF this] assms(1-3)
  have lo: "words_val lo + 2 ^ (64 * n) * unat c = words_val (take n a) + words_val (take n b)" "length lo = n" "unat c \<le> 1"
    by simp_all
  have l: "length (drop n (take m a)) = m - n" using assms(2) by simp
  have hi: "words_val hi + 2 ^ (64 * (m - n)) * unat c' = words_val (drop n (take m a)) + unat c" "length hi = m - n"
    using add_carry_loop_val [OF assms(5) lo(3)] l by simp_all
  have "words_val (lo @ hi @ [c']) = words_val lo + 2 ^ (64 * n) * (words_val hi + 2 ^ (64 * (m - n)) * unat c')"
    using lo(2) hi(2) by (simp add: words_val_append)
  also have "\<dots> = (words_val lo + 2 ^ (64 * n) * unat c) + 2 ^ (64 * n) * words_val (drop n (take m a))"
    unfolding hi(1) by (simp add: distrib_left)
  finally show "words_val (lo @ hi @ [c']) = words_val (take m a) + words_val (take n b)"
    unfolding lo(1) using words_val_parts [OF assms(1,2)] by simp
  show "length (lo @ hi @ [c']) = m + 1" using lo(2) hi(2) assms(1) by simp
qed

lemma sub_words_borrow:
  assumes "n \<le> m" "m \<le> length a" "n \<le> length b" "bn_sub_words a b n = (lo, c)"
    "sub_borrow_loop c (drop n (take m a)) = (hi, c')"
  shows "words_val (lo @ hi) + words_val (take n b) = words_val (take m a) + 2 ^ (64 * m) * unat c'"
    "length (lo @ hi) = m"
proof -
  have "bn_sub_words (take n a) (take n b) n = (lo, c)" using assms(4) by (simp add: bn_sub_words_def)
  from bn_sub_words_val [OF this] assms(1-3)
  have lo: "words_val lo + words_val (take n b) = words_val (take n a) + 2 ^ (64 * n) * unat c" "length lo = n" "unat c \<le> 1"
    by simp_all
  have l: "length (drop n (take m a)) = m - n" using assms(2) by simp
  have hi: "words_val hi + unat c = words_val (drop n (take m a)) + 2 ^ (64 * (m - n)) * unat c'" "length hi = m - n"
    using sub_borrow_loop_val [OF assms(5) lo(3)] l by simp_all
  have m: "2 ^ (64 * m) = (2 :: nat) ^ (64 * n) * 2 ^ (64 * (m - n))"
    using assms(1) by (simp flip: power_add distrib_left)
  have "words_val (lo @ hi) + words_val (take n b) =
      words_val (take n a) + 2 ^ (64 * n) * (words_val hi + unat c)"
    using lo(1,2) by (simp add: words_val_append distrib_left)
  also have "\<dots> = words_val (take m a) + 2 ^ (64 * m) * unat c'"
    unfolding hi(1) m using words_val_parts [OF assms(1,2)] by (simp add: distrib_left)
  finally show "words_val (lo @ hi) + words_val (take n b) = words_val (take m a) + 2 ^ (64 * m) * unat c'" .
  show "length (lo @ hi) = m" using lo(2) hi(2) assms(1) by simp
qed

lemma bn_uadd_consttime_ok:
  assumes "bn_uadd_consttime alloc r a b = (ok, r')" "bn_fit r" "bn_fit a" "bn_fit b"
  shows "bn_fit r'" "bn_neg r' = bn_neg r" "ok \<Longrightarrow> bn_abs r' = bn_abs a + bn_abs b" "\<not> ok \<Longrightarrow> r' = r"
    "ok \<longleftrightarrow> fst (bn_wexpand alloc r (max (bn_width a) (bn_width b) + 1))"
proof -
  have *: "bn_fit r' \<and> bn_neg r' = bn_neg r \<and> (ok \<longrightarrow> bn_abs r' = bn_abs a + bn_abs b) \<and> (\<not> ok \<longrightarrow> r' = r) \<and>
      (ok \<longleftrightarrow> fst (bn_wexpand alloc r (bn_width a + 1)))"
    if h: "bn_uadd_consttime alloc r a b = (ok, r')" "bn_fit a" "bn_fit b" "bn_width b \<le> bn_width a" for a b
  proof -
    obtain k q where w: "bn_wexpand alloc r (bn_width a + 1) = (k, q)" by fastforce
    note e = bn_wexpand_ok [OF w assms(2)]
    obtain lo c where lo: "bn_add_words (bn_d a) (bn_d b) (bn_width b) = (lo, c)" by fastforce
    obtain hi c' where hi: "add_carry_loop c (drop (bn_width b) (take (bn_width a) (bn_d a))) = (hi, c')" by fastforce
    have s: "words_val (lo @ hi @ [c']) = bn_abs a + bn_abs b" "length (lo @ hi @ [c']) = bn_width a + 1"
      using add_words_carry [OF _ _ _ lo hi] h(2-4) by (simp_all add: bn_fit_def bn_abs_def bn_used_def)
    show ?thesis
    proof (cases k)
      case False
      with h w e assms(2) show ?thesis by (simp add: bn_uadd_consttime_def)
    next
      case True
      have r: "ok" "r' = q\<lparr>bn_width := bn_width a + 1, bn_d := put_words (bn_d q) (lo @ hi @ [c'])\<rparr>"
        using h(1,4) w lo hi True by (auto simp: bn_uadd_consttime_def)
      have l: "length (lo @ hi @ [c']) \<le> length (bn_d q)" "length (bn_d q) \<le> BN_MAX_WORDS"
        using e(1,5) True s(2) by (simp_all add: bn_fit_def)
      from bn_put_ok [OF l, of r'] r s e(4) w True show ?thesis by simp
    qed
  qed
  have sym: "bn_uadd_consttime alloc r a b = bn_uadd_consttime alloc r b a" if "bn_width a < bn_width b"
    using that by (simp add: bn_uadd_consttime_def)
  have "bn_fit r' \<and> bn_neg r' = bn_neg r \<and> (ok \<longrightarrow> bn_abs r' = bn_abs a + bn_abs b) \<and> (\<not> ok \<longrightarrow> r' = r) \<and>
      (ok \<longleftrightarrow> fst (bn_wexpand alloc r (max (bn_width a) (bn_width b) + 1)))"
  proof (cases "bn_width a < bn_width b")
    case True
    with * [of b a] assms sym show ?thesis by (simp add: max_def add.commute)
  next
    case False
    with * [of a b] assms show ?thesis by (simp add: max_def)
  qed
  then show "bn_fit r'" "bn_neg r' = bn_neg r" "ok \<Longrightarrow> bn_abs r' = bn_abs a + bn_abs b" "\<not> ok \<Longrightarrow> r' = r"
    "ok \<longleftrightarrow> fst (bn_wexpand alloc r (max (bn_width a) (bn_width b) + 1))" by simp_all
qed


lemma bn_usub_consttime_ok:
  assumes "bn_usub_consttime alloc r a b = (ok, r')" "bn_fit r" "bn_fit a" "bn_fit b"
  shows "bn_fit r'" "ok \<Longrightarrow> bn_val r' = int (bn_abs a) - int (bn_abs b)" "ok \<Longrightarrow> \<not> bn_neg r'"
    "\<not> ok \<Longrightarrow> bn_neg r' = bn_neg r"
    "ok \<longleftrightarrow> bn_abs b \<le> bn_abs a \<and> fst (bn_wexpand alloc r (bn_width a))"
proof -
  have la: "bn_abs a < 2 ^ (64 * bn_width a)" using assms(3) by (rule bn_abs_less)
  have "bn_fit r' \<and> (ok \<longrightarrow> bn_val r' = int (bn_abs a) - int (bn_abs b) \<and> \<not> bn_neg r') \<and>
    (\<not> ok \<longrightarrow> bn_neg r' = bn_neg r) \<and> (ok \<longleftrightarrow> bn_abs b \<le> bn_abs a \<and> fst (bn_wexpand alloc r (bn_width a)))"
  proof (cases "bn_width b > bn_width a \<and> \<not> bn_fits_in_words b (bn_width a)")
    case True
    then have "bn_abs a < bn_abs b" using la by (simp add: bn_fits_in_words_eq [OF assms(4)])
    with True assms show ?thesis by (simp add: bn_usub_consttime_def)
  next
    case False
    define n where "n = (if bn_width b > bn_width a then bn_width a else bn_width b)"
    have w: "bn_width a \<le> length (bn_d a)" "bn_width b \<le> length (bn_d b)" using assms(3,4) by (simp_all add: bn_fit_def)
    have n: "n \<le> bn_width a" "n \<le> bn_width b" by (auto simp: n_def)
    have b: "words_val (take n (bn_d b)) = bn_abs b"
    proof (cases "bn_width b > bn_width a")
      case True
      with False have "bn_abs b < 2 ^ (64 * n)" by (simp add: bn_fits_in_words_eq [OF assms(4)] n_def)
      with words_val_take_high(2) [OF n(2) w(2)] show ?thesis by (simp add: bn_abs_def bn_used_def)
    qed (simp add: n_def bn_abs_def bn_used_def)
    obtain k q where e: "bn_wexpand alloc r (bn_width a) = (k, q)" by fastforce
    note eo = bn_wexpand_ok [OF e assms(2)]
    obtain lo c where lo: "bn_sub_words (bn_d a) (bn_d b) n = (lo, c)" by fastforce
    obtain hi c' where hi: "sub_borrow_loop c (drop n (take (bn_width a) (bn_d a))) = (hi, c')" by fastforce
    have s: "words_val (lo @ hi) + bn_abs b = bn_abs a + 2 ^ (64 * bn_width a) * unat c'" "length (lo @ hi) = bn_width a"
      using sub_words_borrow [OF n(1) w(1) _ lo hi] n(2) w(2) by (simp_all add: b bn_abs_def [of a] bn_used_def)
    have "words_val (lo @ hi) < 2 ^ (64 * bn_width a)" using words_val_less [of "lo @ hi"] unfolding s(2) .
    then have c: "c' = 0 \<longleftrightarrow> bn_abs b \<le> bn_abs a"
    proof (cases "c' = 0")
      case False
      then have "2 ^ (64 * bn_width a) * 1 \<le> 2 ^ (64 * bn_width a) * unat c'"
        by (intro mult_le_mono2) (simp add: Suc_le_eq unat_gt_0)
      with s(1) \<open>words_val (lo @ hi) < 2 ^ (64 * bn_width a)\<close> False show ?thesis by linarith
    qed (use s(1) in simp)
    show ?thesis
    proof (cases k)
      case False
      with assms e eo \<open>\<not> (bn_width b > bn_width a \<and> \<not> bn_fits_in_words b (bn_width a))\<close> show ?thesis
        by (auto simp: bn_usub_consttime_def Let_def)
    next
      case k: True
      let ?q = "q\<lparr>bn_d := put_words (bn_d q) (lo @ hi)\<rparr>"
      have r: "(ok, r') = (if c' \<noteq> 0 then (False, ?q) else (True, ?q\<lparr>bn_width := bn_width a, bn_neg := False\<rparr>))"
        using assms(1) e k lo hi False by (auto simp: bn_usub_consttime_def Let_def n_def [symmetric])
      have l: "length (lo @ hi) \<le> length (bn_d q)" "length (bn_d q) \<le> BN_MAX_WORDS"
        using eo(1,5) k s(2) by (simp_all add: bn_fit_def)
      show ?thesis
      proof (cases "c' = 0")
        case True
        with r have r': "ok" "r' = ?q\<lparr>bn_width := bn_width a, bn_neg := False\<rparr>" by simp_all
        from bn_put_ok [OF l, of r'] r' s(2) have "bn_fit r'" "bn_abs r' = words_val (lo @ hi)" by simp_all
        with s(1) True r' c e k show ?thesis by (auto simp: bn_val_def)
      next
        case False
        with r have r': "\<not> ok" "r' = ?q" by simp_all
        have "bn_fit r'" using l eo(1) unfolding r'(2) by (auto simp: bn_fit_def)
        with r' False c eo(4) show ?thesis by simp
      qed
    qed
  qed
  then show "bn_fit r'" "ok \<Longrightarrow> bn_val r' = int (bn_abs a) - int (bn_abs b)" "ok \<Longrightarrow> \<not> bn_neg r'"
    "\<not> ok \<Longrightarrow> bn_neg r' = bn_neg r"
    "ok \<longleftrightarrow> bn_abs b \<le> bn_abs a \<and> fst (bn_wexpand alloc r (bn_width a))" by simp_all
qed

lemma BN_uadd_ok:
  assumes "BN_uadd alloc r a b = (ok, r')" "bn_fit r" "bn_fit a" "bn_fit b"
  shows "bn_fit r'" "ok \<Longrightarrow> bn_abs r' = bn_abs a + bn_abs b"
    "ok \<longleftrightarrow> fst (bn_wexpand alloc r (max (bn_width a) (bn_width b) + 1))"
proof -
  obtain k q where u: "bn_uadd_consttime alloc r a b = (k, q)" by fastforce
  note o = bn_uadd_consttime_ok [OF u assms(2-4)]
  have "(ok, r') = (if k then (True, bn_set_minimal_width q) else (False, q))"
    using assms(1) u by (auto simp: BN_uadd_def split: if_splits)
  with o bn_set_minimal_width_ok [OF o(1)]
  show "bn_fit r'" "ok \<Longrightarrow> bn_abs r' = bn_abs a + bn_abs b"
    "ok \<longleftrightarrow> fst (bn_wexpand alloc r (max (bn_width a) (bn_width b) + 1))" by (auto split: if_splits)
qed

lemma BN_usub_ok:
  assumes "BN_usub alloc r a b = (ok, r')" "bn_fit r" "bn_fit a" "bn_fit b"
  shows "bn_fit r'" "ok \<Longrightarrow> bn_ok r' \<and> bn_abs r' = bn_abs a - bn_abs b \<and> \<not> bn_neg r'"
    "ok \<longleftrightarrow> bn_abs b \<le> bn_abs a \<and> fst (bn_wexpand alloc r (bn_width a))"
proof -
  obtain k q where u: "bn_usub_consttime alloc r a b = (k, q)" by fastforce
  note o = bn_usub_consttime_ok [OF u assms(2-4)]
  have r: "(ok, r') = (if k then (True, bn_set_minimal_width q) else (False, q))"
    using assms(1) u by (auto simp: BN_usub_def split: if_splits)
  note m = bn_set_minimal_width_ok [OF o(1)]
  from r o(1,5) m show "bn_fit r'" "ok \<longleftrightarrow> bn_abs b \<le> bn_abs a \<and> fst (bn_wexpand alloc r (bn_width a))"
    by (auto split: if_splits)
  assume ok
  with r have k: "k" "r' = bn_set_minimal_width q" by (auto split: if_splits)
  then have "bn_abs q = bn_abs a - bn_abs b" using o(2,3) by (simp add: bn_val_def)
  moreover have "\<not> bn_neg r'" using o(3) k by (simp add: bn_set_minimal_width_def Let_def)
  ultimately show "bn_ok r' \<and> bn_abs r' = bn_abs a - bn_abs b \<and> \<not> bn_neg r'" using m k by simp
qed

section \<open>Signed sums and differences\<close>

text \<open>The difference of absolute values with a sign, as the ends of \<open>BN_add\<close> and \<open>BN_sub\<close> compute it.\<close>

definition signed_sub :: "words_alloc \<Rightarrow> bignum \<Rightarrow> bignum \<Rightarrow> bignum \<Rightarrow> bool \<times> bignum" where
  "signed_sub alloc r a b =
     (if BN_ucmp a b < 0 then
        let (ok, r) = BN_usub alloc r b a in if \<not> ok then (False, r) else (True, r\<lparr>bn_neg := True\<rparr>)
      else let (ok, r) = BN_usub alloc r a b in if \<not> ok then (False, r) else (True, r\<lparr>bn_neg := False\<rparr>))"

lemma bn_neg_update: "bn_fit (r\<lparr>bn_neg := n\<rparr>) = bn_fit r" "bn_abs (r\<lparr>bn_neg := n\<rparr>) = bn_abs r"
  by (simp_all add: bn_fit_def bn_abs_def bn_used_def)

lemma signed_sub_ok:
  assumes "signed_sub alloc r a b = (ok, r')" "bn_fit r" "bn_fit a" "bn_fit b"
  shows "ok \<Longrightarrow> bn_ok r' \<and> bn_val r' = int (bn_abs a) - int (bn_abs b)"
    "ok \<longleftrightarrow> fst (bn_wexpand alloc r (if bn_abs a < bn_abs b then bn_width b else bn_width a))"
proof -
  have "(ok \<longrightarrow> bn_ok r' \<and> bn_val r' = int (bn_abs a) - int (bn_abs b)) \<and>
    (ok \<longleftrightarrow> fst (bn_wexpand alloc r (if bn_abs a < bn_abs b then bn_width b else bn_width a)))"
  proof (cases "bn_abs a < bn_abs b")
    case True
    obtain k q where u: "BN_usub alloc r b a = (k, q)" by fastforce
    note o = BN_usub_ok [OF u assms(2,4,3)]
    have "(ok, r') = (if k then (True, q\<lparr>bn_neg := True\<rparr>) else (False, q))"
      using assms True u by (auto simp: signed_sub_def BN_ucmp_eq compare_val_def split: if_splits)
    with o True show ?thesis
      by (auto simp: bn_ok_def bn_neg_update bn_val_def split: if_splits)
  next
    case False
    obtain k q where u: "BN_usub alloc r a b = (k, q)" by fastforce
    note o = BN_usub_ok [OF u assms(2,3,4)]
    have "(ok, r') = (if k then (True, q\<lparr>bn_neg := False\<rparr>) else (False, q))"
      using assms False u by (auto simp: signed_sub_def BN_ucmp_eq compare_val_def split: if_splits)
    with o False show ?thesis
      by (auto simp: bn_ok_def bn_neg_update bn_val_def split: if_splits)
  qed
  then show "ok \<Longrightarrow> bn_ok r' \<and> bn_val r' = int (bn_abs a) - int (bn_abs b)"
    "ok \<longleftrightarrow> fst (bn_wexpand alloc r (if bn_abs a < bn_abs b then bn_width b else bn_width a))" by blast+
qed

lemma BN_add_cases:
  "BN_add alloc r a b =
    (if bn_neg a \<noteq> bn_neg b then (if bn_neg a then signed_sub alloc r b a else signed_sub alloc r a b)
     else let (ok, r) = BN_uadd alloc r a b in (ok, r\<lparr>bn_neg := bn_neg a\<rparr>))"
  by (auto simp: BN_add_def signed_sub_def Let_def)

lemma BN_sub_cases:
  "BN_sub alloc r a b =
    (if bn_neg a = bn_neg b then (if bn_neg a then signed_sub alloc r b a else signed_sub alloc r a b)
     else let (ok, r) = BN_uadd alloc r a b in if ok then (ok, r\<lparr>bn_neg := bn_neg a\<rparr>) else (ok, r))"
  by (auto simp: BN_sub_def signed_sub_def split: prod.split)

definition can_grow :: "words_alloc \<Rightarrow> bignum \<Rightarrow> nat \<Rightarrow> bool" where
  "can_grow alloc r num \<longleftrightarrow> num \<le> BN_MAX_WORDS \<and> \<not> bn_static r \<and> (\<forall>n \<le> num. alloc n \<noteq> None)"

lemma can_grow_wexpand: "can_grow alloc r n \<Longrightarrow> m \<le> n \<Longrightarrow> fst (bn_wexpand alloc r m)"
  by (rule bn_wexpand_succeeds) (simp_all add: can_grow_def)

lemma bn_wexpand_static: "bn_wexpand alloc b n = (ok, b') \<Longrightarrow> bn_static b' = bn_static b"
  by (auto simp: bn_wexpand_def split: if_splits option.splits)

lemma BN_add_ok:
  assumes "BN_add alloc r a b = (ok, r')" "bn_fit r" "bn_ok a" "bn_ok b"
  shows "ok \<Longrightarrow> bn_ok r' \<and> bn_val r' = bn_val a + bn_val b"
    "can_grow alloc r (max (bn_width a) (bn_width b) + 1) \<Longrightarrow> ok"
proof -
  have f: "bn_fit a" "bn_fit b" using assms(3,4) by (simp_all add: bn_ok_def)
  have "(ok \<longrightarrow> bn_ok r' \<and> bn_val r' = bn_val a + bn_val b) \<and>
    (can_grow alloc r (max (bn_width a) (bn_width b) + 1) \<longrightarrow> ok)"
  proof (cases "bn_neg a = bn_neg b")
    case True
    obtain k q where u: "BN_uadd alloc r a b = (k, q)" by fastforce
    note o = BN_uadd_ok [OF u assms(2) f]
    have "ok = k" "r' = q\<lparr>bn_neg := bn_neg a\<rparr>" using assms(1) True u by (auto simp: BN_add_cases)
    with o True assms(3,4) show ?thesis
      by (auto simp: bn_ok_def bn_neg_update bn_val_def intro: can_grow_wexpand)
  next
    case False
    show ?thesis
    proof (cases "bn_neg a")
      case True
      with assms(1) False have s: "signed_sub alloc r b a = (ok, r')" by (simp add: BN_add_cases)
      from signed_sub_ok [OF this assms(2) f(2,1)] True False show ?thesis
        by (auto simp: bn_val_def intro: can_grow_wexpand)
    next
      case n: False
      with assms(1) False have s: "signed_sub alloc r a b = (ok, r')" by (simp add: BN_add_cases)
      from signed_sub_ok [OF this assms(2) f] n False show ?thesis
        by (auto simp: bn_val_def intro: can_grow_wexpand)
    qed
  qed
  then show "ok \<Longrightarrow> bn_ok r' \<and> bn_val r' = bn_val a + bn_val b"
    "can_grow alloc r (max (bn_width a) (bn_width b) + 1) \<Longrightarrow> ok" by blast+
qed

lemma BN_sub_ok:
  assumes "BN_sub alloc r a b = (ok, r')" "bn_fit r" "bn_ok a" "bn_ok b"
  shows "ok \<Longrightarrow> bn_ok r' \<and> bn_val r' = bn_val a - bn_val b"
    "can_grow alloc r (max (bn_width a) (bn_width b) + 1) \<Longrightarrow> ok"
proof -
  have f: "bn_fit a" "bn_fit b" using assms(3,4) by (simp_all add: bn_ok_def)
  have "(ok \<longrightarrow> bn_ok r' \<and> bn_val r' = bn_val a - bn_val b) \<and>
    (can_grow alloc r (max (bn_width a) (bn_width b) + 1) \<longrightarrow> ok)"
  proof (cases "bn_neg a = bn_neg b")
    case False
    obtain k q where u: "BN_uadd alloc r a b = (k, q)" by fastforce
    note o = BN_uadd_ok [OF u assms(2) f]
    have "ok = k" "ok \<longrightarrow> r' = q\<lparr>bn_neg := bn_neg a\<rparr>"
      using assms(1) False u by (auto simp: BN_sub_cases split: if_splits)
    with o False assms(3,4) show ?thesis
      by (auto simp: bn_ok_def bn_neg_update bn_val_def intro: can_grow_wexpand)
  next
    case True
    show ?thesis
    proof (cases "bn_neg a")
      case n: True
      with assms(1) True have s: "signed_sub alloc r b a = (ok, r')" by (simp add: BN_sub_cases)
      from signed_sub_ok [OF this assms(2) f(2,1)] True n show ?thesis
        by (auto simp: bn_val_def intro: can_grow_wexpand)
    next
      case False
      with assms(1) True have s: "signed_sub alloc r a b = (ok, r')" by (simp add: BN_sub_cases)
      from signed_sub_ok [OF this assms(2) f] True False show ?thesis
        by (auto simp: bn_val_def intro: can_grow_wexpand)
    qed
  qed
  then show "ok \<Longrightarrow> bn_ok r' \<and> bn_val r' = bn_val a - bn_val b"
    "can_grow alloc r (max (bn_width a) (bn_width b) + 1) \<Longrightarrow> ok" by blast+
qed

section \<open>Adding and subtracting a word\<close>

lemma add_word_loop_val:
  "add_word_loop w a = (r, c) \<Longrightarrow>
    words_val r + 2 ^ (64 * length a) * unat c = words_val a + unat w \<and> length r = length a"
proof (induction w a arbitrary: r c rule: add_word_loop.induct)
  case (2 w x a)
  show ?case
  proof (cases "w = 0")
    case False
    let ?d = "if w > x + w then 1 else 0 :: u64"
    obtain r' c' where t: "add_word_loop ?d a = (r', c')" by fastforce
    with 2(2) False have r: "r = (x + w) # r'" "c = c'" by (simp_all add: Let_def)
    have "unat (x + w) + 2 ^ 64 * unat ?d = unat x + unat w" using carry_add [of x w] by (simp split: if_splits)
    moreover have "words_val r' + 2 ^ (64 * length a) * unat c' = words_val a + unat ?d \<and> length r' = length a"
      using 2(1) [OF False refl t] .
    ultimately show ?thesis by (simp add: r power_add distrib_left)
  qed (use 2 in auto)
qed simp

text \<open>The loop of \<open>BN_sub_word\<close> stops inside the first \<open>n\<close> words when the number in them is large enough.\<close>

lemma sub_word_loop_val:
  "unat w \<le> words_val (take n a) \<Longrightarrow> n \<le> length a \<Longrightarrow> w \<noteq> 0 \<Longrightarrow>
    \<exists>r j. sub_word_loop w a i = Some (r, i + j) \<and> length r = length a \<and> j < n \<and>
      words_val (take n r) + unat w = words_val (take n a)"
proof (induction a arbitrary: w n i)
  case (Cons x a)
  obtain m where n: "n = Suc m" using Cons.prems(1,3) by (cases n) (auto simp: unat_eq_zero)
  show ?case
  proof (cases "x \<ge> w")
    case True
    then have "unat (x - w) + unat w = unat x" by (simp add: unat_minus_word word_le_nat_alt)
    with True n show ?thesis by (auto intro!: exI [of _ 0])
  next
    case False
    then have less: "unat x < unat w" by (simp add: word_le_nat_alt)
    have w: "unat w < 2 ^ 64" using unat_u64_less [of w] by simp
    have "unat (1 :: u64) \<le> words_val (take m a)"
    proof (cases "words_val (take m a)")
      case 0
      with Cons.prems(1) n less show ?thesis by simp
    qed simp
    from Cons.IH [OF this, of "i + 1"] Cons.prems(2) n obtain r j where r: "sub_word_loop 1 a (i + 1) = Some (r, i + 1 + j)"
      "length r = length a" "j < m" "words_val (take m r) + 1 = words_val (take m a)" by auto
    have d: "unat (x - w) + unat w = 2 ^ 64 + unat x"
      using less w by (simp add: unat_minus_word word_le_nat_alt)
    have "words_val (take n ((x - w) # r)) + unat w = words_val (take n (x # a))"
      using d n by (simp add: r(4) [symmetric])
    with False r(1-3) n show ?thesis by (auto intro!: exI [of _ "Suc j"])
  qed
qed (simp add: unat_eq_zero)

lemma bn_ok_nonneg: "bn_fit a \<Longrightarrow> \<not> bn_neg a \<Longrightarrow> bn_ok a \<and> bn_val a = int (bn_abs a)"
  by (simp add: bn_ok_def bn_val_def)

lemma BN_add_word_pos:
  assumes "bn_fit a" "\<not> bn_neg a"
  shows "\<exists>ok r. BN_add_word alloc a w = Some (ok, r) \<and> (ok \<longrightarrow> bn_ok r \<and> bn_val r = bn_val a + int (unat w))"
proof -
  consider "w = 0" | "w \<noteq> 0" "bn_abs a = 0" | "w \<noteq> 0" "bn_abs a \<noteq> 0" by blast
  then show ?thesis
  proof cases
    case 1
    with assms show ?thesis by (subst BN_add_word.simps) (auto simp: bn_ok_nonneg)
  next
    case 2
    obtain ok r where s: "BN_set_word alloc a w = (ok, r)" by fastforce
    with 2 assms BN_set_word_ok [of alloc a w r] show ?thesis
      by (subst BN_add_word.simps) (auto simp: BN_is_zero_eq bn_val_def)
  next
    case 3
    obtain u c where u: "add_word_loop w (bn_used a) = (u, c)" by fastforce
    from add_word_loop_val [OF u] assms(1)
    have v: "words_val u + 2 ^ (64 * bn_width a) * unat c = bn_abs a + unat w" "length u = bn_width a"
      by (simp_all add: bn_abs_def)
    let ?a = "a\<lparr>bn_d := put_words (bn_d a) u\<rparr>"
    have l: "length u \<le> length (bn_d a)" "length (bn_d a) \<le> BN_MAX_WORDS" using assms(1) v(2) by (simp_all add: bn_fit_def)
    from bn_put_ok [OF l, of ?a] v(2) have a: "bn_fit ?a" "bn_abs ?a = words_val u" "bn_used ?a = u" by simp_all
    show ?thesis
    proof (cases "c = 0")
      case True
      with 3 assms u a v(1) show ?thesis
        by (subst BN_add_word.simps) (auto simp: BN_is_zero_eq bn_ok_def bn_val_def)
    next
      case False
      obtain ok q where q: "bn_wexpand alloc ?a (bn_width ?a + 1) = (ok, q)" by fastforce
      note e = bn_wexpand_ok [OF q a(1)]
      show ?thesis
      proof (cases ok)
        case no: False
        with 3 assms u q False show ?thesis by (subst BN_add_word.simps) (auto simp: BN_is_zero_eq)
      next
        case True
        let ?r = "q\<lparr>bn_width := bn_width q + 1, bn_d := (bn_d q)[bn_width q := c]\<rparr>"
        have "BN_add_word alloc a w = Some (True, ?r)"
          using 3 assms u q False True by (subst BN_add_word.simps) (simp add: BN_is_zero_eq)
        moreover have "take (bn_width a + 1) ((bn_d q)[bn_width a := c]) = u @ [c]"
          using e(1,2,3,5) True a(3) v(2) by (simp add: bn_used_def take_Suc_conv_app_nth)
        then have "bn_abs ?r = words_val (u @ [c])" using e(2) by (simp add: bn_abs_def bn_used_def)
        moreover have "bn_fit ?r" using e(1,2,5) True by (simp add: bn_fit_def)
        ultimately show ?thesis using v e(4) assms(2)
          by (auto simp: bn_ok_def bn_val_def words_val_append)
      qed
    qed
  qed
qed


lemma BN_sub_word_pos:
  assumes "bn_fit a" "\<not> bn_neg a"
  shows "\<exists>ok r. BN_sub_word alloc a w = Some (ok, r) \<and> (ok \<longrightarrow> bn_ok r \<and> bn_val r = bn_val a - int (unat w))"
proof -
  note m = bn_minimal_width_props [OF assms(1)] and n = bn_minimal_width_bounds [OF assms(1)]
  have wl: "bn_width a \<le> length (bn_d a)" using assms(1) by (simp add: bn_fit_def)
  consider (none) "w = 0" | (zero) "w \<noteq> 0" "bn_abs a = 0"
    | (flip) "w \<noteq> 0" "bn_abs a \<noteq> 0" "bn_minimal_width a = 1" "bn_d a ! 0 < w"
    | (loop) "w \<noteq> 0" "bn_abs a \<noteq> 0" "\<not> (bn_minimal_width a = 1 \<and> bn_d a ! 0 < w)" by blast
  then show ?thesis
  proof cases
    case none
    with assms show ?thesis by (subst BN_sub_word.simps) (auto simp: bn_ok_nonneg)
  next
    case zero
    obtain ok r where s: "BN_set_word alloc a w = (ok, r)" by fastforce
    have "ok \<longrightarrow> bn_ok (BN_set_negative r True) \<and> bn_val (BN_set_negative r True) = - int (unat w)"
    proof
      assume ok
      with s BN_set_word_ok [of alloc a w r] assms have o: "bn_ok r" "bn_val r = int (unat w)" by simp_all
      then have "bn_abs r = unat w" "bn_abs r \<noteq> 0"
        using zero(1) by (auto simp: bn_val_def unat_eq_zero unat_gt_0 int_eq_uint split: if_splits)
      with o show "bn_ok (BN_set_negative r True) \<and> bn_val (BN_set_negative r True) = - int (unat w)"
        by (simp add: BN_set_negative_def BN_is_zero_eq bn_ok_def bn_neg_update bn_val_def)
    qed
    with zero s assms show ?thesis
      by (subst BN_sub_word.simps) (auto simp: BN_is_zero_eq bn_val_def)
  next
    case flip
    have w: "bn_width a \<noteq> 0" using m(1) flip(3) by auto
    let ?x = "bn_d a ! 0" and ?t = "drop 1 (bn_used a)"
    have u: "bn_used a = ?x # ?t" by (rule bn_used_Cons [OF assms(1) w])
    have a: "bn_abs a = unat ?x + 2 ^ 64 * words_val ?t" unfolding bn_abs_def by (subst u) simp
    have "bn_abs a = unat ?x" using m(2) flip(3) wl w by (cases "bn_d a") simp_all
    with a have t: "words_val ?t = 0" by simp
    let ?r = "a\<lparr>bn_d := (bn_d a)[0 := w - ?x], bn_neg := True\<rparr>"
    have "bn_used ?r = (w - ?x) # ?t" using u w wl by (simp add: bn_used_def take_update_swap) (metis list_update_code(2))
    then have ra: "bn_abs ?r = unat w - unat ?x"
      using t flip(4) by (simp add: bn_abs_def unat_minus_word word_less_nat_alt word_le_nat_alt)
    have "BN_sub_word alloc a w = Some (True, ?r)"
      using flip assms by (subst BN_sub_word.simps) (simp add: BN_is_zero_eq)
    moreover have "bn_fit ?r" using assms(1) by (simp add: bn_fit_def)
    ultimately show ?thesis
      using ra flip(4) \<open>bn_abs a = unat ?x\<close> assms(2) by (auto simp: bn_ok_def bn_val_def word_less_nat_alt)
  next
    case loop
    have le: "unat w \<le> words_val (take (bn_width a) (bn_d a))"
    proof (cases "bn_minimal_width a = 1")
      case True
      have "words_val (take 1 (bn_d a)) = unat (bn_d a ! 0)" using m(1) True wl by (cases "bn_d a") simp_all
      with m(2) True have "bn_abs a = unat (bn_d a ! 0)" by simp
      with loop(3) True show ?thesis by (simp add: word_less_nat_alt bn_abs_def bn_used_def)
    next
      case False
      with n(3) loop(2) have "2 \<le> bn_minimal_width a" by linarith
      then have "(2 :: nat) ^ 64 \<le> 2 ^ (64 * (bn_minimal_width a - 1))" by (intro power_increasing) simp_all
      also have "\<dots> \<le> bn_abs a" using n(2,3) loop(2) by simp
      finally show ?thesis using unat_u64_less [of w] by (simp add: bn_abs_def bn_used_def)
    qed
    from sub_word_loop_val [OF le wl loop(1), of 0] obtain r j where
      r: "sub_word_loop w (bn_d a) 0 = Some (r, j)" "length r = length (bn_d a)" "j < bn_width a"
      "words_val (take (bn_width a) r) + unat w = bn_abs a" by (auto simp: bn_abs_def bn_used_def)
    let ?n = "if r ! j = 0 \<and> j = bn_width a - 1 then bn_width a - 1 else bn_width a"
    let ?r = "a\<lparr>bn_d := r, bn_width := ?n\<rparr>"
    have e: "BN_sub_word alloc a w = Some (True, ?r)"
      using loop assms r(1) by (subst BN_sub_word.simps) (auto simp: BN_is_zero_eq)
    have "words_val (take ?n r) = words_val (take (bn_width a) r)"
    proof (cases "r ! j = 0 \<and> j = bn_width a - 1")
      case True
      then obtain k where "bn_width a = Suc k" "r ! k = 0" using r(3) by (cases "bn_width a") auto
      with True wl r(2) show ?thesis by (simp add: take_Suc_conv_app_nth words_val_top)
    qed auto
    then have "bn_abs ?r + unat w = bn_abs a" using r(4) by (simp add: bn_abs_def bn_used_def)
    moreover have "bn_fit ?r" using assms(1) r(2) by (auto simp: bn_fit_def)
    moreover have "\<not> bn_neg ?r" using assms(2) by simp
    ultimately have "bn_ok ?r" "bn_val ?r = bn_val a - int (unat w)"
      using bn_ok_nonneg [of ?r] bn_ok_nonneg [OF assms] by linarith+
    with e show ?thesis by blast
  qed
qed

lemma BN_add_word_ok:
  assumes "bn_ok a"
  shows "\<exists>ok r. BN_add_word alloc a w = Some (ok, r) \<and> (ok \<longrightarrow> bn_ok r \<and> bn_val r = bn_val a + int (unat w))"
proof (cases "bn_neg a \<and> w \<noteq> 0")
  case False
  show ?thesis
  proof (cases "w = 0")
    case True
    with assms show ?thesis by (subst BN_add_word.simps) auto
  qed (use False assms BN_add_word_pos in \<open>auto simp: bn_ok_def\<close>)
next
  case True
  let ?a = "a\<lparr>bn_neg := False\<rparr>"
  have "bn_fit ?a" using assms by (simp add: bn_ok_def bn_neg_update)
  from BN_sub_word_pos [OF this, of alloc w] obtain ok r where
    s: "BN_sub_word alloc ?a w = Some (ok, r)" "ok \<longrightarrow> bn_ok r \<and> bn_val r = bn_val ?a - int (unat w)" by auto
  let ?r = "if \<not> BN_is_zero r then r\<lparr>bn_neg := \<not> bn_neg r\<rparr> else r"
  have "\<not> BN_is_zero a" using True assms by (simp add: bn_ok_def BN_is_zero_eq)
  then have "BN_add_word alloc a w = Some (ok, ?r)"
    using True s(1) by (subst BN_add_word.simps) simp
  moreover have "ok \<longrightarrow> bn_ok ?r \<and> bn_val ?r = bn_val a + int (unat w)"
    using s(2) True by (auto simp: bn_ok_def bn_neg_update BN_is_zero_eq bn_val_def)
  ultimately show ?thesis by blast
qed

lemma BN_sub_word_ok:
  assumes "bn_ok a"
  shows "\<exists>ok r. BN_sub_word alloc a w = Some (ok, r) \<and> (ok \<longrightarrow> bn_ok r \<and> bn_val r = bn_val a - int (unat w))"
proof (cases "bn_neg a \<and> w \<noteq> 0")
  case False
  show ?thesis
  proof (cases "w = 0")
    case True
    with assms show ?thesis by (subst BN_sub_word.simps) auto
  qed (use False assms BN_sub_word_pos in \<open>auto simp: bn_ok_def\<close>)
next
  case True
  let ?a = "a\<lparr>bn_neg := False\<rparr>"
  have "bn_fit ?a" using assms by (simp add: bn_ok_def bn_neg_update)
  from BN_add_word_pos [OF this, of alloc w] obtain ok r where
    s: "BN_add_word alloc ?a w = Some (ok, r)" "ok \<longrightarrow> bn_ok r \<and> bn_val r = bn_val ?a + int (unat w)" by auto
  have nz: "\<not> BN_is_zero a" "bn_abs a \<noteq> 0" using True assms by (simp_all add: bn_ok_def BN_is_zero_eq)
  then have "BN_sub_word alloc a w = Some (ok, r\<lparr>bn_neg := True\<rparr>)"
    using True s(1) by (subst BN_sub_word.simps) simp
  moreover have "ok \<longrightarrow> bn_ok (r\<lparr>bn_neg := True\<rparr>) \<and> bn_val (r\<lparr>bn_neg := True\<rparr>) = bn_val a - int (unat w)"
  proof
    assume ok
    with s(2) have o: "bn_ok r" "bn_val r = int (bn_abs a) + int (unat w)" by (simp_all add: bn_val_def bn_neg_update)
    then have "\<not> bn_neg r" using nz(2) by (cases "bn_neg r") (simp_all add: bn_val_def del: of_nat_unat)
    with o have "int (bn_abs r) = int (bn_abs a) + int (unat w)" by (simp add: bn_val_def)
    with o(1) nz(2) True show "bn_ok (r\<lparr>bn_neg := True\<rparr>) \<and> bn_val (r\<lparr>bn_neg := True\<rparr>) = bn_val a - int (unat w)"
      by (simp add: bn_ok_def bn_neg_update bn_val_def del: of_nat_unat)
  qed
  ultimately show ?thesis by blast
qed


section \<open>Properties\<close>

text \<open>C6: \<open>BN_add\<close> and \<open>BN_sub\<close> compute the sum and the difference with their signs, for operands of any
  widths, with zeros at their tops or not, into a number that holds anything before; they never make a
  negative zero, and they succeed when the result can be given one word more than the wider operand has.\<close>

theorem BN_add_sub_correct:
  assumes "bn_fit r" "bn_ok a" "bn_ok b"
  shows "(fst (BN_add alloc r a b) \<longrightarrow>
      bn_ok (snd (BN_add alloc r a b)) \<and> bn_val (snd (BN_add alloc r a b)) = bn_val a + bn_val b) \<and>
    (fst (BN_sub alloc r a b) \<longrightarrow>
      bn_ok (snd (BN_sub alloc r a b)) \<and> bn_val (snd (BN_sub alloc r a b)) = bn_val a - bn_val b) \<and>
    (can_grow alloc r (max (bn_width a) (bn_width b) + 1) \<longrightarrow>
      fst (BN_add alloc r a b) \<and> fst (BN_sub alloc r a b))"
  using BN_add_ok [OF prod.collapse [symmetric] assms, of alloc] BN_sub_ok [OF prod.collapse [symmetric] assms, of alloc]
  by blast

theorem BN_add_sub_correct_witness:
  "fst (BN_add (\<lambda>_. Some (\<lambda>_. 0)) BN_init \<lparr>bn_d = [7, 0, 5], bn_width = 2, bn_neg = True, bn_static = False\<rparr>
      \<lparr>bn_d = [9], bn_width = 1, bn_neg = False, bn_static = False\<rparr>) \<and>
   bn_val (snd (BN_add (\<lambda>_. Some (\<lambda>_. 0)) BN_init
      \<lparr>bn_d = [7, 0, 5], bn_width = 2, bn_neg = True, bn_static = False\<rparr>
      \<lparr>bn_d = [9], bn_width = 1, bn_neg = False, bn_static = False\<rparr>)) = 2"
  using BN_add_sub_correct [of BN_init "\<lparr>bn_d = [7, 0, 5], bn_width = 2, bn_neg = True, bn_static = False\<rparr>"
      "\<lparr>bn_d = [9], bn_width = 1, bn_neg = False, bn_static = False\<rparr>" "\<lambda>_. Some (\<lambda>_. 0)"]
  by (simp add: bn_ok_def bn_fit_def BN_MAX_WORDS_def bn_val_def bn_abs_def bn_used_def can_grow_def BN_init_def
      del: One_nat_def)

text \<open>C37: \<open>BN_add_word\<close> and \<open>BN_sub_word\<close> add and subtract a word in place, across the signs; the loop of
  \<open>BN_sub_word\<close>, which has no bound of its own, stops inside the number.\<close>

theorem BN_word_correct:
  assumes "bn_ok a"
  shows "(\<exists>ok r. BN_add_word alloc a w = Some (ok, r) \<and> (ok \<longrightarrow> bn_ok r \<and> bn_val r = bn_val a + int (unat w))) \<and>
    (\<exists>ok r. BN_sub_word alloc a w = Some (ok, r) \<and> (ok \<longrightarrow> bn_ok r \<and> bn_val r = bn_val a - int (unat w)))"
  using BN_add_word_ok [OF assms] BN_sub_word_ok [OF assms] by blast

theorem BN_word_correct_witness:
  "\<exists>ok r. BN_sub_word (\<lambda>_. None) \<lparr>bn_d = [0, 0, 1], bn_width = 3, bn_neg = False, bn_static = True\<rparr> 1 = Some (ok, r)"
  using BN_word_correct [of "\<lparr>bn_d = [0, 0, 1], bn_width = 3, bn_neg = False, bn_static = True\<rparr>" "\<lambda>_. None" 1]
  by (auto simp: bn_ok_def bn_fit_def BN_MAX_WORDS_def)

end
