(* ===== verification/Bn_Product.thy ===== *)
theory Bn_Product
  imports Bn_Sqr Bn_Ctx Bn_Add
begin

text \<open>
  Products and squares of numbers (\<open>crypto/fipsmodule/bn/mul.c\<close>): the choice between the methods of
  \<open>Bn_Mul\<close>, \<open>Bn_Kar\<close> and \<open>Bn_Sqr\<close>, with temporaries from a \<open>BN_CTX\<close>.  \<open>aliased\<close> says whether the result is one
  of the operands; then it is computed in a temporary and copied.  What the scratch space holds
  afterwards is not modelled: temporaries are handed out as zeros, and nothing reads behind their width.
\<close>

section \<open>The operations\<close>

text \<open>Growing a temporary.\<close>

definition ctx_wexpand :: "words_alloc \<Rightarrow> bn_ctx \<Rightarrow> u64 \<Rightarrow> nat \<Rightarrow> bool \<times> bn_ctx" where
  "ctx_wexpand alloc ctx t w =
     (let (ok, b) = bn_wexpand alloc (ctx_bn ctx t) w in (ok, ctx_put ctx t b))"

text \<open>The result \<open>rr\<close> gets the words of a product, of which \<open>wd\<close> count.\<close>

definition put_product :: "words_alloc \<Rightarrow> bignum \<Rightarrow> nat \<Rightarrow> nat \<Rightarrow> words \<Rightarrow> bool \<times> bignum" where
  "put_product alloc rr sz wd ws =
     (let (ok, rr) = bn_wexpand alloc rr sz in
      if \<not> ok then (False, rr) else (True, rr\<lparr>bn_width := wd, bn_d := put_words (bn_d rr) ws\<rparr>))"

definition mul_into ::
    "(u64 \<Rightarrow> bool) \<Rightarrow> words_alloc \<Rightarrow> bignum \<Rightarrow> bignum \<Rightarrow> bignum \<Rightarrow> bn_ctx \<Rightarrow> bool \<times> bignum \<times> bn_ctx" where
  "mul_into mem_ok alloc rr a b ctx =
     (let rr = rr\<lparr>bn_neg := (bn_neg a \<noteq> bn_neg b)\<rparr>;
          al = bn_width a; bl = bn_width b; wd = al + bl
      in if al = bl \<and> al = 8 then
           let (ok, rr) = put_product alloc rr 16 16 (bn_mul_comba8 (bn_used a) (bn_used b)) in (ok, rr, ctx)
         else if al \<ge> 16 \<and> bl \<ge> 16 \<and> bl \<le> al + 1 \<and> al \<le> bl + 1 then
           let j = BN_num_bits_word (of_nat (if al \<ge> bl then al else bl)); j = 2 ^ (j - 1);
               (t, ctx) = BN_CTX_get mem_ok ctx
           in case t of
                None \<Rightarrow> (False, rr, ctx)
              | Some t \<Rightarrow>
                  if al > j \<or> bl > j then
                    let (ok, ctx) = ctx_wexpand alloc ctx t (j * 8) in
                    if \<not> ok then (False, rr, ctx)
                    else let (ok, rr) = put_product alloc rr (j * 4) wd
                           (bn_mul_part_recursive (bn_d (snd (bn_wexpand alloc rr (j * 4))))
                             (bn_used a) (bn_used b) j (al - j) (bl - j))
                         in (ok, rr, ctx)
                  else
                    let (ok, ctx) = ctx_wexpand alloc ctx t (j * 4) in
                    if \<not> ok then (False, rr, ctx)
                    else let (ok, rr) = put_product alloc rr (j * 2) wd
                           (bn_mul_recursive (bn_used a) (bn_used b) j (int al - int j) (int bl - int j))
                         in (ok, rr, ctx)
         else
           let (ok, rr) = put_product alloc rr wd wd (bn_mul_normal (bn_used a) al (bn_used b) bl)
           in (ok, rr, ctx))"

text \<open>The result in a temporary when it is an operand.\<close>

definition via_temporary :: "(u64 \<Rightarrow> bool) \<Rightarrow> words_alloc \<Rightarrow> bool \<Rightarrow> bignum \<Rightarrow>
    (bignum \<Rightarrow> bn_ctx \<Rightarrow> bool \<times> bignum \<times> bn_ctx) \<Rightarrow> bn_ctx \<Rightarrow> bool \<times> bignum \<times> bn_ctx" where
  "via_temporary mem_ok alloc aliased r compute ctx =
     (if aliased then
        case BN_CTX_get mem_ok ctx of
          (None, ctx) \<Rightarrow> (False, r, ctx)
        | (Some i, ctx) \<Rightarrow>
            let (ok, rr, ctx) = compute (ctx_bn ctx i) ctx; ctx = ctx_put ctx i rr in
            if \<not> ok then (False, r, ctx)
            else let (ok, r) = BN_copy alloc r rr in (ok, r, ctx)
      else compute r ctx)"

definition bn_mul_impl :: "(u64 \<Rightarrow> bool) \<Rightarrow> words_alloc \<Rightarrow> bool \<Rightarrow> bignum \<Rightarrow> bignum \<Rightarrow> bignum \<Rightarrow> bn_ctx \<Rightarrow>
    bool \<times> bignum \<times> bn_ctx" where
  "bn_mul_impl mem_ok alloc aliased r a b ctx =
     (if bn_width a = 0 \<or> bn_width b = 0 then (True, BN_zero r, ctx)
      else
        let (ok, r, ctx) = via_temporary mem_ok alloc aliased r (\<lambda>rr. mul_into mem_ok alloc rr a b) (BN_CTX_start mem_ok ctx)
        in (ok, r, BN_CTX_end ctx))"

definition BN_mul :: "(u64 \<Rightarrow> bool) \<Rightarrow> words_alloc \<Rightarrow> bool \<Rightarrow> bignum \<Rightarrow> bignum \<Rightarrow> bignum \<Rightarrow> bn_ctx \<Rightarrow>
    bool \<times> bignum \<times> bn_ctx" where
  "BN_mul mem_ok alloc aliased r a b ctx =
     (let (ok, r, ctx) = bn_mul_impl mem_ok alloc aliased r a b ctx in
      if \<not> ok then (False, r, ctx) else (True, bn_set_minimal_width r, ctx))"

definition bn_mul_consttime :: "(u64 \<Rightarrow> bool) \<Rightarrow> words_alloc \<Rightarrow> bool \<Rightarrow> bignum \<Rightarrow> bignum \<Rightarrow> bignum \<Rightarrow> bn_ctx \<Rightarrow>
    bool \<times> bignum \<times> bn_ctx" where
  "bn_mul_consttime mem_ok alloc aliased r a b ctx =
     (if bn_neg a \<or> bn_neg b then (False, r, ctx) else bn_mul_impl mem_ok alloc aliased r a b ctx)"

text \<open>\<open>None\<close> is \<open>abort\<close>.\<close>

definition bn_mul_small :: "nat \<Rightarrow> words \<Rightarrow> nat \<Rightarrow> words \<Rightarrow> nat \<Rightarrow> words option" where
  "bn_mul_small num_r a num_a b num_b =
     (if num_r \<noteq> num_a + num_b then None
      else if num_a = 8 \<and> num_b = 8 then Some (bn_mul_comba8 a b)
      else Some (bn_mul_normal a num_a b num_b))"

definition BN_mul_word :: "words_alloc \<Rightarrow> bignum \<Rightarrow> u64 \<Rightarrow> bool \<times> bignum" where
  "BN_mul_word alloc bn w =
     (if bn_width bn = 0 then (True, bn)
      else if w = 0 then (True, BN_zero bn)
      else
        let (rp, ll) = bn_mul_words (bn_d bn) (bn_width bn) w;
            bn = bn\<lparr>bn_d := put_words (bn_d bn) rp\<rparr>
        in if ll \<noteq> 0 then
             let (ok, bn) = bn_wexpand alloc bn (bn_width bn + 1) in
             if \<not> ok then (False, bn)
             else (True, bn\<lparr>bn_d := (bn_d bn)[bn_width bn := ll], bn_width := bn_width bn + 1\<rparr>)
           else (True, bn))"

definition sqr_into ::
    "words_alloc \<Rightarrow> bignum \<Rightarrow> bignum \<Rightarrow> u64 \<Rightarrow> bn_ctx \<Rightarrow> bool \<times> bignum \<times> bn_ctx" where
  "sqr_into alloc rr a tmp ctx =
     (let al = bn_width a; max = 2 * al; (ok, rr) = bn_wexpand alloc rr max in
      if \<not> ok then (False, rr, ctx)
      else
        let (ok, ctx, sq) =
          (if al = 4 then (True, ctx, bn_sqr_comba4 (bn_used a))
           else if al = 8 then (True, ctx, bn_sqr_comba8 (bn_used a))
           else if al < 16 then (True, ctx, bn_sqr_normal (bn_used a) al)
           else if al \<noteq> 0 \<and> al AND (al - 1) = 0 then
             let (ok, ctx) = ctx_wexpand alloc ctx tmp (al * 4)
             in (ok, ctx, if ok then bn_sqr_recursive (bn_used a) al else [])
           else
             let (ok, ctx) = ctx_wexpand alloc ctx tmp max
             in (ok, ctx, if ok then bn_sqr_normal (bn_used a) al else []))
        in if \<not> ok then (False, rr, ctx)
           else (True, rr\<lparr>bn_d := put_words (bn_d rr) sq, bn_neg := False, bn_width := max\<rparr>, ctx))"

text \<open>\<open>rr\<close> is taken before \<open>tmp\<close>; both calls are made.\<close>

definition bn_sqr_consttime :: "(u64 \<Rightarrow> bool) \<Rightarrow> words_alloc \<Rightarrow> bool \<Rightarrow> bignum \<Rightarrow> bignum \<Rightarrow> bn_ctx \<Rightarrow>
    bool \<times> bignum \<times> bn_ctx" where
  "bn_sqr_consttime mem_ok alloc aliased r a ctx =
     (if bn_width a = 0 then (True, r\<lparr>bn_width := 0, bn_neg := False\<rparr>, ctx)
      else
        let (ok, r, ctx) = via_temporary mem_ok alloc aliased r
              (\<lambda>rr ctx. case BN_CTX_get mem_ok ctx of
                 (None, ctx) \<Rightarrow> (False, rr, ctx)
               | (Some tmp, ctx) \<Rightarrow> sqr_into alloc rr a tmp ctx)
              (BN_CTX_start mem_ok ctx)
        in (ok, r, BN_CTX_end ctx))"

definition BN_sqr :: "(u64 \<Rightarrow> bool) \<Rightarrow> words_alloc \<Rightarrow> bool \<Rightarrow> bignum \<Rightarrow> bignum \<Rightarrow> bn_ctx \<Rightarrow>
    bool \<times> bignum \<times> bn_ctx" where
  "BN_sqr mem_ok alloc aliased r a ctx =
     (let (ok, r, ctx) = bn_sqr_consttime mem_ok alloc aliased r a ctx in
      if \<not> ok then (False, r, ctx) else (True, bn_set_minimal_width r, ctx))"

definition bn_sqr_small :: "nat \<Rightarrow> words \<Rightarrow> nat \<Rightarrow> words option" where
  "bn_sqr_small num_r a num_a =
     (if num_r \<noteq> 2 * num_a \<or> num_a > 9 then None
      else if num_a = 4 then Some (bn_sqr_comba4 a)
      else if num_a = 8 then Some (bn_sqr_comba8 a)
      else Some (bn_sqr_normal a num_a))"

definition bn_abs_sub_consttime :: "(u64 \<Rightarrow> bool) \<Rightarrow> words_alloc \<Rightarrow> bignum \<Rightarrow> bignum \<Rightarrow> bignum \<Rightarrow> bn_ctx \<Rightarrow>
    bool \<times> bignum \<times> bn_ctx" where
  "bn_abs_sub_consttime mem_ok alloc r a b ctx =
     (let cl = (if bn_width a < bn_width b then bn_width a else bn_width b);
          dl = int (bn_width a) - int (bn_width b);
          r_len = (if bn_width a < bn_width b then bn_width b else bn_width a);
          (tmp, ctx) = BN_CTX_get mem_ok (BN_CTX_start mem_ok ctx)
      in case tmp of
           None \<Rightarrow> (False, r, BN_CTX_end ctx)
         | Some t \<Rightarrow>
             let (ok, r) = bn_wexpand alloc r r_len in
             if \<not> ok then (False, r, BN_CTX_end ctx)
             else let (ok, ctx) = ctx_wexpand alloc ctx t r_len in
               if \<not> ok then (False, r, BN_CTX_end ctx)
               else (True, r\<lparr>bn_d := put_words (bn_d r) (fst (bn_abs_sub_part_words (bn_used a) (bn_used b) cl dl)),
                       bn_width := r_len\<rparr>, BN_CTX_end ctx))"


section \<open>Writing into a result\<close>

lemma put_product_ok:
  assumes "put_product alloc rr sz wd ws = (ok, rr')" "bn_fit rr" "wd \<le> length ws" "length ws \<le> sz"
    "words_val ws < 2 ^ (64 * wd)"
  shows "bn_fit rr' \<and> bn_neg rr' = bn_neg rr \<and> bn_static rr' = bn_static rr \<and> (ok \<longrightarrow> bn_abs rr' = words_val ws)"
proof -
  obtain k q where w: "bn_wexpand alloc rr sz = (k, q)" by fastforce
  note e = bn_wexpand_ok [OF w assms(2)] and st = bn_wexpand_static [OF w]
  show ?thesis
  proof (cases k)
    case False
    with assms(1) w e st show ?thesis by (simp add: put_product_def)
  next
    case True
    with assms(1) w have r: "ok" "rr' = q\<lparr>bn_width := wd, bn_d := put_words (bn_d q) ws\<rparr>"
      by (simp_all add: put_product_def)
    have l: "length ws \<le> length (bn_d q)" "length (bn_d q) \<le> BN_MAX_WORDS"
      using e(1,5) True assms(4) by (auto simp: bn_fit_def)
    have "bn_used rr' = take wd ws" using assms(3) by (simp add: r bn_used_def put_words_def)
    moreover have "words_val (take wd ws) = words_val ws"
      using words_val_take_high(2) [of wd "length ws" ws] assms(3,5) by simp
    ultimately have "bn_abs rr' = words_val ws" by (simp add: bn_abs_def)
    moreover have "bn_fit rr'" using l assms(3) by (auto simp: r bn_fit_def)
    ultimately show ?thesis using r e(4) st by simp
  qed
qed

lemma ctx_reachable_good:
  assumes "ctx_reachable c ls"
  shows "ctx_numbers_ok c" "ctx_error c \<or> unat (ctx_used c) \<le> ctx_count c" "ls \<noteq> []"
proof -
  show "ctx_numbers_ok c" "ctx_error c \<or> unat (ctx_used c) \<le> ctx_count c"
    using ctx_reachable_ok [OF assms] by (auto simp: ctx_ok_def)
  show "ls \<noteq> []" using assms by (induction rule: ctx_reachable.induct) auto
qed

lemma ctx_get_reachable:
  assumes "ctx_reachable c (l # ls)" "BN_CTX_get mem_ok c = (p, c')"
  shows "\<exists>l'. ctx_reachable c' (l' # ls)"
    "p = Some i \<Longrightarrow> bn_ok (ctx_bn c' i) \<and> \<not> bn_static (ctx_bn c' i) \<and> unat i < ctx_count c'"
proof -
  note g = ctx_reachable_good [OF assms(1)]
  show "\<exists>l'. ctx_reachable c' (l' # ls)"
    using ctx_reachable.get [OF assms(1)] ctx_reachable.fail [OF assms(1)] assms(2) by (cases p) blast+
  assume "p = Some i"
  with BN_CTX_get_ok(4) [OF assms(2) g(1,2), of i]
  show "bn_ok (ctx_bn c' i) \<and> \<not> bn_static (ctx_bn c' i) \<and> unat i < ctx_count c'" by auto
qed

lemma ctx_wexpand_reachable:
  assumes "ctx_reachable c ls" "unat t < ctx_count c" "ctx_wexpand alloc c t w = (ok, c')"
  shows "ctx_reachable c' ls"
proof -
  obtain k b where w: "bn_wexpand alloc (ctx_bn c t) w = (k, b)" by fastforce
  have "bn_fit (ctx_bn c t) \<and> \<not> bn_static (ctx_bn c t)"
    using ctx_bn_own ctx_reachable_good(1) [OF assms(1)] assms(2) by blast
  with bn_wexpand_ok(1) [OF w] bn_wexpand_static [OF w] have "bn_fit b" "\<not> bn_static b" by simp_all
  with assms(1,3) w show ?thesis by (auto simp: ctx_wexpand_def intro: ctx_reachable.put)
qed

text \<open>What the computations of a result share: they write a number of the given value, keep the temporaries
  of the open frames apart, and leave a number behind even when they fail.\<close>

locale result_writer =
  fixes compute :: "'x \<Rightarrow> bignum \<Rightarrow> bn_ctx \<Rightarrow> bool \<times> bignum \<times> bn_ctx"
    and pre :: "'x \<Rightarrow> bool" and result :: "'x \<Rightarrow> int"
  assumes writes: "pre x \<Longrightarrow> bn_fit rr \<Longrightarrow> ctx_reachable c (l # ls) \<Longrightarrow> compute x rr c = (ok, rr', c') \<Longrightarrow>
    bn_fit rr' \<and> bn_static rr' = bn_static rr \<and> (\<exists>l'. ctx_reachable c' (l' # ls)) \<and> (ok \<longrightarrow> bn_val rr' = result x)"
begin

lemma via_temporary_writes:
  assumes "pre x" "bn_fit r" "ctx_reachable c (l # ls)" "via_temporary mem_ok alloc aliased r (compute x) c = (ok, r', c')"
  shows "bn_fit r' \<and> (\<exists>l'. ctx_reachable c' (l' # ls)) \<and> (ok \<longrightarrow> bn_val r' = result x)"
proof (cases aliased)
  case False
  with assms(4) have "compute x r c = (ok, r', c')" by (simp add: via_temporary_def)
  from writes [OF assms(1-3) this] show ?thesis by blast
next
  case True
  obtain p c1 where g: "BN_CTX_get mem_ok c = (p, c1)" by fastforce
  from ctx_get_reachable(1) [OF assms(3) g] obtain l1 where l1: "ctx_reachable c1 (l1 # ls)" by blast
  show ?thesis
  proof (cases p)
    case None
    with assms(2,4) True g l1 show ?thesis by (auto simp: via_temporary_def)
  next
    case (Some i)
    from ctx_get_reachable(2) [OF assms(3) g Some]
    have n: "bn_fit (ctx_bn c1 i)" "\<not> bn_static (ctx_bn c1 i)" by (simp_all add: bn_ok_def)
    obtain k rr c2 where m: "compute x (ctx_bn c1 i) c1 = (k, rr, c2)" by (metis prod_cases3)
    from writes [OF assms(1) n(1) l1 m] n(2) obtain l2 where w: "bn_fit rr" "\<not> bn_static rr"
      "ctx_reachable c2 (l2 # ls)" "k \<longrightarrow> bn_val rr = result x" by auto
    have c3: "ctx_reachable (ctx_put c2 i rr) (l2 # ls)" using w by (intro ctx_reachable.put)
    show ?thesis
    proof (cases k)
      case False
      with assms(2,4) True g Some m c3 show ?thesis by (auto simp: via_temporary_def Let_def)
    next
      case k: True
      obtain k2 q where cp: "BN_copy alloc r rr = (k2, q)" by fastforce
      have r: "ok = k2" "r' = q" "c' = ctx_put c2 i rr"
        using assms(4) True g Some m k cp by (simp_all add: via_temporary_def Let_def)
      have "bn_fit q \<and> (k2 \<longrightarrow> bn_val q = bn_val rr)"
      proof (cases k2)
        case True
        with BN_copy_ok [of alloc r rr q] cp assms(2) w(1) show ?thesis by simp
      next
        case False
        obtain k3 q3 where e: "bn_wexpand alloc r (bn_width rr) = (k3, q3)" by fastforce
        with cp False have "q = q3" by (auto simp: BN_copy_def split: if_splits bool.splits)
        with bn_wexpand_ok(1) [OF e assms(2)] False show ?thesis by simp
      qed
      with r c3 w(4) k show ?thesis by auto
    qed
  qed
qed

lemma framed:
  assumes "pre x" "bn_fit r" "ctx_reachable c ls"
    "(let (ok, r, c) = via_temporary mem_ok alloc aliased r (compute x) (BN_CTX_start mem_ok' c)
      in (ok, r, BN_CTX_end c)) = (ok, r', c')"
  shows "bn_fit r' \<and> ctx_reachable c' ls \<and> (ok \<longrightarrow> bn_val r' = result x)"
proof -
  obtain k q c1 where v: "via_temporary mem_ok alloc aliased r (compute x) (BN_CTX_start mem_ok' c) = (k, q, c1)"
    by (metis prod_cases3)
  from via_temporary_writes [OF assms(1,2) ctx_reachable.start [OF assms(3)] v] obtain l' where
    w: "bn_fit q" "ctx_reachable c1 (l' # ls)" "k \<longrightarrow> bn_val q = result x" by blast
  obtain m ms where "ls = m # ms" using ctx_reachable_good(3) [OF assms(3)] by (cases ls) auto
  with w(2) have "ctx_reachable (BN_CTX_end c1) ls" by (auto intro: ctx_reachable.close)
  with assms(4) v w show ?thesis by auto
qed

end


text \<open>When the temporaries can be had.\<close>

lemma BN_CTX_get_succeeds:
  assumes "ctx_reachable c ls" "\<not> ctx_error c" "ctx_count c < 2 ^ 59" "\<And>n. mem_ok n"
  shows "\<exists>i c'. BN_CTX_get mem_ok c = (Some i, c') \<and> \<not> ctx_error c' \<and> ctx_count c' \<le> ctx_count c + 1"
proof -
  note g = ctx_reachable_good [OF assms(1)]
  obtain ok1 c1 where f: "ctx_first mem_ok c = (ok1, c1)" by fastforce
  note fo = ctx_first_ok [OF f g(1)]
  have ok1: ok1 using f assms(4) by (auto simp: ctx_first_def sk_new_null_def sk_new_def split: if_splits)
  with fo(5) obtain s where s: "ctx_bignums c1 = Some s" by blast
  with fo(1) have so: "stack_ok (\<lambda>_ _ _. 0) s" by (simp add: ctx_numbers_ok_def)
  have l: "length (sk_data s) < 2 ^ 59" using fo(2) s assms(3) by (simp add: ctx_count_def)
  have room: "fst (sk_insert mem_ok (Some s) (Some BN_init) (num s)) = of_nat (length (sk_data s) + 1)"
    by (rule sk_insert_room [OF so l assms(4)])
  have "of_nat (length (sk_data s) + 1) \<noteq> (0 :: u64)"
  proof -
    have "unat (of_nat (length (sk_data s) + 1) :: u64) = length (sk_data s) + 1"
      using l by (simp only: unat_of_nat) simp
    then show ?thesis by (metis unat_0 add_is_0 one_neq_zero)
  qed
  then have "fst (ctx_more mem_ok c1)"
    using s room assms(4) by (simp add: ctx_more_def sk_num_def sk_push_def case_prod_beta)
  then obtain c2 where m: "ctx_more mem_ok c1 = (True, c2)" by (cases "ctx_more mem_ok c1") auto
  have u1: "unat (ctx_used c1) \<le> ctx_count c1" using fo(2,3) g(2) assms(2) by simp
  note mo = ctx_more_ok [OF m fo(1) _ u1]
  have "ctx_count c2 \<le> ctx_count c1 + 1"
  proof -
    obtain n sk where i: "sk_insert mem_ok (Some s) (Some BN_init) (num s) = (n, sk)" by fastforce
    from sk_insert_Some [OF so i] m s i show ?thesis
      by (auto simp: ctx_more_def sk_num_def sk_push_def ctx_count_def split: if_splits)
  qed
  moreover obtain c' where "BN_CTX_get mem_ok c = (Some (ctx_used c2), c')"
    "c' = (ctx_put c2 (ctx_used c2) (BN_zero (ctx_bn c2 (ctx_used c2))))\<lparr>ctx_used := ctx_used c2 + 1\<rparr>"
    using f ok1 m assms(2) by (simp add: BN_CTX_get_steps)
  moreover from this(2) have "ctx_count c' = ctx_count c2"
    by (simp add: ctx_count_def ctx_put_def split: option.split)
  moreover from calculation(3) have "\<not> ctx_error c'"
    using mo(4) s fo(5) ok1 assms(2) by (simp add: ctx_put_def)
  ultimately show ?thesis using fo(2) by auto
qed

locale total_writer = result_writer +
  fixes supplied :: "'a \<Rightarrow> bool"
  assumes succeeds: "pre x \<Longrightarrow> supplied x \<Longrightarrow> bn_fit rr \<Longrightarrow> \<not> bn_static rr \<Longrightarrow> ctx_reachable c (l # ls) \<Longrightarrow>
    \<not> ctx_error c \<Longrightarrow> ctx_count c < 2 ^ 58 + 2 \<Longrightarrow> fst (compute x rr c)"
begin

lemma framed_succeeds:
  assumes "pre x" "supplied x" "bn_fit r" "\<not> bn_static r" "ctx_reachable c ls" "\<not> ctx_error c" "ctx_count c < 2 ^ 58"
    "\<And>n. mem_ok n" "\<And>n. alloc n \<noteq> None" "fst (BN_STACK_push mem_ok (ctx_stack c) (ctx_used c))"
  shows "fst (let (ok, r, c) = via_temporary mem_ok alloc aliased r (compute x) (BN_CTX_start mem_ok c)
    in (ok, r, BN_CTX_end c))"
proof -
  let ?c = "BN_CTX_start mem_ok c"
  have e: "\<not> ctx_error ?c" "ctx_count ?c < 2 ^ 58"
    using assms(6,7,10) by (auto simp: BN_CTX_start_def Let_def ctx_count_def split: prod.split)
  have r0: "ctx_reachable ?c ([] # ls)" by (rule ctx_reachable.start [OF assms(5)])
  have "fst (via_temporary mem_ok alloc aliased r (compute x) ?c)"
  proof (cases aliased)
    case False
    with succeeds [OF assms(1-4) r0 e(1)] e(2) show ?thesis by (simp add: via_temporary_def)
  next
    case True
    from BN_CTX_get_succeeds [OF r0 e(1) _ assms(8)] e(2) obtain i c1 where
      g: "BN_CTX_get mem_ok ?c = (Some i, c1)" "\<not> ctx_error c1" "ctx_count c1 < 2 ^ 58 + 1" by force
    from ctx_get_reachable [OF r0 g(1)] obtain l1 where l1: "ctx_reachable c1 (l1 # ls)" by blast
    have n: "bn_fit (ctx_bn c1 i)" "\<not> bn_static (ctx_bn c1 i)"
      using ctx_get_reachable(2) [OF r0 g(1), of i] by (simp_all add: bn_ok_def)
    obtain k rr c2 where m: "compute x (ctx_bn c1 i) c1 = (k, rr, c2)" by (rule prod_cases3)
    have k using succeeds [OF assms(1,2) n l1 g(2)] g(3) m by simp
    moreover have "bn_fit rr" using writes [OF assms(1) n(1) l1 m] by blast
    then have "fst (bn_wexpand alloc r (bn_width rr))"
      using assms(4,9) by (intro bn_wexpand_succeeds) (simp_all add: bn_fit_def)
    then have "fst (BN_copy alloc r rr)" by (auto simp: BN_copy_def split: prod.splits bool.splits)
    ultimately show ?thesis using True g(1) m by (simp add: via_temporary_def Let_def case_prod_beta)
  qed
  then show ?thesis by (simp add: case_prod_beta)
qed

end

section \<open>Products\<close>

lemma largest_power:
  assumes "0 < m" "m \<le> BN_MAX_WORDS"
  shows "2 ^ (BN_num_bits_word (of_nat m) - 1) \<le> m" "m < 2 * 2 ^ (BN_num_bits_word (of_nat m) - 1)"
proof -
  have u: "unat (of_nat m :: u64) = m" using assms(2) by (simp add: unat_of_nat BN_MAX_WORDS_def)
  then have "(of_nat m :: u64) \<noteq> 0" using assms(1) by (auto simp: word_unat_eq_iff)
  note b = BN_num_bits_word_bounds [of "of_nat m", unfolded u]
  from b(2) [OF \<open>of_nat m \<noteq> 0\<close>] show "2 ^ (BN_num_bits_word (of_nat m) - 1) \<le> m" .
  obtain k where k: "BN_num_bits_word (of_nat m) = Suc k"
    using b(3) \<open>of_nat m \<noteq> 0\<close> by (cases "BN_num_bits_word (of_nat m)") auto
  from b(1) show "m < 2 * 2 ^ (BN_num_bits_word (of_nat m) - 1)" unfolding k by simp
qed

definition signed_product :: "bignum \<Rightarrow> bignum \<Rightarrow> int" where
  "signed_product a b = (if bn_neg a \<noteq> bn_neg b then - int (bn_abs a * bn_abs b) else int (bn_abs a * bn_abs b))"

lemma signed_product_eq: "signed_product a b = bn_val a * bn_val b"
  by (simp add: signed_product_def bn_val_def)

lemma product_parts:
  assumes "bn_fit a" "bn_fit b"
  shows "bn_abs a * bn_abs b < 2 ^ (64 * (bn_width a + bn_width b))"
  using words_val_product_less [of "bn_used a" "bn_used b"] assms by (simp add: bn_abs_def)

lemma mul_into_ok:
  assumes "bn_fit a" "bn_fit b" "bn_fit rr" "bn_width a \<noteq> 0" "bn_width b \<noteq> 0" "ctx_reachable c (l # ls)"
    "mul_into mem_ok alloc rr a b c = (ok, rr', c')"
  shows "bn_fit rr' \<and> bn_static rr' = bn_static rr \<and> (\<exists>l'. ctx_reachable c' (l' # ls)) \<and>
    (ok \<longrightarrow> bn_val rr' = signed_product a b)"
proof -
  let ?al = "bn_width a" and ?bl = "bn_width b" and ?a = "bn_used a" and ?b = "bn_used b"
  let ?rr = "rr\<lparr>bn_neg := (bn_neg a \<noteq> bn_neg b)\<rparr>"
  have la: "length ?a = ?al" "length ?b = ?bl" using assms(1,2) by simp_all
  have f: "bn_fit ?rr" using assms(3) by (simp add: bn_fit_def)
  have fin: "bn_fit rr' \<and> bn_static rr' = bn_static rr \<and> (ok \<longrightarrow> bn_val rr' = signed_product a b)"
    if "put_product alloc ?rr sz (?al + ?bl) ws = (ok, rr')" "?al + ?bl \<le> length ws" "length ws \<le> sz"
      "words_val ws = words_val ?a * words_val ?b" for ok rr' sz ws
    using put_product_ok [OF that(1) f that(2,3)] that(4) product_parts [OF assms(1,2)]
    by (auto simp: bn_abs_def [of a] bn_abs_def [of b] signed_product_def bn_val_def)
  consider (comba) "?al = ?bl \<and> ?al = 8"
    | (kar) "\<not> (?al = ?bl \<and> ?al = 8)" "?al \<ge> 16 \<and> ?bl \<ge> 16 \<and> ?bl \<le> ?al + 1 \<and> ?al \<le> ?bl + 1"
    | (normal) "\<not> (?al = ?bl \<and> ?al = 8)" "\<not> (?al \<ge> 16 \<and> ?bl \<ge> 16 \<and> ?bl \<le> ?al + 1 \<and> ?al \<le> ?bl + 1)" by blast
  then show ?thesis
  proof cases
    case comba
    with assms(7) have "put_product alloc ?rr 16 (?al + ?bl) (bn_mul_comba8 ?a ?b) = (ok, rr')" "c' = c"
      by (auto simp: mul_into_def split: prod.splits)
    with fin [of 16 "bn_mul_comba8 ?a ?b"] bn_mul_comba8_val [of ?a ?b] la comba assms(6) show ?thesis by auto
  next
    case normal
    with assms(7) have "put_product alloc ?rr (?al + ?bl) (?al + ?bl) (bn_mul_normal ?a ?al ?b ?bl) = (ok, rr')" "c' = c"
      by (auto simp: mul_into_def Let_def split: prod.splits)
    with fin [of "?al + ?bl" "bn_mul_normal ?a ?al ?b ?bl"] bn_mul_normal_val [OF la] assms(6) show ?thesis by auto
  next
    case kar
    define m where "m = (if ?al \<ge> ?bl then ?al else ?bl)"
    define j where "j = (2 :: nat) ^ (BN_num_bits_word (of_nat m) - 1)"
    have m: "0 < m" "m \<le> BN_MAX_WORDS" using kar assms(1,2) by (auto simp: m_def bn_fit_def)
    note jm = largest_power [OF m, folded j_def]
    have e: "mul_into mem_ok alloc rr a b c =
      (case BN_CTX_get mem_ok c of
         (None, c) \<Rightarrow> (False, ?rr, c)
       | (Some t, c) \<Rightarrow>
           if ?al > j \<or> ?bl > j then
             case ctx_wexpand alloc c t (j * 8) of (ok, c) \<Rightarrow>
               if \<not> ok then (False, ?rr, c)
               else case put_product alloc ?rr (j * 4) (?al + ?bl)
                   (bn_mul_part_recursive (bn_d (snd (bn_wexpand alloc ?rr (j * 4)))) ?a ?b j (?al - j) (?bl - j)) of
                 (ok, rr) \<Rightarrow> (ok, rr, c)
           else
             case ctx_wexpand alloc c t (j * 4) of (ok, c) \<Rightarrow>
               if \<not> ok then (False, ?rr, c)
               else case put_product alloc ?rr (j * 2) (?al + ?bl)
                   (bn_mul_recursive ?a ?b j (int ?al - int j) (int ?bl - int j)) of (ok, rr) \<Rightarrow> (ok, rr, c))"
      using kar by (simp add: mul_into_def Let_def m_def j_def split: prod.split option.split)
    obtain p c1 where g: "BN_CTX_get mem_ok c = (p, c1)" by fastforce
    from ctx_get_reachable(1) [OF assms(6) g] obtain l1 where l1: "ctx_reachable c1 (l1 # ls)" by blast
    show ?thesis
    proof (cases p)
      case None
      with assms(7) g have "ok = False" "rr' = ?rr" "c' = c1" by (simp_all add: e)
      with f l1 show ?thesis by auto
    next
      case (Some t)
      from ctx_get_reachable(2) [OF assms(6) g Some] have t: "unat t < ctx_count c1" by blast
      show ?thesis
      proof (cases "?al > j \<or> ?bl > j")
        case True
        obtain k c2 where w: "ctx_wexpand alloc c1 t (j * 8) = (k, c2)" by fastforce
        from ctx_wexpand_reachable [OF l1 t w] have c2: "ctx_reachable c2 (l1 # ls)" .
        show ?thesis
        proof (cases k)
          case False
          with assms(7) g Some True w have "ok = False" "rr' = ?rr" "c' = c2" by (simp_all add: e)
          with f c2 show ?thesis by auto
        next
          case k: True
          let ?ws = "bn_mul_part_recursive (bn_d (snd (bn_wexpand alloc ?rr (j * 4)))) ?a ?b j (?al - j) (?bl - j)"
          have r: "put_product alloc ?rr (j * 4) (?al + ?bl) ?ws = (ok, rr')" "c' = c2"
            using assms(7) g Some True w k by (auto simp: e split: prod.splits)
          have d: "length ?a = j + (?al - j)" "length ?b = j + (?bl - j)" "?al - j < j" "?bl - j < j"
            "?al - j \<le> ?bl - j + 1" "?bl - j \<le> ?al - j + 1" "?al + ?bl \<le> 4 * j" "8 \<le> j"
            using True kar jm la by (auto simp: m_def split: if_splits)
          from bn_mul_part_recursive_val [OF j_def d(1-6) disjI1 [OF d(8)]] have "words_val ?ws = words_val ?a * words_val ?b"
            "length ?ws = 4 * j" by simp_all
          with fin [OF r(1)] d(7) r(2) c2 show ?thesis by auto
        qed
      next
        case False
        obtain k c2 where w: "ctx_wexpand alloc c1 t (j * 4) = (k, c2)" by fastforce
        from ctx_wexpand_reachable [OF l1 t w] have c2: "ctx_reachable c2 (l1 # ls)" .
        show ?thesis
        proof (cases k)
          case no: False
          with assms(7) g Some False w have "ok = False" "rr' = ?rr" "c' = c2" by (simp_all add: e)
          with f c2 show ?thesis by auto
        next
          case True
          let ?ws = "bn_mul_recursive ?a ?b j (int ?al - int j) (int ?bl - int j)"
          have r: "put_product alloc ?rr (j * 2) (?al + ?bl) ?ws = (ok, rr')" "c' = c2"
            using assms(7) g Some False w True by (auto simp: e split: prod.splits)
          have d: "int (length ?a) = int j + (int ?al - int j)" "int (length ?b) = int j + (int ?bl - int j)"
            "- 8 \<le> int ?al - int j" "int ?al - int j \<le> 0" "- 8 \<le> int ?bl - int j" "int ?bl - int j \<le> 0"
            "?al + ?bl \<le> 2 * j"
            using False kar jm la by (auto simp: m_def split: if_splits)
          from bn_mul_recursive_val [OF j_def d(1-6)] have "words_val ?ws = words_val ?a * words_val ?b"
            "length ?ws = j + j" by simp_all
          with fin [OF r(1)] d(7) r(2) c2 show ?thesis by auto
        qed
      qed
    qed
  qed
qed


section \<open>Squares\<close>

lemma power_of_two: "n AND (n - 1) = 0 \<Longrightarrow> n \<noteq> 0 \<Longrightarrow> \<exists>k. n = 2 ^ k" for n :: nat
proof (induction n rule: less_induct)
  case (less n)
  have r: "n AND (n - 1) = of_bool (odd n \<and> odd (n - 1)) + 2 * (n div 2 AND ((n - 1) div 2))"
    by (rule and_rec)
  show ?case
  proof (cases "odd n")
    case True
    then have "(n - 1) div 2 = n div 2" by (auto elim!: oddE)
    with r less.prems(1) have "n div 2 = 0" by simp
    with True have "n = 2 ^ 0" by (auto elim!: oddE)
    then show ?thesis by blast
  next
    case False
    then obtain m where m: "n = 2 * m" by (auto elim!: evenE)
    with less.prems(2) have "m \<noteq> 0" "m < n" by simp_all
    moreover have "(n - 1) div 2 = m - 1" using m \<open>m \<noteq> 0\<close> by (cases m) auto
    with r less.prems(1) m have "m AND (m - 1) = 0" by simp
    ultimately obtain k where "m = 2 ^ k" using less.IH by blast
    with m have "n = 2 ^ Suc k" by simp
    then show ?thesis by blast
  qed
qed

lemma sqr_into_ok:
  assumes "bn_fit a" "bn_fit rr" "ctx_reachable c (l # ls)" "unat t < ctx_count c"
    "sqr_into alloc rr a t c = (ok, rr', c')"
  shows "bn_fit rr' \<and> bn_static rr' = bn_static rr \<and> (\<exists>l'. ctx_reachable c' (l' # ls)) \<and>
    (ok \<longrightarrow> bn_val rr' = bn_val a * bn_val a)"
proof -
  let ?al = "bn_width a" and ?a = "bn_used a"
  obtain k q where w: "bn_wexpand alloc rr (2 * ?al) = (k, q)" by fastforce
  note e = bn_wexpand_ok [OF w assms(2)] and st = bn_wexpand_static [OF w]
  obtain k2 c2 sq where s: "(if ?al = 4 then (True, c, bn_sqr_comba4 ?a)
           else if ?al = 8 then (True, c, bn_sqr_comba8 ?a)
           else if ?al < 16 then (True, c, bn_sqr_normal ?a ?al)
           else if ?al \<noteq> 0 \<and> ?al AND (?al - 1) = 0 then
             let (ok, ctx) = ctx_wexpand alloc c t (?al * 4)
             in (ok, ctx, if ok then bn_sqr_recursive ?a ?al else [])
           else
             let (ok, ctx) = ctx_wexpand alloc c t (2 * ?al)
             in (ok, ctx, if ok then bn_sqr_normal ?a ?al else [])) = (k2, c2, sq)"
    by (rule prod_cases3)
  have la: "length ?a = ?al" using assms(1) by simp
  have sq: "ctx_reachable c2 (l # ls) \<and> (k2 \<longrightarrow> words_val sq = words_val ?a * words_val ?a \<and> length sq = ?al + ?al)"
  proof -
    consider "?al = 4" | "?al = 8" | "?al \<noteq> 4" "?al \<noteq> 8" "?al < 16"
      | "16 \<le> ?al" "?al AND (?al - 1) = 0" | "16 \<le> ?al" "?al AND (?al - 1) \<noteq> 0" by linarith
    then show ?thesis
    proof cases
      case 1
      with s assms(3) bn_sqr_comba4_val [of ?a] la show ?thesis by auto
    next
      case 2
      with s assms(3) bn_sqr_comba8_val [of ?a] la show ?thesis by auto
    next
      case 3
      with s assms(3) bn_sqr_normal_val [OF la] show ?thesis by auto
    next
      case 4
      obtain k3 c3 where x: "ctx_wexpand alloc c t (?al * 4) = (k3, c3)" by fastforce
      obtain i where "?al = 2 ^ i" using power_of_two [OF 4(2)] 4(1) by auto
      with 4 s x ctx_wexpand_reachable [OF assms(3,4) x] bn_sqr_recursive_val [OF _ la, of i]
      show ?thesis by auto
    next
      case 5
      obtain k3 c3 where x: "ctx_wexpand alloc c t (2 * ?al) = (k3, c3)" by fastforce
      with 5 s ctx_wexpand_reachable [OF assms(3,4) x] bn_sqr_normal_val [OF la] show ?thesis by auto
    qed
  qed
  show ?thesis
  proof (cases k)
    case False
    with assms(5) w e st assms(3) show ?thesis by (auto simp: sqr_into_def Let_def)
  next
    case True
    have r: "(ok, rr', c') = (if \<not> k2 then (False, q, c2)
        else (True, q\<lparr>bn_d := put_words (bn_d q) sq, bn_neg := False, bn_width := 2 * ?al\<rparr>, c2))"
      using assms(5) w True s by (simp add: sqr_into_def Let_def)
    show ?thesis
    proof (cases k2)
      case False
      with r e(1) st sq show ?thesis by auto
    next
      case k2: True
      let ?r = "q\<lparr>bn_d := put_words (bn_d q) sq, bn_neg := False, bn_width := 2 * ?al\<rparr>"
      have l: "length sq \<le> length (bn_d q)" "length (bn_d q) \<le> BN_MAX_WORDS"
        using e(1,5) True sq k2 by (auto simp: bn_fit_def)
      from bn_put_ok [OF l, of ?r] sq k2 have "bn_fit ?r" "bn_abs ?r = words_val ?a * words_val ?a" by simp_all
      with r k2 sq st show ?thesis by (auto simp: bn_val_def bn_abs_def [of a])
    qed
  qed
qed

text \<open>Both computations of a result keep the contract.\<close>

lemma put_product_succeeds:
  "sz \<le> BN_MAX_WORDS \<Longrightarrow> \<not> bn_static rr \<Longrightarrow> alloc sz \<noteq> None \<Longrightarrow> fst (put_product alloc rr sz wd ws)"
  using bn_wexpand_succeeds [of sz rr alloc] by (simp add: put_product_def case_prod_beta)

lemma ctx_wexpand_succeeds:
  "w \<le> BN_MAX_WORDS \<Longrightarrow> \<not> bn_static (ctx_bn c t) \<Longrightarrow> alloc w \<noteq> None \<Longrightarrow> fst (ctx_wexpand alloc c t w)"
  using bn_wexpand_succeeds [of w "ctx_bn c t" alloc] by (simp add: ctx_wexpand_def case_prod_beta)

lemma mul_into_succeeds:
  assumes "bn_fit a" "bn_fit b" "bn_width a \<noteq> 0" "bn_width b \<noteq> 0" "8 * max (bn_width a) (bn_width b) \<le> BN_MAX_WORDS"
    "\<And>n. mem_ok n" "\<And>n. alloc n \<noteq> None" "\<not> bn_static rr" "ctx_reachable c (l # ls)" "\<not> ctx_error c"
    "ctx_count c < 2 ^ 59"
  shows "fst (mul_into mem_ok alloc rr a b c)"
proof -
  let ?m = "if bn_width a \<ge> bn_width b then bn_width a else bn_width b"
  let ?j = "(2 :: nat) ^ (BN_num_bits_word (of_nat ?m) - 1)"
  have j: "?j \<le> ?m" using assms(1-3) by (intro largest_power(1)) (auto simp: bn_fit_def)
  have m: "8 * ?m \<le> BN_MAX_WORDS" using assms(5) by (simp add: max_def split: if_splits)
  obtain t c1 where g: "BN_CTX_get mem_ok c = (Some t, c1)"
    using BN_CTX_get_succeeds [of c "l # ls" mem_ok] assms(6,9-11) by blast
  have t: "\<not> bn_static (ctx_bn c1 t)" using ctx_get_reachable(2) [OF assms(9) g, of t] by blast
  have sizes: "?j * 8 \<le> BN_MAX_WORDS" "?j * 4 \<le> BN_MAX_WORDS" "?j * 2 \<le> BN_MAX_WORDS" "16 \<le> BN_MAX_WORDS"
    "bn_width a + bn_width b \<le> BN_MAX_WORDS"
    using j m by (auto simp: BN_MAX_WORDS_def split: if_splits)
  note [simp] = put_product_succeeds [OF _ _ assms(7)] ctx_wexpand_succeeds [where alloc = alloc, OF _ t assms(7)]
  show ?thesis
    unfolding mul_into_def Let_def g case_prod_beta option.case prod.case fst_conv snd_conv
    using assms(8) sizes by (simp only: if_split) simp
qed

interpretation mul: total_writer
  "\<lambda>(mem_ok, alloc, a, b) rr. mul_into mem_ok alloc rr a b"
  "\<lambda>(mem_ok, alloc, a, b). bn_fit a \<and> bn_fit b \<and> bn_width a \<noteq> 0 \<and> bn_width b \<noteq> 0"
  "\<lambda>(mem_ok, alloc, a, b). signed_product a b"
  "\<lambda>(mem_ok, alloc, a, b). (\<forall>n. mem_ok n) \<and> (\<forall>n. alloc n \<noteq> None) \<and>
     8 * max (bn_width a) (bn_width b) \<le> BN_MAX_WORDS"
proof (unfold_locales, goal_cases)
  case (1 x rr c l ls ok rr' c')
  obtain mem_ok alloc a b where "x = (mem_ok, alloc, a, b)" by (cases x)
  with 1 mul_into_ok [of a b rr c l ls mem_ok alloc ok rr' c'] show ?case by simp
next
  case (2 x rr c l ls)
  obtain mem_ok alloc a b where "x = (mem_ok, alloc, a, b)" by (cases x)
  with 2 mul_into_succeeds [of a b mem_ok alloc rr c l ls] show ?case by simp
qed

definition sqr_compute ::
    "(u64 \<Rightarrow> bool) \<Rightarrow> words_alloc \<Rightarrow> bignum \<Rightarrow> bignum \<Rightarrow> bn_ctx \<Rightarrow> bool \<times> bignum \<times> bn_ctx" where
  "sqr_compute mem_ok alloc a rr ctx =
     (case BN_CTX_get mem_ok ctx of
        (None, ctx) \<Rightarrow> (False, rr, ctx)
      | (Some tmp, ctx) \<Rightarrow> sqr_into alloc rr a tmp ctx)"

lemma sqr_compute_ok:
  assumes "bn_fit a" "bn_fit rr" "ctx_reachable c (l # ls)" "sqr_compute mem_ok alloc a rr c = (ok, rr', c')"
  shows "bn_fit rr' \<and> bn_static rr' = bn_static rr \<and> (\<exists>l'. ctx_reachable c' (l' # ls)) \<and>
    (ok \<longrightarrow> bn_val rr' = bn_val a * bn_val a)"
proof -
  obtain p c1 where g: "BN_CTX_get mem_ok c = (p, c1)" by fastforce
  from ctx_get_reachable(1) [OF assms(3) g] obtain l1 where l1: "ctx_reachable c1 (l1 # ls)" by blast
  show ?thesis
  proof (cases p)
    case None
    with assms(2,4) g l1 show ?thesis by (auto simp: sqr_compute_def)
  next
    case (Some t)
    with assms(4) g have "sqr_into alloc rr a t c1 = (ok, rr', c')" by (simp add: sqr_compute_def)
    moreover have "unat t < ctx_count c1" using ctx_get_reachable(2) [OF assms(3) g Some] by blast
    ultimately show ?thesis using sqr_into_ok [OF assms(1,2) l1] by blast
  qed
qed

lemma sqr_compute_succeeds:
  assumes "bn_fit a" "bn_fit rr" "8 * bn_width a \<le> BN_MAX_WORDS" "\<And>n. mem_ok n" "\<And>n. alloc n \<noteq> None"
    "\<not> bn_static rr" "ctx_reachable c (l # ls)" "\<not> ctx_error c" "ctx_count c < 2 ^ 59"
  shows "fst (sqr_compute mem_ok alloc a rr c)"
proof -
  obtain t c1 where g: "BN_CTX_get mem_ok c = (Some t, c1)"
    using BN_CTX_get_succeeds [of c "l # ls" mem_ok] assms(4,7-9) by blast
  have t: "\<not> bn_static (ctx_bn c1 t)" using ctx_get_reachable(2) [OF assms(7) g, of t] by blast
  have sizes: "bn_width a * 4 \<le> BN_MAX_WORDS" "2 * bn_width a \<le> BN_MAX_WORDS"
    using assms(3) by simp_all
  note [simp] = ctx_wexpand_succeeds [where alloc = alloc, OF _ t assms(5)]
  show ?thesis
    unfolding sqr_compute_def sqr_into_def Let_def g case_prod_beta option.case prod.case fst_conv snd_conv
    using bn_wexpand_succeeds [of "2 * bn_width a" rr alloc] assms(5,6) sizes by simp
qed

interpretation sqr: total_writer
  "\<lambda>(mem_ok, alloc, a). sqr_compute mem_ok alloc a" "\<lambda>(mem_ok, alloc, a). bn_fit a"
  "\<lambda>(mem_ok, alloc, a). bn_val a * bn_val a"
  "\<lambda>(mem_ok, alloc, a). (\<forall>n. mem_ok n) \<and> (\<forall>n. alloc n \<noteq> None) \<and> 8 * bn_width a \<le> BN_MAX_WORDS"
proof (unfold_locales, goal_cases)
  case (1 x rr c l ls ok rr' c')
  obtain mem_ok alloc a where "x = (mem_ok, alloc, a)" by (cases x)
  with 1 sqr_compute_ok [of a rr c l ls mem_ok alloc ok rr' c'] show ?case by simp
next
  case (2 x rr c l ls)
  obtain mem_ok alloc a where "x = (mem_ok, alloc, a)" by (cases x)
  with 2 sqr_compute_succeeds [of a rr mem_ok alloc c l ls] show ?case by simp
qed

lemma bn_mul_impl_ok:
  assumes "bn_fit r" "bn_fit a" "bn_fit b" "ctx_reachable c ls" "bn_mul_impl mem_ok alloc aliased r a b c = (ok, r', c')"
  shows "bn_fit r' \<and> ctx_reachable c' ls \<and> (ok \<longrightarrow> bn_val r' = bn_val a * bn_val b)"
proof (cases "bn_width a = 0 \<or> bn_width b = 0")
  case True
  then have "bn_val a * bn_val b = 0" by (auto simp: bn_val_def bn_abs_def bn_used_def)
  with True assms(1,4,5) BN_zero_ok [OF assms(1)] show ?thesis by (auto simp: bn_mul_impl_def bn_ok_def)
next
  case False
  with assms mul.framed [of "(mem_ok, alloc, a, b)" r c ls mem_ok alloc aliased mem_ok ok r' c'] show ?thesis
    by (simp add: bn_mul_impl_def signed_product_eq)
qed

lemma bn_sqr_consttime_ok:
  assumes "bn_fit r" "bn_fit a" "ctx_reachable c ls" "bn_sqr_consttime mem_ok alloc aliased r a c = (ok, r', c')"
  shows "bn_fit r' \<and> ctx_reachable c' ls \<and> (ok \<longrightarrow> bn_val r' = bn_val a * bn_val a)"
proof (cases "bn_width a = 0")
  case True
  then have "bn_val a = 0" by (simp add: bn_val_def bn_abs_def bn_used_def)
  with True assms(1,3,4) BN_zero_ok [OF assms(1)] show ?thesis
    by (auto simp: bn_sqr_consttime_def bn_ok_def BN_zero_def)
next
  case False
  have f: "(\<lambda>rr ctx. case BN_CTX_get mem_ok ctx of (None, ctx) \<Rightarrow> (False, rr, ctx)
      | (Some tmp, ctx) \<Rightarrow> sqr_into alloc rr a tmp ctx) = sqr_compute mem_ok alloc a"
    by (simp add: fun_eq_iff sqr_compute_def)
  show ?thesis
    using False assms sqr.framed [of "(mem_ok, alloc, a)" r c ls mem_ok alloc aliased mem_ok ok r' c']
    by (simp add: bn_sqr_consttime_def f)
qed


text \<open>Memory and temporaries for a product or a square of numbers of at most \<open>w\<close> words.\<close>

definition can_multiply :: "(u64 \<Rightarrow> bool) \<Rightarrow> words_alloc \<Rightarrow> bignum \<Rightarrow> nat \<Rightarrow> bn_ctx \<Rightarrow> bool" where
  "can_multiply mem_ok alloc r w c \<longleftrightarrow> \<not> bn_static r \<and> 8 * w \<le> BN_MAX_WORDS \<and> (\<forall>n. mem_ok n) \<and>
     (\<forall>n. alloc n \<noteq> None) \<and> \<not> ctx_error c \<and> ctx_count c < 2 ^ 58 \<and>
     fst (BN_STACK_push mem_ok (ctx_stack c) (ctx_used c))"

lemma bn_mul_impl_succeeds:
  assumes "bn_fit r" "bn_fit a" "bn_fit b" "ctx_reachable c ls"
    "can_multiply mem_ok alloc r (max (bn_width a) (bn_width b)) c"
  shows "fst (bn_mul_impl mem_ok alloc aliased r a b c)"
proof (cases "bn_width a = 0 \<or> bn_width b = 0")
  case False
  then show ?thesis
    using assms mul.framed_succeeds [of "(mem_ok, alloc, a, b)" r c ls mem_ok alloc aliased]
    by (simp add: bn_mul_impl_def can_multiply_def case_prod_beta) blast
qed (simp add: bn_mul_impl_def)

lemma bn_sqr_consttime_succeeds:
  assumes "bn_fit r" "bn_fit a" "ctx_reachable c ls" "can_multiply mem_ok alloc r (bn_width a) c"
  shows "fst (bn_sqr_consttime mem_ok alloc aliased r a c)"
proof (cases "bn_width a = 0")
  case False
  have f: "(\<lambda>rr ctx. case BN_CTX_get mem_ok ctx of (None, ctx) \<Rightarrow> (False, rr, ctx)
      | (Some tmp, ctx) \<Rightarrow> sqr_into alloc rr a tmp ctx) = sqr_compute mem_ok alloc a"
    by (simp add: fun_eq_iff sqr_compute_def)
  show ?thesis
    using False assms sqr.framed_succeeds [of "(mem_ok, alloc, a)" r c ls mem_ok alloc aliased]
    by (simp add: bn_sqr_consttime_def can_multiply_def f) (simp add: case_prod_beta, blast)
qed (simp add: bn_sqr_consttime_def)

lemma minimized:
  assumes "bn_fit q" "ctx_reachable c' ls" "k \<longrightarrow> bn_val q = v"
    "(if \<not> k then (False, q, c') else (True, bn_set_minimal_width q, c')) = (ok, r', d)"
  shows "ok = k \<and> ctx_reachable d ls \<and> (ok \<longrightarrow> bn_ok r' \<and> bn_val r' = v)"
  using assms bn_set_minimal_width_ok [OF assms(1)] by (auto split: if_splits)

lemma BN_mul_ok:
  assumes "bn_fit r" "bn_fit a" "bn_fit b" "ctx_reachable c ls" "BN_mul mem_ok alloc aliased r a b c = (ok, r', c')"
  shows "ctx_reachable c' ls \<and> (ok \<longrightarrow> bn_ok r' \<and> bn_val r' = bn_val a * bn_val b) \<and>
    (can_multiply mem_ok alloc r (max (bn_width a) (bn_width b)) c \<longrightarrow> ok)"
proof -
  obtain k q c1 where m: "bn_mul_impl mem_ok alloc aliased r a b c = (k, q, c1)" by (rule prod_cases3)
  from bn_mul_impl_ok [OF assms(1-4) m] have q: "bn_fit q" "ctx_reachable c1 ls" "k \<longrightarrow> bn_val q = bn_val a * bn_val b"
    by blast+
  from minimized [OF q] assms(5) m bn_mul_impl_succeeds [OF assms(1-4), of mem_ok alloc aliased] show ?thesis
    by (auto simp: BN_mul_def split: if_splits)
qed

lemma BN_sqr_ok:
  assumes "bn_fit r" "bn_fit a" "ctx_reachable c ls" "BN_sqr mem_ok alloc aliased r a c = (ok, r', c')"
  shows "ctx_reachable c' ls \<and> (ok \<longrightarrow> bn_ok r' \<and> bn_val r' = bn_val a * bn_val a) \<and>
    (can_multiply mem_ok alloc r (bn_width a) c \<longrightarrow> ok)"
proof -
  obtain k q c1 where m: "bn_sqr_consttime mem_ok alloc aliased r a c = (k, q, c1)" by (rule prod_cases3)
  from bn_sqr_consttime_ok [OF assms(1-3) m] have q: "bn_fit q" "ctx_reachable c1 ls" "k \<longrightarrow> bn_val q = bn_val a * bn_val a"
    by blast+
  from minimized [OF q] assms(4) m bn_sqr_consttime_succeeds [OF assms(1-3), of mem_ok alloc aliased] show ?thesis
    by (auto simp: BN_sqr_def split: if_splits)
qed

lemma bn_mul_small_ok:
  assumes "length a = m" "length b = n"
  shows "bn_mul_small k a m b n = None \<longleftrightarrow> k \<noteq> m + n"
    "bn_mul_small k a m b n = Some ws \<Longrightarrow> words_val ws = words_val a * words_val b \<and> length ws = k"
  using assms bn_mul_comba8_val [of a b] bn_mul_normal_val [OF assms] by (auto simp: bn_mul_small_def split: if_splits)

lemma bn_sqr_small_ok:
  assumes "length a = m" "bn_sqr_small k a m = Some ws"
  shows "words_val ws = words_val a * words_val a \<and> length ws = k"
  using assms bn_sqr_comba8_val [of a] bn_sqr_comba4_val [of a] bn_sqr_normal_val [OF assms(1)]
  by (auto simp: bn_sqr_small_def split: if_splits)


lemma BN_mul_word_ok:
  assumes "bn_ok b" "BN_mul_word alloc b w = (ok, r)"
  shows "ok \<longrightarrow> bn_ok r \<and> bn_val r = bn_val b * int (unat w)"
proof -
  have f: "bn_fit b" using assms(1) by (simp add: bn_ok_def)
  consider "bn_width b = 0" | "bn_width b \<noteq> 0" "w = 0" | "bn_width b \<noteq> 0" "w \<noteq> 0" by blast
  then show ?thesis
  proof cases
    case 1
    then have "bn_val b = 0" by (simp add: bn_val_def bn_abs_def bn_used_def)
    with 1 assms show ?thesis by (auto simp: BN_mul_word_def)
  next
    case 2
    with assms(2) BN_zero_ok [OF f] show ?thesis by (auto simp: BN_mul_word_def)
  next
    case 3
    obtain u c where u: "bn_mul_words (bn_d b) (bn_width b) w = (u, c)" by fastforce
    then have "bn_mul_words (bn_used b) (bn_width b) w = (u, c)" by (simp add: bn_mul_words_def bn_used_def)
    from bn_mul_words_val [OF this] f
    have v: "words_val u + 2 ^ (64 * bn_width b) * unat c = unat w * bn_abs b" "length u = bn_width b"
      by (simp_all add: bn_abs_def)
    let ?b = "b\<lparr>bn_d := put_words (bn_d b) u\<rparr>"
    have l: "length u \<le> length (bn_d b)" "length (bn_d b) \<le> BN_MAX_WORDS" using f v(2) by (simp_all add: bn_fit_def)
    from bn_put_ok [OF l, of ?b] v(2) have a: "bn_fit ?b" "bn_abs ?b = words_val u" "bn_used ?b = u" by simp_all
    have wpos: "0 < unat w" using 3(2) by (simp add: unat_gt_0)
    have fin: "bn_ok q \<and> bn_val q = bn_val b * int (unat w)"
      if "bn_fit q" "bn_abs q = unat w * bn_abs b" "bn_neg q = bn_neg b" for q
      using that assms(1) wpos by (auto simp: bn_ok_def bn_val_def simp del: of_nat_unat)
    show ?thesis
    proof (cases "c = 0")
      case True
      with 3 assms(2) u have "r = ?b" by (simp add: BN_mul_word_def)
      with fin [of ?b] a v(1) True show ?thesis by simp
    next
      case False
      obtain k q where q: "bn_wexpand alloc ?b (bn_width ?b + 1) = (k, q)" by fastforce
      note e = bn_wexpand_ok [OF q a(1)]
      show ?thesis
      proof (cases k)
        case no: False
        with 3 assms(2) u q False show ?thesis by (simp add: BN_mul_word_def)
      next
        case True
        let ?r = "q\<lparr>bn_d := (bn_d q)[bn_width q := c], bn_width := bn_width q + 1\<rparr>"
        have r: "r = ?r" using 3 assms(2) u q False True by (simp add: BN_mul_word_def)
        have "take (bn_width b + 1) ((bn_d q)[bn_width b := c]) = u @ [c]"
          using e(1,2,3,5) True a(3) v(2) by (simp add: bn_used_def take_Suc_conv_app_nth)
        then have "bn_abs ?r = words_val (u @ [c])" using e(2) by (simp add: bn_abs_def bn_used_def)
        moreover have "bn_fit ?r" using e(1,2,5) True by (simp add: bn_fit_def)
        ultimately show ?thesis using fin [of ?r] v e(4) r by (simp add: words_val_append)
      qed
    qed
  qed
qed

lemma bn_abs_sub_consttime_ok:
  assumes "bn_fit r" "bn_fit a" "bn_fit b" "bn_abs_sub_consttime mem_ok alloc r a b c = (ok, r', c')"
  shows "ok \<longrightarrow> bn_fit r' \<and> bn_abs r' = absdiff (bn_abs a) (bn_abs b) \<and> bn_neg r' = bn_neg r"
proof
  assume ok
  let ?cl = "if bn_width a < bn_width b then bn_width a else bn_width b"
    and ?dl = "int (bn_width a) - int (bn_width b)"
    and ?rl = "if bn_width a < bn_width b then bn_width b else bn_width a"
  let ?ws = "fst (bn_abs_sub_part_words (bn_used a) (bn_used b) ?cl ?dl)"
  obtain q where w: "bn_wexpand alloc r ?rl = (True, q)" and r: "r' = q\<lparr>bn_d := put_words (bn_d q) ?ws, bn_width := ?rl\<rparr>"
    using assms(4) \<open>ok\<close>
    by (auto simp: bn_abs_sub_consttime_def Let_def case_prod_beta split: option.splits if_splits simp: prod_eq_iff)
  note e = bn_wexpand_ok [OF w assms(1)]
  have "length (bn_used a) = ?cl + nat ?dl" "length (bn_used b) = ?cl + nat (- ?dl)" using assms(2,3) by auto
  note v = bn_abs_sub_part_words_val [OF prod.collapse [symmetric] this]
  have n: "length ?ws = ?rl" using v(2) by auto
  have l: "length ?ws \<le> length (bn_d q)" "length (bn_d q) \<le> BN_MAX_WORDS"
    using e(1,5) n by (auto simp: bn_fit_def)
  have "bn_d r' = put_words (bn_d q) ?ws" "bn_width r' = length ?ws" using r n by simp_all
  from bn_put_ok [OF l this] v(1) r e(4)
  show "bn_fit r' \<and> bn_abs r' = absdiff (bn_abs a) (bn_abs b) \<and> bn_neg r' = bn_neg r"
    by (simp add: bn_abs_def)
qed


section \<open>Properties\<close>

text \<open>C2: \<open>BN_mul\<close> computes the product with its sign, never a negative zero, for operands of any widths and
  by each of its methods (unrolled, schoolbook, Karatsuba for equal and for different sizes), also into one
  of its operands; it gives back every temporary that it took, and succeeds when memory can be had.\<close>

theorem BN_mul_correct:
  assumes "bn_fit r" "bn_ok a" "bn_ok b" "ctx_reachable c ls" "BN_mul mem_ok alloc aliased r a b c = (ok, r', c')"
  shows "ctx_reachable c' ls \<and> (ok \<longrightarrow> bn_ok r' \<and> bn_val r' = bn_val a * bn_val b) \<and>
    (can_multiply mem_ok alloc r (max (bn_width a) (bn_width b)) c \<longrightarrow> ok)"
  using BN_mul_ok [OF assms(1) _ _ assms(4,5)] assms(2,3) by (simp add: bn_ok_def)

definition zero_block :: words_alloc where "zero_block n = Some (\<lambda>_. 0)"

lemma can_multiply_new: "8 * w \<le> BN_MAX_WORDS \<Longrightarrow> can_multiply (\<lambda>_. True) zero_block BN_init w BN_CTX_new"
  by (simp add: can_multiply_def zero_block_def BN_init_def BN_CTX_new_def ctx_count_def BN_STACK_push_def
      BN_STACK_init_def BN_CTX_START_FRAMES_def Let_def)

definition big_a :: bignum where
  "big_a = \<lparr>bn_d = replicate 15 0 @ [1], bn_width = 16, bn_neg = True, bn_static = False\<rparr>"
definition big_b :: bignum where
  "big_b = \<lparr>bn_d = replicate 16 0 @ [3, 7], bn_width = 17, bn_neg = False, bn_static = False\<rparr>"

lemma big_values: "bn_ok big_a" "bn_val big_a = - (2 ^ 960)" "bn_ok big_b" "bn_val big_b = 3 * 2 ^ 1024" "bn_fit BN_init"
  by (simp_all add: big_a_def big_b_def bn_ok_def bn_fit_def BN_MAX_WORDS_def bn_val_def bn_abs_def bn_used_def
      words_val_append BN_init_def)

theorem BN_mul_correct_witness:
  "fst (BN_mul (\<lambda>_. True) zero_block False BN_init big_a big_b BN_CTX_new) \<and>
   bn_val (fst (snd (BN_mul (\<lambda>_. True) zero_block False BN_init big_a big_b BN_CTX_new))) = - (3 * 2 ^ 1984)"
proof -
  obtain ok r c where m: "BN_mul (\<lambda>_. True) zero_block False BN_init big_a big_b BN_CTX_new = (ok, r, c)"
    by (rule prod_cases3)
  have w: "8 * max (bn_width big_a) (bn_width big_b) \<le> BN_MAX_WORDS"
    by (simp add: big_a_def big_b_def BN_MAX_WORDS_def)
  from BN_mul_correct [OF big_values(5,1,3) ctx_reachable.new m] can_multiply_new [OF w] m big_values(2,4)
  show ?thesis by simp
qed

text \<open>C33: \<open>BN_sqr\<close> computes the square, by each of its methods and also in place, gives back its temporaries,
  and succeeds when memory can be had.\<close>

theorem BN_sqr_correct:
  assumes "bn_fit r" "bn_ok a" "ctx_reachable c ls" "BN_sqr mem_ok alloc aliased r a c = (ok, r', c')"
  shows "ctx_reachable c' ls \<and> (ok \<longrightarrow> bn_ok r' \<and> bn_val r' = bn_val a * bn_val a) \<and>
    (can_multiply mem_ok alloc r (bn_width a) c \<longrightarrow> ok)"
  using BN_sqr_ok [OF assms(1) _ assms(3,4)] assms(2) by (simp add: bn_ok_def)

theorem BN_sqr_correct_witness:
  "fst (BN_sqr (\<lambda>_. True) zero_block True BN_init big_b BN_CTX_new) \<and>
   bn_val (fst (snd (BN_sqr (\<lambda>_. True) zero_block True BN_init big_b BN_CTX_new))) = 9 * 2 ^ 2048"
proof -
  obtain ok r c where m: "BN_sqr (\<lambda>_. True) zero_block True BN_init big_b BN_CTX_new = (ok, r, c)"
    by (rule prod_cases3)
  have w: "8 * bn_width big_b \<le> BN_MAX_WORDS" by (simp add: big_b_def BN_MAX_WORDS_def)
  from BN_sqr_correct [OF big_values(5,3) ctx_reachable.new m] can_multiply_new [OF w] m big_values(4)
  show ?thesis by simp
qed

text \<open>C39: \<open>BN_uadd\<close> and \<open>bn_abs_sub_consttime\<close>, whose results are meant to be non-negative, leave the sign that
  the result had before the call.\<close>

theorem unsigned_results_keep_sign:
  assumes "bn_fit r" "bn_fit a" "bn_fit b"
  shows "(BN_uadd alloc r a b = (True, r1) \<longrightarrow>
      bn_val r1 = (if bn_neg r then - 1 else 1) * (\<bar>bn_val a\<bar> + \<bar>bn_val b\<bar>)) \<and>
    (bn_abs_sub_consttime mem_ok alloc r a b c = (True, r2, c') \<longrightarrow>
      bn_val r2 = (if bn_neg r then - 1 else 1) * \<bar>\<bar>bn_val a\<bar> - \<bar>bn_val b\<bar>\<bar>)"
proof (intro conjI impI)
  have v: "\<bar>bn_val x\<bar> = int (bn_abs x)" for x by (simp add: bn_val_def)
  assume u: "BN_uadd alloc r a b = (True, r1)"
  then obtain q where q: "bn_uadd_consttime alloc r a b = (True, q)" "r1 = bn_set_minimal_width q"
    by (auto simp: BN_uadd_def split: prod.splits if_splits)
  from bn_uadd_consttime_ok [OF q(1) assms] bn_set_minimal_width_ok(2) [of q] q(2)
  show "bn_val r1 = (if bn_neg r then - 1 else 1) * (\<bar>bn_val a\<bar> + \<bar>bn_val b\<bar>)" unfolding v by (simp add: bn_val_def [of q])
next
  have v: "\<bar>bn_val x\<bar> = int (bn_abs x)" for x by (simp add: bn_val_def)
  assume "bn_abs_sub_consttime mem_ok alloc r a b c = (True, r2, c')"
  from bn_abs_sub_consttime_ok [OF assms this]
  show "bn_val r2 = (if bn_neg r then - 1 else 1) * \<bar>\<bar>bn_val a\<bar> - \<bar>bn_val b\<bar>\<bar>"
    unfolding v by (simp add: bn_val_def [of r2] absdiff_def)
qed

theorem unsigned_results_keep_sign_witness:
  "bn_val (snd (BN_uadd zero_block \<lparr>bn_d = [5, 0], bn_width = 1, bn_neg = True, bn_static = False\<rparr>
      \<lparr>bn_d = [1], bn_width = 1, bn_neg = False, bn_static = False\<rparr>
      \<lparr>bn_d = [2], bn_width = 1, bn_neg = False, bn_static = False\<rparr>)) = - 3"
proof -
  let ?r = "\<lparr>bn_d = [5, 0], bn_width = 1, bn_neg = True, bn_static = False\<rparr>"
    and ?a = "\<lparr>bn_d = [1], bn_width = 1, bn_neg = False, bn_static = False\<rparr>"
    and ?b = "\<lparr>bn_d = [2], bn_width = 1, bn_neg = False, bn_static = False\<rparr>"
  have "fst (BN_uadd zero_block ?r ?a ?b)" by code_simp
  then obtain r1 where u: "BN_uadd zero_block ?r ?a ?b = (True, r1)" by (cases "BN_uadd zero_block ?r ?a ?b") auto
  have "bn_fit ?r" "bn_fit ?a" "bn_fit ?b" by (simp_all add: bn_fit_def BN_MAX_WORDS_def)
  from unsigned_results_keep_sign [OF this, of zero_block r1] u show ?thesis
    by (simp add: bn_val_def bn_abs_def bn_used_def)
qed

end
