(* ===== verification/Bn_Shift.thy ===== *)
theory Bn_Shift
  imports Bn_Ctx
begin

text \<open>
  Shifts to the left (\<open>crypto/fipsmodule/bn/shift.c\<close>).  \<open>BN_lshift\<close> writes words that lie above those that it
  still has to read, so that its loop is modelled on the array itself: \<open>f = None\<close> says that the result and
  the operand are one array.
\<close>

section \<open>The operations\<close>

fun lshift_loop :: "words option \<Rightarrow> nat \<Rightarrow> nat \<Rightarrow> nat \<Rightarrow> words \<Rightarrow> words" where
  "lshift_loop f 0 nw lb t = t"
| "lshift_loop f (Suc i) nw lb t =
     (let l = (case f of None \<Rightarrow> t | Some f \<Rightarrow> f) ! i;
          t = t[nw + i + 1 := t ! (nw + i + 1) OR drop_bit (64 - lb) l];
          t = t[nw + i := push_bit lb l]
      in lshift_loop f i nw lb t)"

fun lshift_words_loop :: "words option \<Rightarrow> nat \<Rightarrow> nat \<Rightarrow> words \<Rightarrow> words" where
  "lshift_words_loop f 0 nw t = t"
| "lshift_words_loop f (Suc i) nw t =
     lshift_words_loop f i nw (t[nw + i := (case f of None \<Rightarrow> t | Some f \<Rightarrow> f) ! i])"

definition BN_lshift :: "words_alloc \<Rightarrow> bool \<Rightarrow> bignum \<Rightarrow> bignum \<Rightarrow> int \<Rightarrow> bool \<times> bignum" where
  "BN_lshift alloc aliased r a n =
     (if n < 0 then (False, r)
      else
        let r = r\<lparr>bn_neg := bn_neg a\<rparr>; nw = nat n div 64; (ok, r) = bn_wexpand alloc r (bn_width a + nw + 1) in
        if \<not> ok then (False, r)
        else
          let lb = nat n mod 64;
              f = (if aliased then None else Some (bn_d a));
              t = (bn_d r)[bn_width a + nw := 0];
              t = (if lb = 0 then lshift_words_loop f (bn_width a) nw t else lshift_loop f (bn_width a) nw lb t);
              t = put_words t (replicate nw 0)
          in (True, bn_set_minimal_width (r\<lparr>bn_d := t, bn_width := bn_width a + nw + 1\<rparr>)))"

fun lshift1_loop :: "u64 \<Rightarrow> words \<Rightarrow> words \<times> u64" where
  "lshift1_loop c [] = ([], c)"
| "lshift1_loop c (t # a) =
     (let (r, c') = lshift1_loop (drop_bit 63 t) a in ((push_bit 1 t OR c) # r, c'))"

definition BN_lshift1 :: "words_alloc \<Rightarrow> bignum \<Rightarrow> bignum \<Rightarrow> bool \<times> bignum" where
  "BN_lshift1 alloc r a =
     (let r = r\<lparr>bn_neg := bn_neg a\<rparr>; (ok, r) = bn_wexpand alloc r (bn_width a + 1) in
      if \<not> ok then (False, r)
      else
        let r = r\<lparr>bn_width := bn_width a\<rparr>; (rp, c) = lshift1_loop 0 (bn_used a) in
        if c \<noteq> 0 then (True, r\<lparr>bn_d := put_words (bn_d r) (rp @ [1]), bn_width := bn_width a + 1\<rparr>)
        else (True, r\<lparr>bn_d := put_words (bn_d r) rp\<rparr>))"


section \<open>Shifts to the left\<close>

text \<open>What a shift by fewer than 64 bits makes of the words, with the bits that come in from below.\<close>

fun shl :: "nat \<Rightarrow> u64 \<Rightarrow> words \<Rightarrow> words" where
  "shl k c [] = [c]"
| "shl k c (x # a) = (push_bit k x OR c) # shl k (drop_bit (64 - k) x) a"

lemma unat_push_or:
  fixes x c :: u64
  assumes "unat c < 2 ^ k" "k < 64"
  shows "unat (push_bit k x OR c) + 2 ^ 64 * (unat x div 2 ^ (64 - k)) = 2 ^ k * unat x + unat c"
proof -
  note k = assms(2)
  have "push_bit k x AND c = 0"
  proof (rule bit_eqI)
    fix n
    have "\<not> bit c n" if "k \<le> n"
    proof -
      have "unat c < 2 ^ n" using assms(1) that by (meson less_le_trans one_le_numeral power_increasing)
      then have "\<not> bit (unat c) n" by (simp add: bit_nat_def)
      then show ?thesis by (simp add: bit_unsigned_iff)
    qed
    then show "bit (push_bit k x AND c) n = bit 0 n" by (auto simp: bit_and_iff bit_push_bit_iff)
  qed
  then have "push_bit k x OR c = push_bit k x + c" by (simp add: disjunctive_add_eq_or)
  moreover have p: "unat (push_bit k x) = 2 ^ k * (unat x mod 2 ^ (64 - k))"
  proof -
    have "unat (push_bit k x) = take_bit 64 (push_bit k (unat x))" by (simp add: unsigned_push_bit_eq)
    also have "\<dots> = (2 ^ k * unat x) mod (2 ^ k * 2 ^ (64 - k))"
    proof -
      have "2 ^ k * 2 ^ (64 - k) = (2 :: nat) ^ 64" using k by (simp flip: power_add)
      then show ?thesis unfolding push_bit_eq_mult take_bit_eq_mod by (metis mult.commute)
    qed
    also have "\<dots> = 2 ^ k * (unat x mod 2 ^ (64 - k))" by (rule mult_mod_right [symmetric])
    finally show ?thesis .
  qed
  moreover have "unat (push_bit k x) + unat c < 2 ^ 64"
  proof -
    have "unat x mod 2 ^ (64 - k) + 1 \<le> 2 ^ (64 - k)" by (simp add: Suc_leI)
    then have "2 ^ k * (unat x mod 2 ^ (64 - k) + 1) \<le> 2 ^ k * 2 ^ (64 - k)" by (rule mult_le_mono2)
    moreover have "2 ^ k * 2 ^ (64 - k) = (2 :: nat) ^ 64" using k by (simp flip: power_add)
    ultimately show ?thesis using assms(1) p by (simp add: distrib_left)
  qed
  ultimately have "unat (push_bit k x OR c) = 2 ^ k * (unat x mod 2 ^ (64 - k)) + unat c"
    by (simp add: unat_word_ariths)
  moreover have "2 ^ 64 * (unat x div 2 ^ (64 - k)) = 2 ^ k * (2 ^ (64 - k) * (unat x div 2 ^ (64 - k)))"
    using k by (simp flip: power_add mult.assoc)
  ultimately have "unat (push_bit k x OR c) + 2 ^ 64 * (unat x div 2 ^ (64 - k)) =
      2 ^ k * (2 ^ (64 - k) * (unat x div 2 ^ (64 - k)) + unat x mod 2 ^ (64 - k)) + unat c"
    unfolding distrib_left by linarith
  then show ?thesis unfolding mult_div_mod_eq .
qed

lemma shl_val:
  assumes "unat c < 2 ^ k" "0 < k" "k < 64"
  shows "words_val (shl k c a) = 2 ^ k * words_val a + unat c \<and> length (shl k c a) = length a + 1"
  using assms(1)
proof (induction a arbitrary: c)
  case (Cons x a)
  have d: "unat (drop_bit (64 - k) x) = unat x div 2 ^ (64 - k)" by (simp add: unat_drop_bit)
  moreover have "unat x div 2 ^ (64 - k) < 2 ^ k"
    using unat_u64_less [of x] assms(3) by (intro less_mult_imp_div_less) (simp flip: power_add)
  ultimately have "words_val (shl k (drop_bit (64 - k) x) a) = 2 ^ k * words_val a + unat x div 2 ^ (64 - k)"
    "length (shl k (drop_bit (64 - k) x) a) = length a + 1" using Cons.IH by simp_all
  with unat_push_or [OF Cons.prems assms(3), of x] show ?case by (simp add: algebra_simps)
qed simp

lemma shl_carry: "shl k c a = (hd (shl k 0 a) OR c) # tl (shl k 0 a)"
  by (cases a) simp_all

lemma take_Suc_eqD:
  assumes "take (Suc i) xs = take (Suc i) ys"
  shows "take i xs = take i ys"
proof -
  have "take i xs = take i (take (Suc i) xs)" by simp
  also have "\<dots> = take i ys" unfolding assms by simp
  finally show ?thesis .
qed

lemma drop_update_after: "j < length t \<Longrightarrow> drop j (t[j := v]) = v # drop (j + 1) t"
  by (simp add: drop_update_swap Cons_nth_drop_Suc [symmetric])

text \<open>The loop fills the array from the top: behind word \<open>nw + i\<close> stands the shifted upper part.\<close>

lemma lshift_loop_shl:
  assumes "i \<le> length F" "nw + length F < length t" "case f of None \<Rightarrow> take i t = take i F | Some g \<Rightarrow> take i g = take i F"
    "take (length F - i + 1) (drop (nw + i) t) = shl lb 0 (drop i F)" "i \<le> length (case f of None \<Rightarrow> t | Some g \<Rightarrow> g)"
  shows "length (lshift_loop f i nw lb t) = length t \<and>
    take (length F + 1) (drop nw (lshift_loop f i nw lb t)) = shl lb 0 F"
  using assms
proof (induction i arbitrary: t)
  case 0
  then show ?case by simp
next
  case (Suc i)
  let ?src = "case f of None \<Rightarrow> t | Some f \<Rightarrow> f"
  have l: "?src ! i = F ! i"
  proof -
    have "take (Suc i) ?src = take (Suc i) F" using Suc.prems(3) by (cases f) simp_all
    then have "take (Suc i) ?src ! i = take (Suc i) F ! i" by simp
    then show ?thesis by simp
  qed
  let ?x = "F ! i"
  let ?t1 = "t[nw + i + 1 := t ! (nw + i + 1) OR drop_bit (64 - lb) ?x]"
  let ?t2 = "?t1[nw + i := push_bit lb ?x]"
  have n: "nw + i + 1 < length t" using Suc.prems(1,2) by simp
  have seg: "take (length F - i) (drop (nw + i + 1) t) = shl lb 0 (drop (Suc i) F)"
    using Suc.prems(1,4) by (simp add: Suc_diff_le Suc_diff_Suc)
  have "take (length F - i) (drop (nw + i + 1) ?t1) = shl lb (drop_bit (64 - lb) ?x) (drop (Suc i) F)"
  proof -
    obtain m where m: "length F - i = Suc m" using Suc.prems(1) by (cases "length F - i") auto
    have "drop (nw + i + 1) t = t ! (nw + i + 1) # drop (nw + i + 2) t" using n by (simp add: Cons_nth_drop_Suc)
    with seg m have "t ! (nw + i + 1) = hd (shl lb 0 (drop (Suc i) F))"
      "take m (drop (nw + i + 2) t) = tl (shl lb 0 (drop (Suc i) F))" by (metis take_Suc_Cons list.sel(1), metis take_Suc_Cons list.sel(3))
    moreover have "drop (nw + i + 1) ?t1 = (t ! (nw + i + 1) OR drop_bit (64 - lb) ?x) # drop (nw + i + 2) t"
      using drop_update_after [OF n] by simp
    ultimately show ?thesis unfolding m shl_carry [of lb "drop_bit (64 - lb) ?x"] by simp
  qed
  moreover have "drop (nw + i) ?t2 = push_bit lb ?x # drop (nw + i + 1) ?t1"
    using n by (intro drop_update_after) simp
  moreover have "drop i F = ?x # drop (Suc i) F" using Suc.prems(1) by (simp add: Cons_nth_drop_Suc)
  ultimately have s: "take (length F - i + 1) (drop (nw + i) ?t2) = shl lb 0 (drop i F)" by simp
  have "case f of None \<Rightarrow> take i ?t2 = take i F | Some g \<Rightarrow> take i g = take i F"
  proof (cases f)
    case None
    with Suc.prems(3) have "take (Suc i) t = take (Suc i) F" by simp
    then have "take i t = take i F" by (rule take_Suc_eqD)
    with None show ?thesis by (simp add: take_update_cancel)
  next
    case (Some g)
    with Suc.prems(3) have "take (Suc i) g = take (Suc i) F" by simp
    then have "take i g = take i F" by (rule take_Suc_eqD)
    with Some show ?thesis by simp
  qed
  with Suc.IH [of ?t2] Suc.prems(1,2,5) s have "length (lshift_loop f i nw lb ?t2) = length t \<and>
      take (length F + 1) (drop nw (lshift_loop f i nw lb ?t2)) = shl lb 0 F"
    by (cases f) simp_all
  then show ?case by (simp add: Let_def l)
qed

lemma lshift_words_loop_copy:
  assumes "i \<le> length F" "nw + length F < length t" "case f of None \<Rightarrow> take i t = take i F | Some g \<Rightarrow> take i g = take i F"
    "take (length F - i + 1) (drop (nw + i) t) = drop i F @ [0]"
  shows "length (lshift_words_loop f i nw t) = length t \<and>
    take (length F + 1) (drop nw (lshift_words_loop f i nw t)) = F @ [0]"
  using assms
proof (induction i arbitrary: t)
  case 0
  then show ?case by simp
next
  case (Suc i)
  let ?src = "case f of None \<Rightarrow> t | Some f \<Rightarrow> f"
  have l: "?src ! i = F ! i"
  proof -
    have "take (Suc i) ?src = take (Suc i) F" using Suc.prems(3) by (cases f) simp_all
    then have "take (Suc i) ?src ! i = take (Suc i) F ! i" by simp
    then show ?thesis by simp
  qed
  let ?t = "t[nw + i := F ! i]"
  have n: "nw + i < length t" using Suc.prems(1,2) by simp
  have "take (length F - i) (drop (nw + i + 1) t) = drop (Suc i) F @ [0]"
    using Suc.prems(1,4) by (simp add: Suc_diff_le Suc_diff_Suc)
  moreover have "drop (nw + i) ?t = F ! i # drop (nw + i + 1) t" using n by (rule drop_update_after)
  moreover have "drop i F = F ! i # drop (Suc i) F" using Suc.prems(1) by (simp add: Cons_nth_drop_Suc)
  ultimately have s: "take (length F - i + 1) (drop (nw + i) ?t) = drop i F @ [0]" by simp
  have "case f of None \<Rightarrow> take i ?t = take i F | Some g \<Rightarrow> take i g = take i F"
  proof (cases f)
    case None
    with Suc.prems(3) have "take (Suc i) t = take (Suc i) F" by simp
    then have "take i t = take i F" by (rule take_Suc_eqD)
    with None show ?thesis by (simp add: take_update_cancel)
  next
    case (Some g)
    with Suc.prems(3) have "take (Suc i) g = take (Suc i) F" by simp
    then have "take i g = take i F" by (rule take_Suc_eqD)
    with Some show ?thesis by simp
  qed
  with Suc.IH [of ?t] Suc.prems(1,2) s show ?case by (simp add: l)
qed


lemma lshift_array:
  assumes "length F = w" "w + nw < length t" "take w (case f of None \<Rightarrow> t | Some g \<Rightarrow> g) = F"
    "lb < 64"
  defines "u \<equiv> put_words (if lb = 0 then lshift_words_loop f w nw (t[w + nw := 0]) else lshift_loop f w nw lb (t[w + nw := 0]))
    (replicate nw 0)"
  shows "length u = length t" "words_val (take (w + nw + 1) u) = 2 ^ (64 * nw + lb) * words_val F"
proof -
  let ?t = "t[w + nw := 0]"
  define v where "v = (if lb = 0 then lshift_words_loop f w nw ?t else lshift_loop f w nw lb ?t)"
  have src: "case f of None \<Rightarrow> take w ?t = take w F | Some g \<Rightarrow> take w g = take w F"
    using assms(1,3) by (cases f) simp_all
  have d: "drop (nw + w) ?t = 0 # drop (nw + w + 1) t"
    using drop_update_after [of "nw + w" t 0] assms(2) by (simp add: add.commute)
  have le: "w \<le> length (case f of None \<Rightarrow> ?t | Some g \<Rightarrow> g)"
  proof (cases f)
    case (Some g)
    with assms(1,3) have "length (take w g) = w" by simp
    with Some show ?thesis by simp
  qed (use assms(2) in simp)
  have "length v = length t \<and> words_val (take (w + 1) (drop nw v)) = 2 ^ lb * words_val F \<and>
    length (take (w + 1) (drop nw v)) = w + 1"
  proof (cases "lb = 0")
    case True
    from lshift_words_loop_copy [of w F nw ?t f] assms(1,2) src d True show ?thesis
      by (simp add: v_def words_val_append)
  next
    case False
    from lshift_loop_shl [of w F nw ?t f lb] assms(1,2) src d le False
    have "length v = length t" "take (w + 1) (drop nw v) = shl lb 0 F" by (simp_all add: v_def)
    with shl_val [of 0 lb F] assms(1,4) False show ?thesis by simp
  qed
  then have v: "length v = length t" "words_val (take (w + 1) (drop nw v)) = 2 ^ lb * words_val F" by blast+
  have u: "u = replicate nw 0 @ drop nw v" unfolding u_def v_def put_words_def by simp
  show "length u = length t" using u v(1) assms(2) by simp
  have "take (w + nw + 1) u = replicate nw 0 @ take (w + 1) (drop nw v)" using u by simp
  with v(2) show "words_val (take (w + nw + 1) u) = 2 ^ (64 * nw + lb) * words_val F"
    by (simp add: words_val_append power_add)
qed

lemma bn_val_scaled: "bn_abs q = 2 ^ m * bn_abs a \<Longrightarrow> bn_neg q = bn_neg a \<Longrightarrow> bn_val q = bn_val a * 2 ^ m"
  by (simp add: bn_val_def)

lemma BN_lshift_ok:
  assumes "BN_lshift alloc aliased r a n = (ok, r')" "bn_fit r" "bn_fit a" "aliased \<longrightarrow> r = a"
  shows "ok \<longrightarrow> bn_ok r' \<and> bn_val r' = bn_val a * 2 ^ nat n"
    "0 \<le> n \<Longrightarrow> fst (bn_wexpand alloc r (bn_width a + nat n div 64 + 1)) \<Longrightarrow> ok"
proof -
  let ?nw = "nat n div 64" and ?lb = "nat n mod 64" and ?r = "r\<lparr>bn_neg := bn_neg a\<rparr>"
  have fr: "bn_fit ?r" using assms(2) by (simp add: bn_fit_def)
  obtain k q where w: "bn_wexpand alloc ?r (bn_width a + ?nw + 1) = (k, q)" by fastforce
  note e = bn_wexpand_ok [OF w fr]
  have same: "fst (bn_wexpand alloc r m) = fst (bn_wexpand alloc ?r m)" for m
    by (simp add: bn_wexpand_def split: option.split)
  let ?f = "if aliased then None else Some (bn_d a)"
  have F: "take (bn_width a) (case ?f of None \<Rightarrow> bn_d q | Some g \<Rightarrow> g) = bn_used a"
    using e(2,3) assms(4) by (cases aliased) (simp_all add: bn_used_def)
  let ?u = "put_words (if ?lb = 0 then lshift_words_loop ?f (bn_width a) ?nw ((bn_d q)[bn_width a + ?nw := 0])
      else lshift_loop ?f (bn_width a) ?nw ?lb ((bn_d q)[bn_width a + ?nw := 0])) (replicate ?nw 0)"
  let ?q = "q\<lparr>bn_d := ?u, bn_width := bn_width a + ?nw + 1\<rparr>"
  have eq: "BN_lshift alloc aliased r a n = (if n < 0 then (False, r) else if \<not> k then (False, q)
      else (True, bn_set_minimal_width ?q))"
    using w by (simp add: BN_lshift_def Let_def)
  show "0 \<le> n \<Longrightarrow> fst (bn_wexpand alloc r (bn_width a + nat n div 64 + 1)) \<Longrightarrow> ok"
    using assms(1) w same unfolding eq by (auto split: if_splits)
  show "ok \<longrightarrow> bn_ok r' \<and> bn_val r' = bn_val a * 2 ^ nat n"
  proof
    assume ok
    with assms(1) have k: "k" "r' = bn_set_minimal_width ?q" unfolding eq by (auto split: if_splits)
    have len: "bn_width a + ?nw < length (bn_d q)" using e(5) k(1) by simp
    note s = lshift_array [OF bn_fit_length [OF assms(3)] len F, of ?lb]
    have "length ?u = length (bn_d q)" using s(1) by simp
    then have fq: "bn_fit ?q" using e(1) len by (simp add: bn_fit_def)
    have "bn_abs ?q = 2 ^ (64 * ?nw + ?lb) * bn_abs a" using s(2) by (simp add: bn_abs_def [of a] bn_abs_def bn_used_def)
    then have "bn_abs ?q = 2 ^ nat n * bn_abs a" by simp
    moreover have "bn_neg ?q = bn_neg a" using e(4) by simp
    ultimately have "bn_val ?q = bn_val a * 2 ^ nat n" by (rule bn_val_scaled)
    with bn_set_minimal_width_ok(1,2) [OF fq] show "bn_ok r' \<and> bn_val r' = bn_val a * 2 ^ nat n"
      unfolding k(2) by simp
  qed
qed

lemma lshift1_loop_shl: "lshift1_loop c a = (butlast (shl 1 c a), last (shl 1 c a))"
proof (induction c a rule: lshift1_loop.induct)
  case (2 c t a)
  have "shl 1 (drop_bit 63 t) a \<noteq> []" by (cases a) simp_all
  with 2 show ?case by (simp add: Let_def)
qed simp

lemma BN_lshift1_ok:
  assumes "BN_lshift1 alloc r a = (ok, r')" "bn_fit r" "bn_ok a"
  shows "ok \<longrightarrow> bn_ok r' \<and> bn_val r' = 2 * bn_val a"
proof
  assume ok
  have fa: "bn_fit a" using assms(3) by (simp add: bn_ok_def)
  let ?r = "r\<lparr>bn_neg := bn_neg a\<rparr>"
  have fr: "bn_fit ?r" using assms(2) by (simp add: bn_fit_def)
  obtain k q where w: "bn_wexpand alloc ?r (bn_width a + 1) = (k, q)" by fastforce
  note e = bn_wexpand_ok [OF w fr]
  obtain rp c where l: "lshift1_loop 0 (bn_used a) = (rp, c)" by fastforce
  then have rc: "shl 1 0 (bn_used a) = rp @ [c]"
    using append_butlast_last_id [of "shl 1 0 (bn_used a)"] shl_val [of 0 1 "bn_used a"]
    by (cases "shl 1 0 (bn_used a) = []") (auto simp: lshift1_loop_shl)
  with shl_val [of 0 1 "bn_used a"] fa
  have v: "words_val rp + 2 ^ (64 * bn_width a) * unat c = 2 * bn_abs a" "length rp = bn_width a"
    by (auto simp: words_val_append bn_abs_def)
  have c1: "unat c \<le> 1"
  proof (rule ccontr)
    assume "\<not> unat c \<le> 1"
    then have "2 ^ (64 * bn_width a) * 2 \<le> 2 ^ (64 * bn_width a) * unat c" by (intro mult_le_mono2) simp
    with v(1) bn_abs_less [OF fa] show False by linarith
  qed
  have fin: "bn_ok x \<and> bn_val x = 2 * bn_val a" if "bn_fit x" "bn_abs x = 2 * bn_abs a" "bn_neg x = bn_neg a" for x
    using that assms(3) by (auto simp: bn_ok_def bn_val_def)
  from assms(1) \<open>ok\<close> w l have k: "k" and r': "r' = (if c \<noteq> 0 then q\<lparr>bn_d := put_words (bn_d q) (rp @ [1]), bn_width := bn_width a + 1\<rparr>
      else q\<lparr>bn_width := bn_width a, bn_d := put_words (bn_d q) rp\<rparr>)"
    by (auto simp: BN_lshift1_def Let_def split: if_splits)
  have len: "bn_width a + 1 \<le> length (bn_d q)" "length (bn_d q) \<le> BN_MAX_WORDS" using e(1,5) k by (simp_all add: bn_fit_def)
  show "bn_ok r' \<and> bn_val r' = 2 * bn_val a"
  proof (cases "c = 0")
    case True
    with r' have r: "bn_d r' = put_words (bn_d q) rp" "bn_width r' = length rp" "bn_neg r' = bn_neg q" using v(2) by simp_all
    from bn_put_ok [OF _ len(2) r(1,2)] len(1) v True r(3) e(4) show ?thesis by (intro fin) simp_all
  next
    case False
    with carry_cases [OF c1] have "c = 1" by blast
    with r' have r: "bn_d r' = put_words (bn_d q) (rp @ [c])" "bn_width r' = length (rp @ [c])" "bn_neg r' = bn_neg q"
      using v(2) by simp_all
    from bn_put_ok [OF _ len(2) r(1,2)] len(1) v r(3) e(4) show ?thesis by (intro fin) (simp_all add: words_val_append)
  qed
qed

end
