(* ===== verification/Bn_Bits.thy ===== *)
theory Bn_Bits
  imports Bn_Shift Bn_Add
begin

text \<open>
  Shifts to the right and single bits (\<open>crypto/fipsmodule/bn/shift.c\<close>).  The right shifts write word \<open>i\<close>
  after the words up to \<open>i\<close> have been read and return a new array, as the other loops on words do.  The
  lemmas read the bits of a number off its words, so that a shift is \<open>drop_bit\<close> on the number and the
  operations on one bit are \<open>set_bit\<close>, \<open>unset_bit\<close>, \<open>bit\<close> and \<open>take_bit\<close>.
\<close>

section \<open>The operations\<close>

definition bn_rshift_words :: "words \<Rightarrow> nat \<Rightarrow> nat \<Rightarrow> words" where
  "bn_rshift_words a shift n =
     (let shift_bits = shift mod 64; shift_words = shift div 64 in
      if shift_words \<ge> n then replicate n 0
      else
        (if shift_bits = 0 then take (n - shift_words) (drop shift_words a)
         else map (\<lambda>i. drop_bit shift_bits (a ! i) OR push_bit (64 - shift_bits) (a ! (i + 1))) [shift_words..<n - 1] @
           [drop_bit shift_bits (a ! (n - 1))]) @
        replicate shift_words 0)"

definition BN_rshift :: "words_alloc \<Rightarrow> bignum \<Rightarrow> bignum \<Rightarrow> int \<Rightarrow> bool \<times> bignum" where
  "BN_rshift alloc r a n =
     (if n < 0 then (False, r)
      else
        let (ok, r) = bn_wexpand alloc r (bn_width a) in
        if \<not> ok then (False, r)
        else (True, bn_set_minimal_width (r\<lparr>bn_d := put_words (bn_d r) (bn_rshift_words (bn_used a) (nat n) (bn_width a)),
               bn_neg := bn_neg a, bn_width := bn_width a\<rparr>)))"

text \<open>The loop of \<open>bn_rshift_secret_shift\<close> over the bits of the 32-bit numbers \<open>n\<close> and \<open>max_bits\<close>, from bit \<open>i\<close> on.\<close>

function secret_shift_loop :: "u32 \<Rightarrow> u32 \<Rightarrow> nat \<Rightarrow> nat \<Rightarrow> words \<Rightarrow> words" where
  "secret_shift_loop max_bits n i w d =
     (if drop_bit i max_bits \<noteq> 0 then
        let msk = ucast (drop_bit i n AND 1); msk = 0 - msk;
            tmp = bn_rshift_words d (2 ^ i) w
        in secret_shift_loop max_bits n (i + 1) w (bn_select_words msk tmp d w)
      else d)"
  by pat_completeness auto
termination
proof (relation "measure (\<lambda>(max_bits, n, i, w, d). 32 - i)", goal_cases)
  case (2 max_bits n i w d msk x tmp)
  have "i < 32"
  proof (rule ccontr)
    assume "\<not> i < 32"
    then have "drop_bit i max_bits = 0" by (simp add: bit_eq_iff bit_drop_bit_eq bit_word.rep_eq)
    with 2 show False by simp
  qed
  then show ?case by simp
qed simp

declare secret_shift_loop.simps [simp del]

definition bn_rshift_secret_shift :: "(u64 \<Rightarrow> bool) \<Rightarrow> words_alloc \<Rightarrow> bignum \<Rightarrow> bignum \<Rightarrow> u32 \<Rightarrow> bn_ctx \<Rightarrow>
    bool \<times> bignum \<times> bn_ctx" where
  "bn_rshift_secret_shift mem_ok alloc r a n ctx =
     (let (tmp, ctx) = BN_CTX_get mem_ok (BN_CTX_start mem_ok ctx) in
      case tmp of
        None \<Rightarrow> (False, r, BN_CTX_end ctx)
      | Some t \<Rightarrow>
          let (ok, r) = BN_copy alloc r a in
          if \<not> ok then (False, r, BN_CTX_end ctx)
          else
            let (ok, b) = bn_wexpand alloc (ctx_bn ctx t) (bn_width r); ctx = ctx_put ctx t b in
            if \<not> ok then (False, r, BN_CTX_end ctx)
            else (True, r\<lparr>bn_d := put_words (bn_d r)
                     (secret_shift_loop (of_nat (64 * bn_width r)) n 0 (bn_width r) (bn_used r))\<rparr>, BN_CTX_end ctx))"

definition bn_rshift1_words :: "words \<Rightarrow> nat \<Rightarrow> words" where
  "bn_rshift1_words a n =
     (if n = 0 then []
      else map (\<lambda>i. drop_bit 1 (a ! i) OR push_bit 63 (a ! (i + 1))) [0..<n - 1] @ [drop_bit 1 (a ! (n - 1))])"

definition BN_rshift1 :: "words_alloc \<Rightarrow> bignum \<Rightarrow> bignum \<Rightarrow> bool \<times> bignum" where
  "BN_rshift1 alloc r a =
     (let (ok, r) = bn_wexpand alloc r (bn_width a) in
      if \<not> ok then (False, r)
      else (True, bn_set_minimal_width (r\<lparr>bn_d := put_words (bn_d r) (bn_rshift1_words (bn_used a) (bn_width a)),
             bn_width := bn_width a, bn_neg := bn_neg a\<rparr>)))"

definition BN_set_bit :: "words_alloc \<Rightarrow> bignum \<Rightarrow> int \<Rightarrow> bool \<times> bignum" where
  "BN_set_bit alloc a n =
     (if n < 0 then (False, a)
      else
        let i = nat n div 64; j = nat n mod 64;
            (ok, a) =
              (if bn_width a \<le> i then
                 let (ok, a) = bn_wexpand alloc a (i + 1) in
                 if \<not> ok then (False, a)
                 else (True, a\<lparr>bn_d := put_words (bn_d a) (bn_used a @ replicate (i + 1 - bn_width a) 0),
                        bn_width := i + 1\<rparr>)
               else (True, a))
        in if \<not> ok then (False, a)
           else (True, a\<lparr>bn_d := (bn_d a)[i := bn_d a ! i OR push_bit j 1]\<rparr>))"

definition BN_clear_bit :: "bignum \<Rightarrow> int \<Rightarrow> bool \<times> bignum" where
  "BN_clear_bit a n =
     (if n < 0 then (False, a)
      else
        let i = nat n div 64; j = nat n mod 64 in
        if bn_width a \<le> i then (False, a)
        else (True, bn_set_minimal_width (a\<lparr>bn_d := (bn_d a)[i := bn_d a ! i AND NOT (push_bit j 1)]\<rparr>)))"

definition bn_is_bit_set_words :: "words \<Rightarrow> nat \<Rightarrow> nat \<Rightarrow> bool" where
  "bn_is_bit_set_words a n b =
     (let i = b div 64; j = b mod 64 in
      if i \<ge> n then False else drop_bit j (a ! i) AND 1 \<noteq> 0)"

definition BN_is_bit_set :: "bignum \<Rightarrow> int \<Rightarrow> bool" where
  "BN_is_bit_set a n = (if n < 0 then False else bn_is_bit_set_words (bn_d a) (bn_width a) (nat n))"

definition BN_mask_bits :: "bignum \<Rightarrow> int \<Rightarrow> bool \<times> bignum" where
  "BN_mask_bits a n =
     (if n < 0 then (False, a)
      else
        let w = nat n div 64; b = nat n mod 64 in
        if w \<ge> bn_width a then (True, a)
        else
          let a = (if b = 0 then a\<lparr>bn_width := w\<rparr>
                   else a\<lparr>bn_width := w + 1, bn_d := (bn_d a)[w := bn_d a ! w AND NOT (push_bit b 0xffffffffffffffff)]\<rparr>)
          in (True, bn_set_minimal_width a))"

text \<open>One of the six blocks of \<open>bn_count_low_zero_bits_word\<close>.\<close>

definition low_zero_step :: "nat \<Rightarrow> u64 \<times> nat \<Rightarrow> u64 \<times> nat" where
  "low_zero_step k = (\<lambda>(l, bits).
     let msk = constant_time_is_zero_w (push_bit (64 - k) l)
     in (constant_time_select_w msk (drop_bit k l) l, bits + unat (of_nat k AND msk)))"

definition bn_count_low_zero_bits_word :: "u64 \<Rightarrow> nat" where
  "bn_count_low_zero_bits_word l =
     snd (low_zero_step 1 (low_zero_step 2 (low_zero_step 4 (low_zero_step 8 (low_zero_step 16
       (low_zero_step 32 (l, 0)))))))"

definition BN_count_low_zero_bits :: "bignum \<Rightarrow> u32" where
  "BN_count_low_zero_bits bn =
     fst (fold (\<lambda>i (ret, saw_nonzero).
       let nonzero = NOT (constant_time_is_zero_w (bn_d bn ! i));
           first_nonzero = NOT saw_nonzero AND nonzero;
           bits = bn_count_low_zero_bits_word (bn_d bn ! i)
       in (ret OR ucast (first_nonzero AND of_nat (i * 64 + bits)), saw_nonzero OR nonzero)) [0..<bn_width bn] (0, 0))"


section \<open>The bits of a number\<close>

lemma bit_word_append:
  fixes x y :: nat
  assumes "x < 2 ^ 64"
  shows "bit (x + 2 ^ 64 * y) n = (if n < 64 then bit x n else bit y (n - 64))"
proof (cases "n < 64")
  case True
  have "2 ^ 64 * y = 2 ^ n * (2 * 2 ^ (63 - n) * y)" using True by (simp flip: power_add power_Suc mult.assoc)
  then have "(x + 2 ^ 64 * y) div 2 ^ n = x div 2 ^ n + 2 * 2 ^ (63 - n) * y"
    by (metis add.commute div_mult_self2 power_not_zero zero_neq_numeral)
  with True show ?thesis by (simp add: bit_iff_odd)
next
  case False
  then have "2 ^ n = 2 ^ 64 * (2 :: nat) ^ (n - 64)" by (metis le_add_diff_inverse not_less power_add)
  then have "(x + 2 ^ 64 * y) div 2 ^ n = (x + 2 ^ 64 * y) div 2 ^ 64 div 2 ^ (n - 64)" by (metis div_mult2_eq)
  moreover have "(x + 2 ^ 64 * y) div 2 ^ 64 = y" using assms by simp
  ultimately show ?thesis using False by (simp add: bit_iff_odd)
qed

lemma words_val_bit: "bit (words_val a) n = (n div 64 < length a \<and> bit (a ! (n div 64)) (n mod 64))"
proof (induction a arbitrary: n)
  case (Cons x a)
  show ?case
  proof (cases "n < 64")
    case True
    have "bit (words_val (x # a)) n = bit (unat x) n" using True bit_word_append [of "unat x" "words_val a" n] unat_u64_less [of x] by simp
    with True show ?thesis by (simp add: bit_unsigned_iff)
  next
    case False
    then have "n div 64 = Suc ((n - 64) div 64)" "n mod 64 = (n - 64) mod 64"
      by (simp_all add: le_div_geq le_mod_geq)
    moreover have "bit (words_val (x # a)) n = bit (words_val a) (n - 64)"
      using False bit_word_append [of "unat x" "words_val a" n] unat_u64_less [of x] by simp
    ultimately show ?thesis using Cons by simp
  qed
qed simp

lemma words_val_bitI:
  assumes "\<And>i j. i < length r \<Longrightarrow> j < 64 \<Longrightarrow> bit (r ! i) j = bit v (64 * i + j)"
    "\<And>n. 64 * length r \<le> n \<Longrightarrow> \<not> bit v n"
  shows "words_val r = v"
proof (rule bit_eqI)
  fix n
  show "bit (words_val r) n = bit v n"
  proof (cases "n div 64 < length r")
    case True
    with assms(1) [of "n div 64" "n mod 64"] show ?thesis by (simp add: words_val_bit)
  next
    case False
    then have "64 * length r \<le> n" by (metis le_less_linear less_mult_imp_div_less mult.commute)
    with assms(2) False show ?thesis by (simp add: words_val_bit)
  qed
qed

lemma word_bit_words: "i < length a \<Longrightarrow> j < 64 \<Longrightarrow> bit (a ! i) j = bit (words_val a) (64 * i + j)"
  by (simp add: words_val_bit)

lemma words_val_no_bit: "64 * length a \<le> n \<Longrightarrow> \<not> bit (words_val a) n"
  by (auto simp: words_val_bit)


section \<open>Shifts to the right\<close>

lemma shr_bit:
  fixes x y :: u64
  assumes "0 < s" "s < 64" "j < 64"
  shows "bit (drop_bit s x OR push_bit (64 - s) y) j = (if j + s < 64 then bit x (j + s) else bit y (j + s - 64))"
proof -
  have "\<not> bit x (j + s)" if "64 \<le> j + s" using that by (auto dest: bit_imp_le_length)
  moreover have "j - (64 - s) = j + s - 64" using assms by simp
  ultimately show ?thesis using assms by (auto simp: bit_or_iff bit_drop_bit_eq bit_push_bit_iff add.commute)
qed

text \<open>Word \<open>i\<close> of the shifted array gets its bits from \<open>m = i + shift div 64\<close> and the word above.\<close>

lemma shifted_bits:
  assumes "length a = n" "m < n" "j < 64" "0 < s" "s < 64"
  shows "bit (drop_bit s (a ! m)) j = (j + s < 64 \<and> bit (words_val a) (64 * m + (j + s)))"
    "m + 1 < n \<Longrightarrow> bit (drop_bit s (a ! m) OR push_bit (64 - s) (a ! (m + 1))) j = bit (words_val a) (64 * m + (j + s))"
proof -
  have l: "bit (a ! m) (j + s) = bit (words_val a) (64 * m + (j + s))" if "j + s < 64"
    using word_bit_words [of m a "j + s"] assms that by simp
  have "\<not> bit (a ! m) (j + s)" if "64 \<le> j + s" using that by (auto dest: bit_imp_le_length)
  with l show "bit (drop_bit s (a ! m)) j = (j + s < 64 \<and> bit (words_val a) (64 * m + (j + s)))"
    by (cases "j + s < 64") (auto simp: bit_drop_bit_eq add.commute)
  show "bit (drop_bit s (a ! m) OR push_bit (64 - s) (a ! (m + 1))) j = bit (words_val a) (64 * m + (j + s))"
    if "m + 1 < n"
  proof (cases "j + s < 64")
    case True
    with l assms show ?thesis by (simp add: shr_bit)
  next
    case False
    then have "64 * (m + 1) + (j + s - 64) = 64 * m + (j + s)" by simp
    with word_bit_words [of "m + 1" a "j + s - 64"] that False assms show ?thesis by (simp add: shr_bit)
  qed
qed

lemma bn_rshift_words_val:
  assumes "length a = n"
  shows "length (bn_rshift_words a k n) = n" "words_val (bn_rshift_words a k n) = words_val a div 2 ^ k"
proof -
  define s w where "s = k mod 64" and "w = k div 64"
  have k: "k = 64 * w + s" "s < 64" by (simp_all add: s_def w_def)
  have eq: "bn_rshift_words a k n = (if n \<le> w then replicate n 0 else
      (if s = 0 then take (n - w) (drop w a)
       else map (\<lambda>i. drop_bit s (a ! i) OR push_bit (64 - s) (a ! (i + 1))) [w..<n - 1] @ [drop_bit s (a ! (n - 1))]) @
      replicate w 0)"
    by (simp add: bn_rshift_words_def Let_def s_def w_def)
  show len: "length (bn_rshift_words a k n) = n" using assms by (simp add: eq)
  have none: "\<not> bit (words_val a) i" if "64 * n \<le> i" for i using words_val_no_bit [of a i] that assms by simp
  have "bit (bn_rshift_words a k n ! i) j = bit (drop_bit k (words_val a)) (64 * i + j)" if "i < n" "j < 64" for i j
  proof (cases "i + w < n")
    case False
    then have "64 * n \<le> k + (64 * i + j)" using k by linarith
    moreover have "bn_rshift_words a k n ! i = 0"
      using False that assms by (auto simp: eq nth_append)
    ultimately show ?thesis using none by (simp add: bit_drop_bit_eq)
  next
    case True
    then have iw: "i < n - w" "\<not> n \<le> w" by simp_all
    have sum: "k + (64 * i + j) = 64 * (i + w) + (j + s)" using k(1) by (simp add: distrib_left)
    have "bit (drop_bit k (words_val a)) (64 * i + j) = bit (words_val a) (64 * (i + w) + (j + s))"
      by (simp only: bit_drop_bit_eq comp_def sum)
    moreover have "bit (bn_rshift_words a k n ! i) j = bit (words_val a) (64 * (i + w) + (j + s))"
    proof (cases "s = 0")
      case True
      with iw assms have "bn_rshift_words a k n ! i = a ! (i + w)"
        by (simp add: eq nth_append add.commute)
      with True word_bit_words [of "i + w" a j] \<open>i + w < n\<close> assms that show ?thesis by simp
    next
      case False
      note b = shifted_bits [OF assms \<open>i + w < n\<close> that(2), of s]
      show ?thesis
      proof (cases "i + w + 1 < n")
        case True
        then have "i < n - 1 - w" by simp
        with False iw assms have "bn_rshift_words a k n ! i =
            drop_bit s (a ! (i + w)) OR push_bit (64 - s) (a ! (i + w + 1))"
          by (simp add: eq nth_append add.commute)
        with b(2) True False k(2) show ?thesis by simp
      next
        case last: False
        with \<open>i + w < n\<close> have e: "i + w = n - 1" "i = n - 1 - w" by simp_all
        with False iw assms have "bn_rshift_words a k n ! i = drop_bit s (a ! (i + w))"
          by (auto simp: eq nth_append)
        moreover have "\<not> bit (words_val a) (64 * (i + w) + (j + s))" if "64 \<le> j + s"
          using that last by (intro none) simp
        ultimately show ?thesis using b(1) False k(2) by auto
      qed
    qed
    ultimately show ?thesis by simp
  qed
  moreover have "\<not> bit (drop_bit k (words_val a)) i" if "64 * n \<le> i" for i using none that by (simp add: bit_drop_bit_eq)
  ultimately have "words_val (bn_rshift_words a k n) = drop_bit k (words_val a)"
    using len by (intro words_val_bitI) simp_all
  then show "words_val (bn_rshift_words a k n) = words_val a div 2 ^ k" by (simp add: drop_bit_eq_div)
qed

lemma bn_rshift1_words_eq: "bn_rshift1_words a n = bn_rshift_words a 1 n"
  by (simp add: bn_rshift1_words_def bn_rshift_words_def Let_def)

text \<open>What the shifts to the right make of a number: the quotient, rounded to zero.\<close>

definition rshifted :: "bignum \<Rightarrow> nat \<Rightarrow> bignum \<Rightarrow> bool" where
  "rshifted a k r \<longleftrightarrow> bn_ok r \<and> bn_val r = sgn (bn_val a) * (\<bar>bn_val a\<bar> div 2 ^ k)"

lemma rshiftedI:
  assumes "bn_fit r" "bn_abs r = bn_abs a div 2 ^ k" "bn_neg r = bn_neg a"
  shows "rshifted a k (bn_set_minimal_width r)" "bn_val r = sgn (bn_val a) * (\<bar>bn_val a\<bar> div 2 ^ k)"
proof -
  show v: "bn_val r = sgn (bn_val a) * (\<bar>bn_val a\<bar> div 2 ^ k)"
    using assms(2,3) by (auto simp: bn_val_def zdiv_int)
  with bn_set_minimal_width_ok(1,2) [OF assms(1)] show "rshifted a k (bn_set_minimal_width r)"
    by (simp add: rshifted_def)
qed

lemma rshift_put:
  assumes "bn_wexpand alloc r (bn_width a) = (True, b)" "bn_fit r" "bn_fit a"
    "bn_d c = put_words (bn_d b) (bn_rshift_words (bn_used a) k (bn_width a))" "bn_width c = bn_width a"
    "bn_neg c = bn_neg a"
  shows "rshifted a k (bn_set_minimal_width c)"
proof -
  note e = bn_wexpand_ok [OF assms(1,2)]
  note v = bn_rshift_words_val [OF bn_fit_length [OF assms(3)], of k]
  from bn_put_ok [OF _ _ assms(4)] e(1,5) v assms(5) have "bn_fit c" "bn_abs c = bn_abs a div 2 ^ k"
    by (simp_all add: bn_fit_def bn_abs_def)
  with assms(6) show ?thesis by (intro rshiftedI)
qed

lemma BN_rshift_ok:
  assumes "BN_rshift alloc r a n = (ok, r')" "bn_fit r" "bn_fit a"
  shows "ok \<longrightarrow> rshifted a (nat n) r'"
proof
  assume ok
  obtain k b where w: "bn_wexpand alloc r (bn_width a) = (k, b)" by fastforce
  with assms(1) \<open>ok\<close> have "k" and r': "r' = bn_set_minimal_width (b\<lparr>bn_d := put_words (bn_d b)
      (bn_rshift_words (bn_used a) (nat n) (bn_width a)), bn_neg := bn_neg a, bn_width := bn_width a\<rparr>)"
    by (auto simp: BN_rshift_def split: if_splits)
  with w show "rshifted a (nat n) r'" unfolding r' by (intro rshift_put [OF _ assms(2,3)]) simp_all
qed

lemma BN_rshift1_ok:
  assumes "BN_rshift1 alloc r a = (ok, r')" "bn_fit r" "bn_fit a"
  shows "ok \<longrightarrow> rshifted a 1 r'"
proof
  assume ok
  obtain k b where w: "bn_wexpand alloc r (bn_width a) = (k, b)" by fastforce
  with assms(1) \<open>ok\<close> have "k" and r': "r' = bn_set_minimal_width (b\<lparr>bn_d := put_words (bn_d b)
      (bn_rshift_words (bn_used a) 1 (bn_width a)), bn_width := bn_width a, bn_neg := bn_neg a\<rparr>)"
    by (auto simp: BN_rshift1_def bn_rshift1_words_eq split: if_splits)
  with w show "rshifted a 1 r'" unfolding r' by (intro rshift_put [OF _ assms(2,3)]) simp_all
qed


text \<open>The loop on the bits of the count applies the bits below the \<open>L\<close> that \<open>max_bits\<close> has.\<close>

lemma div_power_split:
  fixes V q :: nat
  assumes "i < L"
  shows "V div 2 ^ (2 ^ i * (q mod 2 ^ (L - i))) =
    (if odd q then V div 2 ^ 2 ^ i else V) div 2 ^ (2 ^ (i + 1) * (q div 2 mod 2 ^ (L - (i + 1))))"
proof -
  have e: "2 ^ (L - i) = 2 * (2 :: nat) ^ (L - (i + 1))" using assms by (simp add: Suc_diff_Suc flip: power_Suc)
  have "q mod 2 ^ (L - i) = 2 * (q div 2 mod 2 ^ (L - (i + 1))) + q mod 2" unfolding e by (rule mod_mult2_eq)
  then have "2 ^ i * (q mod 2 ^ (L - i)) = 2 ^ i * (q mod 2) + 2 ^ (i + 1) * (q div 2 mod 2 ^ (L - (i + 1)))"
    by (simp add: algebra_simps)
  then have "V div 2 ^ (2 ^ i * (q mod 2 ^ (L - i))) =
      V div 2 ^ (2 ^ i * (q mod 2)) div 2 ^ (2 ^ (i + 1) * (q div 2 mod 2 ^ (L - (i + 1))))"
    by (simp only: power_add div_mult2_eq)
  then show ?thesis by (cases "odd q") (simp_all add: odd_iff_mod_2_eq_one)
qed

lemma secret_shift_mask:
  fixes n :: u32
  shows "(0 :: u64) - ucast (drop_bit i n AND 1) = (if odd (unat n div 2 ^ i) then - 1 else 0)"
proof -
  have "drop_bit i n AND 1 = (if bit n i then 1 else 0)" by (rule bit_eqI) (auto simp: bit_and_iff bit_drop_bit_eq bit_1_iff intro!: gr0I)
  moreover have "bit n i = odd (unat n div 2 ^ i)" by (simp add: bit_unsigned_iff flip: bit_iff_odd)
  ultimately show ?thesis by simp
qed

lemma secret_shift_loop_val:
  assumes "\<And>i. drop_bit i max_bits \<noteq> 0 \<longleftrightarrow> i < L" "length d = w"
  shows "length (secret_shift_loop max_bits n i w d) = w \<and> words_val (secret_shift_loop max_bits n i w d) =
    words_val d div 2 ^ (2 ^ i * (unat n div 2 ^ i mod 2 ^ (L - i)))"
  using assms(2)
proof (induction "L - i" arbitrary: i d)
  case 0
  then have "\<not> i < L" by simp
  with assms(1) [of i] have "secret_shift_loop max_bits n i w d = d" by (subst secret_shift_loop.simps) simp
  with 0 show ?case by (simp flip: One_nat_def)
next
  case (Suc k)
  then have i: "i < L" by simp
  let ?q = "unat n div 2 ^ i"
  let ?d = "if odd ?q then bn_rshift_words d (2 ^ i) w else d"
  note r = bn_rshift_words_val [OF Suc.prems, of "2 ^ i"]
  from r(1) Suc.prems have l: "length ?d = w" by simp
  have "bn_select_words (0 - ucast (drop_bit i n AND 1)) (bn_rshift_words d (2 ^ i) w) d w = ?d"
    using select_words_cases r(1) Suc.prems unfolding secret_shift_mask by simp
  with i assms(1) [of i] have "secret_shift_loop max_bits n i w d = secret_shift_loop max_bits n (i + 1) w ?d"
    by (subst secret_shift_loop.simps) (simp add: Let_def)
  moreover have "?q div 2 = unat n div 2 ^ (i + 1)" by (simp add: div_mult2_eq [symmetric] mult.commute)
  moreover have "words_val ?d = (if odd ?q then words_val d div 2 ^ 2 ^ i else words_val d)" using r(2) by simp
  moreover have "k = L - (i + 1)" using Suc.hyps(2) by simp
  ultimately show ?case using Suc.hyps(1) [OF _ l] div_power_split [OF i, of "words_val d" ?q] by simp
qed

lemma drop_bit_u32: "drop_bit i (m :: u32) \<noteq> 0 \<longleftrightarrow> 2 ^ i \<le> unat m"
proof -
  have "drop_bit i m = 0 \<longleftrightarrow> unat (drop_bit i m) = 0" by (simp add: unat_eq_0)
  also have "\<dots> \<longleftrightarrow> \<not> 2 ^ i \<le> unat m" by (simp add: unat_drop_bit div_eq_0_iff not_le)
  finally show ?thesis by blast
qed

lemma bn_rshift_secret_shift_val:
  assumes "bn_rshift_secret_shift mem_ok alloc r a n ctx = (True, r', ctx')" "bn_fit r" "bn_fit a"
    "\<And>i. drop_bit i (of_nat (64 * bn_width a) :: u32) \<noteq> 0 \<longleftrightarrow> i < L"
  shows "bn_fit r'" "bn_width r' = bn_width a" "bn_neg r' = bn_neg a" "bn_abs r' = bn_abs a div 2 ^ (unat n mod 2 ^ L)"
proof -
  obtain q where c: "BN_copy alloc r a = (True, q)"
    and r': "r' = q\<lparr>bn_d := put_words (bn_d q) (secret_shift_loop (of_nat (64 * bn_width q)) n 0 (bn_width q) (bn_used q))\<rparr>"
    using assms(1)
    by (auto simp: bn_rshift_secret_shift_def Let_def simp del: of_nat_mult split: prod.splits option.splits if_splits)
  note k = BN_copy_ok [OF c assms(2,3)]
  let ?d = "secret_shift_loop (of_nat (64 * bn_width a)) n 0 (bn_width a) (bn_used a)"
  from secret_shift_loop_val [OF assms(4) bn_fit_length [OF assms(3)], of n 0]
  have v: "length ?d = bn_width a" "words_val ?d = bn_abs a div 2 ^ (unat n mod 2 ^ L)" by (simp_all add: bn_abs_def)
  have d: "bn_d r' = put_words (bn_d q) ?d" "bn_width r' = length ?d" using r' k(5,6) v(1) by simp_all
  have "length ?d \<le> length (bn_d q)" "length (bn_d q) \<le> BN_MAX_WORDS" using k(1,6) v(1) by (simp_all add: bn_fit_def)
  from bn_put_ok [OF this d] v(2)
  show "bn_fit r'" "bn_abs r' = bn_abs a div 2 ^ (unat n mod 2 ^ L)" by simp_all
  show "bn_width r' = bn_width a" "bn_neg r' = bn_neg a" using d(2) v(1) r' k(4) by simp_all
qed

text \<open>When it succeeds.\<close>

lemma bn_rshift_secret_shift_succeeds:
  assumes "BN_CTX_get mem_ok (BN_CTX_start mem_ok ctx) = (Some t, c)" "BN_copy alloc r a = (True, q)"
    "bn_wexpand alloc (ctx_bn c t) (bn_width a) = (True, b)" "bn_fit r" "bn_fit a"
  shows "fst (bn_rshift_secret_shift mem_ok alloc r a n ctx)"
  using assms(1,2,3) BN_copy_ok(6) [OF assms(2,4,5)] by (simp add: bn_rshift_secret_shift_def Let_def)


section \<open>Single bits\<close>

lemma words_val_update:
  assumes "k div 64 < length u" "\<And>j. j < 64 \<Longrightarrow> bit v j = (if j = k mod 64 then c else bit (u ! (k div 64)) j)"
    "\<And>n. bit T n = (if n = k then c else bit (words_val u) n)"
  shows "words_val (u[k div 64 := v]) = T"
proof (rule words_val_bitI)
  fix i j assume i: "i < length (u[k div 64 := v])" and j: "j < (64 :: nat)"
  have "64 * i + j = k \<longleftrightarrow> i = k div 64 \<and> j = k mod 64" using j by auto
  with i j assms word_bit_words [of i u j] show "bit (u[k div 64 := v] ! i) j = bit T (64 * i + j)"
    by (auto simp: nth_list_update)
next
  fix n assume "64 * length (u[k div 64 := v]) \<le> n"
  moreover from this have "n \<noteq> k" using assms(1) by auto
  ultimately show "\<not> bit T n" using assms(3) words_val_no_bit [of u n] by simp
qed

lemma word_bit_ops:
  fixes x :: u64
  assumes "j < 64" "i < 64"
  shows "bit (x OR push_bit j 1) i = (if i = j then True else bit x i)"
    "bit (x AND NOT (push_bit j 1)) i = (if i = j then False else bit x i)"
    "bit (x AND NOT (push_bit j 0xffffffffffffffff)) i = (i < j \<and> bit x i)"
proof -
  have ones: "(0xffffffffffffffff :: u64) = - 1" by simp
  show "bit (x AND NOT (push_bit j 0xffffffffffffffff)) i = (i < j \<and> bit x i)"
    unfolding ones using assms by (auto simp: bit_and_iff bit_not_iff bit_push_bit_iff bit_mask_iff)
  show "bit (x OR push_bit j 1) i = (if i = j then True else bit x i)"
    "bit (x AND NOT (push_bit j 1)) i = (if i = j then False else bit x i)"
    using assms by (auto simp: bit_or_iff bit_and_iff bit_not_iff bit_push_bit_iff bit_1_iff bit_exp_iff)
qed

lemma BN_is_bit_set_eq:
  assumes "bn_fit a"
  shows "BN_is_bit_set a n = (0 \<le> n \<and> bit (bn_abs a) (nat n))"
proof -
  have "drop_bit j x AND 1 \<noteq> 0 \<longleftrightarrow> bit x j" for j and x :: u64
    by (simp add: and_one_eq bit_iff_odd_drop_bit odd_iff_mod_2_eq_one)
  then show ?thesis
    using assms by (simp add: BN_is_bit_set_def bn_is_bit_set_words_def Let_def bn_abs_def words_val_bit bn_used_nth)
qed

lemma bn_put_bit:
  assumes "bn_fit a" "k div 64 < bn_width a"
    "\<And>j. j < 64 \<Longrightarrow> bit v j = (if j = k mod 64 then c else bit (bn_d a ! (k div 64)) j)"
    "\<And>n. bit T n = (if n = k then c else bit (bn_abs a) n)"
  shows "bn_fit (a\<lparr>bn_d := (bn_d a)[k div 64 := v]\<rparr>)" "bn_abs (a\<lparr>bn_d := (bn_d a)[k div 64 := v]\<rparr>) = T"
proof -
  show "bn_fit (a\<lparr>bn_d := (bn_d a)[k div 64 := v]\<rparr>)" using assms(1) by (simp add: bn_fit_def)
  have "bn_used (a\<lparr>bn_d := (bn_d a)[k div 64 := v]\<rparr>) = (bn_used a)[k div 64 := v]"
    by (simp add: bn_used_def take_update_swap)
  moreover have "words_val ((bn_used a)[k div 64 := v]) = T"
    using assms by (intro words_val_update [of _ _ _ c]) (simp_all add: bn_abs_def bn_used_nth)
  ultimately show "bn_abs (a\<lparr>bn_d := (bn_d a)[k div 64 := v]\<rparr>) = T" by (simp add: bn_abs_def)
qed

lemma set_bit_nat_iff: "bit (set_bit k (x :: nat)) n = (if n = k then True else bit x n)"
  by (simp add: bit_set_bit_iff)

lemma unset_bit_nat_iff: "bit (unset_bit k (x :: nat)) n = (if n = k then False else bit x n)"
  by (simp add: bit_unset_bit_iff)

lemma BN_set_bit_ok:
  assumes "BN_set_bit alloc a n = (ok, a')" "bn_fit a"
  shows "ok \<longrightarrow> bn_fit a' \<and> bn_abs a' = set_bit (nat n) (bn_abs a) \<and> bn_neg a' = bn_neg a"
proof
  assume ok
  let ?i = "nat n div 64"
  define step where "step = (if bn_width a \<le> ?i then
      let (ok, a) = bn_wexpand alloc a (?i + 1) in
      if \<not> ok then (False, a)
      else (True, a\<lparr>bn_d := put_words (bn_d a) (bn_used a @ replicate (?i + 1 - bn_width a) 0), bn_width := ?i + 1\<rparr>)
    else (True, a))"
  obtain k b where s: "step = (k, b)" by fastforce
  have "BN_set_bit alloc a n = (if n < 0 then (False, a)
      else case step of (ok, a) \<Rightarrow> if \<not> ok then (False, a)
        else (True, a\<lparr>bn_d := (bn_d a)[?i := bn_d a ! ?i OR push_bit (nat n mod 64) 1]\<rparr>))"
    by (simp only: BN_set_bit_def step_def Let_def)
  with assms(1) \<open>ok\<close> s have "k" and r: "a' = b\<lparr>bn_d := (bn_d b)[?i := bn_d b ! ?i OR push_bit (nat n mod 64) 1]\<rparr>"
    by (simp_all split: if_splits)
  have b: "bn_fit b \<and> bn_abs b = bn_abs a \<and> bn_neg b = bn_neg a \<and> ?i < bn_width b"
  proof (cases "bn_width a \<le> ?i")
    case True
    obtain k' q where w: "bn_wexpand alloc a (?i + 1) = (k', q)" by fastforce
    note e = bn_wexpand_ok [OF w assms(2)]
    from s w True \<open>k\<close> have k': "k'" and b: "b = q\<lparr>bn_d := put_words (bn_d q)
        (bn_used q @ replicate (?i + 1 - bn_width q) 0), bn_width := ?i + 1\<rparr>"
      by (auto simp: step_def split: if_splits)
    let ?w = "bn_used q @ replicate (?i + 1 - bn_width q) 0"
    have l: "length ?w = ?i + 1" using e(1,2) True by simp
    have "length ?w \<le> length (bn_d q)" "length (bn_d q) \<le> BN_MAX_WORDS" "bn_d b = put_words (bn_d q) ?w"
      "bn_width b = length ?w"
      using e(1,5) k' l b by (simp_all add: bn_fit_def)
    from bn_put_ok [OF this] e(3,4) b show ?thesis by (simp add: words_val_append bn_abs_def [of a])
  next
    case False
    with s assms(2) show ?thesis by (auto simp: step_def)
  qed
  then have f: "bn_fit b" "?i < bn_width b" by simp_all
  note v = bn_put_bit [OF f word_bit_ops(1) set_bit_nat_iff, simplified]
  from v b r show "bn_fit a' \<and> bn_abs a' = set_bit (nat n) (bn_abs a) \<and> bn_neg a' = bn_neg a" by simp
qed

lemma BN_clear_bit_ok:
  assumes "BN_clear_bit a n = (ok, a')" "bn_fit a"
  shows "ok \<longrightarrow> bn_ok a' \<and> bn_abs a' = unset_bit (nat n) (bn_abs a)" "\<not> ok \<longrightarrow> a' = a \<and> (0 \<le> n \<longrightarrow> \<not> bit (bn_abs a) (nat n))"
proof -
  show "ok \<longrightarrow> bn_ok a' \<and> bn_abs a' = unset_bit (nat n) (bn_abs a)"
  proof
    assume ok
    let ?b = "a\<lparr>bn_d := (bn_d a)[nat n div 64 := bn_d a ! (nat n div 64) AND NOT (push_bit (nat n mod 64) 1)]\<rparr>"
    from assms(1) \<open>ok\<close> have w: "nat n div 64 < bn_width a" and r: "a' = bn_set_minimal_width ?b"
      by (auto simp: BN_clear_bit_def Let_def split: if_splits)
    from bn_put_bit [OF assms(2) w word_bit_ops(2) unset_bit_nat_iff, simplified]
    have "bn_fit ?b" "bn_abs ?b = unset_bit (nat n) (bn_abs a)" by simp_all
    with bn_set_minimal_width_ok [of ?b] r show "bn_ok a' \<and> bn_abs a' = unset_bit (nat n) (bn_abs a)" by simp
  qed
  show "\<not> ok \<longrightarrow> a' = a \<and> (0 \<le> n \<longrightarrow> \<not> bit (bn_abs a) (nat n))"
    using assms by (auto simp: BN_clear_bit_def Let_def bn_abs_def words_val_bit split: if_splits)
qed

lemma word_pos_less: "j < 64 \<Longrightarrow> 64 * i + j < k \<longleftrightarrow> i < k div 64 \<or> i = k div 64 \<and> j < k mod (64 :: nat)"
proof -
  assume j: "j < 64"
  define d r where "d = k div 64" and "r = k mod 64"
  then have "k = 64 * d + r" "r < 64" by simp_all
  with j have "64 * i + j < k \<longleftrightarrow> i < d \<or> i = d \<and> j < r" by (cases i d rule: linorder_cases) (auto dest!: less_imp_Suc_add)
  then show ?thesis by (simp add: d_def r_def)
qed

lemma BN_mask_bits_ok:
  assumes "BN_mask_bits a n = (ok, a')" "bn_ok a"
  shows "ok = (0 \<le> n)" "ok \<longrightarrow> bn_ok a' \<and> bn_abs a' = bn_abs a mod 2 ^ nat n"
proof -
  let ?w = "nat n div 64" and ?b = "nat n mod 64"
  show "ok = (0 \<le> n)" using assms(1) by (auto simp: BN_mask_bits_def Let_def split: if_splits)
  have fa: "bn_fit a" using assms(2) by (simp add: bn_ok_def)
  show "ok \<longrightarrow> bn_ok a' \<and> bn_abs a' = bn_abs a mod 2 ^ nat n"
  proof
    assume ok
    show "bn_ok a' \<and> bn_abs a' = bn_abs a mod 2 ^ nat n"
    proof (cases "bn_width a \<le> ?w")
      case True
      then have "64 * bn_width a \<le> nat n" by linarith
      with bn_abs_less [OF fa] have "bn_abs a < 2 ^ nat n" by (meson less_le_trans one_le_numeral power_increasing)
      with True assms \<open>ok\<close> show ?thesis by (auto simp: BN_mask_bits_def Let_def split: if_splits)
    next
      case False
      let ?q = "if ?b = 0 then a\<lparr>bn_width := ?w\<rparr>
        else a\<lparr>bn_width := ?w + 1, bn_d := (bn_d a)[?w := bn_d a ! ?w AND NOT (push_bit ?b 0xffffffffffffffff)]\<rparr>"
      have r: "a' = bn_set_minimal_width ?q"
        using False assms(1) \<open>ok\<close> unfolding BN_mask_bits_def Let_def by (auto split: if_splits)
      have f: "bn_fit ?q" using fa False by (simp add: bn_fit_def)
      have "words_val (bn_used ?q) = take_bit (nat n) (bn_abs a)"
      proof (rule words_val_bitI)
        fix i j assume i: "i < length (bn_used ?q)" and j: "j < (64 :: nat)"
        have iw: "i \<le> ?w" "i = ?w \<Longrightarrow> ?b \<noteq> 0" using i f by (auto split: if_splits)
        have V: "bit (bn_d a ! i) j = bit (bn_abs a) (64 * i + j)"
          using word_bit_words [of i "bn_used a" j] iw(1) False fa j by (simp add: bn_used_nth bn_abs_def)
        have "bn_used ?q ! i = (if i = ?w then bn_d a ! i AND NOT (push_bit ?b 0xffffffffffffffff) else bn_d a ! i)"
          using iw False fa by (auto simp: bn_used_def bn_fit_def)
        then have "bit (bn_used ?q ! i) j = ((i = ?w \<longrightarrow> j < ?b) \<and> bit (bn_d a ! i) j)"
          using word_bit_ops(3) [OF _ j, of ?b] by (simp del: push_bit_numeral)
        also have "\<dots> = bit (take_bit (nat n) (bn_abs a)) (64 * i + j)"
          using iw(1) unfolding bit_take_bit_iff word_pos_less [OF j] V by auto
        finally show "bit (bn_used ?q ! i) j = bit (take_bit (nat n) (bn_abs a)) (64 * i + j)" .
      next
        fix m assume "64 * length (bn_used ?q) \<le> m"
        moreover have "nat n \<le> 64 * length (bn_used ?q)" using f by (auto split: if_splits)
        ultimately have "nat n \<le> m" by linarith
        then show "\<not> bit (take_bit (nat n) (bn_abs a)) m" by (simp add: bit_take_bit_iff)
      qed
      then have "bn_abs ?q = bn_abs a mod 2 ^ nat n" by (simp only: bn_abs_def [of ?q] take_bit_eq_mod)
      with bn_set_minimal_width_ok [OF f] r show ?thesis by simp
    qed
  qed
qed



section \<open>The zeros at the low end\<close>

definition low_zeros :: "(nat \<Rightarrow> bool) \<Rightarrow> nat \<Rightarrow> bool" where
  "low_zeros b c \<longleftrightarrow> b c \<and> (\<forall>i < c. \<not> b i)"

lemma push_bit_eq_0:
  fixes l :: u64
  assumes "k \<le> 64"
  shows "push_bit (64 - k) l = 0 \<longleftrightarrow> (\<forall>j < k. \<not> bit l j)"
proof
  assume z: "push_bit (64 - k) l = 0"
  show "\<forall>j < k. \<not> bit l j"
  proof (intro allI impI)
    fix j assume "j < k"
    then have "bit (push_bit (64 - k) l) (64 - k + j) = bit l j" using assms by (auto simp: bit_push_bit_iff)
    with z show "\<not> bit l j" by simp
  qed
next
  assume "\<forall>j < k. \<not> bit l j"
  then show "push_bit (64 - k) l = 0" by (intro bit_eqI) (auto simp: bit_push_bit_iff)
qed

text \<open>Before the block for \<open>k\<close>, the lowest bit that is set is one of the next \<open>2 k\<close>.\<close>

definition low_inv :: "u64 \<Rightarrow> nat \<Rightarrow> u64 \<times> nat \<Rightarrow> bool" where
  "low_inv v m = (\<lambda>(l, c). l = drop_bit c v \<and> (\<forall>i < c. \<not> bit v i) \<and> (\<exists>j < m. bit l j))"

lemma low_zero_step_inv:
  assumes "low_inv v (2 * k) s" "k \<le> 32"
  shows "low_inv v k (low_zero_step k s)"
proof -
  obtain l c where s: "s = (l, c)" by fastforce
  have "l = drop_bit c v \<and> (\<forall>i < c. \<not> bit v i) \<and> (\<exists>j < 2 * k. bit l j)"
    using assms(1) unfolding s low_inv_def prod.case .
  then have l: "l = drop_bit c v" "\<forall>i < c. \<not> bit v i" "\<exists>j < 2 * k. bit l j" by blast+
  have k: "unat (of_nat k :: u64) = k" using assms(2) by (simp add: unat_of_nat)
  show ?thesis
  proof (cases "\<forall>j < k. \<not> bit l j")
    case True
    then have z: "push_bit (64 - k) l = 0" using push_bit_eq_0 [of k l] assms(2) by simp
    obtain j where j: "j < 2 * k" "bit l j" using l(3) by blast
    with True have "k \<le> j" by (meson not_le)
    with j have "j - k < k \<and> bit (drop_bit k l) (j - k)" by (simp add: bit_drop_bit_eq)
    then have a: "\<exists>j < k. bit (drop_bit k l) j" by blast
    have b: "\<not> bit v i" if "i < c + k" for i
    proof (cases "i < c")
      case False
      with that have "i - c < k" by simp
      with True have "\<not> bit l (i - c)" by blast
      with l(1) False show ?thesis by (simp add: bit_drop_bit_eq)
    qed (use l(2) in simp)
    show ?thesis using a b l(1) k z
      by (simp add: s low_zero_step_def low_inv_def is_zero_w_eq select_w_eq Let_def drop_bit_drop_bit add.commute)
  next
    case False
    then have "push_bit (64 - k) l \<noteq> 0" using push_bit_eq_0 [of k l] assms(2) by simp
    with False l show ?thesis by (auto simp: s low_zero_step_def low_inv_def is_zero_w_eq select_w_eq Let_def)
  qed
qed

lemma bn_count_low_zero_bits_word_ok:
  assumes "l \<noteq> 0"
  shows "low_zeros (bit l) (bn_count_low_zero_bits_word l)"
proof -
  obtain j where "bit l j" using assms by (auto simp: bit_eq_iff)
  moreover from this have "j < 64" using bit_imp_le_length by fastforce
  ultimately have "low_inv l (2 * 32) (l, 0)" by (auto simp: low_inv_def)
  from low_zero_step_inv [OF this] have "low_inv l (2 * 16) (low_zero_step 32 (l, 0))" by simp
  from low_zero_step_inv [OF this] have "low_inv l (2 * 8) (low_zero_step 16 (low_zero_step 32 (l, 0)))" by simp
  from low_zero_step_inv [OF this]
  have "low_inv l (2 * 4) (low_zero_step 8 (low_zero_step 16 (low_zero_step 32 (l, 0))))" by simp
  from low_zero_step_inv [OF this]
  have "low_inv l (2 * 2) (low_zero_step 4 (low_zero_step 8 (low_zero_step 16 (low_zero_step 32 (l, 0)))))" by simp
  from low_zero_step_inv [OF this]
  have "low_inv l (2 * 1) (low_zero_step 2 (low_zero_step 4 (low_zero_step 8 (low_zero_step 16 (low_zero_step 32 (l, 0))))))"
    by simp
  from low_zero_step_inv [OF this]
  show ?thesis unfolding bn_count_low_zero_bits_word_def low_inv_def low_zeros_def
    by (auto simp: bit_drop_bit_eq split: prod.splits)
qed

lemma BN_count_low_zero_bits_ok:
  assumes "bn_fit a"
  shows "bn_abs a = 0 \<Longrightarrow> BN_count_low_zero_bits a = 0"
    "bn_abs a \<noteq> 0 \<Longrightarrow> low_zeros (bit (bn_abs a)) (unat (BN_count_low_zero_bits a))"
proof -
  define f where "f = (\<lambda>i (ret :: u32, saw_nonzero). let nonzero = NOT (constant_time_is_zero_w (bn_d a ! i));
      first_nonzero = NOT saw_nonzero AND nonzero; bits = bn_count_low_zero_bits_word (bn_d a ! i)
    in (ret OR ucast (first_nonzero AND of_nat (i * 64 + bits)), saw_nonzero OR nonzero))"
  have inv: "if \<forall>i < m. bn_d a ! i = 0 then fold f [0..<m] (0, 0) = (0, 0)
    else \<exists>r. fold f [0..<m] (0, 0) = (r, - 1) \<and> low_zeros (bit (bn_abs a)) (unat r)" if "m \<le> bn_width a" for m
    using that
  proof (induction m)
    case (Suc m)
    let ?x = "bn_d a ! m"
    show ?case
    proof (cases "\<forall>i < m. bn_d a ! i = 0")
      case False
      with Suc obtain r where "fold f [0..<m] (0, 0) = (r, - 1)" "low_zeros (bit (bn_abs a)) (unat r)" by auto
      then have "fold f [0..<Suc m] (0, 0) = (r, - 1)" by (simp add: f_def Let_def)
      with False \<open>low_zeros _ _\<close> show ?thesis by (auto dest: less_SucI)
    next
      case z: True
      with Suc have s: "fold f [0..<Suc m] (0, 0) = f m (0, 0)" by simp
      show ?thesis
      proof (cases "?x = 0")
        case True
        then have "f m (0, 0) = (0, 0)" by (simp add: f_def Let_def is_zero_w_eq)
        with s z True show ?thesis by (auto simp: less_Suc_eq)
      next
        case False
        let ?c = "bn_count_low_zero_bits_word ?x"
        have c: "bit ?x ?c" "\<forall>i < ?c. \<not> bit ?x i"
          using bn_count_low_zero_bits_word_ok [OF False] by (simp_all add: low_zeros_def)
        then have c64: "?c < 64" using bit_imp_le_length by fastforce
        have "m < BN_MAX_WORDS" using Suc.prems assms by (simp add: bn_fit_def)
        then have small: "m * 64 + ?c < 2 ^ 31" using c64 by (simp add: BN_MAX_WORDS_def)
        have "f m (0, 0) = (ucast (of_nat (m * 64 + ?c) :: u64), - 1)"
          using False by (simp add: f_def Let_def is_zero_w_eq del: of_nat_add of_nat_mult)
        moreover have "unat (ucast (of_nat (m * 64 + ?c) :: u64) :: u32) = m * 64 + ?c"
          using small by (simp add: unsigned_ucast_eq unat_of_nat take_bit_nat_eq_self_iff del: of_nat_add of_nat_mult)
        moreover have "low_zeros (bit (bn_abs a)) (m * 64 + ?c)"
          unfolding low_zeros_def
        proof (intro conjI allI impI)
          have l: "m < length (bn_used a)" using Suc.prems assms by simp
          show "bit (bn_abs a) (m * 64 + ?c)"
            using c(1) c64 l assms by (simp add: bn_abs_def words_val_bit bn_used_nth)
          fix i assume "i < m * 64 + ?c"
          then have "i div 64 < m \<or> i div 64 = m \<and> i mod 64 < ?c"
            using word_pos_less [of "i mod 64" "i div 64" "64 * m + ?c"] c64 by (simp add: mult.commute)
          with z c(2) assms show "\<not> bit (bn_abs a) i" by (auto simp: bn_abs_def words_val_bit bn_used_nth)
        qed
        ultimately show ?thesis using s False by auto
      qed
    qed
  qed simp
  have e: "BN_count_low_zero_bits a = fst (fold f [0..<bn_width a] (0, 0))"
    unfolding BN_count_low_zero_bits_def f_def ..
  have z: "(\<forall>i < bn_width a. bn_d a ! i = 0) \<longleftrightarrow> bn_abs a = 0"
    using assms by (simp add: bn_abs_def words_val_eq_0 all_set_conv_all_nth bn_used_nth)
  from inv [of "bn_width a"] z
  show "bn_abs a = 0 \<Longrightarrow> BN_count_low_zero_bits a = 0"
    "bn_abs a \<noteq> 0 \<Longrightarrow> low_zeros (bit (bn_abs a)) (unat (BN_count_low_zero_bits a))"
    by (auto simp: e)
qed



section \<open>Properties\<close>

lemma shifts_succeed:
  assumes "0 \<le> n" "can_grow alloc r (bn_width a + nat n div 64 + 1)"
  shows "fst (BN_lshift1 alloc r a)" "fst (BN_rshift alloc r a n)" "fst (BN_rshift1 alloc r a)"
proof -
  have g: "fst (bn_wexpand alloc r m)" if "m \<le> bn_width a + nat n div 64 + 1" for m
    using can_grow_wexpand [OF assms(2) that] .
  have s: "can_grow alloc (r\<lparr>bn_neg := bn_neg a\<rparr>) (bn_width a + nat n div 64 + 1)" using assms(2) by (simp add: can_grow_def)
  have "fst (bn_wexpand alloc (r\<lparr>bn_neg := bn_neg a\<rparr>) (bn_width a + 1))" by (rule can_grow_wexpand [OF s]) simp
  then show "fst (BN_lshift1 alloc r a)" by (auto simp: BN_lshift1_def Let_def split: prod.splits)
  show "fst (BN_rshift alloc r a n)" "fst (BN_rshift1 alloc r a)"
    using g [of "bn_width a"] assms(1) by (auto simp: BN_rshift_def BN_rshift1_def split: prod.splits)
qed

text \<open>C12: The shifts multiply by a power of two and divide by it, rounding to zero and keeping the sign, also
  when the result is the operand; they never make a negative zero, they refuse a negative count, and they
  succeed when the result can be given the words that the product needs.\<close>

theorem BN_shift_correct:
  fixes n :: int
  assumes "bn_fit r" "bn_ok a" "aliased \<longrightarrow> r = a"
  shows "(fst (BN_lshift alloc aliased r a n) \<longrightarrow>
      bn_ok (snd (BN_lshift alloc aliased r a n)) \<and> bn_val (snd (BN_lshift alloc aliased r a n)) = bn_val a * 2 ^ nat n) \<and>
    (fst (BN_lshift1 alloc r a) \<longrightarrow> bn_ok (snd (BN_lshift1 alloc r a)) \<and> bn_val (snd (BN_lshift1 alloc r a)) = 2 * bn_val a) \<and>
    (fst (BN_rshift alloc r a n) \<longrightarrow> rshifted a (nat n) (snd (BN_rshift alloc r a n))) \<and>
    (fst (BN_rshift1 alloc r a) \<longrightarrow> rshifted a 1 (snd (BN_rshift1 alloc r a))) \<and>
    (0 \<le> n \<and> can_grow alloc r (bn_width a + nat n div 64 + 1) \<longrightarrow>
      fst (BN_lshift alloc aliased r a n) \<and> fst (BN_lshift1 alloc r a) \<and>
      fst (BN_rshift alloc r a n) \<and> fst (BN_rshift1 alloc r a)) \<and>
    (n < 0 \<longrightarrow> \<not> fst (BN_lshift alloc aliased r a n) \<and> \<not> fst (BN_rshift alloc r a n))"
proof -
  have fa: "bn_fit a" using assms(2) by (simp add: bn_ok_def)
  note l = BN_lshift_ok [OF prod.collapse [symmetric] assms(1) fa assms(3), where alloc = alloc and n = n]
  have "fst (BN_lshift alloc aliased r a n)" if "0 \<le> n \<and> can_grow alloc r (bn_width a + nat n div 64 + 1)"
    using l(2) that can_grow_wexpand by blast
  moreover have "\<not> fst (BN_lshift alloc aliased r a n) \<and> \<not> fst (BN_rshift alloc r a n)" if "n < 0"
    using that by (simp add: BN_lshift_def BN_rshift_def)
  ultimately show ?thesis
    using l(1) BN_lshift1_ok [OF prod.collapse [symmetric] assms(1,2), of alloc]
      BN_rshift_ok [OF prod.collapse [symmetric] assms(1) fa, of alloc n]
      BN_rshift1_ok [OF prod.collapse [symmetric] assms(1) fa, of alloc] shifts_succeed [of n alloc r a]
    by blast
qed

theorem BN_shift_correct_witness:
  "bn_val (snd (BN_lshift (\<lambda>_. None) True \<lparr>bn_d = [5, 0, 0], bn_width = 1, bn_neg = True, bn_static = False\<rparr>
      \<lparr>bn_d = [5, 0, 0], bn_width = 1, bn_neg = True, bn_static = False\<rparr> 66)) = - 5 * 2 ^ 66"
proof -
  let ?a = "\<lparr>bn_d = [5, 0, 0], bn_width = 1, bn_neg = True, bn_static = False\<rparr>"
  have "bn_ok ?a" by (simp add: bn_ok_def bn_fit_def bn_abs_def bn_used_def BN_MAX_WORDS_def)
  moreover have "fst (BN_lshift (\<lambda>_. None) True ?a ?a 66)" by (simp add: BN_lshift_def bn_wexpand_def Let_def)
  moreover have "bn_val ?a = - 5" by (simp add: bn_val_def bn_abs_def bn_used_def)
  ultimately show ?thesis using BN_shift_correct [of ?a ?a True "\<lambda>_. None" 66] by (simp add: bn_ok_def)
qed

text \<open>C34: The operations on bits read and write the bits of the absolute value: \<open>BN_is_bit_set\<close> reads one,
  \<open>BN_set_bit\<close> and \<open>BN_clear_bit\<close> change one and no other, \<open>BN_mask_bits\<close> is the remainder by a power of two,
  and \<open>BN_count_low_zero_bits\<close> is the position of the lowest bit that is set.\<close>

theorem BN_bits_correct:
  assumes "bn_ok a"
  shows "BN_is_bit_set a n = (0 \<le> n \<and> bit (bn_abs a) (nat n)) \<and>
    (fst (BN_set_bit alloc a n) \<longrightarrow> bn_ok (snd (BN_set_bit alloc a n)) \<and>
      bn_abs (snd (BN_set_bit alloc a n)) = set_bit (nat n) (bn_abs a)) \<and>
    (fst (BN_clear_bit a n) \<longrightarrow> bn_ok (snd (BN_clear_bit a n)) \<and>
      bn_abs (snd (BN_clear_bit a n)) = unset_bit (nat n) (bn_abs a)) \<and>
    (\<not> fst (BN_clear_bit a n) \<longrightarrow> \<not> BN_is_bit_set a n) \<and>
    (fst (BN_mask_bits a n) \<longrightarrow> bn_ok (snd (BN_mask_bits a n)) \<and>
      bn_abs (snd (BN_mask_bits a n)) = bn_abs a mod 2 ^ nat n) \<and>
    (bn_abs a \<noteq> 0 \<longrightarrow> low_zeros (bit (bn_abs a)) (unat (BN_count_low_zero_bits a))) \<and>
    (bn_abs a = 0 \<longrightarrow> BN_count_low_zero_bits a = 0)"
proof -
  have fa: "bn_fit a" using assms by (simp add: bn_ok_def)
  have "set_bit (nat n) (bn_abs a) \<noteq> 0" using set_bit_nat_iff [of "nat n" "bn_abs a" "nat n"] by (metis bit_0_eq bot_apply bot_bool_def)
  then have "fst (BN_set_bit alloc a n) \<longrightarrow> bn_ok (snd (BN_set_bit alloc a n)) \<and>
      bn_abs (snd (BN_set_bit alloc a n)) = set_bit (nat n) (bn_abs a)"
    using BN_set_bit_ok [OF prod.collapse [symmetric] fa, of alloc n] by (simp add: bn_ok_def)
  moreover have "\<not> fst (BN_clear_bit a n) \<longrightarrow> \<not> BN_is_bit_set a n"
    using BN_clear_bit_ok(2) [OF prod.collapse [symmetric] fa, of n] BN_is_bit_set_eq [OF fa] by blast
  ultimately show ?thesis
    using BN_is_bit_set_eq [OF fa] BN_clear_bit_ok(1) [OF prod.collapse [symmetric] fa, of n]
      BN_mask_bits_ok(2) [OF prod.collapse [symmetric] assms, of n] BN_count_low_zero_bits_ok [OF fa]
    by blast
qed

theorem BN_bits_correct_witness:
  "bn_abs (snd (BN_mask_bits \<lparr>bn_d = [7, 5], bn_width = 2, bn_neg = True, bn_static = False\<rparr> 65)) = 2 ^ 64 + 7 \<and>
   BN_is_bit_set \<lparr>bn_d = [7, 5], bn_width = 2, bn_neg = True, bn_static = False\<rparr> 66"
proof -
  let ?a = "\<lparr>bn_d = [7, 5], bn_width = 2, bn_neg = True, bn_static = False\<rparr>"
  have ok: "bn_ok ?a" by (simp add: bn_ok_def bn_fit_def bn_abs_def bn_used_def BN_MAX_WORDS_def)
  have abs: "bn_abs ?a = 7 + 5 * 2 ^ 64" by (simp add: bn_abs_def bn_used_def)
  have "fst (BN_mask_bits ?a 65)" by (simp add: BN_mask_bits_def Let_def)
  with BN_bits_correct [OF ok, of 65 "\<lambda>_. None"] abs
  have "bn_abs (snd (BN_mask_bits ?a 65)) = 2 ^ 64 + 7" by simp
  moreover have "bit (bn_abs ?a) 66" unfolding abs by (simp add: bit_iff_odd)
  ultimately show ?thesis using BN_bits_correct [OF ok, of 66 "\<lambda>_. None"] by simp
qed

text \<open>C38: The shift in constant time, \<open>bn_rshift_secret_shift\<close>, shifts by the low bits of the count only, as many
  as the number of bits in the operand's words needs; for a count without higher bits it gives the same value as
  \<open>BN_rshift\<close>.\<close>

theorem bn_rshift_secret_shift_agrees:
  assumes "bn_fit r" "bn_fit a" "64 * bn_width a < 2 ^ L" "2 ^ L \<le> 2 * (64 * bn_width a)"
    "bn_rshift_secret_shift mem_ok alloc r a n ctx = (True, r1, ctx')" "BN_rshift alloc r a (uint n) = (True, r2)"
  shows "bn_fit r1 \<and> bn_abs r1 = bn_abs a div 2 ^ (unat n mod 2 ^ L) \<and>
    (unat n < 2 ^ L \<longrightarrow> bn_val r1 = bn_val r2)"
proof -
  let ?m = "of_nat (64 * bn_width a) :: u32"
  have "64 * bn_width a < 2 ^ 32" using assms(2) by (simp add: bn_fit_def BN_MAX_WORDS_def)
  then have m: "unat ?m = 64 * bn_width a" by (simp only: unat_of_nat) simp
  have "drop_bit i ?m \<noteq> 0 \<longleftrightarrow> i < L" for i
  proof -
    have "2 ^ i \<le> 64 * bn_width a \<longleftrightarrow> i < L"
    proof
      assume "2 ^ i \<le> 64 * bn_width a"
      with assms(3) have "(2 :: nat) ^ i < 2 ^ L" by linarith
      then show "i < L" by simp
    next
      assume "i < L"
      then have "(2 :: nat) ^ Suc i \<le> 2 ^ L" by (intro power_increasing) simp_all
      with assms(4) show "2 ^ i \<le> 64 * bn_width a" by simp
    qed
    then show ?thesis unfolding drop_bit_u32 m .
  qed
  note v = bn_rshift_secret_shift_val [OF assms(5,1,2) this]
  from v rshiftedI(2) [of r1 a "unat n"] BN_rshift_ok [OF assms(6,1,2)] show ?thesis by (simp add: rshifted_def)
qed

definition one_word :: bignum where
  "one_word = \<lparr>bn_d = [6], bn_width = 1, bn_neg = False, bn_static = False\<rparr>"

definition any_block :: words_alloc where "any_block n = Some (\<lambda>_. 7)"

lemmas rshift_run = BN_rshift_def bn_wexpand_def any_block_def one_word_def BN_init_def bn_rshift_words_def Let_def
  bn_set_minimal_width_def bn_minimal_width_def bn_abs_def bn_used_def put_words_def

lemma one_word_run: "fst (bn_rshift_secret_shift (\<lambda>_. True) any_block BN_init one_word n BN_CTX_new)"
proof -
  define g where "g = BN_CTX_get (\<lambda>_. True) (BN_CTX_start (\<lambda>_. True) BN_CTX_new)"
  have "fst g = Some 0" "\<not> bn_static (ctx_bn (snd g) 0)" unfolding g_def by code_simp+
  moreover have "fst (bn_wexpand any_block (ctx_bn (snd g) 0) (bn_width one_word))" if "\<not> bn_static (ctx_bn (snd g) 0)"
    using that by (intro bn_wexpand_succeeds) (simp_all add: one_word_def BN_MAX_WORDS_def any_block_def)
  moreover have "fst (BN_copy any_block BN_init one_word)"
    by (simp add: BN_copy_def bn_wexpand_def any_block_def one_word_def BN_init_def)
  moreover have "bn_fit BN_init" "bn_fit one_word" by (simp_all add: bn_fit_def BN_init_def one_word_def BN_MAX_WORDS_def)
  ultimately show ?thesis unfolding g_def
    by (intro bn_rshift_secret_shift_succeeds [of _ _ 0]) (auto simp: prod_eq_iff)
qed

theorem bn_rshift_secret_shift_agrees_witness:
  "bn_val (fst (snd (bn_rshift_secret_shift (\<lambda>_. True) any_block BN_init one_word 1 BN_CTX_new))) = 3 \<and>
   bn_abs (fst (snd (bn_rshift_secret_shift (\<lambda>_. True) any_block BN_init one_word 128 BN_CTX_new))) = 6 \<and>
   bn_val (snd (BN_rshift any_block BN_init one_word 128)) = 0"
proof -
  have fit: "bn_fit BN_init" "bn_fit one_word" by (simp_all add: bn_fit_def BN_init_def one_word_def BN_MAX_WORDS_def)
  have w: "64 * bn_width one_word < 2 ^ 7" "2 ^ 7 \<le> 2 * (64 * bn_width one_word)" by (simp_all add: one_word_def)
  have six: "bn_abs one_word = 6" by (simp add: one_word_def bn_abs_def bn_used_def)
  have run: "fst (BN_rshift any_block BN_init one_word (uint (n :: u32)))" for n
    by (simp add: BN_rshift_def bn_wexpand_def any_block_def one_word_def BN_init_def)
  have v: "bn_abs (fst (snd (bn_rshift_secret_shift (\<lambda>_. True) any_block BN_init one_word n BN_CTX_new))) = 6 div 2 ^ (unat n mod 2 ^ 7)"
    "unat n < 2 ^ 7 \<Longrightarrow> bn_val (fst (snd (bn_rshift_secret_shift (\<lambda>_. True) any_block BN_init one_word n BN_CTX_new))) =
      bn_val (snd (BN_rshift any_block BN_init one_word (uint n)))" for n
  proof -
    obtain r1 c1 where s: "bn_rshift_secret_shift (\<lambda>_. True) any_block BN_init one_word n BN_CTX_new = (True, r1, c1)"
      using one_word_run [of n] by (metis prod.collapse)
    have r: "BN_rshift any_block BN_init one_word (uint n) = (True, snd (BN_rshift any_block BN_init one_word (uint n)))"
      using run [of n] by (simp add: prod_eq_iff)
    from bn_rshift_secret_shift_agrees [OF fit w s r] s six
    show "bn_abs (fst (snd (bn_rshift_secret_shift (\<lambda>_. True) any_block BN_init one_word n BN_CTX_new))) = 6 div 2 ^ (unat n mod 2 ^ 7)"
      "unat n < 2 ^ 7 \<Longrightarrow> bn_val (fst (snd (bn_rshift_secret_shift (\<lambda>_. True) any_block BN_init one_word n BN_CTX_new))) =
        bn_val (snd (BN_rshift any_block BN_init one_word (uint n)))" by simp_all
  qed
  have "bn_val (snd (BN_rshift any_block BN_init one_word 1)) = 3" "bn_val (snd (BN_rshift any_block BN_init one_word 128)) = 0"
    by (simp_all add: rshift_run bn_val_def)
  with v(1) [of 128] v(2) [of 1] show ?thesis by simp
qed

end
