(* ===== verification/Bn_Div_Word.thy ===== *)
theory Bn_Div_Word
  imports Bn_Bits
begin

text \<open>
  Division by one word and by powers of two (\<open>crypto/fipsmodule/bn/div.c\<close> from \<open>BN_div_word\<close> on, and
  \<open>div_extra.c\<close>), in the variant with a two-word integer that can be divided.  The loops start at the top
  word, so that a step of the recursion follows that of the words above.
\<close>

section \<open>The operations\<close>

definition bn_div_rem_words :: "u64 \<Rightarrow> u64 \<Rightarrow> u64 \<Rightarrow> u64 \<times> u64" where
  "bn_div_rem_words n0 n1 d0 =
     (let n = push_bit 64 (ucast n0) OR ucast n1 :: u128; quotient = ucast (n div ucast d0) :: u64
      in (quotient, n1 - quotient * d0))"

fun div_word_loop :: "words \<Rightarrow> u64 \<Rightarrow> words \<times> u64" where
  "div_word_loop [] w = ([], 0)"
| "div_word_loop (l # a) w =
     (let (r, ret) = div_word_loop a w; (d, unused_rem) = bn_div_rem_words ret l w in (d # r, l - d * w))"

definition BN_div_word :: "words_alloc \<Rightarrow> bignum \<Rightarrow> u64 \<Rightarrow> u64 \<times> bignum" where
  "BN_div_word alloc a w =
     (if w = 0 then (- 1, a)
      else if bn_width a = 0 then (0, a)
      else
        let j = 64 - BN_num_bits_word w; w = push_bit j w; (ok, a) = BN_lshift alloc True a a (int j) in
        if \<not> ok then (- 1, a)
        else
          let (r, ret) = div_word_loop (bn_used a) w;
              a = bn_set_minimal_width (a\<lparr>bn_d := put_words (bn_d a) r\<rparr>)
          in (drop_bit j ret, a))"

fun mod_word_loop :: "words \<Rightarrow> u64 \<Rightarrow> u128" where
  "mod_word_loop [] w = 0"
| "mod_word_loop (l # a) w = (push_bit 64 (mod_word_loop a w) OR ucast l) mod ucast w"

definition BN_mod_word :: "bignum \<Rightarrow> u64 \<Rightarrow> u64" where
  "BN_mod_word a w = (if w = 0 then - 1 else ucast (mod_word_loop (bn_used a) w))"

definition BN_mod_pow2 :: "words_alloc \<Rightarrow> bignum \<Rightarrow> bignum \<Rightarrow> nat \<Rightarrow> bool \<times> bignum" where
  "BN_mod_pow2 alloc r a e =
     (if e = 0 \<or> bn_width a = 0 then (True, BN_zero r)
      else
        let num_words = 1 + (e - 1) div 64 in
        if bn_width a < num_words then BN_copy alloc r a
        else
          let (ok, r) = bn_wexpand alloc r num_words in
          if \<not> ok then (False, r)
          else
            let d = put_words (bn_d r) (take num_words (bn_d a));
                top_word_exponent = e mod 64;
                d = (if top_word_exponent \<noteq> 0
                     then d[num_words - 1 := d ! (num_words - 1) AND (push_bit top_word_exponent 1 - 1)] else d)
            in (True, bn_set_minimal_width (r\<lparr>bn_d := d, bn_neg := bn_neg a, bn_width := num_words\<rparr>)))"

definition BN_value_one :: bignum where
  "BN_value_one = \<lparr>bn_d = [1], bn_width = 1, bn_neg = False, bn_static = True\<rparr>"

definition BN_nnmod_pow2 :: "words_alloc \<Rightarrow> bignum \<Rightarrow> bignum \<Rightarrow> nat \<Rightarrow> bool \<times> bignum" where
  "BN_nnmod_pow2 alloc r a e =
     (let (ok, r) = BN_mod_pow2 alloc r a e in
      if \<not> ok then (False, r)
      else if BN_is_zero r \<or> \<not> bn_neg r then (True, r)
      else
        let num_words = 1 + (e - 1) div 64; (ok, r) = bn_wexpand alloc r num_words in
        if \<not> ok then (False, r)
        else
          let d = put_words (bn_d r) (bn_used r @ replicate (num_words - bn_width r) 0);
              d = put_words d (map NOT (take num_words d));
              top_word_exponent = e mod 64;
              d = (if top_word_exponent \<noteq> 0
                   then d[num_words - 1 := d ! (num_words - 1) AND (push_bit top_word_exponent 1 - 1)] else d);
              r = bn_set_minimal_width (r\<lparr>bn_d := d, bn_neg := False, bn_width := num_words\<rparr>)
          in BN_add alloc r r BN_value_one)"

definition mod_u16 :: "u32 \<Rightarrow> u16 \<Rightarrow> u32 \<Rightarrow> u32 \<Rightarrow> u16" where
  "mod_u16 n d p m =
     (let q = ucast (drop_bit 32 (ucast m * ucast n :: u64)) :: u32;
          t = drop_bit 1 (n - q) + q;
          t = drop_bit (unat (p - 1)) t
      in ucast (n - ucast d * t))"

definition shift_and_add_mod_u16 :: "u16 \<Rightarrow> u32 \<Rightarrow> u16 \<Rightarrow> u32 \<Rightarrow> u32 \<Rightarrow> u16" where
  "shift_and_add_mod_u16 r a d p m =
     (let t = push_bit 16 (ucast r) OR drop_bit 16 a; t = ucast (mod_u16 t d p m) :: u32;
          t = push_bit 16 t OR (a AND 0xffff)
      in mod_u16 t d p m)"

fun mod_u16_loop :: "words \<Rightarrow> u16 \<Rightarrow> u32 \<Rightarrow> u32 \<Rightarrow> u16" where
  "mod_u16_loop [] d p m = 0"
| "mod_u16_loop (l # a) d p m =
     (let ret = mod_u16_loop a d p m; ret = shift_and_add_mod_u16 ret (ucast (drop_bit 32 l)) d p m
      in shift_and_add_mod_u16 ret (ucast (l AND 0xffffffff)) d p m)"

definition bn_mod_u16_consttime :: "bignum \<Rightarrow> u16 \<Rightarrow> u16" where
  "bn_mod_u16_consttime bn d =
     (if d \<le> 1 then 0
      else
        let p = of_nat (BN_num_bits_word (ucast (d - 1))) :: u32;
            m = ucast ((push_bit (32 + unat p) 1 + ucast d - 1) div ucast d :: u64) :: u32
        in mod_u16_loop (bn_used bn) d p m)"


section \<open>Division by a word\<close>

lemma unat_two_words: "unat (push_bit 64 (ucast (h :: u64)) OR ucast (l :: u64) :: u128) = 2 ^ 64 * unat h + unat l"
proof -
  have "push_bit 64 (ucast h) AND (ucast l :: u128) = 0"
    by (rule bit_eqI) (auto simp: bit_and_iff bit_push_bit_iff bit_ucast_iff dest!: bit_imp_le_length)
  then have "push_bit 64 (ucast h) OR ucast l = push_bit 64 (ucast h) + (ucast l :: u128)"
    by (simp add: disjunctive_add_eq_or)
  moreover have "2 ^ 64 * unat h + unat l < 2 ^ 128"
  proof -
    have "2 ^ 64 * (unat h + 1) \<le> (2 :: nat) ^ 64 * 2 ^ 64" using unat_u64_less [of h] by (intro mult_le_mono2) simp
    with unat_u64_less [of l] show ?thesis by simp
  qed
  ultimately show ?thesis by (simp add: unat_word_ariths push_bit_eq_mult)
qed

lemma bn_div_rem_words_val:
  assumes "n0 < d0"
  shows "bn_div_rem_words n0 n1 d0 = (q, r) \<Longrightarrow>
    unat q = (2 ^ 64 * unat n0 + unat n1) div unat d0 \<and> unat r = (2 ^ 64 * unat n0 + unat n1) mod unat d0"
proof -
  let ?n = "2 ^ 64 * unat n0 + unat n1"
  assume b: "bn_div_rem_words n0 n1 d0 = (q, r)"
  have d: "unat n0 < unat d0" using assms by (simp add: word_less_nat_alt)
  have "2 ^ 64 * (unat n0 + 1) \<le> 2 ^ 64 * unat d0" using d by (intro mult_le_mono2) simp
  then have "?n < unat d0 * 2 ^ 64" using unat_u64_less [of n1] by (simp add: mult.commute)
  then have lt: "?n div unat d0 < 2 ^ 64" using d by (simp add: div_less_iff_less_mult mult.commute)
  then have q: "unat q = ?n div unat d0"
    using b by (auto simp: bn_div_rem_words_def Let_def unat_low unat_div unat_two_words)
  have "unat r = ?n mod unat d0"
  proof -
    have r: "r = n1 - q * d0" using b by (auto simp: bn_div_rem_words_def Let_def)
    have le: "unat q * unat d0 \<le> ?n" unfolding q by simp
    have "int (unat r) = (int (unat n1) - int (unat q) * int (unat d0)) mod 2 ^ 64"
      unfolding r by (simp add: uint_word_ariths mod_simps)
    also have "\<dots> = (int (unat n1) - int (unat q) * int (unat d0) + 2 ^ 64 * int (unat n0)) mod 2 ^ 64"
      by (rule mod_mult_self2 [symmetric])
    also have "\<dots> = (int ?n - int (unat q) * int (unat d0)) mod 2 ^ 64" by (simp add: algebra_simps)
    also have "\<dots> = int (?n mod unat d0) mod 2 ^ 64"
      using le unfolding q by (simp add: minus_div_mult_eq_mod zmod_int zdiv_int)
    also have "\<dots> = int (?n mod unat d0)"
    proof -
      have "?n mod unat d0 < unat d0" using d by simp
      then have "?n mod unat d0 < 2 ^ 64" using unat_u64_less [of d0] by simp
      then show ?thesis by simp
    qed
    finally show ?thesis by (simp only: of_nat_eq_iff)
  qed
  with q show ?thesis by blast
qed

lemma div_word_loop_val:
  assumes "w \<noteq> 0" "div_word_loop a w = (q, r)"
  shows "words_val q = words_val a div unat w \<and> unat r = words_val a mod unat w \<and> length q = length a"
  using assms(2)
proof (induction a arbitrary: q r)
  case (Cons l a)
  have w: "0 < unat w" using assms(1) by (simp add: unat_gt_0)
  obtain q' r' where a: "div_word_loop a w = (q', r')" by fastforce
  obtain d m where d: "bn_div_rem_words r' l w = (d, m)" by fastforce
  from Cons.prems a d have e: "q = d # q'" "r = l - d * w" by auto
  note IH = Cons.IH [OF a]
  have "r' < w" using IH w by (simp add: word_less_nat_alt)
  note v = bn_div_rem_words_val [OF this d]
  have m: "m = l - d * w" using d by (auto simp: bn_div_rem_words_def Let_def)
  let ?V = "words_val a"
  have s: "words_val (l # a) = 2 ^ 64 * (?V div unat w) * unat w + (2 ^ 64 * (?V mod unat w) + unat l)"
  proof -
    have "2 ^ 64 * ?V = 2 ^ 64 * (?V div unat w * unat w + ?V mod unat w)" by (simp only: div_mult_mod_eq)
    then have "2 ^ 64 * ?V = 2 ^ 64 * (?V div unat w) * unat w + 2 ^ 64 * (?V mod unat w)"
      by (simp only: distrib_left mult.assoc)
    then show ?thesis unfolding words_val.simps by linarith
  qed
  have "words_val (l # a) div unat w = 2 ^ 64 * (?V div unat w) + (2 ^ 64 * (?V mod unat w) + unat l) div unat w"
    unfolding s using w by simp
  moreover have "words_val (l # a) mod unat w = (2 ^ 64 * (?V mod unat w) + unat l) mod unat w"
    unfolding s by simp
  ultimately show ?case using e m v IH by simp
qed simp

text \<open>A word shifted until its top bit is set.\<close>

lemma unat_normalise: "unat (push_bit (64 - BN_num_bits_word w) w) = unat w * 2 ^ (64 - BN_num_bits_word w)"
proof -
  let ?b = "BN_num_bits_word w"
  have b: "?b \<le> 64" "unat w < 2 ^ ?b" using BN_num_bits_word_bounds [of w] by blast+
  have "unat w * 2 ^ (64 - ?b) < 2 ^ ?b * 2 ^ (64 - ?b)" using b(2) by (rule mult_strict_right_mono) simp
  also have "\<dots> = 2 ^ 64" using b(1) by (simp flip: power_add)
  finally have lt: "unat w * 2 ^ (64 - ?b) < 2 ^ 64" .
  have "unat (push_bit (64 - ?b) w) = take_bit 64 (push_bit (64 - ?b) (unat w))" by (simp add: unsigned_push_bit_eq)
  then show ?thesis unfolding push_bit_eq_mult take_bit_eq_mod using lt by simp
qed

lemma abs_bn_val: "\<bar>bn_val b\<bar> = int (bn_abs b)"
  by (simp add: bn_val_def)

lemma bn_ok_neg_iff: "bn_ok b \<Longrightarrow> bn_neg b \<longleftrightarrow> bn_val b < 0"
  by (auto simp: bn_ok_def bn_val_def)

lemma bn_scaled_parts:
  assumes "bn_ok a" "bn_ok b" "bn_val b = bn_val a * int k" "0 < k"
  shows "bn_abs b = bn_abs a * k" "bn_neg b = bn_neg a"
proof -
  have "int (bn_abs b) = int (bn_abs a * k)" unfolding abs_bn_val [symmetric] assms(3) by (simp add: abs_mult abs_bn_val)
  then show "bn_abs b = bn_abs a * k" by (simp only: of_nat_eq_iff)
  have "bn_val a * int k < 0 \<longleftrightarrow> bn_val a < 0" using assms(4) by (simp add: mult_less_0_iff)
  then show "bn_neg b = bn_neg a" using assms(1-3) by (simp add: bn_ok_neg_iff)
qed

text \<open>The absolute value of a number is divided, its sign stays.\<close>

definition divided :: "bignum \<Rightarrow> nat \<Rightarrow> bignum \<Rightarrow> bool" where
  "divided a k r \<longleftrightarrow> bn_ok r \<and> bn_val r = sgn (bn_val a) * (\<bar>bn_val a\<bar> div int k)"

lemma dividedI:
  assumes "bn_ok a" "bn_fit r" "bn_abs r = bn_abs a div k" "bn_neg r = bn_neg a"
  shows "divided a k (bn_set_minimal_width r)"
proof -
  have "bn_val r = sgn (bn_val a) * (\<bar>bn_val a\<bar> div int k)" using assms(3,4) by (auto simp: bn_val_def zdiv_int)
  with bn_set_minimal_width_ok(1,2) [OF assms(2)] show ?thesis by (simp add: divided_def)
qed

lemma BN_div_word_ok:
  assumes "BN_div_word alloc a w = (ret, a')" "bn_ok a" "w \<noteq> 0"
  shows "ret \<noteq> - 1 \<longrightarrow> divided a (unat w) a' \<and> unat ret = bn_abs a mod unat w"
    "can_grow alloc a (bn_width a + 1) \<Longrightarrow> ret \<noteq> - 1"
proof -
  have fa: "bn_fit a" using assms(2) by (simp add: bn_ok_def)
  have w0: "0 < unat w" using assms(3) by (simp add: unat_gt_0)
  define j where "j = 64 - BN_num_bits_word w"
  obtain ok b where l: "BN_lshift alloc True a a (int j) = (ok, b)" by fastforce
  have nz: "ret \<noteq> - 1" if "unat ret < unat w"
  proof
    assume "ret = - 1"
    then have "unat ret = 2 ^ 64 - 1" by (simp add: unsigned_minus_1_eq_mask mask_eq_exp_minus_1)
    with that unat_u64_less [of w] show False by simp
  qed
  have main: "(ok \<or> bn_width a = 0 \<longrightarrow> divided a (unat w) a' \<and> unat ret = bn_abs a mod unat w) \<and>
    (\<not> (ok \<or> bn_width a = 0) \<longrightarrow> ret = - 1)"
  proof (cases "bn_width a = 0")
    case True
    then have "bn_abs a = 0" by (simp add: bn_abs_def bn_used_def)
    with True assms show ?thesis by (simp add: BN_div_word_def divided_def bn_val_def)
  next
    case False
    have "ret = - 1" if "\<not> ok" using that assms(1,3) False l by (simp add: BN_div_word_def j_def Let_def)
    moreover have "divided a (unat w) a' \<and> unat ret = bn_abs a mod unat w" if ok
    proof -
      note s = BN_lshift_ok(1) [OF l fa fa, simplified]
      have b: "bn_ok b" "bn_val b = bn_val a * 2 ^ j" using s that by simp_all
      then have fb: "bn_fit b" by (simp add: bn_ok_def)
      from bn_scaled_parts [OF assms(2) b(1), of "2 ^ j"] b(2)
      have ab: "bn_abs b = bn_abs a * 2 ^ j" and nb: "bn_neg b = bn_neg a" by simp_all
      have w: "unat (push_bit j w) = unat w * 2 ^ j" unfolding j_def by (rule unat_normalise)
      then have "push_bit j w \<noteq> 0" using w0 by (metis mult_is_0 power_not_zero unat_0 zero_neq_numeral neq0_conv)
      obtain q t where d: "div_word_loop (bn_used b) (push_bit j w) = (q, t)" by fastforce
      from div_word_loop_val [OF \<open>push_bit j w \<noteq> 0\<close> d] w ab fb
      have v: "words_val q = bn_abs a div unat w" "unat t = bn_abs a mod unat w * 2 ^ j" "length q = bn_width b"
        by (simp_all add: bn_abs_def [of b, symmetric] mod_mult_mult2)
      from assms(1,3) False l that d have r: "ret = drop_bit j t"
        "a' = bn_set_minimal_width (b\<lparr>bn_d := put_words (bn_d b) q\<rparr>)"
        by (simp_all add: BN_div_word_def j_def Let_def)
      have "length q \<le> length (bn_d b)" "length (bn_d b) \<le> BN_MAX_WORDS" using fb v(3) by (simp_all add: bn_fit_def)
      from bn_put_ok [OF this, of "b\<lparr>bn_d := put_words (bn_d b) q\<rparr>"] v(1,3) nb r(2)
      have "divided a (unat w) a'" unfolding r(2) by (intro dividedI [OF assms(2)]) simp_all
      moreover have "unat ret = bn_abs a mod unat w" unfolding r(1) by (simp add: unat_drop_bit v(2))
      ultimately show ?thesis by blast
    qed
    ultimately show ?thesis using False by blast
  qed
  then show "ret \<noteq> - 1 \<longrightarrow> divided a (unat w) a' \<and> unat ret = bn_abs a mod unat w" by argo
  assume g: "can_grow alloc a (bn_width a + 1)"
  have "BN_num_bits_word w \<noteq> 0" using BN_num_bits_word_bounds(3) [of w] assms(3) by blast
  then have "j div 64 = 0" by (simp add: j_def)
  then have "fst (bn_wexpand alloc a (bn_width a + nat (int j) div 64 + 1))" using can_grow_wexpand [OF g] by simp
  from BN_lshift_ok(2) [OF l fa fa _ _ this] have ok by simp
  with main have "unat ret = bn_abs a mod unat w" by blast
  with w0 show "ret \<noteq> - 1" by (intro nz) simp
qed


section \<open>The remainder by a word\<close>

lemma mod_step: "(c * (x mod d) + y) mod d = (c * x + y) mod (d :: nat)"
  by (metis mod_add_left_eq mod_mult_right_eq)

lemma unat_shift_in:
  assumes "unat (x :: u128) < 2 ^ 64"
  shows "unat (push_bit 64 x OR ucast (l :: u64)) = 2 ^ 64 * unat x + unat l"
proof -
  have "x = ucast (ucast x :: u64)" using assms by (simp add: word_unat_eq_iff unat_low)
  then show ?thesis using unat_two_words [of "ucast x" l] assms by (simp add: unat_low)
qed

lemma mod_word_loop_val: "w \<noteq> 0 \<Longrightarrow> unat (mod_word_loop a w) = words_val a mod unat w"
proof (induction a)
  case (Cons l a)
  have w: "0 < unat w" using Cons.prems by (simp add: unat_gt_0)
  have "unat (mod_word_loop a w) < 2 ^ 64"
    using Cons w unat_u64_less [of w] mod_less_divisor [OF w, of "words_val a"] by simp
  then have "unat (mod_word_loop (l # a) w) = (2 ^ 64 * (words_val a mod unat w) + unat l) mod unat w"
    using unat_shift_in [of "mod_word_loop a w" l] Cons by (simp add: unat_mod)
  also have "\<dots> = (2 ^ 64 * words_val a + unat l) mod unat w" by (rule mod_step)
  finally show ?case by (simp add: add.commute)
qed simp

lemma BN_mod_word_eq:
  assumes "w \<noteq> 0"
  shows "unat (BN_mod_word a w) = bn_abs a mod unat w"
proof -
  have "0 < unat w" using assms by (simp add: unat_gt_0)
  then have "bn_abs a mod unat w < unat w" by (rule mod_less_divisor)
  then have "bn_abs a mod unat w < 2 ^ 64" using unat_u64_less [of w] by simp
  then show ?thesis using mod_word_loop_val [OF assms, of "bn_used a"] assms
    by (simp add: BN_mod_word_def unat_low bn_abs_def)
qed

section \<open>Powers of two\<close>

lemma and_low_mask: "x AND (2 ^ k - 1) = take_bit k (x :: u64)"
  by (simp add: take_bit_eq_mask mask_eq_exp_minus_1)

text \<open>The words for \<open>e\<close> bits, with the bits above them cut off in the top one.\<close>

definition low_words :: "nat \<Rightarrow> words \<Rightarrow> words" where
  "low_words e ws = (if e mod 64 \<noteq> 0
     then ws[(e - 1) div 64 := ws ! ((e - 1) div 64) AND (push_bit (e mod 64) 1 - 1)] else ws)"

lemma top_word:
  fixes e :: nat
  assumes "0 < e"
  shows "e mod 64 \<noteq> 0 \<Longrightarrow> (e - 1) div 64 = e div 64" "e mod 64 = 0 \<Longrightarrow> 64 * (1 + (e - 1) div 64) = e"
    "e \<le> 64 * (1 + (e - 1) div 64)"
proof -
  define q r where "q = (e - 1) div 64" and "r = (e - 1) mod 64"
  then have e: "e = 64 * q + r + 1" "r < 64" using assms by simp_all
  have d: "e div 64 = (if r = 63 then q + 1 else q)" "e mod 64 = (if r = 63 then 0 else r + 1)"
    using e by (auto simp: div_nat_eqI)
  show "e mod 64 \<noteq> 0 \<Longrightarrow> (e - 1) div 64 = e div 64" "e mod 64 = 0 \<Longrightarrow> 64 * (1 + (e - 1) div 64) = e"
    "e \<le> 64 * (1 + (e - 1) div 64)"
    using d e unfolding q_def [symmetric] by (auto split: if_splits)
qed

lemma low_words_val:
  assumes "0 < e" "1 + (e - 1) div 64 \<le> length u"
  shows "words_val (low_words e (take (1 + (e - 1) div 64) u)) = words_val u mod 2 ^ e"
    "length (low_words e (take (1 + (e - 1) div 64) u)) = 1 + (e - 1) div 64"
proof -
  let ?k = "(e - 1) div 64"
  let ?w = "low_words e (take (1 + ?k) u)"
  show len: "length ?w = 1 + ?k" using assms(2) by (simp add: low_words_def)
  have "words_val ?w = take_bit e (words_val u)"
  proof (rule words_val_bitI)
    fix i j assume i: "i < length ?w" and j: "j < (64 :: nat)"
    have b: "bit (u ! i) j = bit (words_val u) (64 * i + j)" using word_bit_words [of i u j] i j len assms(2) by simp
    have "bit (?w ! i) j = (64 * i + j < e \<and> bit (u ! i) j)"
    proof (cases "e mod 64 = 0")
      case True
      then have "64 * (i + 1) \<le> e" using top_word(2) [OF assms(1)] i len by (metis Suc_eq_plus1 Suc_leI mult_le_mono2)
      then have "64 * i + j < e" using j by simp
      with True i len show ?thesis by (simp add: low_words_def)
    next
      case False
      note k = top_word(1) [OF assms(1) False]
      have "64 * i + j < e \<longleftrightarrow> i < ?k \<or> i = ?k \<and> j < e mod 64" using word_pos_less [OF j, of i e] k by simp
      with False i len assms(2) show ?thesis by (auto simp: low_words_def nth_list_update and_low_mask bit_take_bit_iff)
    qed
    with b show "bit (?w ! i) j = bit (take_bit e (words_val u)) (64 * i + j)" by (simp add: bit_take_bit_iff)
  next
    fix n assume "64 * length ?w \<le> n"
    with top_word(3) [OF assms(1)] len have "e \<le> n" by simp
    then show "\<not> bit (take_bit e (words_val u)) n" by (simp add: bit_take_bit_iff)
  qed
  then show "words_val ?w = words_val u mod 2 ^ e" by (simp add: take_bit_eq_mod)
qed

lemma take_low_words: "take n (low_words e ws) = low_words e (take n ws)" if "(e - 1) div 64 < n"
  using that by (simp add: low_words_def take_update_swap)

lemma low_words_fit:
  assumes "n \<le> length (bn_d q)" "length (bn_d q) \<le> BN_MAX_WORDS" "n = 1 + (e - 1) div 64" "0 < e" "length u = n"
    "bn_d r = low_words e (put_words (bn_d q) u)" "bn_width r = n"
  shows "bn_fit r" "bn_abs r = words_val u mod 2 ^ e"
proof -
  have "take n (bn_d r) = low_words e u" using assms by (simp add: take_low_words)
  then show "bn_abs r = words_val u mod 2 ^ e" using low_words_val(1) [of e u] assms by (simp add: bn_abs_def bn_used_def)
  have "length (bn_d r) = length (bn_d q)" using assms by (simp add: low_words_def)
  with assms show "bn_fit r" by (simp add: bn_fit_def)
qed

lemma low_words_record:
  assumes "n \<le> length d" "length d \<le> BN_MAX_WORDS" "n = 1 + (e - 1) div 64" "0 < e" "length u = n"
  shows "bn_fit (b\<lparr>bn_d := low_words e (put_words d u), bn_neg := s, bn_width := n\<rparr>)"
    "bn_abs (b\<lparr>bn_d := low_words e (put_words d u), bn_neg := s, bn_width := n\<rparr>) = words_val u mod 2 ^ e"
    "bn_neg (b\<lparr>bn_d := low_words e (put_words d u), bn_neg := s, bn_width := n\<rparr>) = s"
  using low_words_fit [of n "b\<lparr>bn_d := d\<rparr>" e u] assms by simp_all

lemma BN_mod_pow2_low_words:
  "BN_mod_pow2 alloc r a e =
     (if e = 0 \<or> bn_width a = 0 then (True, BN_zero r)
      else
        let num_words = 1 + (e - 1) div 64 in
        if bn_width a < num_words then BN_copy alloc r a
        else
          let (ok, r) = bn_wexpand alloc r num_words in
          if \<not> ok then (False, r)
          else (True, bn_set_minimal_width (r\<lparr>bn_d := low_words e (put_words (bn_d r) (take num_words (bn_d a))),
                 bn_neg := bn_neg a, bn_width := num_words\<rparr>)))"
  by (simp add: BN_mod_pow2_def low_words_def Let_def case_prod_beta)

lemma BN_copy_succeeds: "fst (BN_copy alloc r a) = fst (bn_wexpand alloc r (bn_width a))"
  by (auto simp: BN_copy_def split: prod.splits bool.splits)

lemma mod_pow_low: "e \<le> m \<Longrightarrow> (A + 2 ^ m * B) mod 2 ^ e = A mod (2 :: nat) ^ e"
proof -
  assume "e \<le> m"
  then have "(2 :: nat) ^ m = 2 ^ e * 2 ^ (m - e)" by (simp flip: power_add)
  then show ?thesis by (simp add: mult.assoc)
qed

lemma bn_val_mod:
  "bn_abs r = bn_abs a mod k \<Longrightarrow> bn_neg r = bn_neg a \<or> bn_abs r = 0 \<Longrightarrow>
    bn_val r = sgn (bn_val a) * (\<bar>bn_val a\<bar> mod int k)"
  by (auto simp: bn_val_def zmod_int)

lemma BN_mod_pow2_ok:
  assumes "BN_mod_pow2 alloc r a e = (ok, r')" "bn_fit r" "bn_ok a"
  shows "ok \<longrightarrow> bn_ok r' \<and> bn_val r' = sgn (bn_val a) * (\<bar>bn_val a\<bar> mod 2 ^ e)"
    "can_grow alloc r (1 + (e - 1) div 64) \<Longrightarrow> ok"
proof -
  let ?n = "1 + (e - 1) div 64"
  have fa: "bn_fit a" using assms(3) by (simp add: bn_ok_def)
  show "ok" if "can_grow alloc r (1 + (e - 1) div 64)"
    using assms(1) can_grow_wexpand [OF that, of ?n] can_grow_wexpand [OF that, of "bn_width a"] BN_copy_succeeds [of alloc r a]
    by (auto simp: BN_mod_pow2_low_words Let_def split: if_splits prod.splits)
  show "ok \<longrightarrow> bn_ok r' \<and> bn_val r' = sgn (bn_val a) * (\<bar>bn_val a\<bar> mod 2 ^ e)"
  proof
    assume ok
    show "bn_ok r' \<and> bn_val r' = sgn (bn_val a) * (\<bar>bn_val a\<bar> mod 2 ^ e)"
    proof (cases "e = 0 \<or> bn_width a = 0")
      case True
      then have "r' = BN_zero r" using assms(1) by (simp add: BN_mod_pow2_def)
      moreover from True have "bn_abs a mod 2 ^ e = 0" by (auto simp: bn_abs_def bn_used_def)
      ultimately show ?thesis using bn_val_mod [of r' a "2 ^ e"] assms(2) by simp
    next
      case e: False
      show ?thesis
      proof (cases "bn_width a < ?n")
        case True
        then have "BN_copy alloc r a = (True, r')" using assms(1) e \<open>ok\<close> by (simp add: BN_mod_pow2_def Let_def)
        note c = BN_copy_ok [OF this assms(2) fa]
        have "64 * bn_width a \<le> e" using True e by (simp add: less_Suc_eq_le)
        then have "(2 :: nat) ^ (64 * bn_width a) \<le> 2 ^ e" by (intro power_increasing) simp_all
        then have "bn_abs a < 2 ^ e" using bn_abs_less [OF fa] by (meson less_le_trans)
        with c assms(3) bn_val_mod [of r' a "2 ^ e"] show ?thesis by (simp add: bn_ok_def)
      next
        case False
        obtain k q where w: "bn_wexpand alloc r ?n = (k, q)" by fastforce
        note x = bn_wexpand_ok [OF w assms(2)]
        let ?r = "q\<lparr>bn_d := low_words e (put_words (bn_d q) (take ?n (bn_d a))), bn_neg := bn_neg a, bn_width := ?n\<rparr>"
        from assms(1) e False w \<open>ok\<close> have "k" and r': "r' = bn_set_minimal_width ?r"
          by (auto simp: BN_mod_pow2_low_words Let_def split: if_splits)
        have n: "?n \<le> length (bn_d q)" "length (bn_d q) \<le> BN_MAX_WORDS" using x(1,5) \<open>k\<close> by (simp_all add: bn_fit_def)
        have l: "length (take ?n (bn_d a)) = ?n" using False fa by (simp add: bn_fit_def)
        from low_words_fit [OF n refl _ l, of ?r] e have f: "bn_fit ?r" "bn_abs ?r = words_val (take ?n (bn_d a)) mod 2 ^ e"
          by simp_all
        have "words_val (take ?n (bn_d a)) mod 2 ^ e = bn_abs a mod 2 ^ e"
        proof -
          have "take ?n (bn_d a) = take ?n (bn_used a)" using False by (simp add: bn_used_def)
          moreover have "bn_abs a = words_val (take ?n (bn_used a)) + 2 ^ (64 * ?n) * words_val (drop ?n (bn_used a))"
            unfolding bn_abs_def using words_val_split [of ?n "bn_used a"] False fa by simp
          moreover have "e \<le> 64 * ?n" using top_word(3) [of e] e by simp
          ultimately show ?thesis by (simp only: mod_pow_low)
        qed
        with f(2) have "bn_abs ?r = bn_abs a mod 2 ^ e" by simp
        then have "bn_val ?r = sgn (bn_val a) * (\<bar>bn_val a\<bar> mod 2 ^ e)" using bn_val_mod [of ?r a "2 ^ e"] by simp
        with bn_set_minimal_width_ok(1,2) [OF f(1)] show ?thesis unfolding r' by simp
      qed
    qed
  qed
qed


text \<open>Inverting the words.\<close>

lemma words_val_map_NOT: "words_val (map NOT w) + words_val w + 1 = 2 ^ (64 * length w)"
proof (induction w)
  case (Cons x w)
  have "unat (NOT x) + unat x + 1 = 2 ^ 64"
  proof -
    have "NOT x = - 1 - x" by (simp add: not_eq_complement)
    moreover have "unat (- 1 - x) + unat x = unat (- 1 :: u64) + 2 ^ 64 * (if - 1 < x then 1 else 0)" by (rule unat_minus_wrap)
    moreover have "\<not> - 1 < x" by (simp add: not_less word_order.extremum)
    ultimately show ?thesis by (simp add: unsigned_minus_1_eq_mask mask_eq_exp_minus_1)
  qed
  then have u: "unat (NOT x) + unat x + 1 = 2 ^ 64" .
  have "words_val (map NOT (x # w)) + words_val (x # w) + 1 =
      unat (NOT x) + unat x + 1 + 2 ^ 64 * (words_val (map NOT w) + words_val w)" by simp
  also have "\<dots> = 2 ^ 64 * (words_val (map NOT w) + words_val w + 1)" unfolding u by simp
  also have "\<dots> = 2 ^ (64 * length (x # w))" unfolding Cons by (simp add: power_add)
  finally show ?case .
qed simp

lemma words_val_take_all: "n \<le> length w \<Longrightarrow> words_val w < 2 ^ (64 * n) \<Longrightarrow> words_val (take n w) = words_val w"
  using words_val_split [of n w] by (cases "words_val (drop n w)") simp_all

lemma complement_mod:
  assumes "N + x + 1 = 2 ^ m" "x < 2 ^ e" "e \<le> m"
  shows "N mod 2 ^ e + x + 1 = (2 :: nat) ^ e"
proof -
  have m: "(2 :: nat) ^ m = 2 ^ e * 2 ^ (m - e)" using assms(3) by (simp flip: power_add)
  obtain k where k: "(2 :: nat) ^ (m - e) = Suc k" by (metis Suc_pred zero_less_numeral zero_less_power)
  have "N = (2 ^ e - (x + 1)) + 2 ^ e * k" using assms(1,2) unfolding m k by simp
  moreover have "2 ^ e - (x + 1) < (2 :: nat) ^ e" by simp
  ultimately have "N mod 2 ^ e = 2 ^ e - (x + 1)" by simp
  with assms(2) show ?thesis by simp
qed

lemma BN_nnmod_pow2_low_words:
  "BN_nnmod_pow2 alloc r a e =
     (let (ok, r) = BN_mod_pow2 alloc r a e in
      if \<not> ok then (False, r)
      else if BN_is_zero r \<or> \<not> bn_neg r then (True, r)
      else
        let num_words = 1 + (e - 1) div 64; (ok, r) = bn_wexpand alloc r num_words in
        if \<not> ok then (False, r)
        else
          let d = put_words (bn_d r) (bn_used r @ replicate (num_words - bn_width r) 0);
              r = bn_set_minimal_width (r\<lparr>bn_d := low_words e (put_words d (map NOT (take num_words d))),
                bn_neg := False, bn_width := num_words\<rparr>)
          in BN_add alloc r r BN_value_one)"
  by (simp only: BN_nnmod_pow2_def low_words_def Let_def diff_add_inverse)

lemma BN_value_one_ok: "bn_ok BN_value_one \<and> bn_val BN_value_one = 1"
  by (simp add: BN_value_one_def bn_ok_def bn_fit_def BN_MAX_WORDS_def bn_val_def bn_abs_def bn_used_def)

lemma bn_set_minimal_width_le: "bn_width (bn_set_minimal_width b) \<le> bn_width b"
proof -
  have "minimal_width_loop d n \<le> n" for d n by (induction n) simp_all
  then show ?thesis by (simp add: bn_set_minimal_width_def bn_minimal_width_def Let_def)
qed

text \<open>From the remainder with the sign of the dividend to the one in \<open>[0, m)\<close>.\<close>

lemma truncated_mod:
  fixes a m q :: int
  assumes "0 < m" "q = sgn a * (\<bar>a\<bar> mod m)"
  shows "0 \<le> q \<Longrightarrow> q = a mod m" "q < 0 \<Longrightarrow> a mod m = m + q" "- q < m"
proof -
  have p: "q = a mod m" if "0 \<le> a" using assms(2) that by (cases "a = 0") simp_all
  have n: "q = - (- a mod m)" if "a < 0" using assms(2) that by simp
  have z: "- a mod m = (if a mod m = 0 then 0 else m - a mod m)" by (rule zmod_zminus1_eq_if)
  have b: "0 \<le> a mod m" "a mod m < m" using assms(1) by simp_all
  show "0 \<le> q \<Longrightarrow> q = a mod m" using p n z b by (cases "a < 0"; cases "a mod m = 0") simp_all
  show "q < 0 \<Longrightarrow> a mod m = m + q" using p n z b by (cases "a < 0"; cases "a mod m = 0") simp_all
  show "- q < m"
  proof (cases "a < 0")
    case True
    then show ?thesis using n pos_mod_bound [OF assms(1), of "- a"] by linarith
  next
    case False
    then show ?thesis using p b assms(1) by linarith
  qed
qed

lemma complement_record:
  fixes b e
  defines "n \<equiv> 1 + (e - 1) div 64"
  defines "d \<equiv> put_words (bn_d b) (bn_used b @ replicate (n - bn_width b) 0)"
  defines "c \<equiv> b\<lparr>bn_d := low_words e (put_words d (map NOT (take n d))), bn_neg := False, bn_width := n\<rparr>"
  assumes "bn_fit b" "n \<le> length (bn_d b)" "bn_abs b < 2 ^ e" "0 < e"
  shows "bn_fit c" "bn_val c + 1 = 2 ^ e - int (bn_abs b)" "bn_width c = n" "bn_static c = bn_static b"
proof -
  have len: "length (bn_d b) \<le> BN_MAX_WORDS" "bn_width b \<le> length (bn_d b)" using assms(4) by (simp_all add: bn_fit_def)
  have ld: "length d = length (bn_d b)" unfolding d_def using assms(4,5) len by simp
  let ?u = "map NOT (take n d)"
  have vd: "words_val (take n d) = bn_abs b"
  proof -
    let ?v = "bn_used b @ replicate (n - bn_width b) 0"
    have l: "n \<le> length ?v" using assms(4) by simp
    then have "take n d = take n ?v" by (simp add: put_words_def d_def)
    moreover have v: "words_val ?v = bn_abs b" by (simp add: words_val_append bn_abs_def)
    moreover have "bn_abs b < 2 ^ (64 * n)"
    proof -
      have "(2 :: nat) ^ e \<le> 2 ^ (64 * n)" unfolding n_def using top_word(3) [OF assms(7)] by (intro power_increasing) simp_all
      with assms(6) show ?thesis by (rule less_le_trans)
    qed
    ultimately show ?thesis using words_val_take_all [OF l] by simp
  qed
  have t: "length (take n d) = n" using ld assms(5) by simp
  then have u: "length ?u = n" by (simp only: length_map)
  have un: "words_val ?u + bn_abs b + 1 = 2 ^ (64 * n)" using words_val_map_NOT [of "take n d"] unfolding t vd .
  have nd: "n \<le> length d" "length d \<le> BN_MAX_WORDS" using len ld assms(5) by simp_all
  have c: "bn_fit c" "bn_abs c = words_val ?u mod 2 ^ e" "bn_neg c = False"
    unfolding c_def by (rule low_words_record [OF nd n_def [THEN meta_eq_to_obj_eq] assms(7) u])+
  show "bn_fit c" by (rule c(1))
  have "bn_abs c + bn_abs b + 1 = 2 ^ e"
    unfolding c(2) by (rule complement_mod [OF un assms(6)]) (simp only: n_def top_word(3) [OF assms(7)])
  then have "int (bn_abs c) + int (bn_abs b) + 1 = 2 ^ e" by (metis of_nat_1 of_nat_add of_nat_numeral of_nat_power)
  then show "bn_val c + 1 = 2 ^ e - int (bn_abs b)" using c(3) by (simp add: bn_val_def)
  show "bn_width c = n" "bn_static c = bn_static b" unfolding c_def by simp_all
qed

lemma bn_set_minimal_width_keeps: "bn_static (bn_set_minimal_width b) = bn_static b"
  by (simp add: bn_set_minimal_width_def Let_def)

lemma BN_mod_pow2_static: "BN_mod_pow2 alloc r a e = (ok, r') \<Longrightarrow> bn_static r' = bn_static r"
  by (auto simp: BN_mod_pow2_low_words BN_copy_def Let_def BN_zero_def bn_set_minimal_width_keeps
      dest: bn_wexpand_static split: if_splits prod.splits bool.splits)

lemma BN_nnmod_pow2_ok:
  assumes "BN_nnmod_pow2 alloc r a e = (fin, r')" "bn_fit r" "bn_ok a"
  shows "(fin \<longrightarrow> bn_ok r' \<and> bn_val r' = bn_val a mod 2 ^ e) \<and> (can_grow alloc r (1 + (e - 1) div 64 + 1) \<longrightarrow> fin)"
proof -
  let ?n = "1 + (e - 1) div 64"
  obtain ok q where m: "BN_mod_pow2 alloc r a e = (ok, q)" by fastforce
  note M = BN_mod_pow2_ok [OF m assms(2,3)]
  show ?thesis
  proof (cases ok)
    case False
    then have "\<not> fin" using assms(1) m by (simp add: BN_nnmod_pow2_def)
    moreover have ok if "can_grow alloc r (?n + 1)" using M(2) that by (simp add: can_grow_def)
    ultimately show ?thesis using False by blast
  next
    case ok: True
    with M(1) have q: "bn_ok q" "bn_val q = sgn (bn_val a) * (\<bar>bn_val a\<bar> mod 2 ^ e)" by simp_all
    then have fq: "bn_fit q" by (simp add: bn_ok_def)
    note T = truncated_mod [OF _ q(2), simplified]
    show ?thesis
    proof (cases "BN_is_zero q \<or> \<not> bn_neg q")
      case True
      then have "fin \<and> r' = q" using assms(1) m ok by (simp add: BN_nnmod_pow2_def)
      moreover have "0 \<le> bn_val q" using True fq by (auto simp: BN_is_zero_eq bn_val_def)
      ultimately show ?thesis using q(1) T(1) by simp
    next
      case False
      then have neg: "bn_val q = - int (bn_abs q)" "bn_val q < 0" using fq by (simp_all add: BN_is_zero_eq bn_val_def)
      with T(3) have xe: "bn_abs q < 2 ^ e" by (simp flip: of_nat_less_iff)
      have e0: "0 < e" using xe neg by (cases e) simp_all
      obtain k b where w: "bn_wexpand alloc q ?n = (k, b)" by fastforce
      note y = bn_wexpand_ok [OF w fq]
      let ?d = "put_words (bn_d b) (bn_used b @ replicate (?n - bn_width b) 0)"
      define c where "c = b\<lparr>bn_d := low_words e (put_words ?d (map NOT (take ?n ?d))), bn_neg := False, bn_width := ?n\<rparr>"
      show ?thesis
      proof (cases k)
        case True
        from assms(1) m ok False w True
        have add: "BN_add alloc (bn_set_minimal_width c) (bn_set_minimal_width c) BN_value_one = (fin, r')"
          by (simp add: BN_nnmod_pow2_low_words Let_def c_def)
        have "bn_abs b < 2 ^ e" using xe y(8) by simp
        from complement_record [OF y(1) y(5) [OF True] this e0, folded c_def] y(8)
        have c: "bn_fit c" "bn_val c + 1 = 2 ^ e - int (bn_abs q)" "bn_width c = ?n" "bn_static c = bn_static b" by simp_all
        note sc = bn_set_minimal_width_ok(1,2) [OF c(1)]
        then have "bn_fit (bn_set_minimal_width c)" by (simp add: bn_ok_def)
        note s = BN_add_ok [OF add this sc(1)]
        have "2 ^ e - int (bn_abs q) = bn_val a mod 2 ^ e" using T(2) neg by simp
        with s(1) BN_value_one_ok sc(2) c(2) have "fin \<longrightarrow> bn_ok r' \<and> bn_val r' = bn_val a mod 2 ^ e" by simp
        moreover have fin if "can_grow alloc r (?n + 1)"
        proof -
          have "bn_static (bn_set_minimal_width c) = bn_static r"
            using c(4) bn_wexpand_static [OF w] BN_mod_pow2_static [OF m] by (simp add: bn_set_minimal_width_keeps)
          moreover have "max (bn_width (bn_set_minimal_width c)) (bn_width BN_value_one) \<le> ?n"
            using bn_set_minimal_width_le [of c] c(3) by (simp add: BN_value_one_def)
          ultimately have "can_grow alloc (bn_set_minimal_width c) (max (bn_width (bn_set_minimal_width c)) (bn_width BN_value_one) + 1)"
            using that unfolding can_grow_def by (meson add_le_mono1 le_trans)
          with s(2) BN_value_one_ok show ?thesis by simp
        qed
        ultimately show ?thesis by blast
      next
        case k: False
        have "\<not> fin" using assms(1) m ok False w k by (simp add: BN_nnmod_pow2_low_words Let_def)
        moreover have False if "can_grow alloc r (?n + 1)"
        proof -
          have "can_grow alloc q (?n + 1)" using that BN_mod_pow2_static [OF m] by (simp add: can_grow_def)
          from can_grow_wexpand [OF this, of ?n] w k show False by simp
        qed
        ultimately show ?thesis by blast
      qed
    qed
  qed
qed

section \<open>The constant-time remainder by 16 bits\<close>

text \<open>Dividing by multiplying with the reciprocal, rounded up.\<close>

lemma reciprocal_div:
  fixes n d M e p :: nat
  assumes "M * d = 2 ^ (32 + p) + e" "e < d" "d \<le> 2 ^ p" "n < 2 ^ 32"
  shows "n * M div 2 ^ (32 + p) = n div d"
proof (rule div_nat_eqI)
  let ?K = "2 ^ (32 + p) :: nat"
  have d: "0 < d" using assms(2) by simp
  have nM: "n * M * d = n * ?K + n * e" using assms(1) by (metis distrib_left mult.assoc)
  have "?K * (n div d) * d \<le> n * ?K" by (simp add: mult.commute mult.left_commute)
  then have "?K * (n div d) * d \<le> n * M * d" using nM by linarith
  then show "?K * (n div d) \<le> n * M" using d by simp
  have "n * e < 2 ^ 32 * 2 ^ p"
    using assms(2-4) by (intro mult_strict_mono) simp_all
  then have "n * M * d < ?K * (n + 1)" using nM by (simp add: power_add mult.commute)
  also have "\<dots> \<le> ?K * (Suc (n div d) * d)"
  proof (rule mult_le_mono2)
    have "n mod d < d" using d by simp
    then show "n + 1 \<le> Suc (n div d) * d" using div_mult_mod_eq [of n d] by (simp only: mult_Suc)
  qed
  finally have "n * M * d < ?K * Suc (n div d) * d" by (simp only: mult.assoc)
  then show "n * M < ?K * Suc (n div d)" by simp
qed

lemma halved_sum: "(q :: nat) \<le> n \<Longrightarrow> (n - q) div 2 + q = (n + q) div 2"
  by presburger

text \<open>What is needed of the constants \<open>p\<close> and \<open>m\<close>; \<open>2 ^ 32 + m\<close> is the reciprocal.\<close>

definition u16_magic :: "u16 \<Rightarrow> u32 \<Rightarrow> u32 \<Rightarrow> bool" where
  "u16_magic d p m \<longleftrightarrow> 0 < p \<and> unat p \<le> 16 \<and> 0 < d \<and> unat d \<le> 2 ^ unat p \<and>
     (\<exists>e < unat d. (2 ^ 32 + unat m) * unat d = 2 ^ (32 + unat p) + e)"

lemma unat_u16_less: "unat (x :: u16) < 2 ^ 16"
  by (rule less_le_trans [OF unsigned_less]) simp

lemma mod_u16_val:
  assumes "u16_magic d p m"
  shows "unat (mod_u16 n d p m) = unat n mod unat d"
proof -
  obtain e where e: "e < unat d" "(2 ^ 32 + unat m) * unat d = 2 ^ (32 + unat p) + e" "unat d \<le> 2 ^ unat p"
    and p: "0 < unat p" "unat p \<le> 16" using assms by (auto simp: u16_magic_def word_less_nat_alt)
  have nl: "unat n < 2 ^ 32" and ml: "unat m < 2 ^ 32" using unsigned_less [of n] unsigned_less [of m] by simp_all
  define q where "q = (ucast (drop_bit 32 (ucast m * ucast n :: u64)) :: u32)"
  have "unat m * unat n < 2 ^ 32 * 2 ^ 32" using nl ml by (intro mult_strict_mono) simp_all
  then have mn: "unat (ucast m * ucast n :: u64) = unat m * unat n" by (simp add: unat_word_ariths)
  have "unat m * unat n \<le> 2 ^ 32 * unat n" using ml by (intro mult_le_mono1) simp
  then have qn: "unat m * unat n div 2 ^ 32 \<le> unat n" using div_le_mono [of _ "2 ^ 32 * unat n" "2 ^ 32"] by fastforce
  then have q: "unat q = unat m * unat n div 2 ^ 32" unfolding q_def using nl by (simp add: unat_ucast_narrow unat_drop_bit mn)
  have qle: "unat q \<le> unat n" using q qn by simp
  let ?t = "drop_bit 1 (n - q) + q"
  have sub: "unat (n - q) = unat n - unat q" using qle by (simp add: unat_sub word_le_nat_alt)
  have t: "unat ?t = (unat n + unat q) div 2"
  proof -
    have "(unat n - unat q) div 2 + unat q < 2 ^ 32" using nl qle by linarith
    then show ?thesis using halved_sum [OF qle] by (simp add: unat_word_ariths unat_drop_bit sub)
  qed
  have pp: "unat (p - 1) = unat p - 1" using p(1) by (simp add: unat_minus_one unat_gt_0)
  let ?s = "drop_bit (unat (p - 1)) ?t"
  have s: "unat ?s = unat n div unat d"
  proof -
    have "unat ?s = (unat n + unat q) div 2 div 2 ^ (unat p - 1)" by (simp only: unat_drop_bit t pp)
    also have "\<dots> = (unat n + unat q) div 2 ^ unat p" using p(1) by (simp add: div_mult2_eq [symmetric] flip: power_Suc)
    also have "unat n + unat q = unat n * (2 ^ 32 + unat m) div 2 ^ 32" unfolding q
      by (simp add: distrib_left mult.commute)
    also have "\<dots> div 2 ^ unat p = unat n * (2 ^ 32 + unat m) div 2 ^ (32 + unat p)" by (simp only: div_mult2_eq power_add)
    also have "\<dots> = unat n div unat d" by (rule reciprocal_div [OF e(2,1,3) nl])
    finally show ?thesis .
  qed
  have ds: "unat d * (unat n div unat d) \<le> unat n" by simp
  have du: "unat (ucast d :: u32) = unat d" by simp
  have prod: "unat (ucast d * ?s) = unat d * (unat n div unat d)"
  proof -
    have "unat (ucast d * ?s) = unat d * (unat n div unat d) mod 2 ^ LENGTH(32)" by (simp only: unat_word_ariths(2) du s)
    moreover have "unat d * (unat n div unat d) < 2 ^ LENGTH(32)" using le_less_trans [OF ds nl] by simp
    ultimately show ?thesis by (simp only: mod_less)
  qed
  have "unat (n - ucast d * ?s) = unat n mod unat d"
  proof -
    have "ucast d * ?s \<le> n" using ds by (simp only: word_le_nat_alt prod)
    then have "unat (n - ucast d * ?s) = unat n - unat (ucast d * ?s)" by (rule unat_sub)
    then show ?thesis by (simp only: prod minus_mult_div_eq_mod)
  qed
  moreover have "unat n mod unat d < 2 ^ 16"
  proof -
    have "unat n mod unat d < unat d" using e(1) by (intro mod_less_divisor) simp
    then show ?thesis using unat_u16_less [of d] by (rule less_trans)
  qed
  moreover have "mod_u16 n d p m = ucast (n - ucast d * ?s)" by (simp add: mod_u16_def Let_def q_def)
  ultimately show ?thesis by (simp add: unat_ucast_narrow)
qed

lemma u16_chunk:
  assumes "unat (h :: u32) < 2 ^ 16" "unat (l :: u32) < 2 ^ 16"
  shows "unat (push_bit 16 h OR l) = 2 ^ 16 * unat h + unat l"
  using assms by (simp add: unat_push_bit_or)

lemma shift_and_add_mod_u16_val:
  assumes "u16_magic d p m"
  shows "unat (shift_and_add_mod_u16 r a d p m) = (2 ^ 32 * unat r + unat a) mod unat d"
proof -
  note v = mod_u16_val [OF assms]
  have hi: "unat (drop_bit 16 a) = unat a div 2 ^ 16" by (simp add: unat_drop_bit)
  have "unat a < 2 ^ 32" using unsigned_less [of a] by simp
  then have hl: "unat (drop_bit 16 a) < 2 ^ 16" unfolding hi by simp
  have lo: "unat (a AND 0xffff) = unat a mod 2 ^ 16"
    using word_and_mask_unat [of a 16] by (simp add: mask_eq_exp_minus_1)
  let ?t = "mod_u16 (push_bit 16 (ucast r) OR drop_bit 16 a) d p m"
  have t: "unat ?t = (2 ^ 16 * unat r + unat a div 2 ^ 16) mod unat d"
    unfolding v using u16_chunk [of "ucast r" "drop_bit 16 a"] unat_u16_less [of r] hl hi by simp
  have "unat (shift_and_add_mod_u16 r a d p m) = (2 ^ 16 * unat ?t + unat a mod 2 ^ 16) mod unat d"
    using u16_chunk [of "ucast ?t" "a AND 0xffff"] unat_u16_less [of ?t] lo
    by (simp add: shift_and_add_mod_u16_def Let_def v)
  also have "\<dots> = (2 ^ 16 * (2 ^ 16 * unat r + unat a div 2 ^ 16) + unat a mod 2 ^ 16) mod unat d"
    unfolding t by (rule mod_step)
  also have "2 ^ 16 * (2 ^ 16 * unat r + unat a div 2 ^ 16) + unat a mod 2 ^ 16 = 2 ^ 32 * unat r + unat a"
    using mult_div_mod_eq [of "2 ^ 16" "unat a"] by simp
  finally show ?thesis .
qed

lemma mod_u16_loop_val:
  assumes "u16_magic d p m"
  shows "unat (mod_u16_loop a d p m) = words_val a mod unat d"
proof (induction a)
  case (Cons l a)
  note v = shift_and_add_mod_u16_val [OF assms]
  have hi: "unat (ucast (drop_bit 32 l) :: u32) = unat l div 2 ^ 32"
  proof -
    have "unat l div 2 ^ 32 < 2 ^ 32" using unat_u64_less [of l] by simp
    then show ?thesis by (simp add: unat_ucast_narrow unat_drop_bit)
  qed
  have lo: "unat (ucast (l AND 0xffffffff) :: u32) = unat l mod 2 ^ 32"
    using word_and_mask_unat [of l 32] by (simp add: mask_eq_exp_minus_1 unat_ucast_narrow)
  have "mod_u16_loop (l # a) d p m = shift_and_add_mod_u16 (shift_and_add_mod_u16 (mod_u16_loop a d p m)
      (ucast (drop_bit 32 l)) d p m) (ucast (l AND 0xffffffff)) d p m" by (simp only: mod_u16_loop.simps Let_def)
  then have "unat (mod_u16_loop (l # a) d p m) =
      (2 ^ 32 * ((2 ^ 32 * (words_val a mod unat d) + unat l div 2 ^ 32) mod unat d) + unat l mod 2 ^ 32) mod unat d"
    by (simp only: v hi lo Cons)
  also have "\<dots> = (2 ^ 32 * (2 ^ 32 * words_val a + unat l div 2 ^ 32) + unat l mod 2 ^ 32) mod unat d"
    by (simp only: mod_step)
  also have "2 ^ 32 * (2 ^ 32 * words_val a + unat l div 2 ^ 32) + unat l mod 2 ^ 32 = words_val (l # a)"
    using mult_div_mod_eq [of "2 ^ 32" "unat l"] unfolding words_val.simps by simp
  finally show ?case .
qed simp

lemma round_up_reciprocal:
  fixes D P :: nat
  assumes "1 < D" "D \<le> 2 ^ P" "2 ^ (P - 1) \<le> D - 1" "0 < P"
  defines "M \<equiv> (2 ^ (32 + P) + D - 1) div D"
  shows "\<exists>e < D. M * D = 2 ^ (32 + P) + e" "2 ^ 32 \<le> M" "D \<le> 2 ^ 33 \<Longrightarrow> M < 2 ^ 33"
proof -
  let ?N = "2 ^ (32 + P) + D - 1"
  have r: "?N mod D < D" using assms(1) by simp
  have N: "M * D + ?N mod D = ?N" unfolding M_def by (rule div_mult_mod_eq)
  with r show "\<exists>e < D. M * D = 2 ^ (32 + P) + e"
    by (intro exI [of _ "D - 1 - ?N mod D"]) linarith
  have "2 ^ 32 * D \<le> ?N" using assms(1,2) by (simp add: power_add)
  then show "2 ^ 32 \<le> M" unfolding M_def using assms(1) by (simp add: less_eq_div_iff_mult_less_eq)
  assume D: "D \<le> 2 ^ 33"
  have "(2 :: nat) ^ (32 + P) = 2 ^ 33 * 2 ^ (P - 1)" 
  proof -
    have "32 + P = 33 + (P - 1)" using assms(4) by simp
    then show ?thesis by (simp only: power_add)
  qed
  also have "\<dots> \<le> 2 ^ 33 * (D - 1)" by (rule mult_le_mono2 [OF assms(3)])
  finally have "?N < D * 2 ^ 33" using D assms(1) by (simp add: diff_mult_distrib2)
  then show "M < 2 ^ 33" unfolding M_def using assms(1) by (simp add: div_less_iff_less_mult mult.commute)
qed

lemma u16_magic_constants:
  assumes "1 < d"
  defines "p \<equiv> of_nat (BN_num_bits_word (ucast (d - 1))) :: u32"
  shows "u16_magic d p (ucast ((push_bit (32 + unat p) 1 + ucast d - 1) div ucast d :: u64))"
proof -
  let ?D = "unat d" and ?P = "BN_num_bits_word (ucast (d - 1))"
  have D: "1 < ?D" "?D < 2 ^ 16" using assms(1) unat_u16_less [of d] by (simp_all add: word_less_nat_alt)
  then have d1: "unat (ucast (d - 1) :: u64) = ?D - 1" using unat_minus_one [of d] by (cases "d = 0") simp_all
  have "ucast (d - 1) \<noteq> (0 :: u64)"
  proof
    assume "ucast (d - 1) = (0 :: u64)"
    then have "?D - 1 = 0" using d1 by (simp only: unat_0)
    with D(1) show False by simp
  qed
  note b = BN_num_bits_word_bounds(1) [of "ucast (d - 1)", unfolded d1] BN_num_bits_word_bounds(2) [OF this, unfolded d1]
    and P = BN_num_bits_word_bounds(3) [of "ucast (d - 1)"]
  have P0: "0 < ?P" using P \<open>ucast (d - 1) \<noteq> 0\<close> by blast
  have "(2 :: nat) ^ (?P - 1) < 2 ^ 16" using b(2) D(2) by linarith
  then have P16: "?P \<le> 16" using power_less_imp_less_exp [of "2 :: nat" "?P - 1" 16] by simp
  then have p: "unat p = ?P" unfolding p_def by (simp add: unat_of_nat)
  let ?M = "(2 ^ (32 + ?P) + ?D - 1) div ?D"
  have DP: "?D \<le> 2 ^ ?P" using b(1) D(1) by linarith
  note m = round_up_reciprocal [OF D(1) DP b(2) P0]
  have "?M < 2 ^ 33" using m(3) D(2) by simp
  have "(2 :: nat) ^ (32 + ?P) \<le> 2 ^ 48" using P16 by (intro power_increasing) simp_all
  then have small: "2 ^ (32 + ?P) + ?D < 2 ^ 64" using D(2) by simp
  let ?k = "32 + unat p"
  have "unat (push_bit ?k 1 :: u64) = take_bit 64 (2 ^ ?k)" by (subst unsigned_push_bit_eq) (simp add: push_bit_eq_mult)
  also have "\<dots> = 2 ^ (32 + ?P)" using small by (simp only: p take_bit_eq_mod mod_less)
  finally have k: "unat (push_bit ?k 1 :: u64) = 2 ^ (32 + ?P)" .
  have kd: "unat (push_bit ?k 1 + ucast d :: u64) = 2 ^ (32 + ?P) + ?D"
  proof -
    have "unat (push_bit ?k 1 + ucast d :: u64) = (2 ^ (32 + ?P) + ?D) mod 2 ^ LENGTH(64)"
      by (simp only: unat_word_ariths(1) k unat_ucast_wide)
    moreover have "2 ^ (32 + ?P) + ?D < 2 ^ LENGTH(64)" using small by simp
    ultimately show ?thesis by (simp only: mod_less)
  qed
  have "push_bit ?k 1 + ucast d \<noteq> (0 :: u64)"
  proof
    assume "push_bit ?k 1 + ucast d = (0 :: u64)"
    then have "2 ^ (32 + ?P) + ?D = 0" using kd by (simp only: unat_0)
    then show False by simp
  qed
  from unat_minus_one [OF this]
  have "unat (push_bit ?k 1 + ucast d - 1 :: u64) = 2 ^ (32 + ?P) + ?D - 1" by (simp only: kd)
  then have "unat (ucast ((push_bit (32 + unat p) 1 + ucast d - 1) div ucast d :: u64) :: u32) = ?M mod 2 ^ 32"
    by (simp add: unat_ucast_narrow unat_div)
  also have "\<dots> = ?M - 2 ^ 32" using m(2) \<open>?M < 2 ^ 33\<close> by (simp add: mod_if)
  finally have "2 ^ 32 + unat (ucast ((push_bit (32 + unat p) 1 + ucast d - 1) div ucast d :: u64) :: u32) = ?M"
    using m(2) by simp
  with m(1) D(1) DP P0 P16 show ?thesis unfolding u16_magic_def p by (simp add: word_less_nat_alt p)
qed

lemma bn_mod_u16_consttime_eq:
  "unat (bn_mod_u16_consttime bn d) = (if d \<le> 1 then 0 else bn_abs bn mod unat d)"
  using u16_magic_constants [of d] mod_u16_loop_val
  by (simp add: bn_mod_u16_consttime_def bn_abs_def Let_def not_le)

section \<open>Properties\<close>

text \<open>C35: Division by a word that is not zero leaves the quotient, rounded to zero, with the sign of the
  dividend, and returns the remainder of the absolute value; the value that reports a failure is never a
  remainder, and it is not returned when the dividend can be given one more word.  The two other
  remainders, the one that divides two words by one and the one in constant time that multiplies with a
  reciprocal, are that same remainder.\<close>

theorem BN_div_word_correct:
  assumes "bn_ok a" "w \<noteq> 0"
  shows "(fst (BN_div_word alloc a w) \<noteq> - 1 \<longrightarrow>
      bn_ok (snd (BN_div_word alloc a w)) \<and>
      bn_val (snd (BN_div_word alloc a w)) = sgn (bn_val a) * (\<bar>bn_val a\<bar> div int (unat w)) \<and>
      unat (fst (BN_div_word alloc a w)) = bn_abs a mod unat w) \<and>
    (can_grow alloc a (bn_width a + 1) \<longrightarrow> fst (BN_div_word alloc a w) \<noteq> - 1) \<and>
    unat (BN_mod_word a w) = bn_abs a mod unat w \<and>
    unat (bn_mod_u16_consttime a d) = (if d \<le> 1 then 0 else bn_abs a mod unat d)"
  using BN_div_word_ok [OF prod.collapse [symmetric] assms, of alloc] BN_mod_word_eq [OF assms(2), of a]
    bn_mod_u16_consttime_eq [of a d]
  unfolding divided_def by blast

theorem BN_div_word_correct_witness:
  "unat (fst (BN_div_word (\<lambda>_. Some (\<lambda>_. 0)) \<lparr>bn_d = [7, 5], bn_width = 2, bn_neg = True, bn_static = False\<rparr> 10)) = 7 \<and>
   bn_val (snd (BN_div_word (\<lambda>_. Some (\<lambda>_. 0)) \<lparr>bn_d = [7, 5], bn_width = 2, bn_neg = True, bn_static = False\<rparr> 10)) = - (2 ^ 63) \<and>
   unat (bn_mod_u16_consttime \<lparr>bn_d = [7, 5], bn_width = 2, bn_neg = True, bn_static = False\<rparr> 1000) = 87"
proof -
  let ?a = "\<lparr>bn_d = [7, 5], bn_width = 2, bn_neg = True, bn_static = False\<rparr>"
  have a: "bn_ok ?a" "bn_val ?a = - (5 * 2 ^ 64 + 7)" "bn_abs ?a = 5 * 2 ^ 64 + 7" "(10 :: u64) \<noteq> 0"
    "can_grow (\<lambda>_. Some (\<lambda>_. 0)) ?a (bn_width ?a + 1)"
    by (simp_all add: bn_ok_def bn_fit_def BN_MAX_WORDS_def bn_val_def bn_abs_def bn_used_def can_grow_def)
  show ?thesis using BN_div_word_correct [OF a(1,4), of "\<lambda>_. Some (\<lambda>_. 0)" 1000] a(2,3,5)
    by (simp add: word_le_nat_alt del: bignum.ext_inject)
qed

text \<open>C36: Reduction by a power of two: one keeps the sign of the dividend, as a division that rounds to zero, the
  other, which negates in two's complement, gives the result in \<open>[0, 2 ^ e)\<close>; both results are well
  formed whatever the leading words are, and both succeed when the result can be given its words.\<close>

theorem BN_mod_pow2_correct:
  assumes "bn_fit r" "bn_ok a"
  shows "(fst (BN_mod_pow2 alloc r a e) \<longrightarrow>
      bn_ok (snd (BN_mod_pow2 alloc r a e)) \<and>
      bn_val (snd (BN_mod_pow2 alloc r a e)) = sgn (bn_val a) * (\<bar>bn_val a\<bar> mod 2 ^ e)) \<and>
    (fst (BN_nnmod_pow2 alloc r a e) \<longrightarrow>
      bn_ok (snd (BN_nnmod_pow2 alloc r a e)) \<and> bn_val (snd (BN_nnmod_pow2 alloc r a e)) = bn_val a mod 2 ^ e) \<and>
    (can_grow alloc r (1 + (e - 1) div 64 + 1) \<longrightarrow> fst (BN_mod_pow2 alloc r a e) \<and> fst (BN_nnmod_pow2 alloc r a e))"
proof -
  have "can_grow alloc r (1 + (e - 1) div 64 + 1) \<Longrightarrow> can_grow alloc r (1 + (e - 1) div 64)"
    by (simp add: can_grow_def)
  then show ?thesis
    using BN_mod_pow2_ok [OF prod.collapse [symmetric] assms, of alloc e] BN_nnmod_pow2_ok [OF prod.collapse [symmetric] assms, of alloc e]
    by blast
qed

theorem BN_mod_pow2_correct_witness:
  "bn_val (snd (BN_mod_pow2 (\<lambda>_. Some (\<lambda>_. 0)) BN_init \<lparr>bn_d = [7, 5], bn_width = 2, bn_neg = True, bn_static = False\<rparr> 66)) = - (2 ^ 64 + 7) \<and>
   bn_val (snd (BN_nnmod_pow2 (\<lambda>_. Some (\<lambda>_. 0)) BN_init \<lparr>bn_d = [7, 5], bn_width = 2, bn_neg = True, bn_static = False\<rparr> 66)) =
     3 * 2 ^ 64 - 7"
proof -
  let ?a = "\<lparr>bn_d = [7, 5], bn_width = 2, bn_neg = True, bn_static = False\<rparr>"
  have a: "bn_fit BN_init" "bn_ok ?a" "bn_val ?a = - (5 * 2 ^ 64 + 7)"
    "can_grow (\<lambda>_. Some (\<lambda>_. 0)) BN_init (1 + (66 - 1) div 64 + 1)"
    by (simp_all add: bn_ok_def bn_fit_def BN_MAX_WORDS_def bn_val_def bn_abs_def bn_used_def can_grow_def BN_init_def)
  show ?thesis using BN_mod_pow2_correct [OF a(1,2), of "\<lambda>_. Some (\<lambda>_. 0)" 66] a(3,4) by simp
qed

end
