(* ===== verification/Bn_Bytes.thy ===== *)
theory Bn_Bytes
  imports Bn Cbb_Spec
begin

text \<open>
  Numbers as byte strings (\<open>crypto/fipsmodule/bn/bytes.c\<close>).  The functions for little-endian strings, and
  those that pad, copy between the string and the memory of the array of words; \<open>mem_bytes\<close> is that memory,
  in the little-endian order of the platforms that the code supports, and \<open>mem_words\<close> reads words from it.
  The lemmas relate every function to \<open>be_bytes\<close>, the digits of a number to the base 256.
\<close>

section \<open>The operations\<close>

definition word_bytes :: "u64 \<Rightarrow> bytes" where
  "word_bytes w = map (\<lambda>i. ucast (drop_bit (8 * i) w)) [0..<8]"

definition mem_bytes :: "words \<Rightarrow> bytes" where
  "mem_bytes d = concat (map word_bytes d)"

function mem_words :: "bytes \<Rightarrow> words" where
  "mem_words bs = (if bs = [] then [] else be_word (rev (take 8 bs)) # mem_words (drop 8 bs))"
  by pat_completeness auto
termination by (relation "measure length") auto

declare mem_words.simps [simp del]

definition BN_new :: "bool \<Rightarrow> bignum option" where
  "BN_new malloc_ok = (if \<not> malloc_ok then None else Some BN_init)"

text \<open>\<open>ret = None\<close> is the null pointer, for which a new number is made.  After a failure the caller's number is
  what it was.\<close>

definition or_new :: "bool \<Rightarrow> bignum option \<Rightarrow> bignum option" where
  "or_new malloc_ok ret = (case ret of None \<Rightarrow> BN_new malloc_ok | Some r \<Rightarrow> Some r)"

fun bin2bn_loop :: "u64 \<Rightarrow> nat \<Rightarrow> nat \<Rightarrow> bytes \<Rightarrow> words \<Rightarrow> words" where
  "bin2bn_loop word m num_words [] d = d"
| "bin2bn_loop word m num_words (b # inp) d =
     (let word = push_bit 8 word OR ucast b in
      if m = 0 then bin2bn_loop 0 7 (num_words - 1) inp (d[num_words - 1 := word])
      else bin2bn_loop word (m - 1) num_words inp d)"

definition BN_bin2bn :: "words_alloc \<Rightarrow> bool \<Rightarrow> bytes \<Rightarrow> bignum option \<Rightarrow> bignum option" where
  "BN_bin2bn alloc malloc_ok inp ret =
     (case or_new malloc_ok ret of
        None \<Rightarrow> None
      | Some ret \<Rightarrow>
          if length inp = 0 then Some (ret\<lparr>bn_width := 0\<rparr>)
          else
            let num_words = (length inp - 1) div 8 + 1; m = (length inp - 1) mod 8;
                (ok, ret) = bn_wexpand alloc ret num_words
            in if \<not> ok then None
               else Some (ret\<lparr>bn_width := num_words, bn_neg := False, bn_d := bin2bn_loop 0 m num_words inp (bn_d ret)\<rparr>))"

definition BN_le2bn :: "words_alloc \<Rightarrow> bool \<Rightarrow> bytes \<Rightarrow> bignum option \<Rightarrow> bignum option" where
  "BN_le2bn alloc malloc_ok inp ret =
     (case or_new malloc_ok ret of
        None \<Rightarrow> None
      | Some ret \<Rightarrow>
          if length inp = 0 then Some (ret\<lparr>bn_width := 0, bn_neg := False\<rparr>)
          else
            let num_words = (length inp - 1) div 8 + 1; (ok, ret) = bn_wexpand alloc ret num_words in
            if \<not> ok then None
            else Some (ret\<lparr>bn_width := num_words,
                   bn_d := mem_words (write_at 0 inp (mem_bytes ((bn_d ret)[num_words - 1 := 0])))\<rparr>))"

definition BN_bn2bin :: "bignum \<Rightarrow> bytes" where
  "BN_bn2bin inp =
     map (\<lambda>i. ucast (drop_bit (8 * (i mod 8)) (bn_d inp ! (i div 8))) AND 0xff) (rev [0..<BN_num_bytes inp])"

definition fits_in_bytes :: "bytes \<Rightarrow> nat \<Rightarrow> nat \<Rightarrow> bool" where
  "fits_in_bytes bytes num_bytes len = (fold (\<lambda>i msk. msk OR bytes ! i) [len..<num_bytes] 0 = 0)"

definition BN_bn2le_padded :: "nat \<Rightarrow> bignum \<Rightarrow> bytes option" where
  "BN_bn2le_padded len inp =
     (let bytes = mem_bytes (bn_d inp); num_bytes = bn_width inp * 8 in
      if len < num_bytes \<and> \<not> fits_in_bytes bytes num_bytes len then None
      else
        let num_bytes = (if len < num_bytes then len else num_bytes)
        in Some (take num_bytes bytes @ replicate (len - num_bytes) 0))"

text \<open>The loop of \<open>BN_bn2bin_padded\<close> fills the string from its end.\<close>

definition BN_bn2bin_padded :: "nat \<Rightarrow> bignum \<Rightarrow> bytes option" where
  "BN_bn2bin_padded len inp =
     (let bytes = mem_bytes (bn_d inp); num_bytes = bn_width inp * 8 in
      if len < num_bytes \<and> \<not> fits_in_bytes bytes num_bytes len then None
      else
        let num_bytes = (if len < num_bytes then len else num_bytes)
        in Some (replicate (len - num_bytes) 0 @ map (\<lambda>j. bytes ! (len - j - 1)) [len - num_bytes..<len]))"


section \<open>Memory\<close>

lemma length_word_bytes [simp]: "length (word_bytes w) = 8"
  by (simp add: word_bytes_def)

lemma le_val_word_bytes: "le_val (word_bytes w) = unat w"
proof -
  have "le_val (word_bytes w) = be_val (rev (word_bytes w))" by (simp add: be_val_rev)
  also have "rev (word_bytes w) = be_bytes 8 (unat w)" unfolding word_bytes_def by (rule rev_octets)
  finally show ?thesis using unat_u64_less [of w] by (simp add: be_val_be_bytes)
qed

lemma le_val_append: "le_val (xs @ ys) = le_val xs + 256 ^ length xs * le_val ys"
  by (induction xs) (simp_all add: algebra_simps)

lemma mem_bytes_simps [simp]: "mem_bytes [] = []" "mem_bytes (w # d) = word_bytes w @ mem_bytes d"
  by (simp_all add: mem_bytes_def)

lemma length_mem_bytes [simp]: "length (mem_bytes d) = 8 * length d"
  by (induction d) simp_all

lemma mem_bytes_append: "mem_bytes (a @ b) = mem_bytes a @ mem_bytes b"
  by (simp add: mem_bytes_def)

lemma le_val_mem_bytes: "le_val (mem_bytes d) = words_val d"
  by (induction d) (simp_all add: le_val_append le_val_word_bytes)

lemma take_mem_bytes: "take (8 * n) (mem_bytes d) = mem_bytes (take n d)"
proof (induction d arbitrary: n)
  case (Cons w d)
  then show ?case by (cases n) simp_all
qed simp

lemma words_val_mem_words: "8 dvd length bs \<Longrightarrow> words_val (mem_words bs) = le_val bs \<and> 8 * length (mem_words bs) = length bs"
proof (induction bs rule: mem_words.induct)
  case (1 bs)
  show ?case
  proof (cases "bs = []")
    case True
    then show ?thesis by (simp add: mem_words.simps)
  next
    case False
    with 1(2) have len: "8 \<le> length bs" by (metis dvd_imp_le length_greater_0_conv)
    then have "words_val (mem_words (drop 8 bs)) = le_val (drop 8 bs)" "8 * length (mem_words (drop 8 bs)) = length bs - 8"
      using 1(1) [OF False] 1(2) by (simp_all add: dvd_diff_nat)
    moreover have "unat (be_word (rev (take 8 bs))) = le_val (take 8 bs)"
      using unat_be_word [of "rev (take 8 bs)"] by (simp add: be_val_rev)
    moreover have "le_val bs = le_val (take 8 bs) + 2 ^ 64 * le_val (drop 8 bs)"
      using le_val_append [of "take 8 bs" "drop 8 bs"] len by simp
    ultimately show ?thesis using False len by (simp add: mem_words.simps [of bs])
  qed
qed

lemma take_mem_words: "take n (mem_words bs) = mem_words (take (8 * n) bs)"
proof (induction n arbitrary: bs)
  case (Suc n)
  show ?case
  proof (cases "bs = []")
    case False
    then show ?thesis using Suc [of "drop 8 bs"]
      by (simp add: mem_words.simps [of bs] mem_words.simps [of "take (8 + 8 * n) bs"] drop_take)
  qed (simp add: mem_words.simps)
qed (simp add: mem_words.simps)

section \<open>Reading numbers\<close>

lemma byte_digit_less: "w < c \<Longrightarrow> b < 256 \<Longrightarrow> 256 * w + b < 256 * (c :: nat)"
  by linarith

lemma unat_shift_byte:
  fixes w :: u64
  assumes "unat w < 256 ^ k" "k < 8"
  shows "unat (push_bit 8 w OR ucast (b :: byte)) = 256 * unat w + unat b"
proof -
  have "256 * unat w + unat b < 256 * 256 ^ k" by (rule byte_digit_less [OF assms(1) unat_byte_less])
  also have "\<dots> \<le> 256 ^ 8" using assms(2) power_increasing [of "Suc k" 8 "256 :: nat"] by simp
  finally have "2 ^ 8 * unat w + unat b < 2 ^ 64" by simp
  then show ?thesis using unat_push_bit_or [of "ucast b :: u64" 8 w] by simp
qed

lemma bin2bn_loop_val:
  assumes "length inp + 7 = 8 * n + m" "m \<le> 7" "unat w < 256 ^ (7 - m)" "n \<le> length d"
  shows "length (bin2bn_loop w m n inp d) = length d \<and> drop n (bin2bn_loop w m n inp d) = drop n d \<and>
    words_val (take n (bin2bn_loop w m n inp d)) = 256 ^ length inp * unat w + be_val inp"
  using assms
proof (induction inp arbitrary: w m n d)
  case Nil
  then have "n = 0" by (cases n) simp_all
  with Nil have "m = 7" by simp
  with Nil \<open>n = 0\<close> show ?case by simp
next
  case (Cons b inp)
  let ?w = "push_bit 8 w OR ucast b"
  show ?case
  proof (cases "m = 0")
    case True
    obtain k where n: "n = Suc k" using Cons.prems(1) True by (cases n) auto
    have u: "unat ?w = 256 * unat w + unat b" using unat_shift_byte [of w 7 b] Cons.prems(3) True by simp
    let ?d = "d[k := ?w]"
    let ?r = "bin2bn_loop 0 7 k inp ?d"
    have e: "length inp = 8 * k" using Cons.prems(1) True n by simp
    have IH: "length ?r = length d" "drop k ?r = drop k ?d" "words_val (take k ?r) = be_val inp"
      using Cons.IH [of k 7 0 ?d] e Cons.prems(4) n by simp_all
    have k: "k < length ?r" using IH(1) Cons.prems(4) n by simp
    have "?r ! k = hd (drop k ?r)" using k by (simp add: hd_drop_conv_nth)
    then have "?r ! k = ?w" using IH(1,2) k by (simp add: hd_drop_conv_nth)
    then have "take n ?r = take k ?r @ [?w]" using k n by (simp add: take_Suc_conv_app_nth)
    then have "words_val (take n ?r) = be_val inp + 2 ^ (64 * k) * (256 * unat w + unat b)"
      using IH(3) k u by (simp add: words_val_append)
    moreover have "(2 :: nat) ^ (64 * k) = 256 ^ length inp" unfolding e power_mult by simp
    moreover have "drop n ?r = drop n d"
    proof -
      have "drop n ?r = drop 1 (drop k ?r)" using n by simp
      also have "\<dots> = drop n d" unfolding IH(2) using n by simp
      finally show ?thesis .
    qed
    ultimately show ?thesis using True IH(1) n by (simp add: Let_def be_val_Cons algebra_simps)
  next
    case False
    have "unat ?w = 256 * unat w + unat b" using Cons.prems(2,3) False by (intro unat_shift_byte [of w "7 - m"]) simp_all
    moreover from this have "unat ?w < 256 ^ (7 - (m - 1))"
    proof -
      have "256 * unat w + unat b < 256 * 256 ^ (7 - m)" by (rule byte_digit_less [OF Cons.prems(3) unat_byte_less])
      moreover have "Suc (7 - m) = 7 - (m - 1)" using False Cons.prems(2) by simp
      ultimately show ?thesis using \<open>unat ?w = _\<close> by (metis power_Suc)
    qed
    ultimately show ?thesis using False Cons.prems Cons.IH [of n "m - 1" ?w d]
      by (simp add: Let_def be_val_Cons algebra_simps)
  qed
qed

text \<open>The number of words for a string that is not empty.\<close>

lemma bytes_to_words:
  fixes len :: nat
  assumes "0 < len"
  shows "len + 7 = 8 * ((len - 1) div 8 + 1) + (len - 1) mod 8" "(len - 1) mod 8 \<le> 7" "len \<le> 8 * ((len - 1) div 8 + 1)"
  using assms by (cases len; simp; presburger?)+

lemma BN_bin2bn_ok:
  assumes "BN_bin2bn alloc malloc_ok inp (Some r) = Some r'" "bn_fit r"
  shows "bn_fit r'" "bn_abs r' = be_val inp" "inp \<noteq> [] \<Longrightarrow> \<not> bn_neg r'" "inp = [] \<Longrightarrow> r' = r\<lparr>bn_width := 0\<rparr>"
    "bn_width r' = (length inp + 7) div 8"
proof -
  show "inp = [] \<Longrightarrow> r' = r\<lparr>bn_width := 0\<rparr>" using assms(1) by (simp add: BN_bin2bn_def or_new_def)
  have "bn_fit r' \<and> bn_abs r' = be_val inp \<and> (inp \<noteq> [] \<longrightarrow> \<not> bn_neg r') \<and> bn_width r' = (length inp + 7) div 8"
  proof (cases "inp = []")
    case True
    with assms show ?thesis by (auto simp: BN_bin2bn_def or_new_def bn_fit_def bn_abs_def bn_used_def)
  next
    case False
    let ?n = "(length inp - 1) div 8 + 1" and ?m = "(length inp - 1) mod 8"
    obtain ok q where w: "bn_wexpand alloc r ?n = (ok, q)" by fastforce
    note e = bn_wexpand_ok [OF w assms(2)]
    from assms(1) w False have "ok"
      and r': "r' = q\<lparr>bn_width := ?n, bn_neg := False, bn_d := bin2bn_loop 0 ?m ?n inp (bn_d q)\<rparr>"
      by (auto simp: BN_bin2bn_def or_new_def Let_def split: if_splits)
    note b = bytes_to_words [of "length inp"]
    have len: "?n \<le> length (bn_d q)" using e(5) \<open>ok\<close> .
    from bin2bn_loop_val [of inp ?n ?m 0 "bn_d q"] b len False
    have v: "length (bin2bn_loop 0 ?m ?n inp (bn_d q)) = length (bn_d q)"
      "words_val (take ?n (bin2bn_loop 0 ?m ?n inp (bn_d q))) = be_val inp" by simp_all
    have "?n = (length inp + 7) div 8" using False by (cases inp) (simp_all add: div_add_self2 [symmetric])
    with v len e(1) show ?thesis unfolding r' by (simp add: bn_fit_def bn_abs_def bn_used_def)
  qed
  then show "bn_fit r'" "bn_abs r' = be_val inp" "inp \<noteq> [] \<Longrightarrow> \<not> bn_neg r'" "bn_width r' = (length inp + 7) div 8"
    by blast+
qed

lemma le_val_zeros: "le_val (replicate k 0) = 0"
  by (induction k) simp_all

lemma BN_le2bn_ok:
  assumes "BN_le2bn alloc malloc_ok inp (Some r) = Some r'" "bn_fit r"
  shows "bn_fit r'" "bn_abs r' = le_val inp" "bn_neg r' = (inp \<noteq> [] \<and> bn_neg r)"
proof -
  have "bn_fit r' \<and> bn_abs r' = le_val inp \<and> bn_neg r' = (inp \<noteq> [] \<and> bn_neg r)"
  proof (cases "inp = []")
    case True
    with assms show ?thesis by (auto simp: BN_le2bn_def or_new_def bn_fit_def bn_abs_def bn_used_def)
  next
    case False
    let ?n = "(length inp - 1) div 8 + 1"
    obtain ok q where w: "bn_wexpand alloc r ?n = (ok, q)" by fastforce
    note e = bn_wexpand_ok [OF w assms(2)]
    let ?bs = "mem_bytes ((bn_d q)[?n - 1 := 0])"
    from assms(1) w False have "ok"
      and r': "r' = q\<lparr>bn_width := ?n, bn_d := mem_words (write_at 0 inp ?bs)\<rparr>"
      by (auto simp: BN_le2bn_def or_new_def Let_def split: if_splits)
    have n: "length inp \<le> 8 * ?n" "8 * (?n - 1) < length inp" using False by (cases inp; simp; presburger)+
    have len: "?n \<le> length (bn_d q)" using e(5) \<open>ok\<close> .
    have lw: "length (write_at 0 inp ?bs) = 8 * length (bn_d q)" using n(1) len by simp
    note mw = words_val_mem_words [of "write_at 0 inp ?bs", unfolded lw]
    have l: "length (mem_words (write_at 0 inp ?bs)) = length (bn_d q)" using mw by simp
    have "take (8 * ?n) (write_at 0 inp ?bs) = inp @ replicate (8 * ?n - length inp) 0"
    proof -
      have top: "drop (8 * (?n - 1)) (take (8 * ?n) ?bs) = replicate 8 0"
      proof -
        have "take (8 * ?n) ?bs = mem_bytes (take (?n - 1) (bn_d q) @ [0])"
          unfolding take_mem_bytes using len by (simp add: take_Suc_conv_app_nth)
        moreover have "replicate 8 (0 :: byte) = [0, 0, 0, 0, 0, 0, 0, 0]" by (simp add: numeral_eq_Suc)
        ultimately show ?thesis using len by (simp add: mem_bytes_append word_bytes_def upt_rec)
      qed
      have "take (8 * ?n) (write_at 0 inp ?bs) = inp @ take (8 * ?n - length inp) (drop (length inp) ?bs)"
        using n(1) by (simp add: write_at_def)
      also have "take (8 * ?n - length inp) (drop (length inp) ?bs) = drop (length inp) (take (8 * ?n) ?bs)"
        by (simp add: drop_take)
      also have "\<dots> = drop (length inp - 8 * (?n - 1)) (drop (8 * (?n - 1)) (take (8 * ?n) ?bs))" using n(2) by simp
      also have "\<dots> = replicate (8 * ?n - length inp) 0" unfolding top using n by simp
      finally show ?thesis .
    qed
    then have "words_val (take ?n (mem_words (write_at 0 inp ?bs))) = le_val inp"
      using words_val_mem_words [of "take (8 * ?n) (write_at 0 inp ?bs)"] len n(1)
      unfolding take_mem_words by (simp add: le_val_append le_val_zeros)
    with l len e(1,4) False show ?thesis unfolding r' by (simp add: bn_fit_def bn_abs_def bn_used_def)
  qed
  then show "bn_fit r'" "bn_abs r' = le_val inp" "bn_neg r' = (inp \<noteq> [] \<and> bn_neg r)" by blast+
qed


section \<open>Writing numbers\<close>

lemma le_val_unique: "length bs = n \<Longrightarrow> le_val bs = v \<Longrightarrow> bs = rev (be_bytes n v)"
  using be_bytes_be_val [of "rev bs"] by (metis be_val_rev length_rev rev_rev_ident)

lemma le_val_take_drop: "n \<le> length bs \<Longrightarrow> le_val bs = le_val (take n bs) + 256 ^ n * le_val (drop n bs)"
  using le_val_append [of "take n bs" "drop n bs"] by simp

lemma le_val_eq_0: "le_val bs = 0 \<longleftrightarrow> (\<forall>b \<in> set bs. b = 0)"
  by (induction bs) (auto simp: unat_eq_0)

lemma le_val_high:
  assumes "n \<le> length bs"
  shows "le_val bs < 256 ^ n \<longleftrightarrow> le_val (drop n bs) = 0"
proof
  assume "le_val bs < 256 ^ n"
  then have "256 ^ n * le_val (drop n bs) < 256 ^ n * 1" using le_val_take_drop [OF assms] by linarith
  then show "le_val (drop n bs) = 0" by (simp only: mult_less_cancel1 less_one)
next
  assume "le_val (drop n bs) = 0"
  then show "le_val bs < 256 ^ n" using le_val_take_drop [OF assms] le_val_less [of "take n bs"] assms by simp
qed

lemma byte_or_eq_0: "a OR b = (0 :: byte) \<longleftrightarrow> a = 0 \<and> b = 0"
  by (auto simp: bit_eq_iff bit_or_iff)

lemma fits_in_bytes_iff: "fits_in_bytes bytes n len \<longleftrightarrow> (\<forall>i \<in> {len..<n}. bytes ! i = 0)"
proof -
  have "fold (\<lambda>i m. m OR bytes ! i) xs z = 0 \<longleftrightarrow> z = 0 \<and> (\<forall>i \<in> set xs. bytes ! i = 0)" for xs and z :: byte
    by (induction xs arbitrary: z) (auto simp: byte_or_eq_0)
  then show ?thesis by (simp add: fits_in_bytes_def)
qed

text \<open>The memory of the words that count.\<close>

lemma used_bytes:
  assumes "bn_fit a"
  shows "take (8 * bn_width a) (mem_bytes (bn_d a)) = mem_bytes (bn_used a)"
    "length (mem_bytes (bn_used a)) = 8 * bn_width a" "le_val (mem_bytes (bn_used a)) = bn_abs a"
  using assms by (simp_all add: take_mem_bytes le_val_mem_bytes bn_abs_def) (simp add: bn_used_def)

lemma fits_in_bytes_bn:
  assumes "bn_fit a" "len < 8 * bn_width a"
  shows "fits_in_bytes (mem_bytes (bn_d a)) (8 * bn_width a) len \<longleftrightarrow> bn_abs a < 256 ^ len"
proof -
  let ?B = "mem_bytes (bn_used a)"
  have nth: "mem_bytes (bn_d a) ! i = ?B ! i" if "i < 8 * bn_width a" for i
    using used_bytes(1) [OF assms(1)] that by (metis nth_take)
  have "fits_in_bytes (mem_bytes (bn_d a)) (8 * bn_width a) len \<longleftrightarrow> (\<forall>i \<in> {len..<8 * bn_width a}. ?B ! i = 0)"
    unfolding fits_in_bytes_iff using nth by auto
  also have "\<dots> \<longleftrightarrow> (\<forall>b \<in> set (drop len ?B). b = 0)"
  proof -
    have "(\<forall>b \<in> set (drop len ?B). b = 0) \<longleftrightarrow> (\<forall>j < 8 * bn_width a - len. ?B ! (len + j) = 0)"
      using used_bytes(2) [OF assms(1)] assms(2) by (simp add: all_set_conv_all_nth)
    moreover have "(\<forall>i \<in> {len..<8 * bn_width a}. ?B ! i = 0) \<longleftrightarrow> (\<forall>j < 8 * bn_width a - len. ?B ! (len + j) = 0)"
      by (auto simp: less_diff_conv add.commute dest!: le_Suc_ex)
    ultimately show ?thesis by simp
  qed
  also have "\<dots> \<longleftrightarrow> bn_abs a < 256 ^ len"
    using le_val_high [of len ?B] used_bytes(2,3) [OF assms(1)] assms(2) by (simp add: le_val_eq_0)
  finally show ?thesis .
qed

lemma BN_bn2le_padded_eq:
  assumes "bn_fit a"
  shows "BN_bn2le_padded len a = (if bn_abs a < 256 ^ len then Some (rev (be_bytes len (bn_abs a))) else None)"
proof (cases "len < 8 * bn_width a")
  case True
  let ?B = "mem_bytes (bn_used a)"
  have t: "take len (mem_bytes (bn_d a)) = take len ?B"
    using used_bytes(1) [OF assms, symmetric] True by (simp add: min_def)
  have "take len ?B = rev (be_bytes len (bn_abs a))" if "bn_abs a < 256 ^ len"
    using that le_val_take_drop [of len ?B] le_val_high [of len ?B] used_bytes(2,3) [OF assms] True
    by (intro le_val_unique) simp_all
  with True t fits_in_bytes_bn [OF assms True] show ?thesis
    by (simp add: BN_bn2le_padded_def Let_def mult.commute)
next
  case False
  let ?B = "mem_bytes (bn_used a)"
  have "bn_abs a < 256 ^ len"
  proof -
    have "bn_abs a < 256 ^ (8 * bn_width a)" using le_val_less [of ?B] used_bytes(2,3) [OF assms] by simp
    also have "\<dots> \<le> 256 ^ len" using False by (intro power_increasing) simp_all
    finally show ?thesis .
  qed
  moreover have "?B @ replicate (len - 8 * bn_width a) 0 = rev (be_bytes len (bn_abs a))"
    using used_bytes(2,3) [OF assms] False by (intro le_val_unique) (simp_all add: le_val_append le_val_zeros)
  ultimately show ?thesis using False used_bytes(1) [OF assms]
    by (simp add: BN_bn2le_padded_def Let_def mult.commute)
qed

lemma bin_padded_le_padded:
  assumes "bn_fit a"
  shows "BN_bn2bin_padded len a = map_option rev (BN_bn2le_padded len a)"
proof -
  have r: "map (\<lambda>j. bs ! (len - j - 1)) [len - n..<len] = rev (take n bs)" if "n \<le> len" "n \<le> length bs" for n and bs :: bytes
    using that by (intro nth_equalityI) (simp_all add: rev_nth)
  have l: "8 * bn_width a \<le> length (mem_bytes (bn_d a))" using assms by (simp add: bn_fit_def)
  then show ?thesis
    using r [of len "mem_bytes (bn_d a)"] r [of "8 * bn_width a" "mem_bytes (bn_d a)"]
    by (simp add: BN_bn2bin_padded_def BN_bn2le_padded_def Let_def mult.commute)
qed

lemma BN_bn2bin_padded_eq:
  "bn_fit a \<Longrightarrow> BN_bn2bin_padded len a = (if bn_abs a < 256 ^ len then Some (be_bytes len (bn_abs a)) else None)"
  by (simp add: bin_padded_le_padded BN_bn2le_padded_eq)

lemma mem_bytes_nth: "i < 8 * length d \<Longrightarrow> mem_bytes d ! i = ucast (drop_bit (8 * (i mod 8)) (d ! (i div 8)))"
proof (induction d arbitrary: i)
  case (Cons w d)
  show ?case
  proof (cases "i < 8")
    case True
    then show ?thesis by (simp add: nth_append word_bytes_def del: upt_Suc)
  next
    case False
    then have "i div 8 = Suc ((i - 8) div 8)" "i mod 8 = (i - 8) mod 8" by (simp_all add: le_div_geq le_mod_geq)
    with False Cons show ?thesis by (simp add: nth_append)
  qed
qed simp

lemma bits_bytes: "(x + 7) div 8 \<le> k \<longleftrightarrow> x \<le> 8 * (k :: nat)"
  using div_less_iff_less_mult [of 8 "x + 7" "Suc k"] by (simp add: less_Suc_eq_le) linarith

lemma BN_num_bytes_le:
  assumes "bn_fit a"
  shows "bn_abs a < 256 ^ k \<longleftrightarrow> BN_num_bytes a \<le> k"
proof -
  note b = BN_num_bits_bounds [OF assms]
  have "bn_abs a < 2 ^ (8 * k) \<longleftrightarrow> BN_num_bits a \<le> 8 * k"
  proof
    assume s: "bn_abs a < 2 ^ (8 * k)"
    show "BN_num_bits a \<le> 8 * k"
    proof (cases "bn_abs a = 0")
      case False
      with b(2) s have "(2 :: nat) ^ (BN_num_bits a - 1) < 2 ^ (8 * k)" by (meson le_less_trans)
      then have "BN_num_bits a - 1 < 8 * k" by simp
      then show ?thesis by simp
    qed (use b(3) in simp)
  next
    assume "BN_num_bits a \<le> 8 * k"
    then have "(2 :: nat) ^ BN_num_bits a \<le> 2 ^ (8 * k)" by (intro power_increasing) simp_all
    with b(1) show "bn_abs a < 2 ^ (8 * k)" by (meson less_le_trans)
  qed
  moreover have "(2 :: nat) ^ (8 * k) = 256 ^ k" by (simp add: power_mult)
  moreover have "BN_num_bits a \<le> 8 * k \<longleftrightarrow> BN_num_bytes a \<le> k" unfolding BN_num_bytes_def by (rule bits_bytes [symmetric])
  ultimately show ?thesis by simp
qed

lemma BN_bn2bin_eq:
  assumes "bn_fit a"
  shows "BN_bn2bin a = be_bytes (BN_num_bytes a) (bn_abs a)"
proof -
  let ?n = "BN_num_bytes a" and ?B = "mem_bytes (bn_used a)"
  have small: "bn_abs a < 256 ^ ?n" using BN_num_bytes_le [OF assms] by blast
  have "bn_abs a < 256 ^ (8 * bn_width a)" using le_val_less [of ?B] used_bytes(2,3) [OF assms] by simp
  then have n: "?n \<le> 8 * bn_width a" using BN_num_bytes_le [OF assms] by blast
  have ff: "b AND 0xff = b" for b :: byte
  proof -
    have "(0xff :: byte) = - 1" by simp
    then show ?thesis by (simp only: bit.conj_one_right)
  qed
  have "ucast (drop_bit (8 * (i mod 8)) (bn_d a ! (i div 8))) AND 0xff = ?B ! i" if "i < ?n" for i
  proof -
    have "i < 8 * bn_width a" using that n by simp
    moreover have "8 * bn_width a \<le> 8 * length (bn_d a)" using assms by (simp add: bn_fit_def)
    moreover have "mem_bytes (bn_d a) ! i = ?B ! i" using used_bytes(1) [OF assms] \<open>i < 8 * bn_width a\<close> by (metis nth_take)
    ultimately show ?thesis using mem_bytes_nth [of i "bn_d a"] by (simp add: ff)
  qed
  then have "BN_bn2bin a = map (\<lambda>i. ?B ! i) (rev [0..<?n])" by (simp add: BN_bn2bin_def)
  also have "\<dots> = rev (take ?n ?B)" using n used_bytes(2) [OF assms] by (intro nth_equalityI) (simp_all add: rev_nth)
  also have "take ?n ?B = rev (be_bytes ?n (bn_abs a))"
    using small n le_val_take_drop [of ?n ?B] le_val_high [of ?n ?B] used_bytes(2,3) [OF assms]
    by (intro le_val_unique) simp_all
  finally show ?thesis by simp
qed


section \<open>Properties\<close>



text \<open>C32: The readers do not always write the sign of the number that they fill: \<open>BN_le2bn\<close> of a non-empty string
  keeps the old one, so that a negative number stays negative, and \<open>BN_bin2bn\<close> of an empty string makes a zero
  that keeps it.\<close>

theorem byte_readers_keep_sign:
  assumes "bn_fit r"
  shows "(inp \<noteq> [] \<and> BN_le2bn alloc malloc_ok inp (Some r) = Some r1 \<longrightarrow>
      bn_val r1 = (if bn_neg r then - 1 else 1) * int (le_val inp)) \<and>
    (BN_bin2bn alloc malloc_ok [] (Some r) = Some r2 \<longrightarrow>
      bn_val r2 = 0 \<and> BN_is_negative r2 = BN_is_negative r \<and> bn_ok r2 = (\<not> bn_neg r))"
proof (intro conjI impI)
  assume a: "inp \<noteq> [] \<and> BN_le2bn alloc malloc_ok inp (Some r) = Some r1"
  from a BN_le2bn_ok [OF conjunct2 [OF a] assms]
  show "bn_val r1 = (if bn_neg r then - 1 else 1) * int (le_val inp)" by (simp add: bn_val_def)
next
  assume "BN_bin2bn alloc malloc_ok [] (Some r) = Some r2"
  note b = BN_bin2bn_ok [OF this assms]
  show "bn_val r2 = 0" using b(2) by (simp add: bn_val_def)
  show "BN_is_negative r2 = BN_is_negative r" using b(4) by (simp add: BN_is_negative_def)
  show "bn_ok r2 = (\<not> bn_neg r)" using b(1,2,4) by (simp add: bn_ok_def)
qed

theorem byte_readers_keep_sign_witness:
  "bn_val (the (BN_le2bn (\<lambda>_. None) False [3] (Some \<lparr>bn_d = [5], bn_width = 1, bn_neg = True, bn_static = False\<rparr>))) = - 3"
proof -
  let ?r = "\<lparr>bn_d = [5], bn_width = 1, bn_neg = True, bn_static = False\<rparr>"
  obtain r1 where "BN_le2bn (\<lambda>_. None) False [3] (Some ?r) = Some r1"
    by (simp add: BN_le2bn_def or_new_def bn_wexpand_def Let_def)
  moreover have "bn_fit ?r" by (simp add: bn_fit_def BN_MAX_WORDS_def)
  ultimately show ?thesis using byte_readers_keep_sign [of ?r "[3]" "\<lambda>_. None" False r1] by simp
qed

end
