(* ===== verification/Bn_Asn1.thy ===== *)
theory Bn_Asn1
  imports Bn_Bytes Bn_Add
begin

text \<open>
  Numbers in DER (\<open>crypto/bn_extra/bn_asn1.c\<close>): the reader works on a byte string of \<open>Cbs\<close>, the writer on a
  builder of \<open>Cbb\<close>, and both convert with the functions of \<open>Bn_Bytes\<close>.
\<close>

section \<open>The operations\<close>

definition BN_parse_asn1_unsigned :: "words_alloc \<Rightarrow> cbs \<Rightarrow> bignum \<Rightarrow> bool \<times> bignum \<times> cbs" where
  "BN_parse_asn1_unsigned alloc cbs ret =
     (case CBS_get_asn1 CBS_ASN1_INTEGER cbs of
        (None, cbs) \<Rightarrow> (False, ret, cbs)
      | (Some child, cbs) \<Rightarrow>
          if CBS_len child = 0 then (False, ret, cbs)
          else if CBS_data child ! 0 AND 0x80 \<noteq> 0 then (False, ret, cbs)
          else if CBS_data child ! 0 = 0 \<and> CBS_len child > 1 \<and> CBS_data child ! 1 AND 0x80 = 0 then (False, ret, cbs)
          else (case BN_bin2bn alloc False (CBS_data child) (Some ret) of
                  None \<Rightarrow> (False, ret, cbs)
                | Some ret \<Rightarrow> (True, ret, cbs)))"

text \<open>\<open>uninit\<close> is what new space in the builder holds before anything is stored there.\<close>

definition BN_bn2cbb_padded :: "(u64 \<Rightarrow> bool) \<Rightarrow> bytes \<Rightarrow> nat \<Rightarrow> nat \<Rightarrow> bignum \<Rightarrow> cbb \<Rightarrow> bool \<times> cbb" where
  "BN_bn2cbb_padded mem_ok uninit out len inp cbb =
     (let written = BN_bn2bin_padded len inp in
      case CBB_add_space mem_ok out (case written of None \<Rightarrow> uninit | Some bs \<Rightarrow> bs) (of_nat len) cbb of
        (False, cbb) \<Rightarrow> (False, cbb)
      | (True, cbb) \<Rightarrow> (written \<noteq> None, cbb))"

definition BN_marshal_asn1 :: "(u64 \<Rightarrow> bool) \<Rightarrow> bytes \<Rightarrow> nat \<Rightarrow> bignum \<Rightarrow> cbb \<Rightarrow> bool \<times> cbb" where
  "BN_marshal_asn1 mem_ok uninit d bn cbb =
     (if BN_is_negative bn then (False, cbb)
      else all_ok [CBB_add_asn1 mem_ok d CBS_ASN1_INTEGER,
             \<lambda>cbb. if BN_num_bits bn mod 8 = 0 then CBB_add_u8 mem_ok (Suc d) 0 cbb else (True, cbb),
             BN_bn2cbb_padded mem_ok uninit (Suc d) (BN_num_bytes bn) bn,
             CBB_flush mem_ok d] cbb)"

section \<open>The contents of the element\<close>

lemma BN_num_bits_le:
  assumes "bn_fit a"
  shows "BN_num_bits a \<le> k \<longleftrightarrow> bn_abs a < 2 ^ k"
proof -
  note b = BN_num_bits_bounds [OF assms]
  show ?thesis
  proof
    assume "BN_num_bits a \<le> k"
    then have "(2 :: nat) ^ BN_num_bits a \<le> 2 ^ k" by (intro power_increasing) simp_all
    with b(1) show "bn_abs a < 2 ^ k" by (meson less_le_trans)
  next
    assume s: "bn_abs a < 2 ^ k"
    show "BN_num_bits a \<le> k"
    proof (cases "bn_abs a = 0")
      case False
      with b(2) s have "(2 :: nat) ^ (BN_num_bits a - 1) < 2 ^ k" by (meson le_less_trans)
      then have "BN_num_bits a - 1 < k" by simp
      then show ?thesis by simp
    qed (use b(3) in simp)
  qed
qed

lemma bits_mod_8: "8 * k < b \<Longrightarrow> b \<le> 8 * (k + 1) \<Longrightarrow> b mod 8 = 0 \<longleftrightarrow> \<not> b \<le> 8 * k + (7 :: nat)"
  by presburger

lemma asn1_contents:
  assumes "bn_fit a"
  shows "(if BN_num_bits a mod 8 = 0 then [0] else []) @ be_bytes (BN_num_bytes a) (bn_abs a) = int_octets (int (bn_abs a))"
proof -
  let ?n = "BN_num_bytes a"
  let ?ds = "(if BN_num_bits a mod 8 = 0 then [0] else []) @ be_bytes ?n (bn_abs a)"
  note b = BN_num_bits_bounds [OF assms]
  have fits: "bn_abs a < 256 ^ ?n" using BN_num_bytes_le [OF assms] by blast
  then have val: "be_val ?ds = bn_abs a" by (simp add: be_val_Cons be_val_be_bytes)
  have "minimal_int ?ds \<and> ?ds ! 0 AND 0x80 = 0"
  proof (cases ?n)
    case 0
    then have "BN_num_bits a = 0" by (simp add: BN_num_bytes_def)
    then show ?thesis using 0 by (simp add: minimal_int_def)
  next
    case (Suc k)
    let ?t = "word_of_nat (bn_abs a div 256 ^ k) :: byte"
    have p: "(256 :: nat) ^ k = 2 ^ (8 * k)" by (simp add: power_mult)
    have q: "bn_abs a div 256 ^ k < 256" using fits Suc by (simp add: less_mult_imp_div_less)
    have u: "unat ?t = bn_abs a div 256 ^ k" using q by (simp add: unat_of_nat)
    have "\<not> BN_num_bytes a \<le> k" using Suc by simp
    then have big: "256 ^ k \<le> bn_abs a" using BN_num_bytes_le [OF assms, of k] by (simp add: not_less)
    then have "0 < bn_abs a div 256 ^ k" by (simp add: div_greater_zero_iff)
    with u have nz: "?t \<noteq> 0" by (metis less_irrefl unat_0)
    have "8 * k < BN_num_bits a" using BN_num_bits_le [OF assms, of "8 * k"] big p by simp
    moreover have "BN_num_bits a \<le> 8 * (k + 1)"
      using BN_num_bits_le [OF assms, of "8 * (k + 1)"] fits Suc by (simp add: power_mult power_add)
    ultimately have m: "BN_num_bits a mod 8 = 0 \<longleftrightarrow> \<not> bn_abs a < 2 ^ (8 * k + 7)"
      unfolding BN_num_bits_le [OF assms, symmetric] by (rule bits_mod_8)
    also have "\<dots> \<longleftrightarrow> \<not> unat ?t < 128"
    proof -
      have "bn_abs a div 2 ^ (8 * k) < 128 \<longleftrightarrow> bn_abs a < 128 * 2 ^ (8 * k)" by (rule div_less_iff_less_mult) simp
      then show ?thesis unfolding u unfolding p by (simp add: power_add mult.commute)
    qed
    finally have "BN_num_bits a mod 8 = 0 \<longleftrightarrow> ?t AND 0x80 \<noteq> 0" by (simp add: byte_msb)
    then show ?thesis using nz unfolding Suc be_bytes_Cons by (auto simp: minimal_int_def)
  qed
  with minimal_int_be_val [of ?ds] val show ?thesis by simp
qed

section \<open>Reading and writing\<close>

lemma BN_parse_asn1_unsigned_sound:
  assumes "BN_parse_asn1_unsigned alloc cbs ret = (True, b, rest)" "bn_fit ret"
  shows "bn_ok b \<and> \<not> bn_neg b \<and> cbs = der_element CBS_ASN1_INTEGER (int_octets (bn_val b)) @ rest"
proof -
  from assms(1) obtain ds where d: "CBS_get_asn1 CBS_ASN1_INTEGER cbs = (Some ds, rest)" "ds \<noteq> []"
      "ds ! 0 AND 0x80 = 0" "\<not> (ds ! 0 = 0 \<and> length ds > 1 \<and> ds ! 1 AND 0x80 = 0)"
      "BN_bin2bn alloc False ds (Some ret) = Some b"
    by (auto simp: BN_parse_asn1_unsigned_def CBS_data_def CBS_len_def split: prod.splits option.splits if_splits)
  note v = BN_bin2bn_ok [OF d(5) assms(2)]
  have "minimal_int ds" using d(2,3,4) by (auto simp: minimal_int_def)
  from minimal_int_be_val [OF this d(3)] v(2,3) d(1,2) have "cbs = der_element CBS_ASN1_INTEGER (int_octets (bn_val b)) @ rest"
    by (simp add: CBS_get_asn1_iff bn_val_def)
  with v(1,3) d(2) show ?thesis by (simp add: bn_ok_def)
qed

lemma BN_bin2bn_some:
  assumes "can_grow alloc ret ((length ds + 7) div 8)"
  shows "\<exists>b. BN_bin2bn alloc mk ds (Some ret) = Some b"
proof (cases "ds = []")
  case False
  then have "(length ds - 1) div 8 + 1 = (length ds + 7) div 8" by (cases ds) (simp_all add: div_add_self2 [symmetric])
  with can_grow_wexpand [OF assms, of "(length ds + 7) div 8"] False show ?thesis
    by (auto simp: BN_bin2bn_def or_new_def Let_def split: prod.splits)
qed (simp add: BN_bin2bn_def or_new_def)

lemma BN_parse_asn1_unsigned_complete:
  assumes "bn_fit ret" "0 \<le> v" "length (int_octets v) < 2 ^ 32" "can_grow alloc ret ((length (int_octets v) + 7) div 8)"
  shows "\<exists>b. BN_parse_asn1_unsigned alloc (der_element CBS_ASN1_INTEGER (int_octets v) @ rest) ret = (True, b, rest) \<and>
    bn_val b = v"
proof -
  let ?ds = "int_octets v"
  have g: "CBS_get_asn1 CBS_ASN1_INTEGER (der_element CBS_ASN1_INTEGER ?ds @ rest) = (Some ?ds, rest)"
    using assms(3) by (simp add: CBS_get_asn1_iff)
  obtain b where b: "BN_bin2bn alloc False ?ds (Some ret) = Some b" using BN_bin2bn_some [OF assms(4)] by blast
  note v = BN_bin2bn_ok [OF b assms(1)]
  have "bn_val b = v" using v(2,3) int_octets_nonneg(2) [OF assms(2)] by (simp add: bn_val_def)
  then show ?thesis using b g int_octets_nonneg(1) [OF assms(2)] minimal_int_octets [of v]
    by (simp add: BN_parse_asn1_unsigned_def CBS_data_def CBS_len_def minimal_int_def)
qed

lemma appends_bn2cbb_padded:
  assumes "bn_fit a" "bn_abs a < 256 ^ len" "len < 2 ^ 64"
  shows "appends d (BN_bn2cbb_padded mem_ok uninit d len a) (be_bytes len (bn_abs a))"
  unfolding appends_def
proof (intro allI impI)
  fix s s'
  assume s: "ready d s" "BN_bn2cbb_padded mem_ok uninit d len a s = (True, s')"
  have l: "unat (of_nat len :: u64) = len" using assms(3) by (simp add: unat_of_nat)
  have w: "BN_bn2bin_padded len a = Some (be_bytes len (bn_abs a))" using assms(1,2) by (simp add: BN_bn2bin_padded_eq)
  from s(2) have "CBB_add_space mem_ok d (be_bytes len (bn_abs a)) (of_nat len) s = (True, s')"
    by (auto simp: BN_bn2cbb_padded_def w Let_def split: prod.splits bool.splits)
  from add_raw_ok [OF this [unfolded CBB_add_space_def]] s(1) ready_cbb_ok [OF s(1)] l
  show "ready d s' \<and> cbb_out s' = cbb_out s @ be_bytes len (bn_abs a) \<and> chain s' = chain s" by simp
qed

lemma BN_marshal_asn1_ok:
  assumes "BN_marshal_asn1 mem_ok uninit d a s = (True, s')" "bn_fit a" "cbb_ok s"
  shows "\<not> bn_neg a \<and> ready d s' \<and> chain s' = take d (chain s) \<and> length (int_octets (bn_val a)) \<le> 0xfffffffe \<and>
    cbb_out s' = spec_close (cbb_out s) (drop d (chain s)) @ der_element CBS_ASN1_INTEGER (int_octets (bn_val a))"
proof -
  let ?pad = "\<lambda>cbb. if BN_num_bits a mod 8 = 0 then CBB_add_u8 mem_ok (Suc d) 0 cbb else (True, cbb)"
  let ?f = "all_ok [?pad, BN_bn2cbb_padded mem_ok uninit (Suc d) (BN_num_bytes a) a]"
  from assms(1) have n: "\<not> bn_neg a" by (simp add: BN_marshal_asn1_def BN_is_negative_def split: if_splits)
  with assms(1) have "all_ok [CBB_add_asn1 mem_ok d CBS_ASN1_INTEGER, ?pad,
      BN_bn2cbb_padded mem_ok uninit (Suc d) (BN_num_bytes a) a, CBB_flush mem_ok d] s = (True, s')"
    by (simp only: BN_marshal_asn1_def BN_is_negative_def if_False)
  then obtain t v u where t: "CBB_add_asn1 mem_ok d CBS_ASN1_INTEGER s = (True, t)" "?pad t = (True, v)"
    "BN_bn2cbb_padded mem_ok uninit (Suc d) (BN_num_bytes a) a v = (True, u)" "CBB_flush mem_ok d u = (True, s')"
    unfolding all_ok_Cons_True all_ok.simps(1) by blast
  then have f: "?f t = (True, u)" unfolding all_ok_pair by blast
  have fits: "bn_abs a < 256 ^ BN_num_bytes a" using BN_num_bytes_le [OF assms(2)] by blast
  have "BN_num_bytes a \<le> 8 * bn_width a"
    using BN_num_bytes_le [OF assms(2), of "8 * bn_width a"] bn_abs_less [OF assms(2)] by (simp add: power_mult)
  then have small: "BN_num_bytes a < 2 ^ 64" using assms(2) by (simp add: bn_fit_def BN_MAX_WORDS_def)
  have pad: "appends (Suc d) ?pad (if BN_num_bits a mod 8 = 0 then [0] else [])"
    using appends_u8 appends_id by (cases "BN_num_bits a mod 8 = 0") simp_all
  have "appends (Suc d) ?f (concat [if BN_num_bits a mod 8 = 0 then [0] else [], be_bytes (BN_num_bytes a) (bn_abs a)])"
    by (rule appends_all_ok) (simp add: pad appends_bn2cbb_padded [OF assms(2) fits small])
  then have "appends (Suc d) ?f (int_octets (int (bn_abs a)))" using asn1_contents [OF assms(2)] by simp
  moreover have "int (bn_abs a) = bn_val a" using n by (simp add: bn_val_def)
  ultimately have "appends (Suc d) ?f (int_octets (bn_val a))" by simp
  from asn1_element_written [OF assms(3) t(1) f this t(4)] n show ?thesis by blast
qed

section \<open>Properties\<close>

text \<open>C10: A number that \<open>BN_marshal_asn1\<close> writes is read back from its encoding by \<open>BN_parse_asn1_unsigned\<close>, whatever
  follows; that function accepts only the minimal DER encodings of non-negative numbers and consumes nothing
  else, so that the encoding of a number is unique.  A negative number is refused.\<close>

theorem BN_asn1_roundtrip:
  assumes "ready d s" "bn_ok a" "BN_marshal_asn1 mem_ok uninit d a s = (True, s')" "bn_fit ret"
  shows "ready d s' \<and> 0 \<le> bn_val a \<and> (\<exists>e. cbb_out s' = cbb_out s @ e \<and>
      (can_grow alloc ret (bn_width a + 1) \<longrightarrow>
        (\<exists>b. BN_parse_asn1_unsigned alloc (e @ r) ret = (True, b, r) \<and> bn_ok b \<and> bn_val b = bn_val a))) \<and>
    (BN_parse_asn1_unsigned alloc cbs ret = (True, b, rest) \<longrightarrow>
      bn_ok b \<and> 0 \<le> bn_val b \<and> cbs = der_element CBS_ASN1_INTEGER (int_octets (bn_val b)) @ rest)"
proof -
  have fa: "bn_fit a" using assms(2) by (simp add: bn_ok_def)
  note m = BN_marshal_asn1_ok [OF assms(3) fa]
  let ?e = "der_element CBS_ASN1_INTEGER (int_octets (bn_val a))"
  from m ready_cbb_ok [OF assms(1)] have w: "\<not> bn_neg a" "ready d s'" "cbb_out s' = cbb_out s @ ?e"
    "length (int_octets (bn_val a)) \<le> 0xfffffffe" by simp_all
  have nn: "0 \<le> bn_val a" using w(1) by (simp add: bn_val_def)
  have "length (int_octets (bn_val a)) \<le> Suc (8 * bn_width a)"
  proof (rule length_int_octets)
    show "- (2 ^ (8 * (8 * bn_width a) + 7)) \<le> bn_val a" using nn by (rule order_trans [rotated]) simp
    have "bn_abs a < 2 ^ (64 * bn_width a)" by (rule bn_abs_less [OF fa])
    also have "\<dots> \<le> 2 ^ (64 * bn_width a + 7)" by (intro power_increasing) simp_all
    finally have "int (bn_abs a) < int (2 ^ (64 * bn_width a + 7))" by (simp only: of_nat_less_iff)
    then show "bn_val a < 2 ^ (8 * (8 * bn_width a) + 7)" using w(1) by (simp add: bn_val_def)
  qed
  then have k: "(length (int_octets (bn_val a)) + 7) div 8 \<le> bn_width a + 1" by presburger
  have "\<exists>b. BN_parse_asn1_unsigned alloc (?e @ r) ret = (True, b, r) \<and> bn_ok b \<and> bn_val b = bn_val a"
    if "can_grow alloc ret (bn_width a + 1)"
  proof -
    have "can_grow alloc ret ((length (int_octets (bn_val a)) + 7) div 8)" using that k by (auto simp: can_grow_def)
    from BN_parse_asn1_unsigned_complete [OF assms(4) nn _ this, of r] w(4)
    show ?thesis using BN_parse_asn1_unsigned_sound [OF _ assms(4)] by fastforce
  qed
  moreover have "bn_ok b \<and> 0 \<le> bn_val b \<and> cbs = der_element CBS_ASN1_INTEGER (int_octets (bn_val b)) @ rest"
    if "BN_parse_asn1_unsigned alloc cbs ret = (True, b, rest)"
    using BN_parse_asn1_unsigned_sound [OF that assms(4)] by (simp add: bn_val_def)
  ultimately show ?thesis using w(2,3) nn by blast
qed


theorem BN_asn1_roundtrip_witness:
  "\<exists>e. cbb_out (snd (BN_marshal_asn1 (\<lambda>_. True) [] 0 \<lparr>bn_d = [300, 0], bn_width = 2, bn_neg = False, bn_static = False\<rparr> fresh_cbb)) =
     cbb_out fresh_cbb @ e \<and>
   fst (BN_parse_asn1_unsigned (\<lambda>_. Some (\<lambda>_. 0)) (e @ [7]) BN_init) \<and>
   bn_val (fst (snd (BN_parse_asn1_unsigned (\<lambda>_. Some (\<lambda>_. 0)) (e @ [7]) BN_init))) = 300"
proof -
  let ?a = "\<lparr>bn_d = [300, 0], bn_width = 2, bn_neg = False, bn_static = False\<rparr>"
  have a: "bn_ok ?a" "bn_val ?a = 300" "bn_width ?a = 2"
    by (simp_all add: bn_ok_def bn_fit_def BN_MAX_WORDS_def bn_val_def bn_abs_def bn_used_def)
  have r: "bn_fit BN_init" "can_grow (\<lambda>_. Some (\<lambda>_. 0)) BN_init (bn_width ?a + 1)"
    by (simp_all add: bn_fit_def BN_init_def can_grow_def BN_MAX_WORDS_def)
  have "fst (BN_marshal_asn1 (\<lambda>_. True) [] 0 ?a fresh_cbb)" by code_simp
  then obtain s' where m: "BN_marshal_asn1 (\<lambda>_. True) [] 0 ?a fresh_cbb = (True, s')" by (metis prod.collapse)
  from conjunct1 [OF conjunct2 [OF conjunct2 [OF BN_asn1_roundtrip [OF ready_fresh_cbb a(1) m r(1), of "\<lambda>_. Some (\<lambda>_. 0)" "[7]"]]]]
    r(2) a(2) obtain e b where "cbb_out s' = cbb_out fresh_cbb @ e"
    "BN_parse_asn1_unsigned (\<lambda>_. Some (\<lambda>_. 0)) (e @ [7]) BN_init = (True, b, [7])" "bn_val b = 300" by auto
  with m show ?thesis by (intro exI [of _ e]) simp
qed

end
