(* ===== verification/Unicode.thy ===== *)
theory Unicode
  imports Cbb_Spec
begin

text \<open>
  \<open>crypto/bytestring/unicode.c\<close>: code points in UTF-8, Latin-1, UCS-2 and UTF-32, read from a
  \<open>CBS\<close> and written to a \<open>CBB\<close>.  The lemmas show that the UTF-8 reader accepts exactly the
  shortest encodings of valid code points and that it reads back what the writer produces.
\<close>

section \<open>Code points\<close>

definition is_valid_code_point :: "u32 \<Rightarrow> bool" where
  "is_valid_code_point v =
     (if v > 0x10ffff \<or> v AND 0xfffe = 0xfffe \<or> (v \<ge> 0xfdd0 \<and> v \<le> 0xfdef)
         \<or> (v \<ge> 0xd800 \<and> v \<le> 0xdfff)
      then False else True)"

definition BOTTOM_BITS :: "nat \<Rightarrow> byte" where
  "BOTTOM_BITS n = push_bit n 1 - 1"

definition TOP_BITS :: "nat \<Rightarrow> byte" where
  "TOP_BITS n = NOT (BOTTOM_BITS (8 - n))"

section \<open>Readers\<close>

text \<open>The loop over the \<open>n\<close> continuation bytes.\<close>

fun utf8_tail :: "nat \<Rightarrow> u32 \<Rightarrow> u32 parser" where
  "utf8_tail 0 v cbs = (Some v, cbs)"
| "utf8_tail (Suc n) v cbs =
     (case CBS_get_u8 cbs of
        (None, cbs) \<Rightarrow> (None, cbs)
      | (Some c, cbs) \<Rightarrow>
          if c AND TOP_BITS 2 \<noteq> TOP_BITS 1 then (None, cbs)
          else utf8_tail n (push_bit 6 v OR ucast (c AND BOTTOM_BITS 6)) cbs)"

definition cbs_get_utf8 :: "u32 parser" where
  "cbs_get_utf8 cbs =
     (case CBS_get_u8 cbs of
        (None, cbs) \<Rightarrow> (None, cbs)
      | (Some c, cbs) \<Rightarrow>
          if c \<le> 0x7f then (Some (ucast c), cbs)
          else
            (let continue = (\<lambda>v len lower_bound.
               case utf8_tail len v cbs of
                 (None, cbs) \<Rightarrow> (None, cbs)
               | (Some v, cbs) \<Rightarrow>
                   if \<not> is_valid_code_point v \<or> v < lower_bound then (None, cbs) else (Some v, cbs))
             in if c AND TOP_BITS 3 = TOP_BITS 2 then continue (ucast (c AND BOTTOM_BITS 5)) 1 0x80
                else if c AND TOP_BITS 4 = TOP_BITS 3 then continue (ucast (c AND BOTTOM_BITS 4)) 2 0x800
                else if c AND TOP_BITS 5 = TOP_BITS 4 then continue (ucast (c AND BOTTOM_BITS 3)) 3 0x10000
                else (None, cbs)))"

definition cbs_get_latin1 :: "u32 parser" where
  "cbs_get_latin1 cbs =
     (case CBS_get_u8 cbs of (None, cbs) \<Rightarrow> (None, cbs) | (Some c, cbs) \<Rightarrow> (Some (ucast c), cbs))"

definition cbs_get_ucs2_be :: "u32 parser" where
  "cbs_get_ucs2_be cbs =
     (case CBS_get_u16 cbs of
        (None, cbs) \<Rightarrow> (None, cbs)
      | (Some c, cbs) \<Rightarrow> if \<not> is_valid_code_point (ucast c) then (None, cbs) else (Some (ucast c), cbs))"

definition cbs_get_utf32_be :: "u32 parser" where
  "cbs_get_utf32_be cbs =
     (case CBS_get_u32 cbs of
        (None, cbs) \<Rightarrow> (None, cbs)
      | (Some c, cbs) \<Rightarrow> if is_valid_code_point c then (Some c, cbs) else (None, cbs))"

section \<open>Writers\<close>

definition cbb_get_utf8_len :: "u32 \<Rightarrow> nat" where
  "cbb_get_utf8_len u =
     (if u \<le> 0x7f then 1 else if u \<le> 0x7ff then 2 else if u \<le> 0xffff then 3 else 4)"

definition cbb_add_utf8 :: "(u64 \<Rightarrow> bool) \<Rightarrow> nat \<Rightarrow> u32 \<Rightarrow> cbb \<Rightarrow> bool \<times> cbb" where
  "cbb_add_utf8 mem_ok d u cbb =
     (let low6 = (\<lambda>k. TOP_BITS 1 OR ucast (drop_bit k u) AND BOTTOM_BITS 6)
      in if \<not> is_valid_code_point u then (False, cbb)
         else if u \<le> 0x7f then CBB_add_u8 mem_ok d (ucast u) cbb
         else if u \<le> 0x7ff then
           all_ok [CBB_add_u8 mem_ok d (TOP_BITS 2 OR ucast (drop_bit 6 u)),
                   CBB_add_u8 mem_ok d (low6 0)] cbb
         else if u \<le> 0xffff then
           all_ok [CBB_add_u8 mem_ok d (TOP_BITS 3 OR ucast (drop_bit 12 u)),
                   CBB_add_u8 mem_ok d (low6 6), CBB_add_u8 mem_ok d (low6 0)] cbb
         else if u \<le> 0x10ffff then
           all_ok [CBB_add_u8 mem_ok d (TOP_BITS 4 OR ucast (drop_bit 18 u)),
                   CBB_add_u8 mem_ok d (low6 12), CBB_add_u8 mem_ok d (low6 6),
                   CBB_add_u8 mem_ok d (low6 0)] cbb
         else (False, cbb))"

definition cbb_add_latin1 :: "(u64 \<Rightarrow> bool) \<Rightarrow> nat \<Rightarrow> u32 \<Rightarrow> cbb \<Rightarrow> bool \<times> cbb" where
  "cbb_add_latin1 mem_ok d u cbb =
     (if u \<le> 0xff then CBB_add_u8 mem_ok d (ucast u) cbb else (False, cbb))"

definition cbb_add_ucs2_be :: "(u64 \<Rightarrow> bool) \<Rightarrow> nat \<Rightarrow> u32 \<Rightarrow> cbb \<Rightarrow> bool \<times> cbb" where
  "cbb_add_ucs2_be mem_ok d u cbb =
     (if u \<le> 0xffff \<and> is_valid_code_point u then CBB_add_u16 mem_ok d (ucast u) cbb else (False, cbb))"

definition cbb_add_utf32_be :: "(u64 \<Rightarrow> bool) \<Rightarrow> nat \<Rightarrow> u32 \<Rightarrow> cbb \<Rightarrow> bool \<times> cbb" where
  "cbb_add_utf32_be mem_ok d u cbb =
     (if is_valid_code_point u then CBB_add_u32 mem_ok d u cbb else (False, cbb))"

section \<open>The shortest UTF-8 encoding\<close>

definition utf8 :: "nat \<Rightarrow> bytes" where
  "utf8 n =
     (if n < 0x80 then [word_of_nat n]
      else if n < 0x800 then [word_of_nat (0xc0 + n div 64), word_of_nat (0x80 + n mod 64)]
      else if n < 0x10000 then
        [word_of_nat (0xe0 + n div 4096), word_of_nat (0x80 + n div 64 mod 64), word_of_nat (0x80 + n mod 64)]
      else [word_of_nat (0xf0 + n div 262144), word_of_nat (0x80 + n div 4096 mod 64),
            word_of_nat (0x80 + n div 64 mod 64), word_of_nat (0x80 + n mod 64)])"

lemma unat_byte_and_not_mask:
  assumes "n \<le> 8"
  shows "unat ((b :: byte) AND NOT (mask n)) = 2 ^ n * (unat b div 2 ^ n)"
proof -
  have "b AND NOT (mask n) = push_bit n (drop_bit n b)"
    by (rule bit_eqI) (auto simp: bit_simps dest: bit_imp_le_length)
  then have "unat (b AND NOT (mask n)) = take_bit 8 (push_bit n (unat (drop_bit n b)))"
    by (simp add: unsigned_push_bit_eq)
  also have "\<dots> = take_bit 8 (2 ^ n * (unat b div 2 ^ n))"
    by (simp only: unat_drop_bit push_bit_eq_mult mult.commute)
  also have "\<dots> = 2 ^ n * (unat b div 2 ^ n)"
  proof -
    have "2 ^ n * (unat b div 2 ^ n) \<le> unat b" by (rule times_div_less_eq_dividend)
    also have "\<dots> < 2 ^ 8" by simp
    finally show ?thesis by (rule take_bit_nat_eq_self)
  qed
  finally show ?thesis .
qed

lemma byte_high_tests:
  fixes c :: byte
  shows "c AND TOP_BITS 2 = TOP_BITS 1 \<longleftrightarrow> unat c div 64 = 2"
    and "c AND TOP_BITS 3 = TOP_BITS 2 \<longleftrightarrow> unat c div 32 = 6"
    and "c AND TOP_BITS 4 = TOP_BITS 3 \<longleftrightarrow> unat c div 16 = 14"
    and "c AND TOP_BITS 5 = TOP_BITS 4 \<longleftrightarrow> unat c div 8 = 30"
  using unat_byte_and_not_mask [of 6 c] unat_byte_and_not_mask [of 5 c]
    unat_byte_and_not_mask [of 4 c] unat_byte_and_not_mask [of 3 c]
  by (simp_all add: word_nat_lift TOP_BITS_def BOTTOM_BITS_def mask_eq_exp_minus_1)

lemma byte_low_fields:
  fixes c :: byte
  shows "unat (c AND BOTTOM_BITS 6) = unat c mod 64" "unat (c AND BOTTOM_BITS 5) = unat c mod 32"
    "unat (c AND BOTTOM_BITS 4) = unat c mod 16" "unat (c AND BOTTOM_BITS 3) = unat c mod 8"
  using byte_and_low [of c] by (simp_all add: BOTTOM_BITS_def)

definition val64 :: "nat \<Rightarrow> bytes \<Rightarrow> nat" where
  "val64 v cs = foldl (\<lambda>a c. 64 * a + unat c mod 64) v cs"

lemma val64_simps [simp]:
  "val64 v [] = v"
  "val64 v (c # cs) = val64 (64 * v + unat c mod 64) cs"
  by (simp_all add: val64_def)

lemma utf8_tail_Cons:
  "utf8_tail (Suc n) v (c # cs) =
    (if unat c div 64 = 2 then utf8_tail n (push_bit 6 v OR ucast (c AND BOTTOM_BITS 6)) cs else (None, cs))"
  by (simp only: utf8_tail.simps CBS_get_u8_simps prod.case option.case byte_high_tests if_not_P if_P split: if_split)
    blast

lemma utf8_tail_iff:
  "(unat v + 1) * 64 ^ n \<le> 2 ^ 32 \<Longrightarrow>
    utf8_tail n v cbs = (Some w, r) \<longleftrightarrow>
      (\<exists>cs. cbs = cs @ r \<and> length cs = n \<and> (\<forall>c \<in> set cs. unat c div 64 = 2) \<and> unat w = val64 (unat v) cs)"
proof (induction n arbitrary: v cbs)
  case 0
  then show ?case by (auto simp: word_nat_lift)
next
  case (Suc n)
  show ?case
  proof (cases cbs)
    case Nil
    then show ?thesis by simp
  next
    case (Cons c cs)
    let ?v = "push_bit 6 v OR ucast (c AND BOTTOM_BITS 6) :: u32"
    have lt: "unat (ucast (c AND BOTTOM_BITS 6) :: u32) = unat c mod 64"
      by (simp only: unat_ucast_byte byte_low_fields)
    have m: "unat c mod 64 < 64" by simp
    have "(unat v + 1) * 64 * 1 \<le> (unat v + 1) * 64 * 64 ^ n" by (intro mult_le_mono2) simp
    then have "(unat v + 1) * 64 \<le> (unat v + 1) * 64 ^ Suc n"
      by (simp add: algebra_simps)
    with Suc.prems have v64: "(unat v + 1) * 64 \<le> 2 ^ 32" by (rule le_trans [rotated])
    have "64 * unat v + unat c mod 64 < (unat v + 1) * 64" using m by simp
    with v64 have "64 * unat v + unat c mod 64 < 2 ^ 32" by (rule less_le_trans [rotated])
    then have u: "unat ?v = 64 * unat v + unat c mod 64"
      using unat_push_bit_or [of "ucast (c AND BOTTOM_BITS 6) :: u32" 6 v, unfolded lt] m by simp
    have "(unat ?v + 1) * 64 ^ n \<le> ((unat v + 1) * 64) * 64 ^ n"
      unfolding u using m by (intro mult_le_mono1) simp
    also have "\<dots> = (unat v + 1) * 64 ^ Suc n" by (simp add: algebra_simps)
    finally have "(unat ?v + 1) * 64 ^ n \<le> 2 ^ 32" using Suc.prems by (rule le_trans)
    note IH = Suc.IH [OF this]
    show ?thesis
    proof (cases "unat c div 64 = 2")
      case True
      then have e: "utf8_tail (Suc n) v (c # cs) = utf8_tail n ?v cs"
        by (simp only: utf8_tail_Cons refl if_True)
      show ?thesis
        unfolding Cons e IH u
        by (auto simp: Cons_eq_append_conv True length_Suc_conv)
    next
      case False
      then show ?thesis
        unfolding Cons utf8_tail_Cons by (auto simp: Cons_eq_append_conv length_Suc_conv)
    qed
  qed
qed


text \<open>What Unicode calls a scalar value, without the non-characters.\<close>

definition code_point :: "nat \<Rightarrow> bool" where
  "code_point n \<longleftrightarrow> n \<le> 0x10ffff \<and> n \<notin> {0xd800..0xdfff} \<and> n \<notin> {0xfdd0..0xfdef} \<and>
     n mod 0x10000 < 0xfffe"

lemma and_fffe: "v AND 0xfffe = 0xfffe \<longleftrightarrow> 0xfffe \<le> unat (v :: u32) mod 0x10000"
proof -
  let ?w = "push_bit 1 (drop_bit 1 (take_bit 16 v))"
  have m: "(0xfffe :: u32) = push_bit 1 (mask 15)" by (simp add: mask_eq_exp_minus_1)
  have "v AND push_bit 1 (mask 15) = ?w"
    by (rule bit_word_eqI)
      (simp only: bit_and_iff bit_push_bit_iff bit_drop_bit_eq bit_take_bit_iff bit_mask_iff
        possible_bit_word o_def, auto)
  moreover have "unat ?w = 2 * (unat v mod 0x10000 div 2)"
    by (simp add: push_bit_eq_mult unat_word_ariths unat_drop_bit unsigned_take_bit_eq take_bit_eq_mod drop_bit_eq_div)
  moreover have "unat (0xfffe :: u32) = 0xfffe" by simp
  moreover have "2 * (x div 2) = 0xfffe \<longleftrightarrow> 0xfffe \<le> x" if "x < 0x10000" for x :: nat
    using that by auto
  ultimately show ?thesis unfolding word_unat_eq_iff m [symmetric] by simp
qed

lemma is_valid_code_point_iff: "is_valid_code_point u \<longleftrightarrow> code_point (unat u)"
  by (auto simp: is_valid_code_point_def code_point_def and_fffe word_less_nat_alt word_le_nat_alt)

lemma low_code_point_valid: "u \<le> 0x7f \<Longrightarrow> is_valid_code_point u"
proof -
  assume u: "u \<le> 0x7f"
  have "u AND 0xfffe \<noteq> 0xfffe"
  proof
    assume "u AND 0xfffe = 0xfffe"
    moreover have "u AND 0xfffe \<le> u" by (rule word_and_le2)
    ultimately have "(0xfffe :: u32) \<le> 0x7f" using u by (metis order_trans)
    then show False by simp
  qed
  with u show ?thesis by (simp add: is_valid_code_point_def word_le_nat_alt word_less_nat_alt)
qed

lemma valid_code_point_bound: "is_valid_code_point u \<Longrightarrow> unat u \<le> 0x10ffff"
  by (auto simp: is_valid_code_point_def word_less_nat_alt split: if_splits)

lemma utf8_tail_small:
  assumes "unat v \<le> 31" "n \<le> 3"
  shows "utf8_tail n v cbs = (Some w, r) \<longleftrightarrow>
      (\<exists>cs. cbs = cs @ r \<and> length cs = n \<and> (\<forall>c \<in> set cs. unat c div 64 = 2) \<and> unat w = val64 (unat v) cs)"
proof (rule utf8_tail_iff)
  have "(unat v + 1) * 64 ^ n \<le> 32 * 64 ^ 3"
    using assms by (intro mult_le_mono power_increasing) simp_all
  then show "(unat v + 1) * 64 ^ n \<le> 2 ^ 32" by simp
qed

lemma field_values:
  fixes c :: nat
  shows "c div 32 = 6 \<Longrightarrow> c = 192 + c mod 32" "c div 16 = 14 \<Longrightarrow> c = 224 + c mod 16"
    "c div 8 = 30 \<Longrightarrow> c = 240 + c mod 8" "c div 64 = 2 \<Longrightarrow> c = 128 + c mod 64"
  using mult_div_mod_eq [of 32 c] mult_div_mod_eq [of 16 c] mult_div_mod_eq [of 8 c]
    mult_div_mod_eq [of 64 c] by simp_all

text \<open>The reader on the three multi-byte forms.\<close>

lemma cbs_get_utf8_cases:
  fixes c :: byte
  defines "multi \<equiv> \<lambda>v0 len lower cs u r. \<exists>ds. cs = ds @ r \<and> length ds = len \<and> (\<forall>d \<in> set ds. unat d div 64 = 2)
      \<and> unat u = val64 v0 ds \<and> is_valid_code_point u \<and> lower \<le> unat u"
  shows "cbs_get_utf8 [] = (None, [])"
    "unat c \<le> 0x7f \<Longrightarrow> cbs_get_utf8 (c # cs) = (Some (ucast c), cs)"
    "\<not> unat c \<le> 0x7f \<Longrightarrow> cbs_get_utf8 (c # cs) = (Some u, r) \<longleftrightarrow>
      (unat c div 32 = 6 \<and> multi (unat c mod 32) 1 0x80 cs u r) \<or>
      (unat c div 32 \<noteq> 6 \<and> unat c div 16 = 14 \<and> multi (unat c mod 16) 2 0x800 cs u r) \<or>
      (unat c div 32 \<noteq> 6 \<and> unat c div 16 \<noteq> 14 \<and> unat c div 8 = 30 \<and> multi (unat c mod 8) 3 0x10000 cs u r)"
proof -
  show "cbs_get_utf8 [] = (None, [])" by (simp add: cbs_get_utf8_def)
  show "unat c \<le> 0x7f \<Longrightarrow> cbs_get_utf8 (c # cs) = (Some (ucast c), cs)"
    by (simp add: cbs_get_utf8_def word_le_nat_alt)
  assume c: "\<not> unat c \<le> 0x7f"
  have cont: "(case utf8_tail len v cs of (None, cbs) \<Rightarrow> (None, cbs)
       | (Some v, cbs) \<Rightarrow> if \<not> is_valid_code_point v \<or> v < lower then (None, cbs) else (Some v, cbs)) = (Some u, r)
     \<longleftrightarrow> multi (unat v) len (unat lower) cs u r" if "unat v \<le> 31" "len \<le> 3" for v len lower
  proof -
    have "(case utf8_tail len v cs of (None, cbs) \<Rightarrow> (None, cbs)
       | (Some v, cbs) \<Rightarrow> if \<not> is_valid_code_point v \<or> v < lower then (None, cbs) else (Some v, cbs)) = (Some u, r)
      \<longleftrightarrow> utf8_tail len v cs = (Some u, r) \<and> is_valid_code_point u \<and> lower \<le> u"
      by (auto split: prod.splits option.splits)
    then show ?thesis
      unfolding utf8_tail_small [OF that] multi_def word_le_nat_alt by blast
  qed
  have v: "unat (ucast (c AND BOTTOM_BITS 5) :: u32) = unat c mod 32"
    "unat (ucast (c AND BOTTOM_BITS 4) :: u32) = unat c mod 16"
    "unat (ucast (c AND BOTTOM_BITS 3) :: u32) = unat c mod 8"
    by (simp_all only: unat_ucast_byte byte_low_fields)
  have m: "unat c mod 32 \<le> 31" "unat c mod 16 \<le> 31" "unat c mod 8 \<le> 31"
    using mod_less_divisor [of 32 "unat c"] mod_less_divisor [of 16 "unat c"]
      mod_less_divisor [of 8 "unat c"] by linarith+
  note k = cont [of "ucast (c AND BOTTOM_BITS 5)" 1 "0x80", unfolded v, OF m(1)]
    cont [of "ucast (c AND BOTTOM_BITS 4)" 2 "0x800", unfolded v, OF m(2)]
    cont [of "ucast (c AND BOTTOM_BITS 3)" 3 "0x10000", unfolded v, OF m(3)]
  have c': "\<not> c \<le> 0x7f" using c by (simp add: word_le_nat_alt)
  show "cbs_get_utf8 (c # cs) = (Some u, r) \<longleftrightarrow>
      (unat c div 32 = 6 \<and> multi (unat c mod 32) 1 0x80 cs u r) \<or>
      (unat c div 32 \<noteq> 6 \<and> unat c div 16 = 14 \<and> multi (unat c mod 16) 2 0x800 cs u r) \<or>
      (unat c div 32 \<noteq> 6 \<and> unat c div 16 \<noteq> 14 \<and> unat c div 8 = 30 \<and> multi (unat c mod 8) 3 0x10000 cs u r)"
    using k unfolding cbs_get_utf8_def byte_high_tests Let_def CBS_get_u8_simps prod.case option.case if_not_P [OF c']
    by auto
qed


lemma length_2_3:
  "length ds = 1 \<longleftrightarrow> (\<exists>a. ds = [a])" "length ds = 2 \<longleftrightarrow> (\<exists>a b. ds = [a, b])"
  "length ds = 3 \<longleftrightarrow> (\<exists>a b c. ds = [a, b, c])"
  by (auto simp: length_Suc_conv numeral_eq_Suc)

lemma div_mod_64: "(q :: nat) < 64 \<Longrightarrow> (64 * p + q) div 64 = p \<and> (64 * p + q) mod 64 = q"
  by simp

lemma div_4096: "(n :: nat) div 4096 = n div 64 div 64" "n div 262144 = n div 64 div 64 div 64"
  by (simp_all add: div_mult2_eq [symmetric])

lemma two_bytes_nat:
  fixes c d n :: nat
  assumes "c div 32 = 6" "d div 64 = 2" "n = 64 * (c mod 32) + d mod 64"
  shows "c = 0xc0 + n div 64 \<and> d = 0x80 + n mod 64 \<and> n < 0x800"
proof -
  obtain p q where p: "c mod 32 = p" "p < 32" and q: "d mod 64 = q" "q < 64" by simp
  from field_values(1) [OF assms(1)] field_values(4) [OF assms(2)] p q
  have cd: "c = 192 + p" "d = 128 + q" by simp_all
  from assms(3) have n: "n = 64 * p + q" by (simp only: p q)
  from div_mod_64 [OF q(2), of p] cd p(2) q(2) show ?thesis unfolding n by simp
qed

lemma three_bytes_nat:
  fixes c d e n :: nat
  assumes "c div 16 = 14" "d div 64 = 2" "e div 64 = 2" "n = 64 * (64 * (c mod 16) + d mod 64) + e mod 64"
  shows "c = 0xe0 + n div 4096 \<and> d = 0x80 + n div 64 mod 64 \<and> e = 0x80 + n mod 64 \<and> n < 0x10000"
proof -
  obtain p q s where p: "c mod 16 = p" "p < 16" and q: "d mod 64 = q" "q < 64" and s: "e mod 64 = s" "s < 64"
    by simp
  from field_values(2) [OF assms(1)] field_values(4) [OF assms(2)] field_values(4) [OF assms(3)] p q s
  have cd: "c = 224 + p" "d = 128 + q" "e = 128 + s" by simp_all
  from assms(4) have n: "n = 64 * (64 * p + q) + s" by (simp only: p q s)
  from div_mod_64 [OF q(2), of p] div_mod_64 [OF s(2), of "64 * p + q"] cd p(2) q(2) s(2)
  show ?thesis unfolding n div_4096 by simp
qed

lemma four_bytes_nat:
  fixes c d e f n :: nat
  assumes "c div 8 = 30" "d div 64 = 2" "e div 64 = 2" "f div 64 = 2"
    "n = 64 * (64 * (64 * (c mod 8) + d mod 64) + e mod 64) + f mod 64"
  shows "c = 0xf0 + n div 262144 \<and> d = 0x80 + n div 4096 mod 64 \<and> e = 0x80 + n div 64 mod 64 \<and> f = 0x80 + n mod 64"
proof -
  obtain p q s w where p: "c mod 8 = p" "p < 8" and q: "d mod 64 = q" "q < 64" and s: "e mod 64 = s" "s < 64"
    and w: "f mod 64 = w" "w < 64" by simp
  from field_values(3) [OF assms(1)] field_values(4) [OF assms(2)] field_values(4) [OF assms(3)]
    field_values(4) [OF assms(4)] p q s w
  have cd: "c = 240 + p" "d = 128 + q" "e = 128 + s" "f = 128 + w" by simp_all
  from assms(5) have n: "n = 64 * (64 * (64 * p + q) + s) + w" by (simp only: p q s w)
  from div_mod_64 [OF q(2), of p] div_mod_64 [OF s(2), of "64 * p + q"]
    div_mod_64 [OF w(2), of "64 * (64 * p + q) + s"] cd
  show ?thesis unfolding n div_4096 by simp
qed

lemma tails_unfolded:
  fixes V :: bool
  shows "(\<exists>ds. cs = ds @ r \<and> length ds = 1 \<and> (\<forall>d \<in> set ds. P d) \<and> n = val64 v ds \<and> V) \<longleftrightarrow>
      (\<exists>d. cs = d # r \<and> P d \<and> n = 64 * v + unat d mod 64 \<and> V)"
    "(\<exists>ds. cs = ds @ r \<and> length ds = 2 \<and> (\<forall>d \<in> set ds. P d) \<and> n = val64 v ds \<and> V) \<longleftrightarrow>
      (\<exists>d e. cs = d # e # r \<and> P d \<and> P e \<and> n = 64 * (64 * v + unat d mod 64) + unat e mod 64 \<and> V)"
    "(\<exists>ds. cs = ds @ r \<and> length ds = 3 \<and> (\<forall>d \<in> set ds. P d) \<and> n = val64 v ds \<and> V) \<longleftrightarrow>
      (\<exists>d e f. cs = d # e # f # r \<and> P d \<and> P e \<and> P f \<and>
        n = 64 * (64 * (64 * v + unat d mod 64) + unat e mod 64) + unat f mod 64 \<and> V)"
  unfolding length_2_3 by fastforce+

lemma cbs_get_utf8_sound:
  assumes "cbs_get_utf8 cbs = (Some u, r)"
  shows "is_valid_code_point u \<and> cbs = utf8 (unat u) @ r"
proof (cases cbs)
  case Nil
  with assms cbs_get_utf8_cases(1) show ?thesis by simp
next
  case (Cons c cs)
  show ?thesis
  proof (cases "unat c \<le> 0x7f")
    case True
    with assms Cons cbs_get_utf8_cases(2) [OF True, of cs] have u: "u = ucast c" "r = cs" by simp_all
    then have "u \<le> 0x7f" "unat u = unat c" using True by (simp_all add: word_le_nat_alt)
    with True Cons u(2) show ?thesis
      using low_code_point_valid [of u] by (simp add: utf8_def)
  next
    case False
    from assms [unfolded Cons cbs_get_utf8_cases(3) [OF False] tails_unfolded]
    consider (two) d where "unat c div 32 = 6" "cs = d # r" "unat d div 64 = 2"
        "unat u = 64 * (unat c mod 32) + unat d mod 64" "is_valid_code_point u" "0x80 \<le> unat u"
      | (three) d e where "unat c div 16 = 14" "cs = d # e # r" "unat d div 64 = 2" "unat e div 64 = 2"
        "unat u = 64 * (64 * (unat c mod 16) + unat d mod 64) + unat e mod 64"
        "is_valid_code_point u" "0x800 \<le> unat u"
      | (four) d e f where "unat c div 8 = 30" "cs = d # e # f # r" "unat d div 64 = 2" "unat e div 64 = 2" "unat f div 64 = 2"
        "unat u = 64 * (64 * (64 * (unat c mod 8) + unat d mod 64) + unat e mod 64) + unat f mod 64"
        "is_valid_code_point u" "0x10000 \<le> unat u"
      by blast
    then show ?thesis
    proof cases
      case two
      note n = two_bytes_nat [OF two(1,3,4)]
      then have "word_of_nat (0xc0 + unat u div 64) = c" "word_of_nat (0x80 + unat u mod 64) = d"
        by (intro byte_of_nat_eqI; simp only:)+
      with n two(2,5,6) Cons show ?thesis by (simp add: utf8_def del: of_nat_add)
    next
      case three
      note n = three_bytes_nat [OF three(1,3,4,5)]
      then have "word_of_nat (0xe0 + unat u div 4096) = c" "word_of_nat (0x80 + unat u div 64 mod 64) = d"
          "word_of_nat (0x80 + unat u mod 64) = e"
        by (intro byte_of_nat_eqI; simp only:)+
      with n three(2,6,7) Cons show ?thesis by (simp add: utf8_def del: of_nat_add)
    next
      case four
      note n = four_bytes_nat [OF four(1,3,4,5,6)]
      then have "word_of_nat (0xf0 + unat u div 262144) = c" "word_of_nat (0x80 + unat u div 4096 mod 64) = d"
          "word_of_nat (0x80 + unat u div 64 mod 64) = e" "word_of_nat (0x80 + unat u mod 64) = f"
        by (intro byte_of_nat_eqI; simp only:)+
      with four(2,7,8) Cons show ?thesis by (simp add: utf8_def del: of_nat_add)
    qed
  qed
qed


lemma nat_fields:
  fixes n :: nat
  shows "n < 0x800 \<Longrightarrow> n div 64 < 32" "n < 0x10000 \<Longrightarrow> n div 4096 < 16" "n \<le> 0x10ffff \<Longrightarrow> n div 262144 < 5"
  by (simp_all add: div_less_iff_less_mult)

lemma div_mult_sum: "k < m \<Longrightarrow> (m * q + k) div m = q \<and> (m * q + k) mod (m :: nat) = k"
  by simp

lemma div_of_sum:
  fixes k :: nat
  shows "k < 32 \<Longrightarrow> (0xc0 + k) div 32 = 6 \<and> (0xc0 + k) mod 32 = k"
    "k < 16 \<Longrightarrow> (0xe0 + k) div 32 = 7 \<and> (0xe0 + k) div 16 = 14 \<and> (0xe0 + k) mod 16 = k"
    "k < 5 \<Longrightarrow> (0xf0 + k) div 32 = 7 \<and> (0xf0 + k) div 16 = 15 \<and> (0xf0 + k) div 8 = 30 \<and> (0xf0 + k) mod 8 = k"
    "k < 64 \<Longrightarrow> (0x80 + k) div 64 = 2 \<and> (0x80 + k) mod 64 = k"
  using div_mult_sum [of k 32 6] div_mult_sum [of k 32 7] div_mult_sum [of k 16 14]
    div_mult_sum [of k 16 15] div_mult_sum [of k 8 30] div_mult_sum [of "16 + k" 32 7] div_mult_sum [of k 64 2]
  by simp_all

lemma continuation_byte:
  fixes m :: nat
  shows "unat (word_of_nat (0x80 + m mod 64) :: byte) = 0x80 + m mod 64"
    "unat (word_of_nat (0x80 + m mod 64) :: byte) div 64 = 2"
    "unat (word_of_nat (0x80 + m mod 64) :: byte) mod 64 = m mod 64"
proof -
  have m: "m mod 64 < 64" by simp
  show u: "unat (word_of_nat (0x80 + m mod 64) :: byte) = 0x80 + m mod 64"
    using m by (intro unat_byte_small) linarith
  show "unat (word_of_nat (0x80 + m mod 64) :: byte) div 64 = 2"
    "unat (word_of_nat (0x80 + m mod 64) :: byte) mod 64 = m mod 64"
    unfolding u using div_of_sum(4) [OF m] by blast+
qed

lemma multi_byte_start: "n div 32 = 6 \<or> n div 32 = 7 \<Longrightarrow> \<not> (n :: nat) \<le> 0x7f"
proof
  assume n: "n div 32 = 6 \<or> n div 32 = 7" and "n \<le> 0x7f"
  then have "n div 32 \<le> 0x7f div 32" by (intro div_le_mono)
  with n show False by simp
qed

lemma cbs_get_utf8_two:
  assumes "unat c div 32 = 6" "unat d div 64 = 2" "unat u = 64 * (unat c mod 32) + unat d mod 64"
    "is_valid_code_point u" "0x80 \<le> unat u"
  shows "cbs_get_utf8 (c # d # r) = (Some u, r)"
proof -
  have big: "\<not> unat c \<le> 0x7f" by (rule multi_byte_start) (simp only: assms(1) simp_thms)
  show ?thesis
    unfolding cbs_get_utf8_cases(3) [OF big] tails_unfolded
    by (rule disjI1) (use assms in blast)
qed

lemma cbs_get_utf8_three:
  assumes "unat c div 32 = 7" "unat c div 16 = 14" "unat d div 64 = 2" "unat e div 64 = 2"
    "unat u = 64 * (64 * (unat c mod 16) + unat d mod 64) + unat e mod 64"
    "is_valid_code_point u" "0x800 \<le> unat u"
  shows "cbs_get_utf8 (c # d # e # r) = (Some u, r)"
proof -
  have big: "\<not> unat c \<le> 0x7f" by (rule multi_byte_start) (simp only: assms(1) simp_thms)
  have "unat c div 32 \<noteq> 6" unfolding assms(1) by simp
  with assms(2-) show ?thesis
    unfolding cbs_get_utf8_cases(3) [OF big] tails_unfolded
    by (intro disjI2 disjI1 conjI exI [of _ d] exI [of _ e] refl)
qed

lemma cbs_get_utf8_four:
  assumes "unat c div 32 = 7" "unat c div 16 = 15" "unat c div 8 = 30" "unat d div 64 = 2" "unat e div 64 = 2"
    "unat f div 64 = 2"
    "unat u = 64 * (64 * (64 * (unat c mod 8) + unat d mod 64) + unat e mod 64) + unat f mod 64"
    "is_valid_code_point u" "0x10000 \<le> unat u"
  shows "cbs_get_utf8 (c # d # e # f # r) = (Some u, r)"
proof -
  have big: "\<not> unat c \<le> 0x7f" by (rule multi_byte_start) (simp only: assms(1) simp_thms)
  have "unat c div 32 \<noteq> 6" "unat c div 16 \<noteq> 14" unfolding assms(1,2) by simp_all
  with assms(3-) show ?thesis
    unfolding cbs_get_utf8_cases(3) [OF big] tails_unfolded
    by (intro disjI2 conjI exI [of _ d] exI [of _ e] exI [of _ f] refl)
qed

lemma cbs_get_utf8_complete:
  assumes "is_valid_code_point u"
  shows "cbs_get_utf8 (utf8 (unat u) @ r) = (Some u, r)"
proof -
  let ?n = "unat u"
  have max: "?n \<le> 0x10ffff" by (rule valid_code_point_bound [OF assms])
  consider "?n < 0x80" | "0x80 \<le> ?n" "?n < 0x800" | "0x800 \<le> ?n" "?n < 0x10000" | "0x10000 \<le> ?n"
    by linarith
  then show ?thesis
  proof cases
    case 1
    then have b: "unat (word_of_nat ?n :: byte) = ?n" by (intro unat_byte_small) simp
    then have "(ucast (word_of_nat ?n :: byte) :: u32) = u"
      by (simp only: word_nat_lift unat_ucast_byte)
    with 1 b cbs_get_utf8_cases(2) [of "word_of_nat ?n" r] show ?thesis by (simp add: utf8_def)
  next
    case 2
    note k = nat_fields(1) [OF 2(2)]
    let ?c = "word_of_nat (0xc0 + ?n div 64) :: byte"
    have c: "unat ?c = 0xc0 + ?n div 64" using k by (intro unat_byte_small) linarith
    have n: "?n = 64 * (?n div 64) + ?n mod 64" by simp
    have "cbs_get_utf8 (?c # [word_of_nat (0x80 + ?n mod 64)] @ r) = (Some u, r)"
      unfolding append_Cons append_Nil
      by (rule cbs_get_utf8_two) (simp_all only: c div_of_sum(1) [OF k] continuation_byte(2,3) n [symmetric] assms 2)
    then show ?thesis using 2 by (simp only: utf8_def if_False if_True not_less) simp
  next
    case 3
    note k = nat_fields(2) [OF 3(2)]
    let ?c = "word_of_nat (0xe0 + ?n div 4096) :: byte"
    have c: "unat ?c = 0xe0 + ?n div 4096" using k by (intro unat_byte_small) linarith
    have n: "?n = 64 * (64 * (?n div 4096) + ?n div 64 mod 64) + ?n mod 64" by (simp add: div_4096)
    have "cbs_get_utf8 (?c # [word_of_nat (0x80 + ?n div 64 mod 64), word_of_nat (0x80 + ?n mod 64)] @ r) = (Some u, r)"
      unfolding append_Cons append_Nil
      by (rule cbs_get_utf8_three) (simp_all only: c div_of_sum(2) [OF k] continuation_byte(2,3) n [symmetric] assms 3)
    then show ?thesis using 3 by (simp only: utf8_def if_False if_True not_less) simp
  next
    case 4
    note k = nat_fields(3) [OF max]
    let ?c = "word_of_nat (0xf0 + ?n div 262144) :: byte"
    have c: "unat ?c = 0xf0 + ?n div 262144" using k by (intro unat_byte_small) linarith
    have n: "?n = 64 * (64 * (64 * (?n div 262144) + ?n div 4096 mod 64) + ?n div 64 mod 64) + ?n mod 64"
      by (simp add: div_4096)
    have "cbs_get_utf8 (?c # [word_of_nat (0x80 + ?n div 4096 mod 64), word_of_nat (0x80 + ?n div 64 mod 64),
        word_of_nat (0x80 + ?n mod 64)] @ r) = (Some u, r)"
      unfolding append_Cons append_Nil
      by (rule cbs_get_utf8_four) (simp_all only: c div_of_sum(3) [OF k] continuation_byte(2,3) n [symmetric] assms 4)
    then show ?thesis using 4 by (simp only: utf8_def if_False if_True not_less) simp
  qed
qed

interpretation utf8_code: canonical_code "\<lambda>u. utf8 (unat u)" cbs_get_utf8 is_valid_code_point
  by unfold_locales (rule cbs_get_utf8_complete, assumption, rule cbs_get_utf8_sound)

section \<open>The writer\<close>

lemma or_disjoint_bytes:
  assumes "unat (hi :: byte) = 2 ^ k * q" "unat lo < 2 ^ k"
  shows "hi OR lo = word_of_nat (2 ^ k * q + unat lo)"
proof (cases "k < 8")
  case True
  have q: "q < 256"
  proof -
    have "q * 1 \<le> q * 2 ^ k" by (intro mult_le_mono2) simp
    then have "q \<le> unat hi" using assms(1) by (simp add: mult.commute)
    then show ?thesis using unat_byte_less [of hi] by linarith
  qed
  have uq: "unat (word_of_nat q :: byte) = q" using q by (rule unat_byte_small)
  have "unat (push_bit k (word_of_nat q :: byte)) = take_bit 8 (push_bit k q)"
    by (simp only: unsigned_push_bit_eq uq) simp
  also have "\<dots> = 2 ^ k * q"
    using unat_byte_less [of hi] assms(1) by (simp add: push_bit_eq_mult take_bit_nat_eq_self_iff mult.commute)
  finally have hi: "hi = push_bit k (word_of_nat q)" using assms(1) by (simp only: word_nat_lift)
  have "2 ^ k * q + unat lo < 2 ^ 8"
  proof -
    have "2 ^ k * q < 2 ^ k * 2 ^ (8 - k)"
      using unat_byte_less [of hi] assms(1) True by (simp flip: power_add)
    then have "q + 1 \<le> 2 ^ (8 - k)" by simp
    then have "2 ^ k * (q + 1) \<le> 2 ^ k * 2 ^ (8 - k)" by (rule mult_le_mono2)
    also have "\<dots> = 2 ^ 8" using True by (simp flip: power_add)
    finally show ?thesis using assms(2) by simp
  qed
  then have "unat (push_bit k (word_of_nat q) OR lo) = 2 ^ k * unat (word_of_nat q :: byte) + unat lo"
    using assms(2) by (intro unat_push_bit_or) (simp_all add: uq)
  then show ?thesis unfolding hi by (intro byte_of_nat_eqI [symmetric]) (simp only: uq)
next
  case False
  then have "256 \<le> (2 :: nat) ^ k" using power_increasing [of 8 k "2 :: nat"] by simp
  then have "q = 0" using assms(1) unat_byte_less [of hi] by (cases q) simp_all
  then have "hi = 0" using assms(1) by (simp add: unat_eq_0)
  with \<open>q = 0\<close> show ?thesis by simp
qed

lemma TOP_BITS_values: "TOP_BITS 1 = 0x80" "TOP_BITS 2 = 0xc0" "TOP_BITS 3 = 0xe0" "TOP_BITS 4 = 0xf0"
  by (simp_all add: TOP_BITS_def BOTTOM_BITS_def)

lemma continuation_written:
  "TOP_BITS 1 OR ucast (drop_bit k (u :: u32)) AND BOTTOM_BITS 6 = word_of_nat (0x80 + unat u div 2 ^ k mod 64)"
proof -
  have "unat u div 2 ^ k mod 256 mod 64 = unat u div 2 ^ k mod 64" by (simp add: mod_mod_cancel)
  then have lo: "unat (ucast (drop_bit k u) AND BOTTOM_BITS 6 :: byte) = unat u div 2 ^ k mod 64"
    by (simp only: byte_low_fields unat_ucast_narrow unat_drop_bit) simp
  have "unat (TOP_BITS 1) = 2 ^ 6 * 2" unfolding TOP_BITS_values by simp
  from or_disjoint_bytes [OF this, of "ucast (drop_bit k u) AND BOTTOM_BITS 6"]
  show ?thesis unfolding lo by simp
qed

lemma lead_written:
  fixes hi :: byte
  assumes "unat u div 2 ^ k < 2 ^ j" "unat hi = 2 ^ j * q" "j < 8"
  shows "hi OR ucast (drop_bit k (u :: u32)) = word_of_nat (2 ^ j * q + unat u div 2 ^ k)"
proof -
  have "(2 :: nat) ^ j \<le> 2 ^ 8" using assms(3) by (intro power_increasing) simp_all
  then have "unat u div 2 ^ k < 256" using assms(1) by simp
  then have lo: "unat (ucast (drop_bit k u) :: byte) = unat u div 2 ^ k"
    by (simp only: unat_ucast_narrow unat_drop_bit) simp
  show ?thesis using or_disjoint_bytes [OF assms(2), of "ucast (drop_bit k u)"] assms(1) by (simp only: lo)
qed

lemma cbb_add_utf8_eq:
  "cbb_add_utf8 mem_ok d u s =
    (if is_valid_code_point u then put_all (CBB_add_u8 mem_ok d) (utf8 (unat u)) s else (False, s))"
proof (cases "is_valid_code_point u")
  case True
  let ?n = "unat u"
  have le: "u \<le> 0x7f \<longleftrightarrow> ?n < 0x80" "u \<le> 0x7ff \<longleftrightarrow> ?n < 0x800" "u \<le> 0xffff \<longleftrightarrow> ?n < 0x10000"
    "u \<le> 0x10ffff"
    using valid_code_point_bound [OF True] by (auto simp: word_le_nat_alt)
  have c: "TOP_BITS 1 OR ucast (drop_bit 0 u) AND BOTTOM_BITS 6 = word_of_nat (0x80 + ?n mod 64)"
    "TOP_BITS 1 OR ucast (drop_bit 6 u) AND BOTTOM_BITS 6 = word_of_nat (0x80 + ?n div 64 mod 64)"
    "TOP_BITS 1 OR ucast (drop_bit 12 u) AND BOTTOM_BITS 6 = word_of_nat (0x80 + ?n div 4096 mod 64)"
    using continuation_written [of 0 u] continuation_written [of 6 u] continuation_written [of 12 u]
    by simp_all
  have one: "ucast u = (word_of_nat ?n :: byte)"
    by (simp only: word_nat_lift unat_ucast_narrow unat_of_nat)
  have l2: "TOP_BITS 2 OR ucast (drop_bit 6 u) = word_of_nat (0xc0 + ?n div 64)" if "?n < 0x800"
    using lead_written [of u 6 5 "TOP_BITS 2" 6] nat_fields(1) [OF that] by (simp add: TOP_BITS_values)
  have l3: "TOP_BITS 3 OR ucast (drop_bit 12 u) = word_of_nat (0xe0 + ?n div 4096)" if "?n < 0x10000"
    using lead_written [of u 12 4 "TOP_BITS 3" 14] nat_fields(2) [OF that] by (simp add: TOP_BITS_values)
  have l4: "TOP_BITS 4 OR ucast (drop_bit 18 u) = word_of_nat (0xf0 + ?n div 262144)"
    using lead_written [of u 18 3 "TOP_BITS 4" 30] nat_fields(3) [OF valid_code_point_bound [OF True]]
    by (simp add: TOP_BITS_values)
  have ok: "(\<not> is_valid_code_point u) = False" using True by simp
  show ?thesis
    unfolding cbb_add_utf8_def Let_def ok if_False le c one put_all_def utf8_def
    using True le(4) l2 l3 l4 by (simp del: of_nat_add all_ok.simps add: all_ok_single)
next
  case False
  then show ?thesis by (simp add: cbb_add_utf8_def)
qed

section \<open>Properties\<close>

text \<open>C23: the UTF-8 reader is canonical.  It delivers a code point exactly when the input starts with
  the shortest encoding of a valid code point; over-long forms, surrogates, non-characters and
  values above 0x10ffff are refused.\<close>

theorem cbs_get_utf8_canonical:
  "cbs_get_utf8 cbs = (Some u, r) \<longleftrightarrow> code_point (unat u) \<and> cbs = utf8 (unat u) @ r"
  unfolding is_valid_code_point_iff [symmetric] by (rule utf8_code.dec_iff)

text \<open>A code point that the writer accepts is valid, takes the number of bytes that
  \<open>cbb_get_utf8_len\<close> announces, and is read back whatever follows.\<close>

theorem cbb_utf8_roundtrip:
  assumes "ready d s" "cbb_add_utf8 mem_ok d u s = (True, s')"
  shows "is_valid_code_point u \<and> ready d s' \<and> (\<exists>e. cbb_out s' = cbb_out s @ e \<and>
    length e = cbb_get_utf8_len u \<and> cbs_get_utf8 (e @ r) = (Some u, r))"
proof -
  have u: "is_valid_code_point u" "put_all (CBB_add_u8 mem_ok d) (utf8 (unat u)) s = (True, s')"
    using assms(2) unfolding cbb_add_utf8_eq by (simp_all split: if_splits)
  have "length (utf8 (unat u)) = cbb_get_utf8_len u"
    by (simp add: utf8_def cbb_get_utf8_len_def word_le_nat_alt)
  with u put_all_u8 [OF assms(1) u(2)] utf8_code.dec_enc [OF u(1), of r] show ?thesis by blast
qed

theorem cbb_utf8_roundtrip_witness:
  "let s' = snd (cbb_add_utf8 (\<lambda>_. True) 0 0x20ac fresh_cbb)
   in is_valid_code_point 0x20ac \<and> ready 0 s' \<and> (\<exists>e. cbb_out s' = cbb_out fresh_cbb @ e \<and>
     length e = cbb_get_utf8_len 0x20ac \<and> cbs_get_utf8 (e @ [1]) = (Some 0x20ac, [1]))"
  unfolding Let_def by (rule cbb_utf8_roundtrip [where mem_ok = "\<lambda>_. True"]) code_simp+

end
