(* ===== verification/Mem.thy ===== *)
theory Mem
  imports Cbs
begin

text \<open>
  \<open>crypto/mem.c\<close> and \<open>crypto/buf/buf.c\<close>: C string helpers, the FNV hash, comparison, and the
  growing buffer \<open>BUF_MEM\<close>.  A C string argument is the list of its characters before the
  terminating NUL; reading at the end of the list reads the NUL.  \<open>mem_ok n\<close> says whether the
  allocator serves \<open>n\<close> bytes.
\<close>

section \<open>Strings and hashing\<close>

definition OPENSSL_hash32 :: "bytes \<Rightarrow> nat \<Rightarrow> u32" where
  "OPENSSL_hash32 inp len = foldl (\<lambda>h b. (h XOR ucast b) * 16777619) 2166136261 (take len inp)"

text \<open>The memory block \<open>s\<close> has at least \<open>len\<close> bytes or a NUL before that.\<close>

fun OPENSSL_strnlen :: "bytes \<Rightarrow> nat \<Rightarrow> nat" where
  "OPENSSL_strnlen s 0 = 0"
| "OPENSSL_strnlen [] (Suc len) = 0"
| "OPENSSL_strnlen (c # s) (Suc len) = (if c = 0 then 0 else Suc (OPENSSL_strnlen s len))"

definition OPENSSL_strdup :: "(u64 \<Rightarrow> bool) \<Rightarrow> bytes option \<Rightarrow> bytes option" where
  "OPENSSL_strdup mem_ok s =
     (case s of
        None \<Rightarrow> None
      | Some s \<Rightarrow> if \<not> mem_ok (of_nat (length s) + 1) then None else Some (s @ [0]))"

definition OPENSSL_tolower :: "int \<Rightarrow> int" where
  "OPENSSL_tolower c = (if c \<ge> 0x41 \<and> c \<le> 0x5a then c + (0x61 - 0x41) else c)"

text \<open>\<open>char\<close> is signed on the target.\<close>

fun char_at :: "bytes \<Rightarrow> int \<times> bytes" where
  "char_at [] = (0, [])"
| "char_at (c # s) = (sint c, s)"

fun OPENSSL_strncasecmp :: "bytes \<Rightarrow> bytes \<Rightarrow> nat \<Rightarrow> int" where
  "OPENSSL_strncasecmp a b 0 = 0"
| "OPENSSL_strncasecmp a b (Suc n) =
     (let aa = OPENSSL_tolower (fst (char_at a)); bb = OPENSSL_tolower (fst (char_at b))
      in if aa < bb then -1 else if aa > bb then 1 else if aa = 0 then 0
         else OPENSSL_strncasecmp (snd (char_at a)) (snd (char_at b)) n)"

text \<open>The loop of \<open>OPENSSL_strcasecmp\<close> ends at the latest at the NUL of the first string.\<close>

fun OPENSSL_strcasecmp :: "bytes \<Rightarrow> bytes \<Rightarrow> int" where
  "OPENSSL_strcasecmp [] b =
     (let bb = OPENSSL_tolower (fst (char_at b)) in if 0 < bb then -1 else if 0 > bb then 1 else 0)"
| "OPENSSL_strcasecmp (c # a) b =
     (let aa = OPENSSL_tolower (sint c); bb = OPENSSL_tolower (fst (char_at b))
      in if aa < bb then -1 else if aa > bb then 1 else if aa = 0 then 0
         else OPENSSL_strcasecmp a (snd (char_at b)))"

definition OPENSSL_strndup :: "(u64 \<Rightarrow> bool) \<Rightarrow> bytes option \<Rightarrow> u64 \<Rightarrow> bytes option" where
  "OPENSSL_strndup mem_ok str sz =
     (case str of
        None \<Rightarrow> None
      | Some str \<Rightarrow>
          let sz = of_nat (OPENSSL_strnlen str (unat sz)) :: u64;
              alloc_size = sz + 1
          in if alloc_size < sz then None
             else if \<not> mem_ok alloc_size then None
             else Some (take (unat sz) str @ [0]))"

text \<open>\<open>CBS_strdup\<close> of \<open>cbs.c\<close>: the copy of the contents, \<open>None\<close> when the allocation fails.\<close>

definition CBS_strdup :: "(u64 \<Rightarrow> bool) \<Rightarrow> cbs \<Rightarrow> bytes option" where
  "CBS_strdup mem_ok cbs = OPENSSL_strndup mem_ok (Some (CBS_data cbs)) (of_nat (CBS_len cbs))"

text \<open>The bytes stored at \<open>dst\<close> (the rest of the \<open>dst_size\<close> bytes is not touched) and the result.\<close>

fun strlcpy_loop :: "bytes \<Rightarrow> nat \<Rightarrow> bytes \<times> nat \<times> bytes" where
  "strlcpy_loop [] dst_size = ([], dst_size, [])"
| "strlcpy_loop (c # src) dst_size =
     (if dst_size > 1 \<and> c \<noteq> 0 then
        let (w, left, rest) = strlcpy_loop src (dst_size - 1) in (c # w, left, rest)
      else ([], dst_size, c # src))"

definition OPENSSL_strlcpy :: "bytes \<Rightarrow> nat \<Rightarrow> bytes \<times> nat" where
  "OPENSSL_strlcpy src dst_size =
     (let (w, left, rest) = strlcpy_loop src dst_size
      in (if left \<noteq> 0 then w @ [0] else w, length w + length rest))"

text \<open>\<open>dst\<close> is the memory at the destination; the result is that memory and the return value.\<close>

definition OPENSSL_strlcat :: "bytes \<Rightarrow> bytes \<Rightarrow> nat \<Rightarrow> bytes \<times> nat" where
  "OPENSSL_strlcat dst src dst_size =
     (let l = OPENSSL_strnlen dst dst_size;
          (w, n) = OPENSSL_strlcpy src (dst_size - l)
      in (write_at l w dst, l + n))"

definition OPENSSL_memdup :: "(u64 \<Rightarrow> bool) \<Rightarrow> bytes \<Rightarrow> u64 \<Rightarrow> bytes option" where
  "OPENSSL_memdup mem_ok data sz =
     (if sz = 0 then None
      else if \<not> mem_ok sz then None
      else Some (take (unat sz) data))"

section \<open>Growing buffers\<close>

text \<open>\<open>data\<close> is the memory block of \<open>max\<close> bytes, \<open>bm_length\<close> the number of bytes in use.\<close>

record buf_mem =
  bm_length :: u64
  bm_data :: bytes
  bm_max :: u64

definition BUF_MEM_new :: "(u64 \<Rightarrow> bool) \<Rightarrow> buf_mem option" where
  "BUF_MEM_new mem_ok =
     (if \<not> mem_ok 24 then None else Some \<lparr>bm_length = 0, bm_data = [], bm_max = 0\<rparr>)"

text \<open>Growing a block keeps its contents; the new bytes are uninitialised in C and zero here.\<close>

definition realloc_block :: "bytes \<Rightarrow> u64 \<Rightarrow> bytes" where
  "realloc_block data n = take (unat n) data @ replicate (unat n - length data) 0"

definition BUF_MEM_reserve :: "(u64 \<Rightarrow> bool) \<Rightarrow> u64 \<Rightarrow> buf_mem \<Rightarrow> bool \<times> buf_mem" where
  "BUF_MEM_reserve mem_ok cap buf =
     (if bm_max buf \<ge> cap then (True, buf)
      else
        let n = cap + 3 in
        if n < cap then (False, buf)
        else
          let n = n div 3; alloc_size = n * 4 in
          if alloc_size div 4 \<noteq> n then (False, buf)
          else if \<not> mem_ok alloc_size then (False, buf)
          else (True, buf\<lparr>bm_data := realloc_block (bm_data buf) alloc_size, bm_max := alloc_size\<rparr>))"

definition BUF_MEM_grow :: "(u64 \<Rightarrow> bool) \<Rightarrow> u64 \<Rightarrow> buf_mem \<Rightarrow> u64 \<times> buf_mem" where
  "BUF_MEM_grow mem_ok len buf =
     (case BUF_MEM_reserve mem_ok len buf of
        (False, buf) \<Rightarrow> (0, buf)
      | (True, buf) \<Rightarrow>
          let buf = (if bm_length buf < len
                     then buf\<lparr>bm_data := write_at (unat (bm_length buf))
                            (replicate (unat (len - bm_length buf)) 0) (bm_data buf)\<rparr>
                     else buf)
          in (len, buf\<lparr>bm_length := len\<rparr>))"

definition BUF_MEM_grow_clean :: "(u64 \<Rightarrow> bool) \<Rightarrow> u64 \<Rightarrow> buf_mem \<Rightarrow> u64 \<times> buf_mem" where
  "BUF_MEM_grow_clean mem_ok len buf = BUF_MEM_grow mem_ok len buf"

definition BUF_MEM_append :: "(u64 \<Rightarrow> bool) \<Rightarrow> bytes \<Rightarrow> u64 \<Rightarrow> buf_mem \<Rightarrow> bool \<times> buf_mem" where
  "BUF_MEM_append mem_ok inp len buf =
     (if len = 0 then (True, buf)
      else
        let new_len = bm_length buf + len in
        if new_len < len then (False, buf)
        else (case BUF_MEM_reserve mem_ok new_len buf of
                (False, buf) \<Rightarrow> (False, buf)
              | (True, buf) \<Rightarrow>
                  (True, buf\<lparr>bm_data := write_at (unat (bm_length buf)) (take (unat len) inp) (bm_data buf),
                             bm_length := new_len\<rparr>)))"

section \<open>Comparison and copying\<close>

lemma foldl_or_zero: "foldl (\<lambda>x i. x OR f i) (z :: byte) iz = 0 \<longleftrightarrow> z = 0 \<and> (\<forall>i \<in> set iz. f i = 0)"
proof (induction iz arbitrary: z)
  case Nil
  then show ?case by simp
next
  case (Cons i jz)
  have "(z OR f i = 0) \<longleftrightarrow> z = 0 \<and> f i = 0" by (auto simp: or_eq_0_iff)
  with Cons show ?case by auto
qed

lemma xor_zero_iff: "a XOR b = 0 \<longleftrightarrow> a = (b :: byte)"
  by (auto simp: bit_eq_iff bit_xor_iff)

lemma CRYPTO_memcmp_zero:
  "len \<le> length a \<Longrightarrow> len \<le> length b \<Longrightarrow> CRYPTO_memcmp a b len = 0 \<longleftrightarrow> take len a = take len b"
  by (auto simp: CRYPTO_memcmp_def foldl_or_zero xor_zero_iff nth_take list_eq_iff_nth_eq)

lemma strlcpy_loop_eq:
  "0 \<notin> set src \<Longrightarrow> strlcpy_loop src n =
    (take (n - 1) src, n - length (take (n - 1) src), drop (n - 1) src)"
proof (induction src arbitrary: n)
  case Nil
  then show ?case by simp
next
  case (Cons c src)
  show ?case
  proof (cases "n > 1")
    case True
    then obtain m where n: "n = Suc (Suc m)" by (metis One_nat_def less_imp_Suc_add add_Suc plus_nat.add_0)
    with Cons show ?thesis by (auto simp: min_def)
  next
    case False
    then show ?thesis by simp
  qed
qed

definition buf_mem_ok :: "buf_mem \<Rightarrow> bool" where
  "buf_mem_ok b \<longleftrightarrow> length (bm_data b) = unat (bm_max b) \<and> bm_length b \<le> bm_max b"

definition buf_mem_bytes :: "buf_mem \<Rightarrow> bytes" where
  "buf_mem_bytes b = take (unat (bm_length b)) (bm_data b)"

lemma reserve_mem_ok:
  assumes "BUF_MEM_reserve mem_ok cap b = (True, b')" "buf_mem_ok b"
  shows "buf_mem_ok b' \<and> buf_mem_bytes b' = buf_mem_bytes b \<and> bm_length b' = bm_length b \<and>
    cap \<le> bm_max b' \<and> bm_max b \<le> bm_max b'"
proof (cases "bm_max b \<ge> cap")
  case True
  with assms show ?thesis by (simp add: BUF_MEM_reserve_def)
next
  case False
  let ?n = "(cap + 3) div 3"
  let ?a = "?n * 4"
  from assms(1) False have c: "\<not> cap + 3 < cap" "?a div 4 = ?n"
    "b' = b\<lparr>bm_data := realloc_block (bm_data b) ?a, bm_max := ?a\<rparr>"
    by (auto simp: BUF_MEM_reserve_def Let_def split: if_splits)
  have lt: "unat cap + 3 < 2 ^ 64"
  proof (rule ccontr)
    assume ge: "\<not> unat cap + 3 < 2 ^ 64"
    have "unat cap < 2 ^ 64" using unsigned_less [of cap, where 'a = nat] by simp
    then have "unat (cap + 3) < unat cap" using ge
      by (simp add: unat_word_ariths le_mod_geq)
    with c(1) show False by (simp add: word_less_nat_alt)
  qed
  then have s: "unat (cap + 3) = unat cap + 3" by (simp add: unat_word_ariths)
  have n: "unat ?n = (unat cap + 3) div 3" by (simp add: unat_div s)
  have "unat ?a = unat ?n * 4"
  proof -
    have "unat (?a div 4) = unat ?n" using c(2) by simp
    then have "unat ?a div 4 = unat ?n" by (simp add: unat_div)
    moreover have "4 dvd unat ?a"
      by (simp add: unat_word_ariths dvd_mod_iff)
    ultimately show ?thesis by auto
  qed
  then have "unat cap \<le> unat ?a" unfolding n by simp
  with False have "unat (bm_max b) \<le> unat ?a" by (simp add: word_le_nat_alt)
  with assms(2) c(3) \<open>unat cap \<le> unat ?a\<close> show ?thesis
    by (simp add: buf_mem_ok_def buf_mem_bytes_def realloc_block_def word_le_nat_alt min_def)
qed

section \<open>Properties\<close>

text \<open>\<open>CBS_mem_equal\<close>, which compares in constant time, decides whether the contents are
  the first \<open>len\<close> bytes of \<open>data\<close>.\<close>

theorem CBS_mem_equal_correct:
  assumes "len \<le> length data"
  shows "CBS_mem_equal cbs data len \<longleftrightarrow> cbs = take len data"
  using assms CRYPTO_memcmp_zero [of len cbs data]
  by (auto simp: CBS_mem_equal_def CBS_len_def CBS_data_def)

theorem CBS_mem_equal_correct_witness:
  "CBS_mem_equal [1, 2] [1, 2, 3] 2 \<longleftrightarrow> [1, 2] = take 2 [1, 2, 3 :: byte]"
  by (rule CBS_mem_equal_correct) simp

text \<open>\<open>OPENSSL_strlcpy\<close> returns the length of the source and, when the destination is not
  empty, stores the longest prefix that fits followed by a NUL, never more than \<open>dst_size\<close> bytes.\<close>

theorem OPENSSL_strlcpy_correct:
  assumes "0 \<notin> set src"
  shows "snd (OPENSSL_strlcpy src n) = length src \<and>
    fst (OPENSSL_strlcpy src n) = (if n = 0 then [] else take (n - 1) src @ [0]) \<and>
    length (fst (OPENSSL_strlcpy src n)) \<le> n"
  using assms by (auto simp: OPENSSL_strlcpy_def strlcpy_loop_eq Let_def)

theorem OPENSSL_strlcpy_correct_witness:
  "snd (OPENSSL_strlcpy [104, 105] 2) = length [104, 105 :: byte] \<and>
    fst (OPENSSL_strlcpy [104, 105] 2) = (if (2 :: nat) = 0 then [] else take (2 - 1) [104, 105] @ [0]) \<and>
    length (fst (OPENSSL_strlcpy [104, 105] 2)) \<le> 2"
  by (rule OPENSSL_strlcpy_correct) simp

text \<open>a successful \<open>BUF_MEM_append\<close> appends exactly the given bytes and keeps the buffer well
  formed, also when it has to grow.\<close>

theorem BUF_MEM_append_correct:
  assumes "BUF_MEM_append mem_ok inp len b = (True, b')" "buf_mem_ok b" "unat len \<le> length inp"
  shows "buf_mem_ok b' \<and> buf_mem_bytes b' = buf_mem_bytes b @ take (unat len) inp"
proof (cases "len = 0")
  case True
  with assms show ?thesis by (simp add: BUF_MEM_append_def)
next
  case False
  let ?new = "bm_length b + len"
  from assms(1) False obtain b1 where r: "BUF_MEM_reserve mem_ok ?new b = (True, b1)" "\<not> ?new < len"
    and b': "b' = b1\<lparr>bm_data := write_at (unat (bm_length b1)) (take (unat len) inp) (bm_data b1), bm_length := ?new\<rparr>"
    by (auto simp: BUF_MEM_append_def Let_def split: prod.splits bool.splits if_splits)
  note ro = reserve_mem_ok [OF r(1) assms(2)]
  have new: "unat ?new = unat (bm_length b) + unat len"
  proof (rule ccontr)
    assume "unat ?new \<noteq> unat (bm_length b) + unat len"
    then have ge: "\<not> unat (bm_length b) + unat len < 2 ^ 64" by (auto simp: unat_word_ariths)
    have "unat (bm_length b) < 2 ^ 64" using unsigned_less [of "bm_length b", where 'a = nat] by simp
    moreover have "unat len < 2 ^ 64" using unsigned_less [of len, where 'a = nat] by simp
    ultimately have "unat ?new < unat len" using ge by (simp add: unat_word_ariths le_mod_geq)
    with r(2) show False by (simp add: word_less_nat_alt)
  qed
  have fits: "unat (bm_length b) + unat len \<le> length (bm_data b1)"
    using ro new by (simp add: buf_mem_ok_def word_le_nat_alt)
  have len: "bm_length b1 = bm_length b" using ro by simp
  have "buf_mem_ok b'" using ro b' fits assms(3) new len by (simp add: buf_mem_ok_def)
  moreover have "buf_mem_bytes b' = take (unat (bm_length b)) (bm_data b1) @ take (unat len) inp"
    using b' fits assms(3) new len by (simp add: buf_mem_bytes_def write_at_def)
  ultimately show ?thesis using ro len by (simp add: buf_mem_bytes_def)
qed

definition sample_buf_mem :: buf_mem where
  "sample_buf_mem = \<lparr>bm_length = 1, bm_data = [7, 0], bm_max = 2\<rparr>"

theorem BUF_MEM_append_correct_witness:
  "let b' = snd (BUF_MEM_append (\<lambda>_. True) [8, 9] 2 sample_buf_mem)
   in buf_mem_ok b' \<and> buf_mem_bytes b' = buf_mem_bytes sample_buf_mem @ take (unat (2 :: u64)) [8, 9]"
  unfolding Let_def by (rule BUF_MEM_append_correct [where mem_ok = "\<lambda>_. True"]) code_simp+

end
