(* ===== verification/Lhash.thy ===== *)
theory Lhash
  imports Mem "HOL-Library.Multiset"
begin

text \<open>
  \<open>crypto/lhash/lhash.c\<close>: the chained hash table.  A bucket is the list of the items of its chain.
  An item carries the address of its \<open>LHASH_ITEM\<close>, so that iteration, which keeps the address of
  the next item while it calls back, can be followed when the callback changes the table; addresses
  are handed out by a counter.  The hash and comparison functions are the fields that \<open>lh_new\<close> stores.
  \<open>mem_ok n\<close> says whether an allocation of \<open>n\<close> bytes succeeds.
\<close>

section \<open>State and operations\<close>

record 'a item =
  addr :: nat
  item_data :: 'a
  item_hash :: u32

record 'a lhash =
  num_items :: u64
  buckets :: "'a item list list"
  callback_depth :: u32
  lh_comp :: "'a \<Rightarrow> 'a \<Rightarrow> int"
  lh_hash :: "'a \<Rightarrow> u32"
  next_addr :: nat

definition kMinNumBuckets :: u64 where
  "kMinNumBuckets = 16"

definition kMaxAverageChainLength :: u64 where
  "kMaxAverageChainLength = 2"

definition kMinAverageChainLength :: u64 where
  "kMinAverageChainLength = 1"

text \<open>The structure takes 48 bytes and a pointer 8.\<close>

definition lh_new :: "(u64 \<Rightarrow> bool) \<Rightarrow> ('a \<Rightarrow> u32) \<Rightarrow> ('a \<Rightarrow> 'a \<Rightarrow> int) \<Rightarrow> 'a lhash option" where
  "lh_new mem_ok hash cmp =
     (if \<not> mem_ok 48 then None
      else if \<not> mem_ok (8 * kMinNumBuckets) then None
      else Some \<lparr>num_items = 0, buckets = replicate (unat kMinNumBuckets) [], callback_depth = 0,
                 lh_comp = cmp, lh_hash = hash, next_addr = 0\<rparr>)"

definition lh_num_items :: "'a lhash \<Rightarrow> u64" where
  "lh_num_items lh = num_items lh"

definition num_buckets :: "'a lhash \<Rightarrow> u64" where
  "num_buckets lh = of_nat (length (buckets lh))"

text \<open>The pointer into a chain is the index of the bucket and the position in its chain, which is the
  length of the chain when no item matches.\<close>

definition chain_position :: "('a \<Rightarrow> bool) \<Rightarrow> 'a item list \<Rightarrow> nat" where
  "chain_position P chain = length (takeWhile (\<lambda>cur. \<not> P (item_data cur)) chain)"

definition get_next_ptr_and_hash :: "'a lhash \<Rightarrow> 'a \<Rightarrow> u32 \<times> nat \<times> nat" where
  "get_next_ptr_and_hash lh data =
     (let h = lh_hash lh data;
          i = unat ((ucast h :: u64) mod num_buckets lh)
      in (h, i, chain_position (\<lambda>d. lh_comp lh d data = 0) (buckets lh ! i)))"

definition get_next_ptr_by_key :: "'a lhash \<Rightarrow> 'k \<Rightarrow> u32 \<Rightarrow> ('k \<Rightarrow> 'a \<Rightarrow> int) \<Rightarrow> nat \<times> nat" where
  "get_next_ptr_by_key lh key key_hash cmp_key =
     (let i = unat ((ucast key_hash :: u64) mod num_buckets lh)
      in (i, chain_position (\<lambda>d. cmp_key key d = 0) (buckets lh ! i)))"

text \<open>The item that the pointer leads to.\<close>

definition item_at :: "'a lhash \<Rightarrow> nat \<Rightarrow> nat \<Rightarrow> 'a item option" where
  "item_at lh i pos = (if pos < length (buckets lh ! i) then Some (buckets lh ! i ! pos) else None)"

definition lh_retrieve :: "'a lhash \<Rightarrow> 'a \<Rightarrow> 'a option" where
  "lh_retrieve lh data =
     (case get_next_ptr_and_hash lh data of (_, i, pos) \<Rightarrow> map_option item_data (item_at lh i pos))"

definition lh_retrieve_key :: "'a lhash \<Rightarrow> 'k \<Rightarrow> u32 \<Rightarrow> ('k \<Rightarrow> 'a \<Rightarrow> int) \<Rightarrow> 'a option" where
  "lh_retrieve_key lh key key_hash cmp_key =
     (case get_next_ptr_by_key lh key key_hash cmp_key of
        (i, pos) \<Rightarrow> map_option item_data (item_at lh i pos))"

text \<open>Moving the items, bucket by bucket, each to the front of its new chain.\<close>

definition move_item :: "u64 \<Rightarrow> 'a item \<Rightarrow> 'a item list list \<Rightarrow> 'a item list list" where
  "move_item new_num_buckets cur new_buckets =
     (let new_bucket = unat ((ucast (item_hash cur) :: u64) mod new_num_buckets)
      in new_buckets[new_bucket := cur # new_buckets ! new_bucket])"

definition lh_rebucket :: "(u64 \<Rightarrow> bool) \<Rightarrow> u64 \<Rightarrow> 'a lhash \<Rightarrow> 'a lhash" where
  "lh_rebucket mem_ok new_num_buckets lh =
     (let alloc_size = 8 * new_num_buckets
      in if alloc_size div 8 \<noteq> new_num_buckets then lh
         else if \<not> mem_ok alloc_size then lh
         else lh\<lparr>buckets := fold (fold (move_item new_num_buckets)) (buckets lh)
                  (replicate (unat new_num_buckets) [])\<rparr>)"

definition lh_maybe_resize :: "(u64 \<Rightarrow> bool) \<Rightarrow> 'a lhash \<Rightarrow> 'a lhash" where
  "lh_maybe_resize mem_ok lh =
     (if callback_depth lh > 0 then lh
      else
        let avg_chain_length = num_items lh div num_buckets lh
        in if avg_chain_length > kMaxAverageChainLength then
             let new_num_buckets = num_buckets lh * 2
             in if new_num_buckets > num_buckets lh then lh_rebucket mem_ok new_num_buckets lh else lh
           else if avg_chain_length < kMinAverageChainLength \<and> num_buckets lh > kMinNumBuckets then
             let new_num_buckets = num_buckets lh div 2;
                 new_num_buckets = (if new_num_buckets < kMinNumBuckets then kMinNumBuckets else new_num_buckets)
             in lh_rebucket mem_ok new_num_buckets lh
           else lh)"

text \<open>The result, \<open>*old_data\<close> and the table.  An item takes 24 bytes.\<close>

definition lh_insert :: "(u64 \<Rightarrow> bool) \<Rightarrow> 'a \<Rightarrow> 'a lhash \<Rightarrow> bool \<times> 'a option \<times> 'a lhash" where
  "lh_insert mem_ok data lh =
     (case get_next_ptr_and_hash lh data of
        (h, i, pos) \<Rightarrow>
          (case item_at lh i pos of
             Some it \<Rightarrow>
               (True, Some (item_data it),
                lh\<lparr>buckets := (buckets lh)[i := (buckets lh ! i)[pos := it\<lparr>item_data := data\<rparr>]]\<rparr>)
           | None \<Rightarrow>
               if \<not> mem_ok 24 then (False, None, lh)
               else
                 let it = \<lparr>addr = next_addr lh, item_data = data, item_hash = h\<rparr>;
                     lh = lh\<lparr>buckets := (buckets lh)[i := buckets lh ! i @ [it]],
                             num_items := num_items lh + 1, next_addr := next_addr lh + 1\<rparr>
                 in (True, None, lh_maybe_resize mem_ok lh)))"

definition lh_delete :: "(u64 \<Rightarrow> bool) \<Rightarrow> 'a \<Rightarrow> 'a lhash \<Rightarrow> 'a option \<times> 'a lhash" where
  "lh_delete mem_ok data lh =
     (case get_next_ptr_and_hash lh data of
        (_, i, pos) \<Rightarrow>
          (case item_at lh i pos of
             None \<Rightarrow> (None, lh)
           | Some it \<Rightarrow>
               let chain = buckets lh ! i;
                   lh = lh\<lparr>buckets := (buckets lh)[i := take pos chain @ drop (pos + 1) chain],
                           num_items := num_items lh - 1\<rparr>
               in (Some (item_data it), lh_maybe_resize mem_ok lh)))"

text \<open>Iteration.  The callback acts on the table and on a state \<open>'s\<close>.  The next item is found by the
  address that was read before the call; \<open>None\<close> when that item is no longer in the chain (the code
  then reads freed memory) and when the iteration does not end.\<close>

definition head_addr :: "'a item list \<Rightarrow> nat option" where
  "head_addr chain = (case chain of [] \<Rightarrow> None | it # _ \<Rightarrow> Some (addr it))"

partial_function (option) doall_chain ::
    "('a \<Rightarrow> 'a lhash \<times> 's \<Rightarrow> 'a lhash \<times> 's) \<Rightarrow> nat \<Rightarrow> nat option \<Rightarrow> 'a lhash \<times> 's \<Rightarrow>
      ('a lhash \<times> 's) option" where
  "doall_chain func i cur st =
     (case cur of
        None \<Rightarrow> Some st
      | Some a \<Rightarrow>
          (case dropWhile (\<lambda>it. addr it \<noteq> a) (buckets (fst st) ! i) of
             [] \<Rightarrow> None
           | it # rest \<Rightarrow> doall_chain func i (head_addr rest) (func (item_data it) st)))"

partial_function (option) doall_buckets ::
    "('a \<Rightarrow> 'a lhash \<times> 's \<Rightarrow> 'a lhash \<times> 's) \<Rightarrow> nat \<Rightarrow> 'a lhash \<times> 's \<Rightarrow> ('a lhash \<times> 's) option" where
  "doall_buckets func i st =
     (if i < length (buckets (fst st)) then
        (case doall_chain func i (head_addr (buckets (fst st) ! i)) st of
           None \<Rightarrow> None
         | Some st \<Rightarrow> doall_buckets func (i + 1) st)
      else Some st)"

definition lh_doall_arg ::
    "(u64 \<Rightarrow> bool) \<Rightarrow> ('a \<Rightarrow> 'a lhash \<times> 's \<Rightarrow> 'a lhash \<times> 's) \<Rightarrow> 'a lhash option \<Rightarrow> 's \<Rightarrow>
      ('a lhash option \<times> 's) option" where
  "lh_doall_arg mem_ok func lh s =
     (case lh of
        None \<Rightarrow> Some (None, s)
      | Some lh \<Rightarrow>
          let lh = (if callback_depth lh < 0xffffffff then lh\<lparr>callback_depth := callback_depth lh + 1\<rparr> else lh)
          in (case doall_buckets func 0 (lh, s) of
                None \<Rightarrow> None
              | Some (lh, s) \<Rightarrow>
                  let lh = (if callback_depth lh < 0xffffffff
                            then lh\<lparr>callback_depth := callback_depth lh - 1\<rparr> else lh)
                  in Some (Some (lh_maybe_resize mem_ok lh), s)))"

definition lh_strhash :: "bytes option \<Rightarrow> u32" where
  "lh_strhash c = (case c of None \<Rightarrow> 0 | Some s \<Rightarrow> OPENSSL_hash32 s (length s))"

section \<open>The contract of the hash and comparison functions\<close>

text \<open>Elements that compare as equal form classes, and equal elements have the same hash value.\<close>

locale hash_contract =
  fixes hash :: "'a \<Rightarrow> u32"
    and cmp :: "'a \<Rightarrow> 'a \<Rightarrow> int"
  assumes cmp_refl: "cmp x x = 0"
    and cmp_sym: "cmp x y = 0 \<Longrightarrow> cmp y x = 0"
    and cmp_trans: "cmp x y = 0 \<Longrightarrow> cmp y z = 0 \<Longrightarrow> cmp x z = 0"
    and hash_eq: "cmp x y = 0 \<Longrightarrow> hash x = hash y"

section \<open>The invariant\<close>

definition items :: "'a lhash \<Rightarrow> 'a item list" where
  "items lh = concat (buckets lh)"

text \<open>The elements of the table.\<close>

definition elems :: "'a lhash \<Rightarrow> 'a set" where
  "elems lh = item_data ` set (items lh)"

definition items_ok :: "('a \<Rightarrow> u32) \<Rightarrow> ('a \<Rightarrow> 'a \<Rightarrow> int) \<Rightarrow> nat \<Rightarrow> 'a item list \<Rightarrow> bool" where
  "items_ok hash cmp next its \<longleftrightarrow>
     (\<forall>it \<in> set its. item_hash it = hash (item_data it) \<and> addr it < next) \<and>
     (\<forall>a \<in> set its. \<forall>b \<in> set its. cmp (item_data a) (item_data b) = 0 \<longrightarrow> a = b) \<and>
     distinct (map addr its)"

text \<open>Every item lies in the bucket of its hash value.\<close>

definition placed :: "'a item list list \<Rightarrow> bool" where
  "placed bs \<longleftrightarrow> (\<forall>i < length bs. \<forall>it \<in> set (bs ! i). unat (item_hash it) mod length bs = i)"

definition lh_ok :: "('a \<Rightarrow> u32) \<Rightarrow> ('a \<Rightarrow> 'a \<Rightarrow> int) \<Rightarrow> 'a lhash \<Rightarrow> bool" where
  "lh_ok hash cmp lh \<longleftrightarrow>
     lh_hash lh = hash \<and> lh_comp lh = cmp \<and>
     16 \<le> length (buckets lh) \<and> length (buckets lh) < 2 ^ 61 \<and>
     num_items lh = of_nat (length (items lh)) \<and> placed (buckets lh) \<and>
     items_ok hash cmp (next_addr lh) (items lh)"

lemma lh_ok_items: "lh_ok hash cmp lh \<Longrightarrow> items_ok hash cmp (next_addr lh) (items lh)"
  by (simp add: lh_ok_def)

lemma lh_ok_placed: "lh_ok hash cmp lh \<Longrightarrow> placed (buckets lh)"
  by (simp add: lh_ok_def)

lemma placedD: "placed bs \<Longrightarrow> i < length bs \<Longrightarrow> it \<in> set (bs ! i) \<Longrightarrow> unat (item_hash it) mod length bs = i"
  by (simp add: placed_def)

lemma items_ok_hash: "items_ok hash cmp n its \<Longrightarrow> it \<in> set its \<Longrightarrow> item_hash it = hash (item_data it)"
  by (simp add: items_ok_def)

lemma items_ok_distinct: "items_ok hash cmp n its \<Longrightarrow> distinct (map addr its)"
  by (simp add: items_ok_def)

lemma items_ok_mset: "mset its = mset its' \<Longrightarrow> items_ok hash cmp n its \<longleftrightarrow> items_ok hash cmp n its'"
  using mset_eq_setD [of its its'] mset_eq_imp_distinct_iff [of "map addr its" "map addr its'"]
  by (simp add: items_ok_def)

lemma items_ok_mono: "items_ok hash cmp n its \<Longrightarrow> n \<le> m \<Longrightarrow> items_ok hash cmp m its"
  by (auto simp: items_ok_def)

text \<open>Replacing one bucket.\<close>

lemma mset_concat_update:
  "i < length xss \<Longrightarrow> mset (concat (xss[i := ys])) + mset (xss ! i) = mset (concat xss) + mset ys"
proof (induction xss arbitrary: i)
  case (Cons xs xss)
  then show ?case by (cases i) (auto simp: add.commute add.assoc add.left_commute)
qed simp

lemma placed_update:
  "placed bs \<Longrightarrow> \<forall>it \<in> set ys. unat (item_hash it) mod length bs = i \<Longrightarrow> placed (bs[i := ys])"
  by (cases "i < length bs") (auto simp: placed_def nth_list_update split: if_splits)

lemma placed_empty: "placed (replicate n [])"
  by (simp add: placed_def)

section \<open>Resizing\<close>

lemma fold_fold_concat: "fold (fold f) xss s = fold f (concat xss) s"
  by (induction xss arbitrary: s) auto

lemma bucket_of_hash: "0 < unat n \<Longrightarrow> unat ((ucast (h :: u32) :: u64) mod n) = unat h mod unat n"
  by (simp add: unat_mod)

lemma move_item_ok:
  assumes "placed bs" "unat n = length bs" "bs \<noteq> []"
  shows "placed (move_item n it bs) \<and> length (move_item n it bs) = length bs \<and>
    mset (concat (move_item n it bs)) = add_mset it (mset (concat bs))"
proof -
  let ?i = "unat (item_hash it) mod length bs"
  have i: "unat ((ucast (item_hash it) :: u64) mod n) = ?i" using assms(2,3) bucket_of_hash by simp
  have lt: "?i < length bs" using assms(3) by simp
  have "mset (concat (bs[?i := it # bs ! ?i])) + mset (bs ! ?i) = mset (concat bs) + mset (it # bs ! ?i)"
    by (rule mset_concat_update [OF lt])
  then have "mset (concat (bs[?i := it # bs ! ?i])) = add_mset it (mset (concat bs))" by simp
  moreover have "placed (bs[?i := it # bs ! ?i])"
    using assms(1) lt by (intro placed_update) (auto simp: placed_def)
  ultimately show ?thesis by (simp add: move_item_def i Let_def)
qed

lemma move_items_ok:
  "placed bs \<Longrightarrow> unat n = length bs \<Longrightarrow> bs \<noteq> [] \<Longrightarrow>
    placed (fold (move_item n) its bs) \<and> length (fold (move_item n) its bs) = length bs \<and>
    mset (concat (fold (move_item n) its bs)) = mset its + mset (concat bs)"
proof (induction its arbitrary: bs)
  case (Cons it its)
  note m = move_item_ok [OF Cons.prems, of it]
  then have "move_item n it bs \<noteq> []" using Cons.prems(3) by auto
  with Cons.IH [of "move_item n it bs"] m Cons.prems(2) show ?case by simp
qed simp

text \<open>Resizing keeps the invariant and the items.\<close>

definition same_items :: "'a lhash \<Rightarrow> 'a lhash \<Rightarrow> bool" where
  "same_items lh lh' \<longleftrightarrow> mset (items lh') = mset (items lh) \<and> callback_depth lh' = callback_depth lh \<and>
     next_addr lh' = next_addr lh"

lemma same_items_refl [simp]: "same_items lh lh"
  by (simp add: same_items_def)

lemma same_items_elems: "same_items lh lh' \<Longrightarrow> elems lh' = elems lh"
  using mset_eq_setD by (auto simp: same_items_def elems_def)

lemma lh_rebucket_ok:
  assumes "lh_ok hash cmp lh" "16 \<le> unat n"
  shows "lh_ok hash cmp (lh_rebucket mem_ok n lh) \<and> same_items lh (lh_rebucket mem_ok n lh)"
proof (cases "8 * n div 8 = n \<and> mem_ok (8 * n)")
  case True
  let ?e = "replicate (unat n) [] :: 'a item list list"
  let ?bs = "fold (fold (move_item n)) (buckets lh) ?e"
  have lh': "lh_rebucket mem_ok n lh = lh\<lparr>buckets := ?bs\<rparr>"
    using True by (simp add: lh_rebucket_def Let_def)
  have m: "placed ?bs" "length ?bs = unat n" "mset (concat ?bs) = mset (items lh)"
    using move_items_ok [OF placed_empty, where n = n and its = "concat (buckets lh)"] assms(2)
    by (simp_all add: fold_fold_concat items_def)
  have "length (concat ?bs) = length (items lh)" using m(3) by (rule mset_eq_length)
  moreover have "items_ok hash cmp (next_addr lh) (concat ?bs)"
    using assms(1) items_ok_mset [OF m(3)] by (simp add: lh_ok_def)
  ultimately show ?thesis
    using assms m mult8_div8 [of n] True unfolding lh'
    by (simp add: lh_ok_def items_def same_items_def)
qed (use assms in \<open>auto simp: lh_rebucket_def Let_def\<close>)

lemma unat_num_buckets: "lh_ok hash cmp lh \<Longrightarrow> unat (num_buckets lh) = length (buckets lh)"
  unfolding num_buckets_def by (simp only: unat_of_nat) (simp add: lh_ok_def)

lemma lh_maybe_resize_ok:
  assumes "lh_ok hash cmp lh"
  shows "lh_ok hash cmp (lh_maybe_resize mem_ok lh) \<and> same_items lh (lh_maybe_resize mem_ok lh)"
proof -
  note n = unat_num_buckets [OF assms]
  have n16: "16 \<le> unat (num_buckets lh)" using n assms by (simp add: lh_ok_def)
  have grow: "16 \<le> unat (num_buckets lh * 2)" if "num_buckets lh * 2 > num_buckets lh"
    using that n16 by (simp only: word_less_nat_alt)
  have shrink: "16 \<le> unat (if num_buckets lh div 2 < kMinNumBuckets then kMinNumBuckets else num_buckets lh div 2)"
    by (simp add: kMinNumBuckets_def word_less_nat_alt)
  show ?thesis
    unfolding lh_maybe_resize_def Let_def
    using assms lh_rebucket_ok [OF assms grow] lh_rebucket_ok [OF assms shrink]
    by (simp split: if_split)
qed

section \<open>Searching a chain\<close>

lemma chain_position_find:
  "(case find (\<lambda>it. P (item_data it)) chain of
      None \<Rightarrow> chain_position P chain = length chain
    | Some it \<Rightarrow> chain_position P chain < length chain \<and> chain ! chain_position P chain = it \<and>
        P (item_data it) \<and> it \<in> set chain)"
  by (induction chain) (auto simp: chain_position_def split: option.splits)

lemma item_at_find: "item_at lh i (chain_position P (buckets lh ! i)) = find (\<lambda>it. P (item_data it)) (buckets lh ! i)"
  using chain_position_find [of P "buckets lh ! i"] by (auto simp: item_at_def split: option.splits)

text \<open>The bucket of a hash value.\<close>

definition bucket_of :: "'a lhash \<Rightarrow> u32 \<Rightarrow> nat" where
  "bucket_of lh h = unat h mod length (buckets lh)"

lemma get_next_ptr_eq:
  assumes "lh_ok hash cmp lh"
  shows "get_next_ptr_and_hash lh x =
    (hash x, bucket_of lh (hash x), chain_position (\<lambda>d. cmp d x = 0) (buckets lh ! bucket_of lh (hash x)))"
proof -
  have "0 < unat (num_buckets lh)" using assms unat_num_buckets [OF assms] by (auto simp: lh_ok_def)
  then have "unat ((ucast (hash x) :: u64) mod num_buckets lh) = bucket_of lh (hash x)"
    using bucket_of_hash unat_num_buckets [OF assms] by (simp add: bucket_of_def)
  with assms show ?thesis by (simp add: get_next_ptr_and_hash_def Let_def lh_ok_def)
qed

lemma bucket_of_less: "lh_ok hash cmp lh \<Longrightarrow> bucket_of lh h < length (buckets lh)"
  unfolding bucket_of_def lh_ok_def by (intro mod_less_divisor) linarith

lemma bucket_items: "i < length (buckets lh) \<Longrightarrow> set (buckets lh ! i) \<subseteq> set (items lh)"
  using nth_mem by (fastforce simp: items_def)

text \<open>The item that the chain of a key leads to.\<close>

definition find_item :: "'a lhash \<Rightarrow> 'a \<Rightarrow> 'a item option" where
  "find_item lh x = find (\<lambda>it. lh_comp lh (item_data it) x = 0) (buckets lh ! bucket_of lh (lh_hash lh x))"

lemma item_at_ptr:
  assumes "lh_ok hash cmp lh" "get_next_ptr_and_hash lh x = (h, i, pos)"
  shows "item_at lh i pos = find_item lh x \<and> h = hash x \<and> i = bucket_of lh (hash x)"
  using assms(2) get_next_ptr_eq [OF assms(1), of x] assms(1)
    item_at_find [of lh "bucket_of lh (hash x)" "\<lambda>d. cmp d x = 0"]
  by (auto simp: find_item_def lh_ok_def)

context hash_contract
begin

text \<open>The chain of the key's hash value is the only place where an equal element can be.\<close>

lemma find_item_spec:
  assumes "lh_ok hash cmp lh"
  shows "case find_item lh x of
      Some it \<Rightarrow> it \<in> set (items lh) \<and> cmp (item_data it) x = 0
    | None \<Rightarrow> \<forall>it \<in> set (items lh). cmp (item_data it) x \<noteq> 0"
proof (cases "find_item lh x")
  case (Some it)
  then have "it \<in> set (buckets lh ! bucket_of lh (hash x)) \<and> cmp (item_data it) x = 0"
    using assms by (auto simp: find_item_def find_Some_iff lh_ok_def)
  with Some bucket_items [OF bucket_of_less [OF assms]] show ?thesis by auto
next
  case None
  have "cmp (item_data it) x \<noteq> 0" if "it \<in> set (items lh)" for it
  proof
    assume c: "cmp (item_data it) x = 0"
    from that obtain i where i: "i < length (buckets lh)" "it \<in> set (buckets lh ! i)"
      unfolding items_def by (metis UN_E in_set_conv_nth set_concat)
    have "unat (item_hash it) mod length (buckets lh) = i"
      by (rule placedD [OF lh_ok_placed [OF assms] i])
    moreover have "item_hash it = hash (item_data it)" by (rule items_ok_hash [OF lh_ok_items [OF assms] that])
    ultimately have "i = bucket_of lh (hash x)" using hash_eq [OF c] by (simp add: bucket_of_def)
    with i c None assms show False by (auto simp: find_item_def find_None_iff lh_ok_def)
  qed
  with None show ?thesis by simp
qed

lemma find_item_unique:
  assumes "lh_ok hash cmp lh" "find_item lh x = Some it" "it' \<in> set (items lh)" "cmp (item_data it') x = 0"
  shows "it' = it"
proof -
  have "it \<in> set (items lh)" "cmp (item_data it) x = 0" using find_item_spec [OF assms(1), of x] assms(2) by auto
  then have "cmp (item_data it') (item_data it) = 0" using assms(4) cmp_sym cmp_trans by blast
  with assms(1,3) \<open>it \<in> set (items lh)\<close> show ?thesis by (simp add: lh_ok_def items_ok_def)
qed

end

section \<open>Changing a chain\<close>

lemma bucket_split:
  assumes "i < length bs" "bs ! i = xs @ ms @ ys"
  shows "mset (concat (bs[i := xs @ zs @ ys])) + mset ms = mset (concat bs) + mset zs"
  using mset_concat_update [OF assms(1), of "xs @ zs @ ys"] assms(2) by simp

lemma find_item_split:
  assumes "find_item lh x = Some it" "item_at lh i pos = Some it"
  shows "buckets lh ! i = take pos (buckets lh ! i) @ [it] @ drop (pos + 1) (buckets lh ! i)"
  using assms(2) id_take_nth_drop [of pos "buckets lh ! i"] by (auto simp: item_at_def split: if_splits)

lemma items_ok_insert:
  assumes "items_ok hash cmp n its" "mset its' = add_mset it (mset its)"
    "item_hash it = hash (item_data it)" "addr it = n"
    "\<forall>a \<in> set its. cmp (item_data a) (item_data it) \<noteq> 0 \<and> cmp (item_data it) (item_data a) \<noteq> 0"
  shows "items_ok hash cmp (n + 1) its'"
proof -
  have "items_ok hash cmp (n + 1) (it # its)" using assms(1,3-5) by (fastforce simp: items_ok_def)
  with assms(2) items_ok_mset [of its' "it # its"] show ?thesis by simp
qed

lemma items_ok_remove:
  assumes "items_ok hash cmp n its" "mset its = add_mset it (mset its')"
  shows "items_ok hash cmp n its'"
proof -
  have "items_ok hash cmp n (it # its')" using assms items_ok_mset [of its "it # its'"] by simp
  then show ?thesis by (auto simp: items_ok_def)
qed

lemma items_ok_replace:
  assumes "items_ok hash cmp n its" "mset its = add_mset it (mset rest)" "mset its' = add_mset it' (mset rest)"
    "item_hash it' = hash (item_data it')" "addr it' = addr it"
    "\<forall>a \<in> set rest. cmp (item_data a) (item_data it') \<noteq> 0 \<and> cmp (item_data it') (item_data a) \<noteq> 0"
  shows "items_ok hash cmp n its'"
proof -
  have "items_ok hash cmp n (it # rest)" using assms(1,2) items_ok_mset [of its "it # rest"] by simp
  then have "items_ok hash cmp n (it' # rest)" using assms(4-6) by (fastforce simp: items_ok_def)
  with assms(3) items_ok_mset [of its' "it' # rest"] show ?thesis by simp
qed

section \<open>The operations keep the invariant\<close>

lemma lh_new_ok:
  "lh_new mem_ok hash cmp = Some lh \<Longrightarrow> lh_ok hash cmp lh \<and> items lh = [] \<and> callback_depth lh = 0"
  by (auto simp: lh_new_def lh_ok_def items_def kMinNumBuckets_def placed_empty items_ok_def split: if_splits)

lemma concat_replicate_Nil: "concat (replicate n []) = []"
  by (induction n) auto

text \<open>What a resize may change.\<close>

definition resized :: "'a lhash \<Rightarrow> 'a lhash \<Rightarrow> bool" where
  "resized lh lh' \<longleftrightarrow> mset (items lh') = mset (items lh) \<and> num_items lh' = num_items lh \<and>
     callback_depth lh' = callback_depth lh \<and> (callback_depth lh \<noteq> 0 \<longrightarrow> lh' = lh)"

lemma lh_maybe_resize_resized:
  assumes "lh_ok hash cmp lh"
  shows "lh_ok hash cmp (lh_maybe_resize mem_ok lh) \<and> resized lh (lh_maybe_resize mem_ok lh)"
proof -
  have n: "num_items (lh_rebucket mem_ok k lh) = num_items lh" for k by (simp add: lh_rebucket_def Let_def)
  have "num_items (lh_maybe_resize mem_ok lh) = num_items lh" by (simp add: lh_maybe_resize_def Let_def n)
  moreover have "callback_depth lh \<noteq> 0 \<longrightarrow> lh_maybe_resize mem_ok lh = lh"
    by (simp add: lh_maybe_resize_def word_neq_0_conv)
  ultimately show ?thesis using lh_maybe_resize_ok [OF assms, of mem_ok] by (simp add: resized_def same_items_def)
qed

lemma resized_elems: "resized lh lh' \<Longrightarrow> elems lh' = elems lh"
  using mset_eq_setD by (auto simp: resized_def elems_def)

context hash_contract
begin

lemma cmp_neq_sym: "cmp x y \<noteq> 0 \<longleftrightarrow> cmp y x \<noteq> 0"
  using cmp_sym by blast

lemma others_differ:
  assumes "lh_ok hash cmp lh" "find_item lh x = Some it" "mset (items lh) = add_mset it (mset rest)"
    "a \<in> set rest"
  shows "cmp (item_data a) x \<noteq> 0"
proof
  assume c: "cmp (item_data a) x = 0"
  have "a \<in># mset (items lh)" using assms(3,4) by simp
  then have "a = it" using find_item_unique [OF assms(1,2) _ c] by simp
  moreover have "items_ok hash cmp (next_addr lh) (it # rest)"
    using lh_ok_items [OF assms(1)] items_ok_mset [of "items lh" "it # rest"] assms(3) by simp
  then have "distinct (map addr (it # rest))" by (rule items_ok_distinct)
  ultimately show False using assms(4) by auto
qed

lemma keep_others: "\<not> P a \<Longrightarrow> \<forall>d \<in> R. P d \<Longrightarrow> {d \<in> insert a R. P d} = R"
  by auto

text \<open>The table after a chain lost the item that was found, with \<open>zs\<close> put in its place.\<close>

lemma found_update:
  assumes ok: "lh_ok hash cmp lh" and f: "find_item lh x = Some it"
    and p: "get_next_ptr_and_hash lh x = (h, i, pos)"
    and rep: "zs = [] \<or> zs = [it\<lparr>item_data := x\<rparr>]"
    and lh': "lh' = lh\<lparr>buckets := (buckets lh)[i := take pos (buckets lh ! i) @ zs @ drop (pos + 1) (buckets lh ! i)],
      num_items := num_items lh - (if zs = [] then 1 else 0)\<rparr>"
  shows "lh_ok hash cmp lh' \<and> elems lh' = {d \<in> elems lh. cmp d x \<noteq> 0} \<union> item_data ` set zs"
proof -
  from item_at_ptr [OF ok p] f have at: "item_at lh i pos = Some it" "i = bucket_of lh (hash x)" by auto
  have i: "i < length (buckets lh)" using at(2) bucket_of_less [OF ok] by simp
  let ?rest = "concat ((buckets lh)[i := take pos (buckets lh ! i) @ drop (pos + 1) (buckets lh ! i)])"
  note sp = find_item_split [OF f at(1)]
  have rest: "mset (items lh) = add_mset it (mset ?rest)"
    using bucket_split [OF i sp, of "[]"] by (simp add: items_def)
  have new: "mset (items lh') = mset zs + mset ?rest"
    using bucket_split [OF i sp, of zs] rest lh' by (simp add: items_def)
  have c: "cmp (item_data it) x = 0" "it \<in> set (items lh)" using find_item_spec [OF ok, of x] f by auto
  note iok = lh_ok_items [OF ok]
  have ith: "item_hash it = hash x" using items_ok_hash [OF iok c(2)] hash_eq [OF c(1)] by simp
  have others: "\<forall>a \<in> set ?rest. cmp (item_data a) x \<noteq> 0 \<and> cmp x (item_data a) \<noteq> 0"
    using others_differ [OF ok f rest] cmp_neq_sym by blast
  have "items_ok hash cmp (next_addr lh) (items lh')"
    using rep
  proof
    assume "zs = []"
    with new items_ok_remove [OF iok, of it "items lh'"] rest show ?thesis by simp
  next
    assume "zs = [it\<lparr>item_data := x\<rparr>]"
    with new ith others items_ok_replace [OF iok rest, of "items lh'" "it\<lparr>item_data := x\<rparr>"] show ?thesis by simp
  qed
  moreover have "placed (buckets lh')"
  proof -
    have "\<forall>a \<in> set (take pos (buckets lh ! i) @ zs @ drop (pos + 1) (buckets lh ! i)).
        unat (item_hash a) mod length (buckets lh) = i"
    proof
      fix a assume a: "a \<in> set (take pos (buckets lh ! i) @ zs @ drop (pos + 1) (buckets lh ! i))"
      show "unat (item_hash a) mod length (buckets lh) = i"
      proof (cases "a \<in> set zs")
        case True
        then have "item_hash a = hash x" using rep ith by auto
        then show ?thesis by (simp add: at(2) bucket_of_def)
      next
        case False
        then have "a \<in> set (buckets lh ! i)" using a by (auto dest: in_set_takeD in_set_dropD)
        then show ?thesis by (rule placedD [OF lh_ok_placed [OF ok] i])
      qed
    qed
    from placed_update [OF lh_ok_placed [OF ok] this] show ?thesis by (simp add: lh')
  qed
  moreover have "num_items lh' = of_nat (length (items lh'))"
  proof -
    have l: "length (items lh) = length ?rest + 1" using arg_cong [OF rest, of size] by simp
    have "length (items lh') = length zs + length ?rest" using arg_cong [OF new, of size] by simp
    then show ?thesis using rep ok lh' l by (auto simp: lh_ok_def)
  qed
  moreover have "elems lh' = {d \<in> elems lh. cmp d x \<noteq> 0} \<union> item_data ` set zs"
  proof -
    have "set (items lh') = set zs \<union> set ?rest" using mset_eq_setD [of "items lh'" "zs @ ?rest"] new by simp
    moreover have "set (items lh) = insert it (set ?rest)" using mset_eq_setD [of "items lh" "it # ?rest"] rest by simp
    ultimately have "elems lh' = item_data ` set zs \<union> item_data ` set ?rest"
      "elems lh = insert (item_data it) (item_data ` set ?rest)"
      by (simp_all only: elems_def image_Un image_insert)
    moreover have "{d \<in> insert (item_data it) (item_data ` set ?rest). cmp d x \<noteq> 0} = item_data ` set ?rest"
      by (rule keep_others) (use c(1) others in auto)
    ultimately show ?thesis by (simp only: Un_commute)
  qed
  ultimately show ?thesis using ok lh' by (simp add: lh_ok_def)
qed


text \<open>The table after a new item went to the end of the chain.\<close>

lemma append_update:
  assumes ok: "lh_ok hash cmp lh" and f: "find_item lh x = None"
    and p: "get_next_ptr_and_hash lh x = (h, i, pos)"
    and lh': "lh' = lh\<lparr>buckets := (buckets lh)[i := buckets lh ! i @ [\<lparr>addr = next_addr lh, item_data = x, item_hash = h\<rparr>]],
      num_items := num_items lh + 1, next_addr := next_addr lh + 1\<rparr>"
  shows "lh_ok hash cmp lh' \<and> elems lh' = insert x (elems lh)"
proof -
  from item_at_ptr [OF ok p] have at: "h = hash x" "i = bucket_of lh (hash x)" by auto
  have i: "i < length (buckets lh)" using at(2) bucket_of_less [OF ok] by simp
  let ?it = "\<lparr>addr = next_addr lh, item_data = x, item_hash = h\<rparr>"
  have new: "mset (items lh') = add_mset ?it (mset (items lh))"
    using bucket_split [OF i, of "buckets lh ! i" "[]" "[]" "[?it]"] lh' by (simp add: items_def)
  have none: "\<forall>a \<in> set (items lh). cmp (item_data a) x \<noteq> 0 \<and> cmp x (item_data a) \<noteq> 0"
    using find_item_spec [OF ok, of x] f cmp_neq_sym by auto
  have "items_ok hash cmp (next_addr lh + 1) (items lh')"
    using items_ok_insert [OF lh_ok_items [OF ok] new] at(1) none by simp
  moreover have "placed (buckets lh')"
  proof -
    have "\<forall>a \<in> set (buckets lh ! i @ [?it]). unat (item_hash a) mod length (buckets lh) = i"
      using placedD [OF lh_ok_placed [OF ok] i] at by (auto simp: bucket_of_def)
    from placed_update [OF lh_ok_placed [OF ok] this] show ?thesis by (simp add: lh')
  qed
  moreover have "length (items lh') = length (items lh) + 1" using arg_cong [OF new, of size] by simp
  moreover have "elems lh' = insert x (elems lh)"
    using mset_eq_setD [of "items lh'" "?it # items lh"] new by (simp add: elems_def)
  ultimately show ?thesis using ok lh' by (simp add: lh_ok_def)
qed

text \<open>The element of the table that equals a key.\<close>

lemma lh_retrieve_eq: "lh_ok hash cmp lh \<Longrightarrow> lh_retrieve lh x = map_option item_data (find_item lh x)"
  using item_at_ptr [of hash cmp lh x] by (auto simp: lh_retrieve_def split: prod.splits)

lemma lh_retrieve_spec:
  assumes "lh_ok hash cmp lh"
  shows "case lh_retrieve lh x of
      Some d \<Rightarrow> d \<in> elems lh \<and> cmp d x = 0
    | None \<Rightarrow> \<forall>d \<in> elems lh. cmp d x \<noteq> 0"
  using find_item_spec [OF assms, of x] lh_retrieve_eq [OF assms, of x]
  by (auto simp: elems_def split: option.splits)

lemma lh_insert_spec:
  assumes ok: "lh_ok hash cmp lh" and ins: "lh_insert mem_ok x lh = (r, old, lh')"
  shows "lh_ok hash cmp lh' \<and> callback_depth lh' = callback_depth lh \<and>
    (if r then elems lh' = insert x {d \<in> elems lh. cmp d x \<noteq> 0} \<and> old = lh_retrieve lh x \<and>
       num_items lh' = num_items lh + (if old = None then 1 else 0)
     else lh' = lh \<and> old = None \<and> lh_retrieve lh x = None \<and> \<not> mem_ok 24)"
proof -
  obtain h i pos where p: "get_next_ptr_and_hash lh x = (h, i, pos)" by (rule prod_cases3)
  have at: "item_at lh i pos = find_item lh x" by (rule item_at_ptr [OF ok p, THEN conjunct1])
  note ret = lh_retrieve_eq [OF ok, of x]
  show ?thesis
  proof (cases "find_item lh x")
    case (Some it)
    let ?lh = "lh\<lparr>buckets := (buckets lh)[i := (buckets lh ! i)[pos := it\<lparr>item_data := x\<rparr>]]\<rparr>"
    have pos: "pos < length (buckets lh ! i)" using at Some by (auto simp: item_at_def split: if_splits)
    have "?lh = lh\<lparr>buckets := (buckets lh)[i := take pos (buckets lh ! i) @ [it\<lparr>item_data := x\<rparr>] @ drop (pos + 1) (buckets lh ! i)],
      num_items := num_items lh - (if [it\<lparr>item_data := x\<rparr>] = [] then 1 else 0)\<rparr>"
      using upd_conv_take_nth_drop [OF pos] by simp
    from found_update [OF ok Some p disjI2 [OF refl] this]
    have "lh_ok hash cmp ?lh" "elems ?lh = insert x {d \<in> elems lh. cmp d x \<noteq> 0}" by auto
    moreover have "r" "old = Some (item_data it)" "lh' = ?lh"
      using ins p at Some by (simp_all add: lh_insert_def)
    ultimately show ?thesis using ret Some by simp
  next
    case None
    show ?thesis
    proof (cases "mem_ok 24")
      case False
      then show ?thesis using ins p at None ok ret by (auto simp: lh_insert_def)
    next
      case True
      let ?lh = "lh\<lparr>buckets := (buckets lh)[i := buckets lh ! i @ [\<lparr>addr = next_addr lh, item_data = x, item_hash = h\<rparr>]],
        num_items := num_items lh + 1, next_addr := next_addr lh + 1\<rparr>"
      from append_update [OF ok None p refl] have a: "lh_ok hash cmp ?lh" "elems ?lh = insert x (elems lh)" by auto
      have "{d \<in> elems lh. cmp d x \<noteq> 0} = elems lh" using lh_retrieve_spec [OF ok, of x] ret None by auto
      moreover have "r" "old = None" "lh' = lh_maybe_resize mem_ok ?lh"
        using ins p at None True by (simp_all add: lh_insert_def Let_def)
      ultimately show ?thesis
        using a ret None lh_maybe_resize_resized [OF a(1), of mem_ok] resized_elems [of ?lh lh']
        by (simp add: resized_def)
    qed
  qed
qed

lemma lh_delete_spec:
  assumes ok: "lh_ok hash cmp lh" and del: "lh_delete mem_ok x lh = (old, lh')"
  shows "lh_ok hash cmp lh' \<and> callback_depth lh' = callback_depth lh \<and> old = lh_retrieve lh x \<and>
    elems lh' = {d \<in> elems lh. cmp d x \<noteq> 0} \<and>
    num_items lh' = num_items lh - (if old = None then 0 else 1)"
proof -
  obtain h i pos where p: "get_next_ptr_and_hash lh x = (h, i, pos)" by (rule prod_cases3)
  have at: "item_at lh i pos = find_item lh x" by (rule item_at_ptr [OF ok p, THEN conjunct1])
  note ret = lh_retrieve_eq [OF ok, of x]
  show ?thesis
  proof (cases "find_item lh x")
    case None
    have "{d \<in> elems lh. cmp d x \<noteq> 0} = elems lh" using lh_retrieve_spec [OF ok, of x] ret None by auto
    then show ?thesis using del p at None ok ret by (auto simp: lh_delete_def)
  next
    case (Some it)
    let ?lh = "lh\<lparr>buckets := (buckets lh)[i := take pos (buckets lh ! i) @ drop (pos + 1) (buckets lh ! i)],
      num_items := num_items lh - 1\<rparr>"
    have "?lh = lh\<lparr>buckets := (buckets lh)[i := take pos (buckets lh ! i) @ [] @ drop (pos + 1) (buckets lh ! i)],
      num_items := num_items lh - (if [] = [] then 1 else 0)\<rparr>" by simp
    from found_update [OF ok Some p disjI1 [OF refl] this]
    have a: "lh_ok hash cmp ?lh" "elems ?lh = {d \<in> elems lh. cmp d x \<noteq> 0}" by auto
    moreover have "old = Some (item_data it)" "lh' = lh_maybe_resize mem_ok ?lh"
      using del p at Some by (simp_all add: lh_delete_def Let_def)
    ultimately show ?thesis
      using ret Some lh_maybe_resize_resized [OF a(1), of mem_ok] resized_elems [of ?lh lh']
      by (simp add: resized_def)
  qed
qed


section \<open>Iteration with deletion\<close>

lemma bucket_distinct:
  assumes "lh_ok hash cmp lh" "i < length (buckets lh)"
  shows "distinct (map addr (buckets lh ! i))"
  using items_ok_distinct [OF lh_ok_items [OF assms(1)]] nth_mem [OF assms(2)]
  by (auto simp: items_def map_concat distinct_concat_iff)

text \<open>In a table that is being iterated over, a deletion unlinks exactly the item.\<close>

lemma lh_delete_unlinks:
  assumes ok: "lh_ok hash cmp lh" and d: "callback_depth lh \<noteq> 0"
    and i: "i < length (buckets lh)" "buckets lh ! i = xs @ it # ys"
  shows "buckets (snd (lh_delete mem_ok (item_data it) lh)) = (buckets lh)[i := xs @ ys]"
proof -
  let ?x = "item_data it"
  have it: "it \<in> set (items lh)" using bucket_items [OF i(1)] i(2) by auto
  have f: "find_item lh ?x = Some it"
  proof (cases "find_item lh ?x")
    case None
    then show ?thesis using find_item_spec [OF ok, of ?x] it cmp_refl by auto
  next
    case (Some it')
    then show ?thesis using find_item_unique [OF ok Some it cmp_refl] by simp
  qed
  have b: "bucket_of lh (hash ?x) = i"
    using placedD [OF lh_ok_placed [OF ok] i(1), of it] items_ok_hash [OF lh_ok_items [OF ok] it] i(2)
    by (simp add: bucket_of_def)
  obtain h j pos where p: "get_next_ptr_and_hash lh ?x = (h, j, pos)" by (rule prod_cases3)
  then have "j = i" using item_at_ptr [OF ok p] b by blast
  have at: "item_at lh i pos = Some it" using item_at_ptr [OF ok p, THEN conjunct1] f \<open>j = i\<close> by simp
  have "distinct (buckets lh ! i)" using bucket_distinct [OF ok i(1)] by (simp add: distinct_map)
  moreover have "pos < length (buckets lh ! i)" "buckets lh ! i ! pos = it"
    using at by (auto simp: item_at_def split: if_splits)
  ultimately have "pos = length xs"
    using i(2) nth_eq_iff_index_eq [of "buckets lh ! i" pos "length xs"] by simp
  with p \<open>j = i\<close> at d i(2) show ?thesis
    by (simp add: lh_delete_def Let_def lh_maybe_resize_def word_neq_0_conv [symmetric])
qed

lemma depth_of_delete: "lh_ok hash cmp lh \<Longrightarrow> callback_depth (snd (lh_delete mem_ok x lh)) = callback_depth lh"
  using lh_delete_spec [of lh mem_ok x] by (cases "lh_delete mem_ok x lh") simp

lemma delete_keeps_ok: "lh_ok hash cmp lh \<Longrightarrow> lh_ok hash cmp (snd (lh_delete mem_ok x lh))"
  using lh_delete_spec [of lh mem_ok x] by (cases "lh_delete mem_ok x lh") simp

end

text \<open>A callback that records the element and deletes it when \<open>P\<close> holds of it.\<close>

definition sweep ::
    "(u64 \<Rightarrow> bool) \<Rightarrow> ('a \<Rightarrow> bool) \<Rightarrow> 'a \<Rightarrow> 'a lhash \<times> 'a list \<Rightarrow> 'a lhash \<times> 'a list" where
  "sweep mem_ok P x st =
     (case st of (lh, seen) \<Rightarrow> (if P x then snd (lh_delete mem_ok x lh) else lh, seen @ [x]))"

abbreviation kept :: "('a \<Rightarrow> bool) \<Rightarrow> 'a item list \<Rightarrow> 'a item list" where
  "kept P its \<equiv> filter (\<lambda>it. \<not> P (item_data it)) its"

lemma dropWhile_addr:
  "distinct (map addr (xs @ y # ys)) \<Longrightarrow> dropWhile (\<lambda>it. addr it \<noteq> addr y) (xs @ y # ys) = y # ys"
  by (induction xs) auto

context hash_contract
begin

lemma doall_chain_sweep:
  "lh_ok hash cmp lh \<Longrightarrow> callback_depth lh \<noteq> 0 \<Longrightarrow> i < length (buckets lh) \<Longrightarrow> buckets lh ! i = xs @ ys \<Longrightarrow>
    \<exists>lh'. doall_chain (sweep mem_ok P) i (head_addr ys) (lh, seen) = Some (lh', seen @ map item_data ys) \<and>
      lh_ok hash cmp lh' \<and> callback_depth lh' = callback_depth lh \<and>
      buckets lh' = (buckets lh)[i := xs @ kept P ys]"
proof (induction ys arbitrary: lh xs seen)
  case Nil
  then show ?case by (simp add: head_addr_def doall_chain.simps) (metis list_update_id)
next
  case (Cons y ys)
  have dw: "dropWhile (\<lambda>it. addr it \<noteq> addr y) (buckets lh ! i) = y # ys"
    using dropWhile_addr [of xs y ys] bucket_distinct [OF Cons.prems(1,3)] by (simp only: Cons.prems(4))
  let ?lh = "fst (sweep mem_ok P (item_data y) (lh, seen))"
  let ?xs = "if P (item_data y) then xs else xs @ [y]"
  have step: "doall_chain (sweep mem_ok P) i (head_addr (y # ys)) (lh, seen) =
      doall_chain (sweep mem_ok P) i (head_addr ys) (?lh, seen @ [item_data y])"
    using dw by (subst doall_chain.simps) (simp add: head_addr_def sweep_def)
  have ok: "lh_ok hash cmp ?lh" "callback_depth ?lh = callback_depth lh"
    using Cons.prems(1) delete_keeps_ok depth_of_delete by (simp_all add: sweep_def)
  have b: "buckets ?lh = (buckets lh)[i := ?xs @ ys]"
  proof (cases "P (item_data y)")
    case True
    then show ?thesis using lh_delete_unlinks [OF Cons.prems] by (simp add: sweep_def)
  next
    case False
    then show ?thesis using Cons.prems(4) list_update_id [of "buckets lh" i] by (simp add: sweep_def)
  qed
  have i': "i < length (buckets ?lh)" "buckets ?lh ! i = ?xs @ ys" using Cons.prems(3) by (simp_all only: b length_list_update nth_list_update_eq)
  from Cons.IH [OF ok(1) _ i', of "seen @ [item_data y]"] ok(2) Cons.prems(2) obtain lh' where
    "doall_chain (sweep mem_ok P) i (head_addr ys) (?lh, seen @ [item_data y]) = Some (lh', (seen @ [item_data y]) @ map item_data ys)"
    "lh_ok hash cmp lh'" "callback_depth lh' = callback_depth lh" "buckets lh' = (buckets ?lh)[i := ?xs @ kept P ys]" by auto
  then show ?case unfolding step b by (intro exI [of _ lh']) simp
qed

lemma doall_buckets_sweep:
  "lh_ok hash cmp lh \<Longrightarrow> callback_depth lh \<noteq> 0 \<Longrightarrow> i \<le> length (buckets lh) \<Longrightarrow>
    \<exists>lh'. doall_buckets (sweep mem_ok P) i (lh, seen) =
        Some (lh', seen @ map item_data (concat (drop i (buckets lh)))) \<and>
      lh_ok hash cmp lh' \<and> callback_depth lh' = callback_depth lh \<and>
      buckets lh' = take i (buckets lh) @ map (kept P) (drop i (buckets lh))"
proof (induction "length (buckets lh) - i" arbitrary: lh i seen)
  case 0
  then show ?case by (simp add: doall_buckets.simps)
next
  case (Suc n)
  then have i: "i < length (buckets lh)" by simp
  from doall_chain_sweep [OF Suc.prems(1,2) i, of "[]" "buckets lh ! i" mem_ok P seen] obtain lh1 where
    c: "doall_chain (sweep mem_ok P) i (head_addr (buckets lh ! i)) (lh, seen) = Some (lh1, seen @ map item_data (buckets lh ! i))"
    "lh_ok hash cmp lh1" "callback_depth lh1 = callback_depth lh" "buckets lh1 = (buckets lh)[i := kept P (buckets lh ! i)]"
    by auto
  have l: "length (buckets lh1) = length (buckets lh)" "drop (Suc i) (buckets lh1) = drop (Suc i) (buckets lh)"
    "take (Suc i) (buckets lh1) = take i (buckets lh) @ [kept P (buckets lh ! i)]"
    using i by (simp_all add: c(4) take_Suc_conv_app_nth)
  have "n = length (buckets lh1) - Suc i" using Suc.hyps(2) l(1) by simp
  from Suc.hyps(1) [OF this c(2), of "seen @ map item_data (buckets lh ! i)"] c(3) Suc.prems(2) i l
  obtain lh' where
    "doall_buckets (sweep mem_ok P) (Suc i) (lh1, seen @ map item_data (buckets lh ! i)) =
      Some (lh', (seen @ map item_data (buckets lh ! i)) @ map item_data (concat (drop (Suc i) (buckets lh))))"
    "lh_ok hash cmp lh'" "callback_depth lh' = callback_depth lh"
    "buckets lh' = (take i (buckets lh) @ [kept P (buckets lh ! i)]) @ map (kept P) (drop (Suc i) (buckets lh))"
    by (auto simp: Suc_le_eq)
  moreover have "drop i (buckets lh) = buckets lh ! i # drop (Suc i) (buckets lh)" using i by (simp add: Cons_nth_drop_Suc)
  ultimately show ?case using i c(1) by (intro exI [of _ lh']) (subst doall_buckets.simps, simp)
qed


text \<open>A lookup is determined by the elements.\<close>

lemma retrieve_unique:
  assumes "lh_ok hash cmp lh" "d \<in> elems lh" "cmp d y = 0"
  shows "lh_retrieve lh y = Some d"
proof -
  from assms(2) obtain it' where it': "it' \<in> set (items lh)" "d = item_data it'" by (auto simp: elems_def)
  show ?thesis
  proof (cases "find_item lh y")
    case None
    then show ?thesis using find_item_spec [OF assms(1), of y] it' assms(3) by auto
  next
    case (Some it)
    from find_item_unique [OF assms(1) Some it'(1)] it'(2) assms(3) Some lh_retrieve_eq [OF assms(1), of y]
    show ?thesis by simp
  qed
qed

lemma retrieve_none: "lh_ok hash cmp lh \<Longrightarrow> \<forall>d \<in> elems lh. cmp d y \<noteq> 0 \<Longrightarrow> lh_retrieve lh y = None"
  using lh_retrieve_spec [of lh y] by (auto split: option.splits)

lemma retrieve_cong:
  assumes "lh_ok hash cmp lh" "lh_ok hash cmp lh'"
    and same: "\<And>d. cmp d y = 0 \<Longrightarrow> d \<in> elems lh' \<longleftrightarrow> d \<in> elems lh"
  shows "lh_retrieve lh' y = lh_retrieve lh y"
proof (cases "lh_retrieve lh y")
  case None
  then have "\<forall>d \<in> elems lh'. cmp d y \<noteq> 0" using lh_retrieve_spec [OF assms(1), of y] same by auto
  with None show ?thesis using retrieve_none [OF assms(2)] by simp
next
  case (Some d)
  then have "d \<in> elems lh" "cmp d y = 0" using lh_retrieve_spec [OF assms(1), of y] by auto
  with Some same show ?thesis using retrieve_unique [OF assms(2)] by simp
qed

lemma retrieve_after_insert:
  assumes "lh_ok hash cmp lh" "lh_ok hash cmp lh'" "elems lh' = insert x {d \<in> elems lh. cmp d x \<noteq> 0}"
  shows "lh_retrieve lh' y = (if cmp x y = 0 then Some x else lh_retrieve lh y)"
proof (cases "cmp x y = 0")
  case True
  then show ?thesis using retrieve_unique [OF assms(2)] assms(3) by simp
next
  case False
  have "lh_retrieve lh' y = lh_retrieve lh y"
  proof (rule retrieve_cong [OF assms(1,2)])
    fix d assume d: "cmp d y = 0"
    have "cmp d x \<noteq> 0" using d False cmp_sym cmp_trans by blast
    moreover have "d \<noteq> x" using d False by auto
    ultimately show "d \<in> elems lh' \<longleftrightarrow> d \<in> elems lh" by (simp add: assms(3))
  qed
  with False show ?thesis by simp
qed

lemma retrieve_after_delete:
  assumes "lh_ok hash cmp lh" "lh_ok hash cmp lh'" "elems lh' = {d \<in> elems lh. cmp d x \<noteq> 0}"
  shows "lh_retrieve lh' y = (if cmp x y = 0 then None else lh_retrieve lh y)"
proof (cases "cmp x y = 0")
  case True
  have "\<forall>d \<in> elems lh'. cmp d y \<noteq> 0" using True assms(3) cmp_sym cmp_trans by blast
  then show ?thesis using retrieve_none [OF assms(2)] True by simp
next
  case False
  have "lh_retrieve lh' y = lh_retrieve lh y"
    by (rule retrieve_cong [OF assms(1,2)]) (use False assms(3) cmp_sym cmp_trans in blast)
  with False show ?thesis by simp
qed

lemma lh_doall_sweep:
  assumes ok: "lh_ok hash cmp lh" and d: "callback_depth lh < 0xfffffffe"
  shows "\<exists>lh'. lh_doall_arg mem_ok (sweep mem_ok P) (Some lh) [] = Some (Some lh', map item_data (items lh)) \<and>
    lh_ok hash cmp lh' \<and> callback_depth lh' = callback_depth lh \<and> elems lh' = {x \<in> elems lh. \<not> P x}"
proof -
  let ?lh = "lh\<lparr>callback_depth := callback_depth lh + 1\<rparr>"
  have w: "callback_depth lh + 1 \<noteq> 0" "callback_depth lh + 1 < 0xffffffff"
    using d by (simp_all add: word_less_nat_alt unat_word_ariths word_nat_lift)
  have ok': "lh_ok hash cmp ?lh" using ok by (simp add: lh_ok_def items_def)
  from doall_buckets_sweep [OF ok', of 0 mem_ok P "[]"] w(1) obtain lh1 where
    r: "doall_buckets (sweep mem_ok P) 0 (?lh, []) = Some (lh1, map item_data (items lh))"
      "lh_ok hash cmp lh1" "callback_depth lh1 = callback_depth lh + 1"
      "buckets lh1 = map (kept P) (buckets lh)" by (auto simp: items_def)
  let ?lh2 = "lh1\<lparr>callback_depth := callback_depth lh1 - 1\<rparr>"
  have ok2: "lh_ok hash cmp ?lh2" using r(2) by (simp add: lh_ok_def items_def)
  have "items ?lh2 = kept P (items lh)" by (simp add: items_def r(4) filter_concat)
  then have "elems ?lh2 = {x \<in> elems lh. \<not> P x}" by (auto simp: elems_def)
  moreover have "callback_depth lh < 0xffffffff" using d by (simp add: word_less_nat_alt)
  then have "lh_doall_arg mem_ok (sweep mem_ok P) (Some lh) [] =
      Some (Some (lh_maybe_resize mem_ok ?lh2), map item_data (items lh))"
    using r(1,3) w(2) by (simp add: lh_doall_arg_def)
  ultimately show ?thesis
    using lh_maybe_resize_resized [OF ok2, of mem_ok] resized_elems [of ?lh2 "lh_maybe_resize mem_ok ?lh2"] r(3)
    by (simp add: resized_def)
qed

end

text \<open>A lookup by a key of another type.\<close>

lemma lh_retrieve_key_eq:
  "lh_ok hash cmp lh \<Longrightarrow> \<forall>d. cmp_key key d = 0 \<longleftrightarrow> cmp d x = 0 \<Longrightarrow>
    lh_retrieve_key lh key (hash x) cmp_key = lh_retrieve lh x"
  by (simp add: lh_retrieve_key_def lh_retrieve_def get_next_ptr_by_key_def get_next_ptr_and_hash_def
      Let_def lh_ok_def)

section \<open>Configuration values\<close>

text \<open>The hash and comparison functions of \<open>crypto/conf/conf.c\<close>, the table that every \<open>CONF\<close> holds.
  The section is never \<open>NULL\<close>; \<open>strcmp\<close> is the library's.\<close>

record 'v conf_value =
  conf_section :: bytes
  conf_name :: "bytes option"
  conf_val :: "'v option"

fun strcmp :: "bytes \<Rightarrow> bytes \<Rightarrow> int" where
  "strcmp [] [] = 0"
| "strcmp [] (_ # _) = -1"
| "strcmp (_ # _) [] = 1"
| "strcmp (x # xs) (y # ys) = (if x = y then strcmp xs ys else if x < y then -1 else 1)"

definition conf_value_hash :: "'v conf_value \<Rightarrow> u32" where
  "conf_value_hash v = push_bit 2 (lh_strhash (Some (conf_section v))) XOR lh_strhash (conf_name v)"

definition conf_value_cmp :: "'v conf_value \<Rightarrow> 'v conf_value \<Rightarrow> int" where
  "conf_value_cmp a b =
     (let i = strcmp (conf_section a) (conf_section b)
      in if i \<noteq> 0 then i
         else (case (conf_name a, conf_name b) of
                 (Some n, Some m) \<Rightarrow> strcmp n m
               | (None, None) \<Rightarrow> 0
               | (None, Some _) \<Rightarrow> -1
               | (Some _, None) \<Rightarrow> 1))"

lemma strcmp_eq_0: "strcmp a b = 0 \<longleftrightarrow> a = b"
  by (induction a b rule: strcmp.induct) auto

lemma conf_value_cmp_eq_0: "conf_value_cmp a b = 0 \<longleftrightarrow> conf_section a = conf_section b \<and> conf_name a = conf_name b"
  by (auto simp: conf_value_cmp_def strcmp_eq_0 Let_def split: option.splits)

interpretation conf: hash_contract conf_value_hash conf_value_cmp
  by unfold_locales (simp_all add: conf_value_cmp_eq_0 conf_value_hash_def)

section \<open>The load\<close>

lemma length_lh_rebucket:
  assumes "\<forall>k. mem_ok k" "16 \<le> unat n" "unat n < 2 ^ 61"
  shows "length (buckets (lh_rebucket mem_ok n lh)) = unat n"
proof -
  have "unat (8 * n) = 8 * unat n" using assms(3) by (simp add: unat_word_ariths)
  then have "8 * n div 8 = n" by (simp only: word_nat_lift unat_div) simp
  moreover have "length (fold (fold (move_item n)) (buckets lh) (replicate (unat n) [])) = unat n"
    unfolding fold_fold_concat
    using move_items_ok [OF placed_empty, where n = n and its = "concat (buckets lh)"] assms(2) by simp
  ultimately show ?thesis using assms(1) by (simp add: lh_rebucket_def)
qed

text \<open>A resize brings the chains back below three items on average.\<close>

lemma lh_maybe_resize_load:
  assumes ok: "lh_ok hash cmp lh" and m: "\<forall>k. mem_ok k" and d: "callback_depth lh = 0"
    and nb: "length (buckets lh) < 2 ^ 60" and load: "length (items lh) \<le> 3 * length (buckets lh)"
  shows "length (items (lh_maybe_resize mem_ok lh)) < 3 * length (buckets (lh_maybe_resize mem_ok lh))"
proof -
  let ?n = "length (items lh)" and ?b = "length (buckets lh)"
  have b16: "16 \<le> ?b" using ok by (simp add: lh_ok_def)
  have nbu: "unat (num_buckets lh) = ?b" by (rule unat_num_buckets [OF ok])
  have "num_items lh = of_nat ?n" using ok by (simp add: lh_ok_def)
  then have "unat (num_items lh) = ?n" using load nb by (simp only: unat_of_nat) simp
  then have avg: "unat (num_items lh div num_buckets lh) = ?n div ?b" by (simp only: unat_div nbu)
  have len: "length (items (lh_maybe_resize mem_ok lh)) = ?n"
    using lh_maybe_resize_ok [OF ok, of mem_ok] by (auto simp: same_items_def dest: mset_eq_length)
  have dbl: "unat (num_buckets lh * 2) = 2 * ?b" using nb nbu by (simp add: unat_word_ariths)
  have gt: "num_buckets lh < num_buckets lh * 2" unfolding word_less_nat_alt dbl nbu using b16 by linarith
  consider (grow) "2 < ?n div ?b" | (shrink) "?n div ?b < 1" "16 < ?b"
    | (same) "?n div ?b \<le> 2" "\<not> (?n div ?b < 1 \<and> 16 < ?b)" by linarith
  then show ?thesis
  proof cases
    case grow
    then have "num_items lh div num_buckets lh > kMaxAverageChainLength"
      by (simp add: kMaxAverageChainLength_def word_less_nat_alt avg)
    then have "lh_maybe_resize mem_ok lh = lh_rebucket mem_ok (num_buckets lh * 2) lh"
      using d gt by (simp add: lh_maybe_resize_def)
    moreover have "length (buckets (lh_rebucket mem_ok (num_buckets lh * 2) lh)) = 2 * ?b"
      using length_lh_rebucket [OF m, of "num_buckets lh * 2" lh] nb b16 unfolding dbl by simp
    ultimately show ?thesis using load b16 len by simp
  next
    case shrink
    let ?new = "if num_buckets lh div 2 < kMinNumBuckets then kMinNumBuckets else num_buckets lh div 2"
    have "\<not> num_items lh div num_buckets lh > kMaxAverageChainLength"
      "num_items lh div num_buckets lh < kMinAverageChainLength" "num_buckets lh > kMinNumBuckets"
      unfolding kMaxAverageChainLength_def kMinAverageChainLength_def kMinNumBuckets_def word_less_nat_alt avg nbu
      using shrink by simp_all
    then have "lh_maybe_resize mem_ok lh = lh_rebucket mem_ok ?new lh" using d by (simp add: lh_maybe_resize_def Let_def)
    moreover have new: "unat ?new = max 16 (?b div 2)"
      by (simp add: kMinNumBuckets_def word_less_nat_alt unat_div nbu max_def)
    then have "length (buckets (lh_rebucket mem_ok ?new lh)) = unat ?new"
      by (intro length_lh_rebucket [OF m]) (use nb in auto)
    moreover have "?n < ?b" using shrink(1) b16 by (auto simp: div_eq_0_iff)
    moreover have "?b < 3 * max 16 (?b div 2)" using b16 by linarith
    ultimately show ?thesis using len new by simp
  next
    case same
    then have "\<not> num_items lh div num_buckets lh > kMaxAverageChainLength"
      "\<not> (num_items lh div num_buckets lh < kMinAverageChainLength \<and> num_buckets lh > kMinNumBuckets)"
      unfolding kMaxAverageChainLength_def kMinAverageChainLength_def kMinNumBuckets_def word_less_nat_alt avg nbu
      by simp_all
    then have "lh_maybe_resize mem_ok lh = lh" by (auto simp: lh_maybe_resize_def Let_def)
    moreover have "?n < 3 * ?b"
    proof -
      have "?n < ?b + ?n div ?b * ?b" by (rule dividend_less_div_times) (use b16 in linarith)
      also have "\<dots> \<le> ?b + 2 * ?b" by (intro add_left_mono mult_right_mono same(1)) simp
      also have "\<dots> = 3 * ?b" by simp
      finally show ?thesis .
    qed
    ultimately show ?thesis by simp
  qed
qed

text \<open>The sizes of the table before the final resize.\<close>

lemma length_items_update:
  assumes "i < length (buckets lh)" "buckets lh ! i = xs @ ms @ ys"
  shows "length (concat ((buckets lh)[i := xs @ zs @ ys])) + length ms = length (items lh) + length zs"
  using arg_cong [OF bucket_split [OF assms, of zs], of size] by (simp add: items_def)

context hash_contract
begin

lemma lh_insert_load:
  assumes ok: "lh_ok hash cmp lh" and m: "\<forall>k. mem_ok k" and d: "callback_depth lh = 0"
    and nb: "length (buckets lh) < 2 ^ 60" and load: "length (items lh) < 3 * length (buckets lh)"
    and ins: "lh_insert mem_ok x lh = (r, old, lh')"
  shows "length (items lh') < 3 * length (buckets lh')"
proof -
  obtain h i pos where p: "get_next_ptr_and_hash lh x = (h, i, pos)" by (rule prod_cases3)
  have at: "item_at lh i pos = find_item lh x" by (rule item_at_ptr [OF ok p, THEN conjunct1])
  have i: "i < length (buckets lh)" using item_at_ptr [OF ok p] bucket_of_less [OF ok] by simp
  show ?thesis
  proof (cases "find_item lh x")
    case (Some it)
    then have pos: "pos < length (buckets lh ! i)" using at by (auto simp: item_at_def split: if_splits)
    have "lh' = lh\<lparr>buckets := (buckets lh)[i := (buckets lh ! i)[pos := it\<lparr>item_data := x\<rparr>]]\<rparr>"
      using ins p at Some by (simp add: lh_insert_def)
    moreover have "length (concat ((buckets lh)[i := (buckets lh ! i)[pos := it\<lparr>item_data := x\<rparr>]])) = length (items lh)"
      using length_items_update [OF i find_item_split [of lh x it i pos], of "[it\<lparr>item_data := x\<rparr>]"] Some at
        upd_conv_take_nth_drop [OF pos] by simp
    ultimately show ?thesis using load by (simp add: items_def)
  next
    case None
    let ?it = "\<lparr>addr = next_addr lh, item_data = x, item_hash = h\<rparr>"
    let ?lh = "lh\<lparr>buckets := (buckets lh)[i := buckets lh ! i @ [?it]],
        num_items := num_items lh + 1, next_addr := next_addr lh + 1\<rparr>"
    have "lh' = lh_maybe_resize mem_ok ?lh" using ins p at None m by (simp add: lh_insert_def Let_def)
    moreover have "lh_ok hash cmp ?lh" using append_update [OF ok None p refl] by blast
    moreover have "length (items ?lh) = length (items lh) + 1"
      using length_items_update [OF i, of "buckets lh ! i" "[]" "[]" "[?it]"] by (simp add: items_def)
    ultimately show ?thesis using lh_maybe_resize_load [of hash cmp ?lh mem_ok] m d nb load by simp
  qed
qed

lemma lh_delete_load:
  assumes ok: "lh_ok hash cmp lh" and m: "\<forall>k. mem_ok k" and d: "callback_depth lh = 0"
    and nb: "length (buckets lh) < 2 ^ 60" and load: "length (items lh) < 3 * length (buckets lh)"
    and del: "lh_delete mem_ok x lh = (old, lh')"
  shows "length (items lh') < 3 * length (buckets lh')"
proof -
  obtain h i pos where p: "get_next_ptr_and_hash lh x = (h, i, pos)" by (rule prod_cases3)
  have at: "item_at lh i pos = find_item lh x" by (rule item_at_ptr [OF ok p, THEN conjunct1])
  have i: "i < length (buckets lh)" using item_at_ptr [OF ok p] bucket_of_less [OF ok] by simp
  show ?thesis
  proof (cases "find_item lh x")
    case None
    then show ?thesis using del p at load by (simp add: lh_delete_def)
  next
    case (Some it)
    let ?lh = "lh\<lparr>buckets := (buckets lh)[i := take pos (buckets lh ! i) @ drop (pos + 1) (buckets lh ! i)],
      num_items := num_items lh - 1\<rparr>"
    have "lh' = lh_maybe_resize mem_ok ?lh" using del p at Some by (simp add: lh_delete_def Let_def)
    moreover have "lh_ok hash cmp ?lh" using found_update [OF ok Some p disjI1 [OF refl], of ?lh] by simp
    moreover have "length (items ?lh) \<le> length (items lh)"
      using length_items_update [OF i find_item_split [of lh x it i pos], of "[]"] Some at by (simp add: items_def)
    ultimately show ?thesis using lh_maybe_resize_load [of hash cmp ?lh mem_ok] m d nb load by simp
  qed
qed

end

section \<open>Properties\<close>

text \<open>C26: inserting keeps the table well formed; it returns the equal element that it replaces, and
  afterwards every key finds what it found before, except the keys equal to the new element, which
  find that.  On failure the table is unchanged.\<close>

theorem lh_insert_correct:
  assumes "hash_contract hash cmp" "lh_ok hash cmp lh" "lh_insert mem_ok x lh = (r, old, lh')"
  shows "lh_ok hash cmp lh' \<and> callback_depth lh' = callback_depth lh \<and>
    (if r then old = lh_retrieve lh x \<and>
       (\<forall>y. lh_retrieve lh' y = (if cmp x y = 0 then Some x else lh_retrieve lh y)) \<and>
       lh_num_items lh' = lh_num_items lh + (if old = None then 1 else 0)
     else lh' = lh \<and> old = None \<and> \<not> mem_ok 24)"
  using hash_contract.lh_insert_spec [OF assms] hash_contract.retrieve_after_insert [OF assms(1,2)]
  by (auto simp: lh_num_items_def)

definition sample_lhash :: "unit conf_value lhash" where
  "sample_lhash = the (lh_new (\<lambda>_. True) conf_value_hash conf_value_cmp)"

lemma sample_lhash_ok:
  "lh_ok conf_value_hash conf_value_cmp sample_lhash" "callback_depth sample_lhash = 0" "items sample_lhash = []"
  "length (buckets sample_lhash) = 16"
proof -
  have new: "lh_new (\<lambda>_. True) conf_value_hash conf_value_cmp = Some sample_lhash"
    by (simp add: sample_lhash_def lh_new_def)
  from lh_new_ok [OF this] show "lh_ok conf_value_hash conf_value_cmp sample_lhash"
    "callback_depth sample_lhash = 0" "items sample_lhash = []" by simp_all
  show "length (buckets sample_lhash) = 16" by (simp add: sample_lhash_def lh_new_def kMinNumBuckets_def)
qed

definition sample_value :: "unit conf_value" where
  "sample_value = \<lparr>conf_section = [0x61], conf_name = Some [0x62], conf_val = None\<rparr>"

theorem lh_insert_correct_witness:
  "case lh_insert (\<lambda>_. True) sample_value sample_lhash of
     (r, old, lh') \<Rightarrow> lh_ok conf_value_hash conf_value_cmp lh' \<and> callback_depth lh' = callback_depth sample_lhash \<and>
       (if r then old = lh_retrieve sample_lhash sample_value \<and>
          (\<forall>y. lh_retrieve lh' y = (if conf_value_cmp sample_value y = 0 then Some sample_value
             else lh_retrieve sample_lhash y)) \<and>
          lh_num_items lh' = lh_num_items sample_lhash + (if old = None then 1 else 0)
        else lh' = sample_lhash \<and> old = None \<and> \<not> True)"
proof (cases "lh_insert (\<lambda>_. True) sample_value sample_lhash")
  case (fields r old lh')
  show ?thesis unfolding fields case_prod_conv
    by (rule lh_insert_correct [OF conf.hash_contract_axioms sample_lhash_ok(1) fields])
qed

text \<open>Deleting keeps the table well formed; it returns what a lookup would have found, and afterwards
  the keys equal to the argument find nothing and all others what they found before.\<close>

theorem lh_delete_correct:
  assumes "hash_contract hash cmp" "lh_ok hash cmp lh" "lh_delete mem_ok x lh = (old, lh')"
  shows "lh_ok hash cmp lh' \<and> callback_depth lh' = callback_depth lh \<and> old = lh_retrieve lh x \<and>
    (\<forall>y. lh_retrieve lh' y = (if cmp x y = 0 then None else lh_retrieve lh y)) \<and>
    lh_num_items lh' = lh_num_items lh - (if old = None then 0 else 1)"
  using hash_contract.lh_delete_spec [OF assms] hash_contract.retrieve_after_delete [OF assms(1,2)]
  by (simp add: lh_num_items_def)

theorem lh_delete_correct_witness:
  "case lh_delete (\<lambda>_. True) sample_value sample_lhash of
     (old, lh') \<Rightarrow> lh_ok conf_value_hash conf_value_cmp lh' \<and> callback_depth lh' = callback_depth sample_lhash \<and>
       old = lh_retrieve sample_lhash sample_value \<and>
       (\<forall>y. lh_retrieve lh' y = (if conf_value_cmp sample_value y = 0 then None else lh_retrieve sample_lhash y)) \<and>
       lh_num_items lh' = lh_num_items sample_lhash - (if old = None then 0 else 1)"
proof (cases "lh_delete (\<lambda>_. True) sample_value sample_lhash")
  case (Pair old lh')
  show ?thesis unfolding Pair case_prod_conv
    by (rule lh_delete_correct [OF conf.hash_contract_axioms sample_lhash_ok(1) Pair])
qed


definition one_value_lhash :: "unit conf_value lhash" where
  "one_value_lhash = snd (snd (lh_insert (\<lambda>_. True) sample_value sample_lhash))"

lemma one_value_lhash_ok:
  "lh_ok conf_value_hash conf_value_cmp one_value_lhash" "callback_depth one_value_lhash = 0"
  "elems one_value_lhash = {sample_value}"
proof -
  obtain r old lh' where i: "lh_insert (\<lambda>_. True) sample_value sample_lhash = (r, old, lh')" by (rule prod_cases3)
  have "elems sample_lhash = {}" by (simp add: elems_def sample_lhash_ok)
  with conf.lh_insert_spec [OF sample_lhash_ok(1) i] sample_lhash_ok(2) i
  show "lh_ok conf_value_hash conf_value_cmp one_value_lhash" "callback_depth one_value_lhash = 0"
    "elems one_value_lhash = {sample_value}"
    by (auto simp: one_value_lhash_def split: if_splits)
qed


text \<open>With memory available and outside iterations, insertions and deletions keep fewer than three items
  per bucket on average.\<close>

theorem lh_load_bounded:
  assumes "hash_contract hash cmp" "lh_ok hash cmp lh" "\<forall>k. mem_ok k" "callback_depth lh = 0"
    "length (buckets lh) < 2 ^ 60" "length (items lh) < 3 * length (buckets lh)"
    "lh' = snd (snd (lh_insert mem_ok x lh)) \<or> lh' = snd (lh_delete mem_ok x lh)"
  shows "length (items lh') < 3 * length (buckets lh')"
  using assms(7) hash_contract.lh_insert_load [OF assms(1-6)] hash_contract.lh_delete_load [OF assms(1-6)]
  by (metis prod.collapse)

theorem lh_load_bounded_witness:
  "length (items (snd (snd (lh_insert (\<lambda>_. True) sample_value sample_lhash)))) <
    3 * length (buckets (snd (snd (lh_insert (\<lambda>_. True) sample_value sample_lhash))))"
  by (rule lh_load_bounded [OF conf.hash_contract_axioms sample_lhash_ok(1) _ sample_lhash_ok(2) _ _ disjI1 [OF refl]])
    (simp_all add: sample_lhash_ok)

end
