(* ===== verification/Pool.thy ===== *)
theory Pool
  imports Lhash Cbb
begin

text \<open>
  \<open>crypto/pool/pool.c\<close>: reference-counted byte buffers that are shared through a pool when their
  contents are equal, over the hash table of \<open>Lhash\<close> and the counters of \<open>crypto/refcount_lock.c\<close>.
  A pointer to a buffer is its address with the parts of the buffer that never change; the
  reference counts of the buffers that are not freed are a map.  There is one pool.  A section
  between taking and releasing the pool's lock is one step, so that the steps of several threads
  interleave in every order.
\<close>

section \<open>Reference counts\<close>

definition CRYPTO_REFCOUNT_MAX :: u32 where
  "CRYPTO_REFCOUNT_MAX = 0xffffffff"

definition CRYPTO_refcount_inc :: "u32 \<Rightarrow> u32" where
  "CRYPTO_refcount_inc c = (if c < CRYPTO_REFCOUNT_MAX then c + 1 else c)"

text \<open>\<open>None\<close> stands for the call of \<open>abort\<close>.\<close>

definition CRYPTO_refcount_dec_and_test_zero :: "u32 \<Rightarrow> (u32 \<times> bool) option" where
  "CRYPTO_refcount_dec_and_test_zero c =
     (if c = 0 then None
      else let c = (if c < CRYPTO_REFCOUNT_MAX then c - 1 else c) in Some (c, c = 0))"

section \<open>Buffers and the pool\<close>

record crypto_buffer =
  buf_id :: nat
  buf_data :: bytes
  buf_pool :: bool

record pool_state =
  bufs :: "crypto_buffer lhash"
  refs :: "nat \<Rightarrow> u32 option"
  next_id :: nat

definition CRYPTO_BUFFER_hash :: "crypto_buffer \<Rightarrow> u32" where
  "CRYPTO_BUFFER_hash b = OPENSSL_hash32 (buf_data b) (length (buf_data b))"

definition CRYPTO_BUFFER_cmp :: "crypto_buffer \<Rightarrow> crypto_buffer \<Rightarrow> int" where
  "CRYPTO_BUFFER_cmp a b =
     (if length (buf_data a) \<noteq> length (buf_data b) then 1
      else memcmp_sign (buf_data a) (buf_data b) (length (buf_data a)))"

text \<open>The pool's structure takes 8 bytes and its lock; a buffer takes 32 bytes.\<close>

definition CRYPTO_BUFFER_POOL_new :: "(u64 \<Rightarrow> bool) \<Rightarrow> u64 \<Rightarrow> pool_state option" where
  "CRYPTO_BUFFER_POOL_new mem_ok lock_size =
     (if \<not> mem_ok (8 + lock_size) then None
      else case lh_new mem_ok CRYPTO_BUFFER_hash CRYPTO_BUFFER_cmp of
             None \<Rightarrow> None
           | Some lh \<Rightarrow> Some \<lparr>bufs = lh, refs = (\<lambda>_. None), next_id = 0\<rparr>)"

definition inc_ref :: "crypto_buffer \<Rightarrow> pool_state \<Rightarrow> pool_state" where
  "inc_ref b st = st\<lparr>refs := (refs st)(buf_id b := map_option CRYPTO_refcount_inc (refs st (buf_id b)))\<rparr>"

text \<open>Releasing the memory of a buffer.\<close>

definition release :: "crypto_buffer \<Rightarrow> pool_state \<Rightarrow> pool_state" where
  "release b st = st\<lparr>refs := (refs st)(buf_id b := None)\<rparr>"

text \<open>The first locked section of \<open>CRYPTO_BUFFER_new\<close>: \<open>tmp\<close> only carries the data.\<close>

definition pool_lookup :: "bytes \<Rightarrow> pool_state \<Rightarrow> crypto_buffer option \<times> pool_state" where
  "pool_lookup data st =
     (let tmp = \<lparr>buf_id = 0, buf_data = data, buf_pool = False\<rparr>
      in case lh_retrieve (bufs st) tmp of
           None \<Rightarrow> (None, st)
         | Some duplicate \<Rightarrow> (Some duplicate, inc_ref duplicate st))"

definition new_buffer :: "(u64 \<Rightarrow> bool) \<Rightarrow> bool \<Rightarrow> bytes \<Rightarrow> pool_state \<Rightarrow> crypto_buffer option \<times> pool_state" where
  "new_buffer mem_ok pool data st =
     (if \<not> mem_ok 32 then (None, st)
      else if length data \<noteq> 0 \<and> OPENSSL_memdup mem_ok data (of_nat (length data)) = None then (None, st)
      else
        (Some \<lparr>buf_id = next_id st, buf_data = data, buf_pool = pool\<rparr>,
         st\<lparr>refs := (refs st)(next_id st := Some 1), next_id := next_id st + 1\<rparr>))"

text \<open>The second locked section and what follows it.\<close>

definition pool_add :: "(u64 \<Rightarrow> bool) \<Rightarrow> crypto_buffer \<Rightarrow> pool_state \<Rightarrow> crypto_buffer option \<times> pool_state" where
  "pool_add mem_ok nb st =
     (case lh_retrieve (bufs st) nb of
        None \<Rightarrow>
          (case lh_insert mem_ok nb (bufs st) of
             (True, _, lh) \<Rightarrow> (Some nb, st\<lparr>bufs := lh\<rparr>)
           | (False, _, lh) \<Rightarrow> (None, release nb (st\<lparr>bufs := lh\<rparr>)))
      | Some duplicate \<Rightarrow> (Some duplicate, release nb (inc_ref duplicate st)))"

definition CRYPTO_BUFFER_new ::
    "(u64 \<Rightarrow> bool) \<Rightarrow> bytes \<Rightarrow> bool \<Rightarrow> pool_state \<Rightarrow> crypto_buffer option \<times> pool_state" where
  "CRYPTO_BUFFER_new mem_ok data pool st =
     (case (if pool then pool_lookup data st else (None, st)) of
        (Some duplicate, st) \<Rightarrow> (Some duplicate, st)
      | (None, st) \<Rightarrow>
          (case new_buffer mem_ok pool data st of
             (None, st) \<Rightarrow> (None, st)
           | (Some nb, st) \<Rightarrow> if \<not> pool then (Some nb, st) else pool_add mem_ok nb st))"

text \<open>\<open>data\<close> is what the caller stores at \<open>*out_data\<close>.\<close>

definition CRYPTO_BUFFER_alloc :: "(u64 \<Rightarrow> bool) \<Rightarrow> bytes \<Rightarrow> pool_state \<Rightarrow> crypto_buffer option \<times> pool_state" where
  "CRYPTO_BUFFER_alloc mem_ok data st =
     (if \<not> mem_ok 32 then (None, st)
      else if length data \<noteq> 0 \<and> \<not> mem_ok (of_nat (length data)) then (None, st)
      else
        (Some \<lparr>buf_id = next_id st, buf_data = data, buf_pool = False\<rparr>,
         st\<lparr>refs := (refs st)(next_id st := Some 1), next_id := next_id st + 1\<rparr>))"

definition CRYPTO_BUFFER_new_from_CBS ::
    "(u64 \<Rightarrow> bool) \<Rightarrow> cbs \<Rightarrow> bool \<Rightarrow> pool_state \<Rightarrow> crypto_buffer option \<times> pool_state" where
  "CRYPTO_BUFFER_new_from_CBS mem_ok cbs pool st = CRYPTO_BUFFER_new mem_ok (CBS_data cbs) pool st"

text \<open>\<open>None\<close> when the reference count is zero already, or when the buffer is freed.\<close>

definition CRYPTO_BUFFER_free :: "(u64 \<Rightarrow> bool) \<Rightarrow> crypto_buffer option \<Rightarrow> pool_state \<Rightarrow> pool_state option" where
  "CRYPTO_BUFFER_free mem_ok nb st =
     (case nb of
        None \<Rightarrow> Some st
      | Some b \<Rightarrow>
          (case Option.bind (refs st (buf_id b)) CRYPTO_refcount_dec_and_test_zero of
             None \<Rightarrow> None
           | Some (c, zero) \<Rightarrow>
               let st = st\<lparr>refs := (refs st)(buf_id b := Some c)\<rparr>
               in if \<not> zero then Some st
                  else if \<not> buf_pool b then Some (release b st)
                  else (case lh_delete mem_ok b (bufs st) of
                          (found, lh) \<Rightarrow> Some (release b (st\<lparr>bufs := lh\<rparr>)))))"

definition CRYPTO_BUFFER_up_ref :: "crypto_buffer \<Rightarrow> pool_state \<Rightarrow> pool_state" where
  "CRYPTO_BUFFER_up_ref b st = inc_ref b st"

definition CRYPTO_BUFFER_data :: "crypto_buffer \<Rightarrow> bytes" where
  "CRYPTO_BUFFER_data b = buf_data b"

definition CRYPTO_BUFFER_len :: "crypto_buffer \<Rightarrow> nat" where
  "CRYPTO_BUFFER_len b = length (buf_data b)"

definition CRYPTO_BUFFER_init_CBS :: "crypto_buffer \<Rightarrow> cbs" where
  "CRYPTO_BUFFER_init_CBS b = CBS_init (buf_data b) (length (buf_data b))"

section \<open>The comparison\<close>

lemma memcmp_sign_eq_0: "length a = length b \<Longrightarrow> memcmp_sign a b (length a) = 0 \<longleftrightarrow> a = b"
  by (induction a b rule: list_induct2) auto

lemma CRYPTO_BUFFER_cmp_eq_0: "CRYPTO_BUFFER_cmp a b = 0 \<longleftrightarrow> buf_data a = buf_data b"
  using memcmp_sign_eq_0 [of "buf_data a" "buf_data b"] by (auto simp: CRYPTO_BUFFER_cmp_def)

interpretation pool: hash_contract CRYPTO_BUFFER_hash CRYPTO_BUFFER_cmp
  by unfold_locales (simp_all add: CRYPTO_BUFFER_cmp_eq_0 CRYPTO_BUFFER_hash_def)

section \<open>Threads that share the pool\<close>

text \<open>\<open>held\<close> are the references that threads own; \<open>pending\<close> are the buffers that a call of
  \<open>CRYPTO_BUFFER_new\<close> has made and not yet offered to the pool.  Every step has an allocator of its own, so
  that the same request may succeed now and fail later.\<close>

record shared =
  pst :: pool_state
  held :: "crypto_buffer multiset"
  pending :: "crypto_buffer multiset"

inductive pool_step :: "shared \<Rightarrow> shared \<Rightarrow> bool" where
  lookup: "pool_lookup data (pst s) = (Some b, st) \<Longrightarrow>
    pool_step s (s\<lparr>pst := st, held := add_mset b (held s)\<rparr>)"
| make: "new_buffer mem_ok True data (pst s) = (Some b, st) \<Longrightarrow>
    pool_step s (s\<lparr>pst := st, pending := add_mset b (pending s)\<rparr>)"
| make_plain: "new_buffer mem_ok False data (pst s) = (Some b, st) \<Longrightarrow>
    pool_step s (s\<lparr>pst := st, held := add_mset b (held s)\<rparr>)"
| alloc: "CRYPTO_BUFFER_alloc mem_ok data (pst s) = (Some b, st) \<Longrightarrow>
    pool_step s (s\<lparr>pst := st, held := add_mset b (held s)\<rparr>)"
| add: "b \<in># pending s \<Longrightarrow> pool_add mem_ok b (pst s) = (r, st) \<Longrightarrow>
    pool_step s (s\<lparr>pst := st, pending := pending s - {#b#},
      held := (case r of None \<Rightarrow> held s | Some b' \<Rightarrow> add_mset b' (held s))\<rparr>)"
| up_ref: "b \<in># held s \<Longrightarrow>
    pool_step s (s\<lparr>pst := CRYPTO_BUFFER_up_ref b (pst s), held := add_mset b (held s)\<rparr>)"
| free: "b \<in># held s \<Longrightarrow> CRYPTO_BUFFER_free mem_ok (Some b) (pst s) = Some st \<Longrightarrow>
    pool_step s (s\<lparr>pst := st, held := held s - {#b#}\<rparr>)"

inductive pool_reachable :: "shared \<Rightarrow> bool" where
  init: "CRYPTO_BUFFER_POOL_new mem_ok lock_size = Some st \<Longrightarrow>
    pool_reachable \<lparr>pst = st, held = {#}, pending = {#}\<rparr>"
| step: "pool_reachable s \<Longrightarrow> pool_step s s' \<Longrightarrow> pool_reachable s'"

section \<open>The invariant\<close>

abbreviation pooled :: "shared \<Rightarrow> crypto_buffer set" where
  "pooled s \<equiv> elems (bufs (pst s))"

abbreviation refcount :: "shared \<Rightarrow> crypto_buffer \<Rightarrow> u32 option" where
  "refcount s b \<equiv> refs (pst s) (buf_id b)"

definition known :: "shared \<Rightarrow> crypto_buffer set" where
  "known s = set_mset (held s) \<union> set_mset (pending s) \<union> pooled s"

text \<open>A count that is not saturated is the number of references that threads own.\<close>

definition counted :: "shared \<Rightarrow> crypto_buffer \<Rightarrow> bool" where
  "counted s b \<longleftrightarrow> (case refcount s b of None \<Rightarrow> False
     | Some c \<Rightarrow> c = CRYPTO_REFCOUNT_MAX \<or> c \<noteq> 0 \<and> unat c = count (held s) b)"

definition pool_inv :: "shared \<Rightarrow> bool" where
  "pool_inv s \<longleftrightarrow>
     lh_ok CRYPTO_BUFFER_hash CRYPTO_BUFFER_cmp (bufs (pst s)) \<and>
     (\<forall>b \<in> known s. buf_id b < next_id (pst s)) \<and>
     inj_on buf_id (known s) \<and>
     (\<forall>b \<in># held s. buf_pool b \<longrightarrow> b \<in> pooled s) \<and>
     (\<forall>b \<in> pooled s. buf_pool b) \<and>
     (\<forall>b \<in># pending s. buf_pool b \<and> b \<notin># held s \<and> b \<notin> pooled s \<and> count (pending s) b = 1 \<and>
        refcount s b = Some 1) \<and>
     (\<forall>b \<in> set_mset (held s) \<union> pooled s. counted s b)"

lemma pool_invD:
  assumes "pool_inv s"
  shows "lh_ok CRYPTO_BUFFER_hash CRYPTO_BUFFER_cmp (bufs (pst s))"
    "b \<in> known s \<Longrightarrow> buf_id b < next_id (pst s)"
    "inj_on buf_id (known s)"
    "b \<in># held s \<Longrightarrow> buf_pool b \<Longrightarrow> b \<in> pooled s"
    "b \<in> pooled s \<Longrightarrow> buf_pool b"
    "b \<in># pending s \<Longrightarrow> buf_pool b \<and> b \<notin># held s \<and> b \<notin> pooled s \<and> count (pending s) b = 1 \<and>
       refcount s b = Some 1"
    "b \<in># held s \<or> b \<in> pooled s \<Longrightarrow> counted s b"
  using assms by (auto simp: pool_inv_def)

lemma pool_invI:
  assumes "lh_ok CRYPTO_BUFFER_hash CRYPTO_BUFFER_cmp (bufs (pst s))"
    "\<And>b. b \<in> known s \<Longrightarrow> buf_id b < next_id (pst s)"
    "inj_on buf_id (known s)"
    "\<And>b. b \<in># held s \<Longrightarrow> buf_pool b \<Longrightarrow> b \<in> pooled s"
    "\<And>b. b \<in> pooled s \<Longrightarrow> buf_pool b"
    "\<And>b. b \<in># pending s \<Longrightarrow> buf_pool b \<and> b \<notin># held s \<and> b \<notin> pooled s \<and> count (pending s) b = 1 \<and>
       refcount s b = Some 1"
    "\<And>b. b \<in># held s \<or> b \<in> pooled s \<Longrightarrow> counted s b"
  shows "pool_inv s"
  using assms by (auto simp: pool_inv_def)

lemma known_cases: "b \<in> known s \<longleftrightarrow> b \<in># held s \<or> b \<in># pending s \<or> b \<in> pooled s"
  by (auto simp: known_def)

lemma same_id: "pool_inv s \<Longrightarrow> a \<in> known s \<Longrightarrow> b \<in> known s \<Longrightarrow> buf_id a = buf_id b \<Longrightarrow> a = b"
  using pool_invD(3) by (auto dest: inj_onD)

lemma counted_cong:
  "refcount s' a = refcount s a \<Longrightarrow> count (held s') a = count (held s) a \<Longrightarrow> counted s' a = counted s a"
  by (simp add: counted_def split: option.split)

text \<open>Taking one more reference.\<close>

lemma counted_inc:
  "counted s b \<Longrightarrow> counted (s\<lparr>pst := inc_ref b (pst s), held := add_mset b (held s)\<rparr>) b"
proof -
  assume "counted s b"
  then obtain c where c: "refcount s b = Some c" "c = CRYPTO_REFCOUNT_MAX \<or> c \<noteq> 0 \<and> unat c = count (held s) b"
    by (auto simp: counted_def split: option.splits)
  show ?thesis
  proof (cases "c < CRYPTO_REFCOUNT_MAX")
    case True
    then have "unat c < 2 ^ 32 - 1" by (simp add: CRYPTO_REFCOUNT_MAX_def word_less_nat_alt)
    then have "unat (c + 1) = unat c + 1" by (simp add: unat_word_ariths)
    moreover from this have "c + 1 \<noteq> 0" by (metis Suc_eq_plus1 nat.simps(3) unat_0)
    ultimately show ?thesis using c True by (auto simp: counted_def inc_ref_def CRYPTO_refcount_inc_def)
  next
    case False
    moreover have "unat c < 2 ^ 32" using unsigned_less [of c, where 'a = nat] by simp
    ultimately have "c = CRYPTO_REFCOUNT_MAX"
      by (simp add: CRYPTO_REFCOUNT_MAX_def word_less_nat_alt word_nat_lift)
    then show ?thesis using c by (simp add: counted_def inc_ref_def CRYPTO_refcount_inc_def)
  qed
qed

lemma inv_inc:
  assumes inv: "pool_inv s" and b: "b \<in># held s \<or> b \<in> pooled s"
  shows "pool_inv (s\<lparr>pst := inc_ref b (pst s), held := add_mset b (held s)\<rparr>)"
proof -
  let ?s = "s\<lparr>pst := inc_ref b (pst s), held := add_mset b (held s)\<rparr>"
  have k: "known ?s = known s" using b by (auto simp: known_def inc_ref_def)
  have other: "refcount ?s a = refcount s a" if "a \<in> known s" "a \<noteq> b" for a
    using same_id [OF inv that(1), of b] b that by (auto simp: inc_ref_def known_cases)
  have "counted ?s a" if "a \<in># held ?s \<or> a \<in> pooled ?s" for a
  proof (cases "a = b")
    case True
    then show ?thesis using counted_inc [of s b] pool_invD(7) [OF inv b] by simp
  next
    case False
    then have "a \<in># held s \<or> a \<in> pooled s" using that by (auto simp: inc_ref_def)
    then show ?thesis using pool_invD(7) [OF inv, of a] counted_cong [of ?s a s] other [of a] False
      by (auto simp: known_cases)
  qed
  moreover have "refcount ?s a = Some 1 \<and> a \<noteq> b" if "a \<in># pending s" for a
    using pool_invD(6) [OF inv that] b other [of a] that by (auto simp: known_cases)
  ultimately show ?thesis
    using inv b unfolding pool_inv_def k by (auto simp: inc_ref_def)
qed

text \<open>A new buffer, for a call in progress or for its caller.\<close>

lemma inv_make:
  assumes inv: "pool_inv s" and nb: "buf_id b = next_id (pst s)" "buf_pool b"
    and st: "st = (pst s)\<lparr>refs := (refs (pst s))(next_id (pst s) := Some 1), next_id := next_id (pst s) + 1\<rparr>"
  shows "pool_inv (s\<lparr>pst := st, pending := add_mset b (pending s)\<rparr>)" (is "pool_inv ?s")
proof (rule pool_invI)
  have fresh: "b \<notin> known s" using pool_invD(2) [OF inv, of b] nb by auto
  have k: "known ?s = insert b (known s)" by (auto simp: known_def st)
  have keep: "refcount ?s a = refcount s a" if "a \<in> known s" for a
    using pool_invD(2) [OF inv that] by (simp add: st)
  show "lh_ok CRYPTO_BUFFER_hash CRYPTO_BUFFER_cmp (bufs (pst ?s))" using pool_invD(1) [OF inv] by (simp add: st)
  show "buf_id a < next_id (pst ?s)" if "a \<in> known ?s" for a
    using pool_invD(2) [OF inv, of a] that nb k by (auto simp: st)
  show "inj_on buf_id (known ?s)"
    unfolding k using pool_invD(3) [OF inv] pool_invD(2) [OF inv] nb by (fastforce simp: inj_on_def)
  show "a \<in> pooled ?s" if "a \<in># held ?s" "buf_pool a" for a using pool_invD(4) [OF inv, of a] that by (simp add: st)
  show "buf_pool a" if "a \<in> pooled ?s" for a using pool_invD(5) [OF inv, of a] that by (simp add: st)
  show "buf_pool a \<and> a \<notin># held ?s \<and> a \<notin> pooled ?s \<and> count (pending ?s) a = 1 \<and> refcount ?s a = Some 1"
    if "a \<in># pending ?s" for a
  proof (cases "a = b")
    case True
    then show ?thesis using fresh nb by (simp add: st known_cases not_in_iff)
  next
    case False
    then have "a \<in># pending s" using that by simp
    with pool_invD(6) [OF inv this] keep [of a] False show ?thesis by (simp add: known_cases st)
  qed
  show "counted ?s a" if "a \<in># held ?s \<or> a \<in> pooled ?s" for a
  proof -
    have a: "a \<in># held s \<or> a \<in> pooled s" using that by (simp add: st)
    then have "a \<in> known s" by (auto simp: known_cases)
    with pool_invD(7) [OF inv a] counted_cong [of ?s a s] keep show ?thesis by simp
  qed
qed

lemma inv_make_plain:
  assumes inv: "pool_inv s" and nb: "buf_id b = next_id (pst s)" "\<not> buf_pool b"
    and st: "st = (pst s)\<lparr>refs := (refs (pst s))(next_id (pst s) := Some 1), next_id := next_id (pst s) + 1\<rparr>"
  shows "pool_inv (s\<lparr>pst := st, held := add_mset b (held s)\<rparr>)" (is "pool_inv ?s")
proof (rule pool_invI)
  have fresh: "b \<notin> known s" using pool_invD(2) [OF inv, of b] nb by auto
  have k: "known ?s = insert b (known s)" by (auto simp: known_def st)
  have keep: "refcount ?s a = refcount s a" if "a \<in> known s" for a
    using pool_invD(2) [OF inv that] by (simp add: st)
  show "lh_ok CRYPTO_BUFFER_hash CRYPTO_BUFFER_cmp (bufs (pst ?s))" using pool_invD(1) [OF inv] by (simp add: st)
  show "buf_id a < next_id (pst ?s)" if "a \<in> known ?s" for a
    using pool_invD(2) [OF inv, of a] that nb k by (auto simp: st)
  show "inj_on buf_id (known ?s)"
    unfolding k using pool_invD(3) [OF inv] pool_invD(2) [OF inv] nb by (fastforce simp: inj_on_def)
  show "a \<in> pooled ?s" if "a \<in># held ?s" "buf_pool a" for a
    using pool_invD(4) [OF inv, of a] that nb by (auto simp: st)
  show "buf_pool a" if "a \<in> pooled ?s" for a using pool_invD(5) [OF inv, of a] that by (simp add: st)
  show "buf_pool a \<and> a \<notin># held ?s \<and> a \<notin> pooled ?s \<and> count (pending ?s) a = 1 \<and> refcount ?s a = Some 1"
    if "a \<in># pending ?s" for a
  proof -
    have p: "a \<in># pending s" using that by simp
    then have "a \<noteq> b" "a \<in> known s" using fresh by (auto simp: known_cases)
    with pool_invD(6) [OF inv p] keep [of a] show ?thesis by (simp add: st)
  qed
  show "counted ?s a" if "a \<in># held ?s \<or> a \<in> pooled ?s" for a
  proof (cases "a = b")
    case True
    have "count (held s) b = 0" using fresh by (simp add: known_cases not_in_iff)
    with True show ?thesis using nb by (simp add: counted_def st)
  next
    case False
    then have a: "a \<in># held s \<or> a \<in> pooled s" using that by (auto simp: st)
    then have "a \<in> known s" by (auto simp: known_cases)
    with pool_invD(7) [OF inv a] counted_cong [of ?s a s] keep False show ?thesis by simp
  qed
qed

text \<open>Dropping a buffer that was not offered to the pool.\<close>

lemma inv_drop:
  assumes inv: "pool_inv s" and b: "b \<in># pending s"
  shows "pool_inv (s\<lparr>pst := release b (pst s), pending := pending s - {#b#}\<rparr>)"
proof -
  let ?s = "s\<lparr>pst := release b (pst s), pending := pending s - {#b#}\<rparr>"
  note p = pool_invD(6) [OF inv b]
  then have "count (pending s - {#b#}) b = 0" by simp
  then have gone: "b \<notin># pending s - {#b#}" by (simp add: not_in_iff)
  have sub: "known ?s \<subseteq> known s" by (auto simp: known_def release_def dest: in_diffD)
  have keep: "refcount ?s a = refcount s a" if "a \<in> known s" "a \<noteq> b" for a
    using same_id [OF inv that(1), of b] b that by (auto simp: release_def known_cases)
  have "counted ?s a" if "a \<in># held s \<or> a \<in> pooled s" for a
    using pool_invD(7) [OF inv that] counted_cong [of ?s a s] keep [of a] that p by (auto simp: known_cases)
  moreover have "buf_pool a \<and> a \<notin># held s \<and> a \<notin> pooled s \<and> count (pending s - {#b#}) a = 1 \<and> refcount ?s a = Some 1"
    if "a \<in># pending s - {#b#}" for a
  proof -
    have a: "a \<in># pending s" "a \<noteq> b" using that gone by (auto dest: in_diffD)
    with pool_invD(6) [OF inv a(1)] keep [of a] show ?thesis by (simp add: known_cases)
  qed
  moreover have "inj_on buf_id (known ?s)" using pool_invD(3) [OF inv] sub by (rule inj_on_subset)
  moreover have "\<forall>a \<in> known ?s. buf_id a < next_id (pst s)" using pool_invD(2) [OF inv] sub by blast
  ultimately show ?thesis using inv unfolding pool_inv_def by (simp add: release_def)
qed

text \<open>A buffer that the pool took in.\<close>

lemma inv_insert:
  assumes inv: "pool_inv s" and b: "b \<in># pending s"
    and lh: "lh_ok CRYPTO_BUFFER_hash CRYPTO_BUFFER_cmp lh" "elems lh = insert b (pooled s)"
  shows "pool_inv (s\<lparr>pst := (pst s)\<lparr>bufs := lh\<rparr>, pending := pending s - {#b#}, held := add_mset b (held s)\<rparr>)"
    (is "pool_inv ?s")
proof (rule pool_invI)
  note p = pool_invD(6) [OF inv b]
  have gone: "b \<notin># pending s - {#b#}" using p by (simp add: not_in_iff)
  have "set_mset (pending s) = insert b (set_mset (pending s - {#b#}))"
    using insert_DiffM [OF b] by (metis set_mset_add_mset_insert)
  then have k: "known ?s = known s" using lh(2) by (auto simp: known_def)
  have rc: "refcount ?s a = refcount s a" for a by simp
  show "lh_ok CRYPTO_BUFFER_hash CRYPTO_BUFFER_cmp (bufs (pst ?s))" using lh(1) by simp
  show "buf_id a < next_id (pst ?s)" if "a \<in> known ?s" for a using pool_invD(2) [OF inv, of a] that k by simp
  show "inj_on buf_id (known ?s)" unfolding k by (rule pool_invD(3) [OF inv])
  show "a \<in> pooled ?s" if "a \<in># held ?s" "buf_pool a" for a
    using pool_invD(4) [OF inv, of a] that lh(2) by auto
  show "buf_pool a" if "a \<in> pooled ?s" for a using pool_invD(5) [OF inv, of a] that p lh(2) by auto
  show "buf_pool a \<and> a \<notin># held ?s \<and> a \<notin> pooled ?s \<and> count (pending ?s) a = 1 \<and> refcount ?s a = Some 1"
    if "a \<in># pending ?s" for a
  proof -
    have a: "a \<in># pending s" "a \<noteq> b" using that gone by (auto dest: in_diffD)
    with pool_invD(6) [OF inv a(1)] lh(2) show ?thesis by simp
  qed
  show "counted ?s a" if "a \<in># held ?s \<or> a \<in> pooled ?s" for a
  proof (cases "a = b")
    case True
    then show ?thesis using p by (simp add: counted_def not_in_iff)
  next
    case False
    then have a: "a \<in># held s \<or> a \<in> pooled s" using that lh(2) by auto
    from pool_invD(7) [OF inv this] counted_cong [of ?s a s] False show ?thesis by simp
  qed
qed

text \<open>Giving up a reference that is not the last.\<close>

lemma inv_dec:
  assumes inv: "pool_inv s" and b: "b \<in># held s" and c: "refcount s b = Some c"
    and d: "CRYPTO_refcount_dec_and_test_zero c = Some (c', False)"
  shows "pool_inv (s\<lparr>pst := (pst s)\<lparr>refs := (refs (pst s))(buf_id b := Some c')\<rparr>, held := held s - {#b#}\<rparr>)"
    (is "pool_inv ?s")
proof (rule pool_invI)
  have keep: "refcount ?s a = refcount s a" if "a \<in> known s" "a \<noteq> b" for a
    using same_id [OF inv that(1), of b] b that by (auto simp: known_cases)
  have sub: "known ?s \<subseteq> known s" by (auto simp: known_def dest: in_diffD)
  have cb: "counted s b" using pool_invD(7) [OF inv] b by blast
  have c0: "c \<noteq> 0" using d by (auto simp: CRYPTO_refcount_dec_and_test_zero_def)
  have cnt: "counted ?s b"
  proof (cases "c < CRYPTO_REFCOUNT_MAX")
    case True
    then have "c' = c - 1" "c' \<noteq> 0" using d c0
      by (auto simp: CRYPTO_refcount_dec_and_test_zero_def Let_def split: if_splits)
    moreover have "unat (c - 1) = unat c - 1" using c0 by (simp add: unat_minus_one)
    moreover have "unat c = count (held s) b" using cb c True by (auto simp: counted_def)
    ultimately show ?thesis by (simp add: counted_def)
  next
    case False
    moreover have "unat c < 2 ^ 32" using unsigned_less [of c, where 'a = nat] by simp
    ultimately have "c = CRYPTO_REFCOUNT_MAX"
      by (simp add: CRYPTO_REFCOUNT_MAX_def word_less_nat_alt word_nat_lift)
    then show ?thesis using d c0 by (auto simp: counted_def CRYPTO_refcount_dec_and_test_zero_def Let_def)
  qed
  show "lh_ok CRYPTO_BUFFER_hash CRYPTO_BUFFER_cmp (bufs (pst ?s))" using pool_invD(1) [OF inv] by simp
  show "buf_id a < next_id (pst ?s)" if "a \<in> known ?s" for a using pool_invD(2) [OF inv, of a] that sub by auto
  show "inj_on buf_id (known ?s)" using pool_invD(3) [OF inv] sub by (rule inj_on_subset)
  show "a \<in> pooled ?s" if "a \<in># held ?s" "buf_pool a" for a
    using pool_invD(4) [OF inv, of a] that by (auto dest: in_diffD)
  show "buf_pool a" if "a \<in> pooled ?s" for a using pool_invD(5) [OF inv, of a] that by simp
  show "buf_pool a \<and> a \<notin># held ?s \<and> a \<notin> pooled ?s \<and> count (pending ?s) a = 1 \<and> refcount ?s a = Some 1"
    if "a \<in># pending ?s" for a
  proof -
    have a: "a \<in># pending s" using that by simp
    then have "a \<noteq> b" "a \<in> known s" using b pool_invD(6) [OF inv a] by (auto simp: known_cases)
    with pool_invD(6) [OF inv a] keep [of a] show ?thesis by (auto dest: in_diffD)
  qed
  show "counted ?s a" if "a \<in># held ?s \<or> a \<in> pooled ?s" for a
  proof (cases "a = b")
    case False
    then have a: "a \<in># held s \<or> a \<in> pooled s" using that by (auto dest: in_diffD)
    then have "a \<in> known s" by (auto simp: known_cases)
    with pool_invD(7) [OF inv a] counted_cong [of ?s a s] keep False show ?thesis by simp
  qed (use cnt in simp)
qed

text \<open>Giving up the last reference.\<close>

lemma inv_last:
  assumes inv: "pool_inv s" and b: "b \<in># held s" and one: "count (held s) b = 1"
    and lh: "lh_ok CRYPTO_BUFFER_hash CRYPTO_BUFFER_cmp lh" "elems lh = pooled s - {b}"
    and st: "st = (pst s)\<lparr>bufs := lh, refs := (refs (pst s))(buf_id b := None)\<rparr>"
  shows "pool_inv (s\<lparr>pst := st, held := held s - {#b#}\<rparr>)" (is "pool_inv ?s")
proof (rule pool_invI)
  have gone: "b \<notin># held s - {#b#}" using one by (simp add: not_in_iff)
  have keep: "refcount ?s a = refcount s a" if "a \<in> known s" "a \<noteq> b" for a
    using same_id [OF inv that(1), of b] b that by (auto simp: known_cases st)
  have sub: "known ?s \<subseteq> known s" using lh(2) by (auto simp: known_def st dest: in_diffD)
  show "lh_ok CRYPTO_BUFFER_hash CRYPTO_BUFFER_cmp (bufs (pst ?s))" using lh(1) by (simp add: st)
  show "buf_id a < next_id (pst ?s)" if "a \<in> known ?s" for a using pool_invD(2) [OF inv, of a] that sub by (auto simp: st)
  show "inj_on buf_id (known ?s)" using pool_invD(3) [OF inv] sub by (rule inj_on_subset)
  show "a \<in> pooled ?s" if "a \<in># held ?s" "buf_pool a" for a
    using pool_invD(4) [OF inv, of a] that gone lh(2) by (auto simp: st dest: in_diffD)
  show "buf_pool a" if "a \<in> pooled ?s" for a using pool_invD(5) [OF inv, of a] that lh(2) by (simp add: st)
  show "buf_pool a \<and> a \<notin># held ?s \<and> a \<notin> pooled ?s \<and> count (pending ?s) a = 1 \<and> refcount ?s a = Some 1"
    if "a \<in># pending ?s" for a
  proof -
    have a: "a \<in># pending s" using that by simp
    then have "a \<noteq> b" "a \<in> known s" using b pool_invD(6) [OF inv a] by (auto simp: known_cases)
    with pool_invD(6) [OF inv a] keep [of a] lh(2) show ?thesis by (auto simp: st dest: in_diffD)
  qed
  show "counted ?s a" if "a \<in># held ?s \<or> a \<in> pooled ?s" for a
  proof -
    have ab: "a \<noteq> b" using that gone lh(2) by (auto simp: st)
    have a: "a \<in># held s \<or> a \<in> pooled s" using that lh(2) by (auto simp: st dest: in_diffD)
    then have "a \<in> known s" by (auto simp: known_cases)
    with pool_invD(7) [OF inv a] counted_cong [of ?s a s] keep ab show ?thesis by simp
  qed
qed

section \<open>Every step keeps the invariant\<close>

lemma pool_lookup_Some:
  assumes "lh_ok CRYPTO_BUFFER_hash CRYPTO_BUFFER_cmp (bufs st)" "pool_lookup data st = (Some b, st')"
  shows "b \<in> elems (bufs st) \<and> buf_data b = data \<and> st' = inc_ref b st"
  using assms(2) pool.lh_retrieve_spec [OF assms(1), of "\<lparr>buf_id = 0, buf_data = data, buf_pool = False\<rparr>"]
  by (auto simp: pool_lookup_def Let_def CRYPTO_BUFFER_cmp_eq_0 split: option.splits)

lemma new_buffer_Some:
  "new_buffer mem_ok p data st = (Some b, st') \<Longrightarrow>
    buf_id b = next_id st \<and> buf_pool b = p \<and> buf_data b = data \<and>
    st' = st\<lparr>refs := (refs st)(next_id st := Some 1), next_id := next_id st + 1\<rparr>"
  by (auto simp: new_buffer_def split: if_splits)

lemma CRYPTO_BUFFER_alloc_Some:
  "CRYPTO_BUFFER_alloc mem_ok data st = (Some b, st') \<Longrightarrow>
    buf_id b = next_id st \<and> \<not> buf_pool b \<and> buf_data b = data \<and>
    st' = st\<lparr>refs := (refs st)(next_id st := Some 1), next_id := next_id st + 1\<rparr>"
  by (auto simp: CRYPTO_BUFFER_alloc_def split: if_splits)

lemma inv_add:
  assumes inv: "pool_inv s" and b: "b \<in># pending s" and add: "pool_add mem_ok b (pst s) = (r, st)"
  shows "pool_inv (s\<lparr>pst := st, pending := pending s - {#b#},
      held := (case r of None \<Rightarrow> held s | Some b' \<Rightarrow> add_mset b' (held s))\<rparr>)"
proof (cases "lh_retrieve (bufs (pst s)) b")
  case None
  obtain ok old lh where ins: "lh_insert mem_ok b (bufs (pst s)) = (ok, old, lh)" by (rule prod_cases3)
  note spec = pool.lh_insert_spec [OF pool_invD(1) [OF inv] ins]
  show ?thesis
  proof (cases ok)
    case True
    have "\<forall>d \<in> pooled s. CRYPTO_BUFFER_cmp d b \<noteq> 0"
      using pool.lh_retrieve_spec [OF pool_invD(1) [OF inv], of b] None by simp
    then have "{d \<in> pooled s. CRYPTO_BUFFER_cmp d b \<noteq> 0} = pooled s" by blast
    then have "elems lh = insert b (pooled s)" using spec True by simp
    from inv_insert [OF inv b _ this] spec show ?thesis
      using add None ins True by (auto simp: pool_add_def)
  next
    case False
    have "(pst s)\<lparr>bufs := lh\<rparr> = pst s" using spec False by simp
    then show ?thesis using inv_drop [OF inv b] add None ins False by (auto simp: pool_add_def)
  qed
next
  case (Some d)
  then have d: "d \<in> pooled s" using pool.lh_retrieve_spec [OF pool_invD(1) [OF inv], of b] by simp
  let ?s = "s\<lparr>pst := inc_ref d (pst s), held := add_mset d (held s)\<rparr>"
  have "pool_inv ?s" using inv_inc [OF inv] d by blast
  then have "pool_inv (?s\<lparr>pst := release b (pst ?s), pending := pending ?s - {#b#}\<rparr>)"
    by (rule inv_drop) (simp add: b)
  moreover have "r = Some d" "st = release b (inc_ref d (pst s))" using add Some by (simp_all add: pool_add_def)
  then have "?s\<lparr>pst := release b (pst ?s), pending := pending ?s - {#b#}\<rparr> = s\<lparr>pst := st, pending := pending s - {#b#},
      held := (case r of None \<Rightarrow> held s | Some b' \<Rightarrow> add_mset b' (held s))\<rparr>"
    by (intro shared.equality) simp_all
  ultimately show ?thesis by (simp only:)
qed

lemma inv_free:
  assumes inv: "pool_inv s" and b: "b \<in># held s" and fr: "CRYPTO_BUFFER_free mem_ok (Some b) (pst s) = Some st"
  shows "pool_inv (s\<lparr>pst := st, held := held s - {#b#}\<rparr>)"
proof -
  have cb: "counted s b" using pool_invD(7) [OF inv] b by blast
  then obtain c where c: "refcount s b = Some c" by (auto simp: counted_def split: option.splits)
  from fr c obtain c' z where d: "CRYPTO_refcount_dec_and_test_zero c = Some (c', z)"
    by (auto simp: CRYPTO_BUFFER_free_def split: option.splits)
  show ?thesis
  proof (cases z)
    case False
    then have "st = (pst s)\<lparr>refs := (refs (pst s))(buf_id b := Some c')\<rparr>"
      using fr c d by (simp add: CRYPTO_BUFFER_free_def Let_def)
    with inv_dec [OF inv b c, of c'] d False show ?thesis by simp
  next
    case True
    then have "c \<noteq> CRYPTO_REFCOUNT_MAX" "c' = c - 1" "c' = 0"
      using d by (auto simp: CRYPTO_refcount_dec_and_test_zero_def Let_def CRYPTO_REFCOUNT_MAX_def split: if_splits)
    then have one: "count (held s) b = 1" using cb c by (auto simp: counted_def)
    note ok = pool_invD(1) [OF inv]
    show ?thesis
    proof (cases "buf_pool b")
      case False
      then have "b \<notin> pooled s" using pool_invD(5) [OF inv] by blast
      moreover have "st = (pst s)\<lparr>bufs := bufs (pst s), refs := (refs (pst s))(buf_id b := None)\<rparr>"
        using fr c d True False by (simp add: CRYPTO_BUFFER_free_def release_def Let_def)
      ultimately show ?thesis using inv_last [OF inv b one ok] by simp
    next
      case p: True
      obtain found lh where del: "lh_delete mem_ok b (bufs (pst s)) = (found, lh)" by (rule prod.exhaust)
      note spec = pool.lh_delete_spec [OF ok del]
      have bp: "b \<in> pooled s" using pool_invD(4) [OF inv b p] .
      have "d = b" if "d \<in> pooled s" "CRYPTO_BUFFER_cmp d b = 0" for d
        using pool.retrieve_unique [OF ok that] pool.retrieve_unique [OF ok bp pool.cmp_refl] by simp
      then have "elems lh = pooled s - {b}" using spec pool.cmp_refl [of b] by auto
      moreover have "st = (pst s)\<lparr>bufs := lh, refs := (refs (pst s))(buf_id b := None)\<rparr>"
        using fr c d True p del by (simp add: CRYPTO_BUFFER_free_def release_def Let_def)
      ultimately show ?thesis using inv_last [OF inv b one] spec by blast
    qed
  qed
qed

lemma pool_step_inv:
  assumes "pool_inv s" "pool_step s s'" shows "pool_inv s'"
  using assms(2)
proof (cases rule: pool_step.cases)
  case (lookup data b st)
  from pool_lookup_Some [OF pool_invD(1) [OF assms(1)] lookup(2)] inv_inc [OF assms(1), of b] lookup(1)
  show ?thesis by simp
next
  case (make mem_ok data b st)
  from new_buffer_Some [OF make(2)] inv_make [OF assms(1), of b st] make(1) show ?thesis by simp
next
  case (make_plain mem_ok data b st)
  from new_buffer_Some [OF make_plain(2)] inv_make_plain [OF assms(1), of b st] make_plain(1) show ?thesis by simp
next
  case (alloc mem_ok data b st)
  from CRYPTO_BUFFER_alloc_Some [OF alloc(2)] inv_make_plain [OF assms(1), of b st] alloc(1) show ?thesis by simp
next
  case (add b mem_ok r st)
  from inv_add [OF assms(1) add(2,3)] add(1) show ?thesis by simp
next
  case (up_ref b)
  from inv_inc [OF assms(1), of b] up_ref show ?thesis by (simp add: CRYPTO_BUFFER_up_ref_def)
next
  case (free b mem_ok st)
  from inv_free [OF assms(1) free(2,3)] free(1) show ?thesis by simp
qed

lemma pool_reachable_inv: "pool_reachable s \<Longrightarrow> pool_inv s"
proof (induction rule: pool_reachable.induct)
  case (init mem_ok lock_size st)
  then obtain lh where "lh_new mem_ok CRYPTO_BUFFER_hash CRYPTO_BUFFER_cmp = Some lh" "bufs st = lh"
    by (auto simp: CRYPTO_BUFFER_POOL_new_def split: if_splits option.splits)
  with lh_new_ok [of mem_ok CRYPTO_BUFFER_hash CRYPTO_BUFFER_cmp lh] show ?case
    by (intro pool_invI) (simp_all add: known_def elems_def)
next
  case (step s s')
  then show ?case using pool_step_inv by blast
qed

section \<open>Properties\<close>

text \<open>C25: however the threads interleave, a reference that a thread owns is to a buffer that is not freed,
  releasing it never aborts, a pooled buffer is in the pool's table, and two pooled buffers with the same
  contents are one and the same.\<close>

theorem pool_references_live:
  assumes "pool_reachable s" "b \<in># held s"
  shows "refs (pst s) (buf_id b) \<noteq> None \<and>
    CRYPTO_BUFFER_free mem_ok (Some b) (pst s) \<noteq> None \<and>
    (buf_pool b \<longrightarrow> b \<in> elems (bufs (pst s)) \<and>
       (\<forall>a. a \<in># held s \<longrightarrow> buf_pool a \<longrightarrow> buf_data a = buf_data b \<longrightarrow> a = b))"
proof -
  note inv = pool_reachable_inv [OF assms(1)]
  have "counted s b" using pool_invD(7) [OF inv] assms(2) by blast
  then obtain c where c: "refs (pst s) (buf_id b) = Some c" "c \<noteq> 0"
    by (auto simp: counted_def CRYPTO_REFCOUNT_MAX_def split: option.splits)
  then have "CRYPTO_BUFFER_free mem_ok (Some b) (pst s) \<noteq> None"
    by (auto simp: CRYPTO_BUFFER_free_def CRYPTO_refcount_dec_and_test_zero_def Let_def split: prod.split)
  moreover have "a = b" if "a \<in># held s" "buf_pool a" "buf_pool b" "buf_data a = buf_data b" for a
  proof -
    have "a \<in> pooled s" "b \<in> pooled s" using pool_invD(4) [OF inv] that assms(2) by blast+
    with pool.retrieve_unique [OF pool_invD(1) [OF inv], of a b] that(4)
      pool.retrieve_unique [OF pool_invD(1) [OF inv], of b b]
    show ?thesis by (simp add: CRYPTO_BUFFER_cmp_eq_0)
  qed
  ultimately show ?thesis using c pool_invD(4) [OF inv assms(2)] by blast
qed

text \<open>A pool with one buffer, for the examples.\<close>

definition sample_pool :: pool_state where
  "sample_pool = the (CRYPTO_BUFFER_POOL_new (\<lambda>_. True) 200)"

definition sample_buffer :: crypto_buffer where
  "sample_buffer = \<lparr>buf_id = 0, buf_data = [1, 2], buf_pool = True\<rparr>"

definition sample_made :: pool_state where
  "sample_made = snd (new_buffer (\<lambda>_. True) True [1, 2] sample_pool)"

definition sample_shared :: shared where
  "sample_shared = \<lparr>pst = snd (pool_add (\<lambda>_. True) sample_buffer sample_made), held = {#sample_buffer#}, pending = {#}\<rparr>"

lemma sample_shared_reachable: "pool_reachable sample_shared"
proof -
  have p: "CRYPTO_BUFFER_POOL_new (\<lambda>_. True) 200 = Some sample_pool"
    by (simp add: sample_pool_def CRYPTO_BUFFER_POOL_new_def lh_new_def)
  have e: "bufs sample_pool = the (lh_new (\<lambda>_. True) CRYPTO_BUFFER_hash CRYPTO_BUFFER_cmp)" "next_id sample_pool = 0"
    by (simp_all add: sample_pool_def CRYPTO_BUFFER_POOL_new_def lh_new_def)
  have "OPENSSL_memdup (\<lambda>_. True) [1, 2] 2 \<noteq> None" by (simp add: OPENSSL_memdup_def)
  then have m: "new_buffer (\<lambda>_. True) True [1, 2] sample_pool = (Some sample_buffer, sample_made)"
    by (simp add: new_buffer_def sample_made_def sample_buffer_def e(2))
  have b: "bufs sample_made = bufs sample_pool" by (simp add: sample_made_def new_buffer_def)
  have ok: "lh_ok CRYPTO_BUFFER_hash CRYPTO_BUFFER_cmp (bufs sample_made)" "items (bufs sample_made) = []"
    using lh_new_ok [of "\<lambda>_. True" CRYPTO_BUFFER_hash CRYPTO_BUFFER_cmp "bufs sample_made"]
    unfolding b e(1) by (simp_all add: lh_new_def)
  have "lh_retrieve (bufs sample_made) sample_buffer = None"
    by (rule pool.retrieve_none [OF ok(1)]) (simp add: elems_def ok(2))
  moreover obtain r old lh where ins: "lh_insert (\<lambda>_. True) sample_buffer (bufs sample_made) = (r, old, lh)"
    by (rule prod_cases3)
  moreover have "r" using pool.lh_insert_spec [OF ok(1) ins] by (simp split: if_splits)
  ultimately have a: "pool_add (\<lambda>_. True) sample_buffer sample_made = (Some sample_buffer, pst sample_shared)"
    by (simp add: pool_add_def sample_shared_def)
  let ?s0 = "\<lparr>pst = sample_pool, held = {#}, pending = {#}\<rparr>"
  let ?s1 = "\<lparr>pst = sample_made, held = {#}, pending = {#sample_buffer#}\<rparr>"
  have "pool_step ?s0 ?s1"
    using pool_step.make [where s = ?s0 and data = "[1, 2]"] m by fastforce
  moreover have "pool_step ?s1 sample_shared"
    using pool_step.add [where s = ?s1 and b = sample_buffer] a by (fastforce simp: sample_shared_def)
  ultimately show ?thesis
    using pool_reachable.init [OF p] pool_reachable.step by blast
qed

theorem pool_references_live_witness:
  "refs (pst sample_shared) (buf_id sample_buffer) \<noteq> None \<and>
    CRYPTO_BUFFER_free (\<lambda>_. True) (Some sample_buffer) (pst sample_shared) \<noteq> None \<and>
    sample_buffer \<in> elems (bufs (pst sample_shared))"
proof -
  have "sample_buffer \<in># held sample_shared" "buf_pool sample_buffer"
    by (simp_all add: sample_shared_def sample_buffer_def)
  with pool_references_live [OF sample_shared_reachable] show ?thesis by blast
qed

text \<open>While some thread owns a pooled buffer, \<open>CRYPTO_BUFFER_new\<close> with its contents returns that buffer
  with one more reference and allocates nothing; when no thread owns a reference, nothing is left in
  the pool but buffers whose count is saturated.\<close>

theorem pool_shares_and_drains:
  assumes "pool_reachable s"
  shows "(\<forall>b. b \<in># held s \<longrightarrow> buf_pool b \<longrightarrow>
      CRYPTO_BUFFER_new mem_ok (buf_data b) True (pst s) = (Some b, inc_ref b (pst s))) \<and>
    (held s = {#} \<longrightarrow>
      (\<forall>b \<in> elems (bufs (pst s)). refs (pst s) (buf_id b) = Some CRYPTO_REFCOUNT_MAX))"
proof (intro conjI allI impI ballI)
  note inv = pool_reachable_inv [OF assms]
  fix b assume b: "b \<in># held s" "buf_pool b"
  then have "b \<in> pooled s" using pool_invD(4) [OF inv] by blast
  then have "lh_retrieve (bufs (pst s)) \<lparr>buf_id = 0, buf_data = buf_data b, buf_pool = False\<rparr> = Some b"
    by (rule pool.retrieve_unique [OF pool_invD(1) [OF inv]]) (simp add: CRYPTO_BUFFER_cmp_eq_0)
  then show "CRYPTO_BUFFER_new mem_ok (buf_data b) True (pst s) = (Some b, inc_ref b (pst s))"
    by (simp add: CRYPTO_BUFFER_new_def pool_lookup_def Let_def)
next
  note inv = pool_reachable_inv [OF assms]
  fix b assume "held s = {#}" "b \<in> pooled s"
  with pool_invD(7) [OF inv, of b] show "refs (pst s) (buf_id b) = Some CRYPTO_REFCOUNT_MAX"
    by (auto simp: counted_def unat_eq_zero split: option.splits)
qed

theorem pool_shares_and_drains_witness:
  "CRYPTO_BUFFER_new (\<lambda>_. True) [1, 2] True (pst sample_shared) =
    (Some sample_buffer, inc_ref sample_buffer (pst sample_shared))"
proof -
  have "sample_buffer \<in># held sample_shared" "buf_pool sample_buffer" "buf_data sample_buffer = [1, 2]"
    by (simp_all add: sample_shared_def sample_buffer_def)
  with pool_shares_and_drains [OF sample_shared_reachable] show ?thesis by metis
qed

end
