(* ===== verification/Pb_Stream.thy ===== *)
theory Pb_Stream
  imports Prelude
begin

text \<open>
  The streams and the wire format of nanopb (\<open>pb_encode.c\<close>, \<open>pb_decode.c\<close>): output streams with
  their callback, limit and error message, input streams and length-limited substreams, varints,
  zig-zag and fixed-width integers, tags, strings, and the skipping of fields.
\<close>

section \<open>Output streams\<close>

text \<open>
  A callback gets the state and the bytes and returns success and the new state; a stream whose
  callback is \<open>None\<close> (\<open>NULL\<close>) only counts.  \<open>buf_write\<close> stores the bytes at the pointer in the
  state and moves it: the state of a buffer stream is the list of the bytes stored so far.
\<close>

record 's pb_ostream =
  callback :: "('s \<Rightarrow> bytes \<Rightarrow> bool \<times> 's) option"
  state :: 's
  max_size :: u64
  bytes_written :: u64
  errmsg :: "string option"

definition oerror :: "string \<Rightarrow> 's pb_ostream \<Rightarrow> bool \<times> 's pb_ostream" where
  "oerror msg stream =
     (False, stream\<lparr>errmsg := (case errmsg stream of None \<Rightarrow> Some msg | Some e \<Rightarrow> Some e)\<rparr>)"

definition buf_write :: "bytes \<Rightarrow> bytes \<Rightarrow> bool \<times> bytes" where
  "buf_write dest b = (True, dest @ b)"

definition pb_ostream_from_buffer :: "u64 \<Rightarrow> bytes pb_ostream" where
  "pb_ostream_from_buffer bufsize =
     \<lparr>callback = Some buf_write, state = [], max_size = bufsize, bytes_written = 0, errmsg = None\<rparr>"

text \<open>The state of a sizing stream is never read.\<close>

definition PB_OSTREAM_SIZING :: "'s \<Rightarrow> 's pb_ostream" where
  "PB_OSTREAM_SIZING st =
     \<lparr>callback = None, state = st, max_size = 0, bytes_written = 0, errmsg = None\<rparr>"

text \<open>\<open>buf\<close> is the memory at the pointer, \<open>[]\<close> for \<open>NULL\<close>.\<close>

definition pb_write :: "bytes \<Rightarrow> u64 \<Rightarrow> 's pb_ostream \<Rightarrow> bool \<times> 's pb_ostream" where
  "pb_write b count stream =
     (case callback stream of
        Some cb \<Rightarrow>
          if count > 0 then
            if bytes_written stream + count < bytes_written stream \<or>
               bytes_written stream + count > max_size stream
            then oerror ''stream full'' stream
            else
              (case cb (state stream) (take (unat count) b) of
                 (False, st) \<Rightarrow> oerror ''io error'' (stream\<lparr>state := st\<rparr>)
               | (True, st) \<Rightarrow>
                   (True, stream\<lparr>state := st, bytes_written := bytes_written stream + count\<rparr>))
          else (True, stream\<lparr>bytes_written := bytes_written stream + count\<rparr>)
      | None \<Rightarrow> (True, stream\<lparr>bytes_written := bytes_written stream + count\<rparr>))"

text \<open>The pattern \<open>if (!f(stream)) return false; g\<close>.\<close>

definition and_then :: "bool \<times> 's \<Rightarrow> ('s \<Rightarrow> bool \<times> 's) \<Rightarrow> bool \<times> 's" where
  "and_then r g = (case r of (False, s) \<Rightarrow> (False, s) | (True, s) \<Rightarrow> g s)"

lemma and_then_simps [simp]:
  "and_then (False, s) g = (False, s)"
  "and_then (True, s) g = g s"
  by (simp_all add: and_then_def)

section \<open>Writing scalars\<close>

text \<open>The bytes that the loop of \<open>pb_encode_varint\<close> puts into its buffer of ten bytes.\<close>

function varint_loop :: "u64 \<Rightarrow> bytes" where
  "varint_loop value =
     (if value = 0 then []
      else ucast ((value AND 0x7F) OR 0x80) # varint_loop (drop_bit 7 value))"
  by pat_completeness auto
termination
proof (relation "measure unat")
  fix v :: u64
  assume "v \<noteq> 0"
  then have "0 < unat v" by (simp add: unat_gt_0)
  then show "(drop_bit 7 v, v) \<in> measure unat" by (simp add: unat_drop_bit)
qed simp

declare varint_loop.simps [simp del]

definition pb_encode_varint :: "u64 \<Rightarrow> 's pb_ostream \<Rightarrow> bool \<times> 's pb_ostream" where
  "pb_encode_varint value stream =
     (if value \<le> 0x7F then pb_write [ucast value] 1 stream
      else
        let buffer = varint_loop value; i = length buffer
        in pb_write (buffer[i - 1 := buffer ! (i - 1) AND 0x7F]) (of_nat i) stream)"

text \<open>\<open>value\<close> is signed.\<close>

definition pb_encode_svarint :: "u64 \<Rightarrow> 's pb_ostream \<Rightarrow> bool \<times> 's pb_ostream" where
  "pb_encode_svarint value stream =
     pb_encode_varint (if sint value < 0 then NOT (push_bit 1 value) else push_bit 1 value) stream"

definition pb_encode_fixed32 :: "u32 \<Rightarrow> 's pb_ostream \<Rightarrow> bool \<times> 's pb_ostream" where
  "pb_encode_fixed32 val stream =
     pb_write [ucast (val AND 0xFF), ucast (drop_bit 8 val AND 0xFF),
               ucast (drop_bit 16 val AND 0xFF), ucast (drop_bit 24 val AND 0xFF)] 4 stream"

definition pb_encode_fixed64 :: "u64 \<Rightarrow> 's pb_ostream \<Rightarrow> bool \<times> 's pb_ostream" where
  "pb_encode_fixed64 val stream =
     pb_write [ucast (val AND 0xFF), ucast (drop_bit 8 val AND 0xFF),
               ucast (drop_bit 16 val AND 0xFF), ucast (drop_bit 24 val AND 0xFF),
               ucast (drop_bit 32 val AND 0xFF), ucast (drop_bit 40 val AND 0xFF),
               ucast (drop_bit 48 val AND 0xFF), ucast (drop_bit 56 val AND 0xFF)] 8 stream"

text \<open>The enumeration \<open>pb_wire_type_t\<close>; a cast from a tag can give other values below 8.\<close>

type_synonym pb_wire_type = u32

definition PB_WT_VARINT :: pb_wire_type where "PB_WT_VARINT = 0"
definition PB_WT_64BIT :: pb_wire_type where "PB_WT_64BIT = 1"
definition PB_WT_STRING :: pb_wire_type where "PB_WT_STRING = 2"
definition PB_WT_32BIT :: pb_wire_type where "PB_WT_32BIT = 5"

lemmas wire_types = PB_WT_VARINT_def PB_WT_64BIT_def PB_WT_STRING_def PB_WT_32BIT_def

definition pb_encode_tag :: "pb_wire_type \<Rightarrow> u32 \<Rightarrow> 's pb_ostream \<Rightarrow> bool \<times> 's pb_ostream" where
  "pb_encode_tag wiretype field_number stream =
     pb_encode_varint (push_bit 3 (ucast field_number) OR ucast wiretype) stream"

definition pb_encode_string :: "bytes \<Rightarrow> u64 \<Rightarrow> 's pb_ostream \<Rightarrow> bool \<times> 's pb_ostream" where
  "pb_encode_string b sz stream =
     and_then (pb_encode_varint sz stream) (pb_write b sz)"

section \<open>Input streams\<close>

text \<open>
  The callback and the state of an input stream: a buffer holds the memory at the pointer; a user
  callback is asked for a number of bytes and gives the byte for every index of \<open>buf\<close>, or fails.
\<close>

datatype 's pb_source = Buffer bytes | User "'s \<Rightarrow> u64 \<Rightarrow> (nat \<Rightarrow> byte) option \<times> 's" 's

record 's pb_istream =
  source :: "'s pb_source"
  bytes_left :: u64
  ierrmsg :: "string option"

definition ierror :: "string \<Rightarrow> 's pb_istream \<Rightarrow> 's pb_istream" where
  "ierror msg stream =
     stream\<lparr>ierrmsg := (case ierrmsg stream of None \<Rightarrow> Some msg | Some e \<Rightarrow> Some e)\<rparr>"

text \<open>\<open>stream->callback(stream, buf, count)\<close>: \<open>buf_read\<close> or the user's function.\<close>

definition buf_read :: "bytes \<Rightarrow> u64 \<Rightarrow> bytes \<times> bytes" where
  "buf_read src count = (take (unat count) src, drop (unat count) src)"

fun call_source :: "'s pb_source \<Rightarrow> u64 \<Rightarrow> bytes option \<times> 's pb_source" where
  "call_source (Buffer m) count =
     (let (b, m') = buf_read m count in (Some b, Buffer m'))"
| "call_source (User f st) count =
     (case f st count of
        (None, st') \<Rightarrow> (None, User f st')
      | (Some g, st') \<Rightarrow> (Some (map g [0..<unat count]), User f st'))"

fun is_user :: "'s pb_source \<Rightarrow> bool" where
  "is_user (Buffer m) = False"
| "is_user (User f st) = True"

text \<open>\<open>pb_read\<close> with a buffer, after the branch for \<open>NULL\<close>.\<close>

definition read_some :: "u64 \<Rightarrow> 's pb_istream \<Rightarrow> bytes option \<times> 's pb_istream" where
  "read_some count stream =
     (if bytes_left stream < count then (None, ierror ''end-of-stream'' stream)
      else
        (case call_source (source stream) count of
           (None, src) \<Rightarrow> (None, ierror ''io error'' (stream\<lparr>source := src\<rparr>))
         | (Some b, src) \<Rightarrow>
             (Some b, stream\<lparr>source := src, bytes_left := bytes_left stream - count\<rparr>)))"

definition pb_read :: "u64 \<Rightarrow> 's pb_istream \<Rightarrow> bytes option \<times> 's pb_istream" where
  "pb_read count stream = (if count = 0 then (Some [], stream) else read_some count stream)"

text \<open>\<open>pb_read\<close> with a \<open>NULL\<close> buffer skips; a user callback is asked for 16 bytes at a time.\<close>

function skip_loop :: "u64 \<Rightarrow> 's pb_istream \<Rightarrow> bool \<times> 's pb_istream" where
  "skip_loop count stream =
     (if count > 16 then
        (case pb_read 16 stream of
           (None, stream) \<Rightarrow> (False, stream)
         | (Some _, stream) \<Rightarrow> skip_loop (count - 16) stream)
      else
        (case pb_read count stream of (r, stream) \<Rightarrow> (r \<noteq> None, stream)))"
  by pat_completeness auto
termination
proof (relation "measure (\<lambda>(count, _). unat count)")
  fix count :: u64 and stream stream' :: "'s pb_istream" and p r
  assume "16 < count"
  then have "unat (count - 16) = unat count - 16" "16 < unat count"
    by (simp_all add: unat_sub word_less_nat_alt word_le_nat_alt)
  then show "((count - 16, stream'), count, stream) \<in> measure (\<lambda>(count, _). unat count)" by simp
qed simp

declare skip_loop.simps [simp del]

definition pb_read_null :: "u64 \<Rightarrow> 's pb_istream \<Rightarrow> bool \<times> 's pb_istream" where
  "pb_read_null count stream =
     (if count = 0 then (True, stream)
      else if is_user (source stream) then skip_loop count stream
      else (case read_some count stream of (r, stream) \<Rightarrow> (r \<noteq> None, stream)))"

definition pb_readbyte :: "'s pb_istream \<Rightarrow> byte option \<times> 's pb_istream" where
  "pb_readbyte stream =
     (if bytes_left stream = 0 then (None, ierror ''end-of-stream'' stream)
      else
        (case call_source (source stream) 1 of
           (None, src) \<Rightarrow> (None, ierror ''io error'' (stream\<lparr>source := src\<rparr>))
         | (Some b, src) \<Rightarrow>
             (Some (hd b), stream\<lparr>source := src, bytes_left := bytes_left stream - 1\<rparr>)))"

definition pb_istream_from_buffer :: "bytes \<Rightarrow> u64 \<Rightarrow> 's pb_istream" where
  "pb_istream_from_buffer b bufsize = \<lparr>source = Buffer b, bytes_left = bufsize, ierrmsg = None\<rparr>"

section \<open>Reading scalars\<close>

lemma pb_readbyte_left:
  "pb_readbyte stream = (Some b, stream') \<Longrightarrow>
    bytes_left stream \<noteq> 0 \<and> bytes_left stream' = bytes_left stream - 1"
  by (auto simp: pb_readbyte_def split: if_splits prod.splits option.splits)

lemma pb_readbyte_decreases:
  assumes "pb_readbyte stream = (Some b, stream')"
  shows "unat (bytes_left stream') < unat (bytes_left stream)"
proof -
  from pb_readbyte_left [OF assms] have "bytes_left stream \<noteq> 0"
    and eq: "bytes_left stream' = bytes_left stream - 1" by simp_all
  then have "Suc (unat (bytes_left stream - 1)) = unat (bytes_left stream)"
    by (metis Suc_pred' unat_gt_0 unat_minus_one)
  with eq show ?thesis by simp
qed

text \<open>\<open>bitpos\<close> is a \<open>uint_fast8_t\<close>, of eight bits on the target: it wraps.\<close>

function varint32_loop :: "byte \<Rightarrow> u32 \<Rightarrow> 's pb_istream \<Rightarrow> u32 option \<times> 's pb_istream" where
  "varint32_loop bitpos result stream =
     (case pb_readbyte stream of
        (None, stream) \<Rightarrow> (None, stream)
      | (Some b, stream) \<Rightarrow>
          let sign_extension = (if bitpos < 63 then 0xFF else 0x01 :: byte) in
          if bitpos \<ge> 32 \<and> b AND 0x7F \<noteq> 0x00 \<and>
             (drop_bit 31 result = 0 \<or> b \<noteq> sign_extension)
          then (None, ierror ''varint overflow'' stream)
          else
            let result = (if bitpos \<ge> 32 then result
                          else result OR push_bit (unat bitpos) (ucast (b AND 0x7F)));
                bitpos = bitpos + 7
            in if b AND 0x80 \<noteq> 0 then varint32_loop bitpos result stream
               else if bitpos = 35 \<and> b AND 0x70 \<noteq> 0
               then (None, ierror ''varint overflow'' stream)
               else (Some result, stream))"
  by pat_completeness auto
termination
  by (relation "measure (\<lambda>(_, _, stream). unat (bytes_left stream))")
    (auto dest: pb_readbyte_decreases [OF sym])

declare varint32_loop.simps [simp del]

text \<open>The second component is \<open>*eof\<close>, when it is set.\<close>

definition pb_decode_varint32_eof :: "'s pb_istream \<Rightarrow> u32 option \<times> bool \<times> 's pb_istream" where
  "pb_decode_varint32_eof stream =
     (case pb_readbyte stream of
        (None, stream) \<Rightarrow> (None, bytes_left stream = 0, stream)
      | (Some b, stream) \<Rightarrow>
          if b AND 0x80 = 0 then (Some (ucast b), False, stream)
          else (case varint32_loop 7 (ucast (b AND 0x7F)) stream of (r, stream) \<Rightarrow> (r, False, stream)))"

definition pb_decode_varint32 :: "'s pb_istream \<Rightarrow> u32 option \<times> 's pb_istream" where
  "pb_decode_varint32 stream =
     (case pb_decode_varint32_eof stream of (r, eof, stream) \<Rightarrow> (r, stream))"

function varint64_loop :: "byte \<Rightarrow> u64 \<Rightarrow> 's pb_istream \<Rightarrow> u64 option \<times> 's pb_istream" where
  "varint64_loop bitpos result stream =
     (if bitpos \<ge> 64 then (None, ierror ''varint overflow'' stream)
      else
        (case pb_readbyte stream of
           (None, stream) \<Rightarrow> (None, stream)
         | (Some b, stream) \<Rightarrow>
             let result = result OR push_bit (unat bitpos) (ucast (b AND 0x7F))
             in if b AND 0x80 \<noteq> 0 then varint64_loop (bitpos + 7) result stream
                else (Some result, stream)))"
  by pat_completeness auto
termination
  by (relation "measure (\<lambda>(_, _, stream). unat (bytes_left stream))")
    (auto dest: pb_readbyte_decreases [OF sym])

declare varint64_loop.simps [simp del]

definition pb_decode_varint :: "'s pb_istream \<Rightarrow> u64 option \<times> 's pb_istream" where
  "pb_decode_varint stream = varint64_loop 0 0 stream"

definition pb_decode_svarint :: "'s pb_istream \<Rightarrow> u64 option \<times> 's pb_istream" where
  "pb_decode_svarint stream =
     (case pb_decode_varint stream of
        (None, stream) \<Rightarrow> (None, stream)
      | (Some val, stream) \<Rightarrow>
          (Some (if val AND 1 \<noteq> 0 then NOT (drop_bit 1 val) else drop_bit 1 val), stream))"

definition pb_decode_fixed32 :: "'s pb_istream \<Rightarrow> u32 option \<times> 's pb_istream" where
  "pb_decode_fixed32 stream =
     (case pb_read 4 stream of
        (None, stream) \<Rightarrow> (None, stream)
      | (Some b, stream) \<Rightarrow>
          (Some (push_bit 0 (ucast (b ! 0)) OR push_bit 8 (ucast (b ! 1)) OR
                 push_bit 16 (ucast (b ! 2)) OR push_bit 24 (ucast (b ! 3))), stream))"

definition pb_decode_fixed64 :: "'s pb_istream \<Rightarrow> u64 option \<times> 's pb_istream" where
  "pb_decode_fixed64 stream =
     (case pb_read 8 stream of
        (None, stream) \<Rightarrow> (None, stream)
      | (Some b, stream) \<Rightarrow>
          (Some (push_bit 0 (ucast (b ! 0)) OR push_bit 8 (ucast (b ! 1)) OR
                 push_bit 16 (ucast (b ! 2)) OR push_bit 24 (ucast (b ! 3)) OR
                 push_bit 32 (ucast (b ! 4)) OR push_bit 40 (ucast (b ! 5)) OR
                 push_bit 48 (ucast (b ! 6)) OR push_bit 56 (ucast (b ! 7))), stream))"

section \<open>Tags, skipping and substreams\<close>

text \<open>The wire type and the tag, \<open>*eof\<close>, and the stream.\<close>

definition pb_decode_tag ::
  "'s pb_istream \<Rightarrow> (pb_wire_type \<times> u32) option \<times> bool \<times> 's pb_istream" where
  "pb_decode_tag stream =
     (case pb_decode_varint32_eof stream of
        (None, eof, stream) \<Rightarrow> (None, eof, stream)
      | (Some temp, eof, stream) \<Rightarrow>
          if temp = 0 then (None, True, stream)
          else (Some (temp AND 7, drop_bit 3 temp), eof, stream))"

lemma pb_read_left:
  assumes "pb_read count stream = (Some b, stream')" "count \<noteq> 0"
  shows "count \<le> bytes_left stream \<and> bytes_left stream' = bytes_left stream - count"
  using assms
  by (auto simp: pb_read_def read_some_def not_less split: if_splits prod.splits option.splits)

lemma pb_read_decreases:
  assumes "pb_read count stream = (Some b, stream')" "count \<noteq> 0"
  shows "unat (bytes_left stream') < unat (bytes_left stream)"
proof -
  note l = pb_read_left [OF assms]
  then have "unat (bytes_left stream') = unat (bytes_left stream) - unat count"
    and "unat count \<le> unat (bytes_left stream)"
    by (simp_all add: unat_sub word_le_nat_alt)
  moreover have "0 < unat count" using assms(2) by (simp add: unat_gt_0)
  ultimately show ?thesis by linarith
qed

function pb_skip_varint :: "'s pb_istream \<Rightarrow> bool \<times> 's pb_istream" where
  "pb_skip_varint stream =
     (case pb_read 1 stream of
        (None, stream) \<Rightarrow> (False, stream)
      | (Some b, stream) \<Rightarrow>
          if hd b AND 0x80 \<noteq> 0 then pb_skip_varint stream else (True, stream))"
  by pat_completeness auto
termination
  by (relation "measure (\<lambda>stream. unat (bytes_left stream))")
    (auto dest: pb_read_decreases [OF sym])

declare pb_skip_varint.simps [simp del]

definition pb_skip_string :: "'s pb_istream \<Rightarrow> bool \<times> 's pb_istream" where
  "pb_skip_string stream =
     (case pb_decode_varint32 stream of
        (None, stream) \<Rightarrow> (False, stream)
      | (Some len, stream) \<Rightarrow> pb_read_null (ucast len) stream)"

definition pb_skip_field :: "pb_wire_type \<Rightarrow> 's pb_istream \<Rightarrow> bool \<times> 's pb_istream" where
  "pb_skip_field wire_type stream =
     (if wire_type = PB_WT_VARINT then pb_skip_varint stream
      else if wire_type = PB_WT_64BIT then pb_read_null 8 stream
      else if wire_type = PB_WT_STRING then pb_skip_string stream
      else if wire_type = PB_WT_32BIT then pb_read_null 4 stream
      else (False, ierror ''invalid wire_type'' stream))"

text \<open>\<open>read_raw_value\<close>: the loop gets the bytes stored so far, of which there are \<open>*size\<close>.\<close>

function raw_varint :: "u64 \<Rightarrow> bytes \<Rightarrow> u64 \<Rightarrow> 's pb_istream \<Rightarrow> bytes option \<times> 's pb_istream" where
  "raw_varint sz b max_sz stream =
     (let sz = sz + 1 in
      if sz > max_sz then (None, stream)
      else
        (case pb_read 1 stream of
           (None, stream) \<Rightarrow> (None, stream)
         | (Some c, stream) \<Rightarrow>
             if hd c AND 0x80 \<noteq> 0 then raw_varint sz (b @ c) max_sz stream else (Some (b @ c), stream)))"
  by pat_completeness auto
termination
  by (relation "measure (\<lambda>(_, _, _, stream). unat (bytes_left stream))")
    (auto dest: pb_read_decreases [OF sym])

declare raw_varint.simps [simp del]

definition read_raw_value :: "pb_wire_type \<Rightarrow> u64 \<Rightarrow> 's pb_istream \<Rightarrow> bytes option \<times> 's pb_istream" where
  "read_raw_value wire_type max_sz stream =
     (if wire_type = PB_WT_VARINT then raw_varint 0 [] max_sz stream
      else if wire_type = PB_WT_64BIT then pb_read 8 stream
      else if wire_type = PB_WT_32BIT then pb_read 4 stream
      else (None, ierror ''invalid wire_type'' stream))"

text \<open>The substream and the stream; closing copies the position of the substream back.\<close>

definition pb_make_string_substream ::
  "'s pb_istream \<Rightarrow> 's pb_istream option \<times> 's pb_istream" where
  "pb_make_string_substream stream =
     (case pb_decode_varint32 stream of
        (None, stream) \<Rightarrow> (None, stream)
      | (Some sz, stream) \<Rightarrow>
          if bytes_left stream < ucast sz then (None, ierror ''parent stream too short'' stream)
          else (Some (stream\<lparr>bytes_left := ucast sz\<rparr>),
                stream\<lparr>bytes_left := bytes_left stream - ucast sz\<rparr>))"

definition pb_close_string_substream ::
  "'s pb_istream \<Rightarrow> 's pb_istream \<Rightarrow> bool \<times> 's pb_istream" where
  "pb_close_string_substream stream substream =
     (case (if bytes_left substream \<noteq> 0 then pb_read_null (bytes_left substream) substream
            else (True, substream)) of
        (False, substream) \<Rightarrow> (False, stream)
      | (True, substream) \<Rightarrow>
          (True, stream\<lparr>source := source substream, ierrmsg := ierrmsg substream\<rparr>))"

end
