(* ===== verification/Pb_Wire.thy ===== *)
theory Pb_Wire
  imports Pb_Stream
begin

text \<open>
  What the wire layer of nanopb promises.  \<open>emits\<close> is the contract of a writer on a sizing stream and
  on a buffer, \<open>stream_code\<close> the interface between a writer and the reader of its bytes on any
  source; the interpretations give the round trips of all scalars and tags.  \<open>within\<close> says that a
  reader never passes the limit of its stream.
\<close>

section \<open>What a writer promises\<close>


fun varint :: "nat \<Rightarrow> bytes" where
  "varint n = (if n < 128 then [of_nat n] else of_nat (128 + n mod 128) # varint (n div 128))"

declare varint.simps [simp del]

lemma varint_small [simp]: "n < 128 \<Longrightarrow> varint n = [of_nat n]"
  by (simp add: varint.simps [of n])

lemma varint_big: "128 \<le> n \<Longrightarrow> varint n = of_nat (128 + n mod 128) # varint (n div 128)"
  by (simp add: varint.simps [of n])

lemma varint_not_Nil [simp]: "varint n \<noteq> []"
  by (subst varint.simps) simp

lemma length_varint_pos [simp]: "0 < length (varint n)"
  by simp

lemma length_varint: "n < 128 ^ k \<Longrightarrow> 0 < k \<Longrightarrow> length (varint n) \<le> k"
proof (induction n arbitrary: k rule: varint.induct)
  case (1 n)
  show ?case
  proof (cases "n < 128")
    case True
    with 1 show ?thesis by simp
  next
    case False
    with 1 obtain j where k: "k = Suc j" "0 < j" by (cases k; cases "k - 1") auto
    then have "n div 128 < 128 ^ j" using 1 by (simp add: less_mult_imp_div_less mult.commute)
    with 1 False k have "length (varint (n div 128)) \<le> j" by simp
    with False k show ?thesis by (simp add: varint_big)
  qed
qed

lemma length_varint_u64: "length (varint (unat (v :: u64))) \<le> 10"
proof -
  have "unat v < 128 ^ 10" using unsigned_less [of v, where 'a = nat] by simp
  then show ?thesis by (rule length_varint) simp
qed

lemma low_septet:
  fixes v :: u64
  shows "(ucast ((v AND 0x7F) OR 0x80) :: byte) = of_nat (128 + unat v mod 128)"
proof -
  have m: "unat (v AND 0x7F) = unat v mod 128"
    using word_and_mask_unat [of v 7] by (simp add: mask_eq_exp_minus_1)
  then have "unat (v AND 0x7F) < 2 ^ 7" by simp
  then have "push_bit 7 1 OR (v AND 0x7F) = push_bit 7 1 + (v AND 0x7F)"
    by (rule push_bit_or_eq_plus)
  then have "(v AND 0x7F) OR 0x80 = 0x80 + (v AND 0x7F)" by (simp add: or.commute)
  moreover have "unat (0x80 + (v AND 0x7F)) = 128 + unat v mod 128"
    using m by (subst unat_add_lem [THEN iffD1]) simp_all
  ultimately have "unat ((v AND 0x7F) OR 0x80) = 128 + unat v mod 128" by simp
  then show ?thesis
    by (simp only: word_unat_eq_iff unat_ucast_narrow unat_of_nat)
qed

lemma clear_top_septet:
  "(of_nat (128 + n mod 128) :: byte) AND 0x7F = of_nat (n mod 128)"
proof -
  have "unat (of_nat (128 + n mod 128) :: byte) = 128 + n mod 128"
    by (simp only: unat_of_nat) simp
  then show ?thesis
    by (simp only: word_unat_eq_iff byte_simps unat_of_nat) simp
qed

lemma varint_loop_varint:
  "v \<noteq> 0 \<Longrightarrow> (let b = varint_loop v; i = length b in b \<noteq> [] \<and> b[i - 1 := b ! (i - 1) AND 0x7F] = varint (unat v))"
proof (induction v rule: varint_loop.induct)
  case (1 v)
  note step = varint_loop.simps [of v]
  show ?case
  proof (cases "drop_bit 7 v = 0")
    case True
    then have lt: "unat v < 128" by (simp add: drop_bit_eq_0_iff_unat)
    have "varint_loop v = [of_nat (128 + unat v mod 128)]"
      using 1(2) True by (simp only: step low_septet if_False) (simp add: varint_loop.simps [of 0])
    with lt clear_top_septet [of "unat v"] show ?thesis by (simp add: Let_def)
  next
    case False
    then have ge: "128 \<le> unat v" using drop_bit_eq_0_iff_unat [of 7 v] by simp
    define r where "r = varint_loop (drop_bit 7 v)"
    from 1(1) [OF 1(2) False] have r: "r \<noteq> []"
      "r[length r - 1 := r ! (length r - 1) AND 0x7F] = varint (unat v div 128)"
      by (simp_all add: Let_def r_def unat_drop_bit)
    then obtain n where n: "length r = Suc n" by (cases r) auto
    have "varint_loop v = of_nat (128 + unat v mod 128) # r"
      using 1(2) by (simp only: step low_septet if_False r_def)
    with r ge n show ?thesis by (simp add: Let_def varint_big)
  qed
qed

lemma pb_encode_varint_eq:
  "pb_encode_varint v stream = pb_write (varint (unat v)) (of_nat (length (varint (unat v)))) stream"
proof (cases "v \<le> 0x7F")
  case True
  then have lt: "unat v < 128" by (simp add: word_le_nat_alt)
  have "(ucast v :: byte) = of_nat (unat v)" by simp
  with True lt show ?thesis by (simp add: pb_encode_varint_def)
next
  case False
  then have "v \<noteq> 0" by auto
  note l = varint_loop_varint [OF this, unfolded Let_def]
  from l have "length (varint_loop v) = length (varint (unat v))" by (metis length_list_update)
  with False l show ?thesis by (simp add: pb_encode_varint_def Let_def)
qed

text \<open>
  \<open>emits f w\<close>: the writer \<open>f\<close> adds the length of \<open>w\<close> to a sizing stream; on a buffer it appends \<open>w\<close>
  when there is room and otherwise fails with \<open>stream full\<close>, never storing past \<open>max_size\<close>.
\<close>

definition buffered :: "bytes pb_ostream \<Rightarrow> bool" where
  "buffered s \<longleftrightarrow> callback s = Some buf_write \<and> bytes_written s \<le> max_size s \<and>
     unat (max_size s) < 2 ^ 63 \<and> errmsg s = None"

definition room :: "'s pb_ostream \<Rightarrow> nat \<Rightarrow> bool" where
  "room s n \<longleftrightarrow> unat (bytes_written s) + n \<le> unat (max_size s)"

definition grown :: "bytes pb_ostream \<Rightarrow> bytes \<Rightarrow> bytes pb_ostream" where
  "grown s w = s\<lparr>state := state s @ w, bytes_written := bytes_written s + of_nat (length w)\<rparr>"

definition emits :: "(bytes pb_ostream \<Rightarrow> bool \<times> bytes pb_ostream) \<Rightarrow> bytes \<Rightarrow> bool" where
  "emits f w \<longleftrightarrow>
     (\<forall>s. callback s = None \<longrightarrow> f s = (True, s\<lparr>bytes_written := bytes_written s + of_nat (length w)\<rparr>)) \<and>
     (\<forall>s. buffered s \<longrightarrow>
        (if room s (length w) then f s = (True, grown s w)
         else \<exists>p. (\<exists>q. w = p @ q) \<and> room s (length p) \<and>
                f s = (False, (grown s p)\<lparr>errmsg := Some ''stream full''\<rparr>)))"

lemma emitsI:
  assumes "\<And>s. callback s = None \<Longrightarrow> f s = (True, s\<lparr>bytes_written := bytes_written s + of_nat (length w)\<rparr>)"
    and "\<And>s. buffered s \<Longrightarrow> room s (length w) \<Longrightarrow> f s = (True, grown s w)"
    and "\<And>s. buffered s \<Longrightarrow> \<not> room s (length w) \<Longrightarrow>
      \<exists>p q. w = p @ q \<and> room s (length p) \<and> f s = (False, (grown s p)\<lparr>errmsg := Some ''stream full''\<rparr>)"
  shows "emits f w"
  using assms unfolding emits_def by metis

lemma emits_sizing:
  "emits f w \<Longrightarrow> callback s = None \<Longrightarrow> f s = (True, s\<lparr>bytes_written := bytes_written s + of_nat (length w)\<rparr>)"
  by (simp add: emits_def)

lemma emits_room: "emits f w \<Longrightarrow> buffered s \<Longrightarrow> room s (length w) \<Longrightarrow> f s = (True, grown s w)"
  by (simp add: emits_def)

lemma emits_full:
  assumes "emits f w" "buffered s" "\<not> room s (length w)"
  obtains p q where "w = p @ q" "room s (length p)"
    "f s = (False, (grown s p)\<lparr>errmsg := Some ''stream full''\<rparr>)"
  using assms unfolding emits_def by meson

lemma unat_grown:
  "buffered s \<Longrightarrow> room s (length w) \<Longrightarrow> unat (bytes_written (grown s w)) = unat (bytes_written s) + length w"
proof -
  assume b: "buffered s" and r: "room s (length w)"
  then have "unat (bytes_written s) + length w < 2 ^ 63" by (simp add: buffered_def room_def)
  then have "unat (of_nat (length w) :: u64) = length w"
    and "unat (bytes_written s) + length w < 2 ^ 64" by (simp_all add: unat_of_nat)
  then show ?thesis by (simp add: grown_def unat_word_ariths)
qed

lemma buffered_grown: "buffered s \<Longrightarrow> room s (length w) \<Longrightarrow> buffered (grown s w)"
proof -
  assume b: "buffered s" and r: "room s (length w)"
  have "bytes_written (grown s w) \<le> max_size s"
    unfolding word_le_nat_alt unat_grown [OF b r] using r by (simp add: room_def)
  with b show ?thesis by (simp add: buffered_def grown_def)
qed

lemma room_grown:
  "buffered s \<Longrightarrow> room s (length w) \<Longrightarrow> room (grown s w) n \<longleftrightarrow> room s (length w + n)"
  unfolding room_def [of "grown s w"] unat_grown by (simp add: unat_grown grown_def room_def add.assoc)

lemma room_less: "room s n \<Longrightarrow> k \<le> n \<Longrightarrow> room s k"
  by (simp add: room_def)

lemma grown_append: "grown (grown s v) w = grown s (v @ w)"
  by (simp add: grown_def)

lemma grown_Nil [simp]: "grown s [] = s"
  by (simp add: grown_def)

lemma callback_grown [simp]: "callback (grown s w) = callback s"
  by (simp add: grown_def)

lemma unat_of_nat_length: "length w < 2 ^ 64 \<Longrightarrow> unat (of_nat (length w) :: u64) = length w"
  by (simp add: unat_of_nat)

lemma pb_write_full:
  assumes len: "length w < 2 ^ 64" and b: "buffered s" and r: "\<not> room s (length w)"
  shows "pb_write w (of_nat (length w)) s = (False, s\<lparr>errmsg := Some ''stream full''\<rparr>)"
proof -
  define n :: u64 where "n = of_nat (length w)"
  have u: "unat n = length w" unfolding n_def by (rule unat_of_nat_length [OF len])
  have "length w \<noteq> 0" using r b by (auto simp: room_def buffered_def word_le_nat_alt)
  then have nz: "n > 0" unfolding word_less_nat_alt u by simp
  have full: "bytes_written s + n < bytes_written s \<or> bytes_written s + n > max_size s"
  proof (cases "bytes_written s + n < bytes_written s")
    case False
    from no_wrap_add(1) [OF this] u have "unat (bytes_written s + n) = unat (bytes_written s) + length w"
      by simp
    with r show ?thesis by (simp add: word_less_nat_alt room_def)
  qed simp
  with b nz show ?thesis
    unfolding n_def [symmetric] by (simp add: pb_write_def buffered_def oerror_def)
qed

lemma pb_write_room:
  assumes len: "length w < 2 ^ 64" and b: "buffered s" and r: "room s (length w)"
  shows "pb_write w (of_nat (length w)) s = (True, grown s w)"
proof (cases "w = []")
  case True
  with b show ?thesis by (simp add: pb_write_def buffered_def)
next
  case False
  define n :: u64 where "n = of_nat (length w)"
  have u: "unat n = length w" unfolding n_def by (rule unat_of_nat_length [OF len])
  note g = unat_grown [OF b r, unfolded grown_def n_def [symmetric], simplified]
  have nf: "\<not> bytes_written s + n < bytes_written s" "\<not> bytes_written s + n > max_size s"
    using g r by (simp_all add: word_less_nat_alt room_def)
  from False have "n > 0" unfolding word_less_nat_alt u by simp
  with nf u b show ?thesis
    unfolding n_def [symmetric] by (simp add: pb_write_def buffered_def buf_write_def grown_def n_def [symmetric])
qed

lemma emits_write: "length w < 2 ^ 64 \<Longrightarrow> emits (pb_write w (of_nat (length w))) w"
proof (rule emitsI)
  fix s :: "bytes pb_ostream"
  assume "callback s = None"
  then show "pb_write w (of_nat (length w)) s =
      (True, s\<lparr>bytes_written := bytes_written s + of_nat (length w)\<rparr>)"
    by (simp add: pb_write_def)
next
  fix s :: "bytes pb_ostream"
  assume b: "buffered s" and *: "length w < 2 ^ 64" "\<not> room s (length w)"
  have "room s (length [])" using b by (simp add: room_def buffered_def word_le_nat_alt)
  with pb_write_full [OF *(1) b *(2)] show "\<exists>p q. w = p @ q \<and> room s (length p) \<and>
      pb_write w (of_nat (length w)) s = (False, (grown s p)\<lparr>errmsg := Some ''stream full''\<rparr>)"
    by (intro exI [of _ "[]"] exI [of _ w]) simp
qed (rule pb_write_room)

lemma emits_then:
  assumes "emits f v" "emits g w"
  shows "emits (\<lambda>s. and_then (f s) g) (v @ w)"
proof (rule emitsI)
  fix s :: "bytes pb_ostream"
  assume "callback s = None"
  with assms show "and_then (f s) g = (True, s\<lparr>bytes_written := bytes_written s + of_nat (length (v @ w))\<rparr>)"
    by (simp add: emits_sizing)
next
  fix s :: "bytes pb_ostream"
  assume b: "buffered s" and r: "room s (length (v @ w))"
  then have rv: "room s (length v)" by (simp add: room_def)
  have "room (grown s v) (length w)" using r by (simp add: room_grown [OF b rv])
  with b rv assms buffered_grown [OF b rv] show "and_then (f s) g = (True, grown s (v @ w))"
    by (simp add: emits_room grown_append)
next
  fix s :: "bytes pb_ostream"
  assume b: "buffered s" and r: "\<not> room s (length (v @ w))"
  show "\<exists>p q. v @ w = p @ q \<and> room s (length p) \<and>
      and_then (f s) g = (False, (grown s p)\<lparr>errmsg := Some ''stream full''\<rparr>)"
  proof (cases "room s (length v)")
    case False
    from emits_full [OF assms(1) b False] obtain p q where "v = p @ q" "room s (length p)"
      "f s = (False, (grown s p)\<lparr>errmsg := Some ''stream full''\<rparr>)" .
    then show ?thesis by (intro exI [of _ p] exI [of _ "q @ w"]) simp
  next
    case True
    note b' = buffered_grown [OF b True]
    have "\<not> room (grown s v) (length w)" using r by (simp add: room_grown [OF b True])
    from emits_full [OF assms(2) b' this] obtain p q where p: "w = p @ q" "room (grown s v) (length p)"
      "g (grown s v) = (False, (grown (grown s v) p)\<lparr>errmsg := Some ''stream full''\<rparr>)" .
    then show ?thesis using True b assms(1)
      by (intro exI [of _ "v @ p"] exI [of _ q]) (simp add: emits_room room_grown grown_append)
  qed
qed

lemma length_varint_less: "length (varint (unat (v :: u64))) < 2 ^ 64"
  using length_varint_u64 [of v] by (rule le_less_trans) simp

lemma emits_varint: "emits (pb_encode_varint v) (varint (unat v))"
  using emits_write [OF length_varint_less [of v]] by (simp only: pb_encode_varint_eq [abs_def])

definition zigzag :: "int \<Rightarrow> nat" where
  "zigzag i = (if i < 0 then nat (- 2 * i - 1) else nat (2 * i))"

lemma uint_NOT:
  fixes w :: u64
  shows "uint (NOT w) = 2 ^ 64 - 1 - uint w"
proof -
  have r: "0 \<le> uint w" "uint w < 2 ^ 64" by (simp, use uint_lt2p [of w] in simp)
  have "uint (NOT w) = take_bit 64 (NOT (uint w))" by (subst unsigned_not_eq) simp
  also have "\<dots> = (- uint w - 1) mod 2 ^ 64" by (simp only: take_bit_eq_mod not_eq_complement)
  also have "\<dots> = (- uint w - 1 + 2 ^ 64) mod 2 ^ 64" by (simp only: mod_add_self2)
  also have "\<dots> = 2 ^ 64 - 1 - uint w" using r by (subst mod_pos_pos_trivial) linarith+
  finally show ?thesis .
qed

lemma unat_zigzag_word:
  "unat (if sint (v :: u64) < 0 then NOT (push_bit 1 v) else push_bit 1 v) = zigzag (sint v)"
proof -
  have r: "- (2 ^ 63) \<le> sint v" "sint v < 2 ^ 63"
    using sint_ge [of v] sint_lt [of v] by simp_all
  have p: "uint (push_bit 1 v) = (2 * sint v) mod 2 ^ 64"
  proof -
    have "uint (push_bit 1 v) = take_bit 64 (2 * uint v)"
      by (subst unsigned_push_bit_eq) (simp only: push_bit_eq_mult, simp add: mult.commute)
    also have "uint v = sint v mod 2 ^ 64" by (simp add: uint_sint take_bit_eq_mod)
    also have "take_bit 64 (2 * (sint v mod 2 ^ 64)) = (2 * sint v) mod 2 ^ 64"
      unfolding take_bit_eq_mod by (rule mod_mult_right_eq)
    finally show ?thesis .
  qed
  show ?thesis
  proof (cases "sint v < 0")
    case True
    have "(2 * sint v) mod 2 ^ 64 = 2 * sint v + 2 ^ 64"
    proof -
      have "(2 * sint v) mod 2 ^ 64 = (2 * sint v + 2 ^ 64) mod 2 ^ 64" by simp
      also have "\<dots> = 2 * sint v + 2 ^ 64" using True r by (intro mod_pos_pos_trivial) simp_all
      finally show ?thesis .
    qed
    then have "uint (NOT (push_bit 1 v)) = - 2 * sint v - 1" using p unfolding uint_NOT by linarith
    with True show ?thesis by (simp add: zigzag_def unat_eq_nat_uint)
  next
    case False
    then have "uint (push_bit 1 v) = 2 * sint v" using p r by simp
    with False show ?thesis by (simp add: zigzag_def unat_eq_nat_uint)
  qed
qed

lemma emits_svarint: "emits (pb_encode_svarint v) (varint (zigzag (sint v)))"
  using emits_varint [of "if sint v < 0 then NOT (push_bit 1 v) else push_bit 1 v"]
  unfolding unat_zigzag_word pb_encode_svarint_def [abs_def] .

definition le_bytes :: "nat \<Rightarrow> nat \<Rightarrow> bytes" where
  "le_bytes n v = map (\<lambda>i. of_nat (v div 256 ^ i)) [0..<n]"

lemma length_le_bytes [simp]: "length (le_bytes n v) = n"
  by (simp add: le_bytes_def)

lemma le_bytes_be: "le_bytes n v = rev (be_bytes n v)"
  by (simp add: le_bytes_def be_bytes_def)

lemma le_val_le_bytes: "le_val (le_bytes n v) = v mod 256 ^ n"
  by (simp add: le_bytes_be le_val_rev be_val_be_bytes)

lemma octet_of_word:
  fixes v :: "'a::len word"
  assumes "8 \<le> LENGTH('a)"
  shows "(ucast (drop_bit k v AND 0xFF) :: byte) = of_nat (unat v div 2 ^ k)"
proof -
  have "unat (drop_bit k v AND mask 8) = unat v div 2 ^ k mod 256"
    by (simp only: word_and_mask_unat unat_drop_bit) simp
  then show ?thesis
    by (simp only: word_unat_eq_iff unat_ucast_narrow unat_of_nat)
      (simp add: mask_eq_exp_minus_1)
qed

lemma emits_fixed32: "emits (pb_encode_fixed32 v) (le_bytes 4 (unat v))"
proof -
  have "[ucast (v AND 0xFF), ucast (drop_bit 8 v AND 0xFF), ucast (drop_bit 16 v AND 0xFF),
      ucast (drop_bit 24 v AND 0xFF)] = le_bytes 4 (unat v)"
    using octet_of_word [of 0 v] octet_of_word [of 8 v] octet_of_word [of 16 v]
      octet_of_word [of 24 v]
    by (simp add: le_bytes_def upt_rec)
  with emits_write [of "le_bytes 4 (unat v)"] show ?thesis
    by (simp add: pb_encode_fixed32_def [abs_def])
qed

lemma emits_fixed64: "emits (pb_encode_fixed64 v) (le_bytes 8 (unat v))"
proof -
  have "[ucast (v AND 0xFF), ucast (drop_bit 8 v AND 0xFF), ucast (drop_bit 16 v AND 0xFF),
      ucast (drop_bit 24 v AND 0xFF), ucast (drop_bit 32 v AND 0xFF), ucast (drop_bit 40 v AND 0xFF),
      ucast (drop_bit 48 v AND 0xFF), ucast (drop_bit 56 v AND 0xFF)] = le_bytes 8 (unat v)"
    using octet_of_word [of 0 v] octet_of_word [of 8 v] octet_of_word [of 16 v]
      octet_of_word [of 24 v] octet_of_word [of 32 v] octet_of_word [of 40 v]
      octet_of_word [of 48 v] octet_of_word [of 56 v]
    by (simp add: le_bytes_def upt_rec)
  with emits_write [of "le_bytes 8 (unat v)"] show ?thesis
    by (simp add: pb_encode_fixed64_def [abs_def])
qed

lemma unat_tag_word:
  fixes n :: u32 and wt :: pb_wire_type
  assumes "unat wt < 8"
  shows "unat (push_bit 3 (ucast n) OR ucast wt :: u64) = 8 * unat n + unat wt"
proof -
  have "unat n < 2 ^ 32" using unsigned_less [of n, where 'a = nat] by simp
  then show ?thesis
    using unat_push_bit_or [of "ucast wt :: u64" 3 "ucast n"] assms by simp
qed

definition tag_bytes :: "pb_wire_type \<Rightarrow> u32 \<Rightarrow> bytes" where
  "tag_bytes wt n = varint (8 * unat n + unat wt)"

lemma emits_tag: "unat wt < 8 \<Longrightarrow> emits (pb_encode_tag wt n) (tag_bytes wt n)"
  using emits_varint [of "push_bit 3 (ucast n) OR ucast wt :: u64"]
  unfolding pb_encode_tag_def [abs_def] tag_bytes_def by (simp only: unat_tag_word)

definition string_bytes :: "bytes \<Rightarrow> bytes" where
  "string_bytes b = varint (length b) @ b"

lemma emits_string:
  assumes "length b < 2 ^ 64"
  shows "emits (pb_encode_string b (of_nat (length b))) (string_bytes b)"
  using emits_then [OF emits_varint [of "of_nat (length b)"] emits_write [OF assms]]
  unfolding pb_encode_string_def [abs_def] string_bytes_def by (simp only: unat_of_nat_length [OF assms])

interpretation pb_sink: byte_sink "\<lambda>b. pb_write [b] 1" state "\<lambda>s. callback s = Some buf_write"
  by unfold_locales
    (auto simp: pb_write_def buf_write_def oerror_def split: if_splits)

section \<open>What a source and a reader promise\<close>

text \<open>
  \<open>delivers src bs\<close>: however the bytes are asked for, the source gives \<open>bs\<close> in order; a buffer does
  so for every prefix of its memory.  \<open>holds s bs m\<close>: the limit of the stream \<open>s\<close> leaves exactly \<open>bs\<close>,
  and \<open>m\<close> follows behind the limit.
\<close>

fun served :: "'s pb_source \<Rightarrow> u64 list \<Rightarrow> bytes \<Rightarrow> bool" where
  "served src [] bs = True"
| "served src (n # ns) bs =
     (n \<noteq> 0 \<and> unat n \<le> length bs \<longrightarrow>
        (case call_source src n of
           (None, src') \<Rightarrow> False
         | (Some b, src') \<Rightarrow> b = take (unat n) bs \<and> served src' ns (drop (unat n) bs)))"

definition delivers :: "'s pb_source \<Rightarrow> bytes \<Rightarrow> bool" where
  "delivers src bs \<longleftrightarrow> (\<forall>ns. served src ns bs)"

lemma delivers_call:
  assumes "delivers src bs" "n \<noteq> 0" "unat n \<le> length bs"
  shows "\<exists>src'. call_source src n = (Some (take (unat n) bs), src') \<and> delivers src' (drop (unat n) bs)"
proof -
  have *: "case call_source src n of (None, src') \<Rightarrow> False
      | (Some b, src') \<Rightarrow> b = take (unat n) bs \<and> served src' ns (drop (unat n) bs)" for ns
  proof -
    have "served src (n # ns) bs" using assms(1) by (simp only: delivers_def)
    then have "n \<noteq> 0 \<and> unat n \<le> length bs \<longrightarrow> ?thesis" by (simp only: served.simps)
    with assms(2,3) show ?thesis by (rule mp [OF _ conjI, rotated 1])
  qed
  obtain r src' where c: "call_source src n = (r, src')" by (cases "call_source src n")
  with * [of "[]"] have r: "r = Some (take (unat n) bs)" by (simp split: option.splits)
  from * have "served src' ns (drop (unat n) bs)" for ns by (simp add: c r)
  with c r show ?thesis by (simp add: delivers_def)
qed

lemma served_prefix: "served src ns (bs @ m) \<Longrightarrow> served src ns bs"
  by (induction src ns bs rule: served.induct) (auto split: prod.splits option.splits)

lemma delivers_prefix: "delivers src (bs @ m) \<Longrightarrow> delivers src bs"
  unfolding delivers_def by (blast intro: served_prefix)

lemma served_Buffer: "served (Buffer (bs @ m)) ns bs"
  by (induction ns arbitrary: bs)
    (auto simp: buf_read_def Let_def)

lemma delivers_Buffer [simp]: "delivers (Buffer (bs @ m)) bs" "delivers (Buffer bs) bs"
  unfolding delivers_def by (rule allI, rule served_Buffer)
    (rule allI, rule served_Buffer [where m = "[]", simplified])

definition holds :: "'s pb_istream \<Rightarrow> bytes \<Rightarrow> bytes \<Rightarrow> bool" where
  "holds s bs m \<longleftrightarrow> delivers (source s) (bs @ m) \<and> unat (bytes_left s) = length bs"

lemma holds_from_buffer:
  "length bs < 2 ^ 64 \<Longrightarrow> holds (pb_istream_from_buffer bs (of_nat (length bs))) bs []"
  by (simp add: holds_def pb_istream_from_buffer_def unat_of_nat)

lemma holds_left: "holds s bs m \<Longrightarrow> unat (bytes_left s) = length bs"
  by (simp add: holds_def)

lemma call_source_user: "call_source src n = (r, src') \<Longrightarrow> is_user src' = is_user src"
  by (cases src) (auto split: prod.splits option.splits)

text \<open>\<open>s'\<close> is \<open>s\<close> after reading up to \<open>bs\<close>.\<close>

definition reached :: "'s pb_istream \<Rightarrow> 's pb_istream \<Rightarrow> bytes \<Rightarrow> bytes \<Rightarrow> bool" where
  "reached s s' bs m \<longleftrightarrow> holds s' bs m \<and> ierrmsg s' = ierrmsg s"

lemma reached_holds: "reached s s' bs m \<Longrightarrow> holds s' bs m"
  by (simp add: reached_def)

lemma reached_trans: "reached s t bs m \<Longrightarrow> reached t u cs k \<Longrightarrow> reached s u cs k"
  by (simp add: reached_def)

lemma reached_refl: "holds s bs m \<Longrightarrow> reached s s bs m"
  by (simp add: reached_def)

lemma read_some_holds:
  assumes h: "holds s (b @ bs) m" and n: "unat n = length b" "n \<noteq> 0"
  shows "\<exists>s'. read_some n s = (Some b, s') \<and> reached s s' bs m"
proof -
  from h n have "unat n \<le> length ((b @ bs) @ m)" by simp
  from delivers_call [OF h [unfolded holds_def, THEN conjunct1] n(2) this]
  obtain src' where c: "call_source (source s) n = (Some b, src')" "delivers src' (bs @ m)"
    using n by auto
  have le: "n \<le> bytes_left s" using h n by (simp add: holds_def word_le_nat_alt)
  then have "unat (bytes_left s - n) = length bs"
    using h n by (simp add: holds_def unat_sub)
  with c le show ?thesis
    by (auto simp: read_some_def reached_def holds_def not_less)
qed

lemma pb_read_holds:
  assumes "holds s (b @ bs) m" "unat n = length b"
  shows "\<exists>s'. pb_read n s = (Some b, s') \<and> reached s s' bs m"
proof (cases "n = 0")
  case True
  with assms show ?thesis by (simp add: pb_read_def reached_refl)
next
  case False
  with read_some_holds [OF assms(1) assms(2)] show ?thesis by (simp add: pb_read_def)
qed

lemma pb_read_short:
  assumes "holds s bs m" "length bs < unat n"
  shows "pb_read n s = (None, ierror ''end-of-stream'' s)"
proof -
  have "bytes_left s < n" "n \<noteq> 0" using assms by (auto simp: holds_def word_less_nat_alt)
  then show ?thesis by (simp add: pb_read_def read_some_def)
qed

lemma pb_readbyte_holds:
  assumes h: "holds s (b # bs) m"
  shows "\<exists>s'. pb_readbyte s = (Some b, s') \<and> reached s s' bs m"
proof -
  have ne: "bytes_left s \<noteq> 0" using h by (auto simp: holds_def)
  have "holds s ([b] @ bs) m" using h by simp
  from read_some_holds [OF this, of 1] obtain s' where
    r: "read_some 1 s = (Some [b], s')" "reached s s' bs m" by auto
  moreover have "\<not> bytes_left s < 1" using ne by simp
  ultimately have "pb_readbyte s = (Some b, s')"
    using ne by (auto simp: read_some_def pb_readbyte_def split: prod.splits option.splits)
  with r show ?thesis by blast
qed

lemma pb_readbyte_end:
  "holds s [] m \<Longrightarrow> pb_readbyte s = (None, ierror ''end-of-stream'' s)"
  by (simp add: holds_def pb_readbyte_def unat_eq_0)

lemma skip_loop_holds:
  "holds s (b @ bs) m \<Longrightarrow> unat n = length b \<Longrightarrow>
    \<exists>s'. skip_loop n s = (True, s') \<and> reached s s' bs m"
proof (induction n s arbitrary: b rule: skip_loop.induct)
  case (1 n s)
  show ?case
  proof (cases "16 < n")
    case True
    then have "16 < unat n" by (simp add: word_less_nat_alt)
    define c d where "c = take 16 b" and "d = drop 16 b"
    have b: "b = c @ d" "length c = 16" "length d = unat n - 16"
      using 1(3) \<open>16 < unat n\<close> by (simp_all add: c_def d_def)
    have "holds s (c @ (d @ bs)) m" using 1(2) b by simp
    from pb_read_holds [OF this, of 16] b obtain s1 where
      s1: "pb_read 16 s = (Some c, s1)" "reached s s1 (d @ bs) m" by auto
    have "(16 :: u64) \<le> n" using True by simp
    then have "unat (n - 16) = length d" unfolding b(3) by (simp only: unat_sub) simp
    from 1(1) [OF True s1(1) [symmetric] refl reached_holds [OF s1(2)] this] obtain s2 where
      "skip_loop (n - 16) s1 = (True, s2)" "reached s1 s2 bs m" by blast
    with True s1 show ?thesis
      by (subst skip_loop.simps) (auto intro: reached_trans)
  next
    case False
    with pb_read_holds [OF 1(2,3)] show ?thesis
      by (subst skip_loop.simps) auto
  qed
qed

lemma pb_read_null_holds:
  assumes h: "holds s (b @ bs) m" and n: "unat n = length b"
  shows "\<exists>s'. pb_read_null n s = (True, s') \<and> reached s s' bs m"
proof (cases "n = 0")
  case True
  with assms show ?thesis by (simp add: pb_read_null_def reached_refl)
next
  case False
  with skip_loop_holds [OF h n] read_some_holds [OF h n] show ?thesis
    by (auto simp: pb_read_null_def)
qed

text \<open>The interface between a writer and the reader of its bytes, on any source.\<close>

locale stream_code =
  fixes enc :: "'a \<Rightarrow> bytes"
    and dec :: "'s pb_istream \<Rightarrow> 'a option \<times> 's pb_istream"
    and valid :: "'a \<Rightarrow> bool"
  assumes dec_holds: "valid v \<Longrightarrow> holds s (enc v @ bs) m \<Longrightarrow>
      \<exists>s'. dec s = (Some v, s') \<and> reached s s' bs m"
begin

lemma enc_unique:
  assumes "valid v" "valid w" "enc v @ r = enc w @ r'" "length (enc v @ r) < 2 ^ 64"
  shows "v = w \<and> r = r'"
proof -
  define s where "s = (pb_istream_from_buffer (enc v @ r) (of_nat (length (enc v @ r))) :: 's pb_istream)"
  have h: "holds s (enc v @ r) []" unfolding s_def by (rule holds_from_buffer [OF assms(4)])
  from dec_holds [OF assms(1) h] obtain s1 where
    1: "dec s = (Some v, s1)" "reached s s1 r []" by blast
  from h assms(3) have "holds s (enc w @ r') []" by simp
  from dec_holds [OF assms(2) this] obtain s2 where
    2: "dec s = (Some w, s2)" "reached s s2 r' []" by blast
  from 1 2 have eq: "v = w" "s1 = s2" by simp_all
  with assms(3) show ?thesis by simp
qed

end

section \<open>Reading varints\<close>

fun septets :: "bytes \<Rightarrow> nat" where
  "septets [] = 0"
| "septets (b # bs) = unat b mod 128 + 128 * septets bs"

abbreviation more :: "byte \<Rightarrow> bool" where
  "more b \<equiv> 128 \<le> unat b"

abbreviation lead :: "bytes \<Rightarrow> nat" where
  "lead bs \<equiv> length (takeWhile more bs)"

lemma septets_append: "septets (xs @ ys) = septets xs + 128 ^ length xs * septets ys"
  by (induction xs) (simp_all add: algebra_simps)

lemma septets_less: "septets bs < 128 ^ length bs"
proof (induction bs)
  case (Cons b bs)
  have "unat b mod 128 + 128 * septets bs < 128 * Suc (septets bs)" by simp
  also have "\<dots> \<le> 128 * 128 ^ length bs" using Cons by (intro mult_le_mono2) simp
  finally show ?case by simp
qed simp

lemma unat_octet: "n < 256 \<Longrightarrow> unat (of_nat n :: byte) = n"
  by (simp add: unat_of_nat)

lemma septets_varint: "septets (varint n) = n"
proof (induction n rule: varint.induct)
  case (1 n)
  show ?case
  proof (cases "n < 128")
    case True
    then show ?thesis by (simp add: unat_octet)
  next
    case False
    moreover have "unat (of_nat (128 + n mod 128) :: byte) mod 128 = n mod 128"
      by (subst unat_octet) simp_all
    moreover have "n mod 128 + 128 * (n div 128) = n" by simp
    ultimately show ?thesis using 1 by (simp only: varint_big not_less septets.simps)
  qed
qed

lemma varint_shape: "\<exists>c b. varint n = c @ [b] \<and> (\<forall>x \<in> set c. more x) \<and> \<not> more b"
proof (induction n rule: varint.induct)
  case (1 n)
  show ?case
  proof (cases "n < 128")
    case True
    then show ?thesis by (intro exI [of _ "[]"]) (simp add: unat_octet)
  next
    case False
    with 1 obtain c b where "varint (n div 128) = c @ [b]" "\<forall>x \<in> set c. more x" "\<not> more b" by blast
    moreover have "more (of_nat (128 + n mod 128))" by (subst unat_octet) simp_all
    ultimately show ?thesis using False
      by (intro exI [of _ "of_nat (128 + n mod 128) # c"] exI [of _ b]) (simp add: varint_big)
  qed
qed

lemma septet_add:
  fixes r :: "'a::len word" and b :: byte
  assumes "unat r < 2 ^ n" "8 \<le> LENGTH('a)"
  shows "r OR push_bit n (ucast (b AND 0x7F)) = r + of_nat (2 ^ n * (unat b mod 128))"
proof -
  have u: "(ucast (b AND 0x7F) :: 'a word) = of_nat (unat b mod 128)"
  proof -
    have "(ucast (b AND 0x7F) :: 'a word) = of_nat (unat (b AND 0x7F))" by simp
    then show ?thesis by (simp only: byte_and_low)
  qed
  have "r OR push_bit n (ucast (b AND 0x7F)) = push_bit n (ucast (b AND 0x7F)) + r"
    by (subst or.commute) (rule push_bit_or_eq_plus [OF assms(1)])
  then show ?thesis unfolding u by (simp add: push_bit_eq_mult mult.commute add.commute)
qed

lemma more_bit: "b AND 0x80 \<noteq> 0 \<longleftrightarrow> more b"
  by (simp add: byte_msb not_less)

lemma septet_add_less:
  fixes r :: "'a::len word"
  assumes "unat r < 2 ^ n" "n + 7 \<le> LENGTH('a)"
  shows "unat (r + of_nat (2 ^ n * (unat b mod 128))) < 2 ^ (n + 7)"
proof -
  have "2 ^ n * (unat b mod 128) \<le> 2 ^ n * (127 :: nat)" by (intro mult_le_mono2) simp
  moreover have "(2 :: nat) ^ (n + 7) = 128 * 2 ^ n" by (simp add: power_add)
  ultimately have lt: "unat r + 2 ^ n * (unat b mod 128) < 2 ^ (n + 7)" using assms(1) by linarith
  have "unat (r + of_nat (2 ^ n * (unat b mod 128))) \<le> unat r + 2 ^ n * (unat b mod 128)"
    by (simp only: unat_word_ariths unat_of_nat)
      (meson add_left_mono le_trans mod_less_eq_dividend)
  with lt show ?thesis by linarith
qed

lemma bitpos_octet: "k \<le> 10 \<Longrightarrow> unat (of_nat (7 * k) :: byte) = 7 * k"
  by (rule unat_octet) simp

lemma bitpos_ge64: "k \<le> 10 \<Longrightarrow> 64 \<le> (of_nat (7 * k) :: byte) \<longleftrightarrow> k = 10"
  unfolding word_le_nat_alt bitpos_octet by auto

lemma bitpos_Suc: "(of_nat (7 * k) + 7 :: byte) = of_nat (7 * Suc k)"
  by (simp add: algebra_simps)

lemma varint64_loop_result:
  assumes "holds s bs m" "k \<le> 10" "k \<le> 9 \<Longrightarrow> unat r < 2 ^ (7 * k)"
  shows "if 10 \<le> k + lead bs then \<exists>s'. varint64_loop (of_nat (7 * k)) r s = (None, ierror ''varint overflow'' s') \<and>
             reached s s' (drop (10 - k) bs) m
         else if lead bs = length bs then
           \<exists>s'. varint64_loop (of_nat (7 * k)) r s = (None, ierror ''end-of-stream'' s') \<and> reached s s' [] m
         else \<exists>s'. varint64_loop (of_nat (7 * k)) r s =
             (Some (r + of_nat (2 ^ (7 * k) * septets (take (Suc (lead bs)) bs))), s') \<and>
             reached s s' (drop (Suc (lead bs)) bs) m"
  using assms
proof (induction bs arbitrary: k r s)
  case Nil
  show ?case
  proof (cases "k = 10")
    case True
    with Nil.prems(1) show ?thesis
      by (subst varint64_loop.simps) (auto simp: intro: reached_refl)
  next
    case False
    then have "varint64_loop (of_nat (7 * k)) r s = (None, ierror ''end-of-stream'' s)"
      by (subst varint64_loop.simps)
        (simp only: bitpos_ge64 [OF Nil.prems(2)] pb_readbyte_end [OF Nil.prems(1)] if_False prod.case option.case)
    with False Nil.prems(2) reached_refl [OF Nil.prems(1)] show ?thesis by auto
  qed
next
  case (Cons b bs)
  show ?case
  proof (cases "k = 10")
    case True
    with Cons.prems(1) show ?thesis
      by (subst varint64_loop.simps) (auto intro: reached_refl)
  next
    case False
    with Cons.prems have k: "k \<le> 9" by simp
    have "\<not> 64 \<le> (of_nat (7 * k) :: byte)" "unat (of_nat (7 * k) :: byte) = 7 * k"
      by (simp_all only: bitpos_ge64 [OF Cons.prems(2)] bitpos_octet [OF Cons.prems(2)] False not_False_eq_True)
    moreover from pb_readbyte_holds [OF Cons.prems(1)] obtain s1 where
      s1: "pb_readbyte s = (Some b, s1)" "reached s s1 bs m" by blast
    moreover define r' where "r' = r + of_nat (2 ^ (7 * k) * (unat b mod 128))"
    moreover have "r OR push_bit (7 * k) (ucast (b AND 0x7F)) = r'"
      unfolding r'_def by (rule septet_add) (use Cons.prems(3) k in simp_all)
    ultimately have step: "varint64_loop (of_nat (7 * k)) r s =
        (if more b then varint64_loop (of_nat (7 * Suc k)) r' s1 else (Some r', s1))"
      by (subst varint64_loop.simps) (simp only: more_bit bitpos_Suc Let_def prod.case option.case if_False)
    show ?thesis
    proof (cases "more b")
      case True
      have "Suc k \<le> 9 \<Longrightarrow> unat r' < 2 ^ (7 * Suc k)"
        using septet_add_less [of r "7 * k" b] Cons.prems(3) [OF k] by (simp add: r'_def add.commute)
      with Cons.IH [OF reached_holds [OF s1(2)], of "Suc k" r'] k
      have IH: "if 10 \<le> Suc k + lead bs
          then \<exists>s'. varint64_loop (of_nat (7 * Suc k)) r' s1 = (None, ierror ''varint overflow'' s') \<and>
             reached s1 s' (drop (10 - Suc k) bs) m
         else if lead bs = length bs then
           \<exists>s'. varint64_loop (of_nat (7 * Suc k)) r' s1 = (None, ierror ''end-of-stream'' s') \<and> reached s1 s' [] m
         else \<exists>s'. varint64_loop (of_nat (7 * Suc k)) r' s1 =
             (Some (r' + of_nat (2 ^ (7 * Suc k) * septets (take (Suc (lead bs)) bs))), s') \<and>
             reached s1 s' (drop (Suc (lead bs)) bs) m"
        by (simp del: of_nat_mult of_nat_power)
      have val: "r' + of_nat (2 ^ (7 + 7 * k) * n) = r + of_nat (2 ^ (7 * k) * (unat b mod 128 + 128 * n))" for n
        by (simp add: r'_def algebra_simps power_add)
      have d: "drop (10 - k) (b # bs) = drop (10 - Suc k) bs" proof -
        have "10 - k = Suc (10 - Suc k)" using k by simp
        then show ?thesis by (simp only: drop_Suc_Cons)
      qed
      from IH s1(2) True step show ?thesis
        by (auto simp: d val simp del: of_nat_mult of_nat_power of_nat_add split: if_splits intro: reached_trans)
    next
      case False
      with step s1(2) k show ?thesis by (simp add: r'_def del: of_nat_mult of_nat_power)
    qed
  qed
qed

lemma lead_group: "\<forall>x \<in> set c. more x \<Longrightarrow> \<not> more b \<Longrightarrow> lead (c @ b # bs) = length c"
  by simp

lemma pb_decode_varint_group:
  assumes h: "holds s (c @ b # bs) m" and c: "\<forall>x \<in> set c. more x" "\<not> more b" "length c \<le> 9"
  shows "\<exists>s'. pb_decode_varint s = (Some (of_nat (septets (c @ [b]))), s') \<and> reached s s' bs m"
proof -
  note l = lead_group [OF c(1,2), of bs]
  from varint64_loop_result [OF h, of 0 0] show ?thesis
    unfolding l using c(3) by (simp add: pb_decode_varint_def)
qed

lemma pb_decode_varint_holds:
  fixes v :: u64
  assumes "holds s (varint (unat v) @ bs) m"
  shows "\<exists>s'. pb_decode_varint s = (Some v, s') \<and> reached s s' bs m"
proof -
  obtain c b where cb: "varint (unat v) = c @ [b]" "\<forall>x \<in> set c. more x" "\<not> more b"
    using varint_shape by blast
  have "length (c @ [b]) \<le> 10" using length_varint_u64 [of v] cb(1) by simp
  then have "length c \<le> 9" by simp
  moreover have "holds s (c @ b # bs) m" using assms unfolding cb(1) by simp
  moreover have "of_nat (septets (c @ [b])) = v"
    unfolding cb(1) [symmetric] septets_varint by simp
  ultimately show ?thesis using pb_decode_varint_group [of s c b bs m] cb(2,3) by simp
qed

text \<open>The 32-bit loop agrees with the same accumulation while the bit position is below 32.\<close>

lemma varint32_loop_more:
  assumes h: "holds s (g @ bs) m" and g: "\<forall>x \<in> set g. more x" and k: "k + length g \<le> 5" and
    r: "unat r < 2 ^ (7 * k)"
  shows "\<exists>s'. varint32_loop (of_nat (7 * k)) r s =
      varint32_loop (of_nat (7 * (k + length g))) (r + of_nat (2 ^ (7 * k) * septets g)) s' \<and> reached s s' bs m"
  using assms
proof (induction g arbitrary: k r s)
  case Nil
  then have "reached s s bs m" by (simp add: reached_refl)
  then show ?case by (intro exI [of _ s]) simp
next
  case (Cons b g)
  from pb_readbyte_holds [of s b "g @ bs" m] Cons.prems(1) obtain s1 where
    s1: "pb_readbyte s = (Some b, s1)" "reached s s1 (g @ bs) m" by auto
  have k: "k \<le> 4" and mb: "more b" using Cons.prems by simp_all
  then have pos: "\<not> 32 \<le> (of_nat (7 * k) :: byte)" "unat (of_nat (7 * k) :: byte) = 7 * k"
    unfolding word_le_nat_alt using bitpos_octet [of k] by simp_all
  define r' where "r' = r + of_nat (2 ^ (7 * k) * (unat b mod 128))"
  have r': "r OR push_bit (7 * k) (ucast (b AND 0x7F)) = r'"
    unfolding r'_def by (rule septet_add) (use Cons.prems(4) in simp_all)
  have step: "varint32_loop (of_nat (7 * k)) r s = varint32_loop (of_nat (7 * Suc k)) r' s1"
    using mb more_bit [of b] by (subst varint32_loop.simps)
      (simp only: s1(1) pos r' bitpos_Suc Let_def prod.case option.case if_False if_True simp_thms)
  have val: "r' + of_nat (2 ^ (7 * Suc k) * n) = r + of_nat (2 ^ (7 * k) * (unat b mod 128 + 128 * n))" for n
    by (simp add: r'_def algebra_simps power_add)
  show ?case
  proof (cases "k = 4")
    case True
    with Cons.prems have "g = []" by simp
    then have eq: "r + of_nat (2 ^ (7 * k) * septets (b # g)) = r'" "k + length (b # g) = Suc k"
      "g @ bs = bs" by (simp_all add: r'_def)
    from step s1(2) show ?thesis unfolding eq by blast
  next
    case False
    then have less: "unat r' < 2 ^ (7 * Suc k)"
      using septet_add_less [of r "7 * k" b] Cons.prems(4) k by (simp add: r'_def add.commute)
    have g: "\<forall>x \<in> set g. more x" "Suc k + length g \<le> 5" using Cons.prems(2,3) by simp_all
    from Cons.IH [OF reached_holds [OF s1(2)] g less] obtain s2 where
      s2: "varint32_loop (of_nat (7 * Suc k)) r' s1 =
        varint32_loop (of_nat (7 * (Suc k + length g))) (r' + of_nat (2 ^ (7 * Suc k) * septets g)) s2"
      "reached s1 s2 bs m" by (elim exE conjE)
    have "Suc k + length g = k + length (b # g)" by simp
    with s2 have "varint32_loop (of_nat (7 * k)) r s =
      varint32_loop (of_nat (7 * (k + length (b # g)))) (r + of_nat (2 ^ (7 * k) * septets (b # g))) s2"
      unfolding step val septets.simps by (simp only:)
    with reached_trans [OF s1(2) s2(2)] show ?thesis by blast
  qed
qed

lemma nibble_bound: "unat b < 16 \<Longrightarrow> (b :: byte) AND 0x70 = 0"
proof -
  assume "unat b < 16"
  then have "b AND 0x0F = b" by (simp add: word_nat_lift byte_and_low)
  then have "b AND 0x70 = b AND (0x0F AND 0x70)" by (metis and.assoc)
  then show ?thesis by simp
qed

lemma varint32_loop_group:
  assumes h: "holds s (c @ b # bs) m" and c: "\<forall>x \<in> set c. more x" "\<not> more b"
    and k: "1 \<le> k" "k + length c \<le> 4" and r: "unat r < 2 ^ (7 * k)"
    and small: "unat r + 2 ^ (7 * k) * septets (c @ [b]) < 2 ^ 32"
  shows "\<exists>s'. varint32_loop (of_nat (7 * k)) r s =
      (Some (r + of_nat (2 ^ (7 * k) * septets (c @ [b]))), s') \<and> reached s s' bs m"
proof -
  from varint32_loop_more [of s c "b # bs" m k r] h c k r obtain s1 where
    s1: "varint32_loop (of_nat (7 * k)) r s =
      varint32_loop (of_nat (7 * (k + length c))) (r + of_nat (2 ^ (7 * k) * septets c)) s1"
    "reached s s1 (b # bs) m" by auto
  define j r1 where "j = k + length c" and "r1 = r + of_nat (2 ^ (7 * k) * septets c)"
  from pb_readbyte_holds [OF reached_holds [OF s1(2)]] obtain s2 where
    s2: "pb_readbyte s1 = (Some b, s2)" "reached s1 s2 bs m" by blast
  have j: "j \<le> 4" using k by (simp add: j_def)
  then have pos: "\<not> 32 \<le> (of_nat (7 * j) :: byte)" "unat (of_nat (7 * j) :: byte) = 7 * j"
    unfolding word_le_nat_alt using bitpos_octet [of j] by simp_all
  have p: "2 ^ (7 * k) * (128 :: nat) ^ length c = 2 ^ (7 * j)"
  proof -
    have "(128 :: nat) ^ length c = 2 ^ (7 * length c)" by (simp only: power_mult) simp
    then show ?thesis by (simp add: j_def power_add algebra_simps)
  qed
  have "2 ^ (7 * k) * septets c < 2 ^ (7 * k) * 128 ^ length c" using septets_less [of c] by simp
  have r1: "unat r1 < 2 ^ (7 * j)"
  proof -
    have "septets c + 1 \<le> 128 ^ length c" using septets_less [of c] by simp
    then have "2 ^ (7 * k) * (septets c + 1) \<le> 2 ^ (7 * k) * (128 :: nat) ^ length c"
      by (rule mult_le_mono2)
    then have "unat r + 2 ^ (7 * k) * septets c < 2 ^ (7 * j)" using r unfolding p by simp
    moreover have "unat r1 \<le> unat r + 2 ^ (7 * k) * septets c"
      unfolding r1_def by (simp only: unat_word_ariths unat_of_nat)
        (meson add_left_mono le_trans mod_less_eq_dividend)
    ultimately show ?thesis by linarith
  qed
  have add: "r1 OR push_bit (7 * j) (ucast (b AND 0x7F)) = r1 + of_nat (2 ^ (7 * j) * (unat b mod 128))"
    by (rule septet_add [OF r1]) simp
  have nib: "b AND 0x70 = 0" if "j = 4"
  proof (rule nibble_bound)
    have "2 ^ (7 * k) * septets (c @ [b]) \<ge> 2 ^ (7 * j) * (unat b mod 128)"
      by (simp only: p [symmetric] septets_append septets.simps mult.assoc) simp
    with small that have "2 ^ 28 * (unat b mod 128) < 2 ^ 32" by simp
    then show "unat b < 16" using c(2) by simp
  qed
  have bp: "(of_nat (7 * Suc j) :: byte) = 35 \<longleftrightarrow> j = 4"
    using bitpos_octet [of "Suc j"] j by (auto simp: word_nat_lift [where 'a = 8] simp del: of_nat_mult of_nat_Suc)
  have "varint32_loop (of_nat (7 * j)) r1 s1 = (Some (r1 + of_nat (2 ^ (7 * j) * (unat b mod 128))), s2)"
    using nib c(2) more_bit [of b] by (subst varint32_loop.simps)
      (simp only: s2(1) pos add bitpos_Suc bp Let_def prod.case option.case if_False simp_thms split: if_split, blast)
  moreover have "r1 + of_nat (2 ^ (7 * j) * (unat b mod 128)) = r + of_nat (2 ^ (7 * k) * septets (c @ [b]))"
  proof -
    have "2 ^ (7 * k) * septets (c @ [b]) = 2 ^ (7 * k) * septets c + 2 ^ (7 * j) * (unat b mod 128)"
      by (simp only: p [symmetric] septets_append septets.simps mult.assoc) (simp add: algebra_simps)
    then show ?thesis unfolding r1_def by (simp only: of_nat_add add.assoc)
  qed
  ultimately show ?thesis
    using s1 s2 unfolding j_def r1_def by (auto intro: reached_trans)
qed

lemma pb_decode_varint32_eof_holds:
  fixes v :: u32
  assumes "holds s (varint (unat v) @ bs) m"
  shows "\<exists>s'. pb_decode_varint32_eof s = (Some v, False, s') \<and> reached s s' bs m"
proof -
  obtain c b where cb: "varint (unat v) = c @ [b]" "\<forall>x \<in> set c. more x" "\<not> more b"
    using varint_shape by blast
  have "unat v < 2 ^ 32" using unsigned_less [of v, where 'a = nat] by simp
  moreover from this have "unat v < 128 ^ 5" by simp
  then have "length (varint (unat v)) \<le> 5" by (rule length_varint) simp
  then have len: "length c \<le> 4" unfolding cb(1) by simp
  have val: "septets (c @ [b]) = unat v" unfolding cb(1) [symmetric] by (rule septets_varint)
  show ?thesis
  proof (cases c)
    case Nil
    with assms cb(1) have "holds s (b # bs) m" by simp
    from pb_readbyte_holds [OF this] obtain s1 where "pb_readbyte s = (Some b, s1)" "reached s s1 bs m"
      by blast
    moreover have "ucast b = v" using val Nil cb(3) by (simp add: word_nat_lift [where 'a = 32])
    ultimately show ?thesis using cb(3) by (simp add: pb_decode_varint32_eof_def byte_msb)
  next
    case (Cons a c')
    with assms cb(1) have "holds s (a # c' @ b # bs) m" by simp
    from pb_readbyte_holds [OF this] obtain s1 where
      s1: "pb_readbyte s = (Some a, s1)" "reached s s1 (c' @ b # bs) m" by blast
    define r :: u32 where "r = ucast (a AND 0x7F)"
    have r: "unat r = unat a mod 128" unfolding r_def by (simp add: byte_and_low)
    have tot: "unat v = unat r + 2 ^ (7 * 1) * septets (c' @ [b])" using val Cons r by simp
    have c': "\<forall>x \<in> set c'. more x" "1 + length c' \<le> 4" using cb(2) len Cons by simp_all
    have "unat r < 2 ^ (7 * 1)" "unat r + 2 ^ (7 * 1) * septets (c' @ [b]) < 2 ^ 32"
      using r \<open>unat v < 2 ^ 32\<close> by (simp, simp only: tot)
    from varint32_loop_group [OF reached_holds [OF s1(2)] c'(1) cb(3) le_refl c'(2) this] obtain s2 where
      s2: "varint32_loop (of_nat (7 * 1)) r s1 = (Some (r + of_nat (2 ^ (7 * 1) * septets (c' @ [b]))), s2)"
      "reached s1 s2 bs m" by (elim exE conjE)
    have "r + of_nat (2 ^ (7 * 1) * septets (c' @ [b])) = of_nat (unat v)"
      unfolding tot of_nat_add by simp
    with s2 have "varint32_loop 7 r s1 = (Some v, s2)" by simp
    moreover have "a AND 0x80 \<noteq> 0" using cb(2) Cons more_bit by simp
    ultimately show ?thesis using s1 s2(2) r_def
      by (auto simp: pb_decode_varint32_eof_def intro: reached_trans)
  qed
qed

lemma pb_decode_varint32_holds:
  "holds s (varint (unat (v :: u32)) @ bs) m \<Longrightarrow>
    \<exists>s'. pb_decode_varint32 s = (Some v, s') \<and> reached s s' bs m"
  using pb_decode_varint32_eof_holds [of s v bs m] by (auto simp: pb_decode_varint32_def)

lemma varint32_holds_nat:
  assumes "holds s (varint n @ bs) m" "n < 2 ^ 32"
  shows "\<exists>s'. pb_decode_varint32 s = (Some (of_nat n), s') \<and> reached s s' bs m"
  using pb_decode_varint32_holds [of s "of_nat n" bs m] assms by (simp add: unat_of_nat)

lemma unzigzag:
  "(if (of_nat (zigzag (sint v)) :: u64) AND 1 \<noteq> 0 then NOT (drop_bit 1 (of_nat (zigzag (sint v))))
    else drop_bit 1 (of_nat (zigzag (sint v)))) = (v :: u64)"
proof -
  define p where "p = push_bit 1 v"
  have bp: "bit p k \<longleftrightarrow> 1 \<le> k \<and> k < 64 \<and> bit v (k - 1)" for k
    unfolding p_def by (auto simp only: bit_push_bit_iff possible_bit_word len_of_numeral_defs)
  define w where "w = (if sint v < 0 then NOT p else p)"
  have w: "of_nat (zigzag (sint v)) = w" unfolding w_def p_def unat_zigzag_word [symmetric] by simp
  have sg: "sint v < 0 \<longleftrightarrow> bit v 63" by (simp add: bit_last_iff [symmetric])
  have odd: "w AND 1 \<noteq> 0 \<longleftrightarrow> sint v < 0"
    unfolding and_one_eq w_def by (simp add: odd_iff_mod_2_eq_one [symmetric] bit_0 [symmetric] bit_not_iff bp)
  have "(if sint v < 0 then NOT (drop_bit 1 w) else drop_bit 1 w) = v"
  proof (rule bit_word_eqI)
    fix n assume "n < LENGTH(64)"
    then show "bit (if sint v < 0 then NOT (drop_bit 1 w) else drop_bit 1 w) n = bit v n"
      by (cases "n = 63") (auto simp: w_def bit_not_iff bit_drop_bit_eq bp sg)
  qed
  then show ?thesis unfolding w odd .
qed

lemma pb_decode_svarint_holds:
  fixes v :: u64
  assumes "holds s (varint (zigzag (sint v)) @ bs) m"
  shows "\<exists>s'. pb_decode_svarint s = (Some v, s') \<and> reached s s' bs m"
proof -
  define w :: u64 where "w = (if sint v < 0 then NOT (push_bit 1 v) else push_bit 1 v)"
  have w: "unat w = zigzag (sint v)" unfolding w_def by (rule unat_zigzag_word)
  with assms have "holds s (varint (unat w) @ bs) m" by simp
  from pb_decode_varint_holds [OF this] obtain s' where
    s': "pb_decode_varint s = (Some w, s')" "reached s s' bs m" by blast
  have "of_nat (zigzag (sint v)) = w" unfolding w [symmetric] by simp
  with unzigzag [of v] have "(if w AND 1 \<noteq> 0 then NOT (drop_bit 1 w) else drop_bit 1 w) = v"
    by (simp only:)
  with s' show ?thesis by (simp add: pb_decode_svarint_def)
qed

lemma unat_le_step:
  fixes r :: "'a::len word" and b :: byte
  assumes "unat r = le_val bs" "8 * length bs + 8 \<le> LENGTH('a)"
  shows "unat (ucast b OR push_bit 8 r) = le_val (b # bs)"
proof -
  have "le_val (b # bs) < 256 ^ length (b # bs)"
    using be_val_less [of "rev (b # bs)"] by (simp only: be_val_rev length_rev)
  also have "\<dots> = 2 ^ (8 * length bs + 8)" by (simp add: power_add power_mult)
  also have "\<dots> \<le> 2 ^ LENGTH('a)" using assms(2) by (intro power_increasing) simp_all
  finally have "2 ^ 8 * unat r + unat b < 2 ^ LENGTH('a)" using assms(1) by simp
  moreover have "unat (ucast b :: 'a word) = unat b" by (rule unat_ucast_le) (use assms(2) in simp)
  ultimately show ?thesis
    using unat_push_bit_or [of "ucast b :: 'a word" 8 r] assms(1) by (simp add: or.commute)
qed

lemma le_word_32:
  "unat (push_bit 0 (ucast a) OR push_bit 8 (ucast b) OR push_bit 16 (ucast c) OR push_bit 24 (ucast d) :: u32) =
    le_val [a, b, c, d]"
proof -
  have 1: "unat (ucast d :: u32) = le_val [d]" by simp
  note 2 = unat_le_step [of "ucast d" "[d]" c, OF 1]
  note 3 = unat_le_step [of "ucast c OR push_bit 8 (ucast d)" "[c, d]" b, OF 2]
  note 4 = unat_le_step [of "ucast b OR push_bit 8 (ucast c OR push_bit 8 (ucast d))" "[b, c, d]" a, OF 3]
  have "push_bit 0 (ucast a) OR push_bit 8 (ucast b) OR push_bit 16 (ucast c) OR push_bit 24 (ucast d) =
    ucast a OR push_bit 8 (ucast b OR push_bit 8 (ucast c OR push_bit 8 (ucast d :: u32)))"
    by (simp only: push_bit_or push_bit_push_bit push_bit_0_id id_apply) simp
  with 4 show ?thesis by (simp only:) simp
qed

lemma le_word_64:
  "unat (push_bit 0 (ucast a) OR push_bit 8 (ucast b) OR push_bit 16 (ucast c) OR push_bit 24 (ucast d) OR
     push_bit 32 (ucast e) OR push_bit 40 (ucast f) OR push_bit 48 (ucast g) OR push_bit 56 (ucast h) :: u64) =
    le_val [a, b, c, d, e, f, g, h]"
proof -
  define xh xg xf xe xd xc xb :: u64 where "xh = ucast h" and "xg = ucast g OR push_bit 8 xh"
    and "xf = ucast f OR push_bit 8 xg" and "xe = ucast e OR push_bit 8 xf"
    and "xd = ucast d OR push_bit 8 xe" and "xc = ucast c OR push_bit 8 xd"
    and "xb = ucast b OR push_bit 8 xc"
  note defs = xh_def xg_def xf_def xe_def xd_def xc_def xb_def
  have "unat xh = le_val [h]" by (simp add: xh_def)
  then have "unat xg = le_val [g, h]" unfolding xg_def by (rule unat_le_step) simp
  then have "unat xf = le_val [f, g, h]" unfolding xf_def by (rule unat_le_step) simp
  then have "unat xe = le_val [e, f, g, h]" unfolding xe_def by (rule unat_le_step) simp
  then have "unat xd = le_val [d, e, f, g, h]" unfolding xd_def by (rule unat_le_step) simp
  then have "unat xc = le_val [c, d, e, f, g, h]" unfolding xc_def by (rule unat_le_step) simp
  then have "unat xb = le_val [b, c, d, e, f, g, h]" unfolding xb_def by (rule unat_le_step) simp
  then have "unat (ucast a OR push_bit 8 xb) = le_val [a, b, c, d, e, f, g, h]"
    by (rule unat_le_step) simp
  then show ?thesis
    unfolding defs push_bit_or push_bit_push_bit push_bit_0_id id_apply by simp
qed

lemma le_val_inj: "length xs = length ys \<Longrightarrow> le_val xs = le_val ys \<Longrightarrow> xs = ys"
  using be_val_inj [of "rev xs" "rev ys"] by (simp add: be_val_rev)

lemma pb_decode_fixed32_holds:
  fixes v :: u32
  assumes "holds s (le_bytes 4 (unat v) @ bs) m"
  shows "\<exists>s'. pb_decode_fixed32 s = (Some v, s') \<and> reached s s' bs m"
proof -
  obtain b where b: "b = le_bytes 4 (unat v)" "length b = 4" by simp
  with assms have h: "holds s (b @ bs) m" by simp
  from pb_read_holds [OF h, of 4] b(2) obtain s' where
    s': "pb_read 4 s = (Some b, s')" "reached s s' bs m" by auto
  have "le_val b = unat v"
    using unsigned_less [of v, where 'a = nat] by (simp add: b(1) le_val_le_bytes)
  moreover have "b = [b ! 0, b ! 1, b ! 2, b ! 3]"
    using b(2) by (auto simp: list_eq_iff_nth_eq less_Suc_eq numeral_eq_Suc)
  ultimately have "le_val [b ! 0, b ! 1, b ! 2, b ! 3] = unat v" by (simp only:)
  then have "push_bit 0 (ucast (b ! 0)) OR push_bit 8 (ucast (b ! 1)) OR
       push_bit 16 (ucast (b ! 2)) OR push_bit 24 (ucast (b ! 3)) = v"
    by (simp only: word_nat_lift [where 'a = 32] le_word_32)
  with s' show ?thesis by (simp only: pb_decode_fixed32_def prod.case option.case) simp
qed

lemma pb_decode_fixed64_holds:
  fixes v :: u64
  assumes "holds s (le_bytes 8 (unat v) @ bs) m"
  shows "\<exists>s'. pb_decode_fixed64 s = (Some v, s') \<and> reached s s' bs m"
proof -
  obtain b where b: "b = le_bytes 8 (unat v)" "length b = 8" by simp
  with assms have h: "holds s (b @ bs) m" by simp
  from pb_read_holds [OF h, of 8] b(2) obtain s' where
    s': "pb_read 8 s = (Some b, s')" "reached s s' bs m" by auto
  have "le_val b = unat v"
    using unsigned_less [of v, where 'a = nat] by (simp add: b(1) le_val_le_bytes)
  moreover have "b = [b ! 0, b ! 1, b ! 2, b ! 3, b ! 4, b ! 5, b ! 6, b ! 7]"
    using b(2) by (auto simp: list_eq_iff_nth_eq less_Suc_eq numeral_eq_Suc)
  ultimately have "le_val [b ! 0, b ! 1, b ! 2, b ! 3, b ! 4, b ! 5, b ! 6, b ! 7] = unat v"
    by (simp only:)
  then have "push_bit 0 (ucast (b ! 0)) OR push_bit 8 (ucast (b ! 1)) OR
       push_bit 16 (ucast (b ! 2)) OR push_bit 24 (ucast (b ! 3)) OR
       push_bit 32 (ucast (b ! 4)) OR push_bit 40 (ucast (b ! 5)) OR
       push_bit 48 (ucast (b ! 6)) OR push_bit 56 (ucast (b ! 7)) = v"
    by (simp only: word_nat_lift [where 'a = 64] le_word_64)
  with s' show ?thesis by (simp only: pb_decode_fixed64_def prod.case option.case) simp
qed

text \<open>A tag that \<open>pb_decode_tag\<close> can deliver: protobuf limits field numbers to 29 bits.\<close>

definition tag_ok :: "pb_wire_type \<times> u32 \<Rightarrow> bool" where
  "tag_ok = (\<lambda>(wt, n). unat wt < 8 \<and> unat n < 2 ^ 29 \<and> (wt \<noteq> 0 \<or> n \<noteq> 0))"

lemma pb_decode_tag_holds:
  assumes h: "holds s (tag_bytes wt n @ bs) m" and ok: "tag_ok (wt, n)"
  shows "\<exists>s'. pb_decode_tag s = (Some (wt, n), False, s') \<and> reached s s' bs m"
proof -
  define t :: u32 where "t = of_nat (8 * unat n + unat wt)"
  have lt: "8 * unat n + unat wt < 2 ^ 32" using ok by (simp add: tag_ok_def)
  have t: "unat t = 8 * unat n + unat wt" unfolding t_def unat_of_nat using lt by simp
  with h have "holds s (varint (unat t) @ bs) m" by (simp add: tag_bytes_def)
  from pb_decode_varint32_eof_holds [OF this] obtain s' where
    s': "pb_decode_varint32_eof s = (Some t, False, s')" "reached s s' bs m" by blast
  have "unat t \<noteq> 0" unfolding t using ok by (auto simp: tag_ok_def unat_eq_0)
  then have "t \<noteq> 0" by auto
  moreover have "t AND 7 = wt"
  proof -
    have "unat (t AND mask 3) = unat wt" unfolding word_and_mask_unat t using ok by (simp add: tag_ok_def)
    then show ?thesis by (simp add: word_nat_lift [where 'a = 32] mask_eq_exp_minus_1)
  qed
  moreover have "drop_bit 3 t = n"
  proof -
    have "unat (drop_bit 3 t) = unat n" unfolding unat_drop_bit t using ok by (simp add: tag_ok_def)
    then show ?thesis by (simp only: word_nat_lift [where 'a = 32])
  qed
  ultimately show ?thesis using s' by (simp add: pb_decode_tag_def)
qed

interpretation varint_code: stream_code "\<lambda>v :: u64. varint (unat v)" pb_decode_varint "\<lambda>_. True"
  by unfold_locales (rule pb_decode_varint_holds)

interpretation varint32_code: stream_code "\<lambda>v :: u32. varint (unat v)" pb_decode_varint32 "\<lambda>_. True"
  by unfold_locales (rule pb_decode_varint32_holds)

interpretation svarint_code: stream_code "\<lambda>v :: u64. varint (zigzag (sint v))" pb_decode_svarint "\<lambda>_. True"
  by unfold_locales (rule pb_decode_svarint_holds)

interpretation fixed32_code: stream_code "\<lambda>v :: u32. le_bytes 4 (unat v)" pb_decode_fixed32 "\<lambda>_. True"
  by unfold_locales (rule pb_decode_fixed32_holds)

interpretation fixed64_code: stream_code "\<lambda>v :: u64. le_bytes 8 (unat v)" pb_decode_fixed64 "\<lambda>_. True"
  by unfold_locales (rule pb_decode_fixed64_holds)

interpretation pb_tag_code: stream_code "\<lambda>(wt, n). tag_bytes wt n"
  "\<lambda>s. case pb_decode_tag s of (r, eof, s') \<Rightarrow> (r, s')" tag_ok
proof
  fix v :: "pb_wire_type \<times> u32" and s :: "'a pb_istream" and bs m
  assume "tag_ok v" "holds s ((case v of (wt, n) \<Rightarrow> tag_bytes wt n) @ bs) m"
  then show "\<exists>s'. (case pb_decode_tag s of (r, eof, s') \<Rightarrow> (r, s')) = (Some v, s') \<and> reached s s' bs m"
    using pb_decode_tag_holds [of s "fst v" "snd v" bs m] by (auto split: prod.splits)
qed

section \<open>Skipping fields and reading substreams\<close>

lemma pb_skip_varint_holds:
  "holds s (c @ b # bs) m \<Longrightarrow> \<forall>x \<in> set c. more x \<Longrightarrow> \<not> more b \<Longrightarrow>
    \<exists>s'. pb_skip_varint s = (True, s') \<and> reached s s' bs m"
proof (induction c arbitrary: s)
  case Nil
  then have "holds s ([b] @ bs) m" by simp
  from pb_read_holds [OF this, of 1] obtain s' where
    "pb_read 1 s = (Some [b], s')" "reached s s' bs m" by auto
  then show ?case using Nil.prems(3) more_bit [of b] by (subst pb_skip_varint.simps) simp
next
  case (Cons a c)
  then have "holds s ([a] @ (c @ b # bs)) m" by simp
  from pb_read_holds [OF this, of 1] obtain s1 where
    s1: "pb_read 1 s = (Some [a], s1)" "reached s s1 (c @ b # bs) m" by auto
  from Cons.IH [OF reached_holds [OF s1(2)]] Cons.prems obtain s2 where
    "pb_skip_varint s1 = (True, s2)" "reached s1 s2 bs m" by auto
  moreover have "a AND 0x80 \<noteq> 0" using Cons.prems(2) more_bit [of a] by simp
  ultimately show ?case using s1
    by (subst pb_skip_varint.simps) (auto intro: reached_trans)
qed

text \<open>The payloads of the four wire types.\<close>

definition payload :: "pb_wire_type \<Rightarrow> bytes \<Rightarrow> bool" where
  "payload wt p \<longleftrightarrow>
     (wt = PB_WT_VARINT \<and> p \<noteq> [] \<and> (\<forall>x \<in> set (butlast p). more x) \<and> \<not> more (last p)) \<or>
     (wt = PB_WT_64BIT \<and> length p = 8) \<or>
     (wt = PB_WT_STRING \<and> (\<exists>d. length d < 2 ^ 32 \<and> p = string_bytes d)) \<or>
     (wt = PB_WT_32BIT \<and> length p = 4)"

lemma pb_skip_string_holds:
  assumes "holds s (string_bytes d @ bs) m" "length d < 2 ^ 32"
  shows "\<exists>s'. pb_skip_string s = (True, s') \<and> reached s s' bs m"
proof -
  have "holds s (varint (length d) @ (d @ bs)) m" using assms(1) by (simp add: string_bytes_def)
  from varint32_holds_nat [OF this assms(2)] obtain s1 where
    s1: "pb_decode_varint32 s = (Some (of_nat (length d)), s1)" "reached s s1 (d @ bs) m" by blast
  have "unat (ucast (of_nat (length d) :: u32) :: u64) = length d"
    using assms(2) by (simp add: unat_of_nat)
  from pb_read_null_holds [OF reached_holds [OF s1(2)] this] s1 show ?thesis
    by (auto simp: pb_skip_string_def intro: reached_trans)
qed

lemma pb_skip_field_holds:
  assumes h: "holds s (p @ bs) m" and p: "payload wt p"
  shows "\<exists>s'. pb_skip_field wt s = (True, s') \<and> reached s s' bs m"
proof -
  consider "wt = PB_WT_VARINT" "p \<noteq> []" "\<forall>x \<in> set (butlast p). more x" "\<not> more (last p)"
    | "wt = PB_WT_64BIT" "length p = 8"
    | d where "wt = PB_WT_STRING" "length d < 2 ^ 32" "p = string_bytes d"
    | "wt = PB_WT_32BIT" "length p = 4"
    using p unfolding payload_def by blast
  then show ?thesis
  proof cases
    case 1
    then have "p @ bs = butlast p @ last p # bs" by simp
    with h have "holds s (butlast p @ last p # bs) m" by (simp only:)
    from pb_skip_varint_holds [OF this 1(3,4)] show ?thesis by (simp add: pb_skip_field_def 1(1))
  next
    case 2
    then show ?thesis using pb_read_null_holds [OF h, of 8] by (simp add: pb_skip_field_def wire_types)
  next
    case 3
    then show ?thesis using pb_skip_string_holds [of s d bs m] h by (simp add: pb_skip_field_def wire_types)
  next
    case 4
    then show ?thesis using pb_read_null_holds [OF h, of 4] by (simp add: pb_skip_field_def wire_types)
  qed
qed

lemma substream_open:
  assumes "holds s (string_bytes d @ bs) m" "length d < 2 ^ 32"
  shows "\<exists>sub s'. pb_make_string_substream s = (Some sub, s') \<and> reached s sub d (bs @ m) \<and>
    unat (bytes_left s') = length bs \<and> ierrmsg s' = ierrmsg s"
proof -
  have "holds s (varint (length d) @ (d @ bs)) m" using assms(1) by (simp add: string_bytes_def)
  from varint32_holds_nat [OF this assms(2)] obtain s1 where
    s1: "pb_decode_varint32 s = (Some (of_nat (length d)), s1)" "reached s s1 (d @ bs) m" by blast
  have u: "unat (ucast (of_nat (length d) :: u32) :: u64) = length d"
    using assms(2) by (simp add: unat_of_nat)
  have l: "unat (bytes_left s1) = length d + length bs"
    using s1(2) by (simp add: reached_def holds_def)
  then have le: "ucast (of_nat (length d) :: u32) \<le> bytes_left s1" unfolding word_le_nat_alt u by simp
  then have "unat (bytes_left s1 - ucast (of_nat (length d) :: u32)) = length bs"
    unfolding unat_sub [OF le] u l by simp
  with s1 le u show ?thesis
    by (auto simp: pb_make_string_substream_def reached_def holds_def not_less)
qed

lemma substream_close:
  assumes "holds sub d (bs @ m)" "unat (bytes_left s) = length bs"
  shows "\<exists>s'. pb_close_string_substream s sub = (True, s') \<and> holds s' bs m \<and> ierrmsg s' = ierrmsg sub"
proof (cases "bytes_left sub = 0")
  case True
  with assms show ?thesis
    by (auto simp: pb_close_string_substream_def holds_def)
next
  case False
  have h: "holds sub (d @ []) (bs @ m)" using assms(1) by simp
  from pb_read_null_holds [OF h holds_left [OF assms(1)]] obtain sub' where
    "pb_read_null (bytes_left sub) sub = (True, sub')" "reached sub sub' [] (bs @ m)" by blast
  with False assms show ?thesis
    by (auto simp: pb_close_string_substream_def reached_def holds_def)
qed

text \<open>A negative \<open>int32\<close> is sent sign-extended to 64 bits; the 32-bit reader takes it.\<close>

lemma varint_split:
  "128 ^ k \<le> n \<Longrightarrow> \<exists>g. length g = k \<and> (\<forall>x \<in> set g. more x) \<and> septets g = n mod 128 ^ k \<and>
    varint n = g @ varint (n div 128 ^ k)"
proof (induction k arbitrary: n)
  case 0
  show ?case by simp
next
  case (Suc k)
  then have "128 ^ k \<le> n div 128" by (simp add: less_eq_div_iff_mult_less_eq mult.commute)
  from Suc.IH [OF this] obtain g where g: "length g = k" "\<forall>x \<in> set g. more x"
    "septets g = n div 128 mod 128 ^ k" "varint (n div 128) = g @ varint (n div 128 div 128 ^ k)" by blast
  have u: "unat (of_nat (128 + n mod 128) :: byte) = 128 + n mod 128" by (rule unat_octet) simp
  have "128 * (1 :: nat) \<le> 128 * 128 ^ k" by (intro mult_le_mono2) simp
  also have "\<dots> \<le> n" using Suc.prems by simp
  finally have "128 \<le> n" by simp
  then have v: "varint n = (of_nat (128 + n mod 128) # g) @ varint (n div 128 ^ Suc k)"
    by (simp only: varint_big g(4) append_Cons div_mult2_eq [symmetric] power_Suc)
  have "n mod 128 ^ Suc k = 128 * (n div 128 mod 128 ^ k) + n mod 128"
    by (simp only: power_Suc mod_mult2_eq)
  then have "septets (of_nat (128 + n mod 128) # g) = n mod 128 ^ Suc k"
    unfolding septets.simps u g(3) by simp
  moreover have "\<forall>x \<in> set (of_nat (128 + n mod 128) # g). more x"
    using g(2) u by (simp only: list.set ball_simps) simp
  moreover have "length (of_nat (128 + n mod 128) # g) = Suc k" using g(1) by simp
  ultimately show ?case using v by blast
qed

lemma varint_sign_extended:
  assumes "2 ^ 64 - 2 ^ 31 \<le> n" "n < 2 ^ 64"
  shows "\<exists>g. length g = 5 \<and> (\<forall>x \<in> set g. more x) \<and> septets g = n mod 128 ^ 5 \<and>
    varint n = g @ [0xFF, 0xFF, 0xFF, 0xFF, 0x01]"
proof -
  have "128 ^ 5 \<le> n" using assms(1) by simp
  moreover have "n div 128 ^ 5 = 2 ^ 29 - 1" using assms by simp
  moreover have "varint (2 ^ 29 - 1) = [0xFF, 0xFF, 0xFF, 0xFF, 0x01]" by (simp add: varint_big)
  ultimately show ?thesis using varint_split [of 5 n] by simp
qed

lemma varint32_loop_sign:
  assumes s1: "pb_readbyte s = (Some 0xFF, s1)" and pos: "32 \<le> pos" "pos < 63" and r: "drop_bit 31 r \<noteq> 0"
  shows "varint32_loop pos r s = varint32_loop (pos + 7) r s1"
  using r by (subst varint32_loop.simps) (simp add: s1 pos Let_def)

lemma pb_decode_varint32_sign_extended:
  fixes v :: u64
  assumes h: "holds s (varint (unat v) @ bs) m" and v: "2 ^ 64 - 2 ^ 31 \<le> unat v"
  shows "\<exists>s'. pb_decode_varint32 s = (Some (ucast v), s') \<and> reached s s' bs m"
proof -
  have "unat v < 2 ^ 64" using unsigned_less [of v, where 'a = nat] by simp
  from varint_sign_extended [OF v this] obtain g where g: "length g = 5" "\<forall>x \<in> set g. more x"
    "septets g = unat v mod 128 ^ 5" "varint (unat v) = g @ [0xFF, 0xFF, 0xFF, 0xFF, 0x01]" by blast
  then obtain a g' where ag: "g = a # g'" "length g' = 4" by (cases g) auto
  define t where "t = [0xFF, 0xFF, 0xFF, 0x01 :: byte] @ bs"
  have "holds s (a # (g' @ 0xFF # t)) m" using h unfolding g(4) ag(1) t_def by simp
  from pb_readbyte_holds [OF this] obtain s1 where
    s1: "pb_readbyte s = (Some a, s1)" "reached s s1 (g' @ 0xFF # t) m" by blast
  define r :: u32 where "r = ucast (a AND 0x7F)"
  have r: "unat r = unat a mod 128" unfolding r_def by (simp add: byte_and_low)
  have g': "\<forall>x \<in> set g'. more x" "1 + length g' \<le> 5" and "unat r < 2 ^ (7 * 1)"
    using g(2) ag r by simp_all
  from varint32_loop_more [OF reached_holds [OF s1(2)] this] obtain s2 where
    s2: "varint32_loop (of_nat (7 * 1)) r s1 =
      varint32_loop (of_nat (7 * (1 + length g'))) (r + of_nat (2 ^ (7 * 1) * septets g')) s2"
    "reached s1 s2 (0xFF # t) m" by (elim exE conjE)
  define R :: u32 where "R = r + of_nat (2 ^ (7 * 1) * septets g')"
  have "R = of_nat (unat r + 2 ^ (7 * 1) * septets g')" unfolding R_def of_nat_add by simp
  also have "\<dots> = of_nat (unat v mod 128 ^ 5)" using g(3) by (simp only: ag(1) septets.simps r) simp
  finally have R: "unat R = unat v mod 128 ^ 5 mod 2 ^ 32" by (simp only: unat_of_nat len_of_numeral_defs) simp
  also have "\<dots> = unat v mod 2 ^ 32" by (simp add: mod_mod_cancel)
  finally have uR: "unat R = unat v mod 2 ^ 32" .
  then have Rv: "R = ucast v" by (simp only: word_nat_lift [where 'a = 32] unat_ucast_narrow) simp
  have "2 ^ 31 \<le> unat R"
  proof -
    obtain d where d: "unat v = 2 ^ 64 - 2 ^ 31 + d" using v le_Suc_ex by blast
    then have "unat v = 2 ^ 31 + d + (2 ^ 32 - 1) * 2 ^ 32" by simp
    moreover have "2 ^ 31 + d < 2 ^ 32" using d \<open>unat v < 2 ^ 64\<close> by simp
    ultimately have "unat R = 2 ^ 31 + d" unfolding uR by (simp only: mod_mult_self1 mod_less)
    then show ?thesis by simp
  qed
  then have top: "drop_bit 31 R \<noteq> 0" unfolding drop_bit_eq_0_iff_unat by simp
  from pb_readbyte_holds [OF reached_holds [OF s2(2)]] obtain s3 where
    s3: "pb_readbyte s2 = (Some 0xFF, s3)" "reached s2 s3 t m" by blast
  from pb_readbyte_holds [OF reached_holds [OF s3(2) [unfolded t_def append_Cons]]] obtain s4 where
    s4: "pb_readbyte s3 = (Some 0xFF, s4)" "reached s3 s4 ([0xFF, 0xFF, 0x01] @ bs) m" by auto
  from pb_readbyte_holds [OF reached_holds [OF s4(2) [unfolded append_Cons]]] obtain s5 where
    s5: "pb_readbyte s4 = (Some 0xFF, s5)" "reached s4 s5 ([0xFF, 0x01] @ bs) m" by auto
  from pb_readbyte_holds [OF reached_holds [OF s5(2) [unfolded append_Cons]]] obtain s6 where
    s6: "pb_readbyte s5 = (Some 0xFF, s6)" "reached s5 s6 ([0x01] @ bs) m" by auto
  from pb_readbyte_holds [OF reached_holds [OF s6(2) [unfolded append_Cons]]] obtain s7 where
    s7: "pb_readbyte s6 = (Some 0x01, s7)" "reached s6 s7 bs m" by auto
  have "varint32_loop (of_nat (7 * (1 + length g'))) R s2 = varint32_loop 35 R s2" by (simp add: ag(2))
  also have "\<dots> = varint32_loop 63 R s6"
    using varint32_loop_sign [OF s3(1) _ _ top, of 35] varint32_loop_sign [OF s4(1) _ _ top, of 42]
      varint32_loop_sign [OF s5(1) _ _ top, of 49] varint32_loop_sign [OF s6(1) _ _ top, of 56] by simp
  also have "\<dots> = (Some R, s7)" using top by (subst varint32_loop.simps) (simp add: s7(1) Let_def)
  finally have "varint32_loop 7 r s1 = (Some R, s7)" using s2(1) unfolding R_def by simp
  moreover have "a AND 0x80 \<noteq> 0" using g(2) ag(1) more_bit [of a] by simp
  ultimately have "pb_decode_varint32 s = (Some R, s7)"
    using s1(1) r_def by (simp add: pb_decode_varint32_def pb_decode_varint32_eof_def)
  moreover have "reached s s7 bs m"
    using s1(2) s2(2) s3(2) s4(2) s5(2) s6(2) s7(2) by (simp add: reached_def)
  ultimately show ?thesis using Rv by blast
qed

section \<open>Streams stay within their limit\<close>

text \<open>\<open>within s s'\<close>: the limit has gone down by the number of bytes taken from the source.\<close>

definition within :: "'s pb_istream \<Rightarrow> 's pb_istream \<Rightarrow> bool" where
  "within s s' \<longleftrightarrow>
     (\<exists>k \<le> unat (bytes_left s). unat (bytes_left s') = unat (bytes_left s) - k \<and>
        (\<forall>mem. source s = Buffer mem \<longrightarrow> source s' = Buffer (drop k mem)))"

named_theorems within_ops "readers keep streams within their limit"

lemma within_refl: "within s s"
  unfolding within_def by (intro exI [of _ 0]) simp

lemma within_same: "bytes_left s' = bytes_left s \<Longrightarrow> source s' = source s \<Longrightarrow> within s s'"
  unfolding within_def by (intro exI [of _ 0]) simp

lemma within_ierror: "within s t \<Longrightarrow> within s (ierror e t)"
  by (simp add: within_def ierror_def)

lemma within_trans:
  assumes "within s t" "within t u"
  shows "within s u"
proof -
  from assms obtain k j where k: "k \<le> unat (bytes_left s)" "unat (bytes_left t) = unat (bytes_left s) - k"
    "\<forall>mem. source s = Buffer mem \<longrightarrow> source t = Buffer (drop k mem)"
    and j: "j \<le> unat (bytes_left t)" "unat (bytes_left u) = unat (bytes_left t) - j"
    "\<forall>mem. source t = Buffer mem \<longrightarrow> source u = Buffer (drop j mem)" unfolding within_def by blast
  then show ?thesis unfolding within_def
    by (intro exI [of _ "k + j"]) (simp add: add.commute)
qed

lemma within_left: "within s t \<Longrightarrow> unat (bytes_left t) \<le> unat (bytes_left s)"
  by (auto simp: within_def)

lemma within_call:
  assumes "call_source (source s) n = (r, src)" "n \<le> bytes_left s"
  shows "within s (s\<lparr>source := src, bytes_left := bytes_left s - n\<rparr>)"
  unfolding within_def using assms
  by (intro exI [of _ "unat n"]) (auto simp: buf_read_def unat_sub word_le_nat_alt)

lemma within_failed_call:
  "call_source (source s) n = (None, src) \<Longrightarrow> within s (ierror e (s\<lparr>source := src\<rparr>))"
  by (cases "source s") (auto simp: within_def ierror_def buf_read_def intro: exI [of _ 0])

lemma within_read_some: "read_some n s = (r, s') \<Longrightarrow> within s s'"
  by (auto simp: read_some_def not_less split: if_splits prod.splits option.splits
      intro: within_call within_failed_call within_ierror within_refl)

lemma within_pb_read [within_ops]: "pb_read n s = (r, s') \<Longrightarrow> within s s'"
  by (auto simp: pb_read_def within_refl split: if_splits dest: within_read_some)

lemma within_skip_loop: "skip_loop n s = (r, s') \<Longrightarrow> within s s'"
proof (induction n s arbitrary: r s' rule: skip_loop.induct)
  case (1 n s)
  show ?case
  proof (cases "16 < n \<and> fst (pb_read 16 s) \<noteq> None")
    case True
    then obtain b t where t: "pb_read 16 s = (Some b, t)" by (cases "pb_read 16 s") auto
    with True 1(2) have "skip_loop (n - 16) t = (r, s')" by (subst (asm) skip_loop.simps) simp
    with 1(1) [OF _ t [symmetric] refl] True within_pb_read [OF t] show ?thesis
      by (blast intro: within_trans)
  next
    case False
    with 1(2) show ?thesis
      by (subst (asm) skip_loop.simps) (auto split: if_splits prod.splits option.splits dest: within_pb_read)
  qed
qed

lemma within_pb_read_null [within_ops]: "pb_read_null n s = (r, s') \<Longrightarrow> within s s'"
  by (auto simp: pb_read_null_def within_refl split: if_splits prod.splits
      dest: within_read_some within_skip_loop)

lemma within_readbyte [within_ops]: "pb_readbyte s = (r, s') \<Longrightarrow> within s s'"
proof -
  assume r: "pb_readbyte s = (r, s')"
  show ?thesis
  proof (cases "bytes_left s = 0")
    case True
    with r show ?thesis by (auto simp: pb_readbyte_def intro: within_ierror within_refl)
  next
    case False
    then have "1 \<le> bytes_left s" by (simp add: word_le_nat_alt Suc_le_eq unat_gt_0)
    with r False show ?thesis
      by (auto simp: pb_readbyte_def split: prod.splits option.splits
          intro: within_call within_failed_call)
  qed
qed

lemma within_varint32_loop: "varint32_loop p r s = (x, s') \<Longrightarrow> within s s'"
proof (induction p r s arbitrary: x s' rule: varint32_loop.induct)
  case (1 p r s)
  obtain q t where t: "pb_readbyte s = (q, t)" by (cases "pb_readbyte s")
  note wt = within_readbyte [OF t]
  show ?case
  proof (cases q)
    case None
    with 1(2) t wt show ?thesis by (subst (asm) varint32_loop.simps) simp
  next
    case (Some b)
    from 1(2) show ?thesis
      apply (subst (asm) varint32_loop.simps)
      using 1(1) [OF t [symmetric] Some] wt
      by (auto simp: t Some Let_def split: if_splits intro: within_ierror within_trans [OF wt])
  qed
qed

lemma within_varint64_loop: "varint64_loop p r s = (x, s') \<Longrightarrow> within s s'"
proof (induction p r s arbitrary: x s' rule: varint64_loop.induct)
  case (1 p r s)
  obtain q t where t: "pb_readbyte s = (q, t)" by (cases "pb_readbyte s")
  note wt = within_readbyte [OF t]
  show ?case
  proof (cases q)
    case None
    with 1(2) t wt show ?thesis
      by (subst (asm) varint64_loop.simps) (auto split: if_splits intro: within_ierror within_refl)
  next
    case (Some b)
    from 1(2) show ?thesis
      apply (subst (asm) varint64_loop.simps)
      using 1(1) [OF _ t [symmetric] Some] wt
      by (auto simp: t Some Let_def split: if_splits intro: within_ierror within_refl within_trans [OF wt])
  qed
qed

lemma within_varint32_eof [within_ops]: "pb_decode_varint32_eof s = (r, eof, s') \<Longrightarrow> within s s'"
  by (auto simp: pb_decode_varint32_eof_def split: prod.splits option.splits if_splits
      dest!: within_readbyte within_varint32_loop intro: within_trans)

lemma within_varint32 [within_ops]: "pb_decode_varint32 s = (r, s') \<Longrightarrow> within s s'"
  by (auto simp: pb_decode_varint32_def split: prod.splits dest: within_varint32_eof)

lemma within_varint [within_ops]: "pb_decode_varint s = (r, s') \<Longrightarrow> within s s'"
  unfolding pb_decode_varint_def by (rule within_varint64_loop)

lemma within_svarint [within_ops]: "pb_decode_svarint s = (r, s') \<Longrightarrow> within s s'"
  by (auto simp: pb_decode_svarint_def split: prod.splits option.splits dest: within_varint)

lemma within_fixed32 [within_ops]: "pb_decode_fixed32 s = (r, s') \<Longrightarrow> within s s'"
  by (auto simp: pb_decode_fixed32_def split: prod.splits option.splits dest: within_pb_read)

lemma within_fixed64 [within_ops]: "pb_decode_fixed64 s = (r, s') \<Longrightarrow> within s s'"
  by (auto simp: pb_decode_fixed64_def split: prod.splits option.splits dest: within_pb_read)

lemma within_tag [within_ops]: "pb_decode_tag s = (r, eof, s') \<Longrightarrow> within s s'"
  by (auto simp: pb_decode_tag_def split: prod.splits option.splits if_splits dest: within_varint32_eof)

lemma within_skip_varint [within_ops]: "pb_skip_varint s = (r, s') \<Longrightarrow> within s s'"
proof (induction s arbitrary: r s' rule: pb_skip_varint.induct)
  case (1 s)
  obtain q t where t: "pb_read 1 s = (q, t)" by (cases "pb_read 1 s")
  note wt = within_pb_read [OF t]
  show ?case
  proof (cases q)
    case None
    with 1(2) t wt show ?thesis by (subst (asm) pb_skip_varint.simps) simp
  next
    case (Some b)
    from 1(2) show ?thesis
      apply (subst (asm) pb_skip_varint.simps)
      using 1(1) [OF t [symmetric] Some] wt
      by (auto simp: t Some split: if_splits intro: within_trans [OF wt])
  qed
qed

lemma within_skip_string [within_ops]: "pb_skip_string s = (r, s') \<Longrightarrow> within s s'"
  by (auto simp: pb_skip_string_def split: prod.splits option.splits
      dest!: within_varint32 within_pb_read_null intro: within_trans)

lemma within_skip_field [within_ops]: "pb_skip_field wt s = (r, s') \<Longrightarrow> within s s'"
  by (auto simp: pb_skip_field_def within_refl split: if_splits
      dest: within_skip_varint within_skip_string within_pb_read_null intro: within_ierror)

lemma within_raw_varint: "raw_varint n b mx s = (r, s') \<Longrightarrow> within s s'"
proof (induction n b mx s arbitrary: r s' rule: raw_varint.induct)
  case (1 n b mx s)
  obtain q t where t: "pb_read 1 s = (q, t)" by (cases "pb_read 1 s")
  note wt = within_pb_read [OF t]
  show ?case
  proof (cases q)
    case None
    with 1(2) t wt show ?thesis
      by (subst (asm) raw_varint.simps) (auto simp: Let_def split: if_splits intro: within_refl)
  next
    case (Some c)
    from 1(2) show ?thesis
      apply (subst (asm) raw_varint.simps)
      using 1(1) [OF refl _ t [symmetric] Some] wt
      by (auto simp: t Some Let_def split: if_splits intro: within_refl within_trans [OF wt])
  qed
qed

lemma within_raw_value [within_ops]: "read_raw_value wt mx s = (r, s') \<Longrightarrow> within s s'"
  by (auto simp: read_raw_value_def within_refl split: if_splits
      dest: within_raw_varint within_pb_read intro: within_ierror)

lemma pb_read_left_exact:
  assumes "pb_read n s = (Some b, c)"
  shows "unat n + unat (bytes_left c) = unat (bytes_left s)"
proof (cases "n = 0")
  case True
  with assms show ?thesis by (simp add: pb_read_def)
next
  case False
  from pb_read_left [OF assms this] show ?thesis by (simp add: unat_sub word_le_nat_alt)
qed

lemma skip_loop_left:
  "skip_loop n s = (True, c) \<Longrightarrow> unat n + unat (bytes_left c) = unat (bytes_left s)"
proof (induction n s arbitrary: c rule: skip_loop.induct)
  case (1 n s)
  obtain q t where t: "pb_read (if 16 < n then 16 else n) s = (q, t)"
    by (cases "pb_read (if 16 < n then 16 else n) s")
  show ?case
  proof (cases "16 < n")
    case True
    with t 1(2) obtain b where b: "pb_read 16 s = (Some b, t)" "skip_loop (n - 16) t = (True, c)"
      by (subst (asm) skip_loop.simps) (auto split: option.splits)
    have "16 < unat n" "(16 :: u64) \<le> n" using True by (simp add: word_less_nat_alt, simp)
    then have "unat (n - 16) = unat n - 16" by (simp only: unat_sub) simp
    with 1(1) [OF True b(1) [symmetric] refl b(2)] pb_read_left_exact [OF b(1)] \<open>16 < unat n\<close>
    show ?thesis by simp
  next
    case False
    with t 1(2) obtain b where "pb_read n s = (Some b, c)"
      by (subst (asm) skip_loop.simps) (auto split: option.splits)
    then show ?thesis by (rule pb_read_left_exact)
  qed
qed

lemma pb_read_null_left:
  assumes "pb_read_null n s = (True, c)"
  shows "unat n + unat (bytes_left c) = unat (bytes_left s)"
proof (cases "n = 0 \<or> is_user (source s)")
  case True
  with assms skip_loop_left [of n s c] show ?thesis by (auto simp: pb_read_null_def split: if_splits)
next
  case False
  with assms obtain b where "pb_read n s = (Some b, c)"
    by (auto simp: pb_read_null_def pb_read_def split: prod.splits)
  then show ?thesis by (rule pb_read_left_exact)
qed

text \<open>A reader that stays within the substream leaves the parent within its limit.\<close>

lemma within_substream:
  assumes "pb_make_string_substream s = (Some sub, t)" "within sub sub'"
    "pb_close_string_substream t sub' = (True, s')"
  shows "within s s' \<and> unat (bytes_left sub) + unat (bytes_left s') \<le> unat (bytes_left s)"
proof -
  from assms(1) obtain sz u where u: "pb_decode_varint32 s = (Some sz, u)"
    and le: "(ucast sz :: u64) \<le> bytes_left u"
    and sub: "sub = u\<lparr>bytes_left := ucast sz\<rparr>" and t: "t = u\<lparr>bytes_left := bytes_left u - ucast sz\<rparr>"
    by (auto simp: pb_make_string_substream_def not_less split: prod.splits option.splits if_splits)
  define n where "n = unat (ucast sz :: u64)"
  have lt: "unat (bytes_left t) = unat (bytes_left u) - n" and n: "n \<le> unat (bytes_left u)"
    using le by (simp_all add: t n_def unat_sub word_le_nat_alt)
  have "\<exists>c. within sub' c \<and> bytes_left c = 0 \<and> s' = t\<lparr>source := source c, ierrmsg := ierrmsg c\<rparr>"
  proof (cases "bytes_left sub' = 0")
    case True
    with assms(3) show ?thesis by (auto simp: pb_close_string_substream_def intro: within_refl)
  next
    case False
    then obtain c where c: "pb_read_null (bytes_left sub') sub' = (True, c)"
      "s' = t\<lparr>source := source c, ierrmsg := ierrmsg c\<rparr>"
      using assms(3) by (auto simp: pb_close_string_substream_def split: prod.splits bool.splits)
    from pb_read_null_left [OF c(1)] have "bytes_left c = 0" by (simp add: unat_eq_0)
    with c show ?thesis by (blast dest: within_pb_read_null)
  qed
  then obtain c where c: "within sub' c" "bytes_left c = 0"
    and s': "s' = t\<lparr>source := source c, ierrmsg := ierrmsg c\<rparr>" by blast
  from within_trans [OF assms(2) c(1)] c(2) have
    src: "\<forall>mem. source u = Buffer mem \<longrightarrow> source c = Buffer (drop n mem)"
    by (auto simp: within_def sub n_def)
  have "within u s'" unfolding within_def using n lt src by (intro exI [of _ n]) (simp add: s' t)
  moreover note within_varint32 [OF u]
  moreover from within_left [OF this] have "unat (bytes_left u) \<le> unat (bytes_left s)" .
  then have "unat (bytes_left sub) + unat (bytes_left s') \<le> unat (bytes_left s)"
  proof -
    have "unat (bytes_left sub) = n" "bytes_left s' = bytes_left t" by (simp_all add: sub s' n_def)
    with lt n \<open>unat (bytes_left u) \<le> unat (bytes_left s)\<close> show ?thesis by simp
  qed
  ultimately show ?thesis by (blast intro: within_trans)
qed

lemma within_make [within_ops]:
  "pb_make_string_substream s = (None, s') \<Longrightarrow> within s s'"
  by (auto simp: pb_make_string_substream_def split: prod.splits option.splits if_splits
      dest: within_varint32 intro: within_ierror)

section \<open>Properties\<close>

text \<open>\<open>decodes dec b v\<close>: on every source and whatever follows, \<open>dec\<close> reads \<open>v\<close> from \<open>b\<close> and nothing more.\<close>

definition decodes :: "('s pb_istream \<Rightarrow> 'a option \<times> 's pb_istream) \<Rightarrow> bytes \<Rightarrow> 'a \<Rightarrow> bool" where
  "decodes dec b v \<longleftrightarrow>
     (\<forall>s bs m. holds s (b @ bs) m \<longrightarrow> (\<exists>s'. dec s = (Some v, s') \<and> reached s s' bs m))"

lemma decodesD: "decodes dec b v \<Longrightarrow> holds s (b @ bs) m \<Longrightarrow> \<exists>s'. dec s = (Some v, s') \<and> reached s s' bs m"
  by (simp add: decodes_def)

context stream_code
begin

lemma decodes_enc: "valid v \<Longrightarrow> decodes dec (enc v) v"
  unfolding decodes_def by (blast intro: dec_holds)

end

text \<open>C19:
  Scalars survive the wire.  For every 64-bit and 32-bit value the writers of varints, zig-zag
  varints and fixed-width integers emit the LEB128 or little-endian bytes of the value (a sizing
  stream counts them, a buffer gets them when there is room and otherwise reports
  \<open>stream full\<close>), and the readers get the value back from those bytes on any source.
\<close>

theorem pb_scalars_roundtrip:
  fixes v :: u64 and w :: u32
  shows "emits (pb_encode_varint v) (varint (unat v)) \<and>
    decodes pb_decode_varint (varint (unat v)) v \<and>
    emits (pb_encode_svarint v) (varint (zigzag (sint v))) \<and>
    decodes pb_decode_svarint (varint (zigzag (sint v))) v \<and>
    emits (pb_encode_fixed64 v) (le_bytes 8 (unat v)) \<and>
    decodes pb_decode_fixed64 (le_bytes 8 (unat v)) v \<and>
    emits (pb_encode_fixed32 w) (le_bytes 4 (unat w)) \<and>
    decodes pb_decode_fixed32 (le_bytes 4 (unat w)) w"
  by (intro conjI emits_varint emits_svarint emits_fixed64 emits_fixed32 TrueI
      varint_code.decodes_enc svarint_code.decodes_enc fixed64_code.decodes_enc
      fixed32_code.decodes_enc)

text \<open>
  What \<open>pb_decode_varint\<close> does on every input.  If ten bytes or more have the continuation bit it
  consumes ten and reports an overflow; if the stream ends first it reports the end of the stream;
  otherwise it delivers the number that the septets denote, modulo 2^64, and stops behind it.
\<close>

theorem pb_decode_varint_result:
  assumes "holds s bs m"
  shows "if 10 \<le> lead bs then
      \<exists>s'. pb_decode_varint s = (None, ierror ''varint overflow'' s') \<and> reached s s' (drop 10 bs) m
    else if lead bs = length bs then
      \<exists>s'. pb_decode_varint s = (None, ierror ''end-of-stream'' s') \<and> reached s s' [] m
    else \<exists>s'. pb_decode_varint s = (Some (of_nat (septets (take (Suc (lead bs)) bs))), s') \<and>
        reached s s' (drop (Suc (lead bs)) bs) m"
  unfolding pb_decode_varint_def
  using varint64_loop_result [OF assms, of 0 0]
  by (simp split del: if_split cong: if_cong)

theorem pb_decode_varint_result_witness:
  "\<exists>s'. pb_decode_varint (pb_istream_from_buffer [0x96, 0x01, 0x07] 3 :: unit pb_istream) = (Some 150, s') \<and>
    reached (pb_istream_from_buffer [0x96, 0x01, 0x07] 3) s' [0x07] []"
proof -
  have "holds (pb_istream_from_buffer [0x96, 0x01, 0x07] 3 :: unit pb_istream) [0x96, 0x01, 0x07] []"
    using holds_from_buffer [of "[0x96, 0x01, 0x07]"] by simp
  from pb_decode_varint_result [OF this] show ?thesis by simp
qed

text \<open>
  The 32-bit reader agrees with the 64-bit reader on every canonical varint whose value fits: a
  value below 2^32 comes out unchanged, and a negative \<open>int32\<close>, which is sent sign-extended to ten
  bytes, comes out as its low 32 bits.
\<close>

theorem pb_decode_varint32_agrees:
  fixes v :: u64
  assumes "unat v < 2 ^ 32 \<or> 2 ^ 64 - 2 ^ 31 \<le> unat v"
  shows "decodes pb_decode_varint (varint (unat v)) v \<and>
    decodes pb_decode_varint32 (varint (unat v)) (ucast v)"
proof
  show "decodes pb_decode_varint (varint (unat v)) v" by (rule varint_code.decodes_enc) simp
  show "decodes pb_decode_varint32 (varint (unat v)) (ucast v)"
  proof (cases "unat v < 2 ^ 32")
    case True
    then have "unat (ucast v :: u32) = unat v" by (simp add: unat_ucast_narrow)
    then show ?thesis using varint32_code.decodes_enc [of "ucast v"] by simp
  next
    case False
    with assms have "2 ^ 64 - 2 ^ 31 \<le> unat v" by blast
    then show ?thesis unfolding decodes_def by (blast intro: pb_decode_varint32_sign_extended)
  qed
qed

theorem pb_decode_varint32_agrees_witness:
  "decodes pb_decode_varint (varint (unat (0xFFFFFFFFFFFFFFFE :: u64))) 0xFFFFFFFFFFFFFFFE \<and>
    decodes pb_decode_varint32 (varint (unat (0xFFFFFFFFFFFFFFFE :: u64))) (ucast (0xFFFFFFFFFFFFFFFE :: u64))"
  by (rule pb_decode_varint32_agrees) simp

lemma varint32_first_five:
  assumes h: "holds s (g @ bs) m" and g: "length g = 5" "\<forall>x \<in> set g. more x"
  shows "\<exists>s'. pb_decode_varint32 s = varint32_loop 35 (of_nat (septets g)) s' \<and> reached s s' bs m"
proof -
  obtain a g' where ag: "g = a # g'" "length g' = 4" using g(1) by (cases g) auto
  from h ag(1) have "holds s (a # (g' @ bs)) m" by simp
  from pb_readbyte_holds [OF this] obtain s1 where
    s1: "pb_readbyte s = (Some a, s1)" "reached s s1 (g' @ bs) m" by blast
  define r :: u32 where "r = ucast (a AND 0x7F)"
  have r: "unat r = unat a mod 128" unfolding r_def by (simp add: byte_and_low)
  have "\<forall>x \<in> set g'. more x" "1 + length g' \<le> 5" "unat r < 2 ^ (7 * 1)" using g(2) ag r by simp_all
  from varint32_loop_more [OF reached_holds [OF s1(2)] this] obtain s2 where
    s2: "varint32_loop (of_nat (7 * 1)) r s1 =
      varint32_loop (of_nat (7 * (1 + length g'))) (r + of_nat (2 ^ (7 * 1) * septets g')) s2"
    "reached s1 s2 bs m" by (elim exE conjE)
  have "r + of_nat (2 ^ (7 * 1) * septets g') = of_nat (unat r + 2 ^ (7 * 1) * septets g')" unfolding of_nat_add by simp
  also have "unat r + 2 ^ (7 * 1) * septets g' = septets g" by (simp only: ag(1) septets.simps r) simp
  finally have "varint32_loop 7 r s1 = varint32_loop 35 (of_nat (septets g)) s2"
    using s2(1) by (simp add: ag(2))
  moreover have "a AND 0x80 \<noteq> 0" using g(2) ag(1) more_bit [of a] by simp
  ultimately have "pb_decode_varint32 s = varint32_loop 35 (of_nat (septets g)) s2"
    using s1(1) r_def by (simp add: pb_decode_varint32_def pb_decode_varint32_eof_def split: prod.split)
  with reached_trans [OF s1(2) s2(2)] show ?thesis by blast
qed

lemma bitpos_high: "5 \<le> k \<Longrightarrow> k \<le> 36 \<Longrightarrow> 32 \<le> (of_nat (7 * k) :: byte) \<and> (of_nat (7 * k) + 7 :: byte) \<noteq> 35"
proof -
  assume k: "5 \<le> k" "k \<le> 36"
  then have u: "unat (of_nat (7 * k) :: byte) = 7 * k" by (simp add: unat_of_nat del: of_nat_mult)
  have "of_nat (7 * k) + 7 \<noteq> (35 :: byte)"
  proof
    assume "of_nat (7 * k) + 7 = (35 :: byte)"
    then have "of_nat (7 * k) = (28 :: byte)" by (simp add: eq_diff_eq [symmetric] del: of_nat_mult)
    then have "unat (of_nat (7 * k) :: byte) = 28" by (simp only: unat_numeral) simp
    with u k show False by simp
  qed
  with u k show ?thesis by (simp add: word_le_nat_alt)
qed

lemma varint32_loop_zero:
  assumes "pb_readbyte s = (Some b, s')" "b AND 0x7F = 0" "5 \<le> k" "k \<le> 36"
  shows "varint32_loop (of_nat (7 * k)) r s =
    (if b AND 0x80 \<noteq> 0 then varint32_loop (of_nat (7 * Suc k)) r s' else (Some r, s'))"
proof -
  have "\<not> (of_nat (7 * k) + 7 = (35 :: byte))" "32 \<le> (of_nat (7 * k) :: byte)" using bitpos_high [OF assms(3,4)] by simp_all
  then show ?thesis unfolding bitpos_Suc [symmetric]
    by (subst varint32_loop.simps) (simp only: assms(1,2) Let_def prod.case option.case if_True if_False simp_thms split: if_split)
qed

lemma varint32_loop_zeros:
  assumes "holds s (replicate n 0x80 @ bs) m" "5 \<le> k" "k + n \<le> 37"
  shows "\<exists>s'. varint32_loop (of_nat (7 * k)) r s = varint32_loop (of_nat (7 * (k + n))) r s' \<and> reached s s' bs m"
  using assms
proof (induction n arbitrary: k s)
  case 0
  then show ?case by (intro exI [of _ s]) (simp add: reached_refl)
next
  case (Suc n)
  from Suc.prems(1) have "holds s (0x80 # (replicate n 0x80 @ bs)) m" by simp
  from pb_readbyte_holds [OF this] obtain s1 where
    s1: "pb_readbyte s = (Some 0x80, s1)" "reached s s1 (replicate n 0x80 @ bs) m" by blast
  have k: "5 \<le> Suc k" "Suc k + n \<le> 37" "k \<le> 36" using Suc.prems(2,3) by simp_all
  from Suc.IH [OF reached_holds [OF s1(2)] k(1,2)] obtain s2 where
    s2: "varint32_loop (of_nat (7 * Suc k)) r s1 = varint32_loop (of_nat (7 * (Suc k + n))) r s2" "reached s1 s2 bs m" by blast
  have "varint32_loop (of_nat (7 * k)) r s = varint32_loop (of_nat (7 * Suc k)) r s1"
    using varint32_loop_zero [OF s1(1) _ Suc.prems(2) k(3)] by simp
  with s2(1) have "varint32_loop (of_nat (7 * k)) r s = varint32_loop (of_nat (7 * (k + Suc n))) r s2" by simp
  with reached_trans [OF s1(2) s2(2)] show ?case by blast
qed

text \<open>Longer varints: the loop behind the fifth byte, up to where the bit position wraps.\<close>

lemma varint32_padded:
  assumes "length g = 5" "\<forall>x \<in> set g. more x" "n \<le> 31"
  shows "decodes pb_decode_varint32 (g @ replicate n 0x80 @ [0]) (of_nat (septets g))"
  unfolding decodes_def
proof (intro allI impI)
  fix s :: "'a pb_istream" and bs m
  assume "holds s ((g @ replicate n 0x80 @ [0]) @ bs) m"
  then have "holds s (g @ (replicate n 0x80 @ 0 # bs)) m" by simp
  from varint32_first_five [OF this assms(1,2)] obtain s1 where
    s1: "pb_decode_varint32 s = varint32_loop 35 (of_nat (septets g)) s1" "reached s s1 (replicate n 0x80 @ 0 # bs) m" by blast
  from varint32_loop_zeros [OF reached_holds [OF s1(2)], of 5 "of_nat (septets g)"] assms(3) obtain s2 where
    s2: "varint32_loop 35 (of_nat (septets g)) s1 = varint32_loop (of_nat (7 * (5 + n))) (of_nat (septets g)) s2"
    "reached s1 s2 (0 # bs) m" by auto
  from pb_readbyte_holds [OF reached_holds [OF s2(2)]] obtain s3 where
    s3: "pb_readbyte s2 = (Some 0, s3)" "reached s2 s3 bs m" by blast
  have "varint32_loop (of_nat (7 * (5 + n))) (of_nat (septets g)) s2 = (Some (of_nat (septets g)), s3)"
    using varint32_loop_zero [OF s3(1) _ _ , of "5 + n"] assms(3) by simp
  with s1 s2 s3 show "\<exists>s'. pb_decode_varint32 s = (Some (of_nat (septets g)), s') \<and> reached s s' bs m"
    by (auto intro: reached_trans)
qed

lemma varint32_wrapped:
  assumes "length g = 5" "\<forall>x \<in> set g. more x" "\<not> more b"
  shows "decodes pb_decode_varint32 (g @ replicate 32 0x80 @ [b]) (of_nat (septets g) OR push_bit 3 (ucast b))"
  unfolding decodes_def
proof (intro allI impI)
  fix s :: "'a pb_istream" and bs m
  assume "holds s ((g @ replicate 32 0x80 @ [b]) @ bs) m"
  then have "holds s (g @ (replicate 32 0x80 @ b # bs)) m" by (simp only: append_assoc append_Cons append_Nil)
  from varint32_first_five [OF this assms(1,2)] obtain s1 where
    s1: "pb_decode_varint32 s = varint32_loop 35 (of_nat (septets g)) s1" "reached s s1 (replicate 32 0x80 @ b # bs) m" by blast
  obtain s2 where
    s2: "varint32_loop 35 (of_nat (septets g)) s1 = varint32_loop 3 (of_nat (septets g)) s2"
    "reached s1 s2 (b # bs) m"
  proof -
    have w: "of_nat (7 * 5) = (35 :: byte)" "of_nat (7 * (5 + 32)) = (3 :: byte)" by simp_all
    from varint32_loop_zeros [OF reached_holds [OF s1(2)], of 5 "of_nat (septets g)", unfolded w] that
    show ?thesis by auto
  qed
  from pb_readbyte_holds [OF reached_holds [OF s2(2)]] obtain s3 where
    s3: "pb_readbyte s2 = (Some b, s3)" "reached s2 s3 bs m" by blast
  have "b AND 0x80 = 0" using assms(3) more_bit [of b] by blast
  moreover have "b AND 0x7F = b" using assms(3) by (simp add: word_nat_lift byte_and_low)
  ultimately have "varint32_loop 3 (of_nat (septets g)) s2 = (Some (of_nat (septets g) OR push_bit 3 (ucast b)), s3)"
    by (subst varint32_loop.simps) (simp add: s3(1) Let_def)
  with s1 s2 s3 show "\<exists>s'. pb_decode_varint32 s = (Some (of_nat (septets g) OR push_bit 3 (ucast b)), s') \<and> reached s s' bs m"
    by (auto intro: reached_trans)
qed

lemma varint_padded:
  assumes "length g = 5" "\<forall>x \<in> set g. more x" "n \<le> 4"
  shows "decodes pb_decode_varint (g @ replicate n 0x80 @ [0]) (of_nat (septets g))"
  unfolding decodes_def
proof (intro allI impI)
  fix s :: "'a pb_istream" and bs m
  assume "holds s ((g @ replicate n 0x80 @ [0]) @ bs) m"
  then have h: "holds s ((g @ replicate n 0x80) @ 0 # bs) m" by simp
  have c: "\<forall>x \<in> set (g @ replicate n 0x80). more x" "length (g @ replicate n 0x80) \<le> 9" using assms by auto
  have "septets (replicate n 0x80 @ [0]) = 0" by (induction n) simp_all
  then have "septets ((g @ replicate n 0x80) @ [0]) = septets g" by (simp only: append_assoc septets_append)
  with pb_decode_varint_group [OF h c(1) _ c(2)]
  show "\<exists>s'. pb_decode_varint s = (Some (of_nat (septets g)), s') \<and> reached s s' bs m" by simp
qed

text \<open>C20: The 32-bit reader is no range check.  Take any five bytes with the continuation bit, behind them up to 31
  bytes 80, and a last byte 0: the reader gives the low 32 bits of the value, whatever the bits of the
  fifth byte are that do not fit, where the 64-bit reader gives the value itself (up to ten
  bytes) or reports an overflow.  With 32 bytes 80 the bit position has wrapped around, and a last byte is ORed into the
  value at bit 3.\<close>

theorem pb_decode_varint32_defects:
  assumes "length g = 5" "\<forall>x \<in> set g. more x"
  shows "(n \<le> 31 \<longrightarrow> decodes pb_decode_varint32 (g @ replicate n 0x80 @ [0]) (of_nat (septets g))) \<and>
    (n \<le> 4 \<longrightarrow> decodes pb_decode_varint (g @ replicate n 0x80 @ [0]) (of_nat (septets g))) \<and>
    (\<not> more b \<longrightarrow>
      decodes pb_decode_varint32 (g @ replicate 32 0x80 @ [b]) (of_nat (septets g) OR push_bit 3 (ucast b))) \<and>
    (5 \<le> n \<longrightarrow> holds s (g @ replicate n 0x80 @ bs) m \<longrightarrow> fst (pb_decode_varint s) = None)"
proof (intro conjI impI)
  show "decodes pb_decode_varint32 (g @ replicate n 0x80 @ [0]) (of_nat (septets g))" if "n \<le> 31"
    by (rule varint32_padded [OF assms that])
  show "decodes pb_decode_varint32 (g @ replicate 32 0x80 @ [b]) (of_nat (septets g) OR push_bit 3 (ucast b))" if "\<not> more b"
    by (rule varint32_wrapped [OF assms that])
  show "decodes pb_decode_varint (g @ replicate n 0x80 @ [0]) (of_nat (septets g))" if "n \<le> 4"
    by (rule varint_padded [OF assms that])
  assume h: "holds s (g @ replicate n 0x80 @ bs) m" and "5 \<le> n"
  have "takeWhile more (replicate n 0x80 @ bs) = replicate n 0x80 @ takeWhile more bs" by (induction n) simp_all
  with \<open>5 \<le> n\<close> have "10 \<le> lead (g @ replicate n 0x80 @ bs)"
    using assms by simp
  with varint64_loop_result [OF h, of 0 0] show "fst (pb_decode_varint s) = None" by (auto simp: pb_decode_varint_def)
qed

theorem pb_decode_varint32_defects_witness:
  "decodes pb_decode_varint32 [0x80, 0x80, 0x80, 0x80, 0xF0, 0x00] 0 \<and>
    decodes pb_decode_varint [0x80, 0x80, 0x80, 0x80, 0xF0, 0x00] (7 * 2 ^ 32) \<and>
    decodes pb_decode_varint32 (replicate 37 0x80 @ [0x01]) 8"
proof -
  have g: "length [0x80, 0x80, 0x80, 0x80, 0xF0 :: byte] = 5" "\<forall>x \<in> set [0x80, 0x80, 0x80, 0x80, 0xF0 :: byte]. more x"
    "septets [0x80, 0x80, 0x80, 0x80, 0xF0] = 7 * 2 ^ 32" by simp_all
  have z: "length (replicate 5 (0x80 :: byte)) = 5" "\<forall>x \<in> set (replicate 5 (0x80 :: byte)). more x"
    "septets (replicate 5 0x80) = 0" by (simp, simp, code_simp)
  have r: "replicate 5 0x80 @ replicate 32 0x80 @ [1] = replicate 37 (0x80 :: byte) @ [1]"
    by (simp only: append_assoc [symmetric] replicate_add [symmetric]) simp
  have "\<not> more 1" by simp
  have e: "[0x80, 0x80, 0x80, 0x80, 0xF0] @ replicate 0 0x80 @ [0] = [0x80, 0x80, 0x80, 0x80, 0xF0, 0 :: byte]"
    "of_nat (7 * 2 ^ 32) = (0 :: u32)" "of_nat (7 * 2 ^ 32) = (7 * 2 ^ 32 :: u64)"
    "of_nat 0 OR push_bit 3 (ucast (1 :: byte)) = (8 :: u32)" by simp_all
  show ?thesis
  proof (intro conjI)
    show "decodes pb_decode_varint32 [0x80, 0x80, 0x80, 0x80, 0xF0, 0] 0"
      using pb_decode_varint32_defects [OF g(1,2), of 0, unfolded g(3) e] by blast
    show "decodes pb_decode_varint [0x80, 0x80, 0x80, 0x80, 0xF0, 0] (7 * 2 ^ 32)"
      using pb_decode_varint32_defects [OF g(1,2), of 0, unfolded g(3) e] by blast
    show "decodes pb_decode_varint32 (replicate 37 0x80 @ [1]) 8"
      using pb_decode_varint32_defects [OF z(1,2), of 0 1, unfolded z(3) r e] \<open>\<not> more 1\<close> by blast
  qed
qed

text \<open>C21:
  An unknown field is skipped exactly: after \<open>pb_decode_tag\<close> has delivered its wire type and number,
  \<open>pb_skip_field\<close> consumes the payload of that wire type (a varint of any length, four or eight
  bytes, or a string with its length) and leaves the stream at the next field.
\<close>

theorem pb_skip_field_exact:
  assumes "holds s (tag_bytes wt n @ p @ bs) m" "tag_ok (wt, n)" "payload wt p"
  shows "\<exists>s1 s'. pb_decode_tag s = (Some (wt, n), False, s1) \<and> pb_skip_field wt s1 = (True, s') \<and>
    reached s s' bs m"
proof -
  from pb_decode_tag_holds [OF assms(1,2)] obtain s1 where
    s1: "pb_decode_tag s = (Some (wt, n), False, s1)" "reached s s1 (p @ bs) m" by blast
  from pb_skip_field_holds [OF reached_holds [OF s1(2)] assms(3)] s1 show ?thesis
    by (blast intro: reached_trans)
qed

theorem pb_skip_field_exact_witness:
  "\<exists>s1 s'. pb_decode_tag (pb_istream_from_buffer [0x12, 0x02, 0x61, 0x62, 0x08] 5 :: unit pb_istream) =
      (Some (PB_WT_STRING, 2), False, s1) \<and> pb_skip_field PB_WT_STRING s1 = (True, s') \<and>
    reached (pb_istream_from_buffer [0x12, 0x02, 0x61, 0x62, 0x08] 5) s' [0x08] []"
proof (rule pb_skip_field_exact)
  have "holds (pb_istream_from_buffer [0x12, 0x02, 0x61, 0x62, 0x08] 5 :: unit pb_istream)
      [0x12, 0x02, 0x61, 0x62, 0x08] []"
    using holds_from_buffer [of "[0x12, 0x02, 0x61, 0x62, 0x08]"] by simp
  moreover have "tag_bytes PB_WT_STRING 2 @ [0x02, 0x61, 0x62] @ [0x08] = [0x12, 0x02, 0x61, 0x62, 0x08]"
    by (simp add: tag_bytes_def wire_types)
  ultimately show "holds (pb_istream_from_buffer [0x12, 0x02, 0x61, 0x62, 0x08] 5 :: unit pb_istream)
      (tag_bytes PB_WT_STRING 2 @ [0x02, 0x61, 0x62] @ [0x08]) []" by simp
  show "tag_ok (PB_WT_STRING, 2)" by (simp add: tag_ok_def wire_types)
  have "[0x02, 0x61, 0x62] = string_bytes [0x61, 0x62]" by (simp add: string_bytes_def)
  then show "payload PB_WT_STRING [0x02, 0x61, 0x62]"
    unfolding payload_def by (intro disjI2 disjI1 conjI refl exI [of _ "[0x61, 0x62]"]) simp_all
qed

text \<open>C22:
  Substreams are isolated.  Opening a length-delimited value gives a substream that holds exactly its
  contents; wherever its reader stops inside, closing it puts the parent right behind the value.
\<close>

theorem pb_substream_isolated:
  assumes "holds s (string_bytes d @ bs) m" "length d < 2 ^ 32"
  shows "\<exists>sub t. pb_make_string_substream s = (Some sub, t) \<and> reached s sub d (bs @ m) \<and>
    (\<forall>sub' rest. holds sub' rest (bs @ m) \<longrightarrow>
       (\<exists>s'. pb_close_string_substream t sub' = (True, s') \<and> holds s' bs m \<and> ierrmsg s' = ierrmsg sub'))"
  using substream_open [OF assms] substream_close by blast

theorem pb_substream_isolated_witness:
  "\<exists>sub t. pb_make_string_substream (pb_istream_from_buffer [0x01, 0x61, 0x62] 3 :: unit pb_istream) =
      (Some sub, t) \<and> reached (pb_istream_from_buffer [0x01, 0x61, 0x62] 3) sub [0x61] [0x62]"
proof -
  have eq: "string_bytes [0x61] @ [0x62] = [0x01, 0x61, 0x62]" by (simp add: string_bytes_def)
  have "holds (pb_istream_from_buffer [0x01, 0x61, 0x62] 3 :: unit pb_istream)
      (string_bytes [0x61] @ [0x62]) []"
    unfolding eq using holds_from_buffer [of "[0x01, 0x61, 0x62]"] by simp
  from pb_substream_isolated [OF this] show ?thesis by auto
qed

lemma within_snd: "(\<And>r s'. x = (r, s') \<Longrightarrow> within s s') \<Longrightarrow> within s (snd x)"
  by (cases x) simp

lemma within_snd_snd: "(\<And>r e s'. x = (r, e, s') \<Longrightarrow> within s s') \<Longrightarrow> within s (snd (snd x))"
  by (cases x) simp

text \<open>
  No reader passes the limit of its stream.  Whatever the bytes are and whether it succeeds or fails,
  every reader takes at most \<open>bytes_left\<close> bytes from the source, and lowers \<open>bytes_left\<close> by just as
  many; on a buffer the position and the limit stay in step.
\<close>

theorem pb_readers_within_limit:
  "within s (snd (pb_read n s)) \<and> within s (snd (pb_read_null n s)) \<and> within s (snd (pb_readbyte s)) \<and>
    within s (snd (pb_decode_varint s)) \<and> within s (snd (pb_decode_varint32 s)) \<and>
    within s (snd (pb_decode_svarint s)) \<and> within s (snd (pb_decode_fixed32 s)) \<and>
    within s (snd (pb_decode_fixed64 s)) \<and> within s (snd (snd (pb_decode_tag s))) \<and>
    within s (snd (pb_skip_field wt s)) \<and> within s (snd (read_raw_value wt n s))"
  by (intro conjI; (rule within_snd_snd, erule within_ops | rule within_snd, erule within_ops))

end
