(* ===== verification/Pb_Fields.thy ===== *)
theory Pb_Fields
  imports Prelude
begin

text \<open>
  Field descriptors and the field iterator of nanopb (\<open>pb.h\<close>, \<open>pb_common.c\<close>).  A pointer is a 64-bit
  address; an array of descriptors is the list of its entries up to the terminator
  \<open>PB_LAST_FIELD\<close>.  The iterator walks over the array, computes the addresses of the field and of
  its size or presence flag in the message, and wraps around at the terminator.
\<close>

section \<open>Field types\<close>

text \<open>The four low bits of a type byte; eleven of their values are declared.\<close>

datatype pb_ltype =
  PB_LTYPE_BOOL | PB_LTYPE_VARINT | PB_LTYPE_UVARINT | PB_LTYPE_SVARINT | PB_LTYPE_FIXED32
| PB_LTYPE_FIXED64 | PB_LTYPE_BYTES | PB_LTYPE_STRING | PB_LTYPE_SUBMESSAGE | PB_LTYPE_EXTENSION
| PB_LTYPE_FIXED_LENGTH_BYTES | PB_LTYPE_UNDECLARED

datatype pb_htype = PB_HTYPE_REQUIRED | PB_HTYPE_OPTIONAL | PB_HTYPE_REPEATED | PB_HTYPE_ONEOF

datatype pb_atype = PB_ATYPE_STATIC | PB_ATYPE_CALLBACK | PB_ATYPE_POINTER | PB_ATYPE_UNDECLARED

definition pb_ltypes :: "pb_ltype list" where
  "pb_ltypes = [PB_LTYPE_BOOL, PB_LTYPE_VARINT, PB_LTYPE_UVARINT, PB_LTYPE_SVARINT, PB_LTYPE_FIXED32,
     PB_LTYPE_FIXED64, PB_LTYPE_BYTES, PB_LTYPE_STRING, PB_LTYPE_SUBMESSAGE, PB_LTYPE_EXTENSION,
     PB_LTYPE_FIXED_LENGTH_BYTES]"

definition PB_LTYPE :: "byte \<Rightarrow> pb_ltype" where
  "PB_LTYPE x = (let n = unat (x AND 0x0F)
     in if n < length pb_ltypes then pb_ltypes ! n else PB_LTYPE_UNDECLARED)"

definition PB_HTYPE :: "byte \<Rightarrow> pb_htype" where
  "PB_HTYPE x =
     (if x AND 0x30 = 0x00 then PB_HTYPE_REQUIRED
      else if x AND 0x30 = 0x10 then PB_HTYPE_OPTIONAL
      else if x AND 0x30 = 0x20 then PB_HTYPE_REPEATED else PB_HTYPE_ONEOF)"

definition PB_ATYPE :: "byte \<Rightarrow> pb_atype" where
  "PB_ATYPE x =
     (if x AND 0xC0 = 0x00 then PB_ATYPE_STATIC
      else if x AND 0xC0 = 0x80 then PB_ATYPE_POINTER
      else if x AND 0xC0 = 0x40 then PB_ATYPE_CALLBACK else PB_ATYPE_UNDECLARED)"

text \<open>The code compares scalar types by their numbers.\<close>

fun ltype_number :: "pb_ltype \<Rightarrow> nat" where
  "ltype_number PB_LTYPE_BOOL = 0"
| "ltype_number PB_LTYPE_VARINT = 1"
| "ltype_number PB_LTYPE_UVARINT = 2"
| "ltype_number PB_LTYPE_SVARINT = 3"
| "ltype_number PB_LTYPE_FIXED32 = 4"
| "ltype_number PB_LTYPE_FIXED64 = 5"
| "ltype_number PB_LTYPE_BYTES = 6"
| "ltype_number PB_LTYPE_STRING = 7"
| "ltype_number PB_LTYPE_SUBMESSAGE = 8"
| "ltype_number PB_LTYPE_EXTENSION = 9"
| "ltype_number PB_LTYPE_FIXED_LENGTH_BYTES = 10"
| "ltype_number PB_LTYPE_UNDECLARED = 11"

lemma ltype_number_inject: "ltype_number x = ltype_number y \<longleftrightarrow> x = y"
  by (cases x; cases y) simp_all

instantiation pb_ltype :: linorder
begin

definition less_eq_pb_ltype :: "pb_ltype \<Rightarrow> pb_ltype \<Rightarrow> bool" where
  "less_eq_pb_ltype x y \<longleftrightarrow> ltype_number x \<le> ltype_number y"

definition less_pb_ltype :: "pb_ltype \<Rightarrow> pb_ltype \<Rightarrow> bool" where
  "less_pb_ltype x y \<longleftrightarrow> ltype_number x < ltype_number y"

instance
  by standard (auto simp: less_eq_pb_ltype_def less_pb_ltype_def ltype_number_inject)

end

definition PB_LTYPE_LAST_PACKABLE :: pb_ltype where
  "PB_LTYPE_LAST_PACKABLE = PB_LTYPE_FIXED64"

lemma ltype_number_nth: "n < length pb_ltypes \<Longrightarrow> ltype_number (pb_ltypes ! n) = n"
  by (auto simp: pb_ltypes_def less_Suc_eq numeral_eq_Suc)

lemma packable_iff:
  "PB_LTYPE t \<le> PB_LTYPE_LAST_PACKABLE \<longleftrightarrow> unat (t AND 0x0F) \<le> 5"
proof (cases "unat (t AND 0x0F) < length pb_ltypes")
  case True
  then show ?thesis
    by (simp add: PB_LTYPE_def Let_def less_eq_pb_ltype_def ltype_number_nth PB_LTYPE_LAST_PACKABLE_def)
next
  case False
  then show ?thesis
    by (simp add: PB_LTYPE_def less_eq_pb_ltype_def PB_LTYPE_LAST_PACKABLE_def pb_ltypes_def)
qed

lemma packable_cases:
  "t \<le> PB_LTYPE_LAST_PACKABLE \<longleftrightarrow> t \<in> {PB_LTYPE_BOOL, PB_LTYPE_VARINT, PB_LTYPE_UVARINT,
     PB_LTYPE_SVARINT, PB_LTYPE_FIXED32, PB_LTYPE_FIXED64}"
  by (cases t) (simp_all add: less_eq_pb_ltype_def PB_LTYPE_LAST_PACKABLE_def)

section \<open>Descriptors and iterators\<close>

text \<open>\<open>size_offset\<close> is signed.\<close>

record pb_field =
  tag :: u32
  type_of :: byte
  data_offset :: u32
  size_offset :: u32
  data_size :: u32
  array_size :: u32
  ptr :: u64

definition PB_LAST_FIELD :: pb_field where
  "PB_LAST_FIELD = \<lparr>tag = 0, type_of = 0, data_offset = 0, size_offset = 0, data_size = 0,
     array_size = 0, ptr = 0\<rparr>"

definition PB_SIZE_MAX :: u32 where
  "PB_SIZE_MAX = - 1"

record pb_field_iter =
  start :: "pb_field list"
  pos :: nat
  required_field_index :: u32
  dest_struct :: u64
  pData :: u64
  pSize :: u64

definition field_at :: "pb_field list \<Rightarrow> nat \<Rightarrow> pb_field" where
  "field_at fs i = (if i < length fs then fs ! i else PB_LAST_FIELD)"

text \<open>The entry \<open>*iter->pos\<close>.\<close>

definition cur :: "pb_field_iter \<Rightarrow> pb_field" where
  "cur iter = field_at (start iter) (pos iter)"

definition pb_field_iter_begin :: "pb_field list \<Rightarrow> u64 \<Rightarrow> bool \<times> pb_field_iter" where
  "pb_field_iter_begin fs dest =
     (let f = field_at fs 0; data = dest + ucast (data_offset f)
      in (tag f \<noteq> 0,
          \<lparr>start = fs, pos = 0, required_field_index = 0, dest_struct = dest, pData = data,
           pSize = data + scast (size_offset f)\<rparr>))"

definition pb_field_iter_next :: "pb_field_iter \<Rightarrow> bool \<times> pb_field_iter" where
  "pb_field_iter_next iter =
     (let prev_field = cur iter in
      if tag prev_field = 0 then (False, iter)
      else
        let iter = iter\<lparr>pos := pos iter + 1\<rparr> in
        if tag (cur iter) = 0 then
          (False, snd (pb_field_iter_begin (start iter) (dest_struct iter)))
        else if PB_HTYPE (type_of prev_field) = PB_HTYPE_ONEOF \<and>
                PB_HTYPE (type_of (cur iter)) = PB_HTYPE_ONEOF \<and>
                data_offset (cur iter) = PB_SIZE_MAX
        then (True, iter)
        else
          let prev_size = ucast (data_size prev_field) :: u64;
              prev_size =
                (if PB_ATYPE (type_of prev_field) = PB_ATYPE_STATIC \<and>
                    PB_HTYPE (type_of prev_field) = PB_HTYPE_REPEATED
                 then prev_size * ucast (array_size prev_field)
                 else if PB_ATYPE (type_of prev_field) = PB_ATYPE_POINTER then 8
                 else prev_size);
              iter = (if PB_HTYPE (type_of prev_field) = PB_HTYPE_REQUIRED
                      then iter\<lparr>required_field_index := required_field_index iter + 1\<rparr> else iter);
              iter = iter\<lparr>pData := pData iter + prev_size + ucast (data_offset (cur iter))\<rparr>
          in (True, iter\<lparr>pSize := pData iter + scast (size_offset (cur iter))\<rparr>))"

text \<open>
  The searches go around the array until they are back where they started; nothing in the code
  bounds them, so not returning is the value \<open>None\<close>.
\<close>

partial_function (option) search_loop ::
  "(pb_field \<Rightarrow> bool) \<Rightarrow> nat \<Rightarrow> pb_field_iter \<Rightarrow> (bool \<times> pb_field_iter) option" where
  "search_loop wanted begin_pos iter =
     (if wanted (cur iter) then Some (True, iter)
      else
        let iter = snd (pb_field_iter_next iter)
        in if pos iter \<noteq> begin_pos then search_loop wanted begin_pos iter else Some (False, iter))"

definition pb_field_iter_find :: "u32 \<Rightarrow> pb_field_iter \<Rightarrow> (bool \<times> pb_field_iter) option" where
  "pb_field_iter_find wanted_tag iter =
     search_loop (\<lambda>f. tag f = wanted_tag \<and> PB_LTYPE (type_of f) \<noteq> PB_LTYPE_EXTENSION) (pos iter) iter"

definition find_extension_field :: "pb_field_iter \<Rightarrow> (bool \<times> pb_field_iter) option" where
  "find_extension_field iter =
     search_loop (\<lambda>f. PB_LTYPE (type_of f) = PB_LTYPE_EXTENSION) (pos iter) iter"

text \<open>
  The iterators that a loop \<open>do \<dots> while (pb_field_iter_next(&iter))\<close> goes through, for bodies that do
  not move the iterator themselves.  At most one per entry: the fuel is the length of the array.
\<close>

fun visits :: "nat \<Rightarrow> pb_field_iter \<Rightarrow> pb_field_iter list" where
  "visits 0 iter = [iter]"
| "visits (Suc n) iter =
     (case pb_field_iter_next iter of
        (False, _) \<Rightarrow> [iter]
      | (True, iter') \<Rightarrow> iter # visits n iter')"

definition all_fields :: "pb_field list \<Rightarrow> u64 \<Rightarrow> pb_field_iter list" where
  "all_fields fs dest =
     (case pb_field_iter_begin fs dest of
        (False, _) \<Rightarrow> []
      | (True, iter) \<Rightarrow> visits (length fs) iter)"

section \<open>Walking over a descriptor array\<close>

text \<open>A descriptor array with at least one entry, and the iterator at its \<open>k\<close>-th entry.\<close>

definition descriptors :: "pb_field list \<Rightarrow> bool" where
  "descriptors fs \<longleftrightarrow> fs \<noteq> [] \<and> (\<forall>f \<in> set fs. tag f \<noteq> 0)"

definition iter_at :: "pb_field list \<Rightarrow> u64 \<Rightarrow> nat \<Rightarrow> pb_field_iter" where
  "iter_at fs dest k = ((\<lambda>it. snd (pb_field_iter_next it)) ^^ k) (snd (pb_field_iter_begin fs dest))"

lemma field_at_tag: "descriptors fs \<Longrightarrow> tag (field_at fs k) = 0 \<longleftrightarrow> length fs \<le> k"
  by (auto simp: descriptors_def field_at_def PB_LAST_FIELD_def not_less)

lemma begin_simps [simp]:
  "pos (snd (pb_field_iter_begin fs dest)) = 0"
  "start (snd (pb_field_iter_begin fs dest)) = fs"
  "dest_struct (snd (pb_field_iter_begin fs dest)) = dest"
  "required_field_index (snd (pb_field_iter_begin fs dest)) = 0"
  by (simp_all add: pb_field_iter_begin_def Let_def)

lemma begin_descriptors:
  "descriptors fs \<Longrightarrow> pb_field_iter_begin fs dest = (True, snd (pb_field_iter_begin fs dest))"
  using field_at_tag [of fs 0] by (cases fs) (auto simp: pb_field_iter_begin_def Let_def descriptors_def)

lemma next_last:
  assumes "descriptors (start it)" "Suc (pos it) = length (start it)"
  shows "pb_field_iter_next it = (False, snd (pb_field_iter_begin (start it) (dest_struct it)))"
  using assms field_at_tag [OF assms(1), of "pos it"] field_at_tag [OF assms(1), of "Suc (pos it)"]
  by (simp add: pb_field_iter_next_def cur_def Let_def)

lemma next_inner:
  assumes "descriptors (start it)" "Suc (pos it) < length (start it)"
  shows "fst (pb_field_iter_next it) = True"
    and "pos (snd (pb_field_iter_next it)) = Suc (pos it)"
    and "start (snd (pb_field_iter_next it)) = start it"
    and "dest_struct (snd (pb_field_iter_next it)) = dest_struct it"
    and "required_field_index (snd (pb_field_iter_next it)) = required_field_index it +
      (if PB_HTYPE (type_of (cur it)) = PB_HTYPE_REQUIRED then 1 else 0)"
  using assms field_at_tag [OF assms(1), of "pos it"] field_at_tag [OF assms(1), of "Suc (pos it)"]
  by (simp_all add: pb_field_iter_next_def cur_def Let_def)

lemma iter_at_0 [simp]: "iter_at fs dest 0 = snd (pb_field_iter_begin fs dest)"
  by (simp add: iter_at_def)

lemma iter_at_Suc: "iter_at fs dest (Suc k) = snd (pb_field_iter_next (iter_at fs dest k))"
  by (simp add: iter_at_def)

lemma iter_at_pos:
  "descriptors fs \<Longrightarrow> k < length fs \<Longrightarrow> pos (iter_at fs dest k) = k \<and> start (iter_at fs dest k) = fs \<and>
    dest_struct (iter_at fs dest k) = dest"
proof (induction k)
  case 0
  then show ?case by simp
next
  case (Suc k)
  then have "pos (iter_at fs dest k) = k" "start (iter_at fs dest k) = fs"
    "dest_struct (iter_at fs dest k) = dest" by simp_all
  with Suc.prems next_inner [of "iter_at fs dest k"] show ?case by (simp add: iter_at_Suc)
qed

lemma cur_iter_at: "descriptors fs \<Longrightarrow> k < length fs \<Longrightarrow> cur (iter_at fs dest k) = fs ! k"
  by (simp add: cur_def iter_at_pos field_at_def)

lemma next_iter_at:
  assumes "descriptors fs" "k < length fs"
  shows "pb_field_iter_next (iter_at fs dest k) =
    (if Suc k < length fs then (True, iter_at fs dest (Suc k)) else (False, iter_at fs dest 0))"
proof (cases "Suc k < length fs")
  case True
  with next_inner(1) [of "iter_at fs dest k"] iter_at_pos [OF assms, of dest] assms(1) show ?thesis
    by (simp add: iter_at_Suc prod_eq_iff)
next
  case False
  with assms(2) have "Suc k = length fs" by simp
  with next_last [of "iter_at fs dest k"] iter_at_pos [OF assms, of dest] assms(1) show ?thesis by simp
qed

lemma visits_iter_at:
  "descriptors fs \<Longrightarrow> k < length fs \<Longrightarrow> length fs \<le> k + n \<Longrightarrow>
    visits n (iter_at fs dest k) = map (iter_at fs dest) [k..<length fs]"
proof (induction n arbitrary: k)
  case 0
  then show ?case by simp
next
  case (Suc n)
  show ?case
  proof (cases "Suc k < length fs")
    case True
    with Suc show ?thesis by (simp add: next_iter_at upt_conv_Cons)
  next
    case False
    with Suc.prems have "length fs = Suc k" by simp
    with Suc.prems show ?thesis by (simp add: next_iter_at)
  qed
qed

lemma all_fields_descriptors:
  "descriptors fs \<Longrightarrow> all_fields fs dest = map (iter_at fs dest) [0..<length fs]"
  using visits_iter_at [of fs 0 "length fs" dest] begin_descriptors [of fs dest]
  by (auto simp: all_fields_def descriptors_def split: prod.splits)

lemma all_fields_empty: "tag (field_at fs 0) = 0 \<Longrightarrow> all_fields fs dest = []"
  by (simp add: all_fields_def pb_field_iter_begin_def Let_def)

text \<open>The entry behind \<open>k\<close>, cyclically.\<close>

lemma next_cyclic:
  "descriptors fs \<Longrightarrow> k < length fs \<Longrightarrow>
    snd (pb_field_iter_next (iter_at fs dest k)) = iter_at fs dest (Suc k mod length fs)"
  by (auto simp: next_iter_at not_less dest: le_antisym)

lemma search_loop_steps:
  assumes "descriptors fs" "j < length fs" "b < length fs" "(j + r) mod length fs = b" "1 \<le> r" "r \<le> length fs"
  shows "(\<exists>i < r. wanted (fs ! ((j + i) mod length fs)) \<and>
        (\<forall>h < i. \<not> wanted (fs ! ((j + h) mod length fs))) \<and>
        search_loop wanted b (iter_at fs dest j) = Some (True, iter_at fs dest ((j + i) mod length fs))) \<or>
      ((\<forall>i < r. \<not> wanted (fs ! ((j + i) mod length fs))) \<and>
        search_loop wanted b (iter_at fs dest j) = Some (False, iter_at fs dest b))"
  using assms(2,4-6)
proof (induction r arbitrary: j)
  case 0
  then show ?case by simp
next
  case (Suc r)
  let ?n = "length fs" and ?j = "Suc j mod length fs"
  have n: "0 < ?n" using assms(3) by linarith
  then have j': "?j < ?n" by (rule mod_less_divisor)
  note step = search_loop.simps [of wanted b "iter_at fs dest j"]
  show ?case
  proof (cases "wanted (fs ! j)")
    case True
    then show ?thesis using Suc.prems(1)
      by (subst step) (auto simp: cur_iter_at [OF assms(1)] intro!: exI [of _ 0])
  next
    case False
    then have loop: "search_loop wanted b (iter_at fs dest j) =
        (if ?j \<noteq> b then search_loop wanted b (iter_at fs dest ?j) else Some (False, iter_at fs dest ?j))"
      using Suc.prems(1) by (subst step)
        (simp add: cur_iter_at [OF assms(1)] next_cyclic [OF assms(1)] Let_def iter_at_pos [OF assms(1) j'])
    show ?thesis
    proof (cases "r = 0")
      case True
      with Suc.prems have "?j = b" by simp
      with loop False Suc.prems(1) True show ?thesis by (intro disjI2) simp
    next
      case r: False
      have b: "(?j + r) mod ?n = b" using Suc.prems(2) by (simp add: mod_add_left_eq)
      have ne: "?j \<noteq> b"
      proof
        assume "?j = b"
        with b have "(?j + r) mod ?n = (?j + 0) mod ?n" using j' by simp
        then have "?n dvd (?j + r) - (?j + 0)" by (metis mod_eq_dvd_iff_nat add_le_mono le_refl zero_le)
        then have "r mod ?n = 0" by simp
        with r Suc.prems(4) show False by simp
      qed
      have shift: "(?j + i) mod ?n = (j + Suc i) mod ?n" for i by (simp add: mod_add_left_eq)
      from Suc.IH [OF j' b] r Suc.prems(4) have IH: "(\<exists>i < r. wanted (fs ! ((?j + i) mod ?n)) \<and>
        (\<forall>h < i. \<not> wanted (fs ! ((?j + h) mod ?n))) \<and>
        search_loop wanted b (iter_at fs dest ?j) = Some (True, iter_at fs dest ((?j + i) mod ?n))) \<or>
      ((\<forall>i < r. \<not> wanted (fs ! ((?j + i) mod ?n))) \<and>
        search_loop wanted b (iter_at fs dest ?j) = Some (False, iter_at fs dest b))" by simp
      then show ?thesis
      proof
        assume "\<exists>i < r. wanted (fs ! ((?j + i) mod ?n)) \<and>
          (\<forall>h < i. \<not> wanted (fs ! ((?j + h) mod ?n))) \<and>
          search_loop wanted b (iter_at fs dest ?j) = Some (True, iter_at fs dest ((?j + i) mod ?n))"
        then obtain i where i: "i < r" "wanted (fs ! ((?j + i) mod ?n))"
          "\<forall>h < i. \<not> wanted (fs ! ((?j + h) mod ?n))"
          "search_loop wanted b (iter_at fs dest ?j) = Some (True, iter_at fs dest ((?j + i) mod ?n))" by blast
        have "\<forall>h < Suc i. \<not> wanted (fs ! ((j + h) mod ?n))"
        proof (intro allI impI)
          fix h assume "h < Suc i"
          then show "\<not> wanted (fs ! ((j + h) mod ?n))"
            using False Suc.prems(1) i(3) shift by (cases h) auto
        qed
        with i ne loop shift show ?thesis by (intro disjI1 exI [of _ "Suc i"]) simp
      next
        assume *: "(\<forall>i < r. \<not> wanted (fs ! ((?j + i) mod ?n))) \<and>
          search_loop wanted b (iter_at fs dest ?j) = Some (False, iter_at fs dest b)"
        have "\<forall>h < Suc r. \<not> wanted (fs ! ((j + h) mod ?n))"
        proof (intro allI impI)
          fix h assume "h < Suc r"
          then show "\<not> wanted (fs ! ((j + h) mod ?n))"
            using False Suc.prems(1) * shift by (cases h) auto
        qed
        with * ne loop show ?thesis by (intro disjI2) simp
      qed
    qed
  qed
qed

lemma search_loop_total:
  assumes "descriptors fs" "k < length fs"
  obtains j where "j < length fs" "wanted (fs ! j)"
      "search_loop wanted k (iter_at fs dest k) = Some (True, iter_at fs dest j)"
  | "\<forall>f \<in> set fs. \<not> wanted f"
      "search_loop wanted k (iter_at fs dest k) = Some (False, iter_at fs dest k)"
proof -
  have n: "0 < length fs" using assms(2) by linarith
  have "(k + length fs) mod length fs = k" "1 \<le> length fs" using assms(2) n by simp_all
  from search_loop_steps [OF assms(1,2,2) this le_refl, of wanted dest]
  consider i where "i < length fs" "wanted (fs ! ((k + i) mod length fs))"
      "search_loop wanted k (iter_at fs dest k) = Some (True, iter_at fs dest ((k + i) mod length fs))"
    | "\<forall>i < length fs. \<not> wanted (fs ! ((k + i) mod length fs))"
      "search_loop wanted k (iter_at fs dest k) = Some (False, iter_at fs dest k)" by blast
  then show ?thesis
  proof cases
    case 1
    with that(1) [of "(k + i) mod length fs"] n show ?thesis by simp
  next
    case 2
    have "\<not> wanted (fs ! j)" if "j < length fs" for j
    proof -
      define i where "i = (j + (length fs - k)) mod length fs"
      have "(k + i) mod length fs = (k + (j + (length fs - k))) mod length fs"
        unfolding i_def by (rule mod_add_right_eq)
      also have "k + (j + (length fs - k)) = j + length fs" using assms(2) by simp
      also have "(j + length fs) mod length fs = j" using that by simp
      finally have "(k + i) mod length fs = j" .
      moreover have "i < length fs" unfolding i_def using n by simp
      ultimately show ?thesis using 2(1) by metis
    qed
    with 2(2) that(2) show ?thesis by (metis in_set_conv_nth)
  qed
qed

definition is_field :: "u32 \<Rightarrow> pb_field \<Rightarrow> bool" where
  "is_field t f \<longleftrightarrow> tag f = t \<and> PB_LTYPE (type_of f) \<noteq> PB_LTYPE_EXTENSION"

lemma pb_field_iter_find_total:
  assumes "descriptors fs" "k < length fs"
  obtains j where "j < length fs" "is_field t (fs ! j)"
      "pb_field_iter_find t (iter_at fs dest k) = Some (True, iter_at fs dest j)"
  | "\<forall>f \<in> set fs. \<not> is_field t f"
      "pb_field_iter_find t (iter_at fs dest k) = Some (False, iter_at fs dest k)"
  unfolding pb_field_iter_find_def iter_at_pos [OF assms, THEN conjunct1] is_field_def
  by (rule search_loop_total [OF assms])

lemma find_extension_field_total:
  assumes "descriptors fs" "k < length fs"
  obtains b j where "j < length fs"
      "find_extension_field (iter_at fs dest k) = Some (b, iter_at fs dest j)"
  unfolding find_extension_field_def iter_at_pos [OF assms, THEN conjunct1]
  by (rule search_loop_total [OF assms, of "\<lambda>f. PB_LTYPE (type_of f) = PB_LTYPE_EXTENSION" dest])
    (use assms(2) in blast)+

definition is_required :: "pb_field \<Rightarrow> bool" where
  "is_required f \<longleftrightarrow> PB_HTYPE (type_of f) = PB_HTYPE_REQUIRED"

lemma required_index_iter_at:
  "descriptors fs \<Longrightarrow> k < length fs \<Longrightarrow>
    required_field_index (iter_at fs dest k) = of_nat (length (filter is_required (take k fs)))"
proof (induction k)
  case 0
  then show ?case by simp
next
  case (Suc k)
  then have k: "k < length fs" by simp
  note p = iter_at_pos [OF Suc.prems(1) k, of dest]
  have "required_field_index (iter_at fs dest (Suc k)) =
      required_field_index (iter_at fs dest k) + (if is_required (fs ! k) then 1 else 0)"
    using next_inner(5) [of "iter_at fs dest k"] p Suc.prems cur_iter_at [OF Suc.prems(1) k]
    by (simp add: iter_at_Suc is_required_def)
  with Suc.IH [OF Suc.prems(1) k] k show ?case by (simp add: take_Suc_conv_app_nth)
qed

text \<open>C17:
  Iterating and searching end.  Over a descriptor array with at least one entry the loop over all
  fields visits every entry exactly once and in order, the index of required fields counts those
  before the entry, and a search for a tag, from wherever the iterator stands, returns: it reports
  a field exactly when some entry (other than an extension placeholder) has the tag, and then
  stands on such an entry.
\<close>

theorem pb_field_iter_search:
  assumes "descriptors fs" "k < length fs"
  shows "map pos (all_fields fs dest) = [0..<length fs] \<and>
    map required_field_index (all_fields fs dest) =
      map (\<lambda>i. of_nat (length (filter is_required (take i fs)))) [0..<length fs] \<and>
    (\<exists>found it. pb_field_iter_find t (iter_at fs dest k) = Some (found, it) \<and>
       (found \<longleftrightarrow> (\<exists>f \<in> set fs. is_field t f)) \<and> (\<exists>j < length fs. it = iter_at fs dest j) \<and>
       (found = is_field t (cur it)))"
proof (intro conjI)
  show "map pos (all_fields fs dest) = [0..<length fs]"
    using assms(1) by (simp add: all_fields_descriptors o_def iter_at_pos cong: map_cong)
      (rule map_idI, simp add: iter_at_pos)
  show "map required_field_index (all_fields fs dest) =
      map (\<lambda>i. of_nat (length (filter is_required (take i fs)))) [0..<length fs]"
    using assms(1) by (simp add: all_fields_descriptors required_index_iter_at)
  show "\<exists>found it. pb_field_iter_find t (iter_at fs dest k) = Some (found, it) \<and>
       (found \<longleftrightarrow> (\<exists>f \<in> set fs. is_field t f)) \<and> (\<exists>j < length fs. it = iter_at fs dest j) \<and>
       (found = is_field t (cur it))"
    by (rule pb_field_iter_find_total [OF assms, of t dest])
      (auto simp: cur_iter_at [OF assms(1)] assms(2) dest: nth_mem intro!: assms(2))
qed

text \<open>Two fields: a required \<open>int32\<close> with tag 1 and an optional string with tag 2.\<close>

definition demo_fields :: "pb_field list" where
  "demo_fields =
     [\<lparr>tag = 1, type_of = 0x01, data_offset = 0, size_offset = 0, data_size = 4, array_size = 0, ptr = 0\<rparr>,
      \<lparr>tag = 2, type_of = 0x17, data_offset = 1, size_offset = - 1, data_size = 8, array_size = 0, ptr = 0\<rparr>]"

theorem pb_field_iter_search_witness:
  "map pos (all_fields demo_fields 0x1000) = [0, 1] \<and>
    map required_field_index (all_fields demo_fields 0x1000) = [0, 1] \<and>
    (\<exists>found it. pb_field_iter_find 2 (iter_at demo_fields 0x1000 0) = Some (found, it) \<and>
       is_field 2 (cur it) = found)"
proof -
  have d: "descriptors demo_fields" "0 < length demo_fields" "length demo_fields = 2"
    by (simp_all add: descriptors_def demo_fields_def)
  have "is_required (demo_fields ! 0)"
    by (simp add: is_required_def demo_fields_def PB_HTYPE_def)
  then have "[length (filter is_required (take 0 demo_fields)), length (filter is_required (take 1 demo_fields))] = [0, 1]"
    by (simp add: take_Suc demo_fields_def)
  with pb_field_iter_search [OF d(1,2), of "0x1000" 2] d(3) show ?thesis
    by (simp add: upt_rec) (elim conjE exE, rule exI, simp)
qed

end
