(* ===== verification/Pb_Encode.thy ===== *)
theory Pb_Encode
  imports Pb_Wire Pb_Fields
begin

text \<open>
  The message encoder of nanopb (\<open>pb_encode.c\<close>).  A message is read from memory at its address, with
  the layout that the descriptors and the arm64 ABI give: 8-byte pointers, little-endian integers.
  Descriptor arrays and user callbacks are reached through pointers, which the environment
  resolves.  Results are \<open>None\<close> when the nesting of submessages or a chain of extensions is deeper
  than the given bound, or when the C code would call a null encoder.
\<close>

section \<open>Memory\<close>

type_synonym memory = "u64 \<Rightarrow> byte"

definition load :: "memory \<Rightarrow> u64 \<Rightarrow> nat \<Rightarrow> bytes" where
  "load m a n = map (\<lambda>i. m (a + of_nat i)) [0..<n]"

definition load8 :: "memory \<Rightarrow> u64 \<Rightarrow> byte" where
  "load8 m a = m a"

definition load16 :: "memory \<Rightarrow> u64 \<Rightarrow> u16" where
  "load16 m a = of_nat (le_val (load m a 2))"

definition load32 :: "memory \<Rightarrow> u64 \<Rightarrow> u32" where
  "load32 m a = of_nat (le_val (load m a 4))"

definition load64 :: "memory \<Rightarrow> u64 \<Rightarrow> u64" where
  "load64 m a = of_nat (le_val (load m a 8))"

text \<open>The memory, the descriptor arrays by address, and the user's functions by address.\<close>

record 's env =
  mem :: memory
  descs :: "u64 \<Rightarrow> pb_field list"
  encode_cb :: "u64 \<Rightarrow> pb_field \<Rightarrow> u64 \<Rightarrow> 's pb_ostream \<Rightarrow> bool \<times> 's pb_ostream"
  extension_cb :: "u64 \<Rightarrow> u64 \<Rightarrow> 's pb_ostream \<Rightarrow> bool \<times> 's pb_ostream"

type_synonym 's result = "(bool \<times> 's pb_ostream) option"

definition seq :: "'s result \<Rightarrow> ('s pb_ostream \<Rightarrow> 's result) \<Rightarrow> 's result" where
  "seq r g = (case r of None \<Rightarrow> None | Some (False, s) \<Rightarrow> Some (False, s) | Some (True, s) \<Rightarrow> g s)"

section \<open>Encoding one value\<close>

definition safe_read_bool :: "memory \<Rightarrow> u64 \<Rightarrow> bool" where
  "safe_read_bool m p \<longleftrightarrow> load8 m p \<noteq> 0"

definition pb_encode_tag_for_field :: "pb_field \<Rightarrow> 's pb_ostream \<Rightarrow> bool \<times> 's pb_ostream" where
  "pb_encode_tag_for_field field stream =
     (case PB_LTYPE (type_of field) of
        PB_LTYPE_BOOL \<Rightarrow> pb_encode_tag PB_WT_VARINT (tag field) stream
      | PB_LTYPE_VARINT \<Rightarrow> pb_encode_tag PB_WT_VARINT (tag field) stream
      | PB_LTYPE_UVARINT \<Rightarrow> pb_encode_tag PB_WT_VARINT (tag field) stream
      | PB_LTYPE_SVARINT \<Rightarrow> pb_encode_tag PB_WT_VARINT (tag field) stream
      | PB_LTYPE_FIXED32 \<Rightarrow> pb_encode_tag PB_WT_32BIT (tag field) stream
      | PB_LTYPE_FIXED64 \<Rightarrow> pb_encode_tag PB_WT_64BIT (tag field) stream
      | PB_LTYPE_BYTES \<Rightarrow> pb_encode_tag PB_WT_STRING (tag field) stream
      | PB_LTYPE_STRING \<Rightarrow> pb_encode_tag PB_WT_STRING (tag field) stream
      | PB_LTYPE_SUBMESSAGE \<Rightarrow> pb_encode_tag PB_WT_STRING (tag field) stream
      | PB_LTYPE_FIXED_LENGTH_BYTES \<Rightarrow> pb_encode_tag PB_WT_STRING (tag field) stream
      | _ \<Rightarrow> oerror ''invalid field type'' stream)"

definition pb_enc_bool :: "memory \<Rightarrow> pb_field \<Rightarrow> u64 \<Rightarrow> 's pb_ostream \<Rightarrow> bool \<times> 's pb_ostream" where
  "pb_enc_bool m field src stream = pb_encode_varint (if safe_read_bool m src then 1 else 0) stream"

text \<open>The value at \<open>src\<close> in \<open>data_size\<close> bytes, sign-extended to \<open>int64_t\<close> or zero-extended.\<close>

definition read_signed :: "memory \<Rightarrow> u32 \<Rightarrow> u64 \<Rightarrow> u64 option" where
  "read_signed m sz src =
     (if sz = 1 then Some (scast (load8 m src))
      else if sz = 2 then Some (scast (load16 m src))
      else if sz = 4 then Some (scast (load32 m src))
      else if sz = 8 then Some (load64 m src)
      else None)"

definition read_unsigned :: "memory \<Rightarrow> u32 \<Rightarrow> u64 \<Rightarrow> u64 option" where
  "read_unsigned m sz src =
     (if sz = 1 then Some (ucast (load8 m src))
      else if sz = 2 then Some (ucast (load16 m src))
      else if sz = 4 then Some (ucast (load32 m src))
      else if sz = 8 then Some (load64 m src)
      else None)"

definition pb_enc_varint :: "memory \<Rightarrow> pb_field \<Rightarrow> u64 \<Rightarrow> 's pb_ostream \<Rightarrow> bool \<times> 's pb_ostream" where
  "pb_enc_varint m field src stream =
     (case read_signed m (data_size field) src of
        None \<Rightarrow> oerror ''invalid data_size'' stream
      | Some v \<Rightarrow> pb_encode_varint v stream)"

definition pb_enc_uvarint :: "memory \<Rightarrow> pb_field \<Rightarrow> u64 \<Rightarrow> 's pb_ostream \<Rightarrow> bool \<times> 's pb_ostream" where
  "pb_enc_uvarint m field src stream =
     (case read_unsigned m (data_size field) src of
        None \<Rightarrow> oerror ''invalid data_size'' stream
      | Some v \<Rightarrow> pb_encode_varint v stream)"

definition pb_enc_svarint :: "memory \<Rightarrow> pb_field \<Rightarrow> u64 \<Rightarrow> 's pb_ostream \<Rightarrow> bool \<times> 's pb_ostream" where
  "pb_enc_svarint m field src stream =
     (case read_signed m (data_size field) src of
        None \<Rightarrow> oerror ''invalid data_size'' stream
      | Some v \<Rightarrow> pb_encode_svarint v stream)"

definition pb_enc_fixed32 :: "memory \<Rightarrow> pb_field \<Rightarrow> u64 \<Rightarrow> 's pb_ostream \<Rightarrow> bool \<times> 's pb_ostream" where
  "pb_enc_fixed32 m field src stream = pb_encode_fixed32 (load32 m src) stream"

definition pb_enc_fixed64 :: "memory \<Rightarrow> pb_field \<Rightarrow> u64 \<Rightarrow> 's pb_ostream \<Rightarrow> bool \<times> 's pb_ostream" where
  "pb_enc_fixed64 m field src stream = pb_encode_fixed64 (load64 m src) stream"

text \<open>\<open>bytes\<close> follows the 4-byte \<open>size\<close> in \<open>pb_bytes_array_t\<close>.\<close>

definition PB_BYTES_ARRAY_T_ALLOCSIZE :: "u32 \<Rightarrow> u64" where
  "PB_BYTES_ARRAY_T_ALLOCSIZE n = ucast n + 4"

definition pb_enc_bytes :: "memory \<Rightarrow> pb_field \<Rightarrow> u64 \<Rightarrow> 's pb_ostream \<Rightarrow> bool \<times> 's pb_ostream" where
  "pb_enc_bytes m field src stream =
     (if src = 0 then pb_encode_string [] 0 stream
      else
        let n = load32 m src; allocsize = PB_BYTES_ARRAY_T_ALLOCSIZE n in
        if allocsize < ucast n \<or>
           (PB_ATYPE (type_of field) = PB_ATYPE_STATIC \<and> allocsize > ucast (data_size field))
        then oerror ''bytes size exceeded'' stream
        else pb_encode_string (load m (src + 4) (unat n)) (ucast n) stream)"

function string_size :: "memory \<Rightarrow> u64 \<Rightarrow> u64 \<Rightarrow> u64 \<Rightarrow> u64" where
  "string_size m max_sz p sz =
     (if sz < max_sz \<and> m p \<noteq> 0 then string_size m max_sz (p + 1) (sz + 1) else sz)"
  by pat_completeness auto
termination
proof (relation "measure (\<lambda>(_, max_sz, _, sz). unat max_sz - unat sz)")
  fix m :: memory and max_sz p sz :: u64
  assume "sz < max_sz \<and> m p \<noteq> 0"
  then have lt: "unat sz < unat max_sz" by (simp add: word_less_nat_alt)
  then have "unat (sz + 1) = unat sz + 1"
    using unsigned_less [of max_sz, where 'a = nat] by (simp add: unat_word_ariths)
  with lt show "((m, max_sz, p + 1, sz + 1), m, max_sz, p, sz)
      \<in> measure (\<lambda>(_, max_sz, _, sz). unat max_sz - unat sz)" by simp
qed simp

declare string_size.simps [simp del]

definition pb_enc_string :: "memory \<Rightarrow> pb_field \<Rightarrow> u64 \<Rightarrow> 's pb_ostream \<Rightarrow> bool \<times> 's pb_ostream" where
  "pb_enc_string m field src stream =
     (let max_sz = (if PB_ATYPE (type_of field) = PB_ATYPE_POINTER then - 1
                    else ucast (data_size field));
          sz = (if src = 0 then 0 else string_size m max_sz src 0)
      in pb_encode_string (load m src (unat sz)) sz stream)"

definition pb_enc_fixed_length_bytes ::
  "memory \<Rightarrow> pb_field \<Rightarrow> u64 \<Rightarrow> 's pb_ostream \<Rightarrow> bool \<times> 's pb_ostream" where
  "pb_enc_fixed_length_bytes m field src stream =
     pb_encode_string (load m src (unat (data_size field))) (ucast (data_size field)) stream"

section \<open>Submessages, arrays and fields\<close>

text \<open>The recursive call of \<open>pb_encode\<close> is the argument \<open>enc\<close>.\<close>

type_synonym 's encoder = "pb_field list \<Rightarrow> u64 \<Rightarrow> 's pb_ostream \<Rightarrow> 's result"

definition pb_encode_submessage :: "'s encoder \<Rightarrow> pb_field list \<Rightarrow> u64 \<Rightarrow> 's pb_ostream \<Rightarrow> 's result" where
  "pb_encode_submessage enc fs src stream =
     (case enc fs src (PB_OSTREAM_SIZING (state stream)) of
        None \<Rightarrow> None
      | Some (False, substream) \<Rightarrow> Some (False, stream\<lparr>errmsg := errmsg substream\<rparr>)
      | Some (True, substream) \<Rightarrow>
          let sz = bytes_written substream in
          seq (Some (pb_encode_varint sz stream)) (\<lambda>stream.
            if callback stream = None then Some (pb_write [] sz stream)
            else if bytes_written stream + sz > max_size stream then Some (oerror ''stream full'' stream)
            else
              (case enc fs src (stream\<lparr>max_size := sz, bytes_written := 0, errmsg := None\<rparr>) of
                 None \<Rightarrow> None
               | Some (status, substream) \<Rightarrow>
                   let stream = stream\<lparr>bytes_written := bytes_written stream + bytes_written substream,
                         state := state substream, errmsg := errmsg substream\<rparr>
                   in if bytes_written substream \<noteq> sz then Some (oerror ''submsg size changed'' stream)
                      else Some (status, stream))))"

definition pb_enc_submessage ::
  "'s encoder \<Rightarrow> 's env \<Rightarrow> pb_field \<Rightarrow> u64 \<Rightarrow> 's pb_ostream \<Rightarrow> 's result" where
  "pb_enc_submessage enc env field src stream =
     (if ptr field = 0 then Some (oerror ''invalid field descriptor'' stream)
      else pb_encode_submessage enc (descs env (ptr field)) src stream)"

text \<open>The table of encoders; the entry of extensions is \<open>NULL\<close>, and nothing lies behind its end.\<close>

definition PB_ENCODERS ::
  "'s encoder \<Rightarrow> 's env \<Rightarrow> pb_ltype \<Rightarrow> pb_field \<Rightarrow> u64 \<Rightarrow> 's pb_ostream \<Rightarrow> 's result" where
  "PB_ENCODERS enc env l field src stream =
     (case l of
        PB_LTYPE_BOOL \<Rightarrow> Some (pb_enc_bool (mem env) field src stream)
      | PB_LTYPE_VARINT \<Rightarrow> Some (pb_enc_varint (mem env) field src stream)
      | PB_LTYPE_UVARINT \<Rightarrow> Some (pb_enc_uvarint (mem env) field src stream)
      | PB_LTYPE_SVARINT \<Rightarrow> Some (pb_enc_svarint (mem env) field src stream)
      | PB_LTYPE_FIXED32 \<Rightarrow> Some (pb_enc_fixed32 (mem env) field src stream)
      | PB_LTYPE_FIXED64 \<Rightarrow> Some (pb_enc_fixed64 (mem env) field src stream)
      | PB_LTYPE_BYTES \<Rightarrow> Some (pb_enc_bytes (mem env) field src stream)
      | PB_LTYPE_STRING \<Rightarrow> Some (pb_enc_string (mem env) field src stream)
      | PB_LTYPE_SUBMESSAGE \<Rightarrow> pb_enc_submessage enc env field src stream
      | PB_LTYPE_FIXED_LENGTH_BYTES \<Rightarrow> Some (pb_enc_fixed_length_bytes (mem env) field src stream)
      | PB_LTYPE_EXTENSION \<Rightarrow> None
      | PB_LTYPE_UNDECLARED \<Rightarrow> None)"

text \<open>\<open>n\<close> calls at \<open>p\<close>, \<open>p + step\<close>, and so on, until one fails.\<close>

fun enc_items ::
  "nat \<Rightarrow> u64 \<Rightarrow> (u64 \<Rightarrow> 's pb_ostream \<Rightarrow> 's result) \<Rightarrow> u64 \<Rightarrow> 's pb_ostream \<Rightarrow> 's result" where
  "enc_items 0 step f p stream = Some (True, stream)"
| "enc_items (Suc n) step f p stream = seq (f p stream) (enc_items n step f (p + step))"

definition encode_array ::
  "'s env \<Rightarrow> pb_field \<Rightarrow> u64 \<Rightarrow> u64 \<Rightarrow> (pb_field \<Rightarrow> u64 \<Rightarrow> 's pb_ostream \<Rightarrow> 's result) \<Rightarrow>
    's pb_ostream \<Rightarrow> 's result" where
  "encode_array env field data count func stream =
     (let l = PB_LTYPE (type_of field); step = ucast (data_size field) in
      if count = 0 then Some (True, stream)
      else if PB_ATYPE (type_of field) \<noteq> PB_ATYPE_POINTER \<and> count > ucast (array_size field)
      then Some (oerror ''array max size exceeded'' stream)
      else if l \<le> PB_LTYPE_LAST_PACKABLE then
        seq (Some (pb_encode_tag PB_WT_STRING (tag field) stream)) (\<lambda>stream.
          case (if l = PB_LTYPE_FIXED32 then Some (True, PB_OSTREAM_SIZING (state stream)\<lparr>bytes_written := 4 * count\<rparr>)
                else if l = PB_LTYPE_FIXED64 then Some (True, PB_OSTREAM_SIZING (state stream)\<lparr>bytes_written := 8 * count\<rparr>)
                else enc_items (unat count) step (func field) data (PB_OSTREAM_SIZING (state stream))) of
            None \<Rightarrow> None
          | Some (False, _) \<Rightarrow> Some (False, stream)
          | Some (True, sizestream) \<Rightarrow>
              let sz = bytes_written sizestream in
              seq (Some (pb_encode_varint sz stream)) (\<lambda>stream.
                if callback stream = None then Some (pb_write [] sz stream)
                else enc_items (unat count) step (func field) data stream))
      else
        enc_items (unat count) step (\<lambda>p stream.
          seq (Some (pb_encode_tag_for_field field stream))
            (func field
              (if PB_ATYPE (type_of field) = PB_ATYPE_POINTER \<and>
                  (l = PB_LTYPE_STRING \<or> l = PB_LTYPE_BYTES)
               then load64 (mem env) p else p))) data stream)"

text \<open>\<open>chk\<close> is the recursive call of \<open>pb_check_proto3_default_value\<close>.\<close>

fun all_default :: "(pb_field \<Rightarrow> u64 \<Rightarrow> bool option) \<Rightarrow> pb_field_iter list \<Rightarrow> bool option" where
  "all_default chk [] = Some True"
| "all_default chk (iter # iters) =
     (case chk (cur iter) (pData iter) of
        None \<Rightarrow> None
      | Some False \<Rightarrow> Some False
      | Some True \<Rightarrow> all_default chk iters)"

definition check_default ::
  "(pb_field \<Rightarrow> u64 \<Rightarrow> bool option) \<Rightarrow> 's env \<Rightarrow> pb_field \<Rightarrow> u64 \<Rightarrow> bool option" where
  "check_default chk env field data =
     (let m = mem env; h = PB_HTYPE (type_of field); a = PB_ATYPE (type_of field);
          l = PB_LTYPE (type_of field); sz = data + scast (size_offset field) in
      if h = PB_HTYPE_REQUIRED then Some False
      else if h = PB_HTYPE_REPEATED \<and> size_offset field \<noteq> 0 then Some (load32 m sz = 0)
      else if h = PB_HTYPE_REPEATED \<and> a = PB_ATYPE_STATIC then Some False
      else if h = PB_HTYPE_ONEOF then Some (load32 m sz = 0)
      else if h = PB_HTYPE_OPTIONAL \<and> size_offset field \<noteq> 0 then Some (safe_read_bool m sz = False)
      else if a = PB_ATYPE_STATIC \<and> l = PB_LTYPE_BYTES then Some (load32 m data = 0)
      else if a = PB_ATYPE_STATIC \<and> l = PB_LTYPE_STRING then Some (load8 m data = 0)
      else if a = PB_ATYPE_STATIC \<and> l = PB_LTYPE_FIXED_LENGTH_BYTES then Some (data_size field = 0)
      else if a = PB_ATYPE_STATIC \<and> l = PB_LTYPE_SUBMESSAGE then
        all_default chk (all_fields (descs env (ptr field)) data)
      else if a = PB_ATYPE_POINTER \<and> l > PB_LTYPE_LAST_PACKABLE then Some (load64 m data = 0)
      else Some (list_all (\<lambda>b. b = 0) (load m data (unat (data_size field)))))"

primrec pb_check_proto3_default_value :: "nat \<Rightarrow> 's env \<Rightarrow> pb_field \<Rightarrow> u64 \<Rightarrow> bool option" where
  "pb_check_proto3_default_value 0 env field data = None"
| "pb_check_proto3_default_value (Suc d) env field data =
     check_default (pb_check_proto3_default_value d env) env field data"

text \<open>
  \<open>has\<close> is \<open>safe_read_bool(pSize)\<close>, where \<open>pSize\<close> points to the local \<open>implicit_has\<close> unless the field
  has a size offset; a oneof without a size offset would read four bytes at that one-byte local.
\<close>

definition encode_basic_field ::
  "nat \<Rightarrow> 's encoder \<Rightarrow> 's env \<Rightarrow> pb_field \<Rightarrow> u64 \<Rightarrow> 's pb_ostream \<Rightarrow> 's result" where
  "encode_basic_field d enc env field data stream =
     (let m = mem env; l = PB_LTYPE (type_of field); h = PB_HTYPE (type_of field);
          a = PB_ATYPE (type_of field); func = PB_ENCODERS enc env l;
          sz = data + scast (size_offset field) in
      case (if size_offset field \<noteq> 0 then Some True
            else if h = PB_HTYPE_OPTIONAL then map_option Not (pb_check_proto3_default_value d env field data)
            else Some True) of
        None \<Rightarrow> None
      | Some implicit_has \<Rightarrow>
          let data = (if a = PB_ATYPE_POINTER then load64 m data else data);
              implicit_has = (if a = PB_ATYPE_POINTER then data \<noteq> 0 else implicit_has);
              has = (if size_offset field \<noteq> 0 then safe_read_bool m sz else implicit_has)
          in (case h of
                PB_HTYPE_REQUIRED \<Rightarrow>
                  if data = 0 then Some (oerror ''missing required field'' stream)
                  else seq (Some (pb_encode_tag_for_field field stream)) (func field data)
              | PB_HTYPE_OPTIONAL \<Rightarrow>
                  if has then seq (Some (pb_encode_tag_for_field field stream)) (func field data)
                  else Some (True, stream)
              | PB_HTYPE_REPEATED \<Rightarrow>
                  let count = (if size_offset field \<noteq> 0 then load32 m sz else array_size field)
                  in encode_array env field data (ucast count) func stream
              | PB_HTYPE_ONEOF \<Rightarrow>
                  if size_offset field = 0 then None
                  else if load32 m sz = tag field
                  then seq (Some (pb_encode_tag_for_field field stream)) (func field data)
                  else Some (True, stream)))"

text \<open>\<open>pb_callback_t\<close> holds the function and, eight bytes on, the argument.\<close>

definition encode_callback_field ::
  "'s env \<Rightarrow> pb_field \<Rightarrow> u64 \<Rightarrow> 's pb_ostream \<Rightarrow> bool \<times> 's pb_ostream" where
  "encode_callback_field env field data stream =
     (let fn = load64 (mem env) data; arg = data + 8 in
      if fn \<noteq> 0 then
        (case encode_cb env fn field arg stream of
           (False, stream) \<Rightarrow> oerror ''callback error'' stream
         | (True, stream) \<Rightarrow> (True, stream))
      else (True, stream))"

definition encode_field ::
  "nat \<Rightarrow> 's encoder \<Rightarrow> 's env \<Rightarrow> pb_field \<Rightarrow> u64 \<Rightarrow> 's pb_ostream \<Rightarrow> 's result" where
  "encode_field d enc env field data stream =
     (case PB_ATYPE (type_of field) of
        PB_ATYPE_STATIC \<Rightarrow> encode_basic_field d enc env field data stream
      | PB_ATYPE_POINTER \<Rightarrow> encode_basic_field d enc env field data stream
      | PB_ATYPE_CALLBACK \<Rightarrow> Some (encode_callback_field env field data stream)
      | PB_ATYPE_UNDECLARED \<Rightarrow> Some (oerror ''invalid field type'' stream))"

text \<open>
  \<open>pb_extension_t\<close> holds \<open>type\<close>, \<open>dest\<close> and \<open>next\<close> at 0, 8 and 16; \<open>pb_extension_type_t\<close> holds \<open>decode\<close>,
  \<open>encode\<close> and \<open>arg\<close> at 0, 8 and 16.
\<close>

definition default_extension_encoder ::
  "nat \<Rightarrow> 's encoder \<Rightarrow> 's env \<Rightarrow> u64 \<Rightarrow> 's pb_ostream \<Rightarrow> 's result" where
  "default_extension_encoder d enc env extension stream =
     (let m = mem env; field = field_at (descs env (load64 m (load64 m extension + 16))) 0 in
      if PB_ATYPE (type_of field) = PB_ATYPE_POINTER
      then encode_field d enc env field (extension + 8) stream
      else encode_field d enc env field (load64 m (extension + 8)) stream)"

primrec extension_loop ::
  "nat \<Rightarrow> nat \<Rightarrow> 's encoder \<Rightarrow> 's env \<Rightarrow> u64 \<Rightarrow> 's pb_ostream \<Rightarrow> 's result" where
  "extension_loop 0 d enc env extension stream =
     (if extension = 0 then Some (True, stream) else None)"
| "extension_loop (Suc n) d enc env extension stream =
     (if extension = 0 then Some (True, stream)
      else
        let m = mem env; fn = load64 m (load64 m extension + 8) in
        seq (if fn \<noteq> 0 then Some (extension_cb env fn extension stream)
             else default_extension_encoder d enc env extension stream)
          (extension_loop n d enc env (load64 m (extension + 16))))"

definition encode_extension_field ::
  "nat \<Rightarrow> 's encoder \<Rightarrow> 's env \<Rightarrow> u64 \<Rightarrow> 's pb_ostream \<Rightarrow> 's result" where
  "encode_extension_field d enc env data stream =
     extension_loop d d enc env (load64 (mem env) data) stream"

section \<open>Encoding messages\<close>

fun enc_fields :: "(pb_field_iter \<Rightarrow> 's pb_ostream \<Rightarrow> 's result) \<Rightarrow> pb_field_iter list \<Rightarrow>
    's pb_ostream \<Rightarrow> 's result" where
  "enc_fields f [] stream = Some (True, stream)"
| "enc_fields f (iter # iters) stream = seq (f iter stream) (enc_fields f iters)"

primrec pb_encode :: "nat \<Rightarrow> 's env \<Rightarrow> 's encoder" where
  "pb_encode 0 env fs src stream = None"
| "pb_encode (Suc d) env fs src stream =
     enc_fields (\<lambda>iter.
       if PB_LTYPE (type_of (cur iter)) = PB_LTYPE_EXTENSION
       then encode_extension_field d (pb_encode d env) env (pData iter)
       else encode_field d (pb_encode d env) env (cur iter) (pData iter))
     (all_fields fs src) stream"

definition pb_encode_delimited :: "nat \<Rightarrow> 's env \<Rightarrow> 's encoder" where
  "pb_encode_delimited d env fs src stream = pb_encode_submessage (pb_encode d env) fs src stream"

definition pb_encode_nullterminated :: "nat \<Rightarrow> 's env \<Rightarrow> 's encoder" where
  "pb_encode_nullterminated d env fs src stream =
     seq (pb_encode d env fs src stream) (\<lambda>stream. Some (pb_write [0] 1 stream))"

text \<open>The size, or \<open>None\<close> when the encoder fails; \<open>st\<close> is a state for the sizing stream.\<close>

definition pb_get_encoded_size :: "nat \<Rightarrow> 's env \<Rightarrow> 's \<Rightarrow> pb_field list \<Rightarrow> u64 \<Rightarrow> u64 option option" where
  "pb_get_encoded_size d env st fs src =
     (case pb_encode d env fs src (PB_OSTREAM_SIZING st) of
        None \<Rightarrow> None
      | Some (False, _) \<Rightarrow> Some None
      | Some (True, stream) \<Rightarrow> Some (Some (bytes_written stream)))"

end
