(* ===== verification/Pb_Encode_Spec.thy ===== *)
theory Pb_Encode_Spec
  imports Pb_Encode
begin

text \<open>
  What the encoder of nanopb promises.  \<open>message_wire\<close> gives the bytes of a message without streams;
  \<open>does\<close> says what an encoder does with them on sizing streams and on buffers, and the refinement is
  proved bottom up: sequences, values, delimited contents, arrays, fields, extensions, messages.
\<close>

section \<open>The bytes of a message\<close>

text \<open>
  The specification of the encoder, without streams: the bytes of a message, \<open>Bad\<close> when the message
  cannot be encoded, \<open>Beyond\<close> when the bound on nesting or on sizes (2^63 bytes) is exceeded.  \<open>cbw\<close>
  and \<open>extw\<close> are the bytes that the user's functions stand for.
\<close>

datatype wire = Beyond | Bad | Wire bytes

fun cat :: "wire \<Rightarrow> wire \<Rightarrow> wire" where
  "cat (Wire v) (Wire w) = Wire (v @ w)"
| "cat (Wire v) w = w"
| "cat v w = v"

fun delimited :: "wire \<Rightarrow> wire" where
  "delimited (Wire w) = (if length w < 2 ^ 63 then Wire (string_bytes w) else Beyond)"
| "delimited w = w"

definition tag_wire :: "pb_field \<Rightarrow> wire" where
  "tag_wire field =
     (case PB_LTYPE (type_of field) of
        PB_LTYPE_EXTENSION \<Rightarrow> Bad
      | PB_LTYPE_UNDECLARED \<Rightarrow> Bad
      | PB_LTYPE_FIXED32 \<Rightarrow> Wire (tag_bytes PB_WT_32BIT (tag field))
      | PB_LTYPE_FIXED64 \<Rightarrow> Wire (tag_bytes PB_WT_64BIT (tag field))
      | l \<Rightarrow> Wire (tag_bytes (if l \<le> PB_LTYPE_LAST_PACKABLE then PB_WT_VARINT else PB_WT_STRING) (tag field)))"

type_synonym messages = "pb_field list \<Rightarrow> u64 \<Rightarrow> wire"

definition value_wire :: "messages \<Rightarrow> 's env \<Rightarrow> pb_ltype \<Rightarrow> pb_field \<Rightarrow> u64 \<Rightarrow> wire" where
  "value_wire msg env l field src =
     (let m = mem env in
      case l of
        PB_LTYPE_BOOL \<Rightarrow> Wire (varint (if safe_read_bool m src then 1 else 0))
      | PB_LTYPE_VARINT \<Rightarrow>
          (case read_signed m (data_size field) src of
             None \<Rightarrow> Bad | Some v \<Rightarrow> Wire (varint (unat v)))
      | PB_LTYPE_UVARINT \<Rightarrow>
          (case read_unsigned m (data_size field) src of
             None \<Rightarrow> Bad | Some v \<Rightarrow> Wire (varint (unat v)))
      | PB_LTYPE_SVARINT \<Rightarrow>
          (case read_signed m (data_size field) src of
             None \<Rightarrow> Bad | Some v \<Rightarrow> Wire (varint (zigzag (sint v))))
      | PB_LTYPE_FIXED32 \<Rightarrow> Wire (load m src 4)
      | PB_LTYPE_FIXED64 \<Rightarrow> Wire (load m src 8)
      | PB_LTYPE_BYTES \<Rightarrow>
          if src = 0 then Wire (string_bytes [])
          else if PB_ATYPE (type_of field) = PB_ATYPE_STATIC \<and>
                  unat (data_size field) < unat (load32 m src) + 4
          then Bad else Wire (string_bytes (load m (src + 4) (unat (load32 m src))))
      | PB_LTYPE_STRING \<Rightarrow>
          Wire (string_bytes (if src = 0 then []
            else load m src (unat (string_size m
              (if PB_ATYPE (type_of field) = PB_ATYPE_POINTER then - 1 else ucast (data_size field)) src 0))))
      | PB_LTYPE_SUBMESSAGE \<Rightarrow>
          if ptr field = 0 then Bad else delimited (msg (descs env (ptr field)) src)
      | PB_LTYPE_FIXED_LENGTH_BYTES \<Rightarrow> Wire (string_bytes (load m src (unat (data_size field))))
      | _ \<Rightarrow> Beyond)"

fun items_wire :: "nat \<Rightarrow> u64 \<Rightarrow> (u64 \<Rightarrow> wire) \<Rightarrow> u64 \<Rightarrow> wire" where
  "items_wire 0 step g p = Wire []"
| "items_wire (Suc n) step g p = cat (g p) (items_wire n step g (p + step))"

definition array_wire :: "messages \<Rightarrow> 's env \<Rightarrow> pb_field \<Rightarrow> u64 \<Rightarrow> nat \<Rightarrow> wire" where
  "array_wire msg env field data count =
     (let l = PB_LTYPE (type_of field); step = ucast (data_size field);
          pointer = (PB_ATYPE (type_of field) = PB_ATYPE_POINTER) in
      if count = 0 then Wire []
      else if \<not> pointer \<and> unat (array_size field) < count then Bad
      else if l \<le> PB_LTYPE_LAST_PACKABLE then
        cat (Wire (tag_bytes PB_WT_STRING (tag field)))
          (delimited (items_wire count step (value_wire msg env l field) data))
      else items_wire count step (\<lambda>p. cat (tag_wire field) (value_wire msg env l field
             (if pointer \<and> (l = PB_LTYPE_STRING \<or> l = PB_LTYPE_BYTES) then load64 (mem env) p else p))) data)"

definition basic_wire :: "nat \<Rightarrow> messages \<Rightarrow> 's env \<Rightarrow> pb_field \<Rightarrow> u64 \<Rightarrow> wire" where
  "basic_wire d msg env field data =
     (let m = mem env; l = PB_LTYPE (type_of field); h = PB_HTYPE (type_of field);
          pointer = (PB_ATYPE (type_of field) = PB_ATYPE_POINTER);
          sz = data + scast (size_offset field);
          src = (if pointer then load64 m data else data);
          one = cat (tag_wire field) (value_wire msg env l field src) in
      case (if size_offset field = 0 \<and> h = PB_HTYPE_OPTIONAL
            then map_option Not (pb_check_proto3_default_value d env field data) else Some True) of
        None \<Rightarrow> Beyond
      | Some nonzero \<Rightarrow>
          (case h of
             PB_HTYPE_REQUIRED \<Rightarrow> if src = 0 then Bad else one
           | PB_HTYPE_OPTIONAL \<Rightarrow>
               if (if size_offset field \<noteq> 0 then safe_read_bool m sz else if pointer then src \<noteq> 0 else nonzero)
               then one else Wire []
           | PB_HTYPE_REPEATED \<Rightarrow>
               array_wire msg env field src
                 (unat (if size_offset field \<noteq> 0 then load32 m sz else array_size field))
           | PB_HTYPE_ONEOF \<Rightarrow>
               if size_offset field = 0 then Beyond
               else if load32 m sz = tag field then one else Wire []))"

type_synonym callbacks_wire = "u64 \<Rightarrow> pb_field \<Rightarrow> u64 \<Rightarrow> wire"

definition field_wire ::
  "nat \<Rightarrow> messages \<Rightarrow> 's env \<Rightarrow> callbacks_wire \<Rightarrow> pb_field \<Rightarrow> u64 \<Rightarrow> wire" where
  "field_wire d msg env cbw field data =
     (case PB_ATYPE (type_of field) of
        PB_ATYPE_CALLBACK \<Rightarrow>
          let fn = load64 (mem env) data in if fn = 0 then Wire [] else cbw fn field (data + 8)
      | PB_ATYPE_UNDECLARED \<Rightarrow> Bad
      | _ \<Rightarrow> basic_wire d msg env field data)"

primrec extensions_wire ::
  "nat \<Rightarrow> nat \<Rightarrow> messages \<Rightarrow> 's env \<Rightarrow> callbacks_wire \<Rightarrow> (u64 \<Rightarrow> u64 \<Rightarrow> wire) \<Rightarrow> u64 \<Rightarrow> wire" where
  "extensions_wire 0 d msg env cbw extw e = (if e = 0 then Wire [] else Beyond)"
| "extensions_wire (Suc n) d msg env cbw extw e =
     (if e = 0 then Wire []
      else
        let m = mem env; fn = load64 m (load64 m e + 8);
            field = field_at (descs env (load64 m (load64 m e + 16))) 0 in
        cat (if fn \<noteq> 0 then extw fn e
             else field_wire d msg env cbw field
               (if PB_ATYPE (type_of field) = PB_ATYPE_POINTER then e + 8 else load64 m (e + 8)))
          (extensions_wire n d msg env cbw extw (load64 m (e + 16))))"

primrec message_wire ::
  "nat \<Rightarrow> 's env \<Rightarrow> callbacks_wire \<Rightarrow> (u64 \<Rightarrow> u64 \<Rightarrow> wire) \<Rightarrow> messages" where
  "message_wire 0 env cbw extw fs src = Beyond"
| "message_wire (Suc d) env cbw extw fs src =
     foldr cat (map (\<lambda>iter.
       if PB_LTYPE (type_of (cur iter)) = PB_LTYPE_EXTENSION
       then extensions_wire d d (message_wire d env cbw extw) env cbw extw (load64 (mem env) (pData iter))
       else field_wire d (message_wire d env cbw extw) env cbw (cur iter) (pData iter))
     (all_fields fs src)) (Wire [])"

section \<open>Refinement\<close>

text \<open>\<open>does f w\<close>: what the encoder \<open>f\<close> does on sizing streams and on buffers when the message has the bytes \<open>w\<close>.\<close>

fun does :: "(bytes pb_ostream \<Rightarrow> bytes result) \<Rightarrow> wire \<Rightarrow> bool" where
  "does f Beyond = True"
| "does f Bad =
     ((\<forall>s. callback s = None \<longrightarrow> (\<exists>s'. f s = Some (False, s'))) \<and>
      (\<forall>s. buffered s \<longrightarrow> (\<exists>p e. room s (length p) \<and> f s = Some (False, (grown s p)\<lparr>errmsg := e\<rparr>))))"
| "does f (Wire w) =
     ((\<forall>s. callback s = None \<longrightarrow> f s = Some (True, s\<lparr>bytes_written := bytes_written s + of_nat (length w)\<rparr>)) \<and>
      (\<forall>s. buffered s \<longrightarrow>
        (if room s (length w) then f s = Some (True, grown s w)
         else \<exists>p q. w = p @ q \<and> room s (length p) \<and>
                f s = Some (False, (grown s p)\<lparr>errmsg := Some ''stream full''\<rparr>))))"

lemma does_emits: "emits f w \<Longrightarrow> does (\<lambda>s. Some (f s)) (Wire w)"
  by (simp add: emits_def cong: if_cong)

lemma room_0: "buffered s \<Longrightarrow> room s 0"
  by (simp add: buffered_def room_def word_le_nat_alt)

lemma does_skip: "does (\<lambda>s. Some (True, s)) (Wire [])"
  by (auto simp: room_0)

lemma does_oerror: "does (\<lambda>s. Some (oerror msg s)) Bad"
  unfolding does.simps
proof (intro conjI allI impI)
  fix s :: "bytes pb_ostream"
  show "\<exists>s'. Some (oerror msg s) = Some (False, s')" by (simp add: oerror_def)
  assume "buffered s"
  then show "\<exists>p e. room s (length p) \<and> Some (oerror msg s) = Some (False, (grown s p)\<lparr>errmsg := e\<rparr>)"
    by (intro exI [of _ "[]"] exI [of _ "case errmsg s of None \<Rightarrow> Some msg | Some e \<Rightarrow> Some e"])
      (simp add: room_0 oerror_def)
qed

lemma does_full:
  assumes "does f (Wire w)" "buffered s" "\<not> room s (length w)"
  obtains p q where "w = p @ q" "room s (length p)"
    "f s = Some (False, (grown s p)\<lparr>errmsg := Some ''stream full''\<rparr>)"
  using assms unfolding does.simps by meson

lemma does_Bad_sizing: "does f Bad \<Longrightarrow> callback s = None \<Longrightarrow> \<exists>s'. f s = Some (False, s')"
  by simp

lemma does_Bad_buffered:
  assumes "does f Bad" "buffered s"
  obtains p e where "room s (length p)" "f s = Some (False, (grown s p)\<lparr>errmsg := e\<rparr>)"
  using assms unfolding does.simps by meson

lemma does_room: "does f (Wire w) \<Longrightarrow> buffered s \<Longrightarrow> room s (length w) \<Longrightarrow> f s = Some (True, grown s w)"
  by simp

lemma does_sizing: "does f (Wire w) \<Longrightarrow> callback s = None \<Longrightarrow>
    f s = Some (True, s\<lparr>bytes_written := bytes_written s + of_nat (length w)\<rparr>)"
  by simp

declare does.simps(2,3) [simp del]

lemma seq_simps [simp]:
  "seq None g = None" "seq (Some (False, s)) g = Some (False, s)" "seq (Some (True, s)) g = g s"
  by (simp_all add: seq_def)

lemma does_Wire_Wire:
  assumes f: "does f (Wire v)" and g: "does g (Wire w)"
  shows "does (\<lambda>s. seq (f s) g) (Wire (v @ w))"
  unfolding does.simps
proof (intro conjI allI impI)
  fix s :: "bytes pb_ostream"
  assume "callback s = None"
  with f g show "seq (f s) g = Some (True, s\<lparr>bytes_written := bytes_written s + of_nat (length (v @ w))\<rparr>)"
    by (simp add: does_sizing add.assoc)
next
  fix s :: "bytes pb_ostream"
  assume b: "buffered s"
  show "if room s (length (v @ w)) then seq (f s) g = Some (True, grown s (v @ w))
    else \<exists>p q. v @ w = p @ q \<and> room s (length p) \<and>
      seq (f s) g = Some (False, (grown s p)\<lparr>errmsg := Some ''stream full''\<rparr>)"
  proof (cases "room s (length v)")
    case False
    then have "\<not> room s (length (v @ w))" by (simp add: room_def)
    moreover from does_full [OF f b False] obtain p q where "v = p @ q" "room s (length p)"
      "f s = Some (False, (grown s p)\<lparr>errmsg := Some ''stream full''\<rparr>)" .
    ultimately show ?thesis by (simp, intro exI [of _ p] conjI exI [of _ "q @ w"]) simp_all
  next
    case True
    note fs = does_room [OF f b True] and b' = buffered_grown [OF b True] and r' = room_grown [OF b True]
    show ?thesis
    proof (cases "room (grown s v) (length w)")
      case room: True
      with fs does_room [OF g b' room] r' show ?thesis by (simp add: grown_append)
    next
      case full: False
      from does_full [OF g b' full] obtain p q where p: "w = p @ q" "room (grown s v) (length p)"
        "g (grown s v) = Some (False, (grown (grown s v) p)\<lparr>errmsg := Some ''stream full''\<rparr>)" .
      with fs full r' show ?thesis
        by (simp add: grown_append, intro exI [of _ "v @ p"] conjI exI [of _ q]) (simp_all add: add.commute)
    qed
  qed
qed

lemma does_Wire_Bad:
  assumes f: "does f (Wire v)" and g: "does g Bad"
  shows "does (\<lambda>s. seq (f s) g) Bad"
  unfolding does.simps
proof (intro conjI allI impI)
  fix s :: "bytes pb_ostream"
  assume "callback s = None"
  with f show "\<exists>s'. seq (f s) g = Some (False, s')"
    using does_Bad_sizing [OF g] by (simp add: does_sizing)
next
  fix s :: "bytes pb_ostream"
  assume b: "buffered s"
  show "\<exists>p e. room s (length p) \<and> seq (f s) g = Some (False, (grown s p)\<lparr>errmsg := e\<rparr>)"
  proof (cases "room s (length v)")
    case False
    from does_full [OF f b False] obtain p q where "v = p @ q" "room s (length p)"
      "f s = Some (False, (grown s p)\<lparr>errmsg := Some ''stream full''\<rparr>)" .
    then show ?thesis by (intro exI [of _ p] exI) simp
  next
    case True
    note fs = does_room [OF f b True] and b' = buffered_grown [OF b True] and r' = room_grown [OF b True]
    from does_Bad_buffered [OF g b'] obtain p e where "room (grown s v) (length p)"
      "g (grown s v) = Some (False, (grown (grown s v) p)\<lparr>errmsg := e\<rparr>)" .
    with fs r' show ?thesis
      by (intro exI [of _ "v @ p"] exI [of _ e]) (simp add: grown_append)
  qed
qed

lemma does_Bad_then:
  assumes f: "does f Bad"
  shows "does (\<lambda>s. seq (f s) g) Bad"
  unfolding does.simps
proof (intro conjI allI impI)
  fix s :: "bytes pb_ostream"
  assume "callback s = None"
  with does_Bad_sizing [OF f] obtain s' where "f s = Some (False, s')" by blast
  then show "\<exists>s'. seq (f s) g = Some (False, s')" by simp
next
  fix s :: "bytes pb_ostream"
  assume "buffered s"
  from does_Bad_buffered [OF f this] obtain p e where
    "room s (length p)" "f s = Some (False, (grown s p)\<lparr>errmsg := e\<rparr>)" .
  then show "\<exists>p e. room s (length p) \<and> seq (f s) g = Some (False, (grown s p)\<lparr>errmsg := e\<rparr>)"
    by (intro exI [of _ p] exI [of _ e]) simp
qed

lemma does_seq: "does f v \<Longrightarrow> does g w \<Longrightarrow> does (\<lambda>s. seq (f s) g) (cat v w)"
  by (cases v; cases w)
    (simp_all add: does_Wire_Wire does_Wire_Bad does_Bad_then)

lemma does_ext: "(\<And>s. f s = g s) \<Longrightarrow> does g w \<Longrightarrow> does f w"
  by (metis ext)

lemma does_fail: "(\<And>s. \<exists>e. f s = Some (False, s\<lparr>errmsg := e\<rparr>)) \<Longrightarrow> does f Bad"
  unfolding does.simps
proof (intro conjI allI impI)
  assume f: "\<And>s. \<exists>e. f s = Some (False, s\<lparr>errmsg := e\<rparr>)"
  fix s :: "bytes pb_ostream"
  from f [of s] obtain e where e: "f s = Some (False, s\<lparr>errmsg := e\<rparr>)" by blast
  then show "\<exists>s'. f s = Some (False, s')" by blast
  assume "buffered s"
  with e show "\<exists>p e. room s (length p) \<and> f s = Some (False, (grown s p)\<lparr>errmsg := e\<rparr>)"
    by (intro exI [of _ "[]"] exI [of _ e]) (simp add: room_0)
qed

lemma pb_write_sizing:
  "callback s = None \<Longrightarrow> pb_write b n s = (True, s\<lparr>bytes_written := bytes_written s + n\<rparr>)"
  by (simp add: pb_write_def)

text \<open>A length, and contents that are only counted on a sizing stream.\<close>

lemma does_with_length:
  assumes len: "length b < 2 ^ 63" and sz: "sz = of_nat (length b)"
    and count: "\<And>s. callback s = None \<Longrightarrow> J s = Some (pb_write [] sz s)"
    and body: "\<And>s. buffered s \<Longrightarrow> room s (length b) \<Longrightarrow> J s = Some (True, grown s b)"
    and full: "\<And>s. buffered s \<Longrightarrow> \<not> room s (length b) \<Longrightarrow> \<exists>p q. b = p @ q \<and> room s (length p) \<and>
        J s = Some (False, (grown s p)\<lparr>errmsg := Some ''stream full''\<rparr>)"
  shows "does (\<lambda>s. seq (Some (pb_encode_varint sz s)) J) (Wire (string_bytes b))"
proof -
  have u: "unat sz = length b" using len sz by (simp add: unat_of_nat_length)
  have "does J (Wire b)"
    using count body full by (simp add: does.simps(3) sz pb_write_sizing)
  from does_seq [OF does_emits [OF emits_varint [of sz]] this] show ?thesis
    by (simp add: u string_bytes_def)
qed

lemma does_submessage:
  assumes d: "does (enc fs src) w"
  shows "does (pb_encode_submessage enc fs src) (delimited w)"
proof (cases w)
  case Beyond
  then show ?thesis by simp
next
  case Bad
  have "does (pb_encode_submessage enc fs src) Bad"
  proof (rule does_fail)
    fix s :: "bytes pb_ostream"
    from d [unfolded Bad] obtain t where "enc fs src (PB_OSTREAM_SIZING (state s)) = Some (False, t)"
      using does_Bad_sizing [of "enc fs src" "PB_OSTREAM_SIZING (state s)"]
      by (auto simp: PB_OSTREAM_SIZING_def)
    then show "\<exists>e. pb_encode_submessage enc fs src s = Some (False, s\<lparr>errmsg := e\<rparr>)"
      by (auto simp: pb_encode_submessage_def)
  qed
  with Bad show ?thesis by simp
next
  case (Wire b)
  note d = d [unfolded Wire]
  show ?thesis
  proof (cases "length b < 2 ^ 63")
    case False
    with Wire show ?thesis by simp
  next
    case len: True
    define sz :: u64 where "sz = of_nat (length b)"
    have u: "unat sz = length b" unfolding sz_def using len by (intro unat_of_nat_length) simp
    define J where "J stream =
      (if callback stream = None then Some (pb_write [] sz stream)
       else if bytes_written stream + sz > max_size stream then Some (oerror ''stream full'' stream)
       else
         (case enc fs src (stream\<lparr>max_size := sz, bytes_written := 0, errmsg := None\<rparr>) of
            None \<Rightarrow> None
          | Some (status, substream) \<Rightarrow>
              let stream = stream\<lparr>bytes_written := bytes_written stream + bytes_written substream,
                    state := state substream, errmsg := errmsg substream\<rparr>
              in if bytes_written substream \<noteq> sz then Some (oerror ''submsg size changed'' stream)
                 else Some (status, stream)))" for stream
    have eq: "pb_encode_submessage enc fs src s = seq (Some (pb_encode_varint sz s)) J" for s
    proof -
      obtain t where e: "enc fs src (PB_OSTREAM_SIZING (state s)) = Some (True, t)" "bytes_written t = sz"
        using does_sizing [OF d, of "PB_OSTREAM_SIZING (state s)"]
        by (simp add: PB_OSTREAM_SIZING_def sz_def)
      show ?thesis
        unfolding pb_encode_submessage_def e option.case prod.case bool.case Let_def J_def by (rule refl)
    qed
    have "does (\<lambda>s. seq (Some (pb_encode_varint sz s)) J) (Wire (string_bytes b))"
    proof (rule does_with_length [OF len sz_def])
      fix s :: "bytes pb_ostream"
      show "callback s = None \<Longrightarrow> J s = Some (pb_write [] sz s)" by (simp add: J_def)
      assume b: "buffered s"
      have sum: "unat (bytes_written s + sz) = unat (bytes_written s) + length b"
      proof -
        have "unat (bytes_written s) < 2 ^ 63" using b by (simp add: buffered_def word_le_nat_alt)
        then show ?thesis using len u by (simp add: unat_word_ariths)
      qed
      {
        assume r: "room s (length b)"
        have le: "\<not> bytes_written s + sz > max_size s"
          unfolding word_less_nat_alt sum using r by (simp add: room_def)
        let ?sub = "s\<lparr>max_size := sz, bytes_written := 0, errmsg := None\<rparr>"
        have "buffered ?sub" "room ?sub (length b)"
          using b len u by (simp_all add: buffered_def room_def)
        with d have "enc fs src ?sub = Some (True, grown ?sub b)" by (rule does_room)
        with le b show "J s = Some (True, grown s b)"
          by (simp add: J_def buffered_def grown_def sz_def Let_def)
      }
      {
        assume r: "\<not> room s (length b)"
        have "bytes_written s + sz > max_size s"
          unfolding word_less_nat_alt sum using r by (simp add: room_def)
        with b have "J s = Some (False, (grown s [])\<lparr>errmsg := Some ''stream full''\<rparr>)"
          by (simp add: J_def buffered_def oerror_def)
        then show "\<exists>p q. b = p @ q \<and> room s (length p) \<and>
            J s = Some (False, (grown s p)\<lparr>errmsg := Some ''stream full''\<rparr>)"
          by (intro exI [of _ "[]"] exI [of _ b]) (simp add: room_0 [OF b])
      }
    qed
    then show ?thesis unfolding eq [abs_def, symmetric] using Wire len by simp
  qed
qed

lemma length_load [simp]: "length (load m a n) = n"
  by (simp add: load_def)

lemma le_bytes_le_val: "le_bytes (length b) (le_val b) = b"
  using be_bytes_be_val [of "rev b"] by (simp add: le_bytes_be be_val_rev)

lemma le_bytes_load32: "le_bytes 4 (unat (load32 m a)) = load m a 4"
proof -
  have "le_val (load m a 4) < 256 ^ 4" using le_val_less [of "load m a 4"] by simp
  then have "unat (load32 m a) = le_val (load m a 4)" by (simp add: load32_def unat_of_nat)
  then show ?thesis using le_bytes_le_val [of "load m a 4"] by simp
qed

lemma le_bytes_load64: "le_bytes 8 (unat (load64 m a)) = load m a 8"
proof -
  have "le_val (load m a 8) < 256 ^ 8" using le_val_less [of "load m a 8"] by simp
  then have "unat (load64 m a) = le_val (load m a 8)" by (simp add: load64_def unat_of_nat)
  then show ?thesis using le_bytes_le_val [of "load m a 8"] by simp
qed

lemma alloc_size: "unat (PB_BYTES_ARRAY_T_ALLOCSIZE n) = unat n + 4"
proof -
  have "unat n < 2 ^ 32" using unsigned_less [of n, where 'a = nat] by simp
  then show ?thesis by (simp add: PB_BYTES_ARRAY_T_ALLOCSIZE_def unat_word_ariths)
qed

lemma does_string_load:
  "n = of_nat k \<Longrightarrow> k < 2 ^ 64 \<Longrightarrow>
    does (\<lambda>s. Some (pb_encode_string (load m a k) n s)) (Wire (string_bytes (load m a k)))"
  using does_emits [OF emits_string [of "load m a k"]] by simp

lemma does_value:
  assumes enc: "\<And>fs src. does (enc fs src) (msg fs src)"
  shows "does (PB_ENCODERS enc env l field src) (value_wire msg env l field src)"
proof (cases l)
  case PB_LTYPE_BOOL
  then show ?thesis
    using does_emits [OF emits_varint [of "if safe_read_bool (mem env) src then 1 else 0"]]
    by (simp add: PB_ENCODERS_def [abs_def] value_wire_def pb_enc_bool_def split: if_splits)
next
  case PB_LTYPE_VARINT
  then show ?thesis
    by (cases "read_signed (mem env) (data_size field) src")
      (simp_all add: PB_ENCODERS_def [abs_def] value_wire_def pb_enc_varint_def does_oerror
        does_emits [OF emits_varint])
next
  case PB_LTYPE_UVARINT
  then show ?thesis
    by (cases "read_unsigned (mem env) (data_size field) src")
      (simp_all add: PB_ENCODERS_def [abs_def] value_wire_def pb_enc_uvarint_def does_oerror
        does_emits [OF emits_varint])
next
  case PB_LTYPE_SVARINT
  then show ?thesis
    by (cases "read_signed (mem env) (data_size field) src")
      (simp_all add: PB_ENCODERS_def [abs_def] value_wire_def pb_enc_svarint_def does_oerror
        does_emits [OF emits_svarint])
next
  case PB_LTYPE_FIXED32
  then show ?thesis
    using does_emits [OF emits_fixed32 [of "load32 (mem env) src"]]
    by (simp add: PB_ENCODERS_def [abs_def] value_wire_def pb_enc_fixed32_def le_bytes_load32)
next
  case PB_LTYPE_FIXED64
  then show ?thesis
    using does_emits [OF emits_fixed64 [of "load64 (mem env) src"]]
    by (simp add: PB_ENCODERS_def [abs_def] value_wire_def pb_enc_fixed64_def le_bytes_load64)
next
  case PB_LTYPE_BYTES
  define n where "n = load32 (mem env) src"
  have 1: "\<not> PB_BYTES_ARRAY_T_ALLOCSIZE n < ucast n"
    unfolding word_less_nat_alt alloc_size by simp
  have 2: "PB_BYTES_ARRAY_T_ALLOCSIZE n > ucast (data_size field) \<longleftrightarrow> unat (data_size field) < unat n + 4"
    unfolding word_less_nat_alt alloc_size by simp
  have "unat n < 2 ^ 64" using unsigned_less [of n, where 'a = nat] by simp
  then have 3: "does (\<lambda>s. Some (pb_encode_string (load (mem env) (src + 4) (unat n)) (ucast n) s))
      (Wire (string_bytes (load (mem env) (src + 4) (unat n))))"
    by (intro does_string_load) simp
  have 4: "does (\<lambda>s. Some (pb_encode_string [] 0 s)) (Wire (string_bytes []))"
    using does_emits [OF emits_string [of "[]"]] by simp
  show ?thesis
    using PB_LTYPE_BYTES 3 4
    by (cases "src = 0"; cases "PB_ATYPE (type_of field) = PB_ATYPE_STATIC \<and> unat (data_size field) < unat n + 4")
      (auto simp: PB_ENCODERS_def [abs_def] value_wire_def pb_enc_bytes_def Let_def
        n_def [symmetric] 1 2 does_oerror)
next
  case PB_LTYPE_STRING
  define sz where "sz = (if src = 0 then 0 else string_size (mem env)
      (if PB_ATYPE (type_of field) = PB_ATYPE_POINTER then - 1 else ucast (data_size field)) src 0)"
  have "unat sz < 2 ^ 64" using unsigned_less [of sz, where 'a = nat] by simp
  then have "does (\<lambda>s. Some (pb_encode_string (load (mem env) src (unat sz)) sz s))
      (Wire (string_bytes (load (mem env) src (unat sz))))"
    by (intro does_string_load) simp
  moreover have "load (mem env) src (unat sz) = (if src = 0 then []
      else load (mem env) src (unat (string_size (mem env)
        (if PB_ATYPE (type_of field) = PB_ATYPE_POINTER then - 1 else ucast (data_size field)) src 0)))"
    by (simp add: sz_def load_def)
  ultimately show ?thesis
    using PB_LTYPE_STRING
    by (simp add: PB_ENCODERS_def [abs_def] value_wire_def pb_enc_string_def Let_def sz_def [symmetric])
next
  case PB_LTYPE_SUBMESSAGE
  then show ?thesis
    using does_submessage [of enc "descs env (ptr field)" src, OF enc]
    by (simp add: PB_ENCODERS_def [abs_def] value_wire_def pb_enc_submessage_def does_oerror)
next
  case PB_LTYPE_FIXED_LENGTH_BYTES
  have "unat (data_size field) < 2 ^ 64" using unsigned_less [of "data_size field", where 'a = nat] by simp
  then have "does (\<lambda>s. Some (pb_encode_string (load (mem env) src (unat (data_size field)))
        (ucast (data_size field)) s)) (Wire (string_bytes (load (mem env) src (unat (data_size field)))))"
    by (intro does_string_load) simp
  then show ?thesis
    using PB_LTYPE_FIXED_LENGTH_BYTES
    by (simp add: PB_ENCODERS_def [abs_def] value_wire_def pb_enc_fixed_length_bytes_def)
qed (simp_all add: value_wire_def)

lemma does_tag: "does (\<lambda>s. Some (pb_encode_tag_for_field field s)) (tag_wire field)"
proof -
  have e: "does (\<lambda>s. Some (pb_encode_tag wt (tag field) s)) (Wire (tag_bytes wt (tag field)))"
    if "unat wt < 8" for wt
    using that by (intro does_emits emits_tag)
  show ?thesis
    using e [of PB_WT_VARINT] e [of PB_WT_64BIT] e [of PB_WT_32BIT] e [of PB_WT_STRING]
    by (cases "PB_LTYPE (type_of field)")
      (simp_all add: pb_encode_tag_for_field_def [abs_def] tag_wire_def does_oerror packable_cases wire_types)
qed

lemma does_items:
  assumes "\<And>p. does (f p) (g p)"
  shows "does (enc_items n step f p) (items_wire n step g p)"
proof (induction n arbitrary: p)
  case 0
  show ?case using does_skip by simp
next
  case (Suc n)
  show ?case using does_seq [OF assms Suc] by simp
qed

lemma items_wire_const:
  assumes "\<And>p. \<exists>b. g p = Wire b \<and> length b = k"
  shows "\<exists>b. items_wire n step g p = Wire b \<and> length b = n * k"
proof (induction n arbitrary: p)
  case 0
  show ?case by simp
next
  case (Suc n)
  from assms obtain b where "g p = Wire b" "length b = k" by blast
  moreover from Suc obtain c where "items_wire n step g (p + step) = Wire c" "length c = n * k" by blast
  ultimately show ?case by simp
qed

lemma does_packed:
  assumes d: "does I w"
    and good: "\<And>s b. w = Wire b \<Longrightarrow> \<exists>t. sizes s = Some (True, t) \<and> bytes_written t = of_nat (length b)"
    and bad: "\<And>s. w = Bad \<Longrightarrow> \<exists>t. sizes s = Some (False, t)"
  shows "does (\<lambda>s. case sizes s of None \<Rightarrow> None
      | Some (False, _) \<Rightarrow> Some (False, s)
      | Some (True, sizestream) \<Rightarrow>
          let sz = bytes_written sizestream in
          seq (Some (pb_encode_varint sz s)) (\<lambda>s. if callback s = None then Some (pb_write [] sz s) else I s))
    (delimited w)"
    (is "does ?f _")
proof (cases w)
  case Beyond
  then show ?thesis by simp
next
  case Bad
  have "does ?f Bad"
  proof (rule does_fail)
    fix s :: "bytes pb_ostream"
    from bad [OF Bad] obtain t where "sizes s = Some (False, t)" by blast
    then show "\<exists>e. ?f s = Some (False, s\<lparr>errmsg := e\<rparr>)" by (intro exI [of _ "errmsg s"]) simp
  qed
  with Bad show ?thesis by simp
next
  case (Wire b)
  show ?thesis
  proof (cases "length b < 2 ^ 63")
    case False
    with Wire show ?thesis by simp
  next
    case len: True
    define sz :: u64 where "sz = of_nat (length b)"
    define J where "J s = (if callback s = None then Some (pb_write [] sz s) else I s)" for s
    have "?f s = seq (Some (pb_encode_varint sz s)) J" for s
    proof -
      from good [OF Wire] obtain t where t: "sizes s = Some (True, t)" "bytes_written t = sz"
        unfolding sz_def by blast
      show ?thesis unfolding t option.case prod.case bool.case Let_def J_def by (rule refl)
    qed
    moreover have "does (\<lambda>s. seq (Some (pb_encode_varint sz s)) J) (Wire (string_bytes b))"
    proof (rule does_with_length [OF len sz_def])
      fix s :: "bytes pb_ostream"
      show "callback s = None \<Longrightarrow> J s = Some (pb_write [] sz s)" by (simp add: J_def)
      assume b: "buffered s"
      then have J: "J s = I s" by (simp add: J_def buffered_def)
      note d = d [unfolded Wire]
      show "room s (length b) \<Longrightarrow> J s = Some (True, grown s b)"
        unfolding J by (rule does_room [OF d b])
      assume "\<not> room s (length b)"
      from does_full [OF d b this] show "\<exists>p q. b = p @ q \<and> room s (length p) \<and>
          J s = Some (False, (grown s p)\<lparr>errmsg := Some ''stream full''\<rparr>)" unfolding J by blast
    qed
    ultimately show ?thesis using Wire len by (simp add: does_ext)
  qed
qed

lemma does_array:
  assumes enc: "\<And>fs src. does (enc fs src) (msg fs src)" and count: "unat count < 2 ^ 32"
  shows "does (encode_array env field data count (PB_ENCODERS enc env (PB_LTYPE (type_of field))))
    (array_wire msg env field data (unat count))"
proof -
  define l where "l = PB_LTYPE (type_of field)"
  define step :: u64 where "step = ucast (data_size field)"
  define W where "W = items_wire (unat count) step (value_wire msg env l field) data"
  define I where "I = enc_items (unat count) step (PB_ENCODERS enc env l field) data"
  define sizes where "sizes s =
    (if l = PB_LTYPE_FIXED32 then Some (True, PB_OSTREAM_SIZING (state s)\<lparr>bytes_written := 4 * count\<rparr>)
     else if l = PB_LTYPE_FIXED64 then Some (True, PB_OSTREAM_SIZING (state s)\<lparr>bytes_written := 8 * count\<rparr>)
     else I (PB_OSTREAM_SIZING (state s)))" for s :: "bytes pb_ostream"
  have val: "does (PB_ENCODERS enc env l field p) (value_wire msg env l field p)" for p
    by (rule does_value [OF enc])
  have I: "does I W" unfolding I_def W_def by (rule does_items [OF val])
  show ?thesis
  proof (cases "count = 0")
    case True
    then show ?thesis using does_skip by (simp add: encode_array_def [abs_def] array_wire_def)
  next
    case nz: False
    then have nz': "unat count \<noteq> 0" by (simp add: unat_eq_0)
    have lim: "count > ucast (array_size field) \<longleftrightarrow> unat (array_size field) < unat count"
      by (simp add: word_less_nat_alt)
    show ?thesis
    proof (cases "PB_ATYPE (type_of field) \<noteq> PB_ATYPE_POINTER \<and> unat (array_size field) < unat count")
      case True
      with nz nz' show ?thesis
        by (simp add: encode_array_def [abs_def] array_wire_def lim does_oerror Let_def)
    next
      case fits: False
      show ?thesis
      proof (cases "l \<le> PB_LTYPE_LAST_PACKABLE")
        case packed: True
        have "does (\<lambda>s. case sizes s of None \<Rightarrow> None
            | Some (False, _) \<Rightarrow> Some (False, s)
            | Some (True, sizestream) \<Rightarrow>
                let sz = bytes_written sizestream in
                seq (Some (pb_encode_varint sz s))
                  (\<lambda>s. if callback s = None then Some (pb_write [] sz s) else I s)) (delimited W)"
        proof (rule does_packed [OF I])
          fix s :: "bytes pb_ostream"
          have sizing: "callback (PB_OSTREAM_SIZING (state s)) = None" by (simp add: PB_OSTREAM_SIZING_def)
          show "\<exists>t. sizes s = Some (True, t) \<and> bytes_written t = of_nat (length b)" if "W = Wire b" for b
          proof (cases "l = PB_LTYPE_FIXED32 \<or> l = PB_LTYPE_FIXED64")
            case True
            define k :: nat where "k = (if l = PB_LTYPE_FIXED32 then 4 else 8)"
            have "\<exists>b. value_wire msg env l field p = Wire b \<and> length b = k" for p
              using True by (auto simp: value_wire_def k_def)
            then obtain c where "W = Wire c" "length c = unat count * k"
              unfolding W_def using items_wire_const by blast
            with that have "of_nat (length b) = of_nat k * count" by (simp add: mult.commute)
            then show ?thesis using True by (auto simp: sizes_def k_def)
          next
            case False
            with does_sizing [OF I [unfolded that] sizing] show ?thesis
              by (simp add: sizes_def PB_OSTREAM_SIZING_def)
          qed
          show "\<exists>t. sizes s = Some (False, t)" if "W = Bad"
          proof (cases "l = PB_LTYPE_FIXED32 \<or> l = PB_LTYPE_FIXED64")
            case True
            then have "\<exists>b. value_wire msg env l field p = Wire b \<and> length b = (if l = PB_LTYPE_FIXED32 then 4 else 8)" for p
              by (auto simp: value_wire_def)
            then have "\<exists>b. W = Wire b" unfolding W_def using items_wire_const by blast
            with that show ?thesis by simp
          next
            case False
            with does_Bad_sizing [OF I [unfolded that] sizing] show ?thesis by (simp add: sizes_def)
          qed
        qed
        from does_seq [OF does_emits [OF emits_tag [of PB_WT_STRING "tag field"]] this]
        have "does (\<lambda>s. seq (Some (pb_encode_tag PB_WT_STRING (tag field) s)) (\<lambda>s. case sizes s of None \<Rightarrow> None
            | Some (False, _) \<Rightarrow> Some (False, s)
            | Some (True, sizestream) \<Rightarrow>
                let sz = bytes_written sizestream in
                seq (Some (pb_encode_varint sz s))
                  (\<lambda>s. if callback s = None then Some (pb_write [] sz s) else I s)))
          (cat (Wire (tag_bytes PB_WT_STRING (tag field))) (delimited W))" by (simp add: wire_types)
        moreover have "array_wire msg env field data (unat count) =
            cat (Wire (tag_bytes PB_WT_STRING (tag field))) (delimited W)"
          using nz' fits packed by (auto simp: array_wire_def Let_def l_def W_def step_def)
        moreover have "encode_array env field data count (PB_ENCODERS enc env (PB_LTYPE (type_of field))) s =
            seq (Some (pb_encode_tag PB_WT_STRING (tag field) s)) (\<lambda>s. case sizes s of None \<Rightarrow> None
            | Some (False, _) \<Rightarrow> Some (False, s)
            | Some (True, sizestream) \<Rightarrow>
                let sz = bytes_written sizestream in
                seq (Some (pb_encode_varint sz s))
                  (\<lambda>s. if callback s = None then Some (pb_write [] sz s) else I s))" for s
          using nz fits packed
          unfolding encode_array_def Let_def sizes_def I_def l_def step_def lim by auto
        ultimately show ?thesis by (simp add: does_ext)
      next
        case unpacked: False
        define src where "src p = (if PB_ATYPE (type_of field) = PB_ATYPE_POINTER \<and>
          (l = PB_LTYPE_STRING \<or> l = PB_LTYPE_BYTES) then load64 (mem env) p else p)" for p
        have "does (enc_items (unat count) step (\<lambda>p s. seq (Some (pb_encode_tag_for_field field s))
            (PB_ENCODERS enc env l field (src p))) data)
          (items_wire (unat count) step (\<lambda>p. cat (tag_wire field) (value_wire msg env l field (src p))) data)"
          by (rule does_items, rule does_seq [OF does_tag val])
        moreover have "array_wire msg env field data (unat count) =
            items_wire (unat count) step (\<lambda>p. cat (tag_wire field) (value_wire msg env l field (src p))) data"
          using nz' fits unpacked unfolding array_wire_def Let_def l_def src_def step_def by auto
        moreover have "encode_array env field data count (PB_ENCODERS enc env (PB_LTYPE (type_of field))) s =
            enc_items (unat count) step (\<lambda>p s. seq (Some (pb_encode_tag_for_field field s))
              (PB_ENCODERS enc env l field (src p))) data s" for s
          using nz fits unpacked unfolding encode_array_def Let_def l_def step_def lim src_def by auto
        ultimately show ?thesis by (simp add: does_ext)
      qed
    qed
  qed
qed

lemma does_basic:
  assumes enc: "\<And>fs src. does (enc fs src) (msg fs src)"
  shows "does (encode_basic_field d enc env field data) (basic_wire d msg env field data)"
proof -
  define l where "l = PB_LTYPE (type_of field)"
  define src where "src = (if PB_ATYPE (type_of field) = PB_ATYPE_POINTER then load64 (mem env) data else data)"
  define sz where "sz = data + scast (size_offset field)"
  have one: "does (\<lambda>s. seq (Some (pb_encode_tag_for_field field s)) (PB_ENCODERS enc env l field src))
      (cat (tag_wire field) (value_wire msg env l field src))"
    by (rule does_seq [OF does_tag does_value [OF enc]])
  have arr: "does (encode_array env field src (ucast n) (PB_ENCODERS enc env l))
      (array_wire msg env field src (unat n))" for n :: u32
  proof -
    have "unat (ucast n :: u64) < 2 ^ 32" using unsigned_less [of n, where 'a = nat] by simp
    from does_array [OF enc this] show ?thesis by (simp add: l_def)
  qed
  note defs = encode_basic_field_def basic_wire_def Let_def
  show ?thesis
  proof (cases "if size_offset field = 0 \<and> PB_HTYPE (type_of field) = PB_HTYPE_OPTIONAL
            then map_option Not (pb_check_proto3_default_value d env field data) else Some True")
    case None
    then have "basic_wire d msg env field data = Beyond" by (simp add: basic_wire_def Let_def)
    then show ?thesis by simp
  next
    case (Some nz)
    have c: "(if size_offset field \<noteq> 0 then Some True
        else if PB_HTYPE (type_of field) = PB_HTYPE_OPTIONAL
        then map_option Not (pb_check_proto3_default_value d env field data) else Some True) =
        Some nz" using Some by (auto split: if_splits)
    show ?thesis
    proof (cases "PB_HTYPE (type_of field)")
      case PB_HTYPE_REQUIRED
      then show ?thesis using one
        by (cases "src = 0")
          (auto simp: encode_basic_field_def [abs_def] c Some basic_wire_def Let_def does_oerror
            src_def [symmetric] l_def [symmetric])
    next
      case PB_HTYPE_OPTIONAL
      define has where "has = (if size_offset field \<noteq> 0 then safe_read_bool (mem env) sz
        else if PB_ATYPE (type_of field) = PB_ATYPE_POINTER then src \<noteq> 0 else nz)"
      have "basic_wire d msg env field data =
          (if has then cat (tag_wire field) (value_wire msg env l field src) else Wire [])"
        unfolding basic_wire_def Let_def Some option.case unfolding PB_HTYPE_OPTIONAL pb_htype.case
        by (simp only: has_def src_def sz_def l_def)
      moreover have "encode_basic_field d enc env field data s =
          (if has then seq (Some (pb_encode_tag_for_field field s)) (PB_ENCODERS enc env l field src)
           else Some (True, s))" for s
        unfolding encode_basic_field_def Let_def c option.case unfolding PB_HTYPE_OPTIONAL pb_htype.case
        by (simp only: has_def src_def sz_def l_def)
      ultimately show ?thesis using one does_skip
        by (cases has) (simp_all add: does_ext)
    next
      case PB_HTYPE_REPEATED
      have "basic_wire d msg env field data = array_wire msg env field src
          (unat (if size_offset field \<noteq> 0 then load32 (mem env) sz else array_size field))"
        unfolding basic_wire_def Let_def Some option.case unfolding PB_HTYPE_REPEATED pb_htype.case
        by (simp only: src_def sz_def)
      moreover have "encode_basic_field d enc env field data s = encode_array env field src
          (ucast (if size_offset field \<noteq> 0 then load32 (mem env) sz else array_size field))
          (PB_ENCODERS enc env l) s" for s
        unfolding encode_basic_field_def Let_def c option.case unfolding PB_HTYPE_REPEATED pb_htype.case
        by (simp only: src_def sz_def l_def)
      ultimately show ?thesis using arr by (simp add: does_ext)
    next
      case PB_HTYPE_ONEOF
      have "basic_wire d msg env field data =
          (if size_offset field = 0 then Beyond
           else if load32 (mem env) sz = tag field
           then cat (tag_wire field) (value_wire msg env l field src) else Wire [])"
        unfolding basic_wire_def Let_def Some option.case unfolding PB_HTYPE_ONEOF pb_htype.case
        by (simp only: src_def sz_def l_def)
      moreover have "encode_basic_field d enc env field data s =
          (if size_offset field = 0 then None
           else if load32 (mem env) sz = tag field
           then seq (Some (pb_encode_tag_for_field field s)) (PB_ENCODERS enc env l field src)
           else Some (True, s))" for s
        unfolding encode_basic_field_def Let_def c option.case unfolding PB_HTYPE_ONEOF pb_htype.case
        by (simp only: src_def sz_def l_def)
      ultimately show ?thesis using one does_skip
        by (cases "size_offset field = 0"; cases "load32 (mem env) sz = tag field")
          (simp_all add: does_ext)
    qed
  qed
qed

text \<open>What the user's functions do: they stand for bytes, like any encoder.\<close>

definition callbacks_ok :: "bytes env \<Rightarrow> callbacks_wire \<Rightarrow> (u64 \<Rightarrow> u64 \<Rightarrow> wire) \<Rightarrow> bool" where
  "callbacks_ok env cbw extw \<longleftrightarrow>
     (\<forall>fn field arg. does (\<lambda>s. Some (encode_cb env fn field arg s)) (cbw fn field arg)) \<and>
     (\<forall>fn e. does (\<lambda>s. Some (extension_cb env fn e s)) (extw fn e))"

lemma does_callback:
  assumes "callbacks_ok env cbw extw"
  shows "does (\<lambda>s. Some (encode_callback_field env field data s))
    (let fn = load64 (mem env) data in if fn = 0 then Wire [] else cbw fn field (data + 8))"
proof (cases "load64 (mem env) data = 0")
  case True
  then show ?thesis using does_skip by (simp add: encode_callback_field_def [abs_def])
next
  case False
  define f where "f s = encode_cb env (load64 (mem env) data) field (data + 8) s" for s
  define w where "w = cbw (load64 (mem env) data) field (data + 8)"
  define g where "g s = (case f s of (False, s) \<Rightarrow> oerror ''callback error'' s | (True, s) \<Rightarrow> (True, s))" for s
  have "does (\<lambda>s. Some (encode_cb env (load64 (mem env) data) field (data + 8) s))
      (cbw (load64 (mem env) data) field (data + 8))"
    using assms unfolding callbacks_ok_def by blast
  then have f: "does (\<lambda>s. Some (f s)) w" unfolding f_def w_def .
  have "does (\<lambda>s. Some (g s)) w"
  proof (cases w)
    case Beyond
    then show ?thesis by simp
  next
    case Bad
    note f = f [unfolded Bad]
    have "does (\<lambda>s. Some (g s)) Bad"
      unfolding does.simps
    proof (intro conjI allI impI)
      fix s :: "bytes pb_ostream"
      assume "callback s = None"
      from does_Bad_sizing [OF f this] obtain s' where "f s = (False, s')" by auto
      then show "\<exists>s'. Some (g s) = Some (False, s')" by (simp add: g_def oerror_def)
    next
      fix s :: "bytes pb_ostream"
      assume "buffered s"
      from does_Bad_buffered [OF f this] obtain p e where p: "room s (length p)"
        "f s = (False, (grown s p)\<lparr>errmsg := e\<rparr>)" by (metis option.inject)
      then show "\<exists>p e. room s (length p) \<and> Some (g s) = Some (False, (grown s p)\<lparr>errmsg := e\<rparr>)"
        by (intro exI [of _ p] exI [of _ "case e of None \<Rightarrow> Some ''callback error'' | Some e \<Rightarrow> Some e"])
          (simp add: g_def oerror_def)
    qed
    with Bad show ?thesis by simp
  next
    case (Wire b)
    note f = f [unfolded Wire]
    have "does (\<lambda>s. Some (g s)) (Wire b)"
      unfolding does.simps
    proof (intro conjI allI impI)
      fix s :: "bytes pb_ostream"
      assume "callback s = None"
      from does_sizing [OF f this] show "Some (g s) =
          Some (True, s\<lparr>bytes_written := bytes_written s + of_nat (length b)\<rparr>)" by (simp add: g_def)
    next
      fix s :: "bytes pb_ostream"
      assume b: "buffered s"
      show "if room s (length b) then Some (g s) = Some (True, grown s b)
        else \<exists>p q. b = p @ q \<and> room s (length p) \<and>
          Some (g s) = Some (False, (grown s p)\<lparr>errmsg := Some ''stream full''\<rparr>)"
      proof (cases "room s (length b)")
        case True
        with does_room [OF f b True] show ?thesis by (simp add: g_def)
      next
        case False
        from does_full [OF f b False] obtain p q where "b = p @ q" "room s (length p)"
          "f s = (False, (grown s p)\<lparr>errmsg := Some ''stream full''\<rparr>)" by (metis option.inject)
        then show ?thesis using False by (simp add: g_def oerror_def, intro exI [of _ p]) simp
      qed
    qed
    with Wire show ?thesis by simp
  qed
  moreover have "encode_callback_field env field data s = g s" for s
    using False by (simp add: encode_callback_field_def g_def f_def)
  ultimately show ?thesis using False by (simp add: w_def)
qed

lemma does_field:
  assumes "\<And>fs src. does (enc fs src) (msg fs src)" "callbacks_ok env cbw extw"
  shows "does (encode_field d enc env field data) (field_wire d msg env cbw field data)"
  using does_basic [OF assms(1), where d = d and env = env and field = field and data = data]
    does_callback [OF assms(2), of field data]
  by (cases "PB_ATYPE (type_of field)")
    (simp_all add: encode_field_def [abs_def] field_wire_def does_oerror)

lemma does_extensions:
  assumes "\<And>fs src. does (enc fs src) (msg fs src)" "callbacks_ok env cbw extw"
  shows "does (extension_loop n d enc env e) (extensions_wire n d msg env cbw extw e)"
proof (induction n arbitrary: e)
  case 0
  show ?case using does_skip by (simp cong: if_cong)
next
  case (Suc n)
  show ?case
  proof (cases "e = 0")
    case True
    then show ?thesis using does_skip by simp
  next
    case False
    define fn where "fn = load64 (mem env) (load64 (mem env) e + 8)"
    define field where "field = field_at (descs env (load64 (mem env) (load64 (mem env) e + 16))) 0"
    define at where "at = (if PB_ATYPE (type_of field) = PB_ATYPE_POINTER then e + 8 else load64 (mem env) (e + 8))"
    have "does (\<lambda>s. if fn \<noteq> 0 then Some (extension_cb env fn e s)
        else default_extension_encoder d enc env e s)
      (if fn \<noteq> 0 then extw fn e else field_wire d msg env cbw field at)"
    proof (cases "fn = 0")
      case True
      have "default_extension_encoder d enc env e s = encode_field d enc env field at s" for s
        by (simp add: default_extension_encoder_def field_def at_def Let_def)
      with True does_field [OF assms, where d = d and field = field and data = at] show ?thesis by (simp add: does_ext)
    next
      case False
      then show ?thesis using assms(2) by (simp add: callbacks_ok_def)
    qed
    note h = does_seq [OF this Suc [of "load64 (mem env) (e + 16)"]]
    have w: "extensions_wire (Suc n) d msg env cbw extw e =
        cat (if fn \<noteq> 0 then extw fn e else field_wire d msg env cbw field at)
          (extensions_wire n d msg env cbw extw (load64 (mem env) (e + 16)))"
      unfolding extensions_wire.simps Let_def fn_def field_def at_def by (simp only: False if_False)
    show ?thesis unfolding w
    proof (rule does_ext [OF _ h])
      fix s
      show "extension_loop (Suc n) d enc env e s =
        seq (if fn \<noteq> 0 then Some (extension_cb env fn e s) else default_extension_encoder d enc env e s)
          (extension_loop n d enc env (load64 (mem env) (e + 16)))"
        unfolding extension_loop.simps Let_def fn_def by (simp only: False if_False)
    qed
  qed
qed

lemma does_fields:
  assumes "\<And>it. does (f it) (g it)"
  shows "does (enc_fields f its) (foldr cat (map g its) (Wire []))"
proof (induction its)
  case Nil
  show ?case using does_skip by simp
next
  case (Cons it its)
  show ?case using does_seq [OF assms Cons] by simp
qed

lemma does_message:
  assumes "callbacks_ok env cbw extw"
  shows "does (pb_encode d env fs src) (message_wire d env cbw extw fs src)"
proof (induction d arbitrary: fs src)
  case 0
  show ?case by simp
next
  case (Suc d)
  note f = does_field [OF Suc assms] and e = does_extensions [OF Suc assms]
  show ?case unfolding pb_encode.simps message_wire.simps
    by (rule does_fields) (simp add: encode_extension_field_def [abs_def] e f)
qed

section \<open>Properties\<close>

text \<open>A message at 0x1000: the \<open>int32\<close> 150, then a set flag and the string \<open>hi\<close>; no user functions.\<close>

definition demo_env :: "bytes env" where
  "demo_env =
     \<lparr>mem = (\<lambda>a. if a = 0x1000 then 0x96 else if a = 0x1004 then 0x01 else if a = 0x1005 then 0x68
                 else if a = 0x1006 then 0x69 else 0),
      descs = (\<lambda>_. []), encode_cb = (\<lambda>_ _ _ s. (True, s)), extension_cb = (\<lambda>_ _ s. (True, s))\<rparr>"

lemma demo_callbacks: "callbacks_ok demo_env (\<lambda>_ _ _. Wire []) (\<lambda>_ _. Wire [])"
  by (simp add: callbacks_ok_def demo_env_def does_skip)

lemma demo_message:
  "message_wire 2 demo_env (\<lambda>_ _ _. Wire []) (\<lambda>_ _. Wire []) demo_fields 0x1000 =
    Wire [0x08, 0x96, 0x01, 0x12, 0x02, 0x68, 0x69]"
  by code_simp

text \<open>C3:
  The encoder implements its specification.  Whatever the descriptors and the contents of memory
  are, \<open>pb_encode\<close> does on a stream what the bytes of the message say: it counts them on a sizing
  stream, appends exactly them to a buffer with room, fails with \<open>stream full\<close> after a prefix of
  them without passing the limit when there is none, and fails on both kinds of stream when the
  message cannot be encoded (a missing required field, an array longer than its maximum, a bad data
  size, a null submessage descriptor).  The sizes of submessages and packed arrays, which are
  computed in a separate pass, always agree with what is written.
\<close>

theorem pb_encode_refines:
  assumes "callbacks_ok env cbw extw"
  shows "does (pb_encode d env fs src) (message_wire d env cbw extw fs src)"
  by (rule does_message [OF assms])

theorem pb_encode_refines_witness:
  "does (pb_encode 2 demo_env demo_fields 0x1000) (Wire [0x08, 0x96, 0x01, 0x12, 0x02, 0x68, 0x69])"
  using pb_encode_refines [OF demo_callbacks, of 2 demo_fields "0x1000"] unfolding demo_message .

lemma buffered_from_buffer: "unat n < 2 ^ 63 \<Longrightarrow> buffered (pb_ostream_from_buffer n)"
  by (simp add: buffered_def pb_ostream_from_buffer_def)

lemma room_from_buffer: "room (pb_ostream_from_buffer n) k \<longleftrightarrow> k \<le> unat n"
  by (simp add: room_def pb_ostream_from_buffer_def)

text \<open>C15:
  \<open>pb_get_encoded_size\<close> is exact, and a buffer is never overrun.  For a message with the bytes \<open>w\<close> it
  returns their number; encoding into a buffer of \<open>n\<close> bytes succeeds exactly when they fit, and
  then the buffer holds them; otherwise the error is \<open>stream full\<close> and what was stored fits.
\<close>

theorem pb_get_encoded_size_exact:
  assumes "callbacks_ok env cbw extw" "message_wire d env cbw extw fs src = Wire w" "unat n < 2 ^ 63"
  shows "pb_get_encoded_size d env st fs src = Some (Some (of_nat (length w))) \<and>
    (\<exists>ok s. pb_encode d env fs src (pb_ostream_from_buffer n) = Some (ok, s) \<and>
       length (state s) \<le> unat n \<and> (ok \<longleftrightarrow> length w \<le> unat n) \<and>
       (if ok then state s = w \<and> bytes_written s = of_nat (length w)
        else errmsg s = Some ''stream full''))"
proof -
  have d: "does (pb_encode d env fs src) (Wire w)"
    using does_message [OF assms(1), of d fs src] unfolding assms(2) .
  have "pb_get_encoded_size d env st fs src = Some (Some (of_nat (length w)))"
    using does_sizing [OF d, of "PB_OSTREAM_SIZING st"]
    by (simp add: pb_get_encoded_size_def PB_OSTREAM_SIZING_def)
  moreover note b = buffered_from_buffer [OF assms(3)]
  have "\<exists>ok s. pb_encode d env fs src (pb_ostream_from_buffer n) = Some (ok, s) \<and>
       length (state s) \<le> unat n \<and> (ok \<longleftrightarrow> length w \<le> unat n) \<and>
       (if ok then state s = w \<and> bytes_written s = of_nat (length w)
        else errmsg s = Some ''stream full'')"
  proof (cases "length w \<le> unat n")
    case True
    with does_room [OF d b] show ?thesis
      by (intro exI [of _ True], simp add: room_from_buffer grown_def) (simp add: pb_ostream_from_buffer_def)
  next
    case False
    with does_full [OF d b] obtain p where "room (pb_ostream_from_buffer n) (length p)"
      "pb_encode d env fs src (pb_ostream_from_buffer n) =
        Some (False, (grown (pb_ostream_from_buffer n) p)\<lparr>errmsg := Some ''stream full''\<rparr>)"
      by (auto simp: room_from_buffer)
    with False show ?thesis
      by (intro exI [of _ False], simp add: room_from_buffer grown_def) (simp add: pb_ostream_from_buffer_def)
  qed
  ultimately show ?thesis by blast
qed

theorem pb_get_encoded_size_exact_witness:
  "pb_get_encoded_size 2 demo_env [] demo_fields 0x1000 = Some (Some 7) \<and>
    (\<exists>ok s. pb_encode 2 demo_env demo_fields 0x1000 (pb_ostream_from_buffer 5) = Some (ok, s) \<and>
       \<not> ok \<and> errmsg s = Some ''stream full'' \<and> length (state s) \<le> 5)"
  using pb_get_encoded_size_exact [OF demo_callbacks demo_message, of 5 "[]"] by auto

text \<open>C16:
  Delimited messages survive the wire.  What \<open>pb_encode_delimited\<close> writes for a message of less than
  4 GiB is its length and its bytes, and \<open>pb_make_string_substream\<close> opens it, on any source, as a
  substream that holds exactly the bytes of the message.
\<close>

theorem pb_encode_delimited_opens:
  assumes "callbacks_ok env cbw extw" "message_wire d env cbw extw fs src = Wire w" "length w < 2 ^ 32"
    and "holds s (string_bytes w @ bs) m"
  shows "does (pb_encode_delimited d env fs src) (Wire (string_bytes w)) \<and>
    (\<exists>sub t. pb_make_string_substream s = (Some sub, t) \<and> reached s sub w (bs @ m) \<and>
       unat (bytes_left t) = length bs)"
proof
  have "does (pb_encode d env fs src) (Wire w)"
    using does_message [OF assms(1), of d fs src] unfolding assms(2) .
  from does_submessage [of "pb_encode d env" fs src, OF this] assms(3)
  show "does (pb_encode_delimited d env fs src) (Wire (string_bytes w))"
    by (simp add: pb_encode_delimited_def [abs_def])
  show "\<exists>sub t. pb_make_string_substream s = (Some sub, t) \<and> reached s sub w (bs @ m) \<and>
       unat (bytes_left t) = length bs"
    using substream_open [OF assms(4,3)] by blast
qed

theorem pb_encode_delimited_opens_witness:
  "does (pb_encode_delimited 2 demo_env demo_fields 0x1000)
      (Wire [0x07, 0x08, 0x96, 0x01, 0x12, 0x02, 0x68, 0x69]) \<and>
    (\<exists>sub t. pb_make_string_substream
        (pb_istream_from_buffer [0x07, 0x08, 0x96, 0x01, 0x12, 0x02, 0x68, 0x69] 8 :: unit pb_istream) = (Some sub, t) \<and>
      holds sub [0x08, 0x96, 0x01, 0x12, 0x02, 0x68, 0x69] [])"
proof -
  let ?s = "pb_istream_from_buffer [0x07, 0x08, 0x96, 0x01, 0x12, 0x02, 0x68, 0x69] 8 :: unit pb_istream"
  let ?w = "[0x08, 0x96, 0x01, 0x12, 0x02, 0x68, 0x69 :: byte]"
  have eq: "string_bytes ?w = [0x07, 0x08, 0x96, 0x01, 0x12, 0x02, 0x68, 0x69]"
    by (simp add: string_bytes_def)
  have "holds ?s (string_bytes ?w @ []) []"
    unfolding eq using holds_from_buffer [of "[0x07, 0x08, 0x96, 0x01, 0x12, 0x02, 0x68, 0x69]"] by simp
  from pb_encode_delimited_opens [OF demo_callbacks demo_message _ this] show ?thesis
    unfolding eq by (auto simp: reached_def)
qed

end
