(* ===== verification/Pb_Decode.thy ===== *)
theory Pb_Decode
  imports Pb_Encode
begin

text \<open>
  The message decoder of nanopb (\<open>pb_decode.c\<close>, with \<open>PB_ENABLE_MALLOC\<close>).  The decoder reads a stream
  and writes a message in memory; pointer fields are allocated on a heap, which is the map of the
  live blocks to their sizes.  The allocator, the user's functions and the descriptor arrays are
  given by the environment.  Results are \<open>None\<close> when the recursion is deeper than the given bound or
  when the C code would call a null decoder.
\<close>

section \<open>Memory, heap and environment\<close>

text \<open>Bytes are stored one after the other, as by \<open>memcpy\<close>, \<open>memset\<close> and the loop of \<open>buf_read\<close>.\<close>

fun store :: "memory \<Rightarrow> u64 \<Rightarrow> bytes \<Rightarrow> memory" where
  "store m a [] = m"
| "store m a (v # b) = store (m(a := v)) (a + 1) b"

definition store8 :: "memory \<Rightarrow> u64 \<Rightarrow> byte \<Rightarrow> memory" where
  "store8 m a v = store m a [v]"

definition store16 :: "memory \<Rightarrow> u64 \<Rightarrow> u16 \<Rightarrow> memory" where
  "store16 m a v = store m a [ucast v, ucast (drop_bit 8 v)]"

definition store32 :: "memory \<Rightarrow> u64 \<Rightarrow> u32 \<Rightarrow> memory" where
  "store32 m a v = store m a (map (\<lambda>k. ucast (drop_bit k v)) [0, 8, 16, 24])"

definition store64 :: "memory \<Rightarrow> u64 \<Rightarrow> u64 \<Rightarrow> memory" where
  "store64 m a v = store m a (map (\<lambda>k. ucast (drop_bit k v)) [0, 8, 16, 24, 32, 40, 48, 56])"

text \<open>Loads and the loops, for evaluation.\<close>

lemma load32_code [code]:
  "load32 m a = push_bit 0 (ucast (m a)) OR push_bit 8 (ucast (m (a + 1))) OR
     push_bit 16 (ucast (m (a + 2))) OR push_bit 24 (ucast (m (a + 3)))"
proof -
  have "load m a 4 = [m a, m (a + 1), m (a + 2), m (a + 3)]"
    by (simp add: load_def upt_rec)
  then show ?thesis
    by (simp only: load32_def le_word_32 [symmetric] of_nat_unat ucast_id)
qed

lemma load64_code [code]:
  "load64 m a = push_bit 0 (ucast (m a)) OR push_bit 8 (ucast (m (a + 1))) OR
     push_bit 16 (ucast (m (a + 2))) OR push_bit 24 (ucast (m (a + 3))) OR
     push_bit 32 (ucast (m (a + 4))) OR push_bit 40 (ucast (m (a + 5))) OR
     push_bit 48 (ucast (m (a + 6))) OR push_bit 56 (ucast (m (a + 7)))"
proof -
  have "load m a 8 = [m a, m (a + 1), m (a + 2), m (a + 3), m (a + 4), m (a + 5), m (a + 6), m (a + 7)]"
    by (simp add: load_def upt_rec)
  then show ?thesis
    by (simp only: load64_def le_word_64 [symmetric] of_nat_unat ucast_id)
qed

declare search_loop.simps [code]

record world =
  memory_of :: memory
  heap :: "u64 \<rightharpoonup> u64"

abbreviation upd :: "(memory \<Rightarrow> memory) \<Rightarrow> world \<Rightarrow> world" where
  "upd f w \<equiv> w\<lparr>memory_of := f (memory_of w)\<rparr>"

text \<open>
  \<open>alloc\<close> chooses the address of a block of the given size (\<open>None\<close>: no memory).  \<open>local_count\<close> is the
  address of the local variable \<open>fixed_count_size\<close> of the activation of \<open>pb_decode_noinit\<close> that has
  the given number of levels below it.
\<close>

record 's denv =
  arrays :: "u64 \<Rightarrow> pb_field list"
  alloc :: "(u64 \<rightharpoonup> u64) \<Rightarrow> u64 \<Rightarrow> u64 option"
  local_count :: "nat \<Rightarrow> u64"
  decode_cb :: "u64 \<Rightarrow> pb_field \<Rightarrow> u64 \<Rightarrow> 's pb_istream \<Rightarrow> world \<Rightarrow> bool \<times> 's pb_istream \<times> world"
  extension_dec :: "u64 \<Rightarrow> u64 \<Rightarrow> u32 \<Rightarrow> pb_wire_type \<Rightarrow> 's pb_istream \<Rightarrow> world \<Rightarrow> bool \<times> 's pb_istream \<times> world"

type_synonym 's dresult = "(bool \<times> 's pb_istream \<times> world) option"

definition dfail :: "string \<Rightarrow> 's pb_istream \<Rightarrow> world \<Rightarrow> 's dresult" where
  "dfail msg s w = Some (False, ierror msg s, w)"

definition dseq :: "'s dresult \<Rightarrow> ('s pb_istream \<Rightarrow> world \<Rightarrow> 's dresult) \<Rightarrow> 's dresult" where
  "dseq r g = (case r of None \<Rightarrow> None | Some (False, s, w) \<Rightarrow> Some (False, s, w)
     | Some (True, s, w) \<Rightarrow> g s w)"

text \<open>\<open>realloc\<close> and \<open>free\<close>; a null pointer is allowed in both.\<close>

definition pb_realloc :: "'s denv \<Rightarrow> u64 \<Rightarrow> u64 \<Rightarrow> world \<Rightarrow> u64 option \<times> world" where
  "pb_realloc env p n w =
     (case alloc env ((heap w)(p := None)) n of
        None \<Rightarrow> (None, w)
      | Some q \<Rightarrow>
          let old = (case heap w p of None \<Rightarrow> 0 | Some k \<Rightarrow> min (unat k) (unat n))
          in (Some q, w\<lparr>memory_of := store (memory_of w) q (load (memory_of w) p old),
                        heap := (heap w)(p := None, q \<mapsto> n)\<rparr>))"

definition pb_free :: "u64 \<Rightarrow> world \<Rightarrow> world" where
  "pb_free p w = (if p = 0 then w else w\<lparr>heap := (heap w)(p := None)\<rparr>)"

definition allocate_field ::
  "'s denv \<Rightarrow> u64 \<Rightarrow> u64 \<Rightarrow> u64 \<Rightarrow> 's pb_istream \<Rightarrow> world \<Rightarrow> bool \<times> 's pb_istream \<times> world" where
  "allocate_field env data size_item size_array s w =
     (let p = load64 (memory_of w) data; check_limit = push_bit 32 1 in
      if size_item = 0 \<or> size_array = 0 then (False, ierror ''invalid size'' s, w)
      else if (size_item \<ge> check_limit \<or> size_array \<ge> check_limit) \<and> (- 1) div size_array < size_item
      then (False, ierror ''size too large'' s, w)
      else
        (case pb_realloc env p (size_array * size_item) w of
           (None, w) \<Rightarrow> (False, ierror ''realloc failed'' s, w)
         | (Some q, w) \<Rightarrow> (True, s, upd (\<lambda>m. store64 m data q) w)))"

section \<open>Decoding one value\<close>

definition pb_dec_bool :: "u64 \<Rightarrow> 's pb_istream \<Rightarrow> world \<Rightarrow> bool \<times> 's pb_istream \<times> world" where
  "pb_dec_bool dest s w =
     (case pb_decode_varint32 s of
        (None, s) \<Rightarrow> (False, s, w)
      | (Some v, s) \<Rightarrow> (True, s, upd (\<lambda>m. store8 m dest (if v \<noteq> 0 then 1 else 0)) w))"

definition pb_decode_bool :: "u64 \<Rightarrow> 's pb_istream \<Rightarrow> world \<Rightarrow> bool \<times> 's pb_istream \<times> world" where
  "pb_decode_bool dest s w = pb_dec_bool dest s w"

text \<open>The memory with the value cut to the size of the field, and the value read back from it.\<close>

definition store_signed :: "u32 \<Rightarrow> u64 \<Rightarrow> u64 \<Rightarrow> memory \<Rightarrow> (memory \<times> u64) option" where
  "store_signed sz dest v m =
     (if sz = 8 then Some (store64 m dest v, v)
      else if sz = 4 then Some (store32 m dest (ucast v), scast (ucast v :: u32))
      else if sz = 2 then Some (store16 m dest (ucast v), scast (ucast v :: u16))
      else if sz = 1 then Some (store8 m dest (ucast v), scast (ucast v :: byte))
      else None)"

definition store_unsigned :: "u32 \<Rightarrow> u64 \<Rightarrow> u64 \<Rightarrow> memory \<Rightarrow> (memory \<times> u64) option" where
  "store_unsigned sz dest v m =
     (if sz = 8 then Some (store64 m dest v, v)
      else if sz = 4 then Some (store32 m dest (ucast v), ucast (ucast v :: u32))
      else if sz = 2 then Some (store16 m dest (ucast v), ucast (ucast v :: u16))
      else if sz = 1 then Some (store8 m dest (ucast v), ucast (ucast v :: byte))
      else None)"

definition pb_dec_varint :: "pb_field \<Rightarrow> u64 \<Rightarrow> 's pb_istream \<Rightarrow> world \<Rightarrow> bool \<times> 's pb_istream \<times> world" where
  "pb_dec_varint field dest s w =
     (case pb_decode_varint s of
        (None, s) \<Rightarrow> (False, s, w)
      | (Some v, s) \<Rightarrow>
          let svalue = (if data_size field = 8 then v else scast (ucast v :: u32)) in
          (case store_signed (data_size field) dest svalue (memory_of w) of
             None \<Rightarrow> (False, ierror ''invalid data_size'' s, w)
           | Some (m, clamped) \<Rightarrow>
               if clamped \<noteq> svalue then (False, ierror ''integer too large'' s, upd (\<lambda>_. m) w)
               else (True, s, upd (\<lambda>_. m) w)))"

definition pb_dec_uvarint :: "pb_field \<Rightarrow> u64 \<Rightarrow> 's pb_istream \<Rightarrow> world \<Rightarrow> bool \<times> 's pb_istream \<times> world" where
  "pb_dec_uvarint field dest s w =
     (case pb_decode_varint s of
        (None, s) \<Rightarrow> (False, s, w)
      | (Some v, s) \<Rightarrow>
          (case store_unsigned (data_size field) dest v (memory_of w) of
             None \<Rightarrow> (False, ierror ''invalid data_size'' s, w)
           | Some (m, clamped) \<Rightarrow>
               if clamped \<noteq> v then (False, ierror ''integer too large'' s, upd (\<lambda>_. m) w)
               else (True, s, upd (\<lambda>_. m) w)))"

definition pb_dec_svarint :: "pb_field \<Rightarrow> u64 \<Rightarrow> 's pb_istream \<Rightarrow> world \<Rightarrow> bool \<times> 's pb_istream \<times> world" where
  "pb_dec_svarint field dest s w =
     (case pb_decode_svarint s of
        (None, s) \<Rightarrow> (False, s, w)
      | (Some v, s) \<Rightarrow>
          (case store_signed (data_size field) dest v (memory_of w) of
             None \<Rightarrow> (False, ierror ''invalid data_size'' s, w)
           | Some (m, clamped) \<Rightarrow>
               if clamped \<noteq> v then (False, ierror ''integer too large'' s, upd (\<lambda>_. m) w)
               else (True, s, upd (\<lambda>_. m) w)))"

definition pb_dec_fixed32 :: "u64 \<Rightarrow> 's pb_istream \<Rightarrow> world \<Rightarrow> bool \<times> 's pb_istream \<times> world" where
  "pb_dec_fixed32 dest s w =
     (case pb_decode_fixed32 s of
        (None, s) \<Rightarrow> (False, s, w)
      | (Some v, s) \<Rightarrow> (True, s, upd (\<lambda>m. store32 m dest v) w))"

definition pb_dec_fixed64 :: "u64 \<Rightarrow> 's pb_istream \<Rightarrow> world \<Rightarrow> bool \<times> 's pb_istream \<times> world" where
  "pb_dec_fixed64 dest s w =
     (case pb_decode_fixed64 s of
        (None, s) \<Rightarrow> (False, s, w)
      | (Some v, s) \<Rightarrow> (True, s, upd (\<lambda>m. store64 m dest v) w))"

text \<open>\<open>pb_read\<close> into memory.\<close>

definition read_into :: "u64 \<Rightarrow> u64 \<Rightarrow> 's pb_istream \<Rightarrow> world \<Rightarrow> bool \<times> 's pb_istream \<times> world" where
  "read_into dest n s w =
     (case pb_read n s of
        (None, s) \<Rightarrow> (False, s, w)
      | (Some b, s) \<Rightarrow> (True, s, upd (\<lambda>m. store m dest b) w))"

definition pb_dec_bytes ::
  "'s denv \<Rightarrow> pb_field \<Rightarrow> u64 \<Rightarrow> 's pb_istream \<Rightarrow> world \<Rightarrow> bool \<times> 's pb_istream \<times> world" where
  "pb_dec_bytes env field dest s w =
     (case pb_decode_varint32 s of
        (None, s) \<Rightarrow> (False, s, w)
      | (Some n, s) \<Rightarrow>
          if n > PB_SIZE_MAX then (False, ierror ''bytes overflow'' s, w)
          else
            let alloc_size = PB_BYTES_ARRAY_T_ALLOCSIZE n in
            if ucast n > alloc_size then (False, ierror ''size too large'' s, w)
            else
              (case (if PB_ATYPE (type_of field) = PB_ATYPE_POINTER
                     then allocate_field env dest alloc_size 1 s w
                     else if alloc_size > ucast (data_size field) then (False, ierror ''bytes overflow'' s, w)
                     else (True, s, w)) of
                 (False, s, w) \<Rightarrow> (False, s, w)
               | (True, s, w) \<Rightarrow>
                   let bdest = (if PB_ATYPE (type_of field) = PB_ATYPE_POINTER
                                then load64 (memory_of w) dest else dest)
                   in read_into (bdest + 4) (ucast n) s (upd (\<lambda>m. store32 m bdest n) w)))"

text \<open>\<open>size + 1\<close> is computed in 32 bits before it is assigned to \<open>alloc_size\<close>.\<close>

definition pb_dec_string ::
  "'s denv \<Rightarrow> pb_field \<Rightarrow> u64 \<Rightarrow> 's pb_istream \<Rightarrow> world \<Rightarrow> bool \<times> 's pb_istream \<times> world" where
  "pb_dec_string env field dest s w =
     (case pb_decode_varint32 s of
        (None, s) \<Rightarrow> (False, s, w)
      | (Some n, s) \<Rightarrow>
          let alloc_size = ucast (n + 1) :: u64 in
          if alloc_size < ucast n then (False, ierror ''size too large'' s, w)
          else
            (case (if PB_ATYPE (type_of field) = PB_ATYPE_POINTER
                   then allocate_field env dest alloc_size 1 s w
                   else if alloc_size > ucast (data_size field) then (False, ierror ''string overflow'' s, w)
                   else (True, s, w)) of
               (False, s, w) \<Rightarrow> (False, s, w)
             | (True, s, w) \<Rightarrow>
                 let dest = (if PB_ATYPE (type_of field) = PB_ATYPE_POINTER
                             then load64 (memory_of w) dest else dest)
                 in (case read_into dest (ucast n) s w of
                       (status, s, w) \<Rightarrow> (status, s, upd (\<lambda>m. store8 m (dest + ucast n) 0) w))))"

definition pb_dec_fixed_length_bytes ::
  "pb_field \<Rightarrow> u64 \<Rightarrow> 's pb_istream \<Rightarrow> world \<Rightarrow> bool \<times> 's pb_istream \<times> world" where
  "pb_dec_fixed_length_bytes field dest s w =
     (case pb_decode_varint32 s of
        (None, s) \<Rightarrow> (False, s, w)
      | (Some n, s) \<Rightarrow>
          if n > PB_SIZE_MAX then (False, ierror ''bytes overflow'' s, w)
          else if n = 0 then
            (True, s, upd (\<lambda>m. store m dest (replicate (unat (data_size field)) 0)) w)
          else if n \<noteq> data_size field then (False, ierror ''incorrect fixed length bytes size'' s, w)
          else read_into dest (ucast (data_size field)) s w)"

section \<open>Default values\<close>

text \<open>An iterator for an extension: \<open>pb_extension_t\<close> has \<open>dest\<close> at 8 and \<open>found\<close> at 24.\<close>

definition iter_from_extension :: "'s denv \<Rightarrow> u64 \<Rightarrow> memory \<Rightarrow> pb_field_iter" where
  "iter_from_extension env extension m =
     (let fs = arrays env (load64 m (load64 m extension + 16));
          dest = load64 m (extension + 8);
          iter = (snd (pb_field_iter_begin fs dest))\<lparr>pData := dest, pSize := extension + 24\<rparr>
      in if PB_ATYPE (type_of (field_at fs 0)) = PB_ATYPE_POINTER
         then iter\<lparr>pData := extension + 8\<rparr> else iter)"

text \<open>\<open>rec\<close> is the recursive call.\<close>

primrec default_extensions ::
  "nat \<Rightarrow> (pb_field_iter \<Rightarrow> world \<Rightarrow> world option) \<Rightarrow> 's denv \<Rightarrow> u64 \<Rightarrow> world \<Rightarrow> world option" where
  "default_extensions 0 rec env ext w = (if ext = 0 then Some w else None)"
| "default_extensions (Suc n) rec env ext w =
     (if ext = 0 then Some w
      else
        let w = upd (\<lambda>m. store8 m (ext + 24) 0) w in
        (case rec (iter_from_extension env ext (memory_of w)) w of
           None \<Rightarrow> None
         | Some w \<Rightarrow> default_extensions n rec env (load64 (memory_of w) (ext + 16)) w))"

fun each_field ::
  "(pb_field_iter \<Rightarrow> world \<Rightarrow> world option) \<Rightarrow> pb_field_iter list \<Rightarrow> world \<Rightarrow> world option" where
  "each_field rec [] w = Some w"
| "each_field rec (iter # iters) w =
     (case rec iter w of None \<Rightarrow> None | Some w \<Rightarrow> each_field rec iters w)"

primrec pb_field_set_to_default :: "nat \<Rightarrow> 's denv \<Rightarrow> pb_field_iter \<Rightarrow> world \<Rightarrow> world option" where
  "pb_field_set_to_default 0 env iter w = None"
| "pb_field_set_to_default (Suc d) env iter w =
     (let f = cur iter; l = PB_LTYPE (type_of f); h = PB_HTYPE (type_of f); a = PB_ATYPE (type_of f) in
      if l = PB_LTYPE_EXTENSION then
        default_extensions d (pb_field_set_to_default d env) env (load64 (memory_of w) (pData iter)) w
      else if a = PB_ATYPE_STATIC then
        let no_data = (\<not> (h = PB_HTYPE_OPTIONAL \<and> pSize iter \<noteq> pData iter) \<and>
                       (h = PB_HTYPE_REPEATED \<or> h = PB_HTYPE_ONEOF));
            w = (if h = PB_HTYPE_OPTIONAL \<and> pSize iter \<noteq> pData iter
                 then upd (\<lambda>m. store8 m (pSize iter) 0) w
                 else if h = PB_HTYPE_REPEATED \<or> h = PB_HTYPE_ONEOF
                 then upd (\<lambda>m. store32 m (pSize iter) 0) w else w)
        in if no_data then Some w
           else if l = PB_LTYPE_SUBMESSAGE then
             each_field (pb_field_set_to_default d env)
               (all_fields (arrays env (ptr f)) (pData iter)) w
           else if ptr f \<noteq> 0 then
             Some (upd (\<lambda>m. store m (pData iter) (load m (ptr f) (unat (data_size f)))) w)
           else Some (upd (\<lambda>m. store m (pData iter) (replicate (unat (data_size f)) 0)) w)
      else if a = PB_ATYPE_POINTER then
        let w = upd (\<lambda>m. store64 m (pData iter) 0) w
        in Some (if h = PB_HTYPE_REPEATED \<or> h = PB_HTYPE_ONEOF
                 then upd (\<lambda>m. store32 m (pSize iter) 0) w else w)
      else Some w)"

definition pb_message_set_to_defaults :: "nat \<Rightarrow> 's denv \<Rightarrow> pb_field list \<Rightarrow> u64 \<Rightarrow> world \<Rightarrow> world option" where
  "pb_message_set_to_defaults d env fs dest w =
     each_field (pb_field_set_to_default d env) (all_fields fs dest) w"

section \<open>Releasing a message\<close>

primrec release_items :: "nat \<Rightarrow> u64 \<Rightarrow> (u64 \<Rightarrow> world \<Rightarrow> world option) \<Rightarrow> u64 \<Rightarrow> world \<Rightarrow> world option" where
  "release_items 0 step rel item w = Some w"
| "release_items (Suc n) step rel item w =
     (case rel item w of None \<Rightarrow> None | Some w \<Rightarrow> release_items n step rel (item + step) w)"

primrec free_items :: "nat \<Rightarrow> u64 \<Rightarrow> world \<Rightarrow> world" where
  "free_items 0 item w = w"
| "free_items (Suc n) item w =
     free_items n (item + 8) (upd (\<lambda>m. store64 m item 0) (pb_free (load64 (memory_of w) item) w))"

primrec release_extensions ::
  "nat \<Rightarrow> (pb_field_iter \<Rightarrow> world \<Rightarrow> world option) \<Rightarrow> 's denv \<Rightarrow> u64 \<Rightarrow> world \<Rightarrow> world option" where
  "release_extensions 0 rec env ext w = (if ext = 0 then Some w else None)"
| "release_extensions (Suc n) rec env ext w =
     (if ext = 0 then Some w
      else (case rec (iter_from_extension env ext (memory_of w)) w of
              None \<Rightarrow> None
            | Some w \<Rightarrow> release_extensions n rec env (load64 (memory_of w) (ext + 16)) w))"

primrec pb_release_single_field :: "nat \<Rightarrow> 's denv \<Rightarrow> pb_field_iter \<Rightarrow> world \<Rightarrow> world option" where
  "pb_release_single_field 0 env iter w = None"
| "pb_release_single_field (Suc d) env iter w =
     (let f = cur iter; l = PB_LTYPE (type_of f); h = PB_HTYPE (type_of f); a = PB_ATYPE (type_of f);
          m = memory_of w in
      if h = PB_HTYPE_ONEOF \<and> load32 m (pSize iter) \<noteq> tag f then Some w
      else
        (case (if l = PB_LTYPE_EXTENSION then
                 release_extensions d (pb_release_single_field d env) env (load64 m (pData iter)) w
               else if l = PB_LTYPE_SUBMESSAGE \<and> a \<noteq> PB_ATYPE_CALLBACK then
                 let item = (if a = PB_ATYPE_POINTER then load64 m (pData iter) else pData iter);
                     count = (if h = PB_HTYPE_REPEATED then
                                let c = (if a = PB_ATYPE_STATIC \<and> pSize iter = pData iter
                                         then array_size f else load32 m (pSize iter))
                                in if a = PB_ATYPE_STATIC \<and> c > array_size f then array_size f else c
                              else 1)
                 in if item \<noteq> 0 then
                      release_items (unat count) (ucast (data_size f))
                        (\<lambda>item w. if item = 0 then Some w
                           else each_field (pb_release_single_field d env)
                                  (all_fields (arrays env (ptr f)) item) w) item w
                    else Some w
               else Some w) of
           None \<Rightarrow> None
         | Some w \<Rightarrow>
             if a = PB_ATYPE_POINTER then
               let w = (if h = PB_HTYPE_REPEATED \<and> (l = PB_LTYPE_STRING \<or> l = PB_LTYPE_BYTES)
                        then free_items (unat (load32 (memory_of w) (pSize iter)))
                               (load64 (memory_of w) (pData iter)) w else w);
                   w = (if h = PB_HTYPE_REPEATED then upd (\<lambda>m. store32 m (pSize iter) 0) w else w);
                   w = pb_free (load64 (memory_of w) (pData iter)) w
               in Some (upd (\<lambda>m. store64 m (pData iter) 0) w)
             else Some w))"

definition pb_release :: "nat \<Rightarrow> 's denv \<Rightarrow> pb_field list \<Rightarrow> u64 \<Rightarrow> world \<Rightarrow> world option" where
  "pb_release d env fs dest w =
     (if dest = 0 then Some w else each_field (pb_release_single_field d env) (all_fields fs dest) w)"

text \<open>The result, with the iterator back on the field, and the iterator.\<close>

definition pb_release_union_field ::
  "nat \<Rightarrow> 's denv \<Rightarrow> pb_field_iter \<Rightarrow> 's pb_istream \<Rightarrow> world \<Rightarrow>
    (bool \<times> pb_field_iter \<times> 's pb_istream \<times> world) option" where
  "pb_release_union_field d env iter s w =
     (let old_tag = load32 (memory_of w) (pSize iter); new_tag = tag (cur iter) in
      if old_tag = 0 \<or> old_tag = new_tag then Some (True, iter, s, w)
      else
        (case pb_field_iter_find old_tag iter of
           None \<Rightarrow> None
         | Some (False, iter) \<Rightarrow> Some (False, iter, ierror ''invalid union tag'' s, w)
         | Some (True, iter) \<Rightarrow>
             (case pb_release_single_field d env iter w of
                None \<Rightarrow> None
              | Some w \<Rightarrow>
                  (case pb_field_iter_find new_tag iter of
                     None \<Rightarrow> None
                   | Some (False, iter) \<Rightarrow> Some (False, iter, ierror ''iterator error'' s, w)
                   | Some (True, iter) \<Rightarrow> Some (True, iter, s, w)))))"

section \<open>Decoding one field\<close>

text \<open>The recursive calls: \<open>dec True\<close> is \<open>pb_decode\<close> and \<open>dec False\<close> is \<open>pb_decode_noinit\<close>.\<close>

type_synonym 's decoder = "pb_field list \<Rightarrow> u64 \<Rightarrow> 's pb_istream \<Rightarrow> world \<Rightarrow> 's dresult"

definition pb_dec_submessage ::
  "(bool \<Rightarrow> 's decoder) \<Rightarrow> 's denv \<Rightarrow> pb_field \<Rightarrow> u64 \<Rightarrow> 's pb_istream \<Rightarrow> world \<Rightarrow> 's dresult" where
  "pb_dec_submessage dec env field dest s w =
     (case pb_make_string_substream s of
        (None, s) \<Rightarrow> Some (False, s, w)
      | (Some substream, s) \<Rightarrow>
          if ptr field = 0 then dfail ''invalid field descriptor'' s w
          else
            (case dec (PB_HTYPE (type_of field) = PB_HTYPE_REPEATED) (arrays env (ptr field)) dest substream w of
               None \<Rightarrow> None
             | Some (status, substream, w) \<Rightarrow>
                 (case pb_close_string_substream s substream of
                    (False, s) \<Rightarrow> Some (False, s, w)
                  | (True, s) \<Rightarrow> Some (status, s, w))))"

definition PB_DECODERS ::
  "(bool \<Rightarrow> 's decoder) \<Rightarrow> 's denv \<Rightarrow> pb_ltype \<Rightarrow> pb_field \<Rightarrow> u64 \<Rightarrow> 's pb_istream \<Rightarrow> world \<Rightarrow> 's dresult" where
  "PB_DECODERS dec env l field dest s w =
     (case l of
        PB_LTYPE_BOOL \<Rightarrow> Some (pb_dec_bool dest s w)
      | PB_LTYPE_VARINT \<Rightarrow> Some (pb_dec_varint field dest s w)
      | PB_LTYPE_UVARINT \<Rightarrow> Some (pb_dec_uvarint field dest s w)
      | PB_LTYPE_SVARINT \<Rightarrow> Some (pb_dec_svarint field dest s w)
      | PB_LTYPE_FIXED32 \<Rightarrow> Some (pb_dec_fixed32 dest s w)
      | PB_LTYPE_FIXED64 \<Rightarrow> Some (pb_dec_fixed64 dest s w)
      | PB_LTYPE_BYTES \<Rightarrow> Some (pb_dec_bytes env field dest s w)
      | PB_LTYPE_STRING \<Rightarrow> Some (pb_dec_string env field dest s w)
      | PB_LTYPE_SUBMESSAGE \<Rightarrow> pb_dec_submessage dec env field dest s w
      | PB_LTYPE_FIXED_LENGTH_BYTES \<Rightarrow> Some (pb_dec_fixed_length_bytes field dest s w)
      | PB_LTYPE_EXTENSION \<Rightarrow> None
      | PB_LTYPE_UNDECLARED \<Rightarrow> None)"

text \<open>\<open>pItem\<close> for the entry with the index \<open>*size\<close>: the product is computed in 32 bits.\<close>

definition entry_at :: "u64 \<Rightarrow> pb_field \<Rightarrow> u32 \<Rightarrow> u64" where
  "entry_at data field n = data + ucast (data_size field * n)"

text \<open>The loops over packed arrays; nothing but the substream bounds them.\<close>

partial_function (option) static_packed ::
  "('s pb_istream \<Rightarrow> u64 \<Rightarrow> world \<Rightarrow> 's dresult) \<Rightarrow> pb_field_iter \<Rightarrow> 's pb_istream \<Rightarrow> world \<Rightarrow> 's dresult" where
  "static_packed func iter s w =
     (let n = load32 (memory_of w) (pSize iter) in
      if bytes_left s > 0 \<and> n < array_size (cur iter) then
        (case func s (entry_at (pData iter) (cur iter) n) w of
           None \<Rightarrow> None
         | Some (ok, s, w) \<Rightarrow>
             if \<not> ok then Some (False, s, w)
             else static_packed func iter s
               (upd (\<lambda>m. store32 m (pSize iter) (load32 m (pSize iter) + 1)) w))
      else Some (True, s, w))"

declare static_packed.simps [code]

definition decode_static_field ::
  "nat \<Rightarrow> (bool \<Rightarrow> 's decoder) \<Rightarrow> 's denv \<Rightarrow> pb_wire_type \<Rightarrow> pb_field_iter \<Rightarrow> 's pb_istream \<Rightarrow> world \<Rightarrow> 's dresult" where
  "decode_static_field d dec env wire_type iter s w =
     (let f = cur iter; l = PB_LTYPE (type_of f); func = PB_DECODERS dec env l f in
      case PB_HTYPE (type_of f) of
        PB_HTYPE_REQUIRED \<Rightarrow> func (pData iter) s w
      | PB_HTYPE_OPTIONAL \<Rightarrow>
          func (pData iter) s
            (if pSize iter \<noteq> pData iter then upd (\<lambda>m. store8 m (pSize iter) 1) w else w)
      | PB_HTYPE_REPEATED \<Rightarrow>
          if wire_type = PB_WT_STRING \<and> l \<le> PB_LTYPE_LAST_PACKABLE then
            (case pb_make_string_substream s of
               (None, s) \<Rightarrow> Some (False, s, w)
             | (Some substream, s) \<Rightarrow>
                 (case static_packed (\<lambda>s item w. func item s w) iter substream w of
                    None \<Rightarrow> None
                  | Some (status, substream, w) \<Rightarrow>
                      if bytes_left substream \<noteq> 0 then dfail ''array overflow'' s w
                      else
                        (case pb_close_string_substream s substream of
                           (False, s) \<Rightarrow> Some (False, s, w)
                         | (True, s) \<Rightarrow> Some (status, s, w))))
          else
            let n = load32 (memory_of w) (pSize iter);
                item = entry_at (pData iter) f n;
                w = upd (\<lambda>m. store32 m (pSize iter) (n + 1)) w
            in if n \<ge> array_size f then dfail ''array overflow'' s w
               else func item s w
      | PB_HTYPE_ONEOF \<Rightarrow>
          let w = upd (\<lambda>m. store32 m (pSize iter) (tag f)) w in
          if l = PB_LTYPE_SUBMESSAGE then
            (case pb_message_set_to_defaults d env (arrays env (ptr f)) (pData iter)
                    (upd (\<lambda>m. store m (pData iter) (replicate (unat (data_size f)) 0)) w) of
               None \<Rightarrow> None
             | Some w \<Rightarrow> func (pData iter) s w)
          else func (pData iter) s w)"

text \<open>Clearing a newly allocated item.\<close>

definition initialize_pointer_field ::
  "nat \<Rightarrow> 's denv \<Rightarrow> u64 \<Rightarrow> pb_field_iter \<Rightarrow> world \<Rightarrow> world option" where
  "initialize_pointer_field d env item iter w =
     (let f = cur iter; l = PB_LTYPE (type_of f) in
      if l = PB_LTYPE_STRING \<or> l = PB_LTYPE_BYTES then Some (upd (\<lambda>m. store64 m item 0) w)
      else if l = PB_LTYPE_SUBMESSAGE then
        pb_message_set_to_defaults d env (arrays env (ptr f)) item
          (upd (\<lambda>m. store m item (replicate (unat (data_size f)) 0)) w)
      else Some w)"

text \<open>
  Making room for the next entry of a packed array on the heap, with the number of entries allocated
  so far.  With items of size zero the C code would divide by zero.
\<close>

definition grow_array ::
  "'s denv \<Rightarrow> pb_field_iter \<Rightarrow> u64 \<Rightarrow> 's pb_istream \<Rightarrow> world \<Rightarrow> (u64 \<times> bool \<times> 's pb_istream \<times> world) option" where
  "grow_array env iter allocated_size s w =
     (let f = cur iter in
      if \<not> ucast (load32 (memory_of w) (pSize iter)) + 1 > allocated_size then Some (allocated_size, True, s, w)
      else if data_size f = 0 then None
      else
        let remain = (bytes_left s - 1) div ucast (data_size f) + 1;
            allocated_size = (if remain < ucast PB_SIZE_MAX - allocated_size
                              then allocated_size + remain else allocated_size + 1)
        in Some (allocated_size, allocate_field env (pData iter) (ucast (data_size f)) allocated_size s w))"

text \<open>
  The loop: the status, the parent stream (whose message is set when there are too many entries) and
  the substream.
\<close>

partial_function (option) pointer_packed ::
  "('s pb_istream \<Rightarrow> u64 \<Rightarrow> world \<Rightarrow> 's dresult) \<Rightarrow> (u64 \<Rightarrow> world \<Rightarrow> world option) \<Rightarrow> 's denv \<Rightarrow> pb_field_iter \<Rightarrow>
    u64 \<Rightarrow> 's pb_istream \<Rightarrow> 's pb_istream \<Rightarrow> world \<Rightarrow> (bool \<times> 's pb_istream \<times> 's pb_istream \<times> world) option" where
  "pointer_packed func init env iter allocated_size stream s w =
     (if bytes_left s = 0 then Some (True, stream, s, w)
      else if load32 (memory_of w) (pSize iter) = PB_SIZE_MAX then
        Some (False, stream\<lparr>ierrmsg := Some ''too many array entries''\<rparr>, s, w)
      else
        (case grow_array env iter allocated_size s w of
           None \<Rightarrow> None
         | Some (allocated_size, ok, s, w) \<Rightarrow>
             if \<not> ok then Some (False, stream, s, w)
             else
               let item = entry_at (load64 (memory_of w) (pData iter)) (cur iter) (load32 (memory_of w) (pSize iter)) in
               (case init item w of
                  None \<Rightarrow> None
                | Some w \<Rightarrow>
                    (case func s item w of
                       None \<Rightarrow> None
                     | Some (ok, s, w) \<Rightarrow>
                         if \<not> ok then Some (False, stream, s, w)
                         else pointer_packed func init env iter allocated_size stream s
                           (upd (\<lambda>m. store32 m (pSize iter) (load32 m (pSize iter) + 1)) w)))))"

declare pointer_packed.simps [code]

definition decode_pointer_field ::
  "nat \<Rightarrow> (bool \<Rightarrow> 's decoder) \<Rightarrow> 's denv \<Rightarrow> pb_wire_type \<Rightarrow> pb_field_iter \<Rightarrow> 's pb_istream \<Rightarrow> world \<Rightarrow> 's dresult" where
  "decode_pointer_field d dec env wire_type iter s w =
     (let f = cur iter; l = PB_LTYPE (type_of f); h = PB_HTYPE (type_of f);
          func = PB_DECODERS dec env l f in
      if h \<noteq> PB_HTYPE_REPEATED then
        (case (if l = PB_LTYPE_SUBMESSAGE \<and> load64 (memory_of w) (pData iter) \<noteq> 0
               then pb_release_single_field d env iter w else Some w) of
           None \<Rightarrow> None
         | Some w \<Rightarrow>
             let w = (if h = PB_HTYPE_ONEOF then upd (\<lambda>m. store32 m (pSize iter) (tag f)) w else w) in
             if l = PB_LTYPE_STRING \<or> l = PB_LTYPE_BYTES then func (pData iter) s w
             else
               (case allocate_field env (pData iter) (ucast (data_size f)) 1 s w of
                  (False, s, w) \<Rightarrow> Some (False, s, w)
                | (True, s, w) \<Rightarrow>
                    (case initialize_pointer_field d env (load64 (memory_of w) (pData iter)) iter w of
                       None \<Rightarrow> None
                     | Some w \<Rightarrow> func (load64 (memory_of w) (pData iter)) s w)))
      else if wire_type = PB_WT_STRING \<and> l \<le> PB_LTYPE_LAST_PACKABLE then
        (case pb_make_string_substream s of
           (None, s) \<Rightarrow> Some (False, s, w)
         | (Some substream, s) \<Rightarrow>
             (case pointer_packed (\<lambda>s item w. func item s w) (\<lambda>item w. initialize_pointer_field d env item iter w)
                     env iter (ucast (load32 (memory_of w) (pSize iter))) s substream w of
                None \<Rightarrow> None
              | Some (status, s, substream, w) \<Rightarrow>
                  (case pb_close_string_substream s substream of
                     (False, s) \<Rightarrow> Some (False, s, w)
                   | (True, s) \<Rightarrow> Some (status, s, w))))
      else
        let n = load32 (memory_of w) (pSize iter) in
        if n = PB_SIZE_MAX then dfail ''too many array entries'' s w
        else
          (case allocate_field env (pData iter) (ucast (data_size f)) (ucast (n + 1)) s w of
             (False, s, w) \<Rightarrow> Some (False, s, w)
           | (True, s, w) \<Rightarrow>
               let item = entry_at (load64 (memory_of w) (pData iter)) f (load32 (memory_of w) (pSize iter));
                   w = upd (\<lambda>m. store32 m (pSize iter) (load32 m (pSize iter) + 1)) w
               in (case initialize_pointer_field d env item iter w of
                     None \<Rightarrow> None
                   | Some w \<Rightarrow> func item s w)))"

text \<open>
  \<open>pCallback->funcs.decode(&substream, iter->pos, arg)\<close>: the pointer is read again at every call.  The
  loop calls the user's function until it has read the whole string.
\<close>

definition call_decode ::
  "'s denv \<Rightarrow> pb_field_iter \<Rightarrow> 's pb_istream \<Rightarrow> world \<Rightarrow> 's dresult" where
  "call_decode env iter s w =
     (let fn = load64 (memory_of w) (pData iter) in
      if fn = 0 then None else Some (decode_cb env fn (cur iter) (pData iter + 8) s w))"

partial_function (option) callback_loop ::
  "('s pb_istream \<Rightarrow> world \<Rightarrow> 's dresult) \<Rightarrow> 's pb_istream \<Rightarrow> world \<Rightarrow> 's dresult" where
  "callback_loop cb s w =
     (case cb s w of
        None \<Rightarrow> None
      | Some (ok, s, w) \<Rightarrow>
          if \<not> ok then Some (False, s, w)
          else if bytes_left s \<noteq> 0 then callback_loop cb s w
          else Some (True, s, w))"

declare callback_loop.simps [code]

definition decode_callback_field ::
  "'s denv \<Rightarrow> pb_wire_type \<Rightarrow> pb_field_iter \<Rightarrow> 's pb_istream \<Rightarrow> world \<Rightarrow> 's dresult" where
  "decode_callback_field env wire_type iter s w =
     (if pData iter = 0 \<or> load64 (memory_of w) (pData iter) = 0 then
        (case pb_skip_field wire_type s of (ok, s) \<Rightarrow> Some (ok, s, w))
      else if wire_type = PB_WT_STRING then
        (case pb_make_string_substream s of
           (None, s) \<Rightarrow> Some (False, s, w)
         | (Some substream, s) \<Rightarrow>
             (case callback_loop (call_decode env iter) substream w of
                None \<Rightarrow> None
              | Some (False, substream, w) \<Rightarrow> dfail ''callback failed'' s w
              | Some (True, substream, w) \<Rightarrow>
                  (case pb_close_string_substream s substream of (ok, s) \<Rightarrow> Some (ok, s, w))))
      else
        (case read_raw_value wire_type 10 s of
           (None, s) \<Rightarrow> Some (False, s, w)
         | (Some b, s) \<Rightarrow>
             map_option (\<lambda>(ok, substream, w). (ok, s, w))
               (call_decode env iter (pb_istream_from_buffer b (of_nat (length b))) w)))"

text \<open>The iterator is returned too: releasing a union moves it away and back.\<close>

definition decode_field ::
  "nat \<Rightarrow> (bool \<Rightarrow> 's decoder) \<Rightarrow> 's denv \<Rightarrow> pb_wire_type \<Rightarrow> pb_field_iter \<Rightarrow> 's pb_istream \<Rightarrow> world \<Rightarrow>
    (bool \<times> pb_field_iter \<times> 's pb_istream \<times> world) option" where
  "decode_field d dec env wire_type iter s w =
     (case (if PB_HTYPE (type_of (cur iter)) = PB_HTYPE_ONEOF then pb_release_union_field d env iter s w
            else Some (True, iter, s, w)) of
        None \<Rightarrow> None
      | Some (False, iter, s, w) \<Rightarrow> Some (False, iter, s, w)
      | Some (True, iter, s, w) \<Rightarrow>
          map_option (\<lambda>(ok, s, w). (ok, iter, s, w))
            (case PB_ATYPE (type_of (cur iter)) of
               PB_ATYPE_STATIC \<Rightarrow> decode_static_field d dec env wire_type iter s w
             | PB_ATYPE_POINTER \<Rightarrow> decode_pointer_field d dec env wire_type iter s w
             | PB_ATYPE_CALLBACK \<Rightarrow> decode_callback_field env wire_type iter s w
             | PB_ATYPE_UNDECLARED \<Rightarrow> dfail ''invalid field type'' s w))"

definition default_extension_decoder ::
  "nat \<Rightarrow> (bool \<Rightarrow> 's decoder) \<Rightarrow> 's denv \<Rightarrow> u64 \<Rightarrow> u32 \<Rightarrow> pb_wire_type \<Rightarrow> 's pb_istream \<Rightarrow> world \<Rightarrow> 's dresult" where
  "default_extension_decoder d dec env ext wanted_tag wire_type s w =
     (let m = memory_of w; field = field_at (arrays env (load64 m (load64 m ext + 16))) 0 in
      if tag field \<noteq> wanted_tag then Some (True, s, w)
      else
        map_option (\<lambda>(ok, iter, s, w). (ok, s, w))
          (decode_field d dec env wire_type (iter_from_extension env ext m) s
             (upd (\<lambda>m. store8 m (ext + 24) 1) w)))"

primrec extension_decoders ::
  "nat \<Rightarrow> nat \<Rightarrow> (bool \<Rightarrow> 's decoder) \<Rightarrow> 's denv \<Rightarrow> u64 \<Rightarrow> u32 \<Rightarrow> pb_wire_type \<Rightarrow> u64 \<Rightarrow>
    's pb_istream \<Rightarrow> world \<Rightarrow> 's dresult" where
  "extension_decoders 0 d dec env ext wanted_tag wire_type left s w =
     (if ext \<noteq> 0 \<and> left = bytes_left s then None else Some (True, s, w))"
| "extension_decoders (Suc n) d dec env ext wanted_tag wire_type left s w =
     (if ext \<noteq> 0 \<and> left = bytes_left s then
        let fn = load64 (memory_of w) (load64 (memory_of w) ext) in
        dseq (if fn \<noteq> 0 then Some (extension_dec env fn ext wanted_tag wire_type s w)
              else default_extension_decoder d dec env ext wanted_tag wire_type s w)
          (\<lambda>s w. extension_decoders n d dec env (load64 (memory_of w) (ext + 16)) wanted_tag wire_type left s w)
      else Some (True, s, w))"

definition decode_extension ::
  "nat \<Rightarrow> (bool \<Rightarrow> 's decoder) \<Rightarrow> 's denv \<Rightarrow> u32 \<Rightarrow> pb_wire_type \<Rightarrow> pb_field_iter \<Rightarrow> 's pb_istream \<Rightarrow> world \<Rightarrow> 's dresult" where
  "decode_extension d dec env wanted_tag wire_type iter s w =
     extension_decoders d d dec env (load64 (memory_of w) (pData iter)) wanted_tag wire_type (bytes_left s) s w"

section \<open>Decoding messages\<close>

text \<open>The variables of \<open>pb_decode_noinit\<close>; \<open>fixed_field\<close> is the position of \<open>fixed_count_field\<close>.\<close>

record 's locals =
  strm :: "'s pb_istream"
  wrld :: world
  it :: pb_field_iter
  range_start :: u32
  fixed_field :: "nat option"
  fields_seen :: "u32 list"

datatype 's outcome = Next "'s locals" | Stop "'s locals" | Return bool "'s pb_istream" world

definition PB_MAX_REQUIRED_FIELDS :: u32 where
  "PB_MAX_REQUIRED_FIELDS = 64"

text \<open>\<open>fixed_count_field != NULL && fixed_count_size != fixed_count_field->array_size\<close>\<close>

definition fixed_incomplete :: "u64 \<Rightarrow> 's locals \<Rightarrow> bool" where
  "fixed_incomplete count_addr v =
     (case fixed_field v of
        None \<Rightarrow> False
      | Some i \<Rightarrow> load32 (memory_of (wrld v)) count_addr \<noteq> array_size (field_at (start (it v)) i))"

text \<open>
  A field with the tag was found: the bookkeeping for fixed-count arrays and required fields (\<open>None\<close>:
  the previous fixed-count array is incomplete), and the rest of the loop body.
\<close>

definition enter_field :: "u64 \<Rightarrow> 's locals \<Rightarrow> 's locals option" where
  "enter_field count_addr v =
     (let i = it v;
          fixed = (PB_HTYPE (type_of (cur i)) = PB_HTYPE_REPEATED \<and> pSize i = pData i);
          new = (fixed \<and> fixed_field v \<noteq> Some (pos i)) in
      if new \<and> fixed_incomplete count_addr v then None
      else
        let v = (if new then v\<lparr>fixed_field := Some (pos i), wrld := upd (\<lambda>m. store32 m count_addr 0) (wrld v)\<rparr>
                 else v);
            v = (if fixed then v\<lparr>it := i\<lparr>pSize := count_addr\<rparr>\<rparr> else v);
            k = required_field_index i
        in Some (if PB_HTYPE (type_of (cur i)) = PB_HTYPE_REQUIRED \<and> k < PB_MAX_REQUIRED_FIELDS
                 then v\<lparr>fields_seen := (fields_seen v)[unat (drop_bit 5 k) :=
                        fields_seen v ! unat (drop_bit 5 k) OR push_bit (unat (k AND 31)) 1]\<rparr>
                 else v))"

definition decode_known ::
  "nat \<Rightarrow> (bool \<Rightarrow> 's decoder) \<Rightarrow> 's denv \<Rightarrow> pb_wire_type \<Rightarrow> 's locals \<Rightarrow> 's outcome option" where
  "decode_known d dec env wire_type v =
     (case enter_field (local_count env d) v of
        None \<Rightarrow> Some (Return False (ierror ''wrong size for fixed count field'' (strm v)) (wrld v))
      | Some v \<Rightarrow>
          (case decode_field d dec env wire_type (it v) (strm v) (wrld v) of
             None \<Rightarrow> None
           | Some (False, i, s, w) \<Rightarrow> Some (Return False s w)
           | Some (True, i, s, w) \<Rightarrow> Some (Next (v\<lparr>it := i, strm := s, wrld := w\<rparr>))))"

text \<open>No field has the tag: extensions, then skipping.\<close>

definition decode_unknown ::
  "nat \<Rightarrow> (bool \<Rightarrow> 's decoder) \<Rightarrow> 's denv \<Rightarrow> u32 \<Rightarrow> pb_wire_type \<Rightarrow> 's locals \<Rightarrow> 's outcome option" where
  "decode_unknown d dec env wanted_tag wire_type v =
     (case (if wanted_tag \<ge> range_start v then
              (case find_extension_field (it v) of
                 None \<Rightarrow> None
               | Some (found, i) \<Rightarrow>
                   let v = v\<lparr>it := i, range_start := (if found then tag (cur i) else - 1)\<rparr> in
                   if wanted_tag \<ge> range_start v then
                     (case decode_extension d dec env wanted_tag wire_type i (strm v) (wrld v) of
                        None \<Rightarrow> None
                      | Some (False, s, w) \<Rightarrow> Some (Inr (s, w))
                      | Some (True, s, w) \<Rightarrow>
                          Some (Inl (bytes_left s \<noteq> bytes_left (strm v), v\<lparr>strm := s, wrld := w\<rparr>)))
                   else Some (Inl (False, v)))
            else Some (Inl (False, v))) of
        None \<Rightarrow> None
      | Some (Inr (s, w)) \<Rightarrow> Some (Return False s w)
      | Some (Inl (True, v)) \<Rightarrow> Some (Next v)
      | Some (Inl (False, v)) \<Rightarrow>
          (case pb_skip_field wire_type (strm v) of
             (False, s) \<Rightarrow> Some (Return False s (wrld v))
           | (True, s) \<Rightarrow> Some (Next (v\<lparr>strm := s\<rparr>))))"

definition decode_step ::
  "nat \<Rightarrow> (bool \<Rightarrow> 's decoder) \<Rightarrow> 's denv \<Rightarrow> 's locals \<Rightarrow> 's outcome option" where
  "decode_step d dec env v =
     (if bytes_left (strm v) = 0 then Some (Stop v)
      else
        (case pb_decode_tag (strm v) of
           (None, eof, s) \<Rightarrow>
             if eof then Some (Stop (v\<lparr>strm := s\<rparr>)) else Some (Return False s (wrld v))
         | (Some (wire_type, wanted_tag), eof, s) \<Rightarrow>
             let v = v\<lparr>strm := s\<rparr> in
             (case pb_field_iter_find wanted_tag (it v) of
                None \<Rightarrow> None
              | Some (False, i) \<Rightarrow> decode_unknown d dec env wanted_tag wire_type (v\<lparr>it := i\<rparr>)
              | Some (True, i) \<Rightarrow> decode_known d dec env wire_type (v\<lparr>it := i\<rparr>))))"

partial_function (option) message_loop ::
  "('s locals \<Rightarrow> 's outcome option) \<Rightarrow> 's locals \<Rightarrow> 's outcome option" where
  "message_loop step v =
     (case step v of
        None \<Rightarrow> None
      | Some (Next v) \<Rightarrow> message_loop step v
      | Some (Stop v) \<Rightarrow> Some (Stop v)
      | Some (Return ok s w) \<Rightarrow> Some (Return ok s w))"

declare message_loop.simps [code]

text \<open>All required fields were seen: whole words, then the remaining bits.\<close>

definition required_count :: "pb_field_iter \<Rightarrow> u32" where
  "required_count i =
     (let l = last (visits (length (start i)) i); n = required_field_index l;
          n = (if PB_HTYPE (type_of (cur l)) = PB_HTYPE_REQUIRED \<and> tag (field_at (start i) 0) \<noteq> 0
               then n + 1 else n)
      in if n > PB_MAX_REQUIRED_FIELDS then PB_MAX_REQUIRED_FIELDS else n)"

definition all_seen :: "u32 \<Rightarrow> u32 list \<Rightarrow> bool" where
  "all_seen n seen \<longleftrightarrow>
     list_all (\<lambda>i. seen ! i = - 1) [0..<unat (drop_bit 5 n)] \<and>
     (n AND 31 \<noteq> 0 \<longrightarrow> seen ! unat (drop_bit 5 n) = drop_bit (unat (32 - (n AND 31))) (- 1))"

definition decode_message ::
  "nat \<Rightarrow> (bool \<Rightarrow> 's decoder) \<Rightarrow> 's denv \<Rightarrow> 's decoder" where
  "decode_message d dec env fs dest s w =
     (let w = upd (\<lambda>m. store32 m (local_count env d) 0) w;
          v = \<lparr>strm = s, wrld = w, it = snd (pb_field_iter_begin fs dest), range_start = 0,
               fixed_field = None, fields_seen = [0, 0]\<rparr> in
      case message_loop (decode_step d dec env) v of
        None \<Rightarrow> None
      | Some (Next v) \<Rightarrow> None
      | Some (Return ok s w) \<Rightarrow> Some (ok, s, w)
      | Some (Stop v) \<Rightarrow>
          if fixed_incomplete (local_count env d) v
          then dfail ''wrong size for fixed count field'' (strm v) (wrld v)
          else if \<not> all_seen (required_count (it v)) (fields_seen v)
          then dfail ''missing required field'' (strm v) (wrld v)
          else Some (True, strm v, wrld v))"

definition init_and_decode ::
  "nat \<Rightarrow> (bool \<Rightarrow> 's decoder) \<Rightarrow> 's denv \<Rightarrow> 's decoder" where
  "init_and_decode d dec env fs dest s w =
     (case pb_message_set_to_defaults d env fs dest w of
        None \<Rightarrow> None
      | Some w \<Rightarrow>
          (case decode_message d dec env fs dest s w of
             None \<Rightarrow> None
           | Some (True, s, w) \<Rightarrow> Some (True, s, w)
           | Some (False, s, w) \<Rightarrow> map_option (\<lambda>w. (False, s, w)) (pb_release d env fs dest w)))"

primrec decode_rec :: "nat \<Rightarrow> 's denv \<Rightarrow> bool \<Rightarrow> 's decoder" where
  "decode_rec 0 env init fs dest s w = None"
| "decode_rec (Suc d) env init fs dest s w =
     (if init then init_and_decode d (decode_rec d env) env fs dest s w
      else decode_message d (decode_rec d env) env fs dest s w)"

definition pb_decode :: "nat \<Rightarrow> 's denv \<Rightarrow> 's decoder" where
  "pb_decode d env = decode_rec d env True"

definition pb_decode_noinit :: "nat \<Rightarrow> 's denv \<Rightarrow> 's decoder" where
  "pb_decode_noinit d env = decode_rec d env False"

definition delimited_with :: "'s decoder \<Rightarrow> 's decoder" where
  "delimited_with dec fs dest s w =
     (case pb_make_string_substream s of
        (None, s) \<Rightarrow> Some (False, s, w)
      | (Some substream, s) \<Rightarrow>
          (case dec fs dest substream w of
             None \<Rightarrow> None
           | Some (status, substream, w) \<Rightarrow>
               (case pb_close_string_substream s substream of
                  (False, s) \<Rightarrow> Some (False, s, w)
                | (True, s) \<Rightarrow> Some (status, s, w))))"

definition pb_decode_delimited :: "nat \<Rightarrow> 's denv \<Rightarrow> 's decoder" where
  "pb_decode_delimited d env = delimited_with (pb_decode d env)"

definition pb_decode_delimited_noinit :: "nat \<Rightarrow> 's denv \<Rightarrow> 's decoder" where
  "pb_decode_delimited_noinit d env = delimited_with (pb_decode_noinit d env)"

definition pb_decode_nullterminated :: "nat \<Rightarrow> 's denv \<Rightarrow> 's decoder" where
  "pb_decode_nullterminated d env = pb_decode d env"

end
