(* ===== verification/Pb_Decode_Spec.thy ===== *)
theory Pb_Decode_Spec
  imports Pb_Decode
begin

text \<open>
  What the message decoder promises: it stays within the limit of its stream.
\<close>

section \<open>The decoder stays within the limit of its stream\<close>

text \<open>
  \<open>inside s s'\<close>: the limit has not grown, and a buffer has been advanced by no more bytes than the
  limit has lost.
\<close>

definition inside :: "'s pb_istream \<Rightarrow> 's pb_istream \<Rightarrow> bool" where
  "inside s s' \<longleftrightarrow> unat (bytes_left s') \<le> unat (bytes_left s) \<and>
     (\<forall>mem. source s = Buffer mem \<longrightarrow>
        (\<exists>k. source s' = Buffer (drop k mem) \<and> k + unat (bytes_left s') \<le> unat (bytes_left s)))"

named_theorems inside_ops "operations leave their stream inside its limit"

lemma inside_refl [simp, intro]: "inside s s"
  unfolding inside_def by (auto intro: exI [of _ 0])

lemma inside_trans:
  assumes "inside s t" "inside t u"
  shows "inside s u"
proof -
  have "\<exists>k. source u = Buffer (drop k mem) \<and> k + unat (bytes_left u) \<le> unat (bytes_left s)"
    if "source s = Buffer mem" for mem
  proof -
    from assms(1) that obtain k where k: "source t = Buffer (drop k mem)"
      "k + unat (bytes_left t) \<le> unat (bytes_left s)" by (auto simp: inside_def)
    with assms(2) obtain j where "source u = Buffer (drop j (drop k mem))"
      "j + unat (bytes_left u) \<le> unat (bytes_left t)" unfolding inside_def by blast
    with k show ?thesis by (intro exI [of _ "j + k"]) simp
  qed
  with assms show ?thesis by (simp add: inside_def)
qed

lemma inside_left: "inside s t \<Longrightarrow> unat (bytes_left t) \<le> unat (bytes_left s)"
  by (simp add: inside_def)

lemma inside_eq: "source t = source u \<Longrightarrow> bytes_left t = bytes_left u \<Longrightarrow> inside s t \<longleftrightarrow> inside s u"
  by (simp add: inside_def)

lemma inside_ierror [simp]: "inside s (ierror e t) \<longleftrightarrow> inside s t"
  by (rule inside_eq) (simp_all add: ierror_def)

lemma inside_ierrmsg [simp]: "inside s (t\<lparr>ierrmsg := e\<rparr>) \<longleftrightarrow> inside s t"
  by (rule inside_eq) simp_all

lemma within_inside: "within s t \<Longrightarrow> inside s t"
  by (auto simp: within_def inside_def)

lemma inside_readers [inside_ops]:
  "pb_read n s = (b, t) \<Longrightarrow> inside s t"
  "pb_decode_varint32 s = (v, t) \<Longrightarrow> inside s t"
  "pb_decode_varint s = (x, t) \<Longrightarrow> inside s t"
  "pb_decode_svarint s = (x, t) \<Longrightarrow> inside s t"
  "pb_decode_fixed32 s = (v, t) \<Longrightarrow> inside s t"
  "pb_decode_fixed64 s = (x, t) \<Longrightarrow> inside s t"
  "pb_decode_tag s = (y, eof, t) \<Longrightarrow> inside s t"
  "pb_skip_field wt s = (ok, t) \<Longrightarrow> inside s t"
  "read_raw_value wt n s = (b, t) \<Longrightarrow> inside s t"
  by ((rule within_inside, erule within_ops)+)

text \<open>A substream: the parent after opening it, and after closing it at any state inside.\<close>

lemma inside_make [inside_ops]:
  assumes "pb_make_string_substream t = (sub, u)"
  shows "inside t u"
proof (cases sub)
  case None
  with assms show ?thesis by (metis within_inside within_make)
next
  case (Some sub')
  with assms obtain sz v where v: "pb_decode_varint32 t = (Some sz, v)"
    and le: "(ucast sz :: u64) \<le> bytes_left v" and u: "u = v\<lparr>bytes_left := bytes_left v - ucast sz\<rparr>"
    by (auto simp: pb_make_string_substream_def not_less split: prod.splits option.splits if_splits)
  from le have "unat (bytes_left u) \<le> unat (bytes_left v)"
    by (simp add: u unat_sub word_le_nat_alt)
  then have "inside v u" by (auto simp: inside_def u intro: exI [of _ 0])
  with inside_readers(2) [OF v] show ?thesis by (rule inside_trans)
qed

lemma inside_close:
  assumes "pb_close_string_substream t sub = (True, s)"
  obtains c where "inside sub c" "source s = source c" "bytes_left s = bytes_left t"
proof (cases "bytes_left sub = 0")
  case True
  with assms have "s = t\<lparr>source := source sub, ierrmsg := ierrmsg sub\<rparr>"
    by (simp add: pb_close_string_substream_def)
  with that [OF inside_refl] show ?thesis by simp
next
  case False
  with assms obtain c where "pb_read_null (bytes_left sub) sub = (True, c)"
    "s = t\<lparr>source := source c, ierrmsg := ierrmsg c\<rparr>"
    by (auto simp: pb_close_string_substream_def split: prod.splits bool.splits)
  with that [OF within_inside [OF within_pb_read_null]] show ?thesis by simp
qed

lemma inside_substream:
  assumes "pb_make_string_substream s = (Some sub, t)" "inside sub sub'"
    "source t' = source t" "bytes_left t' = bytes_left t"
    "pb_close_string_substream t' sub' = (ok, s')"
  shows "inside s s'"
proof (cases ok)
  case False
  with assms(5) have "s' = t'" by (auto simp: pb_close_string_substream_def split: prod.splits bool.splits)
  with assms(3,4) inside_make [OF assms(1)] show ?thesis by (metis inside_eq)
next
  case True
  from assms(1) obtain sz u where u: "pb_decode_varint32 s = (Some sz, u)"
    and le: "(ucast sz :: u64) \<le> bytes_left u"
    and sub: "sub = u\<lparr>bytes_left := ucast sz\<rparr>" and t: "t = u\<lparr>bytes_left := bytes_left u - ucast sz\<rparr>"
    by (auto simp: pb_make_string_substream_def not_less split: prod.splits option.splits if_splits)
  from assms(5) True obtain c where c: "inside sub' c"
    and s': "source s' = source c" "bytes_left s' = bytes_left t"
    by (auto simp: assms(4) elim: inside_close)
  define n where "n = unat (ucast sz :: u64)"
  from le have n: "n \<le> unat (bytes_left u)" "unat (bytes_left t) = unat (bytes_left u) - n"
    by (simp_all add: n_def t unat_sub word_le_nat_alt)
  from inside_trans [OF assms(2) c] have c':
    "\<exists>k. source c = Buffer (drop k m) \<and> k + unat (bytes_left c) \<le> n" if "source u = Buffer m" for m
    using that by (simp add: inside_def sub n_def)
  have "\<exists>k. source s' = Buffer (drop k m) \<and> k + unat (bytes_left s') \<le> unat (bytes_left u)"
    if "source u = Buffer m" for m
  proof -
    from c' [OF that] obtain k where "source c = Buffer (drop k m)" "k \<le> n" by fastforce
    with n s' show ?thesis by (intro exI [of _ k]) simp
  qed
  then have "inside u s'" unfolding inside_def using n s' by simp
  with inside_readers(2) [OF u] show ?thesis by (rule inside_trans)
qed


text \<open>What a call of a decoder leaves: \<open>ends s r\<close> says that its stream is inside \<open>s\<close>.\<close>

definition ends :: "'s pb_istream \<Rightarrow> 's dresult \<Rightarrow> bool" where
  "ends s r \<longleftrightarrow> (\<forall>ok s' w'. r = Some (ok, s', w') \<longrightarrow> inside s s')"

lemma ends_simps [simp]:
  "ends s None"
  "ends s (Some (ok, s', w')) \<longleftrightarrow> inside s s'"
  "ends s (dfail e s' w') \<longleftrightarrow> inside s s'"
  using exI [of "\<lambda>ok. \<not> ok" False] by (simp_all add: ends_def dfail_def)

lemma ends_if: "ends s (if b then r else r') \<longleftrightarrow> (b \<longrightarrow> ends s r) \<and> (\<not> b \<longrightarrow> ends s r')"
  by simp

lemma endsD: "ends s r \<Longrightarrow> r = Some (ok, t, w) \<Longrightarrow> inside s t"
  unfolding ends_def by blast

lemma ends_trans: "inside s t \<Longrightarrow> ends t r \<Longrightarrow> ends s r"
  unfolding ends_def by (blast intro: inside_trans)

lemma inside_allocate [inside_ops]:
  "allocate_field env a n k s w = (ok, t, w') \<Longrightarrow> inside s t"
  by (auto simp: allocate_field_def Let_def split: if_splits prod.splits option.splits)

lemma inside_read_into [inside_ops]:
  "read_into a n s w = (ok, t, w') \<Longrightarrow> inside s t"
  by (auto simp: read_into_def split: prod.splits option.splits dest: inside_ops)

lemma inside_scalars [inside_ops]:
  "pb_dec_bool a s w = (ok, t, w') \<Longrightarrow> inside s t"
  "pb_dec_varint f a s w = (ok, t, w') \<Longrightarrow> inside s t"
  "pb_dec_uvarint f a s w = (ok, t, w') \<Longrightarrow> inside s t"
  "pb_dec_svarint f a s w = (ok, t, w') \<Longrightarrow> inside s t"
  "pb_dec_fixed32 a s w = (ok, t, w') \<Longrightarrow> inside s t"
  "pb_dec_fixed64 a s w = (ok, t, w') \<Longrightarrow> inside s t"
  by (auto simp: pb_dec_bool_def pb_dec_varint_def pb_dec_uvarint_def pb_dec_svarint_def
      pb_dec_fixed32_def pb_dec_fixed64_def Let_def
      split: prod.splits option.splits if_splits dest!: inside_readers)

lemma inside_strings [inside_ops]:
  "pb_dec_fixed_length_bytes f a s w = (ok, t, w') \<Longrightarrow> inside s t"
  "pb_dec_bytes env f a s w = (ok, t, w') \<Longrightarrow> inside s t"
  "pb_dec_string env f a s w = (ok, t, w') \<Longrightarrow> inside s t"
  by (auto simp: pb_dec_fixed_length_bytes_def pb_dec_bytes_def pb_dec_string_def Let_def
      split: prod.splits option.splits if_splits bool.splits
      dest!: inside_readers inside_allocate inside_read_into intro: inside_trans)

text \<open>The decoders of submessages and the user's functions that stay inside.\<close>

definition decoder_ends :: "(bool \<Rightarrow> 's decoder) \<Rightarrow> bool" where
  "decoder_ends dec \<longleftrightarrow> (\<forall>init fs a s w. ends s (dec init fs a s w))"

definition callbacks_inside :: "'s denv \<Rightarrow> bool" where
  "callbacks_inside env \<longleftrightarrow>
     (\<forall>fn f arg s w. inside s (fst (snd (decode_cb env fn f arg s w)))) \<and>
     (\<forall>fn ext t wt s w. inside s (fst (snd (extension_dec env fn ext t wt s w))))"

lemma decoder_endsD: "decoder_ends dec \<Longrightarrow> dec b fs a s w = Some (ok, t, w') \<Longrightarrow> inside s t"
  unfolding decoder_ends_def by (blast dest: endsD)

lemma ends_submessage:
  assumes "decoder_ends dec"
  shows "ends s (pb_dec_submessage dec env f a s w)"
  by (auto simp: pb_dec_submessage_def split: prod.splits option.splits if_splits bool.splits
      dest: decoder_endsD [OF assms] intro: inside_make inside_substream)

lemma ends_decoders:
  assumes "decoder_ends dec"
  shows "ends s (PB_DECODERS dec env l f a s w)"
proof (cases l)
  case PB_LTYPE_SUBMESSAGE
  with ends_submessage [OF assms] show ?thesis by (simp add: PB_DECODERS_def)
qed (auto simp: PB_DECODERS_def ends_def dest: inside_scalars inside_strings)

lemma inside_static_packed:
  assumes "static_packed func iter s w = Some r" "\<And>s a w. ends s (func s a w)"
  shows "inside s (fst (snd r))"
  using assms
proof (induction func iter s w r rule: static_packed.raw_induct [rotated, consumes 1])
  case (1 loop func iter s w r)
  note func = endsD [OF 1(3)]
  from 1(2) show ?case
    by (auto simp: Let_def split: if_splits option.split_asm prod.split_asm dest!: func dest: 1(1) [OF _ 1(3)] intro: inside_trans)
qed

lemma inside_callback_loop:
  assumes "callback_loop cb s w = Some r" "\<And>s w. ends s (cb s w)"
  shows "inside s (fst (snd r))"
  using assms
proof (induction cb s w r rule: callback_loop.raw_induct [rotated, consumes 1])
  case (1 loop cb s w r)
  note cb = endsD [OF 1(3)]
  from 1(2) show ?case
    by (auto split: if_splits option.split_asm prod.split_asm dest!: cb dest: 1(1) [OF _ 1(3)] intro: inside_trans)
qed

lemma inside_grow [inside_ops]: "grow_array env i n s w = Some (n', ok, t, w') \<Longrightarrow> inside s t"
  by (auto simp: grow_array_def Let_def split: if_splits dest: inside_allocate)

text \<open>The parent of a packed array on the heap only gets a message.\<close>

lemma inside_pointer_packed:
  assumes "pointer_packed func init env iter n p s w = Some r" "\<And>s a w. ends s (func s a w)"
  shows "inside s (fst (snd (snd r))) \<and> source (fst (snd r)) = source p \<and> bytes_left (fst (snd r)) = bytes_left p"
  using assms
proof (induction func init env iter n p s w r rule: pointer_packed.raw_induct [rotated, consumes 1])
  case (1 loop func init env iter n p s w r)
  note func = endsD [OF 1(3)] and IH = 1(1) [OF _ 1(3)]
  from 1(2) show ?case
    by (auto simp: Let_def split: if_splits prod.split_asm option.split_asm dest!: func inside_grow dest: IH
        intro: inside_trans)
qed

lemma ends_static_field:
  assumes "decoder_ends dec"
  shows "ends s (decode_static_field d dec env wt iter s w)"
proof -
  note func = endsD [OF ends_decoders [OF assms]]
  have packed: "static_packed (\<lambda>s item w. PB_DECODERS dec env l f item s w) i sub w = Some (ok, sub', w') \<Longrightarrow>
      inside sub sub'" for l f i sub w ok sub' w'
    by (drule inside_static_packed) (auto intro: ends_decoders [OF assms])
  show ?thesis
    by (cases "PB_HTYPE (type_of (cur iter))")
      (auto simp: decode_static_field_def Let_def ends_decoders [OF assms]
        split: prod.splits option.splits bool.splits
        dest: packed intro: inside_make inside_substream)
qed

lemma inside_release_union [inside_ops]:
  "pb_release_union_field d env iter s w = Some (ok, i, t, w') \<Longrightarrow> inside s t"
  by (auto simp: pb_release_union_field_def Let_def split: if_splits option.splits prod.splits bool.splits)

lemma ends_pointer_field:
  assumes "decoder_ends dec"
  shows "ends s (decode_pointer_field d dec env wt iter s w)"
proof -
  note func = endsD [OF ends_decoders [OF assms]]
  have packed: "inside sub sub' \<and> source p' = source p \<and> bytes_left p' = bytes_left p"
    if "pointer_packed (\<lambda>s item w. PB_DECODERS dec env l f item s w) init env i n p sub w = Some (ok, p', sub', w')"
    for init i n l f p sub w ok p' sub' w'
    using inside_pointer_packed [OF that ends_decoders [OF assms]] by simp
  consider "PB_HTYPE (type_of (cur iter)) \<noteq> PB_HTYPE_REPEATED"
    | "PB_HTYPE (type_of (cur iter)) = PB_HTYPE_REPEATED"
      "wt = PB_WT_STRING \<and> PB_LTYPE (type_of (cur iter)) \<le> PB_LTYPE_LAST_PACKABLE"
    | "PB_HTYPE (type_of (cur iter)) = PB_HTYPE_REPEATED"
      "\<not> (wt = PB_WT_STRING \<and> PB_LTYPE (type_of (cur iter)) \<le> PB_LTYPE_LAST_PACKABLE)" by blast
  then show ?thesis
  proof cases
    case 2
    then show ?thesis
      by (auto simp: decode_pointer_field_def Let_def ends_def dfail_def
          split: prod.splits option.splits bool.splits dest: packed intro: inside_make inside_substream)
  qed (auto simp: decode_pointer_field_def Let_def ends_decoders [OF assms] ends_if
      split: prod.split option.split bool.split split del: if_split
      dest: inside_allocate intro: ends_trans [OF inside_allocate ends_decoders [OF assms]])
qed

lemma ends_call_decode: "callbacks_inside env \<Longrightarrow> ends s (call_decode env iter s w)"
  by (auto simp: call_decode_def callbacks_inside_def Let_def ends_def) (metis fst_conv snd_conv)

lemma ends_callback_field:
  assumes "callbacks_inside env"
  shows "ends s (decode_callback_field env wt iter s w)"
proof -
  have loop: "callback_loop (call_decode env iter) sub w = Some (ok, sub', w') \<Longrightarrow> inside sub sub'"
    for sub w ok sub' w'
    by (drule inside_callback_loop) (auto intro: ends_call_decode [OF assms])
  show ?thesis
    by (auto simp: decode_callback_field_def ends_def dfail_def
        split: prod.splits option.splits bool.splits if_splits
        dest: loop intro: inside_make inside_substream inside_readers)
qed

lemma inside_field:
  assumes "decoder_ends dec" "callbacks_inside env"
    "decode_field d dec env wt iter s w = Some (ok, i, t, w')"
  shows "inside s t"
  using assms(3)
  by (auto simp: decode_field_def dfail_def split: if_splits option.splits prod.splits bool.splits pb_atype.splits
      dest!: inside_release_union endsD [OF ends_static_field [OF assms(1)]]
        endsD [OF ends_pointer_field [OF assms(1)]] endsD [OF ends_callback_field [OF assms(2)]]
      intro: inside_trans)

lemma ends_extension:
  assumes "decoder_ends dec" "callbacks_inside env"
  shows "ends s (decode_extension d dec env t wt iter s w)"
proof -
  have default: "ends s (default_extension_decoder d dec env ext t wt s w)" for ext s w
    by (auto simp: default_extension_decoder_def Let_def ends_def dest: inside_field [OF assms])
  have user: "extension_dec env fn ext t wt s w = (ok, u, w') \<Longrightarrow> inside s u" for fn ext s w ok u w'
    using assms(2) by (metis callbacks_inside_def fst_conv snd_conv)
  have "ends s (extension_decoders n d dec env ext t wt left s w)" for n ext left s w
  proof (induction n arbitrary: ext left s w)
    case 0
    then show ?case by simp
  next
    case (Suc n)
    show ?case
      by (auto simp: dseq_def Let_def ends_def split: option.splits prod.splits bool.splits if_splits
          dest!: user dest: endsD [OF default] endsD [OF Suc] intro: inside_trans)
  qed
  then show ?thesis by (simp add: decode_extension_def)
qed

text \<open>The stream of an outcome of one step.\<close>

fun outcome_stream :: "'s outcome \<Rightarrow> 's pb_istream" where
  "outcome_stream (Next v) = strm v"
| "outcome_stream (Stop v) = strm v"
| "outcome_stream (Return ok s w) = s"

lemma enter_field_same:
  "enter_field a v = Some v' \<Longrightarrow> strm v' = strm v \<and> range_start v' = range_start v \<and>
    start (it v') = start (it v) \<and> pos (it v') = pos (it v) \<and> pData (it v') = pData (it v) \<and>
    dest_struct (it v') = dest_struct (it v) \<and> required_field_index (it v') = required_field_index (it v)"
  by (auto simp: enter_field_def Let_def split: if_splits)

lemma inside_known:
  assumes "decoder_ends dec" "callbacks_inside env" "decode_known d dec env wt v = Some r"
  shows "inside (strm v) (outcome_stream r)"
  using assms(3)
  by (auto simp: decode_known_def enter_field_same split: option.splits prod.splits bool.splits
      dest!: enter_field_same inside_field [OF assms(1,2)])

lemma inside_unknown:
  assumes "decoder_ends dec" "callbacks_inside env" "decode_unknown d dec env t wt v = Some r"
  shows "inside (strm v) (outcome_stream r)"
  using assms(3)
  by (auto simp: decode_unknown_def Let_def split: if_split_asm option.splits prod.splits bool.splits sum.splits
      dest!: endsD [OF ends_extension [OF assms(1,2)]] inside_readers intro: inside_trans)

lemma inside_step:
  assumes "decoder_ends dec" "callbacks_inside env" "decode_step d dec env v = Some r"
  shows "inside (strm v) (outcome_stream r)"
proof (cases "bytes_left (strm v) = 0")
  case True
  with assms(3) show ?thesis by (auto simp: decode_step_def)
next
  case False
  obtain x eof s where t: "pb_decode_tag (strm v) = (x, eof, s)" by (metis prod_cases3)
  note in_s = inside_readers(7) [OF t]
  from False assms(3) t in_s show ?thesis
    by (auto simp: decode_step_def Let_def split: option.splits prod.splits bool.splits if_split_asm
        dest!: inside_known [OF assms(1,2)] inside_unknown [OF assms(1,2)] intro: inside_trans)
qed

lemma inside_loop:
  assumes "message_loop step v = Some r" "\<And>v r. step v = Some r \<Longrightarrow> inside (strm v) (outcome_stream r)"
  shows "inside (strm v) (outcome_stream r)"
  using assms
proof (induction step v r rule: message_loop.raw_induct [rotated, consumes 1])
  case (1 loop step v r)
  note IH = 1(1) [OF _ 1(3)]
  show ?case
  proof (cases "step v")
    case None
    with 1(2) show ?thesis by simp
  next
    case (Some r')
    from 1(3) [OF this] 1(2) Some show ?thesis
      by (cases r') (auto dest: IH intro: inside_trans)
  qed
qed

lemma ends_message:
  assumes "decoder_ends dec" "callbacks_inside env"
  shows "ends s (decode_message d dec env fs a s w)"
proof -
  have "message_loop (decode_step d dec env) v = Some r \<Longrightarrow> inside (strm v) (outcome_stream r)" for v r
    by (rule inside_loop) (auto dest: inside_step [OF assms])
  then show ?thesis
    by (fastforce simp: decode_message_def Let_def ends_if split: option.splits outcome.splits)
qed

lemma decoder_ends_rec:
  assumes "callbacks_inside env"
  shows "decoder_ends (decode_rec d env)"
proof (induction d)
  case 0
  then show ?case by (simp add: decoder_ends_def)
next
  case (Suc d)
  note msg = endsD [OF ends_message [OF Suc assms]]
  show ?case
    by (auto simp: decoder_ends_def init_and_decode_def ends_message [OF Suc assms] ends_def
        split: option.splits prod.splits bool.splits dest: msg)
qed

definition demo_denv :: "'s denv" where
  "demo_denv =
     \<lparr>arrays = (\<lambda>a. if a = 0x7000 then demo_fields else []),
      alloc = (\<lambda>h n. if h 0x9000 = None \<and> n \<le> 64 then Some 0x9000 else None),
      local_count = (\<lambda>d. 0x100 + 8 * of_nat d),
      decode_cb = (\<lambda>fn f arg s w. case pb_read 1 s of (b, s) \<Rightarrow> (b \<noteq> None, s, w)),
      extension_dec = (\<lambda>fn ext t wt s w. (True, s, w))\<rparr>"

definition demo_world :: world where
  "demo_world = \<lparr>memory_of = (\<lambda>_. 0xAA), heap = (\<lambda>_. None)\<rparr>"

definition demo_input :: "unit pb_istream" where
  "demo_input = pb_istream_from_buffer [0x08, 0x05, 0x12, 0x02, 0x68, 0x69, 0xFF] 6"

lemma callbacks_demo: "callbacks_inside demo_denv"
  by (auto simp: callbacks_inside_def demo_denv_def split: prod.split dest: inside_readers)

definition ran :: "'s dresult \<Rightarrow> bool" where
  "ran r \<longleftrightarrow> (case r of None \<Rightarrow> False | Some (ok, s, w) \<Rightarrow> ok)"

lemma demo_runs: "ran (pb_decode 3 demo_denv demo_fields 0x1000 demo_input demo_world)"
  by code_simp

lemma ranD: "ran r \<Longrightarrow> \<exists>s w. r = Some (True, s, w)"
  by (auto simp: ran_def split: option.splits prod.splits)

lemma ends_delimited:
  assumes "\<And>fs a s w. ends s (dec fs a s w)"
  shows "ends s (delimited_with dec fs a s w)"
  by (auto simp: delimited_with_def split: prod.splits option.splits bool.splits
      dest: endsD [OF assms] intro: inside_make inside_substream)

text \<open>C4:
  Decoding stays within the limit of the stream.  Whatever the bytes, the descriptors and the memory
  are, and whether decoding succeeds or fails, every entry point of the message decoder leaves a
  stream whose limit has not grown, and a buffer that was advanced by at most as many bytes as the
  limit has lost: no byte beyond the limit is ever consumed, also not through nested substreams,
  packed arrays and skipped fields.  The user's functions are assumed to behave the same way.
\<close>

theorem pb_decode_within_limit:
  assumes "callbacks_inside env"
    and "dec \<in> {pb_decode d env, pb_decode_noinit d env, pb_decode_delimited d env,
      pb_decode_delimited_noinit d env, pb_decode_nullterminated d env}"
    and "dec fs dest s w = Some (ok, s', w')"
  shows "inside s s'"
proof -
  note ends = decoder_ends_rec [OF assms(1), of d, unfolded decoder_ends_def, rule_format]
  have "ends s (dec fs dest s w)"
    using assms(2) ends ends_delimited [OF ends]
    by (auto simp: pb_decode_def pb_decode_noinit_def pb_decode_delimited_def
        pb_decode_delimited_noinit_def pb_decode_nullterminated_def)
  from endsD [OF this assms(3)] show ?thesis .
qed

theorem pb_decode_within_limit_witness:
  "\<exists>s' w'. pb_decode 3 demo_denv demo_fields 0x1000 demo_input demo_world = Some (True, s', w') \<and>
    inside demo_input s'"
proof -
  from ranD [OF demo_runs] obtain s' w' where
    r: "pb_decode 3 demo_denv demo_fields 0x1000 demo_input demo_world = Some (True, s', w')" by blast
  from pb_decode_within_limit [of demo_denv "pb_decode 3 demo_denv" 3, OF callbacks_demo _ r] r
  show ?thesis by simp
qed

end
