(* ===== verification/Pb_Decode_Live.thy ===== *)
theory Pb_Decode_Live
  imports Pb_Decode_Spec
begin

text \<open>
  Termination of the message decoder: the iterator searches, the loops over packed arrays, over the
  calls of a user's function and over the fields of a message, and the recursion over submessages.
\<close>

section \<open>Decoding returns\<close>

text \<open>
  Message types without extension fields whose submessages nest at most \<open>n\<close> deep; scalar entries of
  arrays on the heap have a size.
\<close>

definition field_ok :: "pb_field \<Rightarrow> bool" where
  "field_ok f \<longleftrightarrow>
     PB_LTYPE (type_of f) \<noteq> PB_LTYPE_EXTENSION \<and>
     (PB_LTYPE (type_of f) = PB_LTYPE_UNDECLARED \<longrightarrow> PB_ATYPE (type_of f) = PB_ATYPE_CALLBACK) \<and>
     (PB_ATYPE (type_of f) = PB_ATYPE_POINTER \<longrightarrow> data_size f \<noteq> 0)"

primrec nested :: "nat \<Rightarrow> 's denv \<Rightarrow> pb_field list \<Rightarrow> bool" where
  "nested 0 env fs = False"
| "nested (Suc n) env fs = list_all (\<lambda>f. tag f \<noteq> 0 \<and> field_ok f \<and>
     (PB_LTYPE (type_of f) = PB_LTYPE_SUBMESSAGE \<and> PB_ATYPE (type_of f) \<noteq> PB_ATYPE_CALLBACK \<longrightarrow>
        nested n env (arrays env (ptr f)))) fs"

definition entry_ok :: "nat \<Rightarrow> 's denv \<Rightarrow> pb_field \<Rightarrow> bool" where
  "entry_ok n env f \<longleftrightarrow> field_ok f \<and>
     (PB_LTYPE (type_of f) = PB_LTYPE_SUBMESSAGE \<and> PB_ATYPE (type_of f) \<noteq> PB_ATYPE_CALLBACK \<longrightarrow>
        nested n env (arrays env (ptr f)))"

text \<open>An iterator somewhere over the array.\<close>

definition over :: "pb_field list \<Rightarrow> pb_field_iter \<Rightarrow> bool" where
  "over fs i \<longleftrightarrow> start i = fs \<and> (pos i < length fs \<or> pos i = 0)"

lemma last_field_type [simp]:
  "PB_LTYPE (type_of PB_LAST_FIELD) = PB_LTYPE_BOOL"
  "PB_HTYPE (type_of PB_LAST_FIELD) = PB_HTYPE_REQUIRED"
  "PB_ATYPE (type_of PB_LAST_FIELD) = PB_ATYPE_STATIC"
  by (simp_all add: PB_LAST_FIELD_def PB_LTYPE_def PB_HTYPE_def PB_ATYPE_def pb_ltypes_def)

lemma entry_ok_over: "nested (Suc n) env fs \<Longrightarrow> over fs i \<Longrightarrow> entry_ok n env (cur i)"
  by (auto simp: over_def cur_def field_at_def entry_ok_def field_ok_def list_all_length)

lemma over_begin [simp]: "over fs (snd (pb_field_iter_begin fs dest))"
  by (simp add: over_def)

lemma over_upd [simp]:
  "over fs (i\<lparr>pData := a\<rparr>) = over fs i" "over fs (i\<lparr>pSize := a\<rparr>) = over fs i"
  by (simp_all add: over_def)

lemma tags_nested: "nested n env fs \<Longrightarrow> f \<in> set fs \<Longrightarrow> tag f \<noteq> 0"
  by (cases n) (auto simp: list_all_iff)

text \<open>The next position, cyclically.\<close>

lemma over_next:
  assumes "\<forall>f \<in> set fs. tag f \<noteq> 0" "over fs i"
  shows "over fs (snd (pb_field_iter_next i)) \<and>
    pos (snd (pb_field_iter_next i)) = (if Suc (pos i) < length fs then Suc (pos i) else 0)"
proof (cases "fs = []")
  case True
  with assms(2) show ?thesis
    by (simp add: over_def pb_field_iter_next_def cur_def field_at_def PB_LAST_FIELD_def)
next
  case False
  with assms have d: "descriptors (start i)" and p: "pos i < length (start i)"
    by (auto simp: descriptors_def over_def)
  show ?thesis
  proof (cases "Suc (pos i) < length fs")
    case True
    with next_inner [OF d] assms(2) show ?thesis by (simp add: over_def)
  next
    case False
    with next_last [OF d] p assms(2) show ?thesis by (simp add: over_def)
  qed
qed

lemma search_loop_over:
  assumes "\<forall>f \<in> set fs. tag f \<noteq> 0" "over fs i" "b < length fs \<or> b = 0"
  shows "\<exists>found j. search_loop wanted b i = Some (found, j) \<and> over fs j \<and> (found \<longrightarrow> wanted (cur j))"
  using assms(2)
proof (induction "if pos i < b then b - pos i else b + max 1 (length fs) - pos i" arbitrary: i rule: less_induct)
  case less
  note step = search_loop.simps [of wanted b i]
  note n = over_next [OF assms(1) less.prems]
  define j where "j = snd (pb_field_iter_next i)"
  show ?case
  proof (cases "wanted (cur i)")
    case True
    with step less.prems show ?thesis by auto
  next
    case False
    then have eq: "search_loop wanted b i =
        (if pos j \<noteq> b then search_loop wanted b j else Some (False, j))"
      by (subst step) (simp add: j_def Let_def)
    show ?thesis
    proof (cases "pos j = b")
      case True
      with eq n show ?thesis by (intro exI [of _ False] exI [of _ j]) (simp add: j_def)
    next
      case False
      have "(if pos j < b then b - pos j else b + max 1 (length fs) - pos j)
          < (if pos i < b then b - pos i else b + max 1 (length fs) - pos i)"
        using False n less.prems assms(3) unfolding j_def over_def by (auto split: if_splits)
      from less.hyps [OF this] n False eq show ?thesis by (simp add: j_def)
    qed
  qed
qed

lemma find_over:
  assumes "\<forall>f \<in> set fs. tag f \<noteq> 0" "over fs i"
  obtains found j where "pb_field_iter_find t i = Some (found, j)" "over fs j"
  using search_loop_over [OF assms, of "pos i"] assms(2)
  unfolding pb_field_iter_find_def over_def by blast

lemma all_fields_over:
  assumes "\<forall>f \<in> set fs. tag f \<noteq> 0" "i \<in> set (all_fields fs dest)"
  shows "over fs i"
proof -
  have "i \<in> set (visits n j) \<Longrightarrow> over fs j \<Longrightarrow> over fs i" for n j
  proof (induction n arbitrary: j)
    case 0
    then show ?case by simp
  next
    case (Suc n)
    from over_next [OF assms(1) Suc.prems(2)] Suc show ?case
      by (cases "pb_field_iter_next j") (auto split: bool.splits)
  qed
  with assms(2) over_begin [of fs dest] show ?thesis
    by (cases "pb_field_iter_begin fs dest") (auto simp: all_fields_def split: bool.splits)
qed

lemma each_field_returns:
  "\<forall>i \<in> set is. \<forall>w. rec i w \<noteq> None \<Longrightarrow> each_field rec is w \<noteq> None"
  by (induction "is" arbitrary: w) (auto split: option.splits)

lemma all_fields_return:
  assumes "nested (Suc n) env fs" "\<And>i w. entry_ok n env (cur i) \<Longrightarrow> rec i w \<noteq> None"
  shows "each_field rec (all_fields fs dest) w \<noteq> None"
proof (rule each_field_returns, intro ballI allI)
  fix i w
  assume "i \<in> set (all_fields fs dest)"
  with tags_nested [OF assms(1)] have "over fs i" by (blast intro: all_fields_over)
  with assms show "rec i w \<noteq> None" by (blast intro: entry_ok_over)
qed

lemma set_to_default_returns:
  "entry_ok n env (cur i) \<Longrightarrow> n < d \<Longrightarrow> pb_field_set_to_default d env i w \<noteq> None"
proof (induction n arbitrary: d i w)
  case 0
  then show ?case
    by (cases d) (auto simp: entry_ok_def field_ok_def Let_def)
next
  case (Suc n)
  from Suc.prems(2) obtain e where d: "d = Suc e" "n < e" by (cases d) auto
  have "PB_LTYPE (type_of (cur i)) \<noteq> PB_LTYPE_EXTENSION" using Suc.prems(1) by (simp add: entry_ok_def field_ok_def)
  moreover have "PB_LTYPE (type_of (cur i)) = PB_LTYPE_SUBMESSAGE \<Longrightarrow> PB_ATYPE (type_of (cur i)) = PB_ATYPE_STATIC \<Longrightarrow>
      each_field (pb_field_set_to_default e env) (all_fields (arrays env (ptr (cur i))) a) w \<noteq> None" for a w
    using Suc.prems(1) by (intro all_fields_return [OF _ Suc.IH [OF _ d(2)]]) (simp_all add: entry_ok_def)
  ultimately show ?case by (simp add: d(1) Let_def)
qed

lemma defaults_return: "nested n env fs \<Longrightarrow> n \<le> d \<Longrightarrow> pb_message_set_to_defaults d env fs dest w \<noteq> None"
proof (cases n)
  case (Suc m)
  assume "nested n env fs" "n \<le> d"
  with Suc show ?thesis unfolding pb_message_set_to_defaults_def
    by (intro all_fields_return [OF _ set_to_default_returns]) (simp_all add: Suc_le_eq)
qed simp

lemma release_items_return: "(\<And>a w. rel a w \<noteq> None) \<Longrightarrow> release_items n step rel a w \<noteq> None"
  by (induction n arbitrary: a w) (auto split: option.splits)

lemma release_single_returns:
  "entry_ok n env (cur i) \<Longrightarrow> n < d \<Longrightarrow> pb_release_single_field d env i w \<noteq> None"
proof (induction n arbitrary: d i w)
  case 0
  then show ?case
    by (cases d) (auto simp: entry_ok_def field_ok_def Let_def split: option.splits)
next
  case (Suc n)
  from Suc.prems(2) obtain e where d: "d = Suc e" "n < e" by (cases d) auto
  have "PB_LTYPE (type_of (cur i)) \<noteq> PB_LTYPE_EXTENSION" using Suc.prems(1) by (simp add: entry_ok_def field_ok_def)
  note no_ext = this
  show ?case
  proof (cases "PB_LTYPE (type_of (cur i)) = PB_LTYPE_SUBMESSAGE \<and> PB_ATYPE (type_of (cur i)) \<noteq> PB_ATYPE_CALLBACK")
    case True
    with Suc.prems(1) have "nested (Suc n) env (arrays env (ptr (cur i)))" by (simp add: entry_ok_def)
    note item = all_fields_return [OF this Suc.IH [OF _ d(2)]]
    have items: "release_items k st (\<lambda>a w. if a = 0 then Some w
        else each_field (pb_release_single_field e env) (all_fields (arrays env (ptr (cur i))) a) w) a w \<noteq> None"
      for k st a w
      by (rule release_items_return) (simp add: item del: not_None_eq)
    with True show ?thesis
      by (simp add: d(1) Let_def items item split: option.split del: not_None_eq)
  next
    case False
    then consider "PB_LTYPE (type_of (cur i)) \<noteq> PB_LTYPE_SUBMESSAGE"
      | "PB_ATYPE (type_of (cur i)) = PB_ATYPE_CALLBACK" by blast
    then show ?thesis using no_ext by cases (simp_all add: d(1) Let_def)
  qed
qed

lemma release_returns: "nested n env fs \<Longrightarrow> n \<le> d \<Longrightarrow> pb_release d env fs dest w \<noteq> None"
proof (cases n)
  case (Suc m)
  assume "nested n env fs" "n \<le> d"
  with Suc have "each_field (pb_release_single_field d env) (all_fields fs dest) w \<noteq> None"
    by (intro all_fields_return [OF _ release_single_returns]) (simp_all add: Suc_le_eq)
  then show ?thesis by (simp add: pb_release_def del: not_None_eq)
qed simp

lemma release_union_returns:
  assumes "nested n env fs" "n \<le> d" "over fs i"
  shows "\<exists>ok j s' w'. pb_release_union_field d env i s w = Some (ok, j, s', w') \<and> over fs j"
proof -
  note tags = tags_nested [OF assms(1)]
  obtain m where n: "n = Suc m" using assms(1) by (cases n) auto
  show ?thesis
  proof (cases "load32 (memory_of w) (pSize i) = 0 \<or> load32 (memory_of w) (pSize i) = tag (cur i)")
    case True
    with assms(3) show ?thesis by (auto simp: pb_release_union_field_def)
  next
    case False
    obtain b j where j: "pb_field_iter_find (load32 (memory_of w) (pSize i)) i = Some (b, j)" "over fs j"
      using find_over [of fs i] tags assms(3) by blast
    have "entry_ok m env (cur j)" using assms(1) j(2) n by (simp add: entry_ok_over del: nested.simps)
    with assms(2) n obtain w' where w': "pb_release_single_field d env j w = Some w'"
      using release_single_returns [of m env j d w] by auto
    obtain c k where k: "pb_field_iter_find (tag (cur i)) j = Some (c, k)" "over fs k"
      using find_over [of fs j] tags j(2) by blast
    from False j k w' show ?thesis
      by (auto simp: pb_release_union_field_def Let_def split: bool.splits)
  qed
qed

text \<open>Reading a scalar takes at least one byte.\<close>

definition shorter :: "'s pb_istream \<Rightarrow> 's pb_istream \<Rightarrow> bool" where
  "shorter t s \<longleftrightarrow> unat (bytes_left t) < unat (bytes_left s)"

lemma shorter_inside: "shorter t s \<Longrightarrow> inside t u \<Longrightarrow> shorter u s"
  using inside_left [of t u] by (simp add: shorter_def)

lemma inside_varint32_loop: "varint32_loop p r s = (v, t) \<Longrightarrow> inside s t"
  by (rule within_inside) (rule within_varint32_loop)

lemma varint32_eof_shorter: "pb_decode_varint32_eof s = (Some v, eof, t) \<Longrightarrow> shorter t s"
  using pb_readbyte_decreases [of s]
  by (auto simp: pb_decode_varint32_eof_def shorter_def split: prod.splits option.splits if_splits)
    (meson inside_varint32_loop inside_left le_less_trans)

lemma varint32_shorter: "pb_decode_varint32 s = (Some v, t) \<Longrightarrow> shorter t s"
  by (auto simp: pb_decode_varint32_def split: prod.splits dest: varint32_eof_shorter)

lemma varint_shorter: "pb_decode_varint s = (Some v, t) \<Longrightarrow> shorter t s"
  unfolding pb_decode_varint_def using pb_readbyte_decreases [of s]
  by (subst (asm) varint64_loop.simps)
    (auto simp: shorter_def Let_def split: prod.splits option.splits if_splits
      dest!: within_varint64_loop dest: within_left)

lemma tag_shorter: "pb_decode_tag s = (Some r, eof, t) \<Longrightarrow> shorter t s"
  by (auto simp: pb_decode_tag_def split: prod.splits option.splits if_splits dest: varint32_eof_shorter)

lemma read_shorter: "pb_read n s = (Some b, t) \<Longrightarrow> n \<noteq> 0 \<Longrightarrow> shorter t s"
  by (simp add: shorter_def pb_read_decreases)

lemma packable_shorter:
  assumes "l \<le> PB_LTYPE_LAST_PACKABLE" "PB_DECODERS dec env l f a s w = Some (True, t, w')"
  shows "shorter t s"
  using assms unfolding packable_cases
  by (auto simp: PB_DECODERS_def pb_dec_bool_def pb_dec_varint_def pb_dec_uvarint_def pb_dec_svarint_def
      pb_dec_fixed32_def pb_dec_fixed64_def pb_decode_svarint_def pb_decode_fixed32_def pb_decode_fixed64_def Let_def
      split: prod.splits option.splits if_splits dest: varint32_shorter varint_shorter
      dest: read_shorter [of 4, simplified] read_shorter [of 8, simplified])

lemma static_packed_returns:
  assumes "\<And>s a w. func s a w \<noteq> None" "\<And>s a w t w'. func s a w = Some (True, t, w') \<Longrightarrow> shorter t s"
  shows "static_packed func i s w \<noteq> None"
proof (induction "unat (bytes_left s)" arbitrary: s w rule: less_induct)
  case less
  show ?case
  proof (cases "func s (entry_at (pData i) (cur i) (load32 (memory_of w) (pSize i))) w")
    case None
    with assms(1) show ?thesis by blast
  next
    case (Some r)
    obtain ok t w' where r: "r = (ok, t, w')" by (cases r) auto
    with Some assms(2) less show ?thesis
      by (subst static_packed.simps) (cases ok, simp_all add: Let_def shorter_def del: not_None_eq)
  qed
qed

lemma pointer_packed_returns:
  assumes "\<And>s a w. func s a w \<noteq> None" "\<And>s a w t w'. func s a w = Some (True, t, w') \<Longrightarrow> shorter t s"
    and "\<And>a w. init a w \<noteq> None" "data_size (cur i) \<noteq> 0"
  shows "pointer_packed func init env i n p s w \<noteq> None"
proof (induction "unat (bytes_left s)" arbitrary: n p s w rule: less_induct)
  case less
  from assms(4) obtain n' ok s1 w1 where g: "grow_array env i n s w = Some (n', ok, s1, w1)"
    by (cases "grow_array env i n s w") (auto simp: grow_array_def Let_def split: if_splits)
  define e where "e = entry_at (load64 (memory_of w1) (pData i)) (cur i) (load32 (memory_of w1) (pSize i))"
  obtain w2 where w2: "init e w1 = Some w2" using assms(3) by blast
  obtain ok' s2 w3 where f: "func s1 e w2 = Some (ok', s2, w3)" using assms(1) by (metis not_None_eq prod_cases3)
  have IH: "pointer_packed func init env i n' p s2 w \<noteq> None" if ok' for w
  proof (rule less)
    from f that assms(2) [of s1 e w2 s2 w3] inside_left [OF inside_grow [OF g]]
    show "unat (bytes_left s2) < unat (bytes_left s)" by (simp add: shorter_def)
  qed
  show ?case
    by (subst pointer_packed.simps) (use g w2 f IH in \<open>simp add: Let_def e_def del: not_None_eq\<close>)
qed

text \<open>The user's functions: they use up a byte when there is one, and keep their own pointer.\<close>

definition callbacks_live :: "'s denv \<Rightarrow> bool" where
  "callbacks_live env \<longleftrightarrow>
     (\<forall>fn f arg s w ok t w'. decode_cb env fn f arg s w = (ok, t, w') \<longrightarrow>
        load64 (memory_of w') (arg - 8) = load64 (memory_of w) (arg - 8) \<and>
        (ok \<and> bytes_left s \<noteq> 0 \<longrightarrow> shorter t s))"

lemma callback_loop_returns:
  assumes "callbacks_live env" "callbacks_inside env" "load64 (memory_of w) (pData i) \<noteq> 0"
  shows "callback_loop (call_decode env i) s w \<noteq> None"
  using assms(3)
proof (induction "unat (bytes_left s)" arbitrary: s w rule: less_induct)
  case less
  obtain ok t w' where r: "decode_cb env (load64 (memory_of w) (pData i)) (cur i) (pData i + 8) s w = (ok, t, w')"
    by (metis prod_cases3)
  with assms(1) have keep: "load64 (memory_of w') (pData i) = load64 (memory_of w) (pData i)"
    and short: "ok \<Longrightarrow> bytes_left s \<noteq> 0 \<Longrightarrow> shorter t s"
    unfolding callbacks_live_def by (metis add_diff_cancel_right')+
  have c: "call_decode env i s w = Some (ok, t, w')" using less.prems r by (simp add: call_decode_def)
  show ?case
  proof (cases "ok \<and> bytes_left t \<noteq> 0 \<and> bytes_left s \<noteq> 0")
    case True
    with less.hyps [of t w'] short keep less.prems c show ?thesis
      by (subst callback_loop.simps) (simp add: shorter_def del: not_None_eq)
  next
    case False
    moreover have "bytes_left t = 0" if "bytes_left s = 0"
      using inside_left [OF endsD [OF ends_call_decode [OF assms(2)] c]] that by (simp add: unat_eq_0)
    ultimately show ?thesis
      using c by (subst callback_loop.simps) (auto simp del: not_None_eq)
  qed
qed

definition decoder_live :: "nat \<Rightarrow> 's denv \<Rightarrow> (bool \<Rightarrow> 's decoder) \<Rightarrow> bool" where
  "decoder_live n env dec \<longleftrightarrow> (\<forall>init fs a s w. nested n env fs \<longrightarrow> dec init fs a s w \<noteq> None)"

lemma decoders_return:
  assumes "decoder_live n env dec" "entry_ok n env f" "PB_ATYPE (type_of f) \<noteq> PB_ATYPE_CALLBACK"
  shows "PB_DECODERS dec env (PB_LTYPE (type_of f)) f a s w \<noteq> None"
proof (cases "PB_LTYPE (type_of f)")
  case PB_LTYPE_SUBMESSAGE
  with assms have "nested n env (arrays env (ptr f))" by (simp add: entry_ok_def)
  with assms(1) have "dec b (arrays env (ptr f)) a t w \<noteq> None" for b a t w
    by (simp add: decoder_live_def del: not_None_eq)
  with PB_LTYPE_SUBMESSAGE show ?thesis
    by (auto simp: PB_DECODERS_def pb_dec_submessage_def dfail_def split: prod.split option.split bool.split
        simp del: not_None_eq)
qed (use assms in \<open>auto simp: PB_DECODERS_def entry_ok_def field_ok_def\<close>)

lemma initialize_returns:
  assumes "entry_ok n env (cur i)" "n \<le> d" "PB_ATYPE (type_of (cur i)) \<noteq> PB_ATYPE_CALLBACK"
  shows "initialize_pointer_field d env a i w \<noteq> None"
  using assms defaults_return [of n env "arrays env (ptr (cur i))" d]
  by (auto simp: initialize_pointer_field_def Let_def entry_ok_def simp del: not_None_eq)

lemma static_returns:
  assumes "decoder_live n env dec" "entry_ok n env (cur i)" "n \<le> d" "PB_ATYPE (type_of (cur i)) = PB_ATYPE_STATIC"
  shows "decode_static_field d dec env wt i s w \<noteq> None"
proof -
  note func = decoders_return [OF assms(1,2)]
  have packed: "static_packed (\<lambda>s a w. PB_DECODERS dec env (PB_LTYPE (type_of (cur i))) (cur i) a s w) i t w \<noteq> None"
    if "PB_LTYPE (type_of (cur i)) \<le> PB_LTYPE_LAST_PACKABLE" for t w
    by (rule static_packed_returns) (use func assms(4) packable_shorter [OF that] in auto)
  have defs: "pb_message_set_to_defaults d env (arrays env (ptr (cur i))) a w \<noteq> None"
    if "PB_LTYPE (type_of (cur i)) = PB_LTYPE_SUBMESSAGE" for a w
    by (rule defaults_return [OF _ assms(3)]) (use assms that in \<open>simp add: entry_ok_def\<close>)
  have sub: "PB_DECODERS dec env PB_LTYPE_SUBMESSAGE (cur i) a s w \<noteq> None"
    if "PB_LTYPE (type_of (cur i)) = PB_LTYPE_SUBMESSAGE" for a s w
    using func [of a s w] assms(4) that by simp
  show ?thesis
    using assms(4) by (cases "PB_HTYPE (type_of (cur i))")
      (auto simp: decode_static_field_def Let_def dfail_def func packed defs sub
        split: prod.split option.split bool.split simp del: not_None_eq)
qed

lemma pointer_returns:
  assumes "decoder_live n env dec" "entry_ok n env (cur i)" "n < d" "PB_ATYPE (type_of (cur i)) = PB_ATYPE_POINTER"
  shows "decode_pointer_field d dec env wt i s w \<noteq> None"
proof -
  note func = decoders_return [OF assms(1,2)]
  have no_cb: "PB_ATYPE (type_of (cur i)) \<noteq> PB_ATYPE_CALLBACK" using assms(4) by simp
  note init = initialize_returns [OF assms(2) less_imp_le [OF assms(3)] no_cb]
  have size: "data_size (cur i) \<noteq> 0" using assms(2,4) by (simp add: entry_ok_def field_ok_def)
  have packed: "pointer_packed (\<lambda>s a w. PB_DECODERS dec env (PB_LTYPE (type_of (cur i))) (cur i) a s w)
      (\<lambda>a w. initialize_pointer_field d env a i w) env i k p t w \<noteq> None"
    if "PB_LTYPE (type_of (cur i)) \<le> PB_LTYPE_LAST_PACKABLE" for k p t w
    by (rule pointer_packed_returns) (use func assms(4) packable_shorter [OF that] init size in auto)
  note release = release_single_returns [OF assms(2,3)]
  consider "PB_HTYPE (type_of (cur i)) \<noteq> PB_HTYPE_REPEATED"
    | "PB_HTYPE (type_of (cur i)) = PB_HTYPE_REPEATED"
      "wt = PB_WT_STRING \<and> PB_LTYPE (type_of (cur i)) \<le> PB_LTYPE_LAST_PACKABLE"
    | "PB_HTYPE (type_of (cur i)) = PB_HTYPE_REPEATED"
      "\<not> (wt = PB_WT_STRING \<and> PB_LTYPE (type_of (cur i)) \<le> PB_LTYPE_LAST_PACKABLE)" by blast
  then show ?thesis
  proof cases
    case 1
    have "(if PB_LTYPE (type_of (cur i)) = PB_LTYPE_SUBMESSAGE \<and> load64 (memory_of w) (pData i) \<noteq> 0
        then pb_release_single_field d env i w else Some w) \<noteq> None"
      using release [of w] by (simp del: not_None_eq)
    then obtain w1 where r: "(if PB_LTYPE (type_of (cur i)) = PB_LTYPE_SUBMESSAGE \<and> load64 (memory_of w) (pData i) \<noteq> 0
        then pb_release_single_field d env i w else Some w) = Some w1"
      by blast
    with 1 show ?thesis
      by (simp add: decode_pointer_field_def Let_def func [OF no_cb] init
          split: prod.split option.split bool.split split del: if_split del: not_None_eq)
        (simp add: func [OF no_cb] init del: not_None_eq)
  next
    case 2
    then show ?thesis
      by (auto simp: decode_pointer_field_def Let_def packed split: prod.split option.split bool.split
          simp del: not_None_eq)
  next
    case 3
    then show ?thesis
      by (auto simp: decode_pointer_field_def Let_def dfail_def func [OF no_cb] init
          split: prod.split option.split bool.split simp del: not_None_eq)
  qed
qed

lemma callback_returns:
  assumes "callbacks_live env" "callbacks_inside env"
  shows "decode_callback_field env wt i s w \<noteq> None"
proof -
  have "load64 (memory_of w) (pData i) \<noteq> 0 \<Longrightarrow> call_decode env i t w \<noteq> None" for t w
    by (simp add: call_decode_def Let_def)
  then show ?thesis
    using callback_loop_returns [OF assms]
    by (auto simp: decode_callback_field_def dfail_def split: prod.split option.split bool.split
        simp del: not_None_eq)
qed

lemma field_returns:
  assumes "decoder_live n env dec" "nested (Suc n) env fs" "n < d" "over fs i"
    "callbacks_live env" "callbacks_inside env"
  shows "\<exists>ok j t w'. decode_field d dec env wt i s w = Some (ok, j, t, w') \<and> over fs j"
proof -
  obtain ok j t w' where u: "(if PB_HTYPE (type_of (cur i)) = PB_HTYPE_ONEOF
      then pb_release_union_field d env i s w else Some (True, i, s, w)) = Some (ok, j, t, w')" "over fs j"
    using release_union_returns [OF assms(2) Suc_leI [OF assms(3)] assms(4), of s w] assms(4)
    by (cases "PB_HTYPE (type_of (cur i)) = PB_HTYPE_ONEOF") auto
  note ok = entry_ok_over [OF assms(2) u(2)]
  show ?thesis
  proof (cases ok)
    case False
    with u show ?thesis by (intro exI [of _ False]) (simp add: decode_field_def)
  next
    case True
    have "(case PB_ATYPE (type_of (cur j)) of
               PB_ATYPE_STATIC \<Rightarrow> decode_static_field d dec env wt j t w'
             | PB_ATYPE_POINTER \<Rightarrow> decode_pointer_field d dec env wt j t w'
             | PB_ATYPE_CALLBACK \<Rightarrow> decode_callback_field env wt j t w'
             | PB_ATYPE_UNDECLARED \<Rightarrow> dfail ''invalid field type'' t w') \<noteq> None"
      using static_returns [OF assms(1) ok] pointer_returns [OF assms(1) ok] callback_returns [OF assms(5,6)] assms(3)
      by (cases "PB_ATYPE (type_of (cur j))") (auto simp: dfail_def simp del: not_None_eq)
    with True u show ?thesis
      by (auto simp: decode_field_def)
  qed
qed

text \<open>One turn of the message loop: it returns, and a turn that goes on has used up the tag.\<close>

definition turn_ok :: "pb_field list \<Rightarrow> 's pb_istream \<Rightarrow> 's outcome \<Rightarrow> bool" where
  "turn_ok fs s r \<longleftrightarrow> (case r of Next v \<Rightarrow> over fs (it v) \<and> shorter (strm v) s | _ \<Rightarrow> True)"

lemma known_returns:
  assumes "decoder_live n env dec" "nested (Suc n) env fs" "n < d" "over fs (it v)"
    "callbacks_live env" "callbacks_inside env" "decoder_ends dec" "shorter (strm v) s"
  shows "\<exists>r. decode_known d dec env wt v = Some r \<and> turn_ok fs s r"
proof (cases "enter_field (local_count env d) v")
  case None
  then show ?thesis by (simp add: decode_known_def turn_ok_def)
next
  case (Some v')
  note same = enter_field_same [OF Some]
  with assms(4) have "over fs (it v')" by (simp add: over_def)
  then obtain b i t w where f: "decode_field d dec env wt (it v') (strm v') (wrld v') = Some (b, i, t, w)" "over fs i"
    using field_returns [OF assms(1-3) _ assms(5,6)] by blast
  with shorter_inside [OF assms(8)] inside_field [OF assms(7,6) f(1)] same Some
  show ?thesis by (cases b) (auto simp: turn_ok_def decode_known_def)
qed

lemma no_extension:
  assumes "nested n env fs" "over fs i"
  shows "\<exists>j. find_extension_field i = Some (False, j) \<and> over fs j"
proof -
  obtain m where n: "n = Suc m" using assms(1) by (cases n) auto
  obtain found j where j: "find_extension_field i = Some (found, j)" "over fs j"
      "found \<Longrightarrow> PB_LTYPE (type_of (cur j)) = PB_LTYPE_EXTENSION"
    using search_loop_over [of fs i "pos i"] tags_nested [OF assms(1)] assms(2)
    unfolding find_extension_field_def over_def by blast
  have "entry_ok m env (cur j)" by (rule entry_ok_over [OF assms(1) [unfolded n] j(2)])
  with j(3) have "\<not> found" by (auto simp: entry_ok_def field_ok_def)
  with j show ?thesis by simp
qed

lemma tag_bound: "pb_decode_tag s = (Some (wt, t), eof, s') \<Longrightarrow> t < - 1"
proof -
  have "drop_bit 3 x < - 1" for x :: u32
  proof -
    have "unat (drop_bit 3 x) < 2 ^ 29"
      using unsigned_less [of x, where 'a = nat] by (simp add: unat_drop_bit)
    moreover have "(- 1 :: u32) = 4294967295" by simp
    ultimately show ?thesis by (simp only: word_less_nat_alt) simp
  qed
  then show "pb_decode_tag s = (Some (wt, t), eof, s') \<Longrightarrow> t < - 1"
    by (auto simp: pb_decode_tag_def split: prod.splits option.splits if_splits)
qed

lemma unknown_returns:
  assumes "nested n env fs" "over fs (it v)" "t < - 1" "shorter (strm v) s"
  shows "\<exists>r. decode_unknown d dec env t wt v = Some r \<and> turn_ok fs s r"
proof -
  obtain j where j: "find_extension_field (it v) = Some (False, j)" "over fs j"
    using no_extension [OF assms(1,2)] by blast
  obtain ok u where u: "pb_skip_field wt (strm v) = (ok, u)" by fastforce
  have "shorter u s" using shorter_inside [OF assms(4)] inside_readers(8) [OF u] by blast
  with j u assms(2,3) show ?thesis
    by (cases ok) (auto simp: decode_unknown_def Let_def turn_ok_def not_le)
qed

lemma step_returns:
  assumes "decoder_live n env dec" "nested (Suc n) env fs" "n < d" "over fs (it v)"
    "callbacks_live env" "callbacks_inside env" "decoder_ends dec"
  shows "\<exists>r. decode_step d dec env v = Some r \<and> turn_ok fs (strm v) r"
proof (cases "bytes_left (strm v) = 0")
  case True
  then show ?thesis by (simp add: decode_step_def turn_ok_def)
next
  case False
  obtain x eof s where t: "pb_decode_tag (strm v) = (x, eof, s)" by (metis prod_cases3)
  show ?thesis
  proof (cases x)
    case None
    with False t show ?thesis by (cases eof) (auto simp: decode_step_def turn_ok_def)
  next
    case (Some y)
    obtain wt tg where y: "y = (wt, tg)" by fastforce
    with t Some have t: "pb_decode_tag (strm v) = (Some (wt, tg), eof, s)" by simp
    obtain found i where i: "pb_field_iter_find tg (it v) = Some (found, i)" "over fs i"
      using find_over [of fs "it v" tg] tags_nested [OF assms(2)] assms(4) by blast
    let ?v = "v\<lparr>strm := s, it := i\<rparr>"
    have "over fs (it ?v)" "shorter (strm ?v) (strm v)" using i(2) tag_shorter [OF t] by simp_all
    with known_returns [OF assms(1-3) _ assms(5-7)] unknown_returns [OF assms(2) _ tag_bound [OF t]] False t i(1)
    show ?thesis by (cases found) (simp_all add: decode_step_def)
  qed
qed

lemma loop_returns:
  assumes "\<And>v. over fs (it v) \<Longrightarrow> \<exists>r. step v = Some r \<and> turn_ok fs (strm v) r" "over fs (it v)"
  shows "\<exists>r. message_loop step v = Some r \<and> (\<forall>v'. r \<noteq> Next v')"
  using assms(2)
proof (induction "unat (bytes_left (strm v))" arbitrary: v rule: less_induct)
  case less
  obtain r where r: "step v = Some r" "turn_ok fs (strm v) r" using assms(1) less.prems by blast
  with less.hyps show ?case
    by (subst message_loop.simps) (cases r, auto simp: turn_ok_def shorter_def)
qed

lemma message_returns:
  assumes "decoder_live n env dec" "nested (Suc n) env fs" "n < d"
    "callbacks_live env" "callbacks_inside env" "decoder_ends dec"
  shows "decode_message d dec env fs dest s w \<noteq> None"
proof -
  define v where "v = \<lparr>strm = s, wrld = upd (\<lambda>m. store32 m (local_count env d) 0) w, it = snd (pb_field_iter_begin fs dest),
    range_start = 0, fixed_field = None, fields_seen = [0, 0]\<rparr>"
  have "over fs (it v)" by (simp add: v_def)
  from loop_returns [OF step_returns [OF assms(1-3) _ assms(4-6)] this]
  obtain r where "message_loop (decode_step d dec env) v = Some r" "\<forall>v'. r \<noteq> Next v'" by blast
  then show ?thesis by (cases r) (auto simp: decode_message_def v_def Let_def dfail_def)
qed

lemma decoder_returns:
  assumes "callbacks_live env" "callbacks_inside env"
  shows "n < d \<Longrightarrow> decoder_live n env (decode_rec d env)"
proof (induction n arbitrary: d)
  case 0
  then show ?case by (simp add: decoder_live_def)
next
  case (Suc n)
  then obtain e where d: "d = Suc e" "n < e" by (cases d) auto
  have "decode_rec d env init fs a s w \<noteq> None" if fs: "nested (Suc n) env fs" for init fs a s w
  proof -
    note msg = message_returns [OF Suc.IH [OF d(2)] fs d(2) assms decoder_ends_rec [OF assms(2)]]
    note init = defaults_return [OF fs Suc_leI [OF d(2)]] and release = release_returns [OF fs Suc_leI [OF d(2)]]
    show ?thesis
      using msg init release
      by (auto simp: d(1) init_and_decode_def split: option.split prod.split bool.split simp del: not_None_eq)
  qed
  then show ?case unfolding decoder_live_def by blast
qed

text \<open>C11:
  Decoding returns.  For a message type whose submessages nest \<open>n\<close> deep (static, pointer and callback
  fields, unions, packed and unpacked arrays, without extensions), every input, however malformed,
  every content of memory and every behaviour of the allocator lead \<open>pb_decode\<close> and
  \<open>pb_decode_noinit\<close> to a result within the recursion bound: no loop runs forever, and no null decoder
  is called.  The user's functions are assumed to use up at least a byte of a substream that has one,
  and not to overwrite the pointer through which they are called.
\<close>

theorem pb_decode_returns:
  assumes "callbacks_live env" "callbacks_inside env" "nested n env fs" "n < d"
  shows "(\<exists>ok s' w'. pb_decode d env fs dest s w = Some (ok, s', w')) \<and>
    (\<exists>ok s' w'. pb_decode_noinit d env fs dest s w = Some (ok, s', w'))"
proof -
  from decoder_returns [OF assms(1,2,4)] assms(3)
  have "pb_decode d env fs dest s w \<noteq> None" "pb_decode_noinit d env fs dest s w \<noteq> None"
    by (simp_all add: pb_decode_def pb_decode_noinit_def decoder_live_def del: not_None_eq)
  then show ?thesis by simp
qed

text \<open>A message type with a callback, a packed array on the heap and a union with a submessage.\<close>

definition rich_fields :: "pb_field list" where
  "rich_fields =
     [\<lparr>tag = 1, type_of = 0x57, data_offset = 0, size_offset = 0, data_size = 16, array_size = 0, ptr = 0\<rparr>,
      \<lparr>tag = 2, type_of = 0xA1, data_offset = 4, size_offset = - 4, data_size = 4, array_size = 0, ptr = 0\<rparr>,
      \<lparr>tag = 3, type_of = 0x38, data_offset = 4, size_offset = - 4, data_size = 16, array_size = 0, ptr = 0x7000\<rparr>,
      \<lparr>tag = 4, type_of = 0x36, data_offset = - 1, size_offset = 0, data_size = 16, array_size = 0, ptr = 0\<rparr>]"

lemma live_demo: "callbacks_live demo_denv"
  by (auto simp: callbacks_live_def demo_denv_def split: prod.splits dest: read_shorter [of 1, simplified])

lemma rich_nested: "nested 2 demo_denv rich_fields"
  by code_simp

theorem pb_decode_returns_witness:
  "\<exists>ok s' w'. pb_decode 3 demo_denv rich_fields 0x1000 (demo_input\<lparr>bytes_left := 7\<rparr>) demo_world = Some (ok, s', w')"
  using pb_decode_returns [OF live_demo callbacks_demo rich_nested, of 3 "0x1000" "demo_input\<lparr>bytes_left := 7\<rparr>" demo_world]
  by simp

end
