(* ===== verification/Pb_Decode_Memory.thy ===== *)
theory Pb_Decode_Memory
  imports Pb_Decode_Live
begin

text \<open>
  Memory safety of the message decoder: where it may write, given the layout that the descriptors of a
  message type without pointers describe, and two writes outside that layout.
\<close>

section \<open>Regions and stores\<close>

lemma unat_add_le: "unat (a + b) \<le> unat a + unat (b :: 'a::len word)"
  by (simp add: unat_word_ariths)

definition region :: "u64 \<Rightarrow> nat \<Rightarrow> u64 set" where
  "region a n = {x. unat (x - a) < n}"

lemma region_Suc: "x \<in> region (a + 1) n \<Longrightarrow> x \<in> region a (Suc n)"
proof -
  assume "x \<in> region (a + 1) n"
  then have "unat (x - (a + 1)) < n" by (simp add: region_def)
  moreover have "unat (x - a) \<le> unat (x - (a + 1)) + 1"
    using unat_add_le [of "x - (a + 1)" 1] by (simp add: algebra_simps)
  ultimately show ?thesis by (simp add: region_def)
qed

lemma region_base [simp]: "a \<in> region a (Suc n)"
  by (simp add: region_def)

lemma region_mono: "m \<le> n \<Longrightarrow> region a m \<subseteq> region a n"
  by (auto simp: region_def)

lemma region_shift:
  assumes "k + n \<le> m" "k < 2 ^ 64"
  shows "region (a + of_nat k) n \<subseteq> region a m"
proof
  fix x
  assume "x \<in> region (a + of_nat k) n"
  then have "unat (x - (a + of_nat k)) < n" by (simp add: region_def)
  moreover have "unat (x - a) \<le> unat (x - (a + of_nat k)) + unat (of_nat k :: u64)"
    using unat_add_le [of "x - (a + of_nat k)" "of_nat k"] by (simp add: algebra_simps)
  moreover have "unat (of_nat k :: u64) \<le> k" by (simp add: unat_of_nat)
  ultimately show "x \<in> region a m" using assms(1) by (simp add: region_def)
qed

lemma store_outside: "x \<notin> region a (length b) \<Longrightarrow> store m a b x = m x"
proof (induction b arbitrary: m a)
  case Nil
  then show ?case by simp
next
  case (Cons v b)
  from Cons.prems have "x \<noteq> a" by (auto simp: region_def)
  moreover have "x \<notin> region (a + 1) (length b)" using Cons.prems region_Suc by fastforce
  ultimately show ?case using Cons.IH by simp
qed

text \<open>\<open>frame S w w'\<close>: the heap has not changed, and memory only inside \<open>S\<close>.\<close>

definition frame :: "u64 set \<Rightarrow> world \<Rightarrow> world \<Rightarrow> bool" where
  "frame S w w' \<longleftrightarrow> heap w' = heap w \<and> (\<forall>x. x \<notin> S \<longrightarrow> memory_of w' x = memory_of w x)"

lemma frame_refl [simp, intro]: "frame S w w"
  by (simp add: frame_def)

lemma frame_trans: "frame S u v \<Longrightarrow> frame S v w \<Longrightarrow> frame S u w"
  by (simp add: frame_def)

lemma frame_store: "region a (length b) \<subseteq> S \<Longrightarrow> frame S w (upd (\<lambda>m. store m a b) w)"
  by (auto simp: frame_def intro!: store_outside)

lemma frame_stores [intro]:
  "region a (Suc 0) \<subseteq> S \<Longrightarrow> frame S w (upd (\<lambda>m. store8 m a b) w)"
  "region a 2 \<subseteq> S \<Longrightarrow> frame S w (upd (\<lambda>m. store16 m a h) w)"
  "region a 4 \<subseteq> S \<Longrightarrow> frame S w (upd (\<lambda>m. store32 m a v) w)"
  "region a 8 \<subseteq> S \<Longrightarrow> frame S w (upd (\<lambda>m. store64 m a x) w)"
  unfolding store8_def store16_def store32_def store64_def
  by (rule frame_store, simp add: numeral_eq_Suc)+

section \<open>The layout of a message\<close>

text \<open>The bytes of one item of a field.\<close>

definition width :: "pb_field \<Rightarrow> nat" where
  "width f = max (unat (data_size f))
     (case PB_LTYPE (type_of f) of PB_LTYPE_BOOL \<Rightarrow> 1 | PB_LTYPE_FIXED32 \<Rightarrow> 4 | PB_LTYPE_FIXED64 \<Rightarrow> 8 | _ \<Rightarrow> 0)"

text \<open>Message types without pointers and extensions, nested at most \<open>n\<close> deep.\<close>

primrec pointer_free :: "nat \<Rightarrow> 's denv \<Rightarrow> pb_field list \<Rightarrow> bool" where
  "pointer_free 0 env fs = False"
| "pointer_free (Suc n) env fs = list_all (\<lambda>f. tag f \<noteq> 0 \<and>
     PB_LTYPE (type_of f) \<noteq> PB_LTYPE_EXTENSION \<and> PB_ATYPE (type_of f) \<noteq> PB_ATYPE_POINTER \<and>
     (PB_LTYPE (type_of f) = PB_LTYPE_SUBMESSAGE \<and> PB_ATYPE (type_of f) \<noteq> PB_ATYPE_CALLBACK \<longrightarrow>
        pointer_free n env (arrays env (ptr f)))) fs"

definition pointer_free_entry :: "nat \<Rightarrow> 's denv \<Rightarrow> pb_field \<Rightarrow> bool" where
  "pointer_free_entry n env f \<longleftrightarrow>
     PB_LTYPE (type_of f) \<noteq> PB_LTYPE_EXTENSION \<and> PB_ATYPE (type_of f) \<noteq> PB_ATYPE_POINTER \<and>
     (PB_LTYPE (type_of f) = PB_LTYPE_SUBMESSAGE \<and> PB_ATYPE (type_of f) \<noteq> PB_ATYPE_CALLBACK \<longrightarrow>
        pointer_free n env (arrays env (ptr f)))"

text \<open>
  Where the decoder may write: every item of every static field, the presence flags, four bytes at the
  counter address of a repeated field and at the selectors of unions.  The counter address of an array of a
  fixed number of entries is that of its first entry: the four bytes lie in the array unless it is smaller.
  A message type without fields needs the byte at its address.
\<close>

definition field_laid :: "(pb_field list \<Rightarrow> u64 \<Rightarrow> bool) \<Rightarrow> 's denv \<Rightarrow> u64 set \<Rightarrow> pb_field_iter \<Rightarrow> bool" where
  "field_laid rec env S i \<longleftrightarrow>
     (let f = cur i;
          item = (\<lambda>a. region a (width f) \<subseteq> S \<and>
            (PB_LTYPE (type_of f) = PB_LTYPE_SUBMESSAGE \<longrightarrow> rec (arrays env (ptr f)) a)) in
      PB_ATYPE (type_of f) = PB_ATYPE_STATIC \<longrightarrow>
        (case PB_HTYPE (type_of f) of
           PB_HTYPE_REQUIRED \<Rightarrow> item (pData i)
         | PB_HTYPE_OPTIONAL \<Rightarrow> item (pData i) \<and> (pSize i \<noteq> pData i \<longrightarrow> pSize i \<in> S)
         | PB_HTYPE_REPEATED \<Rightarrow> region (pSize i) 4 \<subseteq> S \<and>
             (\<forall>k < array_size f. item (entry_at (pData i) f k))
         | PB_HTYPE_ONEOF \<Rightarrow> region (pSize i) 4 \<subseteq> S \<and> item (pData i)))"

primrec laid :: "nat \<Rightarrow> 's denv \<Rightarrow> u64 set \<Rightarrow> pb_field list \<Rightarrow> u64 \<Rightarrow> bool" where
  "laid 0 env S fs dest = False"
| "laid (Suc n) env S fs dest \<longleftrightarrow> (fs = [] \<longrightarrow> dest \<in> S) \<and>
     (\<forall>k < length fs. field_laid (laid n env S) env S (iter_at fs dest k))"

text \<open>
  An iterator over the message at \<open>dest\<close>; its counter is the local variable at \<open>c\<close> when it stands on an
  array of a fixed number of entries.
\<close>

definition stands :: "pb_field list \<Rightarrow> u64 \<Rightarrow> u64 \<Rightarrow> pb_field_iter \<Rightarrow> bool" where
  "stands fs dest c i \<longleftrightarrow> (\<exists>k. (k < length fs \<or> k = 0) \<and>
     (i = iter_at fs dest k \<or>
      PB_HTYPE (type_of (cur (iter_at fs dest k))) = PB_HTYPE_REPEATED \<and> i = (iter_at fs dest k)\<lparr>pSize := c\<rparr>))"

lemma cur_pSize [simp]: "cur (i\<lparr>pSize := c\<rparr>) = cur i" "cur (i\<lparr>pData := c\<rparr>) = cur i"
  by (simp_all add: cur_def)

lemma next_pSize:
  "PB_HTYPE (type_of (cur i)) = PB_HTYPE_REPEATED \<Longrightarrow> tag (cur i) \<noteq> 0 \<Longrightarrow>
    pb_field_iter_next (i\<lparr>pSize := c\<rparr>) = pb_field_iter_next i"
  by (simp add: pb_field_iter_next_def cur_def Let_def)

lemma stands_next:
  assumes "\<forall>f \<in> set fs. tag f \<noteq> 0" "stands fs dest c i"
  shows "stands fs dest c (snd (pb_field_iter_next i))"
proof -
  from assms(2) obtain k where k: "k < length fs \<or> k = 0"
    and i: "i = iter_at fs dest k \<or>
      PB_HTYPE (type_of (cur (iter_at fs dest k))) = PB_HTYPE_REPEATED \<and> i = (iter_at fs dest k)\<lparr>pSize := c\<rparr>"
    unfolding stands_def by blast
  show ?thesis
  proof (cases "fs = []")
    case True
    with k i have "i = iter_at [] dest 0" by (auto simp: cur_def field_at_def)
    moreover have "pb_field_iter_next (iter_at [] dest 0) = (False, iter_at [] dest 0)"
      by (simp add: pb_field_iter_next_def cur_def field_at_def PB_LAST_FIELD_def)
    ultimately show ?thesis using True by (auto simp: stands_def)
  next
    case False
    with assms(1) k have d: "descriptors fs" and k: "k < length fs" by (auto simp: descriptors_def)
    then have "tag (cur (iter_at fs dest k)) \<noteq> 0" by (simp add: cur_iter_at descriptors_def)
    with i have "snd (pb_field_iter_next i) = iter_at fs dest (Suc k mod length fs)"
      using next_pSize [of "iter_at fs dest k" c] next_cyclic [OF d k, of dest] by auto
    moreover have "Suc k mod length fs < length fs" using k by (intro mod_less_divisor) linarith
    ultimately show ?thesis by (auto simp: stands_def)
  qed
qed

lemma stands_search:
  assumes "search_loop wanted b i = Some r" "\<forall>f \<in> set fs. tag f \<noteq> 0" "stands fs dest c i"
  shows "stands fs dest c (snd r)"
  using assms
proof (induction wanted b i r rule: search_loop.raw_induct [rotated, consumes 1])
  case (1 loop wanted b i r)
  from 1(2) 1(1) [of wanted b "snd (pb_field_iter_next i)" r] 1(3,4) stands_next [OF 1(3,4)] show ?case
    by (auto simp: Let_def split: if_splits)
qed

lemma stands_find:
  assumes "pb_field_iter_find t i = Some (found, j)" "\<forall>f \<in> set fs. tag f \<noteq> 0" "stands fs dest c i"
  shows "stands fs dest c j"
  using stands_search [OF assms(1) [unfolded pb_field_iter_find_def] assms(2,3)] by simp

lemma stands_extension:
  assumes "find_extension_field i = Some (found, j)" "\<forall>f \<in> set fs. tag f \<noteq> 0" "stands fs dest c i"
  shows "stands fs dest c j"
  using stands_search [OF assms(1) [unfolded find_extension_field_def] assms(2,3)] by simp

lemma field_laid_pSize:
  "field_laid rec env S i \<Longrightarrow> PB_HTYPE (type_of (cur i)) = PB_HTYPE_REPEATED \<Longrightarrow> region c 4 \<subseteq> S \<Longrightarrow>
    field_laid rec env S (i\<lparr>pSize := c\<rparr>)"
  by (simp add: field_laid_def Let_def)

lemma stands_laid:
  assumes "laid (Suc n) env S fs dest" "stands fs dest c i" "region c 4 \<subseteq> S"
  shows "field_laid (laid n env S) env S i"
proof -
  have *: "field_laid (laid n env S) env S (iter_at fs dest k)" if "k < length fs \<or> k = 0" for k
  proof (cases "fs = []")
    case True
    with assms(1) have "dest \<in> S" by simp
    then have "region dest 1 \<subseteq> S" by (auto simp: region_def unat_eq_0)
    with True that show ?thesis
      by (simp add: field_laid_def cur_def field_at_def width_def)
        (simp add: pb_field_iter_begin_def field_at_def PB_LAST_FIELD_def Let_def)
  qed (use assms(1) that in auto)
  from assms(2) obtain k where k: "k < length fs \<or> k = 0"
    "i = iter_at fs dest k \<or>
      PB_HTYPE (type_of (cur (iter_at fs dest k))) = PB_HTYPE_REPEATED \<and> i = (iter_at fs dest k)\<lparr>pSize := c\<rparr>"
    unfolding stands_def by blast
  with * [OF k(1)] field_laid_pSize [OF * [OF k(1)] _ assms(3)] show ?thesis by auto
qed

section \<open>Writing inside the layout\<close>

lemma region_data: "region a (width f) \<subseteq> S \<Longrightarrow> n \<le> unat (data_size f) \<Longrightarrow> region a n \<subseteq> S"
  by (rule subset_trans [OF region_mono]) (simp_all add: width_def)

lemma data_size_bytes:
  assumes "data_size f = of_nat n" "n < 2 ^ 32" "region a (width f) \<subseteq> S"
  shows "region a n \<subseteq> S"
proof (rule region_data [OF assms(3)])
  show "n \<le> unat (data_size f)" unfolding assms(1) using assms(2) by (simp add: unat_of_nat)
qed

lemma frame_signed:
  "store_signed (data_size f) a v m = Some (m', x) \<Longrightarrow> region a (width f) \<subseteq> S \<Longrightarrow> memory_of w = m \<Longrightarrow>
    frame S w (upd (\<lambda>_. m') w)"
  using data_size_bytes [of f 8 a S] data_size_bytes [of f 4 a S] data_size_bytes [of f 2 a S] data_size_bytes [of f 1 a S]
  by (auto simp: store_signed_def split: if_splits)

lemma frame_unsigned:
  "store_unsigned (data_size f) a v m = Some (m', x) \<Longrightarrow> region a (width f) \<subseteq> S \<Longrightarrow> memory_of w = m \<Longrightarrow>
    frame S w (upd (\<lambda>_. m') w)"
  using data_size_bytes [of f 8 a S] data_size_bytes [of f 4 a S] data_size_bytes [of f 2 a S] data_size_bytes [of f 1 a S]
  by (auto simp: store_unsigned_def split: if_splits)

lemma pb_read_length: "pb_read n s = (Some b, t) \<Longrightarrow> length b \<le> unat n"
  by (cases "source s") (auto simp: pb_read_def read_some_def buf_read_def split: if_splits option.splits prod.splits)

lemma frame_read_into:
  assumes "read_into a n s w = (ok, t, w')" "region a (unat n) \<subseteq> S"
  shows "frame S w w'"
proof (cases "pb_read n s")
  case (Pair r u)
  show ?thesis
  proof (cases r)
    case None
    with assms(1) Pair show ?thesis by (simp add: read_into_def)
  next
    case (Some b)
    with Pair pb_read_length [of n s b u] region_mono [of "length b" "unat n" a] assms(2)
    have "region a (length b) \<subseteq> S" by auto
    from frame_store [OF this] Some Pair assms(1) show ?thesis by (auto simp: read_into_def)
  qed
qed

lemma frame_scalars:
  assumes "region a (width f) \<subseteq> S"
  shows "PB_LTYPE (type_of f) = PB_LTYPE_BOOL \<Longrightarrow> pb_dec_bool a s w = (ok, t, w') \<Longrightarrow> frame S w w'"
    and "pb_dec_varint f a s w = (ok, t, w') \<Longrightarrow> frame S w w'"
    and "pb_dec_uvarint f a s w = (ok, t, w') \<Longrightarrow> frame S w w'"
    and "pb_dec_svarint f a s w = (ok, t, w') \<Longrightarrow> frame S w w'"
    and "PB_LTYPE (type_of f) = PB_LTYPE_FIXED32 \<Longrightarrow> pb_dec_fixed32 a s w = (ok, t, w') \<Longrightarrow> frame S w w'"
    and "PB_LTYPE (type_of f) = PB_LTYPE_FIXED64 \<Longrightarrow> pb_dec_fixed64 a s w = (ok, t, w') \<Longrightarrow> frame S w w'"
proof -
  have r: "n \<le> width f \<Longrightarrow> region a n \<subseteq> S" for n using region_mono [of n "width f" a] assms by blast
  show "PB_LTYPE (type_of f) = PB_LTYPE_BOOL \<Longrightarrow> pb_dec_bool a s w = (ok, t, w') \<Longrightarrow> frame S w w'"
    using r [of 1] by (auto simp: pb_dec_bool_def width_def split: prod.splits option.splits)
  show "pb_dec_varint f a s w = (ok, t, w') \<Longrightarrow> frame S w w'"
    by (auto simp: pb_dec_varint_def Let_def split: prod.splits option.splits if_split_asm
        intro: frame_signed [OF _ assms refl])
  show "pb_dec_uvarint f a s w = (ok, t, w') \<Longrightarrow> frame S w w'"
    by (auto simp: pb_dec_uvarint_def Let_def split: prod.splits option.splits if_split_asm
        intro: frame_unsigned [OF _ assms refl])
  show "pb_dec_svarint f a s w = (ok, t, w') \<Longrightarrow> frame S w w'"
    by (auto simp: pb_dec_svarint_def Let_def split: prod.splits option.splits if_split_asm
        intro: frame_signed [OF _ assms refl])
  show "PB_LTYPE (type_of f) = PB_LTYPE_FIXED32 \<Longrightarrow> pb_dec_fixed32 a s w = (ok, t, w') \<Longrightarrow> frame S w w'"
    using r [of 4] by (auto simp: pb_dec_fixed32_def width_def split: prod.splits option.splits)
  show "PB_LTYPE (type_of f) = PB_LTYPE_FIXED64 \<Longrightarrow> pb_dec_fixed64 a s w = (ok, t, w') \<Longrightarrow> frame S w w'"
    using r [of 8] by (auto simp: pb_dec_fixed64_def width_def split: prod.splits option.splits)
qed

lemma frame_fixed_length:
  fixes s :: "'s pb_istream"
  assumes "region a (width f) \<subseteq> S" "pb_dec_fixed_length_bytes f a s w = (ok, t, w')"
  shows "frame S w w'"
proof -
  have r: "region a (unat (data_size f)) \<subseteq> S" by (rule region_data [OF assms(1)]) simp
  have "frame S w (upd (\<lambda>m. store m a (replicate (unat (data_size f)) 0)) w)"
    using r by (intro frame_store) simp
  moreover have "read_into a (ucast (data_size f)) u v = (b, x, v') \<Longrightarrow> frame S v v'"
    for u :: "'s pb_istream" and v b x v'
    by (erule frame_read_into) (simp add: r)
  ultimately show ?thesis using assms(2)
    by (auto simp: pb_dec_fixed_length_bytes_def split: prod.splits option.splits if_splits)
qed

text \<open>Bytes and strings: the size on the wire is compared with the size of the field before writing.\<close>

lemma frame_bytes:
  fixes s :: "'s pb_istream"
  assumes "region a (width f) \<subseteq> S" "PB_ATYPE (type_of f) = PB_ATYPE_STATIC" "pb_dec_bytes env f a s w = (ok, t, w')"
  shows "frame S w w'"
proof -
  have "frame S w w'" if n: "\<not> ucast (data_size f) < PB_BYTES_ARRAY_T_ALLOCSIZE n"
    and r: "read_into (a + 4) (ucast n) u (upd (\<lambda>m. store32 m a n) w) = (b, x, w')" for n b x and u :: "'s pb_istream"
  proof -
    have "unat (ucast n + 4 :: u64) = unat n + 4"
      using unsigned_less [of n, where 'a = nat] by (simp add: unat_word_ariths)
    with n have le: "unat n + 4 \<le> unat (data_size f)"
      by (simp add: PB_BYTES_ARRAY_T_ALLOCSIZE_def not_less word_le_nat_alt)
    then have "region a 4 \<subseteq> S" using region_data [OF assms(1), of 4] by simp
    then have 1: "frame S w (upd (\<lambda>m. store32 m a n) w)" by (rule frame_stores)
    have "region (a + of_nat 4) (unat n) \<subseteq> region a (unat (data_size f))"
      using le by (intro region_shift) simp_all
    then have "region (a + 4) (unat (ucast n :: u64)) \<subseteq> S" using region_data [OF assms(1) le_refl] by auto
    from frame_trans [OF 1 frame_read_into [OF r this]] show ?thesis .
  qed
  then show ?thesis using assms(2,3)
    by (auto simp: pb_dec_bytes_def Let_def split: prod.splits option.splits if_split_asm bool.splits)
qed

lemma frame_string:
  fixes s :: "'s pb_istream"
  assumes "region a (width f) \<subseteq> S" "PB_ATYPE (type_of f) = PB_ATYPE_STATIC" "pb_dec_string env f a s w = (ok, t, w')"
  shows "frame S w w'"
proof -
  have "frame S w (upd (\<lambda>m. store8 m (a + ucast n) 0) v)"
    if ov: "\<not> (ucast (n + 1) :: u64) < ucast n" and n: "\<not> (ucast (data_size f) :: u64) < ucast (n + 1)"
    and r: "read_into a (ucast n) u w = (b, x, v)" for n :: u32 and b x v and u :: "'s pb_istream"
  proof -
    have "1 + n \<noteq> 0"
    proof
      assume "1 + n = 0"
      then have "n = 4294967295" by (simp add: add_eq_0_iff)
      with ov show False by simp
    qed
    from unatSuc [OF this] have "unat (n + 1) = unat n + 1" by (simp add: add.commute)
    with n have le: "unat n + 1 \<le> unat (data_size f)" by (simp add: not_less word_le_nat_alt)
    have "region a (unat (ucast n :: u64)) \<subseteq> S" using region_data [OF assms(1), of "unat n"] le by simp
    from frame_read_into [OF r this] have 1: "frame S w v" .
    have "region (a + of_nat (unat n)) (Suc 0) \<subseteq> region a (unat (data_size f))"
      using le unsigned_less [of n, where 'a = nat] by (intro region_shift) simp_all
    then have "region (a + ucast n) (Suc 0) \<subseteq> S" using region_data [OF assms(1) le_refl] by auto
    then have "frame S v (upd (\<lambda>m. store8 m (a + ucast n) 0) v)" by (rule frame_stores)
    with 1 show ?thesis by (rule frame_trans)
  qed
  then show ?thesis using assms(2,3)
    by (auto simp: pb_dec_string_def Let_def split: prod.splits option.splits if_split_asm bool.splits)
qed

lemma pointer_free_over: "pointer_free (Suc n) env fs \<Longrightarrow> over fs i \<Longrightarrow> pointer_free_entry n env (cur i)"
  by (auto simp: over_def cur_def field_at_def pointer_free_entry_def list_all_length)

lemma pointer_free_tags: "pointer_free n env fs \<Longrightarrow> \<forall>f \<in> set fs. tag f \<noteq> 0"
  by (cases n) (auto simp: list_all_iff)

text \<open>Messages without pointers own nothing: releasing them changes nothing.\<close>

lemma each_field_same:
  "each_field rec is w = Some w' \<Longrightarrow> (\<And>i v v'. i \<in> set is \<Longrightarrow> rec i v = Some v' \<Longrightarrow> v' = v) \<Longrightarrow> w' = w"
proof (induction "is" arbitrary: w)
  case (Cons i "is")
  then obtain v where v: "rec i w = Some v" "each_field rec is v = Some w'" by (auto split: option.splits)
  have "v = w" by (rule Cons.prems(2) [OF _ v(1)]) simp
  moreover have "w' = v" by (rule Cons.IH [OF v(2)]) (rule Cons.prems(2), simp_all)
  ultimately show ?case by simp
qed simp

lemma release_items_same:
  "release_items n step rel a w = Some w' \<Longrightarrow> (\<And>a v v'. rel a v = Some v' \<Longrightarrow> v' = v) \<Longrightarrow> w' = w"
proof (induction n arbitrary: a w)
  case (Suc n)
  then obtain v where v: "rel a w = Some v" "release_items n step rel (a + step) v = Some w'"
    by (auto split: option.splits)
  from Suc.prems(2) [OF v(1)] Suc.IH [OF v(2) Suc.prems(2)] show ?case by simp
qed simp

lemma release_single_same:
  "pb_release_single_field d env i w = Some w' \<Longrightarrow> pointer_free_entry n env (cur i) \<Longrightarrow> w' = w"
proof (induction d arbitrary: n i w w')
  case 0
  then show ?case by simp
next
  case (Suc d)
  have item: "v' = v" if sub: "PB_LTYPE (type_of (cur i)) = PB_LTYPE_SUBMESSAGE" "PB_ATYPE (type_of (cur i)) \<noteq> PB_ATYPE_CALLBACK"
    and r: "each_field (pb_release_single_field d env) (all_fields (arrays env (ptr (cur i))) a) v = Some v'" for a v v'
  proof (rule each_field_same [OF r])
    fix j u u'
    assume j: "j \<in> set (all_fields (arrays env (ptr (cur i))) a)" and u: "pb_release_single_field d env j u = Some u'"
    from Suc.prems(2) sub have pf: "pointer_free n env (arrays env (ptr (cur i)))" by (simp add: pointer_free_entry_def)
    then obtain m where n: "n = Suc m" by (cases n) auto
    from all_fields_over [OF pointer_free_tags [OF pf] j] have "over (arrays env (ptr (cur i))) j" .
    from Suc.IH [OF u pointer_free_over [OF pf [unfolded n] this]] show "u' = u" .
  qed
  have items: "v' = v" if "PB_LTYPE (type_of (cur i)) = PB_LTYPE_SUBMESSAGE" "PB_ATYPE (type_of (cur i)) \<noteq> PB_ATYPE_CALLBACK"
    "release_items k st (\<lambda>a w. if a = 0 then Some w
       else each_field (pb_release_single_field d env) (all_fields (arrays env (ptr (cur i))) a) w) a v = Some v'" for k st a v v'
    by (rule release_items_same [OF that(3)]) (auto split: if_splits dest: item [OF that(1,2)])
  from Suc.prems(2) have "PB_LTYPE (type_of (cur i)) \<noteq> PB_LTYPE_EXTENSION" "PB_ATYPE (type_of (cur i)) \<noteq> PB_ATYPE_POINTER"
    by (simp_all add: pointer_free_entry_def)
  with Suc.prems(1) show ?case
    by (auto simp: Let_def split: if_splits option.splits dest: items item)
qed

lemma release_union_same:
  assumes "pb_release_union_field d env i s w = Some (ok, j, t, w')" "pointer_free (Suc n) env fs" "over fs i"
  shows "w' = w"
proof -
  note tags = pointer_free_tags [OF assms(2)]
  have "over fs k" if "pb_field_iter_find x i = Some (b, k)" for x b k
    using find_over [OF tags assms(3), of x] that by auto
  then have "v' = v" if "pb_field_iter_find x i = Some (b, k)" "pb_release_single_field d env k v = Some v'" for x b k v v'
    using release_single_same [OF that(2) pointer_free_over [OF assms(2)]] that(1) by blast
  then show ?thesis using assms(1)
    by (fastforce simp: pb_release_union_field_def Let_def split: if_splits option.splits prod.splits bool.splits)
qed

lemma release_same:
  assumes "pb_release d env fs dest w = Some w'" "pointer_free n env fs"
  shows "w' = w"
proof -
  obtain m where n: "n = Suc m" using assms(2) by (cases n) auto
  have "u' = u" if "i \<in> set (all_fields fs dest)" "pb_release_single_field d env i u = Some u'" for i u u'
    using release_single_same [OF that(2) pointer_free_over [OF assms(2) [unfolded n]
        all_fields_over [OF pointer_free_tags [OF assms(2)] that(1)]]] .
  with assms(1) show ?thesis by (auto simp: pb_release_def split: if_splits dest: each_field_same)
qed

text \<open>Default values are written inside the layout.\<close>

lemma each_field_frame:
  "each_field rec is w = Some w' \<Longrightarrow> (\<And>i v v'. i \<in> set is \<Longrightarrow> rec i v = Some v' \<Longrightarrow> frame S v v') \<Longrightarrow> frame S w w'"
proof (induction "is" arbitrary: w)
  case (Cons i "is")
  then obtain v where v: "rec i w = Some v" "each_field rec is v = Some w'" by (auto split: option.splits)
  have "frame S w v" by (rule Cons.prems(2) [OF _ v(1)]) simp
  moreover have "frame S v w'" by (rule Cons.IH [OF v(2)]) (rule Cons.prems(2), simp_all)
  ultimately show ?case by (rule frame_trans)
qed simp

lemma all_fields_laid:
  assumes "pointer_free n env fs" "laid (Suc m) env S fs a" "i \<in> set (all_fields fs a)"
  shows "field_laid (laid m env S) env S i"
proof (cases "fs = []")
  case True
  with assms(3) show ?thesis by (simp add: all_fields_empty field_at_def PB_LAST_FIELD_def)
next
  case False
  with pointer_free_tags [OF assms(1)] have "descriptors fs" by (simp add: descriptors_def)
  with assms(2,3) show ?thesis by (auto simp: all_fields_descriptors)
qed

lemma region_single: "region a (Suc 0) \<subseteq> S \<longleftrightarrow> a \<in> S"
  by (auto simp: region_def unat_eq_0)

lemma set_to_default_frame:
  "pb_field_set_to_default d env i w = Some w' \<Longrightarrow> pointer_free_entry n env (cur i) \<Longrightarrow>
    field_laid (laid n env S) env S i \<Longrightarrow> frame S w w'"
proof (induction d arbitrary: n i w w')
  case 0
  then show ?case by simp
next
  case (Suc d)
  have sub: "frame S v v'" if sub: "PB_LTYPE (type_of (cur i)) = PB_LTYPE_SUBMESSAGE" "PB_ATYPE (type_of (cur i)) = PB_ATYPE_STATIC"
    and l: "laid n env S (arrays env (ptr (cur i))) a"
    and r: "each_field (pb_field_set_to_default d env) (all_fields (arrays env (ptr (cur i))) a) v = Some v'" for a v v'
  proof (rule each_field_frame [OF r])
    fix j u u'
    assume j: "j \<in> set (all_fields (arrays env (ptr (cur i))) a)" and u: "pb_field_set_to_default d env j u = Some u'"
    from Suc.prems(2) sub have pf: "pointer_free n env (arrays env (ptr (cur i)))" by (simp add: pointer_free_entry_def)
    then obtain m where n: "n = Suc m" by (cases n) auto
    from all_fields_over [OF pointer_free_tags [OF pf] j] have "over (arrays env (ptr (cur i))) j" .
    from Suc.IH [OF u pointer_free_over [OF pf [unfolded n] this] all_fields_laid [OF pf l [unfolded n] j]]
    show "frame S u u'" .
  qed
  from Suc.prems(2) have no: "PB_LTYPE (type_of (cur i)) \<noteq> PB_LTYPE_EXTENSION" "PB_ATYPE (type_of (cur i)) \<noteq> PB_ATYPE_POINTER"
    by (simp_all add: pointer_free_entry_def)
  show ?case
  proof (cases "PB_ATYPE (type_of (cur i)) = PB_ATYPE_STATIC")
    case False
    with no Suc.prems(1) show ?thesis by (simp add: Let_def)
  next
    case True
    have data: "frame S v (upd (\<lambda>m. store m (pData i) b) v)"
      if "region (pData i) (width (cur i)) \<subseteq> S" "length b = unat (data_size (cur i))" for b v
      using region_data [OF that(1) le_refl] that(2) by (intro frame_store) simp
    have flag: "frame S v (upd (\<lambda>m. store8 m (pSize i) x) v)" if "pSize i \<in> S" for x v
      using that by (intro frame_stores(1)) (simp add: region_single)
    have both: "frame S v (v\<lparr>memory_of := store (store8 (memory_of v) (pSize i) x) (pData i) b\<rparr>)"
      if "pSize i \<in> S" "region (pData i) (width (cur i)) \<subseteq> S" "length b = unat (data_size (cur i))" for x v b
      using frame_trans [OF flag [OF that(1)] data [OF that(2,3)]] by simp
    have len: "length (load m a k) = k" for m a k by (simp add: load_def)
    show ?thesis
      using Suc.prems(1,3) True no sub [OF _ True]
      by (cases "PB_HTYPE (type_of (cur i))")
        (auto simp: Let_def field_laid_def region_single len split: if_splits
          intro: data both frame_trans [OF flag])
  qed
qed

lemma defaults_frame:
  assumes "pb_message_set_to_defaults d env fs a w = Some w'" "pointer_free n env fs" "laid n env S fs a"
  shows "frame S w w'"
proof -
  obtain m where n: "n = Suc m" using assms(2) by (cases n) auto
  have "frame S u u'" if "i \<in> set (all_fields fs a)" "pb_field_set_to_default d env i u = Some u'" for i u u'
    using set_to_default_frame [OF that(2) pointer_free_over [OF assms(2) [unfolded n]
      all_fields_over [OF pointer_free_tags [OF assms(2)] that(1)]]
      all_fields_laid [OF assms(2) assms(3) [unfolded n] that(1)]] .
  with assms(1) show ?thesis unfolding pb_message_set_to_defaults_def by (auto dest: each_field_frame)
qed

section \<open>Decoding inside the layout\<close>

definition decoder_frames :: "nat \<Rightarrow> 's denv \<Rightarrow> u64 set \<Rightarrow> (bool \<Rightarrow> 's decoder) \<Rightarrow> bool" where
  "decoder_frames n env S dec \<longleftrightarrow>
     (\<forall>init fs a s w ok t w'. pointer_free n env fs \<longrightarrow> laid n env S fs a \<longrightarrow>
        dec init fs a s w = Some (ok, t, w') \<longrightarrow> frame S w w')"

lemma decoders_frame:
  assumes "decoder_frames n env S dec" "pointer_free_entry n env f" "PB_ATYPE (type_of f) = PB_ATYPE_STATIC"
    and "region a (width f) \<subseteq> S" "PB_LTYPE (type_of f) = PB_LTYPE_SUBMESSAGE \<longrightarrow> laid n env S (arrays env (ptr f)) a"
    and "PB_DECODERS dec env (PB_LTYPE (type_of f)) f a s w = Some (ok, t, w')"
  shows "frame S w w'"
proof (cases "PB_LTYPE (type_of f)")
  case PB_LTYPE_SUBMESSAGE
  with assms have "pointer_free n env (arrays env (ptr f))" "laid n env S (arrays env (ptr f)) a"
    by (simp_all add: pointer_free_entry_def)
  with assms(1) have "dec b (arrays env (ptr f)) a u v = Some (x, y, v') \<Longrightarrow> frame S v v'" for b u v x y v'
    unfolding decoder_frames_def by blast
  with PB_LTYPE_SUBMESSAGE assms(6) show ?thesis
    by (auto simp: PB_DECODERS_def pb_dec_submessage_def dfail_def split: prod.splits option.splits bool.splits if_splits)
qed (use assms frame_scalars [OF assms(4)] frame_bytes [OF assms(4,3)] frame_string [OF assms(4,3)]
    frame_fixed_length [OF assms(4)] in \<open>simp_all add: PB_DECODERS_def\<close>)

lemma static_packed_frame:
  assumes "static_packed func i s w = Some r" "region (pSize i) 4 \<subseteq> S"
    and "\<And>k s w ok t w'. k < array_size (cur i) \<Longrightarrow> func s (entry_at (pData i) (cur i) k) w = Some (ok, t, w') \<Longrightarrow> frame S w w'"
  shows "frame S w (snd (snd r))"
  using assms
proof (induction func i s w r rule: static_packed.raw_induct [rotated, consumes 1])
  case (1 loop func i s w r)
  note IH = 1(1) [OF _ 1(3,4)] and func = 1(4)
  let ?k = "load32 (memory_of w) (pSize i)"
  show ?case
  proof (cases "bytes_left s > 0 \<and> ?k < array_size (cur i)")
    case False
    with 1(2) show ?thesis by (auto simp: Let_def split: if_splits)
  next
    case True
    with 1(2) obtain ok t v where f: "func s (entry_at (pData i) (cur i) ?k) w = Some (ok, t, v)"
      by (auto simp: Let_def split: option.splits)
    from func [OF _ f] True have wv: "frame S w v" by simp
    show ?thesis
    proof (cases ok)
      case False
      with 1(2) True f wv show ?thesis by (auto simp: Let_def)
    next
      case ok: True
      with 1(2) True f have "loop func i t (upd (\<lambda>m. store32 m (pSize i) (load32 m (pSize i) + 1)) v) = Some r"
        by (simp add: Let_def)
      from frame_trans [OF wv frame_trans [OF frame_stores(3) [OF 1(3), of v] IH [OF this]]] show ?thesis .
    qed
  qed
qed

lemma static_field_frame:
  assumes "decoder_frames n env S dec" "pointer_free_entry n env (cur i)" "PB_ATYPE (type_of (cur i)) = PB_ATYPE_STATIC"
    and "field_laid (laid n env S) env S i"
    and "decode_static_field d dec env wt i s w = Some (ok, t, w')"
  shows "frame S w w'"
proof -
  define item where "item a \<longleftrightarrow> region a (width (cur i)) \<subseteq> S \<and>
    (PB_LTYPE (type_of (cur i)) = PB_LTYPE_SUBMESSAGE \<longrightarrow> laid n env S (arrays env (ptr (cur i))) a)" for a
  have func: "frame S v v'" if "item a" "PB_DECODERS dec env (PB_LTYPE (type_of (cur i))) (cur i) a u v = Some (b, x, v')"
    for a u v b x v'
    by (rule decoders_frame [OF assms(1-3) _ _ that(2)]) (use that(1) in \<open>simp_all add: item_def\<close>)
  show ?thesis
  proof (cases "PB_HTYPE (type_of (cur i))")
    case PB_HTYPE_REQUIRED
    with assms(3-5) func show ?thesis by (auto simp: decode_static_field_def field_laid_def item_def Let_def)
  next
    case PB_HTYPE_OPTIONAL
    let ?w = "if pSize i \<noteq> pData i then upd (\<lambda>m. store8 m (pSize i) 1) w else w"
    have item: "item (pData i)" and flag: "pSize i \<noteq> pData i \<Longrightarrow> pSize i \<in> S"
      using PB_HTYPE_OPTIONAL assms(3,4) by (simp_all add: field_laid_def item_def Let_def)
    have "PB_DECODERS dec env (PB_LTYPE (type_of (cur i))) (cur i) (pData i) s ?w = Some (ok, t, w')"
      using PB_HTYPE_OPTIONAL assms(5) by (simp add: decode_static_field_def Let_def)
    from func [OF item this] have "frame S ?w w'" .
    moreover have "frame S w ?w" using flag frame_stores(1) [of "pSize i" S w 1] by (simp add: region_single)
    ultimately show ?thesis by (blast intro: frame_trans)
  next
    case PB_HTYPE_REPEATED
    with assms(3,4) have size: "region (pSize i) 4 \<subseteq> S" and items: "\<And>k. k < array_size (cur i) \<Longrightarrow> item (entry_at (pData i) (cur i) k)"
      by (simp_all add: field_laid_def item_def Let_def)
    note count = frame_stores(3) [OF size]
    have packed: "frame S v v'"
      if "static_packed (\<lambda>s a w. PB_DECODERS dec env (PB_LTYPE (type_of (cur i))) (cur i) a s w) i u v = Some (b, x, v')" for u v b x v'
      using static_packed_frame [OF that size] func items by fastforce
    show ?thesis
      using PB_HTYPE_REPEATED assms(5)
      by (auto simp: decode_static_field_def Let_def dfail_def not_le
          split: if_splits prod.splits option.splits bool.splits
          intro: count frame_trans [OF count func] items dest: packed)
  next
    case PB_HTYPE_ONEOF
    with assms(3,4) have size: "region (pSize i) 4 \<subseteq> S" and item: "item (pData i)"
      by (simp_all add: field_laid_def item_def Let_def)
    let ?w = "upd (\<lambda>m. store32 m (pSize i) (tag (cur i))) w"
    let ?z = "upd (\<lambda>m. store m (pData i) (replicate (unat (data_size (cur i))) 0)) ?w"
    have 1: "frame S w ?w" by (rule frame_stores(3) [OF size])
    show ?thesis
    proof (cases "PB_LTYPE (type_of (cur i)) = PB_LTYPE_SUBMESSAGE")
      case False
      with PB_HTYPE_ONEOF assms(5) have "PB_DECODERS dec env (PB_LTYPE (type_of (cur i))) (cur i) (pData i) s ?w = Some (ok, t, w')"
        by (simp add: decode_static_field_def Let_def)
      from frame_trans [OF 1 func [OF item this]] show ?thesis .
    next
      case True
      with PB_HTYPE_ONEOF assms(5) obtain v where
        v: "pb_message_set_to_defaults d env (arrays env (ptr (cur i))) (pData i) ?z = Some v"
        "PB_DECODERS dec env (PB_LTYPE (type_of (cur i))) (cur i) (pData i) s v = Some (ok, t, w')"
        by (auto simp: decode_static_field_def Let_def split: option.splits)
      have 2: "frame S ?w ?z"
        using item region_data [of "pData i" "cur i" S, OF _ le_refl] by (intro frame_store) (simp add: item_def)
      have 3: "frame S ?z v"
        using True item assms(2,3) by (intro defaults_frame [OF v(1)]) (auto simp: item_def pointer_free_entry_def)
      from frame_trans [OF 1 frame_trans [OF 2 frame_trans [OF 3 func [OF item v(2)]]]] show ?thesis .
    qed
  qed
qed

text \<open>The user's functions write inside the layout.\<close>

definition callbacks_frame :: "'s denv \<Rightarrow> u64 set \<Rightarrow> bool" where
  "callbacks_frame env S \<longleftrightarrow>
     (\<forall>fn f arg s w ok t w'. decode_cb env fn f arg s w = (ok, t, w') \<longrightarrow> frame S w w')"

lemma call_decode_frame:
  "callbacks_frame env S \<Longrightarrow> call_decode env i s w = Some (ok, t, w') \<Longrightarrow> frame S w w'"
  by (auto simp: callbacks_frame_def call_decode_def Let_def split: if_splits)

lemma callback_loop_frame:
  assumes "callback_loop cb s w = Some r" "\<And>s w ok t w'. cb s w = Some (ok, t, w') \<Longrightarrow> frame S w w'"
  shows "frame S w (snd (snd r))"
  using assms
proof (induction cb s w r rule: callback_loop.raw_induct [rotated, consumes 1])
  case (1 loop cb s w r)
  from 1(2) obtain ok t v where c: "cb s w = Some (ok, t, v)" by (auto split: option.splits)
  from 1(2) c 1(3) [OF c] show ?case
    by (auto split: if_splits intro: frame_trans [OF 1(3) [OF c] 1(1) [OF _ 1(3)]])
qed

lemma callback_field_frame:
  assumes "callbacks_frame env S" "decode_callback_field env wt i s w = Some (ok, t, w')"
  shows "frame S w w'"
proof -
  have "callback_loop (call_decode env i) u v = Some (b, x, v') \<Longrightarrow> frame S v v'" for u v b x v'
    using callback_loop_frame [of "call_decode env i" u v "(b, x, v')" S] call_decode_frame [OF assms(1)] by auto
  with assms(2) call_decode_frame [OF assms(1)] show ?thesis
    by (auto simp: decode_callback_field_def dfail_def split: if_splits prod.splits option.splits bool.splits)
qed

lemma stands_over: "stands fs dest c i \<Longrightarrow> \<forall>f \<in> set fs. tag f \<noteq> 0 \<Longrightarrow> over fs i"
proof -
  assume s: "stands fs dest c i" and tags: "\<forall>f \<in> set fs. tag f \<noteq> 0"
  from s obtain k where k: "k < length fs \<or> k = 0"
    "i = iter_at fs dest k \<or> i = (iter_at fs dest k)\<lparr>pSize := c\<rparr>" unfolding stands_def by blast
  have "over fs (iter_at fs dest k)"
  proof (cases "fs = []")
    case True
    with k show ?thesis by simp
  next
    case False
    with tags k(1) show ?thesis by (auto simp: over_def iter_at_pos descriptors_def)
  qed
  with k(2) show "over fs i" by auto
qed

lemma decode_field_frame:
  assumes "decoder_frames n env S dec" "pointer_free (Suc n) env fs" "laid (Suc n) env S fs dest"
    and "callbacks_frame env S" "stands fs dest c i" "region c 4 \<subseteq> S"
    and "decode_field d dec env wt i s w = Some (ok, j, t, w')"
  shows "frame S w w' \<and> stands fs dest c j"
proof -
  note tags = pointer_free_tags [OF assms(2)]
  have union: "v = w \<and> stands fs dest c k"
    if "pb_release_union_field d env i s w = Some (b, k, u, v)" for b k u v
  proof
    show "v = w" by (rule release_union_same [OF that assms(2) stands_over [OF assms(5) tags]])
    show "stands fs dest c k" using that assms(5)
      by (auto simp: pb_release_union_field_def Let_def split: if_splits option.splits prod.splits bool.splits
          dest: stands_find [OF _ tags])
  qed
  obtain b k u where u: "(if PB_HTYPE (type_of (cur i)) = PB_HTYPE_ONEOF then pb_release_union_field d env i s w
      else Some (True, i, s, w)) = Some (b, k, u, w)" "stands fs dest c k"
    using assms(5,7) union by (auto simp: decode_field_def split: if_splits option.splits)
  show ?thesis
  proof (cases b)
    case False
    with u assms(7) show ?thesis by (simp add: decode_field_def)
  next
    case True
    have pf: "pointer_free_entry n env (cur k)" by (rule pointer_free_over [OF assms(2) stands_over [OF u(2) tags]])
    note laid = stands_laid [OF assms(3) u(2) assms(6)]
    from True u assms(7) have j: "j = k" and r: "(case PB_ATYPE (type_of (cur k)) of
               PB_ATYPE_STATIC \<Rightarrow> decode_static_field d dec env wt k u w
             | PB_ATYPE_POINTER \<Rightarrow> decode_pointer_field d dec env wt k u w
             | PB_ATYPE_CALLBACK \<Rightarrow> decode_callback_field env wt k u w
             | PB_ATYPE_UNDECLARED \<Rightarrow> dfail ''invalid field type'' u w) = Some (ok, t, w')"
      by (auto simp: decode_field_def)
    from r pf static_field_frame [OF assms(1) pf _ laid] callback_field_frame [OF assms(4)]
    have "frame S w w'"
      by (cases "PB_ATYPE (type_of (cur k))") (auto simp: dfail_def pointer_free_entry_def)
    with j u(2) show ?thesis by simp
  qed
qed

text \<open>The memory of an outcome, and the iterator of one that goes on.\<close>

definition turn_frame :: "pb_field list \<Rightarrow> u64 \<Rightarrow> u64 \<Rightarrow> u64 set \<Rightarrow> world \<Rightarrow> 's outcome \<Rightarrow> bool" where
  "turn_frame fs dest c S w r \<longleftrightarrow>
     (case r of Next v \<Rightarrow> frame S w (wrld v) \<and> stands fs dest c (it v)
      | Stop v \<Rightarrow> frame S w (wrld v) | Return ok s w' \<Rightarrow> frame S w w')"

lemma enter_field_frame:
  assumes "enter_field c v = Some v'" "stands fs dest c (it v)" "region c 4 \<subseteq> S"
  shows "frame S (wrld v) (wrld v') \<and> stands fs dest c (it v')"
proof -
  from assms(2) obtain k where k: "k < length fs \<or> k = 0"
    "it v = iter_at fs dest k \<or> it v = (iter_at fs dest k)\<lparr>pSize := c\<rparr>" unfolding stands_def by blast
  have moved: "stands fs dest c ((it v)\<lparr>pSize := c\<rparr>)" if "PB_HTYPE (type_of (cur (it v))) = PB_HTYPE_REPEATED"
    unfolding stands_def using k that by (intro exI [of _ k]) auto
  show ?thesis
  proof (cases "PB_HTYPE (type_of (cur (it v))) = PB_HTYPE_REPEATED \<and> pSize (it v) = pData (it v)")
    case True
    with assms(1,2) moved frame_stores(3) [OF assms(3)] show ?thesis
      by (auto simp: enter_field_def Let_def split: if_split_asm)
  next
    case False
    then have "(PB_HTYPE (type_of (cur (it v))) = PB_HTYPE_REPEATED \<and> pSize (it v) = pData (it v)) = False" by simp
    with assms(1,2) show ?thesis
      by (simp only: enter_field_def Let_def) (auto split: if_split_asm)
  qed
qed

lemma known_frame:
  assumes "decoder_frames n env S dec" "pointer_free (Suc n) env fs" "laid (Suc n) env S fs dest"
    and "callbacks_frame env S" "stands fs dest (local_count env d) (it v)" "region (local_count env d) 4 \<subseteq> S"
    and "decode_known d dec env wt v = Some r"
  shows "turn_frame fs dest (local_count env d) S (wrld v) r"
proof (cases "enter_field (local_count env d) v")
  case None
  with assms(7) show ?thesis by (auto simp: decode_known_def turn_frame_def)
next
  case (Some v')
  note enter = enter_field_frame [OF Some assms(5,6)]
  from Some assms(7) obtain ok j t w where
    f: "decode_field d dec env wt (it v') (strm v') (wrld v') = Some (ok, j, t, w)"
    by (auto simp: decode_known_def split: option.splits)
  from decode_field_frame [OF assms(1-4) enter [THEN conjunct2] assms(6) f]
  have "frame S (wrld v) w \<and> stands fs dest (local_count env d) j" using enter by (blast intro: frame_trans)
  with Some f assms(7) show ?thesis
    by (cases ok) (auto simp: decode_known_def turn_frame_def)
qed

lemma unknown_frame:
  assumes "pointer_free n env fs" "stands fs dest c (it v)" "t < - 1"
    and "decode_unknown d dec env t wt v = Some r"
  shows "turn_frame fs dest c S (wrld v) r"
proof -
  note tags = pointer_free_tags [OF assms(1)]
  have ext: "\<not> found \<and> stands fs dest c j" if "find_extension_field (it v) = Some (found, j)" for found j
  proof
    obtain m where n: "n = Suc m" using assms(1) by (cases n) auto
    note o = stands_over [OF assms(2) tags]
    have "pos (it v) < length fs \<or> pos (it v) = 0" using o by (simp add: over_def)
    from that search_loop_over [OF tags o this, of "\<lambda>f. PB_LTYPE (type_of f) = PB_LTYPE_EXTENSION"]
    have "over fs j \<and> (found \<longrightarrow> PB_LTYPE (type_of (cur j)) = PB_LTYPE_EXTENSION)"
      unfolding find_extension_field_def by auto
    with pointer_free_over [OF assms(1) [unfolded n], of j] show "\<not> found" by (auto simp: pointer_free_entry_def)
    show "stands fs dest c j" by (rule stands_extension [OF that tags assms(2)])
  qed
  show ?thesis
  proof (cases "t \<ge> range_start v")
    case False
    with assms(2,4) show ?thesis
      by (auto simp: decode_unknown_def turn_frame_def split: prod.splits bool.splits)
  next
    case True
    with assms(4) obtain found j where f: "find_extension_field (it v) = Some (found, j)"
      by (auto simp: decode_unknown_def split: option.splits)
    from ext [OF f] f True assms(3,4) show ?thesis
      by (auto simp: decode_unknown_def turn_frame_def Let_def split: prod.splits bool.splits if_splits)
  qed
qed

lemma step_frame:
  assumes "decoder_frames n env S dec" "pointer_free (Suc n) env fs" "laid (Suc n) env S fs dest"
    and "callbacks_frame env S" "region (local_count env d) 4 \<subseteq> S"
    and "stands fs dest (local_count env d) (it v)" "decode_step d dec env v = Some r"
  shows "turn_frame fs dest (local_count env d) S (wrld v) r"
proof (cases "bytes_left (strm v) = 0")
  case True
  with assms(7) show ?thesis by (auto simp: decode_step_def turn_frame_def)
next
  case False
  obtain x eof s where t: "pb_decode_tag (strm v) = (x, eof, s)" by (metis prod_cases3)
  show ?thesis
  proof (cases x)
    case None
    with False t assms(7) show ?thesis by (cases eof) (auto simp: decode_step_def turn_frame_def)
  next
    case (Some y)
    obtain wt tg where y: "y = (wt, tg)" by fastforce
    with t Some have t: "pb_decode_tag (strm v) = (Some (wt, tg), eof, s)" by simp
    with False assms(7) obtain found i where i: "pb_field_iter_find tg (it v) = Some (found, i)"
      by (auto simp: decode_step_def Let_def split: option.splits)
    let ?v = "v\<lparr>strm := s, it := i\<rparr>"
    have "stands fs dest (local_count env d) (it ?v)"
      using stands_find [OF i pointer_free_tags [OF assms(2)] assms(6)] by simp
    with known_frame [OF assms(1-4) _ assms(5), of ?v wt r] unknown_frame [OF assms(2) _ tag_bound [OF t], of dest "local_count env d" ?v d dec wt r S]
      False t i assms(7)
    show ?thesis by (cases found) (simp_all add: decode_step_def)
  qed
qed

lemma loop_frame:
  assumes "message_loop step v = Some r" "stands fs dest c (it v)"
    and "\<And>v r. stands fs dest c (it v) \<Longrightarrow> step v = Some r \<Longrightarrow> turn_frame fs dest c S (wrld v) r"
  shows "turn_frame fs dest c S (wrld v) r"
  using assms
proof (induction step v r rule: message_loop.raw_induct [rotated, consumes 1])
  case (1 loop step v r)
  from 1(2) obtain r' where r': "step v = Some r'" by (cases "step v") auto
  note turn = 1(4) [OF 1(3) r']
  show ?case
  proof (cases r')
    case (Next v')
    with turn have v': "frame S (wrld v) (wrld v')" "stands fs dest c (it v')" by (simp_all add: turn_frame_def)
    from 1(2) r' Next have "loop step v' = Some r" by simp
    from 1(1) [OF this v'(2) 1(4)] have "turn_frame fs dest c S (wrld v') r" .
    with v'(1) show ?thesis by (auto simp: turn_frame_def split: outcome.splits intro: frame_trans)
  qed (use 1(2) r' turn in auto)
qed

lemma message_frame:
  assumes "decoder_frames n env S dec" "pointer_free (Suc n) env fs" "laid (Suc n) env S fs dest"
    and "callbacks_frame env S" "region (local_count env d) 4 \<subseteq> S"
    and "decode_message d dec env fs dest s w = Some (ok, t, w')"
  shows "frame S w w'"
proof -
  define v where "v = \<lparr>strm = s, wrld = upd (\<lambda>m. store32 m (local_count env d) 0) w, it = snd (pb_field_iter_begin fs dest),
    range_start = 0, fixed_field = None, fields_seen = [0, 0]\<rparr>"
  have "stands fs dest (local_count env d) (it v)" unfolding stands_def v_def by (intro exI [of _ 0]) simp
  from loop_frame [OF _ this step_frame [OF assms(1-5)]]
  have "message_loop (decode_step d dec env) v = Some r \<Longrightarrow> turn_frame fs dest (local_count env d) S (wrld v) r" for r .
  moreover have "frame S w (wrld v)" using frame_stores(3) [OF assms(5)] by (simp add: v_def)
  ultimately show ?thesis using assms(6)
    by (auto simp: decode_message_def v_def [symmetric] Let_def dfail_def turn_frame_def
        split: option.splits outcome.splits if_splits intro: frame_trans)
qed

lemma decode_rec_frame:
  assumes "callbacks_frame env S"
  shows "\<forall>e < d. region (local_count env e) 4 \<subseteq> S \<Longrightarrow> decoder_frames n env S (decode_rec d env)"
proof (induction d arbitrary: n)
  case 0
  then show ?case by (simp add: decoder_frames_def)
next
  case (Suc d)
  then have IH: "decoder_frames m env S (decode_rec d env)" for m by simp
  from Suc.prems have c: "region (local_count env d) 4 \<subseteq> S" by simp
  show ?case unfolding decoder_frames_def
  proof (intro allI impI)
    fix init fs a w ok w' and s t :: "'a pb_istream"
    assume pf: "pointer_free n env fs" and laid: "laid n env S fs a"
      and r: "decode_rec (Suc d) env init fs a s w = Some (ok, t, w')"
    from pf obtain m where n: "n = Suc m" by (cases n) auto
    note msg = message_frame [OF IH pf [unfolded n] laid [unfolded n] assms(1) c]
    show "frame S w w'"
      using r msg defaults_frame [OF _ pf laid] release_same [OF _ pf]
      by (fastforce simp: init_and_decode_def split: if_splits option.splits prod.splits bool.splits intro: frame_trans)
  qed
qed

text \<open>C5:
  Where decoding writes.  For a message type without pointers and extensions, let \<open>S\<close> contain what \<open>laid\<close>
  asks for: the bytes of every item, the presence flags, four bytes at the counter of every repeated field
  and at the selector of every union, the byte at the address of a message without fields, and the local
  counters of the activations.  Then no input makes \<open>pb_decode\<close> change a byte outside \<open>S\<close> or touch the heap,
  whether it succeeds or fails: lengths on the wire, entry counts, nested messages and unions never lead a
  write elsewhere.  An array of a fixed number of entries has its counter address at its first entry, so
  that for one of fewer than four bytes \<open>S\<close> has to reach beyond it (see the last section).
\<close>

theorem pb_decode_writes_inside:
  assumes "pointer_free n env fs" "laid n env S fs dest" "callbacks_frame env S"
    and "\<forall>e < d. region (local_count env e) 4 \<subseteq> S"
    and "pb_decode d env fs dest s w = Some (ok, s', w')"
  shows "heap w' = heap w \<and> (\<forall>x. x \<notin> S \<longrightarrow> memory_of w' x = memory_of w x)"
  using decode_rec_frame [OF assms(3,4), of n] assms(1,2,5)
  unfolding decoder_frames_def pb_decode_def frame_def by blast

lemma demo_laid:
  assumes "region 0x1000 13 \<subseteq> S"
  shows "laid 1 demo_denv S demo_fields 0x1000"
proof -
  have c: "cur (iter_at demo_fields 0x1000 0) = demo_fields ! 0" "cur (iter_at demo_fields 0x1000 1) = demo_fields ! 1"
    "pData (iter_at demo_fields 0x1000 0) = 0x1000" "pData (iter_at demo_fields 0x1000 1) = 0x1005"
    "pSize (iter_at demo_fields 0x1000 1) = 0x1004" by code_simp+
  have t: "PB_LTYPE (type_of (demo_fields ! 0)) = PB_LTYPE_VARINT" "PB_HTYPE (type_of (demo_fields ! 0)) = PB_HTYPE_REQUIRED"
    "PB_LTYPE (type_of (demo_fields ! 1)) = PB_LTYPE_STRING" "PB_HTYPE (type_of (demo_fields ! 1)) = PB_HTYPE_OPTIONAL"
    "width (demo_fields ! 0) = 4" "width (demo_fields ! 1) = 8" by code_simp+
  have "region 0x1000 4 \<subseteq> S" "region 0x1005 8 \<subseteq> S" "0x1004 \<in> S"
    using assms region_mono [of 4 13 "0x1000"] region_shift [of 5 8 13 "0x1000"] by (auto simp: region_def)
  with c t show ?thesis by (auto simp: demo_fields_def less_Suc_eq field_laid_def Let_def)
qed

theorem pb_decode_writes_inside_witness:
  "\<exists>s' w'. pb_decode 3 demo_denv demo_fields 0x1000 demo_input demo_world = Some (True, s', w') \<and>
    memory_of w' 0x100D = 0xAA \<and> memory_of w' 0x2000 = 0xAA"
proof -
  from ranD [OF demo_runs] obtain s' w' where
    r: "pb_decode 3 demo_denv demo_fields 0x1000 demo_input demo_world = Some (True, s', w')" by blast
  define S where "S = region 0x1000 13 \<union> region 0x100 20"
  have 1: "pointer_free 1 (demo_denv :: unit denv) demo_fields" by code_simp
  have 2: "laid 1 (demo_denv :: unit denv) S demo_fields 0x1000" by (rule demo_laid) (simp add: S_def)
  have 3: "callbacks_frame (demo_denv :: unit denv) S"
    by (auto simp: callbacks_frame_def demo_denv_def split: prod.splits)
  have 4: "\<forall>e < 3. region (local_count (demo_denv :: unit denv) e) 4 \<subseteq> S"
  proof (intro allI impI)
    fix e :: nat
    assume "e < 3"
    then have "8 * e + 4 \<le> 20" "8 * e < 2 ^ 64" by simp_all
    from region_shift [OF this, of "0x100"] show "region (local_count (demo_denv :: unit denv) e) 4 \<subseteq> S"
      by (auto simp: demo_denv_def S_def)
  qed
  from pb_decode_writes_inside [OF 1 2 3 4 r] r show ?thesis
    by (auto simp: S_def region_def demo_world_def)
qed

section \<open>Writes outside a field\<close>

lemma store32_zero: "k < 4 \<Longrightarrow> store32 m a 0 (a + of_nat k) = 0"
  by (auto simp: store32_def less_Suc_eq numeral_eq_Suc)

lemma store32_zero_keeps: "m x = 0 \<Longrightarrow> store32 m a 0 x = 0"
  by (simp add: store32_def)

lemma store32_outside: "x \<notin> region a 4 \<Longrightarrow> store32 m a v x = m x"
  unfolding store32_def by (rule store_outside) (simp add: numeral_eq_Suc)

text \<open>
  An array of a fixed number of entries has no counter: its descriptor has the size offset 0, so that
  \<open>pSize\<close> is the address of the first entry.  Setting the default writes a four-byte zero there, whatever
  the size of the array.
\<close>

definition fixed_array :: "pb_field \<Rightarrow> bool" where
  "fixed_array f \<longleftrightarrow> tag f \<noteq> 0 \<and> PB_LTYPE (type_of f) \<noteq> PB_LTYPE_EXTENSION \<and>
     PB_ATYPE (type_of f) = PB_ATYPE_STATIC \<and> PB_HTYPE (type_of f) = PB_HTYPE_REPEATED \<and> size_offset f = 0"

lemma fixed_array_default:
  "fixed_array (cur i) \<Longrightarrow> pSize i = pData i \<Longrightarrow>
    pb_field_set_to_default (Suc d) env i w = Some (upd (\<lambda>m. store32 m (pData i) 0) w)"
  by (simp add: fixed_array_def)

lemma no_fields_required: "all_seen 0 seen"
  by (simp add: all_seen_def)

lemma decode_message_end:
  assumes "bytes_left s = 0" "required_count (snd (pb_field_iter_begin fs dest)) = 0"
  shows "decode_message d dec env fs dest s w = Some (True, s, upd (\<lambda>m. store32 m (local_count env d) 0) w)"
  using assms
  by (simp add: decode_message_def Let_def message_loop.simps decode_step_def fixed_incomplete_def no_fields_required)

lemma pb_decode_fixed_array:
  assumes "fixed_array f" "bytes_left s = 0"
  shows "\<exists>w'. pb_decode (Suc (Suc d)) env [f] dest s w = Some (True, s, w') \<and>
    (\<forall>k < 4. memory_of w' (dest + ucast (data_offset f) + of_nat k) = 0)"
proof -
  let ?i = "snd (pb_field_iter_begin [f] dest)"
  have i: "cur ?i = f" "pData ?i = dest + ucast (data_offset f)" "pSize ?i = pData ?i"
    using assms(1) by (simp_all add: pb_field_iter_begin_def cur_def field_at_def fixed_array_def Let_def)
  have n: "pb_field_iter_next ?i = (False, ?i)"
    using next_last [of ?i] assms(1) by (simp add: descriptors_def fixed_array_def)
  have "all_fields [f] dest = [?i]"
    using assms(1) all_fields_descriptors [of "[f]" dest] by (simp add: fixed_array_def descriptors_def)
  then have "pb_message_set_to_defaults (Suc d) env [f] dest w = Some (upd (\<lambda>m. store32 m (pData ?i) 0) w)"
    using fixed_array_default [of ?i d env w] i assms(1) by (simp add: pb_message_set_to_defaults_def)
  moreover have "required_count ?i = 0"
    using n assms(1) i(1) by (simp add: required_count_def fixed_array_def)
  ultimately have "pb_decode (Suc (Suc d)) env [f] dest s w = Some (True, s,
      upd (\<lambda>m. store32 m (local_count env (Suc d)) 0) (upd (\<lambda>m. store32 m (pData ?i) 0) w))"
    using decode_message_end [OF assms(2)] by (simp add: pb_decode_def init_and_decode_def)
  then show ?thesis using store32_zero store32_zero_keeps i(2) by simp
qed

text \<open>
  The search for the field with the tag 0 finds the terminator of a message type without fields, which
  is then decoded as a required \<open>bool\<close>.
\<close>

lemma last_field: "cur (snd (pb_field_iter_begin [] dest)) = PB_LAST_FIELD"
  "pData (snd (pb_field_iter_begin [] dest)) = dest"
  by (simp_all add: cur_def field_at_def pb_field_iter_begin_def PB_LAST_FIELD_def Let_def)

lemma find_last_field:
  "pb_field_iter_find 0 (snd (pb_field_iter_begin [] dest)) = Some (True, snd (pb_field_iter_begin [] dest))"
  by (simp add: pb_field_iter_find_def search_loop.simps last_field PB_LAST_FIELD_def PB_LTYPE_def pb_ltypes_def)

lemma decode_last_field:
  assumes "holds s (varint (unat (v :: u32))) m" "cur i = PB_LAST_FIELD"
  shows "\<exists>s'. decode_field d dec env wt i s w =
      Some (True, i, s', upd (\<lambda>m. store8 m (pData i) (if v \<noteq> 0 then 1 else 0)) w) \<and> holds s' [] m"
proof -
  from assms(1) have "holds s (varint (unat v) @ []) m" by simp
  from pb_decode_varint32_holds [OF this] obtain s' where
    "pb_decode_varint32 s = (Some v, s')" "reached s s' [] m" by blast
  with assms(2) show ?thesis
    by (simp add: decode_field_def decode_static_field_def PB_LAST_FIELD_def PB_LTYPE_def PB_HTYPE_def PB_ATYPE_def
        pb_ltypes_def PB_DECODERS_def pb_dec_bool_def reached_def)
qed

lemma pb_decode_no_fields:
  assumes "holds s (tag_bytes wt 0 @ varint (unat (v :: u32))) m" "unat wt < 8" "wt \<noteq> 0"
  shows "\<exists>s' w'. pb_decode (Suc d) env [] dest s w = Some (True, s', w') \<and>
    (\<forall>x. x \<notin> region (local_count env d) 4 \<longrightarrow>
      memory_of w' x = (if x = dest then if v \<noteq> 0 then 1 else 0 else memory_of w x))"
proof -
  let ?i = "snd (pb_field_iter_begin [] dest)"
  define v0 where "v0 = \<lparr>strm = s, wrld = upd (\<lambda>m. store32 m (local_count env d) 0) w, it = ?i,
    range_start = 0, fixed_field = None, fields_seen = [0, 0]\<rparr>"
  have "tag_ok (wt, 0)" using assms(2,3) by (simp add: tag_ok_def)
  from pb_decode_tag_holds [OF assms(1) this] obtain s1 where
    s1: "pb_decode_tag s = (Some (wt, 0), False, s1)" "reached s s1 (varint (unat v)) m" by blast
  have left: "bytes_left s \<noteq> 0" using holds_left [OF assms(1)] by (auto simp: tag_bytes_def)
  define v1 where "v1 = v0\<lparr>strm := s1, fields_seen := [1, 0]\<rparr>"
  have enter: "enter_field c (v0\<lparr>strm := s1, it := ?i\<rparr>) = Some v1" for c
    by (simp add: enter_field_def last_field PB_LAST_FIELD_def PB_HTYPE_def PB_MAX_REQUIRED_FIELDS_def v0_def v1_def)
  from decode_last_field [OF reached_holds [OF s1(2)] last_field(1) [of dest],
      where d = d and dec = "decode_rec d env" and env = env and wt = wt and w = "wrld v0"]
  obtain s2 where s2: "decode_field d (decode_rec d env) env wt ?i s1 (wrld v0) =
      Some (True, ?i, s2, upd (\<lambda>m. store8 m dest (if v \<noteq> 0 then 1 else 0)) (wrld v0))" "holds s2 [] m"
    by (auto simp: last_field)
  define v2 where "v2 = v1\<lparr>strm := s2, wrld := upd (\<lambda>m. store8 m dest (if v \<noteq> 0 then 1 else 0)) (wrld v0)\<rparr>"
  have first: "decode_step d (decode_rec d env) env v0 = Some (Next v2)"
    using left s1(1) s2(1) enter find_last_field [of dest]
    by (simp add: decode_step_def decode_known_def v0_def v1_def v2_def)
  have "bytes_left s2 = 0" using holds_left [OF s2(2)] by (simp add: unat_eq_0)
  then have second: "decode_step d (decode_rec d env) env v2 = Some (Stop v2)"
    by (simp add: decode_step_def v2_def)
  have "message_loop (decode_step d (decode_rec d env) env) v0 = Some (Stop v2)"
    using first second by (simp add: message_loop.simps)
  moreover have "required_count ?i = 0"
    by (simp add: required_count_def field_at_def PB_LAST_FIELD_def)
  moreover have "\<not> fixed_incomplete (local_count env d) v2" "it v2 = ?i" "strm v2 = s2"
    by (simp_all add: fixed_incomplete_def v2_def v1_def v0_def)
  ultimately have "decode_message d (decode_rec d env) env [] dest s w = Some (True, s2, wrld v2)"
    by (simp add: decode_message_def v0_def [symmetric] no_fields_required)
  moreover have "pb_message_set_to_defaults d env [] dest w = Some w"
    by (simp add: pb_message_set_to_defaults_def all_fields_empty field_at_def PB_LAST_FIELD_def)
  ultimately have "pb_decode (Suc d) env [] dest s w = Some (True, s2, wrld v2)"
    by (simp add: pb_decode_def init_and_decode_def)
  moreover have "memory_of (wrld v2) x = (if x = dest then if v \<noteq> 0 then 1 else 0 else memory_of w x)"
    if "x \<notin> region (local_count env d) 4" for x
    using that store32_outside [of x "local_count env d"] by (simp add: v2_def v1_def v0_def store8_def)
  ultimately show ?thesis by blast
qed

text \<open>C18:
  Two writes outside a field.  In every message type the default of a static array of a fixed number of
  entries is a four-byte zero at its first entry, so that an array of fewer than four bytes is overrun:
  decoding an empty input into a message type that consists of such an array ends well with the four bytes
  zero.  And decoding a field with the tag 0, any wire type from 1 to 7 and a varint into a message type
  without fields ends well and stores a byte at the address of the message, 1 unless the varint is zero.
\<close>

theorem pb_decode_stray_writes:
  assumes "fixed_array f" "bytes_left s = 0"
    and "holds t (tag_bytes wt 0 @ varint (unat (v :: u32))) m" "unat wt < 8" "wt \<noteq> 0"
  shows "(\<forall>i. cur i = f \<and> pSize i = pData i \<longrightarrow>
      pb_field_set_to_default (Suc d) env i w = Some (upd (\<lambda>m. store32 m (pData i) 0) w)) \<and>
    (\<exists>w'. pb_decode (Suc (Suc d)) env [f] dest s w = Some (True, s, w') \<and>
      (\<forall>k < 4. memory_of w' (dest + ucast (data_offset f) + of_nat k) = 0)) \<and>
    (\<exists>t' w'. pb_decode (Suc (Suc d)) env [] dest t w = Some (True, t', w') \<and>
      (\<forall>x. x \<notin> region (local_count env (Suc d)) 4 \<longrightarrow>
        memory_of w' x = (if x = dest then if v \<noteq> 0 then 1 else 0 else memory_of w x)))"
  using fixed_array_default [of _ d env w] pb_decode_fixed_array [OF assms(1,2)] pb_decode_no_fields [OF assms(3-5)]
    assms(1) by blast

text \<open>An array of two one-byte integers.\<close>

definition pair_field :: pb_field where
  "pair_field = \<lparr>tag = 1, type_of = 0x21, data_offset = 0, size_offset = 0, data_size = 1, array_size = 2, ptr = 0\<rparr>"

theorem pb_decode_stray_writes_witness:
  "(\<exists>w'. pb_decode 2 demo_denv [pair_field] 0x1000 (pb_istream_from_buffer [] 0 :: unit pb_istream) demo_world =
      Some (True, pb_istream_from_buffer [] 0, w') \<and> memory_of demo_world 0x1003 \<noteq> 0 \<and> memory_of w' 0x1003 = 0) \<and>
   (\<exists>s' w'. pb_decode 2 demo_denv [] 0x1000 (pb_istream_from_buffer [0x02, 0x05] 2 :: unit pb_istream) demo_world =
      Some (True, s', w') \<and> memory_of demo_world 0x1000 \<noteq> 1 \<and> memory_of w' 0x1000 = 1)"
proof -
  let ?s = "pb_istream_from_buffer [] 0 :: unit pb_istream" and ?t = "pb_istream_from_buffer [0x02, 0x05] 2 :: unit pb_istream"
  have 1: "fixed_array pair_field" by code_simp
  have 2: "bytes_left ?s = 0" by (simp add: pb_istream_from_buffer_def)
  have "tag_bytes 2 0 @ varint (unat (5 :: u32)) = [0x02, 0x05]" by (simp add: tag_bytes_def)
  then have 3: "holds ?t (tag_bytes 2 0 @ varint (unat (5 :: u32))) []"
    using holds_from_buffer [of "[0x02, 0x05]"] by simp
  have "unat (2 :: u32) < 8" "(2 :: u32) \<noteq> 0" by simp_all
  from pb_decode_stray_writes [OF 1 2 3 this, of 0 demo_denv demo_world "0x1000"]
  have r: "(\<exists>w'. pb_decode 2 demo_denv [pair_field] 0x1000 ?s demo_world = Some (True, ?s, w') \<and>
      (\<forall>k < 4. memory_of w' (0x1000 + ucast (data_offset pair_field) + of_nat k) = 0))"
    "(\<exists>t' w'. pb_decode 2 demo_denv [] 0x1000 ?t demo_world = Some (True, t', w') \<and>
      (\<forall>x. x \<notin> region (local_count (demo_denv :: unit denv) 1) 4 \<longrightarrow>
        memory_of w' x = (if x = 0x1000 then if (5 :: u32) \<noteq> 0 then 1 else 0 else memory_of demo_world x)))"
    by (simp_all add: numeral_2_eq_2)
  from r(1) obtain w1 where w1: "pb_decode 2 demo_denv [pair_field] 0x1000 ?s demo_world = Some (True, ?s, w1)"
    "\<forall>k < 4. memory_of w1 (0x1000 + ucast (data_offset pair_field) + of_nat k) = 0" by blast
  from w1(2) [rule_format, of 3] have "memory_of w1 0x1003 = 0" by (simp add: pair_field_def)
  moreover have "(0x1000 :: u64) \<notin> region (local_count (demo_denv :: unit denv) 1) 4"
    by (simp add: region_def demo_denv_def)
  ultimately show ?thesis using w1(1) r(2) by (fastforce simp: demo_world_def)
qed

end
